(* ===== verification/Areamy_Prelude.thy ===== *)
theory Areamy_Prelude
  imports Main "HOL-Library.Word"
begin

text \<open>
  Shared vocabulary of the development: the result type of fallible operations, the integer
  widths the code relies on, the collections of facts the component theories add to, and the
  generic list lemmas (counting and updating) that the thread models use.
\<close>

section \<open>Collections and types\<close>

named_theorems edge_simps \<open>unfolding rules of the edge operations\<close>
named_theorems inv_intros \<open>introduction rules: an operation keeps an invariant\<close>

text \<open>\<open>Result<T, E>\<close> of the code: every error return is a value.\<close>

datatype ('a, 'e) result = Ok 'a | Err 'e

type_synonym u64 = "64 word"

text \<open>A waker is identified by the target it wakes; \<open>will_wake\<close> is equality of targets.\<close>

type_synonym waker = nat

text \<open>\<open>Option<NonZeroUsize>\<close>: the bound of an edge, \<open>None\<close> for an unbounded one. The code's
  type excludes 0; \<open>good_bound\<close> says so where it matters.\<close>

type_synonym bound = "nat option"

definition good_bound :: "bound \<Rightarrow> bool" where
  "good_bound b = (case b of None \<Rightarrow> True | Some n \<Rightarrow> 0 < n)"

lemma good_bound_simps [simp]:
  "good_bound None" "good_bound (Some n) = (0 < n)"
  by (simp_all add: good_bound_def)

subsection \<open>Results\<close>

fun is_ok :: "('a, 'e) result \<Rightarrow> bool" where
  "is_ok (Ok _) = True"
| "is_ok (Err _) = False"

lemma is_ok_iff: "is_ok r = (\<exists>x. r = Ok x)"
  by (cases r) auto

fun map_result :: "('a \<Rightarrow> 'b) \<Rightarrow> ('a, 'e) result \<Rightarrow> ('b, 'e) result" where
  "map_result f (Ok x) = Ok (f x)"
| "map_result f (Err e) = Err e"

lemma map_result_eq [simp]:
  "map_result f r = Err e \<longleftrightarrow> r = Err e"
  "map_result f r = Ok y \<longleftrightarrow> (\<exists>x. r = Ok x \<and> f x = y)"
  by (cases r; auto)+

section \<open>Counting list elements\<close>

text \<open>Thread models keep one program counter per thread in a list; the code's counters are
  compared with how many threads are at a given point.\<close>

definition count_where :: "('a \<Rightarrow> bool) \<Rightarrow> 'a list \<Rightarrow> nat" where
  "count_where P xs = length (filter P xs)"

lemma count_where_Nil [simp]: "count_where P [] = 0"
  by (simp add: count_where_def)

lemma count_where_Cons [simp]: "count_where P (x # xs) = of_bool (P x) + count_where P xs"
  by (simp add: count_where_def)

lemma count_where_append [simp]:
  "count_where P (xs @ ys) = count_where P xs + count_where P ys"
  by (simp add: count_where_def)

lemma count_where_0_iff: "count_where P xs = 0 \<longleftrightarrow> (\<forall>x\<in>set xs. \<not> P x)"
  by (auto simp: count_where_def filter_empty_conv)

lemma count_where_pos_iff: "0 < count_where P xs \<longleftrightarrow> (\<exists>x\<in>set xs. P x)"
  using count_where_0_iff [of P xs] by (auto intro: gr0I)

lemma count_where_update:
  "i < length xs \<Longrightarrow>
     count_where P (xs[i := v]) + of_bool (P (xs ! i)) = count_where P xs + of_bool (P v)"
proof (induction xs arbitrary: i)
  case Nil
  then show ?case by simp
next
  case (Cons x xs)
  show ?case
  proof (cases i)
    case 0
    then show ?thesis by simp
  next
    case (Suc j)
    with Cons.prems have "j < length xs" by simp
    from Cons.IH [OF this] Suc show ?thesis by simp
  qed
qed

lemma count_where_same:
  "i < length xs \<Longrightarrow> P v = P (xs ! i) \<Longrightarrow> count_where P (xs[i := v]) = count_where P xs"
  using count_where_update [of i xs P v] by simp

lemma count_where_pos_nth: "i < length xs \<Longrightarrow> P (xs ! i) \<Longrightarrow> 0 < count_where P xs"
  by (auto simp: count_where_pos_iff)

lemma count_where_map: "count_where P (map f xs) = count_where (P \<circ> f) xs"
  by (induction xs) simp_all

lemma count_where_mono:
  "(\<And>x. x \<in> set xs \<Longrightarrow> P x \<Longrightarrow> Q x) \<Longrightarrow> count_where P xs \<le> count_where Q xs"
  by (induction xs) (auto simp: of_bool_def)

section \<open>Updating lists\<close>

lemma list_update_last_append: "(xs @ [x])[length xs := y] = xs @ [y]"
  by simp

lemma set_list_update_subset: "set (xs[i := v]) \<subseteq> insert v (set xs)"
  by (rule set_update_subset_insert)

lemma all_set_update:
  "(\<forall>x\<in>set xs. P x) \<Longrightarrow> P v \<Longrightarrow> (\<forall>x\<in>set (xs[i := v]). P x)"
  using set_update_subset_insert by fastforce

lemma ex_set_nth: "(\<exists>x\<in>set xs. P x) \<longleftrightarrow> (\<exists>j<length xs. P (xs ! j))"
  by (metis in_set_conv_nth)

lemma ex_set_update:
  assumes "i < length xs"
  shows "(\<exists>x\<in>set (xs[i := v]). P x) \<longleftrightarrow> P v \<or> (\<exists>j<length xs. j \<noteq> i \<and> P (xs ! j))"
proof -
  have "(\<exists>x\<in>set (xs[i := v]). P x) \<longleftrightarrow> (\<exists>j<length xs. P (xs[i := v] ! j))"
    by (simp add: ex_set_nth)
  also have "\<dots> \<longleftrightarrow> P v \<or> (\<exists>j<length xs. j \<noteq> i \<and> P (xs ! j))"
    using assms by (metis nth_list_update_eq nth_list_update_neq)
  finally show ?thesis .
qed

lemma nth_update_cases: "j < length xs \<Longrightarrow> xs[i := v] ! j = (if i = j then v else xs ! j)"
  by (simp add: nth_list_update)

lemma nth_update_any: "xs[i := v] ! j = (if i = j \<and> i < length xs then v else xs ! j)"
  by (cases "i < length xs") (auto simp: nth_list_update list_update_beyond)

section \<open>Loops that may block\<close>

text \<open>A \<open>loop { ... }\<close> of the code whose body goes on with a new state (\<open>Inl\<close>), leaves with a value
  (\<open>Inr\<close>), or blocks forever (\<open>None\<close>).\<close>

partial_function (option) loop :: "('s \<Rightarrow> ('s + 'b) option) \<Rightarrow> 's \<Rightarrow> 'b option" where
  "loop body s =
     (case body s of
        None \<Rightarrow> None
      | Some (Inl s') \<Rightarrow> loop body s'
      | Some (Inr b) \<Rightarrow> Some b)"

declare loop.simps [code]

lemma loop_invariant:
  assumes l: "loop body s = Some b" and i: "P s"
    and step: "\<And>s s'. P s \<Longrightarrow> body s = Some (Inl s') \<Longrightarrow> P s'"
    and exit: "\<And>s b. P s \<Longrightarrow> body s = Some (Inr b) \<Longrightarrow> Q b"
  shows "Q b"
proof -
  have "(\<forall>s s'. P s \<longrightarrow> body s = Some (Inl s') \<longrightarrow> P s') \<longrightarrow>
        (\<forall>s b. P s \<longrightarrow> body s = Some (Inr b) \<longrightarrow> Q b) \<longrightarrow> P s \<longrightarrow> Q b"
  proof (rule loop.raw_induct [OF _ l], intro impI)
    fix f body s b
    assume IH: "\<And>body s b. f body s = Some b \<Longrightarrow>
        (\<forall>s s'. P s \<longrightarrow> body s = Some (Inl s') \<longrightarrow> P s') \<longrightarrow>
        (\<forall>s b. P s \<longrightarrow> body s = Some (Inr b) \<longrightarrow> Q b) \<longrightarrow> P s \<longrightarrow> Q b"
      and e: "(case body s of None \<Rightarrow> None | Some (Inl s') \<Rightarrow> f body s' | Some (Inr b) \<Rightarrow> Some b) = Some b"
      and a: "\<forall>s s'. P s \<longrightarrow> body s = Some (Inl s') \<longrightarrow> P s'"
        "\<forall>s b. P s \<longrightarrow> body s = Some (Inr b) \<longrightarrow> Q b" "P s"
    from e consider s' where "body s = Some (Inl s')" "f body s' = Some b" | "body s = Some (Inr b)"
      by (auto split: option.splits sum.splits)
    then show "Q b"
    proof cases
      case 1
      with a IH [OF 1(2)] show ?thesis by blast
    next
      case 2
      with a show ?thesis by blast
    qed
  qed
  with i step exit show ?thesis by blast
qed

lemma loop_returns:
  assumes step: "\<And>s. P s \<Longrightarrow> (\<exists>b. body s = Some (Inr b)) \<or> (\<exists>s'. body s = Some (Inl s') \<and> P s' \<and> m s' < (m s :: nat))"
    and start: "P s"
  shows "\<exists>b. loop body s = Some b"
  using start
proof (induction "m s" arbitrary: s rule: less_induct)
  case less
  from step [OF less.prems] show ?case
  proof
    assume "\<exists>b. body s = Some (Inr b)"
    then show ?thesis by (auto simp: loop.simps [of body s])
  next
    assume "\<exists>s'. body s = Some (Inl s') \<and> P s' \<and> m s' < m s"
    then obtain s' where "body s = Some (Inl s')" "P s'" "m s' < m s" by blast
    with less.hyps [of s'] show ?thesis by (simp add: loop.simps [of body s])
  qed
qed

end
