(* ===== verification/Core.thy ===== *)
theory Core
  imports Areamy_Prelude
begin

text \<open>
  The currencies every layer carries: errors (src/error/core.rs), messages (src/message.rs), the
  outcomes of a non-blocking push (src/graph/outlet/try_pushable.rs) and of offering data to a
  routine (src/node/routine.rs), and what a waiter can do with an edge (src/edge/sync/shared.rs).
\<close>

section \<open>Errors\<close>

text \<open>\<open>Box<dyn AnyErr>\<close>: a value of some concrete error type. The type is kept as its name, the
  value as a number; \<open>downcast\<close> compares types only. The operations of the other theories carry the
  \<open>ErrorKind\<close>; the location and the backtrace around it (\<open>located\<close> below) are read by nothing but \<open>Display\<close>.\<close>

datatype any_err = AnyErr (any_type: string) (any_value: nat)

datatype error = Fatal string | Any any_err | Closed

type_synonym 'a res = "('a, error) result"

fun is_closed :: "error \<Rightarrow> bool" where
  "is_closed Closed = True"
| "is_closed _ = False"

lemma is_closed_iff [simp]: "is_closed e \<longleftrightarrow> e = Closed"
  by (cases e) auto

fun is_type :: "string \<Rightarrow> error \<Rightarrow> bool" where
  "is_type T (Any a) = (any_type a = T)"
| "is_type T _ = False"

text \<open>\<open>downcast_any\<close>: the value when the type matches, the error handed back otherwise. Both
  \<open>unreachable!\<close> arms are excluded by the guard; they are the \<open>undefined\<close>-free last equation.\<close>

definition downcast_any :: "string \<Rightarrow> error \<Rightarrow> (nat, error) result" where
  "downcast_any T e =
     (if \<not> is_type T e then Err e
      else case e of Any a \<Rightarrow> Ok (any_value a) | _ \<Rightarrow> Err e)"

lemma downcast_any_Ok: "downcast_any T e = Ok v \<longleftrightarrow> e = Any (AnyErr T v)"
proof (cases e)
  case (Any a)
  then show ?thesis by (cases a) (auto simp: downcast_any_def)
qed (auto simp: downcast_any_def)

lemma downcast_any_Err: "downcast_any T e = Err e' \<longleftrightarrow> e' = e \<and> \<not> is_type T e"
  by (cases e) (auto simp: downcast_any_def)

text \<open>\<open>Display\<close> of an error kind; how a user's error prints is a parameter.\<close>

fun display_kind :: "(any_err \<Rightarrow> string) \<Rightarrow> error \<Rightarrow> string" where
  "display_kind show_any (Fatal m) = ''Fatal'' @ [CHR 10, CHR 10] @ m"
| "display_kind show_any (Any a) = show_any a"
| "display_kind show_any Closed = ''Closed''"

fun error_source :: "error \<Rightarrow> any_err option" where
  "error_source (Any a) = Some a"
| "error_source (Fatal _) = None"
| "error_source Closed = None"

fun show_nat :: "nat \<Rightarrow> string" where
  "show_nat n = (if n < 10 then [char_of (48 + n)] else show_nat (n div 10) @ [char_of (48 + n mod 10)])"

declare show_nat.simps [simp del]

text \<open>\<open>Location\<close> and \<open>Error\<close>; a backtrace is what it prints. \<open>fatal\<close>, \<open>any_err\<close> and \<open>closed\<close> take the place the
  macro is called at.\<close>

record location =
  lc_file :: string
  lc_line :: "32 word"

definition display_location :: "location \<Rightarrow> string" where
  "display_location l = lc_file l @ '':'' @ show_nat (unat (lc_line l))"

record located =
  le_kind :: error
  le_location :: location
  le_backtrace :: string

definition fatal_at :: "location \<Rightarrow> string \<Rightarrow> string \<Rightarrow> located" where
  "fatal_at l bt m = \<lparr>le_kind = Fatal m, le_location = l, le_backtrace = bt\<rparr>"

definition any_err_at :: "location \<Rightarrow> string \<Rightarrow> any_err \<Rightarrow> located" where
  "any_err_at l bt a = \<lparr>le_kind = Any a, le_location = l, le_backtrace = bt\<rparr>"

definition closed_at :: "location \<Rightarrow> string \<Rightarrow> located" where
  "closed_at l bt = \<lparr>le_kind = Closed, le_location = l, le_backtrace = bt\<rparr>"

text \<open>\<open>Display\<close>, which \<open>Debug\<close> is too.\<close>

definition display_error :: "(any_err \<Rightarrow> string) \<Rightarrow> located \<Rightarrow> string" where
  "display_error show_any e =
     display_kind show_any (le_kind e) @ [CHR 10, CHR 10] @ ''At: '' @ display_location (le_location e) @
     [CHR 10, CHR 10] @ ''Trace: '' @ [CHR 10, CHR 10] @ le_backtrace e"

text \<open>\<open>downcast_any\<close> of a whole error: on a mismatch it is handed back as it was.\<close>

definition downcast_located :: "string \<Rightarrow> located \<Rightarrow> nat + located" where
  "downcast_located T e = (case downcast_any T (le_kind e) of Ok v \<Rightarrow> Inl v | Err _ \<Rightarrow> Inr e)"

section \<open>Messages\<close>

datatype ('d, 's) message = Data 'd | Flush 's | Marker 's

fun message_data :: "('d, 's) message \<Rightarrow> 'd option" where
  "message_data (Data d) = Some d"
| "message_data (Flush _) = None"
| "message_data (Marker _) = None"

fun as_data :: "('d, 's) message \<Rightarrow> 'd option" where
  "as_data (Data d) = Some d"
| "as_data (Flush _) = None"
| "as_data (Marker _) = None"

fun data_loop :: "'d list \<Rightarrow> ('d, 's) message list \<Rightarrow> 'd list" where
  "data_loop a [] = a"
| "data_loop a (item # messages) =
     (case item of Data d \<Rightarrow> data_loop (a @ [d]) messages | _ \<Rightarrow> data_loop a messages)"

definition data_from_iter :: "('d, 's) message list \<Rightarrow> 'd list" where
  "data_from_iter messages = data_loop [] messages"

definition is_data :: "('d, 's) message \<Rightarrow> bool" where
  "is_data m = (as_data m \<noteq> None)"

lemma is_data_simps [simp]:
  "is_data (Data d)" "\<not> is_data (Flush s)" "\<not> is_data (Marker s)"
  by (simp_all add: is_data_def)

lemma as_data_eq_data: "as_data m = message_data m"
  by (cases m) simp_all

lemma data_loop_eq: "data_loop a ms = a @ List.map_filter message_data ms"
  by (induction ms arbitrary: a) (auto simp: List.map_filter_simps split: message.splits)

text \<open>The messages of a stream that are not data, in order.\<close>

definition signals :: "('d, 's) message list \<Rightarrow> ('d, 's) message list" where
  "signals ms = filter (\<lambda>m. \<not> is_data m) ms"

text \<open>A message as the signal it carries on, if it is one.\<close>

fun signal_of :: "('i, 's) message \<Rightarrow> ('o, 's) message list" where
  "signal_of (Data _) = []"
| "signal_of (Flush s) = [Flush s]"
| "signal_of (Marker s) = [Marker s]"

section \<open>Outcomes\<close>

datatype 'm try_push = Pushed | Full 'm | Stuck 'm

fun refused :: "'m try_push \<Rightarrow> 'm option" where
  "refused Pushed = None"
| "refused (Full m) = Some m"
| "refused (Stuck m) = Some m"

lemma refused_None [simp]: "refused t = None \<longleftrightarrow> t = Pushed"
  by (cases t) auto

lemma refused_Some: "refused t = Some m \<longleftrightarrow> t = Full m \<or> t = Stuck m"
  by (cases t) auto

datatype 'm accept = Accepted | AFull 'm

datatype edge_state = Ready | Idle | Exhausted

datatype 'a poll = Pending | PReady 'a

end
