(* ===== verification/Sync_Edge.thy ===== *)
theory Sync_Edge
  imports Core
begin

text \<open>
  The blocking mutex + condvar edge of src/edge/sync: the shared state (shared.rs), the producer
  handle (sender.rs) and the consumer handle (receiver.rs).

  Every method of the code takes the lock once (the blocking ones once per wait), so each is one
  function on the shared state; what it does after unlocking (notifying a condvar, waking the
  wakers of refused senders) is returned as a list of effects, in the code's order. Where a
  method waits on a condvar, the other threads are an argument \<open>env\<close>: it maps the state the
  waiter leaves behind to the state it finds when it is woken, \<open>None\<close> when nothing wakes it.
  Mutex poisoning (a panic of another thread inside the lock) is not modelled: no critical
  section of these files runs user code.
\<close>

section \<open>Shared state\<close>

datatype freed = FreedOne | FreedAll

datatype effect =
    NotifyNotEmpty        \<comment> \<open>\<open>not_empty.notify_one()\<close>\<close>
  | NotifyAllNotEmpty
  | NotifyNotFull         \<comment> \<open>\<open>not_full.notify_one()\<close>\<close>
  | NotifyAllNotFull
  | Wake waker

record ('d, 's) inner =
  i_buffer :: "('d, 's) message list"
  i_closed :: bool
  i_consumer_waiting :: bool
  i_bound :: bound
  i_producers_waiting :: nat
  i_progress :: u64
  i_refused :: "waker list"

record ('d, 's) shared = "('d, 's) inner" +
  producer_count :: nat

definition is_full :: "('d, 's) shared \<Rightarrow> bool" where
  "is_full sh = (case i_bound sh of None \<Rightarrow> False | Some b \<Rightarrow> b \<le> length (i_buffer sh))"

definition wake_all :: "waker list \<Rightarrow> effect list" where
  "wake_all wakers = map Wake wakers"

text \<open>\<open>close\<close>: mark closed, notify both condvars, take the refused wakers, unlock, wake them.\<close>

definition close_edge :: "('d, 's) shared \<Rightarrow> ('d, 's) shared \<times> effect list" where
  "close_edge sh =
     (sh\<lparr>i_closed := True, i_refused := []\<rparr>,
      [NotifyAllNotEmpty, NotifyAllNotFull] @ wake_all (i_refused sh))"

text \<open>\<open>close_infallible\<close> is \<open>close\<close> under a lock whose poison is recovered.\<close>

definition close_infallible :: "('d, 's) shared \<Rightarrow> ('d, 's) shared \<times> effect list" where
  "close_infallible sh = close_edge sh"

section \<open>The producer handle\<close>

record sender =
  s_refused_at :: "u64 option"
  s_waker :: "waker option"
  s_released :: bool

definition fresh_sender :: sender where
  "fresh_sender = \<lparr>s_refused_at = None, s_waker = None, s_released = False\<rparr>"

definition sender_schedule :: "waker \<Rightarrow> sender \<Rightarrow> sender" where
  "sender_schedule w tx =
     (if s_waker tx = Some w then tx
      else tx\<lparr>s_waker := Some w, s_refused_at := None\<rparr>)"

definition sender_clone :: "sender \<Rightarrow> ('d, 's) shared \<Rightarrow> sender \<times> ('d, 's) shared" where
  "sender_clone tx sh =
     (\<lparr>s_refused_at = None, s_waker = None, s_released = s_released tx\<rparr>,
      if \<not> s_released tx then sh\<lparr>producer_count := producer_count sh + 1\<rparr> else sh)"

text \<open>\<open>release\<close>: \<open>mem::replace(released, true)\<close>, and \<open>fetch_sub\<close> only when it was not set. True
  when the previous count was 1.\<close>

definition sender_release :: "sender \<Rightarrow> ('d, 's) shared \<Rightarrow> bool \<times> sender \<times> ('d, 's) shared" where
  "sender_release tx sh =
     (if s_released tx then (False, tx, sh)
      else (producer_count sh = 1, tx\<lparr>s_released := True\<rparr>,
            sh\<lparr>producer_count := producer_count sh - 1\<rparr>))"

definition sender_close ::
  "sender \<Rightarrow> ('d, 's) shared \<Rightarrow> unit res \<times> sender \<times> ('d, 's) shared \<times> effect list" where
  "sender_close tx sh =
     (let (last, tx', sh') = sender_release tx sh
      in if last then (let (sh'', eff) = close_infallible sh' in (Ok (), tx', sh'', eff))
         else (Ok (), tx', sh', []))"

definition sender_drop :: "sender \<Rightarrow> ('d, 's) shared \<Rightarrow> ('d, 's) shared \<times> effect list" where
  "sender_drop tx sh =
     (let (last, _, sh') = sender_release tx sh
      in if last then close_infallible sh' else (sh', []))"

definition wake_consumer :: "('d, 's) shared \<Rightarrow> ('d, 's) shared \<times> effect list" where
  "wake_consumer sh =
     (sh\<lparr>i_consumer_waiting := False\<rparr>, if i_consumer_waiting sh then [NotifyNotEmpty] else [])"

text \<open>The part of \<open>push_back\<close> after the wait: the edge may have closed meanwhile.\<close>

definition push_land ::
  "('d, 's) message \<Rightarrow> ('d, 's) shared \<Rightarrow> unit res \<times> ('d, 's) shared \<times> effect list" where
  "push_land m sh =
     (if i_closed sh then (Err Closed, sh, [])
      else let (sh', eff) = wake_consumer (sh\<lparr>i_buffer := i_buffer sh @ [m]\<rparr>)
           in (Ok (), sh', eff))"

text \<open>\<open>wait_while(is_full && !closed)\<close> with the producer counted in; the count is taken back under
  the re-acquired lock.\<close>

partial_function (option) wait_while_full ::
  "(('d, 's) shared \<times> 'w \<Rightarrow> (('d, 's) shared \<times> 'w) option) \<Rightarrow> ('d, 's) shared \<times> 'w \<Rightarrow>
   (('d, 's) shared \<times> 'w) option" where
  "wait_while_full env st =
     (if is_full (fst st) \<and> \<not> i_closed (fst st)
      then (case env st of None \<Rightarrow> None | Some st' \<Rightarrow> wait_while_full env st')
      else Some st)"

definition wait_for_room ::
  "(('d, 's) shared \<times> 'w \<Rightarrow> (('d, 's) shared \<times> 'w) option) \<Rightarrow> ('d, 's) shared \<times> 'w \<Rightarrow>
   (('d, 's) shared \<times> 'w) option" where
  "wait_for_room env st =
     (case wait_while_full env
             ((fst st)\<lparr>i_producers_waiting := i_producers_waiting (fst st) + 1\<rparr>, snd st) of
        None \<Rightarrow> None
      | Some (sh, w) \<Rightarrow> Some (sh\<lparr>i_producers_waiting := i_producers_waiting sh - 1\<rparr>, w))"

definition push_back ::
  "(('d, 's) shared \<times> 'w \<Rightarrow> (('d, 's) shared \<times> 'w) option) \<Rightarrow> sender \<Rightarrow>
   ('d, 's) message \<Rightarrow> ('d, 's) shared \<times> 'w \<Rightarrow>
   (unit res \<times> (('d, 's) shared \<times> 'w) \<times> effect list) option" where
  "push_back env tx m st =
     (if s_released tx then Some (Err Closed, st, [])
      else case (if is_full (fst st) \<and> \<not> i_closed (fst st) then wait_for_room env st else Some st)
           of None \<Rightarrow> None
            | Some (sh, w) \<Rightarrow>
                (let (r, sh', eff) = push_land m sh in Some (r, (sh', w), eff)))"

definition try_push_back ::
  "('d, 's) message \<Rightarrow> sender \<Rightarrow> ('d, 's) shared \<Rightarrow>
   ('d, 's) message try_push res \<times> sender \<times> ('d, 's) shared \<times> effect list" where
  "try_push_back m tx sh =
     (if s_released tx then (Err Closed, tx, sh, [])
      else if i_closed sh then (Err Closed, tx, sh, [])
      else if is_full sh then
        (if s_refused_at tx = Some (i_progress sh) then (Ok (Stuck m), tx, sh, [])
         else (Ok (Full m), tx\<lparr>s_refused_at := Some (i_progress sh)\<rparr>,
               (case s_waker tx of
                  Some w \<Rightarrow> sh\<lparr>i_refused := i_refused sh @ [w]\<rparr>
                | None \<Rightarrow> sh), []))
      else let (sh', eff) = wake_consumer (sh\<lparr>i_buffer := i_buffer sh @ [m]\<rparr>)
           in (Ok Pushed, tx, sh', eff))"

section \<open>The consumer handle\<close>

definition with_bound :: "bound \<Rightarrow> ('d, 's) shared" where
  "with_bound b =
     \<lparr>i_buffer = [], i_closed = False, i_consumer_waiting = False, i_bound = b,
      i_producers_waiting = 0, i_progress = 0, i_refused = [], producer_count = 0\<rparr>"

definition new_receiver :: "('d, 's) shared" where
  "new_receiver = with_bound None"

definition bounded_receiver :: "nat \<Rightarrow> ('d, 's) shared" where
  "bounded_receiver b = with_bound (Some b)"

definition mint_sender :: "('d, 's) shared \<Rightarrow> sender \<times> ('d, 's) shared" where
  "mint_sender sh = (fresh_sender, sh\<lparr>producer_count := producer_count sh + 1\<rparr>)"

definition receiver_state :: "('d, 's) shared \<Rightarrow> edge_state res" where
  "receiver_state sh =
     (if i_buffer sh \<noteq> [] then Ok Ready
      else if i_closed sh \<or> producer_count sh = 0 then Ok Exhausted
      else Ok Idle)"

definition notify_producers :: "bool \<Rightarrow> freed \<Rightarrow> effect list" where
  "notify_producers producers_waiting freed =
     (if producers_waiting
      then (case freed of FreedOne \<Rightarrow> [NotifyNotFull] | FreedAll \<Rightarrow> [NotifyAllNotFull])
      else [])"

text \<open>\<open>drained\<close> bumps the progress; \<open>drained_refused\<close>, its cold half, takes the refused wakers
  in the same critical section (the list it trades them for, the scratch, is always empty).\<close>

definition drained_refused ::
  "('d, 's) shared \<Rightarrow> bool \<Rightarrow> freed \<Rightarrow> ('d, 's) shared \<times> effect list" where
  "drained_refused sh producers_waiting freed =
     (sh\<lparr>i_refused := []\<rparr>, notify_producers producers_waiting freed @ wake_all (i_refused sh))"

definition drained :: "('d, 's) shared \<Rightarrow> freed \<Rightarrow> ('d, 's) shared \<times> effect list" where
  "drained sh freed =
     (let sh1 = sh\<lparr>i_progress := i_progress sh + 1\<rparr>;
          producers_waiting = (0 < i_producers_waiting sh1)
      in if i_refused sh1 \<noteq> [] then drained_refused sh1 producers_waiting freed
         else (sh1, notify_producers producers_waiting freed))"

definition receiver_poll ::
  "('d, 's) shared \<Rightarrow> ('d, 's) message option res \<times> ('d, 's) shared \<times> effect list" where
  "receiver_poll sh =
     (case i_buffer sh of
        m # ms \<Rightarrow> (let (sh', eff) = drained (sh\<lparr>i_buffer := ms\<rparr>) FreedOne
                  in (Ok (Some m), sh', eff))
      | [] \<Rightarrow> if i_closed sh then (Err Closed, sh, []) else (Ok None, sh, []))"

definition try_pop ::
  "('d, 's) shared \<Rightarrow> ('d, 's) message option res \<times> ('d, 's) shared \<times> effect list" where
  "try_pop sh =
     (case i_buffer sh of
        m # ms \<Rightarrow> (let (sh', eff) = drained (sh\<lparr>i_buffer := ms\<rparr>) FreedOne
                  in (Ok (Some m), sh', eff))
      | [] \<Rightarrow> if i_closed sh \<or> producer_count sh = 0 then (Err Closed, sh, [])
              else (Ok None, sh, []))"

partial_function (option) wait_nonempty ::
  "(('d, 's) shared \<times> 'w \<Rightarrow> (('d, 's) shared \<times> 'w) option) \<Rightarrow> ('d, 's) shared \<times> 'w \<Rightarrow>
   (unit res \<times> ('d, 's) shared \<times> 'w) option" where
  "wait_nonempty env st =
     (if i_buffer (fst st) \<noteq> [] then Some (Ok (), st)
      else if i_closed (fst st) \<or> producer_count (fst st) = 0 then Some (Err Closed, st)
      else (case env ((fst st)\<lparr>i_consumer_waiting := True\<rparr>, snd st) of
              None \<Rightarrow> None
            | Some st' \<Rightarrow> wait_nonempty env st'))"

definition wait_front ::
  "(('d, 's) shared \<times> 'w \<Rightarrow> (('d, 's) shared \<times> 'w) option) \<Rightarrow> ('d, 's) shared \<times> 'w \<Rightarrow>
   (unit res \<times> ('d, 's) shared \<times> 'w) option" where
  "wait_front env st = wait_nonempty env st"

definition read_front ::
  "(('d, 's) shared \<times> 'w \<Rightarrow> (('d, 's) shared \<times> 'w) option) \<Rightarrow> ('d, 's) shared \<times> 'w \<Rightarrow>
   (('d, 's) message res \<times> (('d, 's) shared \<times> 'w) \<times> effect list) option" where
  "read_front env st =
     (case wait_nonempty env st of
        None \<Rightarrow> None
      | Some (Err e, st') \<Rightarrow> Some (Err e, st', [])
      | Some (Ok _, sh, w) \<Rightarrow>
          (case i_buffer sh of
             [] \<Rightarrow> Some (Err (Fatal ''non-empty queue with no element''), (sh, w), [])
           | m # ms \<Rightarrow>
               (let (sh', eff) = drained (sh\<lparr>i_buffer := ms\<rparr>) FreedOne
                in Some (Ok m, (sh', w), eff))))"

definition read_all ::
  "(('d, 's) shared \<times> 'w \<Rightarrow> (('d, 's) shared \<times> 'w) option) \<Rightarrow> ('d, 's) shared \<times> 'w \<Rightarrow>
   (('d, 's) message list res \<times> (('d, 's) shared \<times> 'w) \<times> effect list) option" where
  "read_all env st =
     (case wait_nonempty env st of
        None \<Rightarrow> None
      | Some (Err e, st') \<Rightarrow> Some (Err e, st', [])
      | Some (Ok _, sh, w) \<Rightarrow>
          (let (sh', eff) = drained (sh\<lparr>i_buffer := []\<rparr>) FreedAll
           in Some (Ok (i_buffer sh), (sh', w), eff)))"

definition receiver_close :: "('d, 's) shared \<Rightarrow> unit res \<times> ('d, 's) shared \<times> effect list" where
  "receiver_close sh = (let (sh', eff) = close_edge sh in (Ok (), sh', eff))"

definition receiver_drop :: "('d, 's) shared \<Rightarrow> ('d, 's) shared \<times> effect list" where
  "receiver_drop sh = close_infallible sh"

definition receiver_len :: "('d, 's) shared \<Rightarrow> nat res" where
  "receiver_len sh = Ok (length (i_buffer sh))"

definition receiver_is_empty :: "('d, 's) shared \<Rightarrow> bool res" where
  "receiver_is_empty sh = map_result (\<lambda>n. n = 0) (receiver_len sh)"

declare wait_while_full.simps [code] wait_nonempty.simps [code]

section \<open>What each operation does to the buffer\<close>

lemmas sync_ops_defs [edge_simps] =
  try_push_back_def push_land_def wake_consumer_def receiver_poll_def try_pop_def drained_def
  drained_refused_def close_edge_def close_infallible_def sender_close_def sender_drop_def
  sender_release_def sender_clone_def mint_sender_def sender_schedule_def receiver_close_def
  receiver_drop_def

lemma drained_fields [simp]:
  "i_buffer (fst (drained sh f)) = i_buffer sh"
  "i_closed (fst (drained sh f)) = i_closed sh"
  "i_bound (fst (drained sh f)) = i_bound sh"
  "i_consumer_waiting (fst (drained sh f)) = i_consumer_waiting sh"
  "i_producers_waiting (fst (drained sh f)) = i_producers_waiting sh"
  "i_progress (fst (drained sh f)) = i_progress sh + 1"
  "i_refused (fst (drained sh f)) = []"
  "producer_count (fst (drained sh f)) = producer_count sh"
  by (auto simp: drained_def drained_refused_def Let_def)

lemma drained_wakes: "w \<in> set (i_refused sh) \<Longrightarrow> Wake w \<in> set (snd (drained sh f))"
  by (auto simp: drained_def drained_refused_def wake_all_def Let_def)

lemma drained_notifies_one:
  "0 < i_producers_waiting sh \<Longrightarrow> NotifyNotFull \<in> set (snd (drained sh FreedOne))"
  by (auto simp: drained_def drained_refused_def notify_producers_def Let_def)

lemma drained_notifies_all:
  "0 < i_producers_waiting sh \<Longrightarrow> NotifyAllNotFull \<in> set (snd (drained sh FreedAll))"
  by (auto simp: drained_def drained_refused_def notify_producers_def Let_def)

lemma close_edge_fields [simp]:
  "i_buffer (fst (close_edge sh)) = i_buffer sh"
  "i_closed (fst (close_edge sh))"
  "i_bound (fst (close_edge sh)) = i_bound sh"
  "i_consumer_waiting (fst (close_edge sh)) = i_consumer_waiting sh"
  "i_producers_waiting (fst (close_edge sh)) = i_producers_waiting sh"
  "i_progress (fst (close_edge sh)) = i_progress sh"
  "i_refused (fst (close_edge sh)) = []"
  "producer_count (fst (close_edge sh)) = producer_count sh"
  by (simp_all add: close_edge_def)

lemma close_edge_wakes: "w \<in> set (i_refused sh) \<Longrightarrow> Wake w \<in> set (snd (close_edge sh))"
  by (auto simp: close_edge_def wake_all_def)

lemma try_push_back_cases:
  assumes "try_push_back m tx sh = (r, tx', sh', eff)"
  obtains (closed) "s_released tx \<or> i_closed sh" "r = Err Closed" "tx' = tx" "sh' = sh" "eff = []"
  | (stuck) "\<not> s_released tx" "\<not> i_closed sh" "is_full sh" "s_refused_at tx = Some (i_progress sh)"
      "r = Ok (Stuck m)" "tx' = tx" "sh' = sh" "eff = []"
  | (full) "\<not> s_released tx" "\<not> i_closed sh" "is_full sh" "s_refused_at tx \<noteq> Some (i_progress sh)"
      "r = Ok (Full m)" "tx' = tx\<lparr>s_refused_at := Some (i_progress sh)\<rparr>"
      "sh' = (case s_waker tx of Some w \<Rightarrow> sh\<lparr>i_refused := i_refused sh @ [w]\<rparr> | None \<Rightarrow> sh)"
      "eff = []"
  | (pushed) "\<not> s_released tx" "\<not> i_closed sh" "\<not> is_full sh" "r = Ok Pushed" "tx' = tx"
      "sh' = sh\<lparr>i_buffer := i_buffer sh @ [m], i_consumer_waiting := False\<rparr>"
      "eff = (if i_consumer_waiting sh then [NotifyNotEmpty] else [])"
proof (cases "s_released tx \<or> i_closed sh")
  case True
  with assms closed show ?thesis by (auto simp: try_push_back_def split: if_split_asm)
next
  case open_edge: False
  show ?thesis
  proof (cases "is_full sh")
    case True
    with assms open_edge stuck full show ?thesis
      by (cases "s_refused_at tx = Some (i_progress sh)") (simp_all add: try_push_back_def)
  next
    case False
    with assms open_edge pushed show ?thesis by (simp add: try_push_back_def wake_consumer_def)
  qed
qed

lemma receiver_poll_cases:
  assumes "receiver_poll sh = (r, sh', eff)"
  obtains (some) m ms where "i_buffer sh = m # ms" "r = Ok (Some m)"
      "sh' = fst (drained (sh\<lparr>i_buffer := ms\<rparr>) FreedOne)"
      "eff = snd (drained (sh\<lparr>i_buffer := ms\<rparr>) FreedOne)"
  | (closed) "i_buffer sh = []" "i_closed sh" "r = Err Closed" "sh' = sh" "eff = []"
  | (none) "i_buffer sh = []" "\<not> i_closed sh" "r = Ok None" "sh' = sh" "eff = []"
proof (cases "i_buffer sh")
  case Nil
  with assms show ?thesis
    by (cases "i_closed sh") (auto simp: receiver_poll_def intro: closed none)
next
  case (Cons m ms)
  with assms show ?thesis by (intro some [OF Cons]) (auto simp: receiver_poll_def case_prod_unfold)
qed

lemma try_pop_cases:
  assumes "try_pop sh = (r, sh', eff)"
  obtains (some) m ms where "i_buffer sh = m # ms" "r = Ok (Some m)"
      "sh' = fst (drained (sh\<lparr>i_buffer := ms\<rparr>) FreedOne)"
      "eff = snd (drained (sh\<lparr>i_buffer := ms\<rparr>) FreedOne)"
  | (closed) "i_buffer sh = []" "i_closed sh \<or> producer_count sh = 0" "r = Err Closed"
      "sh' = sh" "eff = []"
  | (none) "i_buffer sh = []" "\<not> i_closed sh" "0 < producer_count sh" "r = Ok None"
      "sh' = sh" "eff = []"
proof (cases "i_buffer sh")
  case Nil
  with assms show ?thesis
    by (cases "i_closed sh \<or> producer_count sh = 0") (auto simp: try_pop_def intro: closed none)
next
  case (Cons m ms)
  with assms show ?thesis by (intro some [OF Cons]) (auto simp: try_pop_def case_prod_unfold)
qed

lemma sender_release_cases:
  assumes "sender_release tx sh = (l, tx', sh')"
  obtains (again) "s_released tx" "\<not> l" "tx' = tx" "sh' = sh"
  | (once) "\<not> s_released tx" "l = (producer_count sh = 1)" "tx' = tx\<lparr>s_released := True\<rparr>"
      "sh' = sh\<lparr>producer_count := producer_count sh - 1\<rparr>"
  using assms by (auto simp: sender_release_def split: if_splits)

lemma sender_close_cases:
  assumes "sender_close tx sh = (r, tx', sh', eff)"
  obtains (again) "s_released tx" "r = Ok ()" "tx' = tx" "sh' = sh" "eff = []"
  | (last) "\<not> s_released tx" "producer_count sh = 1" "r = Ok ()" "tx' = tx\<lparr>s_released := True\<rparr>"
      "sh' = fst (close_edge (sh\<lparr>producer_count := 0\<rparr>))"
      "eff = snd (close_edge (sh\<lparr>producer_count := 0\<rparr>))"
  | (more) "\<not> s_released tx" "producer_count sh \<noteq> 1" "r = Ok ()" "tx' = tx\<lparr>s_released := True\<rparr>"
      "sh' = sh\<lparr>producer_count := producer_count sh - 1\<rparr>" "eff = []"
proof (cases "s_released tx")
  case True
  with assms show ?thesis by (intro again) (auto simp: sender_close_def sender_release_def)
next
  case False
  show ?thesis
  proof (cases "producer_count sh = 1")
    case True
    with assms False show ?thesis
      by (intro last)
        (auto simp: sender_close_def sender_release_def close_infallible_def case_prod_unfold)
  next
    case other: False
    with assms False show ?thesis
      by (intro more) (auto simp: sender_close_def sender_release_def case_prod_unfold)
  qed
qed

end
