(* ===== verification/Edge_Interfaces.thy ===== *)
theory Edge_Interfaces
  imports Core
begin

text \<open>
  The contracts an edge of the graph promises its users, as locales over its non-blocking push
  (\<open>TryPushable\<close>, src/graph/outlet/try_pushable.rs; the number is the producer handle that
  pushes) and its non-blocking pop (\<open>Receivable\<close>, src/graph/inlet/receivable.rs):

    \<^item> \<open>fifo_edge\<close>: nothing is lost, duplicated or reordered, a refusal hands back the message;
    \<^item> \<open>bounded_edge\<close>: a bounded edge never holds more than its bound;
    \<^item> \<open>refusing_edge\<close>: \<open>Full\<close> and \<open>Stuck\<close> are told apart per producer handle, so that a producer
      that retries on \<open>Full\<close> and waits on \<open>Stuck\<close> never spins.

  Each edge of the code (sync, waking, poll) interprets them in its own theory.
\<close>

datatype 'm edge_op = EPush nat 'm | EPop

text \<open>A run of operations: the messages the edge took, those it delivered, and how often
  producer \<open>i\<close> was answered \<open>Full\<close> together with the number of successful pops.\<close>

fun run_edge ::
  "(nat \<Rightarrow> 'm \<Rightarrow> 'e \<Rightarrow> 'm try_push res \<times> 'e) \<Rightarrow> ('e \<Rightarrow> 'm option res \<times> 'e) \<Rightarrow>
   'm edge_op list \<Rightarrow> 'e \<Rightarrow> 'm list \<times> 'm list \<times> 'e" where
  "run_edge push pop [] e = ([], [], e)"
| "run_edge push pop (EPush i m # ops) e =
     (let (r, e1) = push i m e; (taken, out, e2) = run_edge push pop ops e1
      in ((if r = Ok Pushed then m # taken else taken), out, e2))"
| "run_edge push pop (EPop # ops) e =
     (let (r, e1) = pop e; (taken, out, e2) = run_edge push pop ops e1
      in (taken, (case r of Ok (Some m) \<Rightarrow> m # out | _ \<Rightarrow> out), e2))"

fun full_answers ::
  "(nat \<Rightarrow> 'm \<Rightarrow> 'e \<Rightarrow> 'm try_push res \<times> 'e) \<Rightarrow> ('e \<Rightarrow> 'm option res \<times> 'e) \<Rightarrow>
   nat \<Rightarrow> 'm edge_op list \<Rightarrow> 'e \<Rightarrow> nat" where
  "full_answers push pop p [] e = 0"
| "full_answers push pop p (EPush i m # ops) e =
     (let (r, e1) = push i m e
      in of_bool (i = p \<and> (\<exists>m'. r = Ok (Full m'))) + full_answers push pop p ops e1)"
| "full_answers push pop p (EPop # ops) e = full_answers push pop p ops (snd (pop e))"

locale fifo_edge =
  fixes contents :: "'e \<Rightarrow> 'm list"
    and push :: "nat \<Rightarrow> 'm \<Rightarrow> 'e \<Rightarrow> 'm try_push res \<times> 'e"
    and pop :: "'e \<Rightarrow> 'm option res \<times> 'e"
  assumes push_pushed: "push i m e = (Ok Pushed, e') \<Longrightarrow> contents e' = contents e @ [m]"
    and push_other: "push i m e = (r, e') \<Longrightarrow> r \<noteq> Ok Pushed \<Longrightarrow> contents e' = contents e"
    and push_hands_back: "push i m e = (Ok t, e') \<Longrightarrow> refused t = Some m' \<Longrightarrow> m' = m"
    and pop_some: "pop e = (Ok (Some m), e') \<Longrightarrow> contents e = m # contents e'"
    and pop_none: "pop e = (Ok None, e') \<Longrightarrow> contents e = [] \<and> contents e' = []"
    and pop_err: "pop e = (Err x, e') \<Longrightarrow> contents e = [] \<and> contents e' = []"
begin

lemma run_fifo:
  "run_edge push pop ops e = (taken, out, e') \<Longrightarrow> contents e @ taken = out @ contents e'"
proof (induction ops arbitrary: e taken out e')
  case Nil
  then show ?case by simp
next
  case (Cons op ops)
  show ?case
  proof (cases op)
    case (EPush i m)
    obtain r e1 where p: "push i m e = (r, e1)" by (cases "push i m e") auto
    obtain t o' e2 where q: "run_edge push pop ops e1 = (t, o', e2)"
      by (cases "run_edge push pop ops e1") auto
    from Cons.IH [OF q] have "contents e1 @ t = o' @ contents e2" .
    moreover from Cons.prems EPush p q
    have "taken = (if r = Ok Pushed then m # t else t)" "out = o'" "e' = e2" by auto
    moreover from p have "contents e1 = (if r = Ok Pushed then contents e @ [m] else contents e)"
      using push_pushed push_other by auto
    ultimately show ?thesis by (auto split: if_splits)
  next
    case EPop
    obtain r e1 where p: "pop e = (r, e1)" by (cases "pop e") auto
    obtain t o' e2 where q: "run_edge push pop ops e1 = (t, o', e2)"
      by (cases "run_edge push pop ops e1") auto
    from Cons.IH [OF q] have *: "contents e1 @ t = o' @ contents e2" .
    have c: "contents e = (case r of Ok (Some m) \<Rightarrow> m # contents e1 | _ \<Rightarrow> contents e1)"
      using p pop_some pop_none pop_err by (cases r) (auto split: option.splits)
    from Cons.prems EPop p q
    have "taken = t" "out = (case r of Ok (Some m) \<Rightarrow> m # o' | _ \<Rightarrow> o')" "e' = e2" by auto
    with * c show ?thesis by (auto split: result.splits option.splits)
  qed
qed

lemma run_delivers_prefix:
  assumes "run_edge push pop ops e = (taken, out, e')"
  shows "out = take (length out) (contents e @ taken)"
  using run_fifo [OF assms] by simp

end

definition within_cap :: "bound \<Rightarrow> nat \<Rightarrow> bool" where
  "within_cap c n = (case c of None \<Rightarrow> True | Some b \<Rightarrow> n \<le> b)"

lemma within_cap_simps [simp]:
  "within_cap None n" "within_cap (Some b) n = (n \<le> b)"
  by (simp_all add: within_cap_def)

locale bounded_edge = fifo_edge +
  fixes cap :: "'e \<Rightarrow> bound"
  assumes push_within: "push i m e = (Ok Pushed, e') \<Longrightarrow> cap e = Some b \<Longrightarrow> length (contents e) < b"
    and push_cap: "push i m e = (r, e') \<Longrightarrow> cap e' = cap e"
    and pop_cap: "pop e = (q, e') \<Longrightarrow> cap e' = cap e"
begin

abbreviation within :: "'e \<Rightarrow> bool" where
  "within e \<equiv> within_cap (cap e) (length (contents e))"

lemma push_keeps_within: "push i m e = (r, e') \<Longrightarrow> within e \<Longrightarrow> within e'"
  using push_within push_cap push_pushed push_other
  by (cases "r = Ok Pushed") (fastforce simp: within_cap_def split: option.splits)+

lemma pop_keeps_within:
  assumes "pop e = (q, e')" "within e"
  shows "within e'"
proof -
  have "length (contents e') \<le> length (contents e)"
  proof (cases q)
    case (Ok mo)
    then show ?thesis using assms pop_some pop_none by (cases mo) fastforce+
  next
    case (Err x)
    then show ?thesis using assms pop_err by fastforce
  qed
  with assms pop_cap show ?thesis by (fastforce simp: within_cap_def split: option.splits)
qed

lemma run_keeps_within:
  "run_edge push pop ops e = (taken, out, e') \<Longrightarrow> within e \<Longrightarrow> within e'"
proof (induction ops arbitrary: e taken out e')
  case Nil
  then show ?case by simp
next
  case (Cons op ops)
  show ?case
  proof (cases op)
    case (EPush i m)
    with Cons.prems obtain r e1 t where "push i m e = (r, e1)" "run_edge push pop ops e1 = (t, out, e')"
      by (auto simp: Let_def split: prod.splits)
    with Cons.prems(2) show ?thesis by (blast intro: Cons.IH push_keeps_within)
  next
    case EPop
    with Cons.prems obtain r e1 o' where "pop e = (r, e1)" "run_edge push pop ops e1 = (taken, o', e')"
      by (auto simp: Let_def split: prod.splits)
    with Cons.prems(2) show ?thesis by (blast intro: Cons.IH pop_keeps_within)
  qed
qed

end

locale refusing_edge = fifo_edge +
  fixes waiting :: "nat \<Rightarrow> 'e \<Rightarrow> bool"
  assumes full_starts: "push i m e = (Ok (Full m'), e') \<Longrightarrow> \<not> waiting i e \<and> waiting i e'"
    and stuck_waits: "push i m e = (Ok (Stuck m'), e') \<Longrightarrow> waiting i e"
    and push_keeps: "push i m e = (r, e') \<Longrightarrow> waiting j e \<Longrightarrow> waiting j e'"
    and empty_pop_keeps: "pop e = (q, e') \<Longrightarrow> (\<nexists>m. q = Ok (Some m)) \<Longrightarrow> waiting j e \<Longrightarrow> waiting j e'"
begin

text \<open>At most one \<open>Full\<close> per producer before the first successful pop and one after each.\<close>

lemma full_answers_bound:
  "run_edge push pop ops e = (taken, out, e') \<Longrightarrow>
     full_answers push pop p ops e + of_bool (waiting p e) \<le> length out + 1"
proof (induction ops arbitrary: e taken out e')
  case Nil
  then show ?case by simp
next
  case (Cons op ops)
  show ?case
  proof (cases op)
    case (EPush i m)
    obtain r e1 where p: "push i m e = (r, e1)" by (cases "push i m e") auto
    obtain t o' e2 where q: "run_edge push pop ops e1 = (t, o', e2)"
      by (cases "run_edge push pop ops e1") auto
    from Cons.IH [OF q] have *: "full_answers push pop p ops e1 + of_bool (waiting p e1) \<le> length o' + 1" .
    from Cons.prems EPush p q have o: "out = o'" by auto
    show ?thesis
    proof (cases "i = p \<and> (\<exists>m'. r = Ok (Full m'))")
      case True
      with p full_starts have "\<not> waiting p e" "waiting p e1" by auto
      with * o True EPush p show ?thesis by simp
    next
      case False
      from p push_keeps have "waiting p e \<Longrightarrow> waiting p e1" by blast
      then have "of_bool (waiting p e) \<le> (of_bool (waiting p e1) :: nat)" by auto
      moreover from False p have "full_answers push pop p (EPush i m # ops) e = full_answers push pop p ops e1"
        by (simp add: Let_def del: of_bool_conj)
      ultimately show ?thesis using * unfolding EPush o by linarith
    qed
  next
    case EPop
    obtain r e1 where p: "pop e = (r, e1)" by (cases "pop e") auto
    obtain t o' e2 where q: "run_edge push pop ops e1 = (t, o', e2)"
      by (cases "run_edge push pop ops e1") auto
    from Cons.IH [OF q] have *: "full_answers push pop p ops e1 + of_bool (waiting p e1) \<le> length o' + 1" .
    from Cons.prems EPop p q have o: "out = (case r of Ok (Some m) \<Rightarrow> m # o' | _ \<Rightarrow> o')" by auto
    show ?thesis
    proof (cases "\<exists>m. r = Ok (Some m)")
      case True
      with o have "length out = Suc (length o')" by auto
      moreover have "of_bool (waiting p e) \<le> (1 :: nat)" by simp
      ultimately show ?thesis using * EPop p by simp
    next
      case False
      with p empty_pop_keeps have "waiting p e \<Longrightarrow> waiting p e1" by blast
      then have "of_bool (waiting p e) \<le> (of_bool (waiting p e1) :: nat)" by auto
      moreover from False o have "length out = length o'" by (auto split: result.splits option.splits)
      moreover have "full_answers push pop p (EPop # ops) e = full_answers push pop p ops e1"
        using p by simp
      ultimately show ?thesis using * unfolding EPop by linarith
    qed
  qed
qed

end

end
