(* ===== verification/Sync_System.thy ===== *)
theory Sync_System
  imports Sync_Edge Edge_Interfaces
begin

text \<open>
  One sync edge with all its handles: the shared state and the list of senders minted or cloned
  so far. Each operation of the edge's public interface that does not block is one step; the
  theory shows the edge's invariant over any sequence of steps, that it is a FIFO, bounded,
  refusing edge (\<open>Edge_Interfaces\<close>), that every refused sender is owed a wake, and how the edge
  closes (src/edge/sync.rs, src/edge/sync/sender.rs, src/edge/sync/receiver.rs).
\<close>

section \<open>The edge and its handles\<close>

record ('d, 's) sync_sys =
  sys_sh :: "('d, 's) shared"
  sys_tx :: "sender list"

datatype ('d, 's) sync_op =
    OpTryPush nat "('d, 's) message"
  | OpPoll
  | OpTryPop
  | OpReadAll           \<comment> \<open>on a non-empty buffer, where it does not block\<close>
  | OpMint
  | OpClone nat
  | OpSchedule nat waker
  | OpCloseSender nat
  | OpDropSender nat
  | OpCloseReceiver

definition sync_new :: "bound \<Rightarrow> ('d, 's) sync_sys" where
  "sync_new b = \<lparr>sys_sh = with_bound b, sys_tx = []\<rparr>"

definition sys_try_push ::
  "nat \<Rightarrow> ('d, 's) message \<Rightarrow> ('d, 's) sync_sys \<Rightarrow> ('d, 's) message try_push res \<times> ('d, 's) sync_sys" where
  "sys_try_push i m y =
     (if i < length (sys_tx y)
      then (let (r, tx, sh, _) = try_push_back m (sys_tx y ! i) (sys_sh y)
            in (r, \<lparr>sys_sh = sh, sys_tx = (sys_tx y)[i := tx]\<rparr>))
      else (Err Closed, y))"

definition sys_poll :: "('d, 's) sync_sys \<Rightarrow> ('d, 's) message option res \<times> ('d, 's) sync_sys" where
  "sys_poll y = (let (r, sh, _) = receiver_poll (sys_sh y) in (r, y\<lparr>sys_sh := sh\<rparr>))"

fun sync_exec ::
  "('d, 's) sync_op \<Rightarrow> ('d, 's) sync_sys \<Rightarrow> ('d, 's) sync_sys \<times> effect list" where
  "sync_exec (OpTryPush i m) y =
     (if i < length (sys_tx y)
      then (let (_, tx, sh, eff) = try_push_back m (sys_tx y ! i) (sys_sh y)
            in (\<lparr>sys_sh = sh, sys_tx = (sys_tx y)[i := tx]\<rparr>, eff))
      else (y, []))"
| "sync_exec OpPoll y =
     (let (_, sh, eff) = receiver_poll (sys_sh y) in (y\<lparr>sys_sh := sh\<rparr>, eff))"
| "sync_exec OpTryPop y =
     (let (_, sh, eff) = try_pop (sys_sh y) in (y\<lparr>sys_sh := sh\<rparr>, eff))"
| "sync_exec OpReadAll y =
     (if i_buffer (sys_sh y) = [] then (y, [])
      else case read_all (\<lambda>_. None) (sys_sh y, ()) of
             Some (_, (sh, _), eff) \<Rightarrow> (y\<lparr>sys_sh := sh\<rparr>, eff)
           | None \<Rightarrow> (y, []))"
| "sync_exec OpMint y =
     (let (tx, sh) = mint_sender (sys_sh y) in (\<lparr>sys_sh = sh, sys_tx = sys_tx y @ [tx]\<rparr>, []))"
| "sync_exec (OpClone i) y =
     (if i < length (sys_tx y)
      then (let (tx, sh) = sender_clone (sys_tx y ! i) (sys_sh y)
            in (\<lparr>sys_sh = sh, sys_tx = sys_tx y @ [tx]\<rparr>, []))
      else (y, []))"
| "sync_exec (OpSchedule i w) y =
     (if i < length (sys_tx y)
      then (y\<lparr>sys_tx := (sys_tx y)[i := sender_schedule w (sys_tx y ! i)]\<rparr>, [])
      else (y, []))"
| "sync_exec (OpCloseSender i) y =
     (if i < length (sys_tx y)
      then (let (_, tx, sh, eff) = sender_close (sys_tx y ! i) (sys_sh y)
            in (\<lparr>sys_sh = sh, sys_tx = (sys_tx y)[i := tx]\<rparr>, eff))
      else (y, []))"
| "sync_exec (OpDropSender i) y =
     (if i < length (sys_tx y)
      then (let (sh, eff) = sender_drop (sys_tx y ! i) (sys_sh y)
            in (\<lparr>sys_sh = sh, sys_tx = (sys_tx y)[i := (sys_tx y ! i)\<lparr>s_released := True\<rparr>]\<rparr>, eff))
      else (y, []))"
| "sync_exec OpCloseReceiver y =
     (let (_, sh, eff) = receiver_close (sys_sh y) in (y\<lparr>sys_sh := sh\<rparr>, eff))"

fun sync_run ::
  "('d, 's) sync_op list \<Rightarrow> ('d, 's) sync_sys \<Rightarrow> ('d, 's) sync_sys \<times> effect list" where
  "sync_run [] y = (y, [])"
| "sync_run (op # ops) y =
     (let (y1, eff1) = sync_exec op y; (y2, eff2) = sync_run ops y1 in (y2, eff1 @ eff2))"

lemma sender_drop_eq_close:
  "sender_drop tx sh = (let (_, _, sh', eff) = sender_close tx sh in (sh', eff))"
  "fst (snd (sender_close tx sh)) = tx\<lparr>s_released := True\<rparr>"
  by (auto simp: sender_drop_def sender_close_def sender_release_def case_prod_unfold Let_def)

lemma wait_nonempty_ready:
  "i_buffer (fst st) \<noteq> [] \<Longrightarrow> wait_nonempty env st = Some (Ok (), st)"
  by (subst wait_nonempty.simps) simp

lemma read_all_nonempty:
  "i_buffer sh \<noteq> [] \<Longrightarrow>
     read_all env (sh, w) =
       Some (Ok (i_buffer sh), (fst (drained (sh\<lparr>i_buffer := []\<rparr>) FreedAll), w),
             snd (drained (sh\<lparr>i_buffer := []\<rparr>) FreedAll))"
  by (cases "drained (sh\<lparr>i_buffer := []\<rparr>) FreedAll") (simp add: read_all_def wait_nonempty_ready)

section \<open>The invariant\<close>

text \<open>What one sender is owed: its refusal is not in the future, and if it was refused in this
  epoch with a waker, the edge holds that waker.\<close>

definition owed :: "('d, 's) shared \<Rightarrow> sender \<Rightarrow> bool" where
  "owed sh tx \<longleftrightarrow>
     (\<forall>p. s_refused_at tx = Some p \<longrightarrow> p \<le> i_progress sh) \<and>
     (\<forall>w. s_waker tx = Some w \<and> s_refused_at tx = Some (i_progress sh) \<and> \<not> i_closed sh \<longrightarrow>
          w \<in> set (i_refused sh))"

definition sync_inv :: "('d, 's) sync_sys \<Rightarrow> bool" where
  "sync_inv y \<longleftrightarrow>
     producer_count (sys_sh y) = count_where (\<lambda>tx. \<not> s_released tx) (sys_tx y) \<and>
     (sys_tx y \<noteq> [] \<and> producer_count (sys_sh y) = 0 \<longrightarrow> i_closed (sys_sh y)) \<and>
     within_cap (i_bound (sys_sh y)) (length (i_buffer (sys_sh y))) \<and>
     (i_closed (sys_sh y) \<longrightarrow> i_refused (sys_sh y) = []) \<and>
     (\<forall>tx\<in>set (sys_tx y). owed (sys_sh y) tx)"

lemma sync_invD:
  assumes "sync_inv y"
  shows "producer_count (sys_sh y) = count_where (\<lambda>tx. \<not> s_released tx) (sys_tx y)"
    and "sys_tx y \<noteq> [] \<Longrightarrow> producer_count (sys_sh y) = 0 \<Longrightarrow> i_closed (sys_sh y)"
    and "within_cap (i_bound (sys_sh y)) (length (i_buffer (sys_sh y)))"
    and "i_closed (sys_sh y) \<Longrightarrow> i_refused (sys_sh y) = []"
    and "tx \<in> set (sys_tx y) \<Longrightarrow> owed (sys_sh y) tx"
  using assms by (auto simp: sync_inv_def)

lemma sync_inv_new: "sync_inv (sync_new b)"
  by (cases b) (simp_all add: sync_inv_def sync_new_def with_bound_def)

lemma owed_frame:
  "owed sh tx \<Longrightarrow> i_progress sh' = i_progress sh \<Longrightarrow> (i_closed sh \<Longrightarrow> i_closed sh') \<Longrightarrow>
   i_closed sh' \<or> set (i_refused sh) \<subseteq> set (i_refused sh') \<Longrightarrow> owed sh' tx"
  by (auto simp: owed_def)

lemma owed_fresh [simp]: "owed sh \<lparr>s_refused_at = None, s_waker = w, s_released = b\<rparr>"
  by (simp add: owed_def)

lemma owed_released [simp]: "owed sh (tx\<lparr>s_released := b\<rparr>) = owed sh tx"
  by (simp add: owed_def)

lemma unat_succ: "p \<noteq> - 1 \<Longrightarrow> unat (p + 1 :: u64) = unat p + 1"
  by (metis Suc_eq_plus1 add.commute add_eq_0_iff2 unatSuc)

lemma word_le_succ: "p \<noteq> - 1 \<Longrightarrow> q \<le> p \<Longrightarrow> q \<le> p + 1 \<and> q \<noteq> p + (1 :: u64)"
  using unat_succ [of p] by (auto simp: word_le_nat_alt)

text \<open>A drain starts a new epoch: nobody has been refused in it.\<close>

lemma owed_drained:
  assumes "owed sh tx" "i_progress sh \<noteq> - 1" "i_progress sh1 = i_progress sh"
  shows "owed (fst (drained sh1 f)) tx"
  unfolding owed_def
proof (intro conjI allI impI)
  fix p assume "s_refused_at tx = Some p"
  with assms show "p \<le> i_progress (fst (drained sh1 f))"
    using word_le_succ by (auto simp: owed_def)
next
  fix w
  assume "s_waker tx = Some w \<and> s_refused_at tx = Some (i_progress (fst (drained sh1 f))) \<and>
          \<not> i_closed (fst (drained sh1 f))"
  then have "s_refused_at tx = Some (i_progress sh + 1)" using assms(3) by simp
  with assms(1) have "i_progress sh + 1 \<le> i_progress sh" by (simp add: owed_def)
  with word_le_succ [OF assms(2)] show "w \<in> set (i_refused (fst (drained sh1 f)))" by blast
qed

lemma sync_sys_eta [simp]: "\<lparr>sys_sh = sys_sh y, sys_tx = sys_tx y\<rparr> = y"
  by (cases y) simp

text \<open>Replacing one handle by one that is as released as it was leaves the count.\<close>

lemma count_same:
  "i < length txs \<Longrightarrow> s_released tx = s_released (txs ! i) \<Longrightarrow>
     count_where (\<lambda>tx. \<not> s_released tx) (txs[i := tx]) = count_where (\<lambda>tx. \<not> s_released tx) txs"
  using count_where_update [of i txs "\<lambda>tx. \<not> s_released tx" tx] by simp

lemma count_release:
  "i < length txs \<Longrightarrow> \<not> s_released (txs ! i) \<Longrightarrow> s_released tx \<Longrightarrow>
     count_where (\<lambda>tx. \<not> s_released tx) (txs[i := tx]) = count_where (\<lambda>tx. \<not> s_released tx) txs - 1"
  using count_where_update [of i txs "\<lambda>tx. \<not> s_released tx" tx] by simp

lemma owed_update:
  "(\<forall>tx\<in>set txs. owed sh tx) \<Longrightarrow> owed sh tx \<Longrightarrow> (\<forall>tx\<in>set (txs[i := tx]). owed sh tx)"
  by (rule all_set_update)

lemma within_is_full:
  "within_cap (i_bound sh) (length (i_buffer sh)) \<Longrightarrow> \<not> is_full sh \<Longrightarrow>
     within_cap (i_bound sh) (Suc (length (i_buffer sh)))"
  by (auto simp: is_full_def within_cap_def split: option.splits)

lemma owed_same_shared:
  "owed sh tx \<Longrightarrow> i_progress sh' = i_progress sh \<Longrightarrow> i_closed sh' = i_closed sh \<Longrightarrow>
   i_refused sh' = i_refused sh \<Longrightarrow> owed sh' tx"
  by (simp add: owed_def)

lemma sync_inv_try_push:
  assumes inv: "sync_inv y" and i: "i < length (sys_tx y)"
    and p: "try_push_back m (sys_tx y ! i) (sys_sh y) = (r, tx, sh, eff)"
  shows "sync_inv \<lparr>sys_sh = sh, sys_tx = (sys_tx y)[i := tx]\<rparr>"
  using p
proof (cases rule: try_push_back_cases)
  case full
  note D = sync_invD [OF inv]
  have sh: "producer_count sh = producer_count (sys_sh y)" "i_closed sh = i_closed (sys_sh y)"
    "i_bound sh = i_bound (sys_sh y)" "i_buffer sh = i_buffer (sys_sh y)"
    "i_progress sh = i_progress (sys_sh y)" "set (i_refused (sys_sh y)) \<subseteq> set (i_refused sh)"
    using full by (auto split: option.splits)
  have "\<forall>t\<in>set (sys_tx y). owed sh t" using D(5) sh by (blast intro: owed_frame)
  moreover have "owed sh tx" using full sh by (auto simp: owed_def split: option.splits)
  ultimately have "\<forall>t\<in>set ((sys_tx y)[i := tx]). owed sh t" by (rule owed_update)
  moreover have "count_where (\<lambda>tx. \<not> s_released tx) ((sys_tx y)[i := tx]) =
                 count_where (\<lambda>tx. \<not> s_released tx) (sys_tx y)"
    using i full by (intro count_same) auto
  ultimately show ?thesis using D sh full i unfolding sync_inv_def by auto
next
  case pushed
  note D = sync_invD [OF inv]
  have "\<forall>t\<in>set (sys_tx y). owed sh t" using D(5) pushed by (fastforce simp: owed_def)
  then show ?thesis using D pushed within_is_full [OF D(3)] i unfolding sync_inv_def by auto
qed (use inv in auto)

lemma sync_inv_drained:
  assumes inv: "sync_inv y" and np: "i_progress (sys_sh y) \<noteq> - 1"
    and len: "length ms \<le> length (i_buffer (sys_sh y))"
  shows "sync_inv (y\<lparr>sys_sh := fst (drained ((sys_sh y)\<lparr>i_buffer := ms\<rparr>) f)\<rparr>)"
proof -
  note D = sync_invD [OF inv]
  have "\<forall>t\<in>set (sys_tx y). owed (fst (drained ((sys_sh y)\<lparr>i_buffer := ms\<rparr>) f)) t"
    using D(5) by (auto intro: owed_drained [OF _ np])
  moreover have "within_cap (i_bound (sys_sh y)) (length ms)"
    using D(3) len by (auto simp: within_cap_def split: option.splits)
  ultimately show ?thesis using D unfolding sync_inv_def by auto
qed

lemma sync_inv_close:
  assumes inv: "sync_inv y" and i: "i < length (sys_tx y)"
    and c: "sender_close (sys_tx y ! i) (sys_sh y) = (r, tx, sh, eff)"
  shows "sync_inv \<lparr>sys_sh = sh, sys_tx = (sys_tx y)[i := tx]\<rparr>"
proof -
  note D = sync_invD [OF inv]
  from i have mem: "sys_tx y ! i \<in> set (sys_tx y)" by simp
  from c show ?thesis
  proof (cases rule: sender_close_cases)
    case again
    then show ?thesis using inv by simp
  next
    case last
    have "\<forall>t\<in>set (sys_tx y). owed sh t" using D(5) last by (fastforce simp: owed_def)
    with last D(5) [OF mem] have "\<forall>t\<in>set ((sys_tx y)[i := tx]). owed sh t"
      by (intro owed_update) (auto simp: owed_def)
    then show ?thesis using D last i count_release [OF i, of tx] unfolding sync_inv_def by auto
  next
    case more
    have "\<forall>t\<in>set (sys_tx y). owed sh t" using D(5) more by (fastforce simp: owed_def)
    with more D(5) [OF mem] have "\<forall>t\<in>set ((sys_tx y)[i := tx]). owed sh t"
      by (intro owed_update) (auto simp: owed_def)
    moreover have "producer_count (sys_sh y) \<noteq> 0"
      using D(1) more i count_where_pos_nth [OF i, of "\<lambda>tx. \<not> s_released tx"] by simp
    ultimately show ?thesis
      using D more i count_release [OF i, of tx] unfolding sync_inv_def by auto
  qed
qed

lemma sync_inv_poll:
  assumes inv: "sync_inv y" and np: "i_progress (sys_sh y) \<noteq> - 1"
    and p: "receiver_poll (sys_sh y) = (r, sh, eff) \<or> try_pop (sys_sh y) = (r, sh, eff)"
  shows "sync_inv (y\<lparr>sys_sh := sh\<rparr>)"
proof -
  have "sh = sys_sh y \<or>
        (\<exists>m ms. i_buffer (sys_sh y) = m # ms \<and>
                sh = fst (drained ((sys_sh y)\<lparr>i_buffer := ms\<rparr>) FreedOne))"
    using p by (auto elim!: receiver_poll_cases try_pop_cases)
  then show ?thesis using inv sync_inv_drained [OF inv np] by auto
qed

theorem sync_exec_inv:
  assumes inv: "sync_inv y" and np: "i_progress (sys_sh y) \<noteq> - 1" and x: "sync_exec op y = (y', eff)"
  shows "sync_inv y'"
proof (cases op)
  case (OpTryPush i m)
  then show ?thesis
    using x inv sync_inv_try_push [OF inv, of i m]
    by (cases "try_push_back m (sys_tx y ! i) (sys_sh y)") (auto split: if_splits)
next
  case OpPoll
  then show ?thesis
    using x sync_inv_poll [OF inv np] by (cases "receiver_poll (sys_sh y)") auto
next
  case OpTryPop
  then show ?thesis
    using x sync_inv_poll [OF inv np] by (cases "try_pop (sys_sh y)") auto
next
  case OpReadAll
  then show ?thesis
    using x inv sync_inv_drained [OF inv np, of "[]" FreedAll]
    by (auto simp: read_all_nonempty split: if_splits)
next
  case OpMint
  have "\<forall>t\<in>set (sys_tx y). owed (sys_sh y\<lparr>producer_count := Suc (producer_count (sys_sh y))\<rparr>) t"
    using sync_invD(5) [OF inv] by (simp add: owed_def)
  with OpMint x sync_invD [OF inv] show ?thesis
    by (auto simp: sync_inv_def mint_sender_def fresh_sender_def)
next
  case (OpClone i)
  have "\<forall>t\<in>set (sys_tx y). owed (sys_sh y\<lparr>producer_count := Suc (producer_count (sys_sh y))\<rparr>) t"
    using sync_invD(5) [OF inv] by (simp add: owed_def)
  moreover have "i < length (sys_tx y) \<Longrightarrow> sys_tx y \<noteq> []" by auto
  ultimately show ?thesis
    using OpClone x inv sync_invD [OF inv]
    by (auto simp: sync_inv_def sender_clone_def split: if_splits)
next
  case (OpSchedule i w)
  show ?thesis
  proof (cases "i < length (sys_tx y)")
    case True
    let ?tx = "sender_schedule w (sys_tx y ! i)"
    from True have "sys_tx y ! i \<in> set (sys_tx y)" by simp
    then have "owed (sys_sh y) ?tx"
      using sync_invD(5) [OF inv] by (auto simp: sender_schedule_def owed_def)
    then have "\<forall>t\<in>set ((sys_tx y)[i := ?tx]). owed (sys_sh y) t"
      using sync_invD(5) [OF inv] by (intro owed_update) auto
    moreover have "s_released ?tx = s_released (sys_tx y ! i)" by (simp add: sender_schedule_def)
    ultimately show ?thesis
      using True OpSchedule x sync_invD [OF inv] count_same [OF True, of ?tx]
      by (auto simp: sync_inv_def)
  qed (use OpSchedule x inv in auto)
next
  case (OpCloseSender i)
  then show ?thesis
    using x inv sync_inv_close [OF inv, of i]
    by (cases "sender_close (sys_tx y ! i) (sys_sh y)") (auto split: if_splits)
next
  case (OpDropSender i)
  then show ?thesis
    using x inv sync_inv_close [OF inv, of i] sender_drop_eq_close [of "sys_tx y ! i" "sys_sh y"]
    by (cases "sender_close (sys_tx y ! i) (sys_sh y)") (auto split: if_splits)
next
  case OpCloseReceiver
  have "\<forall>t\<in>set (sys_tx y). owed (fst (close_edge (sys_sh y))) t"
    using sync_invD(5) [OF inv] by (fastforce simp: owed_def)
  with OpCloseReceiver x sync_invD [OF inv] show ?thesis
    by (auto simp: receiver_close_def sync_inv_def case_prod_unfold Let_def)
qed

subsection \<open>Runs\<close>

text \<open>Each operation drains at most once, so a run of fewer than \<open>2 ^ 64\<close> operations never wraps
  the progress counter.\<close>

lemma drained_progress_le:
  "unat (i_progress (fst (drained sh f))) \<le> unat (i_progress sh) + 1"
  using unat_word_ariths(1) [of "i_progress sh" "1 :: u64"] by simp

lemma poll_progress_le:
  "receiver_poll sh = (r, sh', eff) \<Longrightarrow> unat (i_progress sh') \<le> unat (i_progress sh) + 1"
  "try_pop sh = (r, sh', eff) \<Longrightarrow> unat (i_progress sh') \<le> unat (i_progress sh) + 1"
  using drained_progress_le [of "sh\<lparr>i_buffer := _\<rparr>"]
  by (auto elim!: receiver_poll_cases try_pop_cases simp del: drained_fields)

lemma sync_exec_progress_le:
  assumes x: "sync_exec op y = (y', eff)"
  shows "unat (i_progress (sys_sh y')) \<le> unat (i_progress (sys_sh y)) + 1"
proof (cases op)
  case (OpTryPush i m)
  then show ?thesis
    using x by (cases "try_push_back m (sys_tx y ! i) (sys_sh y)")
      (auto split: if_splits option.splits elim!: try_push_back_cases)
next
  case OpPoll
  then show ?thesis using x poll_progress_le [of "sys_sh y"] by (cases "receiver_poll (sys_sh y)") auto
next
  case OpTryPop
  then show ?thesis using x poll_progress_le [of "sys_sh y"] by (cases "try_pop (sys_sh y)") auto
next
  case OpReadAll
  then show ?thesis
    using x drained_progress_le [of "(sys_sh y)\<lparr>i_buffer := []\<rparr>" FreedAll]
    by (auto simp: read_all_nonempty simp del: drained_fields split: if_splits)
next
  case (OpCloseSender i)
  then show ?thesis
    using x by (cases "sender_close (sys_tx y ! i) (sys_sh y)")
      (auto split: if_splits elim!: sender_close_cases)
next
  case (OpDropSender i)
  then show ?thesis
    using x sender_drop_eq_close [of "sys_tx y ! i" "sys_sh y"]
    by (cases "sender_close (sys_tx y ! i) (sys_sh y)")
      (auto split: if_splits elim!: sender_close_cases)
qed (use x in \<open>auto simp: mint_sender_def sender_clone_def receiver_close_def case_prod_unfold Let_def
      split: if_splits\<close>)

lemma sync_run_inv:
  "sync_inv y \<Longrightarrow> unat (i_progress (sys_sh y)) + length ops < 2 ^ 64 \<Longrightarrow>
     sync_run ops y = (y', eff) \<Longrightarrow> sync_inv y'"
proof (induction ops arbitrary: y y' eff)
  case Nil
  then show ?case by simp
next
  case (Cons op ops)
  obtain y1 e1 where x: "sync_exec op y = (y1, e1)" by (cases "sync_exec op y") auto
  obtain y2 e2 where r: "sync_run ops y1 = (y2, e2)" by (cases "sync_run ops y1") auto
  have "i_progress (sys_sh y) \<noteq> - 1"
  proof
    assume "i_progress (sys_sh y) = - 1"
    then have "unat (i_progress (sys_sh y)) = 2 ^ 64 - 1"
      by (simp add: unsigned_minus_1_eq_mask mask_eq_exp_minus_1)
    with Cons.prems show False by simp
  qed
  with Cons.prems x have "sync_inv y1" by (blast intro: sync_exec_inv)
  moreover have "unat (i_progress (sys_sh y1)) + length ops < 2 ^ 64"
    using Cons.prems(2) sync_exec_progress_le [OF x] by simp
  ultimately have "sync_inv y2" using r by (rule Cons.IH)
  with Cons.prems x r show ?case by simp
qed

section \<open>The contracts\<close>

lemma sys_try_push_cases:
  assumes "sys_try_push i m y = (r, y')"
  obtains (none) "length (sys_tx y) \<le> i" "r = Err Closed" "y' = y"
  | (some) tx sh eff where "i < length (sys_tx y)"
      "try_push_back m (sys_tx y ! i) (sys_sh y) = (r, tx, sh, eff)"
      "y' = \<lparr>sys_sh = sh, sys_tx = (sys_tx y)[i := tx]\<rparr>"
proof (cases "i < length (sys_tx y)")
  case True
  with assms show ?thesis
    by (cases "try_push_back m (sys_tx y ! i) (sys_sh y)") (auto simp: sys_try_push_def intro: some)
next
  case False
  with assms show ?thesis by (intro none) (auto simp: sys_try_push_def)
qed

lemma sys_poll_cases:
  assumes "sys_poll y = (r, y')"
  obtains sh eff where "receiver_poll (sys_sh y) = (r, sh, eff)" "y' = y\<lparr>sys_sh := sh\<rparr>"
  using assms by (cases "receiver_poll (sys_sh y)") (auto simp: sys_poll_def)

definition sys_waiting :: "nat \<Rightarrow> ('d, 's) sync_sys \<Rightarrow> bool" where
  "sys_waiting i y \<longleftrightarrow>
     i < length (sys_tx y) \<and> s_refused_at (sys_tx y ! i) = Some (i_progress (sys_sh y))"

lemma try_push_frame:
  assumes "try_push_back m tx sh = (r, tx', sh', eff)"
  shows "i_progress sh' = i_progress sh" "i_bound sh' = i_bound sh" "i_closed sh' = i_closed sh"
    "i_buffer sh' = (if r = Ok Pushed then i_buffer sh @ [m] else i_buffer sh)"
    "producer_count sh' = producer_count sh" "s_released tx' = s_released tx"
    "s_waker tx' = s_waker tx"
  using assms by (auto elim!: try_push_back_cases split: option.splits)

interpretation sync: fifo_edge "\<lambda>y. i_buffer (sys_sh y)" sys_try_push sys_poll
  by unfold_locales
    (auto elim!: sys_try_push_cases try_push_back_cases sys_poll_cases receiver_poll_cases
      split: option.splits)

interpretation sync: bounded_edge "\<lambda>y. i_buffer (sys_sh y)" sys_try_push sys_poll
    "\<lambda>y. i_bound (sys_sh y)"
  by unfold_locales
    (auto elim!: sys_try_push_cases try_push_back_cases sys_poll_cases receiver_poll_cases
      simp: is_full_def split: option.splits)

interpretation sync: refusing_edge "\<lambda>y. i_buffer (sys_sh y)" sys_try_push sys_poll sys_waiting
  by unfold_locales
    (auto elim!: sys_try_push_cases try_push_back_cases sys_poll_cases receiver_poll_cases
      simp: sys_waiting_def nth_list_update split: option.splits)

section \<open>Traces: what a run of every operation takes and delivers\<close>

fun sync_taken :: "('d, 's) sync_op \<Rightarrow> ('d, 's) sync_sys \<Rightarrow> ('d, 's) message list" where
  "sync_taken (OpTryPush i m) y = (if fst (sys_try_push i m y) = Ok Pushed then [m] else [])"
| "sync_taken _ y = []"

fun popped :: "'m option res \<Rightarrow> 'm list" where
  "popped (Ok (Some m)) = [m]"
| "popped (Ok None) = []"
| "popped (Err e) = []"

fun sync_delivered :: "('d, 's) sync_op \<Rightarrow> ('d, 's) sync_sys \<Rightarrow> ('d, 's) message list" where
  "sync_delivered OpPoll y = popped (fst (receiver_poll (sys_sh y)))"
| "sync_delivered OpTryPop y = popped (fst (try_pop (sys_sh y)))"
| "sync_delivered OpReadAll y =
     (if i_buffer (sys_sh y) = [] then []
      else case read_all (\<lambda>_. None) (sys_sh y, ()) of Some (Ok ms, _) \<Rightarrow> ms | _ \<Rightarrow> [])"
| "sync_delivered _ y = []"

fun sync_trace ::
  "('d, 's) sync_op list \<Rightarrow> ('d, 's) sync_sys \<Rightarrow>
   ('d, 's) message list \<times> ('d, 's) message list \<times> ('d, 's) sync_sys" where
  "sync_trace [] y = ([], [], y)"
| "sync_trace (op # ops) y =
     (let (taken, out, y') = sync_trace ops (fst (sync_exec op y))
      in (sync_taken op y @ taken, sync_delivered op y @ out, y'))"

lemma sync_trace_run: "snd (snd (sync_trace ops y)) = fst (sync_run ops y)"
  by (induction ops arbitrary: y) (auto simp: case_prod_unfold Let_def)

lemma sync_exec_try_push: "fst (sync_exec (OpTryPush i m) y) = snd (sys_try_push i m y)"
  by (simp add: sys_try_push_def case_prod_unfold Let_def)

lemma sync_exec_flow:
  "i_buffer (sys_sh y) @ sync_taken op y =
     sync_delivered op y @ i_buffer (sys_sh (fst (sync_exec op y)))"
proof (cases op)
  case (OpTryPush i m)
  then show ?thesis
    using sync.push_pushed [of i m y] sync.push_other [of i m y] sync_exec_try_push [of i m y]
    by (cases "sys_try_push i m y") auto
next
  case OpPoll
  then show ?thesis
    by (cases "receiver_poll (sys_sh y)") (auto elim!: receiver_poll_cases)
next
  case OpTryPop
  then show ?thesis by (cases "try_pop (sys_sh y)") (auto elim!: try_pop_cases)
next
  case OpReadAll
  then show ?thesis by (auto simp: read_all_nonempty)
next
  case (OpCloseSender i)
  then show ?thesis
    by (cases "sender_close (sys_tx y ! i) (sys_sh y)") (auto elim!: sender_close_cases)
next
  case (OpDropSender i)
  then show ?thesis
    using sender_drop_eq_close [of "sys_tx y ! i" "sys_sh y"]
    by (cases "sender_close (sys_tx y ! i) (sys_sh y)") (auto elim!: sender_close_cases)
qed (auto simp: mint_sender_def sender_clone_def receiver_close_def case_prod_unfold Let_def)

lemma sync_exec_bound: "i_bound (sys_sh (fst (sync_exec op y))) = i_bound (sys_sh y)"
proof (cases op)
  case (OpTryPush i m)
  then show ?thesis using sync.push_cap [of i m y] sync_exec_try_push [of i m y]
    by (cases "sys_try_push i m y") auto
next
  case OpPoll
  then show ?thesis by (cases "receiver_poll (sys_sh y)") (auto elim!: receiver_poll_cases)
next
  case OpTryPop
  then show ?thesis by (cases "try_pop (sys_sh y)") (auto elim!: try_pop_cases)
next
  case OpReadAll
  then show ?thesis by (auto simp: read_all_nonempty)
next
  case (OpCloseSender i)
  then show ?thesis
    by (cases "sender_close (sys_tx y ! i) (sys_sh y)") (auto elim!: sender_close_cases)
next
  case (OpDropSender i)
  then show ?thesis
    using sender_drop_eq_close [of "sys_tx y ! i" "sys_sh y"]
    by (cases "sender_close (sys_tx y ! i) (sys_sh y)") (auto elim!: sender_close_cases)
qed (auto simp: mint_sender_def sender_clone_def receiver_close_def case_prod_unfold Let_def)

section \<open>Properties\<close>

lemma sync_trace_flow:
  "sync_trace ops y = (taken, out, y') \<Longrightarrow> i_buffer (sys_sh y) @ taken = out @ i_buffer (sys_sh y')"
proof (induction ops arbitrary: y taken out y')
  case Nil
  then show ?case by simp
next
  case (Cons op ops)
  obtain t o' y2 where r: "sync_trace ops (fst (sync_exec op y)) = (t, o', y2)"
    by (cases "sync_trace ops (fst (sync_exec op y))") auto
  from Cons.IH [OF r] have "i_buffer (sys_sh (fst (sync_exec op y))) @ t = o' @ i_buffer (sys_sh y2)" .
  moreover from Cons.prems r
  have "taken = sync_taken op y @ t" "out = sync_delivered op y @ o'" "y' = y2" by auto
  ultimately show ?case using sync_exec_flow [of y op] by (metis append.assoc)
qed

lemma sync_new_fields [simp]:
  "i_buffer (sys_sh (sync_new b)) = []" "i_bound (sys_sh (sync_new b)) = b"
  "i_progress (sys_sh (sync_new b)) = 0"
  by (simp_all add: sync_new_def with_bound_def)

text \<open>Only a try_push adds to the buffer, and only below the bound.\<close>

lemma sync_exec_within:
  assumes "within_cap (i_bound (sys_sh y)) (length (i_buffer (sys_sh y)))"
  shows "within_cap (i_bound (sys_sh y)) (length (i_buffer (sys_sh (fst (sync_exec op y)))))"
proof (cases "\<exists>i m. op = OpTryPush i m")
  case True
  then obtain i m where op: "op = OpTryPush i m" by blast
  then show ?thesis
    using assms sync.push_keeps_within [of i m y] sync.push_cap [of i m y]
      sync_exec_try_push [of i m y]
    by (cases "sys_try_push i m y") auto
next
  case False
  then have "sync_taken op y = []" by (cases op) auto
  with sync_exec_flow [of y op]
  have "length (i_buffer (sys_sh (fst (sync_exec op y)))) \<le> length (i_buffer (sys_sh y))"
    by (metis append_Nil2 length_append le_add2)
  with assms show ?thesis by (auto simp: within_cap_def split: option.splits)
qed

lemma sync_trace_within:
  "sync_trace ops y = (taken, out, y') \<Longrightarrow>
     within_cap (i_bound (sys_sh y)) (length (i_buffer (sys_sh y))) \<Longrightarrow>
     within_cap (i_bound (sys_sh y)) (length (i_buffer (sys_sh y')))"
proof (induction ops arbitrary: y taken out y')
  case Nil
  then show ?case by simp
next
  case (Cons op ops)
  obtain t o' y2 where r: "sync_trace ops (fst (sync_exec op y)) = (t, o', y2)"
    by (cases "sync_trace ops (fst (sync_exec op y))") auto
  with Cons.prems have "y' = y2" by auto
  moreover have "within_cap (i_bound (sys_sh y)) (length (i_buffer (sys_sh y2)))"
    using Cons.IH [OF r] sync_exec_within [OF Cons.prems(2), of op] by (simp add: sync_exec_bound)
  ultimately show ?case by simp
qed

text \<open>C2. The sync edge is a bounded FIFO queue under every sequence of its non-blocking
  operations (pushes by any number of minted, cloned, released handles, both pops, batch reads,
  closes in any order): what the consumer was handed so far followed by what is buffered is exactly
  what the edge accepted, in acceptance order, and the buffer never exceeds the bound.\<close>

theorem sync_edge_fifo:
  "let (taken, out, y) = sync_trace ops (sync_new b)
   in taken = out @ i_buffer (sys_sh y) \<and> within_cap b (length (i_buffer (sys_sh y)))"
proof -
  obtain taken out y where r: "sync_trace ops (sync_new b :: ('a, 'b) sync_sys) = (taken, out, y)"
    by (cases "sync_trace ops (sync_new b :: ('a, 'b) sync_sys)") auto
  have "within_cap b 0" by (cases b) auto
  with sync_trace_flow [OF r] sync_trace_within [OF r] show ?thesis
    by (simp add: r)
qed

subsection \<open>Refused senders\<close>

lemma sync_exec_keeps_or_wakes:
  assumes x: "sync_exec op y = (y', eff)" and w: "w \<in> set (i_refused (sys_sh y))"
  shows "Wake w \<in> set eff \<or>
         w \<in> set (i_refused (sys_sh y')) \<and> i_progress (sys_sh y') = i_progress (sys_sh y) \<and>
         i_closed (sys_sh y') = i_closed (sys_sh y)"
proof (cases op)
  case (OpTryPush i m)
  then show ?thesis
    using x w by (cases "try_push_back m (sys_tx y ! i) (sys_sh y)")
      (auto split: if_splits option.splits elim!: try_push_back_cases)
next
  case OpPoll
  then show ?thesis
    using x w by (cases "receiver_poll (sys_sh y)") (auto elim!: receiver_poll_cases simp: drained_wakes)
next
  case OpTryPop
  then show ?thesis
    using x w by (cases "try_pop (sys_sh y)") (auto elim!: try_pop_cases simp: drained_wakes)
next
  case OpReadAll
  then show ?thesis using x w by (auto simp: read_all_nonempty drained_wakes split: if_splits)
next
  case (OpCloseSender i)
  then show ?thesis
    using x w by (cases "sender_close (sys_tx y ! i) (sys_sh y)")
      (auto split: if_splits elim!: sender_close_cases simp: close_edge_wakes)
next
  case (OpDropSender i)
  then show ?thesis
    using x w sender_drop_eq_close [of "sys_tx y ! i" "sys_sh y"]
    by (cases "sender_close (sys_tx y ! i) (sys_sh y)")
      (auto split: if_splits elim!: sender_close_cases simp: close_edge_wakes)
next
  case OpCloseReceiver
  then show ?thesis
    using x w by (auto simp: receiver_close_def case_prod_unfold Let_def close_edge_wakes)
qed (use x w in \<open>auto simp: mint_sender_def sender_clone_def case_prod_unfold Let_def
      split: if_splits\<close>)

lemma sync_run_keeps_or_wakes:
  "sync_run ops y = (y', eff) \<Longrightarrow> w \<in> set (i_refused (sys_sh y)) \<Longrightarrow>
     Wake w \<in> set eff \<or>
     i_progress (sys_sh y') = i_progress (sys_sh y) \<and> i_closed (sys_sh y') = i_closed (sys_sh y)"
proof (induction ops arbitrary: y y' eff)
  case Nil
  then show ?case by simp
next
  case (Cons op ops)
  obtain y1 e1 where x: "sync_exec op y = (y1, e1)" by (cases "sync_exec op y") auto
  obtain y2 e2 where r: "sync_run ops y1 = (y2, e2)" by (cases "sync_run ops y1") auto
  from Cons.prems x r have "y' = y2" "eff = e1 @ e2" by auto
  with sync_exec_keeps_or_wakes [OF x Cons.prems(2)] Cons.IH [OF r] show ?case by auto
qed

text \<open>A refusal leaves the sender's waker with the edge.\<close>

lemma refused_holds_waker:
  assumes inv: "sync_inv y" and p: "sys_try_push i m y = (Ok t, y1)" and t: "refused t = Some m'"
    and w: "s_waker (sys_tx y ! i) = Some w"
  shows "w \<in> set (i_refused (sys_sh y1)) \<and> \<not> i_closed (sys_sh y1)"
  using p
proof (cases rule: sys_try_push_cases)
  case (some tx sh eff)
  from some(1) have mem: "sys_tx y ! i \<in> set (sys_tx y)" by simp
  from some(2) show ?thesis
  proof (cases rule: try_push_back_cases)
    case stuck
    then show ?thesis using some w sync_invD(5) [OF inv mem] by (auto simp: owed_def)
  next
    case full
    then show ?thesis using some w by auto
  qed (use t in auto)
qed simp

text \<open>C24. No refused producer of a sync edge is forgotten: after any history of fewer than
  \<open>2 ^ 64\<close> operations, a producer that registered a waker and is answered \<open>Full\<close> or \<open>Stuck\<close> is
  woken by the first later operation that makes room or closes the edge, whatever all the other
  handles do in between. (Progress is the code's counter of drains.)\<close>

theorem refused_sender_woken:
  assumes run: "sync_run ops (sync_new b) = (y, eff0)" and len: "length ops < 2 ^ 64"
    and push: "sys_try_push i m y = (Ok t, y1)" and refused: "refused t = Some m'"
    and waker: "s_waker (sys_tx y ! i) = Some w"
    and later: "sync_run ops' y1 = (y2, eff)"
    and moved: "i_progress (sys_sh y2) \<noteq> i_progress (sys_sh y1) \<or> i_closed (sys_sh y2)"
  shows "Wake w \<in> set eff"
proof -
  have "sync_inv y" using sync_run_inv [OF sync_inv_new _ run] len
    by simp
  from refused_holds_waker [OF this push refused waker] sync_run_keeps_or_wakes [OF later] moved
  show ?thesis by auto
qed

theorem refused_sender_woken_witness:
  "let y = fst (sync_run [OpMint, OpSchedule 0 7, OpTryPush 0 (Data 1)]
                  (sync_new (Some 1) :: (nat, nat) sync_sys))
   in Wake 7 \<in> set (snd (sync_run [OpPoll] (snd (sys_try_push 0 (Data (2::nat)) y))))"
proof -
  let ?ops = "[OpMint, OpSchedule 0 7, OpTryPush 0 (Data 1)] :: (nat, nat) sync_op list"
  let ?y = "fst (sync_run ?ops (sync_new (Some 1)))"
  let ?y1 = "snd (sys_try_push 0 (Data (2::nat)) ?y)"
  let ?y2 = "fst (sync_run [OpPoll] ?y1)"
  have "Wake 7 \<in> set (snd (sync_run [OpPoll] ?y1))"
    by (rule refused_sender_woken [of ?ops "Some 1" ?y "snd (sync_run ?ops (sync_new (Some 1)))"
          0 "Data 2" "Full (Data 2)" ?y1 "Data 2" 7 "[OpPoll]" ?y2])
      (simp_all add: sync_new_def with_bound_def mint_sender_def fresh_sender_def
        sender_schedule_def try_push_back_def wake_consumer_def is_full_def sys_try_push_def
        receiver_poll_def drained_def drained_refused_def)
  then show ?thesis by (simp add: Let_def)
qed

text \<open>C26. A producer of a sync edge that retries on \<open>Full\<close> and waits on \<open>Stuck\<close> never spins:
  over any sequence of pushes (by all producers) and pops, the \<open>Full\<close> answers one producer gets
  are at most one more than the messages the consumer took out.\<close>

theorem sync_full_answers_bound:
  "full_answers sys_try_push sys_poll p ops y \<le> length (fst (snd (run_edge sys_try_push sys_poll ops y))) + 1"
proof -
  obtain taken out y' where "run_edge sys_try_push sys_poll ops y = (taken, out, y')"
    by (cases "run_edge sys_try_push sys_poll ops y") auto
  from sync.full_answers_bound [OF this, of p] this show ?thesis by simp
qed


subsection \<open>Closing\<close>

text \<open>A closed edge takes nothing more and stays closed; its consumer drains what is left.\<close>

lemma closed_exec:
  assumes c: "i_closed (sys_sh y)"
  shows "i_closed (sys_sh (fst (sync_exec op y))) \<and> sync_taken op y = []"
proof (cases op)
  case (OpTryPush i m)
  obtain r y' where p: "sys_try_push i m y = (r, y')" by (cases "sys_try_push i m y") auto
  then have "r = Err Closed \<and> y' = y"
    using c by (auto elim!: sys_try_push_cases try_push_back_cases)
  with p OpTryPush c show ?thesis
    using sync_exec_try_push [of i m y] by (auto simp del: sync_exec.simps)
next
  case OpPoll
  then show ?thesis using c by (cases "receiver_poll (sys_sh y)") (auto elim!: receiver_poll_cases)
next
  case OpTryPop
  then show ?thesis using c by (cases "try_pop (sys_sh y)") (auto elim!: try_pop_cases)
next
  case OpReadAll
  then show ?thesis using c by (auto simp: read_all_nonempty)
next
  case (OpCloseSender i)
  then show ?thesis
    using c by (cases "sender_close (sys_tx y ! i) (sys_sh y)") (auto elim!: sender_close_cases)
next
  case (OpDropSender i)
  then show ?thesis
    using c sender_drop_eq_close [of "sys_tx y ! i" "sys_sh y"]
    by (cases "sender_close (sys_tx y ! i) (sys_sh y)") (auto elim!: sender_close_cases)
qed (use c in \<open>auto simp: mint_sender_def sender_clone_def receiver_close_def case_prod_unfold Let_def\<close>)

lemma closed_trace:
  "sync_trace ops y = (taken, out, y') \<Longrightarrow> i_closed (sys_sh y) \<Longrightarrow> taken = [] \<and> i_closed (sys_sh y')"
proof (induction ops arbitrary: y taken out y')
  case Nil
  then show ?case by simp
next
  case (Cons op ops)
  obtain t o' y2 where r: "sync_trace ops (fst (sync_exec op y)) = (t, o', y2)"
    by (cases "sync_trace ops (fst (sync_exec op y))") auto
  with Cons.prems Cons.IH [OF r] closed_exec [OF Cons.prems(2), of op] show ?case by auto
qed

text \<open>A closed sync edge hands out exactly what was buffered when it closed, whatever is
  still done with its handles, and then the end of the stream: once that is drained, every pop
  answers \<open>Closed\<close>, the state is \<open>Exhausted\<close>, and every push was refused with \<open>Closed\<close>.\<close>

theorem closed_edge_drains:
  assumes closed: "i_closed (sys_sh y)" and t: "sync_trace ops y = (taken, out, y')"
  shows "taken = [] \<and> i_buffer (sys_sh y) = out @ i_buffer (sys_sh y') \<and>
         fst (sys_try_push i m y') = Err Closed \<and>
         (i_buffer (sys_sh y') = [] \<longrightarrow>
            fst (receiver_poll (sys_sh y')) = Err Closed \<and> fst (try_pop (sys_sh y')) = Err Closed \<and>
            receiver_state (sys_sh y') = Ok Exhausted)"
proof (intro conjI)
  from closed_trace [OF t closed] have *: "taken = []" "i_closed (sys_sh y')" by auto
  from *(1) show "taken = []" .
  from sync_trace_flow [OF t] * show "i_buffer (sys_sh y) = out @ i_buffer (sys_sh y')" by simp
  from *(2) show "fst (sys_try_push i m y') = Err Closed"
    by (cases "sys_try_push i m y'") (auto elim!: sys_try_push_cases try_push_back_cases)
  from *(2) show "i_buffer (sys_sh y') = [] \<longrightarrow>
            fst (receiver_poll (sys_sh y')) = Err Closed \<and> fst (try_pop (sys_sh y')) = Err Closed \<and>
            receiver_state (sys_sh y') = Ok Exhausted"
    by (simp add: receiver_poll_def try_pop_def receiver_state_def)
qed

theorem closed_edge_drains_witness:
  "let y = fst (sync_run [OpMint, OpTryPush 0 (Data 1), OpCloseSender 0]
                  (sync_new (Some 1) :: (nat, nat) sync_sys))
   in i_buffer (sys_sh y) = fst (snd (sync_trace [OpMint, OpPoll] y))"
proof -
  let ?y = "fst (sync_run [OpMint, OpTryPush 0 (Data 1), OpCloseSender 0]
                  (sync_new (Some 1) :: (nat, nat) sync_sys))"
  let ?t = "sync_trace [OpMint, OpPoll] ?y"
  have c: "i_closed (sys_sh ?y)" and e: "i_buffer (sys_sh (snd (snd ?t))) = []"
    by (simp_all add: sync_new_def with_bound_def mint_sender_def fresh_sender_def
        try_push_back_def wake_consumer_def is_full_def sender_close_def sender_release_def
        close_infallible_def close_edge_def receiver_poll_def drained_def drained_refused_def)
  have "?t = (fst ?t, fst (snd ?t), snd (snd ?t))" by simp
  from closed_edge_drains [OF c this] e show ?thesis by (simp add: Let_def)
qed

text \<open>C25. A sync edge closes with its last live producer and no earlier: in every state reached
  by fewer than \<open>2 ^ 64\<close> operations on an open edge, releasing handle \<open>i\<close> (by \<open>close\<close> or by dropping
  it) closes the edge exactly when \<open>i\<close> is the only handle not released yet; both always succeed, and
  releasing a handle twice changes nothing.\<close>

theorem closes_with_last_producer:
  assumes run: "sync_run ops (sync_new b) = (y, eff0)" and len: "length ops < 2 ^ 64"
    and opened: "\<not> i_closed (sys_sh y)" and i: "i < length (sys_tx y)"
  shows "(i_closed (sys_sh (fst (sync_exec (OpCloseSender i) y))) \<longleftrightarrow>
            (\<forall>j < length (sys_tx y). s_released (sys_tx y ! j) \<longleftrightarrow> j \<noteq> i)) \<and>
         fst (sync_exec (OpDropSender i) y) = fst (sync_exec (OpCloseSender i) y) \<and>
         fst (sender_close (sys_tx y ! i) (sys_sh y)) = Ok ()"
proof (intro conjI)
  let ?live = "\<lambda>tx. \<not> s_released tx"
  have inv: "sync_inv y" using sync_run_inv [OF sync_inv_new _ run] len by simp
  note D = sync_invD [OF inv]
  obtain r tx sh eff where c: "sender_close (sys_tx y ! i) (sys_sh y) = (r, tx, sh, eff)"
    by (cases "sender_close (sys_tx y ! i) (sys_sh y)") auto
  have "i_closed sh \<longleftrightarrow> \<not> s_released (sys_tx y ! i) \<and> producer_count (sys_sh y) = 1"
    using c opened by (auto elim!: sender_close_cases)
  also have "\<dots> \<longleftrightarrow> \<not> s_released (sys_tx y ! i) \<and>
      count_where ?live ((sys_tx y)[i := (sys_tx y ! i)\<lparr>s_released := True\<rparr>]) = 0"
    using D(1) count_where_update [OF i, of ?live "(sys_tx y ! i)\<lparr>s_released := True\<rparr>"] by auto
  also have "\<dots> \<longleftrightarrow> (\<forall>j < length (sys_tx y). s_released (sys_tx y ! j) \<longleftrightarrow> j \<noteq> i)"
    using i by (auto simp: count_where_0_iff all_set_conv_all_nth nth_list_update)
  finally show "i_closed (sys_sh (fst (sync_exec (OpCloseSender i) y))) \<longleftrightarrow>
           (\<forall>j < length (sys_tx y). s_released (sys_tx y ! j) \<longleftrightarrow> j \<noteq> i)"
    using c i by simp
  show "fst (sync_exec (OpDropSender i) y) = fst (sync_exec (OpCloseSender i) y)"
    using c i sender_drop_eq_close [of "sys_tx y ! i" "sys_sh y"] by simp
  from c show "fst (sender_close (sys_tx y ! i) (sys_sh y)) = Ok ()"
    by (auto elim!: sender_close_cases)
qed

theorem closes_with_last_producer_witness:
  "i_closed (sys_sh (fst (sync_exec (OpCloseSender 1)
     (fst (sync_run [OpMint, OpClone 0, OpCloseSender 0] (sync_new None :: (nat, nat) sync_sys))))))"
proof -
  let ?ops = "[OpMint, OpClone 0, OpCloseSender 0] :: (nat, nat) sync_op list"
  let ?r = "sync_run ?ops (sync_new None)"
  have r: "?r = (fst ?r, snd ?r)" by simp
  have o: "\<not> i_closed (sys_sh (fst ?r))" and i: "1 < length (sys_tx (fst ?r))"
    and all: "\<forall>j < length (sys_tx (fst ?r)). s_released (sys_tx (fst ?r) ! j) \<longleftrightarrow> j \<noteq> 1"
    by (auto simp: sync_new_def with_bound_def mint_sender_def fresh_sender_def sender_clone_def
        sender_close_def sender_release_def less_Suc_eq)
  from closes_with_last_producer [OF r _ o i] all show ?thesis by simp
qed

end
