(* ===== verification/Sync_Threads.thy ===== *)
theory Sync_Threads
  imports Sync_Edge
begin

text \<open>
  The sync edge under threads (src/edge/sync/sender.rs, src/edge/sync/receiver.rs): any number of
  producer threads, one per sender handle, and the consumer thread, which block on the two
  condvars. A step is one critical section of one thread, or one of the notifications it performs
  after unlocking: between the two, any other thread may run, which is where a wake-up could get
  lost. Condvars wake spuriously and \<open>notify_one\<close> picks any waiter. (\<open>close\<close> notifies before it
  unlocks; letting others in between only adds runs.)
\<close>

section \<open>Threads\<close>

datatype ('d, 's) ppc =
    PRun                              \<comment> \<open>outside the edge\<close>
  | PParked "('d, 's) message"        \<comment> \<open>in \<open>not_full.wait\<close>, to push the message\<close>
  | PWoken "('d, 's) message"         \<comment> \<open>notified (or spuriously awake), about to re-lock\<close>
  | PReleasing                        \<comment> \<open>\<open>release\<close> said last, \<open>close_infallible\<close> still to run\<close>

datatype cpc = CRun | CParked bool | CWoken bool   \<comment> \<open>True for \<open>read_all\<close>\<close>

record ('d, 's) producer =
  p_tx :: sender
  p_pc :: "('d, 's) ppc"
  p_pend :: "effect list"             \<comment> \<open>notifications still to perform\<close>

record ('d, 's) conc =
  k_sh :: "('d, 's) shared"
  k_prods :: "('d, 's) producer list"
  k_cpc :: cpc
  k_cpend :: "effect list"

fun parked_pc :: "('d, 's) ppc \<Rightarrow> bool" where
  "parked_pc (PParked m) = True"
| "parked_pc _ = False"

fun woken_pc :: "('d, 's) ppc \<Rightarrow> bool" where
  "woken_pc (PWoken m) = True"
| "woken_pc _ = False"

definition parked :: "('d, 's) producer \<Rightarrow> bool" where
  "parked p = parked_pc (p_pc p)"

definition woken :: "('d, 's) producer \<Rightarrow> bool" where
  "woken p = woken_pc (p_pc p)"

definition live :: "('d, 's) producer \<Rightarrow> bool" where
  "live p = (\<not> s_released (p_tx p))"

subsection \<open>Critical sections of a producer\<close>

text \<open>\<open>push_back\<close> up to its wait, and from there on; together they are \<open>push_back\<close>.\<close>

definition enter_push ::
  "('d, 's) message \<Rightarrow> ('d, 's) producer \<Rightarrow> ('d, 's) shared \<Rightarrow> ('d, 's) producer \<times> ('d, 's) shared" where
  "enter_push m p sh =
     (if s_released (p_tx p) then (p, sh)
      else if is_full sh \<and> \<not> i_closed sh
           then (p\<lparr>p_pc := PParked m\<rparr>, sh\<lparr>i_producers_waiting := i_producers_waiting sh + 1\<rparr>)
      else let (_, sh', eff) = push_land m sh in (p\<lparr>p_pend := eff\<rparr>, sh'))"

definition resume_push ::
  "('d, 's) message \<Rightarrow> ('d, 's) producer \<Rightarrow> ('d, 's) shared \<Rightarrow> ('d, 's) producer \<times> ('d, 's) shared" where
  "resume_push m p sh =
     (if is_full sh \<and> \<not> i_closed sh then (p\<lparr>p_pc := PParked m\<rparr>, sh)
      else let (_, sh', eff) = push_land m (sh\<lparr>i_producers_waiting := i_producers_waiting sh - 1\<rparr>)
           in (p\<lparr>p_pc := PRun, p_pend := eff\<rparr>, sh'))"

definition nb_push ::
  "('d, 's) message \<Rightarrow> ('d, 's) producer \<Rightarrow> ('d, 's) shared \<Rightarrow> ('d, 's) producer \<times> ('d, 's) shared" where
  "nb_push m p sh =
     (let (_, tx, sh', eff) = try_push_back m (p_tx p) sh in (p\<lparr>p_tx := tx, p_pend := eff\<rparr>, sh'))"

definition start_release ::
  "('d, 's) producer \<Rightarrow> ('d, 's) shared \<Rightarrow> ('d, 's) producer \<times> ('d, 's) shared" where
  "start_release p sh =
     (let (last, tx, sh') = sender_release (p_tx p) sh
      in (p\<lparr>p_tx := tx, p_pc := if last then PReleasing else PRun\<rparr>, sh'))"

definition finish_release ::
  "('d, 's) producer \<Rightarrow> ('d, 's) shared \<Rightarrow> ('d, 's) producer \<times> ('d, 's) shared" where
  "finish_release p sh = (let (sh', eff) = close_infallible sh in (p\<lparr>p_pc := PRun, p_pend := eff\<rparr>, sh'))"

inductive prod_step ::
  "('d, 's) producer \<Rightarrow> ('d, 's) shared \<Rightarrow> ('d, 's) producer \<times> ('d, 's) shared \<Rightarrow> bool" where
  push: "p_pc p = PRun \<Longrightarrow> prod_step p sh (enter_push m p sh)"
| spurious: "p_pc p = PParked m \<Longrightarrow> prod_step p sh (p\<lparr>p_pc := PWoken m\<rparr>, sh)"
| resume: "p_pc p = PWoken m \<Longrightarrow> prod_step p sh (resume_push m p sh)"
| try_push: "p_pc p = PRun \<Longrightarrow> prod_step p sh (nb_push m p sh)"
| schedule: "p_pc p = PRun \<Longrightarrow> prod_step p sh (p\<lparr>p_tx := sender_schedule w (p_tx p)\<rparr>, sh)"
| release: "p_pc p = PRun \<Longrightarrow> prod_step p sh (start_release p sh)"
| close: "p_pc p = PReleasing \<Longrightarrow> prod_step p sh (finish_release p sh)"

subsection \<open>Critical sections of the consumer\<close>

definition park_or_read ::
  "bool \<Rightarrow> ('d, 's) shared \<Rightarrow> cpc \<times> effect list \<times> ('d, 's) shared" where
  "park_or_read batch sh =
     (if i_buffer sh \<noteq> [] then
        (let (sh', eff) = (if batch then drained (sh\<lparr>i_buffer := []\<rparr>) FreedAll
                           else drained (sh\<lparr>i_buffer := tl (i_buffer sh)\<rparr>) FreedOne)
         in (CRun, eff, sh'))
      else if i_closed sh \<or> producer_count sh = 0 then (CRun, [], sh)
      else (CParked batch, [], sh\<lparr>i_consumer_waiting := True\<rparr>))"

definition poll_section :: "('d, 's) shared \<Rightarrow> cpc \<times> effect list \<times> ('d, 's) shared" where
  "poll_section sh = (let (_, sh', eff) = receiver_poll sh in (CRun, eff, sh'))"

definition try_pop_section :: "('d, 's) shared \<Rightarrow> cpc \<times> effect list \<times> ('d, 's) shared" where
  "try_pop_section sh = (let (_, sh', eff) = try_pop sh in (CRun, eff, sh'))"

definition close_section :: "('d, 's) shared \<Rightarrow> cpc \<times> effect list \<times> ('d, 's) shared" where
  "close_section sh = (let (_, sh', eff) = receiver_close sh in (CRun, eff, sh'))"

inductive cons_step ::
  "cpc \<Rightarrow> ('d, 's) shared \<Rightarrow> cpc \<times> effect list \<times> ('d, 's) shared \<Rightarrow> bool" where
  read: "cons_step CRun sh (park_or_read batch sh)"
| reread: "cons_step (CWoken batch) sh (park_or_read batch sh)"
| cspurious: "cons_step (CParked batch) sh (CWoken batch, [], sh)"
| poll: "cons_step CRun sh (poll_section sh)"
| pop: "cons_step CRun sh (try_pop_section sh)"
| cclose: "cons_step CRun sh (close_section sh)"

subsection \<open>Notifications\<close>

fun wake_cpc :: "cpc \<Rightarrow> cpc" where
  "wake_cpc (CParked b) = CWoken b"
| "wake_cpc c = c"

definition wake_producer :: "('d, 's) producer \<Rightarrow> ('d, 's) producer" where
  "wake_producer p = (case p_pc p of PParked m \<Rightarrow> p\<lparr>p_pc := PWoken m\<rparr> | _ \<Rightarrow> p)"

text \<open>Waking a \<open>Waker\<close> reaches another thread's parker, not the threads of this edge.\<close>

inductive deliver :: "effect \<Rightarrow> ('d, 's) conc \<Rightarrow> ('d, 's) conc \<Rightarrow> bool" where
  not_empty: "e = NotifyNotEmpty \<or> e = NotifyAllNotEmpty \<Longrightarrow>
     deliver e k (k\<lparr>k_cpc := wake_cpc (k_cpc k)\<rparr>)"
| all_not_full: "deliver NotifyAllNotFull k (k\<lparr>k_prods := List.map wake_producer (k_prods k)\<rparr>)"
| not_full: "i < length (k_prods k) \<Longrightarrow> parked (k_prods k ! i) \<Longrightarrow>
     deliver NotifyNotFull k (k\<lparr>k_prods := (k_prods k)[i := wake_producer (k_prods k ! i)]\<rparr>)"
| nobody: "(\<forall>p\<in>set (k_prods k). \<not> parked p) \<Longrightarrow> deliver NotifyNotFull k k"
| waker: "deliver (Wake w) k k"

subsection \<open>Steps of the edge\<close>

inductive edge_step :: "('d, 's) conc \<Rightarrow> ('d, 's) conc \<Rightarrow> bool" where
  producer: "i < length (k_prods k) \<Longrightarrow> p_pend (k_prods k ! i) = [] \<Longrightarrow>
     prod_step (k_prods k ! i) (k_sh k) (p', sh') \<Longrightarrow>
     edge_step k (k\<lparr>k_sh := sh', k_prods := (k_prods k)[i := p']\<rparr>)"
| clone: "i < length (k_prods k) \<Longrightarrow> p_pend (k_prods k ! i) = [] \<Longrightarrow>
     p_pc (k_prods k ! i) = PRun \<Longrightarrow> sender_clone (p_tx (k_prods k ! i)) (k_sh k) = (tx, sh') \<Longrightarrow>
     edge_step k (k\<lparr>k_sh := sh', k_prods := k_prods k @ [\<lparr>p_tx = tx, p_pc = PRun, p_pend = []\<rparr>]\<rparr>)"
| producer_notify: "i < length (k_prods k) \<Longrightarrow> p_pend (k_prods k ! i) = e # es \<Longrightarrow>
     deliver e (k\<lparr>k_prods := (k_prods k)[i := (k_prods k ! i)\<lparr>p_pend := es\<rparr>]\<rparr>) k' \<Longrightarrow>
     edge_step k k'"
| consumer: "k_cpend k = [] \<Longrightarrow> cons_step (k_cpc k) (k_sh k) (c', eff, sh') \<Longrightarrow>
     edge_step k (k\<lparr>k_sh := sh', k_cpc := c', k_cpend := eff\<rparr>)"
| mint: "k_cpend k = [] \<Longrightarrow> k_cpc k = CRun \<Longrightarrow> mint_sender (k_sh k) = (tx, sh') \<Longrightarrow>
     edge_step k (k\<lparr>k_sh := sh', k_prods := k_prods k @ [\<lparr>p_tx = tx, p_pc = PRun, p_pend = []\<rparr>]\<rparr>)"
| consumer_notify: "k_cpend k = e # es \<Longrightarrow> deliver e (k\<lparr>k_cpend := es\<rparr>) k' \<Longrightarrow> edge_step k k'"

definition conc_new :: "bound \<Rightarrow> ('d, 's) conc" where
  "conc_new b = \<lparr>k_sh = with_bound b, k_prods = [], k_cpc = CRun, k_cpend = []\<rparr>"

inductive edge_reach :: "bound \<Rightarrow> ('d, 's) conc \<Rightarrow> bool" for b where
  start: "edge_reach b (conc_new b)"
| step: "edge_reach b k \<Longrightarrow> edge_step k k' \<Longrightarrow> edge_reach b k'"

section \<open>The invariant\<close>

definition ne_pending :: "('d, 's) conc \<Rightarrow> bool" where
  "ne_pending k \<longleftrightarrow>
     (\<exists>p\<in>set (k_prods k). NotifyNotEmpty \<in> set (p_pend p) \<or> NotifyAllNotEmpty \<in> set (p_pend p))"

definition all_pending :: "('d, 's) conc \<Rightarrow> bool" where
  "all_pending k \<longleftrightarrow>
     NotifyAllNotFull \<in> set (k_cpend k) \<or> (\<exists>p\<in>set (k_prods k). NotifyAllNotFull \<in> set (p_pend p))"

definition one_pending :: "('d, 's) conc \<Rightarrow> nat" where
  "one_pending k = count_where (\<lambda>e. e = NotifyNotFull) (k_cpend k)"

text \<open>A parked consumer that nobody is about to notify found nothing to read, and still finds
  nothing.\<close>

definition consumer_ok :: "('d, 's) conc \<Rightarrow> bool" where
  "consumer_ok k \<longleftrightarrow>
     (\<forall>b. k_cpc k = CParked b \<longrightarrow>
        ne_pending k \<or>
        (i_consumer_waiting (k_sh k) \<and> i_buffer (k_sh k) = [] \<and> \<not> i_closed (k_sh k) \<and>
         (0 < producer_count (k_sh k) \<or> (\<exists>p\<in>set (k_prods k). p_pc p = PReleasing))))"

text \<open>While a producer is parked, every free slot is matched by a producer already woken or by a
  notification under way.\<close>

definition producers_ok :: "('d, 's) conc \<Rightarrow> bool" where
  "producers_ok k \<longleftrightarrow>
     ((\<exists>p\<in>set (k_prods k). parked p) \<longrightarrow>
        all_pending k \<or>
        (\<not> i_closed (k_sh k) \<and>
         (\<exists>b. i_bound (k_sh k) = Some b \<and>
              b \<le> length (i_buffer (k_sh k)) + count_where woken (k_prods k) + one_pending k)))"

definition counts_ok :: "('d, 's) conc \<Rightarrow> bool" where
  "counts_ok k \<longleftrightarrow>
     i_producers_waiting (k_sh k) = count_where (\<lambda>p. parked p \<or> woken p) (k_prods k) \<and>
     producer_count (k_sh k) = count_where live (k_prods k)"

definition conc_inv :: "('d, 's) conc \<Rightarrow> bool" where
  "conc_inv k \<longleftrightarrow> counts_ok k \<and> consumer_ok k \<and> producers_ok k"

section \<open>Steps, case by case\<close>

lemma prod_step_cases:
  assumes "prod_step p sh (p', sh')" and "p_pend p = []"
  obtains
    (park) m where "p_pc p = PRun \<or> p_pc p = PWoken m" "is_full sh" "\<not> i_closed sh"
      "p' = p\<lparr>p_pc := PParked m\<rparr>"
      "sh' = sh\<lparr>i_producers_waiting := i_producers_waiting sh + of_bool (\<not> woken p)\<rparr>"
  | (land) m where "p_pc p = PRun \<or> p_pc p = PWoken m" "\<not> is_full sh" "\<not> i_closed sh"
      "p' = p\<lparr>p_pc := PRun, p_pend := if i_consumer_waiting sh then [NotifyNotEmpty] else []\<rparr>"
      "sh' = sh\<lparr>i_producers_waiting := i_producers_waiting sh - of_bool (woken p),
               i_buffer := i_buffer sh @ [m], i_consumer_waiting := False\<rparr>"
  | (refused_closed) m where "p_pc p = PWoken m" "i_closed sh" "p' = p\<lparr>p_pc := PRun, p_pend := []\<rparr>"
      "sh' = sh\<lparr>i_producers_waiting := i_producers_waiting sh - 1\<rparr>"
  | (stay) r tx where "p_pc p = PRun" "p' = p\<lparr>p_tx := tx, p_pend := []\<rparr>" "sh' = sh\<lparr>i_refused := r\<rparr>"
      "s_released tx = s_released (p_tx p)"
  | (spurious) m where "p_pc p = PParked m" "p' = p\<lparr>p_pc := PWoken m\<rparr>" "sh' = sh"
  | (release_more) "p_pc p = PRun" "live p" "producer_count sh \<noteq> 1"
      "p' = p\<lparr>p_tx := (p_tx p)\<lparr>s_released := True\<rparr>, p_pc := PRun\<rparr>"
      "sh' = sh\<lparr>producer_count := producer_count sh - 1\<rparr>"
  | (release_last) "p_pc p = PRun" "live p" "producer_count sh = 1"
      "p' = p\<lparr>p_tx := (p_tx p)\<lparr>s_released := True\<rparr>, p_pc := PReleasing\<rparr>"
      "sh' = sh\<lparr>producer_count := 0\<rparr>"
  | (close) "p_pc p = PReleasing" "p' = p\<lparr>p_pc := PRun, p_pend := snd (close_edge sh)\<rparr>"
      "sh' = fst (close_edge sh)"
proof -
  have same: "p = p\<lparr>p_tx := p_tx p, p_pend := []\<rparr>" "sh = sh\<lparr>i_refused := i_refused sh\<rparr>"
    using assms(2) by simp_all
  from assms(1) show ?thesis
  proof (cases rule: prod_step.cases)
    case (push m)
    show ?thesis
    proof (cases "s_released (p_tx p) \<or> i_closed sh")
      case True
      with push assms(2) same show ?thesis
        by (intro stay [of "p_tx p" "i_refused sh"])
          (auto simp: enter_push_def push_land_def split: if_splits)
    next
      case False
      show ?thesis
      proof (cases "is_full sh")
        case True
        with False push assms(2) show ?thesis
          by (intro park [of m]) (auto simp: enter_push_def woken_def)
      next
        case no_room: False
        with False push assms(2) show ?thesis
          by (intro land [of m]) (auto simp: enter_push_def push_land_def wake_consumer_def woken_def)
      qed
    qed
  next
    case (spurious m)
    then show ?thesis using that(5) by auto
  next
    case (resume m)
    show ?thesis
    proof (cases "i_closed sh")
      case True
      with resume show ?thesis
        by (intro refused_closed [of m]) (auto simp: resume_push_def push_land_def)
    next
      case False
      show ?thesis
      proof (cases "is_full sh")
        case True
        with False resume show ?thesis
          by (intro park [of m]) (auto simp: resume_push_def woken_def)
      next
        case no_room: False
        with False resume show ?thesis
          by (intro land [of m])
            (auto simp: resume_push_def push_land_def wake_consumer_def woken_def is_full_def)
      qed
    qed
  next
    case (try_push m)
    obtain r tx sh1 eff where t: "try_push_back m (p_tx p) sh = (r, tx, sh1, eff)"
      by (cases "try_push_back m (p_tx p) sh") auto
    with try_push have e: "p' = p\<lparr>p_tx := tx, p_pend := eff\<rparr>" "sh' = sh1"
      by (auto simp: nb_push_def)
    from t show ?thesis
    proof (cases rule: try_push_back_cases)
      case pushed
      with e try_push show ?thesis by (intro land [of m]) (auto simp: woken_def)
    next
      case full
      with e try_push same show ?thesis
        by (intro stay [of tx "i_refused sh1"]) (auto split: option.splits)
    qed (use e try_push same in \<open>auto intro: stay [of "p_tx p" "i_refused sh"]\<close>)
  next
    case (schedule w)
    have "p\<lparr>p_tx := t\<rparr> = p\<lparr>p_tx := t, p_pend := []\<rparr>" for t using assms(2) by (cases p) simp
    with schedule show ?thesis
      by (intro stay [of "sender_schedule w (p_tx p)" "i_refused sh"])
        (auto simp: sender_schedule_def)
  next
    case release
    obtain l tx sh1 where t: "sender_release (p_tx p) sh = (l, tx, sh1)"
      by (cases "sender_release (p_tx p) sh") auto
    with release have e: "p' = p\<lparr>p_tx := tx, p_pc := if l then PReleasing else PRun\<rparr>" "sh' = sh1"
      by (auto simp: start_release_def)
    from t show ?thesis
    proof (cases rule: sender_release_cases)
      case again
      with e release same assms(2) show ?thesis
        by (intro stay [of "p_tx p" "i_refused sh"]) auto
    next
      case once
      with e release show ?thesis
        by (cases l) (auto simp: live_def intro: release_more release_last)
    qed
  next
    case close
    with that(8) show ?thesis
      by (auto simp: finish_release_def close_infallible_def case_prod_unfold Let_def)
  qed
qed

lemma cons_step_cases:
  assumes "cons_step c sh (c', eff, sh')"
  obtains
    (drain_one) m ms where "i_buffer sh = m # ms" "c' = CRun"
      "sh' = fst (drained (sh\<lparr>i_buffer := ms\<rparr>) FreedOne)"
      "eff = snd (drained (sh\<lparr>i_buffer := ms\<rparr>) FreedOne)"
  | (drain_all) "c' = CRun" "sh' = fst (drained (sh\<lparr>i_buffer := []\<rparr>) FreedAll)"
      "eff = snd (drained (sh\<lparr>i_buffer := []\<rparr>) FreedAll)"
  | (unchanged) "\<And>b. c' \<noteq> CParked b" "eff = []" "sh' = sh"
  | (parks) b where "c' = CParked b" "eff = []" "i_buffer sh = []" "\<not> i_closed sh"
      "0 < producer_count sh" "sh' = sh\<lparr>i_consumer_waiting := True\<rparr>"
  | (close) "c' = CRun" "sh' = fst (close_edge sh)" "eff = snd (close_edge sh)"
proof -
  have n: ?thesis if "c' = CRun" "eff = []" "sh' = sh" by (rule unchanged) (use that in auto)
  have pr: ?thesis if "(c', eff, sh') = park_or_read b sh" for b
  proof (cases "i_buffer sh")
    case Nil
    with that n parks show ?thesis by (auto simp: park_or_read_def split: if_splits)
  next
    case (Cons m ms)
    with that drain_one drain_all show ?thesis
      by (cases b) (auto simp: park_or_read_def case_prod_unfold Let_def)
  qed
  from assms show ?thesis
  proof (cases rule: cons_step.cases)
    case poll
    then show ?thesis
      by (cases "receiver_poll sh")
        (auto simp: poll_section_def elim!: receiver_poll_cases intro: n drain_one)
  next
    case pop
    then show ?thesis
      by (cases "try_pop sh")
        (auto simp: try_pop_section_def elim!: try_pop_cases intro: n drain_one)
  next
    case cclose
    then show ?thesis using close
      by (auto simp: close_section_def receiver_close_def case_prod_unfold Let_def)
  next
    case (cspurious b)
    show ?thesis by (rule unchanged) (use cspurious in auto)
  qed (use pr in auto)
qed

section \<open>Every step keeps the invariant\<close>

lemma parked_woken_simps [simp]:
  "parked (p\<lparr>p_pc := PParked m\<rparr>)" "\<not> woken (p\<lparr>p_pc := PParked m\<rparr>)"
  "woken (p\<lparr>p_pc := PWoken m\<rparr>)" "\<not> parked (p\<lparr>p_pc := PWoken m\<rparr>)"
  "\<not> parked (p\<lparr>p_pc := PRun\<rparr>)" "\<not> woken (p\<lparr>p_pc := PRun\<rparr>)"
  "\<not> parked (p\<lparr>p_pc := PReleasing\<rparr>)" "\<not> woken (p\<lparr>p_pc := PReleasing\<rparr>)"
  "parked (p\<lparr>p_pend := es\<rparr>) = parked p" "woken (p\<lparr>p_pend := es\<rparr>) = woken p"
  "parked (p\<lparr>p_tx := t\<rparr>) = parked p" "woken (p\<lparr>p_tx := t\<rparr>) = woken p"
  "live (p\<lparr>p_pc := c\<rparr>) = live p" "live (p\<lparr>p_pend := es\<rparr>) = live p"
  "live (p\<lparr>p_tx := t\<rparr>) = (\<not> s_released t)"
  "\<not> parked \<lparr>p_tx = t, p_pc = PRun, p_pend = es\<rparr>" "\<not> woken \<lparr>p_tx = t, p_pc = PRun, p_pend = es\<rparr>"
  "live \<lparr>p_tx = t, p_pc = c, p_pend = es\<rparr> = (\<not> s_released t)"
  by (simp_all add: parked_def woken_def live_def)

lemma pc_parked: "p_pc p = PParked m \<Longrightarrow> parked p \<and> \<not> woken p"
  by (simp add: parked_def woken_def)

lemma pc_woken: "p_pc p = PWoken m \<Longrightarrow> woken p \<and> \<not> parked p"
  by (simp add: parked_def woken_def)

lemma pc_run: "p_pc p = PRun \<Longrightarrow> \<not> woken p \<and> \<not> parked p"
  by (simp add: parked_def woken_def)

lemma pc_releasing: "p_pc p = PReleasing \<Longrightarrow> \<not> woken p \<and> \<not> parked p"
  by (simp add: parked_def woken_def)

lemma parked_not_woken: "parked p \<Longrightarrow> \<not> woken p"
  by (cases "p_pc p") (simp_all add: parked_def woken_def)

lemmas pc_facts = pc_parked pc_woken pc_run pc_releasing

lemma counts_ok_producer:
  assumes ok: "counts_ok k" and i: "i < length (k_prods k)" and e: "p_pend (k_prods k ! i) = []"
    and s: "prod_step (k_prods k ! i) (k_sh k) (p', sh')"
  shows "counts_ok (k\<lparr>k_sh := sh', k_prods := (k_prods k)[i := p']\<rparr>)"
proof -
  let ?p = "k_prods k ! i"
  let ?w = "\<lambda>p. parked p \<or> woken p"
  have w: "i_producers_waiting sh' + of_bool (?w ?p) = i_producers_waiting (k_sh k) + of_bool (?w p')"
    and l: "producer_count sh' + of_bool (live ?p) = producer_count (k_sh k) + of_bool (live p')"
  proof -
    have pos: "?w ?p \<Longrightarrow> 0 < i_producers_waiting (k_sh k)"
      using ok i count_where_pos_nth [OF i, of ?w] by (simp add: counts_ok_def)
    have lpos: "live ?p \<Longrightarrow> 0 < producer_count (k_sh k)"
      using ok i count_where_pos_nth [OF i, of live] by (simp add: counts_ok_def)
    show "i_producers_waiting sh' + of_bool (?w ?p) = i_producers_waiting (k_sh k) + of_bool (?w p')"
      using s e by (cases rule: prod_step_cases) (use pos in \<open>auto dest!: pc_facts\<close>)
    show "producer_count sh' + of_bool (live ?p) = producer_count (k_sh k) + of_bool (live p')"
      using s e by (cases rule: prod_step_cases) (use lpos in \<open>auto simp: live_def\<close>)
  qed
  show ?thesis
    using ok w l count_where_update [OF i, of ?w p'] count_where_update [OF i, of live p']
    by (simp add: counts_ok_def)
qed

lemma ne_pending_update:
  "i < length (k_prods k) \<Longrightarrow>
     ne_pending (k\<lparr>k_sh := sh, k_prods := (k_prods k)[i := p']\<rparr>) \<longleftrightarrow>
     NotifyNotEmpty \<in> set (p_pend p') \<or> NotifyAllNotEmpty \<in> set (p_pend p') \<or>
     (\<exists>j < length (k_prods k). j \<noteq> i \<and>
        (NotifyNotEmpty \<in> set (p_pend (k_prods k ! j)) \<or>
         NotifyAllNotEmpty \<in> set (p_pend (k_prods k ! j))))"
  unfolding ne_pending_def by (simp add: ex_set_update)

lemma ne_pending_nth:
  "ne_pending k \<longleftrightarrow>
     (\<exists>j < length (k_prods k). NotifyNotEmpty \<in> set (p_pend (k_prods k ! j)) \<or>
        NotifyAllNotEmpty \<in> set (p_pend (k_prods k ! j)))"
  unfolding ne_pending_def by (rule ex_set_nth)

lemma releasing_update:
  "i < length ps \<Longrightarrow>
     (\<exists>p\<in>set (ps[i := p']). p_pc p = PReleasing) \<longleftrightarrow>
     p_pc p' = PReleasing \<or> (\<exists>j < length ps. j \<noteq> i \<and> p_pc (ps ! j) = PReleasing)"
  by (rule ex_set_update)

lemma close_edge_pending:
  "NotifyAllNotEmpty \<in> set (snd (close_edge sh))" "NotifyAllNotFull \<in> set (snd (close_edge sh))"
  by (simp_all add: close_edge_def)

lemma consumer_ok_producer:
  assumes ok: "consumer_ok k" and i: "i < length (k_prods k)" and e: "p_pend (k_prods k ! i) = []"
    and s: "prod_step (k_prods k ! i) (k_sh k) (p', sh')"
  shows "consumer_ok (k\<lparr>k_sh := sh', k_prods := (k_prods k)[i := p']\<rparr>)"
  unfolding consumer_ok_def
proof (intro allI impI)
  let ?k' = "k\<lparr>k_sh := sh', k_prods := (k_prods k)[i := p']\<rparr>"
  fix b assume "k_cpc ?k' = CParked b"
  with ok consider (pending) "ne_pending k"
    | (idle) "i_consumer_waiting (k_sh k)" "i_buffer (k_sh k) = []" "\<not> i_closed (k_sh k)"
        "0 < producer_count (k_sh k) \<or> (\<exists>p\<in>set (k_prods k). p_pc p = PReleasing)"
    by (auto simp: consumer_ok_def)
  then show "ne_pending ?k' \<or>
      i_consumer_waiting (k_sh ?k') \<and> i_buffer (k_sh ?k') = [] \<and> \<not> i_closed (k_sh ?k') \<and>
      (0 < producer_count (k_sh ?k') \<or> (\<exists>p\<in>set (k_prods ?k'). p_pc p = PReleasing))"
  proof cases
    case pending
    then obtain j where "j < length (k_prods k)" "j \<noteq> i"
        "NotifyNotEmpty \<in> set (p_pend (k_prods k ! j)) \<or> NotifyAllNotEmpty \<in> set (p_pend (k_prods k ! j))"
      using e unfolding ne_pending_nth by (metis empty_iff list.set(1))
    then show ?thesis using i by (auto simp: ne_pending_update)
  next
    case idle
    have r: "p_pc (k_prods k ! i) \<noteq> PReleasing \<Longrightarrow>
        0 < producer_count (k_sh k) \<or> (\<exists>p\<in>set ((k_prods k)[i := p']). p_pc p = PReleasing)"
      using idle(4) unfolding releasing_update [OF i] by (metis in_set_conv_nth)
    have m: "p_pc p' = PReleasing \<Longrightarrow> \<exists>p\<in>set ((k_prods k)[i := p']). p_pc p = PReleasing"
      using i by (auto simp: releasing_update)
    from s e show ?thesis
    proof (cases rule: prod_step_cases)
      case (land m)
      with idle i show ?thesis by (auto simp: ne_pending_update)
    next
      case close
      with i show ?thesis by (auto simp: ne_pending_update close_edge_pending)
    qed (use idle r m in auto)
  qed
qed

lemma is_full_Some: "is_full sh \<Longrightarrow> \<exists>b. i_bound sh = Some b \<and> b \<le> length (i_buffer sh)"
  by (auto simp: is_full_def split: option.splits)

lemma all_pending_update:
  "i < length (k_prods k) \<Longrightarrow>
     all_pending (k\<lparr>k_sh := sh, k_prods := (k_prods k)[i := p']\<rparr>) \<longleftrightarrow>
     NotifyAllNotFull \<in> set (k_cpend k) \<or> NotifyAllNotFull \<in> set (p_pend p') \<or>
     (\<exists>j < length (k_prods k). j \<noteq> i \<and> NotifyAllNotFull \<in> set (p_pend (k_prods k ! j)))"
  unfolding all_pending_def by (simp add: ex_set_update)

lemma all_pending_nth:
  "all_pending k \<longleftrightarrow>
     NotifyAllNotFull \<in> set (k_cpend k) \<or>
     (\<exists>j < length (k_prods k). NotifyAllNotFull \<in> set (p_pend (k_prods k ! j)))"
  unfolding all_pending_def by (simp add: ex_set_nth)

text \<open>The room a parked producer could use, and who is about to take it.\<close>

definition covered :: "('d, 's) shared \<Rightarrow> nat \<Rightarrow> bool" where
  "covered sh n \<longleftrightarrow>
     \<not> i_closed sh \<and> (\<exists>b. i_bound sh = Some b \<and> b \<le> length (i_buffer sh) + n)"

lemma producers_ok_alt:
  "producers_ok k \<longleftrightarrow>
     ((\<exists>p\<in>set (k_prods k). parked p) \<longrightarrow>
        all_pending k \<or> covered (k_sh k) (count_where woken (k_prods k) + one_pending k))"
  by (auto simp: producers_ok_def covered_def add.assoc)

lemma covered_mono: "covered sh n \<Longrightarrow> n \<le> n' \<Longrightarrow> covered sh n'"
  by (auto simp: covered_def)

lemma producers_ok_producer:
  assumes ok: "producers_ok k" and i: "i < length (k_prods k)" and e: "p_pend (k_prods k ! i) = []"
    and s: "prod_step (k_prods k ! i) (k_sh k) (p', sh')"
  shows "producers_ok (k\<lparr>k_sh := sh', k_prods := (k_prods k)[i := p']\<rparr>)"
  unfolding producers_ok_alt
proof (intro impI)
  let ?p = "k_prods k ! i"
  let ?ps' = "(k_prods k)[i := p']"
  let ?k' = "k\<lparr>k_sh := sh', k_prods := ?ps'\<rparr>"
  assume "\<exists>p\<in>set (k_prods ?k'). parked p"
  then have pk: "parked p' \<or> (\<exists>j<length (k_prods k). j \<noteq> i \<and> parked (k_prods k ! j))"
    using i by (simp add: ex_set_update)
  have keep: "all_pending k \<Longrightarrow> all_pending ?k'"
    using e i unfolding all_pending_nth [of k] by (auto simp: all_pending_update)
  have cnt: "count_where woken ?ps' + of_bool (woken ?p) = count_where woken (k_prods k) + of_bool (woken p')"
    by (rule count_where_update [OF i])
  have old: "all_pending ?k' \<or> covered (k_sh k) (count_where woken (k_prods k) + one_pending k)"
    if "\<exists>j<length (k_prods k). parked (k_prods k ! j)"
    using ok keep that unfolding producers_ok_alt ex_set_nth by blast
  have fin: "all_pending ?k' \<or> covered (k_sh ?k') (count_where woken (k_prods ?k') + one_pending ?k')"
    if "\<exists>j<length (k_prods k). parked (k_prods k ! j)"
      and "covered (k_sh k) (count_where woken (k_prods k) + one_pending k) \<Longrightarrow>
           covered sh' (count_where woken ?ps' + one_pending k)"
    using old [OF that(1)] that(2) by (auto simp: one_pending_def)
  have others: "\<not> parked p' \<Longrightarrow> \<exists>j<length (k_prods k). parked (k_prods k ! j)" using pk by blast
  from s e show "all_pending ?k' \<or> covered (k_sh ?k') (count_where woken (k_prods ?k') + one_pending ?k')"
  proof (cases rule: prod_step_cases)
    case (park m)
    then show ?thesis using is_full_Some [of "k_sh k"] by (auto simp: covered_def)
  next
    case (land m)
    then have np: "\<not> parked p'" and sh: "i_closed sh' = i_closed (k_sh k)" "i_bound sh' = i_bound (k_sh k)"
        "length (i_buffer sh') = Suc (length (i_buffer (k_sh k)))" by simp_all
    show ?thesis
    proof (rule fin [OF others [OF np]])
      assume c: "covered (k_sh k) (count_where woken (k_prods k) + one_pending k)"
      have "count_where woken (k_prods k) \<le> count_where woken ?ps' + 1"
        using cnt by (cases "woken ?p") simp_all
      with c sh show "covered sh' (count_where woken ?ps' + one_pending k)"
        by (auto simp: covered_def)
    qed
  next
    case (refused_closed m)
    then have np: "\<not> parked p'" and c: "i_closed (k_sh k)" by simp_all
    show ?thesis by (rule fin [OF others [OF np]]) (use c in \<open>simp add: covered_def\<close>)
  next
    case (stay r tx)
    then have np: "\<not> parked p'" and w: "woken p' = woken ?p" using pc_run by auto
    have sh: "covered sh' n = covered (k_sh k) n" for n using stay by (simp add: covered_def)
    show ?thesis by (rule fin [OF others [OF np]]) (use cnt w sh in simp)
  next
    case (spurious m)
    have pj: "\<exists>j<length (k_prods k). parked (k_prods k ! j)" using spurious i pc_parked by blast
    have "woken p'" using spurious by simp
    then have "count_where woken (k_prods k) \<le> count_where woken ?ps'"
      using cnt by (cases "woken ?p") simp_all
    with spurious show ?thesis by (intro fin [OF pj]) (auto elim: covered_mono)
  next
    case release_more
    then have np: "\<not> parked p'" and w: "woken p' = woken ?p" using pc_run by auto
    have sh: "covered sh' n = covered (k_sh k) n" for n using release_more by (simp add: covered_def)
    show ?thesis by (rule fin [OF others [OF np]]) (use cnt w sh in simp)
  next
    case release_last
    then have np: "\<not> parked p'" and w: "woken p' = woken ?p" using pc_run by auto
    have sh: "covered sh' n = covered (k_sh k) n" for n using release_last by (simp add: covered_def)
    show ?thesis by (rule fin [OF others [OF np]]) (use cnt w sh in simp)
  next
    case close
    then show ?thesis using i by (simp add: all_pending_update close_edge_pending)
  qed
qed

text \<open>A new handle starts outside the edge; only the count of live handles moves.\<close>

lemma conc_inv_append:
  assumes inv: "conc_inv k" and n: "p_pc p = PRun" "p_pend p = []"
    and sh: "sh' = (k_sh k)\<lparr>producer_count := producer_count (k_sh k) + of_bool (live p)\<rparr>"
  shows "conc_inv (k\<lparr>k_sh := sh', k_prods := k_prods k @ [p]\<rparr>)"
  using inv n pc_run [OF n(1)]
  unfolding conc_inv_def counts_ok_def consumer_ok_def producers_ok_def ne_pending_def
    all_pending_def one_pending_def sh
  by auto

lemma conc_inv_consumer:
  assumes inv: "conc_inv k" and e: "k_cpend k = []"
    and s: "cons_step (k_cpc k) (k_sh k) (c', eff, sh')"
  shows "conc_inv (k\<lparr>k_sh := sh', k_cpc := c', k_cpend := eff\<rparr>)"
proof -
  let ?k' = "k\<lparr>k_sh := sh', k_cpc := c', k_cpend := eff\<rparr>"
  have c: "counts_ok ?k'"
    using s by (cases rule: cons_step_cases) (use inv in \<open>auto simp: conc_inv_def counts_ok_def\<close>)
  have n: "consumer_ok ?k'"
    using s by (cases rule: cons_step_cases) (auto simp: consumer_ok_def)
  have w: "0 < i_producers_waiting (k_sh k)" if "\<exists>p\<in>set (k_prods k). parked p"
    using inv that by (auto simp: conc_inv_def counts_ok_def count_where_pos_iff)
  have p: "producers_ok ?k'"
    unfolding producers_ok_alt
  proof (intro impI)
    assume "\<exists>p\<in>set (k_prods ?k'). parked p"
    then have pk: "\<exists>p\<in>set (k_prods k). parked p" by simp
    with inv have old: "all_pending ?k' \<or> covered (k_sh k) (count_where woken (k_prods k))"
      using e by (auto simp: conc_inv_def producers_ok_alt one_pending_def all_pending_def)
    from s show "all_pending ?k' \<or> covered (k_sh ?k') (count_where woken (k_prods ?k') + one_pending ?k')"
    proof (cases rule: cons_step_cases)
      case (drain_one m ms)
      have "NotifyNotFull \<in> set eff" using drain_one w [OF pk] by (simp add: drained_notifies_one)
      then have "1 \<le> one_pending ?k'"
        using count_where_pos_iff [of "\<lambda>e. e = NotifyNotFull" eff] by (auto simp: one_pending_def)
      with old drain_one show ?thesis by (auto simp: covered_def)
    next
      case drain_all
      have "NotifyAllNotFull \<in> set eff" using drain_all w [OF pk] by (simp add: drained_notifies_all)
      then show ?thesis by (simp add: all_pending_def)
    next
      case close
      then show ?thesis by (simp add: all_pending_def close_edge_pending)
    qed (use old in \<open>auto simp: covered_def\<close>)
  qed
  from c n p show ?thesis by (simp add: conc_inv_def)
qed

subsection \<open>Notifications keep the invariant\<close>

text \<open>The state between taking a notification off a thread's list and performing it: the
  invariant may rest on exactly that notification.\<close>

definition about_to :: "effect \<Rightarrow> ('d, 's) conc \<Rightarrow> bool" where
  "about_to e k \<longleftrightarrow>
     counts_ok k \<and>
     (consumer_ok k \<or> e = NotifyNotEmpty \<or> e = NotifyAllNotEmpty) \<and>
     (producers_ok k \<or> e = NotifyAllNotFull \<or>
      e = NotifyNotFull \<and> \<not> i_closed (k_sh k) \<and>
        covered (k_sh k) (count_where woken (k_prods k) + one_pending k + 1))"

lemma wake_producer_fields [simp]:
  "parked (wake_producer p) = False" "woken (wake_producer p) = (parked p \<or> woken p)"
  "live (wake_producer p) = live p" "p_pend (wake_producer p) = p_pend p"
  "(p_pc (wake_producer p) = PReleasing) = (p_pc p = PReleasing)"
  by (simp_all add: wake_producer_def parked_def woken_def live_def split: ppc.splits)

lemma wake_cpc_not_parked [simp]: "wake_cpc c \<noteq> CParked b" "CParked b \<noteq> wake_cpc c"
  by (cases c; simp)+

lemma deliver_keeps:
  assumes d: "deliver e k k'" and a: "about_to e k"
  shows "conc_inv k'"
  using d
proof (cases rule: deliver.cases)
  case not_empty
  then show ?thesis using a
    by (auto simp: about_to_def conc_inv_def counts_ok_def consumer_ok_def producers_ok_alt
        all_pending_def one_pending_def)
next
  case all_not_full
  have "counts_ok k'" "consumer_ok k'" "producers_ok k'"
    using a all_not_full
    by (auto simp: about_to_def counts_ok_def consumer_ok_def producers_ok_alt ne_pending_def
        count_where_map comp_def)
  then show ?thesis by (simp add: conc_inv_def)
next
  case (not_full i)
  let ?p = "k_prods k ! i"
  let ?w = "\<lambda>p. parked p \<or> woken p"
  have up: "count_where woken ((k_prods k)[i := wake_producer ?p]) = count_where woken (k_prods k) + 1"
    using count_where_update [OF not_full(3), of woken "wake_producer ?p"] not_full(4)
      parked_not_woken [OF not_full(4)] by simp
  have "counts_ok k'"
    using a not_full count_where_update [OF not_full(3), of ?w "wake_producer ?p"]
      count_where_update [OF not_full(3), of live "wake_producer ?p"]
    by (simp add: about_to_def counts_ok_def)
  moreover have "consumer_ok k'"
  proof -
    have "ne_pending k' = ne_pending k"
      using not_full by (auto simp: ne_pending_nth nth_list_update)
    moreover have "(\<exists>p\<in>set (k_prods k'). p_pc p = PReleasing) = (\<exists>p\<in>set (k_prods k). p_pc p = PReleasing)"
      unfolding ex_set_nth using not_full by (auto simp: nth_list_update)
    moreover have "k_cpc k' = k_cpc k" "k_sh k' = k_sh k" using not_full by simp_all
    moreover have "consumer_ok k" using a not_full by (auto simp: about_to_def)
    ultimately show ?thesis by (simp add: consumer_ok_def)
  qed
  moreover have "producers_ok k'"
  proof -
    have "producers_ok k \<or> covered (k_sh k) (count_where woken (k_prods k) + one_pending k + 1)"
      using a not_full by (auto simp: about_to_def)
    moreover have "all_pending k' = all_pending k"
      using not_full by (auto simp: all_pending_nth nth_list_update)
    moreover have "\<exists>p\<in>set (k_prods k). parked p" using not_full by auto
    ultimately show ?thesis
      using up not_full unfolding producers_ok_alt by (auto simp: covered_def one_pending_def)
  qed
  ultimately show ?thesis by (simp add: conc_inv_def)
next
  case nobody
  then have "producers_ok k" by (auto simp: producers_ok_def)
  with nobody a show ?thesis by (auto simp: about_to_def conc_inv_def)
next
  case waker
  with a show ?thesis by (auto simp: about_to_def conc_inv_def)
qed

lemma about_to_producer:
  assumes inv: "conc_inv k" and i: "i < length (k_prods k)" and e: "p_pend (k_prods k ! i) = e # es"
  shows "about_to e (k\<lparr>k_prods := (k_prods k)[i := (k_prods k ! i)\<lparr>p_pend := es\<rparr>]\<rparr>)"
proof -
  let ?p = "k_prods k ! i"
  let ?p' = "?p\<lparr>p_pend := es\<rparr>"
  let ?k' = "k\<lparr>k_prods := (k_prods k)[i := ?p']\<rparr>"
  have c: "count_where woken ((k_prods k)[i := ?p']) = count_where woken (k_prods k)"
    "count_where live ((k_prods k)[i := ?p']) = count_where live (k_prods k)"
    "count_where (\<lambda>p. parked p \<or> woken p) ((k_prods k)[i := ?p']) =
       count_where (\<lambda>p. parked p \<or> woken p) (k_prods k)"
    using i by (simp_all add: count_where_same)
  have ex: "(\<exists>p\<in>set ((k_prods k)[i := ?p']). P p) = (\<exists>p\<in>set (k_prods k). P p)"
    if "P ?p' = P ?p" for P
    unfolding ex_set_nth using i that by (auto simp: nth_list_update)
  have counts: "counts_ok ?k'" using inv c by (simp add: conc_inv_def counts_ok_def)
  have ne: "e \<noteq> NotifyNotEmpty \<Longrightarrow> e \<noteq> NotifyAllNotEmpty \<Longrightarrow> ne_pending ?k' = ne_pending k"
    using ex [of "\<lambda>p. NotifyNotEmpty \<in> set (p_pend p) \<or> NotifyAllNotEmpty \<in> set (p_pend p)"] e
    by (auto simp: ne_pending_def)
  have all: "e \<noteq> NotifyAllNotFull \<Longrightarrow> all_pending ?k' = all_pending k"
    using ex [of "\<lambda>p. NotifyAllNotFull \<in> set (p_pend p)"] e by (auto simp: all_pending_def)
  have rel: "(\<exists>p\<in>set ((k_prods k)[i := ?p']). p_pc p = PReleasing) =
             (\<exists>p\<in>set (k_prods k). p_pc p = PReleasing)" by (rule ex) simp
  have pk: "(\<exists>p\<in>set ((k_prods k)[i := ?p']). parked p) = (\<exists>p\<in>set (k_prods k). parked p)"
    by (rule ex) simp
  have cons: "consumer_ok ?k' \<or> e = NotifyNotEmpty \<or> e = NotifyAllNotEmpty"
    using inv ne rel by (auto simp: conc_inv_def consumer_ok_def)
  have "producers_ok ?k' \<or> e = NotifyAllNotFull"
    using inv all pk c(1) by (auto simp: conc_inv_def producers_ok_alt one_pending_def)
  with counts cons show ?thesis unfolding about_to_def by blast
qed

lemma about_to_consumer:
  assumes inv: "conc_inv k" and e: "k_cpend k = e # es"
  shows "about_to e (k\<lparr>k_cpend := es\<rparr>)"
proof -
  let ?k' = "k\<lparr>k_cpend := es\<rparr>"
  have counts: "counts_ok ?k'" and cons: "consumer_ok ?k'"
    using inv by (auto simp: conc_inv_def counts_ok_def consumer_ok_def ne_pending_def)
  have "producers_ok ?k' \<or> e = NotifyAllNotFull \<or>
        e = NotifyNotFull \<and> covered (k_sh ?k') (count_where woken (k_prods ?k') + one_pending ?k' + 1)"
    using inv e
    by (cases "e = NotifyNotFull")
      (auto simp: conc_inv_def producers_ok_alt one_pending_def all_pending_def)
  with counts cons show ?thesis by (auto simp: about_to_def covered_def)
qed

theorem conc_inv_step: "edge_step k k' \<Longrightarrow> conc_inv k \<Longrightarrow> conc_inv k'"
proof (induction rule: edge_step.induct)
  case (producer i k p' sh')
  then show ?case
    using counts_ok_producer consumer_ok_producer producers_ok_producer by (auto simp: conc_inv_def)
next
  case (clone i k tx sh')
  then show ?case
    by (intro conc_inv_append) (auto simp: sender_clone_def live_def split: if_splits)
next
  case (producer_notify i k e es k')
  then show ?case using about_to_producer deliver_keeps by blast
next
  case (consumer k c' eff sh')
  then show ?case by (blast intro: conc_inv_consumer)
next
  case (mint k tx sh')
  then show ?case
    by (intro conc_inv_append) (auto simp: mint_sender_def fresh_sender_def live_def)
next
  case (consumer_notify k e es k')
  then show ?case using about_to_consumer deliver_keeps by blast
qed

lemma conc_inv_new: "conc_inv (conc_new b)"
  by (simp add: conc_inv_def conc_new_def with_bound_def counts_ok_def consumer_ok_def
      producers_ok_def)

lemma edge_reach_inv: "edge_reach b k \<Longrightarrow> conc_inv k"
  by (induction rule: edge_reach.induct) (auto intro: conc_inv_new conc_inv_step)

lemma deliver_sh: "deliver e k k' \<Longrightarrow> k_sh k' = k_sh k"
  by (auto elim: deliver.cases)

lemma edge_step_bound: "edge_step k k' \<Longrightarrow> i_bound (k_sh k') = i_bound (k_sh k)"
proof (induction rule: edge_step.induct)
  case (producer i k p' sh')
  from producer(3) producer(2) show ?case by (cases rule: prod_step_cases) auto
next
  case (consumer k c' eff sh')
  from consumer(2) show ?case by (cases rule: cons_step_cases) auto
qed (auto simp: deliver_sh sender_clone_def mint_sender_def)

lemma edge_reach_bound: "edge_reach b k \<Longrightarrow> i_bound (k_sh k) = b"
  by (induction rule: edge_reach.induct)
    (auto simp: edge_step_bound conc_new_def with_bound_def)

section \<open>Properties\<close>

text \<open>Nothing is under way: no notification is owed, no thread is awake inside a wait, no
  handle is between its last release and the close.\<close>

definition quiet :: "('d, 's) conc \<Rightarrow> bool" where
  "quiet k \<longleftrightarrow>
     k_cpend k = [] \<and> (\<forall>p\<in>set (k_prods k). p_pend p = [] \<and> \<not> woken p \<and> p_pc p \<noteq> PReleasing)"

text \<open>C1. No wake-up of the blocking edge is lost and the edge never deadlocks: in every state the
  threads can reach, under any interleaving and with spurious wake-ups, once nothing is under way, a
  parked consumer has an empty open edge with a live producer, a parked producer has a full open
  edge, and a consumer and a producer are never both parked.\<close>

theorem no_lost_wakeup:
  assumes r: "edge_reach b k" and q: "quiet k"
  shows "(k_cpc k = CParked batch \<longrightarrow>
            i_buffer (k_sh k) = [] \<and> \<not> i_closed (k_sh k) \<and> 0 < producer_count (k_sh k)) \<and>
         ((\<exists>p\<in>set (k_prods k). parked p) \<longrightarrow> is_full (k_sh k) \<and> \<not> i_closed (k_sh k)) \<and>
         (good_bound b \<longrightarrow> \<not> (k_cpc k = CParked batch \<and> (\<exists>p\<in>set (k_prods k). parked p)))"
proof -
  from edge_reach_inv [OF r] have inv: "consumer_ok k" "producers_ok k" by (auto simp: conc_inv_def)
  from q have np: "\<not> ne_pending k" "\<not> all_pending k" "one_pending k = 0" "count_where woken (k_prods k) = 0"
    "\<not> (\<exists>p\<in>set (k_prods k). p_pc p = PReleasing)"
    by (auto simp: quiet_def ne_pending_def all_pending_def one_pending_def count_where_0_iff)
  have c: "k_cpc k = CParked batch \<longrightarrow>
        i_buffer (k_sh k) = [] \<and> \<not> i_closed (k_sh k) \<and> 0 < producer_count (k_sh k)"
    using inv(1) np by (auto simp: consumer_ok_def)
  have p: "(\<exists>p\<in>set (k_prods k). parked p) \<longrightarrow> is_full (k_sh k) \<and> \<not> i_closed (k_sh k)"
    using inv(2) np by (auto simp: producers_ok_alt covered_def is_full_def)
  have "good_bound b \<longrightarrow> is_full (k_sh k) \<longrightarrow> i_buffer (k_sh k) \<noteq> []"
    using edge_reach_bound [OF r] by (auto simp: is_full_def split: option.splits)
  with c p show ?thesis by blast
qed

text \<open>One producer fills an edge of bound 1 and parks on its second push.\<close>

definition parked_example :: "(nat, nat) conc" where
  "parked_example =
     \<lparr>k_sh = (with_bound (Some 1))\<lparr>producer_count := 1, i_buffer := [Data 1], i_producers_waiting := 1\<rparr>,
      k_prods = [\<lparr>p_tx = fresh_sender, p_pc = PParked (Data 2), p_pend = []\<rparr>],
      k_cpc = CRun, k_cpend = []\<rparr>"

lemma parked_example_reach: "edge_reach (Some 1) parked_example"
proof -
  let ?k0 = "conc_new (Some 1) :: (nat, nat) conc"
  let ?p = "\<lparr>p_tx = fresh_sender, p_pc = PRun, p_pend = []\<rparr> :: (nat, nat) producer"
  let ?k1 = "?k0\<lparr>k_sh := (with_bound (Some 1))\<lparr>producer_count := 1\<rparr>, k_prods := [?p]\<rparr>"
  let ?k2 = "?k1\<lparr>k_sh := (with_bound (Some 1))\<lparr>producer_count := 1, i_buffer := [Data 1]\<rparr>\<rparr>"
  have "edge_step ?k0 ?k1"
    using edge_step.mint [of ?k0 fresh_sender "(with_bound (Some 1))\<lparr>producer_count := 1\<rparr>"]
    by (simp add: conc_new_def mint_sender_def with_bound_def)
  moreover have "edge_step ?k1 ?k2"
    using edge_step.producer [of 0 ?k1 ?p "k_sh ?k2"] prod_step.push [of ?p "k_sh ?k1" "Data 1"]
    by (simp add: conc_new_def enter_push_def push_land_def wake_consumer_def with_bound_def
        fresh_sender_def is_full_def)
  moreover have "edge_step ?k2 parked_example"
    using edge_step.producer [of 0 ?k2 "\<lparr>p_tx = fresh_sender, p_pc = PParked (Data 2), p_pend = []\<rparr>"
        "k_sh parked_example"] prod_step.push [of ?p "k_sh ?k2" "Data 2"]
    by (simp add: conc_new_def enter_push_def with_bound_def fresh_sender_def is_full_def
        parked_example_def)
  ultimately show ?thesis by (blast intro: edge_reach.intros)
qed

theorem no_lost_wakeup_witness:
  "is_full (k_sh parked_example) \<and> \<not> i_closed (k_sh parked_example)"
proof -
  have q: "quiet parked_example" by (simp add: quiet_def parked_example_def woken_def)
  have "\<exists>p\<in>set (k_prods parked_example). parked p" by (simp add: parked_example_def parked_def)
  with no_lost_wakeup [OF parked_example_reach q] show ?thesis by blast
qed

end
