(* ===== verification/Waking_Edge.thy ===== *)
theory Waking_Edge
  imports Sync_System
begin

text \<open>
  The edge into a poll node from another thread (src/edge/waking.rs): a sync edge whose senders
  also hold the consumer's waker and wake it after every landed message, on close and on drop.
  The consumer never blocks; it polls with \<open>try_pop\<close>.
\<close>

section \<open>Handles\<close>

record waking_sender =
  ws_inner :: sender
  ws_waker :: waker

record ('d, 's) waking_receiver =
  wr_inner :: "('d, 's) shared"
  wr_waker :: waker

definition waking_new :: "waker \<Rightarrow> bound \<Rightarrow> ('d, 's) waking_receiver" where
  "waking_new w b =
     \<lparr>wr_inner = (case b of Some n \<Rightarrow> bounded_receiver n | None \<Rightarrow> new_receiver), wr_waker = w\<rparr>"

definition waking_mint :: "('d, 's) waking_receiver \<Rightarrow> waking_sender \<times> ('d, 's) waking_receiver" where
  "waking_mint rx =
     (let (tx, sh) = mint_sender (wr_inner rx)
      in (\<lparr>ws_inner = tx, ws_waker = wr_waker rx\<rparr>, rx\<lparr>wr_inner := sh\<rparr>))"

definition waking_poll ::
  "('d, 's) shared \<Rightarrow> ('d, 's) message option res \<times> ('d, 's) shared \<times> effect list" where
  "waking_poll sh = try_pop sh"

definition waking_receiver_close :: "('d, 's) shared \<Rightarrow> unit res \<times> ('d, 's) shared \<times> effect list" where
  "waking_receiver_close sh = receiver_close sh"

definition waking_state :: "('d, 's) shared \<Rightarrow> edge_state res" where
  "waking_state sh = receiver_state sh"

definition waking_try_recv ::
  "('d, 's) shared \<Rightarrow> ('d, 's) message option res \<times> ('d, 's) shared \<times> effect list" where
  "waking_try_recv sh = waking_poll sh"

definition wake_on_drop :: "waker \<Rightarrow> effect list" where
  "wake_on_drop w = [Wake w]"

definition waking_push_back ::
  "(('d, 's) shared \<times> 'w \<Rightarrow> (('d, 's) shared \<times> 'w) option) \<Rightarrow> waking_sender \<Rightarrow>
   ('d, 's) message \<Rightarrow> ('d, 's) shared \<times> 'w \<Rightarrow>
   (unit res \<times> (('d, 's) shared \<times> 'w) \<times> effect list) option" where
  "waking_push_back env tx m st =
     (case push_back env (ws_inner tx) m st of
        None \<Rightarrow> None
      | Some (Err e, st', eff) \<Rightarrow> Some (Err e, st', eff)
      | Some (Ok _, st', eff) \<Rightarrow> Some (Ok (), st', eff @ [Wake (ws_waker tx)]))"

definition waking_try_push ::
  "('d, 's) message \<Rightarrow> waking_sender \<Rightarrow> ('d, 's) shared \<Rightarrow>
   ('d, 's) message try_push res \<times> waking_sender \<times> ('d, 's) shared \<times> effect list" where
  "waking_try_push m tx sh =
     (let (r, itx, sh', eff) = try_push_back m (ws_inner tx) sh
      in (r, tx\<lparr>ws_inner := itx\<rparr>, sh',
          case r of Ok Pushed \<Rightarrow> eff @ [Wake (ws_waker tx)] | _ \<Rightarrow> eff))"

definition waking_close ::
  "waking_sender \<Rightarrow> ('d, 's) shared \<Rightarrow> unit res \<times> waking_sender \<times> ('d, 's) shared \<times> effect list" where
  "waking_close tx sh =
     (let (r, itx, sh', eff) = sender_close (ws_inner tx) sh
      in (r, tx\<lparr>ws_inner := itx\<rparr>, sh',
          case r of Ok _ \<Rightarrow> eff @ [Wake (ws_waker tx)] | Err _ \<Rightarrow> eff))"

text \<open>The fields drop in declaration order: the edge closes, then the consumer is woken.\<close>

definition waking_drop :: "waking_sender \<Rightarrow> ('d, 's) shared \<Rightarrow> ('d, 's) shared \<times> effect list" where
  "waking_drop tx sh =
     (let (sh', eff) = sender_drop (ws_inner tx) sh in (sh', eff @ wake_on_drop (ws_waker tx)))"

definition waking_schedule :: "waker \<Rightarrow> waking_sender \<Rightarrow> waking_sender" where
  "waking_schedule w tx = tx\<lparr>ws_inner := sender_schedule w (ws_inner tx)\<rparr>"

section \<open>Properties\<close>

lemma waking_new_eq: "wr_inner (waking_new w b) = with_bound b"
  by (cases b) (simp_all add: waking_new_def bounded_receiver_def new_receiver_def)

lemma waking_try_push_inner:
  "waking_try_push m tx sh = (r, tx', sh', eff) \<Longrightarrow>
     \<exists>eff0. try_push_back m (ws_inner tx) sh = (r, ws_inner tx', sh', eff0) \<and>
       eff = eff0 @ (if r = Ok Pushed then [Wake (ws_waker tx)] else []) \<and> ws_waker tx' = ws_waker tx"
  by (cases "try_push_back m (ws_inner tx) sh")
    (auto simp: waking_try_push_def split: result.splits try_push.splits)

lemma waking_close_inner:
  "waking_close tx sh = (r, tx', sh', eff) \<Longrightarrow>
     \<exists>eff0. sender_close (ws_inner tx) sh = (r, ws_inner tx', sh', eff0) \<and>
       r = Ok () \<and> eff = eff0 @ [Wake (ws_waker tx)]"
  by (cases "sender_close (ws_inner tx) sh")
    (auto simp: waking_close_def elim!: sender_close_cases split: result.splits)

text \<open>A polling consumer never misses what a producer does: on an edge with a live producer,
  whenever a producer's push, close or drop changes what the consumer's next poll answers (a message
  to take, or the end of the stream), the consumer's waker is woken, and it is woken after the
  change; a refused or failed push does not wake it.\<close>

theorem waking_consumer_woken:
  assumes before: "fst (waking_poll sh) = Ok None"
  shows "(let (r, tx', sh', eff) = waking_try_push m tx sh
          in (fst (waking_poll sh') \<noteq> Ok None \<longrightarrow> last eff = Wake (ws_waker tx)) \<and>
             (r \<noteq> Ok Pushed \<longrightarrow> eff = [] \<and> fst (waking_poll sh') = Ok None)) \<and>
         last (snd (snd (snd (waking_close tx sh)))) = Wake (ws_waker tx) \<and>
         last (snd (waking_drop tx sh)) = Wake (ws_waker tx)"
proof -
  obtain r tx' sh' eff where p: "waking_try_push m tx sh = (r, tx', sh', eff)"
    by (cases "waking_try_push m tx sh") auto
  obtain eff0 where q: "try_push_back m (ws_inner tx) sh = (r, ws_inner tx', sh', eff0)"
      "eff = eff0 @ (if r = Ok Pushed then [Wake (ws_waker tx)] else [])"
    using waking_try_push_inner [OF p] by blast
  have b: "i_buffer sh = []" "\<not> i_closed sh" "0 < producer_count sh"
    using before by (cases "try_pop sh"; auto simp: waking_poll_def elim!: try_pop_cases)+
  have 1: "r \<noteq> Ok Pushed \<Longrightarrow> eff = [] \<and> fst (waking_poll sh') = Ok None"
    using q b by (auto simp: waking_poll_def try_pop_def elim!: try_push_back_cases split: option.splits)
  obtain r2 tx2 sh2 eff2 where c: "waking_close tx sh = (r2, tx2, sh2, eff2)"
    by (cases "waking_close tx sh") auto
  from waking_close_inner [OF c] have 2: "last eff2 = Wake (ws_waker tx)" by auto
  have 3: "last (snd (waking_drop tx sh)) = Wake (ws_waker tx)"
    by (simp add: waking_drop_def wake_on_drop_def case_prod_unfold Let_def)
  show ?thesis using p q 1 2 3 c by auto
qed

theorem waking_consumer_woken_witness:
  "let sh = with_bound (Some 1)\<lparr>producer_count := 1\<rparr> :: (nat, nat) shared;
       (r, tx', sh', eff) = waking_try_push (Data 5) \<lparr>ws_inner = fresh_sender, ws_waker = 3\<rparr> sh
   in fst (waking_poll sh') \<noteq> Ok None \<and> last eff = Wake 3"
proof -
  let ?sh = "with_bound (Some 1)\<lparr>producer_count := 1\<rparr> :: (nat, nat) shared"
  let ?tx = "\<lparr>ws_inner = fresh_sender, ws_waker = 3\<rparr>"
  have "fst (waking_poll ?sh) = Ok None"
    by (simp add: waking_poll_def try_pop_def with_bound_def)
  note T = waking_consumer_woken [OF this, of "Data 5" ?tx]
  have "fst (waking_poll (fst (snd (snd (waking_try_push (Data 5) ?tx ?sh))))) \<noteq> Ok None"
    by (simp add: waking_try_push_def try_push_back_def wake_consumer_def fresh_sender_def
        with_bound_def is_full_def waking_poll_def try_pop_def drained_def)
  with T show ?thesis by (simp add: case_prod_unfold Let_def)
qed

end
