(* ===== verification/Poll_Edge.thy ===== *)
theory Poll_Edge
  imports Edge_Interfaces
begin

text \<open>
  The same-thread edge between two nodes of one poll thread (src/poll/edge/poll.rs,
  src/poll/edge/poll/sender.rs, src/poll/edge/poll/receiver.rs) and the no-op sink
  (src/poll/edge/null.rs). Wakes are returned as the list of wakers woken. The buffer's \<open>RefCell\<close>
  is never borrowed across a wake, so its \<open>try_borrow_mut\<close> cannot fail here.
\<close>

section \<open>The edge\<close>

record ('d, 's) poll_shared =
  pe_buffer :: "('d, 's) message list"
  pe_bound :: bound
  pe_closed :: bool
  pe_refused :: bool
  pe_consumer :: waker
  pe_producer :: "waker option"

definition pe_is_full :: "('d, 's) poll_shared \<Rightarrow> bool" where
  "pe_is_full e = (case pe_bound e of None \<Rightarrow> False | Some b \<Rightarrow> b \<le> length (pe_buffer e))"

definition pe_wake_producer :: "('d, 's) poll_shared \<Rightarrow> waker list" where
  "pe_wake_producer e = (case pe_producer e of None \<Rightarrow> [] | Some w \<Rightarrow> [w])"

definition channel :: "waker \<Rightarrow> bound \<Rightarrow> ('d, 's) poll_shared" where
  "channel consumer b =
     \<lparr>pe_buffer = [], pe_bound = b, pe_closed = False, pe_refused = False, pe_consumer = consumer,
      pe_producer = None\<rparr>"

definition close_and_wake :: "('d, 's) poll_shared \<Rightarrow> ('d, 's) poll_shared \<times> waker list" where
  "close_and_wake e = (e\<lparr>pe_closed := True\<rparr>, if \<not> pe_closed e then [pe_consumer e] else [])"

definition pe_sender_drop :: "('d, 's) poll_shared \<Rightarrow> ('d, 's) poll_shared \<times> waker list" where
  "pe_sender_drop e = close_and_wake e"

definition pe_try_push ::
  "('d, 's) message \<Rightarrow> ('d, 's) poll_shared \<Rightarrow>
   ('d, 's) message try_push res \<times> ('d, 's) poll_shared \<times> waker list" where
  "pe_try_push m e =
     (if pe_closed e then (Err Closed, e, [])
      else if pe_is_full e then
        (if pe_refused e then (Ok (Stuck m), e\<lparr>pe_refused := True\<rparr>, [])
         else (Ok (Full m), e\<lparr>pe_refused := True\<rparr>, []))
      else (Ok Pushed, e\<lparr>pe_buffer := pe_buffer e @ [m]\<rparr>, [pe_consumer e]))"

definition pe_close :: "('d, 's) poll_shared \<Rightarrow> unit res \<times> ('d, 's) poll_shared \<times> waker list" where
  "pe_close e = (let (e', w) = close_and_wake e in (Ok (), e', w))"

definition pe_schedule :: "waker \<Rightarrow> ('d, 's) poll_shared \<Rightarrow> ('d, 's) poll_shared" where
  "pe_schedule w e = e\<lparr>pe_producer := Some w\<rparr>"

text \<open>The receiver: \<open>refused.take()\<close> reads and clears.\<close>

definition pe_take_refused :: "('d, 's) poll_shared \<Rightarrow> ('d, 's) poll_shared \<times> waker list" where
  "pe_take_refused e =
     (if pe_refused e then (e\<lparr>pe_refused := False\<rparr>, pe_wake_producer e) else (e, []))"

definition pe_receiver_close :: "('d, 's) poll_shared \<Rightarrow> ('d, 's) poll_shared \<times> waker list" where
  "pe_receiver_close e = pe_take_refused (e\<lparr>pe_closed := True\<rparr>)"

definition pe_receiver_drop :: "('d, 's) poll_shared \<Rightarrow> ('d, 's) poll_shared \<times> waker list" where
  "pe_receiver_drop e = pe_receiver_close e"

definition pe_try_recv ::
  "('d, 's) poll_shared \<Rightarrow> ('d, 's) message option res \<times> ('d, 's) poll_shared \<times> waker list" where
  "pe_try_recv e =
     (case pe_buffer e of
        m # ms \<Rightarrow> (let (e', w) = pe_take_refused (e\<lparr>pe_buffer := ms\<rparr>) in (Ok (Some m), e', w))
      | [] \<Rightarrow> if pe_closed e then (Err Closed, e, []) else (Ok None, e, []))"

section \<open>The no-op sink\<close>

definition null_try_push :: "('d, 's) message \<Rightarrow> ('d, 's) message try_push res" where
  "null_try_push m = Ok Pushed"

definition null_close :: "unit res" where
  "null_close = Ok ()"

section \<open>Case analysis\<close>

lemma pe_try_push_cases:
  assumes "pe_try_push m e = (r, e', w)"
  obtains (closed) "pe_closed e" "r = Err Closed" "e' = e" "w = []"
  | (stuck) "\<not> pe_closed e" "pe_is_full e" "pe_refused e" "r = Ok (Stuck m)" "e' = e" "w = []"
  | (full) "\<not> pe_closed e" "pe_is_full e" "\<not> pe_refused e" "r = Ok (Full m)"
      "e' = e\<lparr>pe_refused := True\<rparr>" "w = []"
  | (pushed) "\<not> pe_closed e" "\<not> pe_is_full e" "r = Ok Pushed"
      "e' = e\<lparr>pe_buffer := pe_buffer e @ [m]\<rparr>" "w = [pe_consumer e]"
proof -
  have "pe_refused e \<Longrightarrow> e\<lparr>pe_refused := True\<rparr> = e" by (cases e) simp
  with assms closed stuck full pushed show ?thesis by (auto simp: pe_try_push_def split: if_splits)
qed

lemma pe_take_refused_fields [simp]:
  "pe_buffer (fst (pe_take_refused e)) = pe_buffer e"
  "pe_bound (fst (pe_take_refused e)) = pe_bound e"
  "pe_closed (fst (pe_take_refused e)) = pe_closed e"
  "pe_refused (fst (pe_take_refused e)) = False"
  "pe_consumer (fst (pe_take_refused e)) = pe_consumer e"
  "pe_producer (fst (pe_take_refused e)) = pe_producer e"
  by (simp_all add: pe_take_refused_def)

lemma pe_take_refused_wakes:
  "snd (pe_take_refused e) = (if pe_refused e then pe_wake_producer e else [])"
  by (simp add: pe_take_refused_def)

lemma pe_try_recv_cases:
  assumes "pe_try_recv e = (r, e', w)"
  obtains (some) m ms where "pe_buffer e = m # ms" "r = Ok (Some m)"
      "e' = fst (pe_take_refused (e\<lparr>pe_buffer := ms\<rparr>))" "w = snd (pe_take_refused (e\<lparr>pe_buffer := ms\<rparr>))"
  | (closed) "pe_buffer e = []" "pe_closed e" "r = Err Closed" "e' = e" "w = []"
  | (none) "pe_buffer e = []" "\<not> pe_closed e" "r = Ok None" "e' = e" "w = []"
proof (cases "pe_buffer e")
  case Nil
  with assms closed none show ?thesis by (auto simp: pe_try_recv_def split: if_splits)
next
  case (Cons m ms)
  with assms show ?thesis by (intro some [OF Cons]) (auto simp: pe_try_recv_def case_prod_unfold)
qed

section \<open>The contracts\<close>

text \<open>The edge has one producer, so the handle number is not used.\<close>

definition pe_push :: "nat \<Rightarrow> ('d, 's) message \<Rightarrow> ('d, 's) poll_shared \<Rightarrow> ('d, 's) message try_push res \<times> ('d, 's) poll_shared" where
  "pe_push i m e = (let (r, e', _) = pe_try_push m e in (r, e'))"

definition pe_pop :: "('d, 's) poll_shared \<Rightarrow> ('d, 's) message option res \<times> ('d, 's) poll_shared" where
  "pe_pop e = (let (r, e', _) = pe_try_recv e in (r, e'))"

lemma pe_push_D: "pe_push i m e = (r, e') \<Longrightarrow> \<exists>w. pe_try_push m e = (r, e', w)"
  by (cases "pe_try_push m e") (auto simp: pe_push_def)

lemma pe_pop_D: "pe_pop e = (r, e') \<Longrightarrow> \<exists>w. pe_try_recv e = (r, e', w)"
  by (cases "pe_try_recv e") (auto simp: pe_pop_def)

interpretation pe: fifo_edge pe_buffer pe_push pe_pop
  by unfold_locales
    (auto dest!: pe_push_D pe_pop_D elim!: pe_try_push_cases pe_try_recv_cases)

interpretation pe: bounded_edge pe_buffer pe_push pe_pop pe_bound
  by unfold_locales
    (auto dest!: pe_push_D pe_pop_D elim!: pe_try_push_cases pe_try_recv_cases simp: pe_is_full_def)

interpretation pe: refusing_edge pe_buffer pe_push pe_pop "\<lambda>i. pe_refused"
  by unfold_locales
    (auto dest!: pe_push_D pe_pop_D elim!: pe_try_push_cases pe_try_recv_cases)

lemma pe_run_bound:
  "run_edge pe_push pe_pop ops e = (taken, out, e') \<Longrightarrow> pe_bound e' = pe_bound e"
proof (induction ops arbitrary: e taken out e')
  case Nil
  then show ?case by simp
next
  case (Cons op ops)
  show ?case
  proof (cases op)
    case (EPush i m)
    with Cons.prems obtain r e1 t where "pe_push i m e = (r, e1)" "run_edge pe_push pe_pop ops e1 = (t, out, e')"
      by (auto simp: Let_def split: prod.splits)
    then show ?thesis using Cons.IH pe.push_cap by metis
  next
    case EPop
    with Cons.prems obtain r e1 o' where "pe_pop e = (r, e1)" "run_edge pe_push pe_pop ops e1 = (taken, o', e')"
      by (auto simp: Let_def split: prod.splits)
    then show ?thesis using Cons.IH pe.pop_cap by metis
  qed
qed

section \<open>Runs of every operation\<close>

datatype ('d, 's) pe_op =
    PePush "('d, 's) message" | PeRecv | PeSchedule waker | PeClose | PeReceiverClose

fun pe_exec :: "('d, 's) pe_op \<Rightarrow> ('d, 's) poll_shared \<Rightarrow> ('d, 's) poll_shared \<times> waker list" where
  "pe_exec (PePush m) e = (let (_, e', w) = pe_try_push m e in (e', w))"
| "pe_exec PeRecv e = (let (_, e', w) = pe_try_recv e in (e', w))"
| "pe_exec (PeSchedule w) e = (pe_schedule w e, [])"
| "pe_exec PeClose e = (let (_, e', w) = pe_close e in (e', w))"
| "pe_exec PeReceiverClose e = pe_receiver_close e"

fun pe_run :: "('d, 's) pe_op list \<Rightarrow> ('d, 's) poll_shared \<Rightarrow> ('d, 's) poll_shared \<times> waker list" where
  "pe_run [] e = (e, [])"
| "pe_run (op # ops) e =
     (let (e1, w1) = pe_exec op e; (e2, w2) = pe_run ops e1 in (e2, w1 @ w2))"

lemma pe_exec_refused:
  "pe_exec op e = (e', ws) \<Longrightarrow> pe_refused e \<Longrightarrow> pe_producer e = Some w \<Longrightarrow> (\<forall>v. op \<noteq> PeSchedule v) \<Longrightarrow>
     w \<in> set ws \<or> pe_refused e' \<and> pe_producer e' = Some w"
  by (cases op)
    (auto simp: pe_close_def close_and_wake_def pe_receiver_close_def case_prod_unfold Let_def
      pe_take_refused_def pe_wake_producer_def pe_try_push_def pe_try_recv_def
      split: list.splits if_splits)

lemma pe_run_refused:
  "pe_run ops e = (e', ws) \<Longrightarrow> pe_refused e \<Longrightarrow> pe_producer e = Some w \<Longrightarrow>
     (\<forall>v. PeSchedule v \<notin> set ops) \<Longrightarrow> w \<in> set ws \<or> pe_refused e'"
proof (induction ops arbitrary: e e' ws)
  case Nil
  then show ?case by simp
next
  case (Cons op ops)
  obtain e1 w1 where x: "pe_exec op e = (e1, w1)" by (cases "pe_exec op e") auto
  obtain e2 w2 where r: "pe_run ops e1 = (e2, w2)" by (cases "pe_run ops e1") auto
  from Cons.prems(4) have "\<forall>v. op \<noteq> PeSchedule v" by auto
  with pe_exec_refused [OF x Cons.prems(2,3)] Cons.IH [OF r] Cons.prems x r show ?case by auto
qed

section \<open>Properties\<close>

text \<open>The same-thread edge honours the contract every edge does: under any sequence of pushes
  and receives on a fresh channel, what was received followed by what is buffered is what was
  accepted, in order; the buffer stays within the bound; and the producer is answered \<open>Full\<close> at most
  once more often than a message was received, so retrying on \<open>Full\<close> cannot spin.\<close>

theorem poll_edge_contract:
  "let (taken, out, e) = run_edge pe_push pe_pop ops (channel c b)
   in taken = out @ pe_buffer e \<and> within_cap b (length (pe_buffer e)) \<and>
      full_answers pe_push pe_pop i ops (channel c b) \<le> length out + 1"
proof -
  let ?e = "channel c b :: ('a, 'b) poll_shared"
  obtain taken out e where r: "run_edge pe_push pe_pop ops ?e = (taken, out, e)"
    by (cases "run_edge pe_push pe_pop ops ?e") auto
  have e0: "pe_buffer ?e = []" "pe_bound ?e = b" by (simp_all add: channel_def)
  have "within_cap (pe_bound ?e) (length (pe_buffer ?e))" unfolding e0 by (cases b) simp_all
  moreover have "pe_bound e = b" using pe_run_bound [OF r] e0 by simp
  ultimately show ?thesis
    using pe.run_fifo [OF r] pe.run_keeps_within [OF r] pe.full_answers_bound [OF r, of i] r e0
    by auto
qed

text \<open>On the same-thread edge, a producer that was refused (\<open>Full\<close> or \<open>Stuck\<close>) with its waker
  scheduled is woken by the first receive or receiver close that follows, whatever happens in
  between.\<close>

theorem poll_edge_producer_woken:
  assumes push: "pe_try_push m e = (Ok t, e1, ws1)" and ref: "refused t = Some m'"
    and w: "pe_producer e = Some w" and run: "pe_run ops e1 = (e2, ws)"
    and moved: "\<not> pe_refused e2" and ns: "\<forall>v. PeSchedule v \<notin> set ops"
  shows "w \<in> set ws"
proof -
  have "pe_refused e1" "pe_producer e1 = Some w"
    using push ref w by (auto elim!: pe_try_push_cases)
  with pe_run_refused [OF run] ns moved show ?thesis by blast
qed

theorem poll_edge_producer_woken_witness:
  "9 \<in> set (snd (pe_run [PeRecv] (fst (snd (pe_try_push (Data 2)
      (\<lparr>pe_buffer = [Data 1], pe_bound = Some 1, pe_closed = False, pe_refused = False,
        pe_consumer = 3, pe_producer = Some 9\<rparr> :: (nat, nat) poll_shared))))))"
proof -
  let ?e = "\<lparr>pe_buffer = [Data 1], pe_bound = Some 1, pe_closed = False, pe_refused = False,
        pe_consumer = 3, pe_producer = Some 9\<rparr> :: (nat, nat) poll_shared"
  let ?p = "pe_try_push (Data 2) ?e"
  let ?r = "pe_run [PeRecv] (fst (snd ?p))"
  show ?thesis
    by (rule poll_edge_producer_woken [of "Data 2" ?e "Full (Data 2)" "fst (snd ?p)" "snd (snd ?p)"
          "Data 2" 9 "[PeRecv]" "fst ?r" "snd ?r"])
      (simp_all add: pe_try_push_def pe_is_full_def pe_try_recv_def pe_take_refused_def)
qed

text \<open>A consumer on the same-thread edge whose last receive found nothing is woken by every
  push and by the close that change that answer.\<close>

theorem poll_edge_consumer_woken:
  assumes n: "fst (pe_try_recv e) = Ok None" and op: "op = PeClose \<or> op = PePush m"
    and c: "fst (pe_try_recv (fst (pe_exec op e))) \<noteq> Ok None"
  shows "pe_consumer e \<in> set (snd (pe_exec op e))"
proof -
  from n have "pe_buffer e = []" "\<not> pe_closed e"
    by (cases "pe_try_recv e"; auto elim!: pe_try_recv_cases)+
  with op c show ?thesis
    by (auto simp: pe_close_def close_and_wake_def pe_try_push_def pe_try_recv_def split: if_splits)
qed

theorem poll_edge_consumer_woken_witness:
  "3 \<in> set (snd (pe_exec PeClose (channel 3 None :: (nat, nat) poll_shared)))"
  using poll_edge_consumer_woken [of "channel 3 None :: (nat, nat) poll_shared" PeClose]
  by (simp add: channel_def pe_try_recv_def pe_close_def close_and_wake_def)

end
