(* ===== verification/Sinks.thy ===== *)
theory Sinks
  imports Sync_System
begin

text \<open>
  A node's outgoing edge as the node sees it: a boxed sink (src/work/sink.rs, src/poll/sink.rs)
  with a blocking and a non-blocking push, a close and a schedule. The box is a handle \<open>'e\<close>, and
  everything behind it (the shared state of the edge, other threads' progress) is a world \<open>'w\<close>.
  \<open>sink\<close> is the contract; it is interpreted on sync edges, where several handles may be senders
  of one and the same edge.
\<close>

record ('e, 'm, 'w) sink_ops =
  op_try_push :: "'e \<Rightarrow> 'm \<Rightarrow> 'w \<Rightarrow> 'm try_push res \<times> 'w"
  op_push :: "'e \<Rightarrow> 'm \<Rightarrow> 'w \<Rightarrow> (unit res \<times> 'w) option"      \<comment> \<open>None: blocks forever\<close>
  op_close :: "'e \<Rightarrow> 'w \<Rightarrow> unit res \<times> 'w"
  op_schedule :: "waker \<Rightarrow> 'e \<Rightarrow> 'w \<Rightarrow> 'w"

text \<open>\<open>took e w\<close>: the messages the sink behind \<open>e\<close> has accepted through \<open>e\<close>, in order.\<close>

locale sink =
  fixes ops :: "('e, 'm, 'w) sink_ops" and took :: "'e \<Rightarrow> 'w \<Rightarrow> 'm list"
  assumes try_pushed: "op_try_push ops e m w = (Ok Pushed, w') \<Longrightarrow> took e w' = took e w @ [m]"
    and try_refused: "op_try_push ops e m w = (r, w') \<Longrightarrow> r \<noteq> Ok Pushed \<Longrightarrow> took e w' = took e w"
    and try_others: "op_try_push ops e m w = (r, w') \<Longrightarrow> e' \<noteq> e \<Longrightarrow> took e' w' = took e' w"
    and try_hands_back: "op_try_push ops e m w = (Ok t, w') \<Longrightarrow> refused t = Some m' \<Longrightarrow> m' = m"
    and push_ok: "op_push ops e m w = Some (Ok u, w') \<Longrightarrow> took e w' = took e w @ [m]"
    and push_err: "op_push ops e m w = Some (Err x, w') \<Longrightarrow> took e w' = took e w"
    and push_others: "op_push ops e m w = Some (q, w') \<Longrightarrow> e' \<noteq> e \<Longrightarrow> took e' w' = took e' w"
begin

lemma try_took:
  "op_try_push ops e m w = (r, w') \<Longrightarrow>
     took e' w' = took e' w @ (if e' = e \<and> r = Ok Pushed then [m] else [])"
  using try_pushed try_refused try_others by (cases "e' = e"; cases "r = Ok Pushed") auto

lemma push_took:
  "op_push ops e m w = Some (r, w') \<Longrightarrow>
     took e' w' = took e' w @ (if e' = e \<and> is_ok r then [m] else [])"
  using push_ok push_err push_others by (cases "e' = e"; cases r) auto

end

section \<open>Sync edges as sinks\<close>

text \<open>Handle \<open>(a, i)\<close> is sender \<open>i\<close> of edge \<open>a\<close>. The world also records, per handle, what was
  accepted through it; a blocking push lets the rest of the program run (\<open>env\<close>) while it waits.\<close>

record ('d, 's) sync_world =
  sw_edges :: "nat \<Rightarrow> ('d, 's) sync_sys"
  sw_took :: "nat \<times> nat \<Rightarrow> ('d, 's) message list"

definition note_taken ::
  "nat \<times> nat \<Rightarrow> ('d, 's) message \<Rightarrow> ('d, 's) sync_world \<Rightarrow> ('d, 's) sync_world" where
  "note_taken e m w = w\<lparr>sw_took := (sw_took w)(e := sw_took w e @ [m])\<rparr>"

definition sw_try_push ::
  "nat \<times> nat \<Rightarrow> ('d, 's) message \<Rightarrow> ('d, 's) sync_world \<Rightarrow>
   ('d, 's) message try_push res \<times> ('d, 's) sync_world" where
  "sw_try_push e m w =
     (let (r, y) = sys_try_push (snd e) m (sw_edges w (fst e));
          w' = w\<lparr>sw_edges := (sw_edges w)(fst e := y)\<rparr>
      in (r, if r = Ok Pushed then note_taken e m w' else w'))"

text \<open>The wait of a blocking push: \<open>env\<close> acts on the whole world but pushes through no handle of
  this owner (it is blocked), so the record of what was accepted is kept.\<close>

definition world_env ::
  "(('d, 's) sync_world \<Rightarrow> ('d, 's) sync_world option) \<Rightarrow> nat \<Rightarrow>
   ('d, 's) shared \<times> ('d, 's) sync_world \<Rightarrow> (('d, 's) shared \<times> ('d, 's) sync_world) option" where
  "world_env env a st =
     (let (sh, w) = st;
          w0 = w\<lparr>sw_edges := (sw_edges w)(a := (sw_edges w a)\<lparr>sys_sh := sh\<rparr>)\<rparr>
      in case env w0 of
           None \<Rightarrow> None
         | Some w1 \<Rightarrow> Some (sys_sh (sw_edges w1 a), w1\<lparr>sw_took := sw_took w\<rparr>))"

definition sw_push ::
  "(('d, 's) sync_world \<Rightarrow> ('d, 's) sync_world option) \<Rightarrow> nat \<times> nat \<Rightarrow> ('d, 's) message \<Rightarrow>
   ('d, 's) sync_world \<Rightarrow> (unit res \<times> ('d, 's) sync_world) option" where
  "sw_push env e m w =
     (if snd e < length (sys_tx (sw_edges w (fst e)))
      then (case push_back (world_env env (fst e)) (sys_tx (sw_edges w (fst e)) ! snd e) m
                   (sys_sh (sw_edges w (fst e)), w) of
              None \<Rightarrow> None
            | Some (r, (sh, w1), _) \<Rightarrow>
                (let w2 = w1\<lparr>sw_edges := (sw_edges w1)(fst e := (sw_edges w1 (fst e))\<lparr>sys_sh := sh\<rparr>)\<rparr>
                 in Some (r, if is_ok r then note_taken e m w2 else w2)))
      else Some (Err Closed, w))"

definition sw_close ::
  "nat \<times> nat \<Rightarrow> ('d, 's) sync_world \<Rightarrow> unit res \<times> ('d, 's) sync_world" where
  "sw_close e w =
     (Ok (), w\<lparr>sw_edges := (sw_edges w)(fst e := fst (sync_exec (OpCloseSender (snd e)) (sw_edges w (fst e))))\<rparr>)"

definition sw_schedule :: "waker \<Rightarrow> nat \<times> nat \<Rightarrow> ('d, 's) sync_world \<Rightarrow> ('d, 's) sync_world" where
  "sw_schedule v e w =
     w\<lparr>sw_edges := (sw_edges w)(fst e := fst (sync_exec (OpSchedule (snd e) v) (sw_edges w (fst e))))\<rparr>"

definition sync_sink ::
  "(('d, 's) sync_world \<Rightarrow> ('d, 's) sync_world option) \<Rightarrow>
   (nat \<times> nat, ('d, 's) message, ('d, 's) sync_world) sink_ops" where
  "sync_sink env =
     \<lparr>op_try_push = sw_try_push, op_push = sw_push env, op_close = sw_close,
      op_schedule = sw_schedule\<rparr>"

lemma note_taken_took [simp]:
  "sw_took (note_taken e m w) e' = sw_took w e' @ (if e' = e then [m] else [])"
  by (simp add: note_taken_def)

lemma sw_try_push_took:
  "sw_try_push e m w = (r, w') \<Longrightarrow>
     sw_took w' e' = sw_took w e' @ (if e' = e \<and> r = Ok Pushed then [m] else [])"
  by (cases "sys_try_push (snd e) m (sw_edges w (fst e))")
    (auto simp: sw_try_push_def Let_def)

lemma wait_while_full_frame:
  assumes w: "wait_while_full env st = Some st'"
    and g: "\<And>x y. env x = Some y \<Longrightarrow> g (snd y) = g (snd x)"
  shows "g (snd st') = g (snd st)"
proof -
  have "(\<forall>x y. env x = Some y \<longrightarrow> g (snd y) = g (snd x)) \<longrightarrow> g (snd st') = g (snd st)"
  proof (rule wait_while_full.raw_induct [OF _ w], intro impI)
    fix f env' st1 st2
    assume IH: "\<And>env st y. f env st = Some y \<Longrightarrow>
        (\<forall>x y. env x = Some y \<longrightarrow> g (snd y) = g (snd x)) \<longrightarrow> g (snd y) = g (snd st)"
      and body: "(if is_full (fst st1) \<and> \<not> i_closed (fst st1)
          then case env' st1 of None \<Rightarrow> None | Some st' \<Rightarrow> f env' st' else Some st1) = Some st2"
      and a: "\<forall>x y. env' x = Some y \<longrightarrow> g (snd y) = g (snd x)"
    from body consider "st2 = st1" | st3 where "env' st1 = Some st3" "f env' st3 = Some st2"
      by (auto split: if_splits option.splits)
    then show "g (snd st2) = g (snd st1)"
      using IH a by cases (simp, metis)
  qed
  with g show ?thesis by blast
qed

lemma world_env_took: "world_env env a x = Some y \<Longrightarrow> sw_took (snd y) = sw_took (snd x)"
  by (cases x) (auto simp: world_env_def Let_def split: option.splits)

lemma wait_while_full_took:
  "wait_while_full (world_env env a) st = Some st' \<Longrightarrow> sw_took (snd st') = sw_took (snd st)"
  using wait_while_full_frame [of "world_env env a" st st' sw_took] world_env_took by blast

lemma push_land_ok: "push_land m sh = (r, sh', eff) \<Longrightarrow> r = Ok () \<or> r = Err Closed"
  by (auto simp: push_land_def split: if_splits prod.splits)

lemma push_back_took:
  assumes "push_back (world_env env a) tx m (sh, w) = Some (r, (sh', w'), eff)"
  shows "sw_took w' = sw_took w"
  using assms wait_while_full_took
  by (auto simp: push_back_def wait_for_room_def split: if_splits option.splits prod.splits)
     (force dest!: wait_while_full_took)

lemma sw_push_took:
  "sw_push env e m w = Some (r, w') \<Longrightarrow>
     sw_took w' e' = sw_took w e' @ (if e' = e \<and> is_ok r then [m] else [])"
  by (auto simp: sw_push_def Let_def push_back_took split: if_splits option.splits prod.splits)

interpretation sync_sink: sink "sync_sink env" "\<lambda>e w. sw_took w e"
proof unfold_locales
  show "refused t = Some m' \<Longrightarrow> m' = m" if "op_try_push (sync_sink env) e m w = (Ok t, w')" for e m w t w' m'
    using that sync.push_hands_back [of "snd e" m "sw_edges w (fst e)"]
    by (cases "sys_try_push (snd e) m (sw_edges w (fst e))")
      (auto simp: sync_sink_def sw_try_push_def Let_def)
qed (auto simp: sync_sink_def sw_try_push_took sw_push_took)

end
