(* ===== verification/Fanout.thy ===== *)
theory Fanout
  imports Sinks
begin

text \<open>
  A node's outputs: the fan-out over several edges (src/edge/fanout.rs), the single edge that never
  clones (src/edge/single.rs) and the contract both give a poll node (\<open>Rotate\<close>,
  src/edge/rotate.rs). A message an edge refuses is held; nothing new is pushed until every edge
  has taken the current one.
\<close>

section \<open>The fan-out\<close>

datatype rotation = Complete | SuspendedAt nat

definition is_suspended :: "rotation \<Rightarrow> bool" where
  "is_suspended r = (case r of SuspendedAt _ \<Rightarrow> True | Complete \<Rightarrow> False)"

record 'm suspension =
  sp_index :: nat
  sp_refused :: 'm
  sp_rest :: "'m option"

record ('e, 'm) fanout =
  f_edges :: "'e list"
  f_suspended :: "'m suspension option"

definition fanout_new :: "('e, 'm) fanout" where
  "fanout_new = \<lparr>f_edges = [], f_suspended = None\<rparr>"

definition fanout_add :: "'e \<Rightarrow> ('e, 'm) fanout \<Rightarrow> ('e, 'm) fanout" where
  "fanout_add e f = f\<lparr>f_edges := f_edges f @ [e]\<rparr>"

definition fanout_suspended :: "('e, 'm) fanout \<Rightarrow> nat option" where
  "fanout_suspended f = map_option sp_index (f_suspended f)"

definition fanout_ready :: "('e, 'm) fanout \<Rightarrow> bool" where
  "fanout_ready f = (f_suspended f = None)"

definition missing_edge :: error where
  "missing_edge = Fatal ''fan-out suspended on a missing edge''"

definition fanout_edge :: "nat \<Rightarrow> ('e, 'm) fanout \<Rightarrow> 'e res" where
  "fanout_edge i f = (if i < length (f_edges f) then Ok (f_edges f ! i) else Err missing_edge)"

definition suspend ::
  "nat \<Rightarrow> 'm \<Rightarrow> 'm option \<Rightarrow> ('e, 'm) fanout \<Rightarrow> rotation \<times> ('e, 'm) fanout" where
  "suspend i m rest f =
     (SuspendedAt i, f\<lparr>f_suspended := Some \<lparr>sp_index = i, sp_refused = m, sp_rest = rest\<rparr>\<rparr>)"

text \<open>The loop of \<open>rotate_from\<close> over the edges from index \<open>i\<close> on: every edge but the last gets a
  clone, the last one the message itself.\<close>

fun rotate_edges ::
  "('e, 'm, 'w) sink_ops \<Rightarrow> nat \<Rightarrow> 'e list \<Rightarrow> 'm \<Rightarrow> ('e, 'm) fanout \<Rightarrow> 'w \<Rightarrow>
   rotation res \<times> ('e, 'm) fanout \<times> 'w" where
  "rotate_edges ops i [] m f w = (Ok Complete, f, w)"
| "rotate_edges ops i [e] m f w =
     (case op_try_push ops e m w of
        (Err x, w') \<Rightarrow> (Err x, f, w')
      | (Ok t, w') \<Rightarrow>
          (case refused t of
             None \<Rightarrow> (Ok Complete, f, w')
           | Some r \<Rightarrow> (let (rot, f') = suspend i r None f in (Ok rot, f', w'))))"
| "rotate_edges ops i (e # e2 # es) m f w =
     (case op_try_push ops e m w of
        (Err x, w') \<Rightarrow> (Err x, f, w')
      | (Ok t, w') \<Rightarrow>
          (case refused t of
             None \<Rightarrow> rotate_edges ops (i + 1) (e2 # es) m f w'
           | Some r \<Rightarrow> (let (rot, f') = suspend i r (Some m) f in (Ok rot, f', w'))))"

definition rotate_from ::
  "('e, 'm, 'w) sink_ops \<Rightarrow> nat \<Rightarrow> 'm \<Rightarrow> ('e, 'm) fanout \<Rightarrow> 'w \<Rightarrow>
   rotation res \<times> ('e, 'm) fanout \<times> 'w" where
  "rotate_from ops from m f w = rotate_edges ops from (drop from (f_edges f)) m f w"

definition rotate_rest ::
  "('e, 'm, 'w) sink_ops \<Rightarrow> nat \<Rightarrow> 'm option \<Rightarrow> ('e, 'm) fanout \<Rightarrow> 'w \<Rightarrow>
   rotation res \<times> ('e, 'm) fanout \<times> 'w" where
  "rotate_rest ops i rest f w =
     (case rest of Some m \<Rightarrow> rotate_from ops (i + 1) m f w | None \<Rightarrow> (Ok Complete, f, w))"

text \<open>\<open>Ready::push\<close>, reached through \<open>ready\<close> only.\<close>

definition ready_push ::
  "('e, 'm, 'w) sink_ops \<Rightarrow> 'm \<Rightarrow> ('e, 'm) fanout \<Rightarrow> 'w \<Rightarrow> rotation res \<times> ('e, 'm) fanout \<times> 'w" where
  "ready_push ops m f w = rotate_from ops 0 m f w"

definition held_message :: error where
  "held_message = Fatal ''output pushed past a held message''"

definition fanout_rotate ::
  "('e, 'm, 'w) sink_ops \<Rightarrow> 'm \<Rightarrow> ('e, 'm) fanout \<Rightarrow> 'w \<Rightarrow> rotation res \<times> ('e, 'm) fanout \<times> 'w" where
  "fanout_rotate ops m f w =
     (if fanout_ready f then ready_push ops m f w else (Err held_message, f, w))"

definition fanout_retry ::
  "('e, 'm, 'w) sink_ops \<Rightarrow> ('e, 'm) fanout \<Rightarrow> 'w \<Rightarrow> rotation res \<times> ('e, 'm) fanout \<times> 'w" where
  "fanout_retry ops f w =
     (case f_suspended f of
        None \<Rightarrow> (Ok Complete, f, w)
      | Some s \<Rightarrow>
          (let f1 = f\<lparr>f_suspended := None\<rparr>
           in case fanout_edge (sp_index s) f1 of
                Err x \<Rightarrow> (Err x, f1, w)
              | Ok e \<Rightarrow>
                  (case op_try_push ops e (sp_refused s) w of
                     (Err x, w') \<Rightarrow> (Err x, f1, w')
                   | (Ok t, w') \<Rightarrow>
                       (case refused t of
                          None \<Rightarrow> rotate_rest ops (sp_index s) (sp_rest s) f1 w'
                        | Some r \<Rightarrow>
                            (let (rot, f') = suspend (sp_index s) r (sp_rest s) f1
                             in (Ok rot, f', w'))))))"

text \<open>\<open>resume\<close>: \<open>Stuck\<close> blocks in the edge's \<open>push\<close> (src/edge/deadlock.rs only logs around it).\<close>

definition fanout_resume ::
  "('e, 'm, 'w) sink_ops \<Rightarrow> ('e, 'm) fanout \<Rightarrow> 'w \<Rightarrow>
   (rotation res \<times> ('e, 'm) fanout \<times> 'w) option" where
  "fanout_resume ops f w =
     (case f_suspended f of
        None \<Rightarrow> Some (Ok Complete, f, w)
      | Some s \<Rightarrow>
          (let f1 = f\<lparr>f_suspended := None\<rparr>
           in case fanout_edge (sp_index s) f1 of
                Err x \<Rightarrow> Some (Err x, f1, w)
              | Ok e \<Rightarrow>
                  (case op_try_push ops e (sp_refused s) w of
                     (Err x, w') \<Rightarrow> Some (Err x, f1, w')
                   | (Ok Pushed, w') \<Rightarrow> Some (rotate_rest ops (sp_index s) (sp_rest s) f1 w')
                   | (Ok (Full r), w') \<Rightarrow>
                       (let (rot, f') = suspend (sp_index s) r (sp_rest s) f1
                        in Some (Ok rot, f', w'))
                   | (Ok (Stuck r), w') \<Rightarrow>
                       (case op_push ops e r w' of
                          None \<Rightarrow> None
                        | Some (Err x, w'') \<Rightarrow> Some (Err x, f1, w'')
                        | Some (Ok _, w'') \<Rightarrow>
                            Some (rotate_rest ops (sp_index s) (sp_rest s) f1 w'')))))"

fun close_all :: "('e, 'm, 'w) sink_ops \<Rightarrow> 'e list \<Rightarrow> unit res \<Rightarrow> 'w \<Rightarrow> unit res \<times> 'w" where
  "close_all ops [] r w = (r, w)"
| "close_all ops (e # es) r w =
     (case op_close ops e w of
        (Err x, w') \<Rightarrow> close_all ops es (if is_ok r then Err x else r) w'
      | (Ok _, w') \<Rightarrow> close_all ops es r w')"

definition fanout_close ::
  "('e, 'm, 'w) sink_ops \<Rightarrow> ('e, 'm) fanout \<Rightarrow> 'w \<Rightarrow> unit res \<times> ('e, 'm) fanout \<times> 'w" where
  "fanout_close ops f w =
     (let (r, w') = close_all ops (f_edges f) (Ok ()) w in (r, f\<lparr>f_suspended := None\<rparr>, w'))"

fun schedule_all :: "('e, 'm, 'w) sink_ops \<Rightarrow> waker \<Rightarrow> 'e list \<Rightarrow> 'w \<Rightarrow> 'w" where
  "schedule_all ops v [] w = w"
| "schedule_all ops v (e # es) w = schedule_all ops v es (op_schedule ops v e w)"

definition fanout_schedule ::
  "('e, 'm, 'w) sink_ops \<Rightarrow> waker \<Rightarrow> ('e, 'm) fanout \<Rightarrow> 'w \<Rightarrow> 'w" where
  "fanout_schedule ops v f w = schedule_all ops v (f_edges f) w"

section \<open>The single edge\<close>

record ('e, 'm) single =
  sg_edge :: 'e
  sg_held :: "'m option"

definition single_from :: "'e \<Rightarrow> ('e, 'm) single" where
  "single_from e = \<lparr>sg_edge = e, sg_held = None\<rparr>"

definition single_deliver ::
  "('e, 'm, 'w) sink_ops \<Rightarrow> 'm \<Rightarrow> ('e, 'm) single \<Rightarrow> 'w \<Rightarrow> rotation res \<times> ('e, 'm) single \<times> 'w" where
  "single_deliver ops m g w =
     (case op_try_push ops (sg_edge g) m w of
        (Err x, w') \<Rightarrow> (Err x, g, w')
      | (Ok t, w') \<Rightarrow>
          (case refused t of
             None \<Rightarrow> (Ok Complete, g, w')
           | Some r \<Rightarrow> (Ok (SuspendedAt 0), g\<lparr>sg_held := Some r\<rparr>, w')))"

definition single_suspended :: "('e, 'm) single \<Rightarrow> nat option" where
  "single_suspended g = map_option (\<lambda>_. 0) (sg_held g)"

definition single_retry ::
  "('e, 'm, 'w) sink_ops \<Rightarrow> ('e, 'm) single \<Rightarrow> 'w \<Rightarrow> rotation res \<times> ('e, 'm) single \<times> 'w" where
  "single_retry ops g w =
     (case sg_held g of
        None \<Rightarrow> (Ok Complete, g\<lparr>sg_held := None\<rparr>, w)
      | Some m \<Rightarrow> single_deliver ops m (g\<lparr>sg_held := None\<rparr>) w)"

definition single_rotate ::
  "('e, 'm, 'w) sink_ops \<Rightarrow> 'm \<Rightarrow> ('e, 'm) single \<Rightarrow> 'w \<Rightarrow> rotation res \<times> ('e, 'm) single \<times> 'w" where
  "single_rotate ops m g w =
     (if sg_held g \<noteq> None then (Err held_message, g, w) else single_deliver ops m g w)"

definition single_close ::
  "('e, 'm, 'w) sink_ops \<Rightarrow> ('e, 'm) single \<Rightarrow> 'w \<Rightarrow> unit res \<times> ('e, 'm) single \<times> 'w" where
  "single_close ops g w =
     (let (r, w') = op_close ops (sg_edge g) w in (r, g\<lparr>sg_held := None\<rparr>, w'))"

definition single_schedule ::
  "('e, 'm, 'w) sink_ops \<Rightarrow> waker \<Rightarrow> ('e, 'm) single \<Rightarrow> 'w \<Rightarrow> 'w" where
  "single_schedule ops v g w = op_schedule ops v (sg_edge g) w"

section \<open>What outputs leave alone\<close>

text \<open>Whatever the edges' \<open>try_push\<close> leaves alone (\<open>V\<close>), rotating and retrying leave alone.\<close>

lemma rotate_edges_view:
  assumes v: "\<And>e m w q w1. op_try_push ops e m w = (q, w1) \<Longrightarrow> V w1 = V w"
  shows "rotate_edges ops i es m f w = (q, f', w') \<Longrightarrow> V w' = V w"
proof (induction es arbitrary: i w)
  case Nil
  then show ?case by simp
next
  case (Cons e es)
  obtain r w1 where p: "op_try_push ops e m w = (r, w1)" by (cases "op_try_push ops e m w") auto
  with v have "V w1 = V w" by blast
  with Cons p show ?case
    by (cases es) (auto simp: suspend_def split: result.splits option.splits)
qed

lemma fanout_rotate_view:
  assumes v: "\<And>e m w q w1. op_try_push ops e m w = (q, w1) \<Longrightarrow> V w1 = V w"
    and r: "fanout_rotate ops m f w = (q, f', w')"
  shows "V w' = V w"
  using r rotate_edges_view [of ops V, OF v]
  by (auto simp: fanout_rotate_def ready_push_def rotate_from_def split: if_splits)

lemma fanout_retry_view:
  assumes v: "\<And>e m w q w1. op_try_push ops e m w = (q, w1) \<Longrightarrow> V w1 = V w"
    and r: "fanout_retry ops f w = (q, f', w')"
  shows "V w' = V w"
  using r rotate_edges_view [of ops V, OF v]
  by (auto simp: fanout_retry_def fanout_edge_def rotate_rest_def rotate_from_def suspend_def Let_def
      split: option.splits result.splits prod.splits if_splits dest!: v)

lemma fanout_resume_view:
  assumes v: "\<And>e m w q w1. op_try_push ops e m w = (q, w1) \<Longrightarrow> V w1 = V w"
    and p: "\<And>e m w q w1. op_push ops e m w = Some (q, w1) \<Longrightarrow> V w1 = V w"
    and r: "fanout_resume ops f w = Some (q, f', w')"
  shows "V w' = V w"
  using r rotate_edges_view [of ops V, OF v]
  by (auto simp: fanout_resume_def fanout_edge_def rotate_rest_def rotate_from_def suspend_def Let_def
      split: option.splits result.splits prod.splits try_push.splits if_splits dest!: v p)

section \<open>The contract of an output\<close>

text \<open>A poll node's use of its output: each message is rotated, and while it is held it is
  retried until everything is delivered; between two calls the world moves by \<open>env\<close>. The list holds
  one \<open>env\<close> per call; when it runs out, the node is still suspended.\<close>

fun deliver_all ::
  "('r \<Rightarrow> nat option) \<Rightarrow> ('r \<Rightarrow> 'w \<Rightarrow> rotation res \<times> 'r \<times> 'w) \<Rightarrow>
   ('m \<Rightarrow> 'r \<Rightarrow> 'w \<Rightarrow> rotation res \<times> 'r \<times> 'w) \<Rightarrow>
   ('w \<Rightarrow> 'w) list \<Rightarrow> 'm list \<Rightarrow> 'r \<Rightarrow> 'w \<Rightarrow> 'm list \<times> error option \<times> 'r \<times> 'w" where
  "deliver_all susp again start [] ms r w = (ms, None, r, w)"
| "deliver_all susp again start (env # envs) ms r w =
     (if susp r \<noteq> None
      then (case again r (env w) of
              (Err x, r', w') \<Rightarrow> (ms, Some x, r', w')
            | (Ok rot, r', w') \<Rightarrow> deliver_all susp again start envs ms r' w')
      else (case ms of
              [] \<Rightarrow> ([], None, r, w)
            | m # ms' \<Rightarrow>
                (case start m r (env w) of
                   (Err x, r', w') \<Rightarrow> (ms', Some x, r', w')
                 | (Ok rot, r', w') \<Rightarrow> deliver_all susp again start envs ms' r' w')))"

text \<open>An output has a number of lanes (its edges). \<open>lane r w i\<close> is what lane \<open>i\<close> has received
  followed by what it is still owed of the message held; \<open>ok\<close> is the output's invariant. The world
  may move between calls (consumers drain) as long as what each lane received stays.\<close>

locale rotator =
  fixes susp :: "'r \<Rightarrow> nat option"
    and retry :: "'r \<Rightarrow> 'w \<Rightarrow> rotation res \<times> 'r \<times> 'w"
    and rotate :: "'m \<Rightarrow> 'r \<Rightarrow> 'w \<Rightarrow> rotation res \<times> 'r \<times> 'w"
    and lanes :: "'r \<Rightarrow> nat" and received :: "'r \<Rightarrow> 'w \<Rightarrow> nat \<Rightarrow> 'm list"
    and due :: "'r \<Rightarrow> nat \<Rightarrow> 'm list" and ok :: "'r \<Rightarrow> bool"
  assumes rotate_ok: "ok r \<Longrightarrow> susp r = None \<Longrightarrow> rotate m r w = (Ok rot, r', w') \<Longrightarrow>
       ok r' \<and> lanes r' = lanes r \<and> (rot = Complete) = (susp r' = None) \<and>
       (\<forall>i < lanes r. received r' w' i @ due r' i = received r w i @ [m])"
    and retry_ok: "ok r \<Longrightarrow> retry r w = (Ok rot, r', w') \<Longrightarrow>
       ok r' \<and> lanes r' = lanes r \<and> (rot = Complete) = (susp r' = None) \<and>
       (\<forall>i < lanes r. received r' w' i @ due r' i = received r w i @ due r i)"
    and rotate_held: "susp r = Some k \<Longrightarrow> \<exists>x. rotate m r w = (Err x, r, w)"
    and due_none: "ok r \<Longrightarrow> susp r = None \<Longrightarrow> due r i = []"
    and due_one: "ok r \<Longrightarrow> length (due r i) \<le> 1"
begin

lemma deliver_all_lanes:
  assumes "deliver_all susp retry rotate envs ms r w = (rest, None, r', w')" and "ok r"
    and "\<forall>env\<in>set envs. \<forall>r w i. received r (env w) i = received r w i"
  shows "ok r' \<and> lanes r' = lanes r \<and>
         (\<exists>sent. ms = sent @ rest \<and>
            (\<forall>i < lanes r. received r' w' i @ due r' i = (received r w i @ due r i) @ sent))"
  using assms
proof (induction envs arbitrary: ms r w)
  case Nil
  then show ?case by auto
next
  case (Cons env envs)
  have env: "received r (env w) i = received r w i" for r w i using Cons.prems(3) by simp
  have envs: "\<forall>env\<in>set envs. \<forall>r w i. received r (env w) i = received r w i"
    using Cons.prems(3) by simp
  show ?case
  proof (cases "susp r")
    case (Some k)
    obtain q r1 w1 where p: "retry r (env w) = (q, r1, w1)" by (cases "retry r (env w)") auto
    with Cons.prems(1) Some obtain rot where q: "q = Ok rot"
        and d: "deliver_all susp retry rotate envs ms r1 w1 = (rest, None, r', w')"
      by (cases q) auto
    from retry_ok [OF Cons.prems(2)] p q have r1: "ok r1" "lanes r1 = lanes r"
        "\<forall>i < lanes r. received r1 w1 i @ due r1 i = received r w i @ due r i"
      using env by auto
    from Cons.IH [OF d r1(1) envs] r1 show ?thesis by auto
  next
    case None
    show ?thesis
    proof (cases ms)
      case Nil
      with Cons.prems None show ?thesis by auto
    next
      case (Cons m ms')
      note ms = this
      obtain q r1 w1 where p: "rotate m r (env w) = (q, r1, w1)" by (cases "rotate m r (env w)") auto
      with Cons.prems(1) None ms obtain rot where q: "q = Ok rot"
          and d: "deliver_all susp retry rotate envs ms' r1 w1 = (rest, None, r', w')" by (cases q) auto
      from rotate_ok [OF Cons.prems(2) None] p q have r1: "ok r1" "lanes r1 = lanes r"
          "\<forall>i < lanes r. received r1 w1 i @ due r1 i = received r w i @ [m]"
        using env by auto
      from Cons.IH [OF d r1(1) envs] r1 due_none [OF Cons.prems(2) None] ms show ?thesis by auto
    qed
  qed
qed

end

section \<open>Fan-out and single edge honour the contract\<close>

text \<open>Edges are boxes: distinct handles. A held message waits at an edge that exists, and its
  source for the later edges is there unless it waits at the last one.\<close>

definition fanout_ok :: "('e, 'm) fanout \<Rightarrow> bool" where
  "fanout_ok f \<longleftrightarrow>
     distinct (f_edges f) \<and>
     (case f_suspended f of
        None \<Rightarrow> True
      | Some s \<Rightarrow>
          (case sp_rest s of
             None \<Rightarrow> sp_index s + 1 = length (f_edges f)
           | Some m \<Rightarrow> m = sp_refused s \<and> sp_index s + 1 < length (f_edges f)))"

definition fanout_due :: "('e, 'm) fanout \<Rightarrow> nat \<Rightarrow> 'm list" where
  "fanout_due f i =
     (case f_suspended f of
        None \<Rightarrow> []
      | Some s \<Rightarrow>
          if i < sp_index s then []
          else if i = sp_index s then [sp_refused s]
          else (case sp_rest s of None \<Rightarrow> [] | Some m \<Rightarrow> [m]))"

definition fanout_lanes :: "('e, 'm) fanout \<Rightarrow> nat" where
  "fanout_lanes f = length (f_edges f)"

definition fanout_received :: "('e \<Rightarrow> 'w \<Rightarrow> 'm list) \<Rightarrow> ('e, 'm) fanout \<Rightarrow> 'w \<Rightarrow> nat \<Rightarrow> 'm list" where
  "fanout_received took f w i = took (f_edges f ! i) w"

lemma suspension_eta [simp]:
  "\<lparr>sp_index = sp_index s, sp_refused = sp_refused s, sp_rest = sp_rest s\<rparr> = s"
  by (cases s) simp

lemma suspend_again: "f_suspended f = Some s \<Longrightarrow> f\<lparr>f_suspended := Some s\<rparr> = f"
  by (cases f) simp

lemma fanout_due_length: "length (fanout_due f i) \<le> 1"
  by (auto simp: fanout_due_def split: option.splits)

lemma all_less_two: "(\<forall>i < Suc (Suc 0). P i) \<longleftrightarrow> P 0 \<and> P (Suc 0)"
  by (auto simp: less_Suc_eq)

lemma drop_Cons_nth: "drop k xs = x # ys \<Longrightarrow> k < length xs \<and> x = xs ! k \<and> drop (Suc k) xs = ys"
  by (metis Cons_nth_drop_Suc drop_eq_Nil linorder_not_le list.inject list.simps(3))

definition single_due :: "('e, 'm) single \<Rightarrow> nat \<Rightarrow> 'm list" where
  "single_due g i = (case sg_held g of None \<Rightarrow> [] | Some m \<Rightarrow> [m])"

context sink
begin

lemma rotate_edges_lanes:
  "rotate_edges ops k es m f w = (Ok rot, f', w') \<Longrightarrow> drop k (f_edges f) = es \<Longrightarrow>
   distinct (f_edges f) \<Longrightarrow> f_suspended f = None \<Longrightarrow>
     fanout_ok f' \<and> f_edges f' = f_edges f \<and> (rot = Complete) = (f_suspended f' = None) \<and>
     (\<forall>i < length (f_edges f).
        took (f_edges f ! i) w' @ fanout_due f' i =
        took (f_edges f ! i) w @ (if k \<le> i then [m] else []))"
proof (induction es arbitrary: k w)
  case Nil
  then show ?case by (auto simp: fanout_ok_def fanout_due_def)
next
  case (Cons e es)
  from Cons.prems(2) have k: "k < length (f_edges f)" and e: "e = f_edges f ! k"
    and es: "drop (Suc k) (f_edges f) = es" by (auto dest!: drop_Cons_nth)
  have last: "es = [] \<longleftrightarrow> length (f_edges f) = Suc k" using es k by auto
  note d = Cons.prems(3) and none = Cons.prems(4)
  obtain r w1 where p: "op_try_push ops e m w = (r, w1)" by (cases "op_try_push ops e m w") auto
  have t: "took (f_edges f ! i) w1 = took (f_edges f ! i) w @ (if i = k \<and> r = Ok Pushed then [m] else [])"
    if "i < length (f_edges f)" for i
    using try_took [OF p] that d k e by (auto simp: nth_eq_iff_index_eq)
  from Cons.prems(1) p obtain o' where r: "r = Ok o'" by (cases es; cases r) auto
  show ?case
  proof (cases "refused o'")
    case None
    with r have "r = Ok Pushed" by simp
    show ?thesis
    proof (cases "es = []")
      case True
      with Cons.prems(1) p r None have "f' = f" "w' = w1" "rot = Complete" by auto
      with t \<open>r = Ok Pushed\<close> last True d none show ?thesis by (auto simp: fanout_ok_def fanout_due_def)
    next
      case False
      with Cons.prems(1) p r None have "rotate_edges ops (Suc k) es m f w1 = (Ok rot, f', w')"
        by (cases es) auto
      from Cons.IH [OF this es d none] t \<open>r = Ok Pushed\<close> show ?thesis by auto
    qed
  next
    case (Some m')
    with try_hands_back p r have m': "m' = m" by blast
    from Some r have "r \<noteq> Ok Pushed" by auto
    with Cons.prems(1) p r Some m' have f': "rot = SuspendedAt k" "w' = w1"
        "f' = f\<lparr>f_suspended := Some \<lparr>sp_index = k, sp_refused = m, sp_rest = if es = [] then None else Some m\<rparr>\<rparr>"
      by (cases es; auto simp: suspend_def)+
    with t \<open>r \<noteq> Ok Pushed\<close> last d k show ?thesis
      by (cases "es = []") (auto simp: fanout_ok_def fanout_due_def)
  qed
qed

lemma fanout_rotate_lanes:
  assumes ok: "fanout_ok f" and s: "fanout_suspended f = None"
    and r: "fanout_rotate ops m f w = (Ok rot, f', w')"
  shows "fanout_ok f' \<and> f_edges f' = f_edges f \<and> (rot = Complete) = (fanout_suspended f' = None) \<and>
         (\<forall>i < fanout_lanes f.
            fanout_received took f' w' i @ fanout_due f' i = fanout_received took f w i @ [m])"
proof -
  from s r have "rotate_edges ops 0 (f_edges f) m f w = (Ok rot, f', w')"
    by (simp add: fanout_rotate_def fanout_ready_def ready_push_def rotate_from_def
        fanout_suspended_def)
  from rotate_edges_lanes [OF this] ok s show ?thesis
    by (auto simp: fanout_ok_def fanout_suspended_def fanout_lanes_def fanout_received_def)
qed

text \<open>Once the held message is taken, the rotation goes on with the edges after it.\<close>

lemma rotate_rest_lanes:
  assumes ok: "fanout_ok f" and s: "f_suspended f = Some s"
    and t: "\<And>i. i < length (f_edges f) \<Longrightarrow>
        took (f_edges f ! i) w1 = took (f_edges f ! i) w @ (if i = sp_index s then [sp_refused s] else [])"
    and r: "rotate_rest ops (sp_index s) (sp_rest s) (f\<lparr>f_suspended := None\<rparr>) w1 = (Ok rot, f', w')"
  shows "fanout_ok f' \<and> f_edges f' = f_edges f \<and> (rot = Complete) = (f_suspended f' = None) \<and>
         (\<forall>i < length (f_edges f).
            took (f_edges f ! i) w' @ fanout_due f' i = took (f_edges f ! i) w @ fanout_due f i)"
proof (cases "sp_rest s")
  case None
  with r have "f' = f\<lparr>f_suspended := None\<rparr>" "w' = w1" "rot = Complete"
    by (auto simp: rotate_rest_def)
  with ok s t None show ?thesis by (auto simp: fanout_ok_def fanout_due_def)
next
  case (Some m)
  with r have "rotate_edges ops (Suc (sp_index s)) (drop (Suc (sp_index s)) (f_edges f)) m
      (f\<lparr>f_suspended := None\<rparr>) w1 = (Ok rot, f', w')"
    by (simp add: rotate_rest_def rotate_from_def)
  from rotate_edges_lanes [OF this] ok s Some t show ?thesis
    by (auto simp: fanout_ok_def fanout_due_def)
qed

lemma fanout_retry_lanes:
  assumes ok: "fanout_ok f" and r: "fanout_retry ops f w = (Ok rot, f', w')"
  shows "fanout_ok f' \<and> f_edges f' = f_edges f \<and> (rot = Complete) = (f_suspended f' = None) \<and>
         (\<forall>i < length (f_edges f).
            took (f_edges f ! i) w' @ fanout_due f' i = took (f_edges f ! i) w @ fanout_due f i)"
proof (cases "f_suspended f")
  case None
  with r ok show ?thesis by (auto simp: fanout_retry_def)
next
  case (Some s)
  let ?e = "f_edges f ! sp_index s"
  have k: "sp_index s < length (f_edges f)"
    using ok Some by (auto simp: fanout_ok_def split: option.splits)
  obtain q w1 where p: "op_try_push ops ?e (sp_refused s) w = (q, w1)"
    by (cases "op_try_push ops ?e (sp_refused s) w") auto
  have t: "took (f_edges f ! i) w1 =
      took (f_edges f ! i) w @ (if i = sp_index s \<and> q = Ok Pushed then [sp_refused s] else [])"
    if "i < length (f_edges f)" for i
    using try_took [OF p] that ok k by (auto simp: fanout_ok_def nth_eq_iff_index_eq)
  from r Some k p obtain o' where q: "q = Ok o'"
    by (cases q) (auto simp: fanout_retry_def fanout_edge_def)
  show ?thesis
  proof (cases "refused o'")
    case None
    with q t have "\<And>i. i < length (f_edges f) \<Longrightarrow>
        took (f_edges f ! i) w1 = took (f_edges f ! i) w @ (if i = sp_index s then [sp_refused s] else [])"
      by simp
    note took1 = this
    have "rotate_rest ops (sp_index s) (sp_rest s) (f\<lparr>f_suspended := None\<rparr>) w1 = (Ok rot, f', w')"
      using r Some k p q None by (simp add: fanout_retry_def fanout_edge_def)
    from rotate_rest_lanes [OF ok Some took1 this] show ?thesis .
  next
    case (Some m')
    with try_hands_back p q have m': "m' = sp_refused s" by blast
    from Some q have "q \<noteq> Ok Pushed" by auto
    with r \<open>f_suspended f = Some s\<close> k p q Some m'
    have "rot = SuspendedAt (sp_index s) \<and> w' = w1 \<and> f' = f\<lparr>f_suspended := Some s\<rparr>"
      by (simp add: fanout_retry_def fanout_edge_def suspend_def)
    then have "rot = SuspendedAt (sp_index s)" "w' = w1" "f' = f"
      using suspend_again \<open>f_suspended f = Some s\<close> by metis+
    with ok \<open>f_suspended f = Some s\<close> t \<open>q \<noteq> Ok Pushed\<close> show ?thesis by auto
  qed
qed

lemma fanout_resume_lanes:
  assumes ok: "fanout_ok f" and r: "fanout_resume ops f w = Some (Ok rot, f', w')"
  shows "fanout_ok f' \<and> f_edges f' = f_edges f \<and> (rot = Complete) = (f_suspended f' = None) \<and>
         (\<forall>i < length (f_edges f).
            took (f_edges f ! i) w' @ fanout_due f' i = took (f_edges f ! i) w @ fanout_due f i)"
proof (cases "f_suspended f")
  case None
  with r ok show ?thesis by (auto simp: fanout_resume_def)
next
  case (Some s)
  let ?e = "f_edges f ! sp_index s"
  have k: "sp_index s < length (f_edges f)"
    using ok Some by (auto simp: fanout_ok_def split: option.splits)
  obtain q w1 where p: "op_try_push ops ?e (sp_refused s) w = (q, w1)"
    by (cases "op_try_push ops ?e (sp_refused s) w") auto
  have t: "took (f_edges f ! i) w1 =
      took (f_edges f ! i) w @ (if i = sp_index s \<and> q = Ok Pushed then [sp_refused s] else [])"
    if "i < length (f_edges f)" for i
    using try_took [OF p] that ok k by (auto simp: fanout_ok_def nth_eq_iff_index_eq)
  from r Some k p obtain o' where q: "q = Ok o'"
    by (cases q) (auto simp: fanout_resume_def fanout_edge_def)
  show ?thesis
  proof (cases o')
    case Pushed
    with q t have "\<And>i. i < length (f_edges f) \<Longrightarrow>
        took (f_edges f ! i) w1 = took (f_edges f ! i) w @ (if i = sp_index s then [sp_refused s] else [])"
      by simp
    note took1 = this
    have "rotate_rest ops (sp_index s) (sp_rest s) (f\<lparr>f_suspended := None\<rparr>) w1 = (Ok rot, f', w')"
      using r Some k p q Pushed by (simp add: fanout_resume_def fanout_edge_def)
    from rotate_rest_lanes [OF ok Some took1 this] show ?thesis .
  next
    case (Full m')
    with try_hands_back [OF p [unfolded q]] have m': "m' = sp_refused s" by simp
    with r Some k p q Full
    have "rot = SuspendedAt (sp_index s) \<and> w' = w1 \<and> f' = f\<lparr>f_suspended := Some s\<rparr>"
      by (simp add: fanout_resume_def fanout_edge_def suspend_def)
    then have "rot = SuspendedAt (sp_index s)" "w' = w1" "f' = f"
      using suspend_again Some by metis+
    with ok Some t q Full show ?thesis by auto
  next
    case (Stuck m')
    with try_hands_back [OF p [unfolded q]] have m': "m' = sp_refused s" by simp
    from r Some k p q Stuck obtain u w2 where b: "op_push ops ?e m' w1 = Some (Ok u, w2)"
        and rr: "rotate_rest ops (sp_index s) (sp_rest s) (f\<lparr>f_suspended := None\<rparr>) w2 = (Ok rot, f', w')"
      by (auto simp: fanout_resume_def fanout_edge_def Let_def split: option.splits result.splits prod.splits)
    have "took (f_edges f ! i) w2 = took (f_edges f ! i) w @ (if i = sp_index s then [sp_refused s] else [])"
      if "i < length (f_edges f)" for i
      using push_took [OF b] t [OF that] that ok k q Stuck m'
      by (auto simp: fanout_ok_def nth_eq_iff_index_eq)
    from rotate_rest_lanes [OF ok Some this rr] show ?thesis .
  qed
qed

lemma single_deliver_lanes:
  assumes h: "sg_held g = None" and r: "single_deliver ops m g w = (Ok rot, g', w')"
  shows "sg_edge g' = sg_edge g \<and> (rot = Complete) = (sg_held g' = None) \<and>
         took (sg_edge g) w' @ single_due g' 0 = took (sg_edge g) w @ [m]"
proof -
  obtain q w1 where p: "op_try_push ops (sg_edge g) m w = (q, w1)"
    by (cases "op_try_push ops (sg_edge g) m w") auto
  with r obtain t where q: "q = Ok t" by (cases q) (auto simp: single_deliver_def)
  show ?thesis
  proof (cases "refused t")
    case None
    with r p q h try_took [OF p, of "sg_edge g"] show ?thesis
      by (auto simp: single_deliver_def single_due_def)
  next
    case (Some m')
    with try_hands_back p q have "m' = m" by blast
    moreover have "t \<noteq> Pushed" using Some by auto
    ultimately show ?thesis using r p q Some try_took [OF p, of "sg_edge g"]
      by (auto simp: single_deliver_def single_due_def)
  qed
qed

end

text \<open>Both outputs are rotators over any sink.\<close>

sublocale sink \<subseteq> fan: rotator fanout_suspended "fanout_retry ops" "fanout_rotate ops" fanout_lanes
    "fanout_received took" fanout_due fanout_ok
proof unfold_locales
  fix r r' :: "('e, 'm) fanout" and w w' :: 'w and rot
  assume "fanout_ok r" "fanout_retry ops r w = (Ok rot, r', w')"
  from fanout_retry_lanes [OF this]
  show "fanout_ok r' \<and> fanout_lanes r' = fanout_lanes r \<and> (rot = Complete) = (fanout_suspended r' = None) \<and>
       (\<forall>i < fanout_lanes r.
          fanout_received took r' w' i @ fanout_due r' i = fanout_received took r w i @ fanout_due r i)"
    by (auto simp: fanout_lanes_def fanout_received_def fanout_suspended_def)
next
  fix r r' :: "('e, 'm) fanout" and w w' :: 'w and rot m
  assume "fanout_ok r" "fanout_suspended r = None" "fanout_rotate ops m r w = (Ok rot, r', w')"
  from fanout_rotate_lanes [OF this]
  show "fanout_ok r' \<and> fanout_lanes r' = fanout_lanes r \<and> (rot = Complete) = (fanout_suspended r' = None) \<and>
       (\<forall>i < fanout_lanes r.
          fanout_received took r' w' i @ fanout_due r' i = fanout_received took r w i @ [m])"
    by (auto simp: fanout_lanes_def)
qed (use fanout_due_length in
      \<open>auto simp: fanout_rotate_def fanout_ready_def fanout_suspended_def fanout_due_def\<close>)

sublocale sink \<subseteq> one: rotator single_suspended "single_retry ops" "single_rotate ops" "\<lambda>g. 1"
    "\<lambda>g w i. took (sg_edge g) w" single_due "\<lambda>g. True"
proof unfold_locales
  fix r r' :: "('e, 'm) single" and w w' :: 'w and rot m
  assume "single_suspended r = None" "single_rotate ops m r w = (Ok rot, r', w')"
  with single_deliver_lanes [of r m w rot r' w']
  show "True \<and> (1::nat) = 1 \<and> (rot = Complete) = (single_suspended r' = None) \<and>
       (\<forall>i < 1. took (sg_edge r') w' @ single_due r' i = took (sg_edge r) w @ [m])"
    by (auto simp: single_suspended_def single_rotate_def)
next
  fix r r' :: "('e, 'm) single" and w w' :: 'w and rot
  assume r: "single_retry ops r w = (Ok rot, r', w')"
  show "True \<and> (1::nat) = 1 \<and> (rot = Complete) = (single_suspended r' = None) \<and>
       (\<forall>i < 1. took (sg_edge r') w' @ single_due r' i = took (sg_edge r) w @ single_due r i)"
  proof (cases "sg_held r")
    case None
    with r show ?thesis by (auto simp: single_retry_def single_suspended_def single_due_def)
  next
    case (Some m)
    with r have "single_deliver ops m (r\<lparr>sg_held := None\<rparr>) w = (Ok rot, r', w')"
      by (simp add: single_retry_def)
    with single_deliver_lanes [OF _ this] Some show ?thesis
      by (auto simp: single_suspended_def single_due_def)
  qed
qed (auto simp: single_suspended_def single_rotate_def single_due_def split: option.splits)

section \<open>Properties\<close>

text \<open>C16. Nothing a poll node sends through a fan-out over sync edges is lost, duplicated or
  reordered on any edge: when a sequence of messages is rotated into the fan-out, retrying while one
  is held, and consumers, other producers and wakes move the edges between the calls, then each edge
  has taken exactly the messages sent so far, in order, except that it may still be owed the last one,
  which the fan-out holds.\<close>

theorem fanout_delivers_to_every_edge:
  assumes run: "deliver_all fanout_suspended (fanout_retry (sync_sink blk)) (fanout_rotate (sync_sink blk))
                  envs ms f w = (rest, None, f', w')"
    and wf: "fanout_ok f"
    and env: "\<forall>env\<in>set envs. \<forall>w. sw_took (env w) = sw_took w"
  shows "\<exists>sent. ms = sent @ rest \<and>
           (\<forall>i < length (f_edges f).
              sw_took w' (f_edges f' ! i) @ fanout_due f' i =
              (sw_took w (f_edges f ! i) @ fanout_due f i) @ sent \<and>
              length (fanout_due f' i) \<le> 1)"
proof -
  have "\<forall>env\<in>set envs. \<forall>r w i.
      fanout_received (\<lambda>e w. sw_took w e) r (env w) i = fanout_received (\<lambda>e w. sw_took w e) r w i"
    using env by (simp add: fanout_received_def)
  from sync_sink.fan.deliver_all_lanes [OF run wf this] show ?thesis
    using fanout_due_length by (fastforce simp: fanout_lanes_def fanout_received_def)
qed

definition two_edges :: "(nat, nat) sync_world" where
  "two_edges =
     \<lparr>sw_edges = (\<lambda>a. \<lparr>sys_sh = (with_bound (Some (1 - a)))\<lparr>producer_count := 1\<rparr>, sys_tx = [fresh_sender]\<rparr>),
      sw_took = (\<lambda>e. [])\<rparr>"

text \<open>Edge 0 has room for one message, edge 1 for none: the rotation stops at edge 1.\<close>

theorem fanout_delivers_to_every_edge_witness:
  "let f = \<lparr>f_edges = [(0, 0), (1, 0)], f_suspended = None\<rparr>;
       d = deliver_all fanout_suspended (fanout_retry (sync_sink (\<lambda>w. None)))
             (fanout_rotate (sync_sink (\<lambda>w. None))) [id] [Data 5] f two_edges
   in sw_took (snd (snd (snd d))) (0, 0) @ fanout_due (fst (snd (snd d))) 0 = [Data 5] \<and>
      sw_took (snd (snd (snd d))) (1, 0) @ fanout_due (fst (snd (snd d))) 1 = [Data 5]"
proof -
  let ?f = "\<lparr>f_edges = [(0, 0), (1, 0)], f_suspended = None\<rparr> ::
      (nat \<times> nat, (nat, nat) message) fanout"
  let ?d = "deliver_all fanout_suspended (fanout_retry (sync_sink (\<lambda>w. None)))
      (fanout_rotate (sync_sink (\<lambda>w. None))) [id] [Data 5] ?f two_edges"
  obtain w1 where w1: "sw_try_push (0, 0) (Data 5) two_edges = (Ok Pushed, w1)"
      and e1: "sw_edges w1 (Suc 0) = sw_edges two_edges 1"
    by (simp add: sw_try_push_def two_edges_def sys_try_push_def try_push_back_def is_full_def
        wake_consumer_def fresh_sender_def with_bound_def note_taken_def Let_def)
  obtain w2 where w2: "sw_try_push (Suc 0, 0) (Data 5) w1 = (Ok (Full (Data 5)), w2)"
    using e1 by (simp add: sw_try_push_def two_edges_def sys_try_push_def try_push_back_def is_full_def
        fresh_sender_def with_bound_def Let_def)
  have d: "?d = ([], None, \<lparr>f_edges = [(0, 0), (1, 0)], f_suspended =
      Some \<lparr>sp_index = 1, sp_refused = Data 5, sp_rest = None\<rparr>\<rparr>, w2)" (is "_ = (_, _, ?f', _)")
    by (simp add: fanout_suspended_def fanout_rotate_def fanout_ready_def ready_push_def
        rotate_from_def sync_sink_def w1 w2 suspend_def)
  have ok: "fanout_ok ?f" by (simp add: fanout_ok_def)
  obtain sent where "[Data 5] = sent @ []" and
      l: "\<forall>i < length (f_edges ?f). sw_took w2 (f_edges ?f' ! i) @ fanout_due ?f' i =
            (sw_took two_edges (f_edges ?f ! i) @ fanout_due ?f i) @ sent"
    using fanout_delivers_to_every_edge [OF d ok] by auto
  then have "sent = [Data 5]" by simp
  with l have "sw_took w2 (0, 0) @ fanout_due ?f' 0 = [Data 5] \<and>
      sw_took w2 (1, 0) @ fanout_due ?f' 1 = [Data 5]"
    by (simp add: all_less_two two_edges_def fanout_due_def)
  then show ?thesis unfolding Let_def d by simp
qed

end
