(* ===== verification/Follow_Policy.thy ===== *)
theory Follow_Policy
  imports Sinks
begin

text \<open>
  The signal policy of a \<open>pushes\<close> side path (\<open>FollowData\<close>, src/edge/policy.rs): a sink that lets a
  signal through only right behind data, over any inner sink that may refuse.
\<close>

section \<open>The wrapper\<close>

record 'e follow =
  fd_inner :: 'e
  fd_last :: bool

definition follow_new :: "'e \<Rightarrow> 'e follow" where
  "follow_new e = \<lparr>fd_inner = e, fd_last = False\<rparr>"

definition passes :: "('d, 's) message \<Rightarrow> 'e follow \<Rightarrow> bool \<times> 'e follow" where
  "passes m f = (is_data m \<or> fd_last f, f\<lparr>fd_last := is_data m\<rparr>)"

definition follow_push ::
  "('e, ('d, 's) message, 'w) sink_ops \<Rightarrow> ('d, 's) message \<Rightarrow> 'e follow \<Rightarrow> 'w \<Rightarrow>
   (unit res \<times> 'e follow \<times> 'w) option" where
  "follow_push ops m f w =
     (let (pass, f') = passes m f
      in if pass
         then (case op_push ops (fd_inner f') m w of
                 None \<Rightarrow> None
               | Some (Err x, w') \<Rightarrow> Some (Err x, f', w')
               | Some (Ok _, w') \<Rightarrow> Some (Ok (), f', w'))
         else Some (Ok (), f', w))"

definition follow_try_push ::
  "('e, ('d, 's) message, 'w) sink_ops \<Rightarrow> ('d, 's) message \<Rightarrow> 'e follow \<Rightarrow> 'w \<Rightarrow>
   ('d, 's) message try_push res \<times> 'e follow \<times> 'w" where
  "follow_try_push ops m f w =
     (let last_was_data = fd_last f; (pass, f') = passes m f
      in if \<not> pass then (Ok Pushed, f', w)
         else (case op_try_push ops (fd_inner f') m w of
                 (Err x, w') \<Rightarrow> (Err x, f', w')
               | (Ok t, w') \<Rightarrow>
                   (Ok t, if t \<noteq> Pushed then f'\<lparr>fd_last := last_was_data\<rparr> else f', w')))"

definition follow_close ::
  "('e, ('d, 's) message, 'w) sink_ops \<Rightarrow> 'e follow \<Rightarrow> 'w \<Rightarrow> unit res \<times> 'w" where
  "follow_close ops f w = op_close ops (fd_inner f) w"

definition follow_schedule ::
  "('e, ('d, 's) message, 'w) sink_ops \<Rightarrow> waker \<Rightarrow> 'e follow \<Rightarrow> 'w \<Rightarrow> 'w" where
  "follow_schedule ops v f w = op_schedule ops v (fd_inner f) w"

section \<open>What passes\<close>

text \<open>The reference: a message passes when it is data or comes right behind data (\<open>prev\<close>: what
  came before the first one was data).\<close>

definition followed :: "bool \<Rightarrow> ('d, 's) message list \<Rightarrow> ('d, 's) message list" where
  "followed prev ms =
     List.map snd (filter (\<lambda>(p, m). is_data m \<or> p) (zip (prev # List.map is_data ms) ms))"

lemma followed_Nil [simp]: "followed prev [] = []"
  by (simp add: followed_def)

lemma followed_Cons [simp]:
  "followed prev (m # ms) = (if is_data m \<or> prev then [m] else []) @ followed (is_data m) ms"
  by (simp add: followed_def)

lemma followed_data: "filter is_data (followed prev ms) = filter is_data ms"
  by (induction ms arbitrary: prev) auto

text \<open>In what passes, no signal comes first and no two signals are adjacent.\<close>

fun no_stray_signal :: "bool \<Rightarrow> ('d, 's) message list \<Rightarrow> bool" where
  "no_stray_signal prev [] = True"
| "no_stray_signal prev (m # ms) = ((is_data m \<or> prev) \<and> no_stray_signal (is_data m) ms)"

lemma no_stray_signal_mono: "no_stray_signal False ms \<Longrightarrow> no_stray_signal prev ms"
  by (cases ms) auto

lemma followed_no_stray: "no_stray_signal prev (followed prev ms)"
proof (induction ms arbitrary: prev)
  case Nil
  then show ?case by simp
next
  case (Cons m ms)
  show ?case
  proof (cases "is_data m \<or> prev")
    case True
    then show ?thesis using Cons.IH [of "is_data m"] by simp
  next
    case False
    then show ?thesis using Cons.IH [of False] by simp
  qed
qed

text \<open>A producer that pushes a list of messages, offering each again until it is taken.\<close>

fun follow_attempts ::
  "('e, ('d, 's) message, 'w) sink_ops \<Rightarrow> ('w \<Rightarrow> 'w) list \<Rightarrow> ('d, 's) message list \<Rightarrow> 'e follow \<Rightarrow> 'w \<Rightarrow>
   ('d, 's) message list \<times> error option \<times> 'e follow \<times> 'w" where
  "follow_attempts ops [] ms f w = (ms, None, f, w)"
| "follow_attempts ops (env # envs) [] f w = ([], None, f, w)"
| "follow_attempts ops (env # envs) (m # ms) f w =
     (case follow_try_push ops m f (env w) of
        (Err x, f', w') \<Rightarrow> (m # ms, Some x, f', w')
      | (Ok t, f', w') \<Rightarrow>
          (case refused t of
             None \<Rightarrow> follow_attempts ops envs ms f' w'
           | Some m' \<Rightarrow> follow_attempts ops envs (m' # ms) f' w'))"

text \<open>A sink of messages.\<close>

locale message_sink = sink ops took
  for ops :: "('e, ('d, 's) message, 'w) sink_ops" and took :: "'e \<Rightarrow> 'w \<Rightarrow> ('d, 's) message list"
begin

lemma follow_try_push_took:
  assumes "follow_try_push ops m f w = (Ok t, f', w')"
  shows "fd_inner f' = fd_inner f \<and>
         (refused t = None \<and> fd_last f' = is_data m \<and>
            took (fd_inner f) w' = took (fd_inner f) w @ (if is_data m \<or> fd_last f then [m] else []) \<or>
          refused t = Some m \<and> f' = f \<and> took (fd_inner f) w' = took (fd_inner f) w)"
proof (cases "is_data m \<or> fd_last f")
  case False
  with assms show ?thesis by (auto simp: follow_try_push_def passes_def)
next
  case True
  obtain r w1 where p: "op_try_push ops (fd_inner f) m w = (r, w1)"
    by (cases "op_try_push ops (fd_inner f) m w") auto
  with assms True have r: "r = Ok t" "w' = w1"
      and f': "f' = (if t \<noteq> Pushed then f\<lparr>fd_last := is_data m, fd_last := fd_last f\<rparr> else f\<lparr>fd_last := is_data m\<rparr>)"
    by (auto simp: follow_try_push_def passes_def Let_def split: result.splits)
  have eta: "f\<lparr>fd_last := fd_last f\<rparr> = f" by (cases f) simp
  show ?thesis
  proof (cases "refused t")
    case None
    then show ?thesis using True r f' try_took [OF p, of "fd_inner f"] by auto
  next
    case (Some m')
    then have "t \<noteq> Pushed" by auto
    then show ?thesis
      using Some try_hands_back p r f' eta try_took [OF p, of "fd_inner f"] by auto
  qed
qed

lemma follow_attempts_took:
  "follow_attempts ops envs ms f w = (rest, None, f', w') \<Longrightarrow>
   (\<forall>env\<in>set envs. \<forall>w. took (fd_inner f) (env w) = took (fd_inner f) w) \<Longrightarrow>
     \<exists>sent. ms = sent @ rest \<and> fd_inner f' = fd_inner f \<and>
       took (fd_inner f) w' = took (fd_inner f) w @ followed (fd_last f) sent"
proof (induction envs arbitrary: ms f w)
  case Nil
  then show ?case by auto
next
  case (Cons env envs)
  show ?case
  proof (cases ms)
    case Nil
    with Cons.prems show ?thesis by auto
  next
    case (Cons m ms')
    note ms = this
    obtain r f1 w1 where p: "follow_try_push ops m f (env w) = (r, f1, w1)"
      by (cases "follow_try_push ops m f (env w)") auto
    with Cons.prems(1) ms obtain t where r: "r = Ok t" by (cases r) auto
    note T = follow_try_push_took [OF p [unfolded r]]
    have env: "took (fd_inner f) (env w) = took (fd_inner f) w" using Cons.prems(2) by simp
    show ?thesis
    proof (cases "refused t")
      case None
      with Cons.prems(1) ms p r have d: "follow_attempts ops envs ms' f1 w1 = (rest, None, f', w')" by simp
      from None T have f1: "fd_inner f1 = fd_inner f" "fd_last f1 = is_data m"
          "took (fd_inner f) w1 = took (fd_inner f) w @ (if is_data m \<or> fd_last f then [m] else [])"
        using env by auto
      from Cons.IH [OF d] Cons.prems(2) f1 obtain sent where "ms' = sent @ rest" "fd_inner f' = fd_inner f"
          "took (fd_inner f) w' = took (fd_inner f) w1 @ followed (is_data m) sent" by auto
      with ms f1 show ?thesis by (intro exI [of _ "m # sent"]) auto
    next
      case (Some m')
      with T have f1: "m' = m" "f1 = f" "took (fd_inner f) w1 = took (fd_inner f) w" using env by auto
      with Some Cons.prems(1) ms p r have d: "follow_attempts ops envs (m # ms') f w1 = (rest, None, f', w')"
        by simp
      from Cons.IH [OF d] Cons.prems(2) f1 ms show ?thesis by auto
    qed
  qed
qed

end

interpretation sync_msink: message_sink "sync_sink env" "\<lambda>e w. sw_took w e"
  by unfold_locales

section \<open>Properties\<close>

text \<open>C27. A side path keeps all data and no stray signal, also when its edge refuses: pushing any
  messages through \<open>FollowData\<close> onto a sync edge, each offered again until it is taken, delivers
  exactly the messages that are data or come right behind data in what was sent, so a refused signal is
  judged again as it was the first time. All data arrives, in order, and what arrives never has a signal
  first or right behind a signal.\<close>

theorem follow_data_delivers:
  assumes run: "follow_attempts (sync_sink blk) envs ms (follow_new e) w = (rest, None, f', w')"
    and env: "\<forall>env\<in>set envs. \<forall>w. sw_took (env w) = sw_took w"
  shows "\<exists>sent out. ms = sent @ rest \<and> sw_took w' e = sw_took w e @ out \<and>
           out = followed False sent \<and> filter is_data out = filter is_data sent \<and>
           no_stray_signal False out"
proof -
  from sync_msink.follow_attempts_took [OF run] env obtain sent where
    "ms = sent @ rest" "sw_took w' e = sw_took w e @ followed False sent"
    by (auto simp: follow_new_def)
  with followed_data followed_no_stray show ?thesis by blast
qed

theorem follow_data_delivers_witness:
  "let w = \<lparr>sw_edges = (\<lambda>a. \<lparr>sys_sh = (with_bound (Some 5))\<lparr>producer_count := 1\<rparr>, sys_tx = [fresh_sender]\<rparr>),
            sw_took = (\<lambda>e. [])\<rparr> :: (nat, nat) sync_world;
       d = follow_attempts (sync_sink (\<lambda>w. None)) [id] [Flush 1] (follow_new (0, 0)) w
   in \<exists>sent out. [Flush 1] = sent @ fst d \<and> sw_took (snd (snd (snd d))) (0, 0) = out \<and>
        out = followed False sent"
proof -
  let ?w = "\<lparr>sw_edges = (\<lambda>a. \<lparr>sys_sh = (with_bound (Some 5))\<lparr>producer_count := 1\<rparr>, sys_tx = [fresh_sender]\<rparr>),
            sw_took = (\<lambda>e. [])\<rparr> :: (nat, nat) sync_world"
  let ?d = "follow_attempts (sync_sink (\<lambda>w. None)) [id] [Flush 1] (follow_new (0, 0)) ?w"
  have d: "?d = (fst ?d, None, fst (snd (snd ?d)), snd (snd (snd ?d)))"
    by (simp add: follow_try_push_def passes_def follow_new_def)
  from follow_data_delivers [OF d] show ?thesis by (auto simp: Let_def)
qed

end
