(* ===== verification/Signal_Io.thy ===== *)
theory Signal_Io
  imports Core
begin

text \<open>
  Reference-counted signals (src/signal/trackable.rs) and the synchronous front ends that push a
  signal into a graph and read until it has come back alone (src/node/line/io.rs,
  src/node/biunion/io.rs, src/node/bifurcation/io.rs). The graph behind the writer and the reader
  is a parameter: operations on a world \<open>'w\<close>, \<open>None\<close> where a read blocks forever. The counters the
  clones of a trackable share are an explicit store.
\<close>

section \<open>Trackables\<close>

record 'o trackable =
  t_origin :: 'o
  t_id :: nat          \<comment> \<open>which shared counter\<close>

record 'w tracked =
  tw_active :: "nat \<Rightarrow> nat"
  tw_next :: nat
  tw_world :: 'w

definition trackable_new :: "'o \<Rightarrow> 'w tracked \<Rightarrow> 'o trackable \<times> 'w tracked" where
  "trackable_new orig w =
     (\<lparr>t_origin = orig, t_id = tw_next w\<rparr>,
      w\<lparr>tw_active := (tw_active w)(tw_next w := 1), tw_next := tw_next w + 1\<rparr>)"

definition trackable_clone :: "'o trackable \<Rightarrow> 'w tracked \<Rightarrow> 'o trackable \<times> 'w tracked" where
  "trackable_clone t w = (t, w\<lparr>tw_active := (tw_active w)(t_id t := tw_active w (t_id t) + 1)\<rparr>)"

definition trackable_drop :: "'o trackable \<Rightarrow> 'w tracked \<Rightarrow> 'w tracked" where
  "trackable_drop t w = w\<lparr>tw_active := (tw_active w)(t_id t := tw_active w (t_id t) - 1)\<rparr>"

definition trackable_active :: "'o trackable \<Rightarrow> 'w tracked \<Rightarrow> nat" where
  "trackable_active t w = tw_active w (t_id t)"

text \<open>Equality is equality of origins.\<close>

definition trackable_eq :: "'o trackable \<Rightarrow> 'o trackable \<Rightarrow> bool" where
  "trackable_eq a b = (t_origin a = t_origin b)"

fun drop_signal :: "('d, 'o trackable) message \<Rightarrow> 'w tracked \<Rightarrow> 'w tracked" where
  "drop_signal (Data d) w = w"
| "drop_signal (Flush t) w = trackable_drop t w"
| "drop_signal (Marker t) w = trackable_drop t w"

section \<open>Reading until the signal is back\<close>

text \<open>What \<open>flush\<close> waits for is a \<open>Flush\<close>, what \<open>mark\<close> waits for a \<open>Marker\<close>.\<close>

fun flush_token :: "('d, 's) message \<Rightarrow> 's option" where
  "flush_token (Flush t) = Some t"
| "flush_token _ = None"

fun marker_token :: "('d, 's) message \<Rightarrow> 's option" where
  "marker_token (Marker t) = Some t"
| "marker_token _ = None"

definition is_return ::
  "(('d, 'o trackable) message \<Rightarrow> 'o trackable option) \<Rightarrow> (nat \<Rightarrow> bool) \<Rightarrow> 'o trackable \<Rightarrow>
   ('d, 'o trackable) message \<Rightarrow> 'w tracked \<Rightarrow> bool" where
  "is_return token enough t m w =
     (case token m of
        None \<Rightarrow> False
      | Some t' \<Rightarrow> trackable_eq t' t \<and> enough (trackable_active t w))"

text \<open>The loop of \<open>flush\<close> and \<open>mark\<close>: \<open>t\<close> is the trackable this side keeps, \<open>datas\<close> what was read. On
  return and on error the trackables in scope are dropped.\<close>

type_synonym ('d, 'o, 'w) read_op =
  "'w tracked \<Rightarrow> (('d, 'o trackable) message res \<times> 'w tracked) option"

partial_function (option) await_signal ::
  "('d, 'o, 'w) read_op \<Rightarrow> (('d, 'o trackable) message \<Rightarrow> 'o trackable option) \<Rightarrow> 'o trackable \<Rightarrow>
   'd list \<Rightarrow> 'w tracked \<Rightarrow> ('d list res \<times> 'w tracked) option" where
  "await_signal read token t datas w =
     (case read w of
        None \<Rightarrow> None
      | Some (Err e, w') \<Rightarrow> Some (Err e, trackable_drop t w')
      | Some (Ok m, w') \<Rightarrow>
          (if is_return token (\<lambda>n. n = 2) t m w'
           then Some (Ok datas, trackable_drop t (drop_signal m w'))
           else (case m of
                   Data d \<Rightarrow> await_signal read token t (datas @ [d]) w'
                 | _ \<Rightarrow> await_signal read token t datas (drop_signal m w'))))"

type_synonym ('d, 'o, 'w) push_op =
  "('d, 'o trackable) message \<Rightarrow> 'w tracked \<Rightarrow> (unit res \<times> 'w tracked) option"

definition line_flush ::
  "('i, 'o, 'w) push_op \<Rightarrow> ('d, 'o, 'w) read_op \<Rightarrow> 'o \<Rightarrow> 'w tracked \<Rightarrow>
   ('d list res \<times> 'w tracked) option" where
  "line_flush push read orig w =
     (let (t, w1) = trackable_new orig w; (t', w2) = trackable_clone t w1
      in case push (Flush t') w2 of
           None \<Rightarrow> None
         | Some (Err e, w3) \<Rightarrow> Some (Err e, trackable_drop t w3)
         | Some (Ok _, w3) \<Rightarrow> await_signal read flush_token t [] w3)"

definition line_mark ::
  "('i, 'o, 'w) push_op \<Rightarrow> ('d, 'o, 'w) read_op \<Rightarrow> 'o \<Rightarrow> 'w tracked \<Rightarrow>
   ('d list res \<times> 'w tracked) option" where
  "line_mark push read orig w =
     (let (t, w1) = trackable_new orig w; (t', w2) = trackable_clone t w1
      in case push (Marker t') w2 of
           None \<Rightarrow> None
         | Some (Err e, w3) \<Rightarrow> Some (Err e, trackable_drop t w3)
         | Some (Ok _, w3) \<Rightarrow> await_signal read marker_token t [] w3)"

text \<open>\<open>BiunionIo\<close>: a marker goes in on one side, the output is read until it is back.\<close>

definition biunion_mark ::
  "('d, 'o, 'w) read_op \<Rightarrow> 'o trackable \<Rightarrow> 'w tracked \<Rightarrow> ('d list res \<times> 'w tracked) option" where
  "biunion_mark read t w = await_signal read marker_token t [] w"

definition biunion_side_mark ::
  "('i, 'o, 'w) push_op \<Rightarrow> ('d, 'o, 'w) read_op \<Rightarrow> 'o \<Rightarrow> 'w tracked \<Rightarrow>
   ('d list res \<times> 'w tracked) option" where
  "biunion_side_mark push read orig w =
     (let (t, w1) = trackable_new orig w; (t', w2) = trackable_clone t w1
      in case push (Marker t') w2 of
           None \<Rightarrow> None
         | Some (Err e, w3) \<Rightarrow> Some (Err e, trackable_drop t w3)
         | Some (Ok _, w3) \<Rightarrow> biunion_mark read t w3)"

definition biunion_close ::
  "('w \<Rightarrow> unit res \<times> 'w) \<Rightarrow> ('w \<Rightarrow> unit res \<times> 'w) \<Rightarrow> 'w \<Rightarrow> unit res \<times> 'w" where
  "biunion_close left right w =
     (case left w of (Err e, w') \<Rightarrow> (Err e, w') | (Ok _, w') \<Rightarrow> right w')"

section \<open>Bifurcation: poll a side, work the node when it is empty\<close>

type_synonym ('d, 'o, 'w) poll_op =
  "'w tracked \<Rightarrow> ('d, 'o trackable) message option res \<times> 'w tracked"

type_synonym 'w work_op = "'w tracked \<Rightarrow> (unit res \<times> 'w tracked) option"

definition no_new_message :: error where
  "no_new_message = Fatal ''Work did not yield new message.''"

definition side_read ::
  "('d, 'o, 'w) poll_op \<Rightarrow> 'w work_op \<Rightarrow> 'w tracked \<Rightarrow>
   (('d, 'o trackable) message res \<times> 'w tracked) option" where
  "side_read poll work w =
     (case poll w of
        (Err e, w1) \<Rightarrow> Some (Err e, w1)
      | (Ok (Some m), w1) \<Rightarrow> Some (Ok m, w1)
      | (Ok None, w1) \<Rightarrow>
          (case work w1 of
             None \<Rightarrow> None
           | Some (Err e, w2) \<Rightarrow> Some (Err e, w2)
           | Some (Ok _, w2) \<Rightarrow>
               (case poll w2 of
                  (Err e, w3) \<Rightarrow> Some (Err e, w3)
                | (Ok (Some m), w3) \<Rightarrow> Some (Ok m, w3)
                | (Ok None, w3) \<Rightarrow> Some (Err no_new_message, w3))))"

text \<open>A marker may leave a copy waiting on the other side, so up to three are alive.\<close>

partial_function (option) side_await ::
  "('d, 'o, 'w) poll_op \<Rightarrow> 'w work_op \<Rightarrow> 'o trackable \<Rightarrow> 'd list \<Rightarrow> 'w tracked \<Rightarrow>
   ('d list res \<times> 'w tracked) option" where
  "side_await poll work t datas w =
     (case poll w of
        (Err e, w') \<Rightarrow> Some (Err e, trackable_drop t w')
      | (Ok None, w') \<Rightarrow>
          (case work w' of
             None \<Rightarrow> None
           | Some (Err e, w'') \<Rightarrow> Some (Err e, trackable_drop t w'')
           | Some (Ok _, w'') \<Rightarrow> side_await poll work t datas w'')
      | (Ok (Some m), w') \<Rightarrow>
          (if is_return marker_token (\<lambda>n. n \<le> 3) t m w'
           then Some (Ok datas, trackable_drop t (drop_signal m w'))
           else (case m of
                   Data d \<Rightarrow> side_await poll work t (datas @ [d]) w'
                 | _ \<Rightarrow> side_await poll work t datas (drop_signal m w'))))"

definition side_mark ::
  "('i, 'o, 'w) push_op \<Rightarrow> ('d, 'o, 'w) poll_op \<Rightarrow> 'w work_op \<Rightarrow> 'o \<Rightarrow> 'w tracked \<Rightarrow>
   ('d list res \<times> 'w tracked) option" where
  "side_mark push poll work orig w =
     (let (t, w1) = trackable_new orig w; (t', w2) = trackable_clone t w1
      in case push (Marker t') w2 of
           None \<Rightarrow> None
         | Some (Err e, w3) \<Rightarrow> Some (Err e, trackable_drop t w3)
         | Some (Ok _, w3) \<Rightarrow> side_await poll work t [] w3)"

section \<open>The front ends as values\<close>

text \<open>A writer and a reader are what they do to the graph. Every front end closes what it writes to when it is
  dropped, whatever that close answers, and then drops its fields in order.\<close>

record ('i, 'o, 'w) writer_ops =
  wr_push :: "('i, 'o, 'w) push_op"
  wr_close :: "'w tracked \<Rightarrow> unit res \<times> 'w tracked"
  wr_drop :: "'w tracked \<Rightarrow> 'w tracked"

record ('d, 'o, 'w) reader_ops =
  rd_read :: "('d, 'o, 'w) read_op"
  rd_poll :: "('d, 'o, 'w) poll_op"
  rd_drop :: "'w tracked \<Rightarrow> 'w tracked"

definition push_through :: "('i, 'o, 'w) push_op \<Rightarrow> ('i, 'o, 'w) push_op" where
  "push_through push m w =
     (case push m w of
        None \<Rightarrow> None
      | Some (Err e, w1) \<Rightarrow> Some (Err e, w1)
      | Some (Ok _, w1) \<Rightarrow> Some (Ok (), w1))"

record ('i, 'd, 'o, 'w) line_io =
  li_writer :: "('i, 'o, 'w) writer_ops"
  li_reader :: "('d, 'o, 'w) reader_ops"

definition line_io_read :: "('i, 'd, 'o, 'w) line_io \<Rightarrow> ('d, 'o, 'w) read_op" where
  "line_io_read io w = rd_read (li_reader io) w"

definition line_io_push :: "('i, 'd, 'o, 'w) line_io \<Rightarrow> ('i, 'o, 'w) push_op" where
  "line_io_push io m w = push_through (wr_push (li_writer io)) m w"

definition line_io_close :: "('i, 'd, 'o, 'w) line_io \<Rightarrow> 'w tracked \<Rightarrow> unit res \<times> 'w tracked" where
  "line_io_close io w = wr_close (li_writer io) w"

definition line_io_drop :: "('i, 'd, 'o, 'w) line_io \<Rightarrow> 'w tracked \<Rightarrow> 'w tracked" where
  "line_io_drop io w = rd_drop (li_reader io) (wr_drop (li_writer io) (snd (line_io_close io w)))"

record ('l, 'm, 'd, 'o, 'w) biunion_io =
  bo_left :: "('l, 'o, 'w) writer_ops"
  bo_right :: "('m, 'o, 'w) writer_ops"
  bo_output :: "('d, 'o, 'w) reader_ops"

definition biunion_io_read :: "('l, 'm, 'd, 'o, 'w) biunion_io \<Rightarrow> ('d, 'o, 'w) read_op" where
  "biunion_io_read io w = rd_read (bo_output io) w"

definition biunion_left_push :: "('l, 'm, 'd, 'o, 'w) biunion_io \<Rightarrow> ('l, 'o, 'w) push_op" where
  "biunion_left_push io m w = push_through (wr_push (bo_left io)) m w"

definition biunion_right_push :: "('l, 'm, 'd, 'o, 'w) biunion_io \<Rightarrow> ('m, 'o, 'w) push_op" where
  "biunion_right_push io m w = push_through (wr_push (bo_right io)) m w"

definition biunion_left_mark ::
  "('l, 'm, 'd, 'o, 'w) biunion_io \<Rightarrow> 'o \<Rightarrow> 'w tracked \<Rightarrow> ('d list res \<times> 'w tracked) option" where
  "biunion_left_mark io orig w = biunion_side_mark (biunion_left_push io) (biunion_io_read io) orig w"

definition biunion_right_mark ::
  "('l, 'm, 'd, 'o, 'w) biunion_io \<Rightarrow> 'o \<Rightarrow> 'w tracked \<Rightarrow> ('d list res \<times> 'w tracked) option" where
  "biunion_right_mark io orig w = biunion_side_mark (biunion_right_push io) (biunion_io_read io) orig w"

definition biunion_io_drop :: "('l, 'm, 'd, 'o, 'w) biunion_io \<Rightarrow> 'w tracked \<Rightarrow> 'w tracked" where
  "biunion_io_drop io w =
     rd_drop (bo_output io) (wr_drop (bo_right io) (wr_drop (bo_left io)
       (snd (biunion_close (wr_close (bo_left io)) (wr_close (bo_right io)) w))))"

text \<open>The node itself is the last field of \<open>BifurcationIo\<close>.\<close>

record ('i, 'l, 'm, 'o, 'w) bifurcation_io =
  fo_input :: "('i, 'o, 'w) writer_ops"
  fo_left :: "('l, 'o, 'w) reader_ops"
  fo_right :: "('m, 'o, 'w) reader_ops"
  fo_work :: "'w work_op"
  fo_drop_node :: "'w tracked \<Rightarrow> 'w tracked"

definition bifurcation_left_read ::
  "('i, 'l, 'm, 'o, 'w) bifurcation_io \<Rightarrow> ('l, 'o, 'w) read_op" where
  "bifurcation_left_read io w = side_read (rd_poll (fo_left io)) (fo_work io) w"

definition bifurcation_right_read ::
  "('i, 'l, 'm, 'o, 'w) bifurcation_io \<Rightarrow> ('m, 'o, 'w) read_op" where
  "bifurcation_right_read io w = side_read (rd_poll (fo_right io)) (fo_work io) w"

definition bifurcation_io_push :: "('i, 'l, 'm, 'o, 'w) bifurcation_io \<Rightarrow> ('i, 'o, 'w) push_op" where
  "bifurcation_io_push io m w = push_through (wr_push (fo_input io)) m w"

definition bifurcation_io_close :: "('i, 'l, 'm, 'o, 'w) bifurcation_io \<Rightarrow> 'w tracked \<Rightarrow> unit res \<times> 'w tracked" where
  "bifurcation_io_close io w = wr_close (fo_input io) w"

definition bifurcation_left_mark ::
  "('i, 'l, 'm, 'o, 'w) bifurcation_io \<Rightarrow> 'o \<Rightarrow> 'w tracked \<Rightarrow> ('l list res \<times> 'w tracked) option" where
  "bifurcation_left_mark io orig w = side_mark (wr_push (fo_input io)) (rd_poll (fo_left io)) (fo_work io) orig w"

definition bifurcation_right_mark ::
  "('i, 'l, 'm, 'o, 'w) bifurcation_io \<Rightarrow> 'o \<Rightarrow> 'w tracked \<Rightarrow> ('m list res \<times> 'w tracked) option" where
  "bifurcation_right_mark io orig w = side_mark (wr_push (fo_input io)) (rd_poll (fo_right io)) (fo_work io) orig w"

definition bifurcation_io_drop :: "('i, 'l, 'm, 'o, 'w) bifurcation_io \<Rightarrow> 'w tracked \<Rightarrow> 'w tracked" where
  "bifurcation_io_drop io w =
     fo_drop_node io (rd_drop (fo_right io) (rd_drop (fo_left io) (wr_drop (fo_input io)
       (snd (bifurcation_io_close io w)))))"

section \<open>Properties\<close>

text \<open>What the loop read, message by message, dropping the signals that were not the one.\<close>

inductive reads ::
  "('d, 'o, 'w) read_op \<Rightarrow> (('d, 'o trackable) message \<Rightarrow> 'o trackable option) \<Rightarrow> 'o trackable \<Rightarrow>
   'w tracked \<Rightarrow> ('d, 'o trackable) message list \<Rightarrow> 'w tracked \<Rightarrow> bool" for read token t where
  none: "reads read token t w [] w"
| some: "read w = Some (Ok m, w1) \<Longrightarrow> \<not> is_return token (\<lambda>n. n = 2) t m w1 \<Longrightarrow>
     reads read token t (drop_signal m w1) ms w2 \<Longrightarrow> reads read token t w (m # ms) w2"

lemma await_signal_result:
  assumes "await_signal read token t datas w = Some (r, w')"
  shows "\<exists>ms w1 m w2. reads read token t w ms w1 \<and>
           (case r of
              Ok ds \<Rightarrow> read w1 = Some (Ok m, w2) \<and> is_return token (\<lambda>n. n = 2) t m w2 \<and>
                ds = datas @ List.map_filter message_data ms \<and>
                w' = trackable_drop t (drop_signal m w2)
            | Err e \<Rightarrow> read w1 = Some (Err e, w2) \<and> w' = trackable_drop t w2)"
proof -
  have "\<forall>r w'. y = (r, w') \<longrightarrow> (\<exists>ms w1 m w2. reads read token t w ms w1 \<and>
           (case r of
              Ok ds \<Rightarrow> read w1 = Some (Ok m, w2) \<and> is_return token (\<lambda>n. n = 2) t m w2 \<and>
                ds = datas @ List.map_filter message_data ms \<and>
                w' = trackable_drop t (drop_signal m w2)
            | Err e \<Rightarrow> read w1 = Some (Err e, w2) \<and> w' = trackable_drop t w2))"
    if "await_signal read token t datas w = Some y" for y
  proof (rule await_signal.raw_induct [OF _ that], intro allI impI)
    fix f read' token' t' datas' w y r w'
    let ?P = "\<lambda>read token t datas w (r, w'). \<exists>ms w1 m w2. reads read token t w ms w1 \<and>
           (case r of
              Ok ds \<Rightarrow> read w1 = Some (Ok m, w2) \<and> is_return token (\<lambda>n. n = 2) t m w2 \<and>
                ds = datas @ List.map_filter message_data ms \<and>
                w' = trackable_drop t (drop_signal m w2)
            | Err e \<Rightarrow> read w1 = Some (Err e, w2) \<and> w' = trackable_drop t w2)"
    assume IH: "\<And>read token t datas w y. f read token t datas w = Some y \<Longrightarrow>
        \<forall>r w'. y = (r, w') \<longrightarrow> (\<exists>ms w1 m w2. reads read token t w ms w1 \<and>
           (case r of
              Ok ds \<Rightarrow> read w1 = Some (Ok m, w2) \<and> is_return token (\<lambda>n. n = 2) t m w2 \<and>
                ds = datas @ List.map_filter message_data ms \<and>
                w' = trackable_drop t (drop_signal m w2)
            | Err e \<Rightarrow> read w1 = Some (Err e, w2) \<and> w' = trackable_drop t w2))"
      and body: "(case read' w of
        None \<Rightarrow> None
      | Some (Err e, w') \<Rightarrow> Some (Err e, trackable_drop t' w')
      | Some (Ok m, w') \<Rightarrow>
          (if is_return token' (\<lambda>n. n = 2) t' m w'
           then Some (Ok datas', trackable_drop t' (drop_signal m w'))
           else (case m of
                   Data d \<Rightarrow> f read' token' t' (datas' @ [d]) w'
                 | _ \<Rightarrow> f read' token' t' datas' (drop_signal m w')))) = Some y"
      and y: "y = (r, w')"
    show "\<exists>ms w1 m w2. reads read' token' t' w ms w1 \<and>
           (case r of
              Ok ds \<Rightarrow> read' w1 = Some (Ok m, w2) \<and> is_return token' (\<lambda>n. n = 2) t' m w2 \<and>
                ds = datas' @ List.map_filter message_data ms \<and>
                w' = trackable_drop t' (drop_signal m w2)
            | Err e \<Rightarrow> read' w1 = Some (Err e, w2) \<and> w' = trackable_drop t' w2)"
    proof -
      from body obtain q w2 where rd: "read' w = Some (q, w2)"
        by (cases "read' w") auto
      show ?thesis
      proof (cases q)
        case (Err e)
        with body y rd have "r = Err e" "w' = trackable_drop t' w2" by auto
        with rd Err show ?thesis by (auto intro!: exI [of _ "[]"] reads.none)
      next
        case (Ok m)
        show ?thesis
        proof (cases "is_return token' (\<lambda>n. n = 2) t' m w2")
          case True
          with body y rd Ok have "r = result.Ok datas'" "w' = trackable_drop t' (drop_signal m w2)" by auto
          with rd Ok True show ?thesis
            by (auto intro!: exI [of _ "[]"] reads.none simp: List.map_filter_simps)
        next
          case False
          let ?ds = "datas' @ (case m of Data d \<Rightarrow> [d] | _ \<Rightarrow> [])"
          from body rd Ok False have "f read' token' t' ?ds (drop_signal m w2) = Some y"
            by (cases m) auto
          from IH [OF this] y obtain ms w1 m1 w3 where
            rs: "reads read' token' t' (drop_signal m w2) ms w1" and
            res: "case r of
              result.Ok ds \<Rightarrow> read' w1 = Some (result.Ok m1, w3) \<and> is_return token' (\<lambda>n. n = 2) t' m1 w3 \<and>
                ds = ?ds @ List.map_filter message_data ms \<and>
                w' = trackable_drop t' (drop_signal m1 w3)
            | Err e \<Rightarrow> read' w1 = Some (Err e, w3) \<and> w' = trackable_drop t' w3"
            by blast
          from reads.some [where read = read' and token = token' and t = t', OF rd [unfolded Ok] False rs]
          have "reads read' token' t' w (m # ms) w1" .
          with res show ?thesis
            by (rule_tac x = "m # ms" in exI, rule_tac x = w1 in exI, rule_tac x = m1 in exI,
                rule_tac x = w3 in exI, cases m) (auto split: result.splits)
        qed
      qed
    qed
  qed
  with assms show ?thesis by blast
qed

lemma flush_token_Some: "flush_token m = Some t \<longleftrightarrow> m = Flush t"
  by (cases m) auto

lemma marker_token_Some: "marker_token m = Some t \<longleftrightarrow> m = Marker t"
  by (cases m) auto

text \<open>The two round trips of \<open>LineIo\<close>, told by the signal \<open>sg\<close> that goes in and the token it is known by.\<close>

definition round_trip ::
  "('o trackable \<Rightarrow> ('d, 'o trackable) message) \<Rightarrow> (('d, 'o trackable) message \<Rightarrow> 'o trackable option) \<Rightarrow> bool" where
  "round_trip sg token \<longleftrightarrow> sg = Flush \<and> token = flush_token \<or> sg = Marker \<and> token = marker_token"

lemma round_trip_token: "round_trip sg token \<Longrightarrow> token m = Some t \<longleftrightarrow> m = sg t"
  by (auto simp: round_trip_def flush_token_Some marker_token_Some)

lemma round_trip_signal:
  "round_trip sg token \<Longrightarrow> \<not> is_data (sg t)" "round_trip sg token \<Longrightarrow> drop_signal (sg t) w = trackable_drop t w"
  "round_trip sg token \<Longrightarrow> sg t = sg t' \<longleftrightarrow> t = t'"
  by (auto simp: round_trip_def)

definition line_sync ::
  "(('d, 'o trackable) message \<Rightarrow> 'o trackable option) \<Rightarrow> ('o trackable \<Rightarrow> ('d, 'o trackable) message) \<Rightarrow>
   ('d, 'o, 'w) push_op \<Rightarrow> ('d, 'o, 'w) read_op \<Rightarrow> 'o \<Rightarrow> 'w tracked \<Rightarrow> ('d list res \<times> 'w tracked) option" where
  "line_sync token sg push read orig w =
     (let t = \<lparr>t_origin = orig, t_id = tw_next w\<rparr>
      in case push (sg t) (w\<lparr>tw_next := tw_next w + 1, tw_active := (tw_active w)(tw_next w := 2)\<rparr>) of
           None \<Rightarrow> None
         | Some (Err e, w3) \<Rightarrow> Some (Err e, trackable_drop t w3)
         | Some (Ok _, w3) \<Rightarrow> await_signal read token t [] w3)"

lemma line_sync_eq:
  "line_flush = line_sync flush_token Flush" "line_mark = line_sync marker_token Marker"
  by (auto simp: fun_eq_iff line_flush_def line_mark_def line_sync_def trackable_new_def trackable_clone_def Let_def
      numeral_2_eq_2)

text \<open>What a sync that returned data did: it pushed its signal, read \<open>ms\<close>, and stopped at a signal of the same origin
  while two references to its own trackable were alive.\<close>

lemma line_sync_returns:
  assumes tok: "round_trip sg token" and f: "line_sync token sg push read orig w = Some (Ok ds, w')"
    and t: "t = \<lparr>t_origin = orig, t_id = tw_next w\<rparr>"
  shows "\<exists>u w3 ms w4 t' w5.
     push (sg t) (w\<lparr>tw_next := tw_next w + 1, tw_active := (tw_active w)(tw_next w := 2)\<rparr>) = Some (Ok u, w3) \<and>
     reads read token t w3 ms w4 \<and> read w4 = Some (Ok (sg t'), w5) \<and> t_origin t' = orig \<and> tw_active w5 (t_id t) = 2 \<and>
     ds = List.map_filter message_data ms \<and> w' = trackable_drop t (trackable_drop t' w5)"
proof -
  from f obtain u w3 where
    p: "push (sg t) (w\<lparr>tw_next := tw_next w + 1, tw_active := (tw_active w)(tw_next w := 2)\<rparr>) = Some (Ok u, w3)"
    and a: "await_signal read token t [] w3 = Some (Ok ds, w')"
    by (auto simp: line_sync_def t Let_def split: option.splits result.splits)
  from await_signal_result [OF a] obtain ms w4 m w5 where
    rs: "reads read token t w3 ms w4" "read w4 = Some (Ok m, w5)"
    and ret: "is_return token (\<lambda>n. n = 2) t m w5"
    and ds: "ds = List.map_filter message_data ms" "w' = trackable_drop t (drop_signal m w5)"
    by auto
  from ret obtain t' where m: "m = sg t'" "t_origin t' = orig" "tw_active w5 (t_id t) = 2"
    by (auto simp: is_return_def trackable_eq_def trackable_active_def round_trip_token [OF tok] t split: option.splits)
  from p rs ds m show ?thesis unfolding m(1) round_trip_signal(2) [OF tok] by blast
qed

text \<open>And it returns once its signal is read with two references alive, when it stopped at none before.\<close>

lemma await_signal_reads:
  "reads read token t w ms w4 \<Longrightarrow> read w4 = Some (Ok m, w5) \<Longrightarrow> is_return token (\<lambda>n. n = 2) t m w5 \<Longrightarrow>
     await_signal read token t datas w =
       Some (Ok (datas @ List.map_filter message_data ms), trackable_drop t (drop_signal m w5))"
proof (induction arbitrary: datas rule: reads.induct)
  case (none w)
  then show ?case by (subst await_signal.simps) (simp add: List.map_filter_simps)
next
  case (some w x w1 ms w2)
  then show ?case by (subst await_signal.simps, cases x) (simp_all add: List.map_filter_simps)
qed

end
