(* ===== verification/Work_Node.thy ===== *)
theory Work_Node
  imports Fanout "HOL-Library.Multiset"
begin

text \<open>
  What the work nodes share: working the parents (src/work/work_each.rs), what a search for the next
  message finds (src/node/work.rs), waiting on several edges (src/work/multiedge.rs), and the
  reference every work node refines: a transducer from input messages to output messages.
\<close>

section \<open>Parents\<close>

text \<open>A parent is a boxed \<open>Workable\<close> (src/work/workable.rs): a handle, its node behind it in the world.
  Dropping the box drops the node, which closes the edges it pushes into.\<close>

record ('p, 'w) parent_ops =
  pa_work :: "'p \<Rightarrow> 'w \<Rightarrow> (unit res \<times> 'w) option"
  pa_drop :: "'p \<Rightarrow> 'w \<Rightarrow> 'w"

definition swap_remove :: "nat \<Rightarrow> 'a list \<Rightarrow> 'a list" where
  "swap_remove i xs = butlast (xs[i := last xs])"

lemma length_swap_remove [simp]: "length (swap_remove i xs) = length xs - 1"
  by (simp add: swap_remove_def)

function work_each_loop ::
  "('p, 'w) parent_ops \<Rightarrow> nat \<Rightarrow> 'p list \<Rightarrow> 'w \<Rightarrow> (unit res \<times> 'p list \<times> 'w) option" where
  "work_each_loop po i ws w =
     (if i < length ws
      then (case pa_work po (ws ! i) w of
              None \<Rightarrow> None
            | Some (Ok _, w') \<Rightarrow> work_each_loop po (i + 1) ws w'
            | Some (Err e, w') \<Rightarrow>
                (if is_closed e then work_each_loop po i (swap_remove i ws) (pa_drop po (ws ! i) w')
                 else Some (Err e, ws, w')))
      else Some (Ok (), ws, w))"
  by auto

termination work_each_loop
  by (relation "measure (\<lambda>(po, i, ws, w). length ws - i)") auto

declare work_each_loop.simps [simp del]

definition work_each ::
  "('p, 'w) parent_ops \<Rightarrow> 'p list \<Rightarrow> 'w \<Rightarrow> (unit res \<times> 'p list \<times> 'w) option" where
  "work_each po ws w =
     (case work_each_loop po 0 ws w of
        None \<Rightarrow> None
      | Some (Err e, ws', w') \<Rightarrow> Some (Err e, ws', w')
      | Some (Ok _, ws', w') \<Rightarrow> Some (Ok (), if 1 < length ws' then rotate1 ws' else ws', w'))"

subsection \<open>Every parent once, the closed ones dropped\<close>

text \<open>A round: the parents worked, in order, each with whether it reported \<open>Closed\<close>.\<close>

inductive worked :: "('p, 'w) parent_ops \<Rightarrow> 'w \<Rightarrow> ('p \<times> bool) list \<Rightarrow> 'w \<Rightarrow> bool" for po where
  nobody: "worked po w [] w"
| stays: "pa_work po p w = Some (Ok u, w1) \<Longrightarrow> worked po w1 ps w' \<Longrightarrow> worked po w ((p, False) # ps) w'"
| drops: "pa_work po p w = Some (Err Closed, w1) \<Longrightarrow> worked po (pa_drop po p w1) ps w' \<Longrightarrow>
     worked po w ((p, True) # ps) w'"

lemma swap_remove_append:
  "swap_remove i (ys @ [l]) = (if i < length ys then ys[i := l] else ys)"
  by (auto simp: swap_remove_def list_update_append butlast_append split: nat.splits)

lemma mset_swap_remove:
  assumes "i < length xs"
  shows "add_mset (xs ! i) (mset (swap_remove i xs)) = mset xs"
proof -
  from assms obtain ys l where xs: "xs = ys @ [l]" by (cases xs rule: rev_exhaust) auto
  show ?thesis
  proof (cases "i < length ys")
    case True
    then have "ys ! i \<in># mset ys" by simp
    with True xs show ?thesis by (simp add: swap_remove_append nth_append mset_update)
  next
    case False
    with assms xs have "i = length ys" by simp
    with xs show ?thesis by (simp add: swap_remove_append)
  qed
qed

lemma take_swap_remove: "i < length xs \<Longrightarrow> take i (swap_remove i xs) = take i xs"
  by (cases xs rule: rev_exhaust) (auto simp: swap_remove_append)

text \<open>The loop has worked \<open>take i ws\<close> already; it works each of the others once.\<close>

lemma work_each_loop_worked:
  "work_each_loop po i ws w = Some (Ok u, ws', w') \<Longrightarrow> i \<le> length ws \<Longrightarrow>
     \<exists>ps. worked po w ps w' \<and> mset (map fst ps) = mset (drop i ws) \<and>
       take i ws' = take i ws \<and>
       mset (drop i ws') = mset (map fst (filter (\<lambda>p. \<not> snd p) ps)) \<and> i \<le> length ws' \<and>
       (i < length ws' \<longrightarrow> (\<exists>ps1 ps2. ps = ps1 @ (ws' ! i, False) # ps2 \<and> (\<forall>p\<in>set ps1. snd p)))"
proof (induction po i ws w rule: work_each_loop.induct)
  case (1 po i ws w)
  show ?case
  proof (cases "i < length ws")
    case False
    with 1 show ?thesis
      by (intro exI [of _ "[]"]) (auto simp: work_each_loop.simps [of po i ws w] intro: worked.nobody)
  next
    case True
    from 1(3) True obtain r w1 where p: "pa_work po (ws ! i) w = Some (r, w1)"
      by (subst (asm) work_each_loop.simps) (auto split: option.splits)
    show ?thesis
    proof (cases r)
      case (Ok v)
      from 1(3) True p Ok have l: "work_each_loop po (i + 1) ws w1 = Some (result.Ok u, ws', w')"
        by (subst (asm) work_each_loop.simps) simp
      from 1(1) [OF True p _ Ok l] True obtain ps where
        ps: "worked po w1 ps w'" "mset (map fst ps) = mset (drop (i + 1) ws)"
          "take (i + 1) ws' = take (i + 1) ws"
          "mset (drop (i + 1) ws') = mset (map fst (filter (\<lambda>p. \<not> snd p) ps))" "i + 1 \<le> length ws'"
        by auto
      have nth: "ws' ! i = ws ! i" using ps(3,5) True by (metis less_add_one nth_take)
      have "drop i ws' = ws ! i # drop (i + 1) ws'" using nth ps(5) by (metis Cons_nth_drop_Suc Suc_eq_plus1 Suc_le_eq)
      moreover have "drop i ws = ws ! i # drop (i + 1) ws" using True by (metis Cons_nth_drop_Suc Suc_eq_plus1)
      moreover have "take i ws' = take i ws" using ps(3) by (metis le_add1 min.absorb1 take_take)
      moreover have "\<exists>ps1. (\<exists>ps2. (ws ! i, False) # ps = ps1 @ (ws ! i, False) # ps2) \<and> (\<forall>x\<in>set ps1. snd x)"
        by (intro exI [of _ "[]"]) simp
      ultimately show ?thesis using ps nth worked.stays [OF p [unfolded Ok] ps(1)]
        by (intro exI [of _ "(ws ! i, False) # ps"]) auto
    next
      case (Err e)
      from 1(3) True p Err have e: "e = Closed"
        by (subst (asm) work_each_loop.simps) (auto split: if_splits)
      from 1(3) True p Err e
      have l: "work_each_loop po i (swap_remove i ws) (pa_drop po (ws ! i) w1) = Some (result.Ok u, ws', w')"
        by (subst (asm) work_each_loop.simps) simp
      have "i \<le> length (swap_remove i ws)" using True by simp
      from 1(2) [OF True p _ Err _ l this] e obtain ps where
        ps: "worked po (pa_drop po (ws ! i) w1) ps w'"
          "mset (map fst ps) = mset (drop i (swap_remove i ws))"
          "take i ws' = take i (swap_remove i ws)"
          "mset (drop i ws') = mset (map fst (filter (\<lambda>p. \<not> snd p) ps))" "i \<le> length ws'"
          "i < length ws' \<longrightarrow> (\<exists>ps1 ps2. ps = ps1 @ (ws' ! i, False) # ps2 \<and> (\<forall>p\<in>set ps1. snd p))"
        by auto
      have "mset (drop i ws) = add_mset (ws ! i) (mset (drop i (swap_remove i ws)))"
      proof -
        have "mset (take i ws) + mset (drop i ws) = mset ws" by (metis append_take_drop_id mset_append)
        also have "\<dots> = add_mset (ws ! i) (mset (take i ws) + mset (drop i (swap_remove i ws)))"
          using mset_swap_remove [OF True] take_swap_remove [OF True]
          by (metis append_take_drop_id mset_append)
        finally show ?thesis by simp
      qed
      with ps e worked.drops [OF p [unfolded Err e] ps(1)] True take_swap_remove [OF True] show ?thesis
        by (intro exI [of _ "(ws ! i, True) # ps"]) (auto, metis append_Cons insert_iff list.set(2) snd_conv)
    qed
  qed
qed

text \<open>C29. A work node's round over its parents is fair: when \<open>work_each\<close> succeeds, every parent was
  worked exactly once (also the one a removal moved forward), exactly those that reported \<open>Closed\<close> were
  dropped, and when at least two are left, the surviving one worked first is last in the next
  round.\<close>

theorem work_each_fair:
  assumes w: "work_each po ws w = Some (Ok u, ws', w')"
  shows "\<exists>ps. worked po w ps w' \<and> mset (map fst ps) = mset ws \<and>
           mset ws' = mset (map fst (filter (\<lambda>p. \<not> snd p) ps)) \<and>
           (1 < length ws' \<longrightarrow>
              (\<exists>ps1 ps2. ps = ps1 @ (last ws', False) # ps2 \<and> (\<forall>p\<in>set ps1. snd p)))"
proof -
  from w obtain v ws1 where l: "work_each_loop po 0 ws w = Some (Ok v, ws1, w')"
    and ws': "ws' = (if 1 < length ws1 then rotate1 ws1 else ws1)"
    by (auto simp: work_each_def split: option.splits result.splits)
  have "last (rotate1 ws1) = ws1 ! 0" if "1 < length ws1" using that by (cases ws1) auto
  moreover have "mset (rotate1 ws1) = mset ws1" by (cases ws1) simp_all
  then have "mset ws' = mset ws1" "length ws' = length ws1" by (simp_all add: ws')
  ultimately show ?thesis using work_each_loop_worked [OF l] ws' by auto
qed

theorem work_each_fair_witness:
  "\<exists>ps. worked \<lparr>pa_work = (\<lambda>p w. Some (if p = 2 then Err Closed else Ok (), w @ [p])), pa_drop = (\<lambda>p w. w)\<rparr>
        [] ps [1, 2, 3 :: nat] \<and> mset (map fst ps) = mset [1, 2, 3 :: nat]"
proof -
  let ?po = "\<lparr>pa_work = (\<lambda>p w. Some (if p = 2 then Err Closed else Ok (), w @ [p])), pa_drop = (\<lambda>p w. w)\<rparr> ::
      (nat, nat list) parent_ops"
  have "work_each ?po [1, 2, 3] [] = Some (Ok (), [3, 1], [1, 2, 3])"
    by (simp add: work_each_def work_each_loop.simps swap_remove_def)
  from work_each_fair [OF this] show ?thesis by blast
qed

section \<open>Waiting on several edges\<close>

text \<open>\<open>wait_any\<close>: each edge's state is read under its own lock; \<open>park\<close> returns when the parker's
  token was set by any sender.\<close>

fun scan_states :: "('w \<Rightarrow> edge_state res \<times> 'w) list \<Rightarrow> bool \<Rightarrow> 'w \<Rightarrow> (bool + bool) res \<times> 'w" where
  "scan_states [] idle w = (Ok (Inl idle), w)"
| "scan_states (state # edges) idle w =
     (case state w of
        (Err e, w') \<Rightarrow> (Err e, w')
      | (Ok Ready, w') \<Rightarrow> (Ok (Inr True), w')
      | (Ok Idle, w') \<Rightarrow> scan_states edges True w'
      | (Ok Exhausted, w') \<Rightarrow> scan_states edges idle w')"

definition wait_any_body ::
  "('w \<Rightarrow> 'w option) \<Rightarrow> ('w \<Rightarrow> edge_state res \<times> 'w) list \<Rightarrow> 'w \<Rightarrow> ('w + (unit res \<times> 'w)) option" where
  "wait_any_body park edges w =
     (case scan_states edges False w of
        (Err e, w') \<Rightarrow> Some (Inr (Err e, w'))
      | (Ok (Inr _), w') \<Rightarrow> Some (Inr (Ok (), w'))
      | (Ok (Inl idle), w') \<Rightarrow>
          (if \<not> idle then Some (Inr (Err Closed, w'))
           else map_option Inl (park w')))"

definition wait_any ::
  "('w \<Rightarrow> 'w option) \<Rightarrow> ('w \<Rightarrow> edge_state res \<times> 'w) list \<Rightarrow> 'w \<Rightarrow> (unit res \<times> 'w) option" where
  "wait_any park edges w = loop (wait_any_body park edges) w"

section \<open>The reference: a transducer\<close>

datatype 'm incoming = IMessage 'm | IClosed

fun found :: "'m incoming \<Rightarrow> 'm list" where
  "found (IMessage m) = [m]"
| "found IClosed = []"

text \<open>\<open>transduces next accept r p ms os r' p'\<close>: the routine, from state \<open>r\<close> with the pending signal
  \<open>p\<close>, takes the inputs \<open>ms\<close> and sends \<open>os\<close>. The routine's own outputs go first; a pending signal goes
  out only when the routine has no more; input is taken only when neither is left.\<close>

inductive transduces ::
  "('r \<Rightarrow> 'o option res \<times> 'r) \<Rightarrow> ('i \<Rightarrow> 'r \<Rightarrow> ('o, 's) message option res \<times> 'r) \<Rightarrow>
   'r \<Rightarrow> ('o, 's) message option \<Rightarrow> 'i list \<Rightarrow> ('o, 's) message list \<Rightarrow> 'r \<Rightarrow> ('o, 's) message option \<Rightarrow> bool"
  for nxt accept where
  rest: "transduces nxt accept r p [] [] r p"
| outp: "nxt r = (Ok (Some y), r1) \<Longrightarrow> transduces nxt accept r1 p ms os r' p' \<Longrightarrow>
     transduces nxt accept r p ms (Data y # os) r' p'"
| signal: "nxt r = (Ok None, r1) \<Longrightarrow> transduces nxt accept r1 None ms os r' p' \<Longrightarrow>
     transduces nxt accept r (Some s) ms (s # os) r' p'"
| inp: "nxt r = (Ok None, r1) \<Longrightarrow> accept m r1 = (Ok p1, r2) \<Longrightarrow>
     transduces nxt accept r2 p1 ms os r' p' \<Longrightarrow> transduces nxt accept r None (m # ms) os r' p'"
| idle: "nxt r = (Ok None, r1) \<Longrightarrow> transduces nxt accept r1 None ms os r' p' \<Longrightarrow>
     transduces nxt accept r None ms os r' p'"

lemma transduces_append:
  "transduces nxt accept r p ms os r1 p1 \<Longrightarrow> transduces nxt accept r1 p1 ms2 os2 r2 p2 \<Longrightarrow>
     transduces nxt accept r p (ms @ ms2) (os @ os2) r2 p2"
  by (induction rule: transduces.induct) (auto intro: transduces.intros)

lemma transduces_out1: "nxt r = (Ok (Some y), r1) \<Longrightarrow> transduces nxt accept r p [] [Data y] r1 p"
  by (rule transduces.outp) (auto intro: transduces.rest)

lemma transduces_signal1: "nxt r = (Ok None, r1) \<Longrightarrow> transduces nxt accept r (Some s) [] [s] r1 None"
  by (rule transduces.signal) (auto intro: transduces.rest)

lemma transduces_idle1: "nxt r = (Ok None, r1) \<Longrightarrow> transduces nxt accept r None [] [] r1 None"
  by (rule transduces.idle) (auto intro: transduces.rest)

lemma transduces_inp1:
  "nxt r = (Ok None, r1) \<Longrightarrow> accept m r1 = (Ok p1, r2) \<Longrightarrow> transduces nxt accept r None [m] [] r2 p1"
  by (rule transduces.inp) (auto intro: transduces.rest)

text \<open>The signals of the input come out once each and in order, whatever the routine does, when
  \<open>accept\<close> owes exactly the signal it was given.\<close>

lemma transduces_signals:
  assumes t: "transduces nxt accept r p ms os r' p'"
    and acc: "\<And>m r q r1. accept m r = (Ok q, r1) \<Longrightarrow> q = sig m"
    and sig: "\<And>m s. sig m = Some s \<Longrightarrow> \<not> is_data s" and p: "\<And>s. p = Some s \<Longrightarrow> \<not> is_data s"
  shows "signals os @ (case p' of None \<Rightarrow> [] | Some s \<Rightarrow> [s]) =
         (case p of None \<Rightarrow> [] | Some s \<Rightarrow> [s]) @ List.map_filter sig ms"
  using t p
proof (induction rule: transduces.induct)
  case (inp r r1 m p1 r2 ms os r' p')
  then have "p1 = sig m" using acc by blast
  with inp sig show ?case by (auto simp: signals_def split: option.splits)
qed (auto simp: signals_def split: option.splits)

section \<open>The world of a work node\<close>

text \<open>What every work node relies on: its sinks, a record \<open>recv\<close> of what it consumed, and parents that
  neither push through the node's own handles nor pop its inputs.\<close>

locale node_frame = sink so took
  for so :: "('e, ('o, 's) message, 'w) sink_ops" and took :: "'e \<Rightarrow> 'w \<Rightarrow> ('o, 's) message list" +
  fixes po :: "('p, 'w) parent_ops" and recv :: "'w \<Rightarrow> 'x list"
  assumes work_frame: "pa_work po p w = Some (u, w') \<Longrightarrow> recv w' = recv w \<and> took e w' = took e w"
    and drop_frame: "recv (pa_drop po p w) = recv w \<and> took e (pa_drop po p w) = took e w"
    and try_recv: "op_try_push so e m' w = (v, w') \<Longrightarrow> recv w' = recv w"
    and push_recv: "op_push so e m' w = Some (u, w') \<Longrightarrow> recv w' = recv w"
begin

lemma work_each_loop_frame:
  "work_each_loop po i ws w = Some (q, ws', w') \<Longrightarrow> recv w' = recv w \<and> took e w' = took e w"
proof (induction "length ws - i" arbitrary: i ws w rule: less_induct)
  case less
  show ?case
  proof (cases "i < length ws")
    case False
    with less.prems show ?thesis by (simp add: work_each_loop.simps [of po i ws w])
  next
    case True
    with less.prems obtain r w1 where p: "pa_work po (ws ! i) w = Some (r, w1)"
      by (subst (asm) work_each_loop.simps) (auto split: option.splits)
    note F = work_frame [OF p, of e] drop_frame [of "ws ! i" w1 e]
    show ?thesis
    proof (cases r)
      case (Ok u)
      with less.prems True p have "work_each_loop po (i + 1) ws w1 = Some (q, ws', w')"
        by (subst (asm) work_each_loop.simps) simp
      with less.hyps [of ws "i + 1" w1] True F show ?thesis by simp
    next
      case (Err x)
      show ?thesis
      proof (cases "is_closed x")
        case c: True
        with less.prems True p Err
        have "work_each_loop po i (swap_remove i ws) (pa_drop po (ws ! i) w1) = Some (q, ws', w')"
          by (subst (asm) work_each_loop.simps) simp
        with less.hyps [of "swap_remove i ws" i "pa_drop po (ws ! i) w1"] True F show ?thesis by simp
      next
        case False
        with less.prems True p Err have "w' = w1"
          by (subst (asm) work_each_loop.simps) simp
        with F show ?thesis by simp
      qed
    qed
  qed
qed

lemma work_each_frame:
  "work_each po ws w = Some (q, ws', w') \<Longrightarrow> recv w' = recv w \<and> took e w' = took e w"
  using work_each_loop_frame [of 0 ws w]
  by (auto simp: work_each_def split: option.splits result.splits)

lemma fanout_resume_recv: "fanout_resume so f w = Some (q, f', w') \<Longrightarrow> recv w' = recv w"
  by (rule fanout_resume_view [of so recv]) (auto dest: try_recv push_recv)

lemma ready_push_recv: "ready_push so m f w = (q, f', w') \<Longrightarrow> recv w' = recv w"
  unfolding ready_push_def rotate_from_def by (rule rotate_edges_view [of so recv]) (auto dest: try_recv)

lemma work_each_frames:
  "work_each po ws w = Some (q, ws', w') \<Longrightarrow> recv w' = recv w \<and> (\<forall>e. took e w' = took e w)"
  using work_each_frame by blast

text \<open>A search loop whose turns consume input and whose exit finds at most one message.\<close>

lemma loop_transduces:
  fixes body :: "'st \<Rightarrow> ('st + (('y, 'z) message incoming res \<times> 'st)) option"
  assumes l: "loop body s = Some (Ok q, s')"
    and step: "\<And>s s'. body s = Some (Inl s') \<Longrightarrow>
        \<exists>ms. recv (wo s') = recv (wo s) @ ms \<and> (\<forall>e. took e (wo s') = took e (wo s)) \<and>
          transduces nxt accept (rt s) (pd s) ms [] (rt s') (pd s')"
    and exit: "\<And>s s' q. body s = Some (Inr (Ok q, s')) \<Longrightarrow>
        recv (wo s') = recv (wo s) \<and> (\<forall>e. took e (wo s') = took e (wo s)) \<and>
          transduces nxt accept (rt s) (pd s) [] (found q) (rt s') (pd s')"
  shows "\<exists>ms. recv (wo s') = recv (wo s) @ ms \<and> (\<forall>e. took e (wo s') = took e (wo s)) \<and>
          transduces nxt accept (rt s) (pd s) ms (found q) (rt s') (pd s')"
proof -
  let ?P = "\<lambda>t. \<exists>ms. recv (wo t) = recv (wo s) @ ms \<and> (\<forall>e. took e (wo t) = took e (wo s)) \<and>
          transduces nxt accept (rt s) (pd s) ms [] (rt t) (pd t)"
  let ?Q = "\<lambda>b :: ('y, 'z) message incoming res \<times> 'st. \<forall>q t. b = (Ok q, t) \<longrightarrow>
        (\<exists>ms. recv (wo t) = recv (wo s) @ ms \<and> (\<forall>e. took e (wo t) = took e (wo s)) \<and>
          transduces nxt accept (rt s) (pd s) ms (found q) (rt t) (pd t))"
  have "?Q (Ok q, s')"
  proof (rule loop_invariant [where P = ?P and Q = ?Q, OF l])
    show "?P s" by (auto intro: transduces.rest)
  next
    fix t t' assume "?P t" and b: "body t = Some (Inl t')"
    then obtain ms1 where 1: "recv (wo t) = recv (wo s) @ ms1" "\<forall>e. took e (wo t) = took e (wo s)"
      "transduces nxt accept (rt s) (pd s) ms1 [] (rt t) (pd t)" by blast
    from step [OF b] obtain ms2 where 2: "recv (wo t') = recv (wo t) @ ms2" "\<forall>e. took e (wo t') = took e (wo t)"
      "transduces nxt accept (rt t) (pd t) ms2 [] (rt t') (pd t')" by blast
    from transduces_append [OF 1(3) 2(3)] 1 2 show "?P t'" by auto
  next
    fix t b assume "?P t" and b: "body t = Some (Inr b)"
    then obtain ms1 where 1: "recv (wo t) = recv (wo s) @ ms1" "\<forall>e. took e (wo t) = took e (wo s)"
      "transduces nxt accept (rt s) (pd s) ms1 [] (rt t) (pd t)" by blast
    show "?Q b"
    proof (intro allI impI)
      fix q t' assume "b = (Ok q, t')"
      with b have e: "body t = Some (Inr (Ok q, t'))" by simp
      from exit [OF e] transduces_append [OF 1(3)] 1
      show "\<exists>ms. recv (wo t') = recv (wo s) @ ms \<and> (\<forall>e. took e (wo t') = took e (wo s)) \<and>
          transduces nxt accept (rt s) (pd s) ms (found q) (rt t') (pd t')"
        by (intro exI [of _ ms1]) force
    qed
  qed
  then show ?thesis by blast
qed

text \<open>The two kinds of rounds: finishing a held message, and pushing a new one.\<close>

lemma resume_round:
  assumes ok: "fanout_ok f" and r: "fanout_resume so f w = Some (Ok rot, f', w')"
  shows "fanout_ok f' \<and> f_edges f' = f_edges f \<and> recv w' = recv w \<and>
         (\<forall>i < length (f_edges f).
            took (f_edges f ! i) w' @ fanout_due f' i = took (f_edges f ! i) w @ fanout_due f i)"
  using fanout_resume_lanes [OF ok r] fanout_resume_recv [OF r] by blast

lemma push_round:
  assumes ok: "fanout_ok f" and ready: "fanout_ready f"
    and pu: "ready_push so m f w1 = (Ok rot, f', w')" and same: "\<forall>e. took e w1 = took e w"
  shows "fanout_ok f' \<and> f_edges f' = f_edges f \<and> recv w' = recv w1 \<and>
         (\<forall>i < length (f_edges f).
            took (f_edges f ! i) w' @ fanout_due f' i =
            took (f_edges f ! i) w @ fanout_due f i @ [m])"
proof -
  have none: "fanout_suspended f = None" using ready by (simp add: fanout_ready_def fanout_suspended_def)
  from pu ready have "fanout_rotate so m f w1 = (Ok rot, f', w')" by (simp add: fanout_rotate_def)
  from fanout_rotate_lanes [OF ok none this] ready_push_recv [OF pu] same none show ?thesis
    by (auto simp: fanout_lanes_def fanout_received_def fanout_due_def fanout_suspended_def)
qed

end

end
