(* ===== verification/Line_Work.thy ===== *)
theory Line_Work
  imports Work_Node
begin

text \<open>
  The work line node (src/node/line/work/node.rs, src/node/line/work/builder.rs): one input edge, a
  routine (src/node/line/routine.rs), parents it schedules, and a fan-out of output edges. Each
  \<open>work\<close> delivers at most one message. The theory shows that a line is a transducer: what its edges
  take is what the routine makes of what the line consumed, whatever the edges refuse, the parents
  do and the waits interleave.
\<close>

section \<open>The node\<close>

text \<open>A routine of user code: \<open>Send\<close>, \<open>Next\<close>, \<open>Flush\<close> (src/node/routine.rs).\<close>

record ('i, 'o, 'r) routine_ops =
  r_next :: "'r \<Rightarrow> 'o option res \<times> 'r"
  r_send :: "'i \<Rightarrow> 'r \<Rightarrow> unit res \<times> 'r"
  r_flush :: "'r \<Rightarrow> unit res \<times> 'r"

text \<open>The receiving end of the input edge: \<open>poll\<close> and the blocking \<open>wait_front\<close>.\<close>

record ('i, 's, 'w) input_ops =
  inp_poll :: "'w \<Rightarrow> ('i, 's) message option res \<times> 'w"
  inp_wait :: "'w \<Rightarrow> (unit res \<times> 'w) option"

record ('o, 's, 'r, 'p, 'e) line =
  ln_worker :: 'r
  ln_workers :: "'p list"
  ln_outputs :: "('e, ('o, 's) message) fanout"
  ln_pending :: "('o, 's) message option"

definition line_build :: "'r \<Rightarrow> ('o, 's, 'r, 'p, 'e) line" where
  "line_build worker =
     \<lparr>ln_worker = worker, ln_workers = [], ln_outputs = fanout_new, ln_pending = None\<rparr>"

text \<open>The builder's bound makes the input edge.\<close>

definition line_input :: "bound \<Rightarrow> ('i, 's) shared" where
  "line_input b = (case b of Some n \<Rightarrow> bounded_receiver n | None \<Rightarrow> new_receiver)"

definition line_add_worker :: "'p \<Rightarrow> ('o, 's, 'r, 'p, 'e) line \<Rightarrow> ('o, 's, 'r, 'p, 'e) line" where
  "line_add_worker p ln = ln\<lparr>ln_workers := ln_workers ln @ [p]\<rparr>"

definition line_add_sink :: "'e \<Rightarrow> ('o, 's, 'r, 'p, 'e) line \<Rightarrow> ('o, 's, 'r, 'p, 'e) line" where
  "line_add_sink e ln = ln\<lparr>ln_outputs := fanout_add e (ln_outputs ln)\<rparr>"

text \<open>Taking one input message: data goes to the routine, a signal is owed.\<close>

fun line_accept ::
  "('i, 'o, 'r) routine_ops \<Rightarrow> ('i, 's) message \<Rightarrow> 'r \<Rightarrow> ('o, 's) message option res \<times> 'r" where
  "line_accept ro (Data d) r =
     (case r_send ro d r of (Err e, r') \<Rightarrow> (Err e, r') | (Ok _, r') \<Rightarrow> (Ok None, r'))"
| "line_accept ro (Flush s) r =
     (case r_flush ro r of (Err e, r') \<Rightarrow> (Err e, r') | (Ok _, r') \<Rightarrow> (Ok (Some (Flush s)), r'))"
| "line_accept ro (Marker s) r = (Ok (Some (Marker s)), r)"

text \<open>The state \<open>next_message\<close> works on: worker, workers, pending, world.\<close>

type_synonym ('o, 's, 'r, 'p, 'w) line_loop = "'r \<times> 'p list \<times> ('o, 's) message option \<times> 'w"

definition next_message_body ::
  "('i, 'o, 'r) routine_ops \<Rightarrow> ('i, 's, 'w) input_ops \<Rightarrow> ('p, 'w) parent_ops \<Rightarrow>
   ('o, 's, 'r, 'p, 'w) line_loop \<Rightarrow>
   (('o, 's, 'r, 'p, 'w) line_loop +
    (('o, 's) message incoming res \<times> ('o, 's, 'r, 'p, 'w) line_loop)) option" where
  "next_message_body ro io po st =
     (let (r, ws, pend, w) = st in
      case r_next ro r of
        (Err e, r1) \<Rightarrow> Some (Inr (Err e, (r1, ws, pend, w)))
      | (Ok (Some y), r1) \<Rightarrow> Some (Inr (Ok (IMessage (Data y)), (r1, ws, pend, w)))
      | (Ok None, r1) \<Rightarrow>
          (case pend of
             Some s \<Rightarrow> Some (Inr (Ok (IMessage s), (r1, ws, None, w)))
           | None \<Rightarrow>
               (case inp_poll io w of
                  (Ok (Some m), w1) \<Rightarrow>
                    (case line_accept ro m r1 of
                       (Err e, r2) \<Rightarrow> Some (Inr (Err e, (r2, ws, None, w1)))
                     | (Ok p, r2) \<Rightarrow> Some (Inl (r2, ws, p, w1)))
                | (Ok None, w1) \<Rightarrow>
                    (case (if ws = [] then inp_wait io w1 else Some (Ok (), w1)) of
                       None \<Rightarrow> None
                     | Some (Err e, w2) \<Rightarrow>
                         Some (Inr (if is_closed e then Ok IClosed else Err e, (r1, ws, None, w2)))
                     | Some (Ok _, w2) \<Rightarrow>
                         (case work_each po ws w2 of
                            None \<Rightarrow> None
                          | Some (Err e, ws', w3) \<Rightarrow> Some (Inr (Err e, (r1, ws', None, w3)))
                          | Some (Ok _, ws', w3) \<Rightarrow> Some (Inl (r1, ws', None, w3))))
                | (Err e, w1) \<Rightarrow>
                    Some (Inr (if is_closed e then Ok IClosed else Err e, (r1, ws, None, w1))))))"

definition next_message ::
  "('i, 'o, 'r) routine_ops \<Rightarrow> ('i, 's, 'w) input_ops \<Rightarrow> ('p, 'w) parent_ops \<Rightarrow>
   ('o, 's, 'r, 'p, 'w) line_loop \<Rightarrow>
   (('o, 's) message incoming res \<times> ('o, 's, 'r, 'p, 'w) line_loop) option" where
  "next_message ro io po st = loop (next_message_body ro io po) st"

definition line_work ::
  "('e, ('o, 's) message, 'w) sink_ops \<Rightarrow> ('i, 'o, 'r) routine_ops \<Rightarrow> ('i, 's, 'w) input_ops \<Rightarrow>
   ('p, 'w) parent_ops \<Rightarrow> ('o, 's, 'r, 'p, 'e) line \<Rightarrow> 'w \<Rightarrow>
   (unit res \<times> ('o, 's, 'r, 'p, 'e) line \<times> 'w) option" where
  "line_work so ro io po ln w =
     (if \<not> fanout_ready (ln_outputs ln)
      then (case fanout_resume so (ln_outputs ln) w of
              None \<Rightarrow> None
            | Some (Err e, f, w') \<Rightarrow> Some (Err e, ln\<lparr>ln_outputs := f\<rparr>, w')
            | Some (Ok _, f, w') \<Rightarrow> Some (Ok (), ln\<lparr>ln_outputs := f\<rparr>, w'))
      else (case next_message ro io po (ln_worker ln, ln_workers ln, ln_pending ln, w) of
              None \<Rightarrow> None
            | Some (q, r, ws, p, w1) \<Rightarrow>
                (let ln1 = ln\<lparr>ln_worker := r, ln_workers := ws, ln_pending := p\<rparr>
                 in case q of
                      Err e \<Rightarrow> Some (Err e, ln1, w1)
                    | Ok (IMessage m) \<Rightarrow>
                        (case ready_push so m (ln_outputs ln1) w1 of
                           (Err e, f, w2) \<Rightarrow> Some (Err e, ln1\<lparr>ln_outputs := f\<rparr>, w2)
                         | (Ok _, f, w2) \<Rightarrow> Some (Ok (), ln1\<lparr>ln_outputs := f\<rparr>, w2))
                    | Ok IClosed \<Rightarrow>
                        (let (_, f, w2) = fanout_close so (ln_outputs ln1) w1
                         in Some (Err Closed, ln1\<lparr>ln_outputs := f\<rparr>, w2)))))"

text \<open>A parent's caller works it again and again: \<open>n\<close> rounds, stopping at an error.\<close>

fun line_rounds ::
  "('e, ('o, 's) message, 'w) sink_ops \<Rightarrow> ('i, 'o, 'r) routine_ops \<Rightarrow> ('i, 's, 'w) input_ops \<Rightarrow>
   ('p, 'w) parent_ops \<Rightarrow> nat \<Rightarrow> ('o, 's, 'r, 'p, 'e) line \<Rightarrow> 'w \<Rightarrow>
   (unit res \<times> ('o, 's, 'r, 'p, 'e) line \<times> 'w) option" where
  "line_rounds so ro io po 0 ln w = Some (Ok (), ln, w)"
| "line_rounds so ro io po (Suc n) ln w =
     (case line_work so ro io po ln w of
        Some (Ok _, ln', w') \<Rightarrow> line_rounds so ro io po n ln' w'
      | q \<Rightarrow> q)"

section \<open>The world of a node\<close>

text \<open>What a node relies on: its sinks (\<open>sink\<close>), an input that records what it handed over (\<open>recv\<close>),
  and parents and waits that neither push through the node's own handles nor pop its input.\<close>

locale node_world = node_frame so took po recv
  for so :: "('e, ('o, 's) message, 'w) sink_ops" and took :: "'e \<Rightarrow> 'w \<Rightarrow> ('o, 's) message list"
    and po :: "('p, 'w) parent_ops" and recv :: "'w \<Rightarrow> ('i, 's) message list" +
  fixes io :: "('i, 's, 'w) input_ops"
  assumes poll_some: "inp_poll io w = (Ok (Some m), w') \<Longrightarrow> recv w' = recv w @ [m]"
    and poll_other: "inp_poll io w = (q, w') \<Longrightarrow> (\<nexists>m. q = Ok (Some m)) \<Longrightarrow> recv w' = recv w"
    and poll_took: "inp_poll io w = (q, w') \<Longrightarrow> took e w' = took e w"
    and wait_frame: "inp_wait io w = Some (u, w') \<Longrightarrow> recv w' = recv w \<and> took e w' = took e w"
begin

text \<open>One turn of the loop consumes what it consumed of the input and nothing else happens to the
  edges.\<close>

lemma next_message_body_step:
  assumes "next_message_body ro io po (r, ws, p, w) = Some (Inl (r', ws', p', w'))"
  shows "\<exists>ms. recv w' = recv w @ ms \<and> (\<forall>e. took e w' = took e w) \<and>
           transduces (r_next ro) (line_accept ro) r p ms [] r' p'"
proof -
  from assms obtain r1 w1 where n: "r_next ro r = (Ok None, r1)" and p: "p = None"
    and c: "(\<exists>m. inp_poll io w = (Ok (Some m), w') \<and> line_accept ro m r1 = (Ok p', r')) \<or>
            (inp_poll io w = (Ok None, w1) \<and> p' = None \<and> r' = r1 \<and>
             (\<exists>w2 q u. (if ws = [] then inp_wait io w1 else Some (Ok (), w1)) = Some (u, w2) \<and>
                work_each po ws w2 = Some (q, ws', w')))"
    by (auto simp: next_message_body_def Let_def split: prod.splits result.splits option.splits if_splits)
  from c show ?thesis
  proof (elim disjE exE conjE)
    fix m assume m: "inp_poll io w = (Ok (Some m), w')" "line_accept ro m r1 = (Ok p', r')"
    from transduces_inp1 [where nxt = "r_next ro" and accept = "line_accept ro", OF n m(2)] m(1)
    show ?thesis using poll_some poll_took p by (intro exI [of _ "[m]"]) blast
  next
    fix w2 q u
    assume a: "inp_poll io w = (Ok None, w1)" "p' = None" "r' = r1"
      "(if ws = [] then inp_wait io w1 else Some (Ok (), w1)) = Some (u, w2)"
      "work_each po ws w2 = Some (q, ws', w')"
    have "recv w1 = recv w" "took e w1 = took e w" for e
      using a(1) poll_other [of w "Ok None" w1] poll_took by auto
    moreover have "recv w2 = recv w1 \<and> took e w2 = took e w1" for e
      using a(4) wait_frame by (auto split: if_splits)
    moreover have "recv w' = recv w2 \<and> took e w' = took e w2" for e using work_each_frame a(5) by blast
    moreover have "transduces (r_next ro) (line_accept ro) r None [] [] r1 None"
      using n by (rule transduces_idle1)
    ultimately show ?thesis using a p by (intro exI [of _ "[]"]) auto
  qed
qed

lemma next_message_body_exit:
  assumes "next_message_body ro io po (r, ws, p, w) = Some (Inr (Ok q, (r', ws', p', w')))"
  shows "recv w' = recv w \<and> (\<forall>e. took e w' = took e w) \<and>
           transduces (r_next ro) (line_accept ro) r p []
             (found q) r' p'"
proof -
  from assms consider
    y where "r_next ro r = (Ok (Some y), r')" "q = IMessage (Data y)" "p' = p" "w' = w"
  | s where "r_next ro r = (Ok None, r')" "p = Some s" "q = IMessage s" "p' = None" "w' = w"
  | x w1 where "r_next ro r = (Ok None, r')" "p = None" "q = IClosed" "p' = None"
      "inp_poll io w = (Ok None, w1)" "inp_wait io w1 = Some (Err x, w')"
  | x where "r_next ro r = (Ok None, r')" "p = None" "q = IClosed" "p' = None"
      "inp_poll io w = (Err x, w')"
    by (auto simp: next_message_body_def Let_def split: prod.splits result.splits option.splits if_splits)
  then show ?thesis
  proof cases
    case 1
    then show ?thesis by (auto intro: transduces.intros)
  next
    case 2
    then show ?thesis by (auto intro: transduces.intros)
  next
    case 3
    then show ?thesis
      using poll_other [OF 3(5)] poll_took [OF 3(5)] wait_frame [OF 3(6)]
      by (auto intro: transduces.intros)
  next
    case 4
    then show ?thesis
      using poll_other [OF 4(5)] poll_took [OF 4(5)] by (auto intro: transduces.intros)
  qed
qed

lemma next_message_transduces:
  assumes l: "next_message ro io po (r, ws, p, w) = Some (Ok q, (r', ws', p', w'))"
  shows "\<exists>ms. recv w' = recv w @ ms \<and> (\<forall>e. took e w' = took e w) \<and>
           transduces (r_next ro) (line_accept ro) r p ms (found q) r' p'"
proof -
  let ?wo = "\<lambda>(r, ws, p, w). w" and ?rt = "\<lambda>(r, ws, p, w). r" and ?pd = "\<lambda>(r, ws, p, w). p"
  have 1: "\<exists>ms. recv (?wo s') = recv (?wo s) @ ms \<and> (\<forall>e. took e (?wo s') = took e (?wo s)) \<and>
        transduces (r_next ro) (line_accept ro) (?rt s) (?pd s) ms [] (?rt s') (?pd s')"
    if "next_message_body ro io po s = Some (Inl s')" for s s'
    using that next_message_body_step by (cases s; cases s') simp
  have 2: "recv (?wo s') = recv (?wo s) \<and> (\<forall>e. took e (?wo s') = took e (?wo s)) \<and>
        transduces (r_next ro) (line_accept ro) (?rt s) (?pd s) [] (found q) (?rt s') (?pd s')"
    if "next_message_body ro io po s = Some (Inr (Ok q, s'))" for s s' q
    using that next_message_body_exit by (cases s; cases s') simp
  from loop_transduces [OF l [unfolded next_message_def], where wo = ?wo and rt = ?rt and pd = ?pd, OF 1 2]
  show ?thesis by simp
qed

text \<open>A round that returns \<open>Ok\<close> moves the line one step further along the transducer.\<close>

lemma line_work_transduces:
  assumes ok: "fanout_ok (ln_outputs ln)" and w: "line_work so ro io po ln w = Some (Ok u, ln', w')"
  shows "fanout_ok (ln_outputs ln') \<and> f_edges (ln_outputs ln') = f_edges (ln_outputs ln) \<and>
         (\<exists>ms os. recv w' = recv w @ ms \<and>
            transduces (r_next ro) (line_accept ro) (ln_worker ln) (ln_pending ln) ms os
              (ln_worker ln') (ln_pending ln') \<and>
            (\<forall>i < length (f_edges (ln_outputs ln)).
               took (f_edges (ln_outputs ln) ! i) w' @ fanout_due (ln_outputs ln') i =
               (took (f_edges (ln_outputs ln) ! i) w @ fanout_due (ln_outputs ln) i) @ os))"
proof (cases "fanout_ready (ln_outputs ln)")
  case False
  with w obtain rot f where r: "fanout_resume so (ln_outputs ln) w = Some (Ok rot, f, w')"
    and ln': "ln' = ln\<lparr>ln_outputs := f\<rparr>"
    by (auto simp: line_work_def split: option.splits result.splits)
  from resume_round [OF ok r] ln' show ?thesis by (auto intro!: exI [of _ "[]"] transduces.rest)
next
  case True
  from w True obtain m r ws p w1 rot f where
    n: "next_message ro io po (ln_worker ln, ln_workers ln, ln_pending ln, w) = Some (Ok (IMessage m), r, ws, p, w1)"
    and pu: "ready_push so m (ln_outputs ln) w1 = (Ok rot, f, w')"
    and ln': "ln' = ln\<lparr>ln_worker := r, ln_workers := ws, ln_pending := p, ln_outputs := f\<rparr>"
    by (auto simp: line_work_def Let_def split: option.splits result.splits incoming.splits prod.splits)
  from next_message_transduces [OF n] obtain ms where
    t: "recv w1 = recv w @ ms" "\<forall>e. took e w1 = took e w"
       "transduces (r_next ro) (line_accept ro) (ln_worker ln) (ln_pending ln) ms [m] r p" by auto
  from push_round [OF ok True pu t(2)] t ln' show ?thesis by auto
qed

lemma line_rounds_transduces:
  assumes "fanout_ok (ln_outputs ln)" and "line_rounds so ro io po n ln w = Some (Ok u, ln', w')"
  shows "fanout_ok (ln_outputs ln') \<and> f_edges (ln_outputs ln') = f_edges (ln_outputs ln) \<and>
         (\<exists>ms os. recv w' = recv w @ ms \<and>
            transduces (r_next ro) (line_accept ro) (ln_worker ln) (ln_pending ln) ms os
              (ln_worker ln') (ln_pending ln') \<and>
            (\<forall>i < length (f_edges (ln_outputs ln)).
               took (f_edges (ln_outputs ln) ! i) w' @ fanout_due (ln_outputs ln') i =
               (took (f_edges (ln_outputs ln) ! i) w @ fanout_due (ln_outputs ln) i) @ os))"
  using assms
proof (induction n arbitrary: ln w)
  case 0
  then show ?case by (auto intro!: exI [of _ "[]"] transduces.rest)
next
  case (Suc n)
  from Suc.prems(2) obtain v ln1 w1 where w: "line_work so ro io po ln w = Some (Ok v, ln1, w1)"
    and r: "line_rounds so ro io po n ln1 w1 = Some (Ok u, ln', w')"
    by (auto split: option.splits result.splits)
  from line_work_transduces [OF Suc.prems(1) w] obtain ms1 os1 where
    1: "fanout_ok (ln_outputs ln1)" "f_edges (ln_outputs ln1) = f_edges (ln_outputs ln)"
      "recv w1 = recv w @ ms1"
      "transduces (r_next ro) (line_accept ro) (ln_worker ln) (ln_pending ln) ms1 os1
              (ln_worker ln1) (ln_pending ln1)"
      "\<forall>i < length (f_edges (ln_outputs ln)).
               took (f_edges (ln_outputs ln) ! i) w1 @ fanout_due (ln_outputs ln1) i =
               (took (f_edges (ln_outputs ln) ! i) w @ fanout_due (ln_outputs ln) i) @ os1" by blast
  from Suc.IH [OF 1(1) r] obtain ms2 os2 where
    2: "fanout_ok (ln_outputs ln')" "f_edges (ln_outputs ln') = f_edges (ln_outputs ln1)"
      "recv w' = recv w1 @ ms2"
      "transduces (r_next ro) (line_accept ro) (ln_worker ln1) (ln_pending ln1) ms2 os2
              (ln_worker ln') (ln_pending ln')"
      "\<forall>i < length (f_edges (ln_outputs ln1)).
               took (f_edges (ln_outputs ln1) ! i) w' @ fanout_due (ln_outputs ln') i =
               (took (f_edges (ln_outputs ln1) ! i) w1 @ fanout_due (ln_outputs ln1) i) @ os2" by blast
  from transduces_append [OF 1(4) 2(4)] 1 2 show ?case
    by (intro conjI exI [of _ "ms1 @ ms2"] exI [of _ "os1 @ os2"]) auto
qed

end

section \<open>A line over sync edges\<close>

text \<open>The node's input edge, what it handed over, and the edges it pushes into. Other threads and
  the parents are arbitrary functions of the whole; \<open>keep\<close> restores only the records of what this
  node popped and pushed.\<close>

record ('i, 'o, 's) node_sys =
  nw_in :: "('i, 's) shared"
  nw_recv :: "('i, 's) message list"
  nw_out :: "('o, 's) sync_world"

definition keep :: "('i, 'o, 's) node_sys \<Rightarrow> ('i, 'o, 's) node_sys \<Rightarrow> ('i, 'o, 's) node_sys" where
  "keep w w' = w'\<lparr>nw_recv := nw_recv w, nw_out := (nw_out w')\<lparr>sw_took := sw_took (nw_out w)\<rparr>\<rparr>"

definition node_sink ::
  "(('o, 's) sync_world \<Rightarrow> ('o, 's) sync_world option) \<Rightarrow> (('i, 's) shared \<Rightarrow> ('i, 's) shared) \<Rightarrow>
   (nat \<times> nat, ('o, 's) message, ('i, 'o, 's) node_sys) sink_ops" where
  "node_sink env fill =
     \<lparr>op_try_push = (\<lambda>e m w. let (r, v) = sw_try_push e m (nw_out w) in (r, w\<lparr>nw_out := v\<rparr>)),
      op_push = (\<lambda>e m w. case sw_push env e m (nw_out w) of
                   None \<Rightarrow> None
                 | Some (r, v) \<Rightarrow> Some (r, w\<lparr>nw_out := v, nw_in := fill (nw_in w)\<rparr>)),
      op_close = (\<lambda>e w. let (r, v) = sw_close e (nw_out w) in (r, w\<lparr>nw_out := v\<rparr>)),
      op_schedule = (\<lambda>k e w. w\<lparr>nw_out := sw_schedule k e (nw_out w)\<rparr>)\<rparr>"

definition node_input ::
  "(('i, 'o, 's) node_sys \<Rightarrow> ('i, 'o, 's) node_sys option) \<Rightarrow> ('i, 's, ('i, 'o, 's) node_sys) input_ops" where
  "node_input env =
     \<lparr>inp_poll = (\<lambda>w. let (r, sh, _) = receiver_poll (nw_in w)
                     in (r, w\<lparr>nw_in := sh, nw_recv := nw_recv w @ popped r\<rparr>)),
      inp_wait = (\<lambda>w. case wait_front
                         (\<lambda>(sh, v). map_option (\<lambda>v'. (nw_in v', v')) (env (v\<lparr>nw_in := sh\<rparr>)))
                         (nw_in w, w) of
                    None \<Rightarrow> None
                  | Some (r, sh, v) \<Rightarrow> Some (r, keep w (v\<lparr>nw_in := sh\<rparr>)))\<rparr>"

definition node_parents ::
  "('p \<Rightarrow> ('i, 'o, 's) node_sys \<Rightarrow> (unit res \<times> ('i, 'o, 's) node_sys) option) \<Rightarrow>
   ('p \<Rightarrow> ('i, 'o, 's) node_sys \<Rightarrow> ('i, 'o, 's) node_sys) \<Rightarrow> ('p, ('i, 'o, 's) node_sys) parent_ops" where
  "node_parents work drp =
     \<lparr>pa_work = (\<lambda>p w. map_option (\<lambda>(r, w'). (r, keep w w')) (work p w)),
      pa_drop = (\<lambda>p w. keep w (drp p w))\<rparr>"

lemma keep_fields [simp]:
  "nw_recv (keep w w') = nw_recv w" "sw_took (nw_out (keep w w')) = sw_took (nw_out w)"
  by (simp_all add: keep_def)

lemma popped_Some: "(\<nexists>m. q = Ok (Some m)) \<Longrightarrow> popped q = []"
  by (cases q rule: popped.cases) auto

interpretation node_sys: node_world "node_sink env fill" "\<lambda>e w. sw_took (nw_out w) e"
    "node_parents f g" nw_recv "node_input env'"
proof unfold_locales
  show "refused t = Some m' \<Longrightarrow> m' = m"
    if "op_try_push (node_sink env fill) e m w = (Ok t, w')" for e m w t w' m'
    using that sync_sink.try_hands_back [of env e m "nw_out w"]
    by (cases "sw_try_push e m (nw_out w)") (auto simp: node_sink_def sync_sink_def)
qed (auto simp: node_sink_def node_input_def node_parents_def sw_try_push_took sw_push_took popped_Some
    split: prod.splits option.splits if_splits)

section \<open>Properties\<close>

text \<open>C3. A work line delivers exactly what its routine makes of its input. Over any number of rounds
  that return \<open>Ok\<close>, with any routine, any parents, other threads filling the input and draining the
  outputs, blocking waits and refused messages: every output edge has taken (up to one message the
  fan-out still holds) the same messages, and they are what the routine produced from the messages
  consumed, where a signal leaves only after the routine has nothing more to give and the next input is
  taken only when no output and no signal is waiting.\<close>

theorem line_delivers_transduction:
  assumes ok: "fanout_ok (ln_outputs ln)"
    and run: "line_rounds (node_sink env fill) ro (node_input env') (node_parents f g) n ln w = Some (Ok u, ln', w')"
  shows "\<exists>ms os. nw_recv w' = nw_recv w @ ms \<and>
           transduces (r_next ro) (line_accept ro) (ln_worker ln) (ln_pending ln) ms os
             (ln_worker ln') (ln_pending ln') \<and>
           (\<forall>i < length (f_edges (ln_outputs ln)).
              let e = f_edges (ln_outputs ln) ! i
              in sw_took (nw_out w') e @ fanout_due (ln_outputs ln') i =
                 (sw_took (nw_out w) e @ fanout_due (ln_outputs ln) i) @ os)"
  using node_sys.line_rounds_transduces [OF ok run] by (auto simp: Let_def)

text \<open>A routine that adds one, fed one message on its own edge.\<close>

definition add_one :: "(nat, nat, nat option) routine_ops" where
  "add_one = \<lparr>r_next = (\<lambda>r. (Ok r, None)), r_send = (\<lambda>d r. (Ok (), Some (d + 1))),
              r_flush = (\<lambda>r. (Ok (), r))\<rparr>"

theorem line_delivers_transduction_witness:
  "\<exists>ln' w' os.
     line_rounds (node_sink (\<lambda>w. None) id) add_one (node_input (\<lambda>w. None))
       (node_parents (\<lambda>p w. None) (\<lambda>p w. w)) 1
       ((line_build None)\<lparr>ln_outputs := fanout_new\<rparr> :: (nat, nat, nat option, unit, nat \<times> nat) line)
       \<lparr>nw_in = (with_bound None)\<lparr>i_buffer := [Data 4], producer_count := 1\<rparr>, nw_recv = [],
        nw_out = two_edges\<rparr> = Some (Ok (), ln', w') \<and>
     transduces (r_next add_one) (line_accept add_one) None None (nw_recv w') os
       (ln_worker ln') (ln_pending ln') \<and> nw_recv w' = [Data 4]"
proof -
  let ?ln = "(line_build None)\<lparr>ln_outputs := fanout_new\<rparr> :: (nat, nat, nat option, unit, nat \<times> nat) line"
  let ?w = "\<lparr>nw_in = (with_bound None)\<lparr>i_buffer := [Data 4], producer_count := 1\<rparr>, nw_recv = [],
      nw_out = two_edges\<rparr> :: (nat, nat, nat) node_sys"
  have "next_message add_one (node_input (\<lambda>w. None)) (node_parents (\<lambda>p w. None) (\<lambda>p w. w))
      (None, [] :: unit list, None, ?w) =
      Some (Ok (IMessage (Data 5)), None, [], None,
        ?w\<lparr>nw_in := fst (drained ((nw_in ?w)\<lparr>i_buffer := []\<rparr>) FreedOne), nw_recv := [Data 4]\<rparr>)"
    unfolding next_message_def
    by (subst loop.simps, simp add: next_message_body_def add_one_def node_input_def receiver_poll_def
        case_prod_unfold Let_def, subst loop.simps) (simp add: next_message_body_def)
  then obtain ln' w' where r: "line_rounds (node_sink (\<lambda>w. None) id) add_one (node_input (\<lambda>w. None))
       (node_parents (\<lambda>p w. None) (\<lambda>p w. w)) 1 ?ln ?w = Some (Ok (), ln', w')" and "nw_recv w' = [Data 4]"
    by (simp add: line_work_def line_build_def fanout_new_def fanout_ready_def ready_push_def
        rotate_from_def)
  from line_delivers_transduction [OF _ r] this show ?thesis
    by (auto simp: fanout_ok_def fanout_new_def line_build_def)
qed

subsection \<open>Closing\<close>

definition released_in :: "('d, 's) sync_world \<Rightarrow> nat \<times> nat \<Rightarrow> bool" where
  "released_in w e \<longleftrightarrow>
     snd e < length (sys_tx (sw_edges w (fst e))) \<longrightarrow> s_released (sys_tx (sw_edges w (fst e)) ! snd e)"

lemma close_sender_released:
  "released_in (snd (sw_close e w)) e' \<longleftrightarrow> e' = e \<or> released_in w e'"
proof -
  obtain r tx sh eff where c: "sender_close (sys_tx (sw_edges w (fst e)) ! snd e) (sys_sh (sw_edges w (fst e))) = (r, tx, sh, eff)"
    by (cases "sender_close (sys_tx (sw_edges w (fst e)) ! snd e) (sys_sh (sw_edges w (fst e)))") auto
  then have "s_released tx" by (auto elim!: sender_close_cases)
  with c show ?thesis
    by (cases e; cases e') (auto simp: released_in_def sw_close_def nth_list_update)
qed

lemma close_all_releases:
  "close_all (node_sink env fill) es r w = (r', w') \<Longrightarrow>
     (\<forall>e\<in>set es. released_in (nw_out w') e) \<and>
     (\<forall>e. released_in (nw_out w) e \<longrightarrow> released_in (nw_out w') e)"
proof (induction es arbitrary: r w)
  case Nil
  then show ?case by simp
next
  case (Cons e es)
  obtain q v where c: "sw_close e (nw_out w) = (q, v)" by (cases "sw_close e (nw_out w)") auto
  then have q: "q = Ok ()" by (simp add: sw_close_def)
  with Cons.prems c have "close_all (node_sink env fill) es r (w\<lparr>nw_out := v\<rparr>) = (r', w')"
    by (simp add: node_sink_def)
  from Cons.IH [OF this] close_sender_released [of e "nw_out w"] c show ?case
    by simp (metis surj_pair)
qed

text \<open>A work line passes the end of its stream on: once its input edge is closed and drained, its
  routine has nothing more to give and no signal or held message is waiting, the next round reports
  \<open>Closed\<close> and has released the line's handle on every output edge.\<close>

theorem line_closes_downstream:
  assumes ready: "fanout_ready (ln_outputs ln)" and spent: "r_next ro (ln_worker ln) = (Ok None, r1)"
    and none: "ln_pending ln = None"
    and closed: "i_buffer (nw_in w) = []" "i_closed (nw_in w)"
  shows "\<exists>ln' w'. line_work (node_sink env fill) ro (node_input env') po ln w = Some (Err Closed, ln', w') \<and>
           (\<forall>e\<in>set (f_edges (ln_outputs ln)). released_in (nw_out w') e)"
proof -
  have "next_message ro (node_input env') po (ln_worker ln, ln_workers ln, ln_pending ln, w) =
        Some (Ok IClosed, r1, ln_workers ln, None, w)"
  proof -
    have p: "inp_poll (node_input env') w = (Err Closed, w)"
      using closed by (simp add: node_input_def receiver_poll_def)
    show ?thesis
      unfolding next_message_def
      by (subst loop.simps) (simp add: next_message_body_def spent none p)
  qed
  moreover obtain q w' where c: "close_all (node_sink env fill) (f_edges (ln_outputs ln)) (Ok ()) w = (q, w')"
    by (cases "close_all (node_sink env fill) (f_edges (ln_outputs ln)) (Ok ()) w") auto
  ultimately show ?thesis
    using ready close_all_releases [OF c] by (simp add: line_work_def fanout_close_def)
qed

theorem line_closes_downstream_witness:
  "\<exists>ln' w'. line_work (node_sink (\<lambda>w. None) id) add_one (node_input (\<lambda>w. None))
        (node_parents (\<lambda>p w. None) (\<lambda>p w. w))
        ((line_build None)\<lparr>ln_outputs := fanout_add (0, 0) fanout_new\<rparr> :: (nat, nat, nat option, unit, nat \<times> nat) line)
        \<lparr>nw_in = (with_bound None)\<lparr>i_closed := True\<rparr>, nw_recv = [], nw_out = two_edges\<rparr> =
        Some (Err Closed, ln', w') \<and> released_in (nw_out w') (0, 0)"
proof -
  let ?ln = "(line_build None)\<lparr>ln_outputs := fanout_add (0, 0) fanout_new\<rparr> ::
      (nat, nat, nat option, unit, nat \<times> nat) line"
  let ?w = "\<lparr>nw_in = (with_bound None)\<lparr>i_closed := True\<rparr>, nw_recv = [], nw_out = two_edges\<rparr> ::
      (nat, nat, nat) node_sys"
  have "fanout_ready (ln_outputs ?ln)" "r_next add_one (ln_worker ?ln) = (Ok None, None)" "ln_pending ?ln = None"
    "i_buffer (nw_in ?w) = []" "i_closed (nw_in ?w)"
    by (simp_all add: fanout_ready_def fanout_add_def fanout_new_def add_one_def line_build_def with_bound_def)
  from line_closes_downstream [OF this] show ?thesis by (simp add: fanout_add_def fanout_new_def)
qed

end
