(* ===== verification/Biunion_Work.thy ===== *)
theory Biunion_Work
  imports Line_Work Waking_Edge
begin

text \<open>
  The work biunion node (src/node/biunion/work/node.rs): two input edges that wake one parker, one
  routine, parents per side, one fan-out. A side that closes stops feeding; the node ends with its
  last input. As for the line, rounds refine the transducer of the routine, over the two inputs
  merged in the order they were consumed.
\<close>

section \<open>The node\<close>

text \<open>One input message of either side.\<close>

type_synonym ('l, 'r, 's) sided = "('l, 's) message + ('r, 's) message"

record ('l, 'r, 'o, 'st) biunion_routine =
  b_next :: "'st \<Rightarrow> 'o option res \<times> 'st"
  b_send_left :: "'l \<Rightarrow> 'st \<Rightarrow> unit res \<times> 'st"
  b_send_right :: "'r \<Rightarrow> 'st \<Rightarrow> unit res \<times> 'st"
  b_flush :: "'st \<Rightarrow> unit res \<times> 'st"

record ('l, 'r, 's, 'w) biunion_inputs =
  bi_left :: "'w \<Rightarrow> ('l, 's) message option res \<times> 'w"
  bi_right :: "'w \<Rightarrow> ('r, 's) message option res \<times> 'w"
  bi_wait :: "'w \<Rightarrow> (unit res \<times> 'w) option"

record ('o, 's, 'st, 'p, 'e) biunion =
  bu_routine :: 'st
  bu_left :: "'p list"
  bu_right :: "'p list"
  bu_outputs :: "('e, ('o, 's) message) fanout"
  bu_pending :: "('o, 's) message option"

definition biunion_build :: "'st \<Rightarrow> ('o, 's, 'st, 'p, 'e) biunion" where
  "biunion_build r =
     \<lparr>bu_routine = r, bu_left = [], bu_right = [], bu_outputs = fanout_new, bu_pending = None\<rparr>"

definition biunion_input :: "waker \<Rightarrow> bound \<Rightarrow> bound \<Rightarrow>
    ('l, 's) waking_receiver \<times> ('r, 's) waking_receiver" where
  "biunion_input parker left right = (waking_new parker left, waking_new parker right)"

definition biunion_add_worker :: "bool \<Rightarrow> 'p \<Rightarrow> ('o, 's, 'st, 'p, 'e) biunion \<Rightarrow> ('o, 's, 'st, 'p, 'e) biunion" where
  "biunion_add_worker left p bu =
     (if left then bu\<lparr>bu_left := bu_left bu @ [p]\<rparr> else bu\<lparr>bu_right := bu_right bu @ [p]\<rparr>)"

definition biunion_add_sink :: "'e \<Rightarrow> ('o, 's, 'st, 'p, 'e) biunion \<Rightarrow> ('o, 's, 'st, 'p, 'e) biunion" where
  "biunion_add_sink e bu = bu\<lparr>bu_outputs := fanout_add e (bu_outputs bu)\<rparr>"

text \<open>\<open>accept\<close>, for the side whose \<open>Send\<close> is \<open>send\<close>.\<close>

fun accept_side ::
  "('i \<Rightarrow> 'st \<Rightarrow> unit res \<times> 'st) \<Rightarrow> ('st \<Rightarrow> unit res \<times> 'st) \<Rightarrow> ('i, 's) message \<Rightarrow> 'st \<Rightarrow>
   ('o, 's) message option res \<times> 'st" where
  "accept_side send flush (Data d) r =
     (case send d r of (Err e, r') \<Rightarrow> (Err e, r') | (Ok _, r') \<Rightarrow> (Ok None, r'))"
| "accept_side send flush (Flush s) r =
     (case flush r of (Err e, r') \<Rightarrow> (Err e, r') | (Ok _, r') \<Rightarrow> (Ok (Some (Flush s)), r'))"
| "accept_side send flush (Marker s) r = (Ok (Some (Marker s)), r)"

fun biunion_accept ::
  "('l, 'r, 'o, 'st) biunion_routine \<Rightarrow> ('l, 'r, 's) sided \<Rightarrow> 'st \<Rightarrow>
   ('o, 's) message option res \<times> 'st" where
  "biunion_accept ro (Inl m) r = accept_side (b_send_left ro) (b_flush ro) m r"
| "biunion_accept ro (Inr m) r = accept_side (b_send_right ro) (b_flush ro) m r"

type_synonym ('o, 's, 'st, 'p, 'w) biunion_loop =
  "'st \<times> 'p list \<times> 'p list \<times> ('o, 's) message option \<times> 'w"

text \<open>Polling one side: a message to accept, or whether the side has closed.\<close>

definition poll_side ::
  "('w \<Rightarrow> 'm option res \<times> 'w) \<Rightarrow> 'w \<Rightarrow> ('m + bool) res \<times> 'w" where
  "poll_side poll w =
     (case poll w of
        (Ok (Some m), w') \<Rightarrow> (Ok (Inl m), w')
      | (Ok None, w') \<Rightarrow> (Ok (Inr False), w')
      | (Err e, w') \<Rightarrow> (if is_closed e then Ok (Inr True) else Err e, w'))"

definition work_sides ::
  "('p, 'w) parent_ops \<Rightarrow> 'st \<Rightarrow> 'p list \<Rightarrow> 'p list \<Rightarrow> 'w \<Rightarrow>
   (('o, 's, 'st, 'p, 'w) biunion_loop +
    (('o, 's) message incoming res \<times> ('o, 's, 'st, 'p, 'w) biunion_loop)) option" where
  "work_sides po r ls rs w =
     (case work_each po ls w of
        None \<Rightarrow> None
      | Some (Err e, ls', w1) \<Rightarrow> Some (Inr (Err e, (r, ls', rs, None, w1)))
      | Some (Ok _, ls', w1) \<Rightarrow>
          (case work_each po rs w1 of
             None \<Rightarrow> None
           | Some (Err e, rs', w2) \<Rightarrow> Some (Inr (Err e, (r, ls', rs', None, w2)))
           | Some (Ok _, rs', w2) \<Rightarrow> Some (Inl (r, ls', rs', None, w2))))"

definition accept_or_fail ::
  "('l, 'r, 'o, 'st) biunion_routine \<Rightarrow> ('l, 'r, 's) sided \<Rightarrow> 'st \<Rightarrow> 'p list \<Rightarrow> 'p list \<Rightarrow> 'w \<Rightarrow>
   ('o, 's, 'st, 'p, 'w) biunion_loop +
    (('o, 's) message incoming res \<times> ('o, 's, 'st, 'p, 'w) biunion_loop)" where
  "accept_or_fail ro m r ls rs w =
     (case biunion_accept ro m r of
        (Err e, r') \<Rightarrow> Inr (Err e, (r', ls, rs, None, w))
      | (Ok p, r') \<Rightarrow> Inl (r', ls, rs, p, w))"

definition biunion_next_body ::
  "('l, 'r, 'o, 'st) biunion_routine \<Rightarrow> ('l, 'r, 's, 'w) biunion_inputs \<Rightarrow> ('p, 'w) parent_ops \<Rightarrow>
   ('o, 's, 'st, 'p, 'w) biunion_loop \<Rightarrow>
   (('o, 's, 'st, 'p, 'w) biunion_loop +
    (('o, 's) message incoming res \<times> ('o, 's, 'st, 'p, 'w) biunion_loop)) option" where
  "biunion_next_body ro io po st =
     (let (r, ls, rs, pend, w) = st in
      case b_next ro r of
        (Err e, r1) \<Rightarrow> Some (Inr (Err e, (r1, ls, rs, pend, w)))
      | (Ok (Some y), r1) \<Rightarrow> Some (Inr (Ok (IMessage (Data y)), (r1, ls, rs, pend, w)))
      | (Ok None, r1) \<Rightarrow>
          (case pend of
             Some s \<Rightarrow> Some (Inr (Ok (IMessage s), (r1, ls, rs, None, w)))
           | None \<Rightarrow>
               (case poll_side (bi_left io) w of
                  (Err e, w1) \<Rightarrow> Some (Inr (Err e, (r1, ls, rs, None, w1)))
                | (Ok (Inl m), w1) \<Rightarrow> Some (accept_or_fail ro (Inl m) r1 ls rs w1)
                | (Ok (Inr left_closed), w1) \<Rightarrow>
                    (case poll_side (bi_right io) w1 of
                       (Err e, w2) \<Rightarrow> Some (Inr (Err e, (r1, ls, rs, None, w2)))
                     | (Ok (Inl m), w2) \<Rightarrow> Some (accept_or_fail ro (Inr m) r1 ls rs w2)
                     | (Ok (Inr right_closed), w2) \<Rightarrow>
                         (if left_closed \<and> right_closed
                          then Some (Inr (Ok IClosed, (r1, ls, rs, None, w2)))
                          else case (if ls = [] \<and> rs = [] then bi_wait io w2 else Some (Ok (), w2)) of
                                 None \<Rightarrow> None
                               | Some (Err e, w3) \<Rightarrow>
                                   Some (Inr (if is_closed e then Ok IClosed else Err e,
                                              (r1, ls, rs, None, w3)))
                               | Some (Ok _, w3) \<Rightarrow> work_sides po r1 ls rs w3)))))"

definition biunion_next ::
  "('l, 'r, 'o, 'st) biunion_routine \<Rightarrow> ('l, 'r, 's, 'w) biunion_inputs \<Rightarrow> ('p, 'w) parent_ops \<Rightarrow>
   ('o, 's, 'st, 'p, 'w) biunion_loop \<Rightarrow>
   (('o, 's) message incoming res \<times> ('o, 's, 'st, 'p, 'w) biunion_loop) option" where
  "biunion_next ro io po st = loop (biunion_next_body ro io po) st"

definition biunion_work ::
  "('e, ('o, 's) message, 'w) sink_ops \<Rightarrow> ('l, 'r, 'o, 'st) biunion_routine \<Rightarrow>
   ('l, 'r, 's, 'w) biunion_inputs \<Rightarrow> ('p, 'w) parent_ops \<Rightarrow> ('o, 's, 'st, 'p, 'e) biunion \<Rightarrow> 'w \<Rightarrow>
   (unit res \<times> ('o, 's, 'st, 'p, 'e) biunion \<times> 'w) option" where
  "biunion_work so ro io po bu w =
     (if \<not> fanout_ready (bu_outputs bu)
      then (case fanout_resume so (bu_outputs bu) w of
              None \<Rightarrow> None
            | Some (Err e, f, w') \<Rightarrow> Some (Err e, bu\<lparr>bu_outputs := f\<rparr>, w')
            | Some (Ok _, f, w') \<Rightarrow> Some (Ok (), bu\<lparr>bu_outputs := f\<rparr>, w'))
      else (case biunion_next ro io po (bu_routine bu, bu_left bu, bu_right bu, bu_pending bu, w) of
              None \<Rightarrow> None
            | Some (q, r, ls, rs, p, w1) \<Rightarrow>
                (let bu1 = bu\<lparr>bu_routine := r, bu_left := ls, bu_right := rs, bu_pending := p\<rparr>
                 in case q of
                      Err e \<Rightarrow> Some (Err e, bu1, w1)
                    | Ok (IMessage m) \<Rightarrow>
                        (case ready_push so m (bu_outputs bu1) w1 of
                           (Err e, f, w2) \<Rightarrow> Some (Err e, bu1\<lparr>bu_outputs := f\<rparr>, w2)
                         | (Ok _, f, w2) \<Rightarrow> Some (Ok (), bu1\<lparr>bu_outputs := f\<rparr>, w2))
                    | Ok IClosed \<Rightarrow>
                        (let (_, f, w2) = fanout_close so (bu_outputs bu1) w1
                         in Some (Err Closed, bu1\<lparr>bu_outputs := f\<rparr>, w2)))))"

section \<open>Rounds refine the transducer\<close>

locale biunion_world = node_frame so took po recv
  for so :: "('e, ('o, 's) message, 'w) sink_ops" and took :: "'e \<Rightarrow> 'w \<Rightarrow> ('o, 's) message list"
    and po :: "('p, 'w) parent_ops" and recv :: "'w \<Rightarrow> ('l, 'r, 's) sided list" +
  fixes io :: "('l, 'r, 's, 'w) biunion_inputs"
  assumes left_recv: "bi_left io w = (q, w') \<Longrightarrow>
      recv w' = recv w @ (case q of Ok (Some m) \<Rightarrow> [Inl m] | _ \<Rightarrow> []) \<and> took e w' = took e w"
    and right_recv: "bi_right io w = (q', w') \<Longrightarrow>
      recv w' = recv w @ (case q' of Ok (Some m) \<Rightarrow> [Inr m] | _ \<Rightarrow> []) \<and> took e w' = took e w"
    and wait_recv: "bi_wait io w = Some (u, w') \<Longrightarrow> recv w' = recv w \<and> took e w' = took e w"
begin

lemma poll_left:
  "poll_side (bi_left io) w = (q, w') \<Longrightarrow>
     recv w' = recv w @ (case q of Ok (Inl m) \<Rightarrow> [Inl m] | _ \<Rightarrow> []) \<and> took e w' = took e w"
  using left_recv [of w _ w' e] by (auto simp: poll_side_def split: prod.splits result.splits option.splits if_splits)

lemma poll_right:
  "poll_side (bi_right io) w = (q, w') \<Longrightarrow>
     recv w' = recv w @ (case q of Ok (Inl m) \<Rightarrow> [Inr m] | _ \<Rightarrow> []) \<and> took e w' = took e w"
  using right_recv [of w _ w' e] by (auto simp: poll_side_def split: prod.splits result.splits option.splits if_splits)

lemma work_sides_frame:
  "work_sides po r ls rs w = Some b \<Longrightarrow>
     (\<exists>ls' rs' w'. (b = Inl (r, ls', rs', None, w') \<or> (\<exists>x. b = Inr (Err x, (r, ls', rs', None, w')))) \<and>
        recv w' = recv w \<and> (\<forall>e. took e w' = took e w))"
  by (auto simp: work_sides_def split: option.splits result.splits prod.splits dest!: work_each_frames)

text \<open>Where one turn of the loop leads, and what it consumed.\<close>

lemma biunion_body_cases:
  assumes "biunion_next_body ro io po (r, ls, rs, p, w) = Some b"
  shows "\<exists>ms os. case b of
           Inl (r', ls', rs', p', w') \<Rightarrow>
             recv w' = recv w @ ms \<and> (\<forall>e. took e w' = took e w) \<and>
             transduces (b_next ro) (biunion_accept ro) r p ms [] r' p'
         | Inr (Ok q, (r', ls', rs', p', w')) \<Rightarrow>
             recv w' = recv w \<and> (\<forall>e. took e w' = took e w) \<and>
             transduces (b_next ro) (biunion_accept ro) r p []
               (found q) r' p'
         | Inr (Err e, _) \<Rightarrow> True"
proof -
  obtain q r1 where n: "b_next ro r = (q, r1)" by (cases "b_next ro r") auto
  show ?thesis
  proof (cases "q = Ok None \<and> p = None")
    case False
    with assms n show ?thesis
      by (auto simp: biunion_next_body_def split: result.splits option.splits
          intro: transduces_out1 transduces_signal1)
  next
    case True
    note n = n [unfolded conjunct1 [OF True]] and p = conjunct2 [OF True]
    obtain ql w1 where l: "poll_side (bi_left io) w = (ql, w1)" by (cases "poll_side (bi_left io) w") auto
    obtain qr w2 where rr: "poll_side (bi_right io) w1 = (qr, w2)" by (cases "poll_side (bi_right io) w1") auto
    note L = poll_left [OF l] and R = poll_right [OF rr]
    have acc: ?thesis if b: "b = accept_or_fail ro m r1 ls rs v" and v: "recv v = recv w @ [m]" "\<forall>e. took e v = took e w"
      for m v
    proof (cases "biunion_accept ro m r1")
      case (Pair a r2)
      show ?thesis
      proof (cases a)
        case (Err x)
        with Pair b show ?thesis by (simp add: accept_or_fail_def)
      next
        case (Ok p1)
        with Pair have a: "biunion_accept ro m r1 = (result.Ok p1, r2)" by simp
        have "transduces (b_next ro) (biunion_accept ro) r None [m] [] r2 p1"
          using n a by (rule transduces_inp1)
        with a b v p show ?thesis by (auto simp: accept_or_fail_def)
      qed
    qed
    have idle: "transduces (b_next ro) (biunion_accept ro) r None [] [] r1 None"
      using n by (rule transduces_idle1)
    show ?thesis
    proof (cases ql)
      case (Err x)
      with assms n p l show ?thesis by (auto simp: biunion_next_body_def)
    next
      case (Ok la)
      show ?thesis
      proof (cases la)
        case (Inl m)
        with assms n p l Ok have "b = accept_or_fail ro (Inl m) r1 ls rs w1"
          by (simp add: biunion_next_body_def)
        from acc [OF this] L Ok Inl show ?thesis by simp
      next
        case (Inr lc)
        note la = this
        show ?thesis
        proof (cases qr)
          case (Err x)
          with assms n p l rr Ok la show ?thesis by (auto simp: biunion_next_body_def)
        next
          case (Ok ra)
          show ?thesis
          proof (cases ra)
            case (Inl m)
            with assms n p l rr Ok la \<open>ql = result.Ok la\<close> have "b = accept_or_fail ro (Inr m) r1 ls rs w2"
              by (simp add: biunion_next_body_def)
            from acc [OF this] L R \<open>ql = result.Ok la\<close> la Ok Inl show ?thesis by simp
          next
            case (Inr rc)
            have w2: "recv w2 = recv w" "\<forall>e. took e w2 = took e w"
              using L R \<open>ql = result.Ok la\<close> la Ok Inr by auto
            show ?thesis
            proof (cases "lc \<and> rc")
              case True
              with assms n p l rr Ok la \<open>ql = result.Ok la\<close> Inr w2 idle show ?thesis
                by (auto simp: biunion_next_body_def)
            next
              case False
              with assms n p l rr Ok la \<open>ql = result.Ok la\<close> Inr obtain u w3 where
                wt: "(if ls = [] \<and> rs = [] then bi_wait io w2 else Some (result.Ok (), w2)) = Some (u, w3)"
                and b: "(\<exists>x. u = Err x \<and> b = Inr (if is_closed x then result.Ok IClosed else Err x, (r1, ls, rs, None, w3))) \<or>
                        (\<exists>v. u = result.Ok v \<and> work_sides po r1 ls rs w3 = Some b)"
                by (auto simp: biunion_next_body_def simp del: is_closed_iff split: option.splits result.splits if_splits)
              from wt wait_recv have w3: "recv w3 = recv w" "\<forall>e. took e w3 = took e w"
                using w2 by (auto split: if_splits)
              from b show ?thesis
              proof (elim disjE exE conjE)
                fix x assume "b = Inr (if is_closed x then result.Ok IClosed else Err x, (r1, ls, rs, None, w3))"
                with w3 idle p show ?thesis by auto
              next
                fix v assume "work_sides po r1 ls rs w3 = Some b"
                from work_sides_frame [OF this] w3 idle p show ?thesis by (force intro: exI [of _ "[]"])
              qed
            qed
          qed
        qed
      qed
    qed
  qed
qed

lemma biunion_next_transduces:
  assumes l: "biunion_next ro io po (r, ls, rs, p, w) = Some (Ok q, (r', ls', rs', p', w'))"
  shows "\<exists>ms. recv w' = recv w @ ms \<and> (\<forall>e. took e w' = took e w) \<and>
           transduces (b_next ro) (biunion_accept ro) r p ms (found q) r' p'"
proof -
  let ?wo = "\<lambda>(r, ls, rs, p, w). w" and ?rt = "\<lambda>(r, ls, rs, p, w). r" and ?pd = "\<lambda>(r, ls, rs, p, w). p"
  have 1: "\<exists>ms. recv (?wo s') = recv (?wo s) @ ms \<and> (\<forall>e. took e (?wo s') = took e (?wo s)) \<and>
        transduces (b_next ro) (biunion_accept ro) (?rt s) (?pd s) ms [] (?rt s') (?pd s')"
    if "biunion_next_body ro io po s = Some (Inl s')" for s s'
    using that biunion_body_cases by (cases s; cases s') fastforce
  have 2: "recv (?wo s') = recv (?wo s) \<and> (\<forall>e. took e (?wo s') = took e (?wo s)) \<and>
        transduces (b_next ro) (biunion_accept ro) (?rt s) (?pd s) [] (found q) (?rt s') (?pd s')"
    if "biunion_next_body ro io po s = Some (Inr (Ok q, s'))" for s s' q
    using that biunion_body_cases by (cases s; cases s') fastforce
  from loop_transduces [OF l [unfolded biunion_next_def], where wo = ?wo and rt = ?rt and pd = ?pd, OF 1 2]
  show ?thesis by simp
qed

lemma biunion_work_transduces:
  assumes ok: "fanout_ok (bu_outputs bu)" and w: "biunion_work so ro io po bu w = Some (Ok u, bu', w')"
  shows "fanout_ok (bu_outputs bu') \<and> f_edges (bu_outputs bu') = f_edges (bu_outputs bu) \<and>
         (\<exists>ms os. recv w' = recv w @ ms \<and>
            transduces (b_next ro) (biunion_accept ro) (bu_routine bu) (bu_pending bu) ms os
              (bu_routine bu') (bu_pending bu') \<and>
            (\<forall>i < length (f_edges (bu_outputs bu)).
               took (f_edges (bu_outputs bu) ! i) w' @ fanout_due (bu_outputs bu') i =
               (took (f_edges (bu_outputs bu) ! i) w @ fanout_due (bu_outputs bu) i) @ os))"
proof (cases "fanout_ready (bu_outputs bu)")
  case False
  with w obtain rot f where r: "fanout_resume so (bu_outputs bu) w = Some (Ok rot, f, w')"
    and bu': "bu' = bu\<lparr>bu_outputs := f\<rparr>"
    by (auto simp: biunion_work_def split: option.splits result.splits)
  from resume_round [OF ok r] bu' show ?thesis by (auto intro!: exI [of _ "[]"] transduces.rest)
next
  case True
  from w True obtain m r ls rs p w1 rot f where
    n: "biunion_next ro io po (bu_routine bu, bu_left bu, bu_right bu, bu_pending bu, w) =
          Some (Ok (IMessage m), r, ls, rs, p, w1)"
    and pu: "ready_push so m (bu_outputs bu) w1 = (Ok rot, f, w')"
    and bu': "bu' = bu\<lparr>bu_routine := r, bu_left := ls, bu_right := rs, bu_pending := p, bu_outputs := f\<rparr>"
    by (auto simp: biunion_work_def Let_def split: option.splits result.splits incoming.splits prod.splits)
  from biunion_next_transduces [OF n] obtain ms where
    t: "recv w1 = recv w @ ms" "\<forall>e. took e w1 = took e w"
       "transduces (b_next ro) (biunion_accept ro) (bu_routine bu) (bu_pending bu) ms [m] r p" by auto
  from push_round [OF ok True pu t(2)] t bu' show ?thesis by auto
qed

end

section \<open>A biunion over waking edges\<close>

record ('l, 'r, 'o, 's) biunion_sys =
  bw_left :: "('l, 's) shared"
  bw_right :: "('r, 's) shared"
  bw_recv :: "('l, 'r, 's) sided list"
  bw_out :: "('o, 's) sync_world"

definition bi_keep ::
  "('l, 'r, 'o, 's) biunion_sys \<Rightarrow> ('l, 'r, 'o, 's) biunion_sys \<Rightarrow> ('l, 'r, 'o, 's) biunion_sys" where
  "bi_keep w w' = w'\<lparr>bw_recv := bw_recv w, bw_out := (bw_out w')\<lparr>sw_took := sw_took (bw_out w)\<rparr>\<rparr>"

definition biunion_sink ::
  "(('o, 's) sync_world \<Rightarrow> ('o, 's) sync_world option) \<Rightarrow>
   (('l, 'r, 'o, 's) biunion_sys \<Rightarrow> ('l, 'r, 'o, 's) biunion_sys) \<Rightarrow>
   (nat \<times> nat, ('o, 's) message, ('l, 'r, 'o, 's) biunion_sys) sink_ops" where
  "biunion_sink env others =
     \<lparr>op_try_push = (\<lambda>e m w. let (r, v) = sw_try_push e m (bw_out w) in (r, w\<lparr>bw_out := v\<rparr>)),
      op_push = (\<lambda>e m w. case sw_push env e m (bw_out w) of
                   None \<Rightarrow> None
                 | Some (r, v) \<Rightarrow> Some (r, (others w)\<lparr>bw_out := v, bw_recv := bw_recv w\<rparr>)),
      op_close = (\<lambda>e w. let (r, v) = sw_close e (bw_out w) in (r, w\<lparr>bw_out := v\<rparr>)),
      op_schedule = (\<lambda>k e w. w\<lparr>bw_out := sw_schedule k e (bw_out w)\<rparr>)\<rparr>"

text \<open>The two waking edges, and \<open>wait_any\<close> over their states with the shared parker.\<close>

definition biunion_inputs_of ::
  "(('l, 'r, 'o, 's) biunion_sys \<Rightarrow> ('l, 'r, 'o, 's) biunion_sys option) \<Rightarrow>
   ('l, 'r, 's, ('l, 'r, 'o, 's) biunion_sys) biunion_inputs" where
  "biunion_inputs_of park =
     \<lparr>bi_left = (\<lambda>w. let (r, sh, _) = waking_poll (bw_left w)
                    in (r, w\<lparr>bw_left := sh, bw_recv := bw_recv w @ List.map Inl (popped r)\<rparr>)),
      bi_right = (\<lambda>w. let (r, sh, _) = waking_poll (bw_right w)
                     in (r, w\<lparr>bw_right := sh, bw_recv := bw_recv w @ List.map Inr (popped r)\<rparr>)),
      bi_wait = (\<lambda>w. map_option (\<lambda>(r, w'). (r, bi_keep w w'))
                       (wait_any park [\<lambda>v. (waking_state (bw_left v), v), \<lambda>v. (waking_state (bw_right v), v)] w))\<rparr>"

definition biunion_parents ::
  "('p \<Rightarrow> ('l, 'r, 'o, 's) biunion_sys \<Rightarrow> (unit res \<times> ('l, 'r, 'o, 's) biunion_sys) option) \<Rightarrow>
   ('p \<Rightarrow> ('l, 'r, 'o, 's) biunion_sys \<Rightarrow> ('l, 'r, 'o, 's) biunion_sys) \<Rightarrow>
   ('p, ('l, 'r, 'o, 's) biunion_sys) parent_ops" where
  "biunion_parents work drp =
     \<lparr>pa_work = (\<lambda>p w. map_option (\<lambda>(r, w'). (r, bi_keep w w')) (work p w)),
      pa_drop = (\<lambda>p w. bi_keep w (drp p w))\<rparr>"

lemma bi_keep_fields [simp]:
  "bw_recv (bi_keep w w') = bw_recv w" "sw_took (bw_out (bi_keep w w')) = sw_took (bw_out w)"
  by (simp_all add: bi_keep_def)

lemma popped_case: "List.map f (popped q) = (case q of Ok (Some m) \<Rightarrow> [f m] | _ \<Rightarrow> [])"
  by (cases q rule: popped.cases) auto

interpretation biunion_sys: biunion_world "biunion_sink env others" "\<lambda>e w. sw_took (bw_out w) e"
    "biunion_parents f g" bw_recv "biunion_inputs_of park"
proof unfold_locales
  show "refused t = Some m' \<Longrightarrow> m' = m"
    if "op_try_push (biunion_sink env others) e m w = (Ok t, w')" for e m w t w' m'
    using that sync_sink.try_hands_back [of env e m "bw_out w"]
    by (cases "sw_try_push e m (bw_out w)") (auto simp: biunion_sink_def sync_sink_def)
qed (auto simp: biunion_sink_def biunion_inputs_of_def biunion_parents_def sw_try_push_took sw_push_took
    popped_case split: prod.splits option.splits if_splits)

section \<open>Properties\<close>

text \<open>C14. A work biunion delivers exactly what its routine makes of both inputs. In a round that
  returns \<open>Ok\<close>, with any routine, parents and interleaving of other threads, every output edge receives
  (or is owed by the fan-out) the same messages, and they are what the routine produced from the
  messages the round consumed of the two edges, in consumption order; a signal from either side leaves
  only after the routine is drained.\<close>

theorem biunion_delivers_transduction:
  assumes ok: "fanout_ok (bu_outputs bu)"
    and run: "biunion_work (biunion_sink env others) ro (biunion_inputs_of park) (biunion_parents f g) bu w =
                Some (Ok u, bu', w')"
  shows "fanout_ok (bu_outputs bu') \<and>
         (\<exists>ms os. bw_recv w' = bw_recv w @ ms \<and>
           transduces (b_next ro) (biunion_accept ro) (bu_routine bu) (bu_pending bu) ms os
             (bu_routine bu') (bu_pending bu') \<and>
           (\<forall>i < length (f_edges (bu_outputs bu)).
              let e = f_edges (bu_outputs bu) ! i
              in sw_took (bw_out w') e @ fanout_due (bu_outputs bu') i =
                 (sw_took (bw_out w) e @ fanout_due (bu_outputs bu) i) @ os))"
  using biunion_sys.biunion_work_transduces [OF ok run] by (auto simp: Let_def)

definition add_both :: "(nat, nat, nat, nat option) biunion_routine" where
  "add_both = \<lparr>b_next = (\<lambda>r. (Ok r, None)), b_send_left = (\<lambda>d r. (Ok (), Some (d + 1))),
               b_send_right = (\<lambda>d r. (Ok (), Some (d + 2))), b_flush = (\<lambda>r. (Ok (), r))\<rparr>"

theorem biunion_delivers_transduction_witness:
  "\<exists>bu' w' os.
     biunion_work (biunion_sink (\<lambda>w. None) id) add_both (biunion_inputs_of (\<lambda>w. None))
       (biunion_parents (\<lambda>p w. None) (\<lambda>p w. w)) (biunion_build None :: (nat, nat, nat option, unit, nat \<times> nat) biunion)
       \<lparr>bw_left = with_bound None, bw_right = (with_bound None)\<lparr>i_buffer := [Data 4]\<rparr>, bw_recv = [],
        bw_out = two_edges\<rparr> = Some (Ok (), bu', w') \<and>
     transduces (b_next add_both) (biunion_accept add_both) None None (bw_recv w') os
       (bu_routine bu') (bu_pending bu') \<and> bw_recv w' = [Inr (Data 4)]"
proof -
  let ?bu = "biunion_build None :: (nat, nat, nat option, unit, nat \<times> nat) biunion"
  let ?w = "\<lparr>bw_left = with_bound None, bw_right = (with_bound None)\<lparr>i_buffer := [Data 4]\<rparr>, bw_recv = [],
        bw_out = two_edges\<rparr> :: (nat, nat, nat, nat) biunion_sys"
  have l: "poll_side (bi_left (biunion_inputs_of (\<lambda>w. None))) ?w = (Ok (Inr True), ?w)"
    by (simp add: poll_side_def biunion_inputs_of_def waking_poll_def try_pop_def with_bound_def)
  obtain w1 where r: "poll_side (bi_right (biunion_inputs_of (\<lambda>w. None))) ?w = (Ok (Inl (Data 4)), w1)"
      and w1: "bw_recv w1 = [Inr (Data 4)]"
    by (simp add: poll_side_def biunion_inputs_of_def waking_poll_def try_pop_def with_bound_def
        case_prod_unfold Let_def)
  have "biunion_next add_both (biunion_inputs_of (\<lambda>w. None)) (biunion_parents (\<lambda>p w. None) (\<lambda>p w. w))
      (None, [] :: unit list, [], None, ?w) = Some (Ok (IMessage (Data 6)), None, [], [], None, w1)"
    unfolding biunion_next_def
    by (subst loop.simps, simp add: biunion_next_body_def add_both_def l r accept_or_fail_def,
        subst loop.simps) (simp add: biunion_next_body_def)
  then have b: "biunion_work (biunion_sink (\<lambda>w. None) id) add_both (biunion_inputs_of (\<lambda>w. None))
       (biunion_parents (\<lambda>p w. None) (\<lambda>p w. w)) ?bu ?w =
       Some (Ok (), ?bu\<lparr>bu_outputs := fanout_new\<rparr>, w1)"
    by (simp add: biunion_work_def biunion_build_def fanout_new_def fanout_ready_def ready_push_def
        rotate_from_def)
  have "fanout_ok (bu_outputs ?bu)" by (simp add: fanout_ok_def fanout_new_def biunion_build_def)
  from biunion_delivers_transduction [OF this b] b w1 show ?thesis by (auto simp: biunion_build_def)
qed

end
