(* ===== verification/Bifurcation_Work.thy ===== *)
theory Bifurcation_Work
  imports Line_Work Follow_Policy
begin

text \<open>
  The work bifurcation node (src/node/bifurcation/work/node.rs): one input edge, one routine with two
  outputs, a fan-out and a pending signal per side. In a round each side gives at most one message;
  input is taken only when both sides are idle. Rounds refine the reference \<open>splits\<close>.
\<close>

section \<open>The node\<close>

record ('i, 'l, 'm, 'st) bif_routine =
  f_next_left :: "'st \<Rightarrow> 'l option res \<times> 'st"
  f_next_right :: "'st \<Rightarrow> 'm option res \<times> 'st"
  f_send :: "'i \<Rightarrow> 'st \<Rightarrow> unit res \<times> 'st"
  f_flush :: "'st \<Rightarrow> unit res \<times> 'st"

record ('l, 'm, 's, 'st, 'p, 'e, 'g) bifurcation =
  bf_routine :: 'st
  bf_workers :: "'p list"
  bf_left :: "('e, ('l, 's) message) fanout"
  bf_right :: "('g, ('m, 's) message) fanout"
  bf_pleft :: "('l, 's) message option"
  bf_pright :: "('m, 's) message option"

definition bif_build :: "'st \<Rightarrow> ('l, 'm, 's, 'st, 'p, 'e, 'g) bifurcation" where
  "bif_build r =
     \<lparr>bf_routine = r, bf_workers = [], bf_left = fanout_new, bf_right = fanout_new,
      bf_pleft = None, bf_pright = None\<rparr>"

definition bif_input :: "bound \<Rightarrow> ('i, 's) shared" where
  "bif_input b = (case b of Some n \<Rightarrow> bounded_receiver n | None \<Rightarrow> new_receiver)"

definition bif_add_left :: "'e \<Rightarrow> ('l, 'm, 's, 'st, 'p, 'e, 'g) bifurcation \<Rightarrow> ('l, 'm, 's, 'st, 'p, 'e, 'g) bifurcation" where
  "bif_add_left e bf = bf\<lparr>bf_left := fanout_add e (bf_left bf)\<rparr>"

definition bif_add_right :: "'g \<Rightarrow> ('l, 'm, 's, 'st, 'p, 'e, 'g) bifurcation \<Rightarrow> ('l, 'm, 's, 'st, 'p, 'e, 'g) bifurcation" where
  "bif_add_right e bf = bf\<lparr>bf_right := fanout_add e (bf_right bf)\<rparr>"

definition bif_add_worker :: "'p \<Rightarrow> ('l, 'm, 's, 'st, 'p, 'e, 'g) bifurcation \<Rightarrow> ('l, 'm, 's, 'st, 'p, 'e, 'g) bifurcation" where
  "bif_add_worker p bf = bf\<lparr>bf_workers := bf_workers bf @ [p]\<rparr>"

text \<open>One side's part of a round.\<close>

definition side_round ::
  "('e, ('o, 's) message, 'w) sink_ops \<Rightarrow> ('st \<Rightarrow> 'o option res \<times> 'st) \<Rightarrow> 'st \<Rightarrow>
   ('e, ('o, 's) message) fanout \<Rightarrow> ('o, 's) message option \<Rightarrow> 'w \<Rightarrow>
   (bool res \<times> 'st \<times> ('e, ('o, 's) message) fanout \<times> ('o, 's) message option \<times> 'w) option" where
  "side_round so nxt r f pend w =
     (if \<not> fanout_ready f
      then (case fanout_resume so f w of
              None \<Rightarrow> None
            | Some (Err e, f', w') \<Rightarrow> Some (Err e, r, f', pend, w')
            | Some (Ok _, f', w') \<Rightarrow> Some (Ok True, r, f', pend, w'))
      else (case nxt r of
              (Err e, r') \<Rightarrow> Some (Err e, r', f, pend, w)
            | (Ok y, r') \<Rightarrow>
                (case (case y of Some d \<Rightarrow> (Some (Data d), pend) | None \<Rightarrow> (pend, None)) of
                   (None, p') \<Rightarrow> Some (Ok False, r', f, p', w)
                 | (Some m, p') \<Rightarrow>
                     (case ready_push so m f w of
                        (Err e, f', w') \<Rightarrow> Some (Err e, r', f', p', w')
                      | (Ok _, f', w') \<Rightarrow> Some (Ok True, r', f', p', w')))))"

definition next_input_body ::
  "('i, 's, 'w) input_ops \<Rightarrow> ('p, 'w) parent_ops \<Rightarrow> 'p list \<times> 'w \<Rightarrow>
   (('p list \<times> 'w) + (('i, 's) message incoming res \<times> 'p list \<times> 'w)) option" where
  "next_input_body io po st =
     (let (ws, w) = st in
      case inp_poll io w of
        (Ok (Some m), w1) \<Rightarrow> Some (Inr (Ok (IMessage m), ws, w1))
      | (Ok None, w1) \<Rightarrow>
          (case (if ws = [] then inp_wait io w1 else Some (Ok (), w1)) of
             None \<Rightarrow> None
           | Some (Err e, w2) \<Rightarrow> Some (Inr (if is_closed e then Ok IClosed else Err e, ws, w2))
           | Some (Ok _, w2) \<Rightarrow>
               (case work_each po ws w2 of
                  None \<Rightarrow> None
                | Some (Err e, ws', w3) \<Rightarrow> Some (Inr (Err e, ws', w3))
                | Some (Ok _, ws', w3) \<Rightarrow> Some (Inl (ws', w3))))
      | (Err e, w1) \<Rightarrow> Some (Inr (if is_closed e then Ok IClosed else Err e, ws, w1)))"

definition next_input ::
  "('i, 's, 'w) input_ops \<Rightarrow> ('p, 'w) parent_ops \<Rightarrow> 'p list \<Rightarrow> 'w \<Rightarrow>
   (('i, 's) message incoming res \<times> 'p list \<times> 'w) option" where
  "next_input io po ws w = loop (next_input_body io po) (ws, w)"

text \<open>Data goes to the routine, a signal is owed to both sides.\<close>

fun bif_accept ::
  "('i, 'l, 'm, 'st) bif_routine \<Rightarrow> ('i, 's) message \<Rightarrow> 'st \<Rightarrow>
   ('l, 's) message option \<times> ('m, 's) message option \<Rightarrow>
   (('l, 's) message option \<times> ('m, 's) message option) res \<times> 'st" where
  "bif_accept ro (Data d) r pend =
     (case f_send ro d r of (Err e, r') \<Rightarrow> (Err e, r') | (Ok _, r') \<Rightarrow> (Ok pend, r'))"
| "bif_accept ro (Flush s) r pend =
     (case f_flush ro r of (Err e, r') \<Rightarrow> (Err e, r') | (Ok _, r') \<Rightarrow> (Ok (Some (Flush s), Some (Flush s)), r'))"
| "bif_accept ro (Marker s) r pend = (Ok (Some (Marker s), Some (Marker s)), r)"

definition bif_turn ::
  "('e, ('l, 's) message, 'w) sink_ops \<Rightarrow> ('g, ('m, 's) message, 'w) sink_ops \<Rightarrow>
   ('i, 'l, 'm, 'st) bif_routine \<Rightarrow> ('i, 's, 'w) input_ops \<Rightarrow> ('p, 'w) parent_ops \<Rightarrow>
   ('l, 'm, 's, 'st, 'p, 'e, 'g) bifurcation \<times> 'w \<Rightarrow>
   ((('l, 'm, 's, 'st, 'p, 'e, 'g) bifurcation \<times> 'w) +
    (unit res \<times> ('l, 'm, 's, 'st, 'p, 'e, 'g) bifurcation \<times> 'w)) option" where
  "bif_turn sol sor ro io po st =
     (let (bf, w) = st in
      case side_round sol (f_next_left ro) (bf_routine bf) (bf_left bf) (bf_pleft bf) w of
        None \<Rightarrow> None
      | Some (ql, r1, fl, pl, w1) \<Rightarrow>
          (let bf1 = bf\<lparr>bf_routine := r1, bf_left := fl, bf_pleft := pl\<rparr> in
           case ql of
             Err e \<Rightarrow> Some (Inr (Err e, bf1, w1))
           | Ok left \<Rightarrow>
               (case side_round sor (f_next_right ro) (bf_routine bf1) (bf_right bf1) (bf_pright bf1) w1 of
                  None \<Rightarrow> None
                | Some (qr, r2, fr, pr, w2) \<Rightarrow>
                    (let bf2 = bf1\<lparr>bf_routine := r2, bf_right := fr, bf_pright := pr\<rparr> in
                     case qr of
                       Err e \<Rightarrow> Some (Inr (Err e, bf2, w2))
                     | Ok right \<Rightarrow>
                         (if left \<or> right then Some (Inr (Ok (), bf2, w2))
                          else case next_input io po (bf_workers bf2) w2 of
                                 None \<Rightarrow> None
                               | Some (qi, ws, w3) \<Rightarrow>
                                   (let bf3 = bf2\<lparr>bf_workers := ws\<rparr> in
                                    case qi of
                                      Err e \<Rightarrow> Some (Inr (Err e, bf3, w3))
                                    | Ok (IMessage m) \<Rightarrow>
                                        (case bif_accept ro m (bf_routine bf3) (bf_pleft bf3, bf_pright bf3) of
                                           (Err e, r') \<Rightarrow> Some (Inr (Err e, bf3\<lparr>bf_routine := r'\<rparr>, w3))
                                         | (Ok (pl', pr'), r') \<Rightarrow>
                                             Some (Inl (bf3\<lparr>bf_routine := r', bf_pleft := pl', bf_pright := pr'\<rparr>, w3)))
                                    | Ok IClosed \<Rightarrow>
                                        (let (_, fl', w4) = fanout_close sol (bf_left bf3) w3;
                                             (_, fr', w5) = fanout_close sor (bf_right bf3) w4
                                         in Some (Inr (Err Closed, bf3\<lparr>bf_left := fl', bf_right := fr'\<rparr>, w5)))))))))"

definition bif_work ::
  "('e, ('l, 's) message, 'w) sink_ops \<Rightarrow> ('g, ('m, 's) message, 'w) sink_ops \<Rightarrow>
   ('i, 'l, 'm, 'st) bif_routine \<Rightarrow> ('i, 's, 'w) input_ops \<Rightarrow> ('p, 'w) parent_ops \<Rightarrow>
   ('l, 'm, 's, 'st, 'p, 'e, 'g) bifurcation \<Rightarrow> 'w \<Rightarrow>
   (unit res \<times> ('l, 'm, 's, 'st, 'p, 'e, 'g) bifurcation \<times> 'w) option" where
  "bif_work sol sor ro io po bf w = loop (bif_turn sol sor ro io po) (bf, w)"

section \<open>The reference: a splitter\<close>

text \<open>\<open>splits\<close>: the routine takes \<open>ms\<close> and gives \<open>ol\<close> on the left and \<open>orr\<close> on the right. Each side's
  pending signal follows what the routine still had for that side; input is taken only when the
  routine has nothing for either side and no signal is pending.\<close>

inductive splits ::
  "('i, 'l, 'm, 'st) bif_routine \<Rightarrow> 'st \<Rightarrow> ('l, 's) message option \<Rightarrow> ('m, 's) message option \<Rightarrow>
   ('i, 's) message list \<Rightarrow> ('l, 's) message list \<Rightarrow> ('m, 's) message list \<Rightarrow>
   'st \<Rightarrow> ('l, 's) message option \<Rightarrow> ('m, 's) message option \<Rightarrow> bool"
  for ro where
  rest: "splits ro r pl pr [] [] [] r pl pr"
| left: "f_next_left ro r = (Ok (Some y), r1) \<Longrightarrow> splits ro r1 pl pr ms ol orr r' pl' pr' \<Longrightarrow>
     splits ro r pl pr ms (Data y # ol) orr r' pl' pr'"
| right: "f_next_right ro r = (Ok (Some y), r1) \<Longrightarrow> splits ro r1 pl pr ms ol orr r' pl' pr' \<Longrightarrow>
     splits ro r pl pr ms ol (Data y # orr) r' pl' pr'"
| left_signal: "f_next_left ro r = (Ok None, r1) \<Longrightarrow> splits ro r1 None pr ms ol orr r' pl' pr' \<Longrightarrow>
     splits ro r (Some s) pr ms (s # ol) orr r' pl' pr'"
| right_signal: "f_next_right ro r = (Ok None, r1) \<Longrightarrow> splits ro r1 pl None ms ol orr r' pl' pr' \<Longrightarrow>
     splits ro r pl (Some s) ms ol (s # orr) r' pl' pr'"
| left_idle: "f_next_left ro r = (Ok None, r1) \<Longrightarrow> splits ro r1 None pr ms ol orr r' pl' pr' \<Longrightarrow>
     splits ro r None pr ms ol orr r' pl' pr'"
| right_idle: "f_next_right ro r = (Ok None, r1) \<Longrightarrow> splits ro r1 pl None ms ol orr r' pl' pr' \<Longrightarrow>
     splits ro r pl None ms ol orr r' pl' pr'"
| inp: "f_next_left ro r = (Ok None, r1) \<Longrightarrow> f_next_right ro r1 = (Ok None, r2) \<Longrightarrow>
     bif_accept ro m r2 (None, None) = (Ok (pl1, pr1), r3) \<Longrightarrow>
     splits ro r3 pl1 pr1 ms ol orr r' pl' pr' \<Longrightarrow> splits ro r None None (m # ms) ol orr r' pl' pr'"

lemma splits_append:
  "splits ro r pl pr ms ol orr r1 pl1 pr1 \<Longrightarrow> splits ro r1 pl1 pr1 ms2 ol2 or2 r2 pl2 pr2 \<Longrightarrow>
     splits ro r pl pr (ms @ ms2) (ol @ ol2) (orr @ or2) r2 pl2 pr2"
  by (induction rule: splits.induct) (auto intro: splits.intros)

definition owed_signal :: "('d, 's) message option \<Rightarrow> ('d, 's) message list" where
  "owed_signal p = (case p of None \<Rightarrow> [] | Some s \<Rightarrow> [s])"

lemma owed_signal_simps [simp]: "owed_signal None = []" "owed_signal (Some s) = [s]"
  by (simp_all add: owed_signal_def)

lemma bif_accept_owed:
  assumes "bif_accept ro m r (None, None) = (Ok (pl, pr), r')"
  shows "owed_signal pl = signal_of m" "owed_signal pr = signal_of m"
    "\<And>s. pl = Some s \<Longrightarrow> \<not> is_data s" "\<And>s. pr = Some s \<Longrightarrow> \<not> is_data s"
  using assms by (cases m; auto split: prod.splits result.splits)+

text \<open>Both sides give every signal of the input, once and in order.\<close>

lemma splits_signals:
  "splits ro r pl pr ms ol orr r' pl' pr' \<Longrightarrow>
   (\<And>s. pl = Some s \<Longrightarrow> \<not> is_data s) \<Longrightarrow> (\<And>s. pr = Some s \<Longrightarrow> \<not> is_data s) \<Longrightarrow>
     signals ol @ owed_signal pl' = owed_signal pl @ concat (map signal_of ms) \<and>
     signals orr @ owed_signal pr' = owed_signal pr @ concat (map signal_of ms)"
proof (induction rule: splits.induct)
  case (inp r r1 r2 m pl1 pr1 r3 ms ol orr r' pl' pr')
  from bif_accept_owed [OF inp.hyps(3)] inp.IH show ?case by simp
qed (auto simp: signals_def)

section \<open>Rounds refine the splitter\<close>

text \<open>What one side gives in its part of a round.\<close>

context message_sink
begin

lemma side_round_gives:
  assumes s: "side_round ops nxt r f p w = Some (Ok b, r', f', p', w')" and ok: "fanout_ok f"
  shows "fanout_ok f' \<and> f_edges f' = f_edges f \<and>
    (\<exists>os. (\<forall>i < length (f_edges f).
        took (f_edges f ! i) w' @ fanout_due f' i = (took (f_edges f ! i) w @ fanout_due f i) @ os) \<and>
      (b \<and> os = [] \<and> r' = r \<and> p' = p \<or>
       b \<and> (\<exists>y. os = [Data y] \<and> nxt r = (Ok (Some y), r') \<and> p' = p) \<or>
       b \<and> (\<exists>m. os = [m] \<and> nxt r = (Ok None, r') \<and> p = Some m \<and> p' = None) \<or>
       \<not> b \<and> os = [] \<and> nxt r = (Ok None, r') \<and> p = None \<and> p' = None \<and> f' = f \<and> w' = w))"
proof (cases "fanout_ready f")
  case False
  with s obtain rot where "fanout_resume ops f w = Some (Ok rot, f', w')" and e: "b" "r' = r" "p' = p"
    by (auto simp: side_round_def split: option.splits result.splits)
  from fanout_resume_lanes [OF ok this(1)] e show ?thesis by auto
next
  case True
  then have none: "f_suspended f = None" and due: "\<And>i. fanout_due f i = []"
    by (simp_all add: fanout_ready_def fanout_due_def)
  obtain q r1 where n: "nxt r = (q, r1)" by (cases "nxt r") auto
  with s True obtain y where q: "q = Ok y" by (cases q) (auto simp: side_round_def)
  have push: "\<exists>rot. fanout_rotate ops m f w = (Ok rot, f', w')"
    if "ready_push ops m f w = (Ok rot, f', w')" for m rot
    using that True by (simp add: fanout_rotate_def)
  have susp: "fanout_suspended f = None" using none by (simp add: fanout_suspended_def)
  have lanes: "fanout_ok f' \<and> f_edges f' = f_edges f \<and> (\<forall>i < length (f_edges f).
        took (f_edges f ! i) w' @ fanout_due f' i = (took (f_edges f ! i) w @ fanout_due f i) @ [m])"
    if "ready_push ops m f w = (Ok rot, f', w')" for m rot
    using push [OF that] fanout_rotate_lanes [OF ok susp] due
    by (fastforce simp: fanout_lanes_def fanout_received_def)
  show ?thesis
  proof (cases y)
    case (Some d)
    with s True n q obtain rot where "ready_push ops (Data d) f w = (Ok rot, f', w')"
        and e: "b" "r' = r1" "p' = p"
      by (auto simp: side_round_def split: prod.splits result.splits)
    from lanes [OF this(1)] e n q Some show ?thesis by auto
  next
    case None
    show ?thesis
    proof (cases p)
      case (Some m)
      with s True n q None obtain rot where "ready_push ops m f w = (Ok rot, f', w')"
          and e: "b" "r' = r1" "p' = None"
        by (auto simp: side_round_def split: prod.splits result.splits)
      from lanes [OF this(1)] e n q None Some show ?thesis by auto
    next
      case p: None
      with s True n q None ok show ?thesis by (auto simp: side_round_def)
    qed
  qed
qed

end

text \<open>The lanes of a fan-out, grown by \<open>os\<close> on every edge.\<close>

definition lanes_grow ::
  "('e \<Rightarrow> 'w \<Rightarrow> 'm list) \<Rightarrow> ('e, 'm) fanout \<Rightarrow> 'w \<Rightarrow> ('e, 'm) fanout \<Rightarrow> 'w \<Rightarrow> 'm list \<Rightarrow> bool" where
  "lanes_grow took f w f' w' os =
     (fanout_ok f' \<and> f_edges f' = f_edges f \<and>
      (\<forall>i < length (f_edges f).
         took (f_edges f ! i) w' @ fanout_due f' i = (took (f_edges f ! i) w @ fanout_due f i) @ os))"

lemma lanes_grow_trans:
  "lanes_grow took f w f1 w1 os \<Longrightarrow> lanes_grow took f1 w1 f2 w2 os2 \<Longrightarrow> lanes_grow took f w f2 w2 (os @ os2)"
  by (simp add: lanes_grow_def)

lemma lanes_grow_same:
  "fanout_ok f \<Longrightarrow> (\<And>e. took e w' = took e w) \<Longrightarrow> lanes_grow took f w f w' []"
  by (simp add: lanes_grow_def)

text \<open>From \<open>(bf, w)\<close> to \<open>(bf', w')\<close> the node split what it consumed, and delivered both parts.\<close>

definition bif_refines ::
  "('e \<Rightarrow> 'w \<Rightarrow> ('l, 's) message list) \<Rightarrow> ('g \<Rightarrow> 'w \<Rightarrow> ('m, 's) message list) \<Rightarrow>
   ('w \<Rightarrow> ('i, 's) message list) \<Rightarrow> ('i, 'l, 'm, 'st) bif_routine \<Rightarrow>
   ('l, 'm, 's, 'st, 'p, 'e, 'g) bifurcation \<Rightarrow> 'w \<Rightarrow> ('l, 'm, 's, 'st, 'p, 'e, 'g) bifurcation \<Rightarrow> 'w \<Rightarrow> bool" where
  "bif_refines tookl tookr recv ro bf w bf' w' =
     (\<exists>ms ol orr. recv w' = recv w @ ms \<and>
        splits ro (bf_routine bf) (bf_pleft bf) (bf_pright bf) ms ol orr (bf_routine bf') (bf_pleft bf') (bf_pright bf') \<and>
        lanes_grow tookl (bf_left bf) w (bf_left bf') w' ol \<and>
        lanes_grow tookr (bf_right bf) w (bf_right bf') w' orr)"

lemma bif_refines_refl:
  "fanout_ok (bf_left bf) \<Longrightarrow> fanout_ok (bf_right bf) \<Longrightarrow> bif_refines tookl tookr recv ro bf w bf w"
  by (auto simp: bif_refines_def lanes_grow_def intro: splits.rest)

lemma bif_refines_ok:
  "bif_refines tookl tookr recv ro bf w bf' w' \<Longrightarrow> fanout_ok (bf_left bf') \<and> fanout_ok (bf_right bf')"
  by (auto simp: bif_refines_def lanes_grow_def)

lemma bif_refines_trans:
  assumes "bif_refines tookl tookr recv ro bf w bf1 w1" "bif_refines tookl tookr recv ro bf1 w1 bf2 w2"
  shows "bif_refines tookl tookr recv ro bf w bf2 w2"
proof -
  from assms(1) obtain ms ol orr where 1: "recv w1 = recv w @ ms"
      "splits ro (bf_routine bf) (bf_pleft bf) (bf_pright bf) ms ol orr (bf_routine bf1) (bf_pleft bf1) (bf_pright bf1)"
      "lanes_grow tookl (bf_left bf) w (bf_left bf1) w1 ol" "lanes_grow tookr (bf_right bf) w (bf_right bf1) w1 orr"
    by (auto simp: bif_refines_def)
  from assms(2) obtain ms2 ol2 or2 where 2: "recv w2 = recv w1 @ ms2"
      "splits ro (bf_routine bf1) (bf_pleft bf1) (bf_pright bf1) ms2 ol2 or2 (bf_routine bf2) (bf_pleft bf2) (bf_pright bf2)"
      "lanes_grow tookl (bf_left bf1) w1 (bf_left bf2) w2 ol2" "lanes_grow tookr (bf_right bf1) w1 (bf_right bf2) w2 or2"
    by (auto simp: bif_refines_def)
  from splits_append [OF 1(2) 2(2)] lanes_grow_trans [OF 1(3) 2(3)] lanes_grow_trans [OF 1(4) 2(4)] 1(1) 2(1)
  show ?thesis unfolding bif_refines_def
    by (intro exI [of _ "ms @ ms2"]) auto
qed

locale bif_world = lf: message_sink sol tookl + rt: message_sink sor tookr
  for sol :: "('e, ('l, 's) message, 'w) sink_ops" and tookl :: "'e \<Rightarrow> 'w \<Rightarrow> ('l, 's) message list"
    and sor :: "('g, ('m, 's) message, 'w) sink_ops" and tookr :: "'g \<Rightarrow> 'w \<Rightarrow> ('m, 's) message list" +
  fixes po :: "('p, 'w) parent_ops" and recv :: "'w \<Rightarrow> ('i, 's) message list" and io :: "('i, 's, 'w) input_ops"
  assumes left_try: "op_try_push sol e m w = (q, w1) \<Longrightarrow> recv w1 = recv w \<and> tookr g w1 = tookr g w"
    and left_push: "op_push sol e m w = Some (u, w1) \<Longrightarrow> recv w1 = recv w \<and> tookr g w1 = tookr g w"
    and right_try: "op_try_push sor g n w = (q', w1) \<Longrightarrow> recv w1 = recv w \<and> tookl e w1 = tookl e w"
    and right_push: "op_push sor g n w = Some (u, w1) \<Longrightarrow> recv w1 = recv w \<and> tookl e w1 = tookl e w"
    and parents: "pa_work po p w = Some (u, w1) \<Longrightarrow> recv w1 = recv w \<and> tookl e w1 = tookl e w \<and> tookr g w1 = tookr g w"
    and parents_drop: "recv (pa_drop po p w) = recv w \<and> tookl e (pa_drop po p w) = tookl e w \<and>
      tookr g (pa_drop po p w) = tookr g w"
    and polls: "inp_poll io w = (qi, w1) \<Longrightarrow>
      recv w1 = recv w @ popped qi \<and> tookl e w1 = tookl e w \<and> tookr g w1 = tookr g w"
    and waits: "inp_wait io w = Some (u, w1) \<Longrightarrow> recv w1 = recv w \<and> tookl e w1 = tookl e w \<and> tookr g w1 = tookr g w"
begin

text \<open>The view of the world each part leaves alone.\<close>

definition left_view :: "'w \<Rightarrow> ('i, 's) message list \<times> ('g \<Rightarrow> ('m, 's) message list)" where
  "left_view w = (recv w, \<lambda>g. tookr g w)"

definition right_view :: "'w \<Rightarrow> ('i, 's) message list \<times> ('e \<Rightarrow> ('l, 's) message list)" where
  "right_view w = (recv w, \<lambda>e. tookl e w)"

definition outs_view :: "'w \<Rightarrow> ('e \<Rightarrow> ('l, 's) message list) \<times> ('g \<Rightarrow> ('m, 's) message list)" where
  "outs_view w = ((\<lambda>e. tookl e w), \<lambda>g. tookr g w)"

lemma work_each_loop_view:
  "work_each_loop po i ws w = Some (q, ws', w') \<Longrightarrow> recv w' = recv w \<and> outs_view w' = outs_view w"
proof (induction "length ws - i" arbitrary: i ws w rule: less_induct)
  case less
  show ?case
  proof (cases "i < length ws")
    case False
    with less.prems show ?thesis by (simp add: work_each_loop.simps [of po i ws w])
  next
    case True
    with less.prems obtain r w1 where p: "pa_work po (ws ! i) w = Some (r, w1)"
      by (subst (asm) work_each_loop.simps) (auto split: option.splits)
    have v: "recv w1 = recv w \<and> outs_view w1 = outs_view w"
      "recv (pa_drop po (ws ! i) w1) = recv w1 \<and> outs_view (pa_drop po (ws ! i) w1) = outs_view w1"
      using parents [OF p] parents_drop [where p = "ws ! i" and w = w1] by (simp_all add: outs_view_def)
    show ?thesis
    proof (cases r)
      case (Ok u)
      with less.prems True p have "work_each_loop po (i + 1) ws w1 = Some (q, ws', w')"
        by (subst (asm) work_each_loop.simps) simp
      with less.hyps [OF _ this] True v show ?thesis by simp
    next
      case (Err e)
      show ?thesis
      proof (cases "is_closed e")
        case c: True
        with Err less.prems True p have "work_each_loop po i (swap_remove i ws) (pa_drop po (ws ! i) w1) = Some (q, ws', w')"
          by (subst (asm) work_each_loop.simps) simp
        with less.hyps [OF _ this] True v show ?thesis by simp
      next
        case c: False
        with Err less.prems True p have "w' = w1" by (subst (asm) work_each_loop.simps) simp
        with v show ?thesis by simp
      qed
    qed
  qed
qed

lemma work_each_view:
  "work_each po ws w = Some (q, ws', w') \<Longrightarrow> recv w' = recv w \<and> outs_view w' = outs_view w"
  using work_each_loop_view [of 0 ws w] by (auto simp: work_each_def split: option.splits result.splits)

lemma next_input_found:
  assumes l: "next_input io po ws w = Some (qi, ws', w')"
  shows "outs_view w' = outs_view w \<and>
    (\<forall>i. qi = Ok i \<longrightarrow> recv w' = recv w @ (case i of IMessage m \<Rightarrow> [m] | IClosed \<Rightarrow> []))"
proof -
  have P: "inp_poll io v = (q1, v1) \<Longrightarrow> recv v1 = recv v @ popped q1 \<and> outs_view v1 = outs_view v" for v q1 v1
    using polls by (simp add: outs_view_def)
  have W: "inp_wait io v = Some (u, v1) \<Longrightarrow> recv v1 = recv v \<and> outs_view v1 = outs_view v" for v u v1
    using waits by (simp add: outs_view_def)
  have L: "loop (next_input_body io po) (ws, w) = Some (qi, ws', w')" using l by (simp add: next_input_def)
  let ?P = "\<lambda>(ws1 :: 'p list, w1). recv w1 = recv w \<and> outs_view w1 = outs_view w"
  let ?Q = "\<lambda>(q1 :: ('i, 's) message incoming res, ws1 :: 'p list, w1). outs_view w1 = outs_view w \<and>
      (\<forall>i. q1 = Ok i \<longrightarrow> recv w1 = recv w @ (case i of IMessage m \<Rightarrow> [m] | IClosed \<Rightarrow> []))"
  have "?Q (qi, ws', w')"
  proof (rule loop_invariant [OF L, where P = ?P and Q = ?Q])
    show "?P (ws, w)" by simp
    show "?P s'" if "?P s" "next_input_body io po s = Some (Inl s')" for s s'
      using that by (cases s)
        (auto simp: next_input_body_def split: prod.splits result.splits option.splits if_splits
          dest!: P W work_each_view)
    show "?Q b" if "?P s" "next_input_body io po s = Some (Inr b)" for s b
      using that by (cases s)
        (auto simp: next_input_body_def split: prod.splits result.splits option.splits if_splits
          dest!: P W work_each_view)
  qed
  then show ?thesis by simp
qed

text \<open>A side's part of a round, seen by the splitter: what it gives, and what it leaves alone.\<close>

lemma left_round:
  assumes s: "side_round sol (f_next_left ro) r f p w = Some (Ok b, r', f', p', w')" and ok: "fanout_ok f"
  shows "left_view w' = left_view w \<and>
    (\<exists>os. lanes_grow tookl f w f' w' os \<and> splits ro r p q [] os [] r' p' q) \<and>
    (\<not> b \<longrightarrow> f_next_left ro r = (Ok None, r') \<and> p = None \<and> p' = None \<and> f' = f \<and> w' = w)"
proof (intro conjI)
  have V: "fanout_resume sol f v = Some (x, g, v1) \<Longrightarrow> left_view v1 = left_view v"
      "ready_push sol m f v = (x, g, v1) \<Longrightarrow> left_view v1 = left_view v" for v x g v1 m
    by (rule fanout_resume_view [of sol left_view]; auto simp: left_view_def dest: left_try left_push)
      (unfold ready_push_def rotate_from_def, rule rotate_edges_view [of sol left_view];
        auto simp: left_view_def dest: left_try)
  show "left_view w' = left_view w"
    using s by (auto simp: side_round_def split: if_splits option.splits result.splits prod.splits dest!: V)
  note G = lf.side_round_gives [OF s ok]
  then obtain os where "lanes_grow tookl f w f' w' os" "b \<and> os = [] \<and> r' = r \<and> p' = p \<or>
       b \<and> (\<exists>y. os = [Data y] \<and> f_next_left ro r = (Ok (Some y), r') \<and> p' = p) \<or>
       b \<and> (\<exists>m. os = [m] \<and> f_next_left ro r = (Ok None, r') \<and> p = Some m \<and> p' = None) \<or>
       \<not> b \<and> os = [] \<and> f_next_left ro r = (Ok None, r') \<and> p = None \<and> p' = None \<and> f' = f \<and> w' = w"
    unfolding lanes_grow_def by blast
  then show "\<exists>os. lanes_grow tookl f w f' w' os \<and> splits ro r p q [] os [] r' p' q"
    by (auto intro!: exI [of _ os] intro: splits.rest splits.left [OF _ splits.rest]
        splits.left_signal [OF _ splits.rest] splits.left_idle [OF _ splits.rest])
  from G show "\<not> b \<longrightarrow> f_next_left ro r = (Ok None, r') \<and> p = None \<and> p' = None \<and> f' = f \<and> w' = w"
    by blast
qed

lemma right_round:
  assumes s: "side_round sor (f_next_right ro) r f p w = Some (Ok b, r', f', p', w')" and ok: "fanout_ok f"
  shows "right_view w' = right_view w \<and>
    (\<exists>os. lanes_grow tookr f w f' w' os \<and> splits ro r q p [] [] os r' q p') \<and>
    (\<not> b \<longrightarrow> f_next_right ro r = (Ok None, r') \<and> p = None \<and> p' = None \<and> f' = f \<and> w' = w)"
proof (intro conjI)
  have V: "fanout_resume sor f v = Some (x, g, v1) \<Longrightarrow> right_view v1 = right_view v"
      "ready_push sor m f v = (x, g, v1) \<Longrightarrow> right_view v1 = right_view v" for v x g v1 m
    by (rule fanout_resume_view [of sor right_view]; auto simp: right_view_def dest: right_try right_push)
      (unfold ready_push_def rotate_from_def, rule rotate_edges_view [of sor right_view];
        auto simp: right_view_def dest: right_try)
  show "right_view w' = right_view w"
    using s by (auto simp: side_round_def split: if_splits option.splits result.splits prod.splits dest!: V)
  note G = rt.side_round_gives [OF s ok]
  then obtain os where "lanes_grow tookr f w f' w' os" "b \<and> os = [] \<and> r' = r \<and> p' = p \<or>
       b \<and> (\<exists>y. os = [Data y] \<and> f_next_right ro r = (Ok (Some y), r') \<and> p' = p) \<or>
       b \<and> (\<exists>m. os = [m] \<and> f_next_right ro r = (Ok None, r') \<and> p = Some m \<and> p' = None) \<or>
       \<not> b \<and> os = [] \<and> f_next_right ro r = (Ok None, r') \<and> p = None \<and> p' = None \<and> f' = f \<and> w' = w"
    unfolding lanes_grow_def by blast
  then show "\<exists>os. lanes_grow tookr f w f' w' os \<and> splits ro r q p [] [] os r' q p'"
    by (auto intro!: exI [of _ os] intro: splits.rest splits.right [OF _ splits.rest]
        splits.right_signal [OF _ splits.rest] splits.right_idle [OF _ splits.rest])
  from G show "\<not> b \<longrightarrow> f_next_right ro r = (Ok None, r') \<and> p = None \<and> p' = None \<and> f' = f \<and> w' = w"
    by blast
qed

lemma bif_turn_refines:
  assumes t: "bif_turn sol sor ro io po (bf, w) = Some b"
    and ok: "fanout_ok (bf_left bf)" "fanout_ok (bf_right bf)"
  shows "(\<forall>bf' w'. b = Inl (bf', w') \<longrightarrow> bif_refines tookl tookr recv ro bf w bf' w') \<and>
    (\<forall>u bf' w'. b = Inr (Ok u, bf', w') \<longrightarrow> bif_refines tookl tookr recv ro bf w bf' w')"
proof -
  obtain ql r1 fl pl w1 where l: "side_round sol (f_next_left ro) (bf_routine bf) (bf_left bf) (bf_pleft bf) w =
      Some (ql, r1, fl, pl, w1)" using t by (auto simp: bif_turn_def split: option.splits)
  show ?thesis
  proof (cases ql)
    case (Err e)
    with t l show ?thesis by (auto simp: bif_turn_def)
  next
    case (Ok left)
    note l = l [unfolded Ok]
    from left_round [OF l ok(1)] obtain ol where
      L: "recv w1 = recv w" "\<And>g. tookr g w1 = tookr g w" "lanes_grow tookl (bf_left bf) w fl w1 ol"
        "splits ro (bf_routine bf) (bf_pleft bf) (bf_pright bf) ([] :: ('i, 's) message list) ol [] r1 pl (bf_pright bf)"
        "\<not> left \<Longrightarrow> f_next_left ro (bf_routine bf) = (Ok None, r1) \<and> bf_pleft bf = None \<and> pl = None \<and>
           fl = bf_left bf \<and> w1 = w"
      by (auto simp: left_view_def fun_eq_iff)
    obtain qr r2 fr pr w2 where r: "side_round sor (f_next_right ro) r1 (bf_right bf) (bf_pright bf) w1 =
        Some (qr, r2, fr, pr, w2)" using t l by (auto simp: bif_turn_def Let_def split: option.splits)
    show ?thesis
    proof (cases qr)
      case (Err e)
      with t l r show ?thesis by (auto simp: bif_turn_def Let_def)
    next
      case (Ok right)
      note r = r [unfolded Ok]
      from right_round [OF r ok(2)] obtain orr where
        R: "recv w2 = recv w1" "\<And>e. tookl e w2 = tookl e w1" "lanes_grow tookr (bf_right bf) w1 fr w2 orr"
          "splits ro r1 pl (bf_pright bf) ([] :: ('i, 's) message list) [] orr r2 pl pr"
          "\<not> right \<Longrightarrow> f_next_right ro r1 = (Ok None, r2) \<and> bf_pright bf = None \<and> pr = None \<and>
             fr = bf_right bf \<and> w2 = w1"
        by (auto simp: right_view_def fun_eq_iff)
      have gl: "lanes_grow tookl (bf_left bf) w fl w2 ol" and gr: "lanes_grow tookr (bf_right bf) w fr w2 orr"
        using L(3) R(3) L(2) R(2) by (simp_all add: lanes_grow_def)
      show ?thesis
      proof (cases "left \<or> right")
        case True
        with t l r have b: "b = Inr (Ok (), bf\<lparr>bf_routine := r2, bf_left := fl, bf_pleft := pl,
            bf_right := fr, bf_pright := pr\<rparr>, w2)" by (auto simp: bif_turn_def Let_def)
        with splits_append [OF L(4) R(4)] L(1) R(1) gl gr show ?thesis by (auto simp: bif_refines_def)
      next
        case False
        then have idle: "f_next_left ro (bf_routine bf) = (Ok None, r1)" "f_next_right ro r1 = (Ok None, r2)"
            "bf_pleft bf = None" "bf_pright bf = None" "pl = None" "pr = None" "fl = bf_left bf"
            "fr = bf_right bf" "w2 = w"
          using L(5) R(5) by auto
        obtain qi ws w3 where n: "next_input io po (bf_workers bf) w = Some (qi, ws, w3)"
          using t l r False idle(9) by (auto simp: bif_turn_def Let_def split: option.splits)
        note N = next_input_found [OF n]
        have same: "tookl e w3 = tookl e w" "tookr g w3 = tookr g w" for e g
          using N by (auto simp: outs_view_def fun_eq_iff)
        show ?thesis
        proof (cases "\<exists>m pl' pr' r3. qi = Ok (IMessage m) \<and> bif_accept ro m r2 (None, None) = (Ok (pl', pr'), r3)")
          case True
          then obtain m pl' pr' r3 where m: "qi = Ok (IMessage m)" "bif_accept ro m r2 (None, None) = (Ok (pl', pr'), r3)"
            by blast
          with t l r n False idle have b: "b = Inl (bf\<lparr>bf_routine := r3, bf_workers := ws, bf_pleft := pl', bf_pright := pr'\<rparr>, w3)"
            by (auto simp: bif_turn_def Let_def)
          have "splits ro (bf_routine bf) None None [m] [] [] r3 pl' pr'"
            using splits.inp [OF idle(1,2) m(2) splits.rest] .
          moreover have "recv w3 = recv w @ [m]" using N m(1) by simp
          ultimately show ?thesis
            using b idle(3,4) lanes_grow_same [of "bf_left bf" tookl w3 w, OF ok(1) same(1)]
              lanes_grow_same [of "bf_right bf" tookr w3 w, OF ok(2) same(2)]
            by (auto simp: bif_refines_def)
        next
          case none: False
          with t l r n False idle show ?thesis
            by (auto simp: bif_turn_def Let_def split: result.splits incoming.splits prod.splits)
        qed
      qed
    qed
  qed
qed

lemma bif_work_refines:
  fixes bf :: "('l, 'm, 's, 'q, 'p, 'e, 'g) bifurcation"
  assumes run: "bif_work sol sor ro io po bf w = Some (Ok u, bf', w')"
    and ok: "fanout_ok (bf_left bf)" "fanout_ok (bf_right bf)"
  shows "bif_refines tookl tookr recv ro bf w bf' w'"
proof -
  let ?P = "\<lambda>(b1 :: ('l, 'm, 's, 'q, 'p, 'e, 'g) bifurcation, w1). bif_refines tookl tookr recv ro bf w b1 w1"
  let ?Q = "\<lambda>(q :: unit res, b1 :: ('l, 'm, 's, 'q, 'p, 'e, 'g) bifurcation, w1). q = Ok () \<longrightarrow> bif_refines tookl tookr recv ro bf w b1 w1"
  have L: "loop (bif_turn sol sor ro io po) (bf, w) = Some (Ok u, bf', w')" using run by (simp add: bif_work_def)
  have step: "(\<forall>b2 w2. b = Inl (b2, w2) \<longrightarrow> bif_refines tookl tookr recv ro bf w b2 w2) \<and>
      (\<forall>u b2 w2. b = Inr (Ok u, b2, w2) \<longrightarrow> bif_refines tookl tookr recv ro bf w b2 w2)"
    if "bif_refines tookl tookr recv ro bf w b1 w1" "bif_turn sol sor ro io po (b1, w1) = Some b" for b1 w1 b
    using bif_turn_refines [OF that(2)] bif_refines_ok [OF that(1)] bif_refines_trans [OF that(1)] by blast
  have "?Q (Ok u, bf', w')"
  proof (rule loop_invariant [OF L, where P = ?P and Q = ?Q])
    show "?P (bf, w)" using bif_refines_refl [OF ok] by simp
    show "?P s'" if p: "?P s" and t: "bif_turn sol sor ro io po s = Some (Inl s')" for s s'
    proof -
      obtain b1 w1 b2 w2 where e: "s = (b1, w1)" "s' = (b2, w2)" by (cases s; cases s') blast
      show ?thesis using step [of b1 w1 "Inl (b2, w2)"] p t unfolding e by simp
    qed
    show "?Q b" if p: "?P s" and t: "bif_turn sol sor ro io po s = Some (Inr b)" for s b
    proof -
      obtain b1 w1 q b2 w2 where e: "s = (b1, w1)" "b = (q, b2, w2)" by (cases s; cases b) blast
      show ?thesis using step [of b1 w1 "Inr (q, b2, w2)"] p t unfolding e by simp
    qed
  qed
  then show ?thesis by simp
qed

end

section \<open>A bifurcation over sync edges\<close>

record ('i, 'l, 'm, 's) bif_sys =
  fs_in :: "('i, 's) shared"
  fs_recv :: "('i, 's) message list"
  fs_left :: "('l, 's) sync_world"
  fs_right :: "('m, 's) sync_world"

text \<open>Other threads change anything but the record of what this node popped and pushed.\<close>

definition fs_keep :: "('i, 'l, 'm, 's) bif_sys \<Rightarrow> ('i, 'l, 'm, 's) bif_sys \<Rightarrow> ('i, 'l, 'm, 's) bif_sys" where
  "fs_keep w w' = w'\<lparr>fs_recv := fs_recv w, fs_left := (fs_left w')\<lparr>sw_took := sw_took (fs_left w)\<rparr>,
     fs_right := (fs_right w')\<lparr>sw_took := sw_took (fs_right w)\<rparr>\<rparr>"

definition fs_left_sink ::
  "(('l, 's) sync_world \<Rightarrow> ('l, 's) sync_world option) \<Rightarrow>
   (('i, 'l, 'm, 's) bif_sys \<Rightarrow> ('i, 'l, 'm, 's) bif_sys) \<Rightarrow>
   (nat \<times> nat, ('l, 's) message, ('i, 'l, 'm, 's) bif_sys) sink_ops" where
  "fs_left_sink env others =
     \<lparr>op_try_push = (\<lambda>e m w. let (r, v) = sw_try_push e m (fs_left w) in (r, w\<lparr>fs_left := v\<rparr>)),
      op_push = (\<lambda>e m w. case sw_push env e m (fs_left w) of
                   None \<Rightarrow> None
                 | Some (r, v) \<Rightarrow> Some (r, (fs_keep w (others w))\<lparr>fs_left := v\<rparr>)),
      op_close = (\<lambda>e w. let (r, v) = sw_close e (fs_left w) in (r, w\<lparr>fs_left := v\<rparr>)),
      op_schedule = (\<lambda>k e w. w\<lparr>fs_left := sw_schedule k e (fs_left w)\<rparr>)\<rparr>"

definition fs_right_sink ::
  "(('m, 's) sync_world \<Rightarrow> ('m, 's) sync_world option) \<Rightarrow>
   (('i, 'l, 'm, 's) bif_sys \<Rightarrow> ('i, 'l, 'm, 's) bif_sys) \<Rightarrow>
   (nat \<times> nat, ('m, 's) message, ('i, 'l, 'm, 's) bif_sys) sink_ops" where
  "fs_right_sink env others =
     \<lparr>op_try_push = (\<lambda>e m w. let (r, v) = sw_try_push e m (fs_right w) in (r, w\<lparr>fs_right := v\<rparr>)),
      op_push = (\<lambda>e m w. case sw_push env e m (fs_right w) of
                   None \<Rightarrow> None
                 | Some (r, v) \<Rightarrow> Some (r, (fs_keep w (others w))\<lparr>fs_right := v\<rparr>)),
      op_close = (\<lambda>e w. let (r, v) = sw_close e (fs_right w) in (r, w\<lparr>fs_right := v\<rparr>)),
      op_schedule = (\<lambda>k e w. w\<lparr>fs_right := sw_schedule k e (fs_right w)\<rparr>)\<rparr>"

definition fs_input ::
  "(('i, 'l, 'm, 's) bif_sys \<Rightarrow> ('i, 'l, 'm, 's) bif_sys option) \<Rightarrow> ('i, 's, ('i, 'l, 'm, 's) bif_sys) input_ops" where
  "fs_input env =
     \<lparr>inp_poll = (\<lambda>w. let (r, sh, _) = receiver_poll (fs_in w)
                     in (r, w\<lparr>fs_in := sh, fs_recv := fs_recv w @ popped r\<rparr>)),
      inp_wait = (\<lambda>w. case wait_front
                         (\<lambda>(sh, v). map_option (\<lambda>v'. (fs_in v', v')) (env (v\<lparr>fs_in := sh\<rparr>)))
                         (fs_in w, w) of
                    None \<Rightarrow> None
                  | Some (r, sh, v) \<Rightarrow> Some (r, fs_keep w (v\<lparr>fs_in := sh\<rparr>)))\<rparr>"

definition fs_parents ::
  "('p \<Rightarrow> ('i, 'l, 'm, 's) bif_sys \<Rightarrow> (unit res \<times> ('i, 'l, 'm, 's) bif_sys) option) \<Rightarrow>
   ('p \<Rightarrow> ('i, 'l, 'm, 's) bif_sys \<Rightarrow> ('i, 'l, 'm, 's) bif_sys) \<Rightarrow>
   ('p, ('i, 'l, 'm, 's) bif_sys) parent_ops" where
  "fs_parents work drp =
     \<lparr>pa_work = (\<lambda>p w. map_option (\<lambda>(r, w'). (r, fs_keep w w')) (work p w)),
      pa_drop = (\<lambda>p w. fs_keep w (drp p w))\<rparr>"

lemma fs_keep_fields [simp]:
  "fs_recv (fs_keep w w') = fs_recv w" "sw_took (fs_left (fs_keep w w')) = sw_took (fs_left w)"
  "sw_took (fs_right (fs_keep w w')) = sw_took (fs_right w)"
  by (simp_all add: fs_keep_def)

interpretation bif_sys: bif_world "fs_left_sink envl others" "\<lambda>e w. sw_took (fs_left w) e"
    "fs_right_sink envr others'" "\<lambda>e w. sw_took (fs_right w) e" "fs_parents f g" fs_recv "fs_input env"
proof unfold_locales
  show "refused t = Some m' \<Longrightarrow> m' = m"
    if "op_try_push (fs_left_sink envl others) e m w = (Ok t, w')" for e m w t w' m'
    using that sync_sink.try_hands_back [of envl e m "fs_left w"]
    by (cases "sw_try_push e m (fs_left w)") (auto simp: fs_left_sink_def sync_sink_def)
  show "refused t = Some m' \<Longrightarrow> m' = m"
    if "op_try_push (fs_right_sink envr others') e m w = (Ok t, w')" for e m w t w' m'
    using that sync_sink.try_hands_back [of envr e m "fs_right w"]
    by (cases "sw_try_push e m (fs_right w)") (auto simp: fs_right_sink_def sync_sink_def)
qed (auto simp: fs_left_sink_def fs_right_sink_def fs_input_def fs_parents_def sw_try_push_took sw_push_took
    split: prod.splits option.splits if_splits)

section \<open>Properties\<close>

text \<open>C15. A work bifurcation delivers to each side exactly what its routine makes for that side. In a
  call of \<open>work\<close> that returns \<open>Ok\<close>, with any routine, parents and interleaving of other threads, every
  edge of a side receives (or is owed by that side's fan-out) the same messages; together they are a split
  of what the call consumed, in which a side's Flush or Marker follows all outputs the routine still had
  for that side, and an input is taken only when neither side has anything left. The signals each side
  has got, with the one still pending there, are the signals consumed, once each and in order.\<close>

theorem bifurcation_delivers_split:
  assumes ok: "fanout_ok (bf_left bf)" "fanout_ok (bf_right bf)"
    and pend: "\<forall>s. bf_pleft bf = Some s \<longrightarrow> \<not> is_data s" "\<forall>s. bf_pright bf = Some s \<longrightarrow> \<not> is_data s"
    and run: "bif_work (fs_left_sink envl others) (fs_right_sink envr others') ro (fs_input env) (fs_parents f g) bf w =
                Some (Ok u, bf', w')"
  shows "\<exists>ms ol orr. fs_recv w' = fs_recv w @ ms \<and>
           splits ro (bf_routine bf) (bf_pleft bf) (bf_pright bf) ms ol orr
             (bf_routine bf') (bf_pleft bf') (bf_pright bf') \<and>
           signals ol @ owed_signal (bf_pleft bf') = owed_signal (bf_pleft bf) @ concat (map signal_of ms) \<and>
           signals orr @ owed_signal (bf_pright bf') = owed_signal (bf_pright bf) @ concat (map signal_of ms) \<and>
           lanes_grow (\<lambda>e w. sw_took (fs_left w) e) (bf_left bf) w (bf_left bf') w' ol \<and>
           lanes_grow (\<lambda>e w. sw_took (fs_right w) e) (bf_right bf) w (bf_right bf') w' orr"
proof -
  from bif_sys.bif_work_refines [OF run ok] obtain ms ol orr where
    r: "fs_recv w' = fs_recv w @ ms"
      "splits ro (bf_routine bf) (bf_pleft bf) (bf_pright bf) ms ol orr (bf_routine bf') (bf_pleft bf') (bf_pright bf')"
      "lanes_grow (\<lambda>e w. sw_took (fs_left w) e) (bf_left bf) w (bf_left bf') w' ol"
      "lanes_grow (\<lambda>e w. sw_took (fs_right w) e) (bf_right bf) w (bf_right bf') w' orr"
    by (auto simp: bif_refines_def)
  from splits_signals [OF r(2)] pend r show ?thesis by blast
qed

text \<open>A routine that gives each number to the left and its successor to the right, behind a Flush.\<close>

definition both_ways :: "(nat, nat, nat, nat option \<times> nat option) bif_routine" where
  "both_ways = \<lparr>f_next_left = (\<lambda>(a, b). (Ok a, (None, b))), f_next_right = (\<lambda>(a, b). (Ok b, (a, None))),
                f_send = (\<lambda>d r. (Ok (), (Some d, Some (d + 1)))), f_flush = (\<lambda>r. (Ok (), r))\<rparr>"

definition bif_start :: "(nat, nat, nat, nat option \<times> nat option, unit, nat \<times> nat, nat \<times> nat) bifurcation" where
  "bif_start = bif_add_right (0, 0) (bif_add_left (0, 0) (bif_build (None, None)))"

definition bif_start_world :: "(nat, nat, nat, nat) bif_sys" where
  "bif_start_world = \<lparr>fs_in = (bif_input None)\<lparr>i_buffer := [Data 4], producer_count := 1\<rparr>, fs_recv = [],
     fs_left = two_edges, fs_right = two_edges\<rparr>"

theorem bifurcation_delivers_split_witness:
  "\<exists>(bf' :: (nat, nat, nat, nat option \<times> nat option, unit, nat \<times> nat, nat \<times> nat) bifurcation) w' ol orr.
     splits both_ways (None, None) None None (fs_recv w') ol orr (bf_routine bf') (bf_pleft bf') (bf_pright bf') \<and>
     fs_recv w' = [Data 4] \<and> sw_took (fs_left w') (0, 0) = [Data 4] \<and> sw_took (fs_right w') (0, 0) = [Data 5] \<and>
     lanes_grow (\<lambda>e w. sw_took (fs_left w) e) (bf_left bif_start) bif_start_world (bf_left bf') w' ol"
proof -
  let ?run = "bif_work (fs_left_sink (\<lambda>w. None) id) (fs_right_sink (\<lambda>w. None) id) both_ways (fs_input (\<lambda>w. None))
     (fs_parents (\<lambda>p w. None) (\<lambda>p w. w)) bif_start bif_start_world"
  have "case ?run of None \<Rightarrow> False
    | Some (q, bf', w') \<Rightarrow> q = Ok () \<and> fs_recv w' = [Data 4] \<and> sw_took (fs_left w') (0, 0) = [Data 4] \<and>
        sw_took (fs_right w') (0, 0) = [Data 5]"
    by code_simp
  then obtain bf' w' where r: "?run = Some (Ok (), bf', w')" and v: "fs_recv w' = [Data 4]"
      "sw_took (fs_left w') (0, 0) = [Data 4]" "sw_took (fs_right w') (0, 0) = [Data 5]"
    by (auto split: option.splits prod.splits)
  have ok: "fanout_ok (bf_left bif_start)" "fanout_ok (bf_right bif_start)" "bf_pleft bif_start = None"
      "bf_pright bif_start = None" "bf_routine bif_start = (None, None)" "fs_recv bif_start_world = []"
    by (simp_all add: bif_start_def bif_add_left_def bif_add_right_def bif_build_def fanout_ok_def fanout_new_def
        fanout_add_def bif_start_world_def)
  from bifurcation_delivers_split [OF ok(1,2) _ _ r] ok v obtain ol orr where
    "splits both_ways (None, None) None None (fs_recv w') ol orr (bf_routine bf') (bf_pleft bf') (bf_pright bf')"
    "lanes_grow (\<lambda>e w. sw_took (fs_left w) e) (bf_left bif_start) bif_start_world (bf_left bf') w' ol" by auto
  with v show ?thesis by (intro exI [of _ bf'] exI [of _ w'] exI [of _ ol] exI [of _ orr]) simp
qed

end
