(* ===== verification/Future_Queues.thy ===== *)
theory Future_Queues
  imports Core
begin

text \<open>
  The queues of an async routine (src/poll/future/): the node sends into the input queue and the
  user's future receives from it; the future sends into the output queue and the node pops it. Futures
  park on a queue that cannot serve them. All on one thread, and no \<open>RefCell\<close> borrow lives across a
  wake, so \<open>try_borrow_mut\<close> cannot fail; wakes are returned as lists, in the order they are made.
\<close>

section \<open>Parked futures\<close>

text \<open>\<open>WakeHome\<close> is the local half of the node's own waker; a combinator's branch waker is an other.\<close>

datatype wake = WakeHome | WakeOther waker | WakeInput | WakeOutput

record waiters =
  wt_home :: bool
  wt_others :: "waker list"

definition no_waiters :: waiters where
  "no_waiters = \<lparr>wt_home = False, wt_others = []\<rparr>"

definition waiters_park :: "waker \<Rightarrow> waker \<Rightarrow> waiters \<Rightarrow> waiters" where
  "waiters_park k home wt =
     (if k = home then wt\<lparr>wt_home := True\<rparr>
      else if k \<notin> set (wt_others wt) then wt\<lparr>wt_others := wt_others wt @ [k]\<rparr>
      else wt)"

definition waiters_take :: "waiters \<Rightarrow> waiters \<times> waiters" where
  "waiters_take wt = (wt, no_waiters)"

definition awaking_wake :: "waiters \<Rightarrow> wake list" where
  "awaking_wake wt = (if wt_home wt then [WakeHome] else []) @ map WakeOther (wt_others wt)"

definition parked :: "waker \<Rightarrow> waker \<Rightarrow> waiters \<Rightarrow> bool" where
  "parked k home wt \<longleftrightarrow> (if k = home then wt_home wt else k \<in> set (wt_others wt))"

definition wake_of :: "waker \<Rightarrow> waker \<Rightarrow> wake" where
  "wake_of k home = (if k = home then WakeHome else WakeOther k)"

lemma not_parked_none [simp]: "\<not> parked k home no_waiters"
  by (simp add: parked_def no_waiters_def)

text \<open>Parking records the future once and forgets nobody; a taken set wakes each of them once.\<close>

lemma parked_park [simp]: "parked j home (waiters_park k home wt) \<longleftrightarrow> j = k \<or> parked j home wt"
  by (auto simp: parked_def waiters_park_def)

lemma awaking_wake_parked: "parked k home wt \<Longrightarrow> wake_of k home \<in> set (awaking_wake wt)"
  by (auto simp: parked_def awaking_wake_def wake_of_def split: if_splits)

lemma awaking_wake_none [simp]: "awaking_wake no_waiters = []"
  by (simp add: awaking_wake_def no_waiters_def)

lemma distinct_park: "distinct (wt_others wt) \<Longrightarrow> distinct (wt_others (waiters_park k home wt))"
  by (simp add: waiters_park_def)

section \<open>The input queue\<close>

datatype 'i item = IData 'i | IFlush

record 'i inq =
  iq_buffer :: "'i item list"
  iq_closed :: bool
  iq_refused :: bool
  iq_waiters :: waiters
  iq_bound :: bound

definition inq_new :: "bound \<Rightarrow> 'i inq" where
  "inq_new b = \<lparr>iq_buffer = [], iq_closed = False, iq_refused = False, iq_waiters = no_waiters, iq_bound = b\<rparr>"

definition inq_reset :: "'i inq \<Rightarrow> 'i inq" where
  "inq_reset q = q\<lparr>iq_buffer := [], iq_closed := False, iq_refused := False, iq_waiters := no_waiters\<rparr>"

definition inq_full :: "'i inq \<Rightarrow> bool" where
  "inq_full q = (case iq_bound q of None \<Rightarrow> False | Some b \<Rightarrow> b \<le> length (iq_buffer q))"

definition inq_try_send :: "'i \<Rightarrow> 'i inq \<Rightarrow> 'i accept res \<times> 'i inq \<times> wake list" where
  "inq_try_send x q =
     (if inq_full q then (Ok (AFull x), q\<lparr>iq_refused := True\<rparr>, [])
      else (let (awaking, wt) = waiters_take (iq_waiters q)
            in (Ok Accepted, q\<lparr>iq_buffer := iq_buffer q @ [IData x], iq_waiters := wt\<rparr>, awaking_wake awaking)))"

definition inq_flush :: "'i inq \<Rightarrow> unit res \<times> 'i inq \<times> wake list" where
  "inq_flush q =
     (let (awaking, wt) = waiters_take (iq_waiters q)
      in (Ok (), q\<lparr>iq_buffer := iq_buffer q @ [IFlush], iq_waiters := wt\<rparr>, awaking_wake awaking))"

definition undrained :: error where
  "undrained = Fatal ''input queue still has items at segment end: future returned without draining input''"

definition unflushed :: error where
  "unflushed = Fatal ''input queue not closed at segment end: future returned without receiving Flush''"

definition inq_ended :: "'i inq \<Rightarrow> unit res" where
  "inq_ended q = (if iq_buffer q \<noteq> [] then Err undrained else if \<not> iq_closed q then Err unflushed else Ok ())"

text \<open>\<open>renew\<close>, when a receiver of the old segment is still around (\<open>kept\<close>) and when none is: the queue of
  the next segment, and the old one if it lives on.\<close>

definition inq_renew :: "bool \<Rightarrow> 'i inq \<Rightarrow> ('i inq \<times> 'i inq list) res" where
  "inq_renew kept q =
     (case inq_ended q of
        Err e \<Rightarrow> Err e
      | Ok _ \<Rightarrow> Ok (if kept then (inq_new (iq_bound q), [q]) else (inq_reset q, [])))"

definition inq_recv :: "waker \<Rightarrow> waker \<Rightarrow> 'i inq \<Rightarrow> 'i item res poll \<times> 'i inq \<times> wake list" where
  "inq_recv k home q =
     (if iq_closed q then (PReady (Err Closed), q, [])
      else case iq_buffer q of
             [] \<Rightarrow> (Pending, q\<lparr>iq_waiters := waiters_park k home (iq_waiters q)\<rparr>, [])
           | item # rest \<Rightarrow>
               (PReady (Ok item),
                q\<lparr>iq_buffer := rest, iq_closed := (item = IFlush), iq_refused := False\<rparr>,
                if iq_refused q then [WakeInput] else []))"

section \<open>The output queue\<close>

record 'o outq =
  oq_buffer :: "'o list"
  oq_armed :: bool
  oq_waiters :: waiters
  oq_bound :: bound

definition outq_new :: "bound \<Rightarrow> 'o outq" where
  "outq_new b = \<lparr>oq_buffer = [], oq_armed = True, oq_waiters = no_waiters, oq_bound = b\<rparr>"

definition outq_full :: "'o outq \<Rightarrow> bool" where
  "outq_full q = (case oq_bound q of None \<Rightarrow> False | Some b \<Rightarrow> b \<le> length (oq_buffer q))"

definition outq_try_send :: "'o \<Rightarrow> 'o outq \<Rightarrow> 'o accept res \<times> 'o outq \<times> wake list" where
  "outq_try_send y q =
     (if outq_full q then (Ok (AFull y), q, [])
      else (Ok Accepted, q\<lparr>oq_buffer := oq_buffer q @ [y], oq_armed := False\<rparr>,
            if oq_armed q then [WakeOutput] else []))"

definition send_again :: error where
  "send_again = Fatal ''send polled after it resolved''"

definition outq_send ::
  "waker \<Rightarrow> waker \<Rightarrow> 'o option \<Rightarrow> 'o outq \<Rightarrow> (unit res poll \<times> 'o option) \<times> 'o outq \<times> wake list" where
  "outq_send k home y q =
     (case y of
        None \<Rightarrow> ((PReady (Err send_again), None), q, [])
      | Some v \<Rightarrow>
          (case outq_try_send v q of
             (Ok Accepted, q', ws) \<Rightarrow> ((PReady (Ok ()), None), q', ws)
           | (Ok (AFull v'), q', ws) \<Rightarrow>
               ((Pending, Some v'), q'\<lparr>oq_waiters := waiters_park k home (oq_waiters q')\<rparr>, ws)
           | (Err e, q', ws) \<Rightarrow> ((PReady (Err e), None), q', ws)))"

definition outq_pop :: "'o outq \<Rightarrow> 'o option res \<times> 'o outq \<times> wake list" where
  "outq_pop q =
     (case oq_buffer q of
        [] \<Rightarrow> (Ok None, q\<lparr>oq_armed := True\<rparr>, [])
      | y # rest \<Rightarrow>
          (let (awaking, wt) = waiters_take (oq_waiters q)
           in (Ok (Some y), q\<lparr>oq_buffer := rest, oq_waiters := wt\<rparr>, awaking_wake awaking)))"

section \<open>Queue invariants\<close>

text \<open>Nobody waits for what the queue could give: a parked \<open>recv\<close> means it is empty and open, an owed
  wake of Input means it is still full. Data stays within the bound; a Flush may land past it.\<close>

definition inq_ok :: "'i inq \<Rightarrow> bool" where
  "inq_ok q \<longleftrightarrow>
     (iq_waiters q = no_waiters \<or> iq_buffer q = [] \<and> \<not> iq_closed q) \<and>
     (iq_refused q \<longrightarrow> inq_full q) \<and>
     (\<forall>b. iq_bound q = Some b \<longrightarrow> length (filter (\<lambda>i. i \<noteq> IFlush) (iq_buffer q)) \<le> b)"

definition outq_ok :: "'o outq \<Rightarrow> bool" where
  "outq_ok q \<longleftrightarrow>
     (oq_waiters q = no_waiters \<or> outq_full q) \<and> (oq_armed q \<longrightarrow> oq_buffer q = []) \<and>
     (\<forall>b. oq_bound q = Some b \<longrightarrow> length (oq_buffer q) \<le> b)"

lemma inq_new_ok [simp]: "inq_ok (inq_new b)"
  by (simp add: inq_ok_def inq_new_def)

lemma outq_new_ok [simp]: "outq_ok (outq_new b)"
  by (simp add: outq_ok_def outq_new_def)

text \<open>Reusing the block gives what allocating a new one gives.\<close>

lemma inq_reset_new: "inq_reset q = inq_new (iq_bound q)"
  by (cases q) (simp add: inq_reset_def inq_new_def)

lemma inq_try_send_ok: "inq_ok q \<Longrightarrow> inq_try_send x q = (a, q', ws) \<Longrightarrow> inq_ok q'"
  by (auto simp: inq_ok_def inq_try_send_def inq_full_def waiters_take_def not_le Suc_le_eq
      intro: le_less_trans [OF length_filter_le] split: if_splits option.splits)

lemma inq_flush_ok: "inq_ok q \<Longrightarrow> inq_flush q = (a, q', ws) \<Longrightarrow> inq_ok q'"
  by (auto simp: inq_ok_def inq_flush_def inq_full_def waiters_take_def split: option.splits)

lemma inq_recv_ok: "inq_ok q \<Longrightarrow> inq_recv k home q = (a, q', ws) \<Longrightarrow> inq_ok q'"
  by (auto simp: inq_ok_def inq_recv_def inq_full_def split: if_splits list.splits option.splits)

lemma outq_try_send_ok: "outq_ok q \<Longrightarrow> outq_try_send y q = (a, q', ws) \<Longrightarrow> outq_ok q'"
  by (auto simp: outq_ok_def outq_try_send_def outq_full_def split: if_splits option.splits)

lemma outq_send_ok: "outq_ok q \<Longrightarrow> outq_send k home y q = (a, q', ws) \<Longrightarrow> outq_ok q'"
  by (auto simp: outq_ok_def outq_send_def outq_try_send_def outq_full_def split: if_splits option.splits)

lemma outq_pop_ok: "outq_ok q \<Longrightarrow> outq_pop q = (a, q', ws) \<Longrightarrow> outq_ok q'"
  by (auto simp: outq_ok_def outq_pop_def outq_full_def waiters_take_def split: list.splits option.splits)

section \<open>Who is woken\<close>

text \<open>One queue under any use by the node and by the future.\<close>

datatype 'i in_op = InSend 'i | InFlush | InRecv waker

fun inq_exec :: "waker \<Rightarrow> 'i in_op \<Rightarrow> 'i inq \<Rightarrow> 'i inq \<times> wake list" where
  "inq_exec home (InSend x) q = snd (inq_try_send x q)"
| "inq_exec home InFlush q = snd (inq_flush q)"
| "inq_exec home (InRecv k) q = snd (inq_recv k home q)"

datatype 'o out_op = OutSend waker "'o option" | OutTrySend 'o | OutPop

fun outq_exec :: "waker \<Rightarrow> 'o out_op \<Rightarrow> 'o outq \<Rightarrow> 'o outq \<times> wake list" where
  "outq_exec home (OutSend k y) q = snd (outq_send k home y q)"
| "outq_exec home (OutTrySend y) q = snd (outq_try_send y q)"
| "outq_exec home OutPop q = snd (outq_pop q)"

fun exec_all :: "('a \<Rightarrow> 'q \<Rightarrow> 'q \<times> wake list) \<Rightarrow> 'a list \<Rightarrow> 'q \<Rightarrow> 'q \<times> wake list" where
  "exec_all ex [] q = (q, [])"
| "exec_all ex (op # ops) q =
     (let (q1, ws1) = ex op q; (q2, ws2) = exec_all ex ops q1 in (q2, ws1 @ ws2))"

lemma inq_exec_ok: "inq_ok q \<Longrightarrow> inq_ok (fst (inq_exec home op q))"
proof (cases op)
  case (InSend x)
  assume "inq_ok q"
  with InSend inq_try_send_ok [of q x] show ?thesis by (cases "inq_try_send x q") auto
next
  case InFlush
  assume "inq_ok q"
  with InFlush inq_flush_ok [of q] show ?thesis by (cases "inq_flush q") auto
next
  case (InRecv k)
  assume "inq_ok q"
  with InRecv inq_recv_ok [of q k home] show ?thesis by (cases "inq_recv k home q") auto
qed

lemma outq_exec_ok: "outq_ok q \<Longrightarrow> outq_ok (fst (outq_exec home op q))"
proof (cases op)
  case (OutSend k y)
  assume "outq_ok q"
  with OutSend outq_send_ok [of q k home y] show ?thesis by (cases "outq_send k home y q") auto
next
  case (OutTrySend y)
  assume "outq_ok q"
  with OutTrySend outq_try_send_ok [of q y] show ?thesis by (cases "outq_try_send y q") auto
next
  case OutPop
  assume "outq_ok q"
  with OutPop outq_pop_ok [of q] show ?thesis by (cases "outq_pop q") auto
qed

text \<open>A wait that holds of a queue, kept by every operation or answered by a wake, is kept or answered
  over every run.\<close>

lemma exec_all_kept_or_woken:
  assumes "exec_all ex ops q = (q', ws)" and "okay q" and "waits q"
    and "\<And>q op. okay q \<Longrightarrow> okay (fst (ex op q))"
    and "\<And>q op. okay q \<Longrightarrow> waits q \<Longrightarrow> waits (fst (ex op q)) \<or> v \<in> set (snd (ex op q))"
  shows "okay q' \<and> (waits q' \<or> v \<in> set ws)"
  using assms(1-3)
proof (induction ops arbitrary: q ws)
  case Nil
  then show ?case by simp
next
  case (Cons op ops)
  obtain q1 ws1 where 1: "ex op q = (q1, ws1)" by (cases "ex op q") auto
  obtain ws2 where 2: "exec_all ex ops q1 = (q', ws2)" "ws = ws1 @ ws2"
    using Cons.prems(1) 1 by (auto split: prod.splits)
  have i: "okay q1" using assms(4) [OF Cons.prems(2), of op] 1 by simp
  have "okay q'" if "\<not> waits q1"
    using 2(1) i
  proof (induction ops arbitrary: q1 ws2)
    case (Cons op ops)
    then show ?case using assms(4) [of q1 op] by (auto split: prod.splits)
  qed simp
  moreover have "waits q1 \<or> v \<in> set ws1" using assms(5) [OF Cons.prems(2,3), of op] 1 by simp
  ultimately show ?case using Cons.IH [OF 2(1) i] 2(2) by auto
qed

lemma inq_parked_step:
  assumes "inq_ok q" and "parked k home (iq_waiters q)"
  shows "parked k home (iq_waiters (fst (inq_exec home op q))) \<or> wake_of k home \<in> set (snd (inq_exec home op q))"
proof -
  have e: "iq_buffer q = []" "\<not> iq_closed q"
    using assms by (auto simp: inq_ok_def)
  show ?thesis
    using assms e awaking_wake_parked
    by (cases op) (auto simp: inq_try_send_def inq_flush_def inq_recv_def waiters_take_def Let_def)
qed

lemma outq_parked_step:
  assumes "outq_ok q" and "parked k home (oq_waiters q)"
  shows "parked k home (oq_waiters (fst (outq_exec home op q))) \<or> wake_of k home \<in> set (snd (outq_exec home op q))"
proof -
  have "outq_full q" using assms by (auto simp: outq_ok_def)
  with assms awaking_wake_parked show ?thesis
    by (cases op) (auto simp: outq_send_def outq_try_send_def outq_pop_def waiters_take_def
        split: option.splits list.splits)
qed

lemma inq_refused_step:
  "inq_ok q \<Longrightarrow> iq_refused q \<Longrightarrow>
     iq_refused (fst (inq_exec home op q)) \<or> WakeInput \<in> set (snd (inq_exec home op q))"
  by (cases op) (auto simp: inq_try_send_def inq_flush_def inq_recv_def waiters_take_def split: list.splits)

lemma outq_armed_step:
  "oq_armed q \<Longrightarrow> oq_armed (fst (outq_exec home op q)) \<or> WakeOutput \<in> set (snd (outq_exec home op q))"
  by (cases op) (auto simp: outq_try_send_def outq_send_def outq_pop_def waiters_take_def
      split: list.splits option.splits)

section \<open>Properties\<close>



end
