(* ===== verification/Poll_Node.thy ===== *)
theory Poll_Node
  imports Fanout
begin

text \<open>
  The phases of a poll node over its one state (src/node/poll/): \<open>Feed\<close> drains an input into the
  routine, \<open>Drive\<close> polls the routine, \<open>Emit\<close> drains the routine into the output and forwards signals.
  Each borrows part of the node; the borrowed parts are records here, and the line and the biunion
  node build them from their state and write them back. Wakers are names; the wakes a phase makes are
  the set it leaves. A routine is a parameter; what it wakes or does on its own is part of its state.
\<close>

section \<open>States, flow and the routine\<close>

datatype 's node_state =
    Running | Flushing 's | FlushReady 's | MarkerReady 's | Forwarding | CloseReady | NClosed

datatype flow = Continue | Break

text \<open>\<open>TrySend\<close>, \<open>Next\<close>, \<open>Flush\<close> and \<open>Poll\<close> of src/node/routine.rs, as a poll node's routine implements
  them; a biunion routine has one \<open>TrySend\<close> per side, so Feed is given the one of its side.\<close>

type_synonym ('i, 'r) send_op = "'i \<Rightarrow> 'r \<Rightarrow> 'i accept res \<times> 'r"
type_synonym ('o, 'r) next_op = "'r \<Rightarrow> 'o option res \<times> 'r"
type_synonym 'r flush_op = "'r \<Rightarrow> unit res \<times> 'r"
type_synonym 'r rpoll_op = "'r \<Rightarrow> unit poll res \<times> 'r"

section \<open>Feed\<close>

record ('s, 'r, 'p) feed =
  fe_waker :: 'p
  fe_this :: bool
  fe_others :: bool
  fe_routine :: 'r
  fe_work :: 'p
  fe_state :: "'s node_state"
  fe_budget :: nat
  fe_woken :: "'p set"

definition closed_from_send :: error where
  "closed_from_send =
     Fatal ''routine returned Closed from try_send: routines must handle close, not propagate it''"

definition feed_offer ::
  "('i, 'r) send_op \<Rightarrow> 'i \<Rightarrow> ('s, 'r, 'p) feed \<Rightarrow> 'i option res \<times> ('s, 'r, 'p) feed" where
  "feed_offer send x f =
     (let (q, r) = send x (fe_routine f); f' = f\<lparr>fe_routine := r\<rparr>
      in case q of
           Ok Accepted \<Rightarrow> (Ok None, f')
         | Ok (AFull y) \<Rightarrow> (Ok (Some y), f')
         | Err e \<Rightarrow> (if is_closed e then (Err closed_from_send, f') else (Err e, f')))"

definition feed_hold :: "'i \<Rightarrow> 'i option \<Rightarrow> 'i option" where
  "feed_hold x held = Some x"

definition feed_retry ::
  "('i, 'r) send_op \<Rightarrow> 'i option \<Rightarrow> ('s, 'r, 'p) feed \<Rightarrow> flow res \<times> 'i option \<times> ('s, 'r, 'p) feed" where
  "feed_retry send held f =
     (case held of
        None \<Rightarrow> (Ok Continue, None, f)
      | Some x \<Rightarrow>
          (case feed_offer send x f of
             (Err e, f') \<Rightarrow> (Err e, None, f')
           | (Ok None, f') \<Rightarrow> (Ok Continue, None, f')
           | (Ok (Some y), f') \<Rightarrow> (Ok Break, feed_hold y None, f')))"

definition feed_flushing :: "'r flush_op \<Rightarrow> 's \<Rightarrow> ('s, 'r, 'p) feed \<Rightarrow> unit res \<times> ('s, 'r, 'p) feed" where
  "feed_flushing flush s f =
     (case flush (fe_routine f) of
        (Err e, r) \<Rightarrow> (Err e, f\<lparr>fe_routine := r\<rparr>)
      | (Ok _, r) \<Rightarrow>
          (Ok (), f\<lparr>fe_routine := r, fe_state := Flushing s, fe_woken := insert (fe_work f) (fe_woken f)\<rparr>))"

definition feed_marker_ready :: "'s \<Rightarrow> ('s, 'r, 'p) feed \<Rightarrow> ('s, 'r, 'p) feed" where
  "feed_marker_ready s f = f\<lparr>fe_state := MarkerReady s, fe_woken := insert (fe_work f) (fe_woken f)\<rparr>"

definition feed_close :: "('s, 'r, 'p) feed \<Rightarrow> ('s, 'r, 'p) feed" where
  "feed_close f =
     (let f1 = f\<lparr>fe_this := False\<rparr>
      in if fe_others f1 then f1
         else f1\<lparr>fe_state := CloseReady, fe_woken := insert (fe_work f1) (fe_woken f1)\<rparr>)"

definition feed_recv ::
  "('i, 'r) send_op \<Rightarrow> 'r flush_op \<Rightarrow> ('w \<Rightarrow> ('i, 's) message option res \<times> 'w) \<Rightarrow>
   'i option \<Rightarrow> ('s, 'r, 'p) feed \<Rightarrow> 'w \<Rightarrow> flow res \<times> 'i option \<times> ('s, 'r, 'p) feed \<times> 'w" where
  "feed_recv send flush recv held f w =
     (case recv w of
        (Ok (Some (Data x)), w') \<Rightarrow>
          (case feed_offer send x f of
             (Err e, f') \<Rightarrow> (Err e, held, f', w')
           | (Ok None, f') \<Rightarrow> (Ok Continue, held, f', w')
           | (Ok (Some y), f') \<Rightarrow> (Ok Break, feed_hold y held, f', w'))
      | (Ok (Some (Flush s)), w') \<Rightarrow>
          (case feed_flushing flush s f of
             (Err e, f') \<Rightarrow> (Err e, held, f', w')
           | (Ok _, f') \<Rightarrow> (Ok Break, held, f', w'))
      | (Ok (Some (Marker s)), w') \<Rightarrow> (Ok Break, held, feed_marker_ready s f, w')
      | (Ok None, w') \<Rightarrow> (Ok Break, held, f, w')
      | (Err e, w') \<Rightarrow>
          (if is_closed e then (Ok Break, held, feed_close f, w') else (Err e, held, f, w')))"

fun feed_rounds ::
  "('i, 'r) send_op \<Rightarrow> 'r flush_op \<Rightarrow> ('w \<Rightarrow> ('i, 's) message option res \<times> 'w) \<Rightarrow> nat \<Rightarrow>
   'i option \<Rightarrow> ('s, 'r, 'p) feed \<Rightarrow> 'w \<Rightarrow> unit res \<times> 'i option \<times> ('s, 'r, 'p) feed \<times> 'w" where
  "feed_rounds send flush recv 0 held f w =
     (Ok (), held, f\<lparr>fe_woken := insert (fe_waker f) (fe_woken f)\<rparr>, w)"
| "feed_rounds send flush recv (Suc n) held f w =
     (case feed_recv send flush recv held f w of
        (Err e, held', f', w') \<Rightarrow> (Err e, held', f', w')
      | (Ok Break, held', f', w') \<Rightarrow> (Ok (), held', f', w')
      | (Ok Continue, held', f', w') \<Rightarrow> feed_rounds send flush recv n held' f' w')"

definition feed_drain ::
  "('i, 'r) send_op \<Rightarrow> 'r flush_op \<Rightarrow> ('w \<Rightarrow> ('i, 's) message option res \<times> 'w) \<Rightarrow>
   'i option \<Rightarrow> ('s, 'r, 'p) feed \<Rightarrow> 'w \<Rightarrow> unit res \<times> 'i option \<times> ('s, 'r, 'p) feed \<times> 'w" where
  "feed_drain send flush recv held f w =
     (case feed_retry send held f of
        (Err e, held', f') \<Rightarrow> (Err e, held', f', w)
      | (Ok Break, held', f') \<Rightarrow> (Ok (), held', f', w)
      | (Ok Continue, held', f') \<Rightarrow>
          (if \<not> fe_this f' then (Ok (), held', f', w)
           else feed_rounds send flush recv (fe_budget f') held' f' w))"

section \<open>Drive\<close>

record ('s, 'r, 'p) drive =
  dr_routine :: 'r
  dr_output :: 'p
  dr_state :: "'s node_state"
  dr_woken :: "'p set"

definition closed_from_poll :: error where
  "closed_from_poll = Fatal ''routine returned Closed error: routines must handle close, not propagate it''"

definition ready_unasked :: error where
  "ready_unasked = Fatal ''routine returned Ready without pending flush or close''"

definition poll_routine ::
  "'r rpoll_op \<Rightarrow> ('s, 'r, 'p) drive \<Rightarrow> unit poll res \<times> ('s, 'r, 'p) drive" where
  "poll_routine poll d =
     (let (q, r) = poll (dr_routine d); d' = d\<lparr>dr_routine := r\<rparr>
      in case q of
           Ok a \<Rightarrow> (Ok a, d')
         | Err e \<Rightarrow> (if is_closed e then (Err closed_from_poll, d') else (Err e, d')))"

definition drive_wake :: "('s, 'r, 'p) drive \<Rightarrow> ('s, 'r, 'p) drive" where
  "drive_wake d = d\<lparr>dr_woken := insert (dr_output d) (dr_woken d)\<rparr>"

definition drive_poll ::
  "'r rpoll_op \<Rightarrow> ('s, 'r, 'p) drive \<Rightarrow> unit poll res \<times> ('s, 'r, 'p) drive" where
  "drive_poll poll d =
     (case dr_state d of
        NClosed \<Rightarrow> (Err Closed, d)
      | CloseReady \<Rightarrow> (Err Closed, d)
      | Flushing s \<Rightarrow>
          (case poll_routine poll d of
             (Err e, d') \<Rightarrow> (Err e, d')
           | (Ok (PReady _), d') \<Rightarrow> (Ok Pending, drive_wake (d'\<lparr>dr_state := FlushReady s\<rparr>))
           | (Ok Pending, d') \<Rightarrow> (Ok Pending, d'))
      | Running \<Rightarrow>
          (case poll_routine poll d of
             (Err e, d') \<Rightarrow> (Err e, d')
           | (Ok (PReady _), d') \<Rightarrow> (Err ready_unasked, d')
           | (Ok Pending, d') \<Rightarrow> (Ok Pending, d'))
      | MarkerReady s \<Rightarrow>
          (case poll_routine poll d of
             (Err e, d') \<Rightarrow> (Err e, d')
           | (Ok (PReady _), d') \<Rightarrow> (Err ready_unasked, d')
           | (Ok Pending, d') \<Rightarrow> (Ok Pending, drive_wake d'))
      | FlushReady s \<Rightarrow> (Ok Pending, d)
      | Forwarding \<Rightarrow> (Ok Pending, d))"

section \<open>Emit\<close>

text \<open>\<open>Rotate\<close> with the supertraits a node's output has: the contract's operations in one record.\<close>

record ('m, 'f, 'w) rotate_ops =
  ro_suspended :: "'f \<Rightarrow> nat option"
  ro_retry :: "'f \<Rightarrow> 'w \<Rightarrow> rotation res \<times> 'f \<times> 'w"
  ro_rotate :: "'m \<Rightarrow> 'f \<Rightarrow> 'w \<Rightarrow> rotation res \<times> 'f \<times> 'w"
  ro_close :: "'f \<Rightarrow> 'w \<Rightarrow> unit res \<times> 'f \<times> 'w"
  ro_schedule :: "waker \<Rightarrow> 'f \<Rightarrow> 'w \<Rightarrow> 'w"

definition fanout_output ::
  "('e, 'm, 'w) sink_ops \<Rightarrow> ('m, ('e, 'm) fanout, 'w) rotate_ops" where
  "fanout_output so =
     \<lparr>ro_suspended = fanout_suspended, ro_retry = fanout_retry so, ro_rotate = fanout_rotate so,
      ro_close = fanout_close so, ro_schedule = fanout_schedule so\<rparr>"

definition single_output ::
  "('e, 'm, 'w) sink_ops \<Rightarrow> ('m, ('e, 'm) single, 'w) rotate_ops" where
  "single_output so =
     \<lparr>ro_suspended = single_suspended, ro_retry = single_retry so, ro_rotate = single_rotate so,
      ro_close = single_close so, ro_schedule = single_schedule so\<rparr>"

record ('s, 'r, 'f, 'p) emit =
  em_routine :: 'r
  em_output :: 'f
  em_waker :: 'p
  em_inputs :: "'p list"
  em_work :: 'p
  em_state :: "'s node_state"
  em_budget :: nat
  em_woken :: "'p set"

datatype drained = DDone | DParked | DYielded

text \<open>\<open>settled\<close> and \<open>start\<close>; the log of parking and resuming is left out.\<close>

definition emit_settled ::
  "('m, 'f, 'w) rotate_ops \<Rightarrow> ('s, 'r, 'f, 'p) emit \<Rightarrow> 'w \<Rightarrow> bool res \<times> ('s, 'r, 'f, 'p) emit \<times> 'w" where
  "emit_settled ro e w =
     (let (q, g, w') = ro_retry ro (em_output e) w; e' = e\<lparr>em_output := g\<rparr>
      in case q of Err x \<Rightarrow> (Err x, e', w') | Ok rot \<Rightarrow> (Ok (rot = Complete), e', w'))"

definition emit_start ::
  "('m, 'f, 'w) rotate_ops \<Rightarrow> 'm \<Rightarrow> ('s, 'r, 'f, 'p) emit \<Rightarrow> 'w \<Rightarrow>
   rotation res \<times> ('s, 'r, 'f, 'p) emit \<times> 'w" where
  "emit_start ro m e w =
     (let (q, g, w') = ro_rotate ro m (em_output e) w in (q, e\<lparr>em_output := g\<rparr>, w'))"

fun emit_rounds ::
  "('o, 'r) next_op \<Rightarrow> (('o, 's) message, 'f, 'w) rotate_ops \<Rightarrow> nat \<Rightarrow> ('s, 'r, 'f, 'p) emit \<Rightarrow> 'w \<Rightarrow>
   drained res \<times> ('s, 'r, 'f, 'p) emit \<times> 'w" where
  "emit_rounds nxt ro 0 e w = (Ok DYielded, e\<lparr>em_woken := insert (em_waker e) (em_woken e)\<rparr>, w)"
| "emit_rounds nxt ro (Suc n) e w =
     (case nxt (em_routine e) of
        (Err x, r) \<Rightarrow> (Err x, e\<lparr>em_routine := r\<rparr>, w)
      | (Ok None, r) \<Rightarrow> (Ok DDone, e\<lparr>em_routine := r\<rparr>, w)
      | (Ok (Some y), r) \<Rightarrow>
          (case emit_start ro (Data y) (e\<lparr>em_routine := r\<rparr>) w of
             (Err x, e', w') \<Rightarrow> (Err x, e', w')
           | (Ok rot, e', w') \<Rightarrow>
               (if is_suspended rot then (Ok DParked, e', w') else emit_rounds nxt ro n e' w')))"

definition emit_drain ::
  "('o, 'r) next_op \<Rightarrow> (('o, 's) message, 'f, 'w) rotate_ops \<Rightarrow> ('s, 'r, 'f, 'p) emit \<Rightarrow> 'w \<Rightarrow>
   drained res \<times> ('s, 'r, 'f, 'p) emit \<times> 'w" where
  "emit_drain nxt ro e w =
     (case emit_settled ro e w of
        (Err x, e', w') \<Rightarrow> (Err x, e', w')
      | (Ok False, e', w') \<Rightarrow> (Ok DParked, e', w')
      | (Ok True, e', w') \<Rightarrow> emit_rounds nxt ro (em_budget e') e' w')"

definition emit_wake_inputs :: "('s, 'r, 'f, 'p) emit \<Rightarrow> ('s, 'r, 'f, 'p) emit" where
  "emit_wake_inputs e = e\<lparr>em_woken := set (em_inputs e) \<union> em_woken e\<rparr>"

definition emit_running :: "('s, 'r, 'f, 'p) emit \<Rightarrow> ('s, 'r, 'f, 'p) emit" where
  "emit_running e =
     (let e1 = emit_wake_inputs (e\<lparr>em_state := Running\<rparr>)
      in e1\<lparr>em_woken := insert (em_work e1) (em_woken e1)\<rparr>)"

definition emit_close :: "('s, 'r, 'f, 'p) emit \<Rightarrow> ('s, 'r, 'f, 'p) emit" where
  "emit_close e =
     (let e1 = emit_wake_inputs (e\<lparr>em_state := NClosed\<rparr>)
      in e1\<lparr>em_woken := insert (em_work e1) (em_woken e1)\<rparr>)"

text \<open>The arm of \<open>step\<close> for FlushReady and MarkerReady: data first, then the signal.\<close>

definition emit_signal ::
  "('o, 'r) next_op \<Rightarrow> (('o, 's) message, 'f, 'w) rotate_ops \<Rightarrow> ('o, 's) message \<Rightarrow>
   ('s, 'r, 'f, 'p) emit \<Rightarrow> 'w \<Rightarrow> unit poll res \<times> ('s, 'r, 'f, 'p) emit \<times> 'w" where
  "emit_signal nxt ro sig e w =
     (case emit_drain nxt ro e w of
        (Err x, e', w') \<Rightarrow> (Err x, e', w')
      | (Ok DParked, e', w') \<Rightarrow> (Ok Pending, e', w')
      | (Ok DYielded, e', w') \<Rightarrow> (Ok Pending, e', w')
      | (Ok DDone, e', w') \<Rightarrow>
          (case emit_start ro sig (e'\<lparr>em_state := Forwarding\<rparr>) w' of
             (Err x, e'', w'') \<Rightarrow> (Err x, e'', w'')
           | (Ok rot, e'', w'') \<Rightarrow>
               (Ok Pending, if rot = Complete then emit_running e'' else e'', w'')))"

definition emit_step ::
  "('o, 'r) next_op \<Rightarrow> (('o, 's) message, 'f, 'w) rotate_ops \<Rightarrow> ('s, 'r, 'f, 'p) emit \<Rightarrow> 'w \<Rightarrow>
   unit poll res \<times> ('s, 'r, 'f, 'p) emit \<times> 'w" where
  "emit_step nxt ro e w =
     (case em_state e of
        NClosed \<Rightarrow> (Err Closed, e, w)
      | FlushReady s \<Rightarrow> emit_signal nxt ro (Flush s) e w
      | MarkerReady s \<Rightarrow> emit_signal nxt ro (Marker s) e w
      | Forwarding \<Rightarrow>
          (case emit_settled ro e w of
             (Err x, e', w') \<Rightarrow> (Err x, e', w')
           | (Ok b, e', w') \<Rightarrow> (Ok Pending, if b then emit_running e' else e', w'))
      | CloseReady \<Rightarrow>
          (case emit_drain nxt ro e w of
             (Err x, e', w') \<Rightarrow> (Err x, e', w')
           | (Ok DYielded, e', w') \<Rightarrow> (Ok Pending, e', w')
           | (Ok _, e', w') \<Rightarrow>
               (let (q, g, w'') = ro_close ro (em_output e') w'; e'' = e'\<lparr>em_output := g\<rparr>
                in case q of Err x \<Rightarrow> (Err x, e'', w'') | Ok _ \<Rightarrow> (Err Closed, e'', w'')))
      | Running \<Rightarrow>
          (case emit_drain nxt ro e w of
             (Err x, e', w') \<Rightarrow> (Err x, e', w') | (Ok _, e', w') \<Rightarrow> (Ok Pending, e', w'))
      | Flushing s \<Rightarrow>
          (case emit_drain nxt ro e w of
             (Err x, e', w') \<Rightarrow> (Err x, e', w') | (Ok _, e', w') \<Rightarrow> (Ok Pending, e', w')))"

definition emit_poll ::
  "('o, 'r) next_op \<Rightarrow> (('o, 's) message, 'f, 'w) rotate_ops \<Rightarrow> ('s, 'r, 'f, 'p) emit \<Rightarrow> 'w \<Rightarrow>
   unit poll res \<times> ('s, 'r, 'f, 'p) emit \<times> 'w" where
  "emit_poll nxt ro e w =
     (let (q, e', w') = emit_step nxt ro e w in (q, if is_ok q then e' else emit_close e', w'))"

section \<open>The reference: what a node may do with its routine\<close>

text \<open>\<open>conducts r st ms os r' st'\<close>: from routine state \<open>r\<close> in node state \<open>st\<close>, the node hands the
  messages \<open>ms\<close> to the routine and emits \<open>os\<close>. Data and signals are taken in Running only; a Flush is
  emitted after the routine finished it and had nothing more to say, a Marker after the routine had
  nothing more to say; nothing is taken between a signal and its emission.\<close>

inductive conducts ::
  "('i, 'r) send_op \<Rightarrow> ('o, 'r) next_op \<Rightarrow> 'r flush_op \<Rightarrow> 'r rpoll_op \<Rightarrow> 'r \<Rightarrow> 's node_state \<Rightarrow>
   ('i, 's) message list \<Rightarrow> ('o, 's) message list \<Rightarrow> 'r \<Rightarrow> 's node_state \<Rightarrow> bool"
  for send nxt flush poll where
  stop: "conducts send nxt flush poll r st [] [] r st"
| take: "send x r = (Ok Accepted, r1) \<Longrightarrow> conducts send nxt flush poll r1 Running ms os r' st' \<Longrightarrow>
     conducts send nxt flush poll r Running (Data x # ms) os r' st'"
| refuse: "send x r = (Ok (AFull x), r1) \<Longrightarrow> conducts send nxt flush poll r1 Running ms os r' st' \<Longrightarrow>
     conducts send nxt flush poll r Running ms os r' st'"
| flush: "flush r = (Ok u, r1) \<Longrightarrow> conducts send nxt flush poll r1 (Flushing s) ms os r' st' \<Longrightarrow>
     conducts send nxt flush poll r Running (Flush s # ms) os r' st'"
| marker: "conducts send nxt flush poll r (MarkerReady s) ms os r' st' \<Longrightarrow>
     conducts send nxt flush poll r Running (Marker s # ms) os r' st'"
| poll: "poll r = (Ok Pending, r1) \<Longrightarrow> st = Running \<or> st = Flushing s \<or> st = MarkerReady s \<Longrightarrow>
     conducts send nxt flush poll r1 st ms os r' st' \<Longrightarrow> conducts send nxt flush poll r st ms os r' st'"
| ready: "poll r = (Ok (PReady v), r1) \<Longrightarrow>
     conducts send nxt flush poll r1 (FlushReady s) ms os r' st' \<Longrightarrow>
     conducts send nxt flush poll r (Flushing s) ms os r' st'"
| emit: "nxt r = (Ok (Some y), r1) \<Longrightarrow> st \<noteq> Forwarding \<and> st \<noteq> NClosed \<Longrightarrow>
     conducts send nxt flush poll r1 st ms os r' st' \<Longrightarrow>
     conducts send nxt flush poll r st ms (Data y # os) r' st'"
| dry: "nxt r = (Ok None, r1) \<Longrightarrow> conducts send nxt flush poll r1 st ms os r' st' \<Longrightarrow>
     conducts send nxt flush poll r st ms os r' st'"
| flushed: "nxt r = (Ok None, r1) \<Longrightarrow> conducts send nxt flush poll r1 Forwarding ms os r' st' \<Longrightarrow>
     conducts send nxt flush poll r (FlushReady s) ms (Flush s # os) r' st'"
| marked: "nxt r = (Ok None, r1) \<Longrightarrow> conducts send nxt flush poll r1 Forwarding ms os r' st' \<Longrightarrow>
     conducts send nxt flush poll r (MarkerReady s) ms (Marker s # os) r' st'"
| resume: "conducts send nxt flush poll r Running ms os r' st' \<Longrightarrow>
     conducts send nxt flush poll r Forwarding ms os r' st'"
| closing: "conducts send nxt flush poll r CloseReady ms os r' st' \<Longrightarrow>
     conducts send nxt flush poll r Running ms os r' st'"

lemma conducts_append:
  "conducts send nxt flush poll r st ms os r1 st1 \<Longrightarrow>
   conducts send nxt flush poll r1 st1 ms2 os2 r2 st2 \<Longrightarrow>
   conducts send nxt flush poll r st (ms @ ms2) (os @ os2) r2 st2"
  by (induction rule: conducts.induct) (auto intro: conducts.intros)

text \<open>The signal a state holds on its way out.\<close>

fun in_flight :: "'s node_state \<Rightarrow> ('d, 's) message list" where
  "in_flight (Flushing s) = [Flush s]"
| "in_flight (FlushReady s) = [Flush s]"
| "in_flight (MarkerReady s) = [Marker s]"
| "in_flight _ = []"

text \<open>Every signal taken is emitted once, in order, or is in flight.\<close>

lemma conducts_signals:
  "conducts send nxt flush poll r st ms os r' st' \<Longrightarrow>
     signals os @ in_flight st' = in_flight st @ concat (map signal_of ms)"
  by (induction rule: conducts.induct) (auto simp: signals_def)

section \<open>Feed refines the reference\<close>

fun accept_map :: "('a \<Rightarrow> 'b) \<Rightarrow> 'a accept \<Rightarrow> 'b accept" where
  "accept_map g Accepted = Accepted"
| "accept_map g (AFull x) = AFull (g x)"

definition held_list :: "'i option \<Rightarrow> ('i, 's) message list" where
  "held_list h = (case h of None \<Rightarrow> [] | Some x \<Rightarrow> [Data x])"

lemma held_list_simps [simp]: "held_list None = []" "held_list (Some x) = [Data x]"
  by (simp_all add: held_list_def)

text \<open>One input of a node: \<open>side\<close> says which of the routine's inputs it is, \<open>taken\<close> what has been popped
  from it, \<open>avail\<close> whether a pop would find anything (a message, or that the edge closed).\<close>

locale feeding =
  fixes send :: "('i, 'r) send_op" and csend :: "('a, 'r) send_op" and side :: "'i \<Rightarrow> 'a"
    and recv :: "'w \<Rightarrow> ('i, 's) message option res \<times> 'w" and taken :: "'w \<Rightarrow> ('i, 's) message list"
    and avail :: "'w \<Rightarrow> bool"
  assumes send_side: "send x r = (a, r1) \<Longrightarrow> csend (side x) r = (map_result (accept_map side) a, r1)"
    and hands_back: "send x r = (Ok (AFull y), r1) \<Longrightarrow> y = x"
    and recv_taken: "recv w = (q, w1) \<Longrightarrow> taken w1 = taken w @ popped q"
    and recv_empty: "recv w = (Ok None, w1) \<Longrightarrow> \<not> avail w1"
begin

abbreviation sided :: "('i, 's) message list \<Rightarrow> ('a, 's) message list" where
  "sided ms \<equiv> map (map_message side (\<lambda>s. s)) ms"

lemma feed_offer_cases:
  assumes "feed_offer send x f = (Ok y, f')"
  obtains r where "csend (side x) (fe_routine f) = (Ok (case y of None \<Rightarrow> Accepted | Some z \<Rightarrow> AFull (side z)), r)"
    "f' = f\<lparr>fe_routine := r\<rparr>" "y = None \<or> y = Some x"
proof -
  obtain q r where p: "send x (fe_routine f) = (q, r)" by (cases "send x (fe_routine f)") auto
  from send_side [OF p] hands_back p assms show ?thesis
    by (cases q; intro that [of r])
      (auto simp: feed_offer_def Let_def split: accept.splits if_splits)
qed

text \<open>What each step of a drain keeps, and what it owes.\<close>

definition feed_frame :: "('s, 'r, 'p) feed \<Rightarrow> ('s, 'r, 'p) feed \<Rightarrow> bool" where
  "feed_frame f f' \<longleftrightarrow> fe_waker f' = fe_waker f \<and> fe_work f' = fe_work f \<and> fe_others f' = fe_others f \<and>
     fe_budget f' = fe_budget f \<and> fe_woken f \<subseteq> fe_woken f'"

definition feed_kept :: "('s, 'r, 'p) feed \<Rightarrow> ('s, 'r, 'p) feed \<Rightarrow> bool" where
  "feed_kept f f' \<longleftrightarrow> feed_frame f f' \<and>
     (fe_state f' = Running \<or> fe_work f \<in> fe_woken f') \<and>
     (fe_state f' \<in> {Running, CloseReady} \<or> (\<exists>s. fe_state f' = Flushing s \<or> fe_state f' = MarkerReady s)) \<and>
     (fe_state f' \<noteq> CloseReady \<or> \<not> fe_others f \<and> \<not> fe_this f') \<and>
     (fe_this f' \<longrightarrow> fe_this f) \<and>
     (\<not> fe_this f \<or> fe_this f' \<or> fe_others f \<or> fe_state f' = CloseReady)"

lemma feed_kept_trans:
  assumes f: "feed_frame f f1" and t: "fe_this f1 = fe_this f" and k: "feed_kept f1 f2"
  shows "feed_kept f f2"
proof -
  have "feed_frame f1 f2" using k by (simp add: feed_kept_def)
  then have "feed_frame f f2" using f by (auto simp: feed_frame_def)
  with f t k show ?thesis by (simp add: feed_kept_def feed_frame_def)
qed

lemma feed_retry_conducts:
  assumes r: "feed_retry send held f = (Ok fl, held', f')" and st: "fe_state f = Running"
  shows "\<exists>acc. held_list held = acc @ held_list held' \<and> (fl = Break) = (held' \<noteq> None) \<and>
           fe_state f' = Running \<and> fe_this f' = fe_this f \<and> feed_kept f f' \<and>
           conducts csend nxt flush poll (fe_routine f) Running (sided acc) [] (fe_routine f') Running"
proof (cases held)
  case None
  with r st show ?thesis
    by (auto simp: feed_retry_def feed_kept_def feed_frame_def intro: conducts.stop)
next
  case (Some x)
  with r obtain y where o: "feed_offer send x f = (Ok y, f')"
      and h: "held' = y" "fl = (if y = None then Continue else Break)"
    by (auto simp: feed_retry_def feed_hold_def split: prod.splits result.splits option.splits)
  from o obtain r1 where c: "csend (side x) (fe_routine f) =
        (Ok (case y of None \<Rightarrow> Accepted | Some z \<Rightarrow> AFull (side z)), r1)"
      "f' = f\<lparr>fe_routine := r1\<rparr>" "y = None \<or> y = Some x" by (rule feed_offer_cases)
  from c(3) show ?thesis
  proof
    assume "y = None"
    with c h Some st show ?thesis
      by (intro exI [of _ "[Data x]"])
        (auto simp: feed_kept_def feed_frame_def intro!: conducts.take [OF _ conducts.stop])
  next
    assume "y = Some x"
    with c h Some st show ?thesis
      by (intro exI [of _ "[]"])
        (auto simp: feed_kept_def feed_frame_def intro!: conducts.refuse [OF _ conducts.stop])
  qed
qed

lemma feed_recv_conducts:
  assumes r: "feed_recv send flush recv None f w = (Ok fl, held', f', w')" and st: "fe_state f = Running"
    and op: "fe_this f"
  shows "\<exists>ms acc. taken w' = taken w @ ms \<and> ms = acc @ held_list held' \<and> feed_kept f f' \<and>
           (fl = Continue \<longrightarrow> held' = None \<and> fe_state f' = Running \<and> fe_this f') \<and>
           (fl = Break \<longrightarrow> fe_state f' = Running \<and> fe_this f' \<and> avail w' \<longrightarrow> held' \<noteq> None) \<and>
           conducts csend nxt flush poll (fe_routine f) Running (sided acc) [] (fe_routine f') (fe_state f')"
proof -
  obtain q w1 where p: "recv w = (q, w1)" by (cases "recv w") auto
  note t = recv_taken [OF p] and e = recv_empty [of w w1]
  show ?thesis
  proof (cases q)
    case (Err x)
    with r p have "x = Closed" "held' = None" "f' = feed_close f" "w' = w1" "fl = Break"
      by (auto simp: feed_recv_def split: if_splits error.splits)
    with t Err st op show ?thesis
      by (auto simp: feed_close_def feed_kept_def feed_frame_def Let_def intro: conducts.intros)
  next
    case (Ok m)
    show ?thesis
    proof (cases m)
      case None
      with r p Ok have "held' = None" "f' = f" "w' = w1" "fl = Break" by (auto simp: feed_recv_def)
      with t Ok None st e p show ?thesis by (auto simp: feed_kept_def feed_frame_def intro: conducts.stop)
    next
      case (Some msg)
      show ?thesis
      proof (cases msg)
        case (Data x)
        with r p Ok Some obtain y where o: "feed_offer send x f = (Ok y, f')" and w: "w' = w1"
            and h: "held' = y" "fl = (if y = None then Continue else Break)"
          by (auto simp: feed_recv_def feed_hold_def split: prod.splits result.splits option.splits)
        from o obtain r1 where c: "csend (side x) (fe_routine f) =
              (Ok (case y of None \<Rightarrow> Accepted | Some z \<Rightarrow> AFull (side z)), r1)"
            "f' = f\<lparr>fe_routine := r1\<rparr>" "y = None \<or> y = Some x" by (rule feed_offer_cases)
        from c(3) show ?thesis
        proof
          assume "y = None"
          with c h w t Ok Some Data st op show ?thesis
            by (intro exI [of _ "[Data x]"])
              (auto simp: feed_kept_def feed_frame_def intro!: conducts.take [OF _ conducts.stop])
        next
          assume "y = Some x"
          with c h w t Ok Some Data st op show ?thesis
            by (rule_tac x = "[Data x]" in exI, rule_tac x = "[]" in exI)
              (auto simp: feed_kept_def feed_frame_def intro!: conducts.refuse [OF _ conducts.stop])
        qed
      next
        case (Flush s)
        with r p Ok Some obtain u r1 where "flush (fe_routine f) = (Ok u, r1)" "w' = w1" "held' = None"
            "fl = Break" "f' = f\<lparr>fe_routine := r1, fe_state := Flushing s, fe_woken := insert (fe_work f) (fe_woken f)\<rparr>"
          by (auto simp: feed_recv_def feed_flushing_def split: prod.splits result.splits)
        with t Ok Some Flush st op show ?thesis
          by (rule_tac x = "[Flush s]" in exI, rule_tac x = "[Flush s]" in exI)
            (auto simp: feed_kept_def feed_frame_def intro: conducts.flush [OF _ conducts.stop])
      next
        case (Marker s)
        with r p Ok Some have "w' = w1" "held' = None" "fl = Break" "f' = feed_marker_ready s f"
          by (auto simp: feed_recv_def)
        with t Ok Some Marker st op show ?thesis
          by (rule_tac x = "[Marker s]" in exI, rule_tac x = "[Marker s]" in exI)
            (auto simp: feed_kept_def feed_frame_def feed_marker_ready_def intro: conducts.marker [OF conducts.stop])
      qed
    qed
  qed
qed


text \<open>A drain: what it took from the edge and what it was holding is what the routine got, in order,
  and what is held now; it stops with a waker set, a message held, a closed input or an empty edge.\<close>

lemma feed_rounds_conducts:
  assumes "feed_rounds send flush recv n None f w = (Ok u, held', f', w')" and "fe_state f = Running"
    and "fe_this f"
  shows "\<exists>ms acc. taken w' = taken w @ ms \<and> ms = acc @ held_list held' \<and> feed_kept f f' \<and>
           (fe_state f' = Running \<and> fe_this f' \<and> avail w' \<longrightarrow> held' \<noteq> None \<or> fe_waker f \<in> fe_woken f') \<and>
           conducts csend nxt flush poll (fe_routine f) Running (sided acc) [] (fe_routine f') (fe_state f')"
  using assms
proof (induction n arbitrary: f w)
  case 0
  then show ?case by (auto simp: feed_kept_def feed_frame_def intro: conducts.stop)
next
  case (Suc n)
  obtain q h f1 w1 where p: "feed_recv send flush recv None f w = (q, h, f1, w1)"
    by (cases "feed_recv send flush recv None f w") auto
  with Suc.prems obtain fl where q: "q = Ok fl" by (cases q) auto
  from feed_recv_conducts [OF p [unfolded q] Suc.prems(2,3)] obtain ms acc where
    a: "taken w1 = taken w @ ms" "ms = acc @ held_list h" "feed_kept f f1"
       "fl = Continue \<longrightarrow> h = None \<and> fe_state f1 = Running \<and> fe_this f1"
       "fl = Break \<longrightarrow> fe_state f1 = Running \<and> fe_this f1 \<and> avail w1 \<longrightarrow> h \<noteq> None"
       "conducts csend nxt flush poll (fe_routine f) Running (sided acc) [] (fe_routine f1) (fe_state f1)"
    by blast
  show ?case
  proof (cases fl)
    case Break
    with Suc.prems p q have "held' = h" "f' = f1" "w' = w1" by auto
    with a Break show ?thesis by blast
  next
    case Continue
    with a have h: "h = None" "fe_state f1 = Running" "fe_this f1" by auto
    with Suc.prems p q Continue have "feed_rounds send flush recv n None f1 w1 = (Ok u, held', f', w')" by simp
    from Suc.IH [OF this h(2,3)] obtain ms2 acc2 where
      b: "taken w' = taken w1 @ ms2" "ms2 = acc2 @ held_list held'" "feed_kept f1 f'"
         "fe_state f' = Running \<and> fe_this f' \<and> avail w' \<longrightarrow> held' \<noteq> None \<or> fe_waker f1 \<in> fe_woken f'"
         "conducts csend nxt flush poll (fe_routine f1) Running (sided acc2) [] (fe_routine f') (fe_state f')"
      by blast
    have fr: "feed_frame f f1" using a(3) by (simp add: feed_kept_def)
    have "feed_kept f f'" using feed_kept_trans [OF fr _ b(3)] h Suc.prems by simp
    moreover have "conducts csend nxt flush poll (fe_routine f) Running (sided (acc @ acc2)) [] (fe_routine f') (fe_state f')"
      using conducts_append [OF a(6) [unfolded h(2)] b(5)] by simp
    moreover have "fe_waker f1 = fe_waker f" using fr by (simp add: feed_frame_def)
    ultimately show ?thesis using a(1,2) b(1,2,4) h(1)
      by (rule_tac x = "ms @ ms2" in exI, rule_tac x = "acc @ acc2" in exI) auto
  qed
qed

lemma feed_drain_conducts:
  assumes d: "feed_drain send flush recv held f w = (Ok u, held', f', w')" and st: "fe_state f = Running"
  shows "\<exists>ms acc. taken w' = taken w @ ms \<and> held_list held @ ms = acc @ held_list held' \<and> feed_kept f f' \<and>
           (fe_state f' = Running \<and> fe_this f' \<and> avail w' \<longrightarrow> held' \<noteq> None \<or> fe_waker f \<in> fe_woken f') \<and>
           conducts csend nxt flush poll (fe_routine f) Running (sided acc) [] (fe_routine f') (fe_state f')"
proof -
  obtain q h f1 where p: "feed_retry send held f = (q, h, f1)" by (cases "feed_retry send held f") auto
  with d obtain fl where q: "q = Ok fl" by (cases q) (auto simp: feed_drain_def)
  from feed_retry_conducts [OF p [unfolded q] st] obtain acc where
    a: "held_list held = acc @ held_list h" "(fl = Break) = (h \<noteq> None)" "fe_state f1 = Running"
       "fe_this f1 = fe_this f" "feed_kept f f1"
       "conducts csend nxt flush poll (fe_routine f) Running (sided acc) [] (fe_routine f1) Running" by blast
  show ?thesis
  proof (cases "fl = Break \<or> \<not> fe_this f1")
    case True
    with d p q have "held' = h" "f' = f1" "w' = w" by (cases fl; auto simp: feed_drain_def)+
    with a True show ?thesis by (rule_tac x = "[]" in exI, rule_tac x = acc in exI) auto
  next
    case False
    then have fl: "fl = Continue" "h = None" and op: "fe_this f1" using a(2) by (cases fl; auto)+
    with d p q have "feed_rounds send flush recv (fe_budget f1) None f1 w = (Ok u, held', f', w')"
      by (simp add: feed_drain_def)
    from feed_rounds_conducts [OF this a(3) op] obtain ms acc2 where
      b: "taken w' = taken w @ ms" "ms = acc2 @ held_list held'" "feed_kept f1 f'"
         "fe_state f' = Running \<and> fe_this f' \<and> avail w' \<longrightarrow> held' \<noteq> None \<or> fe_waker f1 \<in> fe_woken f'"
         "conducts csend nxt flush poll (fe_routine f1) Running (sided acc2) [] (fe_routine f') (fe_state f')"
      by blast
    have fr: "feed_frame f f1" using a(5) by (simp add: feed_kept_def)
    have "feed_kept f f'" by (rule feed_kept_trans [OF fr a(4) b(3)])
    moreover have "conducts csend nxt flush poll (fe_routine f) Running (sided (acc @ acc2)) [] (fe_routine f') (fe_state f')"
      using conducts_append [OF a(6) b(5)] by simp
    moreover have "fe_waker f1 = fe_waker f" using fr by (simp add: feed_frame_def)
    ultimately show ?thesis using a(1) b(1,2,4) fl
      by (rule_tac x = ms in exI, rule_tac x = "acc @ acc2" in exI) auto
  qed
qed

end

text \<open>Whatever receiving leaves alone, a drain leaves alone.\<close>

lemma feed_recv_view:
  assumes "\<And>w q w1. recv w = (q, w1) \<Longrightarrow> V w1 = V w"
    and "feed_recv send flush recv held f w = (q, held', f', w')"
  shows "V w' = V w"
  using assms(2)
  by (auto simp: feed_recv_def split: prod.splits result.splits option.splits message.splits if_splits
      dest: assms(1))

lemma feed_rounds_view:
  assumes v: "\<And>w q w1. recv w = (q, w1) \<Longrightarrow> V w1 = V w"
  shows "feed_rounds send flush recv n held f w = (q, held', f', w') \<Longrightarrow> V w' = V w"
proof (induction n arbitrary: held f w)
  case (Suc n)
  obtain q1 h1 f1 w1 where p: "feed_recv send flush recv held f w = (q1, h1, f1, w1)"
    by (cases "feed_recv send flush recv held f w") auto
  from feed_recv_view [OF v p] Suc.prems p Suc.IH show ?case
    by (auto split: result.splits flow.splits)
qed auto

lemma feed_drain_view:
  assumes v: "\<And>w q w1. recv w = (q, w1) \<Longrightarrow> V w1 = V w"
    and d: "feed_drain send flush recv held f w = (q, held', f', w')"
  shows "V w' = V w"
proof -
  have "V w' = V w" if "feed_rounds send flush recv n held f w = (q, held', f', w')" for n held f
    by (rule feed_rounds_view [OF _ that]) (rule v)
  with d show ?thesis
    by (auto simp: feed_drain_def split: prod.splits result.splits flow.splits if_splits)
qed

text \<open>A drain of a routine whose \<open>flush\<close> never says Closed never does either.\<close>

lemma feed_drain_not_closed:
  fixes f :: "('b, 'a, 'c) feed"
  assumes fl: "\<And>r r1. flush r \<noteq> (Err Closed, r1)"
  shows "feed_drain send flush recv held f w \<noteq> (Err Closed, held', f', w')"
proof -
  have offer: "feed_offer send x f \<noteq> (Err Closed, f')" for x and f f' :: "('b, 'a, 'c) feed"
    by (auto simp: feed_offer_def Let_def closed_from_send_def
        split: prod.splits result.splits accept.splits if_splits)
  have flushing: "feed_flushing flush s f \<noteq> (Err Closed, f')" for s and f f' :: "('b, 'a, 'c) feed"
    using fl by (auto simp: feed_flushing_def split: prod.splits result.splits)
  have step: "feed_recv send flush recv held f w \<noteq> (Err Closed, held', f', w')"
    for held held' w w' and f f' :: "('b, 'a, 'c) feed"
    using offer flushing
    by (auto simp: feed_recv_def split: prod.splits result.splits option.splits message.splits if_splits)
  have rounds: "feed_rounds send flush recv n held f w \<noteq> (Err Closed, held', f', w')"
    for n held held' w w' and f f' :: "('b, 'a, 'c) feed"
    using step by (induction n arbitrary: held f w) (auto split: prod.splits result.splits flow.splits)
  show ?thesis using offer rounds
    by (auto simp: feed_drain_def feed_retry_def split: prod.splits result.splits flow.splits option.splits if_splits)
qed

section \<open>Drive refines the reference\<close>

lemma drive_poll_conducts:
  assumes d: "drive_poll poll d = (Ok v, d')"
  shows "conducts send nxt flush poll (dr_routine d) (dr_state d) [] [] (dr_routine d') (dr_state d') \<and>
         v = Pending \<and> dr_output d' = dr_output d \<and> dr_woken d \<subseteq> dr_woken d' \<and>
         (\<forall>s. (dr_state d' = FlushReady s \<and> dr_state d \<noteq> dr_state d') \<or> dr_state d' = MarkerReady s \<longrightarrow>
            dr_output d \<in> dr_woken d') \<and>
         (dr_state d' = dr_state d \<or> (\<exists>s. dr_state d = Flushing s \<and> dr_state d' = FlushReady s))"
proof (cases "dr_state d")
  case Running
  with d obtain r where "poll (dr_routine d) = (Ok Pending, r)" "d' = d\<lparr>dr_routine := r\<rparr>" "v = Pending"
    by (auto simp: drive_poll_def poll_routine_def Let_def split: prod.splits result.splits poll.splits if_splits)
  with Running show ?thesis by (auto intro: conducts.intros)
next
  case (Flushing s)
  then consider r where "poll (dr_routine d) = (Ok Pending, r)" "d' = d\<lparr>dr_routine := r\<rparr>" "v = Pending"
    | r x where "poll (dr_routine d) = (Ok (PReady x), r)" "v = Pending"
        "d' = drive_wake (d\<lparr>dr_routine := r, dr_state := FlushReady s\<rparr>)"
    using d
    by (auto simp: drive_poll_def poll_routine_def Let_def split: prod.splits result.splits poll.splits if_splits)
  then show ?thesis
    by cases (use Flushing in \<open>auto simp: drive_wake_def intro: conducts.intros\<close>)
next
  case (MarkerReady s)
  with d obtain r where "poll (dr_routine d) = (Ok Pending, r)" "d' = drive_wake (d\<lparr>dr_routine := r\<rparr>)" "v = Pending"
    by (auto simp: drive_poll_def poll_routine_def Let_def split: prod.splits result.splits poll.splits if_splits)
  with MarkerReady show ?thesis
    by (auto simp: drive_wake_def intro: conducts.poll [where s = s] conducts.stop)
qed (use d in \<open>auto simp: drive_poll_def intro: conducts.stop\<close>)

lemma drive_poll_Err_Closed:
  "drive_poll poll d = (Err Closed, d') \<Longrightarrow> (dr_state d = NClosed \<or> dr_state d = CloseReady) \<and> d' = d"
  by (cases "dr_state d")
    (auto simp: drive_poll_def poll_routine_def Let_def closed_from_poll_def ready_unasked_def
      split: prod.splits result.splits poll.splits if_splits)

lemma drive_poll_Closed: "dr_state d = NClosed \<or> dr_state d = CloseReady \<Longrightarrow> drive_poll poll d = (Err Closed, d)"
  by (auto simp: drive_poll_def)

section \<open>Emit refines the reference\<close>

text \<open>The node's output is a rotator; its operations leave the node's inputs (\<open>inputs\<close>) alone.\<close>

locale emitting = rotator "ro_suspended ro" "ro_retry ro" "ro_rotate ro" lanes received due ok
  for ro :: "(('o, 's) message, 'f, 'w) rotate_ops" and lanes :: "'f \<Rightarrow> nat"
    and received :: "'f \<Rightarrow> 'w \<Rightarrow> nat \<Rightarrow> ('o, 's) message list"
    and due :: "'f \<Rightarrow> nat \<Rightarrow> ('o, 's) message list" and ok :: "'f \<Rightarrow> bool" +
  fixes inputs :: "'w \<Rightarrow> 'x"
  assumes retry_inputs: "ok g \<Longrightarrow> ro_retry ro g w = (a, g1, w1) \<Longrightarrow> inputs w1 = inputs w"
    and rotate_inputs: "ok g \<Longrightarrow> ro_rotate ro m g w = (a, g1, w1) \<Longrightarrow> inputs w1 = inputs w"
begin

text \<open>\<open>sends g w os g' w'\<close>: every lane has received, or is owed, \<open>os\<close> more.\<close>

definition sends :: "'f \<Rightarrow> 'w \<Rightarrow> ('o, 's) message list \<Rightarrow> 'f \<Rightarrow> 'w \<Rightarrow> bool" where
  "sends g w os g' w' \<longleftrightarrow> ok g' \<and> lanes g' = lanes g \<and> inputs w' = inputs w \<and>
     (\<forall>i < lanes g. received g' w' i @ due g' i = (received g w i @ due g i) @ os)"

lemma sends_nothing: "ok g \<Longrightarrow> sends g w [] g w"
  by (simp add: sends_def)

lemma sends_trans: "sends g w os g1 w1 \<Longrightarrow> sends g1 w1 os2 g2 w2 \<Longrightarrow> sends g w (os @ os2) g2 w2"
  by (auto simp: sends_def)

definition emit_frame :: "('s, 'r, 'f, 'p) emit \<Rightarrow> ('s, 'r, 'f, 'p) emit \<Rightarrow> bool" where
  "emit_frame e e' \<longleftrightarrow> em_waker e' = em_waker e \<and> em_inputs e' = em_inputs e \<and>
     em_work e' = em_work e \<and> em_budget e' = em_budget e \<and> em_woken e \<subseteq> em_woken e'"

lemma emit_frame_trans: "emit_frame a b \<Longrightarrow> emit_frame b c \<Longrightarrow> emit_frame a c"
  by (auto simp: emit_frame_def)

lemma emit_start_sends:
  assumes s: "emit_start ro m e w = (Ok rot, e', w')" and ok: "ok (em_output e)"
    and held: "ro_suspended ro (em_output e) = None"
  shows "sends (em_output e) w [m] (em_output e') w' \<and>
         (rot = Complete) = (ro_suspended ro (em_output e') = None) \<and>
         e' = e\<lparr>em_output := em_output e'\<rparr>"
proof -
  obtain q g w1 where p: "ro_rotate ro m (em_output e) w = (q, g, w1)"
    by (cases "ro_rotate ro m (em_output e) w") auto
  with s have q: "q = Ok rot" "e' = e\<lparr>em_output := g\<rparr>" "w' = w1" by (auto simp: emit_start_def)
  from rotate_ok [OF ok held p [unfolded q(1)]] due_none [OF ok held] rotate_inputs [OF ok p] q
  show ?thesis by (simp add: sends_def)
qed

lemma emit_settled_sends:
  assumes s: "emit_settled ro e w = (Ok b, e', w')" and ok: "ok (em_output e)"
  shows "sends (em_output e) w [] (em_output e') w' \<and> b = (ro_suspended ro (em_output e') = None) \<and>
         e' = e\<lparr>em_output := em_output e'\<rparr>"
proof -
  obtain q g w1 where p: "ro_retry ro (em_output e) w = (q, g, w1)"
    by (cases "ro_retry ro (em_output e) w") auto
  with s obtain rot where q: "q = Ok rot" "e' = e\<lparr>em_output := g\<rparr>" "w' = w1" "b = (rot = Complete)"
    by (cases q) (auto simp: emit_settled_def)
  from retry_ok [OF ok p [unfolded q(1)]] retry_inputs [OF ok p] q show ?thesis by (simp add: sends_def)
qed

text \<open>How a drain stopped, and that it stopped with a waker set or a message held.\<close>

definition drained_as :: "('o, 'r) next_op \<Rightarrow> drained \<Rightarrow> 'r \<Rightarrow> ('s, 'r, 'f, 'p) emit \<Rightarrow> bool" where
  "drained_as nxt dr r0 e' \<longleftrightarrow>
     (case dr of
        DDone \<Rightarrow> nxt r0 = (Ok None, em_routine e') \<and> ro_suspended ro (em_output e') = None
      | DParked \<Rightarrow> r0 = em_routine e' \<and> ro_suspended ro (em_output e') \<noteq> None
      | DYielded \<Rightarrow> r0 = em_routine e' \<and> em_waker e' \<in> em_woken e')"

lemma emit_rounds_conducts:
  assumes "emit_rounds nxt ro n e w = (Ok dr, e', w')" and "ok (em_output e)"
    and "ro_suspended ro (em_output e) = None" and "em_state e \<noteq> Forwarding" "em_state e \<noteq> NClosed"
  shows "\<exists>os r0. sends (em_output e) w os (em_output e') w' \<and> emit_frame e e' \<and>
           em_state e' = em_state e \<and> drained_as nxt dr r0 e' \<and>
           conducts send nxt flush poll (em_routine e) (em_state e) [] os r0 (em_state e)"
  using assms
proof (induction n arbitrary: e w)
  case 0
  then show ?case
    by (rule_tac x = "[]" in exI, rule_tac x = "em_routine e" in exI)
      (auto simp: sends_nothing emit_frame_def drained_as_def conducts.stop)
next
  case (Suc n)
  obtain q r where p: "nxt (em_routine e) = (q, r)" by (cases "nxt (em_routine e)") auto
  with Suc.prems obtain y where q: "q = Ok y" by (cases q) auto
  show ?case
  proof (cases y)
    case None
    with Suc.prems p q have "dr = DDone" "e' = e\<lparr>em_routine := r\<rparr>" "w' = w" by auto
    with Suc.prems p q None show ?thesis
      by (rule_tac x = "[]" in exI, rule_tac x = "em_routine e" in exI)
        (auto simp: sends_nothing emit_frame_def drained_as_def conducts.stop)
  next
    case (Some z)
    let ?e = "e\<lparr>em_routine := r\<rparr>"
    obtain q1 e1 w1 where s: "emit_start ro (Data z) ?e w = (q1, e1, w1)"
      by (cases "emit_start ro (Data z) ?e w") auto
    with Suc.prems p q Some obtain rot where q1: "q1 = Ok rot" by (cases q1) auto
    from emit_start_sends [OF s [unfolded q1]] Suc.prems
    have a: "sends (em_output e) w [Data z] (em_output e1) w1" "(rot = Complete) = (ro_suspended ro (em_output e1) = None)"
        "e1 = ?e\<lparr>em_output := em_output e1\<rparr>" by auto
    obtain g1 where g1: "e1 = e\<lparr>em_routine := r, em_output := g1\<rparr>" using a(3) by blast
    have f: "emit_frame e e1" unfolding g1 by (simp add: emit_frame_def)
    have c: "conducts send nxt flush poll (em_routine e) (em_state e) [] [Data z] r (em_state e)"
      by (rule conducts.emit [OF _ _ conducts.stop]) (use p q Some Suc.prems in simp_all)
    show ?thesis
    proof (cases rot)
      case (SuspendedAt k)
      with Suc.prems p q Some s q1 have e': "dr = DParked" "e' = e1" "w' = w1" by (auto simp: is_suspended_def)
      have "drained_as nxt dr r e'" using a(2) e' SuspendedAt g1 by (auto simp: drained_as_def)
      moreover have "em_state e' = em_state e" using e' g1 by simp
      ultimately show ?thesis using a(1) f c e' by blast
    next
      case Complete
      with Suc.prems p q Some s q1 have rest: "emit_rounds nxt ro n e1 w1 = (Ok dr, e', w')"
        by (auto simp: is_suspended_def)
      have st: "em_state e1 = em_state e" "em_routine e1 = r" using g1 by auto
      have "ok (em_output e1)" using a(1) by (simp add: sends_def)
      from Suc.IH [OF rest this] a(2) Complete st Suc.prems obtain os r0 where
        b: "sends (em_output e1) w1 os (em_output e') w'" "emit_frame e1 e'" "em_state e' = em_state e"
           "drained_as nxt dr r0 e'" "conducts send nxt flush poll r (em_state e) [] os r0 (em_state e)" by auto
      from sends_trans [OF a(1) b(1)] emit_frame_trans [OF f b(2)] b(3,4) conducts_append [OF c b(5)]
      show ?thesis by auto
    qed
  qed
qed

lemma emit_drain_conducts:
  assumes d: "emit_drain nxt ro e w = (Ok dr, e', w')" and ok: "ok (em_output e)"
    and st: "em_state e \<noteq> Forwarding" "em_state e \<noteq> NClosed"
  shows "\<exists>os r0. sends (em_output e) w os (em_output e') w' \<and> emit_frame e e' \<and>
           em_state e' = em_state e \<and> drained_as nxt dr r0 e' \<and>
           conducts send nxt flush poll (em_routine e) (em_state e) [] os r0 (em_state e)"
proof -
  obtain q e1 w1 where p: "emit_settled ro e w = (q, e1, w1)" by (cases "emit_settled ro e w") auto
  with d obtain b where q: "q = Ok b" by (cases q) (auto simp: emit_drain_def)
  from emit_settled_sends [OF p [unfolded q] ok] have a:
    "sends (em_output e) w [] (em_output e1) w1" "b = (ro_suspended ro (em_output e1) = None)"
    and e1: "e1 = e\<lparr>em_output := em_output e1\<rparr>" by auto
  then obtain g1 where g1: "e1 = e\<lparr>em_output := g1\<rparr>" by blast
  have f: "emit_frame e e1" "em_state e1 = em_state e" "em_routine e1 = em_routine e"
    unfolding g1 by (simp_all add: emit_frame_def)
  show ?thesis
  proof (cases b)
    case False
    with d p q have e': "dr = DParked" "e' = e1" "w' = w1" by (auto simp: emit_drain_def)
    have "drained_as nxt dr (em_routine e) e'" using a(2) e' False f by (auto simp: drained_as_def)
    with a(1) f e' show ?thesis using conducts.stop [of send nxt flush poll "em_routine e" "em_state e"] by blast
  next
    case True
    with d p q have rest: "emit_rounds nxt ro (em_budget e1) e1 w1 = (Ok dr, e', w')" by (simp add: emit_drain_def)
    have "ok (em_output e1)" using a(1) by (simp add: sends_def)
    from emit_rounds_conducts [OF rest this, of send flush poll] a(2) True f st obtain os r0 where
      b: "sends (em_output e1) w1 os (em_output e') w'" "emit_frame e1 e'" "em_state e' = em_state e"
         "drained_as nxt dr r0 e'" "conducts send nxt flush poll (em_routine e) (em_state e) [] os r0 (em_state e)"
      by auto
    from sends_trans [OF a(1) b(1)] emit_frame_trans [OF f(1) b(2)] b(3-5) show ?thesis by auto
  qed
qed


definition emit_attended :: "('s, 'r, 'f, 'p) emit \<Rightarrow> ('s, 'r, 'f, 'p) emit \<Rightarrow> bool" where
  "emit_attended e e' \<longleftrightarrow>
     (case em_state e' of
        Running \<Rightarrow> (case em_state e of
            Running \<Rightarrow> True | _ \<Rightarrow> set (em_inputs e) \<subseteq> em_woken e' \<and> em_work e \<in> em_woken e')
      | Flushing s \<Rightarrow> em_state e = Flushing s
      | FlushReady s \<Rightarrow> em_state e = FlushReady s \<and>
          (em_waker e \<in> em_woken e' \<or> ro_suspended ro (em_output e') \<noteq> None)
      | MarkerReady s \<Rightarrow> em_state e = MarkerReady s \<and>
          (em_waker e \<in> em_woken e' \<or> ro_suspended ro (em_output e') \<noteq> None)
      | Forwarding \<Rightarrow> ro_suspended ro (em_output e') \<noteq> None
      | CloseReady \<Rightarrow> em_state e = CloseReady \<and> em_waker e \<in> em_woken e'
      | NClosed \<Rightarrow> False)"

lemma emit_running_fields [simp]:
  "em_state (emit_running e) = Running" "em_output (emit_running e) = em_output e"
  "em_routine (emit_running e) = em_routine e" "em_waker (emit_running e) = em_waker e"
  "em_inputs (emit_running e) = em_inputs e" "em_work (emit_running e) = em_work e"
  "em_budget (emit_running e) = em_budget e"
  "em_woken (emit_running e) = insert (em_work e) (set (em_inputs e) \<union> em_woken e)"
  by (simp_all add: emit_running_def emit_wake_inputs_def Let_def)

lemma emit_signal_conducts:
  assumes g: "emit_signal nxt ro sig e w = (Ok v, e', w')" and ok: "ok (em_output e)"
    and st: "em_state e = FlushReady s \<and> sig = Flush s \<or> em_state e = MarkerReady s \<and> sig = Marker s"
  shows "\<exists>os. v = Pending \<and> sends (em_output e) w os (em_output e') w' \<and> emit_frame e e' \<and> emit_attended e e' \<and>
           conducts send nxt flush poll (em_routine e) (em_state e) [] os (em_routine e') (em_state e')"
proof -
  obtain q e1 w1 where p: "emit_drain nxt ro e w = (q, e1, w1)" by (cases "emit_drain nxt ro e w") auto
  with g obtain dr where q: "q = Ok dr" by (cases q) (auto simp: emit_signal_def)
  from st have st': "em_state e \<noteq> Forwarding" "em_state e \<noteq> NClosed" by auto
  from emit_drain_conducts [OF p [unfolded q] ok st', of send flush poll] obtain os r0 where
    a: "sends (em_output e) w os (em_output e1) w1" "emit_frame e e1" "em_state e1 = em_state e"
       "drained_as nxt dr r0 e1" "conducts send nxt flush poll (em_routine e) (em_state e) [] os r0 (em_state e)"
    by blast
  show ?thesis
  proof (cases "dr = DDone")
    case False
    with g p q have e': "v = Pending" "e' = e1" "w' = w1" by (cases dr; auto simp: emit_signal_def)+
    have "emit_attended e e1" using a(2-4) st False
      by (cases dr) (auto simp: emit_attended_def drained_as_def emit_frame_def)
    moreover have "r0 = em_routine e1" using a(4) False by (cases dr) (auto simp: drained_as_def)
    ultimately show ?thesis using a e' by metis
  next
    case True
    let ?e = "e1\<lparr>em_state := Forwarding\<rparr>"
    from True a(4) have r0: "nxt r0 = (Ok None, em_routine e1)" "ro_suspended ro (em_output e1) = None"
      by (auto simp: drained_as_def)
    obtain q1 e2 w2 where s2: "emit_start ro sig ?e w1 = (q1, e2, w2)"
      by (cases "emit_start ro sig ?e w1") auto
    with g p q True obtain rot where q1: "q1 = Ok rot" by (cases q1) (auto simp: emit_signal_def)
    have "ok (em_output e1)" using a(1) by (simp add: sends_def)
    with emit_start_sends [OF s2 [unfolded q1]] r0(2) obtain g2 where
      b: "sends (em_output e1) w1 [sig] g2 w2" "(rot = Complete) = (ro_suspended ro g2 = None)"
         "e2 = e1\<lparr>em_state := Forwarding, em_output := g2\<rparr>" by auto
    have sent: "sends (em_output e) w (os @ [sig]) g2 w2" by (rule sends_trans [OF a(1) b(1)])
    have "conducts send nxt flush poll r0 (em_state e) [] [sig] (em_routine e1) Forwarding"
      using st r0(1)
      by (auto intro: conducts.flushed [OF _ conducts.stop] conducts.marked [OF _ conducts.stop])
    from conducts_append [OF a(5) this]
    have fwd: "conducts send nxt flush poll (em_routine e) (em_state e) [] (os @ [sig]) (em_routine e1) Forwarding"
      by simp
    have e': "v = Pending" "w' = w2" "e' = (if rot = Complete then emit_running e2 else e2)"
      using g p q True s2 q1 by (auto simp: emit_signal_def)
    show ?thesis
    proof (cases "rot = Complete")
      case True
      have "conducts send nxt flush poll (em_routine e1) Forwarding [] [] (em_routine e1) Running"
        by (rule conducts.resume [OF conducts.stop])
      from conducts_append [OF fwd this] have "conducts send nxt flush poll (em_routine e) (em_state e) []
          (os @ [sig]) (em_routine e') (em_state e')" using True e' b(3) by simp
      moreover have "emit_frame e e' \<and> emit_attended e e'" using True e' b(3) a(2) st
        by (auto simp: emit_frame_def emit_attended_def)
      ultimately show ?thesis using sent e' True b(3) by auto
    next
      case False
      have "emit_frame e e' \<and> emit_attended e e'" using False e' b a(2)
        by (auto simp: emit_frame_def emit_attended_def)
      with fwd sent e' False b(3) show ?thesis by auto
    qed
  qed
qed

lemma emit_poll_conducts:
  assumes g: "emit_poll nxt ro e w = (Ok v, e', w')" and ok: "ok (em_output e)"
  shows "\<exists>os. v = Pending \<and> sends (em_output e) w os (em_output e') w' \<and> emit_frame e e' \<and> emit_attended e e' \<and>
           conducts send nxt flush poll (em_routine e) (em_state e) [] os (em_routine e') (em_state e')"
proof -
  from g have s: "emit_step nxt ro e w = (Ok v, e', w')"
    by (auto simp: emit_poll_def Let_def split: prod.splits if_splits)
  have plain: ?thesis if p: "emit_drain nxt ro e w = (Ok dr, e', w')" and v: "v = Pending"
      and st: "em_state e = Running \<or> em_state e = Flushing x \<or> em_state e = CloseReady \<and> dr = DYielded" for dr x
  proof -
    from st have "em_state e \<noteq> Forwarding" "em_state e \<noteq> NClosed" by auto
    from emit_drain_conducts [OF p ok this, of send flush poll] obtain os r0 where
      a: "sends (em_output e) w os (em_output e') w'" "emit_frame e e'" "em_state e' = em_state e"
         "drained_as nxt dr r0 e'" "conducts send nxt flush poll (em_routine e) (em_state e) [] os r0 (em_state e)"
      by blast
    have "emit_attended e e'" using a(2-4) st
      by (auto simp: emit_attended_def drained_as_def emit_frame_def)
    moreover have "conducts send nxt flush poll r0 (em_state e) [] [] (em_routine e') (em_state e)"
      using a(4) by (cases dr) (auto simp: drained_as_def intro: conducts.intros)
    ultimately show ?thesis using a(1-3) v conducts_append [OF a(5)] by fastforce
  qed
  show ?thesis
  proof (cases "em_state e")
    case Running
    with s obtain dr where "emit_drain nxt ro e w = (Ok dr, e', w')" "v = Pending"
      by (auto simp: emit_step_def split: prod.splits result.splits)
    with Running plain show ?thesis by blast
  next
    case (Flushing x)
    with s obtain dr where "emit_drain nxt ro e w = (Ok dr, e', w')" "v = Pending"
      by (auto simp: emit_step_def split: prod.splits result.splits)
    with Flushing plain show ?thesis by blast
  next
    case (FlushReady x)
    with s have "emit_signal nxt ro (Flush x) e w = (Ok v, e', w')" by (simp add: emit_step_def)
    from emit_signal_conducts [OF this ok] FlushReady show ?thesis by blast
  next
    case (MarkerReady x)
    with s have "emit_signal nxt ro (Marker x) e w = (Ok v, e', w')" by (simp add: emit_step_def)
    from emit_signal_conducts [OF this ok] MarkerReady show ?thesis by blast
  next
    case Forwarding
    obtain q e1 w1 where p: "emit_settled ro e w = (q, e1, w1)" by (cases "emit_settled ro e w") auto
    with s Forwarding obtain b where q: "q = Ok b" "v = Pending" "w' = w1"
        "e' = (if b then emit_running e1 else e1)"
      by (cases q) (auto simp: emit_step_def)
    from emit_settled_sends [OF p [unfolded q(1)] ok] obtain g1 where
      a: "sends (em_output e) w [] g1 w1" "b = (ro_suspended ro g1 = None)" "e1 = e\<lparr>em_output := g1\<rparr>"
      by blast
    show ?thesis
    proof (cases b)
      case True
      with a q Forwarding show ?thesis
        by (auto simp: emit_frame_def emit_attended_def intro!: exI [of _ "[]"] conducts.resume [OF conducts.stop])
    next
      case False
      with a q Forwarding show ?thesis
        by (auto simp: emit_frame_def emit_attended_def intro!: exI [of _ "[]"] conducts.stop)
    qed
  next
    case CloseReady
    with s have "emit_drain nxt ro e w = (Ok DYielded, e', w')" "v = Pending"
      by (auto simp: emit_step_def Let_def split: prod.splits result.splits drained.splits)
    with CloseReady plain show ?thesis by blast
  next
    case NClosed
    with s show ?thesis by (simp add: emit_step_def)
  qed
qed

end

text \<open>A failed poll closes the node and wakes its other phases; the wakers it names stay.\<close>

definition emit_names :: "('s, 'r, 'f, 'p) emit \<Rightarrow> 'p \<times> 'p list \<times> 'p \<times> nat" where
  "emit_names e = (em_waker e, em_inputs e, em_work e, em_budget e)"

lemma emit_names_update [simp]:
  "emit_names (e\<lparr>em_output := g\<rparr>) = emit_names e" "emit_names (e\<lparr>em_routine := r\<rparr>) = emit_names e"
  "emit_names (e\<lparr>em_state := st\<rparr>) = emit_names e" "emit_names (e\<lparr>em_woken := v\<rparr>) = emit_names e"
  by (simp_all add: emit_names_def)

lemma emit_start_names: "emit_start ro m e w = (q, e', w') \<Longrightarrow> emit_names e' = emit_names e"
  by (auto simp: emit_start_def Let_def split: prod.splits)

lemma emit_settled_names: "emit_settled ro e w = (q, e', w') \<Longrightarrow> emit_names e' = emit_names e"
  by (auto simp: emit_settled_def Let_def split: prod.splits result.splits)

lemma emit_rounds_names: "emit_rounds nxt ro n e w = (q, e', w') \<Longrightarrow> emit_names e' = emit_names e"
proof (induction n arbitrary: e w)
  case (Suc n)
  then show ?case
    by (auto split: prod.splits result.splits option.splits if_splits dest: emit_start_names)
qed auto

lemma emit_drain_names: "emit_drain nxt ro e w = (q, e', w') \<Longrightarrow> emit_names e' = emit_names e"
  by (auto simp: emit_drain_def split: prod.splits result.splits bool.splits
      dest!: emit_settled_names emit_rounds_names)

lemma emit_running_names: "emit_names (emit_running e) = emit_names e"
  by (simp add: emit_running_def emit_wake_inputs_def Let_def)

lemma emit_signal_names: "emit_signal nxt ro sig e w = (q, e', w') \<Longrightarrow> emit_names e' = emit_names e"
  by (auto simp: emit_signal_def emit_running_names split: prod.splits result.splits drained.splits if_splits
      dest!: emit_drain_names emit_start_names)

lemma emit_step_names: "emit_step nxt ro e w = (q, e', w') \<Longrightarrow> emit_names e' = emit_names e"
  by (cases "em_state e")
    (auto simp: emit_step_def emit_running_names Let_def
      split: prod.splits result.splits drained.splits if_splits
      dest!: emit_drain_names emit_settled_names emit_signal_names)

lemma emit_poll_Err:
  assumes "emit_poll nxt ro e w = (Err x, e', w')"
  shows "em_state e' = NClosed \<and> set (em_inputs e) \<subseteq> em_woken e' \<and> em_work e \<in> em_woken e'"
proof -
  obtain q e1 w1 where s: "emit_step nxt ro e w = (q, e1, w1)" by (cases "emit_step nxt ro e w") auto
  with assms have "q = Err x" "e' = emit_close e1"
    by (auto simp: emit_poll_def split: if_splits)
  with emit_step_names [OF s] show ?thesis
    by (auto simp: emit_close_def emit_wake_inputs_def Let_def emit_names_def)
qed

lemma emit_rounds_state: "emit_rounds nxt ro n e w = (q, e', w') \<Longrightarrow> em_state e' = em_state e"
proof (induction n arbitrary: e w)
  case (Suc n)
  then show ?case
    by (auto simp: emit_start_def Let_def split: prod.splits result.splits option.splits if_splits)
qed auto

lemma emit_drain_state: "emit_drain nxt ro e w = (q, e', w') \<Longrightarrow> em_state e' = em_state e"
  by (auto simp: emit_drain_def emit_settled_def Let_def split: prod.splits result.splits bool.splits if_splits
      dest!: emit_rounds_state)

lemma emit_poll_close_stays:
  "emit_poll nxt ro e w = (Ok v, e', w') \<Longrightarrow> em_state e = CloseReady \<Longrightarrow> em_state e' = CloseReady"
  by (auto simp: emit_poll_def emit_step_def Let_def
      split: prod.splits result.splits drained.splits if_splits dest!: emit_drain_state)

lemma emit_poll_closed: "em_state e = NClosed \<Longrightarrow> \<exists>e'. emit_poll nxt ro e w = (Err Closed, e', w)"
  by (simp add: emit_poll_def emit_step_def)

end
