(* ===== verification/Poll_Line.thy ===== *)
theory Poll_Line
  imports Poll_Node Line_Work Waking_Edge
begin

text \<open>
  The poll line node (src/node/line/poll/node.rs and node/): three phases over one shared state. The
  state here is the node's \<open>SharedState\<close>; the message an input holds is the Input phase's own. Polling a
  phase is one function; any order of polls, woken or not, interleaved with everything else the
  program does, is a run.
\<close>

section \<open>State\<close>

definition BUDGET :: nat where
  "BUDGET = 42"

record budget =
  bg_input :: nat
  bg_output :: nat

definition budget_default :: budget where
  "budget_default = \<lparr>bg_input = BUDGET, bg_output = BUDGET\<rparr>"

datatype line_phase = LInput | LWork | LOutput

record ('s, 'r, 'f) line_shared =
  pl_open :: bool
  pl_routine :: 'r
  pl_output :: 'f
  pl_state :: "'s node_state"
  pl_budget :: budget
  pl_woken :: "line_phase set"

definition line_phases ::
  "'r \<Rightarrow> 'f \<Rightarrow> waker \<Rightarrow> budget \<Rightarrow> ('m, 'f, 'w) rotate_ops \<Rightarrow> 'w \<Rightarrow> ('s, 'r, 'f) line_shared \<times> 'w" where
  "line_phases routine out output_wake bg ro w =
     (\<lparr>pl_open = True, pl_routine = routine, pl_output = out, pl_state = Running, pl_budget = bg,
       pl_woken = {}\<rparr>, ro_schedule ro output_wake out w)"

definition pl_wake :: "line_phase \<Rightarrow> ('s, 'r, 'f) line_shared \<Rightarrow> ('s, 'r, 'f) line_shared" where
  "pl_wake p nd = nd\<lparr>pl_woken := insert p (pl_woken nd)\<rparr>"

section \<open>Input\<close>

definition line_feed :: "('s, 'r, 'f) line_shared \<Rightarrow> ('s, 'r, line_phase) feed" where
  "line_feed nd =
     \<lparr>fe_waker = LInput, fe_this = pl_open nd, fe_others = False, fe_routine = pl_routine nd,
      fe_work = LWork, fe_state = pl_state nd, fe_budget = bg_input (pl_budget nd),
      fe_woken = pl_woken nd\<rparr>"

definition line_fed :: "('s, 'r, line_phase) feed \<Rightarrow> ('s, 'r, 'f) line_shared \<Rightarrow> ('s, 'r, 'f) line_shared" where
  "line_fed f nd =
     nd\<lparr>pl_open := fe_this f, pl_routine := fe_routine f, pl_state := fe_state f, pl_woken := fe_woken f\<rparr>"

definition line_drain ::
  "('i, 'r) send_op \<Rightarrow> 'r flush_op \<Rightarrow> ('w \<Rightarrow> ('i, 's) message option res \<times> 'w) \<Rightarrow>
   'i option \<Rightarrow> ('s, 'r, 'f) line_shared \<Rightarrow> 'w \<Rightarrow> unit res \<times> 'i option \<times> ('s, 'r, 'f) line_shared \<times> 'w" where
  "line_drain send flush recv held nd w =
     (let (q, held', f, w') = feed_drain send flush recv held (line_feed nd) w; nd' = line_fed f nd
      in case q of
           Err e \<Rightarrow> (Err e, held', nd', w')
         | Ok _ \<Rightarrow> (Ok (), held', if pl_state nd' = CloseReady then pl_wake LOutput nd' else nd', w'))"

definition line_input_poll ::
  "('i, 'r) send_op \<Rightarrow> 'r flush_op \<Rightarrow> ('w \<Rightarrow> ('i, 's) message option res \<times> 'w) \<Rightarrow>
   'i option \<Rightarrow> ('s, 'r, 'f) line_shared \<Rightarrow> 'w \<Rightarrow> unit poll res \<times> 'i option \<times> ('s, 'r, 'f) line_shared \<times> 'w" where
  "line_input_poll send flush recv held nd w =
     (case pl_state nd of
        NClosed \<Rightarrow> (Err Closed, held, nd, w)
      | CloseReady \<Rightarrow> (Err Closed, held, nd, w)
      | Running \<Rightarrow>
          (case line_drain send flush recv held nd w of
             (Err e, held', nd', w') \<Rightarrow> (Err e, held', nd', w')
           | (Ok _, held', nd', w') \<Rightarrow>
               (if pl_state nd' = CloseReady then (Err Closed, held', nd', w')
                else (Ok Pending, held', nd', w')))
      | _ \<Rightarrow> (Ok Pending, held, nd, w))"

section \<open>Work and Output\<close>

definition line_work_poll ::
  "'r rpoll_op \<Rightarrow> ('s, 'r, 'f) line_shared \<Rightarrow> unit poll res \<times> ('s, 'r, 'f) line_shared" where
  "line_work_poll poll nd =
     (let (q, d) = drive_poll poll
            \<lparr>dr_routine = pl_routine nd, dr_output = LOutput, dr_state = pl_state nd, dr_woken = pl_woken nd\<rparr>
      in (q, nd\<lparr>pl_routine := dr_routine d, pl_state := dr_state d, pl_woken := dr_woken d\<rparr>))"

definition line_emit :: "('s, 'r, 'f) line_shared \<Rightarrow> ('s, 'r, 'f, line_phase) emit" where
  "line_emit nd =
     \<lparr>em_routine = pl_routine nd, em_output = pl_output nd, em_waker = LOutput, em_inputs = [LInput],
      em_work = LWork, em_state = pl_state nd, em_budget = bg_output (pl_budget nd),
      em_woken = pl_woken nd\<rparr>"

definition line_output_poll ::
  "('o, 'r) next_op \<Rightarrow> (('o, 's) message, 'f, 'w) rotate_ops \<Rightarrow> ('s, 'r, 'f) line_shared \<Rightarrow> 'w \<Rightarrow>
   unit poll res \<times> ('s, 'r, 'f) line_shared \<times> 'w" where
  "line_output_poll nxt ro nd w =
     (let (q, e, w') = emit_poll nxt ro (line_emit nd) w
      in (q, nd\<lparr>pl_routine := em_routine e, pl_output := em_output e, pl_state := em_state e,
                pl_woken := em_woken e\<rparr>, w'))"

section \<open>Runs\<close>

text \<open>\<open>ly_ended\<close>: phases that returned an error and are dropped. \<open>ly_asked\<close>: the routine answered Pending
  to a poll during the flush under way, so it owes a wake of Work.\<close>

record ('i, 's, 'r, 'f, 'w) line_sys =
  ly_node :: "('s, 'r, 'f) line_shared"
  ly_held :: "'i option"
  ly_world :: 'w
  ly_ended :: "line_phase set"
  ly_asked :: bool

record ('i, 'o, 'r) poll_ops =
  po_send :: "('i, 'r) send_op"
  po_next :: "('o, 'r) next_op"
  po_flush :: "'r flush_op"
  po_poll :: "'r rpoll_op"

definition note_end ::
  "line_phase \<Rightarrow> unit poll res \<Rightarrow> ('i, 's, 'r, 'f, 'w) line_sys \<Rightarrow> ('i, 's, 'r, 'f, 'w) line_sys" where
  "note_end p q y = (if is_ok q then y else y\<lparr>ly_ended := insert p (ly_ended y)\<rparr>)"

text \<open>The wake is consumed before the phase is polled.\<close>

fun poll_line_phase ::
  "('i, 'o, 'r) poll_ops \<Rightarrow> (('o, 's) message, 'f, 'w) rotate_ops \<Rightarrow>
   ('w \<Rightarrow> ('i, 's) message option res \<times> 'w) \<Rightarrow> line_phase \<Rightarrow> ('i, 's, 'r, 'f, 'w) line_sys \<Rightarrow>
   unit poll res \<times> ('i, 's, 'r, 'f, 'w) line_sys" where
  "poll_line_phase po ro recv LInput y =
     (let nd = (ly_node y)\<lparr>pl_woken := pl_woken (ly_node y) - {LInput}\<rparr>;
          (q, held, nd', w) = line_input_poll (po_send po) (po_flush po) recv (ly_held y) nd (ly_world y)
      in (q, note_end LInput q (y\<lparr>ly_node := nd', ly_held := held, ly_world := w,
               ly_asked := ly_asked y \<and> pl_state nd' = pl_state nd\<rparr>)))"
| "poll_line_phase po ro recv LWork y =
     (let nd = (ly_node y)\<lparr>pl_woken := pl_woken (ly_node y) - {LWork}\<rparr>;
          (q, nd') = line_work_poll (po_poll po) nd
      in (q, note_end LWork q (y\<lparr>ly_node := nd', ly_asked := True\<rparr>)))"
| "poll_line_phase po ro recv LOutput y =
     (let nd = (ly_node y)\<lparr>pl_woken := pl_woken (ly_node y) - {LOutput}\<rparr>;
          (q, nd', w) = line_output_poll (po_next po) ro nd (ly_world y)
      in (q, note_end LOutput q (y\<lparr>ly_node := nd', ly_world := w\<rparr>)))"

text \<open>A poll thread drops a phase that returns Closed; any other error ends the thread. \<open>Elsewhere g v\<close>:
  the rest of the program moves the world and sets wakers.\<close>

datatype 'w line_event = Polled line_phase | Elsewhere "'w \<Rightarrow> 'w" "line_phase set"

definition line_event_run ::
  "('i, 'o, 'r) poll_ops \<Rightarrow> (('o, 's) message, 'f, 'w) rotate_ops \<Rightarrow>
   ('w \<Rightarrow> ('i, 's) message option res \<times> 'w) \<Rightarrow> 'w line_event \<Rightarrow> ('i, 's, 'r, 'f, 'w) line_sys \<Rightarrow>
   ('i, 's, 'r, 'f, 'w) line_sys option" where
  "line_event_run po ro recv ev y =
     (case ev of
        Elsewhere g v \<Rightarrow>
          Some (y\<lparr>ly_world := g (ly_world y),
                 ly_node := (ly_node y)\<lparr>pl_woken := pl_woken (ly_node y) \<union> v\<rparr>\<rparr>)
      | Polled p \<Rightarrow>
          (if p \<in> ly_ended y then Some y
           else case poll_line_phase po ro recv p y of
                  (Ok _, y') \<Rightarrow> Some y'
                | (Err e, y') \<Rightarrow> (if is_closed e then Some y' else None)))"

fun line_run ::
  "('i, 'o, 'r) poll_ops \<Rightarrow> (('o, 's) message, 'f, 'w) rotate_ops \<Rightarrow>
   ('w \<Rightarrow> ('i, 's) message option res \<times> 'w) \<Rightarrow> 'w line_event list \<Rightarrow> ('i, 's, 'r, 'f, 'w) line_sys \<Rightarrow>
   ('i, 's, 'r, 'f, 'w) line_sys option" where
  "line_run po ro recv [] y = Some y"
| "line_run po ro recv (ev # evs) y =
     (case line_event_run po ro recv ev y of None \<Rightarrow> None | Some y' \<Rightarrow> line_run po ro recv evs y')"

text \<open>Nobody forgotten: what can still happen in a state has a waker set, a message held that its
  edge or the routine owes a wake for, or is over.\<close>

definition line_attended ::
  "('m, 'f, 'w) rotate_ops \<Rightarrow> ('w \<Rightarrow> bool) \<Rightarrow> ('i, 's, 'r, 'f, 'w) line_sys \<Rightarrow> bool" where
  "line_attended ro avail y \<longleftrightarrow>
     (let nd = ly_node y; v = pl_woken nd; stuck = ro_suspended ro (pl_output nd) \<noteq> None
      in case pl_state nd of
           Running \<Rightarrow> avail (ly_world y) \<longrightarrow> ly_held y \<noteq> None \<or> LInput \<in> v
         | Flushing s \<Rightarrow> LWork \<in> v \<or> ly_asked y
         | FlushReady s \<Rightarrow> LOutput \<in> v \<or> stuck
         | MarkerReady s \<Rightarrow> LWork \<in> v \<or> LOutput \<in> v \<or> stuck
         | Forwarding \<Rightarrow> stuck
         | CloseReady \<Rightarrow> LOutput \<in> v \<and> (LWork \<in> v \<or> LWork \<in> ly_ended y) \<and> LInput \<in> ly_ended y
         | NClosed \<Rightarrow> LOutput \<in> ly_ended y \<and> (LWork \<in> v \<or> LWork \<in> ly_ended y) \<and>
             (LInput \<in> v \<or> LInput \<in> ly_ended y))"

text \<open>A node as the graph starts it: bound to its output edges, every phase due a first poll.\<close>

definition line_start ::
  "(('o, 's) message, 'f, 'w) rotate_ops \<Rightarrow> 'r \<Rightarrow> 'f \<Rightarrow> waker \<Rightarrow> budget \<Rightarrow> 'w \<Rightarrow>
   ('i, 's, 'r, 'f, 'w) line_sys" where
  "line_start ro r out k bg w =
     (let (nd, w') = line_phases r out k bg ro w
      in \<lparr>ly_node = nd\<lparr>pl_woken := {LInput, LWork, LOutput}\<rparr>, ly_held = None, ly_world = w',
          ly_ended = {}, ly_asked = False\<rparr>)"

section \<open>Every phase refines the reference\<close>

locale poll_line =
  feeding "po_send po" "po_send po" "\<lambda>x. x" recv taken avail +
  emitting ro lanes received due ok inputs
  for po :: "('i, 'o, 'r) poll_ops" and recv :: "'w \<Rightarrow> ('i, 's) message option res \<times> 'w"
    and taken :: "'w \<Rightarrow> ('i, 's) message list" and avail :: "'w \<Rightarrow> bool"
    and ro :: "(('o, 's) message, 'f, 'w) rotate_ops" and lanes :: "'f \<Rightarrow> nat"
    and received :: "'f \<Rightarrow> 'w \<Rightarrow> nat \<Rightarrow> ('o, 's) message list"
    and due :: "'f \<Rightarrow> nat \<Rightarrow> ('o, 's) message list" and ok :: "'f \<Rightarrow> bool" and inputs :: "'w \<Rightarrow> 'x" +
  assumes recv_received: "recv w = (q, w1) \<Longrightarrow> received g w1 i = received g w i"
    and inputs_view: "inputs w1 = inputs w \<Longrightarrow> taken w1 = taken w \<and> avail w1 = avail w"
    and flush_open: "po_flush po r \<noteq> (Err Closed, r1)"
begin

lemma map_message_same: "map_message (\<lambda>x. x) (\<lambda>s. s) = (\<lambda>m. m)"
  by (rule ext) (simp add: message.map_ident)

lemma sided_id [simp]: "sided ms = ms"
  by (simp add: map_message_same)

abbreviation line_conducts where
  "line_conducts \<equiv> conducts (po_send po) (po_next po) (po_flush po) (po_poll po)"

text \<open>What a phase does to a node: it takes \<open>ms\<close>, hands \<open>acc\<close> to the routine and sends \<open>os\<close>.\<close>

definition line_moves :: "('i, 's, 'r, 'f, 'w) line_sys \<Rightarrow> ('i, 's, 'r, 'f, 'w) line_sys \<Rightarrow>
    ('i, 's) message list \<Rightarrow> ('o, 's) message list \<Rightarrow> bool" where
  "line_moves y y' acc os \<longleftrightarrow>
     (\<exists>ms. taken (ly_world y') = taken (ly_world y) @ ms \<and>
           held_list (ly_held y) @ ms = acc @ held_list (ly_held y')) \<and>
     ok (pl_output (ly_node y')) \<and> lanes (pl_output (ly_node y')) = lanes (pl_output (ly_node y)) \<and>
     (\<forall>i < lanes (pl_output (ly_node y)).
        received (pl_output (ly_node y')) (ly_world y') i @ due (pl_output (ly_node y')) i =
        (received (pl_output (ly_node y)) (ly_world y) i @ due (pl_output (ly_node y)) i) @ os) \<and>
     line_conducts (pl_routine (ly_node y)) (pl_state (ly_node y)) acc os
       (pl_routine (ly_node y')) (pl_state (ly_node y'))"

lemma line_moves_refl: "ok (pl_output (ly_node y)) \<Longrightarrow> line_moves y y [] []"
  by (auto simp: line_moves_def intro: conducts.stop)

lemma line_moves_trans:
  assumes a: "line_moves y y1 acc os" and b: "line_moves y1 y2 acc2 os2"
  shows "line_moves y y2 (acc @ acc2) (os @ os2)"
proof -
  from a b obtain ms ms2 where t: "taken (ly_world y1) = taken (ly_world y) @ ms"
      "held_list (ly_held y) @ ms = acc @ held_list (ly_held y1)"
      "taken (ly_world y2) = taken (ly_world y1) @ ms2"
      "held_list (ly_held y1) @ ms2 = acc2 @ held_list (ly_held y2)"
    by (auto simp: line_moves_def)
  have "held_list (ly_held y) @ ms @ ms2 = (acc @ acc2) @ held_list (ly_held y2)"
    using t(2,4) by (metis append.assoc)
  moreover have "taken (ly_world y2) = taken (ly_world y) @ ms @ ms2" using t(1,3) by simp
  moreover have "line_conducts (pl_routine (ly_node y)) (pl_state (ly_node y)) (acc @ acc2) (os @ os2)
      (pl_routine (ly_node y2)) (pl_state (ly_node y2))"
    by (rule conducts_append
        [of _ _ _ _ _ _ acc os "pl_routine (ly_node y1)" "pl_state (ly_node y1)" acc2 os2])
      (use a b in \<open>simp_all add: line_moves_def\<close>)
  moreover have l: "lanes (pl_output (ly_node y1)) = lanes (pl_output (ly_node y))"
      "lanes (pl_output (ly_node y2)) = lanes (pl_output (ly_node y1))" "ok (pl_output (ly_node y2))"
    using a b unfolding line_moves_def by blast+
  moreover have "received (pl_output (ly_node y2)) (ly_world y2) i @ due (pl_output (ly_node y2)) i =
      (received (pl_output (ly_node y)) (ly_world y) i @ due (pl_output (ly_node y)) i) @ os @ os2"
    if i: "i < lanes (pl_output (ly_node y))" for i
  proof -
    from b i l(1) have "received (pl_output (ly_node y2)) (ly_world y2) i @ due (pl_output (ly_node y2)) i =
      (received (pl_output (ly_node y1)) (ly_world y1) i @ due (pl_output (ly_node y1)) i) @ os2"
      unfolding line_moves_def by simp
    also have "\<dots> = ((received (pl_output (ly_node y)) (ly_world y) i @ due (pl_output (ly_node y)) i) @ os) @ os2"
      using a i unfolding line_moves_def by simp
    finally show ?thesis by simp
  qed
  ultimately show ?thesis unfolding line_moves_def by auto
qed

text \<open>No phase ends before the node does, and an open input ends with the node's state.\<close>

definition line_ends :: "('i, 's, 'r, 'f, 'w) line_sys \<Rightarrow> bool" where
  "line_ends y \<longleftrightarrow>
     (ly_ended y = {} \<or> pl_state (ly_node y) = CloseReady \<or> pl_state (ly_node y) = NClosed) \<and>
     (LOutput \<notin> ly_ended y \<or> pl_state (ly_node y) = NClosed) \<and>
     (pl_open (ly_node y) \<or> pl_state (ly_node y) = CloseReady \<or> pl_state (ly_node y) = NClosed)"

definition line_good :: "('i, 's, 'r, 'f, 'w) line_sys \<Rightarrow> bool" where
  "line_good y \<longleftrightarrow> line_attended ro avail y \<and> line_ends y \<and>
     (pl_state (ly_node y) = NClosed \<or> ok (pl_output (ly_node y)))"

definition line_step_ok :: "('i, 's, 'r, 'f, 'w) line_sys \<Rightarrow> ('i, 's, 'r, 'f, 'w) line_sys \<Rightarrow> bool" where
  "line_step_ok y y' \<longleftrightarrow> line_good y' \<and>
     (pl_state (ly_node y') = NClosed \<or>
      pl_state (ly_node y) \<noteq> NClosed \<and> (\<exists>acc os. line_moves y y' acc os))"

lemma line_drain_cases:
  assumes d: "line_drain (po_send po) (po_flush po) recv held nd w = (Ok u, held', nd', w')"
    and st: "pl_state nd = Running"
  obtains ms acc where "taken w' = taken w @ ms" "held_list held @ ms = acc @ held_list held'"
    "line_conducts (pl_routine nd) Running acc [] (pl_routine nd') (pl_state nd')"
    "pl_output nd' = pl_output nd" "pl_woken nd \<subseteq> pl_woken nd'"
    "pl_state nd' = Running \<and> pl_open nd' \<and> avail w' \<longrightarrow> held' \<noteq> None \<or> LInput \<in> pl_woken nd'"
    "pl_state nd' = Running \<or> LWork \<in> pl_woken nd'"
    "pl_state nd' = CloseReady \<longrightarrow> LOutput \<in> pl_woken nd'"
    "pl_state nd' \<in> {Running, CloseReady} \<or> (\<exists>s. pl_state nd' = Flushing s \<or> pl_state nd' = MarkerReady s)"
    "pl_open nd \<longrightarrow> pl_open nd' \<or> pl_state nd' = CloseReady"
    "\<And>g i. received g w' i = received g w i"
proof -
  obtain q h f w1 where p: "feed_drain (po_send po) (po_flush po) recv held (line_feed nd) w = (q, h, f, w1)"
    by (cases "feed_drain (po_send po) (po_flush po) recv held (line_feed nd) w") auto
  have D: "line_drain (po_send po) (po_flush po) recv held nd w =
      (case q of
         Err e \<Rightarrow> (Err e, h, line_fed f nd, w1)
       | Ok _ \<Rightarrow> (Ok (), h, if fe_state f = CloseReady then pl_wake LOutput (line_fed f nd) else line_fed f nd, w1))"
    by (cases q) (simp_all add: line_drain_def p line_fed_def Let_def)
  have q: "q = Ok ()" "held' = h" "w' = w1"
      "nd' = (if fe_state f = CloseReady then pl_wake LOutput (line_fed f nd) else line_fed f nd)"
    using d unfolding D by (cases q; simp)+
  have "fe_state (line_feed nd) = Running" using st by (simp add: line_feed_def)
  from feed_drain_conducts [OF p [unfolded q(1)] this, of "po_next po" "po_poll po"] obtain ms acc where
    a: "taken w1 = taken w @ ms" "held_list held @ ms = acc @ held_list h" "feed_kept (line_feed nd) f"
       "fe_state f = Running \<and> fe_this f \<and> avail w1 \<longrightarrow> h \<noteq> None \<or> LInput \<in> fe_woken f"
       "line_conducts (pl_routine nd) Running acc [] (fe_routine f) (fe_state f)"
    by (auto simp: line_feed_def)
  have "received g w1 i = received g w i" for g i
    by (rule feed_drain_view [where V = "\<lambda>w. received g w i", OF _ p]) (rule recv_received)
  note rcv = this
  from a(3) have k: "pl_woken nd \<subseteq> fe_woken f" "fe_state f = Running \<or> LWork \<in> fe_woken f"
      "fe_state f \<in> {Running, CloseReady} \<or> (\<exists>s. fe_state f = Flushing s \<or> fe_state f = MarkerReady s)"
      "\<not> pl_open nd \<or> fe_this f \<or> fe_state f = CloseReady"
    by (auto simp only: feed_kept_def feed_frame_def line_feed_def feed.simps)
  have nd': "pl_routine nd' = fe_routine f" "pl_output nd' = pl_output nd" "pl_state nd' = fe_state f"
      "pl_open nd' = fe_this f"
      "pl_woken nd' = (if fe_state f = CloseReady then insert LOutput (fe_woken f) else fe_woken f)"
    using q(4) by (simp_all add: line_fed_def pl_wake_def)
  show thesis
    by (rule that [of ms acc]; insert a(1,2,4,5) q(1-3) k rcv; simp add: nd'; (blast | auto)?)
qed

lemma line_input_ok:
  assumes p: "poll_line_phase po ro recv LInput y = (q, y')" and q: "is_ok q \<or> q = Err Closed"
    and e: "LInput \<notin> ly_ended y" and g: "line_good y"
  shows "line_step_ok y y'"
proof -
  let ?nd = "(ly_node y)\<lparr>pl_woken := pl_woken (ly_node y) - {LInput}\<rparr>"
  show ?thesis
  proof (cases "pl_state (ly_node y)")
    case Running
    obtain q1 h nd1 w1 where d: "line_drain (po_send po) (po_flush po) recv (ly_held y) ?nd (ly_world y) = (q1, h, nd1, w1)"
      by (cases "line_drain (po_send po) (po_flush po) recv (ly_held y) ?nd (ly_world y)") auto
    have "is_ok q1"
    proof (rule ccontr)
      assume "\<not> is_ok q1"
      with p q Running d have "q1 = Err Closed"
        by (cases q1) (auto simp: line_input_poll_def Let_def)
      with d show False
        by (auto simp: line_drain_def Let_def feed_drain_not_closed [OF flush_open] split: prod.splits result.splits)
    qed
    then have q1: "q1 = Ok ()" by (cases q1) auto
    have st: "pl_state ?nd = Running" using Running by simp
    from d [unfolded q1] st obtain ms acc where
      a: "taken w1 = taken (ly_world y) @ ms" "held_list (ly_held y) @ ms = acc @ held_list h"
        "line_conducts (pl_routine (ly_node y)) Running acc [] (pl_routine nd1) (pl_state nd1)"
        "pl_output nd1 = pl_output (ly_node y)"
        "pl_state nd1 = Running \<and> pl_open nd1 \<and> avail w1 \<longrightarrow> h \<noteq> None \<or> LInput \<in> pl_woken nd1"
        "pl_state nd1 = Running \<or> LWork \<in> pl_woken nd1" "pl_state nd1 = CloseReady \<longrightarrow> LOutput \<in> pl_woken nd1"
        "pl_state nd1 \<in> {Running, CloseReady} \<or> (\<exists>s. pl_state nd1 = Flushing s \<or> pl_state nd1 = MarkerReady s)"
        "pl_open (ly_node y) \<longrightarrow> pl_open nd1 \<or> pl_state nd1 = CloseReady"
        "\<And>g i. received g w1 i = received g (ly_world y) i"
      by (rule line_drain_cases) auto
    let ?y = "y\<lparr>ly_node := nd1, ly_held := h, ly_world := w1, ly_asked := ly_asked y \<and> pl_state nd1 = Running\<rparr>"
    have y': "y' = (if pl_state nd1 = CloseReady then ?y\<lparr>ly_ended := insert LInput (ly_ended y)\<rparr> else ?y)"
      using p Running d q1 by (auto simp: line_input_poll_def Let_def note_end_def)
    have mv: "line_moves y y' acc []"
      using a g Running y' by (auto simp: line_moves_def line_good_def)
    have gd: "ly_ended y = {}" "pl_open (ly_node y)" "ok (pl_output (ly_node y))"
      using g Running by (auto simp: line_good_def line_ends_def)
    have "line_attended ro avail y' \<and> line_ends y'"
      using a(4-9) gd y' by (auto simp: line_attended_def line_ends_def Let_def)
    moreover have "ok (pl_output (ly_node y'))" using mv by (simp add: line_moves_def)
    moreover have "\<exists>acc os. line_moves y y' acc os" using mv by blast
    ultimately show ?thesis using Running by (simp add: line_step_ok_def line_good_def)
  next
    case CloseReady
    with g e show ?thesis by (auto simp: line_good_def line_attended_def Let_def)
  next
    case NClosed
    with p have "y' = y\<lparr>ly_node := ?nd, ly_asked := ly_asked y, ly_ended := insert LInput (ly_ended y)\<rparr>"
      by (auto simp: line_input_poll_def Let_def note_end_def)
    with NClosed g show ?thesis
      by (auto simp: line_step_ok_def line_good_def line_attended_def line_ends_def Let_def)
  qed (use p g in \<open>auto simp: line_input_poll_def Let_def note_end_def line_step_ok_def line_good_def
      line_attended_def line_ends_def line_moves_def intro!: exI [of _ "[]"] conducts.stop\<close>)
qed


lemma line_work_ok:
  assumes p: "poll_line_phase po ro recv LWork y = (q, y')" and q: "is_ok q \<or> q = Err Closed"
    and e: "LWork \<notin> ly_ended y" and g: "line_good y"
  shows "line_step_ok y y'"
proof -
  let ?nd = "(ly_node y)\<lparr>pl_woken := pl_woken (ly_node y) - {LWork}\<rparr>"
  let ?d = "\<lparr>dr_routine = pl_routine (ly_node y), dr_output = LOutput, dr_state = pl_state (ly_node y),
      dr_woken = pl_woken (ly_node y) - {LWork}\<rparr>"
  obtain q1 d where d: "drive_poll (po_poll po) ?d = (q1, d)" by (cases "drive_poll (po_poll po) ?d") auto
  let ?n1 = "?nd\<lparr>pl_routine := dr_routine d, pl_state := dr_state d, pl_woken := dr_woken d\<rparr>"
  from p d have y': "q = q1" "y' = note_end LWork q1 (y\<lparr>ly_node := ?n1, ly_asked := True\<rparr>)"
    by (auto simp: line_work_poll_def)
  show ?thesis
  proof (cases q1)
    case (Err x)
    with q y' have "q1 = Err Closed" by simp
    with d have "drive_poll (po_poll po) ?d = (Err Closed, d)" by simp
    from drive_poll_Err_Closed [OF this] have "pl_state (ly_node y) = NClosed \<or> pl_state (ly_node y) = CloseReady"
      and "d = ?d" by auto
    with y' Err g show ?thesis
      by (auto simp: note_end_def line_step_ok_def line_good_def line_attended_def line_ends_def Let_def
          line_moves_def intro!: exI [of _ "[]"] conducts.stop)
  next
    case (Ok v)
    from drive_poll_conducts [OF d [unfolded Ok], of "po_send po" "po_next po" "po_flush po"]
    have a: "line_conducts (pl_routine (ly_node y)) (pl_state (ly_node y)) [] [] (dr_routine d) (dr_state d)"
        "pl_woken (ly_node y) - {LWork} \<subseteq> dr_woken d"
        "\<forall>s. (dr_state d = FlushReady s \<and> pl_state (ly_node y) \<noteq> dr_state d) \<or> dr_state d = MarkerReady s \<longrightarrow>
           LOutput \<in> dr_woken d"
        "dr_state d = pl_state (ly_node y) \<or> (\<exists>s. pl_state (ly_node y) = Flushing s \<and> dr_state d = FlushReady s)"
      by auto
    have n: "pl_state (ly_node y) \<noteq> NClosed" "pl_state (ly_node y) \<noteq> CloseReady"
      using d Ok by (auto simp: drive_poll_def)
    have okay: "ok (pl_output (ly_node y))" using g n by (simp add: line_good_def)
    have y1: "y' = y\<lparr>ly_node := ?n1, ly_asked := True\<rparr>" using y' Ok by (simp add: note_end_def)
    have mv: "line_moves y y' [] []" using a(1) okay y1 by (simp add: line_moves_def)
    have "line_ends y'"
      using g n y1 a(4) by (auto simp: line_good_def line_ends_def)
    moreover have "line_attended ro avail y'"
    proof (cases "dr_state d = pl_state (ly_node y)")
      case True
      with g n a(2,3) y1 show ?thesis
        by (cases "pl_state (ly_node y)") (auto simp: line_good_def line_attended_def Let_def)
    next
      case False
      with a(3,4) y1 show ?thesis by (auto simp: line_attended_def Let_def)
    qed
    ultimately show ?thesis using mv okay n y1 by (auto simp: line_step_ok_def line_good_def)
  qed
qed

lemma line_output_ok:
  assumes p: "poll_line_phase po ro recv LOutput y = (q, y')" and q: "is_ok q \<or> q = Err Closed"
    and e: "LOutput \<notin> ly_ended y" and g: "line_good y"
  shows "line_step_ok y y'"
proof -
  let ?nd = "(ly_node y)\<lparr>pl_woken := pl_woken (ly_node y) - {LOutput}\<rparr>"
  obtain q1 em w1 where d: "emit_poll (po_next po) ro (line_emit ?nd) (ly_world y) = (q1, em, w1)"
    by (cases "emit_poll (po_next po) ro (line_emit ?nd) (ly_world y)") auto
  let ?n1 = "?nd\<lparr>pl_routine := em_routine em, pl_output := em_output em, pl_state := em_state em, pl_woken := em_woken em\<rparr>"
  from p d have y': "q = q1" "y' = note_end LOutput q1 (y\<lparr>ly_node := ?n1, ly_world := w1\<rparr>)"
    by (auto simp: line_output_poll_def)
  show ?thesis
  proof (cases q1)
    case (Err x)
    from emit_poll_Err [OF d [unfolded Err]]
    have "em_state em = NClosed" "LInput \<in> em_woken em" "LWork \<in> em_woken em" by (auto simp: line_emit_def)
    with y' Err show ?thesis
      by (auto simp: note_end_def line_step_ok_def line_good_def line_attended_def line_ends_def Let_def)
  next
    case (Ok v)
    have nc: "pl_state (ly_node y) \<noteq> NClosed" using g e by (auto simp: line_good_def line_attended_def Let_def)
    with g have okay: "ok (pl_output (ly_node y))" by (simp add: line_good_def)
    have "ok (em_output (line_emit ?nd))" using okay by (simp add: line_emit_def)
    from emit_poll_conducts [OF d [unfolded Ok] this, of "po_send po" "po_flush po" "po_poll po"] obtain os where
      a: "sends (pl_output (ly_node y)) (ly_world y) os (em_output em) w1" "emit_frame (line_emit ?nd) em"
         "emit_attended (line_emit ?nd) em"
         "line_conducts (pl_routine (ly_node y)) (pl_state (ly_node y)) [] os (em_routine em) (em_state em)"
      by (auto simp: line_emit_def)
    have y1: "y' = y\<lparr>ly_node := ?n1, ly_world := w1\<rparr>" using y' Ok by (simp add: note_end_def)
    have view: "taken w1 = taken (ly_world y)" "avail w1 = avail (ly_world y)"
      using a(1) inputs_view [of w1 "ly_world y"] by (auto simp: sends_def)
    have mv: "line_moves y y' [] os"
      using a(1,4) view y1 by (auto simp: line_moves_def sends_def)
    have w: "pl_woken (ly_node y) - {LOutput} \<subseteq> em_woken em"
      using a(2) by (simp add: emit_frame_def line_emit_def)
    have at: "case em_state em of
        Running \<Rightarrow> (case pl_state (ly_node y) of Running \<Rightarrow> True | _ \<Rightarrow> LInput \<in> em_woken em \<and> LWork \<in> em_woken em)
      | Flushing s \<Rightarrow> pl_state (ly_node y) = Flushing s
      | FlushReady s \<Rightarrow> pl_state (ly_node y) = FlushReady s \<and> (LOutput \<in> em_woken em \<or> ro_suspended ro (em_output em) \<noteq> None)
      | MarkerReady s \<Rightarrow> pl_state (ly_node y) = MarkerReady s \<and> (LOutput \<in> em_woken em \<or> ro_suspended ro (em_output em) \<noteq> None)
      | Forwarding \<Rightarrow> ro_suspended ro (em_output em) \<noteq> None
      | CloseReady \<Rightarrow> pl_state (ly_node y) = CloseReady \<and> LOutput \<in> em_woken em
      | NClosed \<Rightarrow> False"
      using a(3) by (simp add: emit_attended_def line_emit_def cong: node_state.case_cong)
    have st: "em_state em \<noteq> NClosed" "em_state em = CloseReady \<longleftrightarrow> pl_state (ly_node y) = CloseReady"
    proof -
      show "em_state em \<noteq> NClosed" using at by auto
      show "em_state em = CloseReady \<longleftrightarrow> pl_state (ly_node y) = CloseReady"
      proof
        assume "em_state em = CloseReady" with at show "pl_state (ly_node y) = CloseReady" by simp
      next
        assume c: "pl_state (ly_node y) = CloseReady"
        with d Ok show "em_state em = CloseReady"
          using emit_poll_close_stays [OF d [unfolded Ok]] by (simp add: line_emit_def)
      qed
    qed
    have "line_attended ro avail y'"
    proof (cases "em_state em")
      case Running
      then show ?thesis using at g w view y1
        by (cases "pl_state (ly_node y)") (auto simp: line_good_def line_attended_def Let_def)
    next
      case CloseReady
      with st have "pl_state (ly_node y) = CloseReady" by simp
      with CloseReady at g w y1 show ?thesis by (auto simp: line_good_def line_attended_def Let_def)
    qed (use at g w view y1 in \<open>auto simp: line_good_def line_attended_def Let_def\<close>)
    moreover have "line_ends y'" using g st y1 nc by (auto simp: line_good_def line_ends_def)
    moreover have "ok (em_output em)" using a(1) by (simp add: sends_def)
    ultimately show ?thesis using mv nc y1 by (auto simp: line_step_ok_def line_good_def)
  qed
qed


text \<open>The rest of the program takes nothing from the node's input and gives nothing to its outputs in
  the node's name; a message or a close it brings to the input wakes the Input phase.\<close>

definition elsewhere_ok :: "'w line_event \<Rightarrow> bool" where
  "elsewhere_ok ev \<longleftrightarrow>
     (case ev of
        Polled p \<Rightarrow> True
      | Elsewhere g v \<Rightarrow>
          (\<forall>w. taken (g w) = taken w \<and> (\<forall>f i. received f (g w) i = received f w i) \<and>
               (avail (g w) \<longrightarrow> avail w \<or> LInput \<in> v)))"

text \<open>One such move, for a node that is still open.\<close>

lemma line_elsewhere_ok:
  assumes g: "line_good y"
    and t: "pl_state (ly_node y) \<noteq> NClosed \<Longrightarrow> taken w' = taken (ly_world y)"
    and r: "\<And>i. pl_state (ly_node y) \<noteq> NClosed \<Longrightarrow> i < lanes (pl_output (ly_node y)) \<Longrightarrow>
        received (pl_output (ly_node y)) w' i = received (pl_output (ly_node y)) (ly_world y) i"
    and a: "pl_state (ly_node y) = Running \<Longrightarrow> avail w' \<Longrightarrow> avail (ly_world y) \<or> LInput \<in> v"
  shows "line_step_ok y (y\<lparr>ly_world := w', ly_node := (ly_node y)\<lparr>pl_woken := pl_woken (ly_node y) \<union> v\<rparr>\<rparr>)"
  using g t r a
  by (cases "pl_state (ly_node y)")
    (auto simp: line_step_ok_def line_good_def line_attended_def line_ends_def line_moves_def Let_def
      intro!: exI [of _ "[]"] conducts.stop)

lemma line_event_ok:
  assumes r: "line_event_run po ro recv ev y = Some y'" and g: "line_good y" and ev: "elsewhere_ok ev"
  shows "line_step_ok y y'"
proof (cases ev)
  case (Elsewhere f v)
  with r have "y' = y\<lparr>ly_world := f (ly_world y), ly_node := (ly_node y)\<lparr>pl_woken := pl_woken (ly_node y) \<union> v\<rparr>\<rparr>"
    by (simp add: line_event_run_def)
  moreover have "line_step_ok y (y\<lparr>ly_world := f (ly_world y),
      ly_node := (ly_node y)\<lparr>pl_woken := pl_woken (ly_node y) \<union> v\<rparr>\<rparr>)"
    by (rule line_elsewhere_ok [OF g]) (use ev Elsewhere in \<open>auto simp: elsewhere_ok_def\<close>)
  ultimately show ?thesis by simp
next
  case (Polled p)
  show ?thesis
  proof (cases "p \<in> ly_ended y")
    case True
    with r Polled have "y' = y" by (simp add: line_event_run_def)
    with g show ?thesis using line_moves_refl [of y] by (auto simp: line_step_ok_def line_good_def)
  next
    case False
    obtain q y1 where s: "poll_line_phase po ro recv p y = (q, y1)" by (cases "poll_line_phase po ro recv p y") auto
    with r Polled False have "y' = y1" "is_ok q \<or> q = Err Closed"
      by (cases q; auto simp: line_event_run_def split: if_splits)+
    with s False g show ?thesis
      by (cases p) (auto intro: line_input_ok line_work_ok line_output_ok simp del: poll_line_phase.simps)
  qed
qed

lemma line_run_ok:
  assumes "line_run po ro recv evs y = Some y'" and "line_good y" and "\<forall>ev\<in>set evs. elsewhere_ok ev"
  shows "line_good y' \<and> (pl_state (ly_node y') = NClosed \<or>
      pl_state (ly_node y) \<noteq> NClosed \<and> (\<exists>acc os. line_moves y y' acc os))"
  using assms
proof (induction evs arbitrary: y)
  case Nil
  then show ?case using line_moves_refl [of y] by (auto simp: line_good_def)
next
  case (Cons ev evs)
  from Cons.prems obtain y1 where s: "line_event_run po ro recv ev y = Some y1"
      and r: "line_run po ro recv evs y1 = Some y'" by (auto split: option.splits)
  from line_event_ok [OF s Cons.prems(2)] Cons.prems(3) have a: "line_step_ok y y1" by simp
  then have "line_good y1" by (simp add: line_step_ok_def)
  from Cons.IH [OF r this] Cons.prems(3) a line_moves_trans show ?case
    unfolding line_step_ok_def by (metis list.set_intros(2))
qed

end

section \<open>Poll line nodes over sync edges\<close>

text \<open>The input is a waking edge; popping records what was taken. The outputs are the node's own
  handles on sync edges, as in \<open>node_sink\<close>.\<close>

definition node_recv :: "('i, 'o, 's) node_sys \<Rightarrow> ('i, 's) message option res \<times> ('i, 'o, 's) node_sys" where
  "node_recv w =
     (let (r, sh, _) = waking_try_recv (nw_in w) in (r, w\<lparr>nw_in := sh, nw_recv := nw_recv w @ popped r\<rparr>))"

definition node_avail :: "('i, 'o, 's) node_sys \<Rightarrow> bool" where
  "node_avail w \<longleftrightarrow> i_buffer (nw_in w) \<noteq> [] \<or> i_closed (nw_in w) \<or> producer_count (nw_in w) = 0"

text \<open>The routine's contract (src/node/line/poll/routine.rs): a refused message comes back, and errors
  other than its own are not passed off as a close.\<close>

definition honest_routine :: "('i, 'o, 'r) poll_ops \<Rightarrow> bool" where
  "honest_routine po \<longleftrightarrow>
     (\<forall>x r y r1. po_send po x r = (Ok (AFull y), r1) \<longrightarrow> y = x) \<and>
     (\<forall>r r1. po_flush po r \<noteq> (Err Closed, r1))"

lemma accept_map_id [simp]: "map_result (accept_map (\<lambda>x. x)) a = a"
proof (cases a)
  case (Ok x)
  then show ?thesis by (cases x) auto
qed simp

lemma poll_line_node_sys:
  assumes "honest_routine po"
  shows "poll_line po node_recv nw_recv node_avail (fanout_output (node_sink env fill)) fanout_lanes
    (\<lambda>f w i. sw_took (nw_out w) (f_edges f ! i)) fanout_due fanout_ok (\<lambda>w. (nw_recv w, nw_in w))"
proof -
  have fan: "rotator fanout_suspended (fanout_retry (node_sink env fill)) (fanout_rotate (node_sink env fill))
      fanout_lanes (\<lambda>f w i. sw_took (nw_out w) (f_edges f ! i)) fanout_due fanout_ok"
    using node_sys.fan.rotator_axioms [of env fill] by (simp add: fanout_received_def [abs_def])
  show ?thesis
  proof (intro poll_line.intro feeding.intro emitting.intro emitting_axioms.intro poll_line_axioms.intro)
    show "rotator (ro_suspended (fanout_output (node_sink env fill))) (ro_retry (fanout_output (node_sink env fill)))
        (ro_rotate (fanout_output (node_sink env fill))) fanout_lanes
        (\<lambda>f w i. sw_took (nw_out w) (f_edges f ! i)) fanout_due fanout_ok"
      using fan by (simp add: fanout_output_def)
    have v: "(nw_recv w1, nw_in w1) = (nw_recv w, nw_in w)"
      if "op_try_push (node_sink env fill) e m w = (q, w1)" for e m w q w1
      using that by (auto simp: node_sink_def Let_def split: prod.splits)
    show "(nw_recv w1, nw_in w1) = (nw_recv w, nw_in w)"
      if "ro_retry (fanout_output (node_sink env fill)) g w = (a, g1, w1)" for g w a g1 w1
      using fanout_retry_view [where V = "\<lambda>w. (nw_recv w, nw_in w)", OF v] that
      by (simp add: fanout_output_def)
    show "(nw_recv w1, nw_in w1) = (nw_recv w, nw_in w)"
      if "ro_rotate (fanout_output (node_sink env fill)) m g w = (a, g1, w1)" for m g w a g1 w1
      using fanout_rotate_view [where V = "\<lambda>w. (nw_recv w, nw_in w)", OF v] that
      by (simp add: fanout_output_def)
  qed (use assms in \<open>auto simp: honest_routine_def node_recv_def node_avail_def waking_try_recv_def
      waking_poll_def fanout_output_def Let_def split: prod.splits elim!: try_pop_cases\<close>)
qed


text \<open>What the rest of the program does around a node: nothing in the node's name, and what it brings to
  the node's input wakes the Input phase (\<open>waking_consumer_woken\<close> shows that the edge does so).\<close>

definition around_ok :: "('i, 'o, 's) node_sys line_event \<Rightarrow> bool" where
  "around_ok ev \<longleftrightarrow>
     (case ev of
        Polled p \<Rightarrow> True
      | Elsewhere g v \<Rightarrow>
          (\<forall>w. nw_recv (g w) = nw_recv w \<and> sw_took (nw_out (g w)) = sw_took (nw_out w) \<and>
               (node_avail (g w) \<longrightarrow> node_avail w \<or> LInput \<in> v)))"

abbreviation node_output where
  "node_output env fill \<equiv> fanout_output (node_sink env fill)"

lemma schedule_all_frame:
  "nw_recv (schedule_all (node_sink env fill) k es w) = nw_recv w \<and>
   sw_took (nw_out (schedule_all (node_sink env fill) k es w)) = sw_took (nw_out w)"
  by (induction es arbitrary: w) (auto simp: node_sink_def sw_schedule_def)

lemma line_start_fields:
  "ly_node (line_start (node_output env fill) r out k bg w) =
     \<lparr>pl_open = True, pl_routine = r, pl_output = out, pl_state = Running, pl_budget = bg,
      pl_woken = {LInput, LWork, LOutput}\<rparr>"
  "ly_held (line_start (node_output env fill) r out k bg w) = None"
  "ly_ended (line_start (node_output env fill) r out k bg w) = {}"
  "nw_recv (ly_world (line_start (node_output env fill) r out k bg w)) = nw_recv w"
  "sw_took (nw_out (ly_world (line_start (node_output env fill) r out k bg w))) = sw_took (nw_out w)"
  by (simp_all add: line_start_def line_phases_def fanout_output_def fanout_schedule_def Let_def
      schedule_all_frame)

lemma line_run_node_sys:
  assumes h: "honest_routine po" and out: "fanout_ok out" and ev: "\<forall>ev\<in>set evs. around_ok ev"
    and run: "line_run po (node_output env fill) node_recv evs (line_start (node_output env fill) r out k bg w) = Some y"
  shows "line_attended (node_output env fill) node_avail y \<and>
    (pl_state (ly_node y) = NClosed \<or>
     (\<exists>acc os. nw_recv (ly_world y) = nw_recv w @ acc @ held_list (ly_held y) \<and>
        fanout_lanes (pl_output (ly_node y)) = fanout_lanes out \<and>
        (\<forall>i < fanout_lanes out.
           sw_took (nw_out (ly_world y)) (f_edges (pl_output (ly_node y)) ! i) @ fanout_due (pl_output (ly_node y)) i =
           (sw_took (nw_out w) (f_edges out ! i) @ fanout_due out i) @ os) \<and>
        conducts (po_send po) (po_next po) (po_flush po) (po_poll po) r Running acc os
          (pl_routine (ly_node y)) (pl_state (ly_node y))))"
proof -
  obtain y0 where y0: "y0 = line_start (node_output env fill) r out k bg w"
    and run0: "line_run po (node_output env fill) node_recv evs y0 = Some y" using run by blast
  note L = poll_line_node_sys [OF h, of env fill]
  have "poll_line.line_good node_avail (node_output env fill) fanout_ok y \<and>
      (pl_state (ly_node y) = NClosed \<or> pl_state (ly_node y0) \<noteq> NClosed \<and>
       (\<exists>acc os. poll_line.line_moves po nw_recv fanout_lanes
          (\<lambda>f w i. sw_took (nw_out w) (f_edges f ! i)) fanout_due fanout_ok y0 y acc os))"
    by (rule poll_line.line_run_ok [OF L run0])
      (use out ev in \<open>auto simp: poll_line.line_good_def [OF L] poll_line.line_ends_def [OF L]
        poll_line.elsewhere_ok_def [OF L] line_attended_def around_ok_def y0 line_start_fields Let_def
        split: line_event.splits\<close>)
  then show ?thesis
    by (auto simp: poll_line.line_good_def [OF L] poll_line.line_moves_def [OF L] y0 line_start_fields)
qed


section \<open>Properties\<close>

text \<open>C6. A poll line node is a faithful conductor of its routine. Over sync edges, whatever the order
  in which its three phases are polled, woken or not, whatever budgets, refusals of the routine and of
  the output edges, and whatever the rest of the program does in between: until it closes, what it took
  from its input is what it handed to the routine plus the message it holds, and every output edge has
  taken (or is owed by the fan-out) the same messages, which the routine produced under the protocol
  \<open>conducts\<close>; every Flush and Marker taken comes out once, in order, or is the one in flight.\<close>

theorem poll_line_conducts_routine:
  assumes h: "honest_routine po" and out: "fanout_ok out" "f_suspended out = None"
    and ev: "\<forall>ev\<in>set evs. around_ok ev"
    and run: "line_run po (node_output env fill) node_recv evs (line_start (node_output env fill) r out k bg w) = Some y"
    and live: "pl_state (ly_node y) \<noteq> NClosed"
  shows "\<exists>acc os. nw_recv (ly_world y) = nw_recv w @ acc @ held_list (ly_held y) \<and>
        (\<forall>i < length (f_edges out).
           sw_took (nw_out (ly_world y)) (f_edges (pl_output (ly_node y)) ! i) @ fanout_due (pl_output (ly_node y)) i =
           sw_took (nw_out w) (f_edges out ! i) @ os) \<and>
        conducts (po_send po) (po_next po) (po_flush po) (po_poll po) r Running acc os
          (pl_routine (ly_node y)) (pl_state (ly_node y)) \<and>
        signals os @ in_flight (pl_state (ly_node y)) = concat (map signal_of acc)"
proof -
  have "fanout_due out i = []" for i using out(2) by (simp add: fanout_due_def)
  with line_run_node_sys [OF h out(1) ev run] live show ?thesis
    using conducts_signals by (fastforce simp: fanout_lanes_def)
qed

text \<open>A routine that passes its input on and finishes a flush at its next poll.\<close>

definition pass_on :: "(nat, nat, nat list \<times> bool) poll_ops" where
  "pass_on =
     \<lparr>po_send = (\<lambda>x r. (Ok Accepted, (fst r @ [x], snd r))),
      po_next = (\<lambda>r. case fst r of [] \<Rightarrow> (Ok None, r) | y # ys \<Rightarrow> (Ok (Some y), (ys, snd r))),
      po_flush = (\<lambda>r. (Ok (), (fst r, True))),
      po_poll = (\<lambda>r. if snd r then (Ok (PReady ()), (fst r, False)) else (Ok Pending, r))\<rparr>"

lemma honest_pass_on: "honest_routine pass_on"
  by (simp add: honest_routine_def pass_on_def)

definition one_line :: "(nat, nat, nat) node_sys" where
  "one_line =
     \<lparr>nw_in = (with_bound None)\<lparr>producer_count := 1, i_buffer := [Data 5, Flush 7]\<rparr>, nw_recv = [],
      nw_out = \<lparr>sw_edges = (\<lambda>a. \<lparr>sys_sh = (with_bound None)\<lparr>producer_count := 1\<rparr>, sys_tx = [fresh_sender]\<rparr>),
                sw_took = (\<lambda>e. [])\<rparr>\<rparr>"

definition one_edge :: "(nat \<times> nat, (nat, nat) message) fanout" where
  "one_edge = \<lparr>f_edges = [(0, 0)], f_suspended = None\<rparr>"

definition one_line_run ::
  "line_phase list \<Rightarrow> (nat, nat, nat list \<times> bool, (nat \<times> nat, (nat, nat) message) fanout, (nat, nat, nat) node_sys) line_sys option" where
  "one_line_run ps =
     line_run pass_on (node_output (\<lambda>w. None) id) node_recv (map Polled ps)
       (line_start (node_output (\<lambda>w. None) id) ([], False) one_edge 3 budget_default one_line)"

lemma one_line_flushed:
  "case one_line_run [LInput, LWork, LOutput] of
     None \<Rightarrow> False
   | Some y \<Rightarrow> pl_state (ly_node y) = Running \<and> nw_recv (ly_world y) = [Data 5, Flush 7] \<and> ly_held y = None \<and>
       f_edges (pl_output (ly_node y)) = [(0, 0)] \<and> f_suspended (pl_output (ly_node y)) = None \<and>
       sw_took (nw_out (ly_world y)) (0, 0) = [Data 5, Flush 7]"
  by code_simp

theorem poll_line_conducts_routine_witness:
  "\<exists>y. one_line_run [LInput, LWork, LOutput] = Some y \<and>
       conducts (po_send pass_on) (po_next pass_on) (po_flush pass_on) (po_poll pass_on) ([], False) Running
         [Data 5, Flush 7] [Data 5, Flush 7] (pl_routine (ly_node y)) (pl_state (ly_node y))"
proof -
  from one_line_flushed obtain y where y: "one_line_run [LInput, LWork, LOutput] = Some y"
      "pl_state (ly_node y) = Running" "nw_recv (ly_world y) = [Data 5, Flush 7]" "ly_held y = None"
      "f_edges (pl_output (ly_node y)) = [(0, 0)]" "f_suspended (pl_output (ly_node y)) = None"
      "sw_took (nw_out (ly_world y)) (0, 0) = [Data 5, Flush 7]"
    by (auto split: option.splits)
  have "fanout_ok one_edge" "f_suspended one_edge = None" by (simp_all add: one_edge_def fanout_ok_def)
  moreover have "\<forall>ev\<in>set (map Polled [LInput, LWork, LOutput]). around_ok ev" by (simp add: around_ok_def)
  ultimately obtain acc os where
    "nw_recv (ly_world y) = nw_recv one_line @ acc @ held_list (ly_held y)"
    "\<forall>i < length (f_edges one_edge).
       sw_took (nw_out (ly_world y)) (f_edges (pl_output (ly_node y)) ! i) @ fanout_due (pl_output (ly_node y)) i =
       sw_took (nw_out one_line) (f_edges one_edge ! i) @ os"
    "conducts (po_send pass_on) (po_next pass_on) (po_flush pass_on) (po_poll pass_on) ([], False) Running acc os
       (pl_routine (ly_node y)) (pl_state (ly_node y))"
    using poll_line_conducts_routine [OF honest_pass_on _ _ _ y(1) [unfolded one_line_run_def]] y(2) by auto
  with y show ?thesis by (auto simp: one_line_def one_edge_def fanout_due_def)
qed

text \<open>C7. A poll line node never stalls. In every run as above, in every state it reaches, whatever can
  happen next has been arranged: in Running, unless the routine owes the wake for a message it refused,
  an input with something to take has its phase woken; a Flush or Marker under way has a woken phase,
  or the wake is owed by the routine (asked, and it said Pending) or by the edge that refused; a
  closing node has Output and Work woken; and once closed, by its input or by a failing output, Input
  and Work are woken to end with it.\<close>

theorem poll_line_never_stalls:
  assumes h: "honest_routine po" and out: "fanout_ok out"
    and ev: "\<forall>ev\<in>set evs. around_ok ev"
    and run: "line_run po (node_output env fill) node_recv evs (line_start (node_output env fill) r out k bg w) = Some y"
  shows "line_attended (node_output env fill) node_avail y"
  using line_run_node_sys [OF h out ev run] by simp

text \<open>After Input and Work, the Flush waits for Output, which is woken.\<close>

theorem poll_line_never_stalls_witness:
  "\<exists>y s. one_line_run [LInput, LWork] = Some y \<and> pl_state (ly_node y) = FlushReady s \<and>
         (LOutput \<in> pl_woken (ly_node y) \<or> fanout_suspended (pl_output (ly_node y)) \<noteq> None)"
proof -
  have "case one_line_run [LInput, LWork] of None \<Rightarrow> False | Some y \<Rightarrow> pl_state (ly_node y) = FlushReady 7"
    by code_simp
  then obtain y where y: "one_line_run [LInput, LWork] = Some y" "pl_state (ly_node y) = FlushReady 7"
    by (auto split: option.splits)
  have "fanout_ok one_edge" by (simp add: one_edge_def fanout_ok_def)
  moreover have "\<forall>ev\<in>set (map Polled [LInput, LWork]). around_ok ev" by (simp add: around_ok_def)
  ultimately have "line_attended (node_output (\<lambda>w. None) id) node_avail y"
    using poll_line_never_stalls [OF honest_pass_on _ _ y(1) [unfolded one_line_run_def]] by blast
  with y show ?thesis by (auto simp: line_attended_def Let_def fanout_output_def)
qed


text \<open>C30. An error the node does not turn into a failure: a routine whose \<open>flush\<close> returns \<open>Closed\<close> (the
  contract calls that fatal, and \<open>try_send\<close> and \<open>poll\<close> are checked for it) makes the Input phase end as
  if its edge had closed: it reports \<open>Closed\<close>, the Flush is lost, and the node stays in Running with no
  other phase woken and nothing closed downstream.\<close>

theorem closed_from_flush_strands_node:
  assumes "recv w = (Ok (Some (Flush s)), w1)" and "flush (pl_routine nd) = (Err Closed, r1)"
    and "pl_state nd = Running" "pl_open nd" "0 < bg_input (pl_budget nd)"
  shows "line_input_poll send flush recv None nd w = (Err Closed, None, nd\<lparr>pl_routine := r1\<rparr>, w1)"
proof -
  obtain n where n: "bg_input (pl_budget nd) = Suc n" using assms(5) by (cases "bg_input (pl_budget nd)") auto
  have "line_drain send flush recv None nd w = (Err Closed, None, nd\<lparr>pl_routine := r1\<rparr>, w1)"
    using assms n
    by (simp add: line_drain_def feed_drain_def feed_retry_def line_feed_def feed_recv_def
        feed_flushing_def line_fed_def)
  with assms(3) show ?thesis by (simp add: line_input_poll_def)
qed

theorem closed_from_flush_strands_node_witness:
  "let nd = \<lparr>pl_open = True, pl_routine = (), pl_output = (), pl_state = Running,
             pl_budget = budget_default, pl_woken = {}\<rparr>
   in line_input_poll (\<lambda>(x::nat) r. (Ok Accepted, r)) (\<lambda>r. (Err Closed, r)) (\<lambda>w. (Ok (Some (Flush (3::nat))), w))
        None nd () = (Err Closed, None, nd, ())"
  using closed_from_flush_strands_node [of "\<lambda>w. (Ok (Some (Flush (3::nat))), w)" "()" 3 "()" "\<lambda>r. (Err Closed, r)"
      "\<lparr>pl_open = True, pl_routine = (), pl_output = (), pl_state = Running, pl_budget = budget_default, pl_woken = {}\<rparr>"
      "()" "\<lambda>(x::nat) r. (Ok Accepted, r)"]
  by (simp add: budget_default_def BUDGET_def Let_def)

end
