(* ===== verification/Future_Routine.thy ===== *)
theory Future_Routine
  imports Future_Queues Poll_Line
begin

text \<open>
  Async routines of a poll line (src/node/line/poll/future.rs and future/once.rs). The user's future is
  a parameter: one poll of it is a finite tree of queue operations that ends by yielding or returning
  (\<open>fut\<close>), so it may use any wakers, any number of receivers and senders, and branch on every answer. A
  poll that never returns is not a tree; every run of polls that do return is one of some tree. \<open>fq_log\<close> records what the future received and sent.
\<close>

section \<open>Futures\<close>

text \<open>\<open>'c\<close> names a receiver. \<open>Fin a f\<close>: the poll answers \<open>a\<close>, and \<open>f\<close> is what is polled next.\<close>

datatype ('c, 'i, 'o, 'f) fut =
    Recv 'c waker "'i item res poll \<Rightarrow> ('c, 'i, 'o, 'f) fut"
  | Send waker "'o option" "unit res poll \<times> 'o option \<Rightarrow> ('c, 'i, 'o, 'f) fut"
  | TrySend 'o "'o accept res \<Rightarrow> ('c, 'i, 'o, 'f) fut"
  | Fin "unit res poll" 'f

record ('c, 'i, 'o, 'q) queue_ops =
  qo_recv :: "'c \<Rightarrow> waker \<Rightarrow> 'q \<Rightarrow> 'i item res poll \<times> 'q"
  qo_send :: "waker \<Rightarrow> 'o option \<Rightarrow> 'q \<Rightarrow> (unit res poll \<times> 'o option) \<times> 'q"
  qo_try_send :: "'o \<Rightarrow> 'q \<Rightarrow> 'o accept res \<times> 'q"

primrec run_fut ::
  "('c, 'i, 'o, 'q) queue_ops \<Rightarrow> ('c, 'i, 'o, 'f) fut \<Rightarrow> 'q \<Rightarrow> (unit res poll \<times> 'f) \<times> 'q" where
  "run_fut qo (Recv c k g) q = (let p = qo_recv qo c k q in run_fut qo (g (fst p)) (snd p))"
| "run_fut qo (Send k y g) q = (let p = qo_send qo k y q in run_fut qo (g (fst p)) (snd p))"
| "run_fut qo (TrySend y g) q = (let p = qo_try_send qo y q in run_fut qo (g (fst p)) (snd p))"
| "run_fut qo (Fin a f) q = ((a, f), q)"

lemma run_fut_keeps:
  assumes "\<And>c k q a q'. qo_recv qo c k q = (a, q') \<Longrightarrow> P q \<Longrightarrow> P q'"
    and "\<And>k y q a q'. qo_send qo k y q = (a, q') \<Longrightarrow> P q \<Longrightarrow> P q'"
    and "\<And>y q a q'. qo_try_send qo y q = (a, q') \<Longrightarrow> P q \<Longrightarrow> P q'"
    and "P q"
  shows "P (snd (run_fut qo t q))"
  using assms(4)
proof (induction t arbitrary: q)
  case (Recv c k g)
  then show ?case using assms(1) by (cases "qo_recv qo c k q") auto
next
  case (Send k y g)
  then show ?case using assms(2) by (cases "qo_send qo k y q") auto
next
  case (TrySend y g)
  then show ?case using assms(3) by (cases "qo_try_send qo y q") auto
qed simp

section \<open>The queues of a line routine\<close>

datatype ('i, 'o) fr_event = Got "'i item" | Sent 'o | Ended

record ('i, 'o) fr_queues =
  fq_input :: "'i inq"
  fq_old :: "'i inq list"
  fq_output :: "'o outq"
  fq_wakes :: "wake list"
  fq_log :: "('i, 'o) fr_event list"

definition fr_queues_new :: "bound \<Rightarrow> ('i, 'o) fr_queues" where
  "fr_queues_new b = \<lparr>fq_input = inq_new b, fq_old = [], fq_output = outq_new b, fq_wakes = [], fq_log = []\<rparr>"

fun got_now :: "'i item res poll \<Rightarrow> ('i, 'o) fr_event list" where
  "got_now (PReady (Ok it)) = [Got it]"
| "got_now _ = []"

text \<open>Receiver \<open>None\<close> is the segment's own, \<open>Some j\<close> one kept from an earlier segment.\<close>

definition fq_recv ::
  "waker \<Rightarrow> nat option \<Rightarrow> waker \<Rightarrow> ('i, 'o) fr_queues \<Rightarrow> 'i item res poll \<times> ('i, 'o) fr_queues" where
  "fq_recv home c k q =
     (case c of
        None \<Rightarrow>
          (let (a, iq, ws) = inq_recv k home (fq_input q)
           in (a, q\<lparr>fq_input := iq, fq_wakes := fq_wakes q @ ws, fq_log := fq_log q @ got_now a\<rparr>))
      | Some j \<Rightarrow>
          (if j < length (fq_old q)
           then (let (a, iq, ws) = inq_recv k home (fq_old q ! j)
                 in (a, q\<lparr>fq_old := (fq_old q)[j := iq], fq_wakes := fq_wakes q @ ws\<rparr>))
           else (PReady (Err Closed), q)))"

definition fq_send ::
  "waker \<Rightarrow> waker \<Rightarrow> 'o option \<Rightarrow> ('i, 'o) fr_queues \<Rightarrow> (unit res poll \<times> 'o option) \<times> ('i, 'o) fr_queues" where
  "fq_send home k y q =
     (let (a, oq, ws) = outq_send k home y (fq_output q)
      in (a, q\<lparr>fq_output := oq, fq_wakes := fq_wakes q @ ws,
               fq_log := fq_log q @ (case y of Some v \<Rightarrow> if fst a = PReady (Ok ()) then [Sent v] else [] | None \<Rightarrow> [])\<rparr>))"

definition fq_try_send :: "'o \<Rightarrow> ('i, 'o) fr_queues \<Rightarrow> 'o accept res \<times> ('i, 'o) fr_queues" where
  "fq_try_send y q =
     (let (a, oq, ws) = outq_try_send y (fq_output q)
      in (a, q\<lparr>fq_output := oq, fq_wakes := fq_wakes q @ ws,
               fq_log := fq_log q @ (if a = Ok Accepted then [Sent y] else [])\<rparr>))"

definition line_queue_ops :: "waker \<Rightarrow> (nat option, 'i, 'o, ('i, 'o) fr_queues) queue_ops" where
  "line_queue_ops home = \<lparr>qo_recv = fq_recv home, qo_send = fq_send home, qo_try_send = fq_try_send\<rparr>"

section \<open>The routine\<close>

text \<open>The user's code: the closure makes a future per segment; \<open>uc_kept f\<close>: when \<open>f\<close> has returned and
  is dropped, a receiver of its segment is still held elsewhere.\<close>

record ('g, 'f, 'i, 'o) user_code =
  uc_make :: "'g \<Rightarrow> 'f \<times> 'g"
  uc_poll :: "'f \<Rightarrow> (nat option, 'i, 'o, 'f) fut"
  uc_kept :: "'f \<Rightarrow> bool"

record ('i, 'o, 'g, 'f) future_routine =
  fr_queues :: "('i, 'o) fr_queues"
  fr_factory :: 'g
  fr_future :: "'f option"

definition fr_new :: "bound \<Rightarrow> 'g \<Rightarrow> ('i, 'o, 'g, 'f) future_routine" where
  "fr_new b g = \<lparr>fr_queues = fr_queues_new b, fr_factory = g, fr_future = None\<rparr>"

text \<open>\<open>Factory\<close>, unbounded until \<open>bounded\<close>; the bound is of both queues.\<close>

record 'g routine_factory =
  rf_factory :: 'g
  rf_bound :: bound

definition fr_factory_of :: "'g \<Rightarrow> 'g routine_factory" where
  "fr_factory_of g = \<lparr>rf_factory = g, rf_bound = None\<rparr>"

definition fr_bounded :: "bound \<Rightarrow> 'g routine_factory \<Rightarrow> 'g routine_factory" where
  "fr_bounded b fa = fa\<lparr>rf_bound := b\<rparr>"

definition fr_create :: "'g routine_factory \<Rightarrow> ('i, 'o, 'g, 'f) future_routine" where
  "fr_create fa = fr_new (rf_bound fa) (rf_factory fa)"

definition fq_node_send :: "'i \<Rightarrow> ('i, 'o) fr_queues \<Rightarrow> 'i accept res \<times> ('i, 'o) fr_queues" where
  "fq_node_send x q =
     (let (a, iq, ws) = inq_try_send x (fq_input q)
      in (a, q\<lparr>fq_input := iq, fq_wakes := fq_wakes q @ ws\<rparr>))"

definition fq_node_flush :: "('i, 'o) fr_queues \<Rightarrow> unit res \<times> ('i, 'o) fr_queues" where
  "fq_node_flush q =
     (let (a, iq, ws) = inq_flush (fq_input q)
      in (a, q\<lparr>fq_input := iq, fq_wakes := fq_wakes q @ ws\<rparr>))"

definition fq_node_pop :: "('i, 'o) fr_queues \<Rightarrow> 'o option res \<times> ('i, 'o) fr_queues" where
  "fq_node_pop q =
     (let (a, oq, ws) = outq_pop (fq_output q)
      in (a, q\<lparr>fq_output := oq, fq_wakes := fq_wakes q @ ws\<rparr>))"

definition fr_try_send :: "('i, ('i, 'o, 'g, 'f) future_routine) send_op" where
  "fr_try_send x r = (let (a, q) = fq_node_send x (fr_queues r) in (a, r\<lparr>fr_queues := q\<rparr>))"

definition fr_next :: "('o, ('i, 'o, 'g, 'f) future_routine) next_op" where
  "fr_next r = (let (a, q) = fq_node_pop (fr_queues r) in (a, r\<lparr>fr_queues := q\<rparr>))"

definition fr_flush :: "('i, 'o, 'g, 'f) future_routine flush_op" where
  "fr_flush r = (let (a, q) = fq_node_flush (fr_queues r) in (a, r\<lparr>fr_queues := q\<rparr>))"

definition fr_poll ::
  "('g, 'f, 'i, 'o) user_code \<Rightarrow> waker \<Rightarrow> ('i, 'o, 'g, 'f) future_routine rpoll_op" where
  "fr_poll uc home r =
     (let (f0, g) = (case fr_future r of Some f \<Rightarrow> (f, fr_factory r) | None \<Rightarrow> uc_make uc (fr_factory r));
          ((a, f1), q) = run_fut (line_queue_ops home) (uc_poll uc f0) (fr_queues r);
          r1 = \<lparr>fr_queues = q, fr_factory = g, fr_future = Some f1\<rparr>
      in case a of
           Pending \<Rightarrow> (Ok Pending, r1)
         | PReady (Err e) \<Rightarrow> (Err e, r1)
         | PReady (Ok _) \<Rightarrow>
             (let r2 = r1\<lparr>fr_future := None\<rparr>
              in case inq_renew (uc_kept uc f1) (fq_input q) of
                   Err e \<Rightarrow> (Err e, r2)
                 | Ok (iq, old) \<Rightarrow>
                     (Ok (PReady ()),
                      r2\<lparr>fr_queues := q\<lparr>fq_input := iq, fq_old := fq_old q @ old,
                                         fq_log := fq_log q @ [Ended]\<rparr>\<rparr>)))"

definition future_ops ::
  "('g, 'f, 'i, 'o) user_code \<Rightarrow> waker \<Rightarrow> ('i, 'o, ('i, 'o, 'g, 'f) future_routine) poll_ops" where
  "future_ops uc home =
     \<lparr>po_send = fr_try_send, po_next = fr_next, po_flush = fr_flush, po_poll = fr_poll uc home\<rparr>"

section \<open>The once routine\<close>

definition exhausted :: error where
  "exhausted = Any (AnyErr ''Exhausted'' 0)"

record ('i, 'o, 'f) once_routine =
  on_queues :: "('i, 'o) fr_queues"
  on_future :: "'f option"

definition once_new :: "bound \<Rightarrow> 'f \<Rightarrow> ('i, 'o, 'f) once_routine" where
  "once_new b f = \<lparr>on_queues = fr_queues_new b, on_future = Some f\<rparr>"

definition once_factory_of :: "'f \<Rightarrow> 'f routine_factory" where
  "once_factory_of f = \<lparr>rf_factory = f, rf_bound = None\<rparr>"

definition once_bounded :: "bound \<Rightarrow> 'f routine_factory \<Rightarrow> 'f routine_factory" where
  "once_bounded b fa = fa\<lparr>rf_bound := b\<rparr>"

definition once_create :: "'f routine_factory \<Rightarrow> ('i, 'o, 'f) once_routine" where
  "once_create fa = once_new (rf_bound fa) (rf_factory fa)"

definition once_try_send :: "('i, ('i, 'o, 'f) once_routine) send_op" where
  "once_try_send x r =
     (if on_future r = None then (Err exhausted, r)
      else (let (a, q) = fq_node_send x (on_queues r) in (a, r\<lparr>on_queues := q\<rparr>)))"

definition once_next :: "('o, ('i, 'o, 'f) once_routine) next_op" where
  "once_next r = (let (a, q) = fq_node_pop (on_queues r) in (a, r\<lparr>on_queues := q\<rparr>))"

definition once_flush :: "('i, 'o, 'f) once_routine flush_op" where
  "once_flush r =
     (if on_future r = None then (Err exhausted, r)
      else (let (a, q) = fq_node_flush (on_queues r) in (a, r\<lparr>on_queues := q\<rparr>)))"

definition once_poll ::
  "('f \<Rightarrow> (nat option, 'i, 'o, 'f) fut) \<Rightarrow> waker \<Rightarrow> ('i, 'o, 'f) once_routine rpoll_op" where
  "once_poll fpoll home r =
     (case on_future r of
        None \<Rightarrow> (Ok Pending, r)
      | Some f0 \<Rightarrow>
          (let ((a, f1), q) = run_fut (line_queue_ops home) (fpoll f0) (on_queues r);
               r1 = \<lparr>on_queues = q, on_future = Some f1\<rparr>
           in case a of
                Pending \<Rightarrow> (Ok Pending, r1)
              | PReady v \<Rightarrow>
                  (let r2 = r1\<lparr>on_future := None\<rparr>
                   in case v of
                        Err e \<Rightarrow> (Err e, r2)
                      | Ok _ \<Rightarrow>
                          (case inq_ended (fq_input q) of
                             Err e \<Rightarrow> (Err e, r2)
                           | Ok _ \<Rightarrow> (Ok (PReady ()), r2\<lparr>on_queues := q\<lparr>fq_log := fq_log q @ [Ended]\<rparr>\<rparr>)))))"

definition once_ops ::
  "('f \<Rightarrow> (nat option, 'i, 'o, 'f) fut) \<Rightarrow> waker \<Rightarrow> ('i, 'o, ('i, 'o, 'f) once_routine) poll_ops" where
  "once_ops fpoll home =
     \<lparr>po_send = once_try_send, po_next = once_next, po_flush = once_flush, po_poll = once_poll fpoll home\<rparr>"

section \<open>What a routine makes of a segment\<close>

text \<open>Messages without their Markers, and as a future sees them: a Flush carries no payload.\<close>

fun item_of :: "('d, 's) message \<Rightarrow> 'd item list" where
  "item_of (Data x) = [IData x]"
| "item_of (Flush _) = [IFlush]"
| "item_of (Marker _) = []"

definition items_of :: "('d, 's) message list \<Rightarrow> 'd item list" where
  "items_of ms = concat (map item_of ms)"

lemma items_of_simps [simp]:
  "items_of [] = []" "items_of (m # ms) = item_of m @ items_of ms" "items_of (ms @ ns) = items_of ms @ items_of ns"
  by (simp_all add: items_of_def)

text \<open>The same for one side of several inputs: \<open>pick\<close> says what of a datum is this side's.\<close>

fun item_by :: "('d \<Rightarrow> 'i list) \<Rightarrow> ('d, 's) message \<Rightarrow> 'i item list" where
  "item_by pick (Data x) = map IData (pick x)"
| "item_by pick (Flush _) = [IFlush]"
| "item_by pick (Marker _) = []"

definition items_by :: "('d \<Rightarrow> 'i list) \<Rightarrow> ('d, 's) message list \<Rightarrow> 'i item list" where
  "items_by pick ms = concat (map (item_by pick) ms)"

lemma items_by_simps [simp]:
  "items_by pick [] = []" "items_by pick (m # ms) = item_by pick m @ items_by pick ms"
  by (simp_all add: items_by_def)

lemma items_by_all: "items_by (\<lambda>x. [x]) ms = items_of ms"
proof (induction ms)
  case (Cons m ms)
  then show ?case by (cases m) simp_all
qed simp

fun got_item :: "('i, 'o) fr_event \<Rightarrow> 'i item list" where
  "got_item (Got it) = [it]"
| "got_item _ = []"

fun sent_item :: "('i, 'o) fr_event \<Rightarrow> 'o item list" where
  "sent_item (Sent y) = [IData y]"
| "sent_item Ended = [IFlush]"
| "sent_item (Got _) = []"

definition got_items :: "('i, 'o) fr_event list \<Rightarrow> 'i item list" where
  "got_items l = concat (map got_item l)"

definition sent_items :: "('i, 'o) fr_event list \<Rightarrow> 'o item list" where
  "sent_items l = concat (map sent_item l)"

lemma log_items_simps [simp]:
  "got_items [] = []" "sent_items [] = []"
  "got_items (l @ k) = got_items l @ got_items k" "sent_items (l @ k) = sent_items l @ sent_items k"
  "got_items [e] = got_item e" "sent_items [e] = sent_item e"
  by (simp_all add: got_items_def sent_items_def)

text \<open>A log in segments: data, then one Flush as the last thing received, then the end. The value says
  whether the segment under way has received its Flush; \<open>None\<close>: not of this shape.\<close>

fun segmented :: "bool \<Rightarrow> ('i, 'o) fr_event list \<Rightarrow> bool option" where
  "segmented c [] = Some c"
| "segmented c (Got it # l) = (if c then None else segmented (it = IFlush) l)"
| "segmented c (Sent _ # l) = segmented c l"
| "segmented c (Ended # l) = (if c then segmented False l else None)"

lemma segmented_append:
  "segmented c l = Some d \<Longrightarrow> segmented c (l @ k) = segmented d k"
  by (induction c l rule: segmented.induct) (auto split: if_splits)

text \<open>The queues when \<open>ins\<close> went in and \<open>outs\<close> came out, \<open>due\<close> being an end not yet forwarded; \<open>live\<close>: there
  is, or can still be, a future.\<close>

definition fq_flow :: "bool \<Rightarrow> ('i, 'o) fr_queues \<Rightarrow> 'i item list \<Rightarrow> 'o item list \<Rightarrow> 'o item list \<Rightarrow> bool" where
  "fq_flow live q ins outs due \<longleftrightarrow>
     inq_ok (fq_input q) \<and> outq_ok (fq_output q) \<and> (\<forall>old\<in>set (fq_old q). iq_closed old) \<and>
     segmented False (fq_log q) = Some (live \<and> iq_closed (fq_input q)) \<and>
     got_items (fq_log q) @ iq_buffer (fq_input q) = ins \<and>
     sent_items (fq_log q) = outs @ map IData (oq_buffer (fq_output q)) @ due"

lemma fq_flow_new: "fq_flow live (fr_queues_new b) [] [] []"
  by (simp add: fq_flow_def fr_queues_new_def inq_new_def outq_new_def inq_ok_def outq_ok_def)

lemma fq_node_send_flow:
  assumes "fq_node_send x q = (a, q')" and "fq_flow live q ins outs due"
  shows "(a = Ok Accepted \<and> fq_flow live q' (ins @ [IData x]) outs due) \<or> (a = Ok (AFull x) \<and> fq_flow live q' ins outs due)"
proof -
  obtain iq ws where p: "inq_try_send x (fq_input q) = (a, iq, ws)" and q': "q' = q\<lparr>fq_input := iq, fq_wakes := fq_wakes q @ ws\<rparr>"
    using assms(1) by (cases "inq_try_send x (fq_input q)") (auto simp: fq_node_send_def)
  have "inq_ok iq" using inq_try_send_ok [OF _ p] assms(2) by (simp add: fq_flow_def)
  with assms(2) p q' show ?thesis
    by (auto simp: fq_flow_def inq_try_send_def waiters_take_def split: if_splits)
qed

lemma fq_node_flush_flow:
  assumes "fq_node_flush q = (a, q')" and "fq_flow live q ins outs due"
  shows "a = Ok () \<and> fq_flow live q' (ins @ [IFlush]) outs due"
proof -
  obtain iq ws where p: "inq_flush (fq_input q) = (a, iq, ws)" and q': "q' = q\<lparr>fq_input := iq, fq_wakes := fq_wakes q @ ws\<rparr>"
    using assms(1) by (cases "inq_flush (fq_input q)") (auto simp: fq_node_flush_def)
  have "inq_ok iq" using inq_flush_ok [OF _ p] assms(2) by (simp add: fq_flow_def)
  with assms(2) p q' show ?thesis
    by (auto simp: fq_flow_def inq_flush_def waiters_take_def)
qed

lemma fq_node_pop_flow:
  assumes "fq_node_pop q = (a, q')" and "fq_flow live q ins outs due"
  shows "(\<exists>y. a = Ok (Some y) \<and> fq_flow live q' ins (outs @ [IData y]) due) \<or>
         (a = Ok None \<and> oq_buffer (fq_output q') = [] \<and> fq_flow live q' ins outs due)"
proof -
  obtain oq ws where p: "outq_pop (fq_output q) = (a, oq, ws)" and q': "q' = q\<lparr>fq_output := oq, fq_wakes := fq_wakes q @ ws\<rparr>"
    using assms(1) by (cases "outq_pop (fq_output q)") (auto simp: fq_node_pop_def)
  have "outq_ok oq" using outq_pop_ok [OF _ p] assms(2) by (simp add: fq_flow_def)
  with assms(2) p q' show ?thesis
    by (auto simp: fq_flow_def outq_pop_def waiters_take_def split: list.splits)
qed

lemma fq_recv_flow:
  assumes "fq_recv home c k q = (a, q')" and f: "fq_flow True q ins outs due"
  shows "fq_flow True q' ins outs due"
proof (cases c)
  case None
  obtain iq ws where p: "inq_recv k home (fq_input q) = (a, iq, ws)"
      and q': "q' = q\<lparr>fq_input := iq, fq_wakes := fq_wakes q @ ws, fq_log := fq_log q @ got_now a\<rparr>"
    using assms(1) None by (cases "inq_recv k home (fq_input q)") (auto simp: fq_recv_def)
  have "inq_ok iq" using inq_recv_ok [OF _ p] f by (simp add: fq_flow_def)
  with f p q' show ?thesis
    by (auto simp: fq_flow_def inq_recv_def segmented_append split: if_splits list.splits)
next
  case (Some j)
  show ?thesis
  proof (cases "j < length (fq_old q)")
    case True
    then have "iq_closed (fq_old q ! j)" using f by (simp add: fq_flow_def)
    with assms Some True show ?thesis by (auto simp: fq_recv_def inq_recv_def fq_flow_def)
  qed (use assms Some in \<open>auto simp: fq_recv_def\<close>)
qed

lemma fq_send_flow:
  assumes "fq_send home k y q = (a, q')" and f: "fq_flow True q ins outs []"
  shows "fq_flow True q' ins outs []"
proof -
  obtain oq ws where p: "outq_send k home y (fq_output q) = (a, oq, ws)"
      and q': "q' = q\<lparr>fq_output := oq, fq_wakes := fq_wakes q @ ws,
               fq_log := fq_log q @ (case y of Some v \<Rightarrow> if fst a = PReady (Ok ()) then [Sent v] else [] | None \<Rightarrow> [])\<rparr>"
    using assms(1) by (cases "outq_send k home y (fq_output q)") (auto simp: fq_send_def)
  have "outq_ok oq" using outq_send_ok [OF _ p] f by (simp add: fq_flow_def)
  with f p q' show ?thesis
    by (auto simp: fq_flow_def outq_send_def outq_try_send_def segmented_append split: option.splits if_splits)
qed

lemma fq_try_send_flow:
  assumes "fq_try_send y q = (a, q')" and f: "fq_flow True q ins outs []"
  shows "fq_flow True q' ins outs []"
proof -
  obtain oq ws where p: "outq_try_send y (fq_output q) = (a, oq, ws)"
      and q': "q' = q\<lparr>fq_output := oq, fq_wakes := fq_wakes q @ ws,
               fq_log := fq_log q @ (if a = Ok Accepted then [Sent y] else [])\<rparr>"
    using assms(1) by (cases "outq_try_send y (fq_output q)") (auto simp: fq_try_send_def)
  have "outq_ok oq" using outq_try_send_ok [OF _ p] f by (simp add: fq_flow_def)
  with f p q' show ?thesis
    by (auto simp: fq_flow_def outq_try_send_def segmented_append split: if_splits)
qed

text \<open>Whatever the future does in a poll, the flow is kept.\<close>

lemma run_fut_flow:
  assumes "fq_flow True q ins outs []" and "run_fut (line_queue_ops home) t q = (p, q')"
  shows "fq_flow True q' ins outs []"
proof -
  have "fq_flow True (snd (run_fut (line_queue_ops home) t q)) ins outs []"
    by (rule run_fut_keeps [where P = "\<lambda>q. fq_flow True q ins outs []", OF _ _ _ assms(1)])
      (auto simp: line_queue_ops_def intro: fq_recv_flow fq_send_flow fq_try_send_flow)
  with assms(2) show ?thesis by simp
qed

lemma inq_ended_iff: "inq_ended q = Ok u \<longleftrightarrow> iq_buffer q = [] \<and> iq_closed q"
  by (simp add: inq_ended_def)

lemma fq_flow_renewed:
  assumes f: "fq_flow True q ins outs []" and r: "inq_renew kept (fq_input q) = Ok (iq, old)"
  shows "fq_flow True (q\<lparr>fq_input := iq, fq_old := fq_old q @ old, fq_log := fq_log q @ [Ended]\<rparr>) ins outs [IFlush]"
proof -
  from r obtain u where "inq_ended (fq_input q) = Ok u"
    and e: "iq = inq_new (iq_bound (fq_input q))" "old = (if kept then [fq_input q] else [])"
    by (cases kept; auto simp: inq_renew_def inq_reset_new split: result.splits)
  then have "iq_buffer (fq_input q) = []" "iq_closed (fq_input q)" by (simp_all add: inq_ended_iff)
  with f e show ?thesis by (auto simp: fq_flow_def segmented_append inq_new_def inq_ok_def)
qed

lemma fq_flow_spent:
  assumes f: "fq_flow True q ins outs []" and r: "inq_ended (fq_input q) = Ok u"
  shows "fq_flow False (q\<lparr>fq_log := fq_log q @ [Ended]\<rparr>) ins outs [IFlush]"
  using f r by (auto simp: fq_flow_def segmented_append inq_ended_iff)

section \<open>Routines of segments\<close>

text \<open>In FlushReady the routine has ended a segment whose Flush is not out yet.\<close>

definition end_due :: "'s node_state \<Rightarrow> 'o item list" where
  "end_due st = (case st of FlushReady s \<Rightarrow> [IFlush] | _ \<Rightarrow> [])"

text \<open>What a routine's operations must do for its queues, as a node uses them.\<close>

locale segment_routine =
  fixes po :: "('i, 'o, 'r) poll_ops" and pick :: "'i \<Rightarrow> 'j list" and queues :: "'r \<Rightarrow> ('j, 'o) fr_queues"
    and live :: "'r \<Rightarrow> bool"
  assumes send_flow: "po_send po x r = (Ok a, r1) \<Longrightarrow> fq_flow (live r) (queues r) ins outs due \<Longrightarrow>
      (a = Accepted \<and> fq_flow (live r1) (queues r1) (ins @ map IData (pick x)) outs due) \<or> (a = AFull x \<and> fq_flow (live r1) (queues r1) ins outs due)"
    and flush_flow: "po_flush po r = (Ok u, r1) \<Longrightarrow> fq_flow (live r) (queues r) ins outs due \<Longrightarrow>
      fq_flow (live r1) (queues r1) (ins @ [IFlush]) outs due"
    and next_flow: "po_next po r = (Ok v, r1) \<Longrightarrow> fq_flow (live r) (queues r) ins outs due \<Longrightarrow>
      (\<exists>y. v = Some y \<and> fq_flow (live r1) (queues r1) ins (outs @ [IData y]) due) \<or>
      (v = None \<and> oq_buffer (fq_output (queues r1)) = [] \<and> fq_flow (live r1) (queues r1) ins outs due)"
    and poll_pending: "po_poll po r = (Ok Pending, r1) \<Longrightarrow> fq_flow (live r) (queues r) ins outs [] \<Longrightarrow>
      fq_flow (live r1) (queues r1) ins outs []"
    and poll_ready: "po_poll po r = (Ok (PReady z), r1) \<Longrightarrow> fq_flow (live r) (queues r) ins outs [] \<Longrightarrow>
      fq_flow (live r1) (queues r1) ins outs [IFlush]"
begin

lemma conducts_flow:
  "conducts (po_send po) (po_next po) (po_flush po) (po_poll po) r st ms os r' st' \<Longrightarrow>
   fq_flow (live r) (queues r) ins outs (end_due st) \<Longrightarrow>
     fq_flow (live r') (queues r') (ins @ items_by pick ms) (outs @ items_of os) (end_due st')"
proof (induction arbitrary: ins outs rule: conducts.induct)
  case (take x r r1 ms os r' st')
  from send_flow [OF take.hyps(1) take.prems] have "fq_flow (live r1) (queues r1) (ins @ map IData (pick x)) outs (end_due Running)"
    by (simp add: end_due_def)
  from take.IH [OF this] show ?case by simp
next
  case (refuse x r r1 ms os r' st')
  from send_flow [OF refuse.hyps(1) refuse.prems] show ?case by (auto intro: refuse.IH)
next
  case (flush r u r1 s ms os r' st')
  from flush_flow [OF flush.hyps(1) flush.prems] have "fq_flow (live r1) (queues r1) (ins @ [IFlush]) outs (end_due (Flushing s))"
    by (simp add: end_due_def)
  from flush.IH [OF this] show ?case by simp
next
  case (marker r s ms os r' st')
  then show ?case by (simp add: end_due_def)
next
  case (poll r r1 st s ms os r' st')
  then have "end_due st = ([] :: 'o item list)" by (auto simp: end_due_def)
  with poll_pending [OF poll.hyps(1)] poll.prems
  have "fq_flow (live r1) (queues r1) ins outs (end_due st)" by simp
  from poll.IH [OF this] show ?case .
next
  case (ready r v r1 s ms os r' st')
  with poll_ready [OF ready.hyps(1)] have "fq_flow (live r1) (queues r1) ins outs (end_due (FlushReady s))"
    by (simp add: end_due_def)
  from ready.IH [OF this] show ?case .
next
  case (emit r y r1 st ms os r' st')
  from next_flow [OF emit.hyps(1) emit.prems] have "fq_flow (live r1) (queues r1) ins (outs @ [IData y]) (end_due st)" by simp
  from emit.IH [OF this] show ?case by simp
next
  case (dry r r1 st ms os r' st')
  from next_flow [OF dry.hyps(1) dry.prems] show ?case by (auto intro: dry.IH)
next
  case (flushed r r1 ms os r' st' s)
  from next_flow [OF flushed.hyps(1) flushed.prems]
  have "fq_flow (live r1) (queues r1) ins (outs @ [IFlush]) (end_due Forwarding)"
    by (simp add: fq_flow_def end_due_def)
  from flushed.IH [OF this] show ?case by simp
next
  case (marked r r1 ms os r' st' s)
  from next_flow [OF marked.hyps(1) marked.prems]
  have "fq_flow (live r1) (queues r1) ins outs (end_due Forwarding)" by (simp add: end_due_def)
  from marked.IH [OF this] show ?case by simp
qed (simp_all add: end_due_def)

end

interpretation future: segment_routine
  "future_ops uc home :: ('i, 'o, ('i, 'o, 'g, 'f) future_routine) poll_ops" "\<lambda>x. [x]" fr_queues "\<lambda>r. True"
proof unfold_locales
  fix x :: 'i and r r1 :: "('i, 'o, 'g, 'f) future_routine" and a ins outs due
  assume "po_send (future_ops uc home) x r = (Ok a, r1)" "fq_flow True (fr_queues r) ins outs due"
  then show "a = Accepted \<and> fq_flow True (fr_queues r1) (ins @ map IData [x]) outs due \<or>
      a = AFull x \<and> fq_flow True (fr_queues r1) ins outs due"
    by (cases "fq_node_send x (fr_queues r)") (auto simp: future_ops_def fr_try_send_def dest: fq_node_send_flow)
next
  fix r r1 :: "('i, 'o, 'g, 'f) future_routine" and u ins outs due
  assume "po_flush (future_ops uc home) r = (Ok u, r1)" "fq_flow True (fr_queues r) ins outs due"
  then show "fq_flow True (fr_queues r1) (ins @ [IFlush]) outs due"
    by (cases "fq_node_flush (fr_queues r)") (auto simp: future_ops_def fr_flush_def dest: fq_node_flush_flow)
next
  fix r r1 :: "('i, 'o, 'g, 'f) future_routine" and v ins outs due
  assume "po_next (future_ops uc home) r = (Ok v, r1)" "fq_flow True (fr_queues r) ins outs due"
  then show "(\<exists>y. v = Some y \<and> fq_flow True (fr_queues r1) ins (outs @ [IData y]) due) \<or>
      v = None \<and> oq_buffer (fq_output (fr_queues r1)) = [] \<and> fq_flow True (fr_queues r1) ins outs due"
    by (cases "fq_node_pop (fr_queues r)") (auto simp: future_ops_def fr_next_def dest: fq_node_pop_flow)
next
  fix r r1 :: "('i, 'o, 'g, 'f) future_routine" and ins outs
  assume "po_poll (future_ops uc home) r = (Ok Pending, r1)" "fq_flow True (fr_queues r) ins outs []"
  then show "fq_flow True (fr_queues r1) ins outs []"
    by (auto simp: future_ops_def fr_poll_def Let_def run_fut_flow
        split: prod.splits poll.splits result.splits option.splits)
next
  fix r r1 :: "('i, 'o, 'g, 'f) future_routine" and z ins outs
  assume p: "po_poll (future_ops uc home) r = (Ok (PReady z), r1)" and f: "fq_flow True (fr_queues r) ins outs []"
  obtain f0 g where fg: "(case fr_future r of Some f \<Rightarrow> (f, fr_factory r) | None \<Rightarrow> uc_make uc (fr_factory r)) = (f0, g)"
    by (rule prod.exhaust)
  obtain a f1 q where t: "run_fut (line_queue_ops home) (uc_poll uc f0) (fr_queues r) = ((a, f1), q)"
    by (metis prod.collapse)
  from p fg t obtain iq old where "inq_renew (uc_kept uc f1) (fq_input q) = Ok (iq, old)"
      "fr_queues r1 = q\<lparr>fq_input := iq, fq_old := fq_old q @ old, fq_log := fq_log q @ [Ended]\<rparr>"
    by (auto simp: future_ops_def fr_poll_def Let_def split: poll.splits result.splits)
  with fq_flow_renewed [OF run_fut_flow [OF f t]] show "fq_flow True (fr_queues r1) ins outs [IFlush]" by simp
qed

interpretation once: segment_routine
  "once_ops fpoll home :: ('i, 'o, ('i, 'o, 'f) once_routine) poll_ops" "\<lambda>x. [x]" on_queues "\<lambda>r. on_future r \<noteq> None"
proof unfold_locales
  fix x :: 'i and r r1 :: "('i, 'o, 'f) once_routine" and a ins outs due
  assume "po_send (once_ops fpoll home) x r = (Ok a, r1)" "fq_flow (on_future r \<noteq> None) (on_queues r) ins outs due"
  then show "a = Accepted \<and> fq_flow (on_future r1 \<noteq> None) (on_queues r1) (ins @ map IData [x]) outs due \<or>
      a = AFull x \<and> fq_flow (on_future r1 \<noteq> None) (on_queues r1) ins outs due"
    by (cases "fq_node_send x (on_queues r)")
      (auto simp: once_ops_def once_try_send_def dest: fq_node_send_flow split: if_splits)
next
  fix r r1 :: "('i, 'o, 'f) once_routine" and u ins outs due
  assume "po_flush (once_ops fpoll home) r = (Ok u, r1)" "fq_flow (on_future r \<noteq> None) (on_queues r) ins outs due"
  then show "fq_flow (on_future r1 \<noteq> None) (on_queues r1) (ins @ [IFlush]) outs due"
    by (cases "fq_node_flush (on_queues r)")
      (auto simp: once_ops_def once_flush_def dest: fq_node_flush_flow split: if_splits)
next
  fix r r1 :: "('i, 'o, 'f) once_routine" and v ins outs due
  assume "po_next (once_ops fpoll home) r = (Ok v, r1)" "fq_flow (on_future r \<noteq> None) (on_queues r) ins outs due"
  then show "(\<exists>y. v = Some y \<and> fq_flow (on_future r1 \<noteq> None) (on_queues r1) ins (outs @ [IData y]) due) \<or>
      v = None \<and> oq_buffer (fq_output (on_queues r1)) = [] \<and> fq_flow (on_future r1 \<noteq> None) (on_queues r1) ins outs due"
    by (cases "fq_node_pop (on_queues r)") (auto simp: once_ops_def once_next_def dest: fq_node_pop_flow)
next
  fix r r1 :: "('i, 'o, 'f) once_routine" and ins outs
  assume "po_poll (once_ops fpoll home) r = (Ok Pending, r1)" "fq_flow (on_future r \<noteq> None) (on_queues r) ins outs []"
  then show "fq_flow (on_future r1 \<noteq> None) (on_queues r1) ins outs []"
    by (auto simp: once_ops_def once_poll_def Let_def run_fut_flow
        split: prod.splits poll.splits result.splits option.splits)
next
  fix r r1 :: "('i, 'o, 'f) once_routine" and z ins outs
  assume p: "po_poll (once_ops fpoll home) r = (Ok (PReady z), r1)" and f: "fq_flow (on_future r \<noteq> None) (on_queues r) ins outs []"
  then obtain f0 where f0: "on_future r = Some f0" by (auto simp: once_ops_def once_poll_def split: option.splits)
  obtain a f1 q where t: "run_fut (line_queue_ops home) (fpoll f0) (on_queues r) = ((a, f1), q)"
    by (metis prod.collapse)
  from p f0 t obtain u where "inq_ended (fq_input q) = Ok u" "on_queues r1 = q\<lparr>fq_log := fq_log q @ [Ended]\<rparr>"
      "on_future r1 = None"
    by (auto simp: once_ops_def once_poll_def Let_def split: poll.splits result.splits)
  moreover have "fq_flow True (on_queues r) ins outs []" using f f0 by simp
  ultimately show "fq_flow (on_future r1 \<noteq> None) (on_queues r1) ins outs [IFlush]"
    using fq_flow_spent [OF run_fut_flow [OF _ t]] by simp
qed

section \<open>Poll lines with async routines\<close>

lemma future_honest: "honest_routine (future_ops uc home)"
  by (auto simp: honest_routine_def future_ops_def fr_try_send_def fr_flush_def fq_node_send_def fq_node_flush_def
      inq_try_send_def inq_flush_def waiters_take_def)

lemma once_honest: "honest_routine (once_ops fpoll home)"
  by (auto simp: honest_routine_def once_ops_def once_try_send_def once_flush_def fq_node_send_def
      fq_node_flush_def inq_try_send_def inq_flush_def waiters_take_def exhausted_def split: if_splits)

interpretation future_feed: feeding fr_try_send fr_try_send "\<lambda>x. x" node_recv nw_recv node_avail
  by unfold_locales
    (auto simp: fr_try_send_def fq_node_send_def inq_try_send_def waiters_take_def node_recv_def node_avail_def
      waking_try_recv_def waking_poll_def Let_def split: prod.splits if_splits elim!: try_pop_cases)

interpretation future_node: poll_line "future_ops uc home" node_recv nw_recv node_avail
    "fanout_output (node_sink env fill)" fanout_lanes "\<lambda>f w i. sw_took (nw_out w) (f_edges f ! i)" fanout_due
    fanout_ok "\<lambda>w. (nw_recv w, nw_in w)"
  by (rule poll_line_node_sys [OF future_honest])

interpretation once_node: poll_line "once_ops fpoll home" node_recv nw_recv node_avail
    "fanout_output (node_sink env fill)" fanout_lanes "\<lambda>f w i. sw_took (nw_out w) (f_edges f ! i)" fanout_due
    fanout_ok "\<lambda>w. (nw_recv w, nw_in w)"
  by (rule poll_line_node_sys [OF once_honest])

section \<open>Properties\<close>

text \<open>C18. A poll line with an async routine keeps the future's segments. Over sync edges, for any user
  future and any order of phase polls, wakes, refusals and bounds: until the node closes, the future has
  received exactly what the node took from its input, Markers aside, except what waits in the input
  queue; and what every output edge got is exactly what the future sent, a Flush standing where the
  future of a segment returned, except what waits in the output queue. Every finished segment is some
  data, then its Flush as the last thing received, then the end.\<close>

theorem future_line_segments:
  assumes out: "fanout_ok out" "f_suspended out = None" and ev: "\<forall>ev\<in>set evs. around_ok ev"
    and run: "line_run (future_ops uc home) (node_output env fill) node_recv evs
                (line_start (node_output env fill) (fr_new b g) out k bg w) = Some y"
    and live: "pl_state (ly_node y) \<noteq> NClosed"
  shows "\<exists>acc os. nw_recv (ly_world y) = nw_recv w @ acc @ held_list (ly_held y) \<and>
        (\<forall>i < length (f_edges out).
           sw_took (nw_out (ly_world y)) (f_edges (pl_output (ly_node y)) ! i) @ fanout_due (pl_output (ly_node y)) i =
           sw_took (nw_out w) (f_edges out ! i) @ os) \<and>
        (let q = fr_queues (pl_routine (ly_node y))
         in got_items (fq_log q) @ iq_buffer (fq_input q) = items_of acc \<and>
            sent_items (fq_log q) =
              items_of os @ map IData (oq_buffer (fq_output q)) @ end_due (pl_state (ly_node y)) \<and>
            segmented False (fq_log q) = Some (iq_closed (fq_input q)))"
proof -
  have "fanout_due out i = []" for i using out(2) by (simp add: fanout_due_def)
  with line_run_node_sys [OF future_honest out(1) ev run] live obtain acc os where
    a: "nw_recv (ly_world y) = nw_recv w @ acc @ held_list (ly_held y)"
      "\<forall>i < length (f_edges out).
           sw_took (nw_out (ly_world y)) (f_edges (pl_output (ly_node y)) ! i) @ fanout_due (pl_output (ly_node y)) i =
           sw_took (nw_out w) (f_edges out ! i) @ os"
      "conducts (po_send (future_ops uc home)) (po_next (future_ops uc home)) (po_flush (future_ops uc home))
         (po_poll (future_ops uc home)) (fr_new b g) Running acc os (pl_routine (ly_node y)) (pl_state (ly_node y))"
    by (auto simp: fanout_lanes_def)
  have "fq_flow True (fr_queues (fr_new b g)) [] [] (end_due Running)"
    by (simp add: fr_new_def end_due_def fq_flow_new)
  from future.conducts_flow [OF a(3) this] a(1,2) show ?thesis
    by (intro exI [of _ acc] exI [of _ os]) (simp add: fq_flow_def Let_def items_by_all)
qed

text \<open>An echo that returns at its Flush, looking at no more than \<open>n\<close> items per poll.\<close>

fun echo_poll :: "nat \<Rightarrow> (nat option, nat, nat, nat) fut" where
  "echo_poll 0 = Fin Pending 0"
| "echo_poll (Suc n) =
     Recv None 1 (\<lambda>a. case a of
        Pending \<Rightarrow> Fin Pending (Suc n)
      | PReady (Err e) \<Rightarrow> Fin (PReady (Err e)) 0
      | PReady (Ok IFlush) \<Rightarrow> Fin (PReady (Ok ())) 0
      | PReady (Ok (IData v)) \<Rightarrow> TrySend v (\<lambda>_. echo_poll n))"

definition echo_code :: "(unit, nat, nat, nat) user_code" where
  "echo_code = \<lparr>uc_make = (\<lambda>g. (3, g)), uc_poll = echo_poll, uc_kept = (\<lambda>f. True)\<rparr>"

definition echo_run ::
  "line_phase list \<Rightarrow> (nat, nat, (nat, nat, unit, nat) future_routine, (nat \<times> nat, (nat, nat) message) fanout, (nat, nat, nat) node_sys) line_sys option" where
  "echo_run ps =
     line_run (future_ops echo_code 1) (node_output (\<lambda>w. None) id) node_recv (map Polled ps)
       (line_start (node_output (\<lambda>w. None) id) (fr_new None ()) one_edge 3 budget_default one_line)"

theorem future_line_segments_witness:
  "\<exists>y. echo_run [LInput, LWork, LOutput] = Some y \<and>
       sent_items (fq_log (fr_queues (pl_routine (ly_node y)))) = [IData 5, IFlush] \<and>
       got_items (fq_log (fr_queues (pl_routine (ly_node y)))) = [IData 5, IFlush]"
proof -
  have "case echo_run [LInput, LWork, LOutput] of
     None \<Rightarrow> False
   | Some y \<Rightarrow> pl_state (ly_node y) = Running \<and> nw_recv (ly_world y) = [Data 5, Flush 7] \<and> ly_held y = None \<and>
       f_edges (pl_output (ly_node y)) = [(0, 0)] \<and> f_suspended (pl_output (ly_node y)) = None \<and>
       sw_took (nw_out (ly_world y)) (0, 0) = [Data 5, Flush 7] \<and>
       iq_buffer (fq_input (fr_queues (pl_routine (ly_node y)))) = [] \<and>
       oq_buffer (fq_output (fr_queues (pl_routine (ly_node y)))) = []"
    by code_simp
  then obtain y where y: "echo_run [LInput, LWork, LOutput] = Some y"
      "pl_state (ly_node y) = Running" "nw_recv (ly_world y) = [Data 5, Flush 7]" "ly_held y = None"
      "f_edges (pl_output (ly_node y)) = [(0, 0)]" "f_suspended (pl_output (ly_node y)) = None"
      "sw_took (nw_out (ly_world y)) (0, 0) = [Data 5, Flush 7]"
      "iq_buffer (fq_input (fr_queues (pl_routine (ly_node y)))) = []"
      "oq_buffer (fq_output (fr_queues (pl_routine (ly_node y)))) = []"
    by (auto split: option.splits)
  have "fanout_ok one_edge" "f_suspended one_edge = None" by (simp_all add: one_edge_def fanout_ok_def)
  moreover have "\<forall>ev\<in>set (map Polled [LInput, LWork, LOutput]). around_ok ev" by (simp add: around_ok_def)
  ultimately obtain acc os where
    a: "nw_recv (ly_world y) = nw_recv one_line @ acc @ held_list (ly_held y)"
    "\<forall>i < length (f_edges one_edge).
       sw_took (nw_out (ly_world y)) (f_edges (pl_output (ly_node y)) ! i) @ fanout_due (pl_output (ly_node y)) i =
       sw_took (nw_out one_line) (f_edges one_edge ! i) @ os"
    "got_items (fq_log (fr_queues (pl_routine (ly_node y)))) @ iq_buffer (fq_input (fr_queues (pl_routine (ly_node y)))) = items_of acc"
    "sent_items (fq_log (fr_queues (pl_routine (ly_node y)))) =
       items_of os @ map IData (oq_buffer (fq_output (fr_queues (pl_routine (ly_node y))))) @ end_due (pl_state (ly_node y))"
    using future_line_segments [OF _ _ _ y(1) [unfolded echo_run_def]] y(2) by (auto simp: Let_def)
  then have "acc = [Data 5, Flush 7]" "os = [Data 5, Flush 7]"
    using y(3-7) by (simp_all add: one_line_def one_edge_def fanout_due_def)
  with a(3,4) y(1,2,8,9) show ?thesis by (simp add: end_due_def)
qed

text \<open>C32. A once routine runs one segment and says so. When its poll answers Ready, its future received
  everything including the Flush; from then on data and a second Flush are refused as \<open>Exhausted\<close>, a poll
  finds nothing to do, and none of these changes the routine, whose remaining output stays readable. A
  future that returns before its Flush, or with input unread, fails the poll instead.\<close>

theorem once_routine_one_segment:
  assumes f: "on_future r = Some f0"
    and run: "run_fut (line_queue_ops home) (fpoll f0) (on_queues r) = ((PReady (Ok ()), f1), q)"
  shows "case once_poll fpoll home r of
           (Ok Pending, r') \<Rightarrow> False
         | (Ok (PReady _), r') \<Rightarrow>
             iq_buffer (fq_input q) = [] \<and> iq_closed (fq_input q) \<and>
             once_try_send x r' = (Err exhausted, r') \<and> once_flush r' = (Err exhausted, r') \<and>
             once_poll fpoll home r' = (Ok Pending, r') \<and> fq_output (on_queues r') = fq_output q
         | (Err e, r') \<Rightarrow>
             e = undrained \<and> iq_buffer (fq_input q) \<noteq> [] \<or>
             e = unflushed \<and> iq_buffer (fq_input q) = [] \<and> \<not> iq_closed (fq_input q)"
  using f run
  by (auto simp: once_poll_def once_try_send_def once_flush_def inq_ended_def)

theorem once_routine_one_segment_witness:
  "let r = (once_new None 3)\<lparr>on_queues := (fr_queues_new None)\<lparr>fq_input := (inq_new None)\<lparr>iq_buffer := [IFlush]\<rparr>\<rparr>\<rparr>
   in \<exists>r'. once_poll echo_poll 1 r = (Ok (PReady ()), r') \<and> once_try_send 8 r' = (Err exhausted, r')"
proof -
  let ?r = "(once_new None 3)\<lparr>on_queues := (fr_queues_new None)\<lparr>fq_input := (inq_new None)\<lparr>iq_buffer := [IFlush]\<rparr>\<rparr>\<rparr>
    :: (nat, nat, nat) once_routine"
  have "fst (run_fut (line_queue_ops 1) (echo_poll 3) (on_queues ?r)) = (PReady (Ok ()), 0)"
      and "fst (once_poll echo_poll 1 ?r) = Ok (PReady ())"
    by code_simp+
  then obtain q r' where q: "run_fut (line_queue_ops 1) (echo_poll 3) (on_queues ?r) = ((PReady (Ok ()), 0), q)"
      and p: "once_poll echo_poll 1 ?r = (Ok (PReady ()), r')"
    by (metis prod.collapse)
  have "on_future ?r = Some 3" by (simp add: once_new_def)
  from once_routine_one_segment [where fpoll = echo_poll, OF this q, of 8] p show ?thesis by (auto simp: Let_def)
qed

end
