(* ===== verification/Poll_Biunion.thy ===== *)
theory Poll_Biunion
  imports Poll_Line Biunion_Work
begin

text \<open>
  The poll biunion node (src/node/biunion/poll/node.rs and node/): two inputs, one routine, one output.
  Both impls of \<open>Feeding\<close> are one definition with the side as a parameter. The node ends with the last
  of its inputs to close.
\<close>

section \<open>State and phases\<close>

datatype side = LeftSide | RightSide

fun other_side :: "side \<Rightarrow> side" where
  "other_side LeftSide = RightSide"
| "other_side RightSide = LeftSide"

datatype bi_phase = BInput side | BWork | BOutput

record ('s, 'r, 'f) bi_shared =
  bs_open :: "side \<Rightarrow> bool"
  bs_routine :: 'r
  bs_output :: 'f
  bs_state :: "'s node_state"
  bs_budget :: budget
  bs_woken :: "bi_phase set"

definition bi_phases ::
  "'r \<Rightarrow> 'f \<Rightarrow> waker \<Rightarrow> budget \<Rightarrow> ('m, 'f, 'w) rotate_ops \<Rightarrow> 'w \<Rightarrow> ('s, 'r, 'f) bi_shared \<times> 'w" where
  "bi_phases routine out output_wake bg ro w =
     (\<lparr>bs_open = (\<lambda>_. True), bs_routine = routine, bs_output = out, bs_state = Running, bs_budget = bg,
       bs_woken = {}\<rparr>, ro_schedule ro output_wake out w)"

definition bi_feed :: "side \<Rightarrow> ('s, 'r, 'f) bi_shared \<Rightarrow> ('s, 'r, bi_phase) feed" where
  "bi_feed sd nd =
     \<lparr>fe_waker = BInput sd, fe_this = bs_open nd sd, fe_others = bs_open nd (other_side sd),
      fe_routine = bs_routine nd, fe_work = BWork, fe_state = bs_state nd,
      fe_budget = bg_input (bs_budget nd), fe_woken = bs_woken nd\<rparr>"

definition bi_fed :: "side \<Rightarrow> ('s, 'r, bi_phase) feed \<Rightarrow> ('s, 'r, 'f) bi_shared \<Rightarrow> ('s, 'r, 'f) bi_shared" where
  "bi_fed sd f nd =
     nd\<lparr>bs_open := (bs_open nd)(sd := fe_this f), bs_routine := fe_routine f, bs_state := fe_state f,
        bs_woken := fe_woken f\<rparr>"

definition bi_drain ::
  "side \<Rightarrow> ('i, 'r) send_op \<Rightarrow> 'r flush_op \<Rightarrow> ('w \<Rightarrow> ('i, 's) message option res \<times> 'w) \<Rightarrow>
   'i option \<Rightarrow> ('s, 'r, 'f) bi_shared \<Rightarrow> 'w \<Rightarrow> unit res \<times> 'i option \<times> ('s, 'r, 'f) bi_shared \<times> 'w" where
  "bi_drain sd send flush recv held nd w =
     (let (q, held', f, w') = feed_drain send flush recv held (bi_feed sd nd) w; nd' = bi_fed sd f nd
      in case q of
           Err e \<Rightarrow> (Err e, held', nd', w')
         | Ok _ \<Rightarrow>
             (Ok (), held',
              if bs_state nd' = CloseReady
              then nd'\<lparr>bs_woken := {BOutput, BInput (other_side sd)} \<union> bs_woken nd'\<rparr> else nd', w'))"

definition bi_input_poll ::
  "side \<Rightarrow> ('i, 'r) send_op \<Rightarrow> 'r flush_op \<Rightarrow> ('w \<Rightarrow> ('i, 's) message option res \<times> 'w) \<Rightarrow>
   'i option \<Rightarrow> ('s, 'r, 'f) bi_shared \<Rightarrow> 'w \<Rightarrow> unit poll res \<times> 'i option \<times> ('s, 'r, 'f) bi_shared \<times> 'w" where
  "bi_input_poll sd send flush recv held nd w =
     (case bs_state nd of
        NClosed \<Rightarrow> (Err Closed, held, nd, w)
      | CloseReady \<Rightarrow> (Err Closed, held, nd, w)
      | Running \<Rightarrow>
          (case bi_drain sd send flush recv held nd w of
             (Err e, held', nd', w') \<Rightarrow> (Err e, held', nd', w')
           | (Ok _, held', nd', w') \<Rightarrow>
               (if bs_state nd' = CloseReady then (Err Closed, held', nd', w')
                else (Ok Pending, held', nd', w')))
      | _ \<Rightarrow> (Ok Pending, held, nd, w))"

definition bi_work_poll ::
  "'r rpoll_op \<Rightarrow> ('s, 'r, 'f) bi_shared \<Rightarrow> unit poll res \<times> ('s, 'r, 'f) bi_shared" where
  "bi_work_poll poll nd =
     (let (q, d) = drive_poll poll
            \<lparr>dr_routine = bs_routine nd, dr_output = BOutput, dr_state = bs_state nd, dr_woken = bs_woken nd\<rparr>
      in (q, nd\<lparr>bs_routine := dr_routine d, bs_state := dr_state d, bs_woken := dr_woken d\<rparr>))"

definition bi_emit :: "('s, 'r, 'f) bi_shared \<Rightarrow> ('s, 'r, 'f, bi_phase) emit" where
  "bi_emit nd =
     \<lparr>em_routine = bs_routine nd, em_output = bs_output nd, em_waker = BOutput,
      em_inputs = [BInput LeftSide, BInput RightSide], em_work = BWork, em_state = bs_state nd,
      em_budget = bg_output (bs_budget nd), em_woken = bs_woken nd\<rparr>"

definition bi_output_poll ::
  "('o, 'r) next_op \<Rightarrow> (('o, 's) message, 'f, 'w) rotate_ops \<Rightarrow> ('s, 'r, 'f) bi_shared \<Rightarrow> 'w \<Rightarrow>
   unit poll res \<times> ('s, 'r, 'f) bi_shared \<times> 'w" where
  "bi_output_poll nxt ro nd w =
     (let (q, e, w') = emit_poll nxt ro (bi_emit nd) w
      in (q, nd\<lparr>bs_routine := em_routine e, bs_output := em_output e, bs_state := em_state e,
                bs_woken := em_woken e\<rparr>, w'))"

section \<open>Runs\<close>

record ('l, 'm, 's, 'r, 'f, 'w) bi_sys =
  by_node :: "('s, 'r, 'f) bi_shared"
  by_left :: "'l option"
  by_right :: "'m option"
  by_world :: 'w
  by_ended :: "bi_phase set"
  by_asked :: bool

record ('l, 'm, 'o, 'r) bi_ops =
  bo_left :: "('l, 'r) send_op"
  bo_right :: "('m, 'r) send_op"
  bo_next :: "('o, 'r) next_op"
  bo_flush :: "'r flush_op"
  bo_poll :: "'r rpoll_op"

definition bi_note_end ::
  "bi_phase \<Rightarrow> unit poll res \<Rightarrow> ('l, 'm, 's, 'r, 'f, 'w) bi_sys \<Rightarrow> ('l, 'm, 's, 'r, 'f, 'w) bi_sys" where
  "bi_note_end p q y = (if is_ok q then y else y\<lparr>by_ended := insert p (by_ended y)\<rparr>)"

definition unwoken :: "bi_phase \<Rightarrow> ('l, 'm, 's, 'r, 'f, 'w) bi_sys \<Rightarrow> ('s, 'r, 'f) bi_shared" where
  "unwoken p y = (by_node y)\<lparr>bs_woken := bs_woken (by_node y) - {p}\<rparr>"

fun poll_bi_phase ::
  "('l, 'm, 'o, 'r) bi_ops \<Rightarrow> (('o, 's) message, 'f, 'w) rotate_ops \<Rightarrow>
   ('w \<Rightarrow> ('l, 's) message option res \<times> 'w) \<Rightarrow> ('w \<Rightarrow> ('m, 's) message option res \<times> 'w) \<Rightarrow>
   bi_phase \<Rightarrow> ('l, 'm, 's, 'r, 'f, 'w) bi_sys \<Rightarrow> unit poll res \<times> ('l, 'm, 's, 'r, 'f, 'w) bi_sys" where
  "poll_bi_phase bo ro recvl recvr (BInput LeftSide) y =
     (let nd = unwoken (BInput LeftSide) y;
          (q, held, nd', w) = bi_input_poll LeftSide (bo_left bo) (bo_flush bo) recvl (by_left y) nd (by_world y)
      in (q, bi_note_end (BInput LeftSide) q (y\<lparr>by_node := nd', by_left := held, by_world := w,
               by_asked := by_asked y \<and> bs_state nd' = bs_state nd\<rparr>)))"
| "poll_bi_phase bo ro recvl recvr (BInput RightSide) y =
     (let nd = unwoken (BInput RightSide) y;
          (q, held, nd', w) = bi_input_poll RightSide (bo_right bo) (bo_flush bo) recvr (by_right y) nd (by_world y)
      in (q, bi_note_end (BInput RightSide) q (y\<lparr>by_node := nd', by_right := held, by_world := w,
               by_asked := by_asked y \<and> bs_state nd' = bs_state nd\<rparr>)))"
| "poll_bi_phase bo ro recvl recvr BWork y =
     (let (q, nd') = bi_work_poll (bo_poll bo) (unwoken BWork y)
      in (q, bi_note_end BWork q (y\<lparr>by_node := nd', by_asked := True\<rparr>)))"
| "poll_bi_phase bo ro recvl recvr BOutput y =
     (let (q, nd', w) = bi_output_poll (bo_next bo) ro (unwoken BOutput y) (by_world y)
      in (q, bi_note_end BOutput q (y\<lparr>by_node := nd', by_world := w\<rparr>)))"

datatype 'w bi_event = BPolled bi_phase | BElsewhere "'w \<Rightarrow> 'w" "bi_phase set"

definition bi_event_run ::
  "('l, 'm, 'o, 'r) bi_ops \<Rightarrow> (('o, 's) message, 'f, 'w) rotate_ops \<Rightarrow>
   ('w \<Rightarrow> ('l, 's) message option res \<times> 'w) \<Rightarrow> ('w \<Rightarrow> ('m, 's) message option res \<times> 'w) \<Rightarrow>
   'w bi_event \<Rightarrow> ('l, 'm, 's, 'r, 'f, 'w) bi_sys \<Rightarrow> ('l, 'm, 's, 'r, 'f, 'w) bi_sys option" where
  "bi_event_run bo ro recvl recvr ev y =
     (case ev of
        BElsewhere g v \<Rightarrow>
          Some (y\<lparr>by_world := g (by_world y),
                 by_node := (by_node y)\<lparr>bs_woken := bs_woken (by_node y) \<union> v\<rparr>\<rparr>)
      | BPolled p \<Rightarrow>
          (if p \<in> by_ended y then Some y
           else case poll_bi_phase bo ro recvl recvr p y of
                  (Ok _, y') \<Rightarrow> Some y'
                | (Err e, y') \<Rightarrow> (if is_closed e then Some y' else None)))"

fun bi_run ::
  "('l, 'm, 'o, 'r) bi_ops \<Rightarrow> (('o, 's) message, 'f, 'w) rotate_ops \<Rightarrow>
   ('w \<Rightarrow> ('l, 's) message option res \<times> 'w) \<Rightarrow> ('w \<Rightarrow> ('m, 's) message option res \<times> 'w) \<Rightarrow>
   'w bi_event list \<Rightarrow> ('l, 'm, 's, 'r, 'f, 'w) bi_sys \<Rightarrow> ('l, 'm, 's, 'r, 'f, 'w) bi_sys option" where
  "bi_run bo ro recvl recvr [] y = Some y"
| "bi_run bo ro recvl recvr (ev # evs) y =
     (case bi_event_run bo ro recvl recvr ev y of
        None \<Rightarrow> None | Some y' \<Rightarrow> bi_run bo ro recvl recvr evs y')"

section \<open>What one drain of a side does\<close>

context feeding
begin

lemma bi_drain_cases:
  assumes d: "bi_drain sd send flush recv held nd w = (Ok u, held', nd', w')" and st: "bs_state nd = Running"
  obtains ms acc where "taken w' = taken w @ ms" "held_list held @ ms = acc @ held_list held'"
    "conducts csend nxt flush poll (bs_routine nd) Running (sided acc) [] (bs_routine nd') (bs_state nd')"
    "bs_output nd' = bs_output nd" "bs_woken nd \<subseteq> bs_woken nd'"
    "bs_state nd' = Running \<and> bs_open nd' sd \<and> avail w' \<longrightarrow> held' \<noteq> None \<or> BInput sd \<in> bs_woken nd'"
    "bs_state nd' = Running \<or> BWork \<in> bs_woken nd'"
    "bs_state nd' = CloseReady \<longrightarrow> BOutput \<in> bs_woken nd' \<and> BInput (other_side sd) \<in> bs_woken nd'"
    "bs_state nd' \<in> {Running, CloseReady} \<or> (\<exists>s. bs_state nd' = Flushing s \<or> bs_state nd' = MarkerReady s)"
    "bs_state nd' = CloseReady \<longrightarrow> \<not> bs_open nd' sd \<and> \<not> bs_open nd' (other_side sd)"
    "bs_open nd sd \<longrightarrow> bs_open nd' sd \<or> bs_open nd (other_side sd) \<or> bs_state nd' = CloseReady"
    "bs_open nd' (other_side sd) = bs_open nd (other_side sd)"
proof -
  obtain q h f w1 where p: "feed_drain send flush recv held (bi_feed sd nd) w = (q, h, f, w1)"
    by (cases "feed_drain send flush recv held (bi_feed sd nd) w") auto
  have D: "bi_drain sd send flush recv held nd w =
      (case q of
         Err e \<Rightarrow> (Err e, h, bi_fed sd f nd, w1)
       | Ok _ \<Rightarrow> (Ok (), h, if fe_state f = CloseReady
           then (bi_fed sd f nd)\<lparr>bs_woken := {BOutput, BInput (other_side sd)} \<union> fe_woken f\<rparr>
           else bi_fed sd f nd, w1))"
    by (cases q) (simp_all add: bi_drain_def p bi_fed_def Let_def)
  have q: "q = Ok ()" "held' = h" "w' = w1"
      "nd' = (if fe_state f = CloseReady
           then (bi_fed sd f nd)\<lparr>bs_woken := {BOutput, BInput (other_side sd)} \<union> fe_woken f\<rparr>
           else bi_fed sd f nd)"
    using d unfolding D by (cases q; simp)+
  have "fe_state (bi_feed sd nd) = Running" using st by (simp add: bi_feed_def)
  from feed_drain_conducts [OF p [unfolded q(1)] this, of nxt poll] obtain ms acc where
    a: "taken w1 = taken w @ ms" "held_list held @ ms = acc @ held_list h" "feed_kept (bi_feed sd nd) f"
       "fe_state f = Running \<and> fe_this f \<and> avail w1 \<longrightarrow> h \<noteq> None \<or> BInput sd \<in> fe_woken f"
       "conducts csend nxt flush poll (bs_routine nd) Running (sided acc) [] (fe_routine f) (fe_state f)"
    by (auto simp: bi_feed_def)
  from a(3) have k: "bs_woken nd \<subseteq> fe_woken f" "fe_state f = Running \<or> BWork \<in> fe_woken f"
      "fe_state f \<in> {Running, CloseReady} \<or> (\<exists>s. fe_state f = Flushing s \<or> fe_state f = MarkerReady s)"
      "fe_state f \<noteq> CloseReady \<or> \<not> bs_open nd (other_side sd) \<and> \<not> fe_this f"
      "\<not> bs_open nd sd \<or> fe_this f \<or> bs_open nd (other_side sd) \<or> fe_state f = CloseReady"
    by (auto simp only: feed_kept_def feed_frame_def bi_feed_def feed.simps)
  have nd': "bs_routine nd' = fe_routine f" "bs_output nd' = bs_output nd" "bs_state nd' = fe_state f"
      "bs_open nd' sd = fe_this f" "bs_open nd' (other_side sd) = bs_open nd (other_side sd)"
      "bs_woken nd' = (if fe_state f = CloseReady then {BOutput, BInput (other_side sd)} \<union> fe_woken f else fe_woken f)"
    using q(4) by (cases sd; simp add: bi_fed_def)+
  show thesis
    by (rule that [of ms acc]; insert a(1,2,4,5) q(1-3) k; simp add: nd'; (blast | auto)?)
qed

end

lemma bi_drain_view:
  assumes v: "\<And>w q w1. recv w = (q, w1) \<Longrightarrow> V w1 = V w"
    and d: "bi_drain sd send flush recv held nd w = (q, held', nd', w')"
  shows "V w' = V w"
proof -
  obtain q1 h f w1 where p: "feed_drain send flush recv held (bi_feed sd nd) w = (q1, h, f, w1)"
    by (cases "feed_drain send flush recv held (bi_feed sd nd) w") auto
  have "V w1 = V w" by (rule feed_drain_view [OF _ p]) (rule v)
  with d p show ?thesis by (cases q1) (auto simp: bi_drain_def Let_def)
qed

section \<open>Merging the two sides\<close>

lemma shuffles_append:
  "zs \<in> shuffles xs ys \<Longrightarrow> zs2 \<in> shuffles xs2 ys2 \<Longrightarrow> zs @ zs2 \<in> shuffles (xs @ xs2) (ys @ ys2)"
proof (induction zs arbitrary: xs ys)
  case Nil
  then show ?case by simp
next
  case (Cons z zs)
  from Cons.prems(1) consider xs1 where "xs = z # xs1" "zs \<in> shuffles xs1 ys"
    | ys1 where "ys = z # ys1" "zs \<in> shuffles xs ys1"
    by (cases xs; cases ys) auto
  then show ?case
    by cases (use Cons.IH Cons.prems(2) in \<open>auto intro: Cons_in_shuffles_leftI Cons_in_shuffles_rightI\<close>)
qed

section \<open>Every phase refines the reference\<close>

text \<open>The routine as one input of sided data.\<close>

fun bi_send :: "('l, 'm, 'o, 'r) bi_ops \<Rightarrow> ('l + 'm, 'r) send_op" where
  "bi_send bo (Inl x) r = (let (q, r') = bo_left bo x r in (map_result (accept_map Inl) q, r'))"
| "bi_send bo (Inr x) r = (let (q, r') = bo_right bo x r in (map_result (accept_map Inr) q, r'))"

definition from_left :: "('l, 's) message list \<Rightarrow> ('l + 'm, 's) message list" where
  "from_left ms = map (map_message Inl (\<lambda>s. s)) ms"

definition from_right :: "('m, 's) message list \<Rightarrow> ('l + 'm, 's) message list" where
  "from_right ms = map (map_message Inr (\<lambda>s. s)) ms"

lemma from_sides_simps [simp]:
  "from_left [] = []" "from_right [] = []"
  "from_left (ms @ ns) = from_left ms @ from_left ns" "from_right (ms @ ns) = from_right ms @ from_right ns"
  by (simp_all add: from_left_def from_right_def)

definition bi_attended ::
  "('x, 'f, 'w) rotate_ops \<Rightarrow> ('w \<Rightarrow> bool) \<Rightarrow> ('w \<Rightarrow> bool) \<Rightarrow> ('l, 'm, 's, 'r, 'f, 'w) bi_sys \<Rightarrow> bool" where
  "bi_attended ro availl availr y \<longleftrightarrow>
     (let nd = by_node y; v = bs_woken nd; gone = by_ended y; stuck = ro_suspended ro (bs_output nd) \<noteq> None
      in case bs_state nd of
           Running \<Rightarrow>
             (bs_open nd LeftSide \<and> availl (by_world y) \<longrightarrow> by_left y \<noteq> None \<or> BInput LeftSide \<in> v) \<and>
             (bs_open nd RightSide \<and> availr (by_world y) \<longrightarrow> by_right y \<noteq> None \<or> BInput RightSide \<in> v)
         | Flushing s \<Rightarrow> BWork \<in> v \<or> by_asked y
         | FlushReady s \<Rightarrow> BOutput \<in> v \<or> stuck
         | MarkerReady s \<Rightarrow> BWork \<in> v \<or> BOutput \<in> v \<or> stuck
         | Forwarding \<Rightarrow> stuck
         | CloseReady \<Rightarrow> BOutput \<in> v \<and> BWork \<in> v \<union> gone \<and>
             BInput LeftSide \<in> v \<union> gone \<and> BInput RightSide \<in> v \<union> gone
         | NClosed \<Rightarrow> BOutput \<in> gone \<and> BWork \<in> v \<union> gone \<and>
             BInput LeftSide \<in> v \<union> gone \<and> BInput RightSide \<in> v \<union> gone)"

text \<open>The node closes with its last open input, or by a failing output; no phase ends before.\<close>

definition bi_ends :: "('l, 'm, 's, 'r, 'f, 'w) bi_sys \<Rightarrow> bool" where
  "bi_ends y \<longleftrightarrow>
     (let nd = by_node y; over = bs_state nd = CloseReady \<or> bs_state nd = NClosed
      in (by_ended y = {} \<or> over) \<and> (BOutput \<notin> by_ended y \<or> bs_state nd = NClosed) \<and>
         (bs_open nd LeftSide \<or> bs_open nd RightSide \<or> over) \<and>
         (bs_state nd = CloseReady \<longrightarrow> \<not> bs_open nd LeftSide \<and> \<not> bs_open nd RightSide))"

locale poll_biunion =
  lf: feeding "bo_left bo" "bi_send bo" Inl recvl takenl availl +
  rt: feeding "bo_right bo" "bi_send bo" Inr recvr takenr availr +
  emitting ro lanes received due ok inputs
  for bo :: "('l, 'm, 'o, 'r) bi_ops"
    and recvl :: "'w \<Rightarrow> ('l, 's) message option res \<times> 'w" and takenl :: "'w \<Rightarrow> ('l, 's) message list" and availl
    and recvr :: "'w \<Rightarrow> ('m, 's) message option res \<times> 'w" and takenr :: "'w \<Rightarrow> ('m, 's) message list" and availr
    and ro :: "(('o, 's) message, 'f, 'w) rotate_ops" and lanes :: "'f \<Rightarrow> nat"
    and received :: "'f \<Rightarrow> 'w \<Rightarrow> nat \<Rightarrow> ('o, 's) message list"
    and due :: "'f \<Rightarrow> nat \<Rightarrow> ('o, 's) message list" and ok :: "'f \<Rightarrow> bool" and inputs :: "'w \<Rightarrow> 'x" +
  assumes recvl_frame: "recvl w = (ql, w1) \<Longrightarrow>
      received g w1 i = received g w i \<and> takenr w1 = takenr w \<and> availr w1 = availr w"
    and recvr_frame: "recvr w = (qr, w1) \<Longrightarrow>
      received g w1 i = received g w i \<and> takenl w1 = takenl w \<and> availl w1 = availl w"
    and inputs_view: "inputs w1 = inputs w \<Longrightarrow>
      takenl w1 = takenl w \<and> availl w1 = availl w \<and> takenr w1 = takenr w \<and> availr w1 = availr w"
    and flush_open: "bo_flush bo r \<noteq> (Err Closed, r1)"
begin

abbreviation bi_conducts where
  "bi_conducts \<equiv> conducts (bi_send bo) (bo_next bo) (bo_flush bo) (bo_poll bo)"

definition bi_moves :: "('l, 'm, 's, 'r, 'f, 'w) bi_sys \<Rightarrow> ('l, 'm, 's, 'r, 'f, 'w) bi_sys \<Rightarrow>
    ('l, 's) message list \<Rightarrow> ('m, 's) message list \<Rightarrow> ('l + 'm, 's) message list \<Rightarrow> ('o, 's) message list \<Rightarrow> bool" where
  "bi_moves y y' accl accr acc os \<longleftrightarrow>
     (\<exists>ms. takenl (by_world y') = takenl (by_world y) @ ms \<and>
           held_list (by_left y) @ ms = accl @ held_list (by_left y')) \<and>
     (\<exists>ms. takenr (by_world y') = takenr (by_world y) @ ms \<and>
           held_list (by_right y) @ ms = accr @ held_list (by_right y')) \<and>
     acc \<in> shuffles (from_left accl) (from_right accr) \<and>
     (ok (bs_output (by_node y')) \<and> lanes (bs_output (by_node y')) = lanes (bs_output (by_node y)) \<and>
      (\<forall>i < lanes (bs_output (by_node y)).
        received (bs_output (by_node y')) (by_world y') i @ due (bs_output (by_node y')) i =
        (received (bs_output (by_node y)) (by_world y) i @ due (bs_output (by_node y)) i) @ os)) \<and>
     bi_conducts (bs_routine (by_node y)) (bs_state (by_node y)) acc os
       (bs_routine (by_node y')) (bs_state (by_node y'))"

lemma bi_moves_refl: "ok (bs_output (by_node y)) \<Longrightarrow> bi_moves y y [] [] [] []"
  by (auto simp: bi_moves_def intro: conducts.stop)

lemma taken_trans:
  assumes a: "\<exists>ms. t1 = t @ ms \<and> h @ ms = a @ h1" and b: "\<exists>ms. t2 = t1 @ ms \<and> h1 @ ms = a2 @ h2"
  shows "\<exists>ms. t2 = t @ ms \<and> h @ ms = (a @ a2) @ h2"
proof -
  from a obtain ms where m: "t1 = t @ ms" "h @ ms = a @ h1" by blast
  from b obtain ns where n: "t2 = t1 @ ns" "h1 @ ns = a2 @ h2" by blast
  have "h @ ms @ ns = a @ h1 @ ns" using m(2) by (metis append.assoc)
  with m(1) n show ?thesis by (intro exI [of _ "ms @ ns"]) simp
qed

lemma bi_moves_trans:
  assumes a: "bi_moves y y1 al ar acc os" and b: "bi_moves y1 y2 al2 ar2 acc2 os2"
  shows "bi_moves y y2 (al @ al2) (ar @ ar2) (acc @ acc2) (os @ os2)"
  unfolding bi_moves_def
proof (intro conjI)
  note A = a [unfolded bi_moves_def] and B = b [unfolded bi_moves_def]
  show "\<exists>ms. takenl (by_world y2) = takenl (by_world y) @ ms \<and>
      held_list (by_left y) @ ms = (al @ al2) @ held_list (by_left y2)"
    by (rule taken_trans [OF A [THEN conjunct1] B [THEN conjunct1]])
  show "\<exists>ms. takenr (by_world y2) = takenr (by_world y) @ ms \<and>
      held_list (by_right y) @ ms = (ar @ ar2) @ held_list (by_right y2)"
    by (rule taken_trans [OF A [THEN conjunct2, THEN conjunct1] B [THEN conjunct2, THEN conjunct1]])
  show "acc @ acc2 \<in> shuffles (from_left (al @ al2)) (from_right (ar @ ar2))"
    using A B by (simp add: shuffles_append)
  show "ok (bs_output (by_node y2))" using B by blast
  show "lanes (bs_output (by_node y2)) = lanes (bs_output (by_node y))" using A B by simp
  show "\<forall>i < lanes (bs_output (by_node y)).
      received (bs_output (by_node y2)) (by_world y2) i @ due (bs_output (by_node y2)) i =
      (received (bs_output (by_node y)) (by_world y) i @ due (bs_output (by_node y)) i) @ os @ os2"
  proof (intro allI impI)
    fix i assume i: "i < lanes (bs_output (by_node y))"
    with A have "i < lanes (bs_output (by_node y1))" by simp
    with B have "received (bs_output (by_node y2)) (by_world y2) i @ due (bs_output (by_node y2)) i =
        (received (bs_output (by_node y1)) (by_world y1) i @ due (bs_output (by_node y1)) i) @ os2" by blast
    moreover from A i have "received (bs_output (by_node y1)) (by_world y1) i @ due (bs_output (by_node y1)) i =
        (received (bs_output (by_node y)) (by_world y) i @ due (bs_output (by_node y)) i) @ os" by blast
    ultimately show "received (bs_output (by_node y2)) (by_world y2) i @ due (bs_output (by_node y2)) i =
        (received (bs_output (by_node y)) (by_world y) i @ due (bs_output (by_node y)) i) @ os @ os2" by simp
  qed
  show "bi_conducts (bs_routine (by_node y)) (bs_state (by_node y)) (acc @ acc2) (os @ os2)
      (bs_routine (by_node y2)) (bs_state (by_node y2))"
    by (rule conducts_append
        [of _ _ _ _ _ _ acc os "bs_routine (by_node y1)" "bs_state (by_node y1)" acc2 os2])
      (use A B in simp_all)
qed

definition bi_good :: "('l, 'm, 's, 'r, 'f, 'w) bi_sys \<Rightarrow> bool" where
  "bi_good y \<longleftrightarrow> bi_attended ro availl availr y \<and> bi_ends y \<and>
     (bs_state (by_node y) = NClosed \<or> ok (bs_output (by_node y)))"

definition bi_step_ok :: "('l, 'm, 's, 'r, 'f, 'w) bi_sys \<Rightarrow> ('l, 'm, 's, 'r, 'f, 'w) bi_sys \<Rightarrow> bool" where
  "bi_step_ok y y' \<longleftrightarrow> bi_good y' \<and>
     (bs_state (by_node y') = NClosed \<or>
      bs_state (by_node y) \<noteq> NClosed \<and> (\<exists>al ar acc os. bi_moves y y' al ar acc os))"


lemma bi_left_ok:
  assumes p: "poll_bi_phase bo ro recvl recvr (BInput LeftSide) y = (q, y')" and q: "is_ok q \<or> q = Err Closed"
    and e: "BInput LeftSide \<notin> by_ended y" and g: "bi_good y"
  shows "bi_step_ok y y'"
proof (cases "bs_state (by_node y)")
  case Running
  let ?nd = "unwoken (BInput LeftSide) y"
  obtain q1 h nd1 w1 where d: "bi_drain LeftSide (bo_left bo) (bo_flush bo) recvl (by_left y) ?nd (by_world y) = (q1, h, nd1, w1)"
    by (cases "bi_drain LeftSide (bo_left bo) (bo_flush bo) recvl (by_left y) ?nd (by_world y)") auto
  have "q1 \<noteq> Err Closed" using d
    by (auto simp: bi_drain_def Let_def feed_drain_not_closed [OF flush_open] split: prod.splits result.splits)
  with p q Running d have q1: "q1 = Ok ()"
    by (cases q1) (auto simp: bi_input_poll_def unwoken_def Let_def)
  have st: "bs_state ?nd = Running" using Running by (simp add: unwoken_def)
  have V: "(\<forall>g i. received g w1 i = received g (by_world y) i) \<and> takenr w1 = takenr (by_world y) \<and>
      availr w1 = availr (by_world y)"
    using bi_drain_view [where V = "\<lambda>w. (\<lambda>g i. received g w i, takenr w, availr w)", OF _ d] recvl_frame
    by (simp add: fun_eq_iff)
  from lf.bi_drain_cases [OF d [unfolded q1] st, of "bo_next bo" "bo_poll bo"] obtain ms acc where
    a: "takenl w1 = takenl (by_world y) @ ms" "held_list (by_left y) @ ms = acc @ held_list h"
      "bi_conducts (bs_routine (by_node y)) Running (from_left acc) [] (bs_routine nd1) (bs_state nd1)"
      "bs_output nd1 = bs_output (by_node y)" "bs_woken (by_node y) - {BInput LeftSide} \<subseteq> bs_woken nd1"
      "bs_state nd1 = Running \<and> bs_open nd1 LeftSide \<and> availl w1 \<longrightarrow> h \<noteq> None \<or> BInput LeftSide \<in> bs_woken nd1"
      "bs_state nd1 = Running \<or> BWork \<in> bs_woken nd1"
      "bs_state nd1 = CloseReady \<longrightarrow> BOutput \<in> bs_woken nd1 \<and> BInput RightSide \<in> bs_woken nd1"
      "bs_state nd1 \<in> {Running, CloseReady} \<or> (\<exists>s. bs_state nd1 = Flushing s \<or> bs_state nd1 = MarkerReady s)"
      "bs_state nd1 = CloseReady \<longrightarrow> \<not> bs_open nd1 LeftSide \<and> \<not> bs_open nd1 RightSide"
      "bs_open (by_node y) LeftSide \<longrightarrow> bs_open nd1 LeftSide \<or> bs_open (by_node y) RightSide \<or> bs_state nd1 = CloseReady"
      "bs_open nd1 RightSide = bs_open (by_node y) RightSide"
    by (auto simp: unwoken_def from_left_def)
  let ?y = "y\<lparr>by_node := nd1, by_left := h, by_world := w1, by_asked := by_asked y \<and> bs_state nd1 = Running\<rparr>"
  have y': "y' = (if bs_state nd1 = CloseReady then ?y\<lparr>by_ended := insert (BInput LeftSide) (by_ended y)\<rparr> else ?y)"
    using p Running d q1 st by (auto simp: bi_input_poll_def unwoken_def Let_def bi_note_end_def)
  have okay: "ok (bs_output (by_node y))" using g Running by (auto simp: bi_good_def)
  have mv: "bi_moves y y' acc [] (from_left acc) []"
    using a(1-4) V okay Running y' by (auto simp: bi_moves_def)
  have gd: "by_ended y = {}" "bs_open (by_node y) LeftSide \<or> bs_open (by_node y) RightSide"
    "bs_open (by_node y) RightSide \<and> availr (by_world y) \<longrightarrow> by_right y \<noteq> None \<or> BInput RightSide \<in> bs_woken (by_node y)"
    using g Running by (auto simp: bi_good_def bi_ends_def bi_attended_def Let_def)
  have "bi_ends y'"
    using a(10-12) gd y' by (auto simp: bi_ends_def Let_def)
  moreover have "bi_attended ro availl availr y'"
  proof -
    from a(9) consider "bs_state nd1 = Running" | "bs_state nd1 = CloseReady"
      | s where "bs_state nd1 = Flushing s" | s where "bs_state nd1 = MarkerReady s" by auto
    then show ?thesis
    proof cases
      case 1
      then show ?thesis using a(5,6,12) gd(3) V y' by (simp add: bi_attended_def) blast
    qed (use a(7,8) y' in \<open>simp_all add: bi_attended_def\<close>)
  qed
  moreover have "\<exists>al ar acc os. bi_moves y y' al ar acc os" using mv by blast
  moreover have "ok (bs_output (by_node y'))" using okay a(4) y' by auto
  ultimately show ?thesis using Running by (simp add: bi_step_ok_def bi_good_def)
next
  case CloseReady
  with p have "y' = y\<lparr>by_node := unwoken (BInput LeftSide) y, by_asked := by_asked y, by_ended := insert (BInput LeftSide) (by_ended y)\<rparr>"
    by (auto simp: bi_input_poll_def unwoken_def Let_def bi_note_end_def)
  with CloseReady g show ?thesis
    by (auto simp: bi_step_ok_def bi_good_def bi_attended_def bi_ends_def bi_moves_def unwoken_def Let_def
        intro!: exI [of _ "[]"] conducts.stop)
next
  case NClosed
  with p have "y' = y\<lparr>by_node := unwoken (BInput LeftSide) y, by_asked := by_asked y, by_ended := insert (BInput LeftSide) (by_ended y)\<rparr>"
    by (auto simp: bi_input_poll_def unwoken_def Let_def bi_note_end_def)
  with NClosed g show ?thesis
    by (auto simp: bi_step_ok_def bi_good_def bi_attended_def bi_ends_def unwoken_def Let_def)
qed (use p g in \<open>auto simp: bi_input_poll_def unwoken_def Let_def bi_note_end_def bi_step_ok_def bi_good_def
    bi_attended_def bi_ends_def bi_moves_def intro!: exI [of _ "[]"] conducts.stop\<close>)

lemma bi_right_ok:
  assumes p: "poll_bi_phase bo ro recvl recvr (BInput RightSide) y = (q, y')" and q: "is_ok q \<or> q = Err Closed"
    and e: "BInput RightSide \<notin> by_ended y" and g: "bi_good y"
  shows "bi_step_ok y y'"
proof (cases "bs_state (by_node y)")
  case Running
  let ?nd = "unwoken (BInput RightSide) y"
  obtain q1 h nd1 w1 where d: "bi_drain RightSide (bo_right bo) (bo_flush bo) recvr (by_right y) ?nd (by_world y) = (q1, h, nd1, w1)"
    by (cases "bi_drain RightSide (bo_right bo) (bo_flush bo) recvr (by_right y) ?nd (by_world y)") auto
  have "q1 \<noteq> Err Closed" using d
    by (auto simp: bi_drain_def Let_def feed_drain_not_closed [OF flush_open] split: prod.splits result.splits)
  with p q Running d have q1: "q1 = Ok ()"
    by (cases q1) (auto simp: bi_input_poll_def unwoken_def Let_def)
  have st: "bs_state ?nd = Running" using Running by (simp add: unwoken_def)
  have V: "(\<forall>g i. received g w1 i = received g (by_world y) i) \<and> takenl w1 = takenl (by_world y) \<and>
      availl w1 = availl (by_world y)"
    using bi_drain_view [where V = "\<lambda>w. (\<lambda>g i. received g w i, takenl w, availl w)", OF _ d] recvr_frame
    by (simp add: fun_eq_iff)
  from rt.bi_drain_cases [OF d [unfolded q1] st, of "bo_next bo" "bo_poll bo"] obtain ms acc where
    a: "takenr w1 = takenr (by_world y) @ ms" "held_list (by_right y) @ ms = acc @ held_list h"
      "bi_conducts (bs_routine (by_node y)) Running (from_right acc) [] (bs_routine nd1) (bs_state nd1)"
      "bs_output nd1 = bs_output (by_node y)" "bs_woken (by_node y) - {BInput RightSide} \<subseteq> bs_woken nd1"
      "bs_state nd1 = Running \<and> bs_open nd1 RightSide \<and> availr w1 \<longrightarrow> h \<noteq> None \<or> BInput RightSide \<in> bs_woken nd1"
      "bs_state nd1 = Running \<or> BWork \<in> bs_woken nd1"
      "bs_state nd1 = CloseReady \<longrightarrow> BOutput \<in> bs_woken nd1 \<and> BInput LeftSide \<in> bs_woken nd1"
      "bs_state nd1 \<in> {Running, CloseReady} \<or> (\<exists>s. bs_state nd1 = Flushing s \<or> bs_state nd1 = MarkerReady s)"
      "bs_state nd1 = CloseReady \<longrightarrow> \<not> bs_open nd1 RightSide \<and> \<not> bs_open nd1 LeftSide"
      "bs_open (by_node y) RightSide \<longrightarrow> bs_open nd1 RightSide \<or> bs_open (by_node y) LeftSide \<or> bs_state nd1 = CloseReady"
      "bs_open nd1 LeftSide = bs_open (by_node y) LeftSide"
    by (auto simp: unwoken_def from_right_def)
  let ?y = "y\<lparr>by_node := nd1, by_right := h, by_world := w1, by_asked := by_asked y \<and> bs_state nd1 = Running\<rparr>"
  have y': "y' = (if bs_state nd1 = CloseReady then ?y\<lparr>by_ended := insert (BInput RightSide) (by_ended y)\<rparr> else ?y)"
    using p Running d q1 st by (auto simp: bi_input_poll_def unwoken_def Let_def bi_note_end_def)
  have okay: "ok (bs_output (by_node y))" using g Running by (auto simp: bi_good_def)
  have mv: "bi_moves y y' [] acc (from_right acc) []"
    using a(1-4) V okay Running y' by (auto simp: bi_moves_def)
  have gd: "by_ended y = {}" "bs_open (by_node y) RightSide \<or> bs_open (by_node y) LeftSide"
    "bs_open (by_node y) LeftSide \<and> availl (by_world y) \<longrightarrow> by_left y \<noteq> None \<or> BInput LeftSide \<in> bs_woken (by_node y)"
    using g Running by (auto simp: bi_good_def bi_ends_def bi_attended_def Let_def)
  have "bi_ends y'"
    using a(10-12) gd y' by (auto simp: bi_ends_def Let_def)
  moreover have "bi_attended ro availl availr y'"
  proof -
    from a(9) consider "bs_state nd1 = Running" | "bs_state nd1 = CloseReady"
      | s where "bs_state nd1 = Flushing s" | s where "bs_state nd1 = MarkerReady s" by auto
    then show ?thesis
    proof cases
      case 1
      then show ?thesis using a(5,6,12) gd(3) V y' by (simp add: bi_attended_def) blast
    qed (use a(7,8) y' in \<open>simp_all add: bi_attended_def\<close>)
  qed
  moreover have "\<exists>al ar acc os. bi_moves y y' al ar acc os" using mv by blast
  moreover have "ok (bs_output (by_node y'))" using okay a(4) y' by auto
  ultimately show ?thesis using Running by (simp add: bi_step_ok_def bi_good_def)
next
  case CloseReady
  with p have "y' = y\<lparr>by_node := unwoken (BInput RightSide) y, by_asked := by_asked y, by_ended := insert (BInput RightSide) (by_ended y)\<rparr>"
    by (auto simp: bi_input_poll_def unwoken_def Let_def bi_note_end_def)
  with CloseReady g show ?thesis
    by (auto simp: bi_step_ok_def bi_good_def bi_attended_def bi_ends_def bi_moves_def unwoken_def Let_def
        intro!: exI [of _ "[]"] conducts.stop)
next
  case NClosed
  with p have "y' = y\<lparr>by_node := unwoken (BInput RightSide) y, by_asked := by_asked y, by_ended := insert (BInput RightSide) (by_ended y)\<rparr>"
    by (auto simp: bi_input_poll_def unwoken_def Let_def bi_note_end_def)
  with NClosed g show ?thesis
    by (auto simp: bi_step_ok_def bi_good_def bi_attended_def bi_ends_def unwoken_def Let_def)
qed (use p g in \<open>auto simp: bi_input_poll_def unwoken_def Let_def bi_note_end_def bi_step_ok_def bi_good_def
    bi_attended_def bi_ends_def bi_moves_def intro!: exI [of _ "[]"] conducts.stop\<close>)


lemma bi_work_ok:
  assumes p: "poll_bi_phase bo ro recvl recvr BWork y = (q, y')" and q: "is_ok q \<or> q = Err Closed"
    and e: "BWork \<notin> by_ended y" and g: "bi_good y"
  shows "bi_step_ok y y'"
proof -
  let ?d = "\<lparr>dr_routine = bs_routine (by_node y), dr_output = BOutput, dr_state = bs_state (by_node y),
      dr_woken = bs_woken (by_node y) - {BWork}\<rparr>"
  obtain q1 d where d: "drive_poll (bo_poll bo) ?d = (q1, d)" by (cases "drive_poll (bo_poll bo) ?d") auto
  let ?n1 = "(unwoken BWork y)\<lparr>bs_routine := dr_routine d, bs_state := dr_state d, bs_woken := dr_woken d\<rparr>"
  from p d have y': "q = q1" "y' = bi_note_end BWork q1 (y\<lparr>by_node := ?n1, by_asked := True\<rparr>)"
    by (auto simp: bi_work_poll_def unwoken_def)
  show ?thesis
  proof (cases q1)
    case (Err x)
    with q y' have "q1 = Err Closed" by simp
    with d have "drive_poll (bo_poll bo) ?d = (Err Closed, d)" by simp
    from drive_poll_Err_Closed [OF this] have "bs_state (by_node y) = NClosed \<or> bs_state (by_node y) = CloseReady"
      and "d = ?d" by auto
    with y' Err g show ?thesis
      by (auto simp: bi_note_end_def bi_step_ok_def bi_good_def bi_attended_def bi_ends_def Let_def
          unwoken_def bi_moves_def intro!: exI [of _ "[]"] conducts.stop)
  next
    case (Ok v)
    from drive_poll_conducts [OF d [unfolded Ok], of "bi_send bo" "bo_next bo" "bo_flush bo"]
    have a: "bi_conducts (bs_routine (by_node y)) (bs_state (by_node y)) [] [] (dr_routine d) (dr_state d)"
        "bs_woken (by_node y) - {BWork} \<subseteq> dr_woken d"
        "\<forall>s. (dr_state d = FlushReady s \<and> bs_state (by_node y) \<noteq> dr_state d) \<or> dr_state d = MarkerReady s \<longrightarrow>
           BOutput \<in> dr_woken d"
        "dr_state d = bs_state (by_node y) \<or> (\<exists>s. bs_state (by_node y) = Flushing s \<and> dr_state d = FlushReady s)"
      by auto
    have n: "bs_state (by_node y) \<noteq> NClosed" "bs_state (by_node y) \<noteq> CloseReady"
      using d Ok by (auto simp: drive_poll_def)
    have okay: "ok (bs_output (by_node y))" using g n by (simp add: bi_good_def)
    have y1: "y' = y\<lparr>by_node := ?n1, by_asked := True\<rparr>" using y' Ok by (simp add: bi_note_end_def)
    have mv: "bi_moves y y' [] [] [] []" using a(1) okay y1 by (simp add: bi_moves_def unwoken_def)
    have "bi_ends y'"
      using g n y1 a(4) by (auto simp: bi_good_def bi_ends_def unwoken_def Let_def)
    moreover have "bi_attended ro availl availr y'"
    proof (cases "dr_state d = bs_state (by_node y)")
      case True
      with g n a(2,3) y1 show ?thesis
        by (cases "bs_state (by_node y)") (auto simp: bi_good_def bi_attended_def unwoken_def Let_def)
    next
      case False
      with a(3,4) y1 show ?thesis by (auto simp: bi_attended_def Let_def)
    qed
    moreover have "\<exists>al ar acc os. bi_moves y y' al ar acc os" using mv by blast
    ultimately show ?thesis using okay n y1 by (simp add: bi_step_ok_def bi_good_def unwoken_def)
  qed
qed

lemma bi_output_ok:
  assumes p: "poll_bi_phase bo ro recvl recvr BOutput y = (q, y')" and q: "is_ok q \<or> q = Err Closed"
    and e: "BOutput \<notin> by_ended y" and g: "bi_good y"
  shows "bi_step_ok y y'"
proof -
  let ?nd = "unwoken BOutput y"
  obtain q1 em w1 where d: "emit_poll (bo_next bo) ro (bi_emit ?nd) (by_world y) = (q1, em, w1)"
    by (cases "emit_poll (bo_next bo) ro (bi_emit ?nd) (by_world y)") auto
  let ?n1 = "?nd\<lparr>bs_routine := em_routine em, bs_output := em_output em, bs_state := em_state em, bs_woken := em_woken em\<rparr>"
  from p d have y': "q = q1" "y' = bi_note_end BOutput q1 (y\<lparr>by_node := ?n1, by_world := w1\<rparr>)"
    by (auto simp: bi_output_poll_def)
  show ?thesis
  proof (cases q1)
    case (Err x)
    from emit_poll_Err [OF d [unfolded Err]]
    have "em_state em = NClosed" "BInput LeftSide \<in> em_woken em" "BInput RightSide \<in> em_woken em" "BWork \<in> em_woken em"
      by (auto simp: bi_emit_def)
    with y' Err show ?thesis
      by (auto simp: bi_note_end_def bi_step_ok_def bi_good_def bi_attended_def bi_ends_def Let_def)
  next
    case (Ok v)
    have nc: "bs_state (by_node y) \<noteq> NClosed" using g e by (auto simp: bi_good_def bi_attended_def Let_def)
    with g have okay: "ok (bs_output (by_node y))" by (simp add: bi_good_def)
    have "ok (em_output (bi_emit ?nd))" using okay by (simp add: bi_emit_def unwoken_def)
    from emit_poll_conducts [OF d [unfolded Ok] this, of "bi_send bo" "bo_flush bo" "bo_poll bo"] obtain os where
      a: "sends (bs_output (by_node y)) (by_world y) os (em_output em) w1" "emit_frame (bi_emit ?nd) em"
         "emit_attended (bi_emit ?nd) em"
         "bi_conducts (bs_routine (by_node y)) (bs_state (by_node y)) [] os (em_routine em) (em_state em)"
      by (auto simp: bi_emit_def unwoken_def)
    have y1: "y' = y\<lparr>by_node := ?n1, by_world := w1\<rparr>" using y' Ok by (simp add: bi_note_end_def)
    have view: "takenl w1 = takenl (by_world y)" "availl w1 = availl (by_world y)"
        "takenr w1 = takenr (by_world y)" "availr w1 = availr (by_world y)"
      using a(1) inputs_view [of w1 "by_world y"] by (auto simp: sends_def)
    have mv: "bi_moves y y' [] [] [] os"
      using a(1,4) view y1 by (auto simp: bi_moves_def sends_def)
    have w: "bs_woken (by_node y) - {BOutput} \<subseteq> em_woken em"
      using a(2) by (simp add: emit_frame_def bi_emit_def unwoken_def)
    have at: "case em_state em of
        Running \<Rightarrow> (case bs_state (by_node y) of Running \<Rightarrow> True
           | _ \<Rightarrow> BInput LeftSide \<in> em_woken em \<and> BInput RightSide \<in> em_woken em \<and> BWork \<in> em_woken em)
      | Flushing s \<Rightarrow> bs_state (by_node y) = Flushing s
      | FlushReady s \<Rightarrow> bs_state (by_node y) = FlushReady s \<and> (BOutput \<in> em_woken em \<or> ro_suspended ro (em_output em) \<noteq> None)
      | MarkerReady s \<Rightarrow> bs_state (by_node y) = MarkerReady s \<and> (BOutput \<in> em_woken em \<or> ro_suspended ro (em_output em) \<noteq> None)
      | Forwarding \<Rightarrow> ro_suspended ro (em_output em) \<noteq> None
      | CloseReady \<Rightarrow> bs_state (by_node y) = CloseReady \<and> BOutput \<in> em_woken em
      | NClosed \<Rightarrow> False"
      using a(3) by (simp add: emit_attended_def bi_emit_def unwoken_def cong: node_state.case_cong)
    have st: "em_state em \<noteq> NClosed" using at by auto
    have close: "em_state em = CloseReady \<longleftrightarrow> bs_state (by_node y) = CloseReady"
      using at emit_poll_close_stays [OF d [unfolded Ok]] by (auto simp: bi_emit_def unwoken_def)
    have "bi_attended ro availl availr y'"
    proof (cases "em_state em")
      case Running
      then show ?thesis using at g w view y1
        by (cases "bs_state (by_node y)") (auto simp: bi_good_def bi_attended_def unwoken_def Let_def)
    next
      case CloseReady
      with close have "bs_state (by_node y) = CloseReady" by simp
      with CloseReady at g w y1 show ?thesis by (auto simp: bi_good_def bi_attended_def Let_def)
    qed (use at g w view y1 in \<open>auto simp: bi_good_def bi_attended_def Let_def\<close>)
    moreover have "bi_ends y'" using g st close y1 nc by (auto simp: bi_good_def bi_ends_def unwoken_def Let_def)
    moreover have "ok (em_output em)" using a(1) by (simp add: sends_def)
    moreover have "\<exists>al ar acc os. bi_moves y y' al ar acc os" using mv by blast
    ultimately show ?thesis using nc y1 by (simp add: bi_step_ok_def bi_good_def)
  qed
qed

definition bi_elsewhere_ok :: "'w bi_event \<Rightarrow> bool" where
  "bi_elsewhere_ok ev \<longleftrightarrow>
     (case ev of
        BPolled p \<Rightarrow> True
      | BElsewhere g v \<Rightarrow>
          (\<forall>w. takenl (g w) = takenl w \<and> takenr (g w) = takenr w \<and>
               (\<forall>f i. received f (g w) i = received f w i) \<and>
               (availl (g w) \<longrightarrow> availl w \<or> BInput LeftSide \<in> v) \<and>
               (availr (g w) \<longrightarrow> availr w \<or> BInput RightSide \<in> v)))"

lemma bi_event_ok:
  assumes r: "bi_event_run bo ro recvl recvr ev y = Some y'" and g: "bi_good y" and ev: "bi_elsewhere_ok ev"
  shows "bi_step_ok y y'"
proof (cases ev)
  case (BElsewhere f v)
  with r have y': "y' = y\<lparr>by_world := f (by_world y), by_node := (by_node y)\<lparr>bs_woken := bs_woken (by_node y) \<union> v\<rparr>\<rparr>"
    by (simp add: bi_event_run_def)
  have mv: "bs_state (by_node y) \<noteq> NClosed \<Longrightarrow> bi_moves y y' [] [] [] []"
    using g ev BElsewhere y' by (auto simp: bi_moves_def bi_good_def bi_elsewhere_ok_def intro: conducts.stop)
  have "bi_attended ro availl availr y'"
    using g ev BElsewhere y'
    by (cases "bs_state (by_node y)") (auto simp: bi_good_def bi_attended_def bi_elsewhere_ok_def Let_def)
  moreover have "bi_ends y'" using g y' by (simp add: bi_good_def bi_ends_def Let_def)
  moreover have "bs_state (by_node y') = bs_state (by_node y)" "bs_output (by_node y') = bs_output (by_node y)"
    using y' by simp_all
  ultimately show ?thesis using mv g unfolding bi_step_ok_def bi_good_def by (metis (no_types))
next
  case (BPolled p)
  show ?thesis
  proof (cases "p \<in> by_ended y")
    case True
    with r BPolled have "y' = y" by (simp add: bi_event_run_def)
    with g show ?thesis using bi_moves_refl [of y] by (auto simp: bi_step_ok_def bi_good_def)
  next
    case False
    obtain q y1 where s: "poll_bi_phase bo ro recvl recvr p y = (q, y1)"
      by (cases "poll_bi_phase bo ro recvl recvr p y") auto
    with r BPolled False have "y' = y1" "is_ok q \<or> q = Err Closed"
      by (cases q; auto simp: bi_event_run_def split: if_splits)+
    show ?thesis
    proof (cases p)
      case (BInput sd)
      with s False g \<open>y' = y1\<close> \<open>is_ok q \<or> q = Err Closed\<close> show ?thesis
        by (cases sd) (auto intro: bi_left_ok bi_right_ok simp del: poll_bi_phase.simps)
    qed (use s False g \<open>y' = y1\<close> \<open>is_ok q \<or> q = Err Closed\<close> in
        \<open>auto intro: bi_work_ok bi_output_ok simp del: poll_bi_phase.simps\<close>)
  qed
qed

lemma bi_run_ok:
  assumes "bi_run bo ro recvl recvr evs y = Some y'" and "bi_good y" and "\<forall>ev\<in>set evs. bi_elsewhere_ok ev"
  shows "bi_good y' \<and> (bs_state (by_node y') = NClosed \<or>
      bs_state (by_node y) \<noteq> NClosed \<and> (\<exists>al ar acc os. bi_moves y y' al ar acc os))"
  using assms
proof (induction evs arbitrary: y)
  case Nil
  then show ?case using bi_moves_refl [of y] by (auto simp: bi_good_def)
next
  case (Cons ev evs)
  from Cons.prems obtain y1 where s: "bi_event_run bo ro recvl recvr ev y = Some y1"
      and r: "bi_run bo ro recvl recvr evs y1 = Some y'" by (auto split: option.splits)
  from bi_event_ok [OF s Cons.prems(2)] Cons.prems(3) have a: "bi_step_ok y y1" by simp
  then have "bi_good y1" by (simp add: bi_step_ok_def)
  from Cons.IH [OF r this] Cons.prems(3) a bi_moves_trans show ?case
    unfolding bi_step_ok_def by (metis list.set_intros(2))
qed

end
section \<open>Poll biunion nodes over sync edges\<close>

definition of_left :: "('l, 'm, 's) sided list \<Rightarrow> ('l, 's) message list" where
  "of_left xs = concat (map (case_sum (\<lambda>m. [m]) (\<lambda>_. [])) xs)"

definition of_right :: "('l, 'm, 's) sided list \<Rightarrow> ('m, 's) message list" where
  "of_right xs = concat (map (case_sum (\<lambda>_. []) (\<lambda>m. [m])) xs)"

lemma of_sides_append [simp]:
  "of_left (xs @ ys) = of_left xs @ of_left ys" "of_right (xs @ ys) = of_right xs @ of_right ys"
  "of_left (map Inl ms) = ms" "of_left (map Inr ns) = []" "of_right (map Inl ms) = []" "of_right (map Inr ns) = ns"
  "of_left [] = []" "of_right [] = []" "of_left [Inl m] = [m]" "of_left [Inr n] = []"
  "of_right [Inl m] = []" "of_right [Inr n] = [n]"
proof -
  show "of_left (map Inl ms) = ms" by (induction ms) (auto simp: of_left_def)
  show "of_right (map Inr ns) = ns" by (induction ns) (auto simp: of_right_def)
  show "of_left (map Inr ns) = []" by (induction ns) (auto simp: of_left_def)
  show "of_right (map Inl ms) = []" by (induction ms) (auto simp: of_right_def)
qed (simp_all add: of_left_def of_right_def)

definition left_recv ::
  "('l, 'm, 'o, 's) biunion_sys \<Rightarrow> ('l, 's) message option res \<times> ('l, 'm, 'o, 's) biunion_sys" where
  "left_recv w =
     (let (r, sh, _) = waking_try_recv (bw_left w)
      in (r, w\<lparr>bw_left := sh, bw_recv := bw_recv w @ map Inl (popped r)\<rparr>))"

definition right_recv ::
  "('l, 'm, 'o, 's) biunion_sys \<Rightarrow> ('m, 's) message option res \<times> ('l, 'm, 'o, 's) biunion_sys" where
  "right_recv w =
     (let (r, sh, _) = waking_try_recv (bw_right w)
      in (r, w\<lparr>bw_right := sh, bw_recv := bw_recv w @ map Inr (popped r)\<rparr>))"

definition edge_avail :: "('d, 's) shared \<Rightarrow> bool" where
  "edge_avail sh \<longleftrightarrow> i_buffer sh \<noteq> [] \<or> i_closed sh \<or> producer_count sh = 0"

definition honest_bi :: "('l, 'm, 'o, 'r) bi_ops \<Rightarrow> bool" where
  "honest_bi bo \<longleftrightarrow>
     (\<forall>x r y r1. bo_left bo x r = (Ok (AFull y), r1) \<longrightarrow> y = x) \<and>
     (\<forall>x r y r1. bo_right bo x r = (Ok (AFull y), r1) \<longrightarrow> y = x) \<and>
     (\<forall>r r1. bo_flush bo r \<noteq> (Err Closed, r1))"

abbreviation bi_output where
  "bi_output env others \<equiv> fanout_output (biunion_sink env others)"

lemma poll_biunion_sys:
  assumes "honest_bi bo"
  shows "poll_biunion bo left_recv (\<lambda>w. of_left (bw_recv w)) (\<lambda>w. edge_avail (bw_left w))
    right_recv (\<lambda>w. of_right (bw_recv w)) (\<lambda>w. edge_avail (bw_right w))
    (bi_output env others) fanout_lanes (\<lambda>f w i. sw_took (bw_out w) (f_edges f ! i)) fanout_due fanout_ok
    (\<lambda>w. (bw_recv w, bw_left w, bw_right w))"
proof -
  have fan: "rotator fanout_suspended (fanout_retry (biunion_sink env others)) (fanout_rotate (biunion_sink env others))
      fanout_lanes (\<lambda>f w i. sw_took (bw_out w) (f_edges f ! i)) fanout_due fanout_ok"
    using biunion_sys.fan.rotator_axioms [of env others] by (simp add: fanout_received_def [abs_def])
  show ?thesis
  proof (intro poll_biunion.intro feeding.intro emitting.intro emitting_axioms.intro poll_biunion_axioms.intro)
    show "rotator (ro_suspended (bi_output env others)) (ro_retry (bi_output env others))
        (ro_rotate (bi_output env others)) fanout_lanes
        (\<lambda>f w i. sw_took (bw_out w) (f_edges f ! i)) fanout_due fanout_ok"
      using fan by (simp add: fanout_output_def)
    have v: "(bw_recv w1, bw_left w1, bw_right w1) = (bw_recv w, bw_left w, bw_right w)"
      if "op_try_push (biunion_sink env others) e m w = (q, w1)" for e m w q w1
      using that by (auto simp: biunion_sink_def Let_def split: prod.splits)
    show "(bw_recv w1, bw_left w1, bw_right w1) = (bw_recv w, bw_left w, bw_right w)"
      if "ro_retry (bi_output env others) g w = (a, g1, w1)" for g w a g1 w1
      using fanout_retry_view [where V = "\<lambda>w. (bw_recv w, bw_left w, bw_right w)", OF v] that
      by (simp add: fanout_output_def)
    show "(bw_recv w1, bw_left w1, bw_right w1) = (bw_recv w, bw_left w, bw_right w)"
      if "ro_rotate (bi_output env others) m g w = (a, g1, w1)" for m g w a g1 w1
      using fanout_rotate_view [where V = "\<lambda>w. (bw_recv w, bw_left w, bw_right w)", OF v] that
      by (simp add: fanout_output_def)
    show "y = x" if "bo_right bo x r = (Ok (AFull y), r1)" for x y r r1
      using assms that unfolding honest_bi_def by blast
    show "y = x" if "bo_left bo x r = (Ok (AFull y), r1)" for x y r r1
      using assms that unfolding honest_bi_def by blast
    show "bo_flush bo r \<noteq> (Err Closed, r1)" for r r1
      using assms unfolding honest_bi_def by blast
  qed (auto simp: left_recv_def right_recv_def edge_avail_def waking_try_recv_def
      waking_poll_def Let_def split: prod.splits elim!: try_pop_cases)
qed

definition bi_around_ok :: "('l, 'm, 'o, 's) biunion_sys bi_event \<Rightarrow> bool" where
  "bi_around_ok ev \<longleftrightarrow>
     (case ev of
        BPolled p \<Rightarrow> True
      | BElsewhere g v \<Rightarrow>
          (\<forall>w. bw_recv (g w) = bw_recv w \<and> sw_took (bw_out (g w)) = sw_took (bw_out w) \<and>
               (edge_avail (bw_left (g w)) \<longrightarrow> edge_avail (bw_left w) \<or> BInput LeftSide \<in> v) \<and>
               (edge_avail (bw_right (g w)) \<longrightarrow> edge_avail (bw_right w) \<or> BInput RightSide \<in> v)))"

definition bi_start ::
  "(('o, 's) message, 'f, 'w) rotate_ops \<Rightarrow> 'r \<Rightarrow> 'f \<Rightarrow> waker \<Rightarrow> budget \<Rightarrow> 'w \<Rightarrow>
   ('l, 'm, 's, 'r, 'f, 'w) bi_sys" where
  "bi_start ro r out k bg w =
     (let (nd, w') = bi_phases r out k bg ro w
      in \<lparr>by_node = nd\<lparr>bs_woken := {BInput LeftSide, BInput RightSide, BWork, BOutput}\<rparr>,
          by_left = None, by_right = None, by_world = w', by_ended = {}, by_asked = False\<rparr>)"

lemma bi_schedule_frame:
  "bw_recv (schedule_all (biunion_sink env others) k es w) = bw_recv w \<and>
   sw_took (bw_out (schedule_all (biunion_sink env others) k es w)) = sw_took (bw_out w)"
  by (induction es arbitrary: w) (auto simp: biunion_sink_def sw_schedule_def)

lemma bi_start_fields:
  "by_node (bi_start (bi_output env others) r out k bg w) =
     \<lparr>bs_open = (\<lambda>_. True), bs_routine = r, bs_output = out, bs_state = Running, bs_budget = bg,
      bs_woken = {BInput LeftSide, BInput RightSide, BWork, BOutput}\<rparr>"
  "by_left (bi_start (bi_output env others) r out k bg w) = None"
  "by_right (bi_start (bi_output env others) r out k bg w) = None"
  "by_ended (bi_start (bi_output env others) r out k bg w) = {}"
  "bw_recv (by_world (bi_start (bi_output env others) r out k bg w)) = bw_recv w"
  "sw_took (bw_out (by_world (bi_start (bi_output env others) r out k bg w))) = sw_took (bw_out w)"
  by (simp_all add: bi_start_def bi_phases_def fanout_output_def fanout_schedule_def Let_def
      bi_schedule_frame)

lemma bi_run_biunion_sys:
  assumes h: "honest_bi bo" and out: "fanout_ok out" and ev: "\<forall>ev\<in>set evs. bi_around_ok ev"
    and run: "bi_run bo (bi_output env others) left_recv right_recv evs
                (bi_start (bi_output env others) r out k bg w) = Some y"
  shows "bi_attended (bi_output env others) (\<lambda>w. edge_avail (bw_left w)) (\<lambda>w. edge_avail (bw_right w)) y \<and>
    bi_ends y \<and>
    (bs_state (by_node y) = NClosed \<or>
     (\<exists>accl accr acc os. of_left (bw_recv (by_world y)) = of_left (bw_recv w) @ accl @ held_list (by_left y) \<and>
        of_right (bw_recv (by_world y)) = of_right (bw_recv w) @ accr @ held_list (by_right y) \<and>
        acc \<in> shuffles (from_left accl) (from_right accr) \<and>
        (\<forall>i < fanout_lanes out.
           sw_took (bw_out (by_world y)) (f_edges (bs_output (by_node y)) ! i) @ fanout_due (bs_output (by_node y)) i =
           (sw_took (bw_out w) (f_edges out ! i) @ fanout_due out i) @ os) \<and>
        conducts (bi_send bo) (bo_next bo) (bo_flush bo) (bo_poll bo) r Running acc os
          (bs_routine (by_node y)) (bs_state (by_node y))))"
proof -
  obtain y0 where y0: "y0 = bi_start (bi_output env others) r out k bg w"
    and run0: "bi_run bo (bi_output env others) left_recv right_recv evs y0 = Some y" using run by blast
  note L = poll_biunion_sys [OF h, of env others]
  have "poll_biunion.bi_good (\<lambda>w. edge_avail (bw_left w)) (\<lambda>w. edge_avail (bw_right w)) (bi_output env others) fanout_ok y \<and>
      (bs_state (by_node y) = NClosed \<or> bs_state (by_node y0) \<noteq> NClosed \<and>
       (\<exists>al ar acc os. poll_biunion.bi_moves bo (\<lambda>w. of_left (bw_recv w)) (\<lambda>w. of_right (bw_recv w)) fanout_lanes
          (\<lambda>f w i. sw_took (bw_out w) (f_edges f ! i)) fanout_due fanout_ok y0 y al ar acc os))"
    by (rule poll_biunion.bi_run_ok [OF L run0])
      (use out ev in \<open>auto simp: poll_biunion.bi_good_def [OF L] bi_ends_def
        poll_biunion.bi_elsewhere_ok_def [OF L] bi_attended_def bi_around_ok_def y0 bi_start_fields Let_def
        split: bi_event.splits\<close>)
  then show ?thesis
    by (auto simp: poll_biunion.bi_good_def [OF L] poll_biunion.bi_moves_def [OF L] y0 bi_start_fields)
qed

section \<open>Properties\<close>

text \<open>C8. A poll biunion node merges its two inputs through its routine. Over any order of phase polls and
  any interference, until it closes: each side's messages were handed to the routine in the order taken
  (up to one that side still holds), merged in some interleaving, and every output edge has got, or is
  owed, exactly what the routine produced from that merge; signals of both sides come out once each, in
  merge order, and nothing of either side is handed over between a signal and its emission.\<close>

theorem poll_biunion_merges_inputs:
  assumes h: "honest_bi bo" and out: "fanout_ok out" "f_suspended out = None"
    and ev: "\<forall>ev\<in>set evs. bi_around_ok ev"
    and run: "bi_run bo (bi_output env others) left_recv right_recv evs
                (bi_start (bi_output env others) r out k bg w) = Some y"
    and live: "bs_state (by_node y) \<noteq> NClosed"
  shows "\<exists>accl accr acc os. of_left (bw_recv (by_world y)) = of_left (bw_recv w) @ accl @ held_list (by_left y) \<and>
        of_right (bw_recv (by_world y)) = of_right (bw_recv w) @ accr @ held_list (by_right y) \<and>
        acc \<in> shuffles (from_left accl) (from_right accr) \<and>
        (\<forall>i < length (f_edges out).
           sw_took (bw_out (by_world y)) (f_edges (bs_output (by_node y)) ! i) @ fanout_due (bs_output (by_node y)) i =
           sw_took (bw_out w) (f_edges out ! i) @ os) \<and>
        conducts (bi_send bo) (bo_next bo) (bo_flush bo) (bo_poll bo) r Running acc os
          (bs_routine (by_node y)) (bs_state (by_node y)) \<and>
        signals os @ in_flight (bs_state (by_node y)) = concat (map signal_of acc)"
proof -
  have due: "fanout_due out i = []" for i using out(2) by (simp add: fanout_due_def)
  from bi_run_biunion_sys [OF h out(1) ev run] live obtain accl accr acc os where
    a: "of_left (bw_recv (by_world y)) = of_left (bw_recv w) @ accl @ held_list (by_left y)"
      "of_right (bw_recv (by_world y)) = of_right (bw_recv w) @ accr @ held_list (by_right y)"
      "acc \<in> shuffles (from_left accl) (from_right accr)"
      "\<forall>i < fanout_lanes out.
           sw_took (bw_out (by_world y)) (f_edges (bs_output (by_node y)) ! i) @ fanout_due (bs_output (by_node y)) i =
           (sw_took (bw_out w) (f_edges out ! i) @ fanout_due out i) @ os"
      "conducts (bi_send bo) (bo_next bo) (bo_flush bo) (bo_poll bo) r Running acc os
          (bs_routine (by_node y)) (bs_state (by_node y))" by blast
  from conducts_signals [OF a(5)] a due show ?thesis
    by (intro exI conjI) (auto simp: fanout_lanes_def)
qed

text \<open>C9. A poll biunion node ends with its last input, and never stalls. In every reachable state: it
  closes by itself only when both inputs have closed, no phase ends before the node is closing, and
  whatever can happen next (of either side, of a signal under way, of the close) has a woken phase or is
  owed a wake by the routine or by the refusing edge.\<close>

theorem poll_biunion_ends_with_last_input:
  assumes h: "honest_bi bo" and out: "fanout_ok out"
    and ev: "\<forall>ev\<in>set evs. bi_around_ok ev"
    and run: "bi_run bo (bi_output env others) left_recv right_recv evs
                (bi_start (bi_output env others) r out k bg w) = Some y"
  shows "bi_ends y \<and> (bs_state (by_node y) = CloseReady \<longrightarrow> \<not> bs_open (by_node y) LeftSide \<and> \<not> bs_open (by_node y) RightSide) \<and>
         bi_attended (bi_output env others) (\<lambda>w. edge_avail (bw_left w)) (\<lambda>w. edge_avail (bw_right w)) y"
  using bi_run_biunion_sys [OF h out ev run] by (simp add: bi_ends_def Let_def)

text \<open>A routine that adds 1 to the left, 2 to the right and finishes a flush at its next poll.\<close>

definition add_sides :: "(nat, nat, nat, nat list \<times> bool) bi_ops" where
  "add_sides =
     \<lparr>bo_left = (\<lambda>x r. (Ok Accepted, (fst r @ [x + 1], snd r))),
      bo_right = (\<lambda>x r. (Ok Accepted, (fst r @ [x + 2], snd r))),
      bo_next = (\<lambda>r. case fst r of [] \<Rightarrow> (Ok None, r) | y # ys \<Rightarrow> (Ok (Some y), (ys, snd r))),
      bo_flush = (\<lambda>r. (Ok (), (fst r, True))),
      bo_poll = (\<lambda>r. if snd r then (Ok (PReady ()), (fst r, False)) else (Ok Pending, r))\<rparr>"

lemma honest_add_sides: "honest_bi add_sides"
  by (simp add: honest_bi_def add_sides_def)

definition one_biunion :: "(nat, nat, nat, nat) biunion_sys" where
  "one_biunion =
     \<lparr>bw_left = (with_bound None)\<lparr>i_buffer := [Data 5], i_closed := True\<rparr>,
      bw_right = (with_bound None)\<lparr>producer_count := 1, i_buffer := [Data 8, Marker 3]\<rparr>, bw_recv = [],
      bw_out = nw_out one_line\<rparr>"

definition one_biunion_run ::
  "bi_phase list \<Rightarrow> (nat, nat, nat, nat list \<times> bool, (nat \<times> nat, (nat, nat) message) fanout, (nat, nat, nat, nat) biunion_sys) bi_sys option" where
  "one_biunion_run ps =
     bi_run add_sides (bi_output (\<lambda>w. None) id) left_recv right_recv (map BPolled ps)
       (bi_start (bi_output (\<lambda>w. None) id) ([], False) one_edge 3 budget_default one_biunion)"

definition one_biunion_order :: "bi_phase list" where
  "one_biunion_order = [BInput RightSide, BWork, BOutput, BInput LeftSide, BOutput]"

lemma one_biunion_merged:
  "case one_biunion_run one_biunion_order of
     None \<Rightarrow> False
   | Some y \<Rightarrow> bs_state (by_node y) = Running \<and> of_left (bw_recv (by_world y)) = [Data 5] \<and>
       of_right (bw_recv (by_world y)) = [Data 8, Marker 3] \<and> by_left y = None \<and> by_right y = None \<and>
       f_edges (bs_output (by_node y)) = [(0, 0)] \<and> f_suspended (bs_output (by_node y)) = None \<and>
       sw_took (bw_out (by_world y)) (0, 0) = [Data 10, Marker 3, Data 6] \<and>
       \<not> bs_open (by_node y) LeftSide"
  by code_simp

theorem poll_biunion_merges_inputs_witness:
  "\<exists>y acc. one_biunion_run one_biunion_order = Some y \<and>
       acc \<in> shuffles (from_left [Data 5]) (from_right [Data 8, Marker 3]) \<and>
       conducts (bi_send add_sides) (bo_next add_sides) (bo_flush add_sides) (bo_poll add_sides) ([], False) Running
         acc [Data 10, Marker 3, Data 6] (bs_routine (by_node y)) (bs_state (by_node y))"
proof -
  from one_biunion_merged obtain y where y: "one_biunion_run one_biunion_order = Some y"
      "bs_state (by_node y) = Running" "of_left (bw_recv (by_world y)) = [Data 5]"
      "of_right (bw_recv (by_world y)) = [Data 8, Marker 3]" "by_left y = None" "by_right y = None"
      "f_edges (bs_output (by_node y)) = [(0, 0)]" "f_suspended (bs_output (by_node y)) = None"
      "sw_took (bw_out (by_world y)) (0, 0) = [Data 10, Marker 3, Data 6]"
    by (auto split: option.splits)
  have e: "fanout_ok one_edge" "f_suspended one_edge = None" by (simp_all add: one_edge_def fanout_ok_def)
  have ev: "\<forall>ev\<in>set (map BPolled one_biunion_order). bi_around_ok ev" by (simp add: bi_around_ok_def)
  have live: "bs_state (by_node y) \<noteq> NClosed" using y(2) by simp
  obtain accl accr acc os where
    "of_left (bw_recv (by_world y)) = of_left (bw_recv one_biunion) @ accl @ held_list (by_left y)"
    "of_right (bw_recv (by_world y)) = of_right (bw_recv one_biunion) @ accr @ held_list (by_right y)"
    "acc \<in> shuffles (from_left accl) (from_right accr)"
    "\<forall>i < length (f_edges one_edge).
       sw_took (bw_out (by_world y)) (f_edges (bs_output (by_node y)) ! i) @ fanout_due (bs_output (by_node y)) i =
       sw_took (bw_out one_biunion) (f_edges one_edge ! i) @ os"
    "conducts (bi_send add_sides) (bo_next add_sides) (bo_flush add_sides) (bo_poll add_sides) ([], False) Running acc os
       (bs_routine (by_node y)) (bs_state (by_node y))"
    using poll_biunion_merges_inputs [OF honest_add_sides e ev y(1) [unfolded one_biunion_run_def] live] by blast
  with y show ?thesis by (auto simp: one_biunion_def one_line_def one_edge_def fanout_due_def)
qed

text \<open>The left input has closed; the node runs on.\<close>

theorem poll_biunion_ends_with_last_input_witness:
  "\<exists>y. one_biunion_run one_biunion_order = Some y \<and> bi_ends y \<and> \<not> bs_open (by_node y) LeftSide \<and>
       bs_state (by_node y) = Running \<and> bs_open (by_node y) RightSide"
proof -
  from one_biunion_merged obtain y where y: "one_biunion_run one_biunion_order = Some y"
      "bs_state (by_node y) = Running" "\<not> bs_open (by_node y) LeftSide"
    by (auto split: option.splits)
  have "fanout_ok one_edge" by (simp add: one_edge_def fanout_ok_def)
  moreover have "\<forall>ev\<in>set (map BPolled one_biunion_order). bi_around_ok ev" by (simp add: bi_around_ok_def)
  ultimately have "bi_ends y"
    using poll_biunion_ends_with_last_input [OF honest_add_sides _ _ y(1) [unfolded one_biunion_run_def]] by blast
  with y show ?thesis by (auto simp: bi_ends_def Let_def)
qed

end
