(* ===== verification/Biunion_Future.thy ===== *)
theory Biunion_Future
  imports Future_Routine Poll_Biunion
begin

text \<open>
  The async routine of a poll biunion (src/node/biunion/poll/future.rs): two input queues, one output
  queue, and a future per segment, which ends once both sides' Flushes were received. Each side with
  the output is a line routine's queues (\<open>left_half\<close>, \<open>right_half\<close>), so what holds of those holds here.
\<close>

section \<open>The queues\<close>

datatype ('l, 'm, 'o) bq_event = GotLeft "'l item" | GotRight "'m item" | BSent 'o | BEnded

record ('l, 'm, 'o) bi_queues =
  bq_left :: "'l inq"
  bq_right :: "'m inq"
  bq_old_left :: "'l inq list"
  bq_old_right :: "'m inq list"
  bq_output :: "'o outq"
  bq_wakes :: "(side + wake) list"
  bq_log :: "('l, 'm, 'o) bq_event list"

definition bi_queues_new :: "bound \<Rightarrow> ('l, 'm, 'o) bi_queues" where
  "bi_queues_new b =
     \<lparr>bq_left = inq_new b, bq_right = inq_new b, bq_old_left = [], bq_old_right = [],
      bq_output = outq_new b, bq_wakes = [], bq_log = []\<rparr>"

text \<open>A wake of Input is of the side whose queue refused.\<close>

fun side_wake :: "side \<Rightarrow> wake \<Rightarrow> side + wake" where
  "side_wake sd WakeInput = Inl sd"
| "side_wake sd w = Inr w"

fun got_left :: "'l item res poll \<Rightarrow> ('l, 'm, 'o) bq_event list" where
  "got_left (PReady (Ok it)) = [GotLeft it]"
| "got_left _ = []"

fun got_right :: "'m item res poll \<Rightarrow> ('l, 'm, 'o) bq_event list" where
  "got_right (PReady (Ok it)) = [GotRight it]"
| "got_right _ = []"

fun map_item :: "('a \<Rightarrow> 'b) \<Rightarrow> 'a item res poll \<Rightarrow> 'b item res poll" where
  "map_item g (PReady (Ok (IData x))) = PReady (Ok (IData (g x)))"
| "map_item g (PReady (Ok IFlush)) = PReady (Ok IFlush)"
| "map_item g (PReady (Err e)) = PReady (Err e)"
| "map_item g Pending = Pending"

text \<open>A receiver is a side, and of the segment under way or of an earlier one.\<close>

fun bq_recv ::
  "waker \<Rightarrow> side \<times> nat option \<Rightarrow> waker \<Rightarrow> ('l, 'm, 'o) bi_queues \<Rightarrow>
   ('l + 'm) item res poll \<times> ('l, 'm, 'o) bi_queues" where
  "bq_recv home (LeftSide, None) k q =
     (let (a, iq, ws) = inq_recv k home (bq_left q)
      in (map_item Inl a, q\<lparr>bq_left := iq, bq_wakes := bq_wakes q @ map (side_wake LeftSide) ws,
                            bq_log := bq_log q @ got_left a\<rparr>))"
| "bq_recv home (RightSide, None) k q =
     (let (a, iq, ws) = inq_recv k home (bq_right q)
      in (map_item Inr a, q\<lparr>bq_right := iq, bq_wakes := bq_wakes q @ map (side_wake RightSide) ws,
                            bq_log := bq_log q @ got_right a\<rparr>))"
| "bq_recv home (LeftSide, Some j) k q =
     (if j < length (bq_old_left q)
      then (let (a, iq, ws) = inq_recv k home (bq_old_left q ! j)
            in (map_item Inl a, q\<lparr>bq_old_left := (bq_old_left q)[j := iq],
                                  bq_wakes := bq_wakes q @ map (side_wake LeftSide) ws\<rparr>))
      else (PReady (Err Closed), q))"
| "bq_recv home (RightSide, Some j) k q =
     (if j < length (bq_old_right q)
      then (let (a, iq, ws) = inq_recv k home (bq_old_right q ! j)
            in (map_item Inr a, q\<lparr>bq_old_right := (bq_old_right q)[j := iq],
                                  bq_wakes := bq_wakes q @ map (side_wake RightSide) ws\<rparr>))
      else (PReady (Err Closed), q))"

definition bq_send ::
  "waker \<Rightarrow> waker \<Rightarrow> 'o option \<Rightarrow> ('l, 'm, 'o) bi_queues \<Rightarrow>
   (unit res poll \<times> 'o option) \<times> ('l, 'm, 'o) bi_queues" where
  "bq_send home k y q =
     (let (a, oq, ws) = outq_send k home y (bq_output q)
      in (a, q\<lparr>bq_output := oq, bq_wakes := bq_wakes q @ map Inr ws,
               bq_log := bq_log q @ (case y of Some v \<Rightarrow> if fst a = PReady (Ok ()) then [BSent v] else [] | None \<Rightarrow> [])\<rparr>))"

definition bq_try_send :: "'o \<Rightarrow> ('l, 'm, 'o) bi_queues \<Rightarrow> 'o accept res \<times> ('l, 'm, 'o) bi_queues" where
  "bq_try_send y q =
     (let (a, oq, ws) = outq_try_send y (bq_output q)
      in (a, q\<lparr>bq_output := oq, bq_wakes := bq_wakes q @ map Inr ws,
               bq_log := bq_log q @ (if a = Ok Accepted then [BSent y] else [])\<rparr>))"

definition bi_queue_ops :: "waker \<Rightarrow> (side \<times> nat option, 'l + 'm, 'o, ('l, 'm, 'o) bi_queues) queue_ops" where
  "bi_queue_ops home = \<lparr>qo_recv = bq_recv home, qo_send = bq_send home, qo_try_send = bq_try_send\<rparr>"

section \<open>The routine\<close>

record ('g, 'f, 'l, 'm, 'o) bi_user_code =
  bc_make :: "'g \<Rightarrow> 'f \<times> 'g"
  bc_poll :: "'f \<Rightarrow> (side \<times> nat option, 'l + 'm, 'o, 'f) fut"
  bc_kept :: "side \<Rightarrow> 'f \<Rightarrow> bool"

record ('l, 'm, 'o, 'g, 'f) bi_future_routine =
  br_queues :: "('l, 'm, 'o) bi_queues"
  br_factory :: 'g
  br_future :: "'f option"

definition br_new :: "bound \<Rightarrow> 'g \<Rightarrow> ('l, 'm, 'o, 'g, 'f) bi_future_routine" where
  "br_new b g = \<lparr>br_queues = bi_queues_new b, br_factory = g, br_future = None\<rparr>"

definition br_factory_of :: "'g \<Rightarrow> 'g routine_factory" where
  "br_factory_of g = \<lparr>rf_factory = g, rf_bound = None\<rparr>"

definition br_bounded :: "bound \<Rightarrow> 'g routine_factory \<Rightarrow> 'g routine_factory" where
  "br_bounded b fa = fa\<lparr>rf_bound := b\<rparr>"

definition br_create :: "'g routine_factory \<Rightarrow> ('l, 'm, 'o, 'g, 'f) bi_future_routine" where
  "br_create fa = br_new (rf_bound fa) (rf_factory fa)"

definition br_try_send_left :: "('l, ('l, 'm, 'o, 'g, 'f) bi_future_routine) send_op" where
  "br_try_send_left x r =
     (let q = br_queues r; (a, iq, ws) = inq_try_send x (bq_left q)
      in (a, r\<lparr>br_queues := q\<lparr>bq_left := iq, bq_wakes := bq_wakes q @ map (side_wake LeftSide) ws\<rparr>\<rparr>))"

definition br_try_send_right :: "('m, ('l, 'm, 'o, 'g, 'f) bi_future_routine) send_op" where
  "br_try_send_right x r =
     (let q = br_queues r; (a, iq, ws) = inq_try_send x (bq_right q)
      in (a, r\<lparr>br_queues := q\<lparr>bq_right := iq, bq_wakes := bq_wakes q @ map (side_wake RightSide) ws\<rparr>\<rparr>))"

definition br_next :: "('o, ('l, 'm, 'o, 'g, 'f) bi_future_routine) next_op" where
  "br_next r =
     (let q = br_queues r; (a, oq, ws) = outq_pop (bq_output q)
      in (a, r\<lparr>br_queues := q\<lparr>bq_output := oq, bq_wakes := bq_wakes q @ map Inr ws\<rparr>\<rparr>))"

definition br_flush :: "('l, 'm, 'o, 'g, 'f) bi_future_routine flush_op" where
  "br_flush r =
     (let q = br_queues r; (a, l, ws) = inq_flush (bq_left q);
          q1 = q\<lparr>bq_left := l, bq_wakes := bq_wakes q @ map (side_wake LeftSide) ws\<rparr>
      in case a of
           Err e \<Rightarrow> (Err e, r\<lparr>br_queues := q1\<rparr>)
         | Ok _ \<Rightarrow>
             (let (a2, rt, ws2) = inq_flush (bq_right q1)
              in (a2, r\<lparr>br_queues := q1\<lparr>bq_right := rt,
                                          bq_wakes := bq_wakes q1 @ map (side_wake RightSide) ws2\<rparr>\<rparr>)))"

definition br_poll ::
  "('g, 'f, 'l, 'm, 'o) bi_user_code \<Rightarrow> waker \<Rightarrow> ('l, 'm, 'o, 'g, 'f) bi_future_routine rpoll_op" where
  "br_poll uc home r =
     (let (f0, g) = (case br_future r of Some f \<Rightarrow> (f, br_factory r) | None \<Rightarrow> bc_make uc (br_factory r));
          ((a, f1), q) = run_fut (bi_queue_ops home) (bc_poll uc f0) (br_queues r);
          r1 = \<lparr>br_queues = q, br_factory = g, br_future = Some f1\<rparr>
      in case a of
           Pending \<Rightarrow> (Ok Pending, r1)
         | PReady (Err e) \<Rightarrow> (Err e, r1)
         | PReady (Ok _) \<Rightarrow>
             (let r2 = r1\<lparr>br_future := None\<rparr>
              in case inq_renew (bc_kept uc LeftSide f1) (bq_left q) of
                   Err e \<Rightarrow> (Err e, r2)
                 | Ok (l, oldl) \<Rightarrow>
                     (let q1 = q\<lparr>bq_left := l, bq_old_left := bq_old_left q @ oldl\<rparr>
                      in case inq_renew (bc_kept uc RightSide f1) (bq_right q1) of
                           Err e \<Rightarrow> (Err e, r2\<lparr>br_queues := q1\<rparr>)
                         | Ok (rt, oldr) \<Rightarrow>
                             (Ok (PReady ()),
                              r2\<lparr>br_queues := q1\<lparr>bq_right := rt, bq_old_right := bq_old_right q1 @ oldr,
                                                  bq_log := bq_log q1 @ [BEnded]\<rparr>\<rparr>))))"

definition bi_future_ops ::
  "('g, 'f, 'l, 'm, 'o) bi_user_code \<Rightarrow> waker \<Rightarrow> ('l, 'm, 'o, ('l, 'm, 'o, 'g, 'f) bi_future_routine) bi_ops" where
  "bi_future_ops uc home =
     \<lparr>bo_left = br_try_send_left, bo_right = br_try_send_right, bo_next = br_next, bo_flush = br_flush,
      bo_poll = br_poll uc home\<rparr>"

section \<open>Each side is a line routine's queues\<close>

fun left_event :: "('l, 'm, 'o) bq_event \<Rightarrow> ('l, 'o) fr_event list" where
  "left_event (GotLeft it) = [Got it]"
| "left_event (GotRight it) = []"
| "left_event (BSent y) = [Sent y]"
| "left_event BEnded = [Ended]"

fun right_event :: "('l, 'm, 'o) bq_event \<Rightarrow> ('m, 'o) fr_event list" where
  "right_event (GotLeft it) = []"
| "right_event (GotRight it) = [Got it]"
| "right_event (BSent y) = [Sent y]"
| "right_event BEnded = [Ended]"

definition left_half :: "('l, 'm, 'o) bi_queues \<Rightarrow> ('l, 'o) fr_queues" where
  "left_half q =
     \<lparr>fq_input = bq_left q, fq_old = bq_old_left q, fq_output = bq_output q, fq_wakes = [],
      fq_log = concat (map left_event (bq_log q))\<rparr>"

definition right_half :: "('l, 'm, 'o) bi_queues \<Rightarrow> ('m, 'o) fr_queues" where
  "right_half q =
     \<lparr>fq_input = bq_right q, fq_old = bq_old_right q, fq_output = bq_output q, fq_wakes = [],
      fq_log = concat (map right_event (bq_log q))\<rparr>"

lemma fq_flow_wakes [simp]: "fq_flow v (q\<lparr>fq_wakes := ws\<rparr>) ins outs due = fq_flow v q ins outs due"
  by (simp add: fq_flow_def)

lemma got_events [simp]:
  "concat (map left_event (got_left a)) = got_now a" "concat (map left_event (got_right b)) = []"
  "concat (map right_event (got_left a)) = []" "concat (map right_event (got_right b)) = got_now b"
  by (cases a rule: got_now.cases; cases b rule: got_now.cases; simp)+

text \<open>A step that does to a half what a line routine's step does.\<close>

definition like :: "('i, 'o) fr_queues \<Rightarrow> ('i, 'o) fr_queues \<Rightarrow> bool" where
  "like q q' \<longleftrightarrow> q\<lparr>fq_wakes := []\<rparr> = q'\<lparr>fq_wakes := []\<rparr>"

lemma like_flow: "like q q' \<Longrightarrow> fq_flow v q ins outs due \<longleftrightarrow> fq_flow v q' ins outs due"
  by (metis fq_flow_wakes like_def)

lemma like_output: "like q q' \<Longrightarrow> fq_output q = fq_output q'"
  unfolding like_def by (metis fr_queues.select_convs(3) fr_queues.update_convs(4) fr_queues.surjective)

lemma like_refl [simp]: "like q q"
  by (simp add: like_def)

lemma bq_recv_left:
  assumes "bq_recv home (LeftSide, c) k q = (a, q')"
  shows "like (left_half q') (snd (fq_recv home c k (left_half q)))" "right_half q' = right_half q"
  using assms by (cases c; auto simp: left_half_def right_half_def fq_recv_def like_def Let_def split: prod.splits if_splits)+

lemma bq_recv_right:
  assumes "bq_recv home (RightSide, c) k q = (a, q')"
  shows "like (right_half q') (snd (fq_recv home c k (right_half q)))" "left_half q' = left_half q"
  using assms by (cases c; auto simp: left_half_def right_half_def fq_recv_def like_def Let_def split: prod.splits if_splits)+

lemma bq_send_halves:
  assumes "bq_send home k y q = (a, q')"
  shows "like (left_half q') (snd (fq_send home k y (left_half q)))"
    "like (right_half q') (snd (fq_send home k y (right_half q)))"
  using assms by (auto simp: bq_send_def left_half_def right_half_def fq_send_def like_def Let_def split: prod.splits option.splits)

lemma bq_try_send_halves:
  assumes "bq_try_send y q = (a, q')"
  shows "like (left_half q') (snd (fq_try_send y (left_half q)))"
    "like (right_half q') (snd (fq_try_send y (right_half q)))"
  using assms by (auto simp: bq_try_send_def left_half_def right_half_def fq_try_send_def like_def Let_def split: prod.splits)

lemma br_next_halves:
  assumes "br_next r = (a, r')"
  shows "a = fst (fq_node_pop (left_half (br_queues r)))" "a = fst (fq_node_pop (right_half (br_queues r)))"
    "like (left_half (br_queues r')) (snd (fq_node_pop (left_half (br_queues r))))"
    "like (right_half (br_queues r')) (snd (fq_node_pop (right_half (br_queues r))))"
  using assms by (auto simp: br_next_def left_half_def right_half_def fq_node_pop_def like_def Let_def split: prod.splits)

lemma br_send_left_halves:
  assumes "br_try_send_left x r = (a, r')"
  shows "a = fst (fq_node_send x (left_half (br_queues r)))"
    "like (left_half (br_queues r')) (snd (fq_node_send x (left_half (br_queues r))))"
    "right_half (br_queues r') = right_half (br_queues r)"
  using assms by (auto simp: br_try_send_left_def left_half_def right_half_def fq_node_send_def like_def Let_def split: prod.splits)

lemma br_send_right_halves:
  assumes "br_try_send_right x r = (a, r')"
  shows "a = fst (fq_node_send x (right_half (br_queues r)))"
    "like (right_half (br_queues r')) (snd (fq_node_send x (right_half (br_queues r))))"
    "left_half (br_queues r') = left_half (br_queues r)"
  using assms by (auto simp: br_try_send_right_def left_half_def right_half_def fq_node_send_def like_def Let_def split: prod.splits)

lemma br_flush_halves:
  assumes "br_flush r = (a, r')"
  shows "a = Ok ()" "like (left_half (br_queues r')) (snd (fq_node_flush (left_half (br_queues r))))"
    "like (right_half (br_queues r')) (snd (fq_node_flush (right_half (br_queues r))))"
  using assms
  by (auto simp: br_flush_def left_half_def right_half_def fq_node_flush_def inq_flush_def waiters_take_def like_def Let_def)

text \<open>A poll of the future keeps the flow of each half.\<close>

lemma run_fut_left_flow:
  assumes f: "fq_flow True (left_half q) ins outs []" and t: "run_fut (bi_queue_ops home) t q = (p, q')"
  shows "fq_flow True (left_half q') ins outs []"
proof -
  have "fq_flow True (left_half (snd (run_fut (bi_queue_ops home) t q))) ins outs []"
  proof (rule run_fut_keeps [where P = "\<lambda>q. fq_flow True (left_half q) ins outs []"])
    fix c k q a q'
    assume r: "qo_recv (bi_queue_ops home) c k q = (a, q')" and q: "fq_flow True (left_half q) ins outs []"
    obtain sd j where c: "c = (sd, j)" by (cases c)
    from r have r: "bq_recv home (sd, j) k q = (a, q')" by (simp add: bi_queue_ops_def c)
    show "fq_flow True (left_half q') ins outs []"
    proof (cases sd)
      case LeftSide
      have "fq_flow True (snd (fq_recv home j k (left_half q))) ins outs []"
        using fq_recv_flow [OF _ q, of home j k] by (cases "fq_recv home j k (left_half q)") simp
      with bq_recv_left(1) [OF r [unfolded LeftSide]] show ?thesis by (simp add: like_flow)
    next
      case RightSide
      with bq_recv_right(2) [OF r [unfolded RightSide]] q show ?thesis by simp
    qed
  next
    fix k y q a q'
    assume r: "qo_send (bi_queue_ops home) k y q = (a, q')" and q: "fq_flow True (left_half q) ins outs []"
    have "fq_flow True (snd (fq_send home k y (left_half q))) ins outs []"
      using fq_send_flow [OF _ q, of home k y] by (cases "fq_send home k y (left_half q)") simp
    with bq_send_halves(1) [of home k y q a q'] r show "fq_flow True (left_half q') ins outs []"
      by (simp add: bi_queue_ops_def like_flow)
  next
    fix y q a q'
    assume r: "qo_try_send (bi_queue_ops home) y q = (a, q')" and q: "fq_flow True (left_half q) ins outs []"
    have "fq_flow True (snd (fq_try_send y (left_half q))) ins outs []"
      using fq_try_send_flow [OF _ q, of y] by (cases "fq_try_send y (left_half q)") simp
    with bq_try_send_halves(1) [of y q a q'] r show "fq_flow True (left_half q') ins outs []"
      by (simp add: bi_queue_ops_def like_flow)
  qed (rule f)
  with t show ?thesis by simp
qed

lemma run_fut_right_flow:
  assumes f: "fq_flow True (right_half q) ins outs []" and t: "run_fut (bi_queue_ops home) t q = (p, q')"
  shows "fq_flow True (right_half q') ins outs []"
proof -
  have "fq_flow True (right_half (snd (run_fut (bi_queue_ops home) t q))) ins outs []"
  proof (rule run_fut_keeps [where P = "\<lambda>q. fq_flow True (right_half q) ins outs []"])
    fix c k q a q'
    assume r: "qo_recv (bi_queue_ops home) c k q = (a, q')" and q: "fq_flow True (right_half q) ins outs []"
    obtain sd j where c: "c = (sd, j)" by (cases c)
    from r have r: "bq_recv home (sd, j) k q = (a, q')" by (simp add: bi_queue_ops_def c)
    show "fq_flow True (right_half q') ins outs []"
    proof (cases sd)
      case RightSide
      have "fq_flow True (snd (fq_recv home j k (right_half q))) ins outs []"
        using fq_recv_flow [OF _ q, of home j k] by (cases "fq_recv home j k (right_half q)") simp
      with bq_recv_right(1) [OF r [unfolded RightSide]] show ?thesis by (simp add: like_flow)
    next
      case LeftSide
      with bq_recv_left(2) [OF r [unfolded LeftSide]] q show ?thesis by simp
    qed
  next
    fix k y q a q'
    assume r: "qo_send (bi_queue_ops home) k y q = (a, q')" and q: "fq_flow True (right_half q) ins outs []"
    have "fq_flow True (snd (fq_send home k y (right_half q))) ins outs []"
      using fq_send_flow [OF _ q, of home k y] by (cases "fq_send home k y (right_half q)") simp
    with bq_send_halves(2) [of home k y q a q'] r show "fq_flow True (right_half q') ins outs []"
      by (simp add: bi_queue_ops_def like_flow)
  next
    fix y q a q'
    assume r: "qo_try_send (bi_queue_ops home) y q = (a, q')" and q: "fq_flow True (right_half q) ins outs []"
    have "fq_flow True (snd (fq_try_send y (right_half q))) ins outs []"
      using fq_try_send_flow [OF _ q, of y] by (cases "fq_try_send y (right_half q)") simp
    with bq_try_send_halves(2) [of y q a q'] r show "fq_flow True (right_half q') ins outs []"
      by (simp add: bi_queue_ops_def like_flow)
  qed (rule f)
  with t show ?thesis by simp
qed

section \<open>Both halves are routines of segments\<close>

definition left_of :: "'l + 'm \<Rightarrow> 'l list" where
  "left_of x = (case x of Inl v \<Rightarrow> [v] | Inr _ \<Rightarrow> [])"

definition right_of :: "'l + 'm \<Rightarrow> 'm list" where
  "right_of x = (case x of Inl _ \<Rightarrow> [] | Inr v \<Rightarrow> [v])"

lemma br_send_left_flow:
  assumes s: "bi_send (bi_future_ops uc home) x r = (Ok a, r1)"
    and f: "fq_flow True (left_half (br_queues r)) ins outs due"
  shows "(a = Accepted \<and> fq_flow True (left_half (br_queues r1)) (ins @ map IData (left_of x)) outs due) \<or>
         (a = AFull x \<and> fq_flow True (left_half (br_queues r1)) ins outs due)"
proof (cases x)
  case (Inl v)
  obtain b r2 where b: "br_try_send_left v r = (b, r2)" by (cases "br_try_send_left v r") auto
  note H = br_send_left_halves [OF b]
  from fq_node_send_flow [OF _ f, of v] have
    "fst (fq_node_send v (left_half (br_queues r))) = Ok Accepted \<and>
       fq_flow True (snd (fq_node_send v (left_half (br_queues r)))) (ins @ [IData v]) outs due \<or>
     fst (fq_node_send v (left_half (br_queues r))) = Ok (AFull v) \<and>
       fq_flow True (snd (fq_node_send v (left_half (br_queues r)))) ins outs due"
    by (cases "fq_node_send v (left_half (br_queues r))") auto
  with s Inl b H(1) like_flow [OF H(2)] show ?thesis by (auto simp: bi_future_ops_def left_of_def)
next
  case (Inr v)
  obtain b r2 where b: "br_try_send_right v r = (b, r2)" by (cases "br_try_send_right v r") auto
  note H = br_send_right_halves [OF b]
  have "b = Ok Accepted \<or> b = Ok (AFull v)"
    unfolding H(1) by (auto simp: fq_node_send_def inq_try_send_def Let_def waiters_take_def)
  with s Inr b H(3) f show ?thesis by (auto simp: bi_future_ops_def left_of_def)
qed

lemma br_flush_left_flow:
  assumes "br_flush r = (a, r1)" and "fq_flow True (left_half (br_queues r)) ins outs due"
  shows "fq_flow True (left_half (br_queues r1)) (ins @ [IFlush]) outs due"
  using br_flush_halves(2) [OF assms(1)] fq_node_flush_flow [OF _ assms(2)]
  by (cases "fq_node_flush (left_half (br_queues r))") (auto simp: like_flow)

lemma br_next_left_flow:
  assumes "br_next r = (Ok v, r1)" and "fq_flow True (left_half (br_queues r)) ins outs due"
  shows "(\<exists>y. v = Some y \<and> fq_flow True (left_half (br_queues r1)) ins (outs @ [IData y]) due) \<or>
         (v = None \<and> oq_buffer (fq_output (left_half (br_queues r1))) = [] \<and>
          fq_flow True (left_half (br_queues r1)) ins outs due)"
proof -
  note H = br_next_halves [OF assms(1)]
  obtain b q where p: "fq_node_pop (left_half (br_queues r)) = (b, q)"
    by (cases "fq_node_pop (left_half (br_queues r))") auto
  have k: "like (left_half (br_queues r1)) q" "b = Ok v" using H(1) H(3) p by simp_all
  with fq_node_pop_flow [OF p assms(2)] like_output [OF k(1)] show ?thesis by (auto simp: like_flow)
qed

lemma br_poll_left_flow:
  assumes p: "br_poll uc home r = (Ok a, r1)" and f: "fq_flow True (left_half (br_queues r)) ins outs []"
  shows "fq_flow True (left_half (br_queues r1)) ins outs (case a of Pending \<Rightarrow> [] | PReady _ \<Rightarrow> [IFlush])"
proof -
  obtain f0 g where fg: "(case br_future r of Some f \<Rightarrow> (f, br_factory r) | None \<Rightarrow> bc_make uc (br_factory r)) = (f0, g)"
    by (rule prod.exhaust)
  obtain b f1 q where t: "run_fut (bi_queue_ops home) (bc_poll uc f0) (br_queues r) = ((b, f1), q)"
    by (metis prod.collapse)
  note F = run_fut_left_flow [OF f t]
  show ?thesis
  proof (cases a)
    case Pending
    with p fg t have "br_queues r1 = q"
      by (auto simp: br_poll_def Let_def split: poll.splits result.splits)
    with F Pending show ?thesis by simp
  next
    case (PReady z)
    with p fg t obtain l oldl rt oldr where
      e: "inq_renew (bc_kept uc LeftSide f1) (bq_left q) = Ok (l, oldl)"
        "inq_renew (bc_kept uc RightSide f1) (bq_right q) = Ok (rt, oldr)"
        "br_queues r1 = q\<lparr>bq_left := l, bq_old_left := bq_old_left q @ oldl, bq_right := rt,
           bq_old_right := bq_old_right q @ oldr, bq_log := bq_log q @ [BEnded]\<rparr>"
      by (auto simp: br_poll_def Let_def split: poll.splits result.splits)
    have "fq_input (left_half q) = bq_left q" by (simp add: left_half_def)
    with fq_flow_renewed [OF F] e(1)
    have "fq_flow True ((left_half q)\<lparr>fq_input := l, fq_old := fq_old (left_half q) @ oldl,
        fq_log := fq_log (left_half q) @ [Ended]\<rparr>) ins outs [IFlush]" by simp
    moreover have "left_half (br_queues r1) = (left_half q)\<lparr>fq_input := l, fq_old := fq_old (left_half q) @ oldl,
        fq_log := fq_log (left_half q) @ [Ended]\<rparr>" by (simp add: e(3) left_half_def)
    ultimately show ?thesis using PReady by simp
  qed
qed

lemma br_send_right_flow:
  assumes s: "bi_send (bi_future_ops uc home) x r = (Ok a, r1)"
    and f: "fq_flow True (right_half (br_queues r)) ins outs due"
  shows "(a = Accepted \<and> fq_flow True (right_half (br_queues r1)) (ins @ map IData (right_of x)) outs due) \<or>
         (a = AFull x \<and> fq_flow True (right_half (br_queues r1)) ins outs due)"
proof (cases x)
  case (Inr v)
  obtain b r2 where b: "br_try_send_right v r = (b, r2)" by (cases "br_try_send_right v r") auto
  note H = br_send_right_halves [OF b]
  from fq_node_send_flow [OF _ f, of v] have
    "fst (fq_node_send v (right_half (br_queues r))) = Ok Accepted \<and>
       fq_flow True (snd (fq_node_send v (right_half (br_queues r)))) (ins @ [IData v]) outs due \<or>
     fst (fq_node_send v (right_half (br_queues r))) = Ok (AFull v) \<and>
       fq_flow True (snd (fq_node_send v (right_half (br_queues r)))) ins outs due"
    by (cases "fq_node_send v (right_half (br_queues r))") auto
  with s Inr b H(1) like_flow [OF H(2)] show ?thesis by (auto simp: bi_future_ops_def right_of_def)
next
  case (Inl v)
  obtain b r2 where b: "br_try_send_left v r = (b, r2)" by (cases "br_try_send_left v r") auto
  note H = br_send_left_halves [OF b]
  have "b = Ok Accepted \<or> b = Ok (AFull v)"
    unfolding H(1) by (auto simp: fq_node_send_def inq_try_send_def Let_def waiters_take_def)
  with s Inl b H(3) f show ?thesis by (auto simp: bi_future_ops_def right_of_def)
qed

lemma br_flush_right_flow:
  assumes "br_flush r = (a, r1)" and "fq_flow True (right_half (br_queues r)) ins outs due"
  shows "fq_flow True (right_half (br_queues r1)) (ins @ [IFlush]) outs due"
  using br_flush_halves(3) [OF assms(1)] fq_node_flush_flow [OF _ assms(2)]
  by (cases "fq_node_flush (right_half (br_queues r))") (auto simp: like_flow)

lemma br_next_right_flow:
  assumes "br_next r = (Ok v, r1)" and "fq_flow True (right_half (br_queues r)) ins outs due"
  shows "(\<exists>y. v = Some y \<and> fq_flow True (right_half (br_queues r1)) ins (outs @ [IData y]) due) \<or>
         (v = None \<and> oq_buffer (fq_output (right_half (br_queues r1))) = [] \<and>
          fq_flow True (right_half (br_queues r1)) ins outs due)"
proof -
  note H = br_next_halves [OF assms(1)]
  obtain b q where p: "fq_node_pop (right_half (br_queues r)) = (b, q)"
    by (cases "fq_node_pop (right_half (br_queues r))") auto
  have k: "like (right_half (br_queues r1)) q" "b = Ok v" using H(2) H(4) p by simp_all
  with fq_node_pop_flow [OF p assms(2)] like_output [OF k(1)] show ?thesis by (auto simp: like_flow)
qed

lemma br_poll_right_flow:
  assumes p: "br_poll uc home r = (Ok a, r1)" and f: "fq_flow True (right_half (br_queues r)) ins outs []"
  shows "fq_flow True (right_half (br_queues r1)) ins outs (case a of Pending \<Rightarrow> [] | PReady _ \<Rightarrow> [IFlush])"
proof -
  obtain f0 g where fg: "(case br_future r of Some f \<Rightarrow> (f, br_factory r) | None \<Rightarrow> bc_make uc (br_factory r)) = (f0, g)"
    by (rule prod.exhaust)
  obtain b f1 q where t: "run_fut (bi_queue_ops home) (bc_poll uc f0) (br_queues r) = ((b, f1), q)"
    by (metis prod.collapse)
  note F = run_fut_right_flow [OF f t]
  show ?thesis
  proof (cases a)
    case Pending
    with p fg t have "br_queues r1 = q"
      by (auto simp: br_poll_def Let_def split: poll.splits result.splits)
    with F Pending show ?thesis by simp
  next
    case (PReady z)
    with p fg t obtain l oldl rt oldr where
      e: "inq_renew (bc_kept uc LeftSide f1) (bq_left q) = Ok (l, oldl)"
        "inq_renew (bc_kept uc RightSide f1) (bq_right q) = Ok (rt, oldr)"
        "br_queues r1 = q\<lparr>bq_left := l, bq_old_left := bq_old_left q @ oldl, bq_right := rt,
           bq_old_right := bq_old_right q @ oldr, bq_log := bq_log q @ [BEnded]\<rparr>"
      by (auto simp: br_poll_def Let_def split: poll.splits result.splits)
    have "fq_input (right_half q) = bq_right q" by (simp add: right_half_def)
    with fq_flow_renewed [OF F] e(2)
    have "fq_flow True ((right_half q)\<lparr>fq_input := rt, fq_old := fq_old (right_half q) @ oldr,
        fq_log := fq_log (right_half q) @ [Ended]\<rparr>) ins outs [IFlush]" by simp
    moreover have "right_half (br_queues r1) = (right_half q)\<lparr>fq_input := rt, fq_old := fq_old (right_half q) @ oldr,
        fq_log := fq_log (right_half q) @ [Ended]\<rparr>" by (simp add: e(3) right_half_def)
    ultimately show ?thesis using PReady by simp
  qed
qed

text \<open>The biunion's routine as one over sided data.\<close>

definition sided_ops :: "('l, 'm, 'o, 'r) bi_ops \<Rightarrow> ('l + 'm, 'o, 'r) poll_ops" where
  "sided_ops bo = \<lparr>po_send = bi_send bo, po_next = bo_next bo, po_flush = bo_flush bo, po_poll = bo_poll bo\<rparr>"

interpretation left_future: segment_routine
  "sided_ops (bi_future_ops uc home :: ('l, 'm, 'o, ('l, 'm, 'o, 'g, 'f) bi_future_routine) bi_ops)"
  left_of "\<lambda>r. left_half (br_queues r)" "\<lambda>r. True"
proof unfold_locales
  fix r r1 :: "('l, 'm, 'o, 'g, 'f) bi_future_routine" and z and ins :: "'l item list" and outs :: "'o item list"
  assume f: "fq_flow True (left_half (br_queues r)) ins outs []"
  show "fq_flow True (left_half (br_queues r1)) ins outs []"
    if "po_poll (sided_ops (bi_future_ops uc home)) r = (Ok Pending, r1)"
    using br_poll_left_flow [of uc home r Pending r1 ins outs] that f by (simp add: sided_ops_def bi_future_ops_def)
  show "fq_flow True (left_half (br_queues r1)) ins outs [IFlush]"
    if "po_poll (sided_ops (bi_future_ops uc home)) r = (Ok (PReady z), r1)"
    using br_poll_left_flow [of uc home r "PReady z" r1 ins outs] that f by (simp add: sided_ops_def bi_future_ops_def)
qed (simp add: sided_ops_def br_send_left_flow, simp add: sided_ops_def bi_future_ops_def br_flush_left_flow,
    simp add: sided_ops_def bi_future_ops_def br_next_left_flow)

interpretation right_future: segment_routine
  "sided_ops (bi_future_ops uc home :: ('l, 'm, 'o, ('l, 'm, 'o, 'g, 'f) bi_future_routine) bi_ops)"
  right_of "\<lambda>r. right_half (br_queues r)" "\<lambda>r. True"
proof unfold_locales
  fix r r1 :: "('l, 'm, 'o, 'g, 'f) bi_future_routine" and z and ins :: "'m item list" and outs :: "'o item list"
  assume f: "fq_flow True (right_half (br_queues r)) ins outs []"
  show "fq_flow True (right_half (br_queues r1)) ins outs []"
    if "po_poll (sided_ops (bi_future_ops uc home)) r = (Ok Pending, r1)"
    using br_poll_right_flow [of uc home r Pending r1 ins outs] that f by (simp add: sided_ops_def bi_future_ops_def)
  show "fq_flow True (right_half (br_queues r1)) ins outs [IFlush]"
    if "po_poll (sided_ops (bi_future_ops uc home)) r = (Ok (PReady z), r1)"
    using br_poll_right_flow [of uc home r "PReady z" r1 ins outs] that f by (simp add: sided_ops_def bi_future_ops_def)
qed (simp add: sided_ops_def br_send_right_flow, simp add: sided_ops_def bi_future_ops_def br_flush_right_flow,
    simp add: sided_ops_def bi_future_ops_def br_next_right_flow)

lemma bi_future_honest: "honest_bi (bi_future_ops uc home)"
  by (auto simp: honest_bi_def bi_future_ops_def br_try_send_left_def br_try_send_right_def br_flush_def
      inq_try_send_def inq_flush_def waiters_take_def Let_def split: if_splits)

interpretation future_biunion: poll_biunion "bi_future_ops uc home" left_recv "\<lambda>w. of_left (bw_recv w)"
    "\<lambda>w. edge_avail (bw_left w)" right_recv "\<lambda>w. of_right (bw_recv w)" "\<lambda>w. edge_avail (bw_right w)"
    "fanout_output (biunion_sink env others)" fanout_lanes "\<lambda>f w i. sw_took (bw_out w) (f_edges f ! i)" fanout_due
    fanout_ok "\<lambda>w. (bw_recv w, bw_left w, bw_right w)"
  by (rule poll_biunion_sys [OF bi_future_honest])

section \<open>Properties\<close>

text \<open>C19. A poll biunion with an async routine keeps its future's segments on both sides. Over sync
  edges, for any user future and any order of phase polls, wakes, refusals and bounds, until the node
  closes: the left input of the future has received exactly the left data and every Flush of either side
  in the order the node handed them over, except what waits in the left queue, and so the right; every
  output edge got exactly what the future sent, a Flush standing where a segment's future returned,
  except what waits in the output queue; and each side of every finished segment is data, then a Flush as
  the last thing received, then the end.\<close>

theorem biunion_future_segments:
  assumes out: "fanout_ok out" "f_suspended out = None" and ev: "\<forall>ev\<in>set evs. bi_around_ok ev"
    and run: "bi_run (bi_future_ops uc home) (bi_output env others) left_recv right_recv evs
                (bi_start (bi_output env others) (br_new b g) out k bg w) = Some y"
    and live: "bs_state (by_node y) \<noteq> NClosed"
  shows "\<exists>accl accr acc os. of_left (bw_recv (by_world y)) = of_left (bw_recv w) @ accl @ held_list (by_left y) \<and>
        of_right (bw_recv (by_world y)) = of_right (bw_recv w) @ accr @ held_list (by_right y) \<and>
        acc \<in> shuffles (from_left accl) (from_right accr) \<and>
        (\<forall>i < length (f_edges out).
           sw_took (bw_out (by_world y)) (f_edges (bs_output (by_node y)) ! i) @ fanout_due (bs_output (by_node y)) i =
           sw_took (bw_out w) (f_edges out ! i) @ os) \<and>
        (let q = br_queues (bs_routine (by_node y)); log = bq_log q; l = fq_log (left_half q); r = fq_log (right_half q)
         in got_items l @ iq_buffer (bq_left q) = items_by left_of acc \<and>
            got_items r @ iq_buffer (bq_right q) = items_by right_of acc \<and>
            sent_items l = items_of os @ map IData (oq_buffer (bq_output q)) @ end_due (bs_state (by_node y)) \<and>
            segmented False l = Some (iq_closed (bq_left q)) \<and> segmented False r = Some (iq_closed (bq_right q)))"
proof -
  have due: "fanout_due out i = []" for i using out(2) by (simp add: fanout_due_def)
  let ?bo = "bi_future_ops uc home"
  from bi_run_biunion_sys [OF bi_future_honest out(1) ev run] live obtain accl accr acc os where
    a: "of_left (bw_recv (by_world y)) = of_left (bw_recv w) @ accl @ held_list (by_left y)"
      "of_right (bw_recv (by_world y)) = of_right (bw_recv w) @ accr @ held_list (by_right y)"
      "acc \<in> shuffles (from_left accl) (from_right accr)"
      "\<forall>i < fanout_lanes out.
           sw_took (bw_out (by_world y)) (f_edges (bs_output (by_node y)) ! i) @ fanout_due (bs_output (by_node y)) i =
           (sw_took (bw_out w) (f_edges out ! i) @ fanout_due out i) @ os"
      "conducts (bi_send ?bo) (bo_next ?bo) (bo_flush ?bo) (bo_poll ?bo) (br_new b g) Running acc os
          (bs_routine (by_node y)) (bs_state (by_node y))" by blast
  have c: "conducts (po_send (sided_ops ?bo)) (po_next (sided_ops ?bo)) (po_flush (sided_ops ?bo)) (po_poll (sided_ops ?bo))
      (br_new b g) Running acc os (bs_routine (by_node y)) (bs_state (by_node y))"
    using a(5) by (simp add: sided_ops_def)
  note start = br_new_def bi_queues_new_def left_half_def right_half_def fq_flow_def end_due_def inq_new_def
    outq_new_def inq_ok_def outq_ok_def
  have "fq_flow True (left_half (br_queues (bs_routine (by_node y)))) (items_by left_of acc) (items_of os)
        (end_due (bs_state (by_node y)))"
    using left_future.conducts_flow [OF c, of "[]" "[]"] by (simp add: start)
  moreover have "fq_flow True (right_half (br_queues (bs_routine (by_node y)))) (items_by right_of acc) (items_of os)
        (end_due (bs_state (by_node y)))"
    using right_future.conducts_flow [OF c, of "[]" "[]"] by (simp add: start)
  ultimately show ?thesis using a(1-4) due
    by (intro exI [of _ accl] exI [of _ accr] exI [of _ acc] exI [of _ os])
      (auto simp: fanout_lanes_def fq_flow_def left_half_def right_half_def Let_def)
qed

text \<open>A future that echoes the left up to its Flush, then the right up to its own.\<close>

fun left_then_right :: "side \<Rightarrow> nat \<Rightarrow> (side \<times> nat option, nat + nat, nat, side \<times> nat) fut" where
  "left_then_right sd 0 = Fin Pending (sd, 0)"
| "left_then_right sd (Suc n) =
     Recv (sd, None) 1 (\<lambda>a. case a of
        Pending \<Rightarrow> Fin Pending (sd, Suc n)
      | PReady (Err e) \<Rightarrow> Fin (PReady (Err e)) (sd, 0)
      | PReady (Ok IFlush) \<Rightarrow>
          (if sd = LeftSide then left_then_right RightSide n else Fin (PReady (Ok ())) (sd, 0))
      | PReady (Ok (IData v)) \<Rightarrow> TrySend (case_sum id id v) (\<lambda>_. left_then_right sd n))"

definition left_right_code :: "(unit, side \<times> nat, nat, nat, nat) bi_user_code" where
  "left_right_code = \<lparr>bc_make = (\<lambda>g. ((LeftSide, 5), g)), bc_poll = (\<lambda>f. left_then_right (fst f) (snd f)), bc_kept = (\<lambda>sd f. False)\<rparr>"

definition left_right_world :: "(nat, nat, nat, nat) biunion_sys" where
  "left_right_world =
     \<lparr>bw_left = (with_bound None)\<lparr>producer_count := 1, i_buffer := [Data 5, Flush 7]\<rparr>,
      bw_right = (with_bound None)\<lparr>producer_count := 1, i_buffer := [Data 8]\<rparr>, bw_recv = [],
      bw_out = nw_out one_line\<rparr>"

definition left_right_run ::
  "bi_phase list \<Rightarrow> (nat, nat, nat, (nat, nat, nat, unit, side \<times> nat) bi_future_routine,
     (nat \<times> nat, (nat, nat) message) fanout, (nat, nat, nat, nat) biunion_sys) bi_sys option" where
  "left_right_run ps =
     bi_run (bi_future_ops left_right_code 1) (bi_output (\<lambda>w. None) id) left_recv right_recv (map BPolled ps)
       (bi_start (bi_output (\<lambda>w. None) id) (br_new None ()) one_edge 3 budget_default left_right_world)"

theorem biunion_future_segments_witness:
  "\<exists>y. left_right_run [BInput RightSide, BInput LeftSide, BWork, BOutput] = Some y \<and>
       sent_items (fq_log (left_half (br_queues (bs_routine (by_node y))))) = [IData 5, IData 8, IFlush] \<and>
       bs_state (by_node y) = Running"
proof -
  let ?ps = "[BInput RightSide, BInput LeftSide, BWork, BOutput]"
  have "case left_right_run ?ps of
     None \<Rightarrow> False
   | Some y \<Rightarrow> bs_state (by_node y) = Running \<and>
       f_edges (bs_output (by_node y)) = [(0, 0)] \<and> f_suspended (bs_output (by_node y)) = None \<and>
       sw_took (bw_out (by_world y)) (0, 0) = [Data 5, Data 8, Flush 7] \<and>
       oq_buffer (bq_output (br_queues (bs_routine (by_node y)))) = []"
    by code_simp
  then obtain y where y: "left_right_run ?ps = Some y" "bs_state (by_node y) = Running"
      "f_edges (bs_output (by_node y)) = [(0, 0)]" "f_suspended (bs_output (by_node y)) = None"
      "sw_took (bw_out (by_world y)) (0, 0) = [Data 5, Data 8, Flush 7]"
      "oq_buffer (bq_output (br_queues (bs_routine (by_node y)))) = []"
    by (auto split: option.splits)
  have e: "fanout_ok one_edge" "f_suspended one_edge = None" by (simp_all add: one_edge_def fanout_ok_def)
  have ev: "\<forall>ev\<in>set (map BPolled ?ps). bi_around_ok ev" by (simp add: bi_around_ok_def)
  have live: "bs_state (by_node y) \<noteq> NClosed" using y(2) by simp
  from biunion_future_segments [OF e ev y(1) [unfolded left_right_run_def] live] obtain os where
    a: "\<forall>i < length (f_edges one_edge).
       sw_took (bw_out (by_world y)) (f_edges (bs_output (by_node y)) ! i) @ fanout_due (bs_output (by_node y)) i =
       sw_took (bw_out left_right_world) (f_edges one_edge ! i) @ os"
    "sent_items (fq_log (left_half (br_queues (bs_routine (by_node y))))) =
       items_of os @ map IData (oq_buffer (bq_output (br_queues (bs_routine (by_node y))))) @ end_due (bs_state (by_node y))"
    by (auto simp: Let_def)
  then have "os = [Data 5, Data 8, Flush 7]"
    using y(3-5) by (simp add: left_right_world_def one_line_def one_edge_def fanout_due_def)
  with a(2) y(1,2,6) show ?thesis by (simp add: end_due_def)
qed

end
