(* ===== verification/Timers.thy ===== *)
theory Timers
  imports Core "HOL-Library.Multiset"
begin

text \<open>
  A poll thread's timers (src/poll/timer/): the deadline heap with its recycled cells and generations
  (deadline.rs, key.rs), the thread's \<open>Timers\<close>, a node's \<open>Timer\<close> and the guard that cancels on drop
  (timer.rs, guard.rs), and what waits on them: the deadline of a timed wait (src/poll/future/deadline.rs)
  and \<open>sleep\<close> (src/poll/sleep.rs). Instants are numbers; every read of the clock is an argument. The
  standard library's \<open>BinaryHeap\<close> under \<open>Reverse\<close> is a list kept in ascending order.
\<close>

section \<open>Entries and their order\<close>

text \<open>\<open>DeadlineEntry\<close>, ordered by deadline, then cell, then generation.\<close>

datatype deadline_entry = DeadlineEntry (de_deadline: nat) (de_cell: nat) (de_generation: u64)

text \<open>\<open>Ord::cmp\<close>: deadlines first, then cells, then generations; equality and \<open>\<le>\<close> are read off it, as
  \<open>PartialEq\<close> and \<open>PartialOrd\<close> do.\<close>

datatype ordering = OLess | OEqual | OGreater

fun then_with :: "ordering \<Rightarrow> ordering \<Rightarrow> ordering" where
  "then_with OEqual q = q"
| "then_with p q = p"

definition cmp_of :: "'a :: linorder \<Rightarrow> 'a \<Rightarrow> ordering" where
  "cmp_of x y = (if x < y then OLess else if x = y then OEqual else OGreater)"

fun entry_cmp :: "deadline_entry \<Rightarrow> deadline_entry \<Rightarrow> ordering" where
  "entry_cmp (DeadlineEntry d c g) (DeadlineEntry d' c' g') =
     then_with (then_with (cmp_of d d') (cmp_of c c')) (cmp_of g g')"

definition entry_eq :: "deadline_entry \<Rightarrow> deadline_entry \<Rightarrow> bool" where
  "entry_eq a b \<longleftrightarrow> entry_cmp a b = OEqual"

lemma entry_eq_iff: "entry_eq a b \<longleftrightarrow> a = b"
  by (cases a; cases b) (auto simp: entry_eq_def cmp_of_def split: if_splits)

lemma entry_cmp_not_greater:
  "entry_cmp (DeadlineEntry d c g) (DeadlineEntry d' c' g') \<noteq> OGreater \<longleftrightarrow>
     d < d' \<or> d = d' \<and> (c < c' \<or> c = c' \<and> g \<le> g')"
  by (auto simp: cmp_of_def)

instantiation deadline_entry :: linorder
begin

definition less_eq_deadline_entry :: "deadline_entry \<Rightarrow> deadline_entry \<Rightarrow> bool" where
  "a \<le> b \<longleftrightarrow> entry_cmp a b \<noteq> OGreater"

definition less_deadline_entry :: "deadline_entry \<Rightarrow> deadline_entry \<Rightarrow> bool" where
  "a < b \<longleftrightarrow> a \<le> b \<and> \<not> b \<le> (a :: deadline_entry)"

lemma less_eq_entry [simp]:
  "DeadlineEntry d c g \<le> DeadlineEntry d' c' g' \<longleftrightarrow>
     d < d' \<or> d = d' \<and> (c < c' \<or> c = c' \<and> g \<le> g')"
  unfolding less_eq_deadline_entry_def by (rule entry_cmp_not_greater)

instance
proof
  fix a b c :: deadline_entry
  show "a < b \<longleftrightarrow> a \<le> b \<and> \<not> b \<le> a" by (simp add: less_deadline_entry_def)
  show "a \<le> a" by (cases a) simp
  show "a \<le> b \<Longrightarrow> b \<le> c \<Longrightarrow> a \<le> c" by (cases a; cases b; cases c) auto
  show "a \<le> b \<Longrightarrow> b \<le> a \<Longrightarrow> a = b" by (cases a; cases b) auto
  show "a \<le> b \<or> b \<le> a" by (cases a; cases b) auto
qed

end

lemma entry_le_deadline: "a \<le> b \<Longrightarrow> de_deadline a \<le> de_deadline b"
  by (cases a; cases b) auto

section \<open>The deadline heap\<close>

type_synonym node_id = nat

record timer_key =
  tk_cell :: nat
  tk_generation :: u64

definition generation_next :: "u64 \<Rightarrow> u64" where
  "generation_next g = g + 1"

record cell =
  ce_generation :: u64
  ce_node :: "node_id option"

record deadline_heap =
  dh_heap :: "deadline_entry list"
  dh_cells :: "cell list"
  dh_free :: "nat list"

definition heap_new :: deadline_heap where
  "heap_new = \<lparr>dh_heap = [], dh_cells = [], dh_free = []\<rparr>"

definition is_live :: "nat \<Rightarrow> u64 \<Rightarrow> deadline_heap \<Rightarrow> bool" where
  "is_live c g h \<longleftrightarrow>
     c < length (dh_cells h) \<and> ce_generation (dh_cells h ! c) = g \<and> ce_node (dh_cells h ! c) \<noteq> None"

definition take_live :: "nat \<Rightarrow> u64 \<Rightarrow> deadline_heap \<Rightarrow> node_id option \<times> deadline_heap" where
  "take_live c g h =
     (if \<not> is_live c g h then (None, h)
      else (ce_node (dh_cells h ! c),
            h\<lparr>dh_cells := (dh_cells h)[c := \<lparr>ce_generation = generation_next (ce_generation (dh_cells h ! c)),
                                              ce_node = None\<rparr>],
              dh_free := dh_free h @ [c]\<rparr>))"

definition heap_register :: "node_id \<Rightarrow> nat \<Rightarrow> deadline_heap \<Rightarrow> timer_key \<times> deadline_heap" where
  "heap_register nid deadline h =
     (let (c, h1) =
            (if dh_free h \<noteq> []
             then (let c = last (dh_free h)
                   in (c, h\<lparr>dh_free := butlast (dh_free h),
                            dh_cells := (dh_cells h)[c := (dh_cells h ! c)\<lparr>ce_node := Some nid\<rparr>]\<rparr>))
             else (length (dh_cells h), h\<lparr>dh_cells := dh_cells h @ [\<lparr>ce_generation = 0, ce_node = Some nid\<rparr>]\<rparr>));
          g = ce_generation (dh_cells h1 ! c)
      in (\<lparr>tk_cell = c, tk_generation = g\<rparr>, h1\<lparr>dh_heap := insort (DeadlineEntry deadline c g) (dh_heap h1)\<rparr>))"

definition heap_cancel :: "timer_key \<Rightarrow> deadline_heap \<Rightarrow> deadline_heap" where
  "heap_cancel key h = snd (take_live (tk_cell key) (tk_generation key) h)"

text \<open>\<open>peek\<close> drops dead entries off the top; the cells do not change.\<close>

definition entry_live :: "deadline_heap \<Rightarrow> deadline_entry \<Rightarrow> bool" where
  "entry_live h e = is_live (de_cell e) (de_generation e) h"

fun drop_dead :: "deadline_heap \<Rightarrow> deadline_entry list \<Rightarrow> deadline_entry list" where
  "drop_dead h [] = []"
| "drop_dead h (e0 # rest) = (if entry_live h e0 then e0 # rest else drop_dead h rest)"

definition heap_peek :: "deadline_heap \<Rightarrow> nat option \<times> deadline_heap" where
  "heap_peek h =
     (let es = drop_dead h (dh_heap h)
      in (case es of [] \<Rightarrow> None | e0 # _ \<Rightarrow> Some (de_deadline e0), h\<lparr>dh_heap := es\<rparr>))"

definition heap_pop :: "nat \<Rightarrow> deadline_heap \<Rightarrow> node_id option \<times> deadline_heap" where
  "heap_pop now h =
     (case drop_dead h (dh_heap h) of
        [] \<Rightarrow> (None, h\<lparr>dh_heap := []\<rparr>)
      | e0 # rest \<Rightarrow>
          (if now < de_deadline e0 then (None, h\<lparr>dh_heap := e0 # rest\<rparr>)
           else take_live (de_cell e0) (de_generation e0) (h\<lparr>dh_heap := rest\<rparr>)))"

section \<open>Timers, a node's timer, its guard\<close>

definition timers_earliest :: "deadline_heap \<Rightarrow> nat option \<times> deadline_heap" where
  "timers_earliest h = heap_peek h"

lemma drop_dead_length: "length (drop_dead h es) \<le> length es"
  by (induction es) auto

lemma heap_pop_length:
  assumes "heap_pop now h = (Some nid, h')"
  shows "length (dh_heap h') < length (dh_heap h)"
proof -
  have "length (drop_dead h (dh_heap h)) \<le> length (dh_heap h)" by (rule drop_dead_length)
  with assms show ?thesis
    by (auto simp: heap_pop_def take_live_def split: list.splits if_splits)
qed

text \<open>\<open>expire\<close>'s loop: the ids handed to \<open>wake\<close>, in order.\<close>

function expire_loop :: "nat \<Rightarrow> deadline_heap \<Rightarrow> node_id list \<times> deadline_heap" where
  "expire_loop now h =
     (case heap_pop now h of
        (None, h') \<Rightarrow> ([], h')
      | (Some nid, h') \<Rightarrow> (let (ids, h'') = expire_loop now h' in (nid # ids, h'')))"
  by pat_completeness auto

termination expire_loop
  by (relation "measure (\<lambda>(now, h). length (dh_heap h))") (auto simp: heap_pop_length [OF sym])

definition timers_expire :: "nat \<Rightarrow> deadline_heap \<Rightarrow> node_id list \<times> deadline_heap" where
  "timers_expire now h =
     (let (e0, h1) = heap_peek h in if e0 \<noteq> None then expire_loop now h1 else ([], h1))"

definition timer_schedule_at :: "node_id \<Rightarrow> nat \<Rightarrow> deadline_heap \<Rightarrow> deadline_heap" where
  "timer_schedule_at nid deadline h = snd (heap_register nid deadline h)"

text \<open>A guard is the key it cancels.\<close>

definition timer_arm :: "node_id \<Rightarrow> nat \<Rightarrow> deadline_heap \<Rightarrow> timer_key \<times> deadline_heap" where
  "timer_arm nid deadline h = heap_register nid deadline h"

definition timer_cancel :: "timer_key \<Rightarrow> deadline_heap \<Rightarrow> deadline_heap" where
  "timer_cancel key h = heap_cancel key h"

definition guard_drop :: "timer_key \<Rightarrow> deadline_heap \<Rightarrow> deadline_heap" where
  "guard_drop key h = timer_cancel key h"

text \<open>\<open>self.armed = None\<close> drops the guard that was there.\<close>

definition disarm :: "timer_key option \<Rightarrow> deadline_heap \<Rightarrow> deadline_heap" where
  "disarm armed h = (case armed of None \<Rightarrow> h | Some key \<Rightarrow> guard_drop key h)"

section \<open>Timed waits\<close>

text \<open>30 years in seconds. \<open>max\<close> is the last \<open>Instant\<close> of the platform, in the unit of \<open>now\<close>; \<open>unit\<close> of
  them make a second.\<close>

definition far_future :: nat where
  "far_future = 60 * 60 * 24 * 365 * 30"

definition deadline_after :: "nat \<Rightarrow> nat \<Rightarrow> nat \<Rightarrow> nat \<Rightarrow> nat" where
  "deadline_after last_instant unit now timeout =
     (if now + timeout \<le> last_instant then now + timeout else now + far_future * unit)"

record timed_wait =
  dl_at :: nat
  dl_armed :: "timer_key option"

definition timed_wait_after :: "nat \<Rightarrow> nat \<Rightarrow> nat \<Rightarrow> nat \<Rightarrow> timed_wait" where
  "timed_wait_after last_instant unit now timeout =
     \<lparr>dl_at = deadline_after last_instant unit now timeout, dl_armed = None\<rparr>"

definition timed_wait_poll ::
  "node_id \<Rightarrow> nat \<Rightarrow> 'a poll \<Rightarrow> timed_wait \<Rightarrow> deadline_heap \<Rightarrow> 'a option poll \<times> timed_wait \<times> deadline_heap" where
  "timed_wait_poll nid now wait d h =
     (let p = (case wait of
                 PReady r \<Rightarrow> PReady (Some r)
               | Pending \<Rightarrow> if dl_at d \<le> now then PReady None else Pending)
      in case p of
           PReady _ \<Rightarrow> (p, d\<lparr>dl_armed := None\<rparr>, disarm (dl_armed d) h)
         | Pending \<Rightarrow>
             (if dl_armed d = None
              then (let (key, h') = timer_arm nid (dl_at d) h in (p, d\<lparr>dl_armed := Some key\<rparr>, h'))
              else (p, d, h)))"

text \<open>\<open>SleepFut::poll\<close> in a release build: \<open>current\<close> is the node being polled, if a poll thread polls.\<close>

definition outside_poll_thread :: error where
  "outside_poll_thread = Fatal ''poll::sleep(..) awaited outside an areamy poll thread''"

definition sleep_poll ::
  "node_id option \<Rightarrow> nat \<Rightarrow> timed_wait \<Rightarrow> deadline_heap \<Rightarrow> unit res poll \<times> timed_wait \<times> deadline_heap" where
  "sleep_poll current now s h =
     (if dl_at s \<le> now then (PReady (Ok ()), s\<lparr>dl_armed := None\<rparr>, disarm (dl_armed s) h)
      else case dl_armed s of
             Some _ \<Rightarrow> (Pending, s, h)
           | None \<Rightarrow>
               (case current of
                  None \<Rightarrow> (PReady (Err outside_poll_thread), s, h)
                | Some nid \<Rightarrow>
                    (let (key, h') = timer_arm nid (dl_at s) h in (Pending, s\<lparr>dl_armed := Some key\<rparr>, h'))))"

definition timed_wait_drop :: "timed_wait \<Rightarrow> deadline_heap \<Rightarrow> deadline_heap" where
  "timed_wait_drop d h = disarm (dl_armed d) h"

section \<open>The contract\<close>

text \<open>What a queue of timers promises: \<open>timers\<close> lists the live ones, earliest first, as deadline, key
  and node. \<open>okay n\<close> is its invariant while \<open>n\<close> more timers may be released.\<close>

locale timer_queue =
  fixes timers :: "'h \<Rightarrow> (nat \<times> 'k \<times> node_id) list" and okay :: "nat \<Rightarrow> 'h \<Rightarrow> bool"
    and register :: "node_id \<Rightarrow> nat \<Rightarrow> 'h \<Rightarrow> 'k \<times> 'h" and cancel :: "'k \<Rightarrow> 'h \<Rightarrow> 'h"
    and peek :: "'h \<Rightarrow> nat option \<times> 'h" and pop :: "nat \<Rightarrow> 'h \<Rightarrow> node_id option \<times> 'h"
  assumes okay_less: "okay (Suc n) h \<Longrightarrow> okay n h"
    and earliest_first: "okay n h \<Longrightarrow> sorted (map fst (timers h))"
    and register_adds: "okay n h \<Longrightarrow> register nid d h = (k, h') \<Longrightarrow>
      okay n h' \<and> mset (timers h') = add_mset (d, k, nid) (mset (timers h)) \<and> k \<notin> fst ` snd ` set (timers h)"
    and cancel_removes: "okay (Suc n) h \<Longrightarrow>
      okay n (cancel k h) \<and> timers (cancel k h) = filter (\<lambda>t. fst (snd t) \<noteq> k) (timers h)"
    and peek_first: "okay n h \<Longrightarrow> peek h = (r, h') \<Longrightarrow>
      okay n h' \<and> timers h' = timers h \<and> r = (case timers h of [] \<Rightarrow> None | t # _ \<Rightarrow> Some (fst t))"
    and pop_due: "okay n h \<Longrightarrow> pop now h = (Some nid, h') \<Longrightarrow>
      \<exists>d k. d \<le> now \<and> timers h = (d, k, nid) # timers h'"
    and pop_okay: "okay (Suc n) h \<Longrightarrow> pop now h = (Some nid, h') \<Longrightarrow> okay n h'"
    and pop_none: "okay n h \<Longrightarrow> pop now h = (None, h') \<Longrightarrow>
      okay n h' \<and> timers h' = timers h \<and> (\<forall>t\<in>set (timers h). now < fst t)"
begin

text \<open>Draining what is due.\<close>

inductive pops :: "nat \<Rightarrow> 'h \<Rightarrow> node_id list \<Rightarrow> 'h \<Rightarrow> bool" for now where
  last: "pop now h = (None, h') \<Longrightarrow> pops now h [] h'"
| due: "pop now h = (Some nid, h1) \<Longrightarrow> pops now h1 ids h' \<Longrightarrow> pops now h (nid # ids) h'"

lemma okay_mono: "okay (m + n) h \<Longrightarrow> okay n h"
  by (induction m) (auto dest: okay_less)

lemma pops_due:
  "pops now h ids h' \<Longrightarrow> okay (length (filter (\<lambda>t. fst t \<le> now) (timers h)) + n) h \<Longrightarrow>
     okay n h' \<and> ids = map (snd \<circ> snd) (filter (\<lambda>t. fst t \<le> now) (timers h)) \<and>
     timers h' = filter (\<lambda>t. now < fst t) (timers h)"
proof (induction rule: pops.induct)
  case (last h h')
  from last.prems have "okay n h" by (rule okay_mono)
  from pop_none [OF this last.hyps] show ?case
    by (auto simp: filter_empty_conv not_le intro!: filter_True [symmetric])
next
  case (due h nid h1 ids h')
  from due.prems have "okay n h" by (rule okay_mono)
  from pop_due [OF this due.hyps(1)] obtain d k where t: "d \<le> now" "timers h = (d, k, nid) # timers h1" by blast
  from due.prems t have "okay (Suc (length (filter (\<lambda>t. fst t \<le> now) (timers h1)) + n)) h" by simp
  from pop_okay [OF this due.hyps(1)] have "okay (length (filter (\<lambda>t. fst t \<le> now) (timers h1)) + n) h1" .
  from due.IH [OF this] t show ?case by simp
qed

end

section \<open>The heap keeps the contract\<close>

definition entry_key :: "deadline_entry \<Rightarrow> timer_key" where
  "entry_key e = \<lparr>tk_cell = de_cell e, tk_generation = de_generation e\<rparr>"

definition heap_timers :: "deadline_heap \<Rightarrow> (nat \<times> timer_key \<times> node_id) list" where
  "heap_timers h =
     map (\<lambda>e. (de_deadline e, entry_key e, the (ce_node (dh_cells h ! de_cell e)))) (filter (entry_live h) (dh_heap h))"

text \<open>A queued entry is live or of an earlier life of its cell; the free list is the vacant cells; no
  generation wraps within \<open>n\<close> more releases.\<close>

definition heap_okay :: "nat \<Rightarrow> deadline_heap \<Rightarrow> bool" where
  "heap_okay n h \<longleftrightarrow>
     sorted (dh_heap h) \<and> distinct (map entry_key (dh_heap h)) \<and>
     (\<forall>e\<in>set (dh_heap h). de_cell e < length (dh_cells h) \<and>
        (unat (de_generation e) < unat (ce_generation (dh_cells h ! de_cell e)) \<or> entry_live h e)) \<and>
     distinct (dh_free h) \<and>
     (\<forall>i. i \<in> set (dh_free h) \<longleftrightarrow> i < length (dh_cells h) \<and> ce_node (dh_cells h ! i) = None) \<and>
     (\<forall>c\<in>set (dh_cells h). unat (ce_generation c) + n < 2 ^ 64) \<and> n < 2 ^ 64"

lemma entry_live_heap [simp]: "entry_live (h\<lparr>dh_heap := es\<rparr>) e = entry_live h e"
  by (simp add: entry_live_def is_live_def)

lemma entry_key_eq: "entry_key e = k \<longleftrightarrow> de_cell e = tk_cell k \<and> de_generation e = tk_generation k"
  by (cases k) (auto simp: entry_key_def)

lemma drop_dead_drop: "\<exists>k. drop_dead h es = drop k es"
proof (induction es)
  case (Cons e es)
  show ?case
  proof (cases "entry_live h e")
    case True
    then show ?thesis by (intro exI [of _ 0]) simp
  next
    case False
    from Cons obtain k where "drop_dead h es = drop k es" by blast
    with False show ?thesis by (intro exI [of _ "Suc k"]) simp
  qed
qed simp

lemma drop_dead_filter [simp]: "filter (entry_live h) (drop_dead h es) = filter (entry_live h) es"
  by (induction es) auto

lemma drop_dead_live: "drop_dead h es = e0 # rest \<Longrightarrow> entry_live h e0"
  by (induction es) (auto split: if_splits)

lemma heap_okay_drop:
  assumes "heap_okay n h"
  shows "heap_okay n (h\<lparr>dh_heap := drop k (dh_heap h)\<rparr>)"
  using assms by (auto simp: heap_okay_def drop_map [symmetric] sorted_wrt_drop dest: in_set_dropD)

lemma heap_timers_keys: "fst ` snd ` set (heap_timers h) = entry_key ` set (filter (entry_live h) (dh_heap h))"
  by (force simp: heap_timers_def)

text \<open>A release kills exactly the timer with this key.\<close>

lemma take_live_timers:
  assumes "take_live (tk_cell k) (tk_generation k) h = (r, h')"
  shows "heap_timers h' = filter (\<lambda>t. fst (snd t) \<noteq> k) (heap_timers h)"
proof -
  have live: "entry_live h' e \<longleftrightarrow> entry_live h e \<and> entry_key e \<noteq> k"
    and node: "entry_live h' e \<Longrightarrow> ce_node (dh_cells h' ! de_cell e) = ce_node (dh_cells h ! de_cell e)" for e
    using assms by (auto simp: take_live_def entry_live_def is_live_def entry_key_eq nth_list_update split: if_splits)
  have "dh_heap h' = dh_heap h" using assms by (auto simp: take_live_def split: if_splits)
  then have "filter (entry_live h') (dh_heap h') = filter (\<lambda>e. entry_key e \<noteq> k) (filter (entry_live h) (dh_heap h))"
    using live by (auto intro: filter_cong)
  moreover from this have "ce_node (dh_cells h' ! de_cell e) = ce_node (dh_cells h ! de_cell e)"
    if "e \<in> set (filter (\<lambda>e. entry_key e \<noteq> k) (filter (entry_live h) (dh_heap h)))" for e
    using that live node by auto
  ultimately show ?thesis
    by (simp add: heap_timers_def filter_map o_def cong: map_cong)
qed

lemma take_live_okay:
  assumes "heap_okay (Suc n) h" and t: "take_live (tk_cell k) (tk_generation k) h = (r, h')"
  shows "heap_okay n h'"
proof (cases "is_live (tk_cell k) (tk_generation k) h")
  case False
  with assms show ?thesis by (auto simp: take_live_def heap_okay_def)
next
  case True
  let ?c = "tk_cell k"
  have c: "?c < length (dh_cells h)" "ce_node (dh_cells h ! ?c) \<noteq> None" "ce_generation (dh_cells h ! ?c) = tk_generation k"
    using True by (auto simp: is_live_def)
  have "unat (ce_generation (dh_cells h ! ?c)) + Suc n < 2 ^ 64"
    using assms(1) c(1) by (auto simp: heap_okay_def)
  then have g: "unat (generation_next (ce_generation (dh_cells h ! ?c))) = unat (ce_generation (dh_cells h ! ?c)) + 1"
    unfolding generation_next_def by (subst unat_plus_simple [THEN iffD1]) (auto simp: no_plus_overflow_unat_size word_size)
  let ?h = "h\<lparr>dh_cells := (dh_cells h)[?c := \<lparr>ce_generation = generation_next (ce_generation (dh_cells h ! ?c)), ce_node = None\<rparr>],
              dh_free := dh_free h @ [?c]\<rparr>"
  have h': "h' = ?h" using t True by (simp add: take_live_def)
  have e: "de_cell e < length (dh_cells h) \<and>
      (unat (de_generation e) < unat (ce_generation (dh_cells ?h ! de_cell e)) \<or> entry_live ?h e)"
    if "e \<in> set (dh_heap h)" for e
  proof -
    from assms(1) that have a: "de_cell e < length (dh_cells h)"
      "unat (de_generation e) < unat (ce_generation (dh_cells h ! de_cell e)) \<or> entry_live h e"
      by (auto simp: heap_okay_def)
    show ?thesis
    proof (cases "de_cell e = ?c")
      case True
      with a g show ?thesis by (auto simp: entry_live_def is_live_def)
    next
      case False
      with a show ?thesis by (auto simp: entry_live_def is_live_def)
    qed
  qed
  have "\<forall>ce\<in>set (dh_cells ?h). unat (ce_generation ce) + n < 2 ^ 64"
  proof
    fix ce assume "ce \<in> set (dh_cells ?h)"
    then have "ce = \<lparr>ce_generation = generation_next (ce_generation (dh_cells h ! ?c)), ce_node = None\<rparr> \<or> ce \<in> set (dh_cells h)"
      using set_update_subset_insert [of "dh_cells h" ?c] by auto
    moreover have "\<forall>ce\<in>set (dh_cells h). unat (ce_generation ce) + Suc n < 2 ^ 64"
      using assms(1) by (simp add: heap_okay_def)
    ultimately show "unat (ce_generation ce) + n < 2 ^ 64"
      using g c(1) by fastforce
  qed
  moreover have "\<forall>i. i \<in> set (dh_free ?h) \<longleftrightarrow> i < length (dh_cells ?h) \<and> ce_node (dh_cells ?h ! i) = None"
    using assms(1) c by (auto simp: heap_okay_def nth_list_update)
  moreover have "distinct (dh_free ?h)" using assms(1) c by (auto simp: heap_okay_def)
  ultimately show ?thesis using assms(1) e unfolding h' heap_okay_def by simp
qed

lemma set_butlast: "distinct xs \<Longrightarrow> xs \<noteq> [] \<Longrightarrow> set (butlast xs) = set xs - {last xs}"
  by (induction xs rule: rev_induct) auto

lemma heap_register_cell:
  assumes ok: "heap_okay n h" and r: "heap_register nid d h = (k, h')"
  obtains cells free where "h' = \<lparr>dh_heap = insort (DeadlineEntry d (tk_cell k) (tk_generation k)) (dh_heap h),
      dh_cells = cells, dh_free = free\<rparr>"
    "tk_cell k < length cells" "cells ! tk_cell k = \<lparr>ce_generation = tk_generation k, ce_node = Some nid\<rparr>"
    "length (dh_cells h) \<le> length cells"
    "\<And>i. i < length (dh_cells h) \<Longrightarrow> i \<noteq> tk_cell k \<Longrightarrow> cells ! i = dh_cells h ! i"
    "tk_cell k < length (dh_cells h) \<Longrightarrow> ce_node (dh_cells h ! tk_cell k) = None \<and>
       ce_generation (dh_cells h ! tk_cell k) = tk_generation k"
    "distinct free" "\<And>i. i \<in> set free \<longleftrightarrow> i < length cells \<and> ce_node (cells ! i) = None"
    "\<And>ce. ce \<in> set cells \<Longrightarrow> unat (ce_generation ce) + n < 2 ^ 64"
proof (cases "dh_free h = []")
  case True
  have all: "\<And>i. i < length (dh_cells h) \<Longrightarrow> ce_node (dh_cells h ! i) \<noteq> None"
    using ok True by (force simp: heap_okay_def)
  let ?cells = "dh_cells h @ [\<lparr>ce_generation = 0, ce_node = Some nid\<rparr>]"
  show thesis
  proof (rule that [of ?cells "[]"])
    show "h' = \<lparr>dh_heap = insort (DeadlineEntry d (tk_cell k) (tk_generation k)) (dh_heap h),
        dh_cells = ?cells, dh_free = []\<rparr>"
      using r True by (auto simp: heap_register_def)
    show "i \<in> set [] \<longleftrightarrow> i < length ?cells \<and> ce_node (?cells ! i) = None" for i
      using all by (auto simp: nth_append less_Suc_eq)
    show "unat (ce_generation ce) + n < 2 ^ 64" if "ce \<in> set ?cells" for ce
      using that ok by (auto simp: heap_okay_def)
  qed (use r True in \<open>auto simp: heap_register_def nth_append\<close>)
next
  case False
  let ?c = "last (dh_free h)" let ?cells = "(dh_cells h)[?c := (dh_cells h ! ?c)\<lparr>ce_node := Some nid\<rparr>]"
  have "?c \<in> set (dh_free h)" using False by simp
  then have c: "?c < length (dh_cells h)" "ce_node (dh_cells h ! ?c) = None"
    using ok by (auto simp: heap_okay_def)
  have k: "k = \<lparr>tk_cell = ?c, tk_generation = ce_generation (dh_cells h ! ?c)\<rparr>"
    using r False c by (auto simp: heap_register_def Let_def)
  show thesis
  proof (rule that [of ?cells "butlast (dh_free h)"])
    show "h' = \<lparr>dh_heap = insort (DeadlineEntry d (tk_cell k) (tk_generation k)) (dh_heap h),
        dh_cells = ?cells, dh_free = butlast (dh_free h)\<rparr>"
      using r False c by (auto simp: heap_register_def Let_def)
    show "distinct (butlast (dh_free h))" using ok by (simp add: heap_okay_def distinct_butlast)
    show "i \<in> set (butlast (dh_free h)) \<longleftrightarrow> i < length ?cells \<and> ce_node (?cells ! i) = None" for i
      using ok False c by (auto simp: heap_okay_def set_butlast nth_list_update)
    show "unat (ce_generation ce) + n < 2 ^ 64" if "ce \<in> set ?cells" for ce
    proof -
      from that have "ce \<in> insert ((dh_cells h ! ?c)\<lparr>ce_node := Some nid\<rparr>) (set (dh_cells h))"
        using set_update_subset_insert by fastforce
      moreover have "unat (ce_generation (dh_cells h ! ?c)) + n < 2 ^ 64"
        using ok c(1) by (auto simp: heap_okay_def)
      ultimately show ?thesis using ok by (auto simp: heap_okay_def)
    qed
  qed (use c k in auto)
qed

lemma insort_filter_mset: "mset (filter P (insort x xs)) = mset (filter P (x # xs))"
  by (simp add: mset_filter del: filter.simps)

text \<open>A new timer is live under a key no live timer has.\<close>

lemma heap_register_timers:
  assumes ok: "heap_okay n h" and r: "heap_register nid d h = (k, h')"
  shows "heap_okay n h' \<and> mset (heap_timers h') = add_mset (d, k, nid) (mset (heap_timers h)) \<and>
         k \<notin> fst ` snd ` set (heap_timers h)"
proof -
  obtain cells free where H: "h' = \<lparr>dh_heap = insort (DeadlineEntry d (tk_cell k) (tk_generation k)) (dh_heap h),
      dh_cells = cells, dh_free = free\<rparr>"
    "tk_cell k < length cells" "cells ! tk_cell k = \<lparr>ce_generation = tk_generation k, ce_node = Some nid\<rparr>"
    "length (dh_cells h) \<le> length cells"
    "\<And>i. i < length (dh_cells h) \<Longrightarrow> i \<noteq> tk_cell k \<Longrightarrow> cells ! i = dh_cells h ! i"
    "tk_cell k < length (dh_cells h) \<Longrightarrow> ce_node (dh_cells h ! tk_cell k) = None \<and>
       ce_generation (dh_cells h ! tk_cell k) = tk_generation k"
    "distinct free" "\<And>i. i \<in> set free \<longleftrightarrow> i < length cells \<and> ce_node (cells ! i) = None"
    "\<And>ce. ce \<in> set cells \<Longrightarrow> unat (ce_generation ce) + n < 2 ^ 64"
    using heap_register_cell [OF ok r] by metis
  let ?e = "DeadlineEntry d (tk_cell k) (tk_generation k)"
  have new: "entry_live h' ?e" "entry_key ?e = k" using H(1-3) by (simp_all add: entry_live_def is_live_def entry_key_def)
  have old: "de_cell e < length (dh_cells h) \<and>
      (unat (de_generation e) < unat (ce_generation (dh_cells h ! de_cell e)) \<or> entry_live h e)"
    if "e \<in> set (dh_heap h)" for e
    using ok that by (simp add: heap_okay_def)
  have other: "entry_live h' e = entry_live h e \<and> entry_key e \<noteq> k \<and>
      (unat (de_generation e) < unat (ce_generation (cells ! de_cell e)) \<or> entry_live h' e) \<and>
      (entry_live h e \<longrightarrow> ce_node (cells ! de_cell e) = ce_node (dh_cells h ! de_cell e))"
    if "e \<in> set (dh_heap h)" for e
  proof (cases "de_cell e = tk_cell k")
    case True
    with old [OF that] H(6) have "unat (de_generation e) < unat (tk_generation k)" "\<not> entry_live h e"
      by (auto simp: entry_live_def is_live_def)
    with True H(1-3) show ?thesis by (auto simp: entry_live_def is_live_def entry_key_eq)
  next
    case False
    with old [OF that] H(1,4) H(5) [of "de_cell e"] show ?thesis
      by (auto simp: entry_live_def is_live_def entry_key_eq)
  qed
  have "heap_okay n h'"
    unfolding heap_okay_def
  proof (intro conjI)
    show "sorted (dh_heap h')" using ok H(1) by (simp add: heap_okay_def sorted_insort)
    have "distinct (map entry_key (insort ?e (dh_heap h))) \<longleftrightarrow> distinct (map entry_key (?e # dh_heap h))"
      by (metis distinct_map mset_eq_imp_distinct_iff mset_insort mset_map mset.simps(2))
    with ok other new(2) H(1) show "distinct (map entry_key (dh_heap h'))" by (auto simp: heap_okay_def)
    show "\<forall>e\<in>set (dh_heap h'). de_cell e < length (dh_cells h') \<and>
        (unat (de_generation e) < unat (ce_generation (dh_cells h' ! de_cell e)) \<or> entry_live h' e)"
      using other old new H(1,2,4) by (fastforce simp: set_insort_key)
  qed (use H ok in \<open>auto simp: heap_okay_def\<close>)
  moreover have "mset (heap_timers h') = add_mset (d, k, nid) (mset (heap_timers h))"
  proof -
    let ?g = "\<lambda>h e. (de_deadline e, entry_key e, the (ce_node (dh_cells h ! de_cell e)))"
    have "mset (heap_timers h') = image_mset (?g h') (mset (filter (entry_live h') (?e # dh_heap h)))"
      using H(1) insort_filter_mset [of "entry_live h'" ?e "dh_heap h"] by (simp add: heap_timers_def)
    also have "\<dots> = add_mset (?g h' ?e) (image_mset (?g h') (mset (filter (entry_live h') (dh_heap h))))"
      using new(1) by simp
    also have "filter (entry_live h') (dh_heap h) = filter (entry_live h) (dh_heap h)"
      using other by (auto intro: filter_cong)
    also have "image_mset (?g h') (mset (filter (entry_live h) (dh_heap h))) =
        image_mset (?g h) (mset (filter (entry_live h) (dh_heap h)))"
      using other H(1) by (intro image_mset_cong) auto
    finally show ?thesis using H(1,3) new(2) by (simp add: heap_timers_def)
  qed
  moreover have "k \<notin> fst ` snd ` set (heap_timers h)" using other by (auto simp: heap_timers_keys)
  ultimately show ?thesis by blast
qed

lemma heap_timers_drop_dead [simp]:
  "heap_timers (h\<lparr>dh_heap := drop_dead h (dh_heap h)\<rparr>) = heap_timers h"
proof -
  have e: "entry_live (h\<lparr>dh_heap := es\<rparr>) = entry_live h" for es by (rule ext) simp
  show ?thesis by (simp add: heap_timers_def e)
qed

lemma heap_okay_drop_dead: "heap_okay n h \<Longrightarrow> heap_okay n (h\<lparr>dh_heap := drop_dead h (dh_heap h)\<rparr>)"
  using drop_dead_drop [of h "dh_heap h"] heap_okay_drop by metis

lemma heap_timers_top:
  assumes "drop_dead h (dh_heap h) = e0 # rest"
  shows "heap_timers h = (de_deadline e0, entry_key e0, the (ce_node (dh_cells h ! de_cell e0))) #
           heap_timers (h\<lparr>dh_heap := rest\<rparr>)"
proof -
  have e: "entry_live (h\<lparr>dh_heap := es\<rparr>) = entry_live h" for es by (rule ext) simp
  from assms drop_dead_filter [of h "dh_heap h"] drop_dead_live [OF assms]
  have "filter (entry_live h) (dh_heap h) = e0 # filter (entry_live h) rest" by simp
  then show ?thesis by (simp add: heap_timers_def e)
qed

lemma heap_timers_none: "drop_dead h (dh_heap h) = [] \<Longrightarrow> heap_timers h = []"
  using drop_dead_filter [of h "dh_heap h"] by (simp add: heap_timers_def)

lemma heap_timers_sorted: "heap_okay n h \<Longrightarrow> sorted (map fst (heap_timers h))"
proof -
  assume "heap_okay n h"
  then have "sorted (filter (entry_live h) (dh_heap h))" by (simp add: heap_okay_def sorted_wrt_filter)
  then have "sorted (map de_deadline (filter (entry_live h) (dh_heap h)))"
    by (rule sorted_map_mono) (auto simp: mono_on_def entry_le_deadline)
  then show ?thesis by (simp add: heap_timers_def o_def)
qed

lemma heap_peek_timers:
  assumes "heap_okay n h" "heap_peek h = (r, h')"
  shows "heap_okay n h' \<and> heap_timers h' = heap_timers h \<and>
         r = (case heap_timers h of [] \<Rightarrow> None | t # _ \<Rightarrow> Some (fst t))"
proof -
  have h': "h' = h\<lparr>dh_heap := drop_dead h (dh_heap h)\<rparr>" using assms(2) by (simp add: heap_peek_def Let_def)
  have "r = (case heap_timers h of [] \<Rightarrow> None | t # _ \<Rightarrow> Some (fst t))"
    using assms(2) heap_timers_top [of h] heap_timers_none [of h]
    by (cases "drop_dead h (dh_heap h)") (auto simp: heap_peek_def Let_def)
  with h' heap_okay_drop_dead [OF assms(1)] show ?thesis by simp
qed

lemma heap_pop_timers:
  assumes ok: "heap_okay n h" and p: "heap_pop now h = (Some nid, h')"
  shows "\<exists>d k. d \<le> now \<and> heap_timers h = (d, k, nid) # heap_timers h'" "n = Suc m \<Longrightarrow> heap_okay m h'"
proof -
  from p obtain e0 rest where d: "drop_dead h (dh_heap h) = e0 # rest" and n: "de_deadline e0 \<le> now"
    and t: "take_live (de_cell e0) (de_generation e0) (h\<lparr>dh_heap := rest\<rparr>) = (Some nid, h')"
    by (auto simp: heap_pop_def not_less split: list.splits if_splits)
  let ?h = "h\<lparr>dh_heap := rest\<rparr>" and ?k = "entry_key e0"
  have t: "take_live (tk_cell ?k) (tk_generation ?k) ?h = (Some nid, h')" using t by (simp add: entry_key_def)
  have live: "entry_live h e0" by (rule drop_dead_live [OF d])
  obtain j where j: "drop j (dh_heap h) = e0 # rest" using drop_dead_drop [of h "dh_heap h"] d by metis
  have nid: "nid = the (ce_node (dh_cells h ! de_cell e0))"
    using t live by (auto simp: take_live_def entry_key_def entry_live_def is_live_def split: if_splits)
  have "distinct (map entry_key (drop j (dh_heap h)))"
    using ok by (simp add: heap_okay_def drop_map [symmetric])
  then have "?k \<notin> entry_key ` set rest" using j by simp
  then have "\<forall>t\<in>set (heap_timers ?h). fst (snd t) \<noteq> ?k" by (force simp: heap_timers_def)
  then have "heap_timers h' = heap_timers ?h"
    using take_live_timers [OF t] by (simp add: filter_id_conv)
  with heap_timers_top [OF d] n nid show "\<exists>d k. d \<le> now \<and> heap_timers h = (d, k, nid) # heap_timers h'" by auto
  assume "n = Suc m"
  moreover have "rest = drop (Suc j) (dh_heap h)" using j by (metis drop_Suc list.sel(3) tl_drop)
  ultimately have "heap_okay (Suc m) ?h" using heap_okay_drop [of "Suc m" h "Suc j"] ok by simp
  from take_live_okay [OF this t] show "heap_okay m h'" .
qed

lemma heap_pop_none:
  assumes ok: "heap_okay n h" and p: "heap_pop now h = (None, h')"
  shows "heap_okay n h' \<and> heap_timers h' = heap_timers h \<and> (\<forall>t\<in>set (heap_timers h). now < fst t)"
proof (cases "drop_dead h (dh_heap h)")
  case Nil
  with p have "h' = h\<lparr>dh_heap := drop_dead h (dh_heap h)\<rparr>" by (simp add: heap_pop_def)
  with heap_timers_none [OF Nil] heap_okay_drop_dead [OF ok] show ?thesis by simp
next
  case (Cons e0 rest)
  have live: "entry_live h e0" by (rule drop_dead_live [OF Cons])
  with p Cons have "h' = h\<lparr>dh_heap := drop_dead h (dh_heap h)\<rparr>" and n: "now < de_deadline e0"
    by (auto simp: heap_pop_def take_live_def entry_live_def is_live_def split: if_splits)
  moreover have "\<forall>t\<in>set (heap_timers h). de_deadline e0 \<le> fst t"
    using heap_timers_sorted [OF ok] heap_timers_top [OF Cons] by auto
  ultimately show ?thesis using heap_okay_drop_dead [OF ok] n by auto
qed

interpretation deadline: timer_queue heap_timers heap_okay heap_register heap_cancel heap_peek heap_pop
proof unfold_locales
  show "heap_okay (Suc n) h \<Longrightarrow> heap_okay n h" for n h by (auto simp: heap_okay_def)
  show "heap_okay n (heap_cancel k h) \<and> heap_timers (heap_cancel k h) = filter (\<lambda>t. fst (snd t) \<noteq> k) (heap_timers h)"
    if "heap_okay (Suc n) h" for n k h
    using take_live_okay [OF that] take_live_timers
    by (cases "take_live (tk_cell k) (tk_generation k) h") (auto simp: heap_cancel_def)
  show "heap_okay (Suc n) h \<Longrightarrow> heap_pop now h = (Some nid, h') \<Longrightarrow> heap_okay n h'" for n h now nid h'
    using heap_pop_timers(2) by blast
qed (fact heap_timers_sorted heap_register_timers heap_peek_timers heap_pop_timers(1) heap_pop_none)+

lemma expire_loop_pops: "expire_loop now h = (ids, h') \<Longrightarrow> deadline.pops now h ids h'"
proof (induction now h arbitrary: ids rule: expire_loop.induct)
  case (1 now h)
  obtain r h1 where p: "heap_pop now h = (r, h1)" by (cases "heap_pop now h")
  show ?case
  proof (cases r)
    case None
    with 1(2) p show ?thesis by (auto intro: deadline.pops.last)
  next
    case (Some nid)
    obtain ids1 where "expire_loop now h1 = (ids1, h')" "ids = nid # ids1"
      using 1(2) p Some by (cases "expire_loop now h1") (auto simp: Let_def)
    with 1(1) p Some show ?thesis by (auto intro: deadline.pops.due)
  qed
qed

section \<open>Properties\<close>

text \<open>Any use of a thread's timers, and the timers it leaves, told by a list.\<close>

datatype timer_op = OpArm node_id nat | OpCancel timer_key | OpEarliest | OpExpire nat

definition timer_exec :: "timer_op \<Rightarrow> deadline_heap \<Rightarrow> (timer_key option \<times> nat option \<times> node_id list) \<times> deadline_heap" where
  "timer_exec op h =
     (case op of
        OpArm nid d \<Rightarrow> (let (k, h') = timer_arm nid d h in ((Some k, None, []), h'))
      | OpCancel k \<Rightarrow> ((None, None, []), guard_drop k h)
      | OpEarliest \<Rightarrow> (let (r, h') = timers_earliest h in ((None, r, []), h'))
      | OpExpire now \<Rightarrow> (let (ids, h') = timers_expire now h in ((None, None, ids), h')))"

fun timer_run :: "timer_op list \<Rightarrow> deadline_heap \<Rightarrow> deadline_heap" where
  "timer_run [] h = h"
| "timer_run (op # ops) h = timer_run ops (snd (timer_exec op h))"

text \<open>What an operation does to the live timers \<open>ts\<close>, earliest first.\<close>

fun timer_spec ::
  "timer_op \<Rightarrow> (timer_key option \<times> nat option \<times> node_id list) \<Rightarrow> (nat \<times> timer_key \<times> node_id) list \<Rightarrow>
   (nat \<times> timer_key \<times> node_id) list \<Rightarrow> bool" where
  "timer_spec (OpArm nid d) (k, r, ids) ts ts' \<longleftrightarrow>
     (\<exists>k'. k = Some k' \<and> mset ts' = add_mset (d, k', nid) (mset ts) \<and> k' \<notin> fst ` snd ` set ts)"
| "timer_spec (OpCancel k) ans ts ts' \<longleftrightarrow> ts' = filter (\<lambda>t. fst (snd t) \<noteq> k) ts"
| "timer_spec OpEarliest (k, r, ids) ts ts' \<longleftrightarrow>
     ts' = ts \<and> r = (case ts of [] \<Rightarrow> None | t # _ \<Rightarrow> Some (fst t))"
| "timer_spec (OpExpire now) (k, r, ids) ts ts' \<longleftrightarrow>
     ids = map (snd \<circ> snd) (filter (\<lambda>t. fst t \<le> now) ts) \<and> ts' = filter (\<lambda>t. now < fst t) ts"

lemma timers_expire_due:
  assumes e: "timers_expire now h = (ids, h')" and ok: "heap_okay (length (filter (\<lambda>t. fst t \<le> now) (heap_timers h)) + n) h"
  shows "heap_okay n h' \<and> ids = map (snd \<circ> snd) (filter (\<lambda>t. fst t \<le> now) (heap_timers h)) \<and>
     heap_timers h' = filter (\<lambda>t. now < fst t) (heap_timers h)"
proof -
  obtain r h1 where p: "heap_peek h = (r, h1)" by (cases "heap_peek h")
  from heap_peek_timers [OF ok p] have a: "heap_okay (length (filter (\<lambda>t. fst t \<le> now) (heap_timers h1)) + n) h1" "heap_timers h1 = heap_timers h"
    "r = (case heap_timers h of [] \<Rightarrow> None | t # _ \<Rightarrow> Some (fst t))" by simp_all
  show ?thesis
  proof (cases r)
    case None
    with a have "heap_timers h = []" by (auto split: list.splits)
    with e p None a show ?thesis by (auto simp: timers_expire_def)
  next
    case (Some d)
    with e p have "expire_loop now h1 = (ids, h')" by (simp add: timers_expire_def)
    from deadline.pops_due [OF expire_loop_pops [OF this] a(1)] a(2) show ?thesis by simp
  qed
qed

lemma timer_exec_spec:
  assumes e: "timer_exec op h = (ans, h')" and ok: "heap_okay (length (heap_timers h) + Suc m) h"
  shows "timer_spec op ans (heap_timers h) (heap_timers h') \<and> heap_okay (length (heap_timers h') + m) h'"
proof (cases op)
  case (OpArm nid d)
  obtain k h1 where r: "heap_register nid d h = (k, h1)" by (cases "heap_register nid d h")
  note R = deadline.register_adds [OF ok r]
  then have "length (heap_timers h1) = Suc (length (heap_timers h))" by (metis size_add_mset size_mset)
  with R r e OpArm show ?thesis by (auto simp: timer_exec_def timer_arm_def)
next
  case (OpCancel k)
  with e have h': "h' = heap_cancel k h" by (simp add: timer_exec_def guard_drop_def timer_cancel_def)
  have "heap_okay (Suc (length (heap_timers h) + m)) h" using ok by simp
  note C = deadline.cancel_removes [OF this, of k]
  have "length (heap_timers h') \<le> length (heap_timers h)" using C h' by simp
  then have "heap_okay (length (heap_timers h') + m) h'"
    using C h' deadline.okay_mono [of "length (heap_timers h) - length (heap_timers h')" "length (heap_timers h') + m" h']
    by simp
  with C h' OpCancel show ?thesis by simp
next
  case OpEarliest
  obtain r h1 where p: "heap_peek h = (r, h1)" by (cases "heap_peek h")
  from deadline.peek_first [OF ok p] e p OpEarliest deadline.okay_less show ?thesis
    by (auto simp: timer_exec_def timers_earliest_def)
next
  case (OpExpire now)
  obtain ids h1 where x: "timers_expire now h = (ids, h1)" by (cases "timers_expire now h")
  let ?due = "filter (\<lambda>t. fst t \<le> now) (heap_timers h)" and ?rest = "filter (\<lambda>t. now < fst t) (heap_timers h)"
  have "length (heap_timers h) = length ?due + length ?rest"
    using sum_length_filter_compl [of "\<lambda>t. fst t \<le> now" "heap_timers h"] by (simp add: not_le)
  then have "heap_okay (length ?due + (length ?rest + Suc m)) h" using ok by (simp add: add.assoc)
  from timers_expire_due [OF x this] e x OpExpire deadline.okay_less show ?thesis
    by (auto simp: timer_exec_def)
qed

lemma timer_run_okay:
  "heap_okay (length (heap_timers h) + (length ops + m)) h \<Longrightarrow>
     heap_okay (length (heap_timers (timer_run ops h)) + m) (timer_run ops h)"
proof (induction ops arbitrary: h)
  case (Cons op ops)
  have "heap_okay (length (heap_timers h) + Suc (length ops + m)) h" using Cons.prems by simp
  from timer_exec_spec [OF _ this, of op] Cons.IH show ?case by (cases "timer_exec op h") simp
qed simp

text \<open>C22. A poll thread's timers are a list of live timers, earliest first. After any sequence of fewer than
  \<open>2 ^ 64\<close> arms, cancels, peeks and expiries, with any deadlines and any recycling of cells: arming adds one
  timer under a key no live timer has; dropping a guard removes its timer and no other, and nothing when
  it fired or was cancelled before, even when its cell is in use again; the earliest deadline is that of
  the first live timer; and an expiry wakes exactly the nodes whose deadlines have passed, in deadline
  order, and leaves exactly the others.\<close>

theorem timers_refine_list:
  assumes "length ops + 1 < 2 ^ 64"
  shows "let h = timer_run ops heap_new; (ans, h') = timer_exec op h
         in sorted (map fst (heap_timers h)) \<and> timer_spec op ans (heap_timers h) (heap_timers h')"
proof -
  have "heap_okay (length (heap_timers heap_new) + (length ops + 1)) heap_new"
    using assms by (simp add: heap_okay_def heap_new_def heap_timers_def)
  from timer_run_okay [OF this] have ok: "heap_okay (length (heap_timers (timer_run ops heap_new)) + Suc 0) (timer_run ops heap_new)"
    by simp
  from timer_exec_spec [OF _ ok] deadline.earliest_first [OF ok] show ?thesis
    by (cases "timer_exec op (timer_run ops heap_new)") (simp add: Let_def)
qed

text \<open>A cancelled timer's cell is used again; its old key cancels nothing.\<close>

theorem timers_refine_list_witness:
  "let k = \<lparr>tk_cell = 0, tk_generation = 0\<rparr>; h = timer_run [OpArm 7 5, OpCancel k, OpArm 8 3, OpArm 9 1] heap_new
   in heap_timers (guard_drop k h) = heap_timers h \<and> fst (timers_expire 4 h) = [9, 8]"
proof -
  let ?k = "\<lparr>tk_cell = 0, tk_generation = 0\<rparr>" let ?ops = "[OpArm 7 5, OpCancel ?k, OpArm 8 3, OpArm 9 1]"
  let ?h = "timer_run ?ops heap_new"
  have l: "length ?ops + 1 < 2 ^ 64" by simp
  have t: "map (fst \<circ> snd) (heap_timers ?h) = [\<lparr>tk_cell = 1, tk_generation = 0\<rparr>, \<lparr>tk_cell = 0, tk_generation = 1\<rparr>]"
      "map (snd \<circ> snd) (filter (\<lambda>t. fst t \<le> 4) (heap_timers ?h)) = [9, 8]"
    by code_simp+
  from t(1) have "\<forall>t\<in>set (heap_timers ?h). (fst \<circ> snd) t \<noteq> ?k"
    by (metis (no_types, lifting) list.set_map image_eqI list.set(1,2) insertE empty_iff timer_key.ext_inject zero_neq_one)
  then have "filter (\<lambda>t. fst (snd t) \<noteq> ?k) (heap_timers ?h) = heap_timers ?h" by (simp add: filter_id_conv)
  with timers_refine_list [OF l, of "OpCancel ?k"] have "heap_timers (guard_drop ?k ?h) = heap_timers ?h"
    by (simp add: timer_exec_def Let_def)
  moreover have "fst (timers_expire 4 ?h) = [9, 8]"
    using timers_refine_list [OF l, of "OpExpire 4"] t(2) by (cases "timers_expire 4 ?h") (simp add: timer_exec_def Let_def)
  ultimately show ?thesis by (simp add: Let_def)
qed

text \<open>C33. A timed wait owns at most one timer and leaves none behind. Pending, it holds one timer for its
  own fixed deadline, armed by its first pending poll; resolving, or dropped, it removes its own timer
  and no other. A resolved wait beats an expired deadline, and only a passed deadline ends a pending
  one.\<close>

theorem timed_wait_one_timer:
  assumes ok: "heap_okay (Suc n) h" and p: "timed_wait_poll nid now wait d h = (p, d', h')"
  shows "dl_at d' = dl_at d \<and>
    (case p of
       Pending \<Rightarrow>
         wait = Pending \<and> now < dl_at d \<and>
         (case dl_armed d of
            None \<Rightarrow> \<exists>k. dl_armed d' = Some k \<and> mset (heap_timers h') = add_mset (dl_at d, k, nid) (mset (heap_timers h))
          | Some k \<Rightarrow> d' = d \<and> h' = h)
     | PReady r \<Rightarrow>
         r = (case wait of PReady v \<Rightarrow> Some v | Pending \<Rightarrow> None) \<and> (wait = Pending \<longrightarrow> dl_at d \<le> now) \<and>
         dl_armed d' = None \<and> heap_timers h' = heap_timers (timed_wait_drop d h) \<and>
         heap_timers h' = filter (\<lambda>t. dl_armed d \<noteq> Some (fst (snd t))) (heap_timers h))"
proof -
  have drp: "heap_timers (disarm (dl_armed d) h) = filter (\<lambda>t. dl_armed d \<noteq> Some (fst (snd t))) (heap_timers h)"
  proof (cases "dl_armed d")
    case (Some k)
    have "k \<noteq> fst (snd t) \<longleftrightarrow> fst (snd t) \<noteq> k" for t :: "nat \<times> timer_key \<times> node_id" by auto
    with Some deadline.cancel_removes [OF ok, of k] show ?thesis
      by (simp add: disarm_def guard_drop_def timer_cancel_def)
  qed (simp add: disarm_def)
  obtain k h1 where a: "timer_arm nid (dl_at d) h = (k, h1)" by (cases "timer_arm nid (dl_at d) h")
  then have "mset (heap_timers h1) = add_mset (dl_at d, k, nid) (mset (heap_timers h))"
    using deadline.register_adds [OF ok] by (simp add: timer_arm_def)
  with p drp a show ?thesis
    by (cases wait; cases "dl_at d \<le> now"; cases "dl_armed d") (auto simp: timed_wait_poll_def timed_wait_drop_def)
qed

theorem timed_wait_one_timer_witness:
  "let (p, d, h) = timed_wait_poll 3 10 (Pending :: nat poll) \<lparr>dl_at = 20, dl_armed = None\<rparr> heap_new
   in p = Pending \<and> mset (heap_timers h) = {#(20, the (dl_armed d), 3)#}"
proof -
  have ok: "heap_okay (Suc 0) heap_new" by (simp add: heap_okay_def heap_new_def)
  obtain p d h where e: "timed_wait_poll 3 10 (Pending :: nat poll) \<lparr>dl_at = 20, dl_armed = None\<rparr> heap_new = (p, d, h)"
    by (metis prod_cases3)
  moreover have "p = Pending" using e by (auto simp: timed_wait_poll_def timer_arm_def split: prod.splits)
  ultimately show ?thesis using timed_wait_one_timer [OF ok e] by (auto simp: heap_timers_def heap_new_def)
qed

text \<open>\<open>sleep\<close> in a poll thread is a timed wait for nothing: polled with the node's own timer, it does to
  the timers exactly what a timed wait on a future that never resolves does, and resolves exactly when
  that wait gives up.\<close>

lemma sleep_is_timed_wait:
  "sleep_poll (Some nid) now s h =
     (let (p, d, h') = timed_wait_poll nid now (Pending :: unit poll) s h
      in (case p of Pending \<Rightarrow> Pending | PReady _ \<Rightarrow> PReady (Ok ()), d, h'))"
  by (cases "dl_armed s") (auto simp: sleep_poll_def timed_wait_poll_def Let_def split: prod.splits)

end
