(* ===== verification/Treiber_Stack.thy ===== *)
theory Treiber_Stack
  imports Areamy_Prelude
begin

text \<open>
  The lock-free stack of woken node ids (src/poll/scheduler/treiber.rs, treiber/node.rs, treiber/link.rs)
  and the parker its consumer sleeps on (src/wake/parker.rs), one atomic operation or one critical
  section at a time. Atomic operations are sequentially consistent here: the orderings the code asks for
  are not modelled.
\<close>

section \<open>Links, nodes, the stack\<close>

type_synonym link = nat

definition LINK_NONE :: link where
  "LINK_NONE = 2 ^ 64 - 1"

definition link_of :: "nat \<Rightarrow> link" where
  "link_of i = i"

definition link_index :: "link \<Rightarrow> nat" where
  "link_index l = l"

record tnode =
  tn_queued :: bool
  tn_below :: link

definition nodes_new :: "nat \<Rightarrow> tnode list" where
  "nodes_new n = replicate n \<lparr>tn_queued = False, tn_below = LINK_NONE\<rparr>"

text \<open>\<open>claim\<close> is a fetch-or of the queued bit, \<open>release\<close> a swap that clears it.\<close>

definition node_claim :: "nat \<Rightarrow> tnode list \<Rightarrow> bool \<times> tnode list" where
  "node_claim i ns = (tn_queued (ns ! i), ns[i := (ns ! i)\<lparr>tn_queued := True\<rparr>])"

definition node_link :: "nat \<Rightarrow> link \<Rightarrow> tnode list \<Rightarrow> tnode list" where
  "node_link i below ns = ns[i := (ns ! i)\<lparr>tn_below := below\<rparr>]"

definition node_release :: "nat \<Rightarrow> tnode list \<Rightarrow> tnode list" where
  "node_release i ns = ns[i := (ns ! i)\<lparr>tn_queued := False\<rparr>]"

record treiber =
  ts_head :: link
  ts_nodes :: "tnode list option"
  ts_early :: nat

definition treiber_new :: treiber where
  "treiber_new = \<lparr>ts_head = LINK_NONE, ts_nodes = None, ts_early = 0\<rparr>"

text \<open>\<open>init\<close> makes the nodes, then swaps \<open>early\<close>.\<close>

definition treiber_make :: "nat \<Rightarrow> treiber \<Rightarrow> treiber" where
  "treiber_make n s = (case ts_nodes s of None \<Rightarrow> s\<lparr>ts_nodes := Some (nodes_new n)\<rparr> | Some _ \<Rightarrow> s)"

definition treiber_swap_early :: "treiber \<Rightarrow> treiber" where
  "treiber_swap_early s = s\<lparr>ts_early := 0\<rparr>"

section \<open>A push, one atomic operation at a time\<close>

datatype push_pc =
    PushLook nat                \<comment> \<open>\<open>push\<close>, about to look for the nodes\<close>
  | PushEarly nat               \<comment> \<open>found none: about to mark \<open>early\<close>\<close>
  | PushLookAgain nat
  | PushClaim nat               \<comment> \<open>\<open>push_onto\<close>\<close>
  | PushHead nat                \<comment> \<open>\<open>publish\<close>: the node is this push's\<close>
  | PushLink nat link
  | PushCas nat link
  | PushDone

text \<open>\<open>spurious\<close>: a weak compare-exchange may fail with the expected value.\<close>

fun push_atomic :: "bool \<Rightarrow> push_pc \<Rightarrow> treiber \<Rightarrow> push_pc \<times> treiber" where
  "push_atomic spurious (PushLook i) s =
     (case ts_nodes s of Some _ \<Rightarrow> PushClaim i | None \<Rightarrow> PushEarly i, s)"
| "push_atomic spurious (PushEarly i) s = (PushLookAgain i, s\<lparr>ts_early := 1\<rparr>)"
| "push_atomic spurious (PushLookAgain i) s =
     (case ts_nodes s of Some _ \<Rightarrow> PushClaim i | None \<Rightarrow> PushDone, s)"
| "push_atomic spurious (PushClaim i) s =
     (case ts_nodes s of
        None \<Rightarrow> (PushDone, s)
      | Some ns \<Rightarrow>
          (if i < length ns
           then (let (queued, ns') = node_claim i ns
                 in (if queued then PushDone else PushHead i, s\<lparr>ts_nodes := Some ns'\<rparr>))
           else (PushDone, s)))"
| "push_atomic spurious (PushHead i) s = (PushLink i (ts_head s), s)"
| "push_atomic spurious (PushLink i below) s =
     (PushCas i below, s\<lparr>ts_nodes := map_option (node_link i below) (ts_nodes s)\<rparr>)"
| "push_atomic spurious (PushCas i below) s =
     (if ts_head s = below \<and> \<not> spurious then (PushDone, s\<lparr>ts_head := link_of i\<rparr>)
      else (PushLink i (ts_head s), s))"
| "push_atomic spurious PushDone s = (PushDone, s)"

definition treiber_take :: "treiber \<Rightarrow> link \<times> treiber" where
  "treiber_take s = (ts_head s, s\<lparr>ts_head := LINK_NONE\<rparr>)"

text \<open>\<open>next\<close>: the id to release and the link below it, read before the release.\<close>

definition treiber_walk :: "link \<Rightarrow> treiber \<Rightarrow> (nat \<times> link) option" where
  "treiber_walk walk s =
     (case ts_nodes s of
        None \<Rightarrow> None
      | Some ns \<Rightarrow> if link_index walk < length ns then Some (link_index walk, tn_below (ns ! link_index walk)) else None)"

definition treiber_release :: "nat \<Rightarrow> treiber \<Rightarrow> treiber" where
  "treiber_release i s = s\<lparr>ts_nodes := map_option (node_release i) (ts_nodes s)\<rparr>"

section \<open>The parker\<close>

record parker =
  pk_woken :: bool
  pk_parked :: bool

definition parker_new :: parker where
  "parker_new = \<lparr>pk_woken = False, pk_parked = False\<rparr>"

text \<open>\<open>sleep\<close> up to its first wait: whether it returns at once. Then each turn of its loop, with whether
  the deadline has passed: whether it returns.\<close>

definition park_lock :: "parker \<Rightarrow> bool \<times> parker" where
  "park_lock p = (if pk_woken p then (True, p\<lparr>pk_woken := False\<rparr>) else (False, p\<lparr>pk_parked := True\<rparr>))"

definition park_turn :: "bool \<Rightarrow> parker \<Rightarrow> bool \<times> parker" where
  "park_turn expired p =
     (if pk_woken p then (True, p\<lparr>pk_woken := False\<rparr>)
      else if expired then (True, p\<lparr>pk_parked := False\<rparr>)
      else (False, p))"

text \<open>A wake's critical section: whether to notify after it.\<close>

definition parker_wake :: "parker \<Rightarrow> bool \<times> parker" where
  "parker_wake p = (pk_parked p, \<lparr>pk_woken = True, pk_parked = False\<rparr>)"

section \<open>Chains\<close>

text \<open>\<open>chain ns l ids\<close>: from \<open>l\<close>, the links below lead through \<open>ids\<close> to no node.\<close>

fun chain :: "tnode list \<Rightarrow> link \<Rightarrow> nat list \<Rightarrow> bool" where
  "chain ns l [] \<longleftrightarrow> l = LINK_NONE"
| "chain ns l (i # ids) \<longleftrightarrow> l = link_of i \<and> i < length ns \<and> chain ns (tn_below (ns ! i)) ids"

lemma chain_cong:
  "(\<And>i. i \<in> set ids \<Longrightarrow> tn_below (ns' ! i) = tn_below (ns ! i)) \<Longrightarrow> length ns' = length ns \<Longrightarrow>
     chain ns' l ids \<longleftrightarrow> chain ns l ids"
  by (induction ids arbitrary: l) auto

lemma chain_length: "chain ns l ids \<Longrightarrow> i \<in> set ids \<Longrightarrow> i < length ns"
  by (induction ids arbitrary: l) auto

lemma chain_unique: "chain ns l ids \<Longrightarrow> chain ns l ids' \<Longrightarrow> length ns < LINK_NONE \<Longrightarrow> ids = ids'"
proof (induction ids arbitrary: l ids')
  case Nil
  then show ?case by (cases ids') (auto simp: link_of_def)
next
  case (Cons i ids)
  then show ?case by (cases ids') (auto simp: link_of_def)
qed

lemma node_length [simp]:
  "length (snd (node_claim i ns)) = length ns" "length (node_link i l ns) = length ns"
  "length (node_release i ns) = length ns"
  by (simp_all add: node_claim_def node_link_def node_release_def)

lemma chain_claim [simp]: "chain (snd (node_claim i ns)) l ids = chain ns l ids"
  by (rule chain_cong) (auto simp: node_claim_def nth_update_any)

lemma chain_release [simp]: "chain (node_release i ns) l ids = chain ns l ids"
  by (rule chain_cong) (auto simp: node_release_def nth_update_any)

lemma chain_link: "i \<notin> set ids \<Longrightarrow> chain (node_link i b ns) l ids = chain ns l ids"
  by (rule chain_cong) (auto simp: node_link_def nth_update_any)

lemma queued_claim [simp]:
  "tn_queued (snd (node_claim i ns) ! j) \<longleftrightarrow> tn_queued (ns ! j) \<or> j = i \<and> i < length ns"
  by (auto simp: node_claim_def nth_update_any)

lemma queued_link [simp]: "tn_queued (node_link i b ns ! j) = tn_queued (ns ! j)"
  by (auto simp: node_link_def nth_update_any)

lemma queued_release [simp]: "j < length ns \<Longrightarrow> tn_queued (node_release i ns ! j) \<longleftrightarrow> tn_queued (ns ! j) \<and> j \<noteq> i"
  by (auto simp: node_release_def nth_update_any)

lemma below_link [simp]: "i < length ns \<Longrightarrow> tn_below (node_link i b ns ! i) = b"
  by (simp add: node_link_def)

section \<open>Uncontended\<close>

text \<open>\<open>push\<close> with no other thread on the stack and no spurious failure: at most five atomic operations.\<close>

definition treiber_push :: "nat \<Rightarrow> treiber \<Rightarrow> treiber" where
  "treiber_push i s = snd (((\<lambda>(pc, st). push_atomic False pc st) ^^ 5) (PushLook i, s))"

definition treiber_init :: "nat \<Rightarrow> treiber \<Rightarrow> treiber" where
  "treiber_init n s = treiber_swap_early (treiber_make n s)"

definition treiber_next :: "link \<Rightarrow> treiber \<Rightarrow> nat option \<times> link \<times> treiber" where
  "treiber_next walk s =
     (case treiber_walk walk s of
        Some (i, below) \<Rightarrow> (Some i, below, treiber_release i s)
      | None \<Rightarrow> (None, walk, s))"

text \<open>What \<open>next\<close> hands out from \<open>walk\<close> until it finds none, at most \<open>k\<close> ids.\<close>

fun batch_ids :: "nat \<Rightarrow> link \<Rightarrow> treiber \<Rightarrow> nat list" where
  "batch_ids 0 walk s = []"
| "batch_ids (Suc k) walk s =
     (case treiber_next walk s of
        (None, _) \<Rightarrow> []
      | (Some i, walk', s') \<Rightarrow> i # batch_ids k walk' s')"

definition stacked :: "nat \<Rightarrow> treiber \<Rightarrow> nat list \<Rightarrow> bool" where
  "stacked n s hs \<longleftrightarrow>
     (\<exists>ns. ts_nodes s = Some ns \<and> length ns = n \<and> chain ns (ts_head s) hs \<and> distinct hs \<and>
        (\<forall>i < n. tn_queued (ns ! i) \<longleftrightarrow> i \<in> set hs))"

lemma stacked_init: "ts_nodes s = None \<Longrightarrow> ts_head s = LINK_NONE \<Longrightarrow> stacked n (treiber_init n s) []"
  by (auto simp: stacked_def treiber_init_def treiber_swap_early_def treiber_make_def nodes_new_def)

text \<open>\<open>publish\<close> of one id: the newest first, once.\<close>

definition publish_id :: "nat \<Rightarrow> nat list \<Rightarrow> nat list" where
  "publish_id i hs = (if i \<in> set hs then hs else i # hs)"

lemma stacked_push:
  assumes "stacked n s hs" "i < n"
  shows "stacked n (treiber_push i s) (publish_id i hs)"
proof -
  from assms(1) obtain ns where N: "ts_nodes s = Some ns" "length ns = n" "chain ns (ts_head s) hs" "distinct hs"
    "\<forall>i < n. tn_queued (ns ! i) \<longleftrightarrow> i \<in> set hs" by (auto simp: stacked_def)
  let ?ns = "snd (node_claim i ns)"
  have q: "fst (node_claim i ns) \<longleftrightarrow> i \<in> set hs" using N(5) assms(2) by (simp add: node_claim_def)
  show ?thesis
  proof (cases "i \<in> set hs")
    case True
    have "treiber_push i s = s\<lparr>ts_nodes := Some ?ns\<rparr>"
      using N assms(2) q True by (simp add: treiber_push_def numeral_eq_Suc case_prod_unfold Let_def)
    then show ?thesis using N True assms(2) by (auto simp: stacked_def publish_id_def)
  next
    case False
    have "treiber_push i s = s\<lparr>ts_nodes := Some (node_link i (ts_head s) ?ns), ts_head := link_of i\<rparr>"
      using N assms(2) q False by (simp add: treiber_push_def numeral_eq_Suc case_prod_unfold Let_def)
    then show ?thesis using N False assms(2) by (auto simp: stacked_def publish_id_def chain_link)
  qed
qed

lemma stacked_pushes: "stacked n s hs \<Longrightarrow> set is \<subseteq> {..<n} \<Longrightarrow> stacked n (fold treiber_push is s) (fold publish_id is hs)"
  by (induction "is" arbitrary: s hs) (auto simp: stacked_push)

lemma batch_chain:
  assumes "ts_nodes s = Some ns" "chain ns walk ids" "length ns < LINK_NONE" "length ids \<le> k" "distinct ids"
  shows "batch_ids k walk s = ids"
  using assms
proof (induction k arbitrary: walk s ns ids)
  case 0
  then show ?case by simp
next
  case (Suc k)
  show ?case
  proof (cases ids)
    case Nil
    with Suc.prems show ?thesis by (simp add: treiber_next_def treiber_walk_def link_index_def)
  next
    case (Cons i rest)
    with Suc.prems have "chain ns (tn_below (ns ! i)) rest" "walk = i" "i < length ns" by (auto simp: link_of_def)
    moreover from this have "batch_ids k (tn_below (ns ! i)) (treiber_release i s) = rest"
      using Suc.prems Cons by (intro Suc.IH [of _ "node_release i ns"]) (auto simp: treiber_release_def)
    ultimately show ?thesis using Suc.prems Cons
      by (simp add: treiber_next_def treiber_walk_def link_index_def)
  qed
qed

lemma stacked_batch:
  assumes "stacked n s hs" "n < LINK_NONE" "treiber_take s = (l, s')"
  shows "batch_ids n l s' = hs"
proof -
  from assms(1) obtain ns where N: "ts_nodes s = Some ns" "length ns = n" "chain ns (ts_head s) hs" "distinct hs"
    by (auto simp: stacked_def)
  have "set hs \<subseteq> {..<n}" using chain_length [OF N(3)] N(2) by auto
  then have "length hs \<le> n" using N(4) by (metis card_lessThan card_mono distinct_card finite_lessThan)
  with N assms(2,3) show ?thesis by (intro batch_chain [of _ ns]) (auto simp: treiber_take_def)
qed

lemma publish_upto: "k \<le> n \<Longrightarrow> fold publish_id (rev [k..<n]) [] = [k..<n]"
proof (induction "n - k" arbitrary: k)
  case 0
  then show ?case by simp
next
  case (Suc d)
  then have "fold publish_id (rev [Suc k..<n]) [] = [Suc k..<n]" by (intro Suc.hyps(1)) auto
  moreover have "[k..<n] = k # [Suc k..<n]" using Suc.hyps(2) by (simp add: upt_conv_Cons)
  ultimately show ?case by (simp add: publish_id_def)
qed

text \<open>C36. Uncontended, the stack of a graph of fewer than \<open>usize::MAX\<close> ids hands out what was pushed after
  the nodes were made, newest first and each id once however often it was pushed, and ends; the pushes of
  \<open>Uninit::init\<close>, from the last id down, make the first batch run in id order.\<close>

theorem stack_newest_first:
  assumes "n < LINK_NONE" and "set is \<subseteq> {..<n}"
  shows "(case treiber_take (fold treiber_push is (treiber_init n treiber_new)) of
            (batch, s) \<Rightarrow> batch_ids n batch s = fold publish_id is [] \<and> distinct (batch_ids n batch s) \<and>
                set (batch_ids n batch s) = set is \<and> ts_head s = LINK_NONE) \<and>
         (case treiber_take (fold treiber_push (rev [0..<n]) (treiber_init n treiber_new)) of
            (batch, s) \<Rightarrow> batch_ids n batch s = [0..<n])"
proof -
  have i: "stacked n (treiber_init n treiber_new) []" by (rule stacked_init) (simp_all add: treiber_new_def)
  have d: "distinct (fold publish_id is hs) \<and> set (fold publish_id is hs) = set is \<union> set hs" if "distinct hs" for hs
    using that by (induction "is" arbitrary: hs) (auto simp: publish_id_def)
  have "batch_ids n l s = fold publish_id is []"
    if "treiber_take (fold treiber_push is (treiber_init n treiber_new)) = (l, s)" for l s
    using stacked_batch [OF stacked_pushes [OF i assms(2)] assms(1) that] .
  moreover have "batch_ids n l s = [0..<n]"
    if "treiber_take (fold treiber_push (rev [0..<n]) (treiber_init n treiber_new)) = (l, s)" for l s
    using stacked_batch [OF stacked_pushes [OF i, of "rev [0..<n]"] assms(1) that] publish_upto [of 0 n]
    by (simp add: lessThan_atLeast0)
  ultimately show ?thesis using d [of "[]"]
    by (auto simp: treiber_take_def split: prod.splits)
qed

theorem stack_newest_first_witness:
  "case treiber_take (fold treiber_push [1, 0, 1] (treiber_init 3 treiber_new)) of
     (batch, s) \<Rightarrow> batch_ids 3 batch s = [0, 1]"
  using stack_newest_first [of 3 "[1, 0, 1]"] by (auto simp: LINK_NONE_def publish_id_def split: prod.splits)

end
