(* ===== verification/Poll_Scheduler.thy ===== *)
theory Poll_Scheduler
  imports Treiber_Stack
begin

text \<open>
  A poll thread's scheduler (src/poll/scheduler/): any number of producer threads push ids and wake the
  parker (producer.rs), same-thread wakers push during a poll (local.rs), and the consumer makes the
  nodes, pushes every id once, and then walks batches, pushes expired timers at each boundary, and parks
  on an empty take (consumer.rs). A step is one atomic operation or one critical section of one thread;
  a weak compare-exchange may fail, the condvar may wake spuriously, a timed park may time out, and which
  timers have expired and which nodes a poll wakes is left open.
\<close>

section \<open>Threads\<close>

datatype prod_pc = PIdle | PPush push_pc | PUnpark | PNotify

text \<open>What a push on the poll thread goes back to.\<close>

datatype local_ret = RFirst nat | RPoll nat | RExpire "nat list"

datatype cons_pc =
    CMake                       \<comment> \<open>\<open>Uninit::init\<close>: about to make the nodes\<close>
  | CSwap                       \<comment> \<open>about to swap \<open>early\<close>\<close>
  | CFirst nat                  \<comment> \<open>ids below this one are still to be pushed\<close>
  | CLocal push_pc local_ret
  | CWalk bool                  \<comment> \<open>\<open>stack.next\<close> on the batch; \<open>True\<close>: right after the take\<close>
  | CRelease nat link
  | CPoll nat
  | CExpire "nat list"
  | CTake
  | CLock                       \<comment> \<open>about to lock the parker\<close>
  | CAsleep

record sched =
  sd_stack :: treiber
  sd_parker :: parker
  sd_notified :: bool
  sd_prods :: "prod_pc list"
  sd_cons :: cons_pc
  sd_batch :: link

definition sched_new :: sched where
  "sched_new =
     \<lparr>sd_stack = treiber_new, sd_parker = parker_new, sd_notified = False, sd_prods = [], sd_cons = CMake,
      sd_batch = LINK_NONE\<rparr>"

fun resume_local :: "local_ret \<Rightarrow> cons_pc" where
  "resume_local (RFirst k) = CFirst k"
| "resume_local (RPoll i) = CPoll i"
| "resume_local (RExpire ids) = CExpire ids"

definition local_pc :: "push_pc \<Rightarrow> local_ret \<Rightarrow> cons_pc" where
  "local_pc pc ret = (if pc = PushDone then resume_local ret else CLocal pc ret)"

definition prod_pc_of :: "push_pc \<Rightarrow> prod_pc" where
  "prod_pc_of pc = (if pc = PushDone then PUnpark else PPush pc)"

text \<open>\<open>try_next\<close> from a walk: the batch's next id, or the boundary, or the park.\<close>

definition walk_pc :: "bool \<Rightarrow> nat list \<Rightarrow> sched \<Rightarrow> cons_pc" where
  "walk_pc taken expired s =
     (case treiber_walk (sd_batch s) (sd_stack s) of
        Some (i, below) \<Rightarrow> CRelease i below
      | None \<Rightarrow> if taken then CLock else CExpire expired)"

inductive prod_step :: "sched \<Rightarrow> prod_pc \<Rightarrow> sched \<Rightarrow> prod_pc \<Rightarrow> bool" where
  wake: "prod_step s PIdle s (PPush (PushLook i))"
| push: "push_atomic spurious pc (sd_stack s) = (pc', st) \<Longrightarrow>
     prod_step s (PPush pc) (s\<lparr>sd_stack := st\<rparr>) (prod_pc_of pc')"
| unpark: "parker_wake (sd_parker s) = (notify, p) \<Longrightarrow>
     prod_step s PUnpark (s\<lparr>sd_parker := p\<rparr>) (if notify then PNotify else PIdle)"
| notify: "prod_step s PNotify (s\<lparr>sd_notified := (sd_notified s \<or> sd_cons s = CAsleep)\<rparr>) PIdle"

inductive cons_step :: "nat \<Rightarrow> sched \<Rightarrow> sched \<Rightarrow> bool" for n where
  make: "sd_cons s = CMake \<Longrightarrow> cons_step n s (s\<lparr>sd_stack := treiber_make n (sd_stack s), sd_cons := CSwap\<rparr>)"
| swap: "sd_cons s = CSwap \<Longrightarrow> cons_step n s (s\<lparr>sd_stack := treiber_swap_early (sd_stack s), sd_cons := CFirst n\<rparr>)"
| first: "sd_cons s = CFirst (Suc k) \<Longrightarrow> cons_step n s (s\<lparr>sd_cons := CLocal (PushLook k) (RFirst k)\<rparr>)"
| started: "sd_cons s = CFirst 0 \<Longrightarrow> cons_step n s (s\<lparr>sd_cons := CWalk False\<rparr>)"
| push_local: "sd_cons s = CLocal pc ret \<Longrightarrow> push_atomic spurious pc (sd_stack s) = (pc', st) \<Longrightarrow>
     cons_step n s (s\<lparr>sd_stack := st, sd_cons := local_pc pc' ret\<rparr>)"
| walk: "sd_cons s = CWalk taken \<Longrightarrow> cons_step n s (s\<lparr>sd_cons := walk_pc taken expired s\<rparr>)"
| release: "sd_cons s = CRelease i below \<Longrightarrow>
     cons_step n s (s\<lparr>sd_stack := treiber_release i (sd_stack s), sd_batch := below, sd_cons := CPoll i\<rparr>)"
| polling: "sd_cons s = CPoll i \<Longrightarrow> cons_step n s (s\<lparr>sd_cons := CLocal (PushLook j) (RPoll i)\<rparr>)"
| polled: "sd_cons s = CPoll i \<Longrightarrow> cons_step n s (s\<lparr>sd_cons := CWalk False\<rparr>)"
| expire: "sd_cons s = CExpire (j # js) \<Longrightarrow> cons_step n s (s\<lparr>sd_cons := CLocal (PushLook j) (RExpire js)\<rparr>)"
| expired: "sd_cons s = CExpire [] \<Longrightarrow> cons_step n s (s\<lparr>sd_cons := CTake\<rparr>)"
| taking: "sd_cons s = CTake \<Longrightarrow> treiber_take (sd_stack s) = (l, st) \<Longrightarrow>
     cons_step n s (s\<lparr>sd_stack := st, sd_batch := l, sd_cons := CWalk True\<rparr>)"
| park: "sd_cons s = CLock \<Longrightarrow> park_lock (sd_parker s) = (ret, p) \<Longrightarrow>
     cons_step n s (s\<lparr>sd_parker := p, sd_cons := if ret then CWalk False else CAsleep\<rparr>)"
| turn: "sd_cons s = CAsleep \<Longrightarrow> park_turn timeout (sd_parker s) = (ret, p) \<Longrightarrow>
     cons_step n s (s\<lparr>sd_parker := p, sd_notified := False, sd_cons := if ret then CWalk False else CAsleep\<rparr>)"

inductive sched_step :: "nat \<Rightarrow> sched \<Rightarrow> sched \<Rightarrow> bool" for n where
  producer: "k < length (sd_prods s) \<Longrightarrow> prod_step s (sd_prods s ! k) s' pc \<Longrightarrow>
     sched_step n s (s'\<lparr>sd_prods := (sd_prods s)[k := pc]\<rparr>)"
| join: "sched_step n s (s\<lparr>sd_prods := sd_prods s @ [PIdle]\<rparr>)"
| consumer: "cons_step n s s' \<Longrightarrow> sched_step n s s'"

inductive sched_reach :: "nat \<Rightarrow> sched \<Rightarrow> bool" for n where
  start: "sched_reach n sched_new"
| step: "sched_reach n s \<Longrightarrow> sched_step n s s' \<Longrightarrow> sched_reach n s'"

text \<open>The steps as a function of who goes next: a producer, with the id it wakes when idle, or the consumer,
  with the ids its poll wakes or its timers expire; no spurious failures, no timeouts.\<close>

datatype sched_turn = TJoin | TProducer nat nat | TConsumer "nat list"

fun prod_next :: "nat \<Rightarrow> sched \<Rightarrow> prod_pc \<Rightarrow> sched \<times> prod_pc" where
  "prod_next i s PIdle = (s, PPush (PushLook i))"
| "prod_next i s (PPush pc) =
     (case push_atomic False pc (sd_stack s) of (pc', st) \<Rightarrow> (s\<lparr>sd_stack := st\<rparr>, prod_pc_of pc'))"
| "prod_next i s PUnpark =
     (case parker_wake (sd_parker s) of (notify, p) \<Rightarrow> (s\<lparr>sd_parker := p\<rparr>, if notify then PNotify else PIdle))"
| "prod_next i s PNotify = (s\<lparr>sd_notified := (sd_notified s \<or> sd_cons s = CAsleep)\<rparr>, PIdle)"

fun cons_next :: "nat \<Rightarrow> nat list \<Rightarrow> sched \<Rightarrow> cons_pc \<Rightarrow> sched" where
  "cons_next n ids s CMake = s\<lparr>sd_stack := treiber_make n (sd_stack s), sd_cons := CSwap\<rparr>"
| "cons_next n ids s CSwap = s\<lparr>sd_stack := treiber_swap_early (sd_stack s), sd_cons := CFirst n\<rparr>"
| "cons_next n ids s (CFirst 0) = s\<lparr>sd_cons := CWalk False\<rparr>"
| "cons_next n ids s (CFirst (Suc k)) = s\<lparr>sd_cons := CLocal (PushLook k) (RFirst k)\<rparr>"
| "cons_next n ids s (CLocal pc ret) =
     (case push_atomic False pc (sd_stack s) of (pc', st) \<Rightarrow> s\<lparr>sd_stack := st, sd_cons := local_pc pc' ret\<rparr>)"
| "cons_next n ids s (CWalk taken) = s\<lparr>sd_cons := walk_pc taken ids s\<rparr>"
| "cons_next n ids s (CRelease i below) =
     s\<lparr>sd_stack := treiber_release i (sd_stack s), sd_batch := below, sd_cons := CPoll i\<rparr>"
| "cons_next n ids s (CPoll i) =
     (case ids of [] \<Rightarrow> s\<lparr>sd_cons := CWalk False\<rparr> | j # _ \<Rightarrow> s\<lparr>sd_cons := CLocal (PushLook j) (RPoll i)\<rparr>)"
| "cons_next n ids s (CExpire []) = s\<lparr>sd_cons := CTake\<rparr>"
| "cons_next n ids s (CExpire (j # js)) = s\<lparr>sd_cons := CLocal (PushLook j) (RExpire js)\<rparr>"
| "cons_next n ids s CTake =
     (case treiber_take (sd_stack s) of (l, st) \<Rightarrow> s\<lparr>sd_stack := st, sd_batch := l, sd_cons := CWalk True\<rparr>)"
| "cons_next n ids s CLock =
     (case park_lock (sd_parker s) of (ret, p) \<Rightarrow> s\<lparr>sd_parker := p, sd_cons := if ret then CWalk False else CAsleep\<rparr>)"
| "cons_next n ids s CAsleep =
     (case park_turn False (sd_parker s) of
        (ret, p) \<Rightarrow> s\<lparr>sd_parker := p, sd_notified := False, sd_cons := if ret then CWalk False else CAsleep\<rparr>)"

fun sched_next :: "nat \<Rightarrow> sched_turn \<Rightarrow> sched \<Rightarrow> sched" where
  "sched_next n TJoin s = s\<lparr>sd_prods := sd_prods s @ [PIdle]\<rparr>"
| "sched_next n (TProducer k i) s =
     (if k < length (sd_prods s)
      then (case prod_next i s (sd_prods s ! k) of (s', pc) \<Rightarrow> s'\<lparr>sd_prods := (sd_prods s)[k := pc]\<rparr>)
      else s)"
| "sched_next n (TConsumer ids) s = cons_next n ids s (sd_cons s)"

definition sched_run :: "nat \<Rightarrow> sched_turn list \<Rightarrow> sched" where
  "sched_run n ts = fold (sched_next n) ts sched_new"

lemma prod_next_step: "prod_next i s pc = (s', pc') \<Longrightarrow> prod_step s pc s' pc'"
  by (cases pc) (auto intro: prod_step.intros split: prod.splits)

lemma cons_next_step: "cons_step n s (cons_next n ids s (sd_cons s))"
proof (cases "sd_cons s")
  case (CFirst k)
  then show ?thesis by (cases k) (auto intro: cons_step.intros)
next
  case (CExpire js)
  then show ?thesis by (cases js) (auto intro: cons_step.intros)
next
  case CLock
  then show ?thesis using cons_step.park [of s] by (simp split: prod.split)
next
  case CAsleep
  then show ?thesis using cons_step.turn [of s] by (simp split: prod.split)
qed (auto intro: cons_step.intros split: prod.split list.split)

lemma sched_next_reach: "sched_reach n s \<Longrightarrow> sched_reach n (sched_next n t s)"
proof (cases t)
  case TJoin
  assume "sched_reach n s"
  then show ?thesis using TJoin sched_step.join by (simp add: sched_reach.step)
next
  case (TProducer k i)
  assume "sched_reach n s"
  then show ?thesis using TProducer
    by (auto intro: sched_reach.step sched_step.producer prod_next_step split: prod.split)
next
  case (TConsumer ids)
  assume "sched_reach n s"
  then show ?thesis using TConsumer sched_step.consumer [OF cons_next_step] by (simp add: sched_reach.step)
qed

lemma sched_run_reach: "sched_reach n (sched_run n ts)"
proof -
  have "sched_reach n (fold (sched_next n) ts s)" if "sched_reach n s" for s
    using that by (induction ts arbitrary: s) (auto intro: sched_next_reach)
  then show ?thesis unfolding sched_run_def by (simp add: sched_reach.start)
qed

section \<open>Every id is in one place\<close>

text \<open>The id a push has claimed and not yet published.\<close>

fun owns :: "push_pc \<Rightarrow> nat list" where
  "owns (PushHead i) = [i]"
| "owns (PushLink i l) = [i]"
| "owns (PushCas i l) = [i]"
| "owns _ = []"

fun early_pc :: "push_pc \<Rightarrow> bool" where
  "early_pc (PushLook i) = True"
| "early_pc (PushEarly i) = True"
| "early_pc (PushLookAgain i) = True"
| "early_pc PushDone = True"
| "early_pc _ = False"

fun linked :: "tnode list \<Rightarrow> push_pc \<Rightarrow> bool" where
  "linked ns (PushCas i l) = (tn_below (ns ! i) = l)"
| "linked ns _ = True"

fun prod_push :: "prod_pc \<Rightarrow> push_pc" where
  "prod_push (PPush pc) = pc"
| "prod_push _ = PushDone"

fun cons_push :: "cons_pc \<Rightarrow> push_pc" where
  "cons_push (CLocal pc ret) = pc"
| "cons_push _ = PushDone"

definition pushes :: "sched \<Rightarrow> push_pc list" where
  "pushes s = map prod_push (sd_prods s) @ [cons_push (sd_cons s)]"

definition claimed_ids :: "push_pc list \<Rightarrow> nat list" where
  "claimed_ids ps = concat (map owns ps)"

lemma claimed_ids_simps [simp]:
  "claimed_ids [] = []" "claimed_ids (p # ps) = owns p @ claimed_ids ps" "claimed_ids (ps @ qs) = claimed_ids ps @ claimed_ids qs"
  by (simp_all add: claimed_ids_def)

text \<open>The nodes are made: a queued id is exactly once in the stack, in the batch, or in a push.\<close>

definition placed :: "nat \<Rightarrow> treiber \<Rightarrow> link \<Rightarrow> push_pc list \<Rightarrow> tnode list \<Rightarrow> nat list \<Rightarrow> nat list \<Rightarrow> bool" where
  "placed n st batch ps ns hs bs \<longleftrightarrow>
     ts_nodes st = Some ns \<and> length ns = n \<and> chain ns (ts_head st) hs \<and> chain ns batch bs \<and>
     distinct (hs @ bs @ claimed_ids ps) \<and> set (claimed_ids ps) \<subseteq> {..<n} \<and>
     (\<forall>i < n. tn_queued (ns ! i) \<longleftrightarrow> i \<in> set (hs @ bs @ claimed_ids ps)) \<and> (\<forall>pc\<in>set ps. linked ns pc)"

definition unmade :: "treiber \<Rightarrow> link \<Rightarrow> push_pc list \<Rightarrow> bool" where
  "unmade st batch ps \<longleftrightarrow>
     ts_nodes st = None \<and> ts_head st = LINK_NONE \<and> batch = LINK_NONE \<and> (\<forall>pc\<in>set ps. early_pc pc)"

lemma linked_other:
  "linked ns pc \<Longrightarrow> i \<notin> set (owns pc) \<Longrightarrow> linked (node_link i b ns) pc"
  by (cases pc) (auto simp: node_link_def nth_update_any)

lemma linked_claim [simp]: "linked (snd (node_claim i ns)) pc = linked ns pc"
  by (cases pc) (auto simp: node_claim_def nth_update_any)

lemma linked_release [simp]: "linked (node_release i ns) pc = linked ns pc"
  by (cases pc) (auto simp: node_release_def nth_update_any)

lemma owns_claimed_ids: "pc \<in> set ps \<Longrightarrow> set (owns pc) \<subseteq> set (claimed_ids ps)"
  by (auto simp: claimed_ids_def)

text \<open>One atomic operation of one push.\<close>

lemma push_atomic_placed:
  assumes p: "placed n st batch (xs @ pc # ys) ns hs bs" and a: "push_atomic spurious pc st = (pc', st')"
  shows "\<exists>ns' hs'. placed n st' batch (xs @ pc' # ys) ns' hs' bs \<and>
    (\<forall>i < n. tn_queued (ns ! i) \<longrightarrow> tn_queued (ns' ! i)) \<and> (\<forall>i\<in>set bs. tn_below (ns' ! i) = tn_below (ns ! i))"
proof -
  note P = p [unfolded placed_def]
  show ?thesis
  proof (cases pc)
    case (PushLook i)
    with p a show ?thesis by (intro exI [of _ ns] exI [of _ hs]) (auto simp: placed_def)
  next
    case (PushEarly i)
    with p a show ?thesis by (intro exI [of _ ns] exI [of _ hs]) (auto simp: placed_def)
  next
    case (PushLookAgain i)
    with p a show ?thesis by (intro exI [of _ ns] exI [of _ hs]) (auto simp: placed_def)
  next
    case (PushClaim i)
    show ?thesis
    proof (cases "i < n")
      case False
      with PushClaim p a P show ?thesis by (intro exI [of _ ns] exI [of _ hs]) (auto simp: placed_def)
    next
      case True
      let ?ns = "snd (node_claim i ns)"
      have q: "fst (node_claim i ns) = tn_queued (ns ! i)" by (simp add: node_claim_def)
      have e: "pc' = (if tn_queued (ns ! i) then PushDone else PushHead i)" "st' = st\<lparr>ts_nodes := Some ?ns\<rparr>"
        using a PushClaim True P q by (auto simp: Let_def case_prod_unfold)
      have "placed n st' batch (xs @ pc' # ys) ?ns hs bs"
        using P PushClaim True by (auto simp: placed_def e)
      moreover have "tn_below (?ns ! j) = tn_below (ns ! j)" for j by (auto simp: node_claim_def nth_update_any)
      ultimately show ?thesis by (intro exI [of _ ?ns] exI [of _ hs]) simp
    qed
  next
    case (PushHead i)
    with p a show ?thesis by (intro exI [of _ ns] exI [of _ hs]) (auto simp: placed_def)
  next
    case (PushLink i b)
    let ?ns = "node_link i b ns"
    have i: "i < n" "i \<notin> set hs" "i \<notin> set bs" "i \<notin> set (claimed_ids xs)" "i \<notin> set (claimed_ids ys)"
      using P PushLink by auto
    have "linked ?ns q" if "q \<in> set (xs @ ys)" for q
      using that P i(4,5) owns_claimed_ids [of q xs] owns_claimed_ids [of q ys] by (auto intro!: linked_other)
    moreover have "linked ?ns (PushCas i b)" using i P by simp
    ultimately have "placed n st' batch (xs @ pc' # ys) ?ns hs bs"
      using P PushLink a i by (auto simp: placed_def chain_link)
    moreover have "tn_below (?ns ! j) = tn_below (ns ! j)" if "j \<in> set bs" for j
      using that i(3) by (auto simp: node_link_def nth_update_any)
    ultimately show ?thesis by (intro exI [of _ ?ns] exI [of _ hs]) simp
  next
    case (PushCas i b)
    show ?thesis
    proof (cases "ts_head st = b \<and> \<not> spurious")
      case True
      with a PushCas have e: "pc' = PushDone" "st' = st\<lparr>ts_head := link_of i\<rparr>" by auto
      have "tn_below (ns ! i) = ts_head st" "i < n" using P PushCas True by auto
      then have "placed n st' batch (xs @ pc' # ys) ns (i # hs) bs"
        using P PushCas by (auto simp: placed_def e)
      then show ?thesis by (intro exI [of _ ns] exI [of _ "i # hs"]) simp
    next
      case False
      with p a PushCas show ?thesis by (intro exI [of _ ns] exI [of _ hs]) (auto simp: placed_def)
    qed
  next
    case PushDone
    with p a show ?thesis by (intro exI [of _ ns] exI [of _ hs]) (auto simp: placed_def)
  qed
qed

lemma push_atomic_unmade:
  assumes "unmade st batch (xs @ pc # ys)" and "push_atomic spurious pc st = (pc', st')"
  shows "unmade st' batch (xs @ pc' # ys)"
  using assms by (cases pc) (auto simp: unmade_def)


lemma owns_none_linked: "owns pc = [] \<Longrightarrow> linked ns pc"
  by (cases pc) auto

lemma placed_idle:
  "owns p = [] \<Longrightarrow> placed n st batch (xs @ p # ys) ns hs bs \<longleftrightarrow> placed n st batch (xs @ ys) ns hs bs"
  using owns_none_linked by (auto simp: placed_def)

lemmas placed_idle_last = placed_idle [where ys = "[]", simplified]

lemma early_owns_none: "early_pc pc \<Longrightarrow> owns pc = []"
  by (cases pc) auto

lemma placed_new:
  assumes u: "unmade st batch ps"
  shows "placed n (treiber_make n st) batch ps (nodes_new n) [] []"
proof -
  have e: "owns pc = []" if "pc \<in> set ps" for pc
    using that u by (intro early_owns_none) (simp add: unmade_def)
  then have "claimed_ids ps = []" by (simp add: claimed_ids_def)
  then show ?thesis using u e owns_none_linked by (auto simp: placed_def unmade_def treiber_make_def nodes_new_def)
qed

lemma placed_batch: "placed n st batch ps ns hs bs \<Longrightarrow> n \<le> batch \<Longrightarrow> batch = LINK_NONE"
  by (cases bs) (auto simp: placed_def link_of_def)

lemma placed_walk:
  assumes p: "placed n st batch ps ns hs bs" and n: "n < LINK_NONE" and b: "batch = link_of i" "i < n"
  shows "\<exists>bs'. bs = i # bs' \<and> placed n (treiber_release i st) (tn_below (ns ! i)) ps (node_release i ns) hs bs'"
proof -
  from p n b obtain bs' where bs: "bs = i # bs'" by (cases bs) (auto simp: placed_def link_of_def)
  have "linked (node_release i ns) pc" if "pc \<in> set ps" for pc using that p by (simp add: placed_def)
  then have "placed n (treiber_release i st) (tn_below (ns ! i)) ps (node_release i ns) hs bs'"
    using p b unfolding placed_def bs by (auto simp: treiber_release_def)
  with bs show ?thesis by blast
qed

lemma placed_take:
  "placed n st LINK_NONE ps ns hs bs \<Longrightarrow> n < LINK_NONE \<Longrightarrow> placed n (st\<lparr>ts_head := LINK_NONE\<rparr>) (ts_head st) ps ns [] hs"
  by (cases bs) (auto simp: placed_def link_of_def dest: chain_length)

section \<open>What holds in every reachable state\<close>

text \<open>A push of id \<open>k\<close> once the nodes are made.\<close>

definition first_push :: "nat \<Rightarrow> push_pc \<Rightarrow> bool" where
  "first_push k pc \<longleftrightarrow> pc = PushLook k \<or> pc = PushClaim k \<or> owns pc = [k]"

fun local_ok :: "nat \<Rightarrow> push_pc \<Rightarrow> local_ret \<Rightarrow> link \<Rightarrow> tnode list \<Rightarrow> bool" where
  "local_ok n pc (RFirst k) b ns \<longleftrightarrow>
     b = LINK_NONE \<and> k < n \<and> (first_push k pc \<or> pc = PushDone \<and> tn_queued (ns ! k)) \<and> (\<forall>i < n. k < i \<longrightarrow> tn_queued (ns ! i))"
| "local_ok n pc (RExpire js) b ns \<longleftrightarrow> b = LINK_NONE"
| "local_ok n pc (RPoll i) b ns \<longleftrightarrow> True"

fun cons_ok :: "nat \<Rightarrow> cons_pc \<Rightarrow> link \<Rightarrow> tnode list \<Rightarrow> bool" where
  "cons_ok n (CFirst k) b ns \<longleftrightarrow> b = LINK_NONE \<and> k \<le> n \<and> (\<forall>i < n. k \<le> i \<longrightarrow> tn_queued (ns ! i))"
| "cons_ok n (CLocal pc ret) b ns \<longleftrightarrow> local_ok n pc ret b ns"
| "cons_ok n (CRelease i below) b ns \<longleftrightarrow> b = link_of i \<and> i < n \<and> below = tn_below (ns ! i)"
| "cons_ok n (CWalk taken) b ns \<longleftrightarrow> True"
| "cons_ok n (CPoll i) b ns \<longleftrightarrow> True"
| "cons_ok n c b ns \<longleftrightarrow> b = LINK_NONE"

definition sched_placed :: "nat \<Rightarrow> sched \<Rightarrow> bool" where
  "sched_placed n s \<longleftrightarrow>
     (if sd_cons s = CMake then unmade (sd_stack s) (sd_batch s) (pushes s)
      else (\<exists>ns hs bs. placed n (sd_stack s) (sd_batch s) (pushes s) ns hs bs \<and> cons_ok n (sd_cons s) (sd_batch s) ns))"

definition watching :: "cons_pc \<Rightarrow> bool" where
  "watching c \<longleftrightarrow> c = CWalk True \<or> c = CLock \<or> c = CAsleep"

definition sched_awake :: "sched \<Rightarrow> bool" where
  "sched_awake s \<longleftrightarrow>
     (pk_parked (sd_parker s) \<longleftrightarrow> sd_cons s = CAsleep \<and> \<not> pk_woken (sd_parker s)) \<and>
     (sd_cons s = CAsleep \<and> pk_woken (sd_parker s) \<longrightarrow> sd_notified s \<or> PNotify \<in> set (sd_prods s)) \<and>
     (watching (sd_cons s) \<and> ts_head (sd_stack s) \<noteq> LINK_NONE \<longrightarrow> pk_woken (sd_parker s) \<or> PUnpark \<in> set (sd_prods s))"

lemma set_update_other: "x \<in> set xs \<Longrightarrow> xs ! k \<noteq> x \<Longrightarrow> x \<in> set (xs[k := y])"
  by (metis in_set_conv_nth length_list_update nth_list_update_neq)

lemma set_update_self: "k < length xs \<Longrightarrow> y \<in> set (xs[k := y])"
  by (simp add: set_update_memI)

lemma prods_split: "k < length ps \<Longrightarrow> map f ps = take k (map f ps) @ f (ps ! k) # drop (Suc k) (map f ps)"
  by (metis id_take_nth_drop length_map nth_map)

lemma prods_update: "k < length ps \<Longrightarrow> map f (ps[k := q]) = take k (map f ps) @ f q # drop (Suc k) (map f ps)"
  by (simp add: map_update upd_conv_take_nth_drop take_map drop_map)

lemma push_keeps_parker: "push_atomic spurious pc st = (pc', st') \<Longrightarrow> ts_head st' \<noteq> ts_head st \<Longrightarrow> pc' = PushDone"
  by (cases pc) (auto simp: Let_def case_prod_unfold split: option.splits if_splits)

text \<open>A step of a push, or a new one.\<close>

definition push_turn :: "treiber \<Rightarrow> push_pc \<Rightarrow> treiber \<Rightarrow> push_pc \<Rightarrow> bool" where
  "push_turn st pc st' pc' \<longleftrightarrow>
     (\<exists>spurious. push_atomic spurious pc st = (pc', st')) \<or> st' = st \<and> owns pc = [] \<and> early_pc pc'"

lemma push_turn_unmade:
  assumes "unmade st batch (xs @ pc # ys)" and "push_turn st pc st' pc'"
  shows "unmade st' batch (xs @ pc' # ys)"
  using assms(2) unfolding push_turn_def
proof
  assume "\<exists>spurious. push_atomic spurious pc st = (pc', st')"
  then show ?thesis using push_atomic_unmade [OF assms(1)] by blast
next
  assume "st' = st \<and> owns pc = [] \<and> early_pc pc'"
  then show ?thesis using assms(1) by (auto simp: unmade_def)
qed

lemma push_turn_placed:
  assumes p: "placed n st batch (xs @ pc # ys) ns hs bs" and "push_turn st pc st' pc'"
  shows "\<exists>ns' hs'. placed n st' batch (xs @ pc' # ys) ns' hs' bs \<and>
    (\<forall>i < n. tn_queued (ns ! i) \<longrightarrow> tn_queued (ns' ! i)) \<and> (\<forall>i\<in>set bs. tn_below (ns' ! i) = tn_below (ns ! i))"
  using assms(2) unfolding push_turn_def
proof
  assume "\<exists>spurious. push_atomic spurious pc st = (pc', st')"
  then show ?thesis using push_atomic_placed [OF p] by blast
next
  assume "st' = st \<and> owns pc = [] \<and> early_pc pc'"
  then have "placed n st' batch (xs @ pc' # ys) ns hs bs"
    using p by (simp add: placed_idle early_owns_none)
  then show ?thesis by blast
qed

text \<open>A producer's step.\<close>

lemma cons_ok_mono:
  "cons_ok n c b ns \<Longrightarrow> \<forall>i < n. tn_queued (ns ! i) \<longrightarrow> tn_queued (ns' ! i) \<Longrightarrow>
     (\<And>i. b = link_of i \<Longrightarrow> i < n \<Longrightarrow> tn_below (ns' ! i) = tn_below (ns ! i)) \<Longrightarrow> cons_ok n c b ns'"
proof (cases c)
  case (CLocal pc ret)
  assume "cons_ok n c b ns" "\<forall>i < n. tn_queued (ns ! i) \<longrightarrow> tn_queued (ns' ! i)"
  with CLocal show ?thesis by (cases ret) auto
qed (auto simp: link_of_def)

lemma producer_placed:
  assumes s: "sched_placed n s" and n: "n < LINK_NONE" and k: "k < length (sd_prods s)" "prod_step s (sd_prods s ! k) s' pc"
  shows "sched_placed n (s'\<lparr>sd_prods := (sd_prods s)[k := pc]\<rparr>)"
proof -
  define xs where "xs = take k (map prod_push (sd_prods s))"
  define ys where "ys = drop (Suc k) (map prod_push (sd_prods s)) @ [cons_push (sd_cons s)]"
  have ps: "pushes s = xs @ prod_push (sd_prods s ! k) # ys"
    unfolding pushes_def xs_def ys_def using prods_split [OF k(1), of prod_push] by simp
  have e: "sd_cons s' = sd_cons s" "sd_batch s' = sd_batch s" using k(2) by (auto elim: prod_step.cases)
  have ps': "pushes (s'\<lparr>sd_prods := (sd_prods s)[k := pc]\<rparr>) = xs @ prod_push pc # ys"
    unfolding pushes_def xs_def ys_def using prods_update [OF k(1), of prod_push pc] e by simp
  have a: "push_turn (sd_stack s) (prod_push (sd_prods s ! k)) (sd_stack s') (prod_push pc)"
    using k(2) by cases (auto simp: prod_pc_of_def push_turn_def)
  show ?thesis
  proof (cases "sd_cons s = CMake")
    case True
    then have "unmade (sd_stack s) (sd_batch s) (xs @ prod_push (sd_prods s ! k) # ys)"
      using s by (simp add: sched_placed_def ps)
    from push_turn_unmade [OF this a] True show ?thesis
      unfolding sched_placed_def ps' by (simp add: e)
  next
    case False
    then obtain ns hs bs where p: "placed n (sd_stack s) (sd_batch s) (xs @ prod_push (sd_prods s ! k) # ys) ns hs bs"
      "cons_ok n (sd_cons s) (sd_batch s) ns" using s by (auto simp: sched_placed_def ps)
    from push_turn_placed [OF p(1) a] obtain ns' hs' where q: "placed n (sd_stack s') (sd_batch s) (xs @ prod_push pc # ys) ns' hs' bs"
      "\<forall>i < n. tn_queued (ns ! i) \<longrightarrow> tn_queued (ns' ! i)" "\<forall>i\<in>set bs. tn_below (ns' ! i) = tn_below (ns ! i)" by blast
    have "cons_ok n (sd_cons s) (sd_batch s) ns'"
    proof (rule cons_ok_mono [OF p(2) q(2)])
      fix i assume "sd_batch s = link_of i" "i < n"
      then have "i \<in> set bs" using placed_walk [OF p(1) n, of i] by auto
      then show "tn_below (ns' ! i) = tn_below (ns ! i)" using q(3) by blast
    qed
    with q(1) have "\<exists>ns hs bs. placed n (sd_stack s') (sd_batch s) (xs @ prod_push pc # ys) ns hs bs \<and>
        cons_ok n (sd_cons s) (sd_batch s) ns" by blast
    with False show ?thesis unfolding sched_placed_def ps' by (simp add: e)
  qed
qed

text \<open>The consumer's.\<close>

lemma sched_placedI:
  "sd_cons s \<noteq> CMake \<Longrightarrow> placed n (sd_stack s) (sd_batch s) (pushes s) ns hs bs \<Longrightarrow> cons_ok n (sd_cons s) (sd_batch s) ns \<Longrightarrow>
     sched_placed n s"
  by (auto simp: sched_placed_def)

lemma first_push_turn:
  assumes f: "first_push k pc" and a: "push_atomic spurious pc st = (pc', st')" and k: "k < n"
    and p: "placed n st batch (xs @ pc # ys) ns hs bs" and p': "placed n st' batch (xs @ pc' # ys) ns' hs' bs"
    and q: "\<forall>i < n. tn_queued (ns ! i) \<longrightarrow> tn_queued (ns' ! i)"
  shows "first_push k pc' \<or> pc' = PushDone \<and> tn_queued (ns' ! k)"
proof -
  have N: "ts_nodes st = Some ns" "length ns = n" "ts_nodes st' = Some ns'" using p p' by (simp_all add: placed_def)
  show ?thesis
  proof (cases "owns pc = [k]")
    case True
    then have "tn_queued (ns ! k)" using p k by (auto simp: placed_def)
    moreover have "owns pc' = [k] \<or> pc' = PushDone" using True a by (cases pc) (auto split: if_splits)
    ultimately show ?thesis using q k by (auto simp: first_push_def)
  next
    case False
    with f consider "pc = PushLook k" | "pc = PushClaim k" by (auto simp: first_push_def)
    then show ?thesis
    proof cases
      case 1
      with a N show ?thesis by (simp add: first_push_def)
    next
      case 2
      with a N k have "ns' = snd (node_claim k ns)" "pc' = PushDone \<or> pc' = PushHead k"
        by (auto simp: Let_def case_prod_unfold split: if_splits)
      with k N show ?thesis by (auto simp: first_push_def)
    qed
  qed
qed

lemma local_placed:
  assumes s: "sched_placed n s" and c: "sd_cons s = CLocal pc ret" and a: "push_atomic spurious pc (sd_stack s) = (pc', st)"
  shows "sched_placed n (s\<lparr>sd_stack := st, sd_cons := local_pc pc' ret\<rparr>)"
proof -
  let ?P = "map prod_push (sd_prods s)"
  obtain ns hs bs where p: "placed n (sd_stack s) (sd_batch s) (?P @ pc # []) ns hs bs" "local_ok n pc ret (sd_batch s) ns"
    using s c by (auto simp: sched_placed_def pushes_def)
  from push_atomic_placed [OF p(1) a] obtain ns' hs' where
    q: "placed n st (sd_batch s) (?P @ pc' # []) ns' hs' bs" "\<forall>i < n. tn_queued (ns ! i) \<longrightarrow> tn_queued (ns' ! i)" by blast
  have l: "local_ok n pc' ret (sd_batch s) ns'"
  proof (cases ret)
    case (RFirst k)
    from p(2) RFirst have k: "k < n" "sd_batch s = LINK_NONE" "\<forall>i < n. k < i \<longrightarrow> tn_queued (ns ! i)"
      "first_push k pc \<or> pc = PushDone \<and> tn_queued (ns ! k)" by auto
    have "first_push k pc' \<or> pc' = PushDone \<and> tn_queued (ns' ! k)"
    proof (cases "first_push k pc")
      case True
      show ?thesis by (rule first_push_turn [OF True a k(1) p(1) q])
    next
      case False
      with k(4) a q(2) k(1) show ?thesis by auto
    qed
    with RFirst k q(2) show ?thesis by auto
  qed (use p(2) in auto)
  show ?thesis
  proof (cases "pc' = PushDone")
    case True
    have "cons_push (resume_local ret) = PushDone" "resume_local ret \<noteq> CMake" by (cases ret; simp)+
    moreover have "cons_ok n (resume_local ret) (sd_batch s) ns'"
    proof (cases ret)
      case (RFirst k)
      with l True have k: "sd_batch s = LINK_NONE" "k < n" "tn_queued (ns' ! k)" "\<forall>i < n. k < i \<longrightarrow> tn_queued (ns' ! i)"
        by (auto simp: first_push_def)
      then have "\<forall>i < n. k \<le> i \<longrightarrow> tn_queued (ns' ! i)" by (metis le_neq_implies_less)
      with RFirst k show ?thesis by simp
    qed (use l in auto)
    ultimately show ?thesis using q(1) True
      by (intro sched_placedI [of _ _ ns' hs' bs]) (simp_all add: pushes_def local_pc_def)
  next
    case False
    with q(1) l show ?thesis by (intro sched_placedI [of _ _ ns' hs' bs]) (simp_all add: pushes_def local_pc_def)
  qed
qed

lemma consumer_placed:
  assumes s: "sched_placed n s" and n: "n < LINK_NONE" and c: "cons_step n s s'"
  shows "sched_placed n s'"
proof -
  let ?P = "map prod_push (sd_prods s)"
  have placed: "\<exists>ns hs bs. placed n (sd_stack s) (sd_batch s) ?P ns hs bs \<and> cons_ok n (sd_cons s) (sd_batch s) ns"
    if "sd_cons s \<noteq> CMake" "owns (cons_push (sd_cons s)) = []"
    using s that by (auto simp: sched_placed_def pushes_def placed_idle_last)
  show ?thesis
    using c
  proof cases
    case make
    have "unmade (sd_stack s) (sd_batch s) (pushes s)" using s make by (simp add: sched_placed_def)
    from placed_new [OF this] make show ?thesis
      by (intro sched_placedI [of _ _ "nodes_new n" "[]" "[]"]) (auto simp: pushes_def unmade_def placed_def)
  next
    case swap
    with placed obtain ns hs bs where "placed n (sd_stack s) (sd_batch s) ?P ns hs bs" "sd_batch s = LINK_NONE" by auto
    with swap show ?thesis
      by (intro sched_placedI [of _ _ ns hs bs]) (auto simp: pushes_def placed_idle_last placed_def treiber_swap_early_def)
  next
    case (first k)
    with placed obtain ns hs bs where "placed n (sd_stack s) (sd_batch s) ?P ns hs bs" "sd_batch s = LINK_NONE" "Suc k \<le> n"
      "\<forall>i < n. Suc k \<le> i \<longrightarrow> tn_queued (ns ! i)" by auto
    with first show ?thesis
      by (intro sched_placedI [of _ _ ns hs bs]) (auto simp: pushes_def placed_idle_last first_push_def)
  next
    case started
    with placed obtain ns hs bs where "placed n (sd_stack s) (sd_batch s) ?P ns hs bs" by auto
    with started show ?thesis by (intro sched_placedI [of _ _ ns hs bs]) (auto simp: pushes_def placed_idle_last)
  next
    case (push_local pc ret spurious pc' st)
    then show ?thesis using local_placed [OF s] by simp
  next
    case (walk taken expired)
    with placed obtain ns hs bs where p: "placed n (sd_stack s) (sd_batch s) ?P ns hs bs" by auto
    then have N: "ts_nodes (sd_stack s) = Some ns" "length ns = n" by (simp_all add: placed_def)
    have "cons_ok n (walk_pc taken expired s) (sd_batch s) ns"
      using N placed_batch [OF p] by (auto simp: walk_pc_def treiber_walk_def link_index_def link_of_def)
    moreover have "cons_push (walk_pc taken expired s) = PushDone" "walk_pc taken expired s \<noteq> CMake"
      by (auto simp: walk_pc_def split: option.split)
    ultimately show ?thesis using p walk
      by (intro sched_placedI [of _ _ ns hs bs]) (auto simp: pushes_def placed_idle_last)
  next
    case (release i below)
    with placed obtain ns hs bs where p: "placed n (sd_stack s) (sd_batch s) ?P ns hs bs"
      "sd_batch s = link_of i" "i < n" "below = tn_below (ns ! i)" by auto
    from placed_walk [OF p(1) n p(2,3)] obtain bs' where
      "placed n (treiber_release i (sd_stack s)) (tn_below (ns ! i)) ?P (node_release i ns) hs bs'" by blast
    with release p(4) show ?thesis
      by (intro sched_placedI [of _ _ "node_release i ns" hs bs']) (auto simp: pushes_def placed_idle_last)
  next
    case (polling i j)
    with placed obtain ns hs bs where "placed n (sd_stack s) (sd_batch s) ?P ns hs bs" by auto
    with polling show ?thesis by (intro sched_placedI [of _ _ ns hs bs]) (auto simp: pushes_def placed_idle_last)
  next
    case polled
    with placed obtain ns hs bs where "placed n (sd_stack s) (sd_batch s) ?P ns hs bs" by auto
    with polled show ?thesis by (intro sched_placedI [of _ _ ns hs bs]) (auto simp: pushes_def placed_idle_last)
  next
    case (expire j js)
    with placed obtain ns hs bs where "placed n (sd_stack s) (sd_batch s) ?P ns hs bs" "sd_batch s = LINK_NONE" by auto
    with expire show ?thesis by (intro sched_placedI [of _ _ ns hs bs]) (auto simp: pushes_def placed_idle_last)
  next
    case expired
    with placed obtain ns hs bs where "placed n (sd_stack s) (sd_batch s) ?P ns hs bs" "sd_batch s = LINK_NONE" by auto
    with expired show ?thesis by (intro sched_placedI [of _ _ ns hs bs]) (auto simp: pushes_def placed_idle_last)
  next
    case (taking l st)
    with placed obtain ns hs bs where "placed n (sd_stack s) LINK_NONE ?P ns hs bs" by auto
    from placed_take [OF this n] taking show ?thesis
      by (intro sched_placedI [of _ _ ns "[]" hs]) (auto simp: pushes_def placed_idle_last treiber_take_def)
  next
    case (park ret p)
    with placed obtain ns hs bs where "placed n (sd_stack s) (sd_batch s) ?P ns hs bs" "sd_batch s = LINK_NONE" by auto
    with park show ?thesis by (intro sched_placedI [of _ _ ns hs bs]) (auto simp: pushes_def placed_idle_last)
  next
    case (turn timeout ret p)
    with placed obtain ns hs bs where "placed n (sd_stack s) (sd_batch s) ?P ns hs bs" "sd_batch s = LINK_NONE" by auto
    with turn show ?thesis by (intro sched_placedI [of _ _ ns hs bs]) (auto simp: pushes_def placed_idle_last)
  qed
qed

lemma producer_awake:
  assumes s: "sched_awake s" and k: "k < length (sd_prods s)" "prod_step s (sd_prods s ! k) s' pc"
  shows "sched_awake (s'\<lparr>sd_prods := (sd_prods s)[k := pc]\<rparr>)"
proof -
  have keep: "x \<in> set ((sd_prods s)[k := pc])" if "x \<in> set (sd_prods s)" "x \<noteq> sd_prods s ! k" for x
    using set_update_other [of x "sd_prods s" k pc] that by simp
  have self: "pc \<in> set ((sd_prods s)[k := pc])" using k(1) by (rule set_update_self)
  show ?thesis
    using k(2)
  proof cases
    case (wake i)
    then show ?thesis using s keep by (auto simp: sched_awake_def)
  next
    case (push spurious pc0 pc' st)
    have "pc = PUnpark" if "ts_head st \<noteq> ts_head (sd_stack s)"
      using push_keeps_parker [OF push(4) that] push(3) by (simp add: prod_pc_of_def)
    then show ?thesis using s keep self push by (auto simp: sched_awake_def)
  next
    case (unpark notify p)
    then show ?thesis using s keep self by (auto simp: sched_awake_def parker_wake_def)
  next
    case notify
    then show ?thesis using s keep by (auto simp: sched_awake_def)
  qed
qed

lemma consumer_awake:
  assumes s: "sched_awake s" and c: "cons_step n s s'"
  shows "sched_awake s'"
  using c
proof cases
  case (push_local pc ret spurious pc' st)
  have "\<not> watching (local_pc pc' ret)" "local_pc pc' ret \<noteq> CAsleep"
    by (cases ret; simp add: watching_def local_pc_def)+
  with push_local s show ?thesis by (auto simp: sched_awake_def)
next
  case (walk taken expired)
  have "watching (walk_pc taken expired s) \<longrightarrow> watching (sd_cons s)" "walk_pc taken expired s \<noteq> CAsleep"
    using walk by (auto simp: walk_pc_def watching_def split: option.splits if_splits)
  with walk s show ?thesis by (auto simp: sched_awake_def)
next
  case (park returned p)
  with s show ?thesis by (auto simp: sched_awake_def park_lock_def watching_def split: if_splits)
next
  case (turn timeout returned p)
  with s show ?thesis by (auto simp: sched_awake_def park_turn_def watching_def split: if_splits)
qed (use s in \<open>auto simp: sched_awake_def watching_def treiber_take_def\<close>)

lemma sched_new_ok: "sched_placed n sched_new" "sched_awake sched_new"
  by (simp_all add: sched_placed_def sched_awake_def sched_new_def unmade_def treiber_new_def parker_new_def pushes_def watching_def)

lemma joined_ok:
  "sched_placed n s \<Longrightarrow> sched_placed n (s\<lparr>sd_prods := sd_prods s @ [PIdle]\<rparr>)"
  "sched_awake s \<Longrightarrow> sched_awake (s\<lparr>sd_prods := sd_prods s @ [PIdle]\<rparr>)"
proof -
  let ?P = "map prod_push (sd_prods s)"
  have "pushes (s\<lparr>sd_prods := sd_prods s @ [PIdle]\<rparr>) = ?P @ PushDone # [cons_push (sd_cons s)]"
    by (simp add: pushes_def)
  moreover have "pushes s = ?P @ [cons_push (sd_cons s)]" by (simp add: pushes_def)
  ultimately show "sched_placed n s \<Longrightarrow> sched_placed n (s\<lparr>sd_prods := sd_prods s @ [PIdle]\<rparr>)"
    by (auto simp: sched_placed_def placed_idle unmade_def)
  show "sched_awake s \<Longrightarrow> sched_awake (s\<lparr>sd_prods := sd_prods s @ [PIdle]\<rparr>)"
    by (auto simp: sched_awake_def)
qed

lemma sched_reach_ok:
  assumes "sched_reach n s" "n < LINK_NONE"
  shows "sched_placed n s" "sched_awake s"
proof -
  from assms(1) have "sched_placed n s \<and> sched_awake s"
  proof induction
    case start
    show ?case using sched_new_ok by blast
  next
    case (step s s')
    from step(2) show ?case
      by cases (use step(3) assms(2) producer_placed producer_awake consumer_placed consumer_awake joined_ok in blast)+
  qed
  then show "sched_placed n s" "sched_awake s" by blast+
qed

section \<open>Properties\<close>

text \<open>Whether id \<open>i\<close> is queued.\<close>

definition queued :: "nat \<Rightarrow> sched \<Rightarrow> bool" where
  "queued i s = (case ts_nodes (sd_stack s) of None \<Rightarrow> False | Some ns \<Rightarrow> i < length ns \<and> tn_queued (ns ! i))"

lemma placed_queued: "placed n (sd_stack s) b ps ns hs bs \<Longrightarrow> queued i s \<longleftrightarrow> i < n \<and> i \<in> set (hs @ bs @ claimed_ids ps)"
  by (auto simp: placed_def queued_def)

lemma unmade_queued: "unmade (sd_stack s) b ps \<Longrightarrow> \<not> queued i s"
  by (simp add: unmade_def queued_def)

lemma push_keeps_queued:
  assumes q: "queued i s" and a: "push_atomic spurious pc (sd_stack s) = (pc', st)" and e: "st = sd_stack s'"
  shows "queued i s'"
proof -
  obtain ns where N: "ts_nodes (sd_stack s) = Some ns" "i < length ns" "tn_queued (ns ! i)"
    using q by (auto simp: queued_def split: option.splits)
  have "case ts_nodes st of None \<Rightarrow> False | Some ns \<Rightarrow> i < length ns \<and> tn_queued (ns ! i)"
    using N a by (cases pc) (auto simp: Let_def case_prod_unfold split: if_splits)
  with e show ?thesis by (simp add: queued_def)
qed

lemma step_keeps_queued:
  assumes r: "sched_placed n s" and n: "n < LINK_NONE" and t: "sched_step n s s'" and q: "queued i s" "\<not> queued i s'"
  shows "(\<exists>below. sd_cons s = CRelease i below) \<and> sd_cons s' = CPoll i"
proof -
  have push: "queued i s'" if a: "push_atomic spurious pc (sd_stack s) = (pc', st)" "st = sd_stack s'" for spurious pc pc' st
    using push_keeps_queued [OF q(1) a] .
  have same: "queued i s'" if "ts_nodes (sd_stack s') = ts_nodes (sd_stack s)"
    using that q(1) by (simp add: queued_def)
  from t show ?thesis
  proof cases
    case (producer k s1 pc)
    from producer(3) have "sd_stack s1 = sd_stack s \<or> (\<exists>spurious pc pc'. push_atomic spurious pc (sd_stack s) = (pc', sd_stack s1))"
      by cases auto
    moreover have "sd_stack s' = sd_stack s1" using producer(1) by simp
    ultimately have "queued i s'" using push [OF _ sym] same by metis
    with q(2) show ?thesis ..
  next
    case join
    with same q(2) show ?thesis by simp
  next
    case consumer
    then show ?thesis
    proof cases
      case make
      then show ?thesis using same q by (simp add: queued_def treiber_make_def split: option.splits)
    next
      case (push_local pc ret spurious pc' st)
      then have "queued i s'" by (intro push [of spurious pc pc' st]) simp_all
      with q(2) show ?thesis ..
    next
      case (release j below)
      obtain ns where N: "ts_nodes (sd_stack s) = Some ns" "i < length ns" "tn_queued (ns ! i)"
        using q(1) by (auto simp: queued_def split: option.splits)
      then have "i = j" using release q(2) by (auto simp: queued_def treiber_release_def)
      with release show ?thesis by auto
    next
      case swap
      then show ?thesis using same q(2) by (simp add: treiber_swap_early_def)
    next
      case (taking l st)
      then have "queued i s'" by (intro same) (auto simp: treiber_take_def)
      with q(2) show ?thesis ..
    qed (use same q(2) in simp_all)
  qed
qed

fun push_target :: "push_pc \<Rightarrow> nat option" where
  "push_target (PushLook i) = Some i"
| "push_target (PushEarly i) = Some i"
| "push_target (PushLookAgain i) = Some i"
| "push_target (PushClaim i) = Some i"
| "push_target (PushHead i) = Some i"
| "push_target (PushLink i l) = Some i"
| "push_target (PushCas i l) = Some i"
| "push_target PushDone = None"

text \<open>C13. The poll scheduler loses no wake. In every reachable state of any number of producers and
  the consumer: while the consumer sleeps, a queued id has a wake under way, namely its own push, a producer
  about to wake the parker, or the token set and the condvar notified or about to be; so with every
  producer finished the sleeper has been notified.\<close>

theorem scheduler_loses_no_wake:
  assumes "sched_reach n s" and "n < LINK_NONE" and "sd_cons s = CAsleep" and "queued i s"
  shows "(pk_woken (sd_parker s) \<and> (sd_notified s \<or> PNotify \<in> set (sd_prods s))) \<or> PUnpark \<in> set (sd_prods s) \<or>
         (\<exists>pc. PPush pc \<in> set (sd_prods s) \<and> push_target pc = Some i)"
proof (cases "ts_head (sd_stack s) = LINK_NONE")
  case False
  with sched_reach_ok(2) [OF assms(1,2)] assms(3) show ?thesis by (auto simp: sched_awake_def watching_def)
next
  case True
  from sched_reach_ok(1) [OF assms(1,2)] assms(3) obtain ns hs bs where
    p: "placed n (sd_stack s) LINK_NONE (pushes s) ns hs bs" by (auto simp: sched_placed_def)
  have "hs = []" using p True assms(2) by (cases hs) (auto simp: placed_def link_of_def)
  moreover have "bs = []" using p assms(2) by (cases bs) (auto simp: placed_def link_of_def)
  ultimately have "i \<in> set (claimed_ids (map prod_push (sd_prods s)))"
    using placed_queued [OF p] assms(3,4) by (auto simp: pushes_def)
  then obtain pc where pc: "pc \<in> set (sd_prods s)" "i \<in> set (owns (prod_push pc))" by (auto simp: claimed_ids_def)
  from pc(2) obtain pp where "pc = PPush pp" "i \<in> set (owns pp)" by (cases pc) auto
  moreover from this have "push_target pp = Some i" by (cases pp) auto
  ultimately show ?thesis using pc by auto
qed

text \<open>A producer claims the only id as soon as the nodes are made and stalls; the consumer goes to sleep.\<close>

definition stalled_run :: "sched_turn list" where
  "stalled_run = [TJoin, TConsumer []] @ [TProducer 0 0, TProducer 0 0, TProducer 0 0] @
     [TConsumer [], TConsumer [], TConsumer [], TConsumer [], TConsumer [],
      TConsumer [], TConsumer [], TConsumer [], TConsumer [], TConsumer []]"

lemma stalled_state:
  "sched_run 1 stalled_run =
     \<lparr>sd_stack = \<lparr>ts_head = LINK_NONE, ts_nodes = Some [\<lparr>tn_queued = True, tn_below = LINK_NONE\<rparr>], ts_early = 0\<rparr>,
      sd_parker = \<lparr>pk_woken = False, pk_parked = True\<rparr>, sd_notified = False, sd_prods = [PPush (PushHead 0)],
      sd_cons = CAsleep, sd_batch = LINK_NONE\<rparr>"
proof -
  have "\<not> link_index LINK_NONE < Suc 0" by (simp add: LINK_NONE_def link_index_def)
  then show ?thesis
    by (simp add: sched_run_def stalled_run_def sched_new_def treiber_new_def parker_new_def treiber_make_def nodes_new_def
        prod_pc_of_def local_pc_def walk_pc_def treiber_walk_def treiber_swap_early_def treiber_take_def park_lock_def
        node_claim_def)
qed

theorem scheduler_loses_no_wake_witness:
  "(pk_woken (sd_parker (sched_run 1 stalled_run)) \<and>
      (sd_notified (sched_run 1 stalled_run) \<or> PNotify \<in> set (sd_prods (sched_run 1 stalled_run)))) \<or>
    PUnpark \<in> set (sd_prods (sched_run 1 stalled_run)) \<or>
    (\<exists>pc. PPush pc \<in> set (sd_prods (sched_run 1 stalled_run)) \<and> push_target pc = Some 0)"
proof (rule scheduler_loses_no_wake)
  show "sched_reach 1 (sched_run 1 stalled_run)" by (rule sched_run_reach)
  show "(1 :: nat) < LINK_NONE" by (simp add: LINK_NONE_def)
  show "sd_cons (sched_run 1 stalled_run) = CAsleep" by (simp only: stalled_state sched.simps)
  show "queued 0 (sched_run 1 stalled_run)" by (simp only: stalled_state queued_def) simp
qed

text \<open>C35. Once the nodes are made, a queued id is in exactly one place: on the stack, in the batch being
  walked, or held by the one push that claimed it; every id there is queued, and the stack and the batch
  are chains of ids of the graph that end.\<close>

theorem queued_in_one_place:
  assumes "sched_reach n s" and "n < LINK_NONE" and "sd_cons s \<noteq> CMake"
  shows "\<exists>ns on_stack in_batch. ts_nodes (sd_stack s) = Some ns \<and> length ns = n \<and>
           chain ns (ts_head (sd_stack s)) on_stack \<and> chain ns (sd_batch s) in_batch \<and>
           distinct (on_stack @ in_batch @ claimed_ids (pushes s)) \<and>
           set (on_stack @ in_batch @ claimed_ids (pushes s)) = {i. queued i s}"
proof -
  from sched_reach_ok(1) [OF assms(1,2)] assms(3) obtain ns hs bs where
    p: "placed n (sd_stack s) (sd_batch s) (pushes s) ns hs bs" by (auto simp: sched_placed_def)
  have "set (hs @ bs @ claimed_ids (pushes s)) \<subseteq> {..<n}" using p by (auto simp: placed_def dest: chain_length)
  then have "set (hs @ bs @ claimed_ids (pushes s)) = {i. queued i s}" using placed_queued [OF p] by blast
  with p show ?thesis unfolding placed_def by blast
qed

theorem queued_in_one_place_witness:
  "\<exists>ns on_stack in_batch. ts_nodes (sd_stack (sched_run 1 stalled_run)) = Some ns \<and> length ns = 1 \<and>
     chain ns (ts_head (sd_stack (sched_run 1 stalled_run))) on_stack \<and>
     chain ns (sd_batch (sched_run 1 stalled_run)) in_batch \<and>
     distinct (on_stack @ in_batch @ claimed_ids (pushes (sched_run 1 stalled_run))) \<and>
     set (on_stack @ in_batch @ claimed_ids (pushes (sched_run 1 stalled_run))) = {i. queued i (sched_run 1 stalled_run)}"
proof (rule queued_in_one_place)
  show "sched_reach 1 (sched_run 1 stalled_run)" by (rule sched_run_reach)
  show "(1 :: nat) < LINK_NONE" by (simp add: LINK_NONE_def)
  show "sd_cons (sched_run 1 stalled_run) \<noteq> CMake" by (simp only: stalled_state sched.simps) simp
qed

text \<open>C21. Every wake is served by a later poll: a push of an id of the graph ends with the id queued, or
  before the nodes are made, and then the first batch holds every id; and a queued id stays queued
  until the consumer hands it out to be polled.\<close>

theorem wake_served_by_poll:
  assumes "sched_reach n s" and "n < LINK_NONE" and "sched_step n s s'" and "i < n"
  shows "(queued i s \<and> \<not> queued i s' \<longrightarrow> (\<exists>below. sd_cons s = CRelease i below) \<and> sd_cons s' = CPoll i) \<and>
         (\<forall>k pc. k < length (sd_prods s) \<and> sd_prods s ! k = PPush pc \<and> push_target pc = Some i \<and>
             sd_prods s' ! k = PUnpark \<longrightarrow> queued i s' \<or> sd_cons s' = CMake) \<and>
         (sd_cons s = CFirst 0 \<longrightarrow> queued i s)"
proof (intro conjI impI allI)
  note ok = sched_reach_ok(1) [OF assms(1,2)]
  have ok': "sched_placed n s'" using sched_reach_ok(1) [OF sched_reach.step [OF assms(1,3)] assms(2)] .
  fix k pc
  assume "k < length (sd_prods s) \<and> sd_prods s ! k = PPush pc \<and> push_target pc = Some i \<and> sd_prods s' ! k = PUnpark"
  then have A: "k < length (sd_prods s)" "sd_prods s ! k = PPush pc" "push_target pc = Some i" "sd_prods s' ! k = PUnpark"
    by auto
  show "queued i s' \<or> sd_cons s' = CMake"
  proof (cases "sd_cons s' = CMake")
    case False
    have N: "ts_nodes (sd_stack s') \<noteq> None" using ok' False by (auto simp: sched_placed_def placed_def)
    from assms(3) show ?thesis
    proof cases
      case (producer j s1 q)
      with A have "j = k" by (cases "j = k") auto
      with producer A have "prod_step s (PPush pc) s1 PUnpark" by simp
      then obtain spurious where a: "push_atomic spurious pc (sd_stack s) = (PushDone, sd_stack s1)" "sd_cons s1 = sd_cons s"
        by cases (auto simp: prod_pc_of_def split: if_splits)
      with False producer have "sd_cons s \<noteq> CMake" by auto
      with ok obtain ns hs bs where p: "placed n (sd_stack s) (sd_batch s) (pushes s) ns hs bs" by (auto simp: sched_placed_def)
      have "pc \<in> set (pushes s)" using A(1,2) by (force simp: pushes_def in_set_conv_nth)
      then have c: "set (owns pc) \<subseteq> set (claimed_ids (pushes s))" by (rule owns_claimed_ids)
      have ns: "ts_nodes (sd_stack s) = Some ns" "length ns = n" using p by (simp_all add: placed_def)
      have own: "tn_queued (ns ! i)" if "i \<in> set (owns pc)" using that c p assms(4) by (auto simp: placed_def)
      have "queued i s1"
      proof (cases "queued i s")
        case True
        show ?thesis by (rule push_keeps_queued [OF True a(1) refl])
      next
        case False
        then have "\<not> tn_queued (ns ! i)" using ns assms(4) by (simp add: queued_def)
        with own have "owns pc = []" using A(3) by (cases pc) auto
        with a(1) A(3) ns assms(4) \<open>\<not> tn_queued (ns ! i)\<close> show ?thesis
          by (cases pc) (simp_all add: Let_def node_claim_def)
      qed
      with producer show ?thesis by (simp add: queued_def)
    next
      case join
      with A show ?thesis by (simp add: nth_append)
    next
      case consumer
      then have "sd_prods s' = sd_prods s" by cases auto
      with A show ?thesis by simp
    qed
  qed simp
next
  assume "queued i s \<and> \<not> queued i s'"
  then show "\<exists>below. sd_cons s = CRelease i below" "sd_cons s' = CPoll i"
    using step_keeps_queued [OF sched_reach_ok(1) [OF assms(1,2)] assms(2,3)] by blast+
next
  assume "sd_cons s = CFirst 0"
  with sched_reach_ok(1) [OF assms(1,2)] assms(4) show "queued i s"
    by (auto simp: sched_placed_def placed_def queued_def)
qed

text \<open>The nodes are made and the only id pushed.\<close>

definition first_run :: "sched_turn list" where
  "first_run = TJoin # [TConsumer [], TConsumer [], TConsumer [], TConsumer [], TConsumer [], TConsumer [], TConsumer [],
     TConsumer []]"

lemma first_state:
  "sd_cons (sched_run 1 first_run) = CFirst 0" "sd_prods (sched_run 1 first_run) = [PIdle]"
  by (simp_all add: sched_run_def first_run_def sched_new_def treiber_new_def treiber_make_def nodes_new_def
      local_pc_def treiber_swap_early_def node_claim_def)

theorem wake_served_by_poll_witness:
  "sd_cons (sched_run 1 first_run) = CFirst 0 \<and> queued 0 (sched_run 1 first_run)"
proof -
  have step: "sched_step 1 (sched_run 1 first_run) (sched_next 1 (TProducer 0 0) (sched_run 1 first_run))"
    using sched_step.producer [of 0 "sched_run 1 first_run" "sched_run 1 first_run" "PPush (PushLook 0)" 1]
      prod_step.wake [of "sched_run 1 first_run" 0] first_state(2) by simp
  have "(1 :: nat) < LINK_NONE" by (simp add: LINK_NONE_def)
  note served = wake_served_by_poll [OF sched_run_reach this step zero_less_one, THEN conjunct2, THEN conjunct2]
  from served [THEN mp, OF first_state(1)] first_state(1) show ?thesis by (intro conjI)
qed

end
