(* ===== verification/Threads.thy ===== *)
theory Threads
  imports Work_Node
begin

text \<open>
  What a thread does around its loop: the exit callbacks and the guards that hold them
  (src/thread/callback.rs, done.rs), a refused spawn (src/thread/spawn.rs), the join
  (src/thread/join.rs) and the task a thread runs (src/work/stream.rs).
\<close>

section \<open>How a thread ends\<close>

datatype thread_done = DoneClose | DoneError error | DonePanic

datatype failure = FailError error | FailPanic

fun from_done :: "thread_done \<Rightarrow> failure option" where
  "from_done DoneClose = None"
| "from_done (DoneError e) = Some (FailError e)"
| "from_done DonePanic = Some FailPanic"

text \<open>A call returns, or unwinds with a payload: its text, if it is a string.\<close>

datatype 'a unwind = Returns 'a | Unwinds "string option"

text \<open>\<open>NeverStarted\<close> as an error; the parameter says which number its value is.\<close>

type_synonym start_error = "string \<Rightarrow> nat option \<Rightarrow> nat"

definition never_started :: "start_error \<Rightarrow> string \<Rightarrow> nat option \<Rightarrow> error" where
  "never_started enc thread reason = Any (AnyErr ''NeverStarted'' (enc thread reason))"

fun done_of :: "unit res \<Rightarrow> thread_done" where
  "done_of (Ok _) = DoneClose"
| "done_of (Err e) = DoneError e"

section \<open>Exit callbacks\<close>

type_synonym 'w on_done = "thread_done \<Rightarrow> 'w \<Rightarrow> unit unwind \<times> 'w"

text \<open>\<open>invoke\<close> catches a panic of the callback.\<close>

definition invoke :: "'w on_done \<Rightarrow> thread_done \<Rightarrow> 'w \<Rightarrow> 'w" where
  "invoke cb d w = (case cb d w of (Returns _, w') \<Rightarrow> w' | (Unwinds _, w') \<Rightarrow> w')"

fun fire :: "'w on_done list \<Rightarrow> thread_done \<Rightarrow> 'w \<Rightarrow> 'w" where
  "fire [] d w = w"
| "fire (cb # callbacks) d w = fire callbacks d (invoke cb d w)"

record 'w init_guard =
  ig_callbacks :: "'w on_done list"
  ig_thread :: string

definition init_guard_new :: "string \<Rightarrow> 'w on_done list \<Rightarrow> 'w init_guard" where
  "init_guard_new thread callbacks = \<lparr>ig_callbacks = callbacks, ig_thread = thread\<rparr>"

text \<open>\<open>RunGuard\<close> is the list it holds.\<close>

definition init_guard_start :: "'w init_guard \<Rightarrow> 'w on_done list \<times> 'w init_guard" where
  "init_guard_start g = (ig_callbacks g, g\<lparr>ig_callbacks := []\<rparr>)"

definition init_guard_drop :: "start_error \<Rightarrow> 'w init_guard \<Rightarrow> 'w \<Rightarrow> 'w" where
  "init_guard_drop enc g w =
     (if ig_callbacks g = [] then w
      else fire (ig_callbacks g) (DoneError (never_started enc (ig_thread g) None)) w)"

definition run_guard_drain :: "'w on_done list \<Rightarrow> 'w on_done list \<times> 'w on_done list" where
  "run_guard_drain callbacks = (callbacks, [])"

definition run_guard_drop :: "'w on_done list \<Rightarrow> 'w \<Rightarrow> 'w" where
  "run_guard_drop callbacks w = (if callbacks = [] then w else fire callbacks DonePanic w)"

section \<open>Tasks, spawns, joins\<close>

text \<open>A task: its loop, which drops what it drives, dropping it unrun, and the guard. \<open>None\<close>: the loop never
  ends.\<close>

record 'w task =
  tk_body :: "'w \<Rightarrow> (unit res unwind \<times> 'w) option"
  tk_discard :: "'w \<Rightarrow> 'w"
  tk_guard :: "'w init_guard"

definition task_run :: "start_error \<Rightarrow> 'w task \<Rightarrow> 'w \<Rightarrow> (unit res unwind \<times> 'w) option" where
  "task_run enc t w =
     (case init_guard_start (tk_guard t) of
        (guard, rest) \<Rightarrow>
          (case tk_body t (init_guard_drop enc rest w) of
             None \<Rightarrow> None
           | Some (Unwinds payload, w1) \<Rightarrow> Some (Unwinds payload, run_guard_drop guard w1)
           | Some (Returns r, w1) \<Rightarrow>
               (case run_guard_drain guard of
                  (callbacks, guard') \<Rightarrow>
                    Some (Returns r, fire callbacks (done_of r) (run_guard_drop guard' w1)))))"

definition task_drop :: "start_error \<Rightarrow> 'w task \<Rightarrow> 'w \<Rightarrow> 'w" where
  "task_drop enc t w = init_guard_drop enc (tk_guard t) (tk_discard t w)"

text \<open>A spawned thread as its handle holds it: refused with the OS's reason, or ended.\<close>

datatype spawned = Refused nat | Ended "unit res unwind"

definition spawn_run :: "start_error \<Rightarrow> nat option \<Rightarrow> 'w task \<Rightarrow> 'w \<Rightarrow> (spawned \<times> 'w) option" where
  "spawn_run enc refusal t w =
     (case refusal of
        Some reason \<Rightarrow> Some (Refused reason, task_drop enc t w)
      | None \<Rightarrow> map_option (\<lambda>(u, w'). (Ended u, w')) (task_run enc t w))"

text \<open>\<open>Spawn\<close>: a thread with the options for its OS thread. The OS answers a spawn by the name and the stack size
  asked for: \<open>None\<close> runs it, a number is its reason for refusing.\<close>

record 't spawn =
  sn_thread :: 't
  sn_stack_size :: "nat option"

type_synonym os = "string \<Rightarrow> nat option \<Rightarrow> nat option"

definition spawn_new :: "'t \<Rightarrow> 't spawn" where
  "spawn_new t = \<lparr>sn_thread = t, sn_stack_size = None\<rparr>"

definition spawn_stack_size :: "nat \<Rightarrow> 't spawn \<Rightarrow> 't spawn" where
  "spawn_stack_size bytes s = s\<lparr>sn_stack_size := Some bytes\<rparr>"

definition options_spawn :: "start_error \<Rightarrow> os \<Rightarrow> nat option \<Rightarrow> string \<Rightarrow> 'w task \<Rightarrow> 'w \<Rightarrow> (spawned \<times> 'w) option" where
  "options_spawn enc os stack name t w = spawn_run enc (os name stack) t w"

definition spawn_start ::
  "start_error \<Rightarrow> os \<Rightarrow> string \<Rightarrow> ('t \<Rightarrow> 'w task) \<Rightarrow> 't spawn \<Rightarrow> 'w \<Rightarrow> (spawned \<times> 'w) option" where
  "spawn_start enc os name into_task s w = options_spawn enc os (sn_stack_size s) name (into_task (sn_thread s)) w"

datatype join = JoinOk | JoinError error | JoinPanic error

definition panic_message :: "string option \<Rightarrow> string" where
  "panic_message payload = (case payload of Some m \<Rightarrow> m | None \<Rightarrow> ''non-string panic payload'')"

fun spawned_join :: "start_error \<Rightarrow> string \<Rightarrow> spawned \<Rightarrow> join" where
  "spawned_join enc name (Refused reason) = JoinError (never_started enc name (Some reason))"
| "spawned_join enc name (Ended (Returns (Ok _))) = JoinOk"
| "spawned_join enc name (Ended (Returns (Err e))) = JoinError e"
| "spawned_join enc name (Ended (Unwinds payload)) =
     JoinPanic (Fatal (''Thread '' @ name @ '' panicked: '' @ panic_message payload))"

definition bundle_errors :: "join list \<Rightarrow> error list" where
  "bundle_errors results =
     List.map_filter (\<lambda>j. case j of JoinError e \<Rightarrow> Some e | JoinPanic e \<Rightarrow> Some e | JoinOk \<Rightarrow> None) results"

text \<open>What the callbacks are told.\<close>

fun done_of_spawned :: "start_error \<Rightarrow> string \<Rightarrow> spawned \<Rightarrow> thread_done" where
  "done_of_spawned enc name (Refused reason) = DoneError (never_started enc name None)"
| "done_of_spawned enc name (Ended (Returns r)) = done_of r"
| "done_of_spawned enc name (Ended (Unwinds payload)) = DonePanic"

lemma spawn_run_exits:
  assumes "spawn_run enc refusal \<lparr>tk_body = body, tk_discard = discard, tk_guard = init_guard_new name callbacks\<rparr> w =
     Some (sp, w')"
  shows "(\<exists>w1. w' = fold (\<lambda>cb v. snd (cb (done_of_spawned enc name sp) v)) callbacks w1 \<and>
            (case sp of Refused reason \<Rightarrow> refusal = Some reason \<and> w1 = discard w
                      | Ended u \<Rightarrow> refusal = None \<and> body w = Some (u, w1))) \<and>
         (case done_of_spawned enc name sp of
            DoneClose \<Rightarrow> spawned_join enc name sp = JoinOk \<and> bundle_errors [spawned_join enc name sp] = []
          | DonePanic \<Rightarrow> \<exists>m. spawned_join enc name sp = JoinPanic (Fatal (''Thread '' @ name @ '' panicked: '' @ m))
          | DoneError e \<Rightarrow> (case sp of
                Ended _ \<Rightarrow> spawned_join enc name sp = JoinError e
              | Refused reason \<Rightarrow> e = never_started enc name None \<and>
                  spawned_join enc name sp = JoinError (never_started enc name (Some reason))))"
proof -
  have f: "fire cbs d v = fold (\<lambda>cb v. snd (cb d v)) cbs v" for cbs :: "'a on_done list" and d v
  proof (induction cbs arbitrary: v)
    case (Cons cb cbs)
    have "invoke cb d v = snd (cb d v)" by (auto simp: invoke_def split: prod.splits unwind.splits)
    with Cons show ?case by simp
  qed simp
  note defs = spawn_run_def task_drop_def task_run_def init_guard_new_def init_guard_start_def init_guard_drop_def
    run_guard_drain_def run_guard_drop_def
  show ?thesis
  proof (cases refusal)
    case (Some reason)
    with assms show ?thesis by (auto simp: defs f)
  next
    case None
    with assms obtain u w1 where b: "body w = Some (u, w1)" "sp = Ended u"
      by (auto simp: defs split: option.splits prod.splits unwind.splits)
    show ?thesis
    proof (cases u)
      case (Returns r)
      with assms None b have "w' = fold (\<lambda>cb v. snd (cb (done_of r) v)) callbacks w1" by (auto simp: defs f)
      with None b Returns show ?thesis by (cases r) (auto simp: bundle_errors_def List.map_filter_simps)
    next
      case (Unwinds payload)
      with assms None b have "w' = fold (\<lambda>cb v. snd (cb DonePanic v)) callbacks w1" by (auto simp: defs f split: if_splits)
      with None b Unwinds show ?thesis by auto
    qed
  qed
qed

text \<open>However a thread's spawn and task end, every \<open>on_done\<close> callback has been invoked exactly once, in
  registration order, also past one that panics, after what the thread drove was dropped, with the one
  \<open>Done\<close> that matches what \<open>join\<close> returns: a clean close with \<open>Join::Ok\<close>, the loop's error with the same
  \<open>Join::Error\<close>, a panic with \<open>Join::Panic\<close>, a refused spawn with a \<open>NeverStarted\<close> without and with
  the reason.\<close>

theorem exit_fires_callbacks_once:
  assumes "spawn_run enc refusal \<lparr>tk_body = body, tk_discard = discard, tk_guard = init_guard_new name callbacks\<rparr> w =
     Some (sp, w')"
  shows "(\<exists>w1. w' = fold (\<lambda>cb v. snd (cb (done_of_spawned enc name sp) v)) callbacks w1 \<and>
            (case sp of Refused reason \<Rightarrow> refusal = Some reason \<and> w1 = discard w
                      | Ended u \<Rightarrow> refusal = None \<and> body w = Some (u, w1))) \<and>
         (case done_of_spawned enc name sp of
            DoneClose \<Rightarrow> spawned_join enc name sp = JoinOk \<and> bundle_errors [spawned_join enc name sp] = []
          | DonePanic \<Rightarrow> \<exists>m. spawned_join enc name sp = JoinPanic (Fatal (''Thread '' @ name @ '' panicked: '' @ m))
          | DoneError e \<Rightarrow> (case sp of
                Ended _ \<Rightarrow> spawned_join enc name sp = JoinError e
              | Refused reason \<Rightarrow> e = never_started enc name None \<and>
                  spawned_join enc name sp = JoinError (never_started enc name (Some reason))))"
  by (rule spawn_run_exits [OF assms])

text \<open>Two callbacks, the first of which panics, on a thread whose loop failed.\<close>

theorem exit_fires_callbacks_once_witness:
  "\<exists>w1. [1, 2, 0 :: nat] = fold (\<lambda>cb v. snd (cb (DoneError (Fatal ''x'')) v))
        [\<lambda>d v. (Unwinds None, v @ [2]), \<lambda>d v. (Returns (), v @ [0])] w1 \<and> w1 = [1]"
proof -
  let ?cbs = "[\<lambda>d v. (Unwinds None, v @ [2]), \<lambda>d v. (Returns (), v @ [0])] :: nat list on_done list"
  have "spawn_run (\<lambda>_ _. 0) None
      \<lparr>tk_body = (\<lambda>w. Some (Returns (Err (Fatal ''x'')), w @ [1])), tk_discard = (\<lambda>w. w),
       tk_guard = init_guard_new ''T'' ?cbs\<rparr> [] = Some (Ended (Returns (Err (Fatal ''x''))), [1, 2, 0])"
    by (simp add: spawn_run_def task_run_def init_guard_new_def init_guard_start_def init_guard_drop_def
        run_guard_drain_def run_guard_drop_def invoke_def)
  from exit_fires_callbacks_once [OF this] show ?thesis by auto
qed

end
