(* ===== verification/Work_Stream.thy ===== *)
theory Work_Stream
  imports Threads
begin

text \<open>
  A work thread (src/work/stream.rs): its loop works every root once a round until all have closed, and
  what is left is dropped before the thread's exit callbacks fire.
\<close>

section \<open>The loop\<close>

definition work_loop_body ::
  "('p, 'w) parent_ops \<Rightarrow> 'p list \<times> 'w \<Rightarrow> ('p list \<times> 'w + unit res \<times> 'p list \<times> 'w) option" where
  "work_loop_body po = (\<lambda>(ws, w).
     if ws = [] then Some (Inr (Ok (), ws, w))
     else (case work_each po ws w of
             None \<Rightarrow> None
           | Some (Ok _, ws', w') \<Rightarrow> Some (Inl (ws', w'))
           | Some (Err e, ws', w') \<Rightarrow> Some (Inr (Err e, ws', w'))))"

definition work_loop :: "('p, 'w) parent_ops \<Rightarrow> 'p list \<Rightarrow> 'w \<Rightarrow> (unit res \<times> 'p list \<times> 'w) option" where
  "work_loop po ws w = loop (work_loop_body po) (ws, w)"

text \<open>\<open>run\<close>: the workables left are dropped with the vector, in order.\<close>

definition stream_run :: "('p, 'w) parent_ops \<Rightarrow> 'p list \<Rightarrow> 'w \<Rightarrow> (unit res \<times> 'w) option" where
  "stream_run po ws w =
     (case work_loop po ws w of
        None \<Rightarrow> None
      | Some (r, ws', w') \<Rightarrow> Some (r, fold (pa_drop po) ws' w'))"

record ('p, 'w) thread_stream =
  st_workables :: "'p list"
  st_on_done :: "'w on_done list"

definition stream_new :: "('p, 'w) thread_stream" where
  "stream_new = \<lparr>st_workables = [], st_on_done = []\<rparr>"

definition stream_of :: "'p \<Rightarrow> ('p, 'w) thread_stream" where
  "stream_of root = \<lparr>st_workables = [root], st_on_done = []\<rparr>"

definition stream_add :: "'p \<Rightarrow> ('p, 'w) thread_stream \<Rightarrow> ('p, 'w) thread_stream" where
  "stream_add p s = s\<lparr>st_workables := st_workables s @ [p]\<rparr>"

definition stream_on_done :: "'w on_done \<Rightarrow> ('p, 'w) thread_stream \<Rightarrow> ('p, 'w) thread_stream" where
  "stream_on_done cb s = s\<lparr>st_on_done := st_on_done s @ [cb]\<rparr>"

definition stream_task :: "('p, 'w) parent_ops \<Rightarrow> string \<Rightarrow> ('p, 'w) thread_stream \<Rightarrow> 'w task" where
  "stream_task po name s =
     \<lparr>tk_body = (\<lambda>w. map_option (\<lambda>(r, w'). (Returns r, w')) (stream_run po (st_workables s) w)),
      tk_discard = fold (pa_drop po) (st_workables s),
      tk_guard = init_guard_new name (st_on_done s)\<rparr>"

text \<open>\<open>with\<close> and \<open>start\<close>; the handle's \<open>join\<close> is \<open>spawned_join\<close>.\<close>

definition stream_with :: "('p, 'w) thread_stream \<Rightarrow> ('p, 'w) thread_stream spawn" where
  "stream_with s = spawn_new s"

definition stream_start ::
  "start_error \<Rightarrow> os \<Rightarrow> ('p, 'w) parent_ops \<Rightarrow> string \<Rightarrow> ('p, 'w) thread_stream spawn \<Rightarrow> 'w \<Rightarrow> (spawned \<times> 'w) option" where
  "stream_start enc os po name s w = spawn_start enc os name (stream_task po name) s w"

section \<open>What a round does\<close>

lemma worked_append: "worked po w ps w1 \<Longrightarrow> worked po w1 qs w2 \<Longrightarrow> worked po w (ps @ qs) w2"
  by (induction rule: worked.induct) (auto intro: worked.intros)

lemma work_each_loop_Err:
  "work_each_loop po i ws w = Some (Err e, ws', w') \<Longrightarrow> i \<le> length ws \<Longrightarrow>
     \<exists>ps p w1. worked po w ps w1 \<and> pa_work po p w1 = Some (Err e, w') \<and> e \<noteq> Closed \<and> p \<in> set ws' \<and>
       mset ws = mset ws' + mset (map fst (filter snd ps)) \<and> set (map fst ps) \<subseteq> set ws"
proof (induction "length ws - i" arbitrary: i ws w rule: less_induct)
  case less
  from less.prems have i: "i < length ws" by (subst (asm) work_each_loop.simps) (auto split: if_splits)
  from less.prems i obtain r w1 where p: "pa_work po (ws ! i) w = Some (r, w1)"
    by (subst (asm) work_each_loop.simps) (auto split: option.splits)
  show ?case
  proof (cases r)
    case (Ok v)
    from less.prems i p Ok have l: "work_each_loop po (i + 1) ws w1 = Some (Err e, ws', w')"
      by (subst (asm) work_each_loop.simps) simp
    have "length ws - (i + 1) < length ws - i" "i + 1 \<le> length ws" using i by auto
    from less.hyps [OF this(1) l this(2)] obtain ps q w2 where
      "worked po w1 ps w2" "pa_work po q w2 = Some (Err e, w')" "e \<noteq> Closed" "q \<in> set ws'"
      "mset ws = mset ws' + mset (map fst (filter snd ps))" "set (map fst ps) \<subseteq> set ws" by blast
    then show ?thesis using i worked.stays [OF p [unfolded Ok]]
      by (intro exI [of _ "(ws ! i, False) # ps"] exI [of _ q] exI [of _ w2]) auto
  next
    case (Err x)
    show ?thesis
    proof (cases "is_closed x")
      case True
      with less.prems i p Err
      have l: "work_each_loop po i (swap_remove i ws) (pa_drop po (ws ! i) w1) = Some (result.Err e, ws', w')"
        by (subst (asm) work_each_loop.simps) simp
      have "length (swap_remove i ws) - i < length ws - i" "i \<le> length (swap_remove i ws)" using i by auto
      from less.hyps [OF this(1) l this(2)] obtain ps q w2 where
        "worked po (pa_drop po (ws ! i) w1) ps w2" "pa_work po q w2 = Some (result.Err e, w')" "e \<noteq> Closed" "q \<in> set ws'"
        "mset (swap_remove i ws) = mset ws' + mset (map fst (filter snd ps))" "set (map fst ps) \<subseteq> set (swap_remove i ws)"
        by blast
      moreover have "set (swap_remove i ws) \<subseteq> set ws"
        using mset_swap_remove [OF i] by (metis set_mset_add_mset_insert set_mset_mset subset_insertI)
      moreover from calculation(5) have "mset ws = mset ws' + add_mset (ws ! i) (mset (map fst (filter snd ps)))"
        using mset_swap_remove [OF i] by (metis add_mset_add_single union_assoc)
      ultimately show ?thesis using worked.drops [of po "ws ! i" w w1] p Err True i
        by (intro exI [of _ "(ws ! i, True) # ps"] exI [of _ q] exI [of _ w2]) auto
    next
      case False
      with less.prems i p Err have "ws' = ws" "w' = w1" "e = x"
        by (subst (asm) work_each_loop.simps; simp)+
      with i p Err False show ?thesis
        by (intro exI [of _ "[]"] exI [of _ "ws ! i"] exI [of _ w]) (auto intro: worked.nobody)
    qed
  qed
qed

lemma work_each_mset:
  assumes "work_each po ws w = Some (Ok u, ws', w')"
  shows "\<exists>ps. worked po w ps w' \<and> mset ws = mset ws' + mset (map fst (filter snd ps)) \<and> set (map fst ps) = set ws"
proof -
  from assms obtain v ws1 where l: "work_each_loop po 0 ws w = Some (Ok v, ws1, w')"
    and ws': "ws' = (if 1 < length ws1 then rotate1 ws1 else ws1)"
    by (auto simp: work_each_def split: option.splits result.splits)
  have m: "mset ws' = mset ws1" unfolding ws' by (cases ws1) simp_all
  from work_each_loop_worked [OF l] obtain ps where
    ps: "worked po w ps w'" "mset (map fst ps) = mset ws" "mset ws1 = mset (map fst (filter (\<lambda>p. \<not> snd p) ps))" by auto
  have "mset (map fst ps) = mset (map fst (filter (\<lambda>p. \<not> snd p) ps)) + mset (map fst (filter snd ps))"
    by (induction ps) auto
  with ps m show ?thesis by (metis mset_eq_setD)
qed

section \<open>How a work thread ends\<close>

lemma stream_run_ends:
  assumes "stream_run po ws w = Some (r, w')"
  shows "\<exists>ps w1 left. worked po w ps w1 \<and> set (map fst ps) \<subseteq> set ws \<and>
           mset ws = mset left + mset (map fst (filter snd ps)) \<and>
           (case r of
              Ok _ \<Rightarrow> left = [] \<and> w' = w1
            | Err e \<Rightarrow> e \<noteq> Closed \<and> (\<exists>p w2. p \<in> set left \<and> pa_work po p w1 = Some (Err e, w2) \<and>
                w' = fold (pa_drop po) left w2))"
proof -
  from assms obtain left w2 where l: "loop (work_loop_body po) (ws, w) = Some (r, left, w2)"
    and w': "w' = fold (pa_drop po) left w2" by (auto simp: stream_run_def work_loop_def split: option.splits)
  let ?P = "\<lambda>(vs, v). \<exists>ps. worked po w ps v \<and> set (map fst ps) \<subseteq> set ws \<and>
      mset ws = mset vs + mset (map fst (filter snd ps))"
  let ?Q = "\<lambda>(q :: unit res, vs, v). \<exists>ps w1. worked po w ps w1 \<and> set (map fst ps) \<subseteq> set ws \<and>
      mset ws = mset vs + mset (map fst (filter snd ps)) \<and>
      (case q of Ok _ \<Rightarrow> vs = [] \<and> v = w1
       | Err e \<Rightarrow> e \<noteq> Closed \<and> (\<exists>p. p \<in> set vs \<and> pa_work po p w1 = Some (Err e, v)))"
  have "?Q (r, left, w2)"
  proof (rule loop_invariant [where P = ?P and Q = ?Q, OF l])
    show "?P (ws, w)" by (auto intro!: exI [of _ "[]"] intro: worked.nobody)
  next
    fix s s' assume P: "?P s" and b: "work_loop_body po s = Some (Inl s')"
    obtain vs v where s: "s = (vs, v)" by (cases s)
    from b s obtain u vs' v' where e: "work_each po vs v = Some (Ok u, vs', v')" "s' = (vs', v')"
      by (auto simp: work_loop_body_def split: if_splits option.splits result.splits)
    from P s obtain ps where ps: "worked po w ps v" "set (map fst ps) \<subseteq> set ws"
      "mset ws = mset vs + mset (map fst (filter snd ps))" by auto
    from work_each_mset [OF e(1)] obtain qs where qs: "worked po v qs v'"
      "mset vs = mset vs' + mset (map fst (filter snd qs))" "set (map fst qs) = set vs" by auto
    have "set vs \<subseteq> set ws" using ps(3) by (metis set_mset_mset set_mset_mono mset_subset_eq_add_left)
    with ps qs e(2) worked_append [OF ps(1) qs(1)] show "?P s'" by (intro case_prodI2 exI [of _ "ps @ qs"]) auto
  next
    fix s b assume P: "?P s" and e: "work_loop_body po s = Some (Inr b)"
    obtain vs v where s: "s = (vs, v)" by (cases s)
    from P s obtain ps where ps: "worked po w ps v" "set (map fst ps) \<subseteq> set ws"
      "mset ws = mset vs + mset (map fst (filter snd ps))" by auto
    have sub: "set vs \<subseteq> set ws" using ps(3) by (metis set_mset_mset set_mset_mono mset_subset_eq_add_left)
    show "?Q b"
    proof (cases "vs = []")
      case True
      with e s ps show ?thesis by (auto simp: work_loop_body_def)
    next
      case False
      with e s obtain x vs' v' where f: "work_each po vs v = Some (Err x, vs', v')" "b = (Err x, vs', v')"
        by (auto simp: work_loop_body_def split: option.splits result.splits)
      then have "work_each_loop po 0 vs v = Some (Err x, vs', v')"
        by (auto simp: work_each_def split: option.splits result.splits)
      from work_each_loop_Err [OF this] obtain qs p w1 where qs: "worked po v qs w1"
        "pa_work po p w1 = Some (Err x, v')" "x \<noteq> Closed" "p \<in> set vs'"
        "mset vs = mset vs' + mset (map fst (filter snd qs))" "set (map fst qs) \<subseteq> set vs" by auto
      with qs ps f worked_append [OF ps(1) qs(1)] sub show ?thesis
        by (simp, intro exI [of _ "ps @ qs"] exI [of _ w1]) auto
    qed
  qed
  with w' show ?thesis by (cases r) fastforce+
qed

text \<open>C37. However a started work thread ends, its \<open>on_done\<close> callbacks are called once each, in order, with
  what \<open>join\<close> reports, after every root was dropped. A refused spawn drops its roots unworked. A clean close:
  every root reported \<open>Closed\<close> exactly once and was dropped then. An error is that of a root, worked last,
  and not \<open>Closed\<close>; those that had closed before had been dropped, every other root, the failing one
  included, is dropped once, before the callbacks run.\<close>

theorem work_thread_ends:
  assumes "stream_start enc os po name \<lparr>sn_thread = t, sn_stack_size = stack\<rparr> w = Some (sp, w')"
  shows "\<exists>w4. w' = fold (\<lambda>cb v. snd (cb (done_of_spawned enc name sp) v)) (st_on_done t) w4 \<and>
    (case sp of
       Refused reason \<Rightarrow> os name stack = Some reason \<and> w4 = fold (pa_drop po) (st_workables t) w \<and>
         spawned_join enc name sp = JoinError (never_started enc name (Some reason))
     | Ended u \<Rightarrow> os name stack = None \<and> (\<exists>r. u = Returns r \<and>
         spawned_join enc name sp = (case r of Ok _ \<Rightarrow> JoinOk | Err e \<Rightarrow> JoinError e) \<and>
         (\<exists>ps w1 left. worked po w ps w1 \<and> set (map fst ps) \<subseteq> set (st_workables t) \<and>
           mset (st_workables t) = mset left + mset (map fst (filter snd ps)) \<and>
           (case r of
              Ok _ \<Rightarrow> left = [] \<and> w4 = w1
            | Err e \<Rightarrow> e \<noteq> Closed \<and> (\<exists>p w2. p \<in> set left \<and> pa_work po p w1 = Some (Err e, w2) \<and>
                w4 = fold (pa_drop po) left w2)))))"
proof -
  let ?body = "\<lambda>w. map_option (\<lambda>(r, w'). (Returns r, w')) (stream_run po (st_workables t) w)"
  from assms have "spawn_run enc (os name stack) \<lparr>tk_body = ?body, tk_discard = fold (pa_drop po) (st_workables t),
      tk_guard = init_guard_new name (st_on_done t)\<rparr> w = Some (sp, w')"
    by (simp add: stream_start_def spawn_start_def options_spawn_def stream_task_def)
  from spawn_run_exits [OF this] obtain w4 where
    f: "w' = fold (\<lambda>cb v. snd (cb (done_of_spawned enc name sp) v)) (st_on_done t) w4" and
    e: "case sp of Refused reason \<Rightarrow> os name stack = Some reason \<and> w4 = fold (pa_drop po) (st_workables t) w
        | Ended u \<Rightarrow> os name stack = None \<and> ?body w = Some (u, w4)"
    by blast
  show ?thesis
  proof (cases sp)
    case (Refused reason)
    with f e show ?thesis by auto
  next
    case (Ended u)
    with e obtain r where r: "u = Returns r" "stream_run po (st_workables t) w = Some (r, w4)" by auto
    note stream_run_ends [OF r(2)]
    with f e Ended r(1) show ?thesis by (intro exI [of _ w4] conjI) (cases r; simp)+
  qed
qed

text \<open>Two roots; the world is who was worked, and a root closes once three were.\<close>

definition three_works :: "(nat, nat list) parent_ops" where
  "three_works = \<lparr>pa_work = (\<lambda>p w. Some (if length w < 3 then Ok () else Err Closed, w @ [p])), pa_drop = (\<lambda>p w. w @ [p])\<rparr>"

theorem work_thread_ends_witness:
  "\<exists>ps. worked three_works [] ps [1, 2, 2, 1, 1, 2, 2] \<and> mset (map fst (filter snd ps)) = {#1, 2 :: nat#}"
proof -
  have "stream_start (\<lambda>_ _. 0) (\<lambda>_ _. None) three_works ''W''
      \<lparr>sn_thread = \<lparr>st_workables = [1, 2], st_on_done = []\<rparr>, sn_stack_size = None\<rparr> [] =
      Some (Ended (Returns (Ok ())), [1, 2, 2, 1, 1, 2, 2])" by code_simp
  from work_thread_ends [OF this] show ?thesis by auto
qed

section \<open>A work thread ends\<close>

lemma work_each_loop_returns:
  assumes work: "\<And>p w. \<exists>r w'. pa_work po p w = Some (r, w') \<and> m w' \<le> m w \<and> (is_ok r \<longrightarrow> m w' < (m w :: nat))"
    and drop: "\<And>p w. m (pa_drop po p w) \<le> m w"
  shows "\<exists>r ws' w'. work_each_loop po i ws w = Some (r, ws', w') \<and>
           length ws' + m w' + of_bool (is_ok r \<and> i < length ws) \<le> length ws + m w"
proof (induction "length ws - i" arbitrary: i ws w rule: less_induct)
  case less
  show ?case
  proof (cases "i < length ws")
    case False
    then show ?thesis by (simp add: work_each_loop.simps [of po i ws w])
  next
    case True
    from work [of "ws ! i" w] obtain r w1 where p: "pa_work po (ws ! i) w = Some (r, w1)" "m w1 \<le> m w"
      "is_ok r \<longrightarrow> m w1 < m w" by blast
    show ?thesis
    proof (cases r)
      case (Ok u)
      have "length ws - (i + 1) < length ws - i" using True by simp
      from less.hyps [OF this, of w1] obtain q ws' w' where
        "work_each_loop po (i + 1) ws w1 = Some (q, ws', w')" "length ws' + m w' \<le> length ws + m w1" by auto
      with True p Ok show ?thesis by (simp add: work_each_loop.simps [of po i ws w])
    next
      case (Err e)
      show ?thesis
      proof (cases "is_closed e")
        case c: True
        have "length (swap_remove i ws) - i < length ws - i" using True by simp
        from less.hyps [OF this, of "pa_drop po (ws ! i) w1"] obtain q ws' w' where
          "work_each_loop po i (swap_remove i ws) (pa_drop po (ws ! i) w1) = Some (q, ws', w')"
          "length ws' + m w' \<le> length ws - 1 + m (pa_drop po (ws ! i) w1)" by auto
        moreover have "0 < length ws" using True by linarith
        ultimately show ?thesis using True p Err c drop [of "ws ! i" w1]
          by (cases q) (simp_all add: work_each_loop.simps [of po i ws w])
      next
        case False
        with True p Err show ?thesis by (simp add: work_each_loop.simps [of po i ws w])
      qed
    qed
  qed
qed

text \<open>C38. A work thread whose roots do not block, each of which closes, fails, or uses up some of a finite
  supply whenever it is worked, returns from its loop, whatever roots it was given.\<close>

theorem work_thread_returns:
  assumes work: "\<And>p w. \<exists>r w'. pa_work po p w = Some (r, w') \<and> m w' \<le> m w \<and> (is_ok r \<longrightarrow> m w' < (m w :: nat))"
    and drop: "\<And>p w. m (pa_drop po p w) \<le> m w"
  shows "\<exists>r w'. stream_run po ws w = Some (r, w')"
proof -
  let ?m = "\<lambda>(ws, w). length ws + m w"
  have "\<exists>b. loop (work_loop_body po) (ws, w) = Some b"
  proof (rule loop_returns [where P = "\<lambda>_. True" and m = ?m and body = "work_loop_body po"])
    fix s :: "'a list \<times> 'b"
    obtain vs v where s: "s = (vs, v)" by (cases s)
    from work_each_loop_returns [of po m, OF work drop, of 0 vs v] obtain r vs' v' where
      l: "work_each_loop po 0 vs v = Some (r, vs', v')"
        "length vs' + m v' + of_bool (is_ok r \<and> 0 < length vs) \<le> length vs + m v" by blast
    show "(\<exists>b. work_loop_body po s = Some (Inr b)) \<or>
        (\<exists>s'. work_loop_body po s = Some (Inl s') \<and> True \<and> ?m s' < ?m s)"
    proof (cases "vs = []")
      case True
      with s show ?thesis by (simp add: work_loop_body_def)
    next
      case False
      with s l show ?thesis by (cases r) (auto simp: work_loop_body_def work_each_def)
    qed
  qed simp
  then show ?thesis by (auto simp: stream_run_def work_loop_def)
qed

theorem work_thread_returns_witness: "\<exists>r w'. stream_run three_works [7, 8, 9] [] = Some (r, w')"
proof (rule work_thread_returns [where m = "\<lambda>w. 3 - length w"])
  show "\<exists>r w'. pa_work three_works p w = Some (r, w') \<and> 3 - length w' \<le> 3 - length w \<and>
      (is_ok r \<longrightarrow> 3 - length w' < 3 - length w)" for p w
    by (auto simp: three_works_def)
  show "3 - length (pa_drop three_works p w) \<le> 3 - length w" for p w
    by (simp add: three_works_def diff_le_mono2)
qed

end
