(* ===== verification/Bundle.thy ===== *)
theory Bundle
  imports Threads
begin

text \<open>
  A bundle of threads (src/thread/bundle/core.rs) and the latch behind its first-error callbacks
  (src/thread/bundle/first_error.rs), with the threads' exits interleaved one callback and one critical
  section at a time. A callback is its number: whether it panics makes no difference, as every call is
  caught.
\<close>

section \<open>Threads of a bundle\<close>

text \<open>What a thread still has to call: a callback of its own, the hook \<open>inject\<close> added, or a first-error
  callback the hook took.\<close>

datatype bcall = OwnDone nat | FirstHook | OnFirst nat failure

datatype bstate = BIdle | BRunning | BFiring spawned thread_done "bcall list" | BGone spawned

record bthread =
  bt_name :: string
  bt_on_done :: "bcall list"
  bt_state :: bstate

record thread_bundle =
  bd_threads :: "bthread list"
  bd_first :: "nat list"            \<comment> \<open>\<open>on_first_error\<close>, until \<open>start\<close> moves it behind the latch\<close>

record started =
  sb_threads :: "bthread list"
  sb_slot :: "nat list"             \<comment> \<open>behind the mutex\<close>
  sb_next :: nat                    \<comment> \<open>the next thread \<open>start\<close> spawns\<close>
  sb_log :: "(nat \<times> bcall \<times> thread_done) list"

definition bundle_new :: thread_bundle where
  "bundle_new = \<lparr>bd_threads = [], bd_first = []\<rparr>"

definition bundle_add :: "string \<Rightarrow> nat list \<Rightarrow> thread_bundle \<Rightarrow> thread_bundle" where
  "bundle_add name own b =
     b\<lparr>bd_threads := bd_threads b @ [\<lparr>bt_name = name, bt_on_done = map OwnDone own, bt_state = BIdle\<rparr>]\<rparr>"

definition bundle_on_first_error :: "nat \<Rightarrow> thread_bundle \<Rightarrow> thread_bundle" where
  "bundle_on_first_error c b = b\<lparr>bd_first := bd_first b @ [c]\<rparr>"

definition inject :: "bthread list \<Rightarrow> nat list \<Rightarrow> bthread list" where
  "inject threads callbacks =
     (if callbacks = [] then threads
      else map (\<lambda>t. t\<lparr>bt_on_done := bt_on_done t @ [FirstHook]\<rparr>) threads)"

definition bundle_start :: "thread_bundle \<Rightarrow> started" where
  "bundle_start b =
     \<lparr>sb_threads = inject (bd_threads b) (bd_first b), sb_slot = bd_first b, sb_next = 0, sb_log = []\<rparr>"

definition exiting :: "start_error \<Rightarrow> spawned \<Rightarrow> bthread \<Rightarrow> bthread" where
  "exiting enc sp t = t\<lparr>bt_state := BFiring sp (done_of_spawned enc (bt_name t) sp) (bt_on_done t)\<rparr>"

text \<open>A refused spawn fires inside \<open>start\<close>, which spawns the next thread after that.\<close>

fun spawned_state :: "bstate \<Rightarrow> bool" where
  "spawned_state (BFiring (Refused _) _ _) = False"
| "spawned_state _ = True"

definition set_thread :: "nat \<Rightarrow> bthread \<Rightarrow> started \<Rightarrow> started" where
  "set_thread k t s = s\<lparr>sb_threads := (sb_threads s)[k := t]\<rparr>"

inductive bundle_step :: "start_error \<Rightarrow> started \<Rightarrow> started \<Rightarrow> bool" for enc where
  spawn: "k = sb_next s \<Longrightarrow> k < length (sb_threads s) \<Longrightarrow> \<forall>t\<in>set (sb_threads s). spawned_state (bt_state t) \<Longrightarrow>
     bundle_step enc s (set_thread k ((sb_threads s ! k)\<lparr>bt_state := BRunning\<rparr>) (s\<lparr>sb_next := k + 1\<rparr>))"
| refuse: "k = sb_next s \<Longrightarrow> k < length (sb_threads s) \<Longrightarrow> \<forall>t\<in>set (sb_threads s). spawned_state (bt_state t) \<Longrightarrow>
     bundle_step enc s (set_thread k (exiting enc (Refused reason) (sb_threads s ! k)) (s\<lparr>sb_next := k + 1\<rparr>))"
| ended: "k < length (sb_threads s) \<Longrightarrow> bt_state (sb_threads s ! k) = BRunning \<Longrightarrow>
     bundle_step enc s (set_thread k (exiting enc (Ended u) (sb_threads s ! k)) s)"
| call: "k < length (sb_threads s) \<Longrightarrow> bt_state (sb_threads s ! k) = BFiring sp d (c # cs) \<Longrightarrow> c \<noteq> FirstHook \<Longrightarrow>
     bundle_step enc s (set_thread k ((sb_threads s ! k)\<lparr>bt_state := BFiring sp d cs\<rparr>) (s\<lparr>sb_log := sb_log s @ [(k, c, d)]\<rparr>))"
| clean: "k < length (sb_threads s) \<Longrightarrow> bt_state (sb_threads s ! k) = BFiring sp d (FirstHook # cs) \<Longrightarrow>
     from_done d = None \<Longrightarrow>
     bundle_step enc s (set_thread k ((sb_threads s ! k)\<lparr>bt_state := BFiring sp d cs\<rparr>) s)"
| latch: "k < length (sb_threads s) \<Longrightarrow> bt_state (sb_threads s ! k) = BFiring sp d (FirstHook # cs) \<Longrightarrow>
     from_done d = Some f \<Longrightarrow>
     bundle_step enc s
       (set_thread k ((sb_threads s ! k)\<lparr>bt_state := BFiring sp d (map (\<lambda>c. OnFirst c f) (sb_slot s) @ cs)\<rparr>) (s\<lparr>sb_slot := []\<rparr>))"
| gone: "k < length (sb_threads s) \<Longrightarrow> bt_state (sb_threads s ! k) = BFiring sp d [] \<Longrightarrow>
     bundle_step enc s (set_thread k ((sb_threads s ! k)\<lparr>bt_state := BGone sp\<rparr>) s)"

inductive bundle_reach :: "start_error \<Rightarrow> started \<Rightarrow> started \<Rightarrow> bool" for enc s0 where
  here: "bundle_reach enc s0 s0"
| there: "bundle_reach enc s0 s \<Longrightarrow> bundle_step enc s s' \<Longrightarrow> bundle_reach enc s0 s'"

text \<open>The steps as a function of who goes next: \<open>start\<close>, with the OS's answer, or a thread, with how its loop
  ends.\<close>

datatype bturn = TSpawn "nat option" | TThread nat "unit res unwind"

fun bundle_next :: "start_error \<Rightarrow> bturn \<Rightarrow> started \<Rightarrow> started" where
  "bundle_next enc (TSpawn refusal) s =
     (let k = sb_next s in
      if k < length (sb_threads s) \<and> (\<forall>t\<in>set (sb_threads s). spawned_state (bt_state t))
      then set_thread k
              (case refusal of
                 None \<Rightarrow> (sb_threads s ! k)\<lparr>bt_state := BRunning\<rparr>
               | Some reason \<Rightarrow> exiting enc (Refused reason) (sb_threads s ! k)) (s\<lparr>sb_next := k + 1\<rparr>)
      else s)"
| "bundle_next enc (TThread k u) s =
     (if k < length (sb_threads s)
      then (case bt_state (sb_threads s ! k) of
              BRunning \<Rightarrow> set_thread k (exiting enc (Ended u) (sb_threads s ! k)) s
            | BFiring sp d [] \<Rightarrow> set_thread k ((sb_threads s ! k)\<lparr>bt_state := BGone sp\<rparr>) s
            | BFiring sp d (FirstHook # cs) \<Rightarrow>
                (case from_done d of
                   None \<Rightarrow> set_thread k ((sb_threads s ! k)\<lparr>bt_state := BFiring sp d cs\<rparr>) s
                 | Some f \<Rightarrow>
                     set_thread k ((sb_threads s ! k)\<lparr>bt_state := BFiring sp d (map (\<lambda>c. OnFirst c f) (sb_slot s) @ cs)\<rparr>)
                       (s\<lparr>sb_slot := []\<rparr>))
            | BFiring sp d (c # cs) \<Rightarrow>
                set_thread k ((sb_threads s ! k)\<lparr>bt_state := BFiring sp d cs\<rparr>) (s\<lparr>sb_log := sb_log s @ [(k, c, d)]\<rparr>)
            | _ \<Rightarrow> s)
      else s)"

lemma bundle_next_reach: "bundle_reach enc s0 s \<Longrightarrow> bundle_reach enc s0 (bundle_next enc t s)"
proof (cases t)
  case (TSpawn refusal)
  assume r: "bundle_reach enc s0 s"
  show ?thesis
    using TSpawn r bundle_reach.there [OF r bundle_step.spawn [OF refl]] bundle_reach.there [OF r bundle_step.refuse [OF refl]]
    by (simp add: Let_def split: option.split)
next
  case (TThread k u)
  assume r: "bundle_reach enc s0 s"
  show ?thesis
  proof (cases "k < length (sb_threads s)")
    case k: True
    note steps = bundle_reach.there [OF r bundle_step.ended [OF k]] bundle_reach.there [OF r bundle_step.gone [OF k]]
      bundle_reach.there [OF r bundle_step.call [OF k]] bundle_reach.there [OF r bundle_step.clean [OF k]]
      bundle_reach.there [OF r bundle_step.latch [OF k]]
    show ?thesis
    proof (cases "bt_state (sb_threads s ! k)")
      case BRunning
      with TThread k r steps(1) show ?thesis by simp
    next
      case (BFiring sp d cs)
      show ?thesis
      proof (cases cs)
        case Nil
        with TThread k BFiring steps(2) show ?thesis by simp
      next
        case (Cons c ds)
        show ?thesis
        proof (cases c)
          case FirstHook
          with TThread k BFiring Cons steps(4,5) show ?thesis by (cases "from_done d") simp_all
        qed (use TThread k BFiring Cons steps(3) in simp_all)
      qed
    qed (use TThread k r in simp_all)
  qed (use TThread r in simp)
qed

lemma bundle_run_reach: "bundle_reach enc s0 (fold (bundle_next enc) ts s0)"
proof -
  have "bundle_reach enc s0 (fold (bundle_next enc) ts s)" if "bundle_reach enc s0 s" for s
    using that by (induction ts arbitrary: s) (auto intro: bundle_next_reach)
  then show ?thesis by (simp add: bundle_reach.here)
qed

text \<open>The join waits for every thread, in registration order.\<close>

definition bundle_join :: "start_error \<Rightarrow> started \<Rightarrow> join list option" where
  "bundle_join enc s =
     those (map (\<lambda>t. case bt_state t of BGone sp \<Rightarrow> Some (spawned_join enc (bt_name t) sp) | _ \<Rightarrow> None) (sb_threads s))"

section \<open>What each thread has left\<close>

fun pending_calls :: "bcall list \<Rightarrow> bstate \<Rightarrow> bcall list" where
  "pending_calls all BIdle = all"
| "pending_calls all BRunning = all"
| "pending_calls all (BFiring sp d cs) = cs"
| "pending_calls all (BGone sp) = []"

definition bt_pending :: "bthread \<Rightarrow> bcall list" where
  "bt_pending t = pending_calls (bt_on_done t) (bt_state t)"

fun spawned_of :: "bstate \<Rightarrow> spawned option" where
  "spawned_of (BFiring sp d cs) = Some sp"
| "spawned_of (BGone sp) = Some sp"
| "spawned_of _ = None"

definition bt_done :: "start_error \<Rightarrow> bthread \<Rightarrow> thread_done option" where
  "bt_done enc t = map_option (done_of_spawned enc (bt_name t)) (spawned_of (bt_state t))"

fun is_own :: "bcall \<Rightarrow> bool" where
  "is_own (OwnDone c) = True"
| "is_own _ = False"

fun is_first :: "bcall \<Rightarrow> bool" where
  "is_first (OnFirst c f) = True"
| "is_first _ = False"

lemma filter_calls [simp]:
  "filter is_own (map OwnDone xs) = map OwnDone xs" "filter is_first (map OwnDone xs) = []"
  "filter is_own (map (\<lambda>c. OnFirst c f) xs) = []" "filter is_first (map (\<lambda>c. OnFirst c f) xs) = map (\<lambda>c. OnFirst c f) xs"
  by (induction xs) simp_all

lemma bt_pending_simps [simp]:
  "bt_state t = BIdle \<Longrightarrow> bt_pending t = bt_on_done t" "bt_state t = BRunning \<Longrightarrow> bt_pending t = bt_on_done t"
  "bt_state t = BFiring sp d cs \<Longrightarrow> bt_pending t = cs" "bt_state t = BGone sp \<Longrightarrow> bt_pending t = []"
  by (simp_all add: bt_pending_def)

lemma bt_done_simps [simp]:
  "bt_state t = BIdle \<Longrightarrow> bt_done enc t = None" "bt_state t = BRunning \<Longrightarrow> bt_done enc t = None"
  "bt_state t = BFiring sp d cs \<Longrightarrow> bt_done enc t = Some (done_of_spawned enc (bt_name t) sp)"
  "bt_state t = BGone sp \<Longrightarrow> bt_done enc t = Some (done_of_spawned enc (bt_name t) sp)"
  by (simp_all add: bt_done_def)

text \<open>One thread, with the part of the log that is its own: what it has called and has left is what was
  registered, with its one \<open>Done\<close>.\<close>

definition own_log :: "nat \<Rightarrow> (nat \<times> bcall \<times> thread_done) list \<Rightarrow> (nat \<times> bcall \<times> thread_done) list" where
  "own_log k log = filter (\<lambda>(j, c, _). j = k \<and> is_own c) log"

definition first_log :: "(nat \<times> bcall \<times> thread_done) list \<Rightarrow> (nat \<times> bcall \<times> thread_done) list" where
  "first_log log = filter (\<lambda>(_, c, _). is_first c) log"

definition own_ok :: "start_error \<Rightarrow> nat \<Rightarrow> (nat \<times> bcall \<times> thread_done) list \<Rightarrow> bthread \<Rightarrow> bool" where
  "own_ok enc k log t \<longleftrightarrow>
     (\<forall>sp d cs. bt_state t = BFiring sp d cs \<longrightarrow> d = done_of_spawned enc (bt_name t) sp) \<and>
     (\<exists>called. map (\<lambda>c. (k, c, the (bt_done enc t))) called = own_log k log \<and>
        (called \<noteq> [] \<longrightarrow> bt_done enc t \<noteq> None) \<and> called @ filter is_own (bt_pending t) = filter is_own (bt_on_done t))"

definition fails :: "start_error \<Rightarrow> bthread \<Rightarrow> bool" where
  "fails enc t \<longleftrightarrow> (\<exists>d. bt_done enc t = Some d \<and> from_done d \<noteq> None)"

text \<open>The latch is untouched, or one failing thread has it.\<close>

definition first_open :: "start_error \<Rightarrow> nat list \<Rightarrow> started \<Rightarrow> bool" where
  "first_open enc F s \<longleftrightarrow>
     sb_slot s = F \<and> first_log (sb_log s) = [] \<and>
     (\<forall>j < length (sb_threads s). filter is_first (bt_pending (sb_threads s ! j)) = [] \<and>
        (F \<noteq> [] \<and> fails enc (sb_threads s ! j) \<longrightarrow> FirstHook \<in> set (bt_pending (sb_threads s ! j))))"

definition first_taken :: "start_error \<Rightarrow> nat list \<Rightarrow> started \<Rightarrow> bool" where
  "first_taken enc F s \<longleftrightarrow>
     sb_slot s = [] \<and>
     (\<exists>k d f called left. k < length (sb_threads s) \<and> bt_done enc (sb_threads s ! k) = Some d \<and> from_done d = Some f \<and>
        F = called @ left \<and> first_log (sb_log s) = map (\<lambda>c. (k, OnFirst c f, d)) called \<and>
        filter is_first (bt_pending (sb_threads s ! k)) = map (\<lambda>c. OnFirst c f) left \<and>
        (\<forall>j < length (sb_threads s). j \<noteq> k \<longrightarrow> filter is_first (bt_pending (sb_threads s ! j)) = []))"

definition bundle_inv :: "start_error \<Rightarrow> nat list \<Rightarrow> started \<Rightarrow> bool" where
  "bundle_inv enc F s \<longleftrightarrow>
     (\<forall>k < length (sb_threads s). own_ok enc k (sb_log s) (sb_threads s ! k)) \<and>
     (\<forall>k < length (sb_threads s). filter is_first (bt_on_done (sb_threads s ! k)) = [] \<and>
        (F \<noteq> [] \<longrightarrow> FirstHook \<in> set (bt_on_done (sb_threads s ! k)))) \<and>
     (\<forall>k < length (sb_threads s). sb_next s \<le> k \<longrightarrow> bt_state (sb_threads s ! k) = BIdle) \<and>
     (first_open enc F s \<or> first_taken enc F s)"

lemma own_log_append [simp]: "own_log k (log @ log') = own_log k log @ own_log k log'"
  by (simp add: own_log_def)

lemma first_log_append [simp]: "first_log (log @ log') = first_log log @ first_log log'"
  by (simp add: first_log_def)

lemma one_log [simp]:
  "own_log k [(j, c, d)] = (if j = k \<and> is_own c then [(j, c, d)] else [])"
  "first_log [(j, c, d)] = (if is_first c then [(j, c, d)] else [])"
  by (simp_all add: own_log_def first_log_def)

lemma set_thread_simps [simp]:
  "sb_threads (set_thread k t s) = (sb_threads s)[k := t]" "sb_slot (set_thread k t s) = sb_slot s"
  "sb_log (set_thread k t s) = sb_log s" "sb_next (set_thread k t s) = sb_next s"
  by (simp_all add: set_thread_def)

lemma own_ok_other: "own_ok enc j log t \<Longrightarrow> j \<noteq> k \<Longrightarrow> own_ok enc j (log @ [(k, c, d)]) t"
  by (simp add: own_ok_def)

lemma own_ok_start:
  "own_ok enc k log t \<Longrightarrow> bt_state t = BIdle \<Longrightarrow> own_ok enc k log (t\<lparr>bt_state := BRunning\<rparr>)"
  by (auto simp: own_ok_def)

lemma own_ok_exit:
  assumes "own_ok enc k log t" "bt_state t = BIdle \<or> bt_state t = BRunning"
  shows "own_ok enc k log (exiting enc sp t)"
proof -
  from assms have "bt_done enc t = None" "bt_pending t = bt_on_done t" by auto
  with assms(1) have "own_log k log = []" by (auto simp: own_ok_def)
  then show ?thesis by (auto simp: own_ok_def exiting_def)
qed

lemma own_ok_call:
  assumes o: "own_ok enc k log t" and f: "bt_state t = BFiring sp d (c # cs)"
  shows "own_ok enc k (log @ [(k, c, d)]) (t\<lparr>bt_state := BFiring sp d cs\<rparr>)"
proof -
  from o f obtain called where c: "d = done_of_spawned enc (bt_name t) sp"
    "map (\<lambda>c. (k, c, d)) called = own_log k log" "called @ filter is_own (c # cs) = filter is_own (bt_on_done t)"
    by (auto simp: own_ok_def)
  show ?thesis
  proof (cases "is_own c")
    case True
    with c show ?thesis by (auto simp: own_ok_def intro!: exI [of _ "called @ [c]"])
  next
    case False
    with c show ?thesis by (auto simp: own_ok_def)
  qed
qed

lemma own_ok_skip:
  assumes "own_ok enc k log t" "bt_state t = BFiring sp d cs" "filter is_own cs' = filter is_own cs"
  shows "own_ok enc k log (t\<lparr>bt_state := BFiring sp d cs'\<rparr>)"
  using assms by (auto simp: own_ok_def)

lemma own_ok_gone:
  assumes "own_ok enc k log t" "bt_state t = BFiring sp d []"
  shows "own_ok enc k log (t\<lparr>bt_state := BGone sp\<rparr>)"
  using assms by (auto simp: own_ok_def)

text \<open>A step of thread \<open>k\<close> from \<open>t\<close> to \<open>t'\<close>.\<close>

lemma own_ok_set:
  assumes "\<forall>j < length (sb_threads s). own_ok enc j (sb_log s) (sb_threads s ! j)" and "own_ok enc k log t'"
    and "log = sb_log s \<or> (\<exists>c d. log = sb_log s @ [(k, c, d)])"
  shows "\<forall>j < length ((sb_threads s)[k := t']). own_ok enc j log ((sb_threads s)[k := t'] ! j)"
proof (intro allI impI)
  fix j assume j: "j < length ((sb_threads s)[k := t'])"
  show "own_ok enc j log ((sb_threads s)[k := t'] ! j)"
  proof (cases "j = k")
    case True
    with j assms(2) show ?thesis by simp
  next
    case False
    with j assms(1) have "own_ok enc j (sb_log s) (sb_threads s ! j)" by simp
    with assms(3) own_ok_other [OF this False] False show ?thesis by auto
  qed
qed

lemma bundle_step_own:
  assumes i: "bundle_inv enc F s" and b: "bundle_step enc s s'"
  shows "\<forall>j < length (sb_threads s'). own_ok enc j (sb_log s') (sb_threads s' ! j)"
proof -
  have o: "\<forall>j < length (sb_threads s). own_ok enc j (sb_log s) (sb_threads s ! j)" using i by (simp add: bundle_inv_def)
  have idle: "bt_state (sb_threads s ! sb_next s) = BIdle" if "sb_next s < length (sb_threads s)"
    using i that by (simp add: bundle_inv_def)
  from b show ?thesis
  proof cases
    case (spawn k)
    then show ?thesis using own_ok_set [OF o own_ok_start [OF _ idle]] o by simp
  next
    case (refuse k reason)
    then show ?thesis using own_ok_set [OF o own_ok_exit] o idle by simp
  next
    case (ended k u)
    then show ?thesis using own_ok_set [OF o own_ok_exit] o by simp
  next
    case (call k sp d c cs)
    then show ?thesis using own_ok_set [OF o own_ok_call [of enc k "sb_log s" "sb_threads s ! k" sp d c cs]] o by simp
  next
    case (clean k sp d cs)
    then show ?thesis using own_ok_set [OF o own_ok_skip [of enc k "sb_log s" "sb_threads s ! k" sp d "FirstHook # cs" cs]] o
      by simp
  next
    case (latch k sp d cs f)
    then show ?thesis
      using own_ok_set [OF o own_ok_skip [of enc k "sb_log s" "sb_threads s ! k" sp d "FirstHook # cs" "map (\<lambda>c. OnFirst c f) (sb_slot s) @ cs"]] o
      by simp
  next
    case (gone k sp d)
    then show ?thesis using own_ok_set [OF o own_ok_gone [of enc k "sb_log s" "sb_threads s ! k" sp d]] o by simp
  qed
qed

lemma fails_simps [simp]:
  "bt_state t = BIdle \<Longrightarrow> \<not> fails enc t" "bt_state t = BRunning \<Longrightarrow> \<not> fails enc t"
  "bt_state t = BFiring sp d cs \<Longrightarrow> fails enc t \<longleftrightarrow> from_done (done_of_spawned enc (bt_name t) sp) \<noteq> None"
  "bt_state t = BGone sp \<Longrightarrow> fails enc t \<longleftrightarrow> from_done (done_of_spawned enc (bt_name t) sp) \<noteq> None"
  by (simp_all add: fails_def)

lemma first_set:
  assumes "k < length (sb_threads s)"
  shows "(\<forall>j < length ((sb_threads s)[k := t']). Q j ((sb_threads s)[k := t'] ! j)) \<longleftrightarrow>
     Q k t' \<and> (\<forall>j < length (sb_threads s). j \<noteq> k \<longrightarrow> Q j (sb_threads s ! j))"
  using assms by (auto simp: nth_list_update)

text \<open>A thread that has not the latch, and its step.\<close>

lemma first_taken_other:
  assumes f: "first_taken enc F s" and k: "k < length (sb_threads s)"
    and p: "filter is_first (bt_pending t') = filter is_first (bt_pending (sb_threads s ! k))"
    and d: "\<And>d. bt_done enc (sb_threads s ! k) = Some d \<Longrightarrow> bt_done enc t' = Some d"
    and s': "sb_threads s' = (sb_threads s)[k := t']" "sb_slot s' = []" "first_log (sb_log s') = first_log (sb_log s)"
  shows "first_taken enc F s'"
proof -
  from f obtain j d f called left where j: "j < length (sb_threads s)" "bt_done enc (sb_threads s ! j) = Some d" "from_done d = Some f"
    "F = called @ left" "first_log (sb_log s) = map (\<lambda>c. (j, OnFirst c f, d)) called"
    "filter is_first (bt_pending (sb_threads s ! j)) = map (\<lambda>c. OnFirst c f) left"
    "\<forall>i < length (sb_threads s). i \<noteq> j \<longrightarrow> filter is_first (bt_pending (sb_threads s ! i)) = []"
    by (auto simp: first_taken_def)
  have "bt_done enc ((sb_threads s)[k := t'] ! j) = Some d" using j(1,2) d k by (cases "j = k") auto
  moreover have "filter is_first (bt_pending ((sb_threads s)[k := t'] ! i)) = filter is_first (bt_pending (sb_threads s ! i))" for i
    using p k by (cases "i = k") auto
  ultimately show ?thesis using j s' unfolding first_taken_def by (intro conjI exI [of _ j] exI [of _ d] exI [of _ f]
      exI [of _ called] exI [of _ left]) simp_all
qed

lemma first_open_other:
  assumes f: "first_open enc F s" and k: "k < length (sb_threads s)"
    and p: "filter is_first (bt_pending t') = []"
    and h: "F \<noteq> [] \<Longrightarrow> fails enc t' \<Longrightarrow> FirstHook \<in> set (bt_pending t')"
    and s': "sb_threads s' = (sb_threads s)[k := t']" "sb_slot s' = sb_slot s" "first_log (sb_log s') = first_log (sb_log s)"
  shows "first_open enc F s'"
  using assms unfolding first_open_def by (simp add: nth_list_update)

text \<open>A step that moves no first-error callback.\<close>

lemma first_keep:
  assumes i: "first_open enc F s \<or> first_taken enc F s" and k: "k < length (sb_threads s)"
    and p: "filter is_first (bt_pending t') = filter is_first (bt_pending (sb_threads s ! k))"
    and d: "\<And>d. bt_done enc (sb_threads s ! k) = Some d \<Longrightarrow> bt_done enc t' = Some d"
    and h: "first_open enc F s \<Longrightarrow> F \<noteq> [] \<Longrightarrow> fails enc t' \<Longrightarrow> FirstHook \<in> set (bt_pending t')"
    and s': "sb_threads s' = (sb_threads s)[k := t']" "sb_slot s' = sb_slot s" "first_log (sb_log s') = first_log (sb_log s)"
  shows "first_open enc F s' \<or> first_taken enc F s'"
  using i
proof
  assume f: "first_open enc F s"
  then have "filter is_first (bt_pending t') = []" using p k by (simp add: first_open_def)
  from first_open_other [OF f k this h [OF f] s'] show ?thesis by blast
next
  assume f: "first_taken enc F s"
  then have "sb_slot s' = []" using s'(2) by (simp add: first_taken_def)
  from first_taken_other [OF f k p d s'(1) this s'(3)] show ?thesis by blast
qed

lemma first_call:
  assumes i: "first_open enc F s \<or> first_taken enc F s" and k: "k < length (sb_threads s)"
    and st: "bt_state (sb_threads s ! k) = BFiring sp d (OnFirst c f # cs)" and d: "d = done_of_spawned enc (bt_name (sb_threads s ! k)) sp"
    and s': "sb_threads s' = (sb_threads s)[k := (sb_threads s ! k)\<lparr>bt_state := BFiring sp d cs\<rparr>]" "sb_slot s' = sb_slot s"
      "sb_log s' = sb_log s @ [(k, OnFirst c f, d)]"
  shows "first_taken enc F s'"
proof -
  have "\<not> first_open enc F s" using k st by (auto simp: first_open_def)
  with i obtain j d' f' called left where j: "sb_slot s = []" "j < length (sb_threads s)" "bt_done enc (sb_threads s ! j) = Some d'"
    "from_done d' = Some f'" "F = called @ left" "first_log (sb_log s) = map (\<lambda>c. (j, OnFirst c f', d')) called"
    "filter is_first (bt_pending (sb_threads s ! j)) = map (\<lambda>c. OnFirst c f') left"
    "\<forall>i < length (sb_threads s). i \<noteq> j \<longrightarrow> filter is_first (bt_pending (sb_threads s ! i)) = []"
    by (auto simp: first_taken_def)
  have jk: "j = k" using j(8) k st by (cases "j = k") auto
  with j(3,7) st d obtain left' where l: "d' = d" "f' = f" "left = c # left'" "filter is_first cs = map (\<lambda>c. OnFirst c f) left'"
    by (cases left) auto
  show ?thesis unfolding first_taken_def s'
    using j jk l k d by (intro conjI exI [of _ k] exI [of _ d] exI [of _ f] exI [of _ "called @ [c]"] exI [of _ left']) simp_all
qed

lemma bundle_step_first:
  assumes i: "bundle_inv enc F s" and b: "bundle_step enc s s'"
  shows "first_open enc F s' \<or> first_taken enc F s'"
proof -
  have f: "first_open enc F s \<or> first_taken enc F s" using i by (simp add: bundle_inv_def)
  have idle: "bt_state (sb_threads s ! sb_next s) = BIdle" if "sb_next s < length (sb_threads s)"
    using i that by (simp add: bundle_inv_def)
  have hook: "FirstHook \<in> set (bt_on_done (sb_threads s ! k))" if "F \<noteq> []" "k < length (sb_threads s)" for k
    using i that by (simp add: bundle_inv_def)
  have dn: "d = done_of_spawned enc (bt_name (sb_threads s ! k)) sp"
    if "k < length (sb_threads s)" "bt_state (sb_threads s ! k) = BFiring sp d cs" for k sp d cs
    using i that by (auto simp: bundle_inv_def own_ok_def)
  have open_hook: "FirstHook \<in> set (bt_pending (sb_threads s ! k))"
    if "first_open enc F s" "F \<noteq> []" "k < length (sb_threads s)" "fails enc (sb_threads s ! k)" for k
    using that by (auto simp: first_open_def)
  from b show ?thesis
  proof cases
    case (spawn k)
    then show ?thesis using idle by (intro first_keep [OF f, of k]) auto
  next
    case (refuse k reason)
    then show ?thesis using idle hook
      by (intro first_keep [OF f, of k "exiting enc (Refused reason) (sb_threads s ! k)"]) (auto simp: exiting_def)
  next
    case (ended k u)
    then show ?thesis using hook
      by (intro first_keep [OF f, of k "exiting enc (Ended u) (sb_threads s ! k)"]) (auto simp: exiting_def)
  next
    case (call k sp d c cs)
    show ?thesis
    proof (cases c)
      case (OnFirst c' g)
      with call dn have "first_taken enc F s'" by (intro first_call [OF f, of k sp d c' g cs]) auto
      then show ?thesis ..
    next
      case (OwnDone c')
      with call open_hook [of k] dn [of k sp d "c # cs"] show ?thesis
        by (intro first_keep [OF f, of k "(sb_threads s ! k)\<lparr>bt_state := BFiring sp d cs\<rparr>"]) auto
    qed (use call in simp)
  next
    case (clean k sp d cs)
    with dn [of k sp d "FirstHook # cs"] show ?thesis
      by (intro first_keep [OF f, of k "(sb_threads s ! k)\<lparr>bt_state := BFiring sp d cs\<rparr>"]) auto
  next
    case (latch k sp d cs g)
    let ?t = "(sb_threads s ! k)\<lparr>bt_state := BFiring sp d (map (\<lambda>c. OnFirst c g) (sb_slot s) @ cs)\<rparr>"
    note d = dn [OF latch(2,3)]
    show ?thesis
    proof (cases "first_open enc F s \<and> F \<noteq> []")
      case True
      then have o: "sb_slot s = F" "first_log (sb_log s) = []" "filter is_first cs = []"
        "\<forall>j < length (sb_threads s). filter is_first (bt_pending (sb_threads s ! j)) = []"
        using latch by (auto simp: first_open_def)
      have "first_taken enc F s'" unfolding first_taken_def
        using o latch d by (intro conjI exI [of _ k] exI [of _ d] exI [of _ g] exI [of _ "[]"] exI [of _ F]) auto
      then show ?thesis ..
    next
      case False
      then have "sb_slot s = []" "\<not> (first_open enc F s \<and> F \<noteq> [])" using f by (auto simp: first_open_def first_taken_def)
      with latch d show ?thesis by (intro first_keep [OF f, of k ?t]) auto
    qed
  next
    case (gone k sp d)
    with open_hook [of k] dn [of k sp d "[]"] show ?thesis
      by (intro first_keep [OF f, of k "(sb_threads s ! k)\<lparr>bt_state := BGone sp\<rparr>"]) auto
  qed
qed

lemma bundle_step_rest:
  assumes "bundle_step enc s s'"
  shows "length (sb_threads s') = length (sb_threads s)"
    "k < length (sb_threads s) \<Longrightarrow> bt_on_done (sb_threads s' ! k) = bt_on_done (sb_threads s ! k) \<and>
       bt_name (sb_threads s' ! k) = bt_name (sb_threads s ! k)"
    "k < length (sb_threads s) \<Longrightarrow> \<forall>k < length (sb_threads s). sb_next s \<le> k \<longrightarrow> bt_state (sb_threads s ! k) = BIdle \<Longrightarrow>
       sb_next s' \<le> k \<Longrightarrow> bt_state (sb_threads s' ! k) = BIdle"
  using assms by (cases; auto simp: nth_update_cases exiting_def)+

lemma bundle_step_inv:
  assumes i: "bundle_inv enc F s" and b: "bundle_step enc s s'"
  shows "bundle_inv enc F s'"
  using bundle_step_own [OF i b] bundle_step_first [OF i b] bundle_step_rest [OF b] i
  unfolding bundle_inv_def by simp

section \<open>A bundle's callbacks and its join\<close>

text \<open>Built by \<open>add\<close> and \<open>on_first_error\<close>: nothing started, the threads' own callbacks only.\<close>

definition bundle_built :: "thread_bundle \<Rightarrow> bool" where
  "bundle_built b \<longleftrightarrow> (\<forall>t\<in>set (bd_threads b). bt_state t = BIdle \<and> (\<exists>own. bt_on_done t = map OwnDone own))"

lemma bundle_built_intros [inv_intros]:
  "bundle_built bundle_new" "bundle_built b \<Longrightarrow> bundle_built (bundle_add name own b)"
  "bundle_built b \<Longrightarrow> bundle_built (bundle_on_first_error c b)"
  by (auto simp: bundle_built_def bundle_new_def bundle_add_def bundle_on_first_error_def)

lemma inject_nth:
  "k < length ts \<Longrightarrow> inject ts F ! k = (if F = [] then ts ! k else (ts ! k)\<lparr>bt_on_done := bt_on_done (ts ! k) @ [FirstHook]\<rparr>)"
  "length (inject ts F) = length ts"
  by (simp_all add: inject_def)

lemma bundle_start_inv:
  assumes "bundle_built b"
  shows "bundle_inv enc (bd_first b) (bundle_start b)"
proof -
  have t: "bt_state (inject (bd_threads b) (bd_first b) ! k) = BIdle"
    "filter is_first (bt_on_done (inject (bd_threads b) (bd_first b) ! k)) = []"
    "bd_first b \<noteq> [] \<longrightarrow> FirstHook \<in> set (bt_on_done (inject (bd_threads b) (bd_first b) ! k))"
    if k: "k < length (bd_threads b)" for k
  proof -
    from k have "bd_threads b ! k \<in> set (bd_threads b)" by simp
    with assms obtain own where "bt_state (bd_threads b ! k) = BIdle" "bt_on_done (bd_threads b ! k) = map OwnDone own"
      unfolding bundle_built_def by blast
    with k show "bt_state (inject (bd_threads b) (bd_first b) ! k) = BIdle"
      "filter is_first (bt_on_done (inject (bd_threads b) (bd_first b) ! k)) = []"
      "bd_first b \<noteq> [] \<longrightarrow> FirstHook \<in> set (bt_on_done (inject (bd_threads b) (bd_first b) ! k))"
      by (simp_all add: inject_nth)
  qed
  then have "own_ok enc k [] (inject (bd_threads b) (bd_first b) ! k)" if "k < length (bd_threads b)" for k
    using that by (auto simp: own_ok_def own_log_def)
  with t show ?thesis
    by (auto simp: bundle_inv_def bundle_start_def inject_nth(2) first_open_def first_log_def)
qed

lemma bundle_reach_inv:
  assumes "bundle_reach enc (bundle_start b) s" "bundle_built b"
  shows "bundle_inv enc (bd_first b) s \<and> length (sb_threads s) = length (bd_threads b) \<and>
     (\<forall>k < length (bd_threads b). bt_name (sb_threads s ! k) = bt_name (bd_threads b ! k) \<and>
        filter is_own (bt_on_done (sb_threads s ! k)) = bt_on_done (bd_threads b ! k))"
  using assms(1)
proof induction
  case here
  have "filter is_own (bt_on_done (bd_threads b ! k)) = bt_on_done (bd_threads b ! k)" if "k < length (bd_threads b)" for k
  proof -
    from that have "bd_threads b ! k \<in> set (bd_threads b)" by simp
    with assms(2) obtain own where "bt_on_done (bd_threads b ! k) = map OwnDone own" unfolding bundle_built_def by blast
    then show ?thesis by simp
  qed
  then show ?case using bundle_start_inv [OF assms(2)] by (simp add: bundle_start_def inject_nth)
next
  case (there s s')
  then show ?case using bundle_step_inv [of enc "bd_first b" s s'] bundle_step_rest(1,2) [OF there(2)] by simp
qed

lemma those_map_Some: "those (map g xs) = Some ys \<longleftrightarrow> length ys = length xs \<and> (\<forall>k < length xs. g (xs ! k) = Some (ys ! k))"
proof (induction xs arbitrary: ys)
  case (Cons x xs)
  show ?case
  proof (cases ys)
    case (Cons y zs)
    have "(\<forall>k < Suc (length xs). g ((x # xs) ! k) = Some ((y # zs) ! k)) \<longleftrightarrow>
        g x = Some y \<and> (\<forall>k < length xs. g (xs ! k) = Some (zs ! k))"
      by (simp add: All_less_Suc2)
    with Cons Cons.IH [of zs] show ?thesis by (auto split: option.splits)
  qed (auto split: option.splits)
qed auto

lemma bundle_join_Some:
  "bundle_join enc s = Some js \<longleftrightarrow> length js = length (sb_threads s) \<and>
     (\<forall>k < length (sb_threads s). \<exists>sp. bt_state (sb_threads s ! k) = BGone sp \<and>
        js ! k = spawned_join enc (bt_name (sb_threads s ! k)) sp)"
  unfolding bundle_join_def those_map_Some by (auto split: bstate.splits) (metis bstate.exhaust)+

lemma bundle_errors_Nil: "bundle_errors js = [] \<longleftrightarrow> (\<forall>k < length js. js ! k = JoinOk)"
proof -
  have "bundle_errors js = [] \<longleftrightarrow> (\<forall>j\<in>set js. j = JoinOk)"
    by (induction js) (auto simp: bundle_errors_def List.map_filter_simps split: join.splits)
  then show ?thesis by (simp add: all_set_conv_all_nth)
qed

lemma join_fails: "spawned_join enc name sp = JoinOk \<longleftrightarrow> from_done (done_of_spawned enc name sp) = None"
proof (cases sp)
  case (Ended u)
  then show ?thesis
  proof (cases u)
    case (Returns r)
    with Ended show ?thesis by (cases r) auto
  qed auto
qed auto

fun first_id :: "nat \<times> bcall \<times> thread_done \<Rightarrow> nat option" where
  "first_id (k, OnFirst c f, d) = Some c"
| "first_id _ = None"

text \<open>C23. However the threads of a bundle are spawned, refused, end and interleave, the first-error
  callbacks called so far are called by one failing thread, all with its failure, in registration
  order and each at most once. When every thread is joined, all of them have been called if the join
  holds an error and none if it holds none; and every thread has called each of its own callbacks once,
  in order, with the \<open>Done\<close> its \<open>Join\<close> comes from.\<close>

theorem bundle_first_error_once:
  assumes "bundle_reach enc (bundle_start b) s" and "bundle_built b"
  shows "(\<exists>k d f called left. bd_first b = called @ left \<and> first_log (sb_log s) = map (\<lambda>c. (k, OnFirst c f, d)) called \<and>
            (called \<noteq> [] \<longrightarrow> k < length (bd_threads b) \<and> bt_done enc (sb_threads s ! k) = Some d \<and> from_done d = Some f)) \<and>
         (\<forall>js. bundle_join enc s = Some js \<longrightarrow>
            map first_id (first_log (sb_log s)) = (if bundle_errors js = [] then [] else map Some (bd_first b)) \<and>
            length js = length (bd_threads b) \<and>
            (\<forall>k < length (bd_threads b). \<exists>sp. js ! k = spawned_join enc (bt_name (bd_threads b ! k)) sp \<and>
               own_log k (sb_log s) =
                 map (\<lambda>c. (k, c, done_of_spawned enc (bt_name (bd_threads b ! k)) sp)) (bt_on_done (bd_threads b ! k))))"
proof (intro conjI allI impI)
  from bundle_reach_inv [OF assms] have inv: "bundle_inv enc (bd_first b) s"
    and len: "length (sb_threads s) = length (bd_threads b)"
    and same: "\<And>k. k < length (bd_threads b) \<Longrightarrow> bt_name (sb_threads s ! k) = bt_name (bd_threads b ! k) \<and>
        filter is_own (bt_on_done (sb_threads s ! k)) = bt_on_done (bd_threads b ! k)" by auto
  from inv have first: "first_open enc (bd_first b) s \<or> first_taken enc (bd_first b) s" by (simp add: bundle_inv_def)
  then show "\<exists>k d f called left. bd_first b = called @ left \<and> first_log (sb_log s) = map (\<lambda>c. (k, OnFirst c f, d)) called \<and>
      (called \<noteq> [] \<longrightarrow> k < length (bd_threads b) \<and> bt_done enc (sb_threads s ! k) = Some d \<and> from_done d = Some f)"
  proof
    assume "first_open enc (bd_first b) s"
    then show ?thesis by (auto simp: first_open_def)
  next
    assume "first_taken enc (bd_first b) s"
    then show ?thesis unfolding first_taken_def len by blast
  qed
  fix js assume "bundle_join enc s = Some js"
  then have js: "length js = length (bd_threads b)"
    "\<And>k. k < length (bd_threads b) \<Longrightarrow> \<exists>sp. bt_state (sb_threads s ! k) = BGone sp \<and>
        js ! k = spawned_join enc (bt_name (bd_threads b ! k)) sp" using same len by (auto simp: bundle_join_Some)
  show "length js = length (bd_threads b)" by (rule js(1))
  show "\<exists>sp. js ! k = spawned_join enc (bt_name (bd_threads b ! k)) sp \<and> own_log k (sb_log s) =
      map (\<lambda>c. (k, c, done_of_spawned enc (bt_name (bd_threads b ! k)) sp)) (bt_on_done (bd_threads b ! k))"
    if k: "k < length (bd_threads b)" for k
  proof -
    from js(2) [OF k] obtain sp where sp: "bt_state (sb_threads s ! k) = BGone sp"
      "js ! k = spawned_join enc (bt_name (bd_threads b ! k)) sp" by blast
    from inv k len have "own_ok enc k (sb_log s) (sb_threads s ! k)" by (simp add: bundle_inv_def)
    with sp same [OF k] show ?thesis by (auto simp: own_ok_def)
  qed
  have fails: "fails enc (sb_threads s ! k) \<longleftrightarrow> js ! k \<noteq> JoinOk" "bt_pending (sb_threads s ! k) = []"
    if k: "k < length (bd_threads b)" for k
  proof -
    from js(2) [OF k] obtain sp where sp: "bt_state (sb_threads s ! k) = BGone sp"
      "js ! k = spawned_join enc (bt_name (bd_threads b ! k)) sp" by blast
    then show "fails enc (sb_threads s ! k) \<longleftrightarrow> js ! k \<noteq> JoinOk" "bt_pending (sb_threads s ! k) = []"
      using same [OF k] by (simp_all add: join_fails)
  qed
  from first show "map first_id (first_log (sb_log s)) = (if bundle_errors js = [] then [] else map Some (bd_first b))"
  proof
    assume f: "first_open enc (bd_first b) s"
    then have "bd_first b = [] \<or> bundle_errors js = []"
      using fails unfolding bundle_errors_Nil js(1) first_open_def len by auto
    with f show ?thesis by (auto simp: first_open_def)
  next
    assume "first_taken enc (bd_first b) s"
    then obtain k d f called left where t: "k < length (bd_threads b)" "bt_done enc (sb_threads s ! k) = Some d"
      "from_done d = Some f" "bd_first b = called @ left" "first_log (sb_log s) = map (\<lambda>c. (k, OnFirst c f, d)) called"
      "filter is_first (bt_pending (sb_threads s ! k)) = map (\<lambda>c. OnFirst c f) left" by (auto simp: first_taken_def len)
    from t(2,3) have "fails enc (sb_threads s ! k)" by (simp add: fails_def)
    with fails(1) [OF t(1)] t(1) js(1) have "bundle_errors js \<noteq> []" by (auto simp: bundle_errors_Nil)
    with t fails(2) [OF t(1)] show ?thesis by (simp add: comp_def)
  qed
qed

text \<open>Two threads, both of which fail; the second takes the latch while the first is in its own callback.\<close>

definition failing_bundle :: thread_bundle where
  "failing_bundle = bundle_on_first_error 9 (bundle_on_first_error 8 (bundle_add ''B'' [] (bundle_add ''A'' [1] bundle_new)))"

definition failing_run :: "bturn list" where
  "failing_run = [TSpawn None, TSpawn None, TThread 0 (Unwinds None), TThread 1 (Returns (Err (Fatal ''x''))),
     TThread 0 (Unwinds None)] @ replicate 4 (TThread 1 (Unwinds None)) @ replicate 2 (TThread 0 (Unwinds None))"

theorem bundle_first_error_once_witness:
  "first_log (sb_log (fold (bundle_next (\<lambda>_ _. 0)) failing_run (bundle_start failing_bundle))) =
     [(1, OnFirst 8 (FailError (Fatal ''x'')), DoneError (Fatal ''x'')), (1, OnFirst 9 (FailError (Fatal ''x'')), DoneError (Fatal ''x''))] \<and>
   map first_id (first_log (sb_log (fold (bundle_next (\<lambda>_ _. 0)) failing_run (bundle_start failing_bundle)))) = [Some 8, Some 9]"
proof -
  let ?s = "fold (bundle_next (\<lambda>_ _. 0)) failing_run (bundle_start failing_bundle)"
  have j: "bundle_join (\<lambda>_ _. 0) ?s =
      Some [JoinPanic (Fatal ''Thread A panicked: non-string panic payload''), JoinError (Fatal ''x'')]" by code_simp
  have "bundle_errors [JoinPanic (Fatal ''Thread A panicked: non-string panic payload''), JoinError (Fatal ''x'')] \<noteq> []"
    by code_simp
  moreover have "bundle_built failing_bundle" by (simp add: failing_bundle_def bundle_built_intros)
  moreover have "bd_first failing_bundle = [8, 9]" by code_simp
  ultimately have "map first_id (first_log (sb_log ?s)) = [Some 8, Some 9]"
    using bundle_first_error_once [OF bundle_run_reach, of failing_bundle "\<lambda>_ _. 0" failing_run] j by simp
  moreover have "first_log (sb_log ?s) =
      [(1, OnFirst 8 (FailError (Fatal ''x'')), DoneError (Fatal ''x'')), (1, OnFirst 9 (FailError (Fatal ''x'')), DoneError (Fatal ''x''))]"
    by code_simp
  ultimately show ?thesis by blast
qed

end
