(* ===== verification/Poll_Graph.thy ===== *)
theory Poll_Graph
  imports Core
begin

text \<open>
  A poll thread's graph while it is built (src/poll/graph.rs, graph/slot.rs, graph/reservations.rs): ids
  are reserved before the thread runs, builders claim them or make new slots on the thread and place
  pollables in them. \<open>Reserved\<close> and \<open>Slot\<close> values are moved, never copied: the moves of a build are a
  step relation over the values it holds.
\<close>

section \<open>Reservations, slots, the graph\<close>

text \<open>A \<open>Context\<close>: the targets its sync waker, its local waker and its timer wake.\<close>

record poll_cx =
  cx_sync :: waker
  cx_local :: waker
  cx_timer :: waker

record reserved =
  rs_id :: nat
  rs_waker :: waker

record slot =
  sl_id :: nat
  sl_cx :: poll_cx

definition local_context_with :: "nat \<Rightarrow> waker \<Rightarrow> poll_cx" where
  "local_context_with i sync = \<lparr>cx_sync = sync, cx_local = i, cx_timer = i\<rparr>"

text \<open>A producer's waker for an id wakes that id.\<close>

definition producer_waker :: "nat \<Rightarrow> waker" where
  "producer_waker i = i"

definition local_context :: "nat \<Rightarrow> poll_cx" where
  "local_context i = local_context_with i (producer_waker i)"

text \<open>\<open>Reservations\<close> are the number of ids reserved.\<close>

definition reserve :: "nat \<Rightarrow> reserved \<times> nat" where
  "reserve len = (\<lparr>rs_id = len, rs_waker = producer_waker len\<rparr>, len + 1)"

type_synonym 'p graph = "('p \<times> poll_cx) option list"

definition graph_local :: "nat \<Rightarrow> 'p graph" where
  "graph_local len = replicate len None"

definition graph_slot :: "'p graph \<Rightarrow> slot \<times> 'p graph" where
  "graph_slot g = (\<lparr>sl_id = length g, sl_cx = local_context (length g)\<rparr>, g @ [None])"

definition graph_claim :: "reserved \<Rightarrow> slot" where
  "graph_claim r = \<lparr>sl_id = rs_id r, sl_cx = local_context_with (rs_id r) (rs_waker r)\<rparr>"

text \<open>A slot past the graph drops its pollable.\<close>

definition graph_add :: "slot \<Rightarrow> 'p \<Rightarrow> 'p graph \<Rightarrow> 'p graph" where
  "graph_add s p g = (if sl_id s < length g then g[sl_id s := Some (p, sl_cx s)] else g)"

fun first_empty :: "nat \<Rightarrow> 'a option list \<Rightarrow> nat option" where
  "first_empty i [] = None"
| "first_empty i (None # xs) = Some i"
| "first_empty i (Some _ # xs) = first_empty (i + 1) xs"

definition graph_finish :: "'p graph \<Rightarrow> 'p graph res" where
  "graph_finish g =
     (case first_empty 0 g of
        Some i \<Rightarrow> Err (Fatal (''graph: slot '' @ show_nat i @ '' is empty''))
      | None \<Rightarrow> Ok g)"

section \<open>A build\<close>

record 'p build =
  bl_graph :: "'p graph"
  bl_reserved :: "reserved list"
  bl_slots :: "slot list"

fun reserve_all :: "nat \<Rightarrow> nat \<Rightarrow> reserved list \<times> nat" where
  "reserve_all 0 len = ([], len)"
| "reserve_all (Suc k) len =
     (case reserve len of (r, len1) \<Rightarrow> (case reserve_all k len1 of (rs, len2) \<Rightarrow> (r # rs, len2)))"

definition build_start :: "nat \<Rightarrow> 'p build" where
  "build_start n =
     (case reserve_all n 0 of (rs, len) \<Rightarrow> \<lparr>bl_graph = graph_local len, bl_reserved = rs, bl_slots = []\<rparr>)"

text \<open>The last two: a builder may drop a value it holds.\<close>

inductive build_step :: "'p build \<Rightarrow> 'p build \<Rightarrow> bool" where
  slot: "graph_slot (bl_graph b) = (s, g) \<Longrightarrow> build_step b (b\<lparr>bl_graph := g, bl_slots := s # bl_slots b\<rparr>)"
| claim: "bl_reserved b = rs1 @ r # rs2 \<Longrightarrow>
     build_step b (b\<lparr>bl_reserved := rs1 @ rs2, bl_slots := graph_claim r # bl_slots b\<rparr>)"
| add: "bl_slots b = ss1 @ s # ss2 \<Longrightarrow>
     build_step b (b\<lparr>bl_graph := graph_add s p (bl_graph b), bl_slots := ss1 @ ss2\<rparr>)"
| drop_reserved: "bl_reserved b = rs1 @ r # rs2 \<Longrightarrow> build_step b (b\<lparr>bl_reserved := rs1 @ rs2\<rparr>)"
| drop_slot: "bl_slots b = ss1 @ s # ss2 \<Longrightarrow> build_step b (b\<lparr>bl_slots := ss1 @ ss2\<rparr>)"

inductive build_reach :: "nat \<Rightarrow> 'p build \<Rightarrow> bool" for n where
  fresh: "build_reach n (build_start n)"
| move: "build_reach n b \<Longrightarrow> build_step b b' \<Longrightarrow> build_reach n b'"

section \<open>A slot is placed once\<close>

definition held :: "'p build \<Rightarrow> nat list" where
  "held b = map rs_id (bl_reserved b) @ map sl_id (bl_slots b)"

definition own_context :: "nat \<Rightarrow> poll_cx \<Rightarrow> bool" where
  "own_context i cx \<longleftrightarrow> cx_sync cx = i \<and> cx_local cx = i \<and> cx_timer cx = i"

definition build_ok :: "'p build \<Rightarrow> bool" where
  "build_ok b \<longleftrightarrow>
     distinct (held b) \<and> (\<forall>i\<in>set (held b). i < length (bl_graph b) \<and> bl_graph b ! i = None) \<and>
     (\<forall>r\<in>set (bl_reserved b). rs_waker r = rs_id r) \<and> (\<forall>s\<in>set (bl_slots b). own_context (sl_id s) (sl_cx s)) \<and>
     (\<forall>i p cx. i < length (bl_graph b) \<and> bl_graph b ! i = Some (p, cx) \<longrightarrow> own_context i cx)"

lemma reserve_all_eq:
  "reserve_all k len = (map (\<lambda>i. \<lparr>rs_id = i, rs_waker = i\<rparr>) [len..<len + k], len + k)"
proof (induction k arbitrary: len)
  case (Suc k)
  have "[len..<len + Suc k] = len # [Suc len..<Suc len + k]" by (simp add: upt_conv_Cons)
  with Suc [of "len + 1"] show ?case by (simp add: reserve_def producer_waker_def)
qed simp

lemma build_start_ok: "build_ok (build_start n)"
  by (auto simp: build_ok_def build_start_def reserve_all_eq held_def graph_local_def comp_def)

lemma build_step_ok:
  assumes "build_ok b" "build_step b b'"
  shows "build_ok b' \<and> length (bl_graph b) \<le> length (bl_graph b') \<and>
    (\<forall>i < length (bl_graph b). bl_graph b ! i \<noteq> None \<longrightarrow> bl_graph b' ! i = bl_graph b ! i)"
  using assms(2)
proof cases
  case (slot s g)
  have "length (bl_graph b) \<notin> set (held b)" using assms(1) by (auto simp: build_ok_def)
  with slot assms(1) show ?thesis
    by (auto simp: build_ok_def held_def graph_slot_def local_context_def local_context_with_def producer_waker_def
        own_context_def nth_append less_Suc_eq)
next
  case (claim rs1 r rs2)
  with assms(1) show ?thesis
    by (auto simp: build_ok_def held_def graph_claim_def local_context_with_def own_context_def)
next
  case (add ss1 s ss2 p)
  with assms(1) have s: "sl_id s < length (bl_graph b)" "bl_graph b ! sl_id s = None" "own_context (sl_id s) (sl_cx s)"
    "sl_id s \<notin> set (map rs_id (bl_reserved b)) \<union> set (map sl_id (ss1 @ ss2))"
    by (auto simp: build_ok_def held_def)
  with add assms(1) show ?thesis
    by (auto simp: build_ok_def held_def graph_add_def nth_list_update)
next
  case (drop_reserved rs1 r rs2)
  with assms(1) show ?thesis by (auto simp: build_ok_def held_def)
next
  case (drop_slot ss1 s ss2)
  with assms(1) show ?thesis by (auto simp: build_ok_def held_def)
qed

lemma build_reach_ok: "build_reach n b \<Longrightarrow> build_ok b"
  by (induction rule: build_reach.induct) (auto intro: build_start_ok dest: build_step_ok)

lemma first_empty_iff:
  "first_empty k g = None \<longleftrightarrow> (\<forall>x\<in>set g. x \<noteq> None)"
  "first_empty k g = Some i \<longleftrightarrow> k \<le> i \<and> i < k + length g \<and> g ! (i - k) = None \<and> (\<forall>j < i - k. g ! j \<noteq> None)"
proof (induction g arbitrary: k)
  case (Cons x g)
  {
    case 1
    show ?case by (cases x) (simp_all add: Cons(1))
  next
    case 2
    show ?case
    proof (cases x)
      case None
      then show ?thesis by (auto simp: nth_Cons split: nat.splits)
    next
      case (Some y)
      have "(\<forall>j < i - k. (Some y # g) ! j \<noteq> None) \<longleftrightarrow> (\<forall>j < i - Suc k. g ! j \<noteq> None)" if "k < i"
        using that by (auto simp: nth_Cons split: nat.splits)
      with Some Cons(2) [of "k + 1"] show ?thesis
        by (cases "i = k") (auto simp: nth_Cons' Suc_diff_Suc)
    qed
  }
qed simp_all

lemma build_reach_length: "build_reach n b \<Longrightarrow> n \<le> length (bl_graph b)"
proof (induction rule: build_reach.induct)
  case fresh
  show ?case by (simp add: build_start_def reserve_all_eq graph_local_def)
next
  case (move b b')
  with build_step_ok [OF build_reach_ok [OF move(1)] move(2)] show ?case by linarith
qed

text \<open>C39. Whatever builders do with the values they hold, every slot they hold is for an empty place of the
  graph and its context wakes that place's node, so an \<open>add\<close> is never out of range and never replaces a
  node, and no later move of the build does. The finished graph has every id, reserved or made, at its place
  with a context that wakes it; a build that left a place empty fails and names the first one.\<close>

theorem slots_placed_once:
  assumes "build_reach n (b :: 'p build)"
  shows "(\<forall>s\<in>set (bl_slots b). sl_id s < length (bl_graph b) \<and> bl_graph b ! sl_id s = None \<and>
            own_context (sl_id s) (sl_cx s) \<and>
            graph_add s p (bl_graph b) = (bl_graph b)[sl_id s := Some (p, sl_cx s)]) \<and>
         (\<forall>b' i. build_step b b' \<and> i < length (bl_graph b) \<and> bl_graph b ! i \<noteq> None \<longrightarrow>
            bl_graph b' ! i = bl_graph b ! i) \<and>
         (case graph_finish (bl_graph b) of
            Ok g \<Rightarrow> g = bl_graph b \<and> n \<le> length g \<and> (\<forall>i < length g. \<exists>q cx. g ! i = Some (q, cx) \<and> own_context i cx)
          | Err e \<Rightarrow> \<exists>i < length (bl_graph b). bl_graph b ! i = None \<and> (\<forall>j < i. bl_graph b ! j \<noteq> None) \<and>
              e = Fatal (''graph: slot '' @ show_nat i @ '' is empty''))"
proof (intro conjI)
  have ok: "build_ok b" by (rule build_reach_ok [OF assms])
  then show "\<forall>s\<in>set (bl_slots b). sl_id s < length (bl_graph b) \<and> bl_graph b ! sl_id s = None \<and>
      own_context (sl_id s) (sl_cx s) \<and> graph_add s p (bl_graph b) = (bl_graph b)[sl_id s := Some (p, sl_cx s)]"
    by (auto simp: build_ok_def held_def graph_add_def)
  show "\<forall>b' i. build_step b b' \<and> i < length (bl_graph b) \<and> bl_graph b ! i \<noteq> None \<longrightarrow> bl_graph b' ! i = bl_graph b ! i"
    using build_step_ok [OF ok] by blast
  show "case graph_finish (bl_graph b) of
      Ok g \<Rightarrow> g = bl_graph b \<and> n \<le> length g \<and> (\<forall>i < length g. \<exists>q cx. g ! i = Some (q, cx) \<and> own_context i cx)
    | Err e \<Rightarrow> \<exists>i < length (bl_graph b). bl_graph b ! i = None \<and> (\<forall>j < i. bl_graph b ! j \<noteq> None) \<and>
        e = Fatal (''graph: slot '' @ show_nat i @ '' is empty'')"
  proof (cases "first_empty 0 (bl_graph b)")
    case None
    then have "\<forall>i < length (bl_graph b). bl_graph b ! i \<noteq> None" by (simp add: first_empty_iff)
    with ok build_reach_length [OF assms] None show ?thesis
      by (auto simp: graph_finish_def build_ok_def)
  next
    case (Some i)
    then have "i < length (bl_graph b) \<and> bl_graph b ! i = None \<and> (\<forall>j < i. bl_graph b ! j \<noteq> None)"
      by (simp add: first_empty_iff)
    with Some show ?thesis by (auto simp: graph_finish_def)
  qed
qed

text \<open>One id reserved and claimed, one made; the second is placed, the first dropped.\<close>

theorem slots_placed_once_witness:
  "\<exists>i < 2. [None, Some (7 :: nat, \<lparr>cx_sync = 1, cx_local = 1, cx_timer = 1\<rparr>)] ! i = None \<and>
     Err (Fatal ''graph: slot 0 is empty'') = Err (Fatal (''graph: slot '' @ show_nat i @ '' is empty''))"
proof -
  let ?s = "\<lparr>sl_id = 1, sl_cx = \<lparr>cx_sync = 1, cx_local = 1, cx_timer = 1\<rparr>\<rparr>"
  let ?b1 = "\<lparr>bl_graph = [None], bl_reserved = [\<lparr>rs_id = 0, rs_waker = 0\<rparr>], bl_slots = []\<rparr> :: nat build"
  let ?b2 = "\<lparr>bl_graph = [None, None], bl_reserved = [\<lparr>rs_id = 0, rs_waker = 0\<rparr>], bl_slots = [?s]\<rparr> :: nat build"
  let ?b3 = "\<lparr>bl_graph = [None, Some (7, sl_cx ?s)], bl_reserved = [\<lparr>rs_id = 0, rs_waker = 0\<rparr>], bl_slots = []\<rparr> :: nat build"
  have "?b1 = build_start 1" by (simp add: build_start_def reserve_def producer_waker_def graph_local_def)
  then have "build_reach 1 ?b1" using build_reach.fresh by metis
  moreover have "build_step ?b1 ?b2"
    using build_step.slot [of ?b1 ?s "[None, None]"]
    by (simp add: graph_slot_def local_context_def local_context_with_def producer_waker_def)
  moreover have "build_step ?b2 ?b3" using build_step.add [of ?b2 "[]" ?s "[]" 7] by (simp add: graph_add_def)
  ultimately have r: "build_reach 1 ?b3" by (blast intro: build_reach.move)
  have "graph_finish (bl_graph ?b3) = Err (Fatal ''graph: slot 0 is empty'')"
    by code_simp
  with slots_placed_once [OF r] show ?thesis by (auto simp: numeral_2_eq_2)
qed

end
