(* ===== verification/Poll_Thread.thy ===== *)
theory Poll_Thread
  imports Poll_Graph Threads
begin

text \<open>
  A poll thread (src/poll/thread.rs): it builds its graph, then polls the nodes its consumer hands out
  until every node has finished or one fails, each poll with the node's timer as the thread's current
  one (src/poll/thread/tls.rs).
\<close>

section \<open>The current timer\<close>

record 'w tls =
  tls_current :: "waker option"
  tls_env :: 'w

text \<open>\<open>ThreadLocalGuard::set\<close>: the guard is the previous value.\<close>

definition tls_set :: "waker \<Rightarrow> 'w tls \<Rightarrow> waker option \<times> 'w tls" where
  "tls_set timer w = (tls_current w, w\<lparr>tls_current := Some timer\<rparr>)"

definition tls_guard_drop :: "waker option \<Rightarrow> 'w tls \<Rightarrow> 'w tls" where
  "tls_guard_drop prev w = w\<lparr>tls_current := prev\<rparr>"

section \<open>The loop\<close>

text \<open>The consumer's \<open>next\<close>, which may park forever; a pollable's \<open>poll\<close>, and its drop.\<close>

record ('p, 'w) runtime_ops =
  ro_next :: "'w tls \<Rightarrow> (nat \<times> 'w tls) option"
  ro_poll :: "'p \<Rightarrow> poll_cx \<Rightarrow> 'w tls \<Rightarrow> (unit poll res \<times> 'w tls) option"
  ro_drop :: "'p \<Rightarrow> 'w tls \<Rightarrow> 'w tls"

definition poll_loop_body ::
  "('p, 'w) runtime_ops \<Rightarrow> 'p graph \<times> nat \<times> 'w tls \<Rightarrow> ('p graph \<times> nat \<times> 'w tls + unit res \<times> 'p graph \<times> 'w tls) option" where
  "poll_loop_body ops = (\<lambda>(nodes, alive, w).
     if alive = 0 then Some (Inr (Ok (), nodes, w))
     else (case ro_next ops w of
             None \<Rightarrow> None
           | Some (i, w1) \<Rightarrow>
               (if length nodes \<le> i
                then Some (Inr (Err (Fatal (''woken for node '' @ show_nat i @ '', not in this graph'')), nodes, w1))
                else (case nodes ! i of
                        None \<Rightarrow> Some (Inl (nodes, alive, w1))
                      | Some (p, cx) \<Rightarrow>
                          (case tls_set (cx_timer cx) w1 of
                             (guard, w2) \<Rightarrow>
                               (case ro_poll ops p cx w2 of
                                  None \<Rightarrow> None
                                | Some (Ok Pending, w3) \<Rightarrow> Some (Inl (nodes, alive, tls_guard_drop guard w3))
                                | Some (Ok (PReady _), w3) \<Rightarrow>
                                    Some (Inl (nodes[i := None], alive - 1, tls_guard_drop guard (ro_drop ops p w3)))
                                | Some (Err Closed, w3) \<Rightarrow>
                                    Some (Inl (nodes[i := None], alive - 1, tls_guard_drop guard (ro_drop ops p w3)))
                                | Some (Err e, w3) \<Rightarrow> Some (Inr (Err e, nodes, tls_guard_drop guard w3))))))))"

definition poll_loop :: "('p, 'w) runtime_ops \<Rightarrow> 'p graph \<Rightarrow> 'w tls \<Rightarrow> (unit res \<times> 'p graph \<times> 'w tls) option" where
  "poll_loop ops nodes w = loop (poll_loop_body ops) (nodes, length nodes, w)"

definition drop_nodes :: "('p, 'w) runtime_ops \<Rightarrow> 'p graph \<Rightarrow> 'w tls \<Rightarrow> 'w tls" where
  "drop_nodes ops nodes w = fold (\<lambda>x v. case x of None \<Rightarrow> v | Some (p, cx) \<Rightarrow> ro_drop ops p v) nodes w"

text \<open>A builder: what it makes of the graph, and its drop unbuilt.\<close>

record ('p, 'w) graph_builder =
  gb_build :: "'p graph \<Rightarrow> 'w tls \<Rightarrow> unit res \<times> 'p graph \<times> 'w tls"
  gb_drop :: "'w tls \<Rightarrow> 'w tls"

definition drop_builders :: "('p, 'w) graph_builder list \<Rightarrow> 'w tls \<Rightarrow> 'w tls" where
  "drop_builders builders w = fold gb_drop builders w"

text \<open>\<open>prepare\<close>: the builders in order; where one fails, those after it and then the graph are dropped.\<close>

fun build_all ::
  "('p, 'w) runtime_ops \<Rightarrow> ('p, 'w) graph_builder list \<Rightarrow> 'p graph \<Rightarrow> 'w tls \<Rightarrow> 'p graph res \<times> 'w tls" where
  "build_all ops [] g w =
     (case graph_finish g of
        Ok nodes \<Rightarrow> (Ok nodes, w)
      | Err e \<Rightarrow> (Err e, drop_nodes ops g w))"
| "build_all ops (builder # builders) g w =
     (case gb_build builder g w of
        (Err e, g', w') \<Rightarrow> (Err e, drop_nodes ops g' (drop_builders builders w'))
      | (Ok _, g', w') \<Rightarrow> build_all ops builders g' w')"

definition poll_prepare where
  "poll_prepare ops builders reserved w = build_all ops builders (graph_local reserved) w"

text \<open>The thread's task up to its exit guard: the nodes left are dropped with the runtime.\<close>

definition poll_run where
  "poll_run ops builders reserved w =
     (case poll_prepare ops builders reserved w of
        (Err e, w1) \<Rightarrow> Some (Err e, w1)
      | (Ok nodes, w1) \<Rightarrow>
          (case poll_loop ops nodes w1 of
             None \<Rightarrow> None
           | Some (r, nodes', w2) \<Rightarrow> Some (r, drop_nodes ops nodes' w2)))"

section \<open>The thread\<close>

text \<open>\<open>Thread\<close>: its reservations are the number of ids reserved.\<close>

record ('p, 'w) poll_thread =
  pt_builders :: "('p, 'w) graph_builder list"
  pt_reservations :: nat
  pt_on_done :: "'w tls on_done list"

definition poll_thread_new :: "('p, 'w) poll_thread" where
  "poll_thread_new = \<lparr>pt_builders = [], pt_reservations = 0, pt_on_done = []\<rparr>"

definition poll_on_done :: "'w tls on_done \<Rightarrow> ('p, 'w) poll_thread \<Rightarrow> ('p, 'w) poll_thread" where
  "poll_on_done callback t = t\<lparr>pt_on_done := pt_on_done t @ [callback]\<rparr>"

definition poll_reserve :: "('p, 'w) poll_thread \<Rightarrow> reserved \<times> ('p, 'w) poll_thread" where
  "poll_reserve t = (case reserve (pt_reservations t) of (r, n) \<Rightarrow> (r, t\<lparr>pt_reservations := n\<rparr>))"

definition poll_add :: "('p, 'w) graph_builder \<Rightarrow> ('p, 'w) poll_thread \<Rightarrow> ('p, 'w) poll_thread" where
  "poll_add builder t = t\<lparr>pt_builders := pt_builders t @ [builder]\<rparr>"

text \<open>\<open>into_task\<close>; \<open>run\<close> runs the task on the calling thread, \<open>start\<close> spawns it.\<close>

definition poll_task :: "('p, 'w) runtime_ops \<Rightarrow> string \<Rightarrow> ('p, 'w) poll_thread \<Rightarrow> 'w tls task" where
  "poll_task ops name t =
     \<lparr>tk_body = (\<lambda>w. map_option (\<lambda>(r, w'). (Returns r, w')) (poll_run ops (pt_builders t) (pt_reservations t) w)),
      tk_discard = drop_builders (pt_builders t),
      tk_guard = init_guard_new name (pt_on_done t)\<rparr>"

definition poll_thread_run where
  "poll_thread_run enc ops name t w = task_run enc (poll_task ops name t) w"

definition poll_with :: "('p, 'w) poll_thread \<Rightarrow> ('p, 'w) poll_thread spawn" where
  "poll_with t = spawn_new t"

definition poll_start ::
  "start_error \<Rightarrow> os \<Rightarrow> ('p, 'w) runtime_ops \<Rightarrow> string \<Rightarrow> ('p, 'w) poll_thread spawn \<Rightarrow> 'w tls \<Rightarrow> (spawned \<times> 'w tls) option" where
  "poll_start enc os ops name s w = spawn_start enc os name (poll_task ops name) s w"

section \<open>What the loop does to its nodes\<close>

text \<open>The ids polled, each with whether the poll finished the node, every poll under the node's own timer; ids
  handed out for finished nodes are passed over.\<close>

inductive polled ::
  "('p, 'w) runtime_ops \<Rightarrow> 'p graph \<Rightarrow> 'w tls \<Rightarrow> (nat \<times> bool) list \<Rightarrow> 'p graph \<Rightarrow> 'w tls \<Rightarrow> bool" for ops where
  rest: "polled ops nodes w [] nodes w"
| stale: "ro_next ops w = Some (i, w1) \<Longrightarrow> i < length nodes \<Longrightarrow> nodes ! i = None \<Longrightarrow>
     polled ops nodes w1 ps nodes' w' \<Longrightarrow> polled ops nodes w ps nodes' w'"
| pending: "ro_next ops w = Some (i, w1) \<Longrightarrow> i < length nodes \<Longrightarrow> nodes ! i = Some (p, cx) \<Longrightarrow>
     ro_poll ops p cx (w1\<lparr>tls_current := Some (cx_timer cx)\<rparr>) = Some (Ok Pending, w2) \<Longrightarrow>
     polled ops nodes (w2\<lparr>tls_current := tls_current w1\<rparr>) ps nodes' w' \<Longrightarrow>
     polled ops nodes w ((i, False) # ps) nodes' w'"
| finished: "ro_next ops w = Some (i, w1) \<Longrightarrow> i < length nodes \<Longrightarrow> nodes ! i = Some (p, cx) \<Longrightarrow>
     ro_poll ops p cx (w1\<lparr>tls_current := Some (cx_timer cx)\<rparr>) = Some (r, w2) \<Longrightarrow> r = Ok (PReady ()) \<or> r = Err Closed \<Longrightarrow>
     polled ops (nodes[i := None]) ((ro_drop ops p w2)\<lparr>tls_current := tls_current w1\<rparr>) ps nodes' w' \<Longrightarrow>
     polled ops nodes w ((i, True) # ps) nodes' w'"

definition live :: "'p graph \<Rightarrow> nat set" where
  "live nodes = {i. i < length nodes \<and> nodes ! i \<noteq> None}"

lemma finite_live [simp]: "finite (live nodes)"
  by (rule finite_subset [of _ "{..<length nodes}"]) (auto simp: live_def)

lemma live_update: "i < length nodes \<Longrightarrow> live (nodes[i := None]) = live nodes - {i}"
  by (auto simp: live_def nth_list_update)

lemma polled_append: "polled ops nodes w ps nodes1 w1 \<Longrightarrow> polled ops nodes1 w1 qs nodes2 w2 \<Longrightarrow> polled ops nodes w (ps @ qs) nodes2 w2"
  by (induction rule: polled.induct) (auto intro: polled.intros)

text \<open>Nothing polls a node after the poll that finished it.\<close>

fun last_polls :: "(nat \<times> bool) list \<Rightarrow> bool" where
  "last_polls [] = True"
| "last_polls ((i, fin) # ps) = ((fin \<longrightarrow> i \<notin> fst ` set ps) \<and> last_polls ps)"

text \<open>A node is polled only while it is live, finishes at most once, and is not polled after.\<close>

lemma polled_live:
  "polled ops nodes w ps nodes' w' \<Longrightarrow>
     length nodes' = length nodes \<and> live nodes' = live nodes - {i. (i, True) \<in> set ps} \<and> fst ` set ps \<subseteq> live nodes \<and>
     distinct (map fst (filter snd ps)) \<and> last_polls ps"
proof (induction rule: polled.induct)
  case (pending w i w1 nodes p cx w2 ps nodes' w')
  moreover have "i \<in> live nodes" using pending(2,3) by (simp add: live_def)
  ultimately show ?case by auto
next
  case (finished w i w1 nodes p cx r w2 ps nodes' w')
  moreover have "i \<in> live nodes" using finished(2,3) by (simp add: live_def)
  moreover have "i \<notin> fst ` set ps" using finished.IH finished(2) by (auto simp: live_update)
  ultimately show ?case by (auto simp: live_update image_iff)
qed auto

section \<open>How a poll thread ends\<close>

lemma card_live: "i < length nodes \<Longrightarrow> nodes ! i \<noteq> None \<Longrightarrow> card (live (nodes[i := None])) = card (live nodes) - 1"
proof -
  assume i: "i < length nodes" "nodes ! i \<noteq> None"
  then have "i \<in> live nodes" by (simp add: live_def)
  with i show "card (live (nodes[i := None])) = card (live nodes) - 1" by (simp only: live_update card_Diff_singleton)
qed

lemma poll_loop_body_cases:
  assumes "poll_loop_body ops (nodes, alive, w) = Some (Inl (nodes', alive', w'))" and "alive = card (live nodes)"
  shows "\<exists>ps. polled ops nodes w ps nodes' w' \<and> alive' = card (live nodes')"
proof -
  from assms obtain i w1 where n: "ro_next ops w = Some (i, w1)" "i < length nodes"
    by (auto simp: poll_loop_body_def split: if_splits option.splits)
  show ?thesis
  proof (cases "nodes ! i")
    case None
    with assms n have "nodes' = nodes" "alive' = alive" "w' = w1" by (auto simp: poll_loop_body_def split: if_splits)
    with assms(2) n None polled.rest [of ops nodes w1] show ?thesis by (auto intro: polled.stale)
  next
    case (Some x)
    obtain p cx where x: "nodes ! i = Some (p, cx)" using Some by (cases x) auto
    with assms n obtain r w2 where p: "ro_poll ops p cx (w1\<lparr>tls_current := Some (cx_timer cx)\<rparr>) = Some (r, w2)"
      by (auto simp: poll_loop_body_def tls_set_def split: if_splits option.splits)
    show ?thesis
    proof (cases "r = Ok Pending")
      case True
      with assms n x p have "nodes' = nodes" "alive' = alive" "w' = w2\<lparr>tls_current := tls_current w1\<rparr>"
        by (auto simp: poll_loop_body_def tls_set_def tls_guard_drop_def split: if_splits)
      with assms(2) polled.pending [OF n x _ polled.rest] p True show ?thesis by blast
    next
      case False
      with assms n x p have r: "r = Ok (PReady ()) \<or> r = Err Closed"
        by (auto simp: poll_loop_body_def tls_set_def tls_guard_drop_def split: if_splits result.splits error.splits poll.splits)
      with assms n x p have "nodes' = nodes[i := None]" "alive' = alive - 1"
        "w' = (ro_drop ops p w2)\<lparr>tls_current := tls_current w1\<rparr>"
        by (auto simp: poll_loop_body_def tls_set_def tls_guard_drop_def split: if_splits)
      with assms(2) polled.finished [OF n x p r polled.rest] n x card_live [OF n(2)] show ?thesis by auto
    qed
  qed
qed

text \<open>How the loop's last turn ends: every node has finished; a node failed; or the consumer handed out an id past
  the graph.\<close>

definition loop_end :: "('p, 'w) runtime_ops \<Rightarrow> 'p graph \<Rightarrow> 'w tls \<Rightarrow> unit res \<Rightarrow> 'w tls \<Rightarrow> bool" where
  "loop_end ops nodes w r w' \<longleftrightarrow>
     (case r of
        Ok _ \<Rightarrow> live nodes = {} \<and> w' = w
      | Err e \<Rightarrow> \<exists>i w1. ro_next ops w = Some (i, w1) \<and> tls_current w' = tls_current w1 \<and>
          (i \<ge> length nodes \<or>
           (e \<noteq> Closed \<and> (\<exists>p cx w2. i \<in> live nodes \<and> nodes ! i = Some (p, cx) \<and>
              ro_poll ops p cx (w1\<lparr>tls_current := Some (cx_timer cx)\<rparr>) = Some (Err e, w2)))))"

lemma poll_loop_body_end:
  assumes "poll_loop_body ops (nodes, alive, w) = Some (Inr (r, nodes', w'))" and "alive = card (live nodes)"
  shows "nodes' = nodes \<and> loop_end ops nodes w r w'"
proof (cases "alive = 0")
  case True
  with assms show ?thesis by (auto simp: poll_loop_body_def loop_end_def)
next
  case False
  with assms obtain i w1 where n: "ro_next ops w = Some (i, w1)"
    by (auto simp: poll_loop_body_def split: option.splits)
  show ?thesis
  proof (cases "length nodes \<le> i")
    case True
    with assms n False show ?thesis by (auto simp: poll_loop_body_def loop_end_def)
  next
    case i: False
    with assms n False obtain p cx where x: "nodes ! i = Some (p, cx)"
      by (auto simp: poll_loop_body_def split: option.splits)
    with assms n False i obtain q w2 where p: "ro_poll ops p cx (w1\<lparr>tls_current := Some (cx_timer cx)\<rparr>) = Some (q, w2)"
      by (auto simp: poll_loop_body_def tls_set_def split: option.splits)
    from assms n False i x p obtain e where "q = Err e" "e \<noteq> Closed" "r = Err e" "nodes' = nodes"
      "w' = w2\<lparr>tls_current := tls_current w1\<rparr>"
      by (auto simp: poll_loop_body_def tls_set_def tls_guard_drop_def split: result.splits error.splits poll.splits)
    with n i x p show ?thesis by (auto simp: loop_end_def live_def)
  qed
qed

lemma poll_loop_polled:
  assumes "poll_loop ops nodes w = Some (r, nodes', w')" and "\<forall>x\<in>set nodes. x \<noteq> None"
  shows "\<exists>ps w1. polled ops nodes w ps nodes' w1 \<and> loop_end ops nodes' w1 r w'"
proof -
  let ?P = "\<lambda>(ns, alive, v). (\<exists>ps. polled ops nodes w ps ns v) \<and> alive = card (live ns)"
  let ?Q = "\<lambda>(q, ns, v). \<exists>ps w1. polled ops nodes w ps ns w1 \<and> loop_end ops ns w1 q v"
  have "?Q (r, nodes', w')"
  proof (rule loop_invariant [where P = ?P and Q = ?Q, OF assms(1) [unfolded poll_loop_def]])
    have "live nodes = {..<length nodes}" using assms(2) by (auto simp: live_def)
    then show "?P (nodes, length nodes, w)" by (auto intro: polled.rest)
  next
    fix s s' assume P: "?P s" and b: "poll_loop_body ops s = Some (Inl s')"
    obtain ns a v where s: "s = (ns, a, v)" by (cases s)
    obtain ns' a' v' where s': "s' = (ns', a', v')" by (cases s')
    from P s obtain ps where ps: "polled ops nodes w ps ns v" "a = card (live ns)" by auto
    from poll_loop_body_cases [OF b [unfolded s s'] ps(2)] obtain qs where
      "polled ops ns v qs ns' v'" "a' = card (live ns')" by blast
    with polled_append [OF ps(1)] show "?P s'" unfolding s' by blast
  next
    fix s b assume P: "?P s" and e: "poll_loop_body ops s = Some (Inr b)"
    obtain ns a v where s: "s = (ns, a, v)" by (cases s)
    obtain q ns' v' where b: "b = (q, ns', v')" by (cases b)
    from P s obtain ps where ps: "polled ops nodes w ps ns v" "a = card (live ns)" by auto
    from poll_loop_body_end [OF e [unfolded s b] ps(2)] ps(1) show "?Q b" unfolding b by auto
  qed
  then show ?thesis by simp
qed

lemma poll_run_ends:
  assumes "poll_prepare ops builders reserved w = (Ok nodes, w0)"
    and "poll_run ops builders reserved w = Some (r, w')"
  shows "\<exists>ps nodes' w1 w2. polled ops nodes w0 ps nodes' w1 \<and> last_polls ps \<and> distinct (map fst (filter snd ps)) \<and>
           fst ` set ps \<subseteq> {..<length nodes} \<and>
           live nodes' = {..<length nodes} - set (map fst (filter snd ps)) \<and>
           (case r of
              Ok _ \<Rightarrow> set (map fst (filter snd ps)) = {..<length nodes} \<and> w' = w1
            | Err e \<Rightarrow> loop_end ops nodes' w1 (Err e) w2 \<and> w' = drop_nodes ops nodes' w2)"
proof -
  have full: "\<forall>x\<in>set nodes. x \<noteq> None"
  proof -
    have "\<forall>x\<in>set nodes. x \<noteq> None" if "build_all ops bs g v = (Ok nodes, w0)" for bs g v
      using that
    proof (induction bs arbitrary: g v)
      case Nil
      then show ?case by (auto simp: graph_finish_def first_empty_iff split: option.splits result.splits)
    next
      case (Cons b bs)
      then show ?case by (auto split: result.splits prod.splits)
    qed
    with assms(1) show ?thesis by (auto simp: poll_prepare_def)
  qed
  from assms obtain nodes' w2 where l: "poll_loop ops nodes w0 = Some (r, nodes', w2)" "w' = drop_nodes ops nodes' w2"
    by (auto simp: poll_run_def split: option.splits)
  from poll_loop_polled [OF l(1) full] obtain ps w1 where p: "polled ops nodes w0 ps nodes' w1" "loop_end ops nodes' w1 r w2"
    by blast
  have all: "live nodes = {..<length nodes}" using full by (auto simp: live_def)
  have fin: "{i. (i, True) \<in> set ps} = set (map fst (filter snd ps))" by force
  note q = polled_live [OF p(1), unfolded all fin]
  show ?thesis
  proof (cases r)
    case (Ok u)
    with p(2) have none: "live nodes' = {}" "w2 = w1" by (simp_all add: loop_end_def)
    have "fold (\<lambda>x v. case x of None \<Rightarrow> v | Some (p, cx) \<Rightarrow> ro_drop ops p v) xs v = v" if "\<forall>x\<in>set xs. x = None" for xs v
      using that by (induction xs arbitrary: v) auto
    moreover have "\<forall>x\<in>set nodes'. x = None" using none(1)
      by (auto simp: live_def in_set_conv_nth) (metis not_Some_eq surj_pair)
    ultimately have "w' = w1" using l(2) none(2) by (simp add: drop_nodes_def)
    moreover have "set (map fst (filter snd ps)) = {..<length nodes}" using q none(1) by fastforce
    ultimately show ?thesis using p q Ok by (intro exI [of _ ps] exI [of _ nodes'] exI [of _ w1]) auto
  next
    case (Err e)
    then show ?thesis using p q l(2)
      by (intro exI [of _ ps] exI [of _ nodes'] exI [of _ w1] exI [of _ w2]) auto
  qed
qed

text \<open>A builder that fails, or a place left empty, is an error of the build.\<close>

lemma poll_run_unbuilt:
  "poll_prepare ops builders reserved w = (Err e, w0) \<Longrightarrow> poll_run ops builders reserved w = Some (r, w') \<Longrightarrow>
     r = Err e \<and> w' = w0"
  by (simp add: poll_run_def)

text \<open>C20. However a started poll thread ends, its \<open>on_done\<close> callbacks are called once each, in order, with what
  \<open>join\<close> reports, after everything was dropped. A refused spawn drops its builders unbuilt, in order. A thread
  whose graph does not build ends with the build's error. Otherwise its nodes are polled, each under its own timer
  and never after the poll that finished it, and dropped the moment they are Ready or Closed; the thread closes
  cleanly only when every id of the graph has finished, each exactly once; an error is a node's own, never
  \<open>Closed\<close>, unless the consumer hands out an id past the graph, and every unfinished node is dropped
  before the callbacks run.\<close>

theorem poll_thread_ends:
  assumes "poll_start enc os ops name \<lparr>sn_thread = t, sn_stack_size = stack\<rparr> w = Some (sp, w')"
  shows "\<exists>w4. w' = fold (\<lambda>cb v. snd (cb (done_of_spawned enc name sp) v)) (pt_on_done t) w4 \<and>
    (case sp of
       Refused reason \<Rightarrow> os name stack = Some reason \<and> w4 = fold gb_drop (pt_builders t) w \<and>
         spawned_join enc name sp = JoinError (never_started enc name (Some reason))
     | Ended u \<Rightarrow> os name stack = None \<and> (\<exists>r. u = Returns r \<and>
         spawned_join enc name sp = (case r of Ok _ \<Rightarrow> JoinOk | Err e \<Rightarrow> JoinError e) \<and>
         (case poll_prepare ops (pt_builders t) (pt_reservations t) w of
            (Err e, w0) \<Rightarrow> r = Err e \<and> w4 = w0
          | (Ok nodes, w0) \<Rightarrow> \<exists>ps nodes' w1 w2. polled ops nodes w0 ps nodes' w1 \<and> last_polls ps \<and>
              distinct (map fst (filter snd ps)) \<and> fst ` set ps \<subseteq> {..<length nodes} \<and>
              live nodes' = {..<length nodes} - set (map fst (filter snd ps)) \<and>
              (case r of
                 Ok _ \<Rightarrow> set (map fst (filter snd ps)) = {..<length nodes} \<and> w4 = w1
               | Err e \<Rightarrow> loop_end ops nodes' w1 (Err e) w2 \<and> w4 = drop_nodes ops nodes' w2))))"
proof -
  let ?body = "\<lambda>w. map_option (\<lambda>(r, w'). (Returns r, w')) (poll_run ops (pt_builders t) (pt_reservations t) w)"
  from assms have "spawn_run enc (os name stack) \<lparr>tk_body = ?body, tk_discard = drop_builders (pt_builders t),
      tk_guard = init_guard_new name (pt_on_done t)\<rparr> w = Some (sp, w')"
    by (simp add: poll_start_def spawn_start_def options_spawn_def poll_task_def)
  from spawn_run_exits [OF this] obtain w4 where
    f: "w' = fold (\<lambda>cb v. snd (cb (done_of_spawned enc name sp) v)) (pt_on_done t) w4" and
    e: "case sp of Refused reason \<Rightarrow> os name stack = Some reason \<and> w4 = drop_builders (pt_builders t) w
        | Ended u \<Rightarrow> os name stack = None \<and> ?body w = Some (u, w4)"
    by blast
  show ?thesis
  proof (cases sp)
    case (Refused reason)
    with f e show ?thesis by (auto simp: drop_builders_def)
  next
    case (Ended u)
    with e obtain r where r: "u = Returns r" "poll_run ops (pt_builders t) (pt_reservations t) w = Some (r, w4)"
      by auto
    obtain q w0 where p: "poll_prepare ops (pt_builders t) (pt_reservations t) w = (q, w0)"
      by (cases "poll_prepare ops (pt_builders t) (pt_reservations t) w")
    have "case q of Err e \<Rightarrow> r = Err e \<and> w4 = w0
      | Ok nodes \<Rightarrow> \<exists>ps nodes' w1 w2. polled ops nodes w0 ps nodes' w1 \<and> last_polls ps \<and>
              distinct (map fst (filter snd ps)) \<and> fst ` set ps \<subseteq> {..<length nodes} \<and>
              live nodes' = {..<length nodes} - set (map fst (filter snd ps)) \<and>
              (case r of
                 Ok _ \<Rightarrow> set (map fst (filter snd ps)) = {..<length nodes} \<and> w4 = w1
               | Err e \<Rightarrow> loop_end ops nodes' w1 (Err e) w2 \<and> w4 = drop_nodes ops nodes' w2)"
    proof (cases q)
      case (Ok nodes)
      with poll_run_ends [OF p [unfolded Ok] r(2)] show ?thesis by simp
    next
      case (Err e)
      with poll_run_unbuilt [OF p [unfolded Err] r(2)] show ?thesis by simp
    qed
    with f e Ended r(1) p show ?thesis by (intro exI [of _ w4] conjI) (cases r; cases q; simp)+
  qed
qed

text \<open>Two nodes: node 0 is pending once, then both are ready; the environment is the ids the consumer hands out,
  and the current timer each poll saw.\<close>

definition two_nodes :: "(nat, nat list \<times> waker option list) runtime_ops" where
  "two_nodes =
     \<lparr>ro_next = (\<lambda>w. case fst (tls_env w) of [] \<Rightarrow> None | i # is \<Rightarrow> Some (i, w\<lparr>tls_env := (is, snd (tls_env w))\<rparr>)),
      ro_poll = (\<lambda>p cx w. Some (if p = 0 \<and> length (snd (tls_env w)) = 0 then Ok Pending else Ok (PReady ()),
         w\<lparr>tls_env := (fst (tls_env w), snd (tls_env w) @ [tls_current w])\<rparr>)),
      ro_drop = (\<lambda>p w. w)\<rparr>"

definition two_build :: "(nat, nat list \<times> waker option list) graph_builder" where
  "two_build =
     \<lparr>gb_build = (\<lambda>g w. case graph_slot g of (s0, g0) \<Rightarrow> (case graph_slot g0 of (s1, g1) \<Rightarrow>
        (Ok (), graph_add s1 1 (graph_add s0 0 g1), w))),
      gb_drop = (\<lambda>w. w)\<rparr>"

definition two_thread :: "(nat, nat list \<times> waker option list) poll_thread" where
  "two_thread = poll_on_done (\<lambda>d w. (Returns (), w\<lparr>tls_env := (if d = DoneClose then [7] else [], snd (tls_env w))\<rparr>))
     (poll_add two_build poll_thread_new)"

theorem poll_thread_ends_witness:
  "\<exists>ps :: (nat \<times> bool) list. set (map fst (filter snd ps)) = {..<2 :: nat} \<and> last_polls ps"
proof -
  let ?w = "\<lparr>tls_current = None, tls_env = ([0, 1, 1, 0], [])\<rparr> :: (nat list \<times> waker option list) tls"
  have p: "poll_prepare two_nodes (pt_builders two_thread) (pt_reservations two_thread) ?w =
      (Ok [Some (0, local_context 0), Some (1, local_context 1)], ?w)" by code_simp
  have r: "poll_start (\<lambda>_ _. 0) (\<lambda>_ _. None) two_nodes ''T'' \<lparr>sn_thread = two_thread, sn_stack_size = Some 4096\<rparr> ?w =
      Some (Ended (Returns (Ok ())), \<lparr>tls_current = None, tls_env = ([7], [Some 0, Some 1, Some 0])\<rparr>)" by code_simp
  from poll_thread_ends [OF r] p show ?thesis by auto
qed

end
