(* ===== verification/Pull.thy ===== *)
theory Pull
  imports Line_Work
begin

text \<open>
  The pull paradigm: a chain of nodes each of which pulls its parent (src/pull/pullable.rs,
  src/node/line/pull/node.rs), its source buffer (src/writer/pull.rs), its reader
  (src/reader/pull/reader.rs), and the work node that pushes what a chain yields (src/work/pulled.rs).
  A pullable is its state and a \<open>pull\<close> that acts on it and on the world around it.
\<close>

type_synonym ('q, 'd, 's, 'w) pull = "'q \<Rightarrow> 'w \<Rightarrow> (('d, 's) message res \<times> 'q \<times> 'w) option"

section \<open>The line\<close>

record ('o, 's, 'r, 'q) pline =
  pl_worker :: 'r
  pl_pullable :: 'q
  pl_buffer :: "('o, 's) message list"

definition pline_new :: "'r \<Rightarrow> 'q \<Rightarrow> ('o, 's, 'r, 'q) pline" where
  "pline_new worker pullable = \<lparr>pl_worker = worker, pl_pullable = pullable, pl_buffer = []\<rparr>"

definition next_output ::
  "('i, 'o, 'r) routine_ops \<Rightarrow> ('o, 's, 'r, 'q) pline \<Rightarrow> ('o, 's) message option res \<times> ('o, 's, 'r, 'q) pline" where
  "next_output ro l =
     (case r_next ro (pl_worker l) of
        (Err e, r) \<Rightarrow> (Err e, l\<lparr>pl_worker := r\<rparr>)
      | (Ok (Some d), r) \<Rightarrow> (Ok (Some (Data d)), l\<lparr>pl_worker := r\<rparr>)
      | (Ok None, r) \<Rightarrow>
          (case pl_buffer l of
             m # ms \<Rightarrow> (Ok (Some m), l\<lparr>pl_worker := r, pl_buffer := ms\<rparr>)
           | [] \<Rightarrow> (Ok None, l\<lparr>pl_worker := r\<rparr>)))"

definition pline_body ::
  "('i, 'o, 'r) routine_ops \<Rightarrow> ('q, 'i, 's, 'w) pull \<Rightarrow> ('o, 's, 'r, 'q) pline \<times> 'w \<Rightarrow>
   (('o, 's, 'r, 'q) pline \<times> 'w + ('o, 's) message res \<times> ('o, 's, 'r, 'q) pline \<times> 'w) option" where
  "pline_body ro pull = (\<lambda>(l, w).
     case pull (pl_pullable l) w of
       None \<Rightarrow> None
     | Some (q, p, w1) \<Rightarrow>
         (let l1 = l\<lparr>pl_pullable := p\<rparr> in
          case q of
            Err e \<Rightarrow> Some (Inr (Err e, l1, w1))
          | Ok (Data d) \<Rightarrow>
              (case r_send ro d (pl_worker l1) of
                 (Err e, r) \<Rightarrow> Some (Inr (Err e, l1\<lparr>pl_worker := r\<rparr>, w1))
               | (Ok _, r) \<Rightarrow>
                   (case next_output ro (l1\<lparr>pl_worker := r\<rparr>) of
                      (Err e, l2) \<Rightarrow> Some (Inr (Err e, l2, w1))
                    | (Ok (Some m), l2) \<Rightarrow> Some (Inr (Ok m, l2, w1))
                    | (Ok None, l2) \<Rightarrow> Some (Inl (l2, w1))))
          | Ok (Flush s) \<Rightarrow>
              (case r_flush ro (pl_worker l1) of
                 (Err e, r) \<Rightarrow> Some (Inr (Err e, l1\<lparr>pl_worker := r\<rparr>, w1))
               | (Ok _, r) \<Rightarrow>
                   (case next_output ro (l1\<lparr>pl_worker := r\<rparr>) of
                      (Err e, l2) \<Rightarrow> Some (Inr (Err e, l2, w1))
                    | (Ok (Some m), l2) \<Rightarrow> Some (Inr (Ok m, l2\<lparr>pl_buffer := pl_buffer l2 @ [Flush s]\<rparr>, w1))
                    | (Ok None, l2) \<Rightarrow> Some (Inr (Ok (Flush s), l2, w1))))
          | Ok (Marker s) \<Rightarrow> Some (Inr (Ok (Marker s), l1, w1))))"

definition pline_pull ::
  "('i, 'o, 'r) routine_ops \<Rightarrow> ('q, 'i, 's, 'w) pull \<Rightarrow> (('o, 's, 'r, 'q) pline, 'o, 's, 'w) pull" where
  "pline_pull ro pull l w =
     (case next_output ro l of
        (Err e, l1) \<Rightarrow> Some (Err e, l1, w)
      | (Ok (Some m), l1) \<Rightarrow> Some (Ok m, l1, w)
      | (Ok None, l1) \<Rightarrow> loop (pline_body ro pull) (l1, w))"

section \<open>What a line makes of its parent's messages\<close>

text \<open>\<open>ms\<close> are the results of successive successful pulls.\<close>

inductive pulled_seq ::
  "('q, 'd, 's, 'w) pull \<Rightarrow> 'q \<Rightarrow> 'w \<Rightarrow> ('d, 's) message list \<Rightarrow> 'q \<Rightarrow> 'w \<Rightarrow> bool" for pull where
  none: "pulled_seq pull q w [] q w"
| one: "pull q w = Some (Ok m, q1, w1) \<Longrightarrow> pulled_seq pull q1 w1 ms q' w' \<Longrightarrow> pulled_seq pull q w (m # ms) q' w'"

lemma pulled_seq_append:
  "pulled_seq pull q w ms q1 w1 \<Longrightarrow> pulled_seq pull q1 w1 ms' q2 w2 \<Longrightarrow> pulled_seq pull q w (ms @ ms') q2 w2"
  by (induction rule: pulled_seq.induct) (auto intro: pulled_seq.intros)

lemma pulled_seq_one: "pull q w = Some (Ok m, q1, w1) \<Longrightarrow> pulled_seq pull q w [m] q1 w1"
  by (auto intro: pulled_seq.intros)

text \<open>\<open>pulls ro r p ms os r' p'\<close>: from the worker \<open>r\<close> with the Flush \<open>p\<close> still to forward, the messages
  \<open>ms\<close> become \<open>os\<close>. The routine's outputs go first, then the Flush; the next message is taken when there is
  neither, and a Marker goes through then.\<close>

inductive pulls ::
  "('i, 'o, 'r) routine_ops \<Rightarrow> 'r \<Rightarrow> ('o, 's) message list \<Rightarrow> ('i, 's) message list \<Rightarrow> ('o, 's) message list \<Rightarrow>
   'r \<Rightarrow> ('o, 's) message list \<Rightarrow> bool" for ro where
  rest: "pulls ro r p [] [] r p"
| outp: "pulls ro r p ms os r1 p1 \<Longrightarrow> r_next ro r1 = (Ok (Some d), r2) \<Longrightarrow> pulls ro r p ms (os @ [Data d]) r2 p1"
| signal: "pulls ro r p ms os r1 (s # p1) \<Longrightarrow> r_next ro r1 = (Ok None, r2) \<Longrightarrow> pulls ro r p ms (os @ [s]) r2 p1"
| data: "pulls ro r p ms os r1 [] \<Longrightarrow> r_next ro r1 = (Ok None, r2) \<Longrightarrow> r_send ro d r2 = (Ok u, r3) \<Longrightarrow>
     pulls ro r p (ms @ [Data d]) os r3 []"
| flush: "pulls ro r p ms os r1 [] \<Longrightarrow> r_next ro r1 = (Ok None, r2) \<Longrightarrow> r_flush ro r2 = (Ok u, r3) \<Longrightarrow>
     pulls ro r p (ms @ [Flush s]) os r3 [Flush s]"
| marker: "pulls ro r p ms os r1 [] \<Longrightarrow> r_next ro r1 = (Ok None, r2) \<Longrightarrow>
     pulls ro r p (ms @ [Marker s]) (os @ [Marker s]) r2 []"

text \<open>Signals go through once each, in order.\<close>

lemma pulls_signals:
  "pulls ro r p ms os r' p' \<Longrightarrow> signals p = p \<Longrightarrow>
     signals p' = p' \<and> signals os @ p' = p @ concat (map signal_of ms)"
proof (induction rule: pulls.induct)
  case (signal r p ms os r1 s p1 r2)
  then have "signals (s # p1) = s # p1" "signals os @ s # p1 = p @ concat (map signal_of ms)" by simp_all
  moreover have "length (signals p1) \<le> length p1" by (simp add: signals_def)
  moreover have "signals (s # p1) = (if is_data s then signals p1 else s # signals p1)" by (simp add: signals_def)
  ultimately have "\<not> is_data s" "signals p1 = p1" "signals os @ s # p1 = p @ concat (map signal_of ms)"
    by (auto split: if_splits)
  then show ?case by (simp add: signals_def)
qed (auto simp: signals_def)

lemma next_output_pulls:
  assumes "pulls ro r p ms os (pl_worker l) (pl_buffer l)" and "next_output ro l = (Ok (Some m), l')"
  shows "pulls ro r p ms (os @ [m]) (pl_worker l') (pl_buffer l')" "pl_pullable l' = pl_pullable l"
  using assms(2) pulls.outp [OF assms(1)] pulls.signal [of ro r p ms os "pl_worker l"] assms(1)
  by (auto simp: next_output_def split: result.splits option.splits list.splits prod.splits)

lemma next_output_None:
  "next_output ro l = (Ok None, l') \<Longrightarrow>
     r_next ro (pl_worker l) = (Ok None, pl_worker l') \<and> pl_buffer l = [] \<and> pl_buffer l' = [] \<and> pl_pullable l' = pl_pullable l"
  by (auto simp: next_output_def split: result.splits option.splits list.splits prod.splits)

text \<open>A search by \<open>pull\<close>, from a line whose worker has no output and nothing to forward.\<close>

definition searching ::
  "('i, 'o, 'r) routine_ops \<Rightarrow> ('q, 'i, 's, 'w) pull \<Rightarrow> ('o, 's, 'r, 'q) pline \<Rightarrow> 'w \<Rightarrow> ('o, 's, 'r, 'q) pline \<Rightarrow> 'w \<Rightarrow> bool" where
  "searching ro pull l w l1 w1 \<longleftrightarrow>
     pl_buffer l1 = [] \<and>
     (\<exists>ms r. pulled_seq pull (pl_pullable l) w ms (pl_pullable l1) w1 \<and>
        pulls ro (pl_worker l) (pl_buffer l) ms [] r [] \<and> r_next ro r = (Ok None, pl_worker l1))"

definition yields ::
  "('i, 'o, 'r) routine_ops \<Rightarrow> ('q, 'i, 's, 'w) pull \<Rightarrow> ('o, 's, 'r, 'q) pline \<Rightarrow> 'w \<Rightarrow> ('o, 's) message \<Rightarrow>
   ('o, 's, 'r, 'q) pline \<Rightarrow> 'w \<Rightarrow> bool" where
  "yields ro pull l w m l1 w1 \<longleftrightarrow>
     (\<exists>ms. pulled_seq pull (pl_pullable l) w ms (pl_pullable l1) w1 \<and>
        pulls ro (pl_worker l) (pl_buffer l) ms [m] (pl_worker l1) (pl_buffer l1))"

lemma searching_takes:
  assumes s: "searching ro pull l w l1 w1" and p: "pull (pl_pullable l1) w1 = Some (Ok m, q, w2)"
  obtains ms r where "pulled_seq pull (pl_pullable l) w (ms @ [m]) q w2"
    "pulls ro (pl_worker l) (pl_buffer l) ms [] r []" "r_next ro r = (Ok None, pl_worker l1)" "pl_buffer l1 = []"
  using s pulled_seq_append [OF _ pulled_seq_one [of pull, OF p]] unfolding searching_def by blast

lemma pline_body_goes_on:
  assumes s: "searching ro pull l w l1 w1" and b: "pline_body ro pull (l1, w1) = Some (Inl (l2, w2))"
  shows "searching ro pull l w l2 w2"
proof -
  from b obtain d q r u where p: "pull (pl_pullable l1) w1 = Some (Ok (Data d), q, w2)"
    and snd: "r_send ro d (pl_worker l1) = (Ok u, r)"
    and n: "next_output ro (l1\<lparr>pl_pullable := q, pl_worker := r\<rparr>) = (Ok None, l2)"
    by (auto simp: pline_body_def Let_def split: option.splits result.splits message.splits prod.splits)
  from searching_takes [OF s p] obtain ms r0 where t: "pulled_seq pull (pl_pullable l) w (ms @ [Data d]) q w2"
    "pulls ro (pl_worker l) (pl_buffer l) ms [] r0 []" "r_next ro r0 = (Ok None, pl_worker l1)" .
  from pulls.data [OF t(2,3) snd] t(1) next_output_None [OF n] show ?thesis
    unfolding searching_def by (intro conjI exI [of _ "ms @ [Data d]"] exI [of _ r]) simp_all
qed

lemma pline_body_yields:
  assumes s: "searching ro pull l w l1 w1" and b: "pline_body ro pull (l1, w1) = Some (Inr (Ok m, l2, w2))"
  shows "yields ro pull l w m l2 w2"
proof -
  from b obtain i q where p: "pull (pl_pullable l1) w1 = Some (Ok i, q, w2)"
    by (auto simp: pline_body_def Let_def split: option.splits result.splits message.splits prod.splits)
  from searching_takes [OF s p] obtain ms r0 where t: "pulled_seq pull (pl_pullable l) w (ms @ [i]) q w2"
    "pulls ro (pl_worker l) (pl_buffer l) ms [] r0 []" "r_next ro r0 = (Ok None, pl_worker l1)" "pl_buffer l1 = []" .
  show ?thesis
  proof (cases i)
    case (Data d)
    with b p obtain r u where snd: "r_send ro d (pl_worker l1) = (Ok u, r)"
      and n: "next_output ro (l1\<lparr>pl_pullable := q, pl_worker := r\<rparr>) = (Ok (Some m), l2)"
      by (auto simp: pline_body_def Let_def split: option.splits result.splits prod.splits)
    from pulls.data [OF t(2,3) snd] t(4) have "pulls ro (pl_worker l) (pl_buffer l) (ms @ [Data d]) []
        (pl_worker (l1\<lparr>pl_pullable := q, pl_worker := r\<rparr>)) (pl_buffer (l1\<lparr>pl_pullable := q, pl_worker := r\<rparr>))" by simp
    from next_output_pulls [OF this n] t(1) Data show ?thesis unfolding yields_def by auto
  next
    case (Flush f)
    with b p obtain r u n l3 where fl: "r_flush ro (pl_worker l1) = (Ok u, r)"
      and n: "next_output ro (l1\<lparr>pl_pullable := q, pl_worker := r\<rparr>) = (Ok n, l3)"
      and e: "(case n of Some m' \<Rightarrow> m = m' \<and> l2 = l3\<lparr>pl_buffer := pl_buffer l3 @ [Flush f]\<rparr> | None \<Rightarrow> m = Flush f \<and> l2 = l3)"
      by (auto simp: pline_body_def Let_def split: option.splits result.splits prod.splits)
    note P = pulls.flush [OF t(2,3) fl, of f]
    show ?thesis
    proof (cases n)
      case None
      with n next_output_None [of ro] have "r_next ro r = (Ok None, pl_worker l3)" "pl_buffer l3 = []" "pl_pullable l3 = q"
        by fastforce+
      with pulls.signal [OF P] e None t(1) Flush show ?thesis unfolding yields_def by auto
    next
      case (Some m')
      with n t(4) obtain d where d: "r_next ro r = (Ok (Some d), pl_worker l3)" "m' = Data d" "pl_buffer l3 = []"
        "pl_pullable l3 = q"
        by (auto simp: next_output_def split: result.splits option.splits prod.splits)
      with pulls.outp [OF P] e Some t(1) Flush show ?thesis unfolding yields_def by auto
    qed
  next
    case (Marker k)
    with b p have "m = Marker k" "l2 = l1\<lparr>pl_pullable := q\<rparr>" by (auto simp: pline_body_def Let_def)
    with pulls.marker [OF t(2,3), of k] t(1,4) Marker show ?thesis unfolding yields_def by auto
  qed
qed

lemma pline_pull_yields:
  fixes l l' :: "('o, 's, 'r, 'q) pline" and w w' :: 'w
  assumes "pline_pull ro pull l w = Some (Ok m, l', w')"
  shows "yields ro pull l w m l' w'"
proof -
  obtain q l1 where n: "next_output ro l = (q, l1)" by (cases "next_output ro l") auto
  have r: "pulls ro (pl_worker l) (pl_buffer l) [] [] (pl_worker l) (pl_buffer l)" by (rule pulls.rest)
  show ?thesis
  proof (cases q)
    case (Err e)
    with assms n show ?thesis by (simp add: pline_pull_def)
  next
    case (Ok o')
    show ?thesis
    proof (cases o')
      case (Some m')
      with assms n Ok have "m' = m" "l1 = l'" "w' = w" by (auto simp: pline_pull_def)
      with next_output_pulls [OF r n [unfolded Ok Some]] show ?thesis
        unfolding yields_def by (intro exI [of _ "[]"]) (auto intro: pulled_seq.none)
    next
      case None
      with assms n Ok have l: "loop (pline_body ro pull) (l1, w) = Some (Ok m, l', w')" by (simp add: pline_pull_def)
      let ?P = "\<lambda>(l2 :: ('o, 's, 'r, 'q) pline, w2 :: 'w). searching ro pull l w l2 w2"
      let ?Q = "\<lambda>(q :: ('o, 's) message res, l2 :: ('o, 's, 'r, 'q) pline, w2 :: 'w). \<forall>m. q = Ok m \<longrightarrow> yields ro pull l w m l2 w2"
      have "?Q (Ok m, l', w')"
      proof (rule loop_invariant [where P = ?P and Q = ?Q, OF l])
        from next_output_None [OF n [unfolded Ok None]] r show "?P (l1, w)"
          unfolding searching_def by (auto intro: pulled_seq.none)
      next
        fix s s' assume "?P s" "pline_body ro pull s = Some (Inl s')"
        then show "?P s'" using pline_body_goes_on by (cases s; cases s') auto
      next
        fix s b assume "?P s" "pline_body ro pull s = Some (Inr b)"
        then show "?Q b" using pline_body_yields by (cases s; cases b) auto
      qed
      then show ?thesis by simp
    qed
  qed
qed

lemma pulls_trans:
  "pulls ro r1 p1 ms' os' r2 p2 \<Longrightarrow> pulls ro r p ms os r1 p1 \<Longrightarrow> pulls ro r p (ms @ ms') (os @ os') r2 p2"
proof (induction rule: pulls.induct)
  case (data r p ms os r1 r2 d u r3)
  then show ?case using pulls.data by (metis append_assoc)
next
  case (flush r p ms os r1 r2 u r3 s)
  then show ?case using pulls.flush by (metis append_assoc)
next
  case (marker r p ms os r1 r2 s)
  then show ?case using pulls.marker by (metis append_assoc)
next
  case (outp r p ms os r1 p1 d r2)
  then show ?case using pulls.outp by (metis append_assoc)
next
  case (signal r p ms os r1 s p1 r2)
  then show ?case using pulls.signal by (metis append_assoc)
qed simp

lemma pline_seq:
  "pulled_seq (pline_pull ro pull) l w os l' w' \<Longrightarrow>
     \<exists>ms. pulled_seq pull (pl_pullable l) w ms (pl_pullable l') w' \<and>
       pulls ro (pl_worker l) (pl_buffer l) ms os (pl_worker l') (pl_buffer l')"
proof (induction rule: pulled_seq.induct)
  case (none l w)
  show ?case by (intro exI [of _ "[]"]) (auto intro: pulled_seq.none pulls.rest)
next
  case (one l w m l1 w1 os l' w')
  from pline_pull_yields [OF one(1)] obtain ms1 where
    1: "pulled_seq pull (pl_pullable l) w ms1 (pl_pullable l1) w1"
      "pulls ro (pl_worker l) (pl_buffer l) ms1 [m] (pl_worker l1) (pl_buffer l1)" by (auto simp: yields_def)
  from one.IH obtain ms2 where
    2: "pulled_seq pull (pl_pullable l1) w1 ms2 (pl_pullable l') w'"
      "pulls ro (pl_worker l1) (pl_buffer l1) ms2 os (pl_worker l') (pl_buffer l')" by blast
  from pulled_seq_append [OF 1(1) 2(1)] pulls_trans [OF 2(2) 1(2)] show ?case
    by (intro exI [of _ "ms1 @ ms2"]) simp
qed

section \<open>The source, the reader, the work node\<close>

text \<open>\<open>WriterBuffer::pull\<close>: a blocking read of the input edge; what it took is recorded.\<close>

definition buffer_pull ::
  "(('i, 'o, 's) node_sys \<Rightarrow> ('i, 'o, 's) node_sys option) \<Rightarrow> (unit, 'i, 's, ('i, 'o, 's) node_sys) pull" where
  "buffer_pull env b w =
     (case read_front (\<lambda>(sh, v). map_option (\<lambda>v'. (nw_in v', v')) (env (v\<lparr>nw_in := sh\<rparr>))) (nw_in w, w) of
        None \<Rightarrow> None
      | Some (r, (sh, v), _) \<Rightarrow>
          Some (r, b, (keep w (v\<lparr>nw_in := sh\<rparr>))\<lparr>nw_recv := nw_recv w @ (case r of Ok m \<Rightarrow> [m] | Err _ \<Rightarrow> [])\<rparr>))"

definition preader_pull :: "('q, 'd, 's, 'w) pull \<Rightarrow> ('q, 'd, 's, 'w) pull" where
  "preader_pull pull q w = pull q w"

definition preader_read :: "('q, 'd, 's, 'w) pull \<Rightarrow> ('q, 'd, 's, 'w) pull" where
  "preader_read pull q w = preader_pull pull q w"

text \<open>It keeps no buffer, so there is never anything to poll.\<close>

definition preader_poll :: "'q \<Rightarrow> 'w \<Rightarrow> ('d, 's) message option res \<times> 'q \<times> 'w" where
  "preader_poll q w = (Ok None, q, w)"

record ('q, 'e, 'm) pulled =
  pu_pullable :: 'q
  pu_outputs :: "('e, 'm) fanout"

definition pulled_of :: "'q \<Rightarrow> ('q, 'e, 'm) pulled" where
  "pulled_of q = \<lparr>pu_pullable = q, pu_outputs = fanout_new\<rparr>"

definition pulled_add :: "'e \<Rightarrow> ('q, 'e, 'm) pulled \<Rightarrow> ('q, 'e, 'm) pulled" where
  "pulled_add e n = n\<lparr>pu_outputs := fanout_add e (pu_outputs n)\<rparr>"

text \<open>Never pulls while suspended.\<close>

definition pulled_work ::
  "('e, ('d, 's) message, 'w) sink_ops \<Rightarrow> ('q, 'd, 's, 'w) pull \<Rightarrow> ('q, 'e, ('d, 's) message) pulled \<Rightarrow> 'w \<Rightarrow>
   (unit res \<times> ('q, 'e, ('d, 's) message) pulled \<times> 'w) option" where
  "pulled_work so pull n w =
     (if \<not> fanout_ready (pu_outputs n)
      then (case fanout_resume so (pu_outputs n) w of
              None \<Rightarrow> None
            | Some (Err e, f, w') \<Rightarrow> Some (Err e, n\<lparr>pu_outputs := f\<rparr>, w')
            | Some (Ok _, f, w') \<Rightarrow> Some (Ok (), n\<lparr>pu_outputs := f\<rparr>, w'))
      else (case pull (pu_pullable n) w of
              None \<Rightarrow> None
            | Some (Err e, q, w1) \<Rightarrow> Some (Err e, n\<lparr>pu_pullable := q\<rparr>, w1)
            | Some (Ok m, q, w1) \<Rightarrow>
                (case ready_push so m (pu_outputs n) w1 of
                   (Err e, f, w2) \<Rightarrow> Some (Err e, n\<lparr>pu_pullable := q, pu_outputs := f\<rparr>, w2)
                 | (Ok _, f, w2) \<Rightarrow> Some (Ok (), n\<lparr>pu_pullable := q, pu_outputs := f\<rparr>, w2))))"

fun pulled_rounds ::
  "('e, ('d, 's) message, 'w) sink_ops \<Rightarrow> ('q, 'd, 's, 'w) pull \<Rightarrow> nat \<Rightarrow> ('q, 'e, ('d, 's) message) pulled \<Rightarrow> 'w \<Rightarrow>
   (unit res \<times> ('q, 'e, ('d, 's) message) pulled \<times> 'w) option" where
  "pulled_rounds so pull 0 n w = Some (Ok (), n, w)"
| "pulled_rounds so pull (Suc k) n w =
     (case pulled_work so pull n w of
        None \<Rightarrow> None
      | Some (Err e, n', w') \<Rightarrow> Some (Err e, n', w')
      | Some (Ok _, n', w') \<Rightarrow> pulled_rounds so pull k n' w')"

lemma buffer_seq:
  "pulled_seq (buffer_pull env) b w ms b' w' \<Longrightarrow>
     nw_recv w' = nw_recv w @ ms \<and> sw_took (nw_out w') = sw_took (nw_out w)"
  by (induction rule: pulled_seq.induct) (auto simp: buffer_pull_def keep_def split: option.splits)

text \<open>A line that pulls the buffer, as the pullable of a work node.\<close>

lemma pulled_work_round:
  fixes n n' :: "(('o, 's, 'r, unit) pline, nat \<times> nat, ('o, 's) message) pulled"
    and w w' :: "('i, 'o, 's) node_sys"
  assumes ok: "fanout_ok (pu_outputs n)"
    and r: "pulled_work (node_sink env fill) (pline_pull ro (buffer_pull env')) n w = Some (Ok u, n', w')"
  shows "fanout_ok (pu_outputs n') \<and> f_edges (pu_outputs n') = f_edges (pu_outputs n) \<and>
     (\<exists>ms os. nw_recv w' = nw_recv w @ ms \<and>
        pulls ro (pl_worker (pu_pullable n)) (pl_buffer (pu_pullable n)) ms os
          (pl_worker (pu_pullable n')) (pl_buffer (pu_pullable n')) \<and>
        (\<forall>i < length (f_edges (pu_outputs n)).
           sw_took (nw_out w') (f_edges (pu_outputs n) ! i) @ fanout_due (pu_outputs n') i =
           (sw_took (nw_out w) (f_edges (pu_outputs n) ! i) @ fanout_due (pu_outputs n) i) @ os))"
proof (cases "fanout_ready (pu_outputs n)")
  case False
  with r obtain rot f where f: "fanout_resume (node_sink env fill) (pu_outputs n) w = Some (Ok rot, f, w')"
    "n' = n\<lparr>pu_outputs := f\<rparr>"
    by (auto simp: pulled_work_def split: option.splits result.splits)
  from node_sys.resume_round [OF ok f(1)] f(2) show ?thesis
    by (auto intro!: exI [of _ "[]"] pulls.rest)
next
  case True
  with r obtain m l w1 rot f where p: "pline_pull ro (buffer_pull env') (pu_pullable n) w = Some (Ok m, l, w1)"
    and f: "ready_push (node_sink env fill) m (pu_outputs n) w1 = (Ok rot, f, w')"
      "n' = n\<lparr>pu_pullable := l, pu_outputs := f\<rparr>"
    by (auto simp: pulled_work_def split: option.splits result.splits prod.splits)
  from pline_pull_yields [OF p] obtain ms where
    y: "pulled_seq (buffer_pull env') (pl_pullable (pu_pullable n)) w ms (pl_pullable l) w1"
      "pulls ro (pl_worker (pu_pullable n)) (pl_buffer (pu_pullable n)) ms [m] (pl_worker l) (pl_buffer l)"
    by (auto simp: yields_def)
  from buffer_seq [OF y(1)] have same: "nw_recv w1 = nw_recv w @ ms" "sw_took (nw_out w1) = sw_took (nw_out w)" by auto
  then have "\<forall>e. sw_took (nw_out w1) e = sw_took (nw_out w) e" by simp
  from node_sys.push_round [OF ok True f(1) this] same y(2) f(2) show ?thesis
    by (auto intro!: exI [of _ ms] exI [of _ "[m]"])
qed

lemma pulled_rounds_deliver:
  fixes n n' :: "(('o, 's, 'r, unit) pline, nat \<times> nat, ('o, 's) message) pulled"
    and w w' :: "('i, 'o, 's) node_sys"
  shows "pulled_rounds (node_sink env fill) (pline_pull ro (buffer_pull env')) k n w = Some (Ok u, n', w') \<Longrightarrow>
     fanout_ok (pu_outputs n) \<Longrightarrow>
     \<exists>ms os. nw_recv w' = nw_recv w @ ms \<and>
        pulls ro (pl_worker (pu_pullable n)) (pl_buffer (pu_pullable n)) ms os
          (pl_worker (pu_pullable n')) (pl_buffer (pu_pullable n')) \<and>
        (\<forall>i < length (f_edges (pu_outputs n)).
           sw_took (nw_out w') (f_edges (pu_outputs n) ! i) @ fanout_due (pu_outputs n') i =
           (sw_took (nw_out w) (f_edges (pu_outputs n) ! i) @ fanout_due (pu_outputs n) i) @ os)"
proof (induction k arbitrary: n w)
  case 0
  then show ?case by (auto intro!: exI [of _ "[]"] pulls.rest)
next
  case (Suc k)
  from Suc.prems obtain v n1 w1 where
    p: "pulled_work (node_sink env fill) (pline_pull ro (buffer_pull env')) n w = Some (Ok v, n1, w1)"
      "pulled_rounds (node_sink env fill) (pline_pull ro (buffer_pull env')) k n1 w1 = Some (Ok u, n', w')"
    by (auto split: option.splits result.splits)
  from pulled_work_round [OF Suc.prems(2) p(1)] obtain ms os where
    1: "fanout_ok (pu_outputs n1)" "f_edges (pu_outputs n1) = f_edges (pu_outputs n)" "nw_recv w1 = nw_recv w @ ms"
      "pulls ro (pl_worker (pu_pullable n)) (pl_buffer (pu_pullable n)) ms os (pl_worker (pu_pullable n1)) (pl_buffer (pu_pullable n1))"
      "\<forall>i < length (f_edges (pu_outputs n)).
           sw_took (nw_out w1) (f_edges (pu_outputs n) ! i) @ fanout_due (pu_outputs n1) i =
           (sw_took (nw_out w) (f_edges (pu_outputs n) ! i) @ fanout_due (pu_outputs n) i) @ os" by blast
  from Suc.IH [OF p(2) 1(1)] obtain ms' os' where
    2: "nw_recv w' = nw_recv w1 @ ms'"
      "pulls ro (pl_worker (pu_pullable n1)) (pl_buffer (pu_pullable n1)) ms' os' (pl_worker (pu_pullable n')) (pl_buffer (pu_pullable n'))"
      "\<forall>i < length (f_edges (pu_outputs n1)).
           sw_took (nw_out w') (f_edges (pu_outputs n1) ! i) @ fanout_due (pu_outputs n') i =
           (sw_took (nw_out w1) (f_edges (pu_outputs n1) ! i) @ fanout_due (pu_outputs n1) i) @ os'" by blast
  from pulls_trans [OF 2(2) 1(4)] 1 2 show ?case
    by (intro exI [of _ "ms @ ms'"] exI [of _ "os @ os'"]) simp
qed

section \<open>Reading up to a message\<close>

definition read_until_body ::
  "('q, 'd, 's, 'w) pull \<Rightarrow> ('d, 's) message \<Rightarrow> ('d, 's) message list \<times> 'q \<times> 'w \<Rightarrow>
   (('d, 's) message list \<times> 'q \<times> 'w + ('d, 's) message list res \<times> 'q \<times> 'w) option" where
  "read_until_body pull condition = (\<lambda>(a, q, w).
     case pull q w of
       None \<Rightarrow> None
     | Some (Err e, q1, w1) \<Rightarrow> Some (Inr (Err e, q1, w1))
     | Some (Ok m, q1, w1) \<Rightarrow>
         (if m = condition then Some (Inr (Ok a, q1, w1)) else Some (Inl (a @ [m], q1, w1))))"

definition read_until ::
  "('q, 'd, 's, 'w) pull \<Rightarrow> ('d, 's) message \<Rightarrow> 'q \<Rightarrow> 'w \<Rightarrow> (('d, 's) message list res \<times> 'q \<times> 'w) option" where
  "read_until pull condition q w = loop (read_until_body pull condition) ([], q, w)"

lemma pulled_seq_snoc:
  "pulled_seq pull q w ms q1 w1 \<Longrightarrow> pull q1 w1 = Some (Ok m, q2, w2) \<Longrightarrow> pulled_seq pull q w (ms @ [m]) q2 w2"
  by (rule pulled_seq_append [OF _ pulled_seq_one])

text \<open>What it returns was pulled, up to the first occurrence of the message.\<close>

lemma read_until_seq:
  fixes q q' :: 'q and w w' :: 'w and a :: "('d, 's) message list"
  assumes "read_until pull condition q w = Some (Ok a, q', w')"
  shows "condition \<notin> set a \<and> pulled_seq pull q w (a @ [condition]) q' w'"
proof -
  let ?P = "\<lambda>(a :: ('d, 's) message list, q1 :: 'q, w1 :: 'w). condition \<notin> set a \<and> pulled_seq pull q w a q1 w1"
  let ?Q = "\<lambda>(x :: ('d, 's) message list res, q1 :: 'q, w1 :: 'w). \<forall>a. x = Ok a \<longrightarrow> condition \<notin> set a \<and> pulled_seq pull q w (a @ [condition]) q1 w1"
  have "?Q (Ok a, q', w')"
  proof (rule loop_invariant [where P = ?P and Q = ?Q, OF assms [unfolded read_until_def]])
    show "?P ([], q, w)" by (simp add: pulled_seq.none)
  next
    fix s s' assume P: "?P s" and b: "read_until_body pull condition s = Some (Inl s')"
    obtain a q1 w1 where s: "s = (a, q1, w1)" by (cases s) auto
    from b s obtain m q2 w2 where n: "pull q1 w1 = Some (Ok m, q2, w2)" "m \<noteq> condition" "s' = (a @ [m], q2, w2)"
      by (auto simp: read_until_body_def split: option.splits result.splits if_splits)
    from P s pulled_seq_snoc [of pull, OF _ n(1)] n show "?P s'" by simp
  next
    fix s b assume P: "?P s" and b: "read_until_body pull condition s = Some (Inr b)"
    obtain a q1 w1 where s: "s = (a, q1, w1)" by (cases s) auto
    show "?Q b"
    proof (cases "\<exists>q2 w2. pull q1 w1 = Some (Ok condition, q2, w2)")
      case True
      then obtain q2 w2 where n: "pull q1 w1 = Some (Ok condition, q2, w2)" by blast
      with b s have "b = (Ok a, q2, w2)" by (simp add: read_until_body_def)
      with P s pulled_seq_snoc [of pull, OF _ n] show ?thesis by simp
    next
      case False
      with b s show ?thesis by (auto simp: read_until_body_def split: option.splits result.splits if_splits)
    qed
  qed
  then show ?thesis by simp
qed

section \<open>Properties\<close>


definition pull_start :: "(nat, nat, nat) node_sys" where
  "pull_start = \<lparr>nw_in = (with_bound None)\<lparr>i_buffer := [Data 4, Flush 7], producer_count := 1\<rparr>, nw_recv = [],
     nw_out = two_edges\<rparr>"


end
