(* ===== verification/Poll_Builder.thy ===== *)
theory Poll_Builder
  imports Poll_Line Poll_Biunion Poll_Edge Poll_Graph
begin

text \<open>
  The builders of poll nodes and what they build (src/node/line/poll/builder, src/node/biunion/poll/builder,
  src/poll/input). The edge kinds of a Rust builder are type parameters, and a method exists for some of
  them only: here a builder is one value, and an operation is \<open>None\<close> where Rust has no such method.
  Building fills a graph (Poll_Graph) with the phases of nodes (Poll_Line, Poll_Biunion) and makes the
  channels (Poll_Edge) between them. Data types are erased: one type for the data of every edge.
\<close>

section \<open>Builders\<close>

record line_options =
  lo_bound :: bound
  lo_budget :: budget

record bi_options =
  bi_bound :: "side \<Rightarrow> bound"
  bi_budget :: budget

text \<open>What a factory is handed.\<close>

record line_wakers =
  lw_input :: waker
  lw_work :: poll_cx
  lw_output :: waker

record bi_wakers =
  bw_input :: "side \<Rightarrow> waker"
  bw_work :: poll_cx
  bw_output :: waker

record ('d, 's) sync_input =
  si_edge :: "('d, 's) waking_receiver"
  si_reserved :: reserved

text \<open>An output while building: \<open>Deferred\<close> stores nothing.\<close>

datatype ('k, 'm) out_edge = ODeferred | OSync "('k, 'm) fanout" | ODirect 'k

text \<open>An input with its reservation; \<open>Sync\<close> keeps it with its edge.\<close>

datatype ('d, 's, 'r, 'k) poll_builder =
    LineNode "('d, 's, 'r, 'k) in_edge" "line_wakers \<Rightarrow> 'r" "('k, ('d, 's) message) out_edge" line_options
  | BiunionNode "('d, 's, 'r, 'k) in_edge" "('d, 's, 'r, 'k) in_edge" "bi_wakers \<Rightarrow> 'r"
      "('k, ('d, 's) message) out_edge" bi_options
and ('d, 's, 'r, 'k) in_edge =
    InDeferred reserved
  | InSync "('d, 's) sync_input"
  | InAsync reserved "('d, 's, 'r, 'k) poll_builder list"

subsection \<open>Minting: the inputs are reserved\<close>

definition line_options_default :: line_options where
  "line_options_default = \<lparr>lo_bound = None, lo_budget = budget_default\<rparr>"

definition line_bounded :: "bound \<Rightarrow> line_options \<Rightarrow> line_options" where
  "line_bounded b op = op\<lparr>lo_bound := b\<rparr>"

definition line_with_budget :: "budget \<Rightarrow> line_options \<Rightarrow> line_options" where
  "line_with_budget b op = op\<lparr>lo_budget := b\<rparr>"

definition bi_options_default :: bi_options where
  "bi_options_default = \<lparr>bi_bound = (\<lambda>_. None), bi_budget = budget_default\<rparr>"

definition bi_bounded :: "side \<Rightarrow> bound \<Rightarrow> bi_options \<Rightarrow> bi_options" where
  "bi_bounded sd b op = op\<lparr>bi_bound := (bi_bound op)(sd := b)\<rparr>"

definition bi_with_budget :: "budget \<Rightarrow> bi_options \<Rightarrow> bi_options" where
  "bi_with_budget b op = op\<lparr>bi_budget := b\<rparr>"

definition line_with_options ::
  "(line_wakers \<Rightarrow> 'r) \<Rightarrow> line_options \<Rightarrow> nat \<Rightarrow> ('d, 's, 'r, 'k) poll_builder \<times> nat" where
  "line_with_options factory op len = (case reserve len of (r, len') \<Rightarrow> (LineNode (InDeferred r) factory ODeferred op, len'))"

definition line_deferred :: "(line_wakers \<Rightarrow> 'r) \<Rightarrow> nat \<Rightarrow> ('d, 's, 'r, 'k) poll_builder \<times> nat" where
  "line_deferred factory len = line_with_options factory line_options_default len"

definition bi_with_options ::
  "(bi_wakers \<Rightarrow> 'r) \<Rightarrow> bi_options \<Rightarrow> nat \<Rightarrow> ('d, 's, 'r, 'k) poll_builder \<times> nat" where
  "bi_with_options factory op len =
     (case reserve len of (l, len1) \<Rightarrow>
        (case reserve len1 of (r, len2) \<Rightarrow> (BiunionNode (InDeferred l) (InDeferred r) factory ODeferred op, len2)))"

definition bi_deferred :: "(bi_wakers \<Rightarrow> 'r) \<Rightarrow> nat \<Rightarrow> ('d, 's, 'r, 'k) poll_builder \<times> nat" where
  "bi_deferred factory len = bi_with_options factory bi_options_default len"

subsection \<open>Resolving edges\<close>

text \<open>\<open>ResolveInput\<close> for \<open>Sync\<close>: the bridge wakes the reserved node.\<close>

definition resolve_sync :: "reserved \<Rightarrow> bound \<Rightarrow> ('d, 's, 'r, 'k) in_edge" where
  "resolve_sync r b = InSync \<lparr>si_edge = waking_new (rs_waker r) b, si_reserved = r\<rparr>"

fun resolved :: "('d, 's, 'r, 'k) in_edge \<Rightarrow> bool" where
  "resolved (InDeferred r) = False"
| "resolved _ = True"

fun line_sync_input :: "('d, 's, 'r, 'k) poll_builder \<Rightarrow> ('d, 's, 'r, 'k) poll_builder option" where
  "line_sync_input (LineNode (InDeferred r) f (ODirect k) op) = None"
| "line_sync_input (LineNode (InDeferred r) f out op) = Some (LineNode (resolve_sync r (lo_bound op)) f out op)"
| "line_sync_input _ = None"

fun line_output :: "('d, 's, 'r, 'k) poll_builder \<Rightarrow> ('d, 's, 'r, 'k) poll_builder option" where
  "line_output (LineNode i f ODeferred op) = Some (LineNode i f (OSync fanout_new) op)"
| "line_output _ = None"

fun line_sink :: "'k \<Rightarrow> ('d, 's, 'r, 'k) poll_builder \<Rightarrow> ('d, 's, 'r, 'k) poll_builder option" where
  "line_sink k (LineNode i f ODeferred op) = (if resolved i then Some (LineNode i f (ODirect k) op) else None)"
| "line_sink k _ = None"

fun bi_input :: "side \<Rightarrow> ('d, 's, 'r, 'k) poll_builder \<Rightarrow> ('d, 's, 'r, 'k) poll_builder option" where
  "bi_input LeftSide (BiunionNode (InDeferred l) r f out op) =
     Some (BiunionNode (resolve_sync l (bi_bound op LeftSide)) r f out op)"
| "bi_input RightSide (BiunionNode l (InDeferred r) f out op) =
     Some (BiunionNode l (resolve_sync r (bi_bound op RightSide)) f out op)"
| "bi_input _ _ = None"

fun bi_output :: "('d, 's, 'r, 'k) poll_builder \<Rightarrow> ('d, 's, 'r, 'k) poll_builder option" where
  "bi_output (BiunionNode l r f ODeferred op) = Some (BiunionNode l r f (OSync fanout_new) op)"
| "bi_output _ = None"

text \<open>\<open>AsyncParent\<close>: what a poll node can own. \<open>GraphBuilder\<close>: what a thread can add.\<close>

fun is_parent :: "('d, 's, 'r, 'k) poll_builder \<Rightarrow> bool" where
  "is_parent (LineNode i f out op) = (resolved i \<and> out = ODeferred)"
| "is_parent (BiunionNode l r f out op) = (resolved l \<and> resolved r \<and> out = ODeferred)"

fun is_graph_builder :: "('d, 's, 'r, 'k) poll_builder \<Rightarrow> bool" where
  "is_graph_builder (LineNode i f out op) = resolved i"
| "is_graph_builder (BiunionNode l r f out op) = (resolved l \<and> resolved r \<and> (\<forall>k. out \<noteq> ODirect k))"

text \<open>\<open>up.via(line)\<close>: a first parent, or a further one.\<close>

fun line_own ::
  "('d, 's, 'r, 'k) poll_builder \<Rightarrow> ('d, 's, 'r, 'k) poll_builder \<Rightarrow> ('d, 's, 'r, 'k) poll_builder option" where
  "line_own up (LineNode (InDeferred r) f out op) = (if is_parent up then Some (LineNode (InAsync r [up]) f out op) else None)"
| "line_own up (LineNode (InAsync r ps) f out op) =
     (if is_parent up then Some (LineNode (InAsync r (ps @ [up])) f out op) else None)"
| "line_own up _ = None"

text \<open>\<open>up.via(node.at::<Side>())\<close>.\<close>

fun bi_own ::
  "side \<Rightarrow> ('d, 's, 'r, 'k) poll_builder \<Rightarrow> ('d, 's, 'r, 'k) poll_builder \<Rightarrow> ('d, 's, 'r, 'k) poll_builder option" where
  "bi_own LeftSide up (BiunionNode (InDeferred l) r f out op) =
     (if is_parent up then Some (BiunionNode (InAsync l [up]) r f out op) else None)"
| "bi_own RightSide up (BiunionNode l (InDeferred r) f out op) =
     (if is_parent up then Some (BiunionNode l (InAsync r [up]) f out op) else None)"
| "bi_own _ _ _ = None"

text \<open>\<open>Get\<close>: a sender of a \<open>Sync\<close> input; \<open>Add\<close>: a sink of a \<open>Sync\<close> output.\<close>

fun get_sender :: "('d, 's, 'r, 'k) in_edge \<Rightarrow> (waking_sender \<times> ('d, 's, 'r, 'k) in_edge) option" where
  "get_sender (InSync x) = (case waking_mint (si_edge x) of (tx, rx) \<Rightarrow> Some (tx, InSync (x\<lparr>si_edge := rx\<rparr>)))"
| "get_sender _ = None"

fun line_get :: "('d, 's, 'r, 'k) poll_builder \<Rightarrow> (waking_sender \<times> ('d, 's, 'r, 'k) poll_builder) option" where
  "line_get (LineNode i f out op) = map_option (\<lambda>(tx, i'). (tx, LineNode i' f out op)) (get_sender i)"
| "line_get _ = None"

fun bi_get :: "side \<Rightarrow> ('d, 's, 'r, 'k) poll_builder \<Rightarrow> (waking_sender \<times> ('d, 's, 'r, 'k) poll_builder) option" where
  "bi_get LeftSide (BiunionNode l r f out op) = map_option (\<lambda>(tx, l'). (tx, BiunionNode l' r f out op)) (get_sender l)"
| "bi_get RightSide (BiunionNode l r f out op) = map_option (\<lambda>(tx, r'). (tx, BiunionNode l r' f out op)) (get_sender r)"
| "bi_get _ _ = None"

fun line_add :: "'k \<Rightarrow> ('d, 's, 'r, 'k) poll_builder \<Rightarrow> ('d, 's, 'r, 'k) poll_builder option" where
  "line_add k (LineNode i f (OSync fo) op) = Some (LineNode i f (OSync (fanout_add k fo)) op)"
| "line_add k _ = None"

fun bi_add :: "'k \<Rightarrow> ('d, 's, 'r, 'k) poll_builder \<Rightarrow> ('d, 's, 'r, 'k) poll_builder option" where
  "bi_add k (BiunionNode l r f (OSync fo) op) = Some (BiunionNode l r f (OSync (fanout_add k fo)) op)"
| "bi_add k _ = None"

section \<open>What is built\<close>

datatype pollable = LinePhase nat line_phase | BiPhase nat bi_phase

text \<open>What an input phase reads, what an output phase writes; channels by number.\<close>

datatype ('d, 's) inlet = Bridge "('d, 's) waking_receiver" | Channels "nat list"

datatype 'k poll_sink = ToChannel nat | ToNull | ToSink 'k

datatype ('k, 'm) node_output = Fan "('k, 'm) fanout" | One "('k poll_sink, 'm) single"

record ('d, 's, 'r, 'k) line_node =
  gl_inlet :: "('d, 's) inlet"
  gl_wakers :: line_wakers
  gl_shared :: "('s, 'r, ('k, ('d, 's) message) node_output) line_shared"

record ('d, 's, 'r, 'k) bi_node =
  gb_inlet :: "side \<Rightarrow> ('d, 's) inlet"
  gb_wakers :: bi_wakers
  gb_shared :: "('s, 'r, ('k, ('d, 's) message) node_output) bi_shared"

datatype ('d, 's, 'r, 'k) graph_node = GLine "('d, 's, 'r, 'k) line_node" | GBi "('d, 's, 'r, 'k) bi_node"

record ('d, 's, 'r, 'k, 'w) built =
  bt_graph :: "pollable graph"
  bt_channels :: "('d, 's) poll_shared list"
  bt_nodes :: "('d, 's, 'r, 'k) graph_node list"
  bt_wakes :: "waker list"
  bt_sinks :: 'w

subsection \<open>The outputs as sinks of the built world\<close>

definition outer_sink ::
  "('k, ('d, 's) message, 'w) sink_ops \<Rightarrow> ('k, ('d, 's) message, ('d, 's, 'r, 'k, 'w) built) sink_ops" where
  "outer_sink so =
     \<lparr>op_try_push = (\<lambda>k m w. let (q, v) = op_try_push so k m (bt_sinks w) in (q, w\<lparr>bt_sinks := v\<rparr>)),
      op_push = (\<lambda>k m w. map_option (\<lambda>(q, v). (q, w\<lparr>bt_sinks := v\<rparr>)) (op_push so k m (bt_sinks w))),
      op_close = (\<lambda>k w. let (q, v) = op_close so k (bt_sinks w) in (q, w\<lparr>bt_sinks := v\<rparr>)),
      op_schedule = (\<lambda>wk k w. w\<lparr>bt_sinks := op_schedule so wk k (bt_sinks w)\<rparr>)\<rparr>"

text \<open>A channel's sender; its wakes are local. A number past the channels is no edge. Nothing blocks in a poll sink: the trait has no \<open>push\<close>, and the field
  of the record is never used.\<close>

definition graph_sink ::
  "('k, ('d, 's) message, 'w) sink_ops \<Rightarrow> ('k poll_sink, ('d, 's) message, ('d, 's, 'r, 'k, 'w) built) sink_ops" where
  "graph_sink so =
     \<lparr>op_try_push = (\<lambda>e m w. case e of
          ToChannel c \<Rightarrow>
            (if c < length (bt_channels w)
             then let (q, ch, wk) = pe_try_push m (bt_channels w ! c)
                  in (q, w\<lparr>bt_channels := (bt_channels w)[c := ch], bt_wakes := bt_wakes w @ wk\<rparr>)
             else (Err Closed, w))
        | ToNull \<Rightarrow> (null_try_push m, w)
        | ToSink k \<Rightarrow> op_try_push (outer_sink so) k m w),
      op_push = (\<lambda>e m w. None),
      op_close = (\<lambda>e w. case e of
          ToChannel c \<Rightarrow>
            (let (q, ch, wk) = pe_close (bt_channels w ! c)
             in (q, w\<lparr>bt_channels := (bt_channels w)[c := ch], bt_wakes := bt_wakes w @ wk\<rparr>))
        | ToNull \<Rightarrow> (null_close, w)
        | ToSink k \<Rightarrow> op_close (outer_sink so) k w),
      op_schedule = (\<lambda>wk e w. case e of
          ToChannel c \<Rightarrow> w\<lparr>bt_channels := (bt_channels w)[c := pe_schedule wk (bt_channels w ! c)]\<rparr>
        | ToNull \<Rightarrow> w
        | ToSink k \<Rightarrow> op_schedule (outer_sink so) wk k w)\<rparr>"

definition node_rotate ::
  "('k, ('d, 's) message, 'w) sink_ops \<Rightarrow>
   (('d, 's) message, ('k, ('d, 's) message) node_output, ('d, 's, 'r, 'k, 'w) built) rotate_ops" where
  "node_rotate so =
     \<lparr>ro_suspended = (\<lambda>x. case x of Fan f \<Rightarrow> fanout_suspended f
                                | One g \<Rightarrow> single_suspended g),
      ro_retry = (\<lambda>x w. case x of
          Fan f \<Rightarrow> (let (q, f', w') = ro_retry (fanout_output (outer_sink so)) f w in (q, Fan f', w'))
        | One g \<Rightarrow> (let (q, g', w') = ro_retry (single_output (graph_sink so)) g w in (q, One g', w'))),
      ro_rotate = (\<lambda>m x w. case x of
          Fan f \<Rightarrow> (let (q, f', w') = ro_rotate (fanout_output (outer_sink so)) m f w in (q, Fan f', w'))
        | One g \<Rightarrow> (let (q, g', w') = ro_rotate (single_output (graph_sink so)) m g w in (q, One g', w'))),
      ro_close = (\<lambda>x w. case x of
          Fan f \<Rightarrow> (let (q, f', w') = ro_close (fanout_output (outer_sink so)) f w in (q, Fan f', w'))
        | One g \<Rightarrow> (let (q, g', w') = ro_close (single_output (graph_sink so)) g w in (q, One g', w'))),
      ro_schedule = (\<lambda>wk x w. case x of
          Fan f \<Rightarrow> ro_schedule (fanout_output (outer_sink so)) wk f w
        | One g \<Rightarrow> ro_schedule (single_output (graph_sink so)) wk g w)\<rparr>"

section \<open>Building\<close>

text \<open>The \<open>?\<close> of Rust, over results that may not type check.\<close>

definition and_then ::
  "('a res \<times> 'w) option \<Rightarrow> ('a \<Rightarrow> 'w \<Rightarrow> ('b res \<times> 'w) option) \<Rightarrow> ('b res \<times> 'w) option" where
  "and_then x f = (case x of None \<Rightarrow> None | Some (Err e, w) \<Rightarrow> Some (Err e, w) | Some (Ok a, w) \<Rightarrow> f a w)"

text \<open>The node's work and output slots are made here, behind its parents'.\<close>

definition assemble_line ::
  "('k, ('d, 's) message, 'w) sink_ops \<Rightarrow> (line_wakers \<Rightarrow> 'r) \<Rightarrow> slot \<Rightarrow> ('d, 's) inlet \<Rightarrow>
   ('k, ('d, 's) message) node_output \<Rightarrow> budget \<Rightarrow> ('d, 's, 'r, 'k, 'w) built \<Rightarrow> ('d, 's, 'r, 'k, 'w) built" where
  "assemble_line so factory slot inlet out bg w =
     (let (work, g1) = graph_slot (bt_graph w);
          (outs, g2) = graph_slot g1;
          wakers = \<lparr>lw_input = cx_local (sl_cx slot), lw_work = sl_cx work, lw_output = cx_local (sl_cx outs)\<rparr>;
          (shared, w1) = line_phases (factory wakers) out (cx_local (sl_cx outs)) bg (node_rotate so) (w\<lparr>bt_graph := g2\<rparr>);
          n = length (bt_nodes w1)
      in w1\<lparr>bt_nodes := bt_nodes w1 @ [GLine \<lparr>gl_inlet = inlet, gl_wakers = wakers, gl_shared = shared\<rparr>],
            bt_graph := graph_add outs (LinePhase n LOutput) (graph_add work (LinePhase n LWork)
              (graph_add slot (LinePhase n LInput) (bt_graph w1)))\<rparr>)"

definition assemble_bi ::
  "('k, ('d, 's) message, 'w) sink_ops \<Rightarrow> (bi_wakers \<Rightarrow> 'r) \<Rightarrow> (side \<Rightarrow> slot) \<Rightarrow> (side \<Rightarrow> ('d, 's) inlet) \<Rightarrow>
   ('k, ('d, 's) message) node_output \<Rightarrow> budget \<Rightarrow> ('d, 's, 'r, 'k, 'w) built \<Rightarrow> ('d, 's, 'r, 'k, 'w) built" where
  "assemble_bi so factory slots inlets out bg w =
     (let (work, g1) = graph_slot (bt_graph w);
          (outs, g2) = graph_slot g1;
          wakers = \<lparr>bw_input = (\<lambda>sd. cx_local (sl_cx (slots sd))), bw_work = sl_cx work, bw_output = cx_local (sl_cx outs)\<rparr>;
          (shared, w1) = bi_phases (factory wakers) out (cx_local (sl_cx outs)) bg (node_rotate so) (w\<lparr>bt_graph := g2\<rparr>);
          n = length (bt_nodes w1)
      in w1\<lparr>bt_nodes := bt_nodes w1 @ [GBi \<lparr>gb_inlet = inlets, gb_wakers = wakers, gb_shared = shared\<rparr>],
            bt_graph := graph_add outs (BiPhase n BOutput) (graph_add work (BiPhase n BWork)
              (graph_add (slots RightSide) (BiPhase n (BInput RightSide))
                (graph_add (slots LeftSide) (BiPhase n (BInput LeftSide)) (bt_graph w1))))\<rparr>)"

text \<open>\<open>GraphBuilder::build\<close> (no edge) takes the stored output, \<open>AsyncParent::build\<close> the edge it is given.\<close>

fun output_for :: "nat option \<Rightarrow> ('k, 'm) out_edge \<Rightarrow> ('k, 'm) node_output option" where
  "output_for (Some c) ODeferred = Some (One (single_from (ToChannel c)))"
| "output_for (Some c) _ = None"
| "output_for None ODeferred = Some (One (single_from ToNull))"
| "output_for None (OSync f) = Some (Fan f)"
| "output_for None (ODirect k) = Some (One (single_from (ToSink k)))"

definition bi_output_for :: "nat option \<Rightarrow> ('k, 'm) out_edge \<Rightarrow> ('k, 'm) node_output option" where
  "bi_output_for e out = (case out of ODirect k \<Rightarrow> None | _ \<Rightarrow> output_for e out)"

text \<open>The impls of a line, and of a biunion: the inputs are readied, then the node is assembled.\<close>

definition line_builds ::
  "('k, ('d, 's) message, 'w) sink_ops \<Rightarrow> nat option \<Rightarrow> (line_wakers \<Rightarrow> 'r) \<Rightarrow> ('k, ('d, 's) message) out_edge \<Rightarrow> line_options \<Rightarrow>
     (('d, 's, 'r, 'k, 'w) built \<Rightarrow> ((slot \<times> ('d, 's) inlet) res \<times> ('d, 's, 'r, 'k, 'w) built) option) \<Rightarrow>
     ('d, 's, 'r, 'k, 'w) built \<Rightarrow> (unit res \<times> ('d, 's, 'r, 'k, 'w) built) option" where
  "line_builds so e factory out op ready w =
     (case output_for e out of
        None \<Rightarrow> None
      | Some x \<Rightarrow>
          and_then (ready w) (\<lambda>(slot, inlet) w1. Some (Ok (), assemble_line so factory slot inlet x (lo_budget op) w1)))"

definition bi_builds ::
  "('k, ('d, 's) message, 'w) sink_ops \<Rightarrow> nat option \<Rightarrow> (bi_wakers \<Rightarrow> 'r) \<Rightarrow> ('k, ('d, 's) message) out_edge \<Rightarrow> bi_options \<Rightarrow>
     (('d, 's, 'r, 'k, 'w) built \<Rightarrow> ((slot \<times> ('d, 's) inlet) res \<times> ('d, 's, 'r, 'k, 'w) built) option) \<Rightarrow>
     (('d, 's, 'r, 'k, 'w) built \<Rightarrow> ((slot \<times> ('d, 's) inlet) res \<times> ('d, 's, 'r, 'k, 'w) built) option) \<Rightarrow>
     ('d, 's, 'r, 'k, 'w) built \<Rightarrow> (unit res \<times> ('d, 's, 'r, 'k, 'w) built) option" where
  "bi_builds so e factory out op left_ready right_ready w =
     (case bi_output_for e out of
        None \<Rightarrow> None
      | Some x \<Rightarrow>
          and_then (left_ready w) (\<lambda>(sl, il) w1.
            and_then (right_ready w1) (\<lambda>(sr, ir) w2.
              Some (Ok (), assemble_bi so factory (case_side sl sr) (case_side il ir) x (bi_budget op) w2))))"

fun build_node ::
  "('k, ('d, 's) message, 'w) sink_ops \<Rightarrow> nat option \<Rightarrow> ('d, 's, 'r, 'k) poll_builder \<Rightarrow> ('d, 's, 'r, 'k, 'w) built \<Rightarrow>
     (unit res \<times> ('d, 's, 'r, 'k, 'w) built) option"
and ready_input ::
  "('k, ('d, 's) message, 'w) sink_ops \<Rightarrow> bound \<Rightarrow> ('d, 's, 'r, 'k) in_edge \<Rightarrow> ('d, 's, 'r, 'k, 'w) built \<Rightarrow>
     ((slot \<times> ('d, 's) inlet) res \<times> ('d, 's, 'r, 'k, 'w) built) option"
and build_parents ::
  "('k, ('d, 's) message, 'w) sink_ops \<Rightarrow> waker \<Rightarrow> bound \<Rightarrow> ('d, 's, 'r, 'k) poll_builder list \<Rightarrow> nat list \<Rightarrow>
     ('d, 's, 'r, 'k, 'w) built \<Rightarrow> (nat list res \<times> ('d, 's, 'r, 'k, 'w) built) option" where
  "build_node so e (LineNode i f out op) w = line_builds so e f out op (\<lambda>v. ready_input so (lo_bound op) i v) w"
| "build_node so e (BiunionNode l r f out op) w =
     bi_builds so e f out op (\<lambda>v. ready_input so (bi_bound op LeftSide) l v) (\<lambda>v. ready_input so (bi_bound op RightSide) r v) w"
| "ready_input so b (InDeferred r) w = None"
| "ready_input so b (InSync x) w = Some (Ok (graph_claim (si_reserved x), Bridge (si_edge x)), w)"
| "ready_input so b (InAsync r ps) w =
     (let slot = graph_claim r in
      and_then (build_parents so (cx_local (sl_cx slot)) b ps [] w) (\<lambda>cs w1. Some (Ok (slot, Channels cs), w1)))"
| "build_parents so v b [] cs w = Some (Ok cs, w)"
| "build_parents so v b (p # ps) cs w =
     (let c = length (bt_channels w) in
      and_then (build_node so (Some c) p (w\<lparr>bt_channels := bt_channels w @ [channel v b]\<rparr>))
        (\<lambda>_ w1. build_parents so v b ps (cs @ [c]) w1))"

text \<open>The builders of a thread in order, on a graph of its reservations.\<close>

fun build_added ::
  "('k, ('d, 's) message, 'w) sink_ops \<Rightarrow> ('d, 's, 'r, 'k) poll_builder list \<Rightarrow> ('d, 's, 'r, 'k, 'w) built \<Rightarrow>
     (unit res \<times> ('d, 's, 'r, 'k, 'w) built) option" where
  "build_added so [] w = Some (Ok (), w)"
| "build_added so (b # bs) w = and_then (build_node so None b w) (\<lambda>_ w1. build_added so bs w1)"

definition built_empty :: "nat \<Rightarrow> 'w \<Rightarrow> ('d, 's, 'r, 'k, 'w) built" where
  "built_empty len v = \<lparr>bt_graph = graph_local len, bt_channels = [], bt_nodes = [], bt_wakes = [], bt_sinks = v\<rparr>"

end
