(* ===== verification/Poll_Wiring.thy ===== *)
theory Poll_Wiring
  imports Poll_Builder "HOL-Library.Multiset"
begin

text \<open>
  What the builders of a poll thread wire: however nodes are minted, resolved, owned and added, the built
  graph has every phase of every node at the id its wakers wake, and every channel between one output
  phase and one input phase, each woken by the other.
\<close>

section \<open>Reading the built world\<close>

definition phase_at :: "('d, 's, 'r, 'k, 'w) built \<Rightarrow> waker \<Rightarrow> pollable option" where
  "phase_at w i = (if i < length (bt_graph w) then map_option fst (bt_graph w ! i) else None)"

fun inlet_channels :: "('d, 's) inlet \<Rightarrow> nat list" where
  "inlet_channels (Channels cs) = cs"
| "inlet_channels (Bridge rx) = []"

fun inlet_wakes :: "waker \<Rightarrow> ('d, 's) inlet \<Rightarrow> bool" where
  "inlet_wakes i (Bridge rx) = (wr_waker rx = i)"
| "inlet_wakes i (Channels cs) = True"

fun output_channel :: "('k, 'm) node_output \<Rightarrow> nat option" where
  "output_channel (Fan f) = None"
| "output_channel (One g) = (case sg_edge g of ToChannel c \<Rightarrow> Some c | _ \<Rightarrow> None)"

fun node_inlets :: "('d, 's, 'r, 'k) graph_node \<Rightarrow> (waker \<times> ('d, 's) inlet) list" where
  "node_inlets (GLine l) = [(lw_input (gl_wakers l), gl_inlet l)]"
| "node_inlets (GBi b) = [(bw_input (gb_wakers b) LeftSide, gb_inlet b LeftSide), (bw_input (gb_wakers b) RightSide, gb_inlet b RightSide)]"

fun node_target :: "('d, 's, 'r, 'k) graph_node \<Rightarrow> nat option" where
  "node_target (GLine l) = output_channel (pl_output (gl_shared l))"
| "node_target (GBi b) = output_channel (bs_output (gb_shared b))"

fun node_output_waker :: "('d, 's, 'r, 'k) graph_node \<Rightarrow> waker" where
  "node_output_waker (GLine l) = lw_output (gl_wakers l)"
| "node_output_waker (GBi b) = bw_output (gb_wakers b)"

text \<open>The phases of node \<open>n\<close>, with the ids its wakers wake.\<close>

fun node_places :: "nat \<Rightarrow> ('d, 's, 'r, 'k) graph_node \<Rightarrow> (waker \<times> pollable) list" where
  "node_places n (GLine l) =
     [(lw_input (gl_wakers l), LinePhase n LInput), (cx_local (lw_work (gl_wakers l)), LinePhase n LWork),
      (lw_output (gl_wakers l), LinePhase n LOutput)]"
| "node_places n (GBi b) =
     [(bw_input (gb_wakers b) LeftSide, BiPhase n (BInput LeftSide)),
      (bw_input (gb_wakers b) RightSide, BiPhase n (BInput RightSide)),
      (cx_local (bw_work (gb_wakers b)), BiPhase n BWork), (bw_output (gb_wakers b), BiPhase n BOutput)]"

text \<open>The phase at \<open>i\<close> reads, or writes, the channel \<open>c\<close>.\<close>

fun phase_reads :: "('d, 's, 'r, 'k, 'w) built \<Rightarrow> pollable \<Rightarrow> nat list" where
  "phase_reads w (LinePhase n LInput) = (case bt_nodes w ! n of GLine l \<Rightarrow> inlet_channels (gl_inlet l) | GBi b \<Rightarrow> [])"
| "phase_reads w (BiPhase n (BInput sd)) = (case bt_nodes w ! n of GBi b \<Rightarrow> inlet_channels (gb_inlet b sd) | GLine l \<Rightarrow> [])"
| "phase_reads w _ = []"

fun phase_writes :: "('d, 's, 'r, 'k, 'w) built \<Rightarrow> pollable \<Rightarrow> nat option" where
  "phase_writes w (LinePhase n LOutput) = node_target (bt_nodes w ! n)"
| "phase_writes w (BiPhase n BOutput) = node_target (bt_nodes w ! n)"
| "phase_writes w _ = None"

definition reads_channel :: "('d, 's, 'r, 'k, 'w) built \<Rightarrow> waker \<Rightarrow> nat \<Rightarrow> bool" where
  "reads_channel w i c \<longleftrightarrow> (\<exists>ph. phase_at w i = Some ph \<and> c \<in> set (phase_reads w ph))"

definition writes_channel :: "('d, 's, 'r, 'k, 'w) built \<Rightarrow> waker \<Rightarrow> nat \<Rightarrow> bool" where
  "writes_channel w i c \<longleftrightarrow> (\<exists>ph. phase_at w i = Some ph \<and> phase_writes w ph = Some c)"

definition wired :: "('d, 's, 'r, 'k, 'w) built \<Rightarrow> bool" where
  "wired w \<longleftrightarrow>
     (\<forall>i ph. phase_at w i = Some ph \<longleftrightarrow> (\<exists>n < length (bt_nodes w). (i, ph) \<in> set (node_places n (bt_nodes w ! n)))) \<and>
     (\<forall>n < length (bt_nodes w). \<forall>(i, inl) \<in> set (node_inlets (bt_nodes w ! n)). inlet_wakes i inl) \<and>
     (\<forall>c < length (bt_channels w).
        (\<forall>i. reads_channel w i c \<longleftrightarrow> i = pe_consumer (bt_channels w ! c)) \<and>
        (\<forall>i. writes_channel w i c \<longleftrightarrow> pe_producer (bt_channels w ! c) = Some i) \<and>
        pe_producer (bt_channels w ! c) \<noteq> None)"

text \<open>Which input is fed by which node, a node being named by its first input.\<close>

definition flow :: "('d, 's, 'r, 'k, 'w) built \<Rightarrow> (waker \<times> waker) set" where
  "flow w = {(pe_consumer (bt_channels w ! c), fst (hd (node_inlets nd))) |c nd. nd \<in> set (bt_nodes w) \<and> node_target nd = Some c}"

section \<open>The invariant of a build\<close>

text \<open>\<open>P\<close> are the channels whose reader is still to be placed, \<open>U\<close> those whose writer is.\<close>

definition build_inv :: "('d, 's, 'r, 'k, 'w) built \<Rightarrow> nat set \<Rightarrow> nat set \<Rightarrow> bool" where
  "build_inv w P U \<longleftrightarrow>
     P \<subseteq> {..<length (bt_channels w)} \<and> U \<subseteq> {..<length (bt_channels w)} \<and>
     (\<forall>i ph. phase_at w i = Some ph \<longleftrightarrow> (\<exists>n < length (bt_nodes w). (i, ph) \<in> set (node_places n (bt_nodes w ! n)))) \<and>
     (\<forall>nd \<in> set (bt_nodes w). \<forall>i inl. (i, inl) \<in> set (node_inlets nd) \<longrightarrow> inlet_wakes i inl \<and>
        (\<forall>c \<in> set (inlet_channels inl). c < length (bt_channels w) \<and> pe_consumer (bt_channels w ! c) = i \<and> c \<notin> P)) \<and>
     (\<forall>c < length (bt_channels w). c \<notin> P \<longrightarrow>
        (\<exists>nd \<in> set (bt_nodes w). \<exists>i inl. (i, inl) \<in> set (node_inlets nd) \<and> c \<in> set (inlet_channels inl))) \<and>
     (\<forall>nd \<in> set (bt_nodes w). \<forall>c. node_target nd = Some c \<longrightarrow> c < length (bt_channels w) \<and>
        pe_producer (bt_channels w ! c) = Some (node_output_waker nd) \<and> c \<notin> U) \<and>
     (\<forall>c < length (bt_channels w). c \<notin> U \<longrightarrow> (\<exists>nd \<in> set (bt_nodes w). node_target nd = Some c))"

lemma reads_iff:
  assumes "build_inv w P U"
  shows "reads_channel w i c \<longleftrightarrow> (\<exists>nd \<in> set (bt_nodes w). \<exists>inl. (i, inl) \<in> set (node_inlets nd) \<and> c \<in> set (inlet_channels inl))"
proof -
  have at: "phase_at w i = Some ph \<longleftrightarrow> (\<exists>n < length (bt_nodes w). (i, ph) \<in> set (node_places n (bt_nodes w ! n)))" for ph
    using assms unfolding build_inv_def by blast
  have one: "(\<exists>ph. (i, ph) \<in> set (node_places n (bt_nodes w ! n)) \<and> c \<in> set (phase_reads w ph)) \<longleftrightarrow>
      (\<exists>inl. (i, inl) \<in> set (node_inlets (bt_nodes w ! n)) \<and> c \<in> set (inlet_channels inl))" for n
    by (cases "bt_nodes w ! n") auto
  have "reads_channel w i c \<longleftrightarrow>
      (\<exists>n < length (bt_nodes w). \<exists>ph. (i, ph) \<in> set (node_places n (bt_nodes w ! n)) \<and> c \<in> set (phase_reads w ph))"
    unfolding reads_channel_def at by blast
  also have "\<dots> \<longleftrightarrow> (\<exists>n < length (bt_nodes w). \<exists>inl. (i, inl) \<in> set (node_inlets (bt_nodes w ! n)) \<and> c \<in> set (inlet_channels inl))"
    unfolding one ..
  also have "\<dots> \<longleftrightarrow> (\<exists>nd \<in> set (bt_nodes w). \<exists>inl. (i, inl) \<in> set (node_inlets nd) \<and> c \<in> set (inlet_channels inl))"
    by (metis in_set_conv_nth)
  finally show ?thesis .
qed

lemma writes_iff:
  assumes "build_inv w P U"
  shows "writes_channel w i c \<longleftrightarrow> (\<exists>nd \<in> set (bt_nodes w). node_target nd = Some c \<and> node_output_waker nd = i)"
proof -
  have at: "phase_at w i = Some ph \<longleftrightarrow> (\<exists>n < length (bt_nodes w). (i, ph) \<in> set (node_places n (bt_nodes w ! n)))" for ph
    using assms unfolding build_inv_def by blast
  have one: "(\<exists>ph. (i, ph) \<in> set (node_places n (bt_nodes w ! n)) \<and> phase_writes w ph = Some c) \<longleftrightarrow>
      node_target (bt_nodes w ! n) = Some c \<and> node_output_waker (bt_nodes w ! n) = i" for n
    by (cases "bt_nodes w ! n") auto
  have "writes_channel w i c \<longleftrightarrow>
      (\<exists>n < length (bt_nodes w). \<exists>ph. (i, ph) \<in> set (node_places n (bt_nodes w ! n)) \<and> phase_writes w ph = Some c)"
    unfolding writes_channel_def at by blast
  also have "\<dots> \<longleftrightarrow> (\<exists>n < length (bt_nodes w). node_target (bt_nodes w ! n) = Some c \<and> node_output_waker (bt_nodes w ! n) = i)"
    unfolding one ..
  also have "\<dots> \<longleftrightarrow> (\<exists>nd \<in> set (bt_nodes w). node_target nd = Some c \<and> node_output_waker nd = i)"
    by (metis in_set_conv_nth)
  finally show ?thesis .
qed

lemma build_inv_wired:
  assumes "build_inv w {} {}"
  shows "wired w"
proof -
  from assms have
    1: "\<And>i ph. phase_at w i = Some ph \<longleftrightarrow> (\<exists>n < length (bt_nodes w). (i, ph) \<in> set (node_places n (bt_nodes w ! n)))" and
    2: "\<And>nd i inl. nd \<in> set (bt_nodes w) \<Longrightarrow> (i, inl) \<in> set (node_inlets nd) \<Longrightarrow> inlet_wakes i inl \<and>
        (\<forall>c \<in> set (inlet_channels inl). pe_consumer (bt_channels w ! c) = i)" and
    3: "\<And>c. c < length (bt_channels w) \<Longrightarrow>
        \<exists>nd \<in> set (bt_nodes w). \<exists>i inl. (i, inl) \<in> set (node_inlets nd) \<and> c \<in> set (inlet_channels inl)" and
    4: "\<And>nd c. nd \<in> set (bt_nodes w) \<Longrightarrow> node_target nd = Some c \<Longrightarrow>
        pe_producer (bt_channels w ! c) = Some (node_output_waker nd)" and
    5: "\<And>c. c < length (bt_channels w) \<Longrightarrow> \<exists>nd \<in> set (bt_nodes w). node_target nd = Some c"
    unfolding build_inv_def by blast+
  have r: "reads_channel w i c \<longleftrightarrow> i = pe_consumer (bt_channels w ! c)" if "c < length (bt_channels w)" for i c
    using 2 3 [OF that] unfolding reads_iff [OF assms] by metis
  have wr: "writes_channel w i c \<longleftrightarrow> pe_producer (bt_channels w ! c) = Some i" if "c < length (bt_channels w)" for i c
    using 4 5 [OF that] unfolding writes_iff [OF assms] by (metis option.inject)
  have "pe_producer (bt_channels w ! c) \<noteq> None" if "c < length (bt_channels w)" for c
    using 4 5 [OF that] by fastforce
  with 1 2 r wr nth_mem [of _ "bt_nodes w"] show ?thesis unfolding wired_def by blast
qed

lemma phase_at_channels [simp]: "phase_at (w\<lparr>bt_channels := x\<rparr>) i = phase_at w i"
  by (simp add: phase_at_def)

lemma build_inv_channel:
  assumes "build_inv w P U"
  shows "build_inv (w\<lparr>bt_channels := bt_channels w @ [ch]\<rparr>) (insert (length (bt_channels w)) P) (insert (length (bt_channels w)) U)"
proof -
  let ?L = "length (bt_channels w)"
  from assms have
    0: "P \<subseteq> {..<?L}" "U \<subseteq> {..<?L}" and
    1: "\<And>i ph. phase_at w i = Some ph \<longleftrightarrow> (\<exists>n < length (bt_nodes w). (i, ph) \<in> set (node_places n (bt_nodes w ! n)))" and
    2: "\<And>nd i inl. nd \<in> set (bt_nodes w) \<Longrightarrow> (i, inl) \<in> set (node_inlets nd) \<Longrightarrow> inlet_wakes i inl \<and>
        (\<forall>c \<in> set (inlet_channels inl). c < ?L \<and> pe_consumer (bt_channels w ! c) = i \<and> c \<notin> P)" and
    3: "\<And>c. c < ?L \<Longrightarrow> c \<notin> P \<Longrightarrow>
        \<exists>nd \<in> set (bt_nodes w). \<exists>i inl. (i, inl) \<in> set (node_inlets nd) \<and> c \<in> set (inlet_channels inl)" and
    4: "\<And>nd c. nd \<in> set (bt_nodes w) \<Longrightarrow> node_target nd = Some c \<Longrightarrow>
        c < ?L \<and> pe_producer (bt_channels w ! c) = Some (node_output_waker nd) \<and> c \<notin> U" and
    5: "\<And>c. c < ?L \<Longrightarrow> c \<notin> U \<Longrightarrow> \<exists>nd \<in> set (bt_nodes w). node_target nd = Some c"
    unfolding build_inv_def by blast+
  have "inlet_wakes i inl \<and> (\<forall>c \<in> set (inlet_channels inl).
      c < Suc ?L \<and> pe_consumer ((bt_channels w @ [ch]) ! c) = i \<and> c \<notin> insert ?L P)"
    if "nd \<in> set (bt_nodes w)" "(i, inl) \<in> set (node_inlets nd)" for nd i inl
    using 2 [OF that] by (auto simp: nth_append less_Suc_eq)
  moreover have "c < Suc ?L \<and> pe_producer ((bt_channels w @ [ch]) ! c) = Some (node_output_waker nd) \<and> c \<notin> insert ?L U"
    if "nd \<in> set (bt_nodes w)" "node_target nd = Some c" for nd c
    using 4 [OF that] by (auto simp: nth_append less_Suc_eq)
  moreover have "\<exists>nd \<in> set (bt_nodes w). \<exists>i inl. (i, inl) \<in> set (node_inlets nd) \<and> c \<in> set (inlet_channels inl)"
    if "c < Suc ?L" "c \<notin> insert ?L P" for c
    using that 3 by (auto simp: less_Suc_eq)
  moreover have "\<exists>nd \<in> set (bt_nodes w). node_target nd = Some c" if "c < Suc ?L" "c \<notin> insert ?L U" for c
    using that 5 by (auto simp: less_Suc_eq)
  moreover have "insert ?L P \<subseteq> {..<Suc ?L}" "insert ?L U \<subseteq> {..<Suc ?L}" using 0 by auto
  ultimately show ?thesis using 1 unfolding build_inv_def by simp
qed

lemma flow_channel:
  assumes "build_inv w P U"
  shows "flow (w\<lparr>bt_channels := bt_channels w @ [ch]\<rparr>) = flow w"
proof -
  have "\<And>nd c. nd \<in> set (bt_nodes w) \<Longrightarrow> node_target nd = Some c \<Longrightarrow> (bt_channels w @ [ch]) ! c = bt_channels w ! c"
    using assms unfolding build_inv_def by (metis nth_append)
  then show ?thesis by (auto simp: flow_def) metis+
qed

text \<open>A node is placed: its channels get their reader and its output gets its writer.\<close>

lemma build_inv_install:
  assumes inv: "build_inv w (P \<union> R) (U \<union> set_option (node_target nd))"
    and R: "R = (\<Union>(i, inl) \<in> set (node_inlets nd). set (inlet_channels inl))"
    and fresh: "P \<inter> R = {}" "U \<inter> set_option (node_target nd) = {}"
    and inl: "\<And>i inl. (i, inl) \<in> set (node_inlets nd) \<Longrightarrow> inlet_wakes i inl \<and>
        (\<forall>c \<in> set (inlet_channels inl). c < length (bt_channels w) \<and> pe_consumer (bt_channels w ! c) = i)"
    and at: "\<And>i ph. phase_at w' i = Some ph \<longleftrightarrow> phase_at w i = Some ph \<or> (i, ph) \<in> set (node_places (length (bt_nodes w)) nd)"
    and nodes: "bt_nodes w' = bt_nodes w @ [nd]"
    and ch: "bt_channels w' = (case node_target nd of None \<Rightarrow> bt_channels w
        | Some c \<Rightarrow> (bt_channels w)[c := pe_schedule (node_output_waker nd) (bt_channels w ! c)])"
  shows "build_inv w' P U"
proof -
  from inv have
    0: "P \<union> R \<subseteq> {..<length (bt_channels w)}" "U \<union> set_option (node_target nd) \<subseteq> {..<length (bt_channels w)}" and
    1: "\<And>i ph. phase_at w i = Some ph \<longleftrightarrow> (\<exists>n < length (bt_nodes w). (i, ph) \<in> set (node_places n (bt_nodes w ! n)))" and
    2: "\<And>nd i inl. nd \<in> set (bt_nodes w) \<Longrightarrow> (i, inl) \<in> set (node_inlets nd) \<Longrightarrow> inlet_wakes i inl \<and>
        (\<forall>c \<in> set (inlet_channels inl). c < length (bt_channels w) \<and> pe_consumer (bt_channels w ! c) = i \<and> c \<notin> P \<union> R)" and
    3: "\<And>c. c < length (bt_channels w) \<Longrightarrow> c \<notin> P \<union> R \<Longrightarrow>
        \<exists>nd \<in> set (bt_nodes w). \<exists>i inl. (i, inl) \<in> set (node_inlets nd) \<and> c \<in> set (inlet_channels inl)" and
    4: "\<And>nd' c. nd' \<in> set (bt_nodes w) \<Longrightarrow> node_target nd' = Some c \<Longrightarrow> c < length (bt_channels w) \<and>
        pe_producer (bt_channels w ! c) = Some (node_output_waker nd') \<and> c \<notin> U \<union> set_option (node_target nd)" and
    5: "\<And>c. c < length (bt_channels w) \<Longrightarrow> c \<notin> U \<union> set_option (node_target nd) \<Longrightarrow>
        \<exists>nd \<in> set (bt_nodes w). node_target nd = Some c"
    unfolding build_inv_def by blast+
  have len: "length (bt_channels w') = length (bt_channels w)" by (simp add: ch split: option.splits)
  have cons: "pe_consumer (bt_channels w' ! c) = pe_consumer (bt_channels w ! c)" for c
    by (cases "node_target nd"; cases "node_target nd = Some c"; cases "c < length (bt_channels w)")
      (simp_all add: ch pe_schedule_def list_update_beyond)
  have prod: "pe_producer (bt_channels w' ! c) = pe_producer (bt_channels w ! c)" if "node_target nd \<noteq> Some c" for c
    using that by (cases "node_target nd") (auto simp: ch)
  have own: "pe_producer (bt_channels w' ! c) = Some (node_output_waker nd)" if "node_target nd = Some c" for c
    using that 0 by (simp add: ch pe_schedule_def)
  show ?thesis unfolding build_inv_def len nodes
  proof (intro conjI allI ballI impI)
    show "P \<subseteq> {..<length (bt_channels w)}" "U \<subseteq> {..<length (bt_channels w)}" using 0 by auto
  next
    fix i ph
    show "phase_at w' i = Some ph \<longleftrightarrow> (\<exists>n < length (bt_nodes w @ [nd]). (i, ph) \<in> set (node_places n ((bt_nodes w @ [nd]) ! n)))"
      unfolding at 1 length_append list.size One_nat_def add_Suc_right add_0_right Ex_less_Suc
      by (simp add: nth_append del: node_places.simps cong: conj_cong) blast
  next
    fix nd' i inl' assume nd': "nd' \<in> set (bt_nodes w @ [nd])" "(i, inl') \<in> set (node_inlets nd')"
    then show "inlet_wakes i inl'" using 2 inl by auto
  next
    fix nd' i inl' c assume nd': "nd' \<in> set (bt_nodes w @ [nd])" "(i, inl') \<in> set (node_inlets nd')" "c \<in> set (inlet_channels inl')"
    show "c < length (bt_channels w)" using nd' 2 inl by auto
    show "pe_consumer (bt_channels w' ! c) = i" unfolding cons using nd' 2 inl by auto
    show "c \<notin> P"
    proof (cases "nd' \<in> set (bt_nodes w)")
      case True
      with 2 nd' show ?thesis by blast
    next
      case False
      with nd' have "c \<in> R" unfolding R by auto
      with fresh show ?thesis by blast
    qed
  next
    fix c assume c: "c < length (bt_channels w)" "c \<notin> P"
    show "\<exists>nd' \<in> set (bt_nodes w @ [nd]). \<exists>i inl. (i, inl) \<in> set (node_inlets nd') \<and> c \<in> set (inlet_channels inl)"
    proof (cases "c \<in> R")
      case True
      then show ?thesis unfolding R by auto
    next
      case False
      with c 3 [of c] show ?thesis by auto
    qed
  next
    fix nd' c assume nd': "nd' \<in> set (bt_nodes w @ [nd])" "node_target nd' = Some c"
    show "c < length (bt_channels w)" using nd' 4 0 by auto
    show "pe_producer (bt_channels w' ! c) = Some (node_output_waker nd')"
    proof (cases "nd' \<in> set (bt_nodes w)")
      case True
      with 4 [OF True nd'(2)] prod [of c] show ?thesis by auto
    next
      case False
      with nd' own show ?thesis by auto
    qed
    show "c \<notin> U" using nd' 4 fresh by auto
  next
    fix c assume c: "c < length (bt_channels w)" "c \<notin> U"
    then show "\<exists>nd' \<in> set (bt_nodes w @ [nd]). node_target nd' = Some c"
      using 5 [of c] by (cases "node_target nd = Some c") auto
  qed
qed

section \<open>Assembling a node\<close>

definition scheduled :: "waker \<Rightarrow> nat option \<Rightarrow> ('d, 's) poll_shared list \<Rightarrow> ('d, 's) poll_shared list" where
  "scheduled v e chs = (case e of None \<Rightarrow> chs | Some c \<Rightarrow> chs[c := pe_schedule v (chs ! c)])"

lemma outer_sink_schedule: "op_schedule (outer_sink so) v k w = w\<lparr>bt_sinks := op_schedule so v k (bt_sinks w)\<rparr>"
  by (simp only: outer_sink_def sink_ops.select_convs)

lemma graph_sink_schedule:
  "op_schedule (graph_sink so) v e w =
     (case e of ToChannel c \<Rightarrow> w\<lparr>bt_channels := (bt_channels w)[c := pe_schedule v (bt_channels w ! c)]\<rparr>
      | ToNull \<Rightarrow> w | ToSink k \<Rightarrow> w\<lparr>bt_sinks := op_schedule so v k (bt_sinks w)\<rparr>)"
  by (simp only: graph_sink_def sink_ops.select_convs outer_sink_schedule)

lemma schedule_all_outer:
  "bt_graph (schedule_all (outer_sink so) v es w) = bt_graph w" "bt_nodes (schedule_all (outer_sink so) v es w) = bt_nodes w"
  "bt_channels (schedule_all (outer_sink so) v es w) = bt_channels w"
  by (induction es arbitrary: w) (simp_all add: outer_sink_schedule)

lemma node_rotate_schedule_eq:
  "ro_schedule (node_rotate so) v out w =
     (case out of Fan f \<Rightarrow> schedule_all (outer_sink so) v (f_edges f) w | One g \<Rightarrow> op_schedule (graph_sink so) v (sg_edge g) w)"
  by (simp only: node_rotate_def fanout_output_def single_output_def rotate_ops.select_convs fanout_schedule_def single_schedule_def)

lemma node_rotate_schedule [simp]:
  "bt_graph (ro_schedule (node_rotate so) v out w) = bt_graph w" "bt_nodes (ro_schedule (node_rotate so) v out w) = bt_nodes w"
  "bt_channels (ro_schedule (node_rotate so) v out w) = scheduled v (output_channel out) (bt_channels w)"
  by (simp_all add: node_rotate_schedule_eq graph_sink_schedule schedule_all_outer scheduled_def
      split: node_output.splits poll_sink.splits)

lemma assemble_line_fields:
  assumes "sl_id slot < length (bt_graph w)"
  shows "bt_graph (assemble_line so f slot inlet out bg w) =
       (bt_graph w)[sl_id slot := Some (LinePhase (length (bt_nodes w)) LInput, sl_cx slot)] @
       [Some (LinePhase (length (bt_nodes w)) LWork, local_context (length (bt_graph w))),
        Some (LinePhase (length (bt_nodes w)) LOutput, local_context (Suc (length (bt_graph w))))]"
    "bt_channels (assemble_line so f slot inlet out bg w) = scheduled (Suc (length (bt_graph w))) (output_channel out) (bt_channels w)"
    "\<exists>sh. pl_output sh = out \<and> bt_nodes (assemble_line so f slot inlet out bg w) = bt_nodes w @
       [GLine \<lparr>gl_inlet = inlet, gl_wakers = \<lparr>lw_input = cx_local (sl_cx slot), lw_work = local_context (length (bt_graph w)),
          lw_output = Suc (length (bt_graph w))\<rparr>, gl_shared = sh\<rparr>]"
  using assms
  by (auto simp: assemble_line_def Let_def graph_slot_def line_phases_def graph_add_def local_context_def local_context_with_def
      list_update_append nth_append)

lemma assemble_bi_fields:
  assumes "sl_id (slots LeftSide) < length (bt_graph w)" "sl_id (slots RightSide) < length (bt_graph w)"
  shows "bt_graph (assemble_bi so f slots inlets out bg w) =
       ((bt_graph w)[sl_id (slots LeftSide) := Some (BiPhase (length (bt_nodes w)) (BInput LeftSide), sl_cx (slots LeftSide))])
         [sl_id (slots RightSide) := Some (BiPhase (length (bt_nodes w)) (BInput RightSide), sl_cx (slots RightSide))] @
       [Some (BiPhase (length (bt_nodes w)) BWork, local_context (length (bt_graph w))),
        Some (BiPhase (length (bt_nodes w)) BOutput, local_context (Suc (length (bt_graph w))))]"
    "bt_channels (assemble_bi so f slots inlets out bg w) = scheduled (Suc (length (bt_graph w))) (output_channel out) (bt_channels w)"
    "\<exists>sh. bs_output sh = out \<and> bt_nodes (assemble_bi so f slots inlets out bg w) = bt_nodes w @
       [GBi \<lparr>gb_inlet = inlets, gb_wakers = \<lparr>bw_input = (\<lambda>sd. cx_local (sl_cx (slots sd))),
          bw_work = local_context (length (bt_graph w)), bw_output = Suc (length (bt_graph w))\<rparr>, gb_shared = sh\<rparr>]"
  using assms
  by (auto simp: assemble_bi_def Let_def graph_slot_def bi_phases_def graph_add_def local_context_def local_context_with_def
      list_update_append nth_append)

section \<open>Building a tree\<close>

lemma flow_install:
  assumes "bt_nodes w' = bt_nodes w @ [nd]" and "\<And>c. pe_consumer (bt_channels w' ! c) = pe_consumer (bt_channels w ! c)"
  shows "flow w' = flow w \<union> (\<lambda>c. (pe_consumer (bt_channels w ! c), fst (hd (node_inlets nd)))) ` set_option (node_target nd)"
  unfolding flow_def assms by auto

fun in_id :: "('d, 's, 'r, 'k) in_edge \<Rightarrow> nat" where
  "in_id (InDeferred r) = rs_id r"
| "in_id (InSync x) = rs_id (si_reserved x)"
| "in_id (InAsync r ps) = rs_id r"

text \<open>The ids reserved for the inputs of a builder and of its parents; those above an input.\<close>

fun node_ids :: "('d, 's, 'r, 'k) poll_builder \<Rightarrow> nat list" and parent_ids :: "('d, 's, 'r, 'k) in_edge \<Rightarrow> nat list" where
  "node_ids (LineNode i f out op) = in_id i # parent_ids i"
| "node_ids (BiunionNode l r f out op) = in_id l # parent_ids l @ in_id r # parent_ids r"
| "parent_ids (InAsync r ps) = concat (map node_ids ps)"
| "parent_ids _ = []"

text \<open>Which input of a builder, or of one above it, owns which node.\<close>

fun node_edges :: "('d, 's, 'r, 'k) poll_builder \<Rightarrow> (nat \<times> nat) set" and in_edges :: "('d, 's, 'r, 'k) in_edge \<Rightarrow> (nat \<times> nat) set" where
  "node_edges (LineNode i f out op) = in_edges i"
| "node_edges (BiunionNode l r f out op) = in_edges l \<union> in_edges r"
| "in_edges (InAsync r ps) = (\<Union>p\<in>set ps. insert (rs_id r, hd (node_ids p)) (node_edges p))"
| "in_edges _ = {}"

fun wf_node :: "('d, 's, 'r, 'k) poll_builder \<Rightarrow> bool" and wf_in :: "('d, 's, 'r, 'k) in_edge \<Rightarrow> bool" where
  "wf_node (LineNode i f out op) = wf_in i"
| "wf_node (BiunionNode l r f out op) = (wf_in l \<and> wf_in r)"
| "wf_in (InDeferred r) = (rs_waker r = rs_id r)"
| "wf_in (InSync x) = (rs_waker (si_reserved x) = rs_id (si_reserved x) \<and> wr_waker (si_edge x) = rs_id (si_reserved x))"
| "wf_in (InAsync r ps) = (rs_waker r = rs_id r \<and> (\<forall>p\<in>set ps. is_parent p \<and> wf_node p))"

definition free_places :: "('d, 's, 'r, 'k, 'w) built \<Rightarrow> nat set \<Rightarrow> bool" where
  "free_places w ids \<longleftrightarrow> (\<forall>i\<in>ids. i < length (bt_graph w) \<and> bt_graph w ! i = None)"

text \<open>A build filled the places \<open>ids\<close> and new ones, and nothing else.\<close>

definition extends :: "('d, 's, 'r, 'k, 'w) built \<Rightarrow> ('d, 's, 'r, 'k, 'w) built \<Rightarrow> nat set \<Rightarrow> bool" where
  "extends w w' ids \<longleftrightarrow>
     length (bt_graph w) \<le> length (bt_graph w') \<and>
     (\<forall>i < length (bt_graph w). i \<notin> ids \<longrightarrow> bt_graph w' ! i = bt_graph w ! i) \<and>
     (\<forall>i < length (bt_graph w'). i \<in> ids \<or> length (bt_graph w) \<le> i \<longrightarrow> bt_graph w' ! i \<noteq> None) \<and>
     length (bt_channels w) \<le> length (bt_channels w') \<and>
     (\<forall>c < length (bt_channels w). pe_consumer (bt_channels w' ! c) = pe_consumer (bt_channels w ! c))"

lemma extends_refl: "extends w w {}"
  by (auto simp: extends_def)

lemma extends_trans: "extends w w1 A \<Longrightarrow> extends w1 w2 B \<Longrightarrow> extends w w2 (A \<union> B)"
  unfolding extends_def by (smt (verit) UnE UnI1 UnI2 le_trans not_le order_less_le_trans)

lemma free_places_Un: "free_places w (A \<union> B) \<longleftrightarrow> free_places w A \<and> free_places w B"
  by (auto simp: free_places_def)

lemma free_places_extends: "free_places w B \<Longrightarrow> extends w w' A \<Longrightarrow> A \<inter> B = {} \<Longrightarrow> free_places w' B"
  unfolding free_places_def extends_def by (smt (verit) disjoint_iff order_less_le_trans)

lemma scheduled_fields [simp]:
  "length (scheduled v e chs) = length chs" "pe_consumer (scheduled v e chs ! c) = pe_consumer (chs ! c)"
proof -
  show "length (scheduled v e chs) = length chs" by (simp add: scheduled_def split: option.splits)
  show "pe_consumer (scheduled v e chs ! c) = pe_consumer (chs ! c)"
    by (cases e; cases "e = Some c"; cases "c < length chs") (simp_all add: scheduled_def pe_schedule_def list_update_beyond)
qed

text \<open>An input is ready: its slot is the reserved place, still free, and what it reads is pending.\<close>

definition input_ready :: "('d, 's, 'r, 'k, 'w) built \<Rightarrow> slot \<Rightarrow> ('d, 's) inlet \<Rightarrow> bool" where
  "input_ready w slot inl \<longleftrightarrow> own_context (sl_id slot) (sl_cx slot) \<and> inlet_wakes (sl_id slot) inl \<and>
     (\<forall>c \<in> set (inlet_channels inl). c < length (bt_channels w) \<and> pe_consumer (bt_channels w ! c) = sl_id slot)"

lemma input_ready_extends: "input_ready w slot inl \<Longrightarrow> extends w w' ids \<Longrightarrow> input_ready w' slot inl"
  unfolding input_ready_def extends_def by fastforce

lemma assemble_line_ok:
  assumes inv: "build_inv w (P \<union> set (inlet_channels inlet)) (U \<union> set_option (output_channel out))"
    and fresh: "P \<inter> set (inlet_channels inlet) = {}" "U \<inter> set_option (output_channel out) = {}"
    and r: "input_ready w slot inlet" and free: "free_places w {sl_id slot}"
  shows "build_inv (assemble_line so f slot inlet out bg w) P U \<and>
    extends w (assemble_line so f slot inlet out bg w) {sl_id slot} \<and>
    flow (assemble_line so f slot inlet out bg w) = flow w \<union> (\<lambda>c. (pe_consumer (bt_channels w ! c), sl_id slot)) ` set_option (output_channel out)"
proof -
  let ?w = "assemble_line so f slot inlet out bg w" and ?n = "length (bt_nodes w)" and ?G = "length (bt_graph w)"
  from free have s: "sl_id slot < ?G" "bt_graph w ! sl_id slot = None" by (auto simp: free_places_def)
  note f = assemble_line_fields [OF s(1), where so = so and f = f and inlet = inlet and out = out and bg = bg]
  from r have cx: "cx_local (sl_cx slot) = sl_id slot" by (simp add: input_ready_def own_context_def)
  from f(3) cx obtain sh where sh: "pl_output sh = out" and nd: "bt_nodes ?w = bt_nodes w @
      [GLine \<lparr>gl_inlet = inlet, gl_wakers = \<lparr>lw_input = sl_id slot, lw_work = local_context ?G, lw_output = Suc ?G\<rparr>, gl_shared = sh\<rparr>]"
    by auto
  let ?nd = "GLine \<lparr>gl_inlet = inlet, gl_wakers = \<lparr>lw_input = sl_id slot, lw_work = local_context ?G, lw_output = Suc ?G\<rparr>, gl_shared = sh\<rparr>"
  have t: "node_target ?nd = output_channel out" by (simp add: sh)
  have at: "phase_at ?w i = Some ph \<longleftrightarrow> phase_at w i = Some ph \<or> (i, ph) \<in> set (node_places ?n ?nd)" for i ph
    using s by (auto simp: phase_at_def f(1) nth_append nth_list_update less_Suc_eq local_context_def local_context_with_def
        split: if_splits)
  have "build_inv ?w P U"
  proof (rule build_inv_install [where R = "set (inlet_channels inlet)", OF _ _ _ _ _ at nd])
    show "build_inv w (P \<union> set (inlet_channels inlet)) (U \<union> set_option (node_target ?nd))" using inv unfolding t .
    show "U \<inter> set_option (node_target ?nd) = {}" using fresh unfolding t by simp
  qed (use r fresh f(2) in \<open>auto simp: input_ready_def scheduled_def sh split: option.splits\<close>)
  moreover have "extends w ?w {sl_id slot}"
    using s by (auto simp: extends_def f(1,2) nth_append nth_list_update less_Suc_eq)
  moreover have "flow ?w = flow w \<union> (\<lambda>c. (pe_consumer (bt_channels w ! c), sl_id slot)) ` set_option (output_channel out)"
    using flow_install [OF nd] unfolding t by (simp add: f(2))
  ultimately show ?thesis by blast
qed

lemma assemble_bi_ok:
  fixes w :: "('d, 's, 'r, 'k, 'w) built"
  assumes inv: "build_inv w (P \<union> (set (inlet_channels (inlets LeftSide)) \<union> set (inlet_channels (inlets RightSide))))
      (U \<union> set_option (output_channel out))"
    and fresh: "P \<inter> (set (inlet_channels (inlets LeftSide)) \<union> set (inlet_channels (inlets RightSide))) = {}"
      "U \<inter> set_option (output_channel out) = {}"
    and r: "\<And>sd. input_ready w (slots sd) (inlets sd)"
    and free: "free_places w {sl_id (slots LeftSide), sl_id (slots RightSide)}"
    and ne: "sl_id (slots LeftSide) \<noteq> sl_id (slots RightSide)"
  shows "build_inv (assemble_bi so f slots inlets out bg w) P U \<and>
    extends w (assemble_bi so f slots inlets out bg w) {sl_id (slots LeftSide), sl_id (slots RightSide)} \<and>
    flow (assemble_bi so f slots inlets out bg w) =
      flow w \<union> (\<lambda>c. (pe_consumer (bt_channels w ! c), sl_id (slots LeftSide))) ` set_option (output_channel out)"
proof -
  let ?w = "assemble_bi so f slots inlets out bg w" and ?n = "length (bt_nodes w)" and ?G = "length (bt_graph w)"
  let ?l = "sl_id (slots LeftSide)" and ?r = "sl_id (slots RightSide)"
  from free have s: "?l < ?G" "?r < ?G" "bt_graph w ! ?l = None" "bt_graph w ! ?r = None" by (auto simp: free_places_def)
  note f = assemble_bi_fields [OF s(1,2), where so = so and f = f and inlets = inlets and out = out and bg = bg]
  from r have cx: "cx_local (sl_cx (slots sd)) = sl_id (slots sd)" for sd by (simp add: input_ready_def own_context_def)
  from f(3) cx obtain sh where sh: "bs_output sh = out" and nd: "bt_nodes ?w = bt_nodes w @
      [GBi \<lparr>gb_inlet = inlets, gb_wakers = \<lparr>bw_input = (\<lambda>sd. sl_id (slots sd)), bw_work = local_context ?G, bw_output = Suc ?G\<rparr>,
        gb_shared = sh\<rparr>]"
    by auto
  let ?nd = "GBi \<lparr>gb_inlet = inlets, gb_wakers = \<lparr>bw_input = (\<lambda>sd. sl_id (slots sd)), bw_work = local_context ?G, bw_output = Suc ?G\<rparr>,
        gb_shared = sh\<rparr> :: ('d, 's, 'r, 'k) graph_node"
  have t: "node_target ?nd = output_channel out" by (simp add: sh)
  have at: "phase_at ?w i = Some ph \<longleftrightarrow> phase_at w i = Some ph \<or> (i, ph) \<in> set (node_places ?n ?nd)" for i ph
    using s ne by (auto simp: phase_at_def f(1) nth_append nth_list_update less_Suc_eq local_context_def local_context_with_def
        split: if_splits)
  have "build_inv ?w P U"
  proof (rule build_inv_install [where R = "set (inlet_channels (inlets LeftSide)) \<union> set (inlet_channels (inlets RightSide))",
        OF _ _ _ _ _ at nd])
    show "build_inv w (P \<union> (set (inlet_channels (inlets LeftSide)) \<union> set (inlet_channels (inlets RightSide))))
        (U \<union> set_option (node_target ?nd))" using inv unfolding t .
    show "U \<inter> set_option (node_target ?nd) = {}" using fresh unfolding t by simp
    show "inlet_wakes i inl \<and> (\<forall>c\<in>set (inlet_channels inl). c < length (bt_channels w) \<and> pe_consumer (bt_channels w ! c) = i)"
      if "(i, inl) \<in> set (node_inlets ?nd)" for i inl
      using that r [of LeftSide] r [of RightSide] by (auto simp: input_ready_def)
  qed (use fresh f(2) in \<open>auto simp: scheduled_def sh split: option.splits\<close>)
  moreover have "extends w ?w {?l, ?r}"
    using s by (auto simp: extends_def f(1,2) nth_append nth_list_update less_Suc_eq)
  moreover have "flow ?w = flow w \<union> (\<lambda>c. (pe_consumer (bt_channels w ! c), ?l)) ` set_option (output_channel out)"
    using flow_install [OF nd] unfolding t by (simp add: f(2))
  ultimately show ?thesis by blast
qed

lemma output_for_channel: "output_for e out = Some x \<Longrightarrow> output_channel x = e"
  by (cases e; cases out) (auto simp: single_from_def)

lemma graph_claim_context: "rs_waker r = rs_id r \<Longrightarrow> own_context (rs_id r) (sl_cx (graph_claim r))"
  by (simp add: graph_claim_def local_context_with_def own_context_def)

lemma and_then_Ok [simp]: "and_then (Some (Ok a, w)) f = f a w"
  by (simp add: and_then_def)

lemma build_inv_bounded: "build_inv w P U \<Longrightarrow> P \<subseteq> {..<length (bt_channels w)} \<and> U \<subseteq> {..<length (bt_channels w)}"
  by (simp add: build_inv_def)

lemma build_all_ok:
  "wf_node b \<Longrightarrow> (case e of None \<Rightarrow> is_graph_builder b | Some c \<Rightarrow> is_parent b) \<Longrightarrow> distinct (node_ids b) \<Longrightarrow>
     free_places w (set (node_ids b)) \<Longrightarrow> build_inv w P (U \<union> set_option e) \<Longrightarrow> U \<inter> set_option e = {} \<Longrightarrow>
     \<exists>w'. build_node so e b w = Some (Ok (), w') \<and> build_inv w' P U \<and> extends w w' (set (node_ids b)) \<and>
       flow w' = flow w \<union> node_edges b \<union> (\<lambda>c. (pe_consumer (bt_channels w ! c), hd (node_ids b))) ` set_option e"
  "wf_in i \<Longrightarrow> resolved i \<Longrightarrow> distinct (in_id i # parent_ids i) \<Longrightarrow> free_places w (insert (in_id i) (set (parent_ids i))) \<Longrightarrow>
     build_inv w P U \<Longrightarrow>
     \<exists>slot inl w'. ready_input so bd i w = Some (Ok (slot, inl), w') \<and> sl_id slot = in_id i \<and> input_ready w' slot inl \<and>
       P \<inter> set (inlet_channels inl) = {} \<and> build_inv w' (P \<union> set (inlet_channels inl)) U \<and> extends w w' (set (parent_ids i)) \<and>
       flow w' = flow w \<union> in_edges i"
  "\<forall>p\<in>set ps. is_parent p \<and> wf_node p \<Longrightarrow> distinct (concat (map node_ids ps)) \<Longrightarrow>
     free_places w (set (concat (map node_ids ps))) \<Longrightarrow> build_inv w (P \<union> set cs) U \<Longrightarrow> P \<inter> set cs = {} \<Longrightarrow>
     \<forall>c\<in>set cs. c < length (bt_channels w) \<and> pe_consumer (bt_channels w ! c) = v \<Longrightarrow>
     \<exists>cs' w'. build_parents so v bd ps cs w = Some (Ok cs', w') \<and> build_inv w' (P \<union> set cs') U \<and> P \<inter> set cs' = {} \<and>
       (\<forall>c\<in>set cs'. c < length (bt_channels w') \<and> pe_consumer (bt_channels w' ! c) = v) \<and>
       extends w w' (set (concat (map node_ids ps))) \<and>
       flow w' = flow w \<union> (\<Union>p\<in>set ps. insert (v, hd (node_ids p)) (node_edges p))"
proof (induction so e b w and so bd i w and so v bd ps cs w arbitrary: P U and P U and P U
    rule: build_node_ready_input_build_parents.induct)
  case (1 so e i f out op w)
  from 1(3) obtain x where x: "output_for e out = Some x" by (cases e; cases out) auto
  from 1(2-4) have "wf_in i" "resolved i" "distinct (in_id i # parent_ids i)" by (auto split: option.splits)
  with 1(1) 1(5,6) obtain slot inl w1 where
    r: "ready_input so (lo_bound op) i w = Some (Ok (slot, inl), w1)" "sl_id slot = in_id i" "input_ready w1 slot inl"
      "P \<inter> set (inlet_channels inl) = {}" "build_inv w1 (P \<union> set (inlet_channels inl)) (U \<union> set_option e)"
      "extends w w1 (set (parent_ids i))" "flow w1 = flow w \<union> in_edges i"
    by (metis list.simps(15) node_ids.simps(1))
  have cons: "(\<lambda>c. (pe_consumer (bt_channels w1 ! c), in_id i)) ` set_option e =
      (\<lambda>c. (pe_consumer (bt_channels w ! c), in_id i)) ` set_option e"
    by (rule image_cong) (use r(6) build_inv_bounded [OF 1(6)] in \<open>auto simp: extends_def\<close>)
  have "free_places w1 {sl_id slot}"
    using 1(4,5) r(2) free_places_extends [OF _ r(6), of "{in_id i}"] by (auto simp: free_places_def)
  from assemble_line_ok [of w1 P inl U x slot, OF _ r(4) _ r(3) this, where so = so and f = f and bg = "lo_budget op"] r(5) 1(7)
  have "build_inv (assemble_line so f slot inl x (lo_budget op) w1) P U"
    "extends w1 (assemble_line so f slot inl x (lo_budget op) w1) {in_id i}"
    "flow (assemble_line so f slot inl x (lo_budget op) w1) =
       flow w1 \<union> (\<lambda>c. (pe_consumer (bt_channels w1 ! c), in_id i)) ` set_option e"
    by (auto simp: output_for_channel [OF x] r(2))
  with extends_trans [OF r(6) this(2)] x r(1,7) show ?case by (simp add: cons line_builds_def)
next
  case (2 so e l r f out op w)
  let ?slots = "\<lambda>sl sr. case_side sl sr" and ?ids = "\<lambda>i. insert (in_id i) (set (parent_ids i))"
  from 2(4) obtain x where x: "bi_output_for e out = Some x" "output_for e out = Some x"
    by (cases e; cases out) (auto simp: bi_output_for_def)
  from 2(3-5) have l: "wf_in l" "resolved l" "distinct (in_id l # parent_ids l)"
    and r: "wf_in r" "resolved r" "distinct (in_id r # parent_ids r)" and dis: "?ids l \<inter> ?ids r = {}"
    by (auto split: option.splits)
  from 2(6) have "free_places w (?ids l \<union> ?ids r)" by (simp add: Un_commute Un_left_commute insert_commute)
  then have fl: "free_places w (?ids l)" and fr: "free_places w (?ids r)" by (simp_all only: free_places_Un)
  from 2(1) [OF l fl 2(7)] obtain sl il w1 where
    L: "ready_input so (bi_bound op LeftSide) l w = Some (Ok (sl, il), w1)" "sl_id sl = in_id l" "input_ready w1 sl il"
      "P \<inter> set (inlet_channels il) = {}" "build_inv w1 (P \<union> set (inlet_channels il)) (U \<union> set_option e)"
      "extends w w1 (set (parent_ids l))" "flow w1 = flow w \<union> in_edges l" by blast
  have "free_places w1 (?ids r)" by (rule free_places_extends [OF fr L(6)]) (use dis in auto)
  from 2(2) [OF r this L(5)] obtain sr ir w2 where
    R: "ready_input so (bi_bound op RightSide) r w1 = Some (Ok (sr, ir), w2)" "sl_id sr = in_id r" "input_ready w2 sr ir"
      "(P \<union> set (inlet_channels il)) \<inter> set (inlet_channels ir) = {}"
      "build_inv w2 (P \<union> set (inlet_channels il) \<union> set (inlet_channels ir)) (U \<union> set_option e)"
      "extends w1 w2 (set (parent_ids r))" "flow w2 = flow w1 \<union> in_edges r" by blast
  have cons: "(\<lambda>c. (pe_consumer (bt_channels w2 ! c), in_id l)) ` set_option e =
      (\<lambda>c. (pe_consumer (bt_channels w ! c), in_id l)) ` set_option e"
    by (rule image_cong) (use L(6) R(6) build_inv_bounded [OF 2(7)] in \<open>auto simp: extends_def\<close>)
  let ?s = "case_side sl sr" and ?i = "case_side il ir"
  have ready: "input_ready w2 (?s sd) (?i sd)" for sd
    using R(3) input_ready_extends [OF L(3) R(6)] by (cases sd) simp_all
  have "free_places w1 {in_id l}" by (rule free_places_extends [OF _ L(6)]) (use fl l in \<open>auto simp: free_places_def\<close>)
  then have "free_places w2 {in_id l}" by (rule free_places_extends [OF _ R(6)]) (use dis in auto)
  moreover have "free_places w2 {in_id r}"
    by (rule free_places_extends [OF _ R(6)]) (use \<open>free_places w1 (?ids r)\<close> r in \<open>auto simp: free_places_def\<close>)
  ultimately have free: "free_places w2 {sl_id (?s LeftSide), sl_id (?s RightSide)}"
    using L(2) R(2) by (simp add: free_places_def)
  have ne: "sl_id (?s LeftSide) \<noteq> sl_id (?s RightSide)" using L(2) R(2) dis by auto
  let ?w = "assemble_bi so f ?s ?i x (bi_budget op) w2"
  have "build_inv ?w P U \<and> extends w2 ?w {sl_id (?s LeftSide), sl_id (?s RightSide)} \<and>
      flow ?w = flow w2 \<union> (\<lambda>c. (pe_consumer (bt_channels w2 ! c), sl_id (?s LeftSide))) ` set_option (output_channel x)"
    by (rule assemble_bi_ok [OF _ _ _ ready free ne])
      (use L(4) R(4,5) 2(8) output_for_channel [OF x(2)] in \<open>auto simp: Un_assoc\<close>)
  then have w: "build_inv ?w P U" "extends w2 ?w {in_id l, in_id r}"
    "flow ?w = flow w \<union> in_edges l \<union> in_edges r \<union> (\<lambda>c. (pe_consumer (bt_channels w ! c), in_id l)) ` set_option e"
    using L(2,7) R(2,7) by (simp_all add: output_for_channel [OF x(2)] cons)
  have "extends w ?w (set (parent_ids l) \<union> set (parent_ids r) \<union> {in_id l, in_id r})"
    by (rule extends_trans [OF extends_trans [OF L(6) R(6)] w(2)])
  moreover have "set (parent_ids l) \<union> set (parent_ids r) \<union> {in_id l, in_id r} = set (node_ids (BiunionNode l r f out op))" by auto
  ultimately have "extends w ?w (set (node_ids (BiunionNode l r f out op)))" by simp
  with w(1,3) x(1) L(1) R(1) show ?case by (simp add: Un_assoc bi_builds_def)
next
  case (3 so b r w)
  then show ?case by simp
next
  case (4 so b x w)
  then show ?case
    by (simp add: input_ready_def graph_claim_def local_context_with_def own_context_def extends_refl)
next
  case (5 so b r ps w)
  let ?slot = "graph_claim r"
  from 5(2,4,5) have wf: "\<forall>p\<in>set ps. is_parent p \<and> wf_node p" and dist: "distinct (concat (map node_ids ps))"
    and fr: "free_places w (set (concat (map node_ids ps)))" and rw: "rs_waker r = rs_id r"
    by (simp_all add: free_places_def)
  have "build_inv w (P \<union> set []) U" "P \<inter> set [] = {}"
    "\<forall>c\<in>set []. c < length (bt_channels w) \<and> pe_consumer (bt_channels w ! c) = cx_local (sl_cx ?slot)" using 5(6) by simp_all
  from 5(1) [OF refl wf dist fr this] obtain cs w1 where
    p: "build_parents so (cx_local (sl_cx ?slot)) b ps [] w = Some (Ok cs, w1)" "build_inv w1 (P \<union> set cs) U" "P \<inter> set cs = {}"
      "\<forall>c\<in>set cs. c < length (bt_channels w1) \<and> pe_consumer (bt_channels w1 ! c) = cx_local (sl_cx ?slot)"
      "extends w w1 (set (concat (map node_ids ps)))"
      "flow w1 = flow w \<union> (\<Union>p\<in>set ps. insert (cx_local (sl_cx ?slot), hd (node_ids p)) (node_edges p))" by blast
  have "input_ready w1 ?slot (Channels cs)" "sl_id ?slot = rs_id r"
    using p(4) graph_claim_context [OF rw] by (simp_all add: input_ready_def own_context_def) (simp_all add: graph_claim_def)
  moreover have "cx_local (sl_cx ?slot) = rs_id r" by (simp add: graph_claim_def local_context_with_def)
  ultimately show ?case using p by (simp add: Let_def)
next
  case (6 so v b cs w)
  then show ?case by (auto simp: extends_refl)
next
  case (7 so v b p ps cs w)
  let ?c = "length (bt_channels w)"
  let ?w = "w\<lparr>bt_channels := bt_channels w @ [channel v b]\<rparr>"
  have c: "?c \<notin> P" "?c \<notin> U" "?c \<notin> set cs" using build_inv_bounded [OF 7(6)] by auto
  have inv: "build_inv ?w (insert ?c (P \<union> set cs)) (U \<union> set_option (Some ?c))"
    using build_inv_channel [OF 7(6)] by simp
  have free: "free_places ?w (set (node_ids p))" "free_places ?w (set (concat (map node_ids ps)))"
    using 7(5) by (auto simp: free_places_def)
  from 7(1) [OF refl _ _ _ free(1) inv] 7(3,4) c obtain w1 where
    w1: "build_node so (Some ?c) p ?w = Some (Ok (), w1)" "build_inv w1 (insert ?c (P \<union> set cs)) U" "extends ?w w1 (set (node_ids p))"
      "flow w1 = flow ?w \<union> node_edges p \<union> (\<lambda>c. (pe_consumer (bt_channels ?w ! c), hd (node_ids p))) ` set_option (Some ?c)"
    by auto
  have fl: "flow w1 = flow w \<union> insert (v, hd (node_ids p)) (node_edges p)"
    unfolding w1(4) flow_channel [OF 7(6)] by (auto simp: channel_def)
  have e: "extends w w1 (set (node_ids p))" using w1(3) by (auto simp: extends_def nth_append)
  have "free_places w1 (set (concat (map node_ids ps)))"
    by (rule free_places_extends [OF free(2) w1(3)]) (use 7(4) in auto)
  moreover have "build_inv w1 (P \<union> set (cs @ [?c])) U" "P \<inter> set (cs @ [?c]) = {}" using w1(2) c 7(7) by auto
  moreover have "\<forall>c'\<in>set (cs @ [?c]). c' < length (bt_channels w1) \<and> pe_consumer (bt_channels w1 ! c') = v"
    using 7(8) w1(3) by (auto simp: extends_def nth_append channel_def less_Suc_eq Ball_def)
  ultimately obtain cs' w2 where
    w2: "build_parents so v b ps (cs @ [?c]) w1 = Some (Ok cs', w2)" "build_inv w2 (P \<union> set cs') U" "P \<inter> set cs' = {}"
      "\<forall>c\<in>set cs'. c < length (bt_channels w2) \<and> pe_consumer (bt_channels w2 ! c) = v"
      "extends w1 w2 (set (concat (map node_ids ps)))"
      "flow w2 = flow w1 \<union> (\<Union>p\<in>set ps. insert (v, hd (node_ids p)) (node_edges p))"
    using 7(2) [OF refl, of w1 P U] 7(3,4) by (auto simp del: build_parents.simps)
  from extends_trans [OF e w2(5)] w1(1) w2 fl show ?case by (simp add: Let_def Un_assoc)
qed

section \<open>Wiring a thread\<close>

text \<open>What a program does with the nodes of one thread: mint them, resolve their edges, give one to another to
  own, add one to the thread, or drop one. Values are moved, so each is in one place.\<close>

record ('d, 's, 'r, 'k) wiring =
  wi_reserved :: nat
  wi_loose :: "('d, 's, 'r, 'k) poll_builder list"
  wi_added :: "('d, 's, 'r, 'k) poll_builder list"

definition wiring_start :: "('d, 's, 'r, 'k) wiring" where
  "wiring_start = \<lparr>wi_reserved = 0, wi_loose = [], wi_added = []\<rparr>"

inductive resolves :: "('d, 's, 'r, 'k) poll_builder \<Rightarrow> ('d, 's, 'r, 'k) poll_builder \<Rightarrow> bool" where
  line_in: "line_sync_input b = Some b' \<Longrightarrow> resolves b b'"
| line_out: "line_output b = Some b' \<Longrightarrow> resolves b b'"
| line_direct: "line_sink k b = Some b' \<Longrightarrow> resolves b b'"
| bi_in: "bi_input sd b = Some b' \<Longrightarrow> resolves b b'"
| bi_out: "bi_output b = Some b' \<Longrightarrow> resolves b b'"
| line_writer: "line_get b = Some (tx, b') \<Longrightarrow> resolves b b'"
| bi_writer: "bi_get sd b = Some (tx, b') \<Longrightarrow> resolves b b'"
| line_push: "line_add k b = Some b' \<Longrightarrow> resolves b b'"
| bi_push: "bi_add k b = Some b' \<Longrightarrow> resolves b b'"

inductive wire_step :: "('d, 's, 'r, 'k) wiring \<Rightarrow> ('d, 's, 'r, 'k) wiring \<Rightarrow> bool" where
  line: "line_with_options f op (wi_reserved s) = (b, n) \<Longrightarrow>
     wire_step s (s\<lparr>wi_reserved := n, wi_loose := b # wi_loose s\<rparr>)"
| biunion: "bi_with_options g bop (wi_reserved s) = (b, n) \<Longrightarrow>
     wire_step s (s\<lparr>wi_reserved := n, wi_loose := b # wi_loose s\<rparr>)"
| resolve: "wi_loose s = bs1 @ b # bs2 \<Longrightarrow> resolves b b' \<Longrightarrow> wire_step s (s\<lparr>wi_loose := bs1 @ b' # bs2\<rparr>)"
| own: "wi_loose s = bs1 @ up # bs2 \<Longrightarrow> bs1 @ bs2 = cs1 @ down # cs2 \<Longrightarrow>
     line_own up down = Some b \<or> bi_own sd up down = Some b \<Longrightarrow> wire_step s (s\<lparr>wi_loose := cs1 @ b # cs2\<rparr>)"
| add: "wi_loose s = bs1 @ b # bs2 \<Longrightarrow> is_graph_builder b \<Longrightarrow>
     wire_step s (s\<lparr>wi_loose := bs1 @ bs2, wi_added := wi_added s @ [b]\<rparr>)"
| drop: "wi_loose s = bs1 @ b # bs2 \<Longrightarrow> wire_step s (s\<lparr>wi_loose := bs1 @ bs2\<rparr>)"

inductive wire_reach :: "('d, 's, 'r, 'k) wiring \<Rightarrow> bool" where
  start: "wire_reach wiring_start"
| step: "wire_reach s \<Longrightarrow> wire_step s s' \<Longrightarrow> wire_reach s'"

definition all_ids :: "('d, 's, 'r, 'k) poll_builder list \<Rightarrow> nat list" where
  "all_ids bs = concat (map node_ids bs)"

lemma all_ids_simps [simp]: "all_ids [] = []" "all_ids (b # bs) = node_ids b @ all_ids bs" "all_ids (bs @ cs) = all_ids bs @ all_ids cs"
  by (simp_all add: all_ids_def)

definition wiring_ok :: "('d, 's, 'r, 'k) wiring \<Rightarrow> bool" where
  "wiring_ok s \<longleftrightarrow> distinct (all_ids (wi_loose s @ wi_added s)) \<and> set (all_ids (wi_loose s @ wi_added s)) \<subseteq> {..<wi_reserved s} \<and>
     (\<forall>b\<in>set (wi_loose s) \<union> set (wi_added s). wf_node b) \<and> (\<forall>b\<in>set (wi_added s). is_graph_builder b)"

lemma waking_new_waker [simp]: "wr_waker (waking_new v b) = v"
  by (simp add: waking_new_def)

lemma resolve_sync_simps [simp]:
  "in_id (resolve_sync r b) = rs_id r" "parent_ids (resolve_sync r b) = []" "wf_in (resolve_sync r b) \<longleftrightarrow> rs_waker r = rs_id r"
  by (auto simp: resolve_sync_def)

lemma get_sender_keeps:
  "get_sender i = Some (tx, i') \<Longrightarrow> in_id i' = in_id i \<and> parent_ids i' = parent_ids i \<and> (wf_in i \<longrightarrow> wf_in i')"
  by (cases i) (auto simp: waking_mint_def case_prod_unfold Let_def)

lemma resolves_keeps:
  assumes "resolves b b'"
  shows "node_ids b' = node_ids b \<and> (wf_node b \<longrightarrow> wf_node b')"
  using assms
proof cases
  case line_in
  then show ?thesis by (cases b rule: line_sync_input.cases) auto
next
  case line_out
  then show ?thesis by (cases b rule: line_output.cases) auto
next
  case (line_direct k)
  then show ?thesis by (cases "(k, b)" rule: line_sink.cases) (auto split: if_splits)
next
  case (bi_in sd)
  then show ?thesis by (cases "(sd, b)" rule: bi_input.cases) auto
next
  case bi_out
  then show ?thesis by (cases b rule: bi_output.cases) auto
next
  case (line_writer tx)
  then show ?thesis by (cases b) (auto dest: get_sender_keeps)
next
  case (bi_writer sd tx)
  then show ?thesis by (cases sd; cases b) (auto dest: get_sender_keeps)
next
  case (line_push k)
  then show ?thesis by (cases "(k, b)" rule: line_add.cases) auto
next
  case (bi_push k)
  then show ?thesis by (cases "(k, b)" rule: bi_add.cases) auto
qed

lemma owns_keeps:
  assumes "line_own up down = Some b \<or> bi_own sd up down = Some b"
  shows "mset (node_ids b) = mset (node_ids up) + mset (node_ids down) \<and> (wf_node up \<and> wf_node down \<longrightarrow> wf_node b)"
  using assms
proof
  assume "line_own up down = Some b"
  then show ?thesis by (cases "(up, down)" rule: line_own.cases) (auto split: if_splits)
next
  assume "bi_own sd up down = Some b"
  then show ?thesis by (cases "(sd, up, down)" rule: bi_own.cases) (auto split: if_splits)
qed

lemma distinct_submset:
  assumes "mset xs \<subseteq># mset ys" "distinct ys"
  shows "distinct xs" "set xs \<subseteq> set ys"
proof -
  from assms(1) obtain zs where "mset ys = mset (xs @ zs)"
    by (metis ex_mset mset_append mset_subset_eq_exists_conv)
  with assms(2) show "distinct xs" by (metis distinct_append mset_eq_imp_distinct_iff)
  from assms(1) show "set xs \<subseteq> set ys" by (metis set_mset_mono set_mset_mset)
qed

lemma wiring_okI:
  assumes "wiring_ok s" "mset (all_ids (wi_loose s' @ wi_added s')) \<subseteq># mset (all_ids (wi_loose s @ wi_added s))"
    and "wi_reserved s' = wi_reserved s" "\<forall>b\<in>set (wi_loose s') \<union> set (wi_added s'). wf_node b" "\<forall>b\<in>set (wi_added s'). is_graph_builder b"
  shows "wiring_ok s'"
  using assms distinct_submset [OF assms(2)] unfolding wiring_ok_def by auto

lemma wire_step_ok: "wire_step s s' \<Longrightarrow> wiring_ok s \<Longrightarrow> wiring_ok s'"
proof (induction rule: wire_step.induct)
  case (line f op s b n)
  then show ?case by (auto simp: line_with_options_def reserve_def producer_waker_def wiring_ok_def subset_iff less_Suc_eq)
next
  case (biunion g bop s b n)
  then show ?case by (auto simp: bi_with_options_def reserve_def producer_waker_def wiring_ok_def subset_iff less_Suc_eq)
next
  case (resolve s bs1 b bs2 b')
  with resolves_keeps [OF resolve(2)] show ?case
    by (intro wiring_okI [OF resolve(3)]) (auto simp: wiring_ok_def)
next
  case (own s bs1 up bs2 cs1 down cs2 b sd)
  note k = owns_keeps [OF own(3)]
  have "mset (all_ids (bs1 @ bs2)) = mset (all_ids (cs1 @ down # cs2))" by (simp only: own(2))
  then have "mset (all_ids (wi_loose s)) = mset (all_ids (cs1 @ b # cs2))" using own(1) k by simp
  moreover have "set (wi_loose s) = insert up (set (cs1 @ down # cs2))" using own(1) own(2) [symmetric] by auto
  ultimately show ?case using own(4) k by (intro wiring_okI [OF own(4)]) (auto simp: wiring_ok_def)
next
  case (add s bs1 b bs2)
  then show ?case by (intro wiring_okI [OF add(3)]) (auto simp: wiring_ok_def)
next
  case (drop s bs1 b bs2)
  then show ?case by (intro wiring_okI [OF drop(2)]) (auto simp: wiring_ok_def)
qed

lemma wire_reach_ok: "wire_reach s \<Longrightarrow> wiring_ok s"
proof (induction rule: wire_reach.induct)
  case start
  show ?case by (simp add: wiring_start_def wiring_ok_def)
qed (rule wire_step_ok)

lemma build_added_ok:
  "\<forall>b\<in>set bs. wf_node b \<and> is_graph_builder b \<Longrightarrow> distinct (all_ids bs) \<Longrightarrow> free_places w (set (all_ids bs)) \<Longrightarrow>
     build_inv w {} {} \<Longrightarrow>
     \<exists>w'. build_added so bs w = Some (Ok (), w') \<and> build_inv w' {} {} \<and> extends w w' (set (all_ids bs)) \<and>
       flow w' = flow w \<union> (\<Union>b\<in>set bs. node_edges b)"
proof (induction bs arbitrary: w)
  case Nil
  then show ?case by (auto simp: extends_refl)
next
  case (Cons b bs)
  from Cons.prems(3) have f: "free_places w (set (node_ids b))" "free_places w (set (all_ids bs))"
    by (simp_all add: free_places_Un)
  from build_all_ok(1) [of b None w "{}" "{}" so, OF _ _ _ f(1)] Cons.prems obtain w1 where
    1: "build_node so None b w = Some (Ok (), w1)" "build_inv w1 {} {}" "extends w w1 (set (node_ids b))"
      "flow w1 = flow w \<union> node_edges b" by auto
  have "free_places w1 (set (all_ids bs))"
    by (rule free_places_extends [OF f(2) 1(3)]) (use Cons.prems(2) in auto)
  with Cons.IH [OF _ _ this 1(2)] Cons.prems(1,2) obtain w2 where
    2: "build_added so bs w1 = Some (Ok (), w2)" "build_inv w2 {} {}" "extends w1 w2 (set (all_ids bs))"
      "flow w2 = flow w1 \<union> (\<Union>b\<in>set bs. node_edges b)" by auto
  from extends_trans [OF 1(3) 2(3)] 1 2 show ?case by (simp add: Un_assoc)
qed

lemma built_empty_ok: "build_inv (built_empty n v) {} {}" "flow (built_empty n v) = {}"
  by (simp_all add: build_inv_def built_empty_def phase_at_def graph_local_def flow_def)

section \<open>Properties\<close>

text \<open>C10. However the nodes of a poll thread are minted, resolved, owned, added and dropped, building what was added
  never fails in a node and wires it: every phase of every node sits at the id its waker wakes, every bridge
  wakes its input phase, and every channel has one input phase that reads it, which its pushes wake, and one
  output phase that writes it, which is woken when a refusal ends. An input is fed by exactly the nodes it was
  given to own. The graph is complete exactly when every minted node was added or is owned by one that was;
  otherwise the build fails and names the first input of one that was not.\<close>

theorem poll_graph_wired:
  fixes s :: "('d, 's, 'r, 'k) wiring" and so :: "('k, ('d, 's) message, 'w) sink_ops"
  assumes "wire_reach s"
  shows "\<exists>w. build_added so (wi_added s) (built_empty (wi_reserved s) v) = Some (Ok (), w) \<and>
     wired w \<and> flow w = (\<Union>b\<in>set (wi_added s). node_edges b) \<and>
     (case graph_finish (bt_graph w) of
        Ok g \<Rightarrow> g = bt_graph w \<and> {..<wi_reserved s} \<subseteq> set (all_ids (wi_added s))
      | Err e \<Rightarrow> \<exists>i < wi_reserved s. i \<notin> set (all_ids (wi_added s)) \<and> (\<forall>j < i. j \<in> set (all_ids (wi_added s))) \<and>
          e = Fatal (''graph: slot '' @ show_nat i @ '' is empty''))"
proof -
  let ?w0 = "built_empty (wi_reserved s) v :: ('d, 's, 'r, 'k, 'w) built" and ?ids = "set (all_ids (wi_added s))"
  from wire_reach_ok [OF assms] have ok: "\<forall>b\<in>set (wi_added s). wf_node b \<and> is_graph_builder b" "distinct (all_ids (wi_added s))"
    "?ids \<subseteq> {..<wi_reserved s}" by (auto simp: wiring_ok_def)
  from ok(3) have "free_places ?w0 ?ids" by (auto simp: free_places_def built_empty_def graph_local_def)
  from build_added_ok [OF ok(1,2) this built_empty_ok(1), of so] obtain w where
    w: "build_added so (wi_added s) ?w0 = Some (Ok (), w)" "build_inv w {} {}" "extends ?w0 w ?ids"
      "flow w = (\<Union>b\<in>set (wi_added s). node_edges b)" by (auto simp: built_empty_ok(2))
  from w(3) have len: "wi_reserved s \<le> length (bt_graph w)"
    and place: "\<And>i. i < length (bt_graph w) \<Longrightarrow> bt_graph w ! i = None \<longleftrightarrow> i < wi_reserved s \<and> i \<notin> ?ids"
    by (auto simp: extends_def built_empty_def graph_local_def)
  have "case graph_finish (bt_graph w) of
        Ok g \<Rightarrow> g = bt_graph w \<and> {..<wi_reserved s} \<subseteq> ?ids
      | Err e \<Rightarrow> \<exists>i < wi_reserved s. i \<notin> ?ids \<and> (\<forall>j < i. j \<in> ?ids) \<and> e = Fatal (''graph: slot '' @ show_nat i @ '' is empty'')"
  proof (cases "first_empty 0 (bt_graph w)")
    case None
    then have "\<forall>i < length (bt_graph w). bt_graph w ! i \<noteq> None" by (simp add: first_empty_iff)
    with place len None show ?thesis by (auto simp: graph_finish_def)
  next
    case (Some i)
    then have i: "i < length (bt_graph w)" "bt_graph w ! i = None" "\<forall>j < i. bt_graph w ! j \<noteq> None"
      by (simp_all add: first_empty_iff)
    with place have "i < wi_reserved s" "i \<notin> ?ids" by auto
    moreover have "\<forall>j < i. j \<in> ?ids"
    proof (intro allI impI)
      fix j assume "j < i"
      with i(1,3) have "j < length (bt_graph w)" "bt_graph w ! j \<noteq> None" by auto
      with place [of j] \<open>j < i\<close> \<open>i < wi_reserved s\<close> show "j \<in> ?ids" by auto
    qed
    ultimately have "i < wi_reserved s" "i \<notin> ?ids" "\<forall>j < i. j \<in> ?ids" by blast+
    with Some show ?thesis by (auto simp: graph_finish_def)
  qed
  with w(1,4) build_inv_wired [OF w(2)] show ?thesis by blast
qed

text \<open>Two lines, one owned by the other, and a third that is never added.\<close>

definition tiny_line :: "nat \<Rightarrow> (nat, nat, unit, nat \<times> nat) in_edge \<Rightarrow> (nat, nat, unit, nat \<times> nat) poll_builder" where
  "tiny_line n i = LineNode i (\<lambda>_. ()) ODeferred line_options_default"

definition tiny_wiring :: "(nat, nat, unit, nat \<times> nat) wiring" where
  "tiny_wiring = \<lparr>wi_reserved = 3, wi_loose = [tiny_line 2 (InDeferred \<lparr>rs_id = 2, rs_waker = 2\<rparr>)],
     wi_added = [tiny_line 1 (InAsync \<lparr>rs_id = 1, rs_waker = 1\<rparr>
       [tiny_line 0 (resolve_sync \<lparr>rs_id = 0, rs_waker = 0\<rparr> None)])]\<rparr>"

lemma tiny_wiring_reach: "wire_reach tiny_wiring"
proof -
  let ?d = "\<lambda>n. tiny_line n (InDeferred \<lparr>rs_id = n, rs_waker = n\<rparr>)"
  let ?up = "tiny_line 0 (resolve_sync \<lparr>rs_id = 0, rs_waker = 0\<rparr> None)"
  let ?owned = "tiny_line 1 (InAsync \<lparr>rs_id = 1, rs_waker = 1\<rparr> [?up])"
  let ?s = "\<lambda>n bs. \<lparr>wi_reserved = n, wi_loose = bs, wi_added = []\<rparr>"
  have mint: "wire_step (?s n bs) (?s (Suc n) (?d n # bs))" for n bs
    using wire_step.line [of "\<lambda>_. ()" line_options_default "?s n bs" "?d n" "Suc n"]
    by (simp add: line_with_options_def reserve_def producer_waker_def tiny_line_def)
  have "wire_reach (?s 0 [])" using wire_reach.start by (simp add: wiring_start_def)
  from wire_reach.step [OF wire_reach.step [OF wire_reach.step [OF this mint] mint] mint]
  have "wire_reach (?s 3 [?d 2, ?d 1, ?d 0])" by (simp add: numeral_2_eq_2 numeral_3_eq_3)
  moreover have "wire_step (?s 3 [?d 2, ?d 1, ?d 0]) (?s 3 [?d 2, ?d 1, ?up])"
    using wire_step.resolve [of "?s 3 [?d 2, ?d 1, ?d 0]" "[?d 2, ?d 1]" "?d 0" "[]" ?up]
    by (simp add: resolves.line_in tiny_line_def line_options_default_def)
  moreover have "wire_step (?s 3 [?d 2, ?d 1, ?up]) (?s 3 [?d 2, ?owned])"
    using wire_step.own [of "?s 3 [?d 2, ?d 1, ?up]" "[?d 2, ?d 1]" ?up "[]" "[?d 2]" "?d 1" "[]" ?owned]
    by (simp add: tiny_line_def resolve_sync_def)
  moreover have "wire_step (?s 3 [?d 2, ?owned]) tiny_wiring"
    using wire_step.add [of "?s 3 [?d 2, ?owned]" "[?d 2]" ?owned "[]"] by (simp add: tiny_line_def tiny_wiring_def)
  ultimately show ?thesis by (meson wire_reach.step)
qed

theorem poll_graph_wired_witness:
  "\<exists>w. build_added (sync_sink (\<lambda>_. None)) (wi_added tiny_wiring) (built_empty 3 two_edges) = Some (Ok (), w) \<and>
     wired w \<and> flow w = {(1, 0)} \<and> graph_finish (bt_graph w) = Err (Fatal (''graph: slot '' @ show_nat 2 @ '' is empty''))"
proof -
  have ids: "set (all_ids (wi_added tiny_wiring)) = {0, 1}" "wi_reserved tiny_wiring = 3"
    "(\<Union>b\<in>set (wi_added tiny_wiring). node_edges b) = {(1, 0)}"
    by (auto simp: tiny_wiring_def tiny_line_def resolve_sync_def all_ids_def)
  from poll_graph_wired [OF tiny_wiring_reach, of "sync_sink (\<lambda>_. None)" two_edges] obtain w where
    w: "build_added (sync_sink (\<lambda>_. None)) (wi_added tiny_wiring) (built_empty 3 two_edges) = Some (Ok (), w)"
      "wired w" "flow w = {(1, 0)}"
    and f: "case graph_finish (bt_graph w) of Ok g \<Rightarrow> g = bt_graph w \<and> {..<3} \<subseteq> {0 :: nat, 1}
      | Err e \<Rightarrow> \<exists>i < 3. i \<notin> {0, 1} \<and> (\<forall>j < i. j \<in> {0, 1}) \<and> e = Fatal (''graph: slot '' @ show_nat i @ '' is empty'')"
    unfolding ids by blast
  have "2 \<in> {..<3 :: nat}" "2 \<notin> {0 :: nat, 1}" by simp_all
  then have "\<not> {..<3} \<subseteq> {0 :: nat, 1}" by blast
  moreover have two: "i = 2" if "i < 3" "i \<notin> {0 :: nat, 1}" for i using that by auto
  ultimately have "graph_finish (bt_graph w) = Err (Fatal (''graph: slot '' @ show_nat 2 @ '' is empty''))"
  proof (cases "graph_finish (bt_graph w)")
    case (Err e)
    with f obtain i where "i < 3" "i \<notin> {0, 1}" "e = Fatal (''graph: slot '' @ show_nat i @ '' is empty'')" by auto
    with two [of i] Err show ?thesis by blast
  qed (use f in simp)
  with w show ?thesis by blast
qed

end
