(* ===== verification/Poll_Network.thy ===== *)
theory Poll_Network
  imports Poll_Wiring
begin

text \<open>
  A built graph of line nodes at work: every phase of every node polled on one thread, in any order, over
  the channels that Poll_Builder makes, with bridges in and sinks out. A poll is that of Poll_Line over the
  world of Poll_Builder; here are the input of a node with several parents (src/graph/inlet), what a poll
  wakes, and the drop of a node whose phases have all ended.
\<close>

section \<open>Fan-in\<close>

text \<open>\<open>Vec<T>\<close> as a receiver: the first that has a message, closed when all are.\<close>

fun vec_try_recv :: "('e \<Rightarrow> 'w \<Rightarrow> 'm option res \<times> 'w) \<Rightarrow> 'e list \<Rightarrow> bool \<Rightarrow> 'w \<Rightarrow> 'm option res \<times> 'w" where
  "vec_try_recv recv [] all_closed w = (if all_closed then Err Closed else Ok None, w)"
| "vec_try_recv recv (e # es) all_closed w =
     (case recv e w of
        (Ok (Some m), w') \<Rightarrow> (Ok (Some m), w')
      | (Ok None, w') \<Rightarrow> vec_try_recv recv es False w'
      | (Err x, w') \<Rightarrow> if is_closed x then vec_try_recv recv es all_closed w' else (Err x, w'))"

section \<open>The network\<close>

text \<open>A built graph with what its phases keep: the message an Input holds, the phases that have ended and
  the routines that owe a wake (as in Poll_Line). The log is what was received, by which node, from which
  channel (\<open>None\<close>: from its bridge).\<close>

record ('d, 's, 'r, 'k, 'w) net =
  nt_built :: "('d, 's, 'r, 'k, 'w) built"
  nt_held :: "nat \<Rightarrow> 'd option"
  nt_ended :: "nat \<Rightarrow> line_phase set"
  nt_asked :: "nat \<Rightarrow> bool"
  nt_log :: "(nat \<times> nat option \<times> ('d, 's) message) list"

text \<open>The thread starts with every phase due a first poll.\<close>

fun first_due :: "('d, 's, 'r, 'k) graph_node \<Rightarrow> ('d, 's, 'r, 'k) graph_node" where
  "first_due (GLine l) = GLine (l\<lparr>gl_shared := (gl_shared l)\<lparr>pl_woken := {LInput, LWork, LOutput}\<rparr>\<rparr>)"
| "first_due (GBi b) = GBi b"

definition net_start :: "('d, 's, 'r, 'k, 'w) built \<Rightarrow> ('d, 's, 'r, 'k, 'w) net" where
  "net_start b =
     \<lparr>nt_built = b\<lparr>bt_nodes := map first_due (bt_nodes b), bt_wakes := []\<rparr>, nt_held = (\<lambda>_. None), nt_ended = (\<lambda>_. {}),
      nt_asked = (\<lambda>_. False), nt_log = []\<rparr>"

text \<open>Everything node \<open>n\<close> has received; everything received from channel \<open>c\<close>.\<close>

definition taken_by :: "nat \<Rightarrow> ('d, 's, 'r, 'k, 'w) net \<Rightarrow> ('d, 's) message list" where
  "taken_by n w = map (\<lambda>(_, _, m). m) (filter (\<lambda>(n', _, _). n' = n) (nt_log w))"

definition given_by :: "nat \<Rightarrow> ('d, 's, 'r, 'k, 'w) net \<Rightarrow> ('d, 's) message list" where
  "given_by c w = map (\<lambda>(_, _, m). m) (filter (\<lambda>(_, c', _). c' = Some c) (nt_log w))"

definition net_channel :: "('d, 's, 'r, 'k, 'w) net \<Rightarrow> nat \<Rightarrow> ('d, 's) poll_shared" where
  "net_channel w c = bt_channels (nt_built w) ! c"

text \<open>Line nodes only; the rest of a graph is not run here.\<close>

fun as_line :: "('d, 's, 'r, 'k) graph_node \<Rightarrow> ('d, 's, 'r, 'k) line_node option" where
  "as_line (GLine l) = Some l"
| "as_line (GBi b) = None"

definition net_line :: "('d, 's, 'r, 'k, 'w) net \<Rightarrow> nat \<Rightarrow> ('d, 's, 'r, 'k) line_node option" where
  "net_line w n = (if n < length (bt_nodes (nt_built w)) then as_line (bt_nodes (nt_built w) ! n) else None)"

definition put_line ::
  "nat \<Rightarrow> ('d, 's, 'r, 'k) line_node \<Rightarrow> ('d, 's, 'r, 'k, 'w) net \<Rightarrow> ('d, 's, 'r, 'k, 'w) net" where
  "put_line n l w = w\<lparr>nt_built := (nt_built w)\<lparr>bt_nodes := (bt_nodes (nt_built w))[n := GLine l]\<rparr>\<rparr>"

definition put_channel ::
  "nat \<Rightarrow> ('d, 's) poll_shared \<Rightarrow> waker list \<Rightarrow> ('d, 's, 'r, 'k, 'w) built \<Rightarrow> ('d, 's, 'r, 'k, 'w) built" where
  "put_channel c e wk b = b\<lparr>bt_channels := (bt_channels b)[c := e], bt_wakes := bt_wakes b @ wk\<rparr>"

subsection \<open>The input of a node\<close>

definition channel_recv ::
  "nat \<Rightarrow> nat \<Rightarrow> ('d, 's, 'r, 'k, 'w) net \<Rightarrow> ('d, 's) message option res \<times> ('d, 's, 'r, 'k, 'w) net" where
  "channel_recv n c w =
     (if c < length (bt_channels (nt_built w))
      then let (q, e, wk) = pe_try_recv (net_channel w c)
           in (q, w\<lparr>nt_built := put_channel c e wk (nt_built w),
                    nt_log := nt_log w @ map (\<lambda>m. (n, Some c, m)) (popped q)\<rparr>)
      else (Err Closed, w))"

definition bridge_recv ::
  "nat \<Rightarrow> ('d, 's, 'r, 'k, 'w) net \<Rightarrow> ('d, 's) message option res \<times> ('d, 's, 'r, 'k, 'w) net" where
  "bridge_recv n w =
     (case net_line w n of
        Some l \<Rightarrow>
          (case gl_inlet l of
             Bridge rx \<Rightarrow>
               (let (q, sh, _) = waking_try_recv (wr_inner rx); w' = put_line n (l\<lparr>gl_inlet := Bridge (rx\<lparr>wr_inner := sh\<rparr>)\<rparr>) w
                in (q, w'\<lparr>nt_log := nt_log w @ map (\<lambda>m. (n, None, m)) (popped q)\<rparr>))
           | Channels cs \<Rightarrow> (Err Closed, w))
      | None \<Rightarrow> (Err Closed, w))"

text \<open>What a node receives from is fixed by its kind of inlet: its channels, or the bridge it holds.\<close>

fun inlet_recv ::
  "nat \<Rightarrow> ('d, 's) inlet \<Rightarrow> ('d, 's, 'r, 'k, 'w) net \<Rightarrow> ('d, 's) message option res \<times> ('d, 's, 'r, 'k, 'w) net" where
  "inlet_recv n (Channels cs) w = vec_try_recv (channel_recv n) cs True w"
| "inlet_recv n (Bridge rx) w = bridge_recv n w"

subsection \<open>The output of a node\<close>

definition net_rotate ::
  "('k, ('d, 's) message, 'w) sink_ops \<Rightarrow>
   (('d, 's) message, ('k, ('d, 's) message) node_output, ('d, 's, 'r, 'k, 'w) net) rotate_ops" where
  "net_rotate so =
     (let ro = node_rotate so :: (('d, 's) message, ('k, ('d, 's) message) node_output, ('d, 's, 'r, 'k, 'w) built) rotate_ops
      in \<lparr>ro_suspended = ro_suspended ro,
          ro_retry = (\<lambda>x w. let (q, x', b) = ro_retry ro x (nt_built w) in (q, x', w\<lparr>nt_built := b\<rparr>)),
          ro_rotate = (\<lambda>m x w. let (q, x', b) = ro_rotate ro m x (nt_built w) in (q, x', w\<lparr>nt_built := b\<rparr>)),
          ro_close = (\<lambda>x w. let (q, x', b) = ro_close ro x (nt_built w) in (q, x', w\<lparr>nt_built := b\<rparr>)),
          ro_schedule = (\<lambda>wk x w. w\<lparr>nt_built := ro_schedule ro wk x (nt_built w)\<rparr>)\<rparr>)"

subsection \<open>Wakes\<close>

fun line_waker :: "line_wakers \<Rightarrow> line_phase \<Rightarrow> waker" where
  "line_waker v LInput = lw_input v"
| "line_waker v LWork = cx_local (lw_work v)"
| "line_waker v LOutput = lw_output v"

definition woken_phases :: "waker list \<Rightarrow> line_wakers \<Rightarrow> line_phase set" where
  "woken_phases ws v = set (filter (\<lambda>p. line_waker v p \<in> set ws) [LInput, LWork, LOutput])"

fun wake_node :: "waker list \<Rightarrow> ('d, 's, 'r, 'k) graph_node \<Rightarrow> ('d, 's, 'r, 'k) graph_node" where
  "wake_node ws (GLine l) =
     GLine (l\<lparr>gl_shared := (gl_shared l)\<lparr>pl_woken := pl_woken (gl_shared l) \<union> woken_phases ws (gl_wakers l)\<rparr>\<rparr>)"
| "wake_node ws (GBi b) = GBi b"

definition deliver_wakes :: "('d, 's, 'r, 'k, 'w) net \<Rightarrow> ('d, 's, 'r, 'k, 'w) net" where
  "deliver_wakes w =
     w\<lparr>nt_built := (nt_built w)\<lparr>bt_nodes := map (wake_node (bt_wakes (nt_built w))) (bt_nodes (nt_built w)), bt_wakes := []\<rparr>\<rparr>"

subsection \<open>The drop of a node\<close>

text \<open>The last phase to end drops the node's state: its inlet, then its output. What another thread's edge does
  when its handle drops is left to the rest of the program.\<close>

definition drop_receiver :: "nat \<Rightarrow> ('d, 's, 'r, 'k, 'w) built \<Rightarrow> ('d, 's, 'r, 'k, 'w) built" where
  "drop_receiver c b =
     (if c < length (bt_channels b) then let (e, wk) = pe_receiver_drop (bt_channels b ! c) in put_channel c e wk b else b)"

definition drop_sender :: "nat \<Rightarrow> ('d, 's, 'r, 'k, 'w) built \<Rightarrow> ('d, 's, 'r, 'k, 'w) built" where
  "drop_sender c b =
     (if c < length (bt_channels b) then let (e, wk) = pe_sender_drop (bt_channels b ! c) in put_channel c e wk b else b)"

definition drop_line :: "('d, 's, 'r, 'k) line_node \<Rightarrow> ('d, 's, 'r, 'k, 'w) built \<Rightarrow> ('d, 's, 'r, 'k, 'w) built" where
  "drop_line l b =
     (let b1 = fold drop_receiver (inlet_channels (gl_inlet l)) b
      in case output_channel (pl_output (gl_shared l)) of None \<Rightarrow> b1 | Some c \<Rightarrow> drop_sender c b1)"

subsection \<open>Polls and runs\<close>

definition line_sys_of ::
  "nat \<Rightarrow> ('d, 's, 'r, 'k) line_node \<Rightarrow> ('d, 's, 'r, 'k, 'w) net \<Rightarrow>
   ('d, 's, 'r, ('k, ('d, 's) message) node_output, ('d, 's, 'r, 'k, 'w) net) line_sys" where
  "line_sys_of n l w =
     \<lparr>ly_node = gl_shared l, ly_held = nt_held w n, ly_world = w, ly_ended = nt_ended w n, ly_asked = nt_asked w n\<rparr>"

text \<open>The node is written back to the world its poll left.\<close>

definition write_back ::
  "nat \<Rightarrow> ('d, 's, 'r, ('k, ('d, 's) message) node_output, ('d, 's, 'r, 'k, 'w) net) line_sys \<Rightarrow> ('d, 's, 'r, 'k, 'w) net" where
  "write_back n y =
     (case net_line (ly_world y) n of
        None \<Rightarrow> ly_world y
      | Some l \<Rightarrow>
          (put_line n (l\<lparr>gl_shared := ly_node y\<rparr>) (ly_world y))
            \<lparr>nt_held := (nt_held (ly_world y))(n := ly_held y), nt_ended := (nt_ended (ly_world y))(n := ly_ended y),
             nt_asked := (nt_asked (ly_world y))(n := ly_asked y)\<rparr>)"

definition drop_ended :: "nat \<Rightarrow> ('d, 's, 'r, 'k, 'w) net \<Rightarrow> ('d, 's, 'r, 'k, 'w) net" where
  "drop_ended n w =
     (case net_line w n of
        Some l \<Rightarrow> if nt_ended w n = {LInput, LWork, LOutput} then w\<lparr>nt_built := drop_line l (nt_built w)\<rparr> else w
      | None \<Rightarrow> w)"

text \<open>As in the thread's loop: a phase that has ended is passed over, one that returns Closed ends, any other
  error ends the thread.\<close>

definition net_poll ::
  "('d, 'd, 'r) poll_ops \<Rightarrow> ('k, ('d, 's) message, 'w) sink_ops \<Rightarrow> nat \<Rightarrow> line_phase \<Rightarrow> ('d, 's, 'r, 'k, 'w) net \<Rightarrow>
   ('d, 's, 'r, 'k, 'w) net option" where
  "net_poll po so n p w =
     (case net_line w n of
        None \<Rightarrow> None
      | Some l \<Rightarrow>
          (if p \<in> nt_ended w n then Some w
           else (case poll_line_phase po (net_rotate so) (inlet_recv n (gl_inlet l)) p (line_sys_of n l w) of
                   (Ok _, y) \<Rightarrow> Some (deliver_wakes (write_back n y))
                 | (Err e, y) \<Rightarrow>
                     (if is_closed e then Some (deliver_wakes (drop_ended n (write_back n y))) else None))))"

text \<open>The rest of the program: it moves the sinks and the bridges, and wakes.\<close>

datatype ('d, 's, 'w) net_event =
    NPoll nat line_phase
  | NOutside "'w \<Rightarrow> 'w" "nat \<Rightarrow> ('d, 's) shared \<Rightarrow> ('d, 's) shared" "waker list"

fun move_bridge :: "(('d, 's) shared \<Rightarrow> ('d, 's) shared) \<Rightarrow> ('d, 's, 'r, 'k) graph_node \<Rightarrow> ('d, 's, 'r, 'k) graph_node" where
  "move_bridge h (GLine l) =
     (case gl_inlet l of
        Bridge rx \<Rightarrow> GLine (l\<lparr>gl_inlet := Bridge (rx\<lparr>wr_inner := h (wr_inner rx)\<rparr>)\<rparr>)
      | Channels cs \<Rightarrow> GLine l)"
| "move_bridge h (GBi b) = GBi b"

definition net_outside ::
  "('w \<Rightarrow> 'w) \<Rightarrow> (nat \<Rightarrow> ('d, 's) shared \<Rightarrow> ('d, 's) shared) \<Rightarrow> waker list \<Rightarrow> ('d, 's, 'r, 'k, 'w) net \<Rightarrow>
   ('d, 's, 'r, 'k, 'w) net" where
  "net_outside g h ws w =
     (let b = nt_built w
      in deliver_wakes (w\<lparr>nt_built :=
           b\<lparr>bt_sinks := g (bt_sinks b), bt_wakes := bt_wakes b @ ws,
             bt_nodes := map (\<lambda>n. move_bridge (h n) (bt_nodes b ! n)) [0..<length (bt_nodes b)]\<rparr>\<rparr>))"

fun net_event_run ::
  "('d, 'd, 'r) poll_ops \<Rightarrow> ('k, ('d, 's) message, 'w) sink_ops \<Rightarrow> ('d, 's, 'w) net_event \<Rightarrow> ('d, 's, 'r, 'k, 'w) net \<Rightarrow>
   ('d, 's, 'r, 'k, 'w) net option" where
  "net_event_run po so (NPoll n p) w = net_poll po so n p w"
| "net_event_run po so (NOutside g h ws) w = Some (net_outside g h ws w)"

fun net_run ::
  "('d, 'd, 'r) poll_ops \<Rightarrow> ('k, ('d, 's) message, 'w) sink_ops \<Rightarrow> ('d, 's, 'w) net_event list \<Rightarrow> ('d, 's, 'r, 'k, 'w) net \<Rightarrow>
   ('d, 's, 'r, 'k, 'w) net option" where
  "net_run po so [] w = Some w"
| "net_run po so (ev # evs) w = (case net_event_run po so ev w of None \<Rightarrow> None | Some w' \<Rightarrow> net_run po so evs w')"

section \<open>What moves a channel\<close>

text \<open>What its reader (\<open>pops\<close>), its writer (\<open>pushes\<close>), or somebody else can have done to a channel: \<open>g\<close> is what it
  gave out before, \<open>g'\<close> after; \<open>ws\<close> includes the wakers woken.\<close>

definition channel_moves ::
  "bool \<Rightarrow> bool \<Rightarrow> ('d, 's) poll_shared \<Rightarrow> ('d, 's) message list \<Rightarrow> ('d, 's) poll_shared \<Rightarrow> ('d, 's) message list \<Rightarrow>
   waker set \<Rightarrow> bool" where
  "channel_moves pops pushes e g e' g' ws \<longleftrightarrow>
     pe_bound e' = pe_bound e \<and> pe_consumer e' = pe_consumer e \<and> pe_producer e' = pe_producer e \<and>
     (pe_closed e \<longrightarrow> pe_closed e') \<and> (pe_closed e \<and> \<not> pe_refused e \<longrightarrow> \<not> pe_refused e') \<and>
     (\<not> pops \<longrightarrow> g' = g \<and> (pe_refused e \<longrightarrow> pe_refused e') \<and> (pe_buffer e' \<noteq> [] \<longrightarrow> pe_buffer e \<noteq> [] \<or> pe_consumer e \<in> ws) \<and>
        (pe_closed e' \<longrightarrow> pe_closed e \<or> pe_consumer e \<in> ws)) \<and>
     (\<not> pushes \<longrightarrow> g' @ pe_buffer e' = g @ pe_buffer e \<and> (pe_refused e' \<longrightarrow> pe_refused e)) \<and>
     (\<not> pops \<and> \<not> pushes \<longrightarrow> e' = e) \<and>
     (pe_refused e \<and> \<not> pe_refused e' \<longrightarrow> set_option (pe_producer e) \<subseteq> ws) \<and>
     ((pe_refused e \<longrightarrow> pe_is_full e) \<longrightarrow> (pe_refused e' \<longrightarrow> pe_is_full e'))"

lemma channel_moves_refl: "channel_moves pops pushes e g e g ws"
  by (simp add: channel_moves_def)

lemma channel_moves_trans:
  assumes "channel_moves pops pushes e g e1 g1 ws" "channel_moves pops pushes e1 g1 e2 g2 ws2" "ws \<subseteq> ws2"
  shows "channel_moves pops pushes e g e2 g2 ws2"
proof -
  note A = assms(1) [unfolded channel_moves_def] and B = assms(2) [unfolded channel_moves_def]
  have eq: "pe_bound e1 = pe_bound e" "pe_consumer e1 = pe_consumer e" "pe_producer e1 = pe_producer e"
    "pe_bound e2 = pe_bound e" "pe_consumer e2 = pe_consumer e" "pe_producer e2 = pe_producer e"
    using A B by (blast, blast, blast, metis, metis, metis)
  have "pe_refused e \<and> \<not> pe_refused e2 \<longrightarrow> set_option (pe_producer e) \<subseteq> ws2"
    using A B assms(3) eq(3) by (cases "pe_refused e1") (metis subset_trans)+
  moreover have "\<not> pops \<longrightarrow> g2 = g \<and> (pe_refused e \<longrightarrow> pe_refused e2) \<and> (pe_buffer e2 \<noteq> [] \<longrightarrow> pe_buffer e \<noteq> [] \<or> pe_consumer e \<in> ws2) \<and>
      (pe_closed e2 \<longrightarrow> pe_closed e \<or> pe_consumer e \<in> ws2)"
    using A B assms(3) eq(2) by (metis subsetD)
  moreover have "\<not> pushes \<longrightarrow> g2 @ pe_buffer e2 = g @ pe_buffer e \<and> (pe_refused e2 \<longrightarrow> pe_refused e)"
    using A B by metis
  moreover have "\<not> pops \<and> \<not> pushes \<longrightarrow> e2 = e" using A B by metis
  moreover have "pe_closed e \<longrightarrow> pe_closed e2" "pe_closed e \<and> \<not> pe_refused e \<longrightarrow> \<not> pe_refused e2" using A B by metis+
  moreover have "(pe_refused e \<longrightarrow> pe_is_full e) \<longrightarrow> (pe_refused e2 \<longrightarrow> pe_is_full e2)" using A B by metis
  ultimately show ?thesis unfolding channel_moves_def using eq by (intro conjI) assumption+
qed

lemma channel_moves_pop:
  "pe_try_recv e = (q, e', wk) \<Longrightarrow> set wk \<subseteq> ws \<Longrightarrow> channel_moves True pushes e g e' (g @ popped q) ws"
  by (erule pe_try_recv_cases)
    (auto simp: channel_moves_def pe_take_refused_wakes pe_wake_producer_def pe_is_full_def split: option.splits)

lemma channel_moves_push:
  "pe_try_push m e = (q, e', wk) \<Longrightarrow> set wk \<subseteq> ws \<Longrightarrow> channel_moves pops True e g e' g ws"
  by (erule pe_try_push_cases) (auto simp: channel_moves_def pe_is_full_def split: option.splits)

lemma channel_moves_close:
  "close_and_wake e = (e', wk) \<Longrightarrow> set wk \<subseteq> ws \<Longrightarrow> channel_moves pops True e g e' g ws"
  by (cases "pe_bound e") (auto simp: channel_moves_def close_and_wake_def pe_is_full_def split: if_splits)

lemma channel_moves_receiver_drop:
  "pe_receiver_drop e = (e', wk) \<Longrightarrow> set wk \<subseteq> ws \<Longrightarrow>
     channel_moves True pushes e g e' g ws \<and> pe_closed e' \<and> \<not> pe_refused e'"
  by (auto simp: channel_moves_def pe_receiver_drop_def pe_receiver_close_def pe_take_refused_def pe_wake_producer_def
      pe_is_full_def split: if_splits option.splits)

section \<open>Whatever the steps of a poll relate, the poll relates\<close>

lemma vec_try_recv_rel:
  assumes R: "reflp R" "transp R" and v: "\<And>e w q w1. e \<in> E \<Longrightarrow> recv e w = (q, w1) \<Longrightarrow> R w w1"
  shows "set es \<subseteq> E \<Longrightarrow> vec_try_recv recv es b w = (q, w') \<Longrightarrow> R w w'"
proof (induction es arbitrary: b w)
  case Nil
  with R(1) show ?case by (auto dest: reflpD)
next
  case (Cons e es)
  obtain q1 w1 where p: "recv e w = (q1, w1)" by (cases "recv e w") auto
  with v Cons.prems(1) have "R w w1" by auto
  with Cons p show ?case by (auto dest: transpD [OF R(2)] split: result.splits option.splits if_splits)
qed

lemma feed_rounds_rel:
  assumes R: "reflp R" "transp R" and v: "\<And>w q w1. recv w = (q, w1) \<Longrightarrow> R w w1"
  shows "feed_rounds send flush recv n h f w = (q, h', f', w') \<Longrightarrow> R w w'"
proof (induction n arbitrary: h f w)
  case 0
  with R(1) show ?case by (auto dest: reflpD)
next
  case (Suc n)
  obtain q1 h1 f1 w1 where p: "feed_recv send flush recv h f w = (q1, h1, f1, w1)"
    by (cases "feed_recv send flush recv h f w") auto
  then have "R w w1"
    by (auto simp: feed_recv_def split: prod.splits result.splits option.splits message.splits if_splits dest: v)
  with Suc p show ?case by (auto dest: transpD [OF R(2)] split: result.splits flow.splits)
qed

lemma feed_drain_rel:
  assumes R: "reflp R" "transp R" and v: "\<And>w q w1. recv w = (q, w1) \<Longrightarrow> R w w1"
    and d: "feed_drain send flush recv h f w = (q, h', f', w')"
  shows "R w w'"
proof -
  have E: "R w w'" if "feed_rounds send flush recv n h f w = (q, h', f', w')" for n h f w q h' f' w'
    by (rule feed_rounds_rel [OF R _ that]) (rule v)
  from d R(1) show ?thesis
    by (auto simp: feed_drain_def split: prod.splits result.splits flow.splits if_splits dest: reflpD E)
qed

lemma rotate_edges_rel:
  assumes R: "reflp R" "transp R" and v: "\<And>e m w q w1. e \<in> E \<Longrightarrow> op_try_push ops e m w = (q, w1) \<Longrightarrow> R w w1"
  shows "set es \<subseteq> E \<Longrightarrow> rotate_edges ops i es m f w = (q, f', w') \<Longrightarrow> R w w' \<and> f_edges f' = f_edges f"
proof (induction es arbitrary: i w)
  case Nil
  with R(1) show ?case by (auto dest: reflpD)
next
  case (Cons e es)
  obtain q1 w1 where p: "op_try_push ops e m w = (q1, w1)" by (cases "op_try_push ops e m w") auto
  with v Cons.prems(1) have "R w w1" by auto
  with Cons p show ?case
    by (cases es) (auto simp: suspend_def split: result.splits option.splits dest: transpD [OF R(2)])
qed

lemma close_all_rel:
  assumes R: "reflp R" "transp R" and v: "\<And>e w q w1. e \<in> E \<Longrightarrow> op_close ops e w = (q, w1) \<Longrightarrow> R w w1"
  shows "set es \<subseteq> E \<Longrightarrow> close_all ops es r w = (q, w') \<Longrightarrow> R w w'"
proof (induction es arbitrary: r w)
  case Nil
  with R(1) show ?case by (auto dest: reflpD)
next
  case (Cons e es)
  obtain q1 w1 where p: "op_close ops e w = (q1, w1)" by (cases "op_close ops e w") auto
  with v Cons.prems(1) have "R w w1" by auto
  with Cons p show ?case by (auto split: result.splits dest: transpD [OF R(2)])
qed

lemma fanout_rel:
  assumes R: "reflp R" "transp R" and v: "\<And>e m w q w1. e \<in> set (f_edges f) \<Longrightarrow> op_try_push ops e m w = (q, w1) \<Longrightarrow> R w w1"
  shows "fanout_rotate ops m f w = (q, f', w') \<Longrightarrow> R w w' \<and> f_edges f' = f_edges f"
    and "fanout_retry ops f w = (q, f', w') \<Longrightarrow> R w w' \<and> f_edges f' = f_edges f"
proof -
  have E: "R w w' \<and> f_edges f' = f_edges g" if "set es \<subseteq> set (f_edges f)" "rotate_edges ops i es m g w = (q, f', w')"
    for i es m g w q f' w'
    by (rule rotate_edges_rel [OF R _ that]) (rule v)
  show "R w w' \<and> f_edges f' = f_edges f" if "fanout_rotate ops m f w = (q, f', w')"
    using that E [OF subset_refl] R(1)
    by (auto simp: fanout_rotate_def ready_push_def rotate_from_def split: if_splits dest: reflpD)
  show "R w w' \<and> f_edges f' = f_edges f" if r: "fanout_retry ops f w = (q, f', w')"
  proof (cases "f_suspended f")
    case None
    with r R(1) show ?thesis by (auto simp: fanout_retry_def dest: reflpD)
  next
    case (Some s)
    show ?thesis
    proof (cases "sp_index s < length (f_edges f)")
      case False
      with r Some R(1) show ?thesis by (auto simp: fanout_retry_def fanout_edge_def dest: reflpD)
    next
      case True
      obtain q1 w1 where p: "op_try_push ops (f_edges f ! sp_index s) (sp_refused s) w = (q1, w1)"
        by (cases "op_try_push ops (f_edges f ! sp_index s) (sp_refused s) w") auto
      have 1: "R w w1" by (rule v [OF nth_mem [OF True] p])
      note d = E [OF set_drop_subset, where g = "f\<lparr>f_suspended := None\<rparr>"]
      from r Some True p 1 show ?thesis
        by (auto simp: fanout_retry_def fanout_edge_def rotate_rest_def rotate_from_def suspend_def Let_def
            split: result.splits option.splits dest!: d intro: transpD [OF R(2)])
    qed
  qed
qed

lemma single_rel:
  assumes R: "reflp R" "transp R" and v: "\<And>m w q w1. op_try_push ops (sg_edge g) m w = (q, w1) \<Longrightarrow> R w w1"
  shows "single_rotate ops m g w = (q, g', w') \<Longrightarrow> R w w' \<and> sg_edge g' = sg_edge g"
    and "single_retry ops g w = (q, g', w') \<Longrightarrow> R w w' \<and> sg_edge g' = sg_edge g"
proof -
  have d: "R w w' \<and> sg_edge g' = sg_edge g" if "single_deliver ops m g1 w = (q, g', w')" "sg_edge g1 = sg_edge g" for m g1 w w' q g'
    using that v by (auto simp: single_deliver_def split: prod.splits result.splits option.splits)
  show "R w w' \<and> sg_edge g' = sg_edge g" if "single_rotate ops m g w = (q, g', w')"
    using that d R(1) by (auto simp: single_rotate_def split: if_splits dest: reflpD)
  show "R w w' \<and> sg_edge g' = sg_edge g" if "single_retry ops g w = (q, g', w')"
    using that d R(1) by (auto simp: single_retry_def split: option.splits dest: reflpD)
qed

text \<open>An Output poll is rotations and retries, and a close; \<open>J\<close> is what they keep of the output, and \<open>P\<close> what each
  leaves true when it succeeds.\<close>

definition steers :: "('m, 'f, 'w) rotate_ops \<Rightarrow> ('w \<Rightarrow> 'w \<Rightarrow> bool) \<Rightarrow> ('f \<Rightarrow> bool) \<Rightarrow> bool" where
  "steers ro R J \<longleftrightarrow> reflp R \<and> transp R \<and>
     (\<forall>g w q g1 w1. J g \<and> ro_retry ro g w = (q, g1, w1) \<longrightarrow> R w w1 \<and> J g1) \<and>
     (\<forall>m g w q g1 w1. J g \<and> ro_rotate ro m g w = (q, g1, w1) \<longrightarrow> R w w1 \<and> J g1) \<and>
     (\<forall>g w q g1 w1. J g \<and> ro_close ro g w = (q, g1, w1) \<longrightarrow> R w w1 \<and> J g1)"

definition steered :: "('w \<Rightarrow> 'w \<Rightarrow> bool) \<Rightarrow> ('f \<Rightarrow> bool) \<Rightarrow> 'w \<Rightarrow> ('s, 'r, 'f, 'p) emit \<Rightarrow> 'w \<Rightarrow> bool" where
  "steered R J w0 e w \<longleftrightarrow> R w0 w \<and> J (em_output e)"

lemma steered_update [simp]:
  "steered R J w0 (e\<lparr>em_routine := r\<rparr>) w = steered R J w0 e w" "steered R J w0 (e\<lparr>em_state := st\<rparr>) w = steered R J w0 e w"
  "steered R J w0 (e\<lparr>em_woken := v\<rparr>) w = steered R J w0 e w" "steered R J w0 (emit_running e) w = steered R J w0 e w"
  "steered R J w0 (emit_close e) w = steered R J w0 e w"
  by (simp_all add: steered_def emit_running_def emit_close_def emit_wake_inputs_def Let_def)

lemma steers_step:
  assumes "steers ro R J" "steered R J w0 e w"
  shows "ro_retry ro (em_output e) w = (q, g, w1) \<Longrightarrow> steered R J w0 (e\<lparr>em_output := g\<rparr>) w1"
    and "ro_rotate ro m (em_output e) w = (q, g, w1) \<Longrightarrow> steered R J w0 (e\<lparr>em_output := g\<rparr>) w1"
    and "ro_close ro (em_output e) w = (qu, g, w1) \<Longrightarrow> steered R J w0 (e\<lparr>em_output := g\<rparr>) w1"
proof -
  note S = assms(1) [unfolded steers_def] and r = assms(2) [unfolded steered_def]
  have t: "steered R J w0 (e\<lparr>em_output := g\<rparr>) w1" if "R w w1 \<and> J g"
  proof -
    have "transp R" using S by blast
    from transpD [OF this, of w0 w w1] r that show ?thesis by (simp add: steered_def)
  qed
  show "steered R J w0 (e\<lparr>em_output := g\<rparr>) w1" if "ro_retry ro (em_output e) w = (q, g, w1)"
    by (rule t) (use S r that in blast)
  show "steered R J w0 (e\<lparr>em_output := g\<rparr>) w1" if "ro_rotate ro m (em_output e) w = (q, g, w1)"
    by (rule t) (use S r that in blast)
  show "steered R J w0 (e\<lparr>em_output := g\<rparr>) w1" if "ro_close ro (em_output e) w = (qu, g, w1)"
    by (rule t) (use S r that in blast)
qed

lemma steers_start:
  "steers ro R J \<Longrightarrow> emit_start ro m e w = (q, e', w') \<Longrightarrow> steered R J w0 e w \<Longrightarrow> steered R J w0 e' w'"
  by (auto simp: emit_start_def Let_def split: prod.splits dest: steers_step)

lemma steers_settled:
  "steers ro R J \<Longrightarrow> emit_settled ro e w = (q, e', w') \<Longrightarrow> steered R J w0 e w \<Longrightarrow> steered R J w0 e' w'"
  by (auto simp: emit_settled_def Let_def split: prod.splits result.splits dest: steers_step)

lemma steers_rounds:
  assumes s: "steers ro R J"
  shows "emit_rounds nxt ro n e w = (q, e', w') \<Longrightarrow> steered R J w0 e w \<Longrightarrow> steered R J w0 e' w'"
proof (induction n arbitrary: e w)
  case (Suc n)
  obtain q1 r where n: "nxt (em_routine e) = (q1, r)" by (cases "nxt (em_routine e)") auto
  show ?case
  proof (cases "\<exists>y. q1 = Ok (Some y)")
    case False
    with Suc.prems n show ?thesis by (auto split: result.splits option.splits)
  next
    case True
    then obtain y where y: "q1 = Ok (Some y)" by blast
    obtain q2 e2 w2 where p: "emit_start ro (Data y) (e\<lparr>em_routine := r\<rparr>) w = (q2, e2, w2)"
      by (cases "emit_start ro (Data y) (e\<lparr>em_routine := r\<rparr>) w") auto
    from steers_start [OF s p] Suc.prems(2) have "steered R J w0 e2 w2" by simp
    with Suc.prems(1) Suc.IH n y p show ?thesis by (auto split: result.splits if_splits)
  qed
qed auto

lemma steers_drain:
  assumes s: "steers ro R J" and p: "emit_drain nxt ro e w = (q, e', w')" and j: "steered R J w0 e w"
  shows "steered R J w0 e' w'"
proof -
  obtain q1 e1 w1 where t: "emit_settled ro e w = (q1, e1, w1)" by (cases "emit_settled ro e w") auto
  have "steered R J w0 e1 w1" by (rule steers_settled [OF s t j])
  with p t show ?thesis
    by (auto simp: emit_drain_def split: result.splits bool.splits dest: steers_rounds [OF s])
qed

lemma steers_signal:
  assumes s: "steers ro R J" and p: "emit_signal nxt ro sig e w = (q, e', w')" and j: "steered R J w0 e w"
  shows "steered R J w0 e' w'"
proof -
  obtain q1 e1 w1 where t: "emit_drain nxt ro e w = (q1, e1, w1)" by (cases "emit_drain nxt ro e w") auto
  have 1: "steered R J w0 e1 w1" by (rule steers_drain [OF s t j])
  obtain q2 e2 w2 where u: "emit_start ro sig (e1\<lparr>em_state := Forwarding\<rparr>) w1 = (q2, e2, w2)"
    by (cases "emit_start ro sig (e1\<lparr>em_state := Forwarding\<rparr>) w1") auto
  with steers_start [OF s u] 1 have "steered R J w0 e2 w2" by simp
  note 2 = this
  show ?thesis
  proof (cases "q1 = Ok DDone")
    case True
    with p t u 2 show ?thesis by (cases q2) (auto simp: emit_signal_def split: if_splits)
  next
    case False
    with p t 1 show ?thesis by (cases q1) (auto simp: emit_signal_def split: drained.splits)
  qed
qed

lemma steers_poll:
  assumes s: "steers ro R J" and p: "emit_poll nxt ro e w = (q, e', w')" and j: "J (em_output e)"
  shows "R w w' \<and> J (em_output e')"
proof -
  have "reflp R" using s unfolding steers_def by blast
  from reflpD [OF this] j have j0: "steered R J w e w" by (simp add: steered_def)
  obtain q1 e1 w1 where t: "emit_drain nxt ro e w = (q1, e1, w1)" by (cases "emit_drain nxt ro e w") auto
  obtain q2 e2 w2 where u: "emit_settled ro e w = (q2, e2, w2)" by (cases "emit_settled ro e w") auto
  obtain q3 g3 w3 where c: "ro_close ro (em_output e1) w1 = (q3, g3, w3)" by (cases "ro_close ro (em_output e1) w1") auto
  note k = steers_drain [OF s t j0] steers_settled [OF s u j0]
  note k3 = steers_step(3) [OF s k(1) c]
  have "steered R J w e' w'" if "emit_step nxt ro e w = (q', e', w')" for q' e' w'
  proof (cases "em_state e")
    case (FlushReady x)
    with that have "emit_signal nxt ro (Flush x) e w = (q', e', w')" by (simp add: emit_step_def)
    from steers_signal [OF s this j0] show ?thesis .
  next
    case (MarkerReady x)
    with that have "emit_signal nxt ro (Marker x) e w = (q', e', w')" by (simp add: emit_step_def)
    from steers_signal [OF s this j0] show ?thesis .
  next
    case Forwarding
    with that u k(2) show ?thesis by (cases q2) (auto simp: emit_step_def)
  next
    case CloseReady
    show ?thesis
    proof (cases "\<exists>x. q1 = Err x \<or> q1 = Ok DYielded")
      case True
      with CloseReady that t k(1) show ?thesis by (auto simp: emit_step_def)
    next
      case False
      then have "q1 = Ok DDone \<or> q1 = Ok DParked" by (cases q1) (auto intro: drained.exhaust)
      with CloseReady that t c k3 show ?thesis by (cases q3) (auto simp: emit_step_def Let_def)
    qed
  next
    case NClosed
    with that j0 show ?thesis by (simp add: emit_step_def)
  qed (use that t k(1) in \<open>cases q1; auto simp: emit_step_def\<close>)+
  with p show ?thesis by (auto simp: emit_poll_def Let_def steered_def [symmetric] split: prod.splits if_splits)
qed

text \<open>\<open>P\<close> is what every rotation and every retry that succeeds leaves true: so does an Output poll that succeeds.\<close>

definition settles :: "('m, 'f, 'w) rotate_ops \<Rightarrow> ('f \<Rightarrow> 'w \<Rightarrow> bool) \<Rightarrow> bool" where
  "settles ro P \<longleftrightarrow>
     (\<forall>g w rot g1 w1. ro_retry ro g w = (Ok rot, g1, w1) \<longrightarrow> P g1 w1) \<and>
     (\<forall>m g w rot g1 w1. ro_rotate ro m g w = (Ok rot, g1, w1) \<longrightarrow> P g1 w1)"

lemma emit_running_output [simp]: "em_output (emit_running e) = em_output e"
  by (simp add: emit_running_def emit_wake_inputs_def Let_def)

lemma settles_start: "settles ro P \<Longrightarrow> emit_start ro m e w = (Ok rot, e', w') \<Longrightarrow> P (em_output e') w'"
  by (auto simp: emit_start_def settles_def Let_def split: prod.splits)

lemma settles_settled: "settles ro P \<Longrightarrow> emit_settled ro e w = (Ok b, e', w') \<Longrightarrow> P (em_output e') w'"
  by (auto simp: emit_settled_def settles_def Let_def split: prod.splits result.splits)

lemma settles_rounds:
  assumes s: "settles ro P"
  shows "emit_rounds nxt ro n e w = (Ok dr, e', w') \<Longrightarrow> P (em_output e) w \<Longrightarrow> P (em_output e') w'"
proof (induction n arbitrary: e w)
  case (Suc n)
  obtain q1 r where n: "nxt (em_routine e) = (q1, r)" by (cases "nxt (em_routine e)") auto
  show ?case
  proof (cases "\<exists>y. q1 = Ok (Some y)")
    case False
    with Suc.prems n show ?thesis by (auto split: result.splits option.splits)
  next
    case True
    then obtain y where y: "q1 = Ok (Some y)" by blast
    obtain q2 e2 w2 where p: "emit_start ro (Data y) (e\<lparr>em_routine := r\<rparr>) w = (q2, e2, w2)"
      by (cases "emit_start ro (Data y) (e\<lparr>em_routine := r\<rparr>) w") auto
    with Suc.prems n y obtain rot where q2: "q2 = Ok rot" by (cases q2) auto
    with settles_start [OF s] p have "P (em_output e2) w2" by blast
    with Suc.prems(1) Suc.IH n y p q2 show ?thesis by (auto split: if_splits)
  qed
qed auto

lemma settles_drain:
  assumes s: "settles ro P" and p: "emit_drain nxt ro e w = (Ok dr, e', w')"
  shows "P (em_output e') w'"
proof -
  obtain q1 e1 w1 where t: "emit_settled ro e w = (q1, e1, w1)" by (cases "emit_settled ro e w") auto
  with p obtain b where b: "q1 = Ok b" by (cases q1) (auto simp: emit_drain_def)
  with settles_settled [OF s] t have "P (em_output e1) w1" by blast
  with p t b show ?thesis by (cases b) (auto simp: emit_drain_def dest: settles_rounds [OF s])
qed

lemma settles_signal:
  assumes s: "settles ro P" and p: "emit_signal nxt ro sig e w = (Ok v, e', w')"
  shows "P (em_output e') w'"
proof -
  obtain q1 e1 w1 where t: "emit_drain nxt ro e w = (q1, e1, w1)" by (cases "emit_drain nxt ro e w") auto
  with p obtain dr where b: "q1 = Ok dr" by (cases q1) (auto simp: emit_signal_def)
  with settles_drain [OF s] t have 1: "P (em_output e1) w1" by blast
  obtain q2 e2 w2 where u: "emit_start ro sig (e1\<lparr>em_state := Forwarding\<rparr>) w1 = (q2, e2, w2)"
    by (cases "emit_start ro sig (e1\<lparr>em_state := Forwarding\<rparr>) w1") auto
  show ?thesis
  proof (cases "dr = DDone")
    case True
    with p t u b obtain rot where "q2 = Ok rot" by (cases q2) (auto simp: emit_signal_def)
    with p t u b True settles_start [OF s u [unfolded \<open>q2 = Ok rot\<close>]] show ?thesis
      by (auto simp: emit_signal_def split: if_splits)
  next
    case False
    with p t b 1 show ?thesis by (cases dr) (auto simp: emit_signal_def)
  qed
qed

lemma settles_poll:
  assumes s: "settles ro P" and p: "emit_poll nxt ro e w = (Ok v, e', w')"
  shows "P (em_output e') w'"
proof -
  from p have t: "emit_step nxt ro e w = (Ok v, e', w')" by (auto simp: emit_poll_def Let_def split: prod.splits if_splits)
  have d: "P (em_output e') w'" if "emit_drain nxt ro e w = (Ok dr, e', w')" for dr
    by (rule settles_drain [OF s that])
  show ?thesis
  proof (cases "em_state e")
    case (FlushReady x)
    with t have "emit_signal nxt ro (Flush x) e w = (Ok v, e', w')" by (simp add: emit_step_def)
    then show ?thesis by (rule settles_signal [OF s])
  next
    case (MarkerReady x)
    with t have "emit_signal nxt ro (Marker x) e w = (Ok v, e', w')" by (simp add: emit_step_def)
    then show ?thesis by (rule settles_signal [OF s])
  next
    case Forwarding
    obtain q2 e2 w2 where u: "emit_settled ro e w = (q2, e2, w2)" by (cases "emit_settled ro e w") auto
    with Forwarding t obtain b where b: "q2 = Ok b" by (cases q2) (auto simp: emit_step_def)
    with settles_settled [OF s] u have "P (em_output e2) w2" by blast
    with Forwarding t u b show ?thesis by (auto simp: emit_step_def split: if_splits)
  next
    case CloseReady
    with t have "emit_drain nxt ro e w = (Ok DYielded, e', w')"
      by (auto simp: emit_step_def Let_def split: prod.splits result.splits drained.splits)
    then show ?thesis by (rule d)
  next
    case NClosed
    with t show ?thesis by (simp add: emit_step_def)
  qed (use t d in \<open>auto simp: emit_step_def split: prod.splits result.splits\<close>)
qed

section \<open>What a poll of one node may do to the network\<close>

fun same_inlet :: "('d, 's) inlet \<Rightarrow> ('d, 's) inlet \<Rightarrow> bool" where
  "same_inlet (Channels cs) (Channels cs') = (cs' = cs)"
| "same_inlet (Bridge rx) (Bridge rx') = (wr_waker rx' = wr_waker rx)"
| "same_inlet _ _ = False"

lemma same_inlet_refl [simp]: "same_inlet i i"
  by (cases i) simp_all

lemma same_inlet_trans: "same_inlet i j \<Longrightarrow> same_inlet j k \<Longrightarrow> same_inlet i k"
  by (cases i; cases j; cases k) auto

lemma same_inlet_channels: "same_inlet i j \<Longrightarrow> inlet_channels j = inlet_channels i"
  by (cases i; cases j) auto

definition same_line :: "('d, 's, 'r, 'k) line_node \<Rightarrow> ('d, 's, 'r, 'k) line_node \<Rightarrow> bool" where
  "same_line l l' \<longleftrightarrow> same_inlet (gl_inlet l) (gl_inlet l') \<and> gl_wakers l' = gl_wakers l \<and> gl_shared l' = gl_shared l"

lemma same_line_refl [simp]: "same_line l l"
  by (simp add: same_line_def)

lemma same_line_trans: "same_line l l1 \<Longrightarrow> same_line l1 l2 \<Longrightarrow> same_line l l2"
  by (auto simp: same_line_def intro: same_inlet_trans)

type_synonym ('d, 's, 'r) sync_net = "('d, 's, 'r, nat \<times> nat, ('d, 's) sync_world) net"

text \<open>Node \<open>n\<close> at work, with the channels \<open>I\<close> to read, the channel \<open>t\<close> to write and the handles \<open>K\<close> on edges to other
  threads: every other node, and every channel and handle it does not have, stays as it was.\<close>

definition net_moves ::
  "nat \<Rightarrow> nat set \<Rightarrow> nat option \<Rightarrow> (nat \<times> nat) set \<Rightarrow> ('d, 's, 'r) sync_net \<Rightarrow> ('d, 's, 'r) sync_net \<Rightarrow> bool" where
  "net_moves n I t K w w' \<longleftrightarrow>
     length (bt_nodes (nt_built w')) = length (bt_nodes (nt_built w)) \<and>
     (\<forall>m. m \<noteq> n \<longrightarrow> net_line w' m = net_line w m \<and> taken_by m w' = taken_by m w) \<and>
     rel_option same_line (net_line w n) (net_line w' n) \<and>
     length (bt_channels (nt_built w')) = length (bt_channels (nt_built w)) \<and>
     set (bt_wakes (nt_built w)) \<subseteq> set (bt_wakes (nt_built w')) \<and>
     (\<forall>c < length (bt_channels (nt_built w)).
        channel_moves (c \<in> I) (t = Some c) (net_channel w c) (given_by c w) (net_channel w' c) (given_by c w')
          (set (bt_wakes (nt_built w')))) \<and>
     (\<forall>k. k \<notin> K \<longrightarrow> sw_took (bt_sinks (nt_built w')) k = sw_took (bt_sinks (nt_built w)) k) \<and>
     nt_held w' = nt_held w \<and> nt_ended w' = nt_ended w \<and> nt_asked w' = nt_asked w"

lemma net_moves_refl: "net_moves n I t K w w"
  by (auto simp: net_moves_def channel_moves_refl intro: option.rel_refl)

lemma net_moves_trans:
  assumes a: "net_moves n I t K w w1" and b: "net_moves n I t K w1 w2"
  shows "net_moves n I t K w w2"
proof -
  note A = a [unfolded net_moves_def] and B = b [unfolded net_moves_def]
  have "rel_option same_line (net_line w n) (net_line w2 n)"
    using A B by (cases "net_line w n"; cases "net_line w1 n"; cases "net_line w2 n") (auto intro: same_line_trans)
  moreover have "channel_moves (c \<in> I) (t = Some c) (net_channel w c) (given_by c w) (net_channel w2 c) (given_by c w2)
      (set (bt_wakes (nt_built w2)))" if "c < length (bt_channels (nt_built w))" for c
    by (rule channel_moves_trans [of _ _ _ _ "net_channel w1 c" "given_by c w1" "set (bt_wakes (nt_built w1))"])
      (use A B that in auto)
  ultimately show ?thesis unfolding net_moves_def using A B by auto
qed

lemma net_moves_preorder: "reflp (net_moves n I t K)" "transp (net_moves n I t K)"
  by (auto intro!: reflpI transpI net_moves_refl intro: net_moves_trans)

lemma log_simps [simp]:
  "taken_by n (w\<lparr>nt_log := lg @ map (\<lambda>m. (n', s, m)) ms\<rparr>) = taken_by n (w\<lparr>nt_log := lg\<rparr>) @ (if n' = n then ms else [])"
  "given_by c (w\<lparr>nt_log := lg @ map (\<lambda>m. (n', s, m)) ms\<rparr>) = given_by c (w\<lparr>nt_log := lg\<rparr>) @ (if s = Some c then ms else [])"
  by (simp_all add: taken_by_def given_by_def filter_map comp_def)

lemma log_same [simp]:
  "taken_by n (w\<lparr>nt_built := b\<rparr>) = taken_by n w" "given_by c (w\<lparr>nt_built := b\<rparr>) = given_by c w"
  "taken_by n (w\<lparr>nt_log := nt_log w\<rparr>) = taken_by n w" "given_by c (w\<lparr>nt_log := nt_log w\<rparr>) = given_by c w"
  "taken_by n (w\<lparr>nt_built := b, nt_log := nt_log w\<rparr>) = taken_by n w" "given_by c (w\<lparr>nt_built := b, nt_log := nt_log w\<rparr>) = given_by c w"
  by (simp_all add: taken_by_def given_by_def)

lemma net_built_same [simp]: "w\<lparr>nt_built := nt_built w\<rparr> = w"
  by simp

lemma put_channel_fields [simp]:
  "bt_nodes (put_channel c e wk b) = bt_nodes b" "bt_channels (put_channel c e wk b) = (bt_channels b)[c := e]"
  "bt_wakes (put_channel c e wk b) = bt_wakes b @ wk" "bt_sinks (put_channel c e wk b) = bt_sinks b"
  by (simp_all add: put_channel_def)

lemma net_line_built: "bt_nodes b = bt_nodes (nt_built w) \<Longrightarrow> net_line (w\<lparr>nt_built := b\<rparr>) m = net_line w m"
  by (simp add: net_line_def)

lemma net_line_log [simp]: "net_line (w\<lparr>nt_log := lg\<rparr>) m = net_line w m"
  by (simp add: net_line_def)

lemma rel_option_same [simp]: "rel_option same_line x x"
  by (cases x) simp_all

text \<open>One move of one channel.\<close>

lemma net_moves_channel:
  assumes c: "c < length (bt_channels (nt_built w))"
    and m: "channel_moves (c \<in> I) (t = Some c) (net_channel w c) (given_by c w) e (given_by c w @ ms)
        (set (bt_wakes (nt_built w) @ wk))"
  shows "net_moves n I t K w (w\<lparr>nt_built := put_channel c e wk (nt_built w), nt_log := nt_log w @ map (\<lambda>m. (n, Some c, m)) ms\<rparr>)"
proof -
  let ?w = "w\<lparr>nt_built := put_channel c e wk (nt_built w), nt_log := nt_log w @ map (\<lambda>m. (n, Some c, m)) ms\<rparr>"
  have "net_channel ?w d = (if d = c then e else net_channel w d)" for d
    using c by (simp add: net_channel_def)
  moreover have "given_by d ?w = given_by d w @ (if d = c then ms else [])" for d by simp
  ultimately show ?thesis
    using m by (auto simp: net_moves_def net_line_built channel_moves_refl)
qed

lemma channel_recv_moves:
  assumes r: "channel_recv n c w = (q, w')" and c: "c \<in> I"
  shows "net_moves n I t K w w'"
proof (cases "c < length (bt_channels (nt_built w))")
  case True
  obtain q1 e wk where p: "pe_try_recv (net_channel w c) = (q1, e, wk)" by (cases "pe_try_recv (net_channel w c)") auto
  have "channel_moves True (t = Some c) (net_channel w c) (given_by c w) e (given_by c w @ popped q1) (set (bt_wakes (nt_built w) @ wk))"
    by (rule channel_moves_pop [OF p]) simp
  with net_moves_channel [OF True, of I t e "popped q1" wk n K] True r p c show ?thesis by (auto simp: channel_recv_def)
qed (use r net_moves_refl in \<open>auto simp: channel_recv_def\<close>)

lemma bridge_recv_moves:
  assumes r: "bridge_recv n w = (q, w')"
  shows "net_moves n I t K w w'"
proof (cases "\<exists>l rx. net_line w n = Some l \<and> gl_inlet l = Bridge rx")
  case True
  then obtain l rx where l: "net_line w n = Some l" "gl_inlet l = Bridge rx" by blast
  then have n: "n < length (bt_nodes (nt_built w))" by (simp add: net_line_def split: if_splits)
  obtain q1 sh eff where p: "waking_try_recv (wr_inner rx) = (q1, sh, eff)" by (cases "waking_try_recv (wr_inner rx)") auto
  let ?l = "l\<lparr>gl_inlet := Bridge (rx\<lparr>wr_inner := sh\<rparr>)\<rparr>"
  let ?w = "put_line n ?l w"
  have w': "w' = ?w\<lparr>nt_log := nt_log ?w @ map (\<lambda>m. (n, None, m)) (popped q1)\<rparr>"
    using r l p by (auto simp: bridge_recv_def Let_def put_line_def)
  have "net_line w' m = (if m = n then Some ?l else net_line w m)" for m
    using n unfolding w' by (simp add: net_line_def put_line_def)
  moreover have "same_line l ?l" using l by (simp add: same_line_def)
  moreover have "given_by c w' = given_by c w" "m \<noteq> n \<Longrightarrow> taken_by m w' = taken_by m w" for c m
    unfolding w' by (simp_all add: put_line_def del: log_simps) (simp_all add: taken_by_def given_by_def)
  moreover have "net_channel w' c = net_channel w c" for c unfolding w' by (simp add: net_channel_def put_line_def)
  ultimately show ?thesis using l by (simp add: net_moves_def channel_moves_refl w') (simp add: put_line_def)
next
  case False
  with r have "w' = w" by (auto simp: bridge_recv_def split: option.splits inlet.splits)
  then show ?thesis by (simp add: net_moves_refl)
qed

lemma inlet_recv_moves:
  assumes r: "inlet_recv n i w = (q, w')" and c: "set (inlet_channels i) \<subseteq> I"
  shows "net_moves n I t K w w'"
proof (cases i)
  case (Bridge rx)
  with r bridge_recv_moves show ?thesis by auto
next
  case (Channels cs)
  with r have v: "vec_try_recv (channel_recv n) cs True w = (q, w')" by simp
  from Channels c have "set cs \<subseteq> I" by simp
  from vec_try_recv_rel [OF net_moves_preorder _ this v] channel_recv_moves show ?thesis by blast
qed

fun outer_handles :: "('k, 'm) node_output \<Rightarrow> 'k set" where
  "outer_handles (Fan f) = set (f_edges f)"
| "outer_handles (One g) = (case sg_edge g of ToSink k \<Rightarrow> {k} | _ \<Rightarrow> {})"

definition routed :: "nat option \<Rightarrow> 'k set \<Rightarrow> ('k, 'm) node_output \<Rightarrow> bool" where
  "routed t K x \<longleftrightarrow> output_channel x = t \<and> outer_handles x = K"

lemma net_moves_sinks:
  assumes "\<And>k. k \<notin> K \<Longrightarrow> sw_took v k = sw_took (bt_sinks (nt_built w)) k"
  shows "net_moves n I t K w (w\<lparr>nt_built := (nt_built w)\<lparr>bt_sinks := v\<rparr>\<rparr>)"
  using assms by (simp add: net_moves_def net_line_built channel_moves_refl net_channel_def)

lemma net_moves_put:
  assumes c: "c < length (bt_channels (nt_built w))"
    and m: "channel_moves (c \<in> I) (t = Some c) (net_channel w c) (given_by c w) e (given_by c w) (set (bt_wakes (nt_built w) @ wk))"
  shows "net_moves n I t K w (w\<lparr>nt_built := put_channel c e wk (nt_built w)\<rparr>)"
  using net_moves_channel [of c w I t e "[]" wk n K] assms by simp

text \<open>The outputs' operations, on the graph inside the network.\<close>

definition inside :: "('d, 's, 'r) sync_net \<Rightarrow> (('d, 's, 'r) sync_net \<Rightarrow> ('d, 's, 'r) sync_net \<Rightarrow> bool) \<Rightarrow>
    ('d, 's, 'r, nat \<times> nat, ('d, 's) sync_world) built \<Rightarrow> ('d, 's, 'r, nat \<times> nat, ('d, 's) sync_world) built \<Rightarrow> bool" where
  "inside w R b b' \<longleftrightarrow> R (w\<lparr>nt_built := b\<rparr>) (w\<lparr>nt_built := b'\<rparr>)"

lemma inside_preorder: "reflp R \<Longrightarrow> reflp (inside w R)" "transp R \<Longrightarrow> transp (inside w R)"
  by (auto simp: inside_def reflp_def transp_def)

lemma outer_push_moves:
  assumes "op_try_push (outer_sink (sync_sink env)) k m b = (q, b')" and "k \<in> K"
  shows "inside w (net_moves n I t K) b b'"
proof -
  obtain q1 v where p: "sw_try_push k m (bt_sinks b) = (q1, v)" by (cases "sw_try_push k m (bt_sinks b)") auto
  with assms(1) have b': "b' = b\<lparr>bt_sinks := v\<rparr>" by (auto simp: outer_sink_def sync_sink_def)
  have "sw_took v j = sw_took (bt_sinks b) j" if "j \<notin> K" for j
    using sw_try_push_took [OF p, of j] assms(2) that by auto
  with net_moves_sinks [of K v "w\<lparr>nt_built := b\<rparr>" n I t] show ?thesis unfolding inside_def b' by simp
qed

lemma outer_close_moves:
  assumes "op_close (outer_sink (sync_sink env)) k b = (q, b')"
  shows "inside w (net_moves n I t K) b b'"
proof -
  obtain q1 v where p: "sw_close k (bt_sinks b) = (q1, v)" by (cases "sw_close k (bt_sinks b)") auto
  with assms(1) have b': "b' = b\<lparr>bt_sinks := v\<rparr>" by (auto simp: outer_sink_def sync_sink_def)
  from p have "sw_took v = sw_took (bt_sinks b)" by (auto simp: sw_close_def)
  with net_moves_sinks [of K v "w\<lparr>nt_built := b\<rparr>" n I t] show ?thesis unfolding inside_def b' by auto
qed

lemma graph_push_moves:
  assumes p: "op_try_push (graph_sink (sync_sink env)) e m b = (q, b')"
    and r: "\<And>c. e = ToChannel c \<Longrightarrow> t = Some c" "\<And>k. e = ToSink k \<Longrightarrow> k \<in> K"
  shows "inside w (net_moves n I t K) b b'"
proof (cases e)
  case (ToChannel c)
  obtain q1 ch wk where x: "pe_try_push m (bt_channels b ! c) = (q1, ch, wk)" by (cases "pe_try_push m (bt_channels b ! c)") auto
  show ?thesis
  proof (cases "c < length (bt_channels b)")
    case True
    with p ToChannel x have b': "b' = put_channel c ch wk b" by (auto simp: graph_sink_def put_channel_def)
    have "channel_moves (c \<in> I) True (bt_channels b ! c) (given_by c w) ch (given_by c w) (set (bt_wakes b @ wk))"
      by (rule channel_moves_push [OF x]) simp
    with net_moves_put [of c "w\<lparr>nt_built := b\<rparr>" I t ch wk n K] True r(1) [OF ToChannel]
    show ?thesis unfolding inside_def b' by (simp add: net_channel_def)
  next
    case False
    with p ToChannel show ?thesis by (auto simp: graph_sink_def inside_def net_moves_refl)
  qed
next
  case ToNull
  with p show ?thesis by (auto simp: graph_sink_def inside_def net_moves_refl)
next
  case (ToSink k)
  with p have "op_try_push (outer_sink (sync_sink env)) k m b = (q, b')" by (simp add: graph_sink_def)
  with outer_push_moves r(2) ToSink show ?thesis by blast
qed

lemma graph_close_moves:
  assumes p: "op_close (graph_sink (sync_sink env)) e b = (q, b')" and r: "\<And>c. e = ToChannel c \<Longrightarrow> t = Some c"
  shows "inside w (net_moves n I t K) b b'"
proof (cases e)
  case (ToChannel c)
  obtain ch wk where x: "close_and_wake (bt_channels b ! c) = (ch, wk)" by (cases "close_and_wake (bt_channels b ! c)") auto
  with p ToChannel have b': "b' = put_channel c ch wk b" by (auto simp: graph_sink_def put_channel_def pe_close_def)
  have "channel_moves (c \<in> I) True (bt_channels b ! c) (given_by c w) ch (given_by c w) (set (bt_wakes b @ wk))"
    by (rule channel_moves_close [OF x]) simp
  note m = this
  show ?thesis
  proof (cases "c < length (bt_channels b)")
    case True
    with net_moves_put [of c "w\<lparr>nt_built := b\<rparr>" I t ch wk n K] m r [OF ToChannel]
    show ?thesis unfolding inside_def b' by (simp add: net_channel_def)
  next
    case False
    then show ?thesis unfolding inside_def b'
      by (auto simp: net_moves_def net_line_def net_channel_def channel_moves_refl list_update_beyond)
  qed
next
  case ToNull
  with p show ?thesis by (auto simp: graph_sink_def inside_def net_moves_refl)
next
  case (ToSink k)
  with p have "op_close (outer_sink (sync_sink env)) k b = (q, b')" by (simp add: graph_sink_def)
  with outer_close_moves show ?thesis by blast
qed

lemma node_rotate_D:
  "ro_retry (node_rotate so) (Fan f) b = (q, x', b') \<Longrightarrow> \<exists>f'. fanout_retry (outer_sink so) f b = (q, f', b') \<and> x' = Fan f'"
  "ro_rotate (node_rotate so) m (Fan f) b = (q, x', b') \<Longrightarrow> \<exists>f'. fanout_rotate (outer_sink so) m f b = (q, f', b') \<and> x' = Fan f'"
  "ro_retry (node_rotate so) (One g) b = (q, x', b') \<Longrightarrow> \<exists>g'. single_retry (graph_sink so) g b = (q, g', b') \<and> x' = One g'"
  "ro_rotate (node_rotate so) m (One g) b = (q, x', b') \<Longrightarrow> \<exists>g'. single_rotate (graph_sink so) m g b = (q, g', b') \<and> x' = One g'"
  by (auto simp: node_rotate_def fanout_output_def single_output_def split: prod.splits)

lemma node_rotate_steers:
  fixes w :: "('d, 's, 'r) sync_net" and env :: "('d, 's) sync_world \<Rightarrow> ('d, 's) sync_world option"
  shows "steers (node_rotate (sync_sink env)) (inside w (net_moves n I t K)) (routed t K)"
proof -
  let ?R = "inside w (net_moves n I t K)"
  note R = inside_preorder(1) [OF net_moves_preorder(1) [of n I t K], of w]
    inside_preorder(2) [OF net_moves_preorder(2) [of n I t K], of w]
  have fan: "?R b b' \<and> routed t K (Fan f')" if "routed t K (Fan f)"
    "fanout_retry (outer_sink (sync_sink env)) f b = (q, f', b') \<or> fanout_rotate (outer_sink (sync_sink env)) m f b = (q, f', b')"
    for f f' m b b' q
  proof -
    have v: "?R b b'" if "e \<in> set (f_edges f)" "op_try_push (outer_sink (sync_sink env)) e m b = (q, b')" for e m b b' q
      using outer_push_moves [OF that(2), of K w n I t] that(1) \<open>routed t K (Fan f)\<close> by (simp add: routed_def)
    from that(2) have "?R b b' \<and> f_edges f' = f_edges f"
    proof
      assume h: "fanout_retry (outer_sink (sync_sink env)) f b = (q, f', b')"
      show ?thesis by (rule fanout_rel(2) [OF R _ h]) (rule v)
    next
      assume h: "fanout_rotate (outer_sink (sync_sink env)) m f b = (q, f', b')"
      show ?thesis by (rule fanout_rel(1) [OF R _ h]) (rule v)
    qed
    with that(1) show ?thesis by (simp add: routed_def)
  qed
  have one: "?R b b' \<and> routed t K (One g')" if "routed t K (One g)"
    "single_retry (graph_sink (sync_sink env)) g b = (q, g', b') \<or> single_rotate (graph_sink (sync_sink env)) m g b = (q, g', b')"
    for g g' m b b' q
  proof -
    have v: "?R b b'" if "op_try_push (graph_sink (sync_sink env)) (sg_edge g) m b = (q, b')" for m b b' q
      by (rule graph_push_moves [OF that]) (use \<open>routed t K (One g)\<close> in \<open>auto simp: routed_def\<close>)
    from that(2) have "?R b b' \<and> sg_edge g' = sg_edge g"
    proof
      assume h: "single_retry (graph_sink (sync_sink env)) g b = (q, g', b')"
      show ?thesis by (rule single_rel(2) [OF R _ h]) (rule v)
    next
      assume h: "single_rotate (graph_sink (sync_sink env)) m g b = (q, g', b')"
      show ?thesis by (rule single_rel(1) [OF R _ h]) (rule v)
    qed
    with that(1) show ?thesis by (simp add: routed_def)
  qed
  have shut: "?R b b' \<and> routed t K x'" if "ro_close (node_rotate (sync_sink env)) x b = (q, x', b')" "routed t K x" for x x' b b' q
  proof (cases x)
    case (Fan f)
    from that(1) Fan have h: "close_all (outer_sink (sync_sink env)) (f_edges f) (Ok ()) b = (q, b')" "x' = Fan (f\<lparr>f_suspended := None\<rparr>)"
      by (auto simp: node_rotate_def fanout_output_def fanout_close_def Let_def split: prod.splits)
    have "?R b b'" by (rule close_all_rel [OF R _ subset_UNIV h(1)]) (rule outer_close_moves)
    with that(2) Fan h(2) show ?thesis by (simp add: routed_def)
  next
    case (One g)
    from that(1) One have h: "op_close (graph_sink (sync_sink env)) (sg_edge g) b = (q, b')" "x' = One (g\<lparr>sg_held := None\<rparr>)"
      by (auto simp: node_rotate_def single_output_def single_close_def Let_def split: prod.splits)
    have "?R b b'" by (rule graph_close_moves [OF h(1)]) (use that(2) One in \<open>auto simp: routed_def\<close>)
    with that(2) One h(2) show ?thesis by (simp add: routed_def)
  qed
  have retry: "?R b b' \<and> routed t K x'" if r: "routed t K x" "ro_retry (node_rotate (sync_sink env)) x b = (q, x', b')" for x x' b b' q
  proof (cases x)
    case (Fan f)
    with node_rotate_D(1) r(2) obtain f' where "fanout_retry (outer_sink (sync_sink env)) f b = (q, f', b')" "x' = Fan f'" by blast
    with fan [OF r(1) [unfolded Fan] disjI1] show ?thesis by blast
  next
    case (One g)
    with node_rotate_D(3) r(2) obtain g' where "single_retry (graph_sink (sync_sink env)) g b = (q, g', b')" "x' = One g'" by blast
    with one [OF r(1) [unfolded One] disjI1] show ?thesis by blast
  qed
  have turn: "?R b b' \<and> routed t K x'" if r: "routed t K x" "ro_rotate (node_rotate (sync_sink env)) m x b = (q, x', b')" for m x x' b b' q
  proof (cases x)
    case (Fan f)
    with node_rotate_D(2) r(2) obtain f' where "fanout_rotate (outer_sink (sync_sink env)) m f b = (q, f', b')" "x' = Fan f'" by blast
    with fan [OF r(1) [unfolded Fan] disjI2] show ?thesis by blast
  next
    case (One g)
    with node_rotate_D(4) r(2) obtain g' where "single_rotate (graph_sink (sync_sink env)) m g b = (q, g', b')" "x' = One g'" by blast
    with one [OF r(1) [unfolded One] disjI2] show ?thesis by blast
  qed
  show ?thesis unfolding steers_def using R retry turn shut by blast
qed

text \<open>The network's rotations are the graph's, on the graph inside.\<close>

lemma net_rotate_simps [simp]:
  "ro_suspended (net_rotate so) x = (case x of Fan f \<Rightarrow> fanout_suspended f | One g \<Rightarrow> single_suspended g)"
  "ro_retry (net_rotate so) x w = (let (q, x', b) = ro_retry (node_rotate so) x (nt_built w) in (q, x', w\<lparr>nt_built := b\<rparr>))"
  "ro_rotate (net_rotate so) m x w = (let (q, x', b) = ro_rotate (node_rotate so) m x (nt_built w) in (q, x', w\<lparr>nt_built := b\<rparr>))"
  "ro_close (net_rotate so) x w = (let (q, x', b) = ro_close (node_rotate so) x (nt_built w) in (q, x', w\<lparr>nt_built := b\<rparr>))"
  by (simp_all add: net_rotate_def node_rotate_def)

lemma net_rotate_steers:
  fixes env :: "('d, 's) sync_world \<Rightarrow> ('d, 's) sync_world option"
  shows "steers (net_rotate (sync_sink env)) (net_moves n I t K) (routed t K)"
proof -
  have i: "net_moves n I t K w (w\<lparr>nt_built := b\<rparr>)" if "inside w (net_moves n I t K) (nt_built w) b" for w b
    using that by (simp add: inside_def)
  note S = node_rotate_steers [unfolded steers_def, THEN conjunct2, THEN conjunct2]
  show ?thesis unfolding steers_def
  proof (intro conjI allI impI)
    fix g w q g1 w1
    assume a: "routed t K g \<and> ro_retry (net_rotate (sync_sink env)) g w = (q, g1, w1)"
    obtain q' x b where p: "ro_retry (node_rotate (sync_sink env)) g (nt_built w) = (q', x, b)"
      by (cases "ro_retry (node_rotate (sync_sink env)) g (nt_built w)") auto
    from S [THEN conjunct1, of t K env w n I] a p have "inside w (net_moves n I t K) (nt_built w) b \<and> routed t K x" by blast
    with a p i show "net_moves n I t K w w1" "routed t K g1" by auto
  next
    fix m g w q g1 w1
    assume a: "routed t K g \<and> ro_rotate (net_rotate (sync_sink env)) m g w = (q, g1, w1)"
    obtain q' x b where p: "ro_rotate (node_rotate (sync_sink env)) m g (nt_built w) = (q', x, b)"
      by (cases "ro_rotate (node_rotate (sync_sink env)) m g (nt_built w)") auto
    from S [THEN conjunct2, THEN conjunct1, of t K env w n I] a p
    have "inside w (net_moves n I t K) (nt_built w) b \<and> routed t K x" by blast
    with a p i show "net_moves n I t K w w1" "routed t K g1" by auto
  next
    fix g w q g1 w1
    assume a: "routed t K g \<and> ro_close (net_rotate (sync_sink env)) g w = (q, g1, w1)"
    obtain q' x b where p: "ro_close (node_rotate (sync_sink env)) g (nt_built w) = (q', x, b)"
      by (cases "ro_close (node_rotate (sync_sink env)) g (nt_built w)") auto
    from S [THEN conjunct2, THEN conjunct2, of t K env w n I] a p
    have "inside w (net_moves n I t K) (nt_built w) b \<and> routed t K x" by blast
    with a p i show "net_moves n I t K w w1" "routed t K g1" by auto
  qed (auto intro: net_moves_preorder)
qed

section \<open>A node of the network is a poll line\<close>

definition net_lanes :: "('k, 'm) node_output \<Rightarrow> nat" where
  "net_lanes x = (case x of Fan f \<Rightarrow> length (f_edges f) | One g \<Rightarrow> if sg_edge g = ToNull then 0 else 1)"

definition edge_got :: "nat \<times> nat \<Rightarrow> ('d, 's, 'r) sync_net \<Rightarrow> ('d, 's) message list" where
  "edge_got k w = sw_took (bt_sinks (nt_built w)) k"

text \<open>What a channel has taken in: what it gave out, and what it still has.\<close>

definition channel_got :: "nat \<Rightarrow> ('d, 's, 'r) sync_net \<Rightarrow> ('d, 's) message list" where
  "channel_got c w = given_by c w @ pe_buffer (net_channel w c)"

definition net_received ::
  "(nat \<times> nat, ('d, 's) message) node_output \<Rightarrow> ('d, 's, 'r) sync_net \<Rightarrow> nat \<Rightarrow> ('d, 's) message list" where
  "net_received x w i =
     (case x of
        Fan f \<Rightarrow> edge_got (f_edges f ! i) w
      | One g \<Rightarrow> (case sg_edge g of ToChannel c \<Rightarrow> channel_got c w | ToNull \<Rightarrow> [] | ToSink k \<Rightarrow> edge_got k w))"

definition net_due :: "('k, 'm) node_output \<Rightarrow> nat \<Rightarrow> 'm list" where
  "net_due x i = (case x of Fan f \<Rightarrow> fanout_due f i | One g \<Rightarrow> single_due g i)"

definition net_ok :: "nat set \<Rightarrow> ('k, 'm) node_output \<Rightarrow> bool" where
  "net_ok I x = (case x of Fan f \<Rightarrow> fanout_ok f | One g \<Rightarrow> \<forall>c. sg_edge g = ToChannel c \<longrightarrow> c \<notin> I)"

definition net_avail :: "nat \<Rightarrow> ('d, 's) inlet \<Rightarrow> ('d, 's, 'r, 'k, 'w) net \<Rightarrow> bool" where
  "net_avail n i w =
     (case i of
        Channels cs \<Rightarrow>
          (\<exists>c\<in>set cs. c < length (bt_channels (nt_built w)) \<and> pe_buffer (net_channel w c) \<noteq> []) \<or>
          (\<forall>c\<in>set cs. c < length (bt_channels (nt_built w)) \<longrightarrow> pe_closed (net_channel w c))
      | Bridge _ \<Rightarrow>
          (case net_line w n of
             Some l \<Rightarrow> (case gl_inlet l of Bridge rx \<Rightarrow> edge_avail (wr_inner rx) | Channels _ \<Rightarrow> True)
           | None \<Rightarrow> True))"

interpretation outer_sync: sink "outer_sink (sync_sink env)" "\<lambda>k b. sw_took (bt_sinks b) k"
proof unfold_locales
  show "refused t = Some m' \<Longrightarrow> m' = m" if "op_try_push (outer_sink (sync_sink env)) e m w = (Ok t, w')" for e m w t w' m'
    using that sync_sink.try_hands_back [of env e m "bt_sinks w"]
    by (auto simp: outer_sink_def split: prod.splits)
qed (auto simp: outer_sink_def sync_sink_def sw_try_push_took sw_push_took split: prod.splits if_splits)

lemma graph_push_got:
  assumes p: "op_try_push (graph_sink (sync_sink env)) e m (nt_built w) = (q, b)" and e: "e \<noteq> ToNull"
  shows "net_received (One \<lparr>sg_edge = e, sg_held = h\<rparr>) (w\<lparr>nt_built := b\<rparr>) i =
      net_received (One \<lparr>sg_edge = e, sg_held = h\<rparr>) w i @ (if q = Ok Pushed then [m] else [])"
proof (cases e)
  case (ToChannel c)
  show ?thesis
  proof (cases "c < length (bt_channels (nt_built w))")
    case True
    obtain q1 ch wk where x: "pe_try_push m (bt_channels (nt_built w) ! c) = (q1, ch, wk)"
      by (cases "pe_try_push m (bt_channels (nt_built w) ! c)") auto
    with p ToChannel True have "b = put_channel c ch wk (nt_built w)" "q = q1" by (auto simp: graph_sink_def put_channel_def)
    with x ToChannel True show ?thesis
      by (auto simp: net_received_def channel_got_def net_channel_def elim!: pe_try_push_cases)
  next
    case False
    with p ToChannel show ?thesis by (auto simp: graph_sink_def net_received_def)
  qed
next
  case (ToSink k)
  with p have "op_try_push (outer_sink (sync_sink env)) k m (nt_built w) = (q, b)" by (simp add: graph_sink_def)
  from outer_sync.try_took [OF this, of k] ToSink show ?thesis by (simp add: net_received_def edge_got_def)
qed (use e in simp)

lemma graph_push_hands_back:
  "op_try_push (graph_sink (sync_sink env)) e m b = (Ok t, b') \<Longrightarrow> refused t = Some m' \<Longrightarrow> m' = m"
  by (cases e)
    (auto simp: graph_sink_def null_try_push_def split: if_splits prod.splits
      elim!: pe_try_push_cases dest: outer_sync.try_hands_back)

lemma single_deliver_got:
  assumes h: "sg_held g = None" and r: "single_deliver (graph_sink (sync_sink env)) m g (nt_built w) = (Ok rot, g', b)"
  shows "sg_edge g' = sg_edge g \<and> (rot = Complete) = (sg_held g' = None) \<and>
         (sg_edge g \<noteq> ToNull \<longrightarrow>
            net_received (One g') (w\<lparr>nt_built := b\<rparr>) i @ single_due g' 0 = net_received (One g) w i @ [m])"
proof -
  obtain q b1 where p: "op_try_push (graph_sink (sync_sink env)) (sg_edge g) m (nt_built w) = (q, b1)"
    by (cases "op_try_push (graph_sink (sync_sink env)) (sg_edge g) m (nt_built w)") auto
  with r obtain t where q: "q = Ok t" by (cases q) (auto simp: single_deliver_def)
  have got: "net_received (One g1) (w\<lparr>nt_built := b1\<rparr>) i = net_received (One g) w i @ (if q = Ok Pushed then [m] else [])"
    if "sg_edge g1 = sg_edge g" "sg_edge g \<noteq> ToNull" for g1
    using graph_push_got [OF p that(2), of None i] that(1) by (simp add: net_received_def)
  show ?thesis
  proof (cases "refused t")
    case None
    with r p q have "g' = g" "b = b1" "rot = Complete" by (auto simp: single_deliver_def)
    with None h q got [of g] show ?thesis by (cases t) (auto simp: single_due_def)
  next
    case (Some m')
    with graph_push_hands_back p q have "m' = m" by blast
    with r p q Some have "g' = g\<lparr>sg_held := Some m\<rparr>" "b = b1" "rot \<noteq> Complete" "t \<noteq> Pushed"
      by (auto simp: single_deliver_def)
    with q got [of g'] show ?thesis by (auto simp: single_due_def)
  qed
qed

lemma vec_try_recv_view:
  assumes "\<And>e w q w1. recv e w = (q, w1) \<Longrightarrow> T w1 = T w @ popped q"
  shows "vec_try_recv recv es b w = (q, w') \<Longrightarrow> T w' = T w @ popped q"
proof (induction es arbitrary: b w)
  case (Cons e es)
  obtain q1 w1 where p: "recv e w = (q1, w1)" by (cases "recv e w") auto
  from assms [OF p] Cons p show ?case by (auto split: result.splits option.splits if_splits)
qed auto

lemma channel_recv_nothing:
  assumes r: "channel_recv n c w = (q, w')" and q: "popped q = []"
  shows "w' = w \<and> (q = Ok None \<and> c < length (bt_channels (nt_built w)) \<and> pe_buffer (net_channel w c) = [] \<and> \<not> pe_closed (net_channel w c) \<or>
      q = Err Closed \<and> (c < length (bt_channels (nt_built w)) \<longrightarrow> pe_buffer (net_channel w c) = [] \<and> pe_closed (net_channel w c)))"
proof (cases "c < length (bt_channels (nt_built w))")
  case True
  obtain q1 e wk where p: "pe_try_recv (net_channel w c) = (q1, e, wk)" by (cases "pe_try_recv (net_channel w c)") auto
  have eq: "q = q1" using r p True by (auto simp: channel_recv_def)
  have id: "w\<lparr>nt_built := put_channel c (net_channel w c) [] (nt_built w), nt_log := nt_log w\<rparr> = w"
    by (simp add: put_channel_def net_channel_def)
  from p show ?thesis
  proof (cases rule: pe_try_recv_cases)
    case some
    with eq q show ?thesis by simp
  qed (use r q p True id in \<open>auto simp: channel_recv_def\<close>)
qed (use r in \<open>auto simp: channel_recv_def\<close>)

lemma vec_recv_nothing:
  "vec_try_recv (channel_recv n) cs b w = (q, w') \<Longrightarrow> popped q = [] \<Longrightarrow>
     w' = w \<and> (\<forall>c\<in>set cs. c < length (bt_channels (nt_built w)) \<longrightarrow> pe_buffer (net_channel w c) = []) \<and>
     (q = Ok None \<longrightarrow> \<not> b \<or> (\<exists>c\<in>set cs. c < length (bt_channels (nt_built w)) \<and> \<not> pe_closed (net_channel w c)))"
proof (induction cs arbitrary: b)
  case Nil
  then show ?case by auto
next
  case (Cons c cs)
  obtain q1 w1 where p: "channel_recv n c w = (q1, w1)" by (cases "channel_recv n c w") auto
  show ?case
  proof (cases "popped q1 = []")
    case False
    with p Cons.prems show ?thesis by (auto split: result.splits option.splits)
  next
    case True
    from channel_recv_nothing [OF p True] show ?thesis
    proof (elim conjE disjE)
      assume 1: "w1 = w" "q1 = Ok None" "c < length (bt_channels (nt_built w))" "pe_buffer (net_channel w c) = []"
        "\<not> pe_closed (net_channel w c)"
      with p Cons.prems have "vec_try_recv (channel_recv n) cs False w = (q, w')" by simp
      from Cons.IH [OF this Cons.prems(2)] 1 show ?thesis by auto
    next
      assume 1: "w1 = w" "q1 = Err Closed" "c < length (bt_channels (nt_built w)) \<longrightarrow> pe_buffer (net_channel w c) = [] \<and> pe_closed (net_channel w c)"
      with p Cons.prems have "vec_try_recv (channel_recv n) cs b w = (q, w')" by simp
      from Cons.IH [OF this Cons.prems(2)] 1 show ?thesis by auto
    qed
  qed
qed

lemma channel_recv_log: "channel_recv n c w = (q, w') \<Longrightarrow> taken_by n w' = taken_by n w @ popped q"
  by (auto simp: channel_recv_def Let_def split: if_splits prod.splits)

lemma bridge_recv_log: "bridge_recv n w = (q, w') \<Longrightarrow> taken_by n w' = taken_by n w @ popped q"
  by (auto simp: bridge_recv_def Let_def put_line_def taken_by_def filter_map comp_def split: option.splits inlet.splits prod.splits)

lemma inlet_recv_log: "inlet_recv n i w = (q, w') \<Longrightarrow> taken_by n w' = taken_by n w @ popped q"
  by (cases i) (auto dest: bridge_recv_log vec_try_recv_view [rotated] intro: channel_recv_log)

lemma bridge_recv_nothing:
  assumes "bridge_recv n w = (Ok None, w')"
  shows "\<not> net_avail n (Bridge rx) w'"
proof -
  from assms obtain l r where l: "net_line w n = Some l" "gl_inlet l = Bridge r"
    by (auto simp: bridge_recv_def split: option.splits inlet.splits)
  then have n: "n < length (bt_nodes (nt_built w))" by (simp add: net_line_def split: if_splits)
  obtain q sh eff where p: "waking_try_recv (wr_inner r) = (q, sh, eff)" by (cases "waking_try_recv (wr_inner r)") auto
  with assms l have q: "q = Ok None" and w': "net_line w' n = Some (l\<lparr>gl_inlet := Bridge (r\<lparr>wr_inner := sh\<rparr>)\<rparr>)"
    using n by (auto simp: bridge_recv_def Let_def net_line_def put_line_def)
  from p q have "\<not> edge_avail sh"
    by (auto simp: waking_try_recv_def waking_poll_def edge_avail_def elim!: try_pop_cases)
  with w' show ?thesis by (simp add: net_avail_def)
qed

lemma inlet_recv_nothing:
  assumes r: "inlet_recv n i w = (Ok None, w')"
  shows "\<not> net_avail n i w'"
proof (cases i)
  case (Bridge rx)
  with r bridge_recv_nothing show ?thesis by simp
next
  case (Channels cs)
  with vec_recv_nothing [of n cs True w "Ok None" w'] r show ?thesis by (auto simp: net_avail_def)
qed

lemma channel_recv_got:
  assumes r: "channel_recv n d w = (q, w')"
  shows "channel_got c w' = channel_got c w \<and> edge_got k w' = edge_got k w"
proof (cases "d < length (bt_channels (nt_built w))")
  case True
  obtain q1 e wk where p: "pe_try_recv (net_channel w d) = (q1, e, wk)" by (cases "pe_try_recv (net_channel w d)") auto
  with r True have w': "w' = w\<lparr>nt_built := put_channel d e wk (nt_built w), nt_log := nt_log w @ map (\<lambda>m. (n, Some d, m)) (popped q1)\<rparr>"
    by (auto simp: channel_recv_def)
  have e: "popped q1 @ pe_buffer e = pe_buffer (net_channel w d)" using p by (auto elim!: pe_try_recv_cases)
  have "net_channel w' c = (if c = d then e else net_channel w c)"
    using True by (simp add: w' net_channel_def)
  with e show ?thesis by (auto simp: channel_got_def edge_got_def w')
qed (use r in \<open>auto simp: channel_recv_def\<close>)

lemma bridge_recv_got: "bridge_recv n w = (q, w') \<Longrightarrow> channel_got c w' = channel_got c w \<and> edge_got k w' = edge_got k w"
  by (auto simp: bridge_recv_def Let_def put_line_def channel_got_def edge_got_def net_channel_def given_by_def
      filter_map comp_def split: option.splits inlet.splits prod.splits)

lemma inlet_recv_got:
  assumes r: "inlet_recv n i w = (q, w')"
  shows "channel_got c w' = channel_got c w \<and> edge_got k w' = edge_got k w"
proof (cases i)
  case (Bridge rx)
  with r bridge_recv_got [of n w q w' c k] show ?thesis by simp
next
  case (Channels cs)
  let ?R = "\<lambda>w w'. channel_got c w' = channel_got c w \<and> edge_got k w' = edge_got k w"
  have R: "reflp ?R" "transp ?R" by (auto simp: reflp_def transp_def)
  from r Channels have v: "vec_try_recv (channel_recv n) cs True w = (q, w')" by simp
  show ?thesis by (rule vec_try_recv_rel [OF R _ subset_UNIV v]) (rule channel_recv_got)
qed

lemma inlet_recv_received: "inlet_recv n i w = (q, w') \<Longrightarrow> net_received g w' j = net_received g w j"
  by (auto simp: net_received_def dest: inlet_recv_got split: node_output.splits poll_sink.splits)

text \<open>Pushing to a channel a node does not read leaves its input alone.\<close>

lemma net_rotate_inputs:
  assumes ok: "net_ok (set (inlet_channels i)) g"
    and r: "ro_retry (net_rotate (sync_sink env)) g w = (q, g', w') \<or> ro_rotate (net_rotate (sync_sink env)) m g w = (q, g', w')"
  shows "taken_by n w' = taken_by n w \<and> net_avail n i w' = net_avail n i w"
proof -
  let ?t = "output_channel g" and ?K = "outer_handles g"
  have "routed ?t ?K g" by (simp add: routed_def)
  with net_rotate_steers [of env "Suc n" "{}" ?t ?K] r have m: "net_moves (Suc n) {} ?t ?K w w'"
    unfolding steers_def by blast
  have "net_channel w' c = net_channel w c" if "c < length (bt_channels (nt_built w))" "c \<in> set (inlet_channels i)" for c
  proof -
    have "?t \<noteq> Some c" using ok that(2) by (cases g) (auto simp: net_ok_def split: poll_sink.splits)
    with m that(1) show ?thesis by (simp add: net_moves_def channel_moves_def)
  qed
  moreover have "taken_by n w' = taken_by n w" "net_line w' n = net_line w n"
    "length (bt_channels (nt_built w')) = length (bt_channels (nt_built w))"
    using m by (simp_all add: net_moves_def)
  ultimately show ?thesis by (cases i) (auto simp: net_avail_def)
qed

lemma net_out_turn:
  assumes ok: "net_ok I x" and s: "ro_suspended (net_rotate (sync_sink env)) x = None"
    and r: "ro_rotate (net_rotate (sync_sink env)) m x w = (Ok rot, x', w')"
  shows "net_ok I x' \<and> net_lanes x' = net_lanes x \<and> (rot = Complete) = (ro_suspended (net_rotate (sync_sink env)) x' = None) \<and>
    (\<forall>i < net_lanes x. net_received x' w' i @ net_due x' i = net_received x w i @ [m])"
proof -
  obtain b where p: "ro_rotate (node_rotate (sync_sink env)) m x (nt_built w) = (Ok rot, x', b)" and w': "w' = w\<lparr>nt_built := b\<rparr>"
    using r by (auto split: prod.splits)
  show ?thesis
  proof (cases x)
    case (Fan f)
    with node_rotate_D(2) p obtain f' where f: "fanout_rotate (outer_sink (sync_sink env)) m f (nt_built w) = (Ok rot, f', b)" "x' = Fan f'"
      by blast
    from outer_sync.fanout_rotate_lanes [OF _ _ f(1)] ok s Fan f(2) w' show ?thesis
      by (auto simp: net_ok_def net_lanes_def net_received_def net_due_def fanout_lanes_def fanout_received_def edge_got_def
          fanout_suspended_def)
  next
    case (One g)
    with node_rotate_D(4) p obtain g' where g: "single_rotate (graph_sink (sync_sink env)) m g (nt_built w) = (Ok rot, g', b)" "x' = One g'"
      by blast
    from s One have h: "sg_held g = None" by (simp add: single_suspended_def)
    with g(1) have "single_deliver (graph_sink (sync_sink env)) m g (nt_built w) = (Ok rot, g', b)" by (simp add: single_rotate_def)
    from single_deliver_got [OF h this] ok One g(2) w' show ?thesis
      by (auto simp: net_ok_def net_lanes_def net_due_def single_suspended_def single_due_def)
  qed
qed

lemma net_out_retry:
  assumes ok: "net_ok I x" and r: "ro_retry (net_rotate (sync_sink env)) x w = (Ok rot, x', w')"
  shows "net_ok I x' \<and> net_lanes x' = net_lanes x \<and> (rot = Complete) = (ro_suspended (net_rotate (sync_sink env)) x' = None) \<and>
    (\<forall>i < net_lanes x. net_received x' w' i @ net_due x' i = net_received x w i @ net_due x i)"
proof -
  obtain b where p: "ro_retry (node_rotate (sync_sink env)) x (nt_built w) = (Ok rot, x', b)" and w': "w' = w\<lparr>nt_built := b\<rparr>"
    using r by (auto split: prod.splits)
  show ?thesis
  proof (cases x)
    case (Fan f)
    with node_rotate_D(1) p obtain f' where f: "fanout_retry (outer_sink (sync_sink env)) f (nt_built w) = (Ok rot, f', b)" "x' = Fan f'"
      by blast
    from outer_sync.fanout_retry_lanes [OF _ f(1)] ok Fan f(2) w' show ?thesis
      by (auto simp: net_ok_def net_lanes_def net_received_def net_due_def edge_got_def fanout_suspended_def)
  next
    case (One g)
    with node_rotate_D(3) p obtain g' where g: "single_retry (graph_sink (sync_sink env)) g (nt_built w) = (Ok rot, g', b)" "x' = One g'"
      by blast
    show ?thesis
    proof (cases "sg_held g")
      case None
      with g w' One ok show ?thesis
        by (auto simp: single_retry_def net_ok_def net_lanes_def net_due_def single_suspended_def single_due_def net_received_def
            split: poll_sink.splits)
    next
      case (Some m)
      let ?g = "g\<lparr>sg_held := None\<rparr>"
      from g(1) Some have "single_deliver (graph_sink (sync_sink env)) m ?g (nt_built w) = (Ok rot, g', b)" by (simp add: single_retry_def)
      from single_deliver_got [OF _ this] ok One g(2) w' Some show ?thesis
        by (auto simp: net_ok_def net_lanes_def net_due_def single_suspended_def single_due_def net_received_def)
    qed
  qed
qed

lemma net_node:
  fixes po :: "('d, 'd, 'r) poll_ops" and i :: "('d, 's) inlet" and env :: "('d, 's) sync_world \<Rightarrow> ('d, 's) sync_world option"
  assumes h: "honest_routine po"
  shows "poll_line po (inlet_recv n i) (taken_by n) (net_avail n i) (net_rotate (sync_sink env)) net_lanes net_received net_due
    (net_ok (set (inlet_channels i))) (\<lambda>w. (taken_by n w, net_avail n i w))"
proof (intro poll_line.intro feeding.intro rotator.intro emitting.intro emitting_axioms.intro poll_line_axioms.intro)
  show "net_ok (set (inlet_channels i)) r \<Longrightarrow> ro_suspended (net_rotate (sync_sink env)) r = None \<Longrightarrow> net_due r j = []" for r j
    by (auto simp: net_due_def fanout_due_def single_due_def fanout_suspended_def single_suspended_def split: node_output.splits)
  show "length (net_due r j) \<le> 1" for r :: "(nat \<times> nat, ('d, 's) message) node_output" and j
  proof (cases r)
    case (Fan f)
    with fanout_due_length [of f j] show ?thesis by (simp add: net_due_def)
  qed (simp add: net_due_def single_due_def split: option.splits)
  show "(taken_by n w1, net_avail n i w1) = (taken_by n w, net_avail n i w)"
    if "net_ok (set (inlet_channels i)) g" "ro_retry (net_rotate (sync_sink env)) g w = (a, g1, w1)" for g w a g1 w1
    using net_rotate_inputs [OF that(1)] that(2) by blast
  show "(taken_by n w1, net_avail n i w1) = (taken_by n w, net_avail n i w)"
    if "net_ok (set (inlet_channels i)) g" "ro_rotate (net_rotate (sync_sink env)) m g w = (a, g1, w1)" for g m w a g1 w1
    using net_rotate_inputs [OF that(1)] that(2) by blast
  show "\<exists>x. ro_rotate (net_rotate (sync_sink env)) m r w = (Err x, r, w)"
    if "ro_suspended (net_rotate (sync_sink env)) r = Some k" for m r w k
    using that by (cases r) (auto simp: node_rotate_def fanout_output_def single_output_def fanout_rotate_def fanout_ready_def
        single_rotate_def fanout_suspended_def single_suspended_def)
qed (use h in \<open>auto simp: honest_routine_def dest: inlet_recv_log inlet_recv_nothing inlet_recv_received net_out_turn net_out_retry\<close>)


end
