(* ===== verification/Network_Run.thy ===== *)
theory Network_Run
  imports Poll_Network
begin

text \<open>
  What holds in a network of poll line nodes (Poll_Network) however it runs: every node conducts its routine,
  every channel delivers what was pushed to it, and every wake that a node waits for has been given or is owed by
  a routine or another thread's edge.
\<close>

section \<open>A poll moves only what its node has\<close>

text \<open>A drain forgets no wake.\<close>

lemma feed_recv_woken: "feed_recv send flush recv h f w = (q, h', f', w') \<Longrightarrow> fe_woken f \<subseteq> fe_woken f'"
  by (auto simp: feed_recv_def feed_offer_def feed_flushing_def feed_marker_ready_def feed_close_def Let_def
      split: prod.splits result.splits option.splits message.splits accept.splits if_splits)

lemma feed_rounds_woken: "feed_rounds send flush recv n h f w = (q, h', f', w') \<Longrightarrow> fe_woken f \<subseteq> fe_woken f'"
proof (induction n arbitrary: h f w)
  case (Suc n)
  obtain q1 h1 f1 w1 where p: "feed_recv send flush recv h f w = (q1, h1, f1, w1)"
    by (cases "feed_recv send flush recv h f w") auto
  from feed_recv_woken [OF p] Suc p show ?case by (force split: result.splits flow.splits)
qed auto

lemma feed_drain_woken:
  assumes d: "feed_drain send flush recv h f w = (q, h', f', w')"
  shows "fe_woken f \<subseteq> fe_woken f'"
proof -
  obtain q1 h1 f1 where p: "feed_retry send h f = (q1, h1, f1)" by (cases "feed_retry send h f") auto
  then have "fe_woken f1 = fe_woken f"
    by (auto simp: feed_retry_def feed_offer_def Let_def split: prod.splits result.splits option.splits accept.splits if_splits)
  with d p feed_rounds_woken show ?thesis
    by (fastforce simp: feed_drain_def split: result.splits flow.splits if_splits)
qed

lemma line_drain_frame:
  assumes d: "line_drain send flush recv h nd w = (q, h', nd', w')"
    and R: "reflp R" "transp R" and v: "\<And>w q w1. recv w = (q, w1) \<Longrightarrow> R w w1"
  shows "R w w' \<and> pl_output nd' = pl_output nd \<and> pl_woken nd \<subseteq> pl_woken nd'"
proof -
  obtain q1 h1 f1 w1 where p: "feed_drain send flush recv h (line_feed nd) w = (q1, h1, f1, w1)"
    by (cases "feed_drain send flush recv h (line_feed nd) w") auto
  have "R w w1" by (rule feed_drain_rel [OF R _ p]) (rule v)
  moreover have "pl_woken nd \<subseteq> fe_woken f1" using feed_drain_woken [OF p] by (simp add: line_feed_def)
  ultimately show ?thesis using d p
    by (auto simp: line_drain_def line_fed_def pl_wake_def Let_def split: result.splits if_splits)
qed

lemma line_input_frame:
  assumes d: "line_input_poll send flush recv h nd w = (q, h', nd', w')"
    and R: "reflp R" "transp R" and v: "\<And>w q w1. recv w = (q, w1) \<Longrightarrow> R w w1"
  shows "R w w' \<and> pl_output nd' = pl_output nd \<and> pl_woken nd \<subseteq> pl_woken nd'"
proof (cases "pl_state nd = Running")
  case True
  obtain q1 h1 nd1 w1 where p: "line_drain send flush recv h nd w = (q1, h1, nd1, w1)"
    by (cases "line_drain send flush recv h nd w") auto
  have "R w w1 \<and> pl_output nd1 = pl_output nd \<and> pl_woken nd \<subseteq> pl_woken nd1"
    by (rule line_drain_frame [OF p R]) (rule v)
  with d p True show ?thesis by (auto simp: line_input_poll_def split: result.splits if_splits)
next
  case False
  with d R(1) show ?thesis by (cases "pl_state nd") (auto simp: line_input_poll_def dest: reflpD)
qed

lemma drive_poll_woken: "drive_poll poll d = (q, d') \<Longrightarrow> dr_woken d \<subseteq> dr_woken d'"
  by (auto simp: drive_poll_def poll_routine_def drive_wake_def Let_def
      split: node_state.splits prod.splits result.splits poll.splits if_splits)

lemma drive_poll_output: "drive_poll poll d = (q, d') \<Longrightarrow> dr_output d' = dr_output d"
  by (auto simp: drive_poll_def poll_routine_def drive_wake_def Let_def
      split: node_state.splits prod.splits result.splits poll.splits if_splits)

text \<open>What polling a phase of a line does: \<open>R\<close> on the world, and what it keeps of the node.\<close>

lemma poll_line_phase_frame:
  assumes p: "poll_line_phase po ro recv ph y = (q, y')" and s: "steers ro R J" and v: "\<And>w q w1. recv w = (q, w1) \<Longrightarrow> R w w1"
    and j: "J (pl_output (ly_node y))"
  shows "R (ly_world y) (ly_world y') \<and> J (pl_output (ly_node y')) \<and>
    ly_ended y' = (if is_ok q then ly_ended y else insert ph (ly_ended y)) \<and>
    (ph \<noteq> LOutput \<longrightarrow> pl_output (ly_node y') = pl_output (ly_node y) \<and> pl_woken (ly_node y) - {ph} \<subseteq> pl_woken (ly_node y'))"
proof -
  have R: "reflp R" "transp R" using s unfolding steers_def by blast+
  show ?thesis
  proof (cases ph)
    case LInput
    let ?nd = "(ly_node y)\<lparr>pl_woken := pl_woken (ly_node y) - {LInput}\<rparr>"
    obtain q1 h nd w where i: "line_input_poll (po_send po) (po_flush po) recv (ly_held y) ?nd (ly_world y) = (q1, h, nd, w)"
      by (cases "line_input_poll (po_send po) (po_flush po) recv (ly_held y) ?nd (ly_world y)") auto
    have "R (ly_world y) w \<and> pl_output nd = pl_output ?nd \<and> pl_woken ?nd \<subseteq> pl_woken nd"
      by (rule line_input_frame [OF i R]) (rule v)
    with p i LInput j show ?thesis by (auto simp: note_end_def Let_def)
  next
    case LWork
    let ?d = "\<lparr>dr_routine = pl_routine (ly_node y), dr_output = LOutput, dr_state = pl_state (ly_node y),
        dr_woken = pl_woken (ly_node y) - {LWork}\<rparr>"
    obtain q1 d where d: "drive_poll (po_poll po) ?d = (q1, d)" by (cases "drive_poll (po_poll po) ?d") auto
    from drive_poll_woken [OF d] p d LWork j R(1) show ?thesis
      by (auto simp: line_work_poll_def note_end_def dest: reflpD)
  next
    case LOutput
    let ?nd = "(ly_node y)\<lparr>pl_woken := pl_woken (ly_node y) - {LOutput}\<rparr>"
    obtain q1 e w where e: "emit_poll (po_next po) ro (line_emit ?nd) (ly_world y) = (q1, e, w)"
      by (cases "emit_poll (po_next po) ro (line_emit ?nd) (ly_world y)") auto
    have "J (em_output (line_emit ?nd))" using j by (simp add: line_emit_def)
    from steers_poll [OF s e this] p e LOutput show ?thesis
      by (auto simp: line_output_poll_def note_end_def)
  qed
qed

lemma poll_line_phase_settles:
  assumes p: "poll_line_phase po ro recv LOutput y = (Ok v, y')" and s: "settles ro P"
  shows "P (pl_output (ly_node y')) (ly_world y')"
proof -
  let ?nd = "(ly_node y)\<lparr>pl_woken := pl_woken (ly_node y) - {LOutput}\<rparr>"
  obtain q1 e w where e: "emit_poll (po_next po) ro (line_emit ?nd) (ly_world y) = (q1, e, w)"
    by (cases "emit_poll (po_next po) ro (line_emit ?nd) (ly_world y)") auto
  with p have "q1 = Ok v" by (auto simp: line_output_poll_def)
  from settles_poll [OF s e [unfolded this]] p e this show ?thesis
    by (auto simp: line_output_poll_def note_end_def)
qed

section \<open>A refused channel\<close>

text \<open>An output that waits for its channel was refused by it.\<close>

definition waits_refused :: "('k, ('d, 's) message) node_output \<Rightarrow> ('d, 's, 'r, 'k, 'w) net \<Rightarrow> bool" where
  "waits_refused x w \<longleftrightarrow>
     (case x of
        Fan f \<Rightarrow> True
      | One g \<Rightarrow> (sg_held g \<noteq> None \<longrightarrow> sg_edge g \<noteq> ToNull) \<and>
          (\<forall>c. sg_edge g = ToChannel c \<and> sg_held g \<noteq> None \<longrightarrow> pe_refused (net_channel w c)))"

lemma single_deliver_waits:
  assumes "single_deliver (graph_sink so) m g b = (Ok rot, g', b')" and "sg_held g = None"
  shows "waits_refused (One g') (w\<lparr>nt_built := b'\<rparr>)"
proof -
  obtain q b1 where p: "op_try_push (graph_sink so) (sg_edge g) m b = (q, b1)"
    by (cases "op_try_push (graph_sink so) (sg_edge g) m b") auto
  with assms obtain t where q: "q = Ok t" by (cases q) (auto simp: single_deliver_def)
  show ?thesis
  proof (cases "refused t")
    case None
    with assms p q show ?thesis by (auto simp: single_deliver_def waits_refused_def)
  next
    case (Some r)
    with assms(1) p q have g': "g' = g\<lparr>sg_held := Some r\<rparr>" "b' = b1" by (auto simp: single_deliver_def)
    have "pe_refused (net_channel (w\<lparr>nt_built := b1\<rparr>) c)" if c: "sg_edge g = ToChannel c" for c
    proof -
      obtain q1 ch wk where x: "pe_try_push m (bt_channels b ! c) = (q1, ch, wk)" by (cases "pe_try_push m (bt_channels b ! c)") auto
      with p q c have "c < length (bt_channels b)" "q1 = Ok t" "b1 = put_channel c ch wk b"
        by (auto simp: graph_sink_def put_channel_def split: if_splits)
      with x Some show ?thesis by (auto simp: net_channel_def elim!: pe_try_push_cases)
    qed
    moreover have "sg_edge g \<noteq> ToNull" using p q Some by (auto simp: graph_sink_def null_try_push_def)
    ultimately show ?thesis using g' by (simp add: waits_refused_def)
  qed
qed

lemma net_rotate_settles:
  fixes so :: "('k, ('d, 's) message, 'w) sink_ops"
  shows "settles (net_rotate so) (waits_refused :: _ \<Rightarrow> ('d, 's, 'r, 'k, 'w) net \<Rightarrow> bool)"
proof -
  have "waits_refused x' w'" if r: "ro_retry (net_rotate so) x w = (Ok rot, x', w')" for x w rot x' and w' :: "('d, 's, 'r, 'k, 'w) net"
  proof -
    obtain b where p: "ro_retry (node_rotate so) x (nt_built w) = (Ok rot, x', b)" and w': "w' = w\<lparr>nt_built := b\<rparr>"
      using r by (auto split: prod.splits)
    show ?thesis
    proof (cases x)
      case (Fan f)
      with node_rotate_D(1) p show ?thesis by (fastforce simp: waits_refused_def)
    next
      case (One g)
      with node_rotate_D(3) p obtain g' where g: "single_retry (graph_sink so) g (nt_built w) = (Ok rot, g', b)" "x' = One g'" by blast
      show ?thesis
      proof (cases "sg_held g")
        case None
        with g show ?thesis by (auto simp: single_retry_def waits_refused_def)
      next
        case (Some m)
        with g have "single_deliver (graph_sink so) m (g\<lparr>sg_held := None\<rparr>) (nt_built w) = (Ok rot, g', b)" by (simp add: single_retry_def)
        from single_deliver_waits [OF this] g(2) w' show ?thesis by simp
      qed
    qed
  qed
  moreover have "waits_refused x' w'" if r: "ro_rotate (net_rotate so) m x w = (Ok rot, x', w')" for m x w rot x' and w' :: "('d, 's, 'r, 'k, 'w) net"
  proof -
    obtain b where p: "ro_rotate (node_rotate so) m x (nt_built w) = (Ok rot, x', b)" and w': "w' = w\<lparr>nt_built := b\<rparr>"
      using r by (auto split: prod.splits)
    show ?thesis
    proof (cases x)
      case (Fan f)
      with node_rotate_D(2) p show ?thesis by (fastforce simp: waits_refused_def)
    next
      case (One g)
      with node_rotate_D(4) p obtain g' where g: "single_rotate (graph_sink so) m g (nt_built w) = (Ok rot, g', b)" "x' = One g'" by blast
      then have "sg_held g = None" "single_deliver (graph_sink so) m g (nt_built w) = (Ok rot, g', b)"
        by (auto simp: single_rotate_def split: if_splits)
      from single_deliver_waits [OF this(2,1)] g(2) w' show ?thesis by simp
    qed
  qed
  ultimately show ?thesis unfolding settles_def by blast
qed

section \<open>A poll as the rest of the network sees it\<close>

definition others_see ::
  "nat \<Rightarrow> nat set \<Rightarrow> nat option \<Rightarrow> (nat \<times> nat) set \<Rightarrow> ('d, 's, 'r) sync_net \<Rightarrow> ('d, 's, 'r) sync_net \<Rightarrow> bool" where
  "others_see n I t K w w' \<longleftrightarrow>
     length (bt_nodes (nt_built w')) = length (bt_nodes (nt_built w)) \<and>
     (\<forall>m. m \<noteq> n \<longrightarrow> net_line w' m = net_line w m \<and> taken_by m w' = taken_by m w \<and> nt_held w' m = nt_held w m \<and>
        nt_ended w' m = nt_ended w m \<and> nt_asked w' m = nt_asked w m) \<and>
     length (bt_channels (nt_built w')) = length (bt_channels (nt_built w)) \<and>
     set (bt_wakes (nt_built w)) \<subseteq> set (bt_wakes (nt_built w')) \<and>
     (\<forall>c < length (bt_channels (nt_built w)).
        channel_moves (c \<in> I) (t = Some c) (net_channel w c) (given_by c w) (net_channel w' c) (given_by c w')
          (set (bt_wakes (nt_built w')))) \<and>
     (\<forall>k. k \<notin> K \<longrightarrow> sw_took (bt_sinks (nt_built w')) k = sw_took (bt_sinks (nt_built w)) k)"

lemma net_moves_seen: "net_moves n I t K w w' \<Longrightarrow> others_see n I t K w w'"
  by (auto simp: net_moves_def others_see_def)

lemma others_see_trans:
  assumes a: "others_see n I t K w w1" and b: "others_see n I t K w1 w2"
  shows "others_see n I t K w w2"
proof -
  note A = a [unfolded others_see_def] and B = b [unfolded others_see_def]
  have "channel_moves (c \<in> I) (t = Some c) (net_channel w c) (given_by c w) (net_channel w2 c) (given_by c w2)
      (set (bt_wakes (nt_built w2)))" if "c < length (bt_channels (nt_built w))" for c
    by (rule channel_moves_trans [of _ _ _ _ "net_channel w1 c" "given_by c w1" "set (bt_wakes (nt_built w1))"])
      (use A B that in auto)
  then show ?thesis unfolding others_see_def using A B by auto
qed

lemma net_line_Some: "net_line w n = Some l \<Longrightarrow> n < length (bt_nodes (nt_built w)) \<and> bt_nodes (nt_built w) ! n = GLine l"
  by (cases "bt_nodes (nt_built w) ! n") (auto simp: net_line_def split: if_splits)

lemma write_back_eq:
  assumes "net_line (ly_world y) n = Some l"
  shows "write_back n y =
     (ly_world y)\<lparr>nt_built := (nt_built (ly_world y))\<lparr>bt_nodes := (bt_nodes (nt_built (ly_world y)))[n := GLine (l\<lparr>gl_shared := ly_node y\<rparr>)]\<rparr>,
       nt_held := (nt_held (ly_world y))(n := ly_held y), nt_ended := (nt_ended (ly_world y))(n := ly_ended y),
       nt_asked := (nt_asked (ly_world y))(n := ly_asked y)\<rparr>"
  using assms by (simp add: write_back_def put_line_def)

lemma write_back_fields:
  assumes l: "net_line (ly_world y) n = Some l"
  shows "net_line (write_back n y) m = (if m = n then Some (l\<lparr>gl_shared := ly_node y\<rparr>) else net_line (ly_world y) m)"
    "bt_channels (nt_built (write_back n y)) = bt_channels (nt_built (ly_world y))"
    "bt_sinks (nt_built (write_back n y)) = bt_sinks (nt_built (ly_world y))"
    "bt_wakes (nt_built (write_back n y)) = bt_wakes (nt_built (ly_world y))"
    "nt_log (write_back n y) = nt_log (ly_world y)"
    "nt_held (write_back n y) = (nt_held (ly_world y))(n := ly_held y)"
    "nt_ended (write_back n y) = (nt_ended (ly_world y))(n := ly_ended y)"
    "nt_asked (write_back n y) = (nt_asked (ly_world y))(n := ly_asked y)"
    "length (bt_nodes (nt_built (write_back n y))) = length (bt_nodes (nt_built (ly_world y)))"
  using net_line_Some [OF l] by (simp_all add: write_back_eq [OF l] net_line_def)

lemma write_back_views:
  assumes l: "net_line (ly_world y) n = Some l"
  shows "net_channel (write_back n y) c = net_channel (ly_world y) c" "taken_by m (write_back n y) = taken_by m (ly_world y)"
    "given_by c (write_back n y) = given_by c (ly_world y)"
  by (simp_all add: net_channel_def taken_by_def given_by_def write_back_fields [OF l])

lemma write_back_seen:
  assumes l: "net_line (ly_world y) n = Some l"
  shows "others_see n I t K (ly_world y) (write_back n y)"
  by (simp add: others_see_def write_back_fields [OF l] write_back_views [OF l] channel_moves_refl)

subsection \<open>Drops\<close>

lemma drop_receiver_moves:
  assumes c: "c \<in> I"
  shows "inside w (net_moves n I t K) b (drop_receiver c b)"
proof (cases "c < length (bt_channels b)")
  case True
  obtain e wk where d: "pe_receiver_drop (bt_channels b ! c) = (e, wk)" by (cases "pe_receiver_drop (bt_channels b ! c)") auto
  have "channel_moves True (t = Some c) (bt_channels b ! c) (given_by c w) e (given_by c w) (set (bt_wakes b @ wk))"
    using channel_moves_receiver_drop [OF d] by simp
  with net_moves_put [of c "w\<lparr>nt_built := b\<rparr>" I t e wk n K] True c d show ?thesis
    by (simp add: inside_def drop_receiver_def net_channel_def)
qed (simp add: drop_receiver_def inside_def net_moves_refl)

lemma drop_sender_moves:
  assumes c: "t = Some c"
  shows "inside w (net_moves n I t K) b (drop_sender c b)"
proof (cases "c < length (bt_channels b)")
  case True
  obtain e wk where d: "pe_sender_drop (bt_channels b ! c) = (e, wk)" by (cases "pe_sender_drop (bt_channels b ! c)") auto
  then have "channel_moves (c \<in> I) True (bt_channels b ! c) (given_by c w) e (given_by c w) (set (bt_wakes b @ wk))"
    using channel_moves_close [of "bt_channels b ! c" e wk] by (simp add: pe_sender_drop_def)
  with net_moves_put [of c "w\<lparr>nt_built := b\<rparr>" I t e wk n K] True c d show ?thesis
    by (simp add: inside_def drop_sender_def net_channel_def)
qed (simp add: drop_sender_def inside_def net_moves_refl)

lemma fold_drop_moves:
  assumes "set cs \<subseteq> I"
  shows "inside w (net_moves n I t K) b (fold drop_receiver cs b)"
  using assms
proof (induction cs arbitrary: b)
  case Nil
  then show ?case by (simp add: inside_def net_moves_refl)
next
  case (Cons c cs)
  then have "inside w (net_moves n I t K) b (drop_receiver c b)" by (intro drop_receiver_moves) simp
  moreover have "inside w (net_moves n I t K) (drop_receiver c b) (fold drop_receiver cs (drop_receiver c b))"
    using Cons by simp
  ultimately show ?case by (auto simp: inside_def intro: net_moves_trans)
qed

lemma drop_line_moves:
  assumes "set (inlet_channels (gl_inlet l)) \<subseteq> I" and "output_channel (pl_output (gl_shared l)) = t"
  shows "net_moves n I t K w (w\<lparr>nt_built := drop_line l (nt_built w)\<rparr>)"
proof -
  let ?b = "fold drop_receiver (inlet_channels (gl_inlet l)) (nt_built w)"
  have 1: "net_moves n I t K w (w\<lparr>nt_built := ?b\<rparr>)"
    using fold_drop_moves [OF assms(1), of w n t K "nt_built w"] by (simp add: inside_def)
  show ?thesis
  proof (cases t)
    case None
    with 1 assms(2) show ?thesis by (simp add: drop_line_def Let_def)
  next
    case (Some c)
    with drop_sender_moves [OF Some, of w n I K ?b] assms(2) 1 show ?thesis
      by (simp add: drop_line_def Let_def inside_def) (blast intro: net_moves_trans)
  qed
qed

text \<open>Every channel a dropped node read is closed, with nobody waiting for room.\<close>

lemma closed_for_good:
  assumes "net_moves n I t K w w'" "c < length (bt_channels (nt_built w))" "pe_closed (net_channel w c)" "\<not> pe_refused (net_channel w c)"
  shows "pe_closed (net_channel w' c) \<and> \<not> pe_refused (net_channel w' c)"
  using assms by (auto simp: net_moves_def channel_moves_def)

lemma drop_receiver_closes:
  assumes "c < length (bt_channels b)"
  shows "pe_closed (bt_channels (drop_receiver c b) ! c) \<and> \<not> pe_refused (bt_channels (drop_receiver c b) ! c)"
proof -
  obtain e wk where d: "pe_receiver_drop (bt_channels b ! c) = (e, wk)" by (cases "pe_receiver_drop (bt_channels b ! c)") auto
  from channel_moves_receiver_drop [OF d subset_refl] d assms show ?thesis by (simp add: drop_receiver_def)
qed

lemma drop_line_closes:
  fixes w :: "('d, 's, 'r) sync_net"
  assumes c: "c \<in> set (inlet_channels (gl_inlet l))" "c < length (bt_channels (nt_built w))"
  shows "pe_closed (net_channel (w\<lparr>nt_built := drop_line l (nt_built w)\<rparr>) c) \<and>
    \<not> pe_refused (net_channel (w\<lparr>nt_built := drop_line l (nt_built w)\<rparr>) c)"
proof -
  obtain cs ds where cs: "inlet_channels (gl_inlet l) = cs @ c # ds" using c(1) by (meson split_list)
  let ?b1 = "drop_receiver c (fold drop_receiver cs (nt_built w))"
  let ?w1 = "w\<lparr>nt_built := ?b1\<rparr>"
  let ?t = "output_channel (pl_output (gl_shared l))"
  have len: "length (bt_channels (fold drop_receiver xs b)) = length (bt_channels b)" for xs and b :: "('d, 's, 'r, nat \<times> nat, ('d, 's) sync_world) built"
    by (induction xs arbitrary: b) (auto simp: drop_receiver_def split: prod.splits)
  have 1: "pe_closed (net_channel ?w1 c)" "\<not> pe_refused (net_channel ?w1 c)"
    using drop_receiver_closes [of c "fold drop_receiver cs (nt_built w)"] c(2) len by (simp_all add: net_channel_def)
  let ?l = "l\<lparr>gl_inlet := Channels ds\<rparr>"
  have "drop_line ?l ?b1 = drop_line l (nt_built w)" by (simp add: drop_line_def cs)
  with drop_line_moves [of ?l UNIV ?t 0 UNIV ?w1] have "net_moves 0 UNIV ?t UNIV ?w1 (w\<lparr>nt_built := drop_line l (nt_built w)\<rparr>)"
    by simp
  from closed_for_good [OF this _ 1] len c(2) show ?thesis by (simp add: drop_receiver_def split: prod.splits)
qed

section \<open>What is kept of a node\<close>

context poll_line
begin

lemma line_step_trans: "line_step_ok y y1 \<Longrightarrow> line_step_ok y1 y2 \<Longrightarrow> line_step_ok y y2"
  using line_moves_trans unfolding line_step_ok_def by metis

lemma line_step_good: "line_step_ok y y' \<Longrightarrow> line_good y'"
  by (simp add: line_step_ok_def)

end

abbreviation node_good where
  "node_good env n i \<equiv> poll_line.line_good (net_avail n i) (net_rotate (sync_sink env)) (net_ok (set (inlet_channels i)))"

abbreviation node_steps where
  "node_steps po env n i \<equiv> poll_line.line_step_ok po (taken_by n) (net_avail n i) (net_rotate (sync_sink env))
     net_lanes net_received net_due (net_ok (set (inlet_channels i)))"

lemma net_avail_kind: "same_inlet i j \<Longrightarrow> net_avail n j = net_avail n i"
  by (rule ext, cases i; cases j) (auto simp: net_avail_def)

lemma inlet_recv_kind: "same_inlet i j \<Longrightarrow> inlet_recv n j = inlet_recv n i"
  by (rule ext, cases i; cases j) auto

text \<open>A node since the start: it is the node it was, every step since was a good one, and unless Output has a wake
  or the node is over, an output that waits for its channel was refused by it.\<close>

definition node_kept ::
  "('d, 'd, 'r) poll_ops \<Rightarrow> (('d, 's) sync_world \<Rightarrow> ('d, 's) sync_world option) \<Rightarrow> ('d, 's, 'r) sync_net \<Rightarrow> nat \<Rightarrow>
   ('d, 's, 'r, nat \<times> nat) line_node \<Rightarrow> ('d, 's, 'r) sync_net \<Rightarrow> bool" where
  "node_kept po env w0 n l0 w \<longleftrightarrow>
     (\<exists>l. net_line w n = Some l \<and> same_inlet (gl_inlet l0) (gl_inlet l) \<and> gl_wakers l = gl_wakers l0 \<and>
        routed (output_channel (pl_output (gl_shared l0))) (outer_handles (pl_output (gl_shared l0))) (pl_output (gl_shared l)) \<and>
        node_steps po env n (gl_inlet l0) (line_sys_of n l0 w0) (line_sys_of n l w) \<and>
        (pl_state (gl_shared l) = NClosed \<or> LOutput \<in> pl_woken (gl_shared l) \<or> waits_refused (pl_output (gl_shared l)) w))"

definition woken_line :: "waker list \<Rightarrow> ('d, 's, 'r, 'k) line_node \<Rightarrow> ('d, 's, 'r, 'k) line_node" where
  "woken_line ws l = l\<lparr>gl_shared := (gl_shared l)\<lparr>pl_woken := pl_woken (gl_shared l) \<union> woken_phases ws (gl_wakers l)\<rparr>\<rparr>"

lemma woken_phases_iff [simp]: "p \<in> woken_phases ws v \<longleftrightarrow> line_waker v p \<in> set ws"
  by (cases p) (auto simp: woken_phases_def)

lemma woken_line_fields [simp]:
  "gl_inlet (woken_line ws l) = gl_inlet l" "gl_wakers (woken_line ws l) = gl_wakers l"
  "pl_state (gl_shared (woken_line ws l)) = pl_state (gl_shared l)" "pl_output (gl_shared (woken_line ws l)) = pl_output (gl_shared l)"
  "pl_routine (gl_shared (woken_line ws l)) = pl_routine (gl_shared l)"
  "pl_woken (gl_shared (woken_line ws l)) = pl_woken (gl_shared l) \<union> woken_phases ws (gl_wakers l)"
  by (simp_all add: woken_line_def)

lemma net_received_got:
  assumes "\<And>k. k \<in> outer_handles x \<Longrightarrow> edge_got k w' = edge_got k w"
    and "\<And>c. output_channel x = Some c \<Longrightarrow> channel_got c w' = channel_got c w" and "i < net_lanes x"
  shows "net_received x w' i = net_received x w i"
  using assms by (auto simp: net_received_def net_lanes_def split: node_output.splits poll_sink.splits if_splits)

text \<open>What others do keeps it.\<close>

lemma node_kept_elsewhere:
  assumes h: "honest_routine po" and k: "node_kept po env w0 n l0 w" and l: "net_line w n = Some l"
    and l': "net_line w' n = Some (woken_line ws (l\<lparr>gl_inlet := i\<rparr>))" and i: "same_inlet (gl_inlet l) i"
    and same: "nt_held w' n = nt_held w n" "nt_ended w' n = nt_ended w n" "nt_asked w' n = nt_asked w n" "taken_by n w' = taken_by n w"
    and out: "\<And>k. pl_state (gl_shared l) \<noteq> NClosed \<Longrightarrow> k \<in> outer_handles (pl_output (gl_shared l0)) \<Longrightarrow> edge_got k w' = edge_got k w"
      "\<And>c. pl_state (gl_shared l) \<noteq> NClosed \<Longrightarrow> output_channel (pl_output (gl_shared l0)) = Some c \<Longrightarrow>
         channel_got c w' = channel_got c w \<and>
         (pe_refused (net_channel w c) \<longrightarrow> pe_refused (net_channel w' c) \<or> lw_output (gl_wakers l0) \<in> set ws)"
    and avail: "pl_state (gl_shared l) = Running \<Longrightarrow> net_avail n (gl_inlet l0) w' \<Longrightarrow>
         net_avail n (gl_inlet l0) w \<or> lw_input (gl_wakers l0) \<in> set ws"
  shows "node_kept po env w0 n l0 w'"
proof -
  note L = net_node [OF h, of n "gl_inlet l0" env]
  from k l have K: "same_inlet (gl_inlet l0) (gl_inlet l)" "gl_wakers l = gl_wakers l0"
    "routed (output_channel (pl_output (gl_shared l0))) (outer_handles (pl_output (gl_shared l0))) (pl_output (gl_shared l))"
    "node_steps po env n (gl_inlet l0) (line_sys_of n l0 w0) (line_sys_of n l w)"
    "pl_state (gl_shared l) = NClosed \<or> LOutput \<in> pl_woken (gl_shared l) \<or> waits_refused (pl_output (gl_shared l)) w"
    by (auto simp: node_kept_def)
  let ?y = "line_sys_of n l w" and ?l = "woken_line ws (l\<lparr>gl_inlet := i\<rparr>)" and ?v = "woken_phases ws (gl_wakers l)"
  have y': "line_sys_of n ?l w' = ?y\<lparr>ly_world := w', ly_node := (ly_node ?y)\<lparr>pl_woken := pl_woken (ly_node ?y) \<union> ?v\<rparr>\<rparr>"
    by (simp add: line_sys_of_def woken_line_def same)
  have r: "output_channel (pl_output (gl_shared l)) = output_channel (pl_output (gl_shared l0))"
      "outer_handles (pl_output (gl_shared l)) = outer_handles (pl_output (gl_shared l0))"
    using K(3) by (simp_all add: routed_def)
  have "node_steps po env n (gl_inlet l0) ?y (line_sys_of n ?l w')"
    unfolding y'
  proof (rule poll_line.line_elsewhere_ok [OF L poll_line.line_step_good [OF L K(4)]])
    fix j assume "pl_state (ly_node ?y) \<noteq> NClosed" "j < net_lanes (pl_output (ly_node ?y))"
    then show "net_received (pl_output (ly_node ?y)) w' j = net_received (pl_output (ly_node ?y)) (ly_world ?y) j"
      using out r by (intro net_received_got) (auto simp: line_sys_of_def)
  qed (use same avail K(2) in \<open>simp_all add: line_sys_of_def\<close>)
  from poll_line.line_step_trans [OF L K(4) this]
  have "node_steps po env n (gl_inlet l0) (line_sys_of n l0 w0) (line_sys_of n ?l w')" .
  moreover have "pl_state (gl_shared l) = NClosed \<or> LOutput \<in> pl_woken (gl_shared ?l) \<or> waits_refused (pl_output (gl_shared l)) w'"
    using K(2,5) out(2) r by (auto simp: waits_refused_def split: node_output.splits)
  moreover have "same_inlet (gl_inlet l0) i" by (rule same_inlet_trans [OF K(1) i])
  ultimately show ?thesis using K(2,3) l' by (auto simp: node_kept_def)
qed

lemma others_see_channel:
  "others_see n I t K w w' \<Longrightarrow> c < length (bt_channels (nt_built w)) \<Longrightarrow>
     channel_moves (c \<in> I) (t = Some c) (net_channel w c) (given_by c w) (net_channel w' c) (given_by c w')
       (set (bt_wakes (nt_built w')))"
  unfolding others_see_def by blast

text \<open>Its own poll keeps it, and moves only what it has.\<close>

lemma node_polled:
  assumes h: "honest_routine po" and k: "node_kept po env w0 n l0 w" and l: "net_line w n = Some l"
    and p: "poll_line_phase po (net_rotate (sync_sink env)) (inlet_recv n (gl_inlet l)) ph (line_sys_of n l w) = (q, y)"
    and q: "is_ok q \<or> q = Err Closed" and e: "ph \<notin> nt_ended w n"
    and len: "\<And>c. output_channel (pl_output (gl_shared l0)) = Some c \<Longrightarrow> c < length (bt_channels (nt_built w))"
  shows "\<exists>l1. net_line (ly_world y) n = Some l1 \<and> same_inlet (gl_inlet l) (gl_inlet l1) \<and> gl_wakers l1 = gl_wakers l \<and>
    net_moves n (set (inlet_channels (gl_inlet l0))) (output_channel (pl_output (gl_shared l0)))
      (outer_handles (pl_output (gl_shared l0))) w (ly_world y) \<and>
    node_kept po env w0 n l0 (write_back n y) \<and>
    (pl_state (gl_shared l) = NClosed \<longrightarrow> pl_state (ly_node y) = NClosed) \<and>
    ly_ended y = (if is_ok q then nt_ended w n else insert ph (nt_ended w n)) \<and>
    (LOutput \<in> ly_ended y \<longrightarrow> pl_state (ly_node y) = NClosed)"
proof -
  let ?i = "gl_inlet l0" and ?t = "output_channel (pl_output (gl_shared l0))" and ?K = "outer_handles (pl_output (gl_shared l0))"
  let ?I = "set (inlet_channels ?i)" and ?y0 = "line_sys_of n l w" and ?ro = "net_rotate (sync_sink env)"
  note L = net_node [OF h, of n ?i env]
  from k l have K: "same_inlet ?i (gl_inlet l)" "gl_wakers l = gl_wakers l0" "routed ?t ?K (pl_output (gl_shared l))"
    "node_steps po env n ?i (line_sys_of n l0 w0) ?y0"
    "pl_state (gl_shared l) = NClosed \<or> LOutput \<in> pl_woken (gl_shared l) \<or> waits_refused (pl_output (gl_shared l)) w"
    by (auto simp: node_kept_def)
  have p': "poll_line_phase po ?ro (inlet_recv n ?i) ph ?y0 = (q, y)" using p by (simp add: inlet_recv_kind [OF K(1)])
  have good0: "node_good env n ?i ?y0" by (rule poll_line.line_step_good [OF L K(4)])
  have "line_event_run po ?ro (inlet_recv n ?i) (Polled ph) ?y0 = Some y"
    using p' q e by (cases q) (auto simp: line_event_run_def line_sys_of_def)
  from poll_line.line_event_ok [OF L this good0] have step: "node_steps po env n ?i ?y0 y"
    by (simp add: poll_line.elsewhere_ok_def [OF L])
  then have good: "node_good env n ?i y" by (rule poll_line.line_step_good [OF L])
  have J: "routed ?t ?K (pl_output (ly_node ?y0))" using K(3) by (simp add: line_sys_of_def)
  have "net_moves n ?I ?t ?K (ly_world ?y0) (ly_world y) \<and> routed ?t ?K (pl_output (ly_node y)) \<and>
      ly_ended y = (if is_ok q then ly_ended ?y0 else insert ph (ly_ended ?y0)) \<and>
      (ph \<noteq> LOutput \<longrightarrow> pl_output (ly_node y) = pl_output (ly_node ?y0) \<and> pl_woken (ly_node ?y0) - {ph} \<subseteq> pl_woken (ly_node y))"
    by (rule poll_line_phase_frame [OF p' net_rotate_steers _ J]) (rule inlet_recv_moves, assumption, simp)
  then have F: "net_moves n ?I ?t ?K w (ly_world y)" "routed ?t ?K (pl_output (ly_node y))"
      "ly_ended y = (if is_ok q then nt_ended w n else insert ph (nt_ended w n))"
      "ph \<noteq> LOutput \<longrightarrow> pl_output (ly_node y) = pl_output (gl_shared l) \<and> pl_woken (gl_shared l) - {ph} \<subseteq> pl_woken (ly_node y)"
    by (simp_all add: line_sys_of_def)
  obtain l1 where l1: "net_line (ly_world y) n = Some l1" "same_line l l1"
    using F(1) l by (auto simp: net_moves_def option_rel_Some1)
  note wb = write_back_fields [OF l1(1)] write_back_views [OF l1(1)]
  let ?w2 = "write_back n y" and ?l2 = "l1\<lparr>gl_shared := ly_node y\<rparr>"
  have y2: "line_sys_of n ?l2 ?w2 = y\<lparr>ly_world := ?w2, ly_node := (ly_node y)\<lparr>pl_woken := pl_woken (ly_node y) \<union> {}\<rparr>\<rparr>"
    by (simp add: line_sys_of_def wb)
  have "node_steps po env n ?i y (line_sys_of n ?l2 ?w2)"
    unfolding y2
  proof (rule poll_line.line_elsewhere_ok [OF L good])
    show "net_received (pl_output (ly_node y)) ?w2 j = net_received (pl_output (ly_node y)) (ly_world y) j" if "j < net_lanes (pl_output (ly_node y))" for j
      by (rule net_received_got) (use that in \<open>simp_all add: edge_got_def channel_got_def wb\<close>)
    show "net_avail n ?i (ly_world y) \<or> LInput \<in> {}" if "net_avail n ?i ?w2"
      using that l1(1) by (cases ?i) (auto simp: net_avail_def wb)
  qed (simp add: wb)
  from poll_line.line_step_trans [OF L poll_line.line_step_trans [OF L K(4) step] this]
  have "node_steps po env n ?i (line_sys_of n l0 w0) (line_sys_of n ?l2 ?w2)" .
  moreover have ends: "LOutput \<in> ly_ended y \<longrightarrow> pl_state (ly_node y) = NClosed"
    using good by (simp add: poll_line.line_good_def [OF L] poll_line.line_ends_def [OF L])
  moreover have over: "pl_state (gl_shared l) = NClosed \<longrightarrow> pl_state (ly_node y) = NClosed"
    using step by (auto simp: poll_line.line_step_ok_def [OF L] line_sys_of_def)
  moreover have "pl_state (ly_node y) = NClosed \<or> LOutput \<in> pl_woken (ly_node y) \<or> waits_refused (pl_output (ly_node y)) ?w2"
  proof (cases "ph = LOutput")
    case True
    show ?thesis
    proof (cases "is_ok q")
      case False
      with F(3) True ends show ?thesis by simp
    next
      case ok: True
      then obtain v where "q = Ok v" by (cases q) auto
      with poll_line_phase_settles [OF p' [unfolded True this] net_rotate_settles]
      have "waits_refused (pl_output (ly_node y)) (ly_world y)" by blast
      then show ?thesis by (cases "pl_output (ly_node y)") (simp_all add: waits_refused_def wb)
    qed
  next
    case False
    with F(4) have o: "pl_output (ly_node y) = pl_output (gl_shared l)" "pl_woken (gl_shared l) - {ph} \<subseteq> pl_woken (ly_node y)" by auto
    show ?thesis
    proof (cases "pl_state (gl_shared l) = NClosed \<or> LOutput \<in> pl_woken (gl_shared l)")
      case True
      with o(2) False over show ?thesis by auto
    next
      case nw: False
      with K(5) have r: "waits_refused (pl_output (gl_shared l)) w" by simp
      from good0 nw have okout: "net_ok ?I (pl_output (gl_shared l))"
        by (simp add: poll_line.line_good_def [OF L] line_sys_of_def)
      have "waits_refused (pl_output (gl_shared l)) ?w2"
      proof (cases "pl_output (gl_shared l)")
        case (One g)
        have "pe_refused (net_channel (ly_world y) c)" if c: "sg_edge g = ToChannel c" "sg_held g \<noteq> None" for c
        proof -
          have "?t = Some c" using K(3) One c(1) by (simp add: routed_def)
          from others_see_channel [OF net_moves_seen [OF F(1)] len [OF this]]
          have "channel_moves (c \<in> ?I) (?t = Some c) (net_channel w c) (given_by c w) (net_channel (ly_world y) c)
              (given_by c (ly_world y)) (set (bt_wakes (nt_built (ly_world y))))" .
          moreover have "c \<notin> ?I" using okout One c(1) by (simp add: net_ok_def)
          ultimately show ?thesis using r One c by (auto simp: channel_moves_def waits_refused_def)
        qed
        moreover have "sg_held g \<noteq> None \<longrightarrow> sg_edge g \<noteq> ToNull" using r One by (simp add: waits_refused_def)
        ultimately show ?thesis by (simp add: One waits_refused_def wb)
      qed (simp add: waits_refused_def)
      with o show ?thesis by simp
    qed
  qed
  ultimately show ?thesis using K(1,2) F(1-3) l1 same_inlet_trans [OF K(1)] by (auto simp: node_kept_def wb same_line_def)
qed

section \<open>What is kept of the network\<close>

text \<open>How it is laid out: a channel wakes the nodes at its ends, every waker is one phase's, and every handle on
  another thread's edge is one node's.\<close>

definition net_laid :: "('d, 's, 'r, 'k, 'w) net \<Rightarrow> bool" where
  "net_laid w \<longleftrightarrow>
     (\<forall>n l. net_line w n = Some l \<longrightarrow>
        (\<forall>c. output_channel (pl_output (gl_shared l)) = Some c \<longrightarrow>
           c < length (bt_channels (nt_built w)) \<and> pe_producer (net_channel w c) = Some (lw_output (gl_wakers l))) \<and>
        (\<forall>c\<in>set (inlet_channels (gl_inlet l)).
           c < length (bt_channels (nt_built w)) \<and> pe_consumer (net_channel w c) = lw_input (gl_wakers l)) \<and>
        inlet_wakes (lw_input (gl_wakers l)) (gl_inlet l)) \<and>
     (\<forall>n m l k p q. net_line w n = Some l \<and> net_line w m = Some k \<and>
        line_waker (gl_wakers l) p = line_waker (gl_wakers k) q \<longrightarrow> n = m \<and> p = q) \<and>
     (\<forall>n m l k. net_line w n = Some l \<and> net_line w m = Some k \<and> n \<noteq> m \<longrightarrow>
        outer_handles (pl_output (gl_shared l)) \<inter> outer_handles (pl_output (gl_shared k)) = {})"

definition all_phases :: "line_phase set" where
  "all_phases = {LInput, LWork, LOutput}"

definition net_kept ::
  "('d, 'd, 'r) poll_ops \<Rightarrow> (('d, 's) sync_world \<Rightarrow> ('d, 's) sync_world option) \<Rightarrow> ('d, 's, 'r) sync_net \<Rightarrow> ('d, 's, 'r) sync_net \<Rightarrow> bool" where
  "net_kept po env w0 w \<longleftrightarrow>
     (\<forall>n. net_line w0 n = None \<longleftrightarrow> net_line w n = None) \<and>
     length (bt_channels (nt_built w)) = length (bt_channels (nt_built w0)) \<and> bt_wakes (nt_built w) = [] \<and>
     (\<forall>c < length (bt_channels (nt_built w0)).
        pe_consumer (net_channel w c) = pe_consumer (net_channel w0 c) \<and>
        pe_producer (net_channel w c) = pe_producer (net_channel w0 c) \<and> pe_bound (net_channel w c) = pe_bound (net_channel w0 c) \<and>
        (pe_refused (net_channel w c) \<longrightarrow> pe_is_full (net_channel w c))) \<and>
     (\<forall>n l0. net_line w0 n = Some l0 \<longrightarrow> node_kept po env w0 n l0 w \<and>
        (nt_ended w n = all_phases \<longrightarrow>
           (\<forall>c\<in>set (inlet_channels (gl_inlet l0)). pe_closed (net_channel w c) \<and> \<not> pe_refused (net_channel w c))))"

lemma deliver_wakes_fields [simp]:
  "net_line (deliver_wakes w) n = map_option (woken_line (bt_wakes (nt_built w))) (net_line w n)"
  "net_channel (deliver_wakes w) c = net_channel w c" "bt_channels (nt_built (deliver_wakes w)) = bt_channels (nt_built w)"
  "bt_sinks (nt_built (deliver_wakes w)) = bt_sinks (nt_built w)" "bt_wakes (nt_built (deliver_wakes w)) = []"
  "taken_by n (deliver_wakes w) = taken_by n w" "given_by c (deliver_wakes w) = given_by c w"
  "nt_held (deliver_wakes w) = nt_held w" "nt_ended (deliver_wakes w) = nt_ended w" "nt_asked (deliver_wakes w) = nt_asked w"
proof -
  show "net_line (deliver_wakes w) n = map_option (woken_line (bt_wakes (nt_built w))) (net_line w n)"
    by (cases "bt_nodes (nt_built w) ! n") (auto simp: net_line_def deliver_wakes_def woken_line_def)
qed (simp_all add: deliver_wakes_def net_channel_def taken_by_def given_by_def)

lemma got_deliver [simp]: "edge_got k (deliver_wakes w) = edge_got k w" "channel_got c (deliver_wakes w) = channel_got c w"
  by (simp_all add: edge_got_def channel_got_def)

text \<open>Whoever moves the network leaves every node it is not alone.\<close>

lemma node_kept_others:
  assumes h: "honest_routine po" and laid: "net_laid w0" and kept: "net_kept po env w0 w"
    and n: "net_line w0 n = Some ln" and m: "net_line w0 m = Some l0" and ne: "m \<noteq> n"
    and o: "others_see n (set (inlet_channels (gl_inlet ln))) (output_channel (pl_output (gl_shared ln)))
        (outer_handles (pl_output (gl_shared ln))) w w'"
  shows "node_kept po env w0 m l0 (deliver_wakes w')"
proof -
  let ?ws = "bt_wakes (nt_built w')" and ?I = "set (inlet_channels (gl_inlet ln))"
  from kept m have k: "node_kept po env w0 m l0 w" by (simp add: net_kept_def)
  then obtain l where l: "net_line w m = Some l" by (auto simp: node_kept_def)
  from o ne have same: "net_line w' m = net_line w m" "taken_by m w' = taken_by m w" "nt_held w' m = nt_held w m"
      "nt_ended w' m = nt_ended w m" "nt_asked w' m = nt_asked w m" "length (bt_channels (nt_built w')) = length (bt_channels (nt_built w))"
    by (simp_all add: others_see_def)
  have len: "length (bt_channels (nt_built w)) = length (bt_channels (nt_built w0))" using kept by (simp add: net_kept_def)
  have cons: "pe_consumer (net_channel w c) = pe_consumer (net_channel w0 c)" "pe_producer (net_channel w c) = pe_producer (net_channel w0 c)"
    if "c < length (bt_channels (nt_built w0))" for c
    using kept that by (simp_all add: net_kept_def)
  note wk = laid [unfolded net_laid_def, THEN conjunct2, THEN conjunct1, rule_format]
  show ?thesis
  proof (rule node_kept_elsewhere [OF h k l, where ws = ?ws and i = "gl_inlet l"])
    fix kk assume "kk \<in> outer_handles (pl_output (gl_shared l0))"
    then have "kk \<notin> outer_handles (pl_output (gl_shared ln))" using laid n m ne unfolding net_laid_def by blast
    with o have "sw_took (bt_sinks (nt_built w')) kk = sw_took (bt_sinks (nt_built w)) kk" unfolding others_see_def by blast
    then show "edge_got kk (deliver_wakes w') = edge_got kk w" by (simp add: edge_got_def)
  next
    fix c assume c: "output_channel (pl_output (gl_shared l0)) = Some c"
    with laid m have c0: "c < length (bt_channels (nt_built w0))" "pe_producer (net_channel w0 c) = Some (lw_output (gl_wakers l0))"
      unfolding net_laid_def by blast+
    have "output_channel (pl_output (gl_shared ln)) \<noteq> Some c"
    proof
      assume "output_channel (pl_output (gl_shared ln)) = Some c"
      with laid n have "pe_producer (net_channel w0 c) = Some (lw_output (gl_wakers ln))" unfolding net_laid_def by blast
      with c0(2) wk [of m l0 n ln LOutput LOutput] m n ne show False by simp
    qed
    with others_see_channel [OF o, of c] c0 len cons(2) [OF c0(1)]
    show "channel_got c (deliver_wakes w') = channel_got c w \<and>
        (pe_refused (net_channel w c) \<longrightarrow> pe_refused (net_channel (deliver_wakes w') c) \<or> lw_output (gl_wakers l0) \<in> set ?ws)"
      by (auto simp: channel_moves_def channel_got_def)
  next
    assume a: "net_avail m (gl_inlet l0) (deliver_wakes w')"
    show "net_avail m (gl_inlet l0) w \<or> lw_input (gl_wakers l0) \<in> set ?ws"
    proof (cases "gl_inlet l0")
      case (Bridge rx)
      with a same(1) l show ?thesis by (simp add: net_avail_def)
    next
      case (Channels cs)
      have ch: "c < length (bt_channels (nt_built w))" "lw_input (gl_wakers l0) \<in> set ?ws \<or>
          (pe_buffer (net_channel w' c) \<noteq> [] \<longrightarrow> pe_buffer (net_channel w c) \<noteq> []) \<and>
          (pe_closed (net_channel w' c) \<longrightarrow> pe_closed (net_channel w c))" if "c \<in> set cs" for c
      proof -
        from laid m Channels that have c0: "c < length (bt_channels (nt_built w0))" "pe_consumer (net_channel w0 c) = lw_input (gl_wakers l0)"
          unfolding net_laid_def by fastforce+
        show "c < length (bt_channels (nt_built w))" using c0 len by simp
        have "c \<notin> ?I"
        proof
          assume "c \<in> ?I"
          with laid n have "pe_consumer (net_channel w0 c) = lw_input (gl_wakers ln)" unfolding net_laid_def by blast
          with c0(2) wk [of m l0 n ln LInput LInput] m n ne show False by simp
        qed
        with others_see_channel [OF o, of c] c0 len cons(1) [OF c0(1)] show "lw_input (gl_wakers l0) \<in> set ?ws \<or>
          (pe_buffer (net_channel w' c) \<noteq> [] \<longrightarrow> pe_buffer (net_channel w c) \<noteq> []) \<and>
          (pe_closed (net_channel w' c) \<longrightarrow> pe_closed (net_channel w c))"
          by (auto simp: channel_moves_def)
      qed
      with a Channels same(6) show ?thesis by (auto simp: net_avail_def)
    qed
  qed (use same l in simp_all)
qed


text \<open>A move by node \<open>n\<close> alone, that keeps it.\<close>

lemma net_kept_move:
  assumes h: "honest_routine po" and laid: "net_laid w0" and kept: "net_kept po env w0 w"
    and n: "net_line w0 n = Some l0"
    and o: "others_see n (set (inlet_channels (gl_inlet l0))) (output_channel (pl_output (gl_shared l0)))
        (outer_handles (pl_output (gl_shared l0))) w w'"
    and self: "node_kept po env w0 n l0 (deliver_wakes w')"
    and over: "nt_ended w' n = all_phases \<Longrightarrow>
        \<forall>c\<in>set (inlet_channels (gl_inlet l0)). pe_closed (net_channel w' c) \<and> \<not> pe_refused (net_channel w' c)"
  shows "net_kept po env w0 (deliver_wakes w')"
proof -
  have len: "length (bt_channels (nt_built w)) = length (bt_channels (nt_built w0))" using kept by (simp add: net_kept_def)
  have len': "length (bt_channels (nt_built w')) = length (bt_channels (nt_built w0))"
    using o len by (simp add: others_see_def)
  have ch: "pe_consumer (net_channel w' c) = pe_consumer (net_channel w0 c)" "pe_producer (net_channel w' c) = pe_producer (net_channel w0 c)"
      "pe_bound (net_channel w' c) = pe_bound (net_channel w0 c)" "pe_refused (net_channel w' c) \<longrightarrow> pe_is_full (net_channel w' c)"
      "pe_closed (net_channel w c) \<and> \<not> pe_refused (net_channel w c) \<longrightarrow> pe_closed (net_channel w' c) \<and> \<not> pe_refused (net_channel w' c)"
    if "c < length (bt_channels (nt_built w0))" for c
  proof -
    from kept that have "pe_consumer (net_channel w c) = pe_consumer (net_channel w0 c)"
        "pe_producer (net_channel w c) = pe_producer (net_channel w0 c)" "pe_bound (net_channel w c) = pe_bound (net_channel w0 c)"
        "pe_refused (net_channel w c) \<longrightarrow> pe_is_full (net_channel w c)" by (simp_all add: net_kept_def)
    with others_see_channel [OF o, of c] that len
    show "pe_consumer (net_channel w' c) = pe_consumer (net_channel w0 c)" "pe_producer (net_channel w' c) = pe_producer (net_channel w0 c)"
      "pe_bound (net_channel w' c) = pe_bound (net_channel w0 c)" "pe_refused (net_channel w' c) \<longrightarrow> pe_is_full (net_channel w' c)"
      "pe_closed (net_channel w c) \<and> \<not> pe_refused (net_channel w c) \<longrightarrow> pe_closed (net_channel w' c) \<and> \<not> pe_refused (net_channel w' c)"
      by (simp_all add: channel_moves_def)
  qed
  have none: "net_line w0 m = None \<longleftrightarrow> net_line (deliver_wakes w') m = None" for m
  proof (cases "m = n")
    case True
    with self n show ?thesis by (auto simp: node_kept_def)
  next
    case False
    with o kept show ?thesis by (simp add: others_see_def net_kept_def)
  qed
  have "node_kept po env w0 m lm (deliver_wakes w') \<and> (nt_ended w' m = all_phases \<longrightarrow>
      (\<forall>c\<in>set (inlet_channels (gl_inlet lm)). pe_closed (net_channel w' c) \<and> \<not> pe_refused (net_channel w' c)))"
    if m: "net_line w0 m = Some lm" for m lm
  proof (cases "m = n")
    case True
    with self over n m show ?thesis by simp
  next
    case False
    have c0: "c < length (bt_channels (nt_built w0))" if "c \<in> set (inlet_channels (gl_inlet lm))" for c
      using laid m that unfolding net_laid_def by blast
    have "nt_ended w' m = nt_ended w m" using o False by (simp add: others_see_def)
    moreover have "nt_ended w m = all_phases \<longrightarrow>
        (\<forall>c\<in>set (inlet_channels (gl_inlet lm)). pe_closed (net_channel w c) \<and> \<not> pe_refused (net_channel w c))"
      using kept m by (simp add: net_kept_def)
    ultimately show ?thesis using node_kept_others [OF h laid kept n m False o] ch(5) c0 by auto
  qed
  with none len' ch show ?thesis by (simp add: net_kept_def)
qed

lemma drop_line_frame [simp]:
  fixes b :: "('d, 's, 'r, 'k, 'w) built"
  shows "bt_nodes (drop_line l b) = bt_nodes b" "bt_sinks (drop_line l b) = bt_sinks b"
  "length (bt_channels (drop_line l b)) = length (bt_channels b)"
proof -
  have r: "bt_nodes (drop_receiver c b) = bt_nodes b \<and> bt_sinks (drop_receiver c b) = bt_sinks b \<and>
      length (bt_channels (drop_receiver c b)) = length (bt_channels b)" for c and b :: "('d, 's, 'r, 'k, 'w) built"
    by (simp add: drop_receiver_def split: prod.splits)
  have "bt_nodes (fold drop_receiver cs b) = bt_nodes b \<and> bt_sinks (fold drop_receiver cs b) = bt_sinks b \<and>
      length (bt_channels (fold drop_receiver cs b)) = length (bt_channels b)" for cs and b :: "('d, 's, 'r, 'k, 'w) built"
    by (induction cs arbitrary: b) (auto simp: r)
  then show "bt_nodes (drop_line l b) = bt_nodes b" "bt_sinks (drop_line l b) = bt_sinks b"
    "length (bt_channels (drop_line l b)) = length (bt_channels b)"
    by (auto simp: drop_line_def drop_sender_def Let_def split: option.splits prod.splits)
qed

text \<open>A poll keeps the network.\<close>

lemma net_poll_kept:
  assumes h: "honest_routine po" and laid: "net_laid w0" and kept: "net_kept po env w0 w"
    and p: "net_poll po (sync_sink env) n ph w = Some w'"
  shows "net_kept po env w0 w'"
proof -
  from p obtain l where l: "net_line w n = Some l" by (auto simp: net_poll_def split: option.splits)
  with kept obtain l0 where l0: "net_line w0 n = Some l0" by (fastforce simp: net_kept_def)
  let ?I = "set (inlet_channels (gl_inlet l0))" and ?t = "output_channel (pl_output (gl_shared l0))"
  let ?K = "outer_handles (pl_output (gl_shared l0))"
  from kept l0 have k: "node_kept po env w0 n l0 w" by (simp add: net_kept_def)
  have len: "length (bt_channels (nt_built w)) = length (bt_channels (nt_built w0))" using kept by (simp add: net_kept_def)
  show ?thesis
  proof (cases "ph \<in> nt_ended w n")
    case True
    with p l kept show ?thesis by (simp add: net_poll_def)
  next
    case False
    obtain q y where s: "poll_line_phase po (net_rotate (sync_sink env)) (inlet_recv n (gl_inlet l)) ph (line_sys_of n l w) = (q, y)"
      by (cases "poll_line_phase po (net_rotate (sync_sink env)) (inlet_recv n (gl_inlet l)) ph (line_sys_of n l w)") auto
    with p l False have q: "is_ok q \<or> q = Err Closed"
        and w': "w' = deliver_wakes (if is_ok q then write_back n y else drop_ended n (write_back n y))"
      by (cases q; auto simp: net_poll_def split: if_splits)+
    have ln: "c < length (bt_channels (nt_built w))" if "?t = Some c" for c
      using laid l0 that len unfolding net_laid_def by simp
    from node_polled [OF h k l s q False ln] obtain l1 where l1: "net_line (ly_world y) n = Some l1" "same_inlet (gl_inlet l) (gl_inlet l1)"
        "net_moves n ?I ?t ?K w (ly_world y)" "node_kept po env w0 n l0 (write_back n y)"
        "pl_state (gl_shared l) = NClosed \<longrightarrow> pl_state (ly_node y) = NClosed"
        "ly_ended y = (if is_ok q then nt_ended w n else insert ph (nt_ended w n))"
        "LOutput \<in> ly_ended y \<longrightarrow> pl_state (ly_node y) = NClosed"
      by blast
    let ?w1 = "write_back n y" and ?l2 = "l1\<lparr>gl_shared := ly_node y\<rparr>"
    note wb = write_back_fields [OF l1(1)] write_back_views [OF l1(1)]
    have seen1: "others_see n ?I ?t ?K w ?w1"
      by (rule others_see_trans [OF net_moves_seen [OF l1(3)] write_back_seen [OF l1(1)]])
    have here: "net_line ?w1 n = Some ?l2" by (simp add: wb)
    show ?thesis
    proof (cases "is_ok q \<or> ly_ended y \<noteq> all_phases")
      case True
      then have w1: "w' = deliver_wakes ?w1" using w' here by (auto simp: drop_ended_def wb all_phases_def)
      have "nt_ended ?w1 n \<noteq> all_phases"
        using True False l1(6) by (cases ph) (auto simp: wb all_phases_def split: if_splits)
      moreover have "node_kept po env w0 n l0 (deliver_wakes ?w1)"
        by (rule node_kept_elsewhere [OF h l1(4) here, where ws = "bt_wakes (nt_built ?w1)" and i = "gl_inlet ?l2"])
          (use here in \<open>auto simp: net_avail_def split: inlet.splits\<close>)
      ultimately show ?thesis unfolding w1 by (intro net_kept_move [OF h laid kept l0 seen1]) auto
    next
      case dropped: False
      let ?w2 = "?w1\<lparr>nt_built := drop_line ?l2 (nt_built ?w1)\<rparr>"
      from dropped have w2: "w' = deliver_wakes ?w2" using w' here by (simp add: drop_ended_def wb all_phases_def)
      from dropped l1(7) have over: "pl_state (ly_node y) = NClosed" by (simp add: all_phases_def)
      from l1(4) here have rt: "same_inlet (gl_inlet l0) (gl_inlet ?l2)" "routed ?t ?K (pl_output (gl_shared ?l2))"
        by (auto simp: node_kept_def)
      have "net_moves n ?I ?t ?K ?w1 ?w2"
        by (rule drop_line_moves) (use rt same_inlet_channels [OF rt(1)] in \<open>auto simp: routed_def\<close>)
      from others_see_trans [OF seen1 net_moves_seen [OF this]] have seen2: "others_see n ?I ?t ?K w ?w2" .
      have "net_line ?w2 n = Some ?l2" using here by (simp add: net_line_built)
      then have "node_kept po env w0 n l0 (deliver_wakes ?w2)"
        by (intro node_kept_elsewhere [OF h l1(4) here, where ws = "bt_wakes (nt_built ?w2)" and i = "gl_inlet ?l2"])
          (simp_all add: over)
      moreover have "\<forall>c\<in>?I. pe_closed (net_channel ?w2 c) \<and> \<not> pe_refused (net_channel ?w2 c)"
      proof
        fix c assume c: "c \<in> ?I"
        with laid l0 len have "c < length (bt_channels (nt_built w))" unfolding net_laid_def by force
        then have "c < length (bt_channels (nt_built ?w1))" using seen1 by (simp add: others_see_def)
        from drop_line_closes [of c ?l2 ?w1, OF _ this] c same_inlet_channels [OF rt(1)]
        show "pe_closed (net_channel ?w2 c) \<and> \<not> pe_refused (net_channel ?w2 c)" by simp
      qed
      ultimately show ?thesis unfolding w2 by (intro net_kept_move [OF h laid kept l0 seen2])
    qed
  qed
qed

end
