(* ===== verification/Network_Live.thy ===== *)
theory Network_Live
  imports Network_Run "HOL-Library.Sublist"
begin

text \<open>
  From the start of a built graph of line nodes (Poll_Network), whatever is polled and whatever the rest of the
  program does: what every node received reached its routine, what its routine sent reached the next node's
  channel in order, and the network never stops while a node has something to do that no routine and no other
  thread's edge holds up.
\<close>

section \<open>The rest of the program\<close>

text \<open>It takes nothing in a node's name from another thread's edge, and a message or a close that it brings to a
  bridge wakes the bridge's Input.\<close>

fun outside_ok :: "('d, 's, 'r) sync_net \<Rightarrow> ('d, 's, ('d, 's) sync_world) net_event \<Rightarrow> bool" where
  "outside_ok w0 (NPoll n p) \<longleftrightarrow> True"
| "outside_ok w0 (NOutside g h ws) \<longleftrightarrow>
     (\<forall>v k. sw_took (g v) k = sw_took v k) \<and>
     (\<forall>n l rx sh. net_line w0 n = Some l \<and> gl_inlet l = Bridge rx \<and> edge_avail (h n sh) \<longrightarrow>
        edge_avail sh \<or> wr_waker rx \<in> set ws)"

fun moved_inlet :: "(('d, 's) shared \<Rightarrow> ('d, 's) shared) \<Rightarrow> ('d, 's) inlet \<Rightarrow> ('d, 's) inlet" where
  "moved_inlet h (Bridge rx) = Bridge (rx\<lparr>wr_inner := h (wr_inner rx)\<rparr>)"
| "moved_inlet h (Channels cs) = Channels cs"

lemma same_moved_inlet: "same_inlet i (moved_inlet h i)"
  by (cases i) simp_all

lemma net_outside_fields:
  "net_line (net_outside g h ws w) n =
     map_option (\<lambda>l. woken_line (bt_wakes (nt_built w) @ ws) (l\<lparr>gl_inlet := moved_inlet (h n) (gl_inlet l)\<rparr>)) (net_line w n)"
  "net_channel (net_outside g h ws w) c = net_channel w c" "bt_channels (nt_built (net_outside g h ws w)) = bt_channels (nt_built w)"
  "bt_sinks (nt_built (net_outside g h ws w)) = g (bt_sinks (nt_built w))" "bt_wakes (nt_built (net_outside g h ws w)) = []"
  "taken_by n (net_outside g h ws w) = taken_by n w" "given_by c (net_outside g h ws w) = given_by c w"
  "nt_held (net_outside g h ws w) = nt_held w" "nt_ended (net_outside g h ws w) = nt_ended w"
  "nt_asked (net_outside g h ws w) = nt_asked w" "nt_log (net_outside g h ws w) = nt_log w"
proof -
  have "as_line (move_bridge (h n) x) = map_option (\<lambda>l. l\<lparr>gl_inlet := moved_inlet (h n) (gl_inlet l)\<rparr>) (as_line x)"
    for x :: "('a, 'b, 'c, 'd) graph_node"
  proof (cases x)
    case (GLine l)
    then show ?thesis by (cases "gl_inlet l") auto
  qed simp
  then show "net_line (net_outside g h ws w) n =
     map_option (\<lambda>l. woken_line (bt_wakes (nt_built w) @ ws) (l\<lparr>gl_inlet := moved_inlet (h n) (gl_inlet l)\<rparr>)) (net_line w n)"
    by (simp add: net_outside_def Let_def) (simp add: net_line_def option.map_comp comp_def)
qed (simp_all add: net_outside_def Let_def deliver_wakes_def net_channel_def taken_by_def given_by_def)

lemma net_outside_kept:
  assumes h: "honest_routine po" and laid: "net_laid w0" and kept: "net_kept po env w0 w"
    and ok: "outside_ok w0 (NOutside g h ws)"
  shows "net_kept po env w0 (net_outside g h ws w)"
proof -
  let ?w = "net_outside g h ws w"
  note f = net_outside_fields
  have "node_kept po env w0 n l0 ?w" if n: "net_line w0 n = Some l0" for n l0
  proof -
    from kept n have k: "node_kept po env w0 n l0 w" by (simp add: net_kept_def)
    then obtain l where l: "net_line w n = Some l" "same_inlet (gl_inlet l0) (gl_inlet l)" by (auto simp: node_kept_def)
    show ?thesis
    proof (rule node_kept_elsewhere [OF h k l(1), where ws = "bt_wakes (nt_built w) @ ws" and i = "moved_inlet (h n) (gl_inlet l)"])
      assume a: "net_avail n (gl_inlet l0) ?w"
      show "net_avail n (gl_inlet l0) w \<or> lw_input (gl_wakers l0) \<in> set (bt_wakes (nt_built w) @ ws)"
      proof (cases "gl_inlet l0")
        case (Channels cs)
        with a show ?thesis by (simp add: net_avail_def f)
      next
        case (Bridge rx)
        with l(2) obtain r where r: "gl_inlet l = Bridge r" by (cases "gl_inlet l") auto
        have "inlet_wakes (lw_input (gl_wakers l0)) (Bridge rx)" using laid n Bridge unfolding net_laid_def by metis
        then have v: "wr_waker rx = lw_input (gl_wakers l0)" by simp
        from a Bridge l(1) r have "edge_avail (h n (wr_inner r))" by (simp add: net_avail_def f)
        with ok n Bridge v have "edge_avail (wr_inner r) \<or> lw_input (gl_wakers l0) \<in> set ws" by fastforce
        with l(1) r Bridge show ?thesis by (auto simp: net_avail_def)
      qed
    next
      fix k show "edge_got k ?w = edge_got k w" using ok by (cases k) (simp add: edge_got_def f)
    qed (use l(1) in \<open>simp_all add: f same_moved_inlet channel_got_def\<close>)
  qed
  then show ?thesis using kept by (simp add: net_kept_def f)
qed

lemma net_run_kept:
  assumes h: "honest_routine po" and laid: "net_laid w0"
  shows "net_kept po env w0 w \<Longrightarrow> \<forall>ev\<in>set evs. outside_ok w0 ev \<Longrightarrow> net_run po (sync_sink env) evs w = Some w' \<Longrightarrow>
    net_kept po env w0 w'"
proof (induction evs arbitrary: w)
  case (Cons ev evs)
  then obtain w1 where w1: "net_event_run po (sync_sink env) ev w = Some w1" "net_run po (sync_sink env) evs w1 = Some w'"
    by (auto split: option.splits)
  have "net_kept po env w0 w1"
  proof (cases ev)
    case (NPoll n p)
    with w1(1) show ?thesis by (intro net_poll_kept [OF h laid Cons.prems(1)]) simp
  next
    case (NOutside g h' ws)
    with w1(1) Cons.prems(2) show ?thesis using net_outside_kept [OF h laid Cons.prems(1), of g h' ws] by auto
  qed
  with Cons w1(2) show ?case by simp
qed simp

section \<open>A fresh graph\<close>

fun idle_output :: "('k, 'm) node_output \<Rightarrow> bool" where
  "idle_output (Fan f) \<longleftrightarrow> f_suspended f = None \<and> distinct (f_edges f)"
| "idle_output (One g) \<longleftrightarrow> sg_held g = None"

fun fresh_line :: "nat \<Rightarrow> ('d, 's, 'r, 'k) graph_node \<Rightarrow> bool" where
  "fresh_line len (GLine l) \<longleftrightarrow> pl_state (gl_shared l) = Running \<and> pl_open (gl_shared l) \<and> idle_output (pl_output (gl_shared l)) \<and>
     list_all (\<lambda>c. c < len) (inlet_channels (gl_inlet l)) \<and> list_all (\<lambda>c. c < len) (case output_channel (pl_output (gl_shared l)) of None \<Rightarrow> [] | Some c \<Rightarrow> [c])"
| "fresh_line len (GBi b) \<longleftrightarrow> False"

definition fresh_channel :: "('d, 's) poll_shared \<Rightarrow> bool" where
  "fresh_channel e \<longleftrightarrow> pe_buffer e = [] \<and> \<not> pe_closed e \<and> \<not> pe_refused e \<and> pe_bound e \<noteq> Some 0"

fun node_handles :: "('d, 's, 'r, 'k) graph_node \<Rightarrow> 'k set" where
  "node_handles (GLine l) = outer_handles (pl_output (gl_shared l))"
| "node_handles (GBi b) = outer_handles (bs_output (gb_shared b))"

text \<open>A graph as it is built, of line nodes: wired, with no cycle, nothing in it and nothing running yet, and every
  handle on another thread's edge one node's.\<close>

definition net_fresh :: "('d, 's, 'r, 'k, 'w) built \<Rightarrow> bool" where
  "net_fresh b \<longleftrightarrow> wired b \<and> acyclic (flow b) \<and>
     list_all (fresh_line (length (bt_channels b))) (bt_nodes b) \<and> list_all fresh_channel (bt_channels b) \<and>
     (\<forall>n < length (bt_nodes b). \<forall>m < n. node_handles (bt_nodes b ! n) \<inter> node_handles (bt_nodes b ! m) = {})"

lemma as_line_Some: "as_line x = Some l \<longleftrightarrow> x = GLine l"
  by (cases x) auto

text \<open>What holds of the node \<open>n\<close> of the graph it starts.\<close>

lemma net_start_line:
  assumes "net_line (net_start b) n = Some l0"
  obtains l where "n < length (bt_nodes b)" "bt_nodes b ! n = GLine l" "l0 = l\<lparr>gl_shared := (gl_shared l)\<lparr>pl_woken := all_phases\<rparr>\<rparr>"
  using assms that
  by (cases "bt_nodes b ! n") (auto simp: net_line_def net_start_def all_phases_def split: if_splits)

lemma net_start_fields [simp]:
  "bt_channels (nt_built (net_start b)) = bt_channels b" "net_channel (net_start b) c = bt_channels b ! c"
  "bt_wakes (nt_built (net_start b)) = []" "nt_held (net_start b) n = None" "nt_ended (net_start b) n = {}"
  "nt_asked (net_start b) n = False" "taken_by n (net_start b) = []" "given_by c (net_start b) = []" "nt_log (net_start b) = []"
  "bt_sinks (nt_built (net_start b)) = bt_sinks b"
  by (simp_all add: net_start_def net_channel_def taken_by_def given_by_def)

lemma net_start_laid:
  assumes fr: "net_fresh b"
  shows "net_laid (net_start b)"
proof -
  from fr have w: "wired b" by (simp add: net_fresh_def)
  have at: "phase_at b i = Some ph \<longleftrightarrow> (\<exists>n < length (bt_nodes b). (i, ph) \<in> set (node_places n (bt_nodes b ! n)))" for i ph
    using w unfolding wired_def by blast
  have line: "fresh_line (length (bt_channels b)) (bt_nodes b ! n)" if "n < length (bt_nodes b)" for n
    using fr that by (simp add: net_fresh_def list_all_length)
  have place: "phase_at b (line_waker (gl_wakers l) p) = Some (LinePhase n p)" if "net_line (net_start b) n = Some l" for n l p
    using that unfolding at by (cases rule: net_start_line; cases p) auto
  have out: "c < length (bt_channels b) \<and> pe_producer (bt_channels b ! c) = Some (lw_output (gl_wakers l0))"
    if l0: "net_line (net_start b) n = Some l0" and c: "output_channel (pl_output (gl_shared l0)) = Some c" for n l0 c
  proof -
    from l0 obtain l where l: "n < length (bt_nodes b)" "bt_nodes b ! n = GLine l"
        "l0 = l\<lparr>gl_shared := (gl_shared l)\<lparr>pl_woken := all_phases\<rparr>\<rparr>" by (rule net_start_line)
    with c line [OF l(1)] have len: "c < length (bt_channels b)" by simp
    have "writes_channel b (lw_output (gl_wakers l0)) c"
      unfolding writes_channel_def using place [OF l0, of LOutput] l c by (intro exI [of _ "LinePhase n LOutput"]) simp
    with w len show ?thesis unfolding wired_def by blast
  qed
  have inp: "c < length (bt_channels b) \<and> pe_consumer (bt_channels b ! c) = lw_input (gl_wakers l0)"
    if l0: "net_line (net_start b) n = Some l0" and c: "c \<in> set (inlet_channels (gl_inlet l0))" for n l0 c
  proof -
    from l0 obtain l where l: "n < length (bt_nodes b)" "bt_nodes b ! n = GLine l"
        "l0 = l\<lparr>gl_shared := (gl_shared l)\<lparr>pl_woken := all_phases\<rparr>\<rparr>" by (rule net_start_line)
    with c line [OF l(1)] have len: "c < length (bt_channels b)" by (auto simp: list_all_iff)
    have "reads_channel b (lw_input (gl_wakers l0)) c"
      unfolding reads_channel_def using place [OF l0, of LInput] l c by (intro exI [of _ "LinePhase n LInput"]) simp
    with w len show ?thesis unfolding wired_def by metis
  qed
  have wakes: "inlet_wakes (lw_input (gl_wakers l0)) (gl_inlet l0)" if l0: "net_line (net_start b) n = Some l0" for n l0
  proof -
    from l0 obtain l where l: "n < length (bt_nodes b)" "bt_nodes b ! n = GLine l"
        "l0 = l\<lparr>gl_shared := (gl_shared l)\<lparr>pl_woken := all_phases\<rparr>\<rparr>" by (rule net_start_line)
    from w l(1) have "\<forall>(i, inl) \<in> set (node_inlets (bt_nodes b ! n)). inlet_wakes i inl" unfolding wired_def by blast
    with l show ?thesis by simp
  qed
  have one: "n = m \<and> p = q" if "net_line (net_start b) n = Some l" "net_line (net_start b) m = Some k"
      "line_waker (gl_wakers l) p = line_waker (gl_wakers k) q" for n m l k p q
    using place [OF that(1), of p] place [OF that(2), of q] that(3) by simp
  have apart: "outer_handles (pl_output (gl_shared l)) \<inter> outer_handles (pl_output (gl_shared k)) = {}"
    if "net_line (net_start b) n = Some l" "net_line (net_start b) m = Some k" "n \<noteq> m" for n m l k
  proof -
    from that(1) obtain l1 where 1: "n < length (bt_nodes b)" "bt_nodes b ! n = GLine l1"
        "l = l1\<lparr>gl_shared := (gl_shared l1)\<lparr>pl_woken := all_phases\<rparr>\<rparr>" by (rule net_start_line)
    from that(2) obtain k1 where 2: "m < length (bt_nodes b)" "bt_nodes b ! m = GLine k1"
        "k = k1\<lparr>gl_shared := (gl_shared k1)\<lparr>pl_woken := all_phases\<rparr>\<rparr>" by (rule net_start_line)
    have "\<forall>n < length (bt_nodes b). \<forall>m < n. node_handles (bt_nodes b ! n) \<inter> node_handles (bt_nodes b ! m) = {}"
      using fr by (simp add: net_fresh_def)
    with 1 2 that(3) have "node_handles (bt_nodes b ! n) \<inter> node_handles (bt_nodes b ! m) = {}"
      by (metis inf_commute nat_neq_iff)
    with 1 2 show ?thesis by simp
  qed
  from out inp wakes one apart show ?thesis unfolding net_laid_def net_start_fields by blast
qed

text \<open>Who reads a channel that a node writes comes after it.\<close>

lemma flow_edge:
  assumes fr: "net_fresh b" and n: "net_line (net_start b) n = Some l" and c: "output_channel (pl_output (gl_shared l)) = Some c"
  obtains m k where "net_line (net_start b) m = Some k" "c \<in> set (inlet_channels (gl_inlet k))"
    "(lw_input (gl_wakers k), lw_input (gl_wakers l)) \<in> flow b"
proof -
  note laid = net_start_laid [OF fr]
  from fr have w: "wired b" by (simp add: net_fresh_def)
  from n obtain l1 where l: "n < length (bt_nodes b)" "bt_nodes b ! n = GLine l1"
      "l = l1\<lparr>gl_shared := (gl_shared l1)\<lparr>pl_woken := all_phases\<rparr>\<rparr>" by (rule net_start_line)
  from laid n c have len: "c < length (bt_channels b)" unfolding net_laid_def net_start_fields by blast
  with w have "reads_channel b (pe_consumer (bt_channels b ! c)) c" unfolding wired_def by blast
  then obtain ph where ph: "phase_at b (pe_consumer (bt_channels b ! c)) = Some ph" "c \<in> set (phase_reads b ph)"
    unfolding reads_channel_def by blast
  with w obtain m where m: "m < length (bt_nodes b)" "(pe_consumer (bt_channels b ! c), ph) \<in> set (node_places m (bt_nodes b ! m))"
    unfolding wired_def by blast
  have "fresh_line (length (bt_channels b)) (bt_nodes b ! m)" using fr m(1) by (simp add: net_fresh_def list_all_length)
  then obtain k1 where k1: "bt_nodes b ! m = GLine k1" by (cases "bt_nodes b ! m") auto
  let ?k = "k1\<lparr>gl_shared := (gl_shared k1)\<lparr>pl_woken := all_phases\<rparr>\<rparr>"
  have k: "net_line (net_start b) m = Some ?k" using m(1) k1 by (simp add: net_line_def net_start_def all_phases_def)
  from m(2) k1 ph(2) have r: "c \<in> set (inlet_channels (gl_inlet k1))" "pe_consumer (bt_channels b ! c) = lw_input (gl_wakers k1)" by auto
  have "node_target (GLine l1) = Some c" "GLine l1 \<in> set (bt_nodes b)" using l c nth_mem [OF l(1)] by auto
  then have "(pe_consumer (bt_channels b ! c), fst (hd (node_inlets (GLine l1)))) \<in> flow b" unfolding flow_def by blast
  with r(2) l(3) have "(lw_input (gl_wakers ?k), lw_input (gl_wakers l)) \<in> flow b" by simp
  with that k r(1) show ?thesis by simp
qed

lemma wf_flow:
  assumes "net_fresh b"
  shows "wf (flow b)"
proof -
  have "flow b \<subseteq> (\<lambda>nd. (pe_consumer (bt_channels b ! the (node_target nd)), fst (hd (node_inlets nd)))) ` set (bt_nodes b)"
    by (force simp: flow_def)
  from finite_subset [OF this] assms show ?thesis by (simp add: net_fresh_def finite_acyclic_wf)
qed

lemma net_start_kept:
  assumes h: "honest_routine po" and fr: "net_fresh b"
  shows "net_kept po env (net_start b) (net_start b)"
proof -
  let ?w = "net_start b"
  have ch: "fresh_channel (bt_channels b ! c)" if "c < length (bt_channels b)" for c
    using fr that by (simp add: net_fresh_def list_all_length)
  have "node_kept po env ?w n l0 ?w" if n: "net_line ?w n = Some l0" for n l0
  proof -
    note L = net_node [OF h, of n "gl_inlet l0" env]
    from n obtain l where l: "n < length (bt_nodes b)" "bt_nodes b ! n = GLine l"
        "l0 = l\<lparr>gl_shared := (gl_shared l)\<lparr>pl_woken := all_phases\<rparr>\<rparr>" by (rule net_start_line)
    have "fresh_line (length (bt_channels b)) (bt_nodes b ! n)" using fr l(1) by (simp add: net_fresh_def list_all_length)
    with l have f: "pl_state (gl_shared l0) = Running" "pl_open (gl_shared l0)" "idle_output (pl_output (gl_shared l0))"
        "pl_woken (gl_shared l0) = all_phases" by simp_all
    have "net_ok (set (inlet_channels (gl_inlet l0))) (pl_output (gl_shared l0))"
    proof (cases "pl_output (gl_shared l0)")
      case (Fan g)
      with f(3) show ?thesis by (simp add: net_ok_def fanout_ok_def)
    next
      case (One g)
      have "c \<notin> set (inlet_channels (gl_inlet l0))" if "sg_edge g = ToChannel c" for c
      proof
        assume c: "c \<in> set (inlet_channels (gl_inlet l0))"
        from One that have "output_channel (pl_output (gl_shared l0)) = Some c" by simp
        from flow_edge [OF fr n this] obtain m k where k: "net_line ?w m = Some k" "c \<in> set (inlet_channels (gl_inlet k))"
            "(lw_input (gl_wakers k), lw_input (gl_wakers l0)) \<in> flow b" .
        from net_start_laid [OF fr] n c k(1,2) have "lw_input (gl_wakers k) = lw_input (gl_wakers l0)"
          unfolding net_laid_def by metis
        with k(3) fr show False by (auto simp: net_fresh_def acyclic_def)
      qed
      with One show ?thesis by (simp add: net_ok_def)
    qed
    then have "node_steps po env n (gl_inlet l0) (line_sys_of n l0 ?w) (line_sys_of n l0 ?w)"
      using f poll_line.line_moves_refl [OF L, of "line_sys_of n l0 ?w"]
      by (auto simp: poll_line.line_step_ok_def [OF L] poll_line.line_good_def [OF L] poll_line.line_ends_def [OF L]
          line_attended_def line_sys_of_def all_phases_def Let_def)
    with n f show ?thesis by (simp add: node_kept_def routed_def all_phases_def)
  qed
  with ch show ?thesis by (simp add: net_kept_def fresh_channel_def all_phases_def)
qed


lemma net_run_start_kept:
  assumes "honest_routine po" "net_fresh b" "\<forall>ev\<in>set evs. outside_ok (net_start b) ev"
    "net_run po (sync_sink env) evs (net_start b) = Some w"
  shows "net_kept po env (net_start b) w"
  using net_run_kept [OF assms(1) net_start_laid [OF assms(2)] net_start_kept [OF assms(1,2)] assms(3,4)] .

section \<open>Nothing is lost between a node and the next\<close>

text \<open>Every message in the log was received by a node from a source of its own.\<close>

fun from_inlet :: "('d, 's) inlet \<Rightarrow> nat option \<Rightarrow> bool" where
  "from_inlet (Channels cs) s \<longleftrightarrow> s \<in> Some ` set cs"
| "from_inlet (Bridge rx) s \<longleftrightarrow> s = None"

lemma from_inlet_kind: "same_inlet i j \<Longrightarrow> from_inlet j = from_inlet i"
  by (rule ext, cases i; cases j) auto

lemma from_inlet_channel: "from_inlet i (Some c) \<Longrightarrow> c \<in> set (inlet_channels i)"
  by (cases i) auto

definition sourced :: "('d, 's, 'r, 'k, 'w) net \<Rightarrow> nat \<Rightarrow> nat option \<Rightarrow> bool" where
  "sourced w n s \<longleftrightarrow> (\<exists>l. net_line w n = Some l \<and> from_inlet (gl_inlet l) s)"

definition log_grows :: "nat \<Rightarrow> ('d, 's) inlet \<Rightarrow> ('d, 's, 'r, 'k, 'w) net \<Rightarrow> ('d, 's, 'r, 'k, 'w) net \<Rightarrow> bool" where
  "log_grows n i w w' \<longleftrightarrow> (\<exists>lg. nt_log w' = nt_log w @ lg \<and> (\<forall>(n', s, m)\<in>set lg. n' = n \<and> from_inlet i s))"

lemma log_grows_preorder:
  fixes i :: "('d, 's) inlet"
  shows "reflp (log_grows n i :: ('d, 's, 'r, 'k, 'w) net \<Rightarrow> _)" "transp (log_grows n i :: ('d, 's, 'r, 'k, 'w) net \<Rightarrow> _)"
proof -
  show "reflp (log_grows n i :: ('d, 's, 'r, 'k, 'w) net \<Rightarrow> _)" by (auto simp: reflp_def log_grows_def)
  show "transp (log_grows n i :: ('d, 's, 'r, 'k, 'w) net \<Rightarrow> _)"
  proof (rule transpI)
    fix x y z :: "('d, 's, 'r, 'k, 'w) net"
    assume "log_grows n i x y" "log_grows n i y z"
    then obtain lg lg2 where "nt_log y = nt_log x @ lg" "nt_log z = nt_log y @ lg2"
      "\<forall>(n', s, m)\<in>set lg. n' = n \<and> from_inlet i s" "\<forall>(n', s, m)\<in>set lg2. n' = n \<and> from_inlet i s"
      unfolding log_grows_def by blast
    then show "log_grows n i x z" unfolding log_grows_def by (intro exI [of _ "lg @ lg2"]) auto
  qed
qed

lemma log_grows_same: "nt_log w' = nt_log w \<Longrightarrow> log_grows n i w w'"
  by (auto simp: log_grows_def)

lemma inlet_recv_grows:
  assumes r: "inlet_recv n i w = (q, w')"
  shows "log_grows n i w w'"
proof (cases i)
  case (Bridge rx)
  with r show ?thesis
    by (auto simp: bridge_recv_def Let_def log_grows_def put_line_def split: option.splits inlet.splits prod.splits)
next
  case (Channels cs)
  have c: "log_grows n (Channels cs) w w1" if "c \<in> set cs" "channel_recv n c w = (q, w1)" for c q and w w1 :: "('a, 'b, 'c, 'd, 'e) net"
    using that by (auto simp: channel_recv_def Let_def log_grows_def split: if_splits prod.splits)
  from r Channels have v: "vec_try_recv (channel_recv n) cs True w = (q, w')" by simp
  have "log_grows n (Channels cs) w w'" by (rule vec_try_recv_rel [OF log_grows_preorder _ subset_refl v]) (rule c)
  with Channels show ?thesis by simp
qed

lemma net_rotate_log: "steers (net_rotate so) (log_grows n i) (\<lambda>_. True)"
  unfolding steers_def using log_grows_preorder
  by (auto intro!: log_grows_same split: prod.splits)

lemma net_poll_grows:
  assumes p: "net_poll po so n ph w = Some w'" and l: "net_line w n = Some l"
  shows "log_grows n (gl_inlet l) w w'"
proof (cases "ph \<in> nt_ended w n")
  case False
  obtain q y where s: "poll_line_phase po (net_rotate so) (inlet_recv n (gl_inlet l)) ph (line_sys_of n l w) = (q, y)"
    by (cases "poll_line_phase po (net_rotate so) (inlet_recv n (gl_inlet l)) ph (line_sys_of n l w)") auto
  have "log_grows n (gl_inlet l) (ly_world (line_sys_of n l w)) (ly_world y)"
    by (rule poll_line_phase_frame [OF s net_rotate_log _ TrueI, THEN conjunct1]) (rule inlet_recv_grows)
  moreover have "nt_log (write_back n y) = nt_log (ly_world y)" by (simp add: write_back_def put_line_def split: option.splits)
  moreover have "nt_log w' = nt_log (write_back n y)"
    using p l False s by (cases q) (auto simp: net_poll_def deliver_wakes_def drop_ended_def split: if_splits option.splits)
  ultimately show ?thesis by (simp add: log_grows_def line_sys_of_def)
qed (use p l in \<open>simp add: net_poll_def log_grows_same\<close>)

text \<open>The node as it is and as it was.\<close>

lemma net_kept_line:
  assumes kept: "net_kept po env w0 w" and l: "net_line w n = Some l"
  obtains l0 where "net_line w0 n = Some l0" "node_kept po env w0 n l0 w" "same_inlet (gl_inlet l0) (gl_inlet l)"
    "gl_wakers l = gl_wakers l0" "output_channel (pl_output (gl_shared l)) = output_channel (pl_output (gl_shared l0))"
    "node_steps po env n (gl_inlet l0) (line_sys_of n l0 w0) (line_sys_of n l w)"
proof -
  have "net_line w0 n = None \<longleftrightarrow> net_line w n = None" using kept unfolding net_kept_def by blast
  with l obtain l0 where l0: "net_line w0 n = Some l0" by auto
  with kept have k: "node_kept po env w0 n l0 w" unfolding net_kept_def by blast
  with l that [OF l0 k] show thesis unfolding node_kept_def routed_def by auto
qed

lemma net_run_sourced:
  assumes h: "honest_routine po" and laid: "net_laid w0"
  shows "net_kept po env w0 w \<Longrightarrow> \<forall>ev\<in>set evs. outside_ok w0 ev \<Longrightarrow> net_run po (sync_sink env) evs w = Some w' \<Longrightarrow>
    \<forall>(n, s, m)\<in>set (nt_log w). sourced w0 n s \<Longrightarrow> \<forall>(n, s, m)\<in>set (nt_log w'). sourced w0 n s"
proof (induction evs arbitrary: w)
  case (Cons ev evs)
  then obtain w1 where w1: "net_event_run po (sync_sink env) ev w = Some w1" "net_run po (sync_sink env) evs w1 = Some w'"
    by (auto split: option.splits)
  have k1: "net_kept po env w0 w1"
    by (rule net_run_kept [OF h laid Cons.prems(1), of "[ev]"]) (use Cons.prems(2) w1(1) in simp_all)
  have "\<forall>(n, s, m)\<in>set (nt_log w1). sourced w0 n s"
  proof (cases ev)
    case (NOutside g h' ws)
    with w1(1) Cons.prems(4) show ?thesis by (auto simp: net_outside_fields)
  next
    case (NPoll n p)
    with w1(1) obtain l where l: "net_line w n = Some l" by (auto simp: net_poll_def split: option.splits)
    from Cons.prems(1) l obtain l0 where l0: "net_line w0 n = Some l0" "same_inlet (gl_inlet l0) (gl_inlet l)"
      by (rule net_kept_line)
    from w1(1) NPoll have "net_poll po (sync_sink env) n p w = Some w1" by simp
    from net_poll_grows [OF this l] obtain lg where lg: "nt_log w1 = nt_log w @ lg"
      "\<forall>(n', s, m)\<in>set lg. n' = n \<and> from_inlet (gl_inlet l0) s"
      unfolding log_grows_def from_inlet_kind [OF l0(2)] by blast
    from lg(2) l0(1) have "\<forall>(n', s, m)\<in>set lg. sourced w0 n' s" by (auto simp: sourced_def)
    with lg(1) Cons.prems(4) show ?thesis by auto
  qed
  with Cons k1 w1(2) show ?case by simp
qed simp

lemma filter_both: "\<forall>x\<in>set xs. Q x \<longrightarrow> P x \<Longrightarrow> filter Q (filter P xs) = filter Q xs"
  by (induction xs) auto

lemma laid_reader:
  assumes laid: "net_laid w" and n: "net_line w n = Some l" "c \<in> set (inlet_channels (gl_inlet l))"
    and m: "net_line w m = Some k" "c \<in> set (inlet_channels (gl_inlet k))"
  shows "m = n"
proof -
  have "pe_consumer (net_channel w c) = lw_input (gl_wakers l)" "pe_consumer (net_channel w c) = lw_input (gl_wakers k)"
    using laid n m unfolding net_laid_def by blast+
  then have "line_waker (gl_wakers k) LInput = line_waker (gl_wakers l) LInput" by simp
  with laid n(1) m(1) show ?thesis unfolding net_laid_def by blast
qed

lemma given_taken:
  assumes laid: "net_laid w0" and src: "\<forall>(n, s, m)\<in>set (nt_log w). sourced w0 n s"
    and n: "net_line w0 n = Some l" and c: "c \<in> set (inlet_channels (gl_inlet l))"
  shows "subseq (given_by c w) (taken_by n w)" "gl_inlet l = Channels [c] \<Longrightarrow> taken_by n w = given_by c w"
proof -
  let ?P = "\<lambda>(m, s, x). m = n" and ?Q = "\<lambda>(m, s, x). s = Some c"
  have 1: "m = n" if "(m, Some c, x) \<in> set (nt_log w)" for m x
  proof -
    from src that have "sourced w0 m (Some c)" by blast
    then obtain k where k: "net_line w0 m = Some k" "c \<in> set (inlet_channels (gl_inlet k))"
      unfolding sourced_def using from_inlet_channel by blast
    from laid_reader [OF laid n c k] show ?thesis .
  qed
  then have "filter ?Q (filter ?P (nt_log w)) = filter ?Q (nt_log w)" by (intro filter_both) auto
  then have "subseq (filter ?Q (nt_log w)) (filter ?P (nt_log w))"
    using subseq_filter_left [of ?Q "filter ?P (nt_log w)"] by simp
  then show "subseq (given_by c w) (taken_by n w)" unfolding given_by_def taken_by_def by (rule subseq_map)
  show "taken_by n w = given_by c w" if one: "gl_inlet l = Channels [c]"
  proof -
    have "?P e = ?Q e" if e: "e \<in> set (nt_log w)" for e
    proof -
      obtain m s x where e': "e = (m, s, x)" by (cases e)
      with src e have "sourced w0 m s" by blast
      then obtain k where k: "net_line w0 m = Some k" "from_inlet (gl_inlet k) s" by (auto simp: sourced_def)
      have "s = Some c" if "m = n" using k n one that by simp
      moreover have "m = n" if "s = Some c" using 1 [of m x] e e' that by simp
      ultimately show ?thesis using e' by auto
    qed
    then have "filter ?P (nt_log w) = filter ?Q (nt_log w)" by (intro filter_cong) auto
    then show ?thesis by (simp add: taken_by_def given_by_def)
  qed
qed

section \<open>The network as a whole\<close>

text \<open>Nothing is woken that has not ended: the thread would wait.\<close>

definition net_quiet :: "('d, 's, 'r, 'k, 'w) net \<Rightarrow> bool" where
  "net_quiet w \<longleftrightarrow>
     list_all (\<lambda>n. case net_line w n of None \<Rightarrow> True | Some l \<Rightarrow> pl_woken (gl_shared l) \<subseteq> nt_ended w n)
       [0..<length (bt_nodes (nt_built w))]"

text \<open>A node with something to do: a message to send on, a signal to finish, something or a close to receive.\<close>

fun suspended_on :: "('k, 'm) node_output \<Rightarrow> bool" where
  "suspended_on (Fan f) \<longleftrightarrow> f_suspended f \<noteq> None"
| "suspended_on (One g) \<longleftrightarrow> sg_held g \<noteq> None"

definition has_work :: "nat \<Rightarrow> ('d, 's, 'r, 'k) line_node \<Rightarrow> ('d, 's, 'r, 'k, 'w) net \<Rightarrow> bool" where
  "has_work n l w \<longleftrightarrow>
     (case pl_state (gl_shared l) of
        NClosed \<Rightarrow> False
      | Running \<Rightarrow> suspended_on (pl_output (gl_shared l)) \<or> net_avail n (gl_inlet l) w
      | _ \<Rightarrow> True)"

text \<open>What a node may wait for: room at another thread's edge, or its own routine, which refused a message or
  has a flush to finish.\<close>

definition waits_outside :: "('d, 's, 'r, 'k) line_node \<Rightarrow> bool" where
  "waits_outside l \<longleftrightarrow> suspended_on (pl_output (gl_shared l)) \<and> output_channel (pl_output (gl_shared l)) = None"

definition routine_owes :: "nat \<Rightarrow> ('d, 's, 'r, 'k) line_node \<Rightarrow> ('d, 's, 'r, 'k, 'w) net \<Rightarrow> bool" where
  "routine_owes n l w \<longleftrightarrow>
     (case pl_state (gl_shared l) of Running \<Rightarrow> nt_held w n \<noteq> None | Flushing s \<Rightarrow> nt_asked w n | _ \<Rightarrow> False)"

lemma suspended_iff [simp]: "(\<exists>y. ro_suspended (net_rotate so) x = Some y) \<longleftrightarrow> suspended_on x"
  by (cases x) (auto simp: fanout_suspended_def single_suspended_def)

lemma net_quiet_line:
  assumes q: "net_quiet w" and l: "net_line w n = Some l"
  shows "pl_woken (gl_shared l) \<subseteq> nt_ended w n"
proof -
  have "n \<in> set [0..<length (bt_nodes (nt_built w))]" using net_line_Some [OF l] by simp
  with q have "case net_line w n of None \<Rightarrow> True | Some l \<Rightarrow> pl_woken (gl_shared l) \<subseteq> nt_ended w n"
    unfolding net_quiet_def list_all_iff by blast
  with l show ?thesis by simp
qed

text \<open>A quiet node that is over has ended; one that is not has a reason of its own to wait, or its channel.\<close>

lemma quiet_node:
  assumes h: "honest_routine po" and kept: "net_kept po env w0 w" and q: "net_quiet w" and l: "net_line w n = Some l"
  shows "pl_state (gl_shared l) = NClosed \<Longrightarrow> nt_ended w n = all_phases"
    and "has_work n l w \<Longrightarrow> waits_outside l \<or> routine_owes n l w \<or>
      (\<exists>c. output_channel (pl_output (gl_shared l)) = Some c \<and> pe_refused (net_channel w c))"
proof -
  from kept l obtain l0 where l0: "net_line w0 n = Some l0" "node_kept po env w0 n l0 w" "same_inlet (gl_inlet l0) (gl_inlet l)"
    "node_steps po env n (gl_inlet l0) (line_sys_of n l0 w0) (line_sys_of n l w)" by (rule net_kept_line)
  note L = net_node [OF h, of n "gl_inlet l0" env]
  from poll_line.line_step_good [OF L l0(4)] have g: "node_good env n (gl_inlet l0) (line_sys_of n l w)" .
  then have at: "line_attended (net_rotate (sync_sink env)) (net_avail n (gl_inlet l0)) (line_sys_of n l w)"
      and ends: "nt_ended w n = {} \<or> pl_state (gl_shared l) = CloseReady \<or> pl_state (gl_shared l) = NClosed"
        "LOutput \<notin> nt_ended w n \<or> pl_state (gl_shared l) = NClosed"
    by (simp_all add: poll_line.line_good_def [OF L] poll_line.line_ends_def [OF L] line_sys_of_def)
  from net_quiet_line [OF q l] have v: "pl_woken (gl_shared l) \<subseteq> nt_ended w n" .
  show "nt_ended w n = all_phases" if "pl_state (gl_shared l) = NClosed"
    using at v that by (auto simp: line_attended_def line_sys_of_def all_phases_def Let_def intro: line_phase.exhaust)
  assume work: "has_work n l w"
  then have live: "pl_state (gl_shared l) \<noteq> NClosed" by (auto simp: has_work_def)
  with ends v have woken: "LOutput \<notin> pl_woken (gl_shared l)" "pl_state (gl_shared l) \<noteq> CloseReady \<longrightarrow> pl_woken (gl_shared l) = {}"
    by auto
  from l0(2) l woken(1) live have "waits_refused (pl_output (gl_shared l)) w" by (auto simp: node_kept_def)
  then have stuck: "waits_outside l \<or> (\<exists>c. output_channel (pl_output (gl_shared l)) = Some c \<and> pe_refused (net_channel w c))"
    if "suspended_on (pl_output (gl_shared l))"
    using that by (cases "pl_output (gl_shared l)") (auto simp: waits_outside_def waits_refused_def split: poll_sink.splits)
  show "waits_outside l \<or> routine_owes n l w \<or> (\<exists>c. output_channel (pl_output (gl_shared l)) = Some c \<and> pe_refused (net_channel w c))"
  proof (cases "suspended_on (pl_output (gl_shared l))")
    case True
    with stuck show ?thesis by blast
  next
    case False
    have av: "net_avail n (gl_inlet l) w = net_avail n (gl_inlet l0) w" by (simp add: net_avail_kind [OF l0(3)])
    from False at work woken live show ?thesis
      by (cases "pl_state (gl_shared l)")
        (auto simp: line_attended_def line_sys_of_def has_work_def routine_owes_def Let_def av simp del: net_rotate_simps)
  qed
qed

text \<open>When nothing is woken, who has something to do waits for a reason, or for a node downstream that does.\<close>

lemma quiet_network_waits:
  fixes b :: "('d, 's, 'r, nat \<times> nat, ('d, 's) sync_world) built"
  assumes h: "honest_routine po" and fr: "net_fresh b" and ev: "\<forall>ev\<in>set evs. outside_ok (net_start b) ev"
    and r: "net_run po (sync_sink env) evs (net_start b) = Some w" and q: "net_quiet w"
    and n: "net_line w n = Some l" and work: "has_work n l w"
  shows "\<exists>m k. net_line w m = Some k \<and> (lw_input (gl_wakers k), lw_input (gl_wakers l)) \<in> (flow b)\<^sup>* \<and>
    pl_state (gl_shared k) \<noteq> NClosed \<and> (waits_outside k \<or> routine_owes m k w)"
proof -
  let ?w0 = "net_start b"
  note laid = net_start_laid [OF fr] and kept = net_run_start_kept [OF h fr ev r]
  have "\<forall>n l. net_line w n = Some l \<and> lw_input (gl_wakers l) = x \<and> has_work n l w \<longrightarrow> (\<exists>m k. net_line w m = Some k \<and>
      (lw_input (gl_wakers k), x) \<in> (flow b)\<^sup>* \<and> pl_state (gl_shared k) \<noteq> NClosed \<and> (waits_outside k \<or> routine_owes m k w))" for x
    using wf_flow [OF fr]
  proof (induction x rule: wf_induct_rule)
    case (less x)
    show ?case
    proof (intro allI impI, elim conjE)
      fix n l assume n: "net_line w n = Some l" and x: "lw_input (gl_wakers l) = x" and work: "has_work n l w"
      show "\<exists>m k. net_line w m = Some k \<and> (lw_input (gl_wakers k), x) \<in> (flow b)\<^sup>* \<and> pl_state (gl_shared k) \<noteq> NClosed \<and>
          (waits_outside k \<or> routine_owes m k w)"
      proof (cases "waits_outside l \<or> routine_owes n l w")
        case True
        moreover have "pl_state (gl_shared l) \<noteq> NClosed" using work by (auto simp: has_work_def)
        ultimately show ?thesis using n x by blast
      next
        case False
        with quiet_node(2) [OF h kept q n work] obtain c where c: "output_channel (pl_output (gl_shared l)) = Some c"
          "pe_refused (net_channel w c)" by blast
        from kept n obtain l0 where l0: "net_line ?w0 n = Some l0" "gl_wakers l = gl_wakers l0"
          "output_channel (pl_output (gl_shared l)) = output_channel (pl_output (gl_shared l0))" by (rule net_kept_line)
        from flow_edge [OF fr l0(1)] c(1) l0(3) obtain m k0 where k0: "net_line ?w0 m = Some k0"
          "c \<in> set (inlet_channels (gl_inlet k0))" "(lw_input (gl_wakers k0), lw_input (gl_wakers l0)) \<in> flow b" by auto
        from kept k0(1) have mk: "node_kept po env ?w0 m k0 w" and over: "nt_ended w m = all_phases \<longrightarrow>
            (\<forall>c\<in>set (inlet_channels (gl_inlet k0)). pe_closed (net_channel w c) \<and> \<not> pe_refused (net_channel w c))"
          unfolding net_kept_def by blast+
        from mk obtain k where k: "net_line w m = Some k" "same_inlet (gl_inlet k0) (gl_inlet k)" "gl_wakers k = gl_wakers k0"
          by (auto simp: node_kept_def)
        from over k0(2) c(2) have "nt_ended w m \<noteq> all_phases" by blast
        with quiet_node(1) [OF h kept q k(1)] have live: "pl_state (gl_shared k) \<noteq> NClosed" by blast
        have len: "c < length (bt_channels b)" using laid k0(1,2) unfolding net_laid_def by fastforce
        with fr have "fresh_channel (bt_channels b ! c)" by (simp add: net_fresh_def list_all_length)
        moreover have ch: "length (bt_channels (nt_built w)) = length (bt_channels b)"
            "pe_bound (net_channel w c) = pe_bound (bt_channels b ! c)" "pe_refused (net_channel w c) \<longrightarrow> pe_is_full (net_channel w c)"
          using kept len by (simp_all add: net_kept_def)
        ultimately have "pe_buffer (net_channel w c) \<noteq> []"
          using c(2) by (auto simp: pe_is_full_def fresh_channel_def split: option.splits)
        with k(2) k0(2) len ch(1) have "net_avail m (gl_inlet k) w"
          by (cases "gl_inlet k0"; cases "gl_inlet k") (auto simp: net_avail_def)
        with live have "has_work m k w" by (simp add: has_work_def split: node_state.splits)
        with less [of "lw_input (gl_wakers k)"] k k0(3) x l0(2) obtain m' k' where
          "net_line w m' = Some k'" "(lw_input (gl_wakers k'), lw_input (gl_wakers k)) \<in> (flow b)\<^sup>*"
          "pl_state (gl_shared k') \<noteq> NClosed" "waits_outside k' \<or> routine_owes m' k' w" by auto
        moreover have "(lw_input (gl_wakers k), x) \<in> flow b" using k(3) k0(3) x l0(2) by simp
        ultimately show ?thesis by (meson rtrancl.rtrancl_into_rtrancl)
      qed
    qed
  qed
  with n work show ?thesis by blast
qed

text \<open>What a node received, what its routine sent, and what the next node received.\<close>

lemma network_conducts:
  fixes b :: "('d, 's, 'r, nat \<times> nat, ('d, 's) sync_world) built"
  assumes h: "honest_routine po" and fr: "net_fresh b" and ev: "\<forall>ev\<in>set evs. outside_ok (net_start b) ev"
    and r: "net_run po (sync_sink env) evs (net_start b) = Some w"
    and n0: "net_line (net_start b) n = Some l0" and n: "net_line w n = Some l" and live: "pl_state (gl_shared l) \<noteq> NClosed"
  shows "\<exists>acc os. taken_by n w = acc @ held_list (nt_held w n) \<and>
    conducts (po_send po) (po_next po) (po_flush po) (po_poll po) (pl_routine (gl_shared l0)) Running acc os
      (pl_routine (gl_shared l)) (pl_state (gl_shared l)) \<and>
    (\<forall>i < net_lanes (pl_output (gl_shared l0)). net_received (pl_output (gl_shared l)) w i @ net_due (pl_output (gl_shared l)) i =
       net_received (pl_output (gl_shared l0)) (net_start b) i @ os) \<and>
    (\<forall>c. output_channel (pl_output (gl_shared l0)) = Some c \<longrightarrow>
       given_by c w @ pe_buffer (net_channel w c) @ net_due (pl_output (gl_shared l)) 0 = os \<and>
       (\<exists>m k. net_line (net_start b) m = Some k \<and> c \<in> set (inlet_channels (gl_inlet k)) \<and> subseq (given_by c w) (taken_by m w) \<and>
          (gl_inlet k = Channels [c] \<longrightarrow> taken_by m w = given_by c w)))"
proof -
  let ?w0 = "net_start b" and ?before = "pl_output (gl_shared l0)" and ?now = "pl_output (gl_shared l)"
  note laid = net_start_laid [OF fr] and kept = net_run_start_kept [OF h fr ev r]
  note L = net_node [OF h, of n "gl_inlet l0" env]
  from kept n obtain l1 where l1: "net_line ?w0 n = Some l1" "output_channel ?now = output_channel (pl_output (gl_shared l1))"
    "node_steps po env n (gl_inlet l1) (line_sys_of n l1 ?w0) (line_sys_of n l w)" by (rule net_kept_line)
  with n0 have out: "output_channel ?now = output_channel ?before"
      and steps: "node_steps po env n (gl_inlet l0) (line_sys_of n l0 ?w0) (line_sys_of n l w)" by simp_all
  from n0 obtain lb where lb: "n < length (bt_nodes b)" "bt_nodes b ! n = GLine lb"
      "l0 = lb\<lparr>gl_shared := (gl_shared lb)\<lparr>pl_woken := all_phases\<rparr>\<rparr>" by (rule net_start_line)
  have "fresh_line (length (bt_channels b)) (bt_nodes b ! n)" using fr lb(1) by (simp add: net_fresh_def list_all_length)
  with lb have f: "pl_state (gl_shared l0) = Running" "idle_output ?before" by simp_all
  then have due: "net_due ?before i = []" for i
    by (cases ?before) (simp_all add: net_due_def fanout_due_def single_due_def)
  from steps live obtain acc os where
    a: "taken_by n w = acc @ held_list (nt_held w n)"
       "\<And>i. i < net_lanes ?before \<Longrightarrow> net_received ?now w i @ net_due ?now i = net_received ?before ?w0 i @ os"
       "conducts (po_send po) (po_next po) (po_flush po) (po_poll po) (pl_routine (gl_shared l0)) Running acc os
          (pl_routine (gl_shared l)) (pl_state (gl_shared l))"
    using f(1) due
    by (auto simp: poll_line.line_step_ok_def [OF L] poll_line.line_moves_def [OF L] line_sys_of_def held_list_def)
  have src: "\<forall>(n, s, m)\<in>set (nt_log w). sourced ?w0 n s"
    by (rule net_run_sourced [OF h laid net_start_kept [OF h fr] ev r]) simp
  have "given_by c w @ pe_buffer (net_channel w c) @ net_due ?now 0 = os \<and>
      (\<exists>m k. net_line ?w0 m = Some k \<and> c \<in> set (inlet_channels (gl_inlet k)) \<and> subseq (given_by c w) (taken_by m w) \<and>
        (gl_inlet k = Channels [c] \<longrightarrow> taken_by m w = given_by c w))" if c: "output_channel ?before = Some c" for c
  proof -
    from flow_edge [OF fr n0 c] obtain m k where k: "net_line ?w0 m = Some k" "c \<in> set (inlet_channels (gl_inlet k))" .
    from given_taken [OF laid src k] have "subseq (given_by c w) (taken_by m w)"
        "gl_inlet k = Channels [c] \<longrightarrow> taken_by m w = given_by c w" by blast+
    moreover have len: "c < length (bt_channels b)" using laid n0 c unfolding net_laid_def by simp
    then have "pe_buffer (bt_channels b ! c) = []" using fr by (simp add: net_fresh_def fresh_channel_def list_all_length)
    then have "net_received ?before ?w0 0 = []" "0 < net_lanes ?before" "net_received ?now w 0 = channel_got c w"
      using c out by (auto simp: net_received_def net_lanes_def channel_got_def split: node_output.splits poll_sink.splits)
    with a(2) [of 0] have "given_by c w @ pe_buffer (net_channel w c) @ net_due ?now 0 = os" by (simp add: channel_got_def)
    ultimately show ?thesis using k by blast
  qed
  with a show ?thesis by blast
qed

end
