(* ===== verification/Network_Built.thy ===== *)
theory Network_Built
  imports Network_Live
begin

text \<open>
  The networks that programs build: nodes of one thread, minted, resolved, owned and added as in Poll_Wiring,
  all of them lines. What is built is fresh (Network_Live), so what holds of a network holds of it.
\<close>

section \<open>Line networks\<close>

definition out_handles :: "('k, 'm) out_edge \<Rightarrow> 'k list" where
  "out_handles out = (case out of ODeferred \<Rightarrow> [] | OSync f \<Rightarrow> f_edges f | ODirect k \<Rightarrow> [k])"

text \<open>Only lines, no channel without room, and no output with something refused.\<close>

fun all_lines :: "('d, 's, 'r, 'k) poll_builder \<Rightarrow> bool" and lines_in :: "bound \<Rightarrow> ('d, 's, 'r, 'k) in_edge \<Rightarrow> bool" where
  "all_lines (LineNode i f out op) \<longleftrightarrow> lines_in (lo_bound op) i \<and> (case out of OSync fo \<Rightarrow> f_suspended fo = None | _ \<Rightarrow> True)"
| "all_lines (BiunionNode l r f out op) \<longleftrightarrow> False"
| "lines_in b (InAsync r ps) \<longleftrightarrow> b \<noteq> Some 0 \<and> (\<forall>p\<in>set ps. all_lines p)"
| "lines_in b (InDeferred r) \<longleftrightarrow> True"
| "lines_in b (InSync x) \<longleftrightarrow> True"

text \<open>The handles on other threads' edges, in the order the nodes are built.\<close>

fun builder_handles :: "('d, 's, 'r, 'k) poll_builder \<Rightarrow> 'k list" and in_handles :: "('d, 's, 'r, 'k) in_edge \<Rightarrow> 'k list" where
  "builder_handles (LineNode i f out op) = in_handles i @ out_handles out"
| "builder_handles (BiunionNode l r f out op) = in_handles l @ in_handles r @ out_handles out"
| "in_handles (InAsync r ps) = concat (map builder_handles ps)"
| "in_handles (InDeferred r) = []"
| "in_handles (InSync x) = []"

definition line_network :: "('d, 's, 'r, 'k) poll_builder list \<Rightarrow> bool" where
  "line_network bs \<longleftrightarrow> list_all all_lines bs \<and> distinct (concat (map builder_handles bs))"

section \<open>What is built has no cycle\<close>

lemma node_ids_hd: "\<exists>is. node_ids b = hd (node_ids b) # is"
  by (cases b) auto

definition before :: "'a list \<Rightarrow> 'a \<Rightarrow> 'a \<Rightarrow> bool" where
  "before L u v \<longleftrightarrow> (\<exists>xs ys zs. L = xs @ u # ys @ v # zs)"

lemma before_append: "before L u v \<Longrightarrow> before (xs @ L @ ys) u v"
  unfolding before_def by (metis append.assoc append_Cons)

lemma before_Cons: "v \<in> set L \<Longrightarrow> before (u # L) u v"
  unfolding before_def by (metis append_Nil in_set_conv_decomp)

lemma before_concat:
  assumes "x \<in> set xs" and "before (f x) u v"
  shows "before (concat (map f xs)) u v"
proof -
  from assms(1) obtain as bs where "xs = as @ x # bs" by (meson split_list)
  with before_append [OF assms(2), of "concat (map f as)" "concat (map f bs)"] show ?thesis by simp
qed

text \<open>A node is named before those it owns.\<close>

lemma owner_first:
  fixes b :: "('d, 's, 'r, 'k) poll_builder" and i :: "('d, 's, 'r, 'k) in_edge"
  shows "(u, v) \<in> node_edges b \<Longrightarrow> before (node_ids b) u v"
    and "(u, v) \<in> in_edges i \<Longrightarrow> before (in_id i # parent_ids i) u v"
proof (induction b and i rule: node_edges_in_edges.induct)
  case (2 l r f out op)
  then show ?case
    using before_append [of "in_id l # parent_ids l" u v "[]" "in_id r # parent_ids r"]
      before_append [of "in_id r # parent_ids r" u v "in_id l # parent_ids l" "[]"] by auto
next
  case (3 r ps)
  from 3(2) obtain p where p: "p \<in> set ps" "(u, v) = (rs_id r, hd (node_ids p)) \<or> (u, v) \<in> node_edges p" by auto
  show ?case
  proof (cases "(u, v) \<in> node_edges p")
    case True
    with 3(1) p(1) have "before (concat (map node_ids ps)) u v" by (blast intro: before_concat)
    with before_append [of _ u v "[rs_id r]" "[]"] show ?thesis by simp
  next
    case False
    with p have u: "u = rs_id r" "v = hd (node_ids p)" by auto
    have "v \<in> set (node_ids p)" using node_ids_hd [of p] u(2) by (metis list.set_intros(1))
    with p(1) u(1) show ?thesis by (auto intro!: before_Cons)
  qed
qed auto

lemma before_acyclic:
  assumes "distinct L" and "\<And>u v. (u, v) \<in> R \<Longrightarrow> before L u v"
  shows "acyclic R"
proof -
  let ?f = "\<lambda>x. length (takeWhile (\<lambda>y. y \<noteq> x) L)"
  have "(u, v) \<in> inv_image less_than ?f" if "(u, v) \<in> R" for u v
  proof -
    from assms(2) [OF that] obtain xs ys zs where L: "L = xs @ u # ys @ v # zs" by (auto simp: before_def)
    with assms(1) have "takeWhile (\<lambda>y. y \<noteq> u) L = xs" "takeWhile (\<lambda>y. y \<noteq> v) L = xs @ u # ys"
      by (auto simp: takeWhile_append takeWhile_eq_all_conv)
    then show ?thesis by simp
  qed
  then have "R \<subseteq> inv_image less_than ?f" by auto
  from wf_subset [OF wf_inv_image [OF wf_less_than] this] show ?thesis by (rule wf_acyclic)
qed

section \<open>What is built is idle\<close>

fun idle_line :: "('d, 's, 'r, 'k) graph_node \<Rightarrow> bool" where
  "idle_line (GLine l) \<longleftrightarrow> pl_state (gl_shared l) = Running \<and> pl_open (gl_shared l) \<and>
     (case pl_output (gl_shared l) of Fan f \<Rightarrow> f_suspended f = None | One g \<Rightarrow> sg_held g = None)"
| "idle_line (GBi b) \<longleftrightarrow> False"

fun output_handles :: "('k, 'm) node_output \<Rightarrow> 'k list" where
  "output_handles (Fan f) = f_edges f"
| "output_handles (One g) = (case sg_edge g of ToSink k \<Rightarrow> [k] | _ \<Rightarrow> [])"

fun node_handle_list :: "('d, 's, 'r, 'k) graph_node \<Rightarrow> 'k list" where
  "node_handle_list (GLine l) = output_handles (pl_output (gl_shared l))"
| "node_handle_list (GBi b) = output_handles (bs_output (gb_shared b))"

lemma output_handles_set: "set (output_handles x) = outer_handles x"
  by (cases x) (auto split: poll_sink.splits)

lemma node_handle_set: "set (node_handle_list nd) = node_handles nd"
  by (cases nd) (simp_all add: output_handles_set)

definition built_idle :: "('d, 's, 'r, 'k, 'w) built \<Rightarrow> bool" where
  "built_idle w \<longleftrightarrow> list_all idle_line (bt_nodes w) \<and> list_all fresh_channel (bt_channels w)"

definition built_handles :: "('d, 's, 'r, 'k, 'w) built \<Rightarrow> 'k list" where
  "built_handles w = concat (map node_handle_list (bt_nodes w))"

lemma fresh_channel_schedule [simp]: "fresh_channel (pe_schedule v e) = fresh_channel e"
  by (simp add: fresh_channel_def pe_schedule_def)

lemma fresh_channel_new [simp]: "fresh_channel (channel v b) \<longleftrightarrow> b \<noteq> Some 0"
  by (simp add: fresh_channel_def channel_def)

lemma scheduled_fresh: "list_all fresh_channel chs \<Longrightarrow> list_all fresh_channel (scheduled v e chs)"
proof (cases "\<exists>c. e = Some c \<and> c < length chs")
  case True
  then show "list_all fresh_channel chs \<Longrightarrow> ?thesis" by (auto simp: scheduled_def list_all_length nth_list_update)
next
  case False
  then show "list_all fresh_channel chs \<Longrightarrow> ?thesis" by (auto simp: scheduled_def list_update_beyond split: option.splits)
qed

lemma assemble_line_idle:
  assumes "built_idle w" and "case out of Fan f \<Rightarrow> f_suspended f = None | One g \<Rightarrow> sg_held g = None"
  shows "built_idle (assemble_line so f slot inlet out bg w) \<and>
    built_handles (assemble_line so f slot inlet out bg w) = built_handles w @ output_handles out"
  using assms
  by (auto simp: assemble_line_def built_idle_def built_handles_def Let_def line_phases_def graph_slot_def scheduled_fresh
      split: node_output.splits)

lemma output_for_idle:
  assumes "output_for e out = Some x" and "case out of OSync fo \<Rightarrow> f_suspended fo = None | _ \<Rightarrow> True"
  shows "(case x of Fan f \<Rightarrow> f_suspended f = None | One g \<Rightarrow> sg_held g = None) \<and> output_handles x = out_handles out"
  using assms by (cases e; cases out) (auto simp: single_from_def out_handles_def)

lemma and_then_Some_Ok: "and_then x f = Some (Ok b, w') \<longleftrightarrow> (\<exists>a w. x = Some (Ok a, w) \<and> f a w = Some (Ok b, w'))"
  by (auto simp: and_then_def split: option.splits prod.splits result.splits)

lemma build_all_idle:
  "build_node so e b w = Some (Ok (), w') \<Longrightarrow> all_lines b \<Longrightarrow> built_idle w \<Longrightarrow>
     built_idle w' \<and> built_handles w' = built_handles w @ builder_handles b"
  "ready_input so bd i w = Some (Ok r, w') \<Longrightarrow> lines_in bd i \<Longrightarrow> built_idle w \<Longrightarrow>
     built_idle w' \<and> built_handles w' = built_handles w @ in_handles i"
  "build_parents so v bd ps cs w = Some (Ok cs', w') \<Longrightarrow> bd \<noteq> Some 0 \<Longrightarrow> \<forall>p\<in>set ps. all_lines p \<Longrightarrow> built_idle w \<Longrightarrow>
     built_idle w' \<and> built_handles w' = built_handles w @ concat (map builder_handles ps)"
proof (induction so e b w and so bd i w and so v bd ps cs w arbitrary: w' and r w' and cs' w'
    rule: build_node_ready_input_build_parents.induct)
  case (1 so e i f out op w)
  from 1(2) obtain x slot inl w1 where
    x: "output_for e out = Some x" "ready_input so (lo_bound op) i w = Some (Ok (slot, inl), w1)"
      "w' = assemble_line so f slot inl x (lo_budget op) w1"
    by (auto simp: line_builds_def and_then_Some_Ok split: option.splits)
  from 1(3) have a: "lines_in (lo_bound op) i" "case out of OSync fo \<Rightarrow> f_suspended fo = None | _ \<Rightarrow> True" by simp_all
  from 1(1) [OF x(2) a(1) 1(4)] have "built_idle w1" "built_handles w1 = built_handles w @ in_handles i" by auto
  with assemble_line_idle [of w1 x] output_for_idle [OF x(1) a(2)] show ?case by (simp add: x(3))
next
  case (5 so b r ps w)
  then show ?case by (auto simp: Let_def and_then_Some_Ok)
next
  case (7 so v b p ps cs w)
  let ?w = "w\<lparr>bt_channels := bt_channels w @ [channel v b]\<rparr>"
  from 7(3) obtain w1 where w1: "build_node so (Some (length (bt_channels w))) p ?w = Some (Ok (), w1)"
    "build_parents so v b ps (cs @ [length (bt_channels w)]) w1 = Some (Ok cs', w')"
    by (auto simp: Let_def and_then_Some_Ok)
  from 7(4,6) have "built_idle ?w" "built_handles ?w = built_handles w" by (simp_all add: built_idle_def built_handles_def)
  with 7(1) [OF refl w1(1)] 7(5) have "built_idle w1" "built_handles w1 = built_handles w @ builder_handles p" by auto
  with 7(2) [OF refl w1(2) 7(4)] 7(5) show ?case by auto
qed auto

lemma build_added_idle:
  "build_added so bs w = Some (Ok (), w') \<Longrightarrow> \<forall>b\<in>set bs. all_lines b \<Longrightarrow> built_idle w \<Longrightarrow>
     built_idle w' \<and> built_handles w' = built_handles w @ concat (map builder_handles bs)"
proof (induction bs arbitrary: w)
  case (Cons b bs)
  from Cons.prems(1) obtain w1 where w1: "build_node so None b w = Some (Ok (), w1)" "build_added so bs w1 = Some (Ok (), w')"
    by (auto simp: and_then_Some_Ok)
  with build_all_idle(1) [OF w1(1)] Cons show ?case by auto
qed auto

section \<open>What is built is fresh\<close>

lemma distinct_concat_apart:
  "distinct (concat (map f xs)) \<Longrightarrow> n < length xs \<Longrightarrow> m < n \<Longrightarrow> set (f (xs ! n)) \<inter> set (f (xs ! m)) = {}"
proof (induction xs arbitrary: n m)
  case (Cons x xs)
  then obtain k where k: "n = Suc k" "k < length xs" by (cases n) auto
  show ?case
  proof (cases m)
    case 0
    have "set (f (xs ! k)) \<subseteq> set (concat (map f xs))" using nth_mem [OF k(2)] by auto
    with Cons.prems(1) 0 k(1) show ?thesis by auto
  next
    case (Suc j)
    with Cons.IH [of k j] Cons.prems k show ?thesis by simp
  qed
qed simp

lemma built_network_fresh:
  fixes s :: "('d, 's, 'r, 'k) wiring" and so :: "('k, ('d, 's) message, 'w) sink_ops"
  assumes r: "wire_reach s" and l: "line_network (wi_added s)"
    and b: "build_added so (wi_added s) (built_empty (wi_reserved s) v) = Some (Ok (), b)"
  shows "net_fresh b"
proof -
  let ?w0 = "built_empty (wi_reserved s) v :: ('d, 's, 'r, 'k, 'w) built" and ?ids = "set (all_ids (wi_added s))"
  from wire_reach_ok [OF r] have ok: "\<forall>b\<in>set (wi_added s). wf_node b \<and> is_graph_builder b" "distinct (all_ids (wi_added s))"
    "?ids \<subseteq> {..<wi_reserved s}" by (auto simp: wiring_ok_def)
  from ok(3) have "free_places ?w0 ?ids" by (auto simp: free_places_def built_empty_def graph_local_def)
  from build_added_ok [OF ok(1,2) this built_empty_ok(1), of so] b have
    w: "build_inv b {} {}" "flow b = (\<Union>b\<in>set (wi_added s). node_edges b)" by (auto simp: built_empty_ok(2))
  have "before (all_ids (wi_added s)) u v" if "(u, v) \<in> flow b" for u v
    using that owner_first(1) unfolding w(2) all_ids_def by (blast intro: before_concat)
  then have ac: "acyclic (flow b)" by (rule before_acyclic [OF ok(2)])
  have "built_idle ?w0" "built_handles ?w0 = []" by (simp_all add: built_idle_def built_handles_def built_empty_def)
  with build_added_idle [OF b] l have i: "built_idle b" "distinct (built_handles b)"
    by (auto simp: line_network_def list_all_iff)
  have "fresh_line (length (bt_channels b)) nd" if nd: "nd \<in> set (bt_nodes b)" for nd
  proof -
    from i(1) nd have id: "idle_line nd" by (simp add: built_idle_def list_all_iff)
    then obtain l where l: "nd = GLine l" by (cases nd) auto
    from w(1) nd have "\<forall>c\<in>set (inlet_channels (gl_inlet l)). c < length (bt_channels b)"
        "\<And>c. output_channel (pl_output (gl_shared l)) = Some c \<Longrightarrow> c < length (bt_channels b)"
      unfolding build_inv_def l by fastforce+
    moreover have "distinct (node_handle_list nd)"
      using i(2) nd unfolding built_handles_def by (metis distinct_concat_iff in_set_conv_decomp list.set_map image_eqI)
    ultimately show ?thesis using id l
      by (cases "pl_output (gl_shared l)") (auto simp: list_all_iff split: option.splits)
  qed
  moreover have "node_handles (bt_nodes b ! n) \<inter> node_handles (bt_nodes b ! m) = {}" if "n < length (bt_nodes b)" "m < n" for n m
    using distinct_concat_apart [OF i(2) [unfolded built_handles_def] that] by (simp add: node_handle_set)
  ultimately show ?thesis using build_inv_wired [OF w(1)] ac i(1)
    by (simp add: net_fresh_def built_idle_def list_all_iff)
qed

section \<open>Properties\<close>

text \<open>C12. A poll thread of line nodes never deadlocks: however its nodes were wired, whatever its phases and the rest of
  the program did since it started, when no phase is woken and a node still has something to do, then it or a node
  downstream of it is alive and waits for room at another thread's edge, or for its own routine, which refused a
  message or is flushing. No node waits for a channel whose reader does not know of it.\<close>

theorem network_never_deadlocks:
  fixes s :: "('d, 's, 'r, nat \<times> nat) wiring" and b :: "('d, 's, 'r, nat \<times> nat, ('d, 's) sync_world) built"
  assumes "honest_routine po" and "wire_reach s" "line_network (wi_added s)"
    and "build_added (sync_sink env) (wi_added s) (built_empty (wi_reserved s) v) = Some (Ok (), b)"
    and "\<forall>ev\<in>set evs. outside_ok (net_start b) ev" "net_run po (sync_sink env) evs (net_start b) = Some w"
    and "net_quiet w" "net_line w n = Some l" "has_work n l w"
  shows "\<exists>m k. net_line w m = Some k \<and> (lw_input (gl_wakers k), lw_input (gl_wakers l)) \<in> (flow b)\<^sup>* \<and>
    pl_state (gl_shared k) \<noteq> NClosed \<and> (waits_outside k \<or> routine_owes m k w)"
  by (rule quiet_network_waits [OF assms(1) built_network_fresh [OF assms(2-4)] assms(5-9)])

text \<open>C11. However the line nodes of a poll thread were wired, whatever its phases and the rest of the program did since it
  started, every node that is not over conducts its routine: the messages it received, but the one its Input
  holds, are those its routine was given, in order, and what its routine sent is what every edge it feeds took in,
  but for a message that an edge refused and it still holds. A channel hands on what it took in, in order, to one
  node, which has received it among what its other channels handed on, or, when it has no other, exactly.\<close>

theorem network_delivers:
  fixes s :: "('d, 's, 'r, nat \<times> nat) wiring" and b :: "('d, 's, 'r, nat \<times> nat, ('d, 's) sync_world) built"
  assumes "honest_routine po" and "wire_reach s" "line_network (wi_added s)"
    and "build_added (sync_sink env) (wi_added s) (built_empty (wi_reserved s) v) = Some (Ok (), b)"
    and "\<forall>ev\<in>set evs. outside_ok (net_start b) ev" "net_run po (sync_sink env) evs (net_start b) = Some w"
    and "net_line (net_start b) n = Some l0" "net_line w n = Some l" "pl_state (gl_shared l) \<noteq> NClosed"
  shows "\<exists>acc os. taken_by n w = acc @ held_list (nt_held w n) \<and>
    conducts (po_send po) (po_next po) (po_flush po) (po_poll po) (pl_routine (gl_shared l0)) Running acc os
      (pl_routine (gl_shared l)) (pl_state (gl_shared l)) \<and>
    (\<forall>i < net_lanes (pl_output (gl_shared l0)). net_received (pl_output (gl_shared l)) w i @ net_due (pl_output (gl_shared l)) i =
       net_received (pl_output (gl_shared l0)) (net_start b) i @ os) \<and>
    (\<forall>c. output_channel (pl_output (gl_shared l0)) = Some c \<longrightarrow>
       given_by c w @ pe_buffer (net_channel w c) @ net_due (pl_output (gl_shared l)) 0 = os \<and>
       (\<exists>m k. net_line (net_start b) m = Some k \<and> c \<in> set (inlet_channels (gl_inlet k)) \<and> subseq (given_by c w) (taken_by m w) \<and>
          (gl_inlet k = Channels [c] \<longrightarrow> taken_by m w = given_by c w)))"
  by (rule network_conducts [OF assms(1) built_network_fresh [OF assms(2-4)] assms(5-9)])

subsection \<open>Two lines in a row\<close>

text \<open>The second has room for one message before it, and writes to another thread's edge, which has room for one. A
  routine has room for one.\<close>

definition pass_one :: "(nat, nat, nat list \<times> bool) poll_ops" where
  "pass_one = pass_on\<lparr>po_send := (\<lambda>x r. if fst r = [] then (Ok Accepted, ([x], snd r)) else (Ok (AFull x), r))\<rparr>"

definition small_options :: "bound \<Rightarrow> line_options" where
  "small_options b = \<lparr>lo_bound = b, lo_budget = \<lparr>bg_input = 4, bg_output = 4\<rparr>\<rparr>"

definition small_line :: "(nat, nat, nat list \<times> bool, nat \<times> nat) in_edge \<Rightarrow> (nat \<times> nat, (nat, nat) message) out_edge \<Rightarrow> bound \<Rightarrow>
    (nat, nat, nat list \<times> bool, nat \<times> nat) poll_builder" where
  "small_line i out b = LineNode i (\<lambda>_. ([], False)) out (small_options b)"

definition small_wiring :: "(nat, nat, nat list \<times> bool, nat \<times> nat) wiring" where
  "small_wiring =
     \<lparr>wi_reserved = 2, wi_loose = [],
      wi_added = [small_line (InAsync \<lparr>rs_id = 1, rs_waker = 1\<rparr>
        [small_line (InSync \<lparr>si_edge = snd (waking_mint (waking_new 0 None)), si_reserved = \<lparr>rs_id = 0, rs_waker = 0\<rparr>\<rparr>) ODeferred None])
        (ODirect (0, 0)) (Some 1)]\<rparr>"

definition small_built :: "(nat, nat, nat list \<times> bool, nat \<times> nat, (nat, nat) sync_world) built" where
  "small_built = snd (the (build_added (sync_sink (\<lambda>w. None)) (wi_added small_wiring) (built_empty 2 two_edges)))"

text \<open>Another thread brings six messages; then every phase is polled, six times in turn.\<close>

definition small_events :: "(nat, nat, (nat, nat) sync_world) net_event list" where
  "small_events =
     NOutside id (\<lambda>n sh. if n = 0 then sh\<lparr>i_buffer := i_buffer sh @ map Data [5, 6, 7, 8, 9, 10]\<rparr> else sh) [0] #
     concat (replicate 6 [NPoll 0 LInput, NPoll 0 LWork, NPoll 0 LOutput, NPoll 1 LInput, NPoll 1 LWork, NPoll 1 LOutput])"

definition small_run :: "(nat, nat, nat list \<times> bool) sync_net option" where
  "small_run = net_run pass_one (sync_sink (\<lambda>w. None)) small_events (net_start small_built)"

lemma honest_pass_one: "honest_routine pass_one"
  by (simp add: honest_routine_def pass_one_def pass_on_def)

lemma small_wiring_reach: "wire_reach small_wiring"
proof -
  let ?d = "\<lambda>n b. small_line (InDeferred \<lparr>rs_id = n, rs_waker = n\<rparr>) ODeferred b"
  let ?up = "small_line (resolve_sync \<lparr>rs_id = 0, rs_waker = 0\<rparr> None) ODeferred None"
  let ?fed = "small_line (InSync \<lparr>si_edge = snd (waking_mint (waking_new 0 None)), si_reserved = \<lparr>rs_id = 0, rs_waker = 0\<rparr>\<rparr>) ODeferred None"
  let ?owned = "\<lambda>out. small_line (InAsync \<lparr>rs_id = 1, rs_waker = 1\<rparr> [?fed]) out (Some 1)"
  let ?s = "\<lambda>n bs. \<lparr>wi_reserved = n, wi_loose = bs, wi_added = []\<rparr>"
  have mint: "wire_step (?s n bs) (?s (Suc n) (?d n b # bs))" for n b bs
    using wire_step.line [of "\<lambda>_. ([], False)" "small_options b" "?s n bs" "?d n b" "Suc n"]
    by (simp add: line_with_options_def reserve_def producer_waker_def small_line_def)
  have "wire_reach (?s 0 [])" using wire_reach.start by (simp add: wiring_start_def)
  from wire_reach.step [OF wire_reach.step [OF this mint] mint]
  have "wire_reach (?s 2 [?d 1 (Some 1), ?d 0 None])" by (simp add: numeral_2_eq_2)
  moreover have "wire_step (?s 2 [?d 1 (Some 1), ?d 0 None]) (?s 2 [?d 1 (Some 1), ?up])"
    using wire_step.resolve [of "?s 2 [?d 1 (Some 1), ?d 0 None]" "[?d 1 (Some 1)]" "?d 0 None" "[]" ?up]
    by (simp add: resolves.line_in small_line_def small_options_def)
  moreover have "wire_step (?s 2 [?d 1 (Some 1), ?up]) (?s 2 [?d 1 (Some 1), ?fed])"
    using wire_step.resolve [of "?s 2 [?d 1 (Some 1), ?up]" "[?d 1 (Some 1)]" ?up "[]" ?fed]
      resolves.line_writer [of ?up "fst (waking_mint (waking_new 0 None :: (nat, nat) waking_receiver))" ?fed]
    by (simp add: small_line_def resolve_sync_def case_prod_unfold)
  moreover have "wire_step (?s 2 [?d 1 (Some 1), ?fed]) (?s 2 [?owned ODeferred])"
    using wire_step.own [of "?s 2 [?d 1 (Some 1), ?fed]" "[?d 1 (Some 1)]" ?fed "[]" "[]" "?d 1 (Some 1)" "[]" "?owned ODeferred"]
    by (simp add: small_line_def)
  moreover have "wire_step (?s 2 [?owned ODeferred]) (?s 2 [?owned (ODirect (0, 0))])"
    using wire_step.resolve [of "?s 2 [?owned ODeferred]" "[]" "?owned ODeferred" "[]" "?owned (ODirect (0, 0))"]
      resolves.line_direct [of "(0, 0)" "?owned ODeferred" "?owned (ODirect (0, 0))"]
    by (simp add: small_line_def)
  moreover have "wire_step (?s 2 [?owned (ODirect (0, 0))]) small_wiring"
    using wire_step.add [of "?s 2 [?owned (ODirect (0, 0))]" "[]" "?owned (ODirect (0, 0))" "[]"]
    by (simp add: small_line_def small_wiring_def)
  ultimately show ?thesis by (meson wire_reach.step)
qed

lemma small_network: "line_network (wi_added small_wiring)"
  by (simp add: line_network_def small_wiring_def small_line_def small_options_def out_handles_def)

lemma small_build:
  "build_added (sync_sink (\<lambda>w. None)) (wi_added small_wiring) (built_empty (wi_reserved small_wiring) two_edges) = Some (Ok (), small_built)"
proof -
  have "case build_added (sync_sink (\<lambda>w. None)) (wi_added small_wiring) (built_empty 2 two_edges) of Some (Ok u, b) \<Rightarrow> True | _ \<Rightarrow> False"
    by code_simp
  then show ?thesis by (auto simp: small_built_def small_wiring_def split: option.splits prod.splits result.splits)
qed

lemma small_around: "\<forall>ev\<in>set small_events. outside_ok (net_start small_built) ev"
proof -
  have "case net_line (net_start small_built) 0 of None \<Rightarrow> True
      | Some l \<Rightarrow> (case gl_inlet l of Bridge rx \<Rightarrow> wr_waker rx = 0 | Channels cs \<Rightarrow> True)"
    by code_simp
  then show ?thesis by (auto simp: small_events_def split: if_splits)
qed

text \<open>The network is quiet: the first node waits for the channel, the second for the edge.\<close>

lemma small_run_quiet:
  "case small_run of None \<Rightarrow> False | Some w \<Rightarrow>
     net_quiet w \<and> nt_held w 0 = None \<and> taken_by 0 w = map Data [5, 6, 7, 8, 9, 10] \<and> given_by 0 w = map Data [5, 6, 7, 8] \<and>
     (case net_line (net_start small_built) 0 of None \<Rightarrow> False | Some l0 \<Rightarrow> output_channel (pl_output (gl_shared l0)) = Some 0) \<and>
     (case net_line w 0 of None \<Rightarrow> False | Some l \<Rightarrow> has_work 0 l w \<and> \<not> waits_outside l \<and> \<not> routine_owes 0 l w \<and>
        lw_input (gl_wakers l) = 0 \<and> pl_state (gl_shared l) = Running)"
  by code_simp

theorem network_never_deadlocks_witness:
  "\<exists>w m k. small_run = Some w \<and> net_line w m = Some k \<and> m \<noteq> 0 \<and> (lw_input (gl_wakers k), 0) \<in> (flow small_built)\<^sup>* \<and>
     (waits_outside k \<or> routine_owes m k w)"
proof -
  from small_run_quiet obtain w l where w: "small_run = Some w" "net_quiet w" "net_line w 0 = Some l" "has_work 0 l w"
      "\<not> waits_outside l" "\<not> routine_owes 0 l w" "lw_input (gl_wakers l) = 0"
    by (auto split: option.splits)
  from network_never_deadlocks [OF honest_pass_one small_wiring_reach small_network small_build small_around
      w(1) [unfolded small_run_def] w(2-4)] obtain m k where
    m: "net_line w m = Some k" "(lw_input (gl_wakers k), 0) \<in> (flow small_built)\<^sup>*" "waits_outside k \<or> routine_owes m k w"
    unfolding w(7) by blast
  moreover have "m \<noteq> 0"
  proof
    assume "m = 0"
    with m(1) w(3) have "k = l" by simp
    with \<open>m = 0\<close> m(3) w(5,6) show False by simp
  qed
  ultimately show ?thesis using w(1) by blast
qed

theorem network_delivers_witness:
  "\<exists>w m k (os :: (nat, nat) message list). small_run = Some w \<and> net_line (net_start small_built) m = Some k \<and> taken_by 0 w = map Data [5, 6, 7, 8, 9, 10] \<and>
     subseq (map Data [5, 6, 7, 8]) (taken_by m w) \<and> prefix (map Data [5, 6, 7, 8]) os \<and>
     (\<exists>r st. conducts (po_send pass_one) (po_next pass_one) (po_flush pass_one) (po_poll pass_one) ([], False) Running
        (map Data [5, 6, 7, 8, 9, 10]) os r st)"
proof -
  from small_run_quiet obtain w l l0 where w: "small_run = Some w" "net_line (net_start small_built) 0 = Some l0" "net_line w 0 = Some l"
      "pl_state (gl_shared l) = Running" "nt_held w 0 = None" "taken_by 0 w = map Data [5, 6, 7, 8, 9, 10]"
      "given_by 0 w = map Data [5, 6, 7, 8]" "output_channel (pl_output (gl_shared l0)) = Some 0"
    by (auto split: option.splits)
  have "case net_line (net_start small_built) 0 of None \<Rightarrow> False | Some l0 \<Rightarrow> pl_routine (gl_shared l0) = ([], False)" by code_simp
  with w(2) have r: "pl_routine (gl_shared l0) = ([], False)" by simp
  have "pl_state (gl_shared l) \<noteq> NClosed" using w(4) by simp
  from network_delivers [OF honest_pass_one small_wiring_reach small_network small_build small_around
      w(1) [unfolded small_run_def] w(2,3) this] w(8) obtain acc os m k where
    a: "taken_by 0 w = acc @ held_list (nt_held w 0)"
      "conducts (po_send pass_one) (po_next pass_one) (po_flush pass_one) (po_poll pass_one) (pl_routine (gl_shared l0)) Running acc os
         (pl_routine (gl_shared l)) (pl_state (gl_shared l))"
      "given_by 0 w @ pe_buffer (net_channel w 0) @ net_due (pl_output (gl_shared l)) 0 = os"
      "net_line (net_start small_built) m = Some k" "subseq (given_by 0 w) (taken_by m w)" by blast
  from a(1) w(5,6) have acc: "acc = map Data [5, 6, 7, 8, 9, 10]" by (simp add: held_list_def)
  have "\<exists>r st. conducts (po_send pass_one) (po_next pass_one) (po_flush pass_one) (po_poll pass_one) ([], False) Running
      (map Data [5, 6, 7, 8, 9, 10]) os r st"
    using a(2) unfolding r acc by blast
  moreover have "prefix (map Data [5, 6, 7, 8]) os" using a(3) w(7) by (auto simp: prefix_def)
  moreover have "subseq (map Data [5, 6, 7, 8]) (taken_by m w)" using a(5) w(7) by simp
  ultimately show ?thesis using w(1,6) a(4) by blast
qed

end
