(* ===== verification/Combinators.thy ===== *)
theory Combinators
  imports Poll_Node
begin

text \<open>
  The combinators of async code: \<open>try_join\<close> (src/poll/try_join.rs) and \<open>race\<close> (src/poll/race.rs). A future is
  its state and a \<open>poll\<close>, which may do anything once it was ready: a combinator must not poll it then.
\<close>

type_synonym ('f, 'v) poll_fn = "'f \<Rightarrow> 'v poll \<times> 'f"

datatype ('a, 'b) partial = Neither | LeftDone 'a | RightDone 'b

text \<open>One poll of the joined future; a finished frame drops both arms.\<close>

definition try_join_poll ::
  "('f, ('a, 'e) result) poll_fn \<Rightarrow> ('g, ('b, 'e) result) poll_fn \<Rightarrow>
   (('a, 'b) partial \<times> 'f \<times> 'g, ('a \<times> 'b, 'e) result) poll_fn" where
  "try_join_poll left right = (\<lambda>(partial, l, r).
     case partial of
       Neither \<Rightarrow>
         (case left l of
            (PReady (Ok a), l1) \<Rightarrow>
              (case right r of
                 (PReady (Ok b), r1) \<Rightarrow> (PReady (Ok (a, b)), Neither, l1, r1)
               | (PReady (Err e), r1) \<Rightarrow> (PReady (Err e), Neither, l1, r1)
               | (Pending, r1) \<Rightarrow> (Pending, LeftDone a, l1, r1))
          | (PReady (Err e), l1) \<Rightarrow> (PReady (Err e), Neither, l1, r)
          | (Pending, l1) \<Rightarrow>
              (case right r of
                 (PReady (Ok b), r1) \<Rightarrow> (Pending, RightDone b, l1, r1)
               | (PReady (Err e), r1) \<Rightarrow> (PReady (Err e), Neither, l1, r1)
               | (Pending, r1) \<Rightarrow> (Pending, Neither, l1, r1)))
     | LeftDone a \<Rightarrow>
         (case right r of
            (PReady (Ok b), r1) \<Rightarrow> (PReady (Ok (a, b)), Neither, l, r1)
          | (PReady (Err e), r1) \<Rightarrow> (PReady (Err e), Neither, l, r1)
          | (Pending, r1) \<Rightarrow> (Pending, LeftDone a, l, r1))
     | RightDone b \<Rightarrow>
         (case left l of
            (PReady (Ok a), l1) \<Rightarrow> (PReady (Ok (a, b)), Neither, l1, r)
          | (PReady (Err e), l1) \<Rightarrow> (PReady (Err e), Neither, l1, r)
          | (Pending, l1) \<Rightarrow> (Pending, RightDone b, l1, r)))"

datatype ('a, 'b) either = EitherLeft 'a | EitherRight 'b

definition race_poll :: "('f, 'a) poll_fn \<Rightarrow> ('g, 'b) poll_fn \<Rightarrow> ('f \<times> 'g, ('a, 'b) either) poll_fn" where
  "race_poll left right = (\<lambda>(l, r).
     case left l of
       (PReady a, l1) \<Rightarrow> (PReady (EitherLeft a), l1, r)
     | (Pending, l1) \<Rightarrow>
         (case right r of
            (PReady b, r1) \<Rightarrow> (PReady (EitherRight b), l1, r1)
          | (Pending, r1) \<Rightarrow> (Pending, l1, r1)))"

section \<open>When a future is ready\<close>

text \<open>The first \<open>n\<close> polls are pending, and the next one answers \<open>v\<close>.\<close>

fun pending_for :: "('f, 'v) poll_fn \<Rightarrow> nat \<Rightarrow> 'f \<Rightarrow> bool" where
  "pending_for p 0 f = True"
| "pending_for p (Suc n) f = (fst (p f) = Pending \<and> pending_for p n (snd (p f)))"

fun ready_at :: "('f, 'v) poll_fn \<Rightarrow> nat \<Rightarrow> 'f \<Rightarrow> 'v \<Rightarrow> bool" where
  "ready_at p 0 f v = (fst (p f) = PReady v)"
| "ready_at p (Suc n) f v = (fst (p f) = Pending \<and> ready_at p n (snd (p f)) v)"

text \<open>A future's outcome: when it is ready and with what, or never. Every future has one.\<close>

fun outcome :: "('f, 'v) poll_fn \<Rightarrow> 'f \<Rightarrow> (nat \<times> 'v) option \<Rightarrow> bool" where
  "outcome p f (Some (n, v)) = ready_at p n f v"
| "outcome p f None = (\<forall>n. pending_for p n f)"

lemma pending_or_ready: "pending_for p n f \<or> (\<exists>m v. ready_at p m f v)"
proof (induction n arbitrary: f)
  case (Suc n)
  show ?case
  proof (cases "fst (p f)")
    case Pending
    from Suc [of "snd (p f)"] show ?thesis
    proof
      assume "\<exists>m v. ready_at p m (snd (p f)) v"
      then obtain m v where "ready_at p m (snd (p f)) v" by blast
      with Pending have "ready_at p (Suc m) f v" by simp
      then show ?thesis by blast
    qed (simp add: Pending)
  next
    case (PReady v)
    then have "ready_at p 0 f v" by simp
    then show ?thesis by blast
  qed
qed simp

lemma outcome_exists: "\<exists>q. outcome p f q"
  using pending_or_ready [of p _ f] outcome.simps by metis

text \<open>The reference: the first error in time ends the join, the left one of two at once; two values wait for the
  later. A race ends with the earlier arm, the left one of two at once.\<close>

fun joined :: "(nat \<times> ('a, 'e) result) option \<Rightarrow> (nat \<times> ('b, 'e) result) option \<Rightarrow> (nat \<times> ('a \<times> 'b, 'e) result) option" where
  "joined (Some (i, Ok a)) (Some (j, Ok b)) = Some (max i j, Ok (a, b))"
| "joined (Some (i, Err e)) (Some (j, Err e')) = (if i \<le> j then Some (i, Err e) else Some (j, Err e'))"
| "joined (Some (i, Err e)) q = Some (i, Err e)"
| "joined q (Some (j, Err e)) = Some (j, Err e)"
| "joined q q' = None"

fun raced :: "(nat \<times> 'a) option \<Rightarrow> (nat \<times> 'b) option \<Rightarrow> (nat \<times> ('a, 'b) either) option" where
  "raced (Some (i, a)) (Some (j, b)) = (if i \<le> j then Some (i, EitherLeft a) else Some (j, EitherRight b))"
| "raced (Some (i, a)) None = Some (i, EitherLeft a)"
| "raced None (Some (j, b)) = Some (j, EitherRight b)"
| "raced None None = None"

text \<open>One poll later, every outcome is one poll earlier.\<close>

fun later :: "(nat \<times> 'v) option \<Rightarrow> (nat \<times> 'v) option" where
  "later (Some (n, v)) = Some (Suc n, v)"
| "later None = None"

lemma outcome_step:
  "outcome p f q \<longleftrightarrow> (case p f of (PReady v, f') \<Rightarrow> q = Some (0, v) | (Pending, f') \<Rightarrow> \<exists>q'. q = later q' \<and> outcome p f' q')"
proof (cases q)
  case None
  have "(\<forall>n. pending_for p n f) \<longleftrightarrow> fst (p f) = Pending \<and> (\<forall>n. pending_for p n (snd (p f)))"
    by (metis nat.exhaust pending_for.simps)
  moreover have "None = later q' \<longleftrightarrow> q' = None" for q' :: "(nat \<times> 'b) option" by (cases q') auto
  ultimately show ?thesis using None by (auto simp: case_prod_unfold split: poll.splits)
next
  case (Some nv)
  obtain n v where nv: "nv = (n, v)" by (cases nv)
  have "Some (Suc m, v) = later q' \<longleftrightarrow> q' = Some (m, v)" for q' m by (cases q') auto
  moreover have "Some (0, v) \<noteq> later q'" for q' by (cases q') auto
  ultimately show ?thesis using Some nv by (cases n) (auto simp: case_prod_unfold split: poll.splits)
qed

lemma joined_later: "joined (later p) (later q) = later (joined p q)"
  by (cases "(p, q)" rule: joined.cases) auto

lemma raced_later: "raced (later p) (later q) = later (raced p q)"
  by (cases "(p, q)" rule: raced.cases) auto

text \<open>An outcome is what holds at every poll: a future whose polls simulate an outcome has it.\<close>

lemma outcome_coinduct:
  assumes "R f q"
    and step: "\<And>f q. R f q \<Longrightarrow> (case p f of (PReady v, f') \<Rightarrow> q = Some (0, v) | (Pending, f') \<Rightarrow> \<exists>q'. q = later q' \<and> R f' q')"
  shows "outcome p f q"
proof (cases q)
  case None
  have "pending_for p n f" if "R f None" for n f
    using that
  proof (induction n arbitrary: f)
    case (Suc n)
    from step [OF Suc.prems] obtain f' q' where "p f = (Pending, f')" "None = later q'" "R f' q'"
      by (auto simp: case_prod_unfold prod_eq_iff split: poll.splits)
    moreover from this(2) have "q' = None" by (cases q') auto
    ultimately show ?case using Suc.IH by simp
  qed simp
  with assms(1) None show ?thesis by simp
next
  case (Some nv)
  obtain n v where nv: "nv = (n, v)" by (cases nv)
  have "ready_at p n f v" if "R f (Some (n, v))" for n f
    using that
  proof (induction n arbitrary: f)
    case 0
    have "Some (0, v) \<noteq> later q'" for q' by (cases q') auto
    with step [OF 0] show ?case by (auto simp: case_prod_unfold split: poll.splits)
  next
    case (Suc n)
    from step [OF Suc.prems] obtain f' q' where "p f = (Pending, f')" "Some (Suc n, v) = later q'" "R f' q'"
      by (auto simp: case_prod_unfold prod_eq_iff split: poll.splits)
    moreover from this(2) have "q' = Some (n, v)" by (cases q') auto
    ultimately show ?case using Suc.IH by simp
  qed
  with assms(1) Some nv show ?thesis by simp
qed

text \<open>What a join has yet to answer, by what it holds.\<close>

inductive joining ::
  "('f, ('a, 'e) result) poll_fn \<Rightarrow> ('g, ('b, 'e) result) poll_fn \<Rightarrow> ('a, 'b) partial \<times> 'f \<times> 'g \<Rightarrow>
   (nat \<times> ('a \<times> 'b, 'e) result) option \<Rightarrow> bool" for left right where
  neither: "outcome left l p \<Longrightarrow> outcome right r q \<Longrightarrow> joining left right (Neither, l, r) (joined p q)"
| left_done: "outcome right r q \<Longrightarrow> joining left right (LeftDone a, l, r) (joined (Some (0, Ok a)) q)"
| right_done: "outcome left l p \<Longrightarrow> joining left right (RightDone b, l, r) (joined p (Some (0, Ok b)))"

lemma joined_left_now: "joined (Some (0, Ok a)) (later q) = later (joined (Some (0, Ok a)) q)"
proof (cases q)
  case (Some nv)
  then show ?thesis by (cases nv; cases "snd nv") auto
qed simp

lemma joined_right_now: "joined (later p) (Some (0, Ok b)) = later (joined p (Some (0, Ok b)))"
proof (cases p)
  case (Some nv)
  then show ?thesis by (cases nv; cases "snd nv") auto
qed simp

lemma joined_left_err: "joined (Some (0, Err e)) q = Some (0, Err e)"
proof (cases q)
  case (Some nv)
  then show ?thesis by (cases nv; cases "snd nv") auto
qed simp

lemma joined_right_err: "joined (later p) (Some (0, Err e)) = Some (0, Err e)" "joined (Some (0, Ok a)) (Some (0, Err e)) = Some (0, Err e)"
proof -
  show "joined (later p) (Some (0, Err e)) = Some (0, Err e)"
  proof (cases p)
    case (Some nv)
    then show ?thesis by (cases nv; cases "snd nv") auto
  qed simp
qed simp

lemmas joined_now = joined_left_now joined_right_now joined_left_err joined_right_err joined_later

lemma joining_step:
  assumes "joining left right s q"
  shows "case try_join_poll left right s of
     (PReady v, s') \<Rightarrow> q = Some (0, v) | (Pending, s') \<Rightarrow> \<exists>q'. q = later q' \<and> joining left right s' q'"
  using assms
proof cases
  case (neither l p r q')
  note st = outcome_step [of left l p, THEN iffD1, OF neither(3)] outcome_step [of right r q', THEN iffD1, OF neither(4)]
  obtain a l1 where l: "left l = (a, l1)" by (cases "left l")
  obtain b r1 where r: "right r = (b, r1)" by (cases "right r")
  show ?thesis
  proof (cases a)
    case (PReady x)
    with st l have p: "p = Some (0, x)" by simp
    show ?thesis
    proof (cases x)
      case (Err e)
      with l PReady p neither(1,2) show ?thesis by (simp add: try_join_poll_def joined_now)
    next
      case (Ok v)
      with l r st PReady p neither(1,2) show ?thesis
        by (cases b; auto simp: try_join_poll_def joined_now split: result.splits intro: joining.intros)
    qed
  next
    case Pending
    with st l obtain p' where p: "p = later p'" "outcome left l1 p'" by auto
    with l r st Pending neither(1,2) show ?thesis
      by (cases b; auto simp: try_join_poll_def joined_now split: result.splits intro: joining.intros)
  qed
next
  case (left_done r q' a l)
  note st = outcome_step [of right r q', THEN iffD1, OF left_done(3)]
  obtain b r1 where r: "right r = (b, r1)" by (cases "right r")
  with st left_done(1,2) show ?thesis
    by (cases b; auto simp: try_join_poll_def joined_now split: result.splits intro: joining.intros)
next
  case (right_done l p b r)
  note st = outcome_step [of left l p, THEN iffD1, OF right_done(3)]
  obtain a l1 where l: "left l = (a, l1)" by (cases "left l")
  with st right_done(1,2) show ?thesis
    by (cases a; auto simp: try_join_poll_def joined_now split: result.splits intro: joining.intros)
qed

inductive racing ::
  "('f, 'a) poll_fn \<Rightarrow> ('g, 'b) poll_fn \<Rightarrow> 'f \<times> 'g \<Rightarrow> (nat \<times> ('a, 'b) either) option \<Rightarrow> bool" for left right where
  racing: "outcome left l p \<Longrightarrow> outcome right r q \<Longrightarrow> racing left right (l, r) (raced p q)"

lemma raced_now: "raced (Some (0, a)) q = Some (0, EitherLeft a)" "raced (later p) (Some (0, b)) = Some (0, EitherRight b)"
  by (cases q; auto) (cases p rule: later.cases; auto)

lemma racing_step:
  assumes "racing left right s q"
  shows "case race_poll left right s of
     (PReady v, s') \<Rightarrow> q = Some (0, v) | (Pending, s') \<Rightarrow> \<exists>q'. q = later q' \<and> racing left right s' q'"
  using assms
proof cases
  case (racing l p r q')
  then show ?thesis
    using outcome_step [of left l p] outcome_step [of right r q']
    by (auto simp: race_poll_def raced_now raced_later case_prod_unfold split: poll.splits intro: racing.intros)
qed

section \<open>Properties\<close>

text \<open>C40. Joining and racing two futures is what their own outcomes say, however long they take, also for ever, and
  whatever they would answer if polled after they are ready: a join is ready with both values when the later arm
  is, or with the error that comes first in time, the left one of two at once; a race is ready when the earlier
  arm is, the left one of two at once.\<close>

theorem combinators_equal_reference:
  assumes "outcome left l p" and "outcome right r q"
  shows "outcome (try_join_poll left right) (Neither, l, r) (joined p q) \<and>
    outcome (race_poll left right) (l, r) (raced p q)"
proof
  show "outcome (try_join_poll left right) (Neither, l, r) (joined p q)"
  proof (rule outcome_coinduct [where R = "joining left right"])
    show "joining left right (Neither, l, r) (joined p q)" by (rule joining.neither [OF assms])
  qed (rule joining_step)
  show "outcome (race_poll left right) (l, r) (raced p q)"
  proof (rule outcome_coinduct [where R = "racing left right"])
    show "racing left right (l, r) (raced p q)" by (rule racing.racing [OF assms])
  qed (rule racing_step)
qed

definition countdown :: "'v \<Rightarrow> (nat, 'v) poll_fn" where
  "countdown v n = (if n = 0 then (PReady v, 0) else (Pending, n - 1))"

theorem combinators_equal_reference_witness:
  "outcome (try_join_poll (countdown (Ok 5 :: (nat, nat) result)) (countdown (Err 7 :: (nat, nat) result))) (Neither, 2, 1)
     (Some (1, Err 7)) \<and>
   outcome (race_poll (countdown (Ok 5 :: (nat, nat) result)) (countdown (Err 7 :: (nat, nat) result))) (2, 1)
     (Some (1, EitherRight (Err 7)))"
proof -
  have "outcome (countdown (Ok 5 :: (nat, nat) result)) 2 (Some (2, Ok 5))" by (simp add: countdown_def numeral_2_eq_2)
  moreover have "outcome (countdown (Err 7 :: (nat, nat) result)) 1 (Some (1, Err 7))" by (simp add: countdown_def)
  ultimately show ?thesis using combinators_equal_reference [of _ 2 _ _ 1] by fastforce
qed

end
