(* ===== verification/Work_Round.thy ===== *)
theory Work_Round
  imports Line_Work "HOL-Library.Sublist"
begin

text \<open>
  What a round of a line does to predicates of the world, and what is left when a round fails: the lemmas a graph
  of owned work nodes is reasoned with.
\<close>

section \<open>What a round keeps\<close>

text \<open>\<open>G\<close> is what holds of the parents still scheduled and the world while a round goes well, \<open>C\<close> what is left of it
  once outputs are closed, \<open>R\<close> after an error other than \<open>Closed\<close>.\<close>

definition ends_well :: "'a res \<Rightarrow> bool" where
  "ends_well q = (case q of Ok _ \<Rightarrow> True | Err e \<Rightarrow> is_closed e)"

lemma ends_well_simps [simp]: "ends_well (Ok x)" "ends_well (Err e) = (e = Closed)"
  by (simp_all add: ends_well_def)

definition round_keeps ::
  "('e, 'm, 'w) sink_ops \<Rightarrow> ('i, 's, 'w) input_ops \<Rightarrow> ('p, 'w) parent_ops \<Rightarrow> ('p list \<Rightarrow> 'w \<Rightarrow> bool) \<Rightarrow>
   ('p list \<Rightarrow> 'w \<Rightarrow> bool) \<Rightarrow> ('w \<Rightarrow> bool) \<Rightarrow> bool" where
  "round_keeps so io po G C R \<longleftrightarrow>
     (\<forall>ws w. C ws w \<longrightarrow> R w \<and> (\<forall>e. C ws (snd (op_close so e w)))) \<and>
     (\<forall>ws w. G ws w \<longrightarrow> C ws w \<and>
        (\<forall>e m. G ws (snd (op_try_push so e m w))) \<and>
        (\<forall>e m q w'. op_push so e m w = Some (q, w') \<longrightarrow> G ws w') \<and>
        G ws (snd (inp_poll io w)) \<and>
        (\<forall>q w'. inp_wait io w = Some (q, w') \<longrightarrow> G ws w') \<and>
        (\<forall>i<length ws. \<forall>q w'. pa_work po (ws ! i) w = Some (q, w') \<longrightarrow>
           R w' \<and> (is_ok q \<longrightarrow> G ws w') \<and> (q = Err Closed \<longrightarrow> G (swap_remove i ws) (pa_drop po (ws ! i) w'))) \<and>
        G (rotate1 ws) w)"

lemma round_keepsD:
  assumes "round_keeps so io po G C R" "G ws w"
  shows "C ws w" "op_try_push so e m w = (t, w1) \<Longrightarrow> G ws w1" "op_push so e m w = Some (q, w2) \<Longrightarrow> G ws w2"
    "R w" "inp_poll io w = (x, w4) \<Longrightarrow> G ws w4"
    "inp_wait io w = Some (q, w5) \<Longrightarrow> G ws w5"
    "pa_work po (ws ! i) w = Some (q, w6) \<Longrightarrow> i < length ws \<Longrightarrow> R w6"
    "pa_work po (ws ! i) w = Some (Ok u, w6) \<Longrightarrow> i < length ws \<Longrightarrow> G ws w6"
    "pa_work po (ws ! i) w = Some (Err Closed, w6) \<Longrightarrow> i < length ws \<Longrightarrow> G (swap_remove i ws) (pa_drop po (ws ! i) w6)"
    "G (rotate1 ws) w"
proof -
  have all: "C ws w \<and>
        (\<forall>e m. G ws (snd (op_try_push so e m w))) \<and>
        (\<forall>e m q w'. op_push so e m w = Some (q, w') \<longrightarrow> G ws w') \<and>
        G ws (snd (inp_poll io w)) \<and>
        (\<forall>q w'. inp_wait io w = Some (q, w') \<longrightarrow> G ws w') \<and>
        (\<forall>i<length ws. \<forall>q w'. pa_work po (ws ! i) w = Some (q, w') \<longrightarrow>
           R w' \<and> (is_ok q \<longrightarrow> G ws w') \<and> (q = Err Closed \<longrightarrow> G (swap_remove i ws) (pa_drop po (ws ! i) w'))) \<and>
        G (rotate1 ws) w"
    by (rule mp [OF spec [OF spec [OF conjunct2 [OF assms(1) [unfolded round_keeps_def]]]] assms(2)])
  from all show c: "C ws w" and "op_push so e m w = Some (q, w2) \<Longrightarrow> G ws w2" "inp_wait io w = Some (q, w5) \<Longrightarrow> G ws w5"
    "pa_work po (ws ! i) w = Some (q, w6) \<Longrightarrow> i < length ws \<Longrightarrow> R w6" "G (rotate1 ws) w"
    by blast+
  from assms(1) c show "R w" unfolding round_keeps_def by blast
  from all have t: "\<And>e m. G ws (snd (op_try_push so e m w))"
    and i: "G ws (snd (inp_poll io w))"
    and g: "\<And>i q w'. i < length ws \<Longrightarrow> pa_work po (ws ! i) w = Some (q, w') \<Longrightarrow>
      (is_ok q \<longrightarrow> G ws w') \<and> (q = Err Closed \<longrightarrow> G (swap_remove i ws) (pa_drop po (ws ! i) w'))"
    by blast+
  show "op_try_push so e m w = (t, w1) \<Longrightarrow> G ws w1" using t [of e m] by simp
  show "inp_poll io w = (x, w4) \<Longrightarrow> G ws w4" using i by simp
  show "pa_work po (ws ! i) w = Some (Ok u, w6) \<Longrightarrow> i < length ws \<Longrightarrow> G ws w6" using g by fastforce
  show "pa_work po (ws ! i) w = Some (Err Closed, w6) \<Longrightarrow> i < length ws \<Longrightarrow> G (swap_remove i ws) (pa_drop po (ws ! i) w6)"
    using g by blast
qed

lemma round_keeps_close:
  "round_keeps so io po G C R \<Longrightarrow> C ws w \<Longrightarrow> op_close so e w = (q, w') \<Longrightarrow> C ws w'"
  "round_keeps so io po G C R \<Longrightarrow> C ws w \<Longrightarrow> R w"
  unfolding round_keeps_def by (metis snd_conv, blast)

lemma work_each_loop_keeps:
  assumes k: "round_keeps so io po G C R"
  shows "work_each_loop po i ws w = Some (q, ws', w') \<Longrightarrow> G ws w \<Longrightarrow> R w' \<and> (is_ok q \<longrightarrow> G ws' w') \<and> q \<noteq> Err Closed"
proof (induction "length ws - i" arbitrary: i ws w rule: less_induct)
  case less
  note K = round_keepsD [OF k less.prems(2)]
  show ?case
  proof (cases "i < length ws")
    case False
    with less.prems K(4) show ?thesis by (auto simp: work_each_loop.simps [of po i ws w])
  next
    case True
    with less.prems obtain r w1 where p: "pa_work po (ws ! i) w = Some (r, w1)"
      by (subst (asm) work_each_loop.simps) (auto split: option.splits)
    show ?thesis
    proof (cases r)
      case (Ok u)
      with less.prems True p have "work_each_loop po (i + 1) ws w1 = Some (q, ws', w')"
        by (subst (asm) work_each_loop.simps) simp
      with less.hyps [of ws "i + 1" w1] True K(8) [OF p [unfolded Ok]] show ?thesis by simp
    next
      case (Err x)
      show ?thesis
      proof (cases "x = Closed")
        case c: True
        with less.prems True p Err
        have "work_each_loop po i (swap_remove i ws) (pa_drop po (ws ! i) w1) = Some (q, ws', w')"
          by (subst (asm) work_each_loop.simps) simp
        with less.hyps [of "swap_remove i ws" i "pa_drop po (ws ! i) w1"] True K(9) [OF p [unfolded Err c]]
        show ?thesis by simp
      next
        case False
        with less.prems True p Err have "w' = w1" "q = Err x"
          by (subst (asm) work_each_loop.simps, simp)+
        with K(7) [OF p True] False show ?thesis by simp
      qed
    qed
  qed
qed

lemma work_each_keeps:
  assumes k: "round_keeps so io po G C R" and w: "work_each po ws w = Some (q, ws', w')" and g: "G ws w"
  shows "R w' \<and> (is_ok q \<longrightarrow> G ws' w') \<and> q \<noteq> Err Closed"
proof -
  from w obtain q1 ws1 where l: "work_each_loop po 0 ws w = Some (q1, ws1, w')"
    and e: "is_ok q = is_ok q1" "q = Err Closed \<longrightarrow> q1 = Err Closed" "is_ok q \<longrightarrow> ws' = (if 1 < length ws1 then rotate1 ws1 else ws1)"
    by (auto simp: work_each_def split: option.splits result.splits)
  from work_each_loop_keeps [OF k l g] e round_keepsD(10) [OF k, of ws1 w'] show ?thesis by auto
qed

lemma rotate_edges_keeps:
  assumes v: "\<And>e m w q w1. op_try_push ops e m w = (q, w1) \<Longrightarrow> P w \<Longrightarrow> P w1"
  shows "rotate_edges ops i es m f w = (q, f', w') \<Longrightarrow> P w \<Longrightarrow> P w'"
proof (induction es arbitrary: i w)
  case Nil
  then show ?case by simp
next
  case (Cons e es)
  obtain r w1 where p: "op_try_push ops e m w = (r, w1)" by (cases "op_try_push ops e m w") auto
  with v Cons.prems(2) have "P w1" by blast
  with Cons.IH Cons.prems p show ?case
    by (cases es) (auto simp: suspend_def split: result.splits option.splits)
qed

lemma fanout_resume_keeps:
  assumes v: "\<And>e m w q w1. op_try_push ops e m w = (q, w1) \<Longrightarrow> P w \<Longrightarrow> P w1"
    and p: "\<And>e m w q w1. op_push ops e m w = Some (q, w1) \<Longrightarrow> P w \<Longrightarrow> P w1"
    and r: "fanout_resume ops f w = Some (q, f', w')" and w: "P w"
  shows "P w'"
proof (cases "f_suspended f")
  case None
  with r w show ?thesis by (simp add: fanout_resume_def)
next
  case (Some s)
  define f1 where "f1 = f\<lparr>f_suspended := None\<rparr>"
  have rest: "P w2" if "rotate_rest ops (sp_index s) (sp_rest s) f1 w1 = (q', f2, w2)" "P w1" for w1 q' f2 w2
    using that rotate_edges_keeps [of ops P, OF v]
    by (auto simp: rotate_rest_def rotate_from_def split: option.splits)
  show ?thesis
  proof (cases "fanout_edge (sp_index s) f1")
    case (Err x)
    with r w Some show ?thesis by (auto simp: fanout_resume_def f1_def)
  next
    case (Ok e)
    obtain t w1 where t: "op_try_push ops e (sp_refused s) w = (t, w1)"
      by (cases "op_try_push ops e (sp_refused s) w") auto
    with v w have "P w1" by blast
    with r w Some Ok t rest p show ?thesis
      by (auto simp: fanout_resume_def f1_def suspend_def Let_def
          split: result.splits try_push.splits option.splits prod.splits)
  qed
qed

lemma close_all_keeps:
  assumes v: "\<And>e w q w1. op_close ops e w = (q, w1) \<Longrightarrow> P w \<Longrightarrow> P w1"
  shows "close_all ops es r w = (q, w') \<Longrightarrow> P w \<Longrightarrow> P w'"
proof (induction es arbitrary: r w)
  case Nil
  then show ?case by simp
next
  case (Cons e es)
  obtain x w1 where p: "op_close ops e w = (x, w1)" by (cases "op_close ops e w") auto
  with v Cons.prems(2) have "P w1" by blast
  with Cons.IH Cons.prems p show ?case by (auto split: result.splits)
qed

lemma next_message_body_keeps:
  assumes k: "round_keeps so io po G C R" and g: "G ws w"
    and b: "next_message_body ro io po (r, ws, p, w) = Some x"
  shows "case x of Inl (r', ws', p', w') \<Rightarrow> G ws' w'
         | Inr (q, r', ws', p', w') \<Rightarrow> R w' \<and> (ends_well q \<longrightarrow> G ws' w')"
proof -
  obtain t w1 where i: "inp_poll io w = (t, w1)" by (cases "inp_poll io w") auto
  note K = round_keepsD [OF k g]
  have g1: "G ws w1" using K(5) [OF i] .
  note K1 = round_keepsD [OF k g1]
  have g2: "G ws w2" if "(if ws = [] then inp_wait io w1 else Some (Ok (), w1)) = Some (u, w2)" for u w2
    using that g1 K1(6) by (auto split: if_splits)
  have g3: "R w3 \<and> (is_ok q \<longrightarrow> G ws' w3) \<and> q \<noteq> Err Closed"
    if "(if ws = [] then inp_wait io w1 else Some (Ok (), w1)) = Some (u, w2)"
      "work_each po ws w2 = Some (q, ws', w3)" for u w2 q ws' w3
    using work_each_keeps [OF k that(2) g2 [OF that(1)]] .
  have R: "R v" if "G vs v" for vs v using round_keepsD(4) [OF k that] .
  obtain n r1 where n: "r_next ro r = (n, r1)" by (cases "r_next ro r") auto
  show ?thesis
  proof (cases "n = Ok None \<and> p = None \<and> t = Ok None")
    case False
    with b n i g g1 R show ?thesis
      by (auto simp: next_message_body_def Let_def split: result.splits option.splits prod.splits)
  next
    case True
    with b n i obtain u w2 where w: "(if ws = [] then inp_wait io w1 else Some (Ok (), w1)) = Some (u, w2)"
      by (auto simp: next_message_body_def Let_def split: option.splits)
    show ?thesis
    proof (cases u)
      case (Err e)
      with b n i w True g2 [OF w] R [OF g2 [OF w]] show ?thesis
        by (auto simp: next_message_body_def Let_def)
    next
      case (Ok v)
      with b n i w True obtain q ws' w3 where e: "work_each po ws w2 = Some (q, ws', w3)"
        by (auto simp: next_message_body_def Let_def split: option.splits)
      from b n i w True Ok e g3 [OF w e] show ?thesis
        by (auto simp: next_message_body_def Let_def split: result.splits)
    qed
  qed
qed

lemma next_message_keeps:
  fixes r r' :: 'r and ws ws' :: "'p list" and p p' :: "('o, 's) message option" and w w' :: 'w
  assumes k: "round_keeps so io po G C R"
    and n: "next_message ro io po (r, ws, p, w) = Some (q, r', ws', p', w')" and g: "G ws w"
  shows "R w' \<and> (ends_well q \<longrightarrow> G ws' w')"
proof -
  let ?P = "\<lambda>(r :: 'r, ws, p :: ('o, 's) message option, w). G ws w"
  let ?Q = "\<lambda>(q :: ('o, 's) message incoming res, r :: 'r, ws, p :: ('o, 's) message option, w).
      R w \<and> (ends_well q \<longrightarrow> G ws w)"
  have "?Q (q, r', ws', p', w')"
  proof (rule loop_invariant [where P = ?P and Q = ?Q, OF n [unfolded next_message_def]])
    show "?P (r, ws, p, w)" using g by simp
  next
    fix s s' assume "?P s" "next_message_body ro io po s = Some (Inl s')"
    with next_message_body_keeps [OF k] show "?P s'" by (cases s; cases s') fastforce
  next
    fix s b assume "?P s" "next_message_body ro io po s = Some (Inr b)"
    with next_message_body_keeps [OF k] show "?Q b" by (cases s; cases b) fastforce
  qed
  then show ?thesis by simp
qed

lemma line_work_keeps:
  assumes k: "round_keeps so io po G C R"
    and l: "line_work so ro io po ln w = Some (q, ln', w')" and g: "G (ln_workers ln) w"
  shows "R w' \<and> (is_ok q \<longrightarrow> G (ln_workers ln') w') \<and> (ends_well q \<longrightarrow> C (ln_workers ln') w')"
proof -
  have C: "C vs v" "R v" if "G vs v" for vs v using round_keepsD(1,4) [OF k that] .
  have tp: "op_try_push so e m v = (t, v1) \<Longrightarrow> G vs v \<Longrightarrow> G vs v1" for e m v t v1 vs
    using round_keepsD(2) [OF k] by blast
  have push: "op_push so e m v = Some (t, v1) \<Longrightarrow> G vs v \<Longrightarrow> G vs v1" for e m v t v1 vs
    using round_keepsD(3) [OF k] by blast
  note close = round_keeps_close [OF k]
  show ?thesis
  proof (cases "fanout_ready (ln_outputs ln)")
    case False
    with l obtain x f where r: "fanout_resume so (ln_outputs ln) w = Some (x, f, w')" "ln' = ln\<lparr>ln_outputs := f\<rparr>"
      by (auto simp: line_work_def split: option.splits result.splits)
    have "G (ln_workers ln) w'" by (rule fanout_resume_keeps [OF _ _ r(1)]) (use tp push g in blast)+
    with r(2) C show ?thesis by auto
  next
    case True
    with l obtain n r ws p w1 where
      n: "next_message ro io po (ln_worker ln, ln_workers ln, ln_pending ln, w) = Some (n, r, ws, p, w1)"
      by (auto simp: line_work_def split: option.splits prod.splits)
    note N = next_message_keeps [OF k n g]
    show ?thesis
    proof (cases n)
      case (Err e)
      with l True n N C show ?thesis by (auto simp: line_work_def Let_def)
    next
      case (Ok i)
      with N have g1: "G ws w1" by simp
      show ?thesis
      proof (cases i)
        case (IMessage m)
        obtain x f w2 where u: "ready_push so m (ln_outputs ln) w1 = (x, f, w2)"
          by (cases "ready_push so m (ln_outputs ln) w1") auto
        have "G ws w2"
          by (rule rotate_edges_keeps [OF _ u [unfolded ready_push_def rotate_from_def]]) (use tp g1 in blast)+
        moreover from l True n Ok IMessage u have "w' = w2 \<and> ln_workers ln' = ws"
          by (auto simp: line_work_def Let_def split: result.splits)
        ultimately show ?thesis using C by auto
      next
        case IClosed
        obtain x w2 where c: "close_all so (f_edges (ln_outputs ln)) (Ok ()) w1 = (x, w2)"
          by (cases "close_all so (f_edges (ln_outputs ln)) (Ok ()) w1") auto
        have "C ws w2" by (rule close_all_keeps [OF _ c]) (use close C g1 in blast)+
        with l True n Ok IClosed c close(2) show ?thesis by (auto simp: line_work_def Let_def fanout_close_def)
      qed
    qed
  qed
qed

section \<open>A round that may fail\<close>

text \<open>Whatever a round returns, what the edge took is a prefix of what the routine makes of a prefix of what was
  consumed: an error loses messages behind the ones delivered, it never invents or reorders any.\<close>

definition leads_to ::
  "('i, 'o, 'r) routine_ops \<Rightarrow> 'r \<Rightarrow> ('o, 's) message option \<Rightarrow> ('i, 's) message list \<Rightarrow> ('o, 's) message list \<Rightarrow> bool" where
  "leads_to ro r p is taken \<longleftrightarrow>
     (\<exists>n os r1 p1. transduces (r_next ro) (line_accept ro) r p (take n is) os r1 p1 \<and> prefix taken os)"

lemma leads_to_rest: "leads_to ro r p is []"
  unfolding leads_to_def by (rule exI [of _ 0]) (auto intro: transduces.rest)

lemma leads_to_mono: "leads_to ro r p is taken \<Longrightarrow> prefix taken' taken \<Longrightarrow> leads_to ro r p (is @ js) taken'"
proof -
  assume "leads_to ro r p is taken" and t: "prefix taken' taken"
  then obtain n os r1 p1 where "transduces (r_next ro) (line_accept ro) r p (take n is) os r1 p1" "prefix taken os"
    unfolding leads_to_def by blast
  moreover have "take n is = take (min n (length is)) (is @ js)" by (simp add: min_def)
  ultimately show ?thesis using t unfolding leads_to_def by (metis prefix_order.trans)
qed

lemma leads_to_transduces:
  "transduces (r_next ro) (line_accept ro) r p is os r1 p1 \<Longrightarrow> prefix taken os \<Longrightarrow> leads_to ro r p is taken"
  unfolding leads_to_def by (rule exI [of _ "length is"]) auto

lemma leads_to_append:
  assumes "transduces (r_next ro) (line_accept ro) r p is os r1 p1" "leads_to ro r1 p1 is2 taken"
  shows "leads_to ro r p (is @ is2) (os @ taken)"
proof -
  from assms(2) obtain n os2 r2 p2 where
    t: "transduces (r_next ro) (line_accept ro) r1 p1 (take n is2) os2 r2 p2" "prefix taken os2"
    unfolding leads_to_def by blast
  have "take (length is + n) (is @ is2) = is @ take n is2" by simp
  with transduces_append [OF assms(1) t(1)] t(2) show ?thesis
    unfolding leads_to_def by (metis same_prefix_prefix)
qed

context node_world
begin

lemma next_message_body_fails:
  assumes "next_message_body ro io po (r, ws, p, w) = Some (Inr (Err x, (r', ws', p', w')))"
  shows "\<exists>ms. recv w' = recv w @ ms \<and> (\<forall>e. took e w' = took e w)"
proof -
  from assms consider "w' = w"
    | m where "inp_poll io w = (Ok (Some m), w')"
    | y where "inp_poll io w = (Err y, w')"
    | w1 u w2 where "inp_poll io w = (Ok None, w1)"
        "(if ws = [] then inp_wait io w1 else Some (Ok (), w1)) = Some (u, w2)"
        "w' = w2 \<or> work_each po ws w2 = Some (Err x, ws', w')"
    by (auto simp: next_message_body_def Let_def split: prod.splits result.splits option.splits if_splits)
  then show ?thesis
  proof cases
    case 1
    then show ?thesis by simp
  next
    case 2
    then show ?thesis using poll_some poll_took by blast
  next
    case 3
    then show ?thesis using poll_other [of w "Err y" w'] poll_took by auto
  next
    case 4
    have "recv w1 = recv w \<and> took e w1 = took e w" for e
      using 4(1) poll_other [of w "Ok None" w1] poll_took by auto
    moreover have "recv w2 = recv w1 \<and> took e w2 = took e w1" for e
      using 4(2) wait_frame by (auto split: if_splits)
    moreover have "recv w' = recv w2 \<and> took e w' = took e w2" for e using work_each_frame 4(3) by blast
    ultimately show ?thesis by simp
  qed
qed

lemma next_message_fails:
  fixes r r' :: 'r and ws ws' :: "'p list" and p p' :: "('o, 's) message option" and w w' :: 'w
  assumes l: "next_message ro io po (r, ws, p, w) = Some (Err x, (r', ws', p', w'))"
  shows "\<exists>ms. recv w' = recv w @ ms \<and> (\<forall>e. took e w' = took e w)"
proof -
  let ?P = "\<lambda>(r :: 'r, ws :: 'p list, p :: ('o, 's) message option, v).
      \<exists>ms. recv v = recv w @ ms \<and> (\<forall>e. took e v = took e w)"
  let ?Q = "\<lambda>(q :: ('o, 's) message incoming res, r :: 'r, ws :: 'p list, p :: ('o, 's) message option, v).
      \<forall>x. q = Err x \<longrightarrow> (\<exists>ms. recv v = recv w @ ms \<and> (\<forall>e. took e v = took e w))"
  have "?Q (Err x, r', ws', p', w')"
  proof (rule loop_invariant [where P = ?P and Q = ?Q, OF l [unfolded next_message_def]])
    show "?P (r, ws, p, w)" by simp
  next
    fix s s' assume P: "?P s" and b: "next_message_body ro io po s = Some (Inl s')"
    obtain r ws p v r' ws' p' v' where s: "s = (r, ws, p, v)" "s' = (r', ws', p', v')" by (cases s; cases s') auto
    from next_message_body_step [OF b [unfolded s]] P s show "?P s'" by fastforce
  next
    fix s b assume P: "?P s" and b: "next_message_body ro io po s = Some (Inr b)"
    obtain r ws p v q r' ws' p' v' where s: "s = (r, ws, p, v)" "b = (q, r', ws', p', v')" by (cases s; cases b) auto
    show "?Q b"
    proof (cases q)
      case (Ok y)
      with s show ?thesis by simp
    next
      case (Err y)
      with next_message_body_fails [OF b [unfolded s Err]] P s show ?thesis by fastforce
    qed
  qed
  then show ?thesis by blast
qed

lemma resume_prefix:
  assumes ok: "fanout_ok f" and e: "f_edges f = [e]" and r: "fanout_resume so f w = Some (q, f', w')"
  shows "prefix (took e w') (took e w @ fanout_due f 0)"
proof (cases "f_suspended f")
  case None
  with r show ?thesis by (simp add: fanout_resume_def)
next
  case (Some s)
  with ok e have s: "sp_index s = 0" "sp_rest s = None" by (auto simp: fanout_ok_def split: option.splits)
  then have due: "fanout_due f 0 = [sp_refused s]" by (simp add: fanout_due_def Some)
  obtain t w1 where t: "op_try_push so e (sp_refused s) w = (t, w1)"
    by (cases "op_try_push so e (sp_refused s) w") auto
  note T = try_took [OF t, of e]
  show ?thesis
  proof (cases "\<exists>m. t = Ok (Stuck m)")
    case False
    with r Some s e t have "w' = w1"
      by (auto simp: fanout_resume_def fanout_edge_def rotate_rest_def suspend_def Let_def
          split: result.splits try_push.splits)
    with T due show ?thesis by (auto split: if_splits)
  next
    case True
    then obtain m where m: "t = Ok (Stuck m)" by blast
    with try_hands_back [OF t [unfolded m]] have "m = sp_refused s" by simp
    with r Some s e t m obtain q1 where "op_push so e (sp_refused s) w1 = Some (q1, w')"
      by (auto simp: fanout_resume_def fanout_edge_def rotate_rest_def Let_def split: result.splits option.splits)
    from push_took [OF this, of e] T due m show ?thesis by (auto split: if_splits)
  qed
qed

lemma line_work_leads:
  assumes ok: "fanout_ok (ln_outputs ln)" and e: "f_edges (ln_outputs ln) = [e]"
    and l: "line_work so ro io po ln w = Some (q, ln', w')"
    and close: "\<And>e w q w'. op_close so e w = (q, w') \<Longrightarrow> recv w' = recv w \<and> (\<forall>e'. took e' w' = took e' w)"
    and t: "transduces (r_next ro) (line_accept ro) r0 p0 (recv w) (took e w @ fanout_due (ln_outputs ln) 0)
      (ln_worker ln) (ln_pending ln)"
  shows "leads_to ro r0 p0 (recv w') (took e w')"
proof (cases "fanout_ready (ln_outputs ln)")
  case False
  with l obtain x f where r: "fanout_resume so (ln_outputs ln) w = Some (x, f, w')"
    by (auto simp: line_work_def split: option.splits result.splits)
  from resume_prefix [OF ok e r] fanout_resume_recv [OF r] leads_to_transduces [OF t] show ?thesis by simp
next
  case True
  then have due: "fanout_due (ln_outputs ln) 0 = []" by (simp add: fanout_ready_def fanout_due_def)
  from l True obtain n r ws p w1 where
    n: "next_message ro io po (ln_worker ln, ln_workers ln, ln_pending ln, w) = Some (n, r, ws, p, w1)"
    by (auto simp: line_work_def split: option.splits prod.splits)
  show ?thesis
  proof (cases n)
    case (Err x)
    with l True n have "w' = w1" by (simp add: line_work_def Let_def)
    with next_message_fails [OF n [unfolded Err]] leads_to_mono [OF leads_to_transduces [OF t]] due
    show ?thesis by fastforce
  next
    case (Ok i)
    from next_message_transduces [OF n [unfolded Ok]] obtain ms where
      m: "recv w1 = recv w @ ms" "\<forall>e. took e w1 = took e w"
        "transduces (r_next ro) (line_accept ro) (ln_worker ln) (ln_pending ln) ms (found i) r p" by auto
    have "transduces (r_next ro) (line_accept ro) r0 p0 (recv w1) (took e w @ found i) r p"
      using transduces_append [OF t m(3)] m(1) due by simp
    moreover have "recv w' = recv w1 \<and> prefix (took e w') (took e w @ found i)"
    proof (cases i)
      case IClosed
      obtain x w2 where c: "close_all so (f_edges (ln_outputs ln)) (Ok ()) w1 = (x, w2)"
        by (cases "close_all so (f_edges (ln_outputs ln)) (Ok ()) w1") auto
      have "recv w2 = recv w1 \<and> took e w2 = took e w1"
        by (rule close_all_keeps [OF _ c]) (use close in fastforce)+
      with l True n Ok IClosed c m(2) show ?thesis by (auto simp: line_work_def Let_def fanout_close_def)
    next
      case (IMessage y)
      obtain x f w2 where u: "op_try_push so e y w1 = (x, w2)" by (cases "op_try_push so e y w1") auto
      with l True n Ok IMessage e have "w' = w2"
        by (auto simp: line_work_def Let_def ready_push_def rotate_from_def suspend_def split: result.splits option.splits)
      with try_took [OF u, of e] try_recv [OF u] m(2) IMessage show ?thesis by (auto split: if_splits)
    qed
    ultimately show ?thesis using leads_to_transduces by metis
  qed
qed

end

section \<open>The round that ends a line\<close>

lemma rotate_edges_open:
  assumes keep: "\<And>e m w q w1. op_try_push ops e m w = (q, w1) \<Longrightarrow> P w \<Longrightarrow> P w1"
    and opn: "\<And>e m w. P w \<Longrightarrow> fst (op_try_push ops e m w) \<noteq> Err Closed"
  shows "rotate_edges ops i es m f w = (q, f', w') \<Longrightarrow> P w \<Longrightarrow> q \<noteq> Err Closed"
proof (induction es arbitrary: i w)
  case Nil
  then show ?case by auto
next
  case (Cons e es)
  obtain r w1 where p: "op_try_push ops e m w = (r, w1)" by (cases "op_try_push ops e m w") auto
  with keep Cons.prems(2) have "P w1" by blast
  moreover have "r \<noteq> Err Closed" using opn [OF Cons.prems(2), of e m] p by simp
  ultimately show ?case
    using Cons.IH Cons.prems p by (cases es) (auto simp: suspend_def split: result.splits option.splits)
qed

lemma fanout_resume_open:
  assumes keep: "\<And>e m w q w1. op_try_push ops e m w = (q, w1) \<Longrightarrow> P w \<Longrightarrow> P w1"
    and keep_push: "\<And>e m w q w1. op_push ops e m w = Some (q, w1) \<Longrightarrow> P w \<Longrightarrow> P w1"
    and opn: "\<And>e m w. P w \<Longrightarrow> fst (op_try_push ops e m w) \<noteq> Err Closed"
    and push: "\<And>e m w w'. P w \<Longrightarrow> op_push ops e m w \<noteq> Some (Err Closed, w')"
    and r: "fanout_resume ops f w = Some (q, f', w')" and w: "P w"
  shows "q \<noteq> Err Closed"
proof (cases "f_suspended f")
  case None
  with r show ?thesis by (auto simp: fanout_resume_def)
next
  case (Some s)
  define f1 where "f1 = f\<lparr>f_suspended := None\<rparr>"
  have rest: "q' \<noteq> Err Closed" if "rotate_rest ops (sp_index s) (sp_rest s) f1 w1 = (q', f2, w2)" "P w1" for w1 q' f2 w2
    using that rotate_edges_open [of ops P, OF keep opn]
    by (auto simp: rotate_rest_def rotate_from_def split: option.splits)
  show ?thesis
  proof (cases "fanout_edge (sp_index s) f1")
    case (Err x)
    with r Some show ?thesis by (auto simp: fanout_resume_def f1_def fanout_edge_def missing_edge_def split: if_splits)
  next
    case (Ok e)
    obtain t w1 where t: "op_try_push ops e (sp_refused s) w = (t, w1)"
      by (cases "op_try_push ops e (sp_refused s) w") auto
    have w1: "P w1" using keep [OF t w] .
    have t': "t \<noteq> Err Closed" using opn [OF w, of e "sp_refused s"] t by simp
    have push': "q' \<noteq> Err Closed \<and> P w2" if "op_push ops e m w1 = Some (q', w2)" for m q' w2
      using push [OF w1] keep_push [OF _ w1] that by auto
    have no: "op_push ops e m w1 \<noteq> Some (Err Closed, w2)" for m w2 using push [OF w1] .
    from r Some Ok t t' w1 rest push' no show ?thesis
      by (auto simp: fanout_resume_def f1_def suspend_def Let_def
          split: result.splits try_push.splits option.splits prod.splits)
  qed
qed

text \<open>With open outputs, the round that ends the line is one whose input is at its end, or whose routine reported
  \<open>Closed\<close> itself; parents that are closed do not end it.\<close>

lemma line_work_closed:
  assumes k: "round_keeps so io po G C R" and g: "G (ln_workers ln) w"
    and open_try: "\<And>ws w e m. G ws w \<Longrightarrow> fst (op_try_push so e m w) \<noteq> Err Closed"
    and open_push: "\<And>ws w e m w'. G ws w \<Longrightarrow> op_push so e m w \<noteq> Some (Err Closed, w')"
    and l: "line_work so ro io po ln w = Some (Err Closed, ln', w')"
  shows "fanout_ready (ln_outputs ln) \<and>
    (\<exists>n w1. next_message ro io po (ln_worker ln, ln_workers ln, ln_pending ln, w) =
        Some (n, ln_worker ln', ln_workers ln', ln_pending ln', w1) \<and> G (ln_workers ln') w1 \<and>
      (n = Ok IClosed \<and> (\<exists>x. close_all so (f_edges (ln_outputs ln)) (Ok ()) w1 = (x, w')) \<or> n = Err Closed \<and> w' = w1))"
proof -
  have keep: "op_try_push so e m v = (t, v1) \<Longrightarrow> G vs v \<Longrightarrow> G vs v1" for e m v t v1 vs
    using round_keepsD(2) [OF k] by blast
  have keep_push: "op_push so e m v = Some (t, v1) \<Longrightarrow> G vs v \<Longrightarrow> G vs v1" for e m v t v1 vs
    using round_keepsD(3) [OF k] by blast
  have ready: "fanout_ready (ln_outputs ln)"
  proof (rule ccontr)
    assume "\<not> fanout_ready (ln_outputs ln)"
    with l obtain f where r: "fanout_resume so (ln_outputs ln) w = Some (Err Closed, f, w')"
      by (auto simp: line_work_def split: option.splits result.splits)
    have "(Err Closed :: rotation res) \<noteq> Err Closed"
      by (rule fanout_resume_open [where P = "G (ln_workers ln)", OF _ _ _ _ r g])
        (fact keep keep_push open_try open_push)+
    then show False by simp
  qed
  with l obtain n r ws p w1 where
    n: "next_message ro io po (ln_worker ln, ln_workers ln, ln_pending ln, w) = Some (n, r, ws, p, w1)"
    by (auto simp: line_work_def split: option.splits prod.splits)
  show ?thesis
  proof (cases n)
    case (Err e)
    with l ready n have "e = Closed" "w' = w1" "ln' = ln\<lparr>ln_worker := r, ln_workers := ws, ln_pending := p\<rparr>"
      by (auto simp: line_work_def Let_def)
    with next_message_keeps [OF k n g] Err n ready show ?thesis by simp
  next
    case (Ok i)
    with next_message_keeps [OF k n g] have g1: "G ws w1" by simp
    show ?thesis
    proof (cases i)
      case (IMessage m)
      obtain x f w2 where u: "ready_push so m (ln_outputs ln) w1 = (x, f, w2)"
        by (cases "ready_push so m (ln_outputs ln) w1") auto
      have "x \<noteq> Err Closed"
        by (rule rotate_edges_open [where P = "G ws", OF _ _ u [unfolded ready_push_def rotate_from_def] g1])
          (fact keep open_try)+
      with l ready n Ok IMessage u show ?thesis by (auto simp: line_work_def Let_def split: result.splits)
    next
      case IClosed
      with l ready n Ok g1 show ?thesis
        by (auto simp: line_work_def Let_def fanout_close_def split: prod.splits)
    qed
  qed
qed

text \<open>A routine in state \<open>r\<close>, owing \<open>p\<close>, reports \<open>Closed\<close>: asked for output, or given the message in \<open>ms\<close>.\<close>

definition reports_closed ::
  "('i, 'o, 'r) routine_ops \<Rightarrow> 'r \<Rightarrow> ('o, 's) message option \<Rightarrow> ('i, 's) message list \<Rightarrow> bool" where
  "reports_closed ro r p ms =
     (case ms of
        [] \<Rightarrow> fst (r_next ro r) = Err Closed
      | m # ns \<Rightarrow>
          ns = [] \<and> p = None \<and> fst (r_next ro r) = Ok None \<and>
          fst (line_accept ro m (snd (r_next ro r)) :: ('o, 's) message option res \<times> 'r) = Err Closed)"

context node_world
begin

text \<open>It has consumed all it was given, and its routine has nothing more.\<close>

lemma next_message_closes:
  fixes r r' :: 'r and ws ws' :: "'p list" and p p' :: "('o, 's) message option" and w w' :: 'w
  assumes l: "next_message ro io po (r, ws, p, w) = Some (Ok IClosed, (r', ws', p', w'))"
    and poll: "\<And>v x v'. inp_poll io v = (Err x, v') \<Longrightarrow> D v'"
    and wait: "\<And>v x v'. inp_wait io v = Some (Err x, v') \<Longrightarrow> D v'"
  shows "D w' \<and> p' = None \<and> (\<forall>e. took e w' = took e w) \<and>
     (\<exists>ms r1. recv w' = recv w @ ms \<and> transduces (r_next ro) (line_accept ro) r p ms [] r1 None \<and> r_next ro r1 = (Ok None, r'))"
proof -
  let ?P = "\<lambda>(r1 :: 'r, ws :: 'p list, p1 :: ('o, 's) message option, v).
      (\<forall>e. took e v = took e w) \<and> (\<exists>ms. recv v = recv w @ ms \<and> transduces (r_next ro) (line_accept ro) r p ms [] r1 p1)"
  let ?Q = "\<lambda>(q :: ('o, 's) message incoming res, r2 :: 'r, ws :: 'p list, p2 :: ('o, 's) message option, v).
      q = Ok IClosed \<longrightarrow> D v \<and> p2 = None \<and> (\<forall>e. took e v = took e w) \<and>
       (\<exists>ms r1. recv v = recv w @ ms \<and> transduces (r_next ro) (line_accept ro) r p ms [] r1 None \<and> r_next ro r1 = (Ok None, r2))"
  have "?Q (Ok IClosed, r', ws', p', w')"
  proof (rule loop_invariant [where P = ?P and Q = ?Q, OF l [unfolded next_message_def]])
    show "?P (r, ws, p, w)" by (auto intro: transduces.rest)
  next
    fix s s' assume P: "?P s" and b: "next_message_body ro io po s = Some (Inl s')"
    obtain r1 ws p1 v r' ws' p' v' where s: "s = (r1, ws, p1, v)" "s' = (r', ws', p', v')" by (cases s; cases s') auto
    from P s obtain ms where t: "recv v = recv w @ ms" "transduces (r_next ro) (line_accept ro) r p ms [] r1 p1"
      "\<forall>e. took e v = took e w" by auto
    from next_message_body_step [OF b [unfolded s]] obtain ms2 where
      t2: "recv v' = recv v @ ms2" "\<forall>e. took e v' = took e v"
        "transduces (r_next ro) (line_accept ro) r1 p1 ms2 [] r' p'" by blast
    from transduces_append [OF t(2) t2(3)] t t2 s show "?P s'" by auto
  next
    fix s b assume P: "?P s" and b: "next_message_body ro io po s = Some (Inr b)"
    obtain r1 ws p1 v q r' ws' p' v' where s: "s = (r1, ws, p1, v)" "b = (q, r', ws', p', v')" by (cases s; cases b) auto
    show "?Q b"
    proof (cases "q = Ok IClosed")
      case False
      with s show ?thesis by simp
    next
      case True
      with b s have b': "next_message_body ro io po (r1, ws, p1, v) = Some (Inr (Ok IClosed, r', ws', p', v'))" by simp
      then have "D v' \<and> p1 = None \<and> p' = None \<and> r_next ro r1 = (Ok None, r')"
        using poll wait
        by (auto simp: next_message_body_def Let_def split: prod.splits result.splits option.splits if_splits)
      with next_message_body_exit [OF b'] P s show ?thesis by auto
    qed
  qed
  then show ?thesis by simp
qed

text \<open>A round that ends with \<open>Closed\<close> though the input is not at its end ends where the routine reported it.\<close>

lemma next_message_gives_up:
  fixes r r' :: 'r and ws ws' :: "'p list" and p p' :: "('o, 's) message option" and w w' :: 'w
  assumes k: "round_keeps so io po G C R" and g: "G ws w"
    and l: "next_message ro io po (r, ws, p, w) = Some (Err Closed, (r', ws', p', w'))"
  shows "(\<forall>e. took e w' = took e w) \<and>
     (\<exists>ms m r1 p1. recv w' = recv w @ ms @ m \<and> transduces (r_next ro) (line_accept ro) r p ms [] r1 p1 \<and> reports_closed ro r1 p1 m)"
proof -
  let ?run = "\<lambda>v r1 p1. (\<forall>e. took e v = took e w) \<and>
      (\<exists>ms. recv v = recv w @ ms \<and> transduces (r_next ro) (line_accept ro) r p ms [] r1 p1)"
  let ?P = "\<lambda>(r1 :: 'r, ws :: 'p list, p1 :: ('o, 's) message option, v). G ws v \<and> ?run v r1 p1"
  let ?over = "\<lambda>v. (\<forall>e. took e v = took e w) \<and> (\<exists>ms m r1 p1. recv v = recv w @ ms @ m \<and>
      transduces (r_next ro) (line_accept ro) r p ms [] r1 p1 \<and> reports_closed ro r1 p1 m)"
  let ?Q = "\<lambda>(q :: ('o, 's) message incoming res, r2 :: 'r, ws :: 'p list, p2 :: ('o, 's) message option, v). q = Err Closed \<longrightarrow> ?over v"
  have "?Q (Err Closed, r', ws', p', w')"
  proof (rule loop_invariant [where P = ?P and Q = ?Q, OF l [unfolded next_message_def]])
    show "?P (r, ws, p, w)" using g by (auto intro: transduces.rest)
  next
    fix s s' assume P: "?P s" and b: "next_message_body ro io po s = Some (Inl s')"
    obtain r1 ws p1 v r' ws' p' v' where s: "s = (r1, ws, p1, v)" "s' = (r', ws', p', v')" by (cases s; cases s') auto
    from P s obtain ms where t: "recv v = recv w @ ms" "transduces (r_next ro) (line_accept ro) r p ms [] r1 p1"
      "\<forall>e. took e v = took e w" "G ws v" by auto
    from next_message_body_step [OF b [unfolded s]] obtain ms2 where
      t2: "recv v' = recv v @ ms2" "\<forall>e. took e v' = took e v"
        "transduces (r_next ro) (line_accept ro) r1 p1 ms2 [] r' p'" by blast
    have "G ws' v'" using next_message_body_keeps [OF k t(4) b [unfolded s(1)]] s by simp
    with transduces_append [OF t(2) t2(3)] t t2 s show "?P s'" by auto
  next
    fix s b assume P: "?P s" and b: "next_message_body ro io po s = Some (Inr b)"
    obtain r1 ws p1 v q r' ws' p' v' where s: "s = (r1, ws, p1, v)" "b = (q, r', ws', p', v')" by (cases s; cases b) auto
    show "?Q b"
    proof (cases "q = Err Closed")
      case False
      with s show ?thesis by simp
    next
      case True
      from P s obtain ms where t: "recv v = recv w @ ms" "transduces (r_next ro) (line_accept ro) r p ms [] r1 p1"
        "\<forall>e. took e v = took e w" and gv: "G ws v" by auto
      have each: "q' \<noteq> Err Closed"
        if "inp_poll io v = (t1, w1)" "(if ws = [] then inp_wait io w1 else Some (Ok (), w1)) = Some (u, w2)"
          "work_each po ws w2 = Some (q', ws2, w3)" for t1 w1 u w2 q' ws2 w3
      proof -
        have "G ws w1" using round_keepsD(5) [OF k gv that(1)] .
        then have "G ws w2" using that(2) round_keepsD(6) [OF k, of ws w1] by (auto split: if_splits)
        from work_each_keeps [OF k that(3) this] show ?thesis by simp
      qed
      from b s True consider "fst (r_next ro r1) = Err Closed" "v' = v"
        | m where "fst (r_next ro r1) = Ok None" "p1 = None" "inp_poll io v = (Ok (Some m), v')"
            "fst (line_accept ro m (snd (r_next ro r1)) :: ('o, 's) message option res \<times> 'r) = Err Closed"
        by (auto simp: next_message_body_def Let_def
            split: prod.splits result.splits option.splits if_splits dest: each)
      then have "?over v'"
      proof cases
        case 1
        then have "reports_closed ro r1 p1 []" by (simp add: reports_closed_def)
        with t 1 show ?thesis by (metis append.right_neutral)
      next
        case 2
        then have "reports_closed ro r1 p1 [m]" by (simp add: reports_closed_def)
        moreover have "recv v' = recv w @ ms @ [m]" "took e v' = took e w" for e
          using poll_some [OF 2(3)] poll_took [OF 2(3)] t by auto
        ultimately show ?thesis using t(2) by blast
      qed
      with s show ?thesis by simp
    qed
  qed
  then show ?thesis by simp
qed

end

end
