(* ===== verification/Pipeline.thy ===== *)
theory Pipeline
  imports Work_Round
begin

text \<open>
  The front ends of work nodes, and a pipeline between them on one thread: a writer
  (src/writer/push.rs), any number of lines each owned by the next (\<open>via\<close>, src/work/via.rs), and a reader
  that owns the last one and works it until its buffer has something (src/reader/work/reader.rs). Stage \<open>k\<close>
  reads edge \<open>k\<close> and writes edge \<open>k + 1\<close>; all edges carry one data type.
\<close>

section \<open>The world of a pipeline\<close>

text \<open>\<open>pp_took\<close> records what an edge accepted, \<open>pp_recv\<close> what it handed over, \<open>pp_gone\<close> the stages dropped.\<close>

record ('d, 's, 'r) pipe =
  pp_line :: "nat \<Rightarrow> ('d, 's, 'r, nat, unit) line"
  pp_edge :: "nat \<Rightarrow> ('d, 's) shared"
  pp_tx :: "nat \<Rightarrow> sender"
  pp_took :: "nat \<Rightarrow> ('d, 's) message list"
  pp_recv :: "nat \<Rightarrow> ('d, 's) message list"
  pp_gone :: "nat list"

definition note_took :: "nat \<Rightarrow> ('d, 's) message \<Rightarrow> ('d, 's, 'r) pipe \<Rightarrow> ('d, 's, 'r) pipe" where
  "note_took n m w = w\<lparr>pp_took := (pp_took w)(n := pp_took w n @ [m])\<rparr>"

text \<open>The one sender of edge \<open>n\<close>. Nothing else runs while a push or a wait blocks.\<close>

definition edge_sink :: "nat \<Rightarrow> (unit, ('d, 's) message, ('d, 's, 'r) pipe) sink_ops" where
  "edge_sink n =
     \<lparr>op_try_push = (\<lambda>_ m w.
        let (q, tx, sh, _) = try_push_back m (pp_tx w n) (pp_edge w n);
            w1 = w\<lparr>pp_tx := (pp_tx w)(n := tx), pp_edge := (pp_edge w)(n := sh)\<rparr>
        in (q, if q = Ok Pushed then note_took n m w1 else w1)),
      op_push = (\<lambda>_ m w.
        case push_back (\<lambda>_. None) (pp_tx w n) m (pp_edge w n, ()) of
          None \<Rightarrow> None
        | Some (q, (sh, _), _) \<Rightarrow>
            (let w1 = w\<lparr>pp_edge := (pp_edge w)(n := sh)\<rparr> in Some (q, if is_ok q then note_took n m w1 else w1))),
      op_close = (\<lambda>_ w.
        let (q, tx, sh, _) = sender_close (pp_tx w n) (pp_edge w n)
        in (q, w\<lparr>pp_tx := (pp_tx w)(n := tx), pp_edge := (pp_edge w)(n := sh)\<rparr>)),
      op_schedule = (\<lambda>v _ w. w\<lparr>pp_tx := (pp_tx w)(n := sender_schedule v (pp_tx w n))\<rparr>)\<rparr>"

definition edge_input :: "nat \<Rightarrow> ('d, 's, ('d, 's, 'r) pipe) input_ops" where
  "edge_input n =
     \<lparr>inp_poll = (\<lambda>w. let (q, sh, _) = receiver_poll (pp_edge w n)
                      in (q, w\<lparr>pp_edge := (pp_edge w)(n := sh), pp_recv := (pp_recv w)(n := pp_recv w n @ popped q)\<rparr>)),
      inp_wait = (\<lambda>w. case wait_front (\<lambda>_. None) (pp_edge w n, ()) of
                       None \<Rightarrow> None
                     | Some (q, sh, _) \<Rightarrow> Some (q, w\<lparr>pp_edge := (pp_edge w)(n := sh)\<rparr>))\<rparr>"

text \<open>A dropped line drops its parents, its sender and its receiver.\<close>

definition drop_line :: "nat \<Rightarrow> ('d, 's, 'r) pipe \<Rightarrow> ('d, 's, 'r) pipe" where
  "drop_line k w =
     (let w1 = w\<lparr>pp_edge := (pp_edge w)(Suc k := fst (sender_drop (pp_tx w (Suc k)) (pp_edge w (Suc k))))\<rparr>
      in w1\<lparr>pp_edge := (pp_edge w1)(k := fst (receiver_drop (pp_edge w1 k))), pp_gone := k # pp_gone w1\<rparr>)"

fun drop_stage :: "nat \<Rightarrow> ('d, 's, 'r) pipe \<Rightarrow> ('d, 's, 'r) pipe" where
  "drop_stage 0 w = drop_line 0 w"
| "drop_stage (Suc k) w = drop_line (Suc k) (if ln_workers (pp_line w (Suc k)) = [] then w else drop_stage k w)"

definition stage_parents ::
  "(('d, 's, 'r) pipe \<Rightarrow> (unit res \<times> ('d, 's, 'r) pipe) option) \<Rightarrow> (nat, ('d, 's, 'r) pipe) parent_ops" where
  "stage_parents up = \<lparr>pa_work = (\<lambda>p w. up w), pa_drop = drop_stage\<rparr>"

definition run_stage ::
  "(nat \<Rightarrow> ('d, 'd, 'r) routine_ops) \<Rightarrow> nat \<Rightarrow> (('d, 's, 'r) pipe \<Rightarrow> (unit res \<times> ('d, 's, 'r) pipe) option) \<Rightarrow>
   ('d, 's, 'r) pipe \<Rightarrow> (unit res \<times> ('d, 's, 'r) pipe) option" where
  "run_stage ro k up w =
     (case line_work (edge_sink (Suc k)) (ro k) (edge_input k) (stage_parents up) (pp_line w k) w of
        None \<Rightarrow> None
      | Some (q, ln, w') \<Rightarrow> Some (q, w'\<lparr>pp_line := (pp_line w')(k := ln)\<rparr>))"

text \<open>\<open>Workable::work\<close> of stage \<open>k\<close>; the first has no parent.\<close>

fun stage_work ::
  "(nat \<Rightarrow> ('d, 'd, 'r) routine_ops) \<Rightarrow> nat \<Rightarrow> ('d, 's, 'r) pipe \<Rightarrow> (unit res \<times> ('d, 's, 'r) pipe) option" where
  "stage_work ro 0 w = run_stage ro 0 (\<lambda>_. None) w"
| "stage_work ro (Suc k) w = run_stage ro (Suc k) (\<lambda>v. stage_work ro k v) w"

section \<open>Front ends\<close>

text \<open>The writer tries first, so that a wait is logged.\<close>

definition writer_try_push ::
  "('e, 'm, 'w) sink_ops \<Rightarrow> 'e \<Rightarrow> 'm \<Rightarrow> 'w \<Rightarrow> 'm try_push res \<times> 'w" where
  "writer_try_push so e m w = op_try_push so e m w"

definition writer_push :: "('e, 'm, 'w) sink_ops \<Rightarrow> 'e \<Rightarrow> 'm \<Rightarrow> 'w \<Rightarrow> (unit res \<times> 'w) option" where
  "writer_push so e m w =
     (case op_try_push so e m w of
        (Err x, w1) \<Rightarrow> Some (Err x, w1)
      | (Ok Pushed, w1) \<Rightarrow> Some (Ok (), w1)
      | (Ok (Full m1), w1) \<Rightarrow> op_push so e m1 w1
      | (Ok (Stuck m1), w1) \<Rightarrow> op_push so e m1 w1)"

definition writer_close :: "('e, 'm, 'w) sink_ops \<Rightarrow> 'e \<Rightarrow> 'w \<Rightarrow> unit res \<times> 'w" where
  "writer_close so e w = op_close so e w"

text \<open>The buffer is edge \<open>n\<close>. A tee reads a buffer that others fill.\<close>

definition tee_read :: "nat \<Rightarrow> ('d, 's, 'r) pipe \<Rightarrow> (('d, 's) message res \<times> ('d, 's, 'r) pipe) option" where
  "tee_read n w =
     (case read_front (\<lambda>_. None) (pp_edge w n, ()) of
        None \<Rightarrow> None
      | Some (q, (sh, _), _) \<Rightarrow>
          Some (q, w\<lparr>pp_edge := (pp_edge w)(n := sh),
                     pp_recv := (pp_recv w)(n := pp_recv w n @ (case q of Ok m \<Rightarrow> [m] | Err _ \<Rightarrow> []))\<rparr>))"

definition reader_poll :: "nat \<Rightarrow> ('d, 's, 'r) pipe \<Rightarrow> ('d, 's) message option res \<times> ('d, 's, 'r) pipe" where
  "reader_poll n w = inp_poll (edge_input n) w"

definition reader_body ::
  "(('d, 's, 'r) pipe \<Rightarrow> (unit res \<times> ('d, 's, 'r) pipe) option) \<Rightarrow> nat \<Rightarrow> ('d, 's, 'r) pipe \<Rightarrow>
   (('d, 's, 'r) pipe + unit res \<times> ('d, 's, 'r) pipe) option" where
  "reader_body work n w =
     (case receiver_is_empty (pp_edge w n) of
        Err e \<Rightarrow> Some (Inr (Err e, w))
      | Ok False \<Rightarrow> Some (Inr (Ok (), w))
      | Ok True \<Rightarrow>
          (case work w of
             None \<Rightarrow> None
           | Some (Err e, w1) \<Rightarrow> Some (Inr (Err e, w1))
           | Some (Ok _, w1) \<Rightarrow> Some (Inl w1)))"

definition reader_read ::
  "(('d, 's, 'r) pipe \<Rightarrow> (unit res \<times> ('d, 's, 'r) pipe) option) \<Rightarrow> nat \<Rightarrow> ('d, 's, 'r) pipe \<Rightarrow>
   (('d, 's) message res \<times> ('d, 's, 'r) pipe) option" where
  "reader_read work n w =
     (case loop (reader_body work n) w of
        None \<Rightarrow> None
      | Some (Err e, w1) \<Rightarrow> Some (Err e, w1)
      | Some (Ok _, w1) \<Rightarrow> tee_read n w1)"

section \<open>Wiring\<close>

text \<open>\<open>adopt\<close> of \<open>via\<close> (stage \<open>n\<close> owns stage \<open>n - 1\<close>): a sender of the downstream's input feeds the upstream, which
  becomes its worker. The reader's buffer is unbounded.\<close>

definition whole_feed :: "nat \<Rightarrow> nat \<Rightarrow> ('d, 's, 'r) pipe \<Rightarrow> ('d, 's, 'r) pipe" where
  "whole_feed k n w =
     (let (tx, sh) = mint_sender (pp_edge w n)
      in w\<lparr>pp_edge := (pp_edge w)(n := sh), pp_tx := (pp_tx w)(n := tx),
           pp_line := (pp_line w)(k := line_add_sink () (pp_line w k))\<rparr>)"

definition adopt :: "nat \<Rightarrow> ('d, 's, 'r) pipe \<Rightarrow> ('d, 's, 'r) pipe" where
  "adopt k w =
     (let w1 = whole_feed k (Suc k) w
      in w1\<lparr>pp_line := (pp_line w1)(Suc k := line_add_worker k (pp_line w1 (Suc k)))\<rparr>)"

definition reader_of :: "nat \<Rightarrow> ('d, 's, 'r) pipe \<Rightarrow> ('d, 's, 'r) pipe" where
  "reader_of k w = whole_feed k (Suc k) (w\<lparr>pp_edge := (pp_edge w)(Suc k := new_receiver)\<rparr>)"

definition writer_of :: "('d, 's, 'r) pipe \<Rightarrow> ('d, 's, 'r) pipe" where
  "writer_of w =
     (let (tx, sh) = mint_sender (pp_edge w 0) in w\<lparr>pp_edge := (pp_edge w)(0 := sh), pp_tx := (pp_tx w)(0 := tx)\<rparr>)"

definition pipe_lines :: "(nat \<Rightarrow> 'r) \<Rightarrow> (nat \<Rightarrow> bound) \<Rightarrow> ('d, 's, 'r) pipe" where
  "pipe_lines workers bounds =
     \<lparr>pp_line = (\<lambda>j. line_build (workers j)), pp_edge = (\<lambda>n. line_input (bounds n)), pp_tx = (\<lambda>_. fresh_sender),
      pp_took = (\<lambda>_. []), pp_recv = (\<lambda>_. []), pp_gone = []\<rparr>"

fun adopt_all :: "nat \<Rightarrow> ('d, 's, 'r) pipe \<Rightarrow> ('d, 's, 'r) pipe" where
  "adopt_all 0 w = w"
| "adopt_all (Suc k) w = adopt k (adopt_all k w)"

text \<open>Stages \<open>0 .. k\<close> between a writer and a reader.\<close>

definition pipe_of :: "(nat \<Rightarrow> 'r) \<Rightarrow> (nat \<Rightarrow> bound) \<Rightarrow> nat \<Rightarrow> ('d, 's, 'r) pipe" where
  "pipe_of workers bounds k = writer_of (reader_of k (adopt_all k (pipe_lines workers bounds)))"

section \<open>Sessions\<close>

datatype ('d, 's) io_op = IoPush "('d, 's) message" | IoRead | IoPoll | IoClose

text \<open>An operation with the messages it returned.\<close>

fun io_exec ::
  "(nat \<Rightarrow> ('d, 'd, 'r) routine_ops) \<Rightarrow> nat \<Rightarrow> ('d, 's) io_op \<Rightarrow> ('d, 's, 'r) pipe \<Rightarrow>
   (('d, 's) message list res \<times> ('d, 's, 'r) pipe) option" where
  "io_exec ro k (IoPush m) w =
     map_option (\<lambda>(q, w1). (map_result (\<lambda>_. []) q, w1)) (writer_push (edge_sink 0) () m w)"
| "io_exec ro k IoRead w =
     map_option (\<lambda>(q, w1). (map_result (\<lambda>m. [m]) q, w1)) (reader_read (stage_work ro k) (Suc k) w)"
| "io_exec ro k IoPoll w =
     (let (q, w1) = reader_poll (Suc k) w
      in Some (map_result (\<lambda>x. case x of None \<Rightarrow> [] | Some m \<Rightarrow> [m]) q, w1))"
| "io_exec ro k IoClose w = (let (q, w1) = writer_close (edge_sink 0) () w in Some (map_result (\<lambda>_. []) q, w1))"

text \<open>A session: operations one after the other, stopping at the first error; with the messages it read.\<close>

fun io_session ::
  "(nat \<Rightarrow> ('d, 'd, 'r) routine_ops) \<Rightarrow> nat \<Rightarrow> ('d, 's) io_op list \<Rightarrow> ('d, 's, 'r) pipe \<Rightarrow>
   (unit res \<times> ('d, 's) message list \<times> ('d, 's, 'r) pipe) option" where
  "io_session ro k [] w = Some (Ok (), [], w)"
| "io_session ro k (x # xs) w =
     (case io_exec ro k x w of
        None \<Rightarrow> None
      | Some (Err e, w1) \<Rightarrow> Some (Err e, [], w1)
      | Some (Ok ms, w1) \<Rightarrow>
          (case io_session ro k xs w1 of
             None \<Rightarrow> None
           | Some (q, ns, w2) \<Rightarrow> Some (q, ms @ ns, w2)))"

fun pushed_of :: "('d, 's) io_op \<Rightarrow> ('d, 's) message list" where
  "pushed_of (IoPush m) = [m]"
| "pushed_of _ = []"

section \<open>What the operations touch\<close>

definition linked :: "('d, 's, 'r) pipe \<Rightarrow> bool" where
  "linked w \<longleftrightarrow> (\<forall>n. pp_took w n = pp_recv w n @ i_buffer (pp_edge w n))"

text \<open>Only edges in \<open>T\<close> accept, only edges in \<open>S\<close> hand over, no line changes or is dropped.\<close>

definition touches :: "nat set \<Rightarrow> nat set \<Rightarrow> ('d, 's, 'r) pipe \<Rightarrow> ('d, 's, 'r) pipe \<Rightarrow> bool" where
  "touches T S w w' \<longleftrightarrow>
     pp_line w' = pp_line w \<and> pp_gone w' = pp_gone w \<and> (\<forall>n. n \<notin> T \<longrightarrow> pp_took w' n = pp_took w n) \<and>
     (\<forall>n. n \<notin> S \<longrightarrow> pp_recv w' n = pp_recv w n) \<and> (linked w \<longrightarrow> linked w')"

lemma touches_mono: "touches T S w w' \<Longrightarrow> T \<subseteq> T' \<Longrightarrow> S \<subseteq> S' \<Longrightarrow> touches T' S' w w'"
  unfolding touches_def by blast

lemma touches_trans: "touches T S w w1 \<Longrightarrow> touches T S w1 w2 \<Longrightarrow> touches T S w w2"
  unfolding touches_def by simp

lemma edge_try_push_touches:
  assumes "op_try_push (edge_sink n) e m w = (q, w')"
  shows "touches {n} {} w w'" "pp_took w' n = pp_took w n @ (if q = Ok Pushed then [m] else [])"
    "refused t = Some m' \<Longrightarrow> q = Ok t \<Longrightarrow> m' = m"
proof -
  obtain q0 tx sh eff where t: "try_push_back m (pp_tx w n) (pp_edge w n) = (q0, tx, sh, eff)"
    by (cases "try_push_back m (pp_tx w n) (pp_edge w n)") auto
  have b: "i_buffer sh = i_buffer (pp_edge w n) @ (if q0 = Ok Pushed then [m] else [])"
    using t by (rule try_push_back_cases) (auto split: option.splits)
  have "refused t = Some m' \<Longrightarrow> q0 = Ok t \<Longrightarrow> m' = m"
    using t by (rule try_push_back_cases) (auto simp: refused_Some)
  with assms t show "touches {n} {} w w'" "pp_took w' n = pp_took w n @ (if q = Ok Pushed then [m] else [])"
    "refused t = Some m' \<Longrightarrow> q = Ok t \<Longrightarrow> m' = m"
    using b by (auto simp: edge_sink_def touches_def linked_def note_took_def Let_def split: if_splits)
qed

lemma edge_push_touches:
  assumes "op_push (edge_sink n) e m w = Some (q, w')"
  shows "touches {n} {} w w'" "pp_took w' n = pp_took w n @ (if is_ok q then [m] else [])"
proof -
  from assms obtain sh eff where p: "push_back (\<lambda>_. None) (pp_tx w n) m (pp_edge w n, ()) = Some (q, (sh, ()), eff)"
    and w': "w' = (if is_ok q then note_took n m (w\<lparr>pp_edge := (pp_edge w)(n := sh)\<rparr>) else w\<lparr>pp_edge := (pp_edge w)(n := sh)\<rparr>)"
    by (auto simp: edge_sink_def Let_def split: option.splits)
  have "i_buffer sh = i_buffer (pp_edge w n) @ (if is_ok q then [m] else [])"
    using p by (auto simp: push_back_def push_land_def wake_consumer_def wait_for_room_def Let_def
        wait_while_full.simps [of "\<lambda>_. None"] is_full_def split: if_splits option.splits)
  with w' show "touches {n} {} w w'" "pp_took w' n = pp_took w n @ (if is_ok q then [m] else [])"
    by (auto simp: touches_def linked_def note_took_def Let_def)
qed

lemma edge_close_touches: "op_close (edge_sink n) e w = (q, w') \<Longrightarrow> touches {} {} w w'"
proof -
  assume a: "op_close (edge_sink n) e w = (q, w')"
  obtain x tx sh eff where c: "sender_close (pp_tx w n) (pp_edge w n) = (x, tx, sh, eff)"
    by (cases "sender_close (pp_tx w n) (pp_edge w n)") auto
  then have "i_buffer sh = i_buffer (pp_edge w n)" by (rule sender_close_cases) auto
  with a c show ?thesis by (auto simp: edge_sink_def touches_def linked_def)
qed

lemma edge_poll_touches:
  assumes "inp_poll (edge_input n) w = (q, w')"
  shows "touches {} {n} w w'" "pp_recv w' n = pp_recv w n @ popped q"
proof -
  obtain x sh eff where c: "receiver_poll (pp_edge w n) = (x, sh, eff)"
    by (cases "receiver_poll (pp_edge w n)") auto
  then have "i_buffer (pp_edge w n) = popped x @ i_buffer sh" by (rule receiver_poll_cases) auto
  with assms c show "touches {} {n} w w'" "pp_recv w' n = pp_recv w n @ popped q"
    by (auto simp: edge_input_def touches_def linked_def)
qed

lemma edge_wait_touches: "inp_wait (edge_input n) w = Some (q, w') \<Longrightarrow> touches {} {} w w'"
  by (auto simp: edge_input_def touches_def linked_def wait_front_def wait_nonempty.simps [of "\<lambda>_. None"]
      split: option.splits if_splits)

lemmas edge_ops_touch = edge_try_push_touches(1) edge_push_touches(1) edge_close_touches edge_poll_touches(1) edge_wait_touches

text \<open>The two ends of an edge: its sender released, the edge closed, its live senders. Only closing and dropping
  change them.\<close>

definition ends :: "('d, 's, 'r) pipe \<Rightarrow> nat \<Rightarrow> bool \<times> bool \<times> nat" where
  "ends w n = (s_released (pp_tx w n), i_closed (pp_edge w n), producer_count (pp_edge w n))"

lemma edge_try_push_ends: "op_try_push (edge_sink n) e m w = (q, w') \<Longrightarrow> ends w' = ends w"
proof -
  assume a: "op_try_push (edge_sink n) e m w = (q, w')"
  obtain q0 tx sh eff where t: "try_push_back m (pp_tx w n) (pp_edge w n) = (q0, tx, sh, eff)"
    by (cases "try_push_back m (pp_tx w n) (pp_edge w n)") auto
  then have "s_released tx = s_released (pp_tx w n) \<and> i_closed sh = i_closed (pp_edge w n) \<and>
      producer_count sh = producer_count (pp_edge w n)"
    by (rule try_push_back_cases) (auto split: option.splits)
  with a t show ?thesis by (auto simp: edge_sink_def ends_def note_took_def Let_def fun_eq_iff split: if_splits)
qed

lemma edge_push_ends:
  assumes "op_push (edge_sink n) e m w = Some (q, w')"
  shows "ends w' = ends w"
proof -
  from assms obtain sh eff where p: "push_back (\<lambda>_. None) (pp_tx w n) m (pp_edge w n, ()) = Some (q, (sh, ()), eff)"
    and w': "w' = (if is_ok q then note_took n m (w\<lparr>pp_edge := (pp_edge w)(n := sh)\<rparr>) else w\<lparr>pp_edge := (pp_edge w)(n := sh)\<rparr>)"
    by (auto simp: edge_sink_def Let_def split: option.splits)
  have "i_closed sh = i_closed (pp_edge w n) \<and> producer_count sh = producer_count (pp_edge w n)"
    using p by (auto simp: push_back_def push_land_def wake_consumer_def wait_for_room_def Let_def
        wait_while_full.simps [of "\<lambda>_. None"] is_full_def split: if_splits option.splits)
  with w' show ?thesis by (auto simp: ends_def note_took_def fun_eq_iff)
qed

lemma edge_poll_ends: "inp_poll (edge_input n) w = (q, w') \<Longrightarrow> ends w' = ends w"
proof -
  assume a: "inp_poll (edge_input n) w = (q, w')"
  obtain x sh eff where c: "receiver_poll (pp_edge w n) = (x, sh, eff)"
    by (cases "receiver_poll (pp_edge w n)") auto
  then have "i_closed sh = i_closed (pp_edge w n) \<and> producer_count sh = producer_count (pp_edge w n)"
    by (rule receiver_poll_cases) auto
  with a c show ?thesis by (auto simp: edge_input_def ends_def fun_eq_iff split: if_splits)
qed

lemma edge_wait_ends: "inp_wait (edge_input n) w = Some (q, w') \<Longrightarrow> ends w' = ends w"
  by (auto simp: edge_input_def ends_def fun_eq_iff wait_front_def wait_nonempty.simps [of "\<lambda>_. None"]
      split: option.splits if_splits)

lemma edge_close_ends:
  assumes "op_close (edge_sink n) e w = (q, w')"
  shows "m \<noteq> n \<Longrightarrow> ends w' m = ends w m" "ends w n = (False, False, 1) \<Longrightarrow> ends w' n = (True, True, 0)"
    "fst (ends w n) \<Longrightarrow> ends w' n = ends w n"
proof -
  obtain x tx sh eff where c: "sender_close (pp_tx w n) (pp_edge w n) = (x, tx, sh, eff)"
    by (cases "sender_close (pp_tx w n) (pp_edge w n)") auto
  have w': "ends w' = (ends w)(n := (s_released tx, i_closed sh, producer_count sh))"
    using assms c by (auto simp: edge_sink_def ends_def fun_eq_iff)
  then show "m \<noteq> n \<Longrightarrow> ends w' m = ends w m" by simp
  show "ends w n = (False, False, 1) \<Longrightarrow> ends w' n = (True, True, 0)" "fst (ends w n) \<Longrightarrow> ends w' n = ends w n"
    using w' by (rule_tac sender_close_cases [OF c]; simp add: ends_def)+
qed

lemmas edge_ops_ends = edge_try_push_ends edge_push_ends edge_poll_ends edge_wait_ends

text \<open>Dropping stages.\<close>

lemma drop_line_fields [simp]:
  "pp_line (drop_line k w) = pp_line w" "pp_took (drop_line k w) = pp_took w" "pp_recv (drop_line k w) = pp_recv w"
  "pp_gone (drop_line k w) = k # pp_gone w"
  by (simp_all add: drop_line_def Let_def)

lemma drop_line_linked: "linked w \<Longrightarrow> linked (drop_line k w)"
  by (auto simp: drop_line_def linked_def Let_def sender_drop_def sender_release_def close_infallible_def receiver_drop_def)

lemma drop_stage_fields [simp]:
  "pp_line (drop_stage k w) = pp_line w" "pp_took (drop_stage k w) = pp_took w" "pp_recv (drop_stage k w) = pp_recv w"
  by (induction k arbitrary: w) simp_all

lemma drop_stage_linked: "linked w \<Longrightarrow> linked (drop_stage k w)"
  by (induction k arbitrary: w) (auto intro: drop_line_linked)

lemma drop_stage_gone:
  "k \<in> set (pp_gone (drop_stage k w))" "j \<in> set (pp_gone w) \<Longrightarrow> j \<in> set (pp_gone (drop_stage k w))"
  "k < j \<Longrightarrow> j \<in> set (pp_gone (drop_stage k w)) \<longleftrightarrow> j \<in> set (pp_gone w)"
  by (induction k arbitrary: w) auto

section \<open>A stage leaves what is behind it alone\<close>

fun parent_of ::
  "(nat \<Rightarrow> ('d, 'd, 'r) routine_ops) \<Rightarrow> nat \<Rightarrow> ('d, 's, 'r) pipe \<Rightarrow> (unit res \<times> ('d, 's, 'r) pipe) option" where
  "parent_of ro 0 = (\<lambda>_. None)"
| "parent_of ro (Suc k) = stage_work ro k"

lemma stage_work_eq: "stage_work ro k w = run_stage ro k (parent_of ro k) w"
  by (cases k) simp_all

lemma swap_remove_set: "i < length ws \<Longrightarrow> set (swap_remove i ws) \<subseteq> set ws"
  using mset_swap_remove [of i ws] by (metis set_mset_mset set_mset_add_mset_insert subset_insertI)

text \<open>A predicate that the stage's two edges, the parent and drops keep is kept by its work.\<close>

lemma stage_round_keeps:
  assumes R: "\<And>ws w. C ws w \<Longrightarrow> R w" and C: "\<And>ws w. G ws w \<Longrightarrow> C ws w"
    and edge: "\<And>ws w w'. touches {Suc k} {k} w w' \<Longrightarrow> ends w' = ends w \<Longrightarrow> G ws w \<Longrightarrow> G ws w'"
    and close: "\<And>ws w w'. touches {Suc k} {k} w w' \<Longrightarrow> (\<And>n. n \<noteq> Suc k \<Longrightarrow> ends w' n = ends w n) \<Longrightarrow> C ws w \<Longrightarrow> C ws w'"
    and up: "\<And>ws i w q w'. G ws w \<Longrightarrow> i < length ws \<Longrightarrow> up w = Some (q, w') \<Longrightarrow>
       R w' \<and> (is_ok q \<longrightarrow> G ws w') \<and> (q = Err Closed \<longrightarrow> G (swap_remove i ws) (drop_stage (ws ! i) w'))"
    and rot: "\<And>ws w. G ws w \<Longrightarrow> G (rotate1 ws) w"
  shows "round_keeps (edge_sink (Suc k)) (edge_input k) (stage_parents up) G C R"
proof -
  have any: "G ws w'" if "touches T S w w'" "ends w' = ends w" "T \<subseteq> {Suc k}" "S \<subseteq> {k}" "G ws w" for T S ws w w'
    using edge touches_mono [OF that(1,3,4)] that(2,5) by blast
  show ?thesis
    unfolding round_keeps_def
  proof (intro allI impI conjI)
    fix ws w assume c: "C ws w"
    show "R w" using R c .
    fix e
    obtain q v where v: "op_close (edge_sink (Suc k)) e w = (q, v)" by (cases "op_close (edge_sink (Suc k)) e w") auto
    have "C ws v"
      by (rule close [OF touches_mono [OF edge_close_touches [OF v]] edge_close_ends(1) [OF v] c]) auto
    with v show "C ws (snd (op_close (edge_sink (Suc k)) e w))" by simp
  next
    fix ws w assume g: "G ws w"
    show "C ws w" using C g .
    show "G (rotate1 ws) w" using rot g .
    show "G ws (snd (op_try_push (edge_sink (Suc k)) e m w))" for e m
      by (rule any [OF edge_ops_touch(1) edge_ops_ends(1) _ _ g, OF prod.collapse [symmetric] prod.collapse [symmetric]]) simp_all
    show "G ws (snd (inp_poll (edge_input k) w))"
      by (rule any [OF edge_ops_touch(4) edge_ops_ends(3) _ _ g, OF prod.collapse [symmetric] prod.collapse [symmetric]]) simp_all
    show "op_push (edge_sink (Suc k)) e m w = Some (q, w') \<Longrightarrow> G ws w'" for e m q w'
      by (rule any [OF edge_ops_touch(2) edge_ops_ends(2) _ _ g]) simp_all
    show "inp_wait (edge_input k) w = Some (q, w') \<Longrightarrow> G ws w'" for q w'
      by (rule any [OF edge_ops_touch(5) edge_ops_ends(4) _ _ g]) simp_all
    fix i q w' assume "i < length ws" "pa_work (stage_parents up) (ws ! i) w = Some (q, w')"
    with up [OF g] show "R w'" "is_ok q \<Longrightarrow> G ws w'"
      "q = Err Closed \<Longrightarrow> G (swap_remove i ws) (pa_drop (stage_parents up) (ws ! i) w')"
      by (simp_all add: stage_parents_def)
  qed
qed

lemma run_stage_keeps:
  assumes k: "round_keeps (edge_sink (Suc k)) (edge_input k) (stage_parents up) G C R"
    and l: "run_stage ro k up w = Some (q, w')" and g: "G (ln_workers (pp_line w k)) w"
  shows "\<exists>ln v. line_work (edge_sink (Suc k)) (ro k) (edge_input k) (stage_parents up) (pp_line w k) w = Some (q, ln, v) \<and>
    w' = v\<lparr>pp_line := (pp_line v)(k := ln)\<rparr> \<and> R v \<and> (is_ok q \<longrightarrow> G (ln_workers ln) v) \<and> (ends_well q \<longrightarrow> C (ln_workers ln) v)"
proof -
  from l obtain ln v where w: "line_work (edge_sink (Suc k)) (ro k) (edge_input k) (stage_parents up) (pp_line w k) w = Some (q, ln, v)"
    "w' = v\<lparr>pp_line := (pp_line v)(k := ln)\<rparr>"
    by (auto simp: run_stage_def split: option.splits)
  from line_work_keeps [OF k w(1) g] w show ?thesis by blast
qed

text \<open>What the work of stage \<open>k\<close> does not reach: what the writer pushed, the records and lines of later stages.\<close>

definition behind :: "nat \<Rightarrow> ('d, 's, 'r) pipe \<Rightarrow> ('d, 's, 'r) pipe \<Rightarrow> bool" where
  "behind k w w' \<longleftrightarrow>
     pp_took w' 0 = pp_took w 0 \<and>
     (\<forall>j>k. pp_recv w' j = pp_recv w j \<and> pp_took w' (Suc j) = pp_took w (Suc j) \<and> pp_line w' j = pp_line w j)"

lemma stage_work_behind: "stage_work ro k w = Some (q, w') \<Longrightarrow> behind k w w'"
proof (induction k arbitrary: w q w')
  case (0 w q w')
  let ?G = "\<lambda>ws v. behind 0 w v"
  have k: "round_keeps (edge_sink (Suc 0)) (edge_input 0) (stage_parents (\<lambda>_. None)) ?G ?G (behind 0 w)"
    by (rule stage_round_keeps) (auto simp: behind_def touches_def)
  from 0 have r: "run_stage ro 0 (\<lambda>_. None) w = Some (q, w')" by simp
  have "?G (ln_workers (pp_line w 0)) w" by (simp add: behind_def)
  from run_stage_keeps [OF k r this] show ?case by (elim exE conjE) (simp add: behind_def)
next
  case (Suc k w q w')
  let ?G = "\<lambda>ws v. behind (Suc k) w v"
  have k: "round_keeps (edge_sink (Suc (Suc k))) (edge_input (Suc k)) (stage_parents (stage_work ro k)) ?G ?G (behind (Suc k) w)"
  proof (rule stage_round_keeps)
    fix v q v' assume g: "behind (Suc k) w v" and u: "stage_work ro k v = Some (q, v')"
    from Suc.IH [OF u] g have "behind (Suc k) w v'" by (simp add: behind_def)
    then show "behind (Suc k) w v' \<and> (is_ok q \<longrightarrow> behind (Suc k) w v') \<and>
        (q = Err Closed \<longrightarrow> behind (Suc k) w (drop_stage (ws ! i) v'))" for ws i
      by (simp add: behind_def)
  qed (auto simp: behind_def touches_def)
  from Suc.prems have r: "run_stage ro (Suc k) (stage_work ro k) w = Some (q, w')" by simp
  have "?G (ln_workers (pp_line w (Suc k))) w" by (simp add: behind_def)
  from run_stage_keeps [OF k r this] show ?case by (elim exE conjE) (simp add: behind_def)
qed

interpretation stage: node_world "edge_sink (Suc k)" "\<lambda>e w. pp_took w (Suc k)" "stage_parents (parent_of ro k)"
    "\<lambda>w. pp_recv w k" "edge_input k"
proof unfold_locales
  have up: "pp_recv w' k = pp_recv w k \<and> pp_took w' (Suc k) = pp_took w (Suc k)"
    if "parent_of ro k w = Some (q, w')" for w q w'
    using that stage_work_behind [of ro "k - 1" w q w'] by (cases k) (simp_all add: behind_def)
  show "pa_work (stage_parents (parent_of ro k)) p w = Some (u, w') \<Longrightarrow>
      pp_recv w' k = pp_recv w k \<and> pp_took w' (Suc k) = pp_took w (Suc k)" for p w u w'
    using up by (simp add: stage_parents_def)
qed (auto simp: stage_parents_def touches_def popped_Some dest: edge_try_push_touches edge_push_touches edge_poll_touches edge_wait_touches)

section \<open>What each stage has made of what it consumed\<close>

fun live_parents :: "nat \<Rightarrow> ('d, 's, 'r) pipe \<Rightarrow> nat list" where
  "live_parents 0 w = []"
| "live_parents (Suc k) w = (if k \<in> set (pp_gone w) then [] else [k])"

text \<open>A stage at work: it schedules its parent while that is there, and what its edge took, with the message held,
  is what the routine made of all it consumed. A stage that failed or was dropped leaves a prefix.\<close>

definition stage_ok :: "(nat \<Rightarrow> ('d, 'd, 'r) routine_ops) \<Rightarrow> (nat \<Rightarrow> 'r) \<Rightarrow> nat \<Rightarrow> ('d, 's, 'r) pipe \<Rightarrow> bool" where
  "stage_ok ro r0 j w \<longleftrightarrow>
     fanout_ok (ln_outputs (pp_line w j)) \<and> f_edges (ln_outputs (pp_line w j)) = [()] \<and>
     ln_workers (pp_line w j) = live_parents j w \<and>
     transduces (r_next (ro j)) (line_accept (ro j)) (r0 j) None (pp_recv w j)
       (pp_took w (Suc j) @ fanout_due (ln_outputs (pp_line w j)) 0) (ln_worker (pp_line w j)) (ln_pending (pp_line w j))"

definition stage_left :: "(nat \<Rightarrow> ('d, 'd, 'r) routine_ops) \<Rightarrow> (nat \<Rightarrow> 'r) \<Rightarrow> nat \<Rightarrow> ('d, 's, 'r) pipe \<Rightarrow> bool" where
  "stage_left ro r0 j w \<longleftrightarrow> leads_to (ro j) (r0 j) None (pp_recv w j) (pp_took w (Suc j))"

definition chain :: "(nat \<Rightarrow> ('d, 'd, 'r) routine_ops) \<Rightarrow> (nat \<Rightarrow> 'r) \<Rightarrow> nat \<Rightarrow> ('d, 's, 'r) pipe \<Rightarrow> bool" where
  "chain ro r0 k w \<longleftrightarrow>
     linked w \<and> (\<forall>j<k. stage_left ro r0 j w \<and> (j \<notin> set (pp_gone w) \<longrightarrow> stage_ok ro r0 j w))"

lemma stage_ok_left: "stage_ok ro r0 j w \<Longrightarrow> stage_left ro r0 j w"
  unfolding stage_ok_def stage_left_def by (auto intro: leads_to_transduces)

lemma live_parents_cong: "(\<And>i. k = Suc i \<Longrightarrow> i \<in> set (pp_gone w') \<longleftrightarrow> i \<in> set (pp_gone w)) \<Longrightarrow> live_parents k w' = live_parents k w"
  by (cases k) auto

lemma touches_chain:
  assumes t: "touches T S w w'" and T: "T \<subseteq> {Suc k, 0}" and S: "S \<subseteq> {k}" and c: "chain ro r0 k w"
  shows "chain ro r0 k w'"
proof -
  have same: "pp_line w' = pp_line w" "pp_gone w' = pp_gone w" "linked w'" using t c by (auto simp: touches_def chain_def)
  have "pp_took w' (Suc j) = pp_took w (Suc j) \<and> pp_recv w' j = pp_recv w j" if "j < k" for j
    using that t T S by (auto simp: touches_def)
  moreover have "live_parents j w' = live_parents j w" for j using same by (auto intro: live_parents_cong)
  ultimately show ?thesis using c same by (simp add: chain_def stage_ok_def stage_left_def)
qed

text \<open>Dropping a wired stage drops what it alone kept alive, and leaves the rest as it was.\<close>

lemma drop_stage_chain:
  assumes "chain ro r0 k w" "ln_workers (pp_line w k) = live_parents k w" "stage_left ro r0 k w"
  shows "chain ro r0 (Suc k) (drop_stage k w)"
  using assms
proof (induction k arbitrary: w)
  case 0
  then show ?case by (auto simp: chain_def stage_left_def drop_line_linked)
next
  case (Suc k w)
  define w1 where "w1 = (if ln_workers (pp_line w (Suc k)) = [] then w else drop_stage k w)"
  have w1: "chain ro r0 (Suc k) w1 \<and> k \<in> set (pp_gone w1)"
  proof (cases "k \<in> set (pp_gone w)")
    case True
    with Suc.prems show ?thesis by (simp add: w1_def)
  next
    case False
    with Suc.prems(1) have "chain ro r0 k w" "stage_ok ro r0 k w" "stage_left ro r0 k w" by (auto simp: chain_def)
    then have "chain ro r0 (Suc k) (drop_stage k w)" by (intro Suc.IH) (auto simp: stage_ok_def)
    with False Suc.prems(2) drop_stage_gone(1) show ?thesis by (simp add: w1_def)
  qed
  have l: "live_parents j (drop_line (Suc k) w1) = live_parents j w1" if "j < Suc k" for j
    using that by (cases j) auto
  have "stage_left ro r0 j (drop_line (Suc k) w1) \<and>
      (j \<notin> set (pp_gone (drop_line (Suc k) w1)) \<longrightarrow> stage_ok ro r0 j (drop_line (Suc k) w1))" if "j < Suc k" for j
    using w1 l [OF that] that by (auto simp: chain_def stage_left_def stage_ok_def)
  moreover have "stage_left ro r0 (Suc k) (drop_line (Suc k) w1)"
    using Suc.prems(3) by (simp add: stage_left_def w1_def)
  moreover have "linked (drop_line (Suc k) w1)" using w1 by (simp add: chain_def drop_line_linked)
  ultimately show ?case unfolding chain_def by (auto simp: less_Suc_eq w1_def [symmetric])
qed

text \<open>One round of stage \<open>k\<close>.\<close>

definition round_ok ::
  "(nat \<Rightarrow> ('d, 'd, 'r) routine_ops) \<Rightarrow> (nat \<Rightarrow> 'r) \<Rightarrow> nat \<Rightarrow> unit res \<Rightarrow> ('d, 's, 'r) pipe \<Rightarrow> ('d, 's, 'r) pipe \<Rightarrow> bool" where
  "round_ok ro r0 k q w w' \<longleftrightarrow>
     linked w' \<and> (\<forall>j\<le>k. stage_left ro r0 j w') \<and> (\<forall>j\<ge>k. j \<in> set (pp_gone w') \<longleftrightarrow> j \<in> set (pp_gone w)) \<and>
     (is_ok q \<longrightarrow> chain ro r0 (Suc k) w') \<and>
     (ends_well q \<longrightarrow> chain ro r0 k w' \<and> ln_workers (pp_line w' k) = live_parents k w')"

text \<open>What holds of the stages before \<open>k\<close> while \<open>k\<close> works; \<open>g\<close> are the stages dropped when it began.\<close>

definition going ::
  "(nat \<Rightarrow> ('d, 'd, 'r) routine_ops) \<Rightarrow> (nat \<Rightarrow> 'r) \<Rightarrow> nat \<Rightarrow> nat set \<Rightarrow> nat list \<Rightarrow> ('d, 's, 'r) pipe \<Rightarrow> bool" where
  "going ro r0 k g ws v \<longleftrightarrow>
     chain ro r0 k v \<and> ws = live_parents k v \<and> (\<forall>j\<ge>k. j \<in> set (pp_gone v) \<longleftrightarrow> j \<in> g)"

lemma going_touches:
  assumes t: "touches {Suc k} {k} v v'" and g: "going ro r0 k gs ws v"
  shows "going ro r0 k gs ws v'"
proof -
  have "pp_gone v' = pp_gone v" using t by (simp add: touches_def)
  moreover from this have "live_parents k v' = live_parents k v" by (auto intro: live_parents_cong)
  ultimately show ?thesis using g touches_chain [OF t] by (simp add: going_def)
qed

lemma going_rotate: "going ro r0 k gs ws v \<Longrightarrow> going ro r0 k gs (rotate1 ws) v"
  by (cases k) (auto simp: going_def)

text \<open>The only parent that can be at work is the stage before, when it was not dropped.\<close>

lemma going_parent:
  assumes "going ro r0 k gs ws v" "i < length ws" "parent_of ro k v = Some (q, v')"
  obtains p where "k = Suc p" "stage_work ro p v = Some (q, v')" "p \<notin> set (pp_gone v)" "ws = [p]" "i = 0"
    "chain ro r0 (Suc p) v"
  using assms by (cases k) (auto simp: going_def split: if_splits)

lemma parents_keep:
  fixes w :: "('d, 's, 'r) pipe"
  assumes IH: "\<And>i (v :: ('d, 's, 'r) pipe) q v'. k = Suc i \<Longrightarrow> chain ro r0 (Suc i) v \<Longrightarrow> i \<notin> set (pp_gone v) \<Longrightarrow>
      stage_work ro i v = Some (q, v') \<Longrightarrow> round_ok ro r0 i q v v'"
  shows "round_keeps (edge_sink (Suc k)) (edge_input k) (stage_parents (parent_of ro k))
      (going ro r0 k (set (pp_gone w))) (going ro r0 k (set (pp_gone w)))
      (\<lambda>v :: ('d, 's, 'r) pipe. linked v \<and> (\<forall>j<k. stage_left ro r0 j v) \<and> (\<forall>j\<ge>k. j \<in> set (pp_gone v) \<longleftrightarrow> j \<in> set (pp_gone w)))"
    (is "round_keeps _ _ _ ?G _ ?R")
proof (rule stage_round_keeps)
  show "?G ws v \<Longrightarrow> ?R v" for ws v by (auto simp: going_def chain_def)
  fix ws i v q v' assume g: "?G ws v" and i: "i < length ws" and u: "parent_of ro k v = Some (q, v')"
  from going_parent [OF g i u] obtain p where k: "k = Suc p" and s: "stage_work ro p v = Some (q, v')"
    and p: "p \<notin> set (pp_gone v)" "ws = [p]" "i = 0" and c: "chain ro r0 (Suc p) v" .
  from IH [OF k c p(1) s] have r: "round_ok ro r0 p q v v'" .
  have gone: "\<forall>j\<ge>k. j \<in> set (pp_gone v') \<longleftrightarrow> j \<in> set (pp_gone w)" using r g k by (simp add: round_ok_def going_def)
  have "?R v'" using r gone k by (auto simp: round_ok_def)
  moreover have "?G ws v'" if "is_ok q" using r p gone k that by (auto simp: round_ok_def going_def)
  moreover have "?G (swap_remove i ws) (drop_stage (ws ! i) v')" if "q = Err Closed"
  proof -
    have "chain ro r0 (Suc p) (drop_stage p v')" using r that by (intro drop_stage_chain) (auto simp: round_ok_def)
    with p k gone show ?thesis by (auto simp: going_def swap_remove_def drop_stage_gone)
  qed
  ultimately show "?R v' \<and> (is_ok q \<longrightarrow> ?G ws v') \<and> (q = Err Closed \<longrightarrow> ?G (swap_remove i ws) (drop_stage (ws ! i) v'))"
    by blast
qed (auto intro: going_touches going_rotate)

lemma stage_work_round:
  fixes w w' :: "('d, 's, 'r) pipe"
  shows "chain ro r0 (Suc k) w \<Longrightarrow> k \<notin> set (pp_gone w) \<Longrightarrow> stage_work ro k w = Some (q, w') \<Longrightarrow> round_ok ro r0 k q w w'"
proof (induction k arbitrary: w q w' rule: less_induct)
  case (less k w q w')
  let ?G = "going ro r0 k (set (pp_gone w)) :: nat list \<Rightarrow> ('d, 's, 'r) pipe \<Rightarrow> bool"
  let ?R = "\<lambda>v :: ('d, 's, 'r) pipe. linked v \<and> (\<forall>j<k. stage_left ro r0 j v) \<and> (\<forall>j\<ge>k. j \<in> set (pp_gone v) \<longleftrightarrow> j \<in> set (pp_gone w))"
  have keeps: "round_keeps (edge_sink (Suc k)) (edge_input k) (stage_parents (parent_of ro k)) ?G ?G ?R"
    by (rule parents_keep) (auto intro: less.IH)
  from less.prems(1,2) have ok: "stage_ok ro r0 k w" and c: "chain ro r0 k w" by (auto simp: chain_def)
  have g: "?G (ln_workers (pp_line w k)) w" using ok c by (auto simp: stage_ok_def going_def)
  note run = run_stage_keeps [OF keeps less.prems(3) [unfolded stage_work_eq] g]
  obtain ln v where
    run: "line_work (edge_sink (Suc k)) (ro k) (edge_input k) (stage_parents (parent_of ro k)) (pp_line w k) w = Some (q, ln, v) \<and>
      w' = v\<lparr>pp_line := (pp_line v)(k := ln)\<rparr> \<and> ?R v \<and> (is_ok q \<longrightarrow> ?G (ln_workers ln) v) \<and> (ends_well q \<longrightarrow> ?G (ln_workers ln) v)"
    using run by (elim exE) (rule that)
  note l = run [THEN conjunct1] and w' = run [THEN conjunct2, THEN conjunct1]
    and R = run [THEN conjunct2, THEN conjunct2, THEN conjunct1]
    and G = run [THEN conjunct2, THEN conjunct2, THEN conjunct2, THEN conjunct2, THEN mp, unfolded going_def]
  have lp: "live_parents j w' = live_parents j v" for j using w' by (auto intro: live_parents_cong)
  have chain: "chain ro r0 k w'" if "chain ro r0 k v"
    using that lp w' by (auto simp: chain_def linked_def stage_left_def stage_ok_def)
  have close: "pp_recv v' k = pp_recv v k \<and> (\<forall>e :: unit. pp_took v' (Suc k) = pp_took v (Suc k))"
    if "op_close (edge_sink (Suc k)) e v = (q, v')" for e q and v v' :: "('d, 's, 'r) pipe"
    using edge_close_touches [OF that] by (simp add: touches_def)
  have "leads_to (ro k) (r0 k) None (pp_recv v k) (pp_took v (Suc k))"
    by (rule stage.line_work_leads [OF _ _ l close]) (use ok in \<open>auto simp: stage_ok_def\<close>)
  then have left: "stage_left ro r0 k w'" using w' by (simp add: stage_left_def)
  have okk: "stage_ok ro r0 k w'" if q: "is_ok q"
  proof -
    from q obtain u where u: "q = Ok u" by (cases q) auto
    with stage.line_work_transduces [OF _ l [unfolded u]] ok obtain ms os where
      t: "fanout_ok (ln_outputs ln)" "f_edges (ln_outputs ln) = [()]" "pp_recv v k = pp_recv w k @ ms"
        "transduces (r_next (ro k)) (line_accept (ro k)) (ln_worker (pp_line w k)) (ln_pending (pp_line w k)) ms os
           (ln_worker ln) (ln_pending ln)"
        "pp_took v (Suc k) @ fanout_due (ln_outputs ln) 0 = (pp_took w (Suc k) @ fanout_due (ln_outputs (pp_line w k)) 0) @ os"
      by (auto simp: stage_ok_def)
    from ok have "transduces (r_next (ro k)) (line_accept (ro k)) (r0 k) None (pp_recv w k)
       (pp_took w (Suc k) @ fanout_due (ln_outputs (pp_line w k)) 0) (ln_worker (pp_line w k)) (ln_pending (pp_line w k))"
      by (simp add: stage_ok_def)
    from transduces_append [OF this t(4)] t G u w' lp show ?thesis by (simp add: stage_ok_def)
  qed
  have "stage_left ro r0 j w'" if "j \<le> k" for j
    using R left w' that by (cases "j = k") (auto simp: stage_left_def)
  moreover have "linked w'" using R w' by (simp add: linked_def)
  moreover have "chain ro r0 (Suc k) w'" if q: "is_ok q"
    using chain G okk [OF q] left q by (auto simp: chain_def less_Suc_eq is_ok_iff)
  moreover have "ln_workers (pp_line w' k) = live_parents k w'" if "ends_well q"
    using G [OF that] lp w' by simp
  ultimately show ?case using chain G R w' unfolding round_ok_def by auto
qed

section \<open>Front ends and sessions\<close>

text \<open>Stages \<open>0 .. k\<close> at work; and what is left of them after an error.\<close>

definition at_work :: "(nat \<Rightarrow> ('d, 'd, 'r) routine_ops) \<Rightarrow> (nat \<Rightarrow> 'r) \<Rightarrow> nat \<Rightarrow> ('d, 's, 'r) pipe \<Rightarrow> bool" where
  "at_work ro r0 k w \<longleftrightarrow> chain ro r0 (Suc k) w \<and> k \<notin> set (pp_gone w)"

definition left_over :: "(nat \<Rightarrow> ('d, 'd, 'r) routine_ops) \<Rightarrow> (nat \<Rightarrow> 'r) \<Rightarrow> nat \<Rightarrow> ('d, 's, 'r) pipe \<Rightarrow> bool" where
  "left_over ro r0 k w \<longleftrightarrow> linked w \<and> (\<forall>j\<le>k. stage_left ro r0 j w)"

lemma at_work_left: "at_work ro r0 k w \<Longrightarrow> left_over ro r0 k w"
  by (auto simp: at_work_def left_over_def chain_def less_Suc_eq_le)

lemma touches_at_work:
  assumes "touches T S w w'" "T \<subseteq> {0}" "S \<subseteq> {Suc k}" "at_work ro r0 k w"
  shows "at_work ro r0 k w'"
proof -
  from assms(2) have "T \<subseteq> {Suc (Suc k), 0}" by blast
  from touches_chain [OF assms(1) this assms(3)] assms(1,4) show ?thesis by (simp add: at_work_def touches_def)
qed

lemma writer_push_touches:
  assumes "writer_push (edge_sink n) () m w = Some (q, w')"
  shows "touches {n} {} w w'" "pp_took w' n = pp_took w n @ (if is_ok q then [m] else [])"
proof -
  obtain t w1 where t: "op_try_push (edge_sink n) () m w = (t, w1)" by (cases "op_try_push (edge_sink n) () m w") auto
  note T = edge_try_push_touches [OF t]
  have "touches {n} {} w w' \<and> pp_took w' n = pp_took w n @ (if is_ok q then [m] else [])"
  proof (cases "\<exists>m'. t = Ok (Full m') \<or> t = Ok (Stuck m')")
    case True
    then obtain m' x where x: "t = Ok x" "refused x = Some m'" by (auto simp: refused_Some)
    with T(3) have "m' = m" by blast
    with assms t x have p: "op_push (edge_sink n) () m w1 = Some (q, w')"
      by (auto simp: writer_push_def refused_Some)
    have "t \<noteq> Ok Pushed" using x by auto
    with edge_push_touches [OF p] T(1,2) show ?thesis by (auto intro: touches_trans)
  next
    case False
    with assms t T(1,2) show ?thesis
      by (cases t) (auto simp: writer_push_def split: result.splits try_push.splits)
  qed
  then show "touches {n} {} w w'" "pp_took w' n = pp_took w n @ (if is_ok q then [m] else [])" by auto
qed

lemma tee_read_touches:
  assumes "tee_read n w = Some (q, w')"
  shows "touches {} {n} w w'" "pp_recv w' n = pp_recv w n @ (case q of Ok m \<Rightarrow> [m] | Err _ \<Rightarrow> [])"
proof -
  from assms obtain sh eff where r: "read_front (\<lambda>_. None) (pp_edge w n, ()) = Some (q, (sh, ()), eff)"
    and w': "w' = w\<lparr>pp_edge := (pp_edge w)(n := sh),
         pp_recv := (pp_recv w)(n := pp_recv w n @ (case q of Ok m \<Rightarrow> [m] | Err _ \<Rightarrow> []))\<rparr>"
    by (auto simp: tee_read_def split: option.splits)
  from r have "i_buffer (pp_edge w n) = (case q of Ok m \<Rightarrow> [m] | Err _ \<Rightarrow> []) @ i_buffer sh"
    by (auto simp: read_front_def wait_nonempty.simps [of "\<lambda>_. None"] case_prod_unfold Let_def
        split: if_splits list.splits)
  with w' show "touches {} {n} w w'" "pp_recv w' n = pp_recv w n @ (case q of Ok m \<Rightarrow> [m] | Err _ \<Rightarrow> [])"
    by (auto simp: touches_def linked_def)
qed

lemma reader_read_session:
  fixes w w' :: "('d, 's, 'r) pipe"
  assumes r: "reader_read (stage_work ro k) (Suc k) w = Some (q, w')" and g: "at_work ro r0 k w"
  shows "left_over ro r0 k w' \<and> (is_ok q \<longrightarrow> at_work ro r0 k w') \<and> pp_took w' 0 = pp_took w 0 \<and>
     pp_recv w' (Suc k) = pp_recv w (Suc k) @ (case q of Ok m \<Rightarrow> [m] | Err _ \<Rightarrow> [])"
proof -
  from r obtain x w1 where l: "loop (reader_body (stage_work ro k) (Suc k)) w = Some (x, w1)"
    and t: "case x of Err e \<Rightarrow> q = Err e \<and> w' = w1 | Ok _ \<Rightarrow> tee_read (Suc k) w1 = Some (q, w')"
    by (auto simp: reader_read_def split: option.splits result.splits)
  let ?same = "\<lambda>v :: ('d, 's, 'r) pipe. pp_took v 0 = pp_took w 0 \<and> pp_recv v (Suc k) = pp_recv w (Suc k)"
  let ?P = "\<lambda>v :: ('d, 's, 'r) pipe. at_work ro r0 k v \<and> ?same v"
  let ?Q = "\<lambda>(x :: unit res, v :: ('d, 's, 'r) pipe). left_over ro r0 k v \<and> (is_ok x \<longrightarrow> at_work ro r0 k v) \<and> ?same v"
  have round: "left_over ro r0 k v' \<and> (is_ok y \<longrightarrow> at_work ro r0 k v') \<and> ?same v'"
    if P: "?P v" and s: "stage_work ro k v = Some (y, v')" for v y v'
  proof -
    have "round_ok ro r0 k y v v'" by (rule stage_work_round [OF _ _ s]) (use P in \<open>auto simp: at_work_def\<close>)
    with stage_work_behind [OF s] P show ?thesis by (auto simp: round_ok_def at_work_def left_over_def behind_def)
  qed
  have "?Q (x, w1)"
  proof (rule loop_invariant [where P = ?P and Q = ?Q, OF l])
    show "?P w" using g by simp
  next
    fix v v' assume "?P v" "reader_body (stage_work ro k) (Suc k) v = Some (Inl v')"
    then show "?P v'" using round [of v _ v']
      by (fastforce simp: reader_body_def split: result.splits bool.splits option.splits)
  next
    fix v b assume P: "?P v" and "reader_body (stage_work ro k) (Suc k) v = Some (Inr b)"
    then show "?Q b" using round [OF P] at_work_left [of ro r0 k v]
      by (fastforce simp: reader_body_def split: result.splits bool.splits option.splits)
  qed
  show ?thesis
  proof (cases x)
    case (Err e)
    with t \<open>?Q (x, w1)\<close> show ?thesis by simp
  next
    case (Ok u)
    with t have e: "tee_read (Suc k) w1 = Some (q, w')" by simp
    from \<open>?Q (x, w1)\<close> Ok have g1: "at_work ro r0 k w1" and s: "?same w1" by auto
    note T = tee_read_touches [OF e]
    have "at_work ro r0 k w'" by (rule touches_at_work [OF T(1) _ _ g1]) auto
    with T s at_work_left show ?thesis by (auto simp: touches_def)
  qed
qed

lemma io_exec_session:
  fixes w w' :: "('d, 's, 'r) pipe"
  assumes r: "io_exec ro k x w = Some (q, w')" and g: "at_work ro r0 k w"
  shows "left_over ro r0 k w' \<and> (is_ok q \<longrightarrow> at_work ro r0 k w') \<and>
     pp_took w' 0 = pp_took w 0 @ (if is_ok q then pushed_of x else []) \<and>
     pp_recv w' (Suc k) = pp_recv w (Suc k) @ (case q of Ok ms \<Rightarrow> ms | Err _ \<Rightarrow> [])"
proof (cases x)
  case (IoPush m)
  with r obtain p where p: "writer_push (edge_sink 0) () m w = Some (p, w')" "q = map_result (\<lambda>_. []) p" by auto
  have "at_work ro r0 k w'" by (rule touches_at_work [OF writer_push_touches(1) [OF p(1)] _ _ g]) auto
  with writer_push_touches [OF p(1)] p(2) IoPush at_work_left show ?thesis by (cases p) (auto simp: touches_def)
next
  case IoRead
  with r obtain p where p: "reader_read (stage_work ro k) (Suc k) w = Some (p, w')" "q = map_result (\<lambda>m. [m]) p" by auto
  from reader_read_session [OF p(1) g] p(2) IoRead show ?thesis by (cases p) auto
next
  case IoPoll
  obtain p v where p: "inp_poll (edge_input (Suc k)) w = (p, v)" by (cases "inp_poll (edge_input (Suc k)) w") auto
  with r IoPoll have q: "q = map_result (\<lambda>x. case x of None \<Rightarrow> [] | Some m \<Rightarrow> [m]) p" "w' = v"
    by (auto simp: reader_poll_def)
  note T = edge_poll_touches [OF p]
  have "at_work ro r0 k v" by (rule touches_at_work [OF T(1) _ _ g]) auto
  moreover have "popped p = (case q of Ok ms \<Rightarrow> ms | Err _ \<Rightarrow> [])" using q by (cases p rule: popped.cases) auto
  ultimately show ?thesis using T q IoPoll at_work_left by (auto simp: touches_def)
next
  case IoClose
  obtain p v where p: "op_close (edge_sink 0) () w = (p, v)" by (cases "op_close (edge_sink 0) () w") auto
  with r IoClose have q: "q = map_result (\<lambda>_. []) p" "w' = v" by (auto simp: writer_close_def)
  have "at_work ro r0 k v" by (rule touches_at_work [OF edge_close_touches [OF p] _ _ g]) auto
  with edge_close_touches [OF p] q IoClose at_work_left show ?thesis by (cases p) (auto simp: touches_def)
qed

lemma io_session_keeps:
  fixes w w' :: "('d, 's, 'r) pipe"
  shows "io_session ro k ops w = Some (q, reads, w') \<Longrightarrow> at_work ro r0 k w \<Longrightarrow>
     left_over ro r0 k w' \<and> (is_ok q \<longrightarrow> at_work ro r0 k w') \<and> pp_recv w' (Suc k) = pp_recv w (Suc k) @ reads \<and>
     (\<exists>ps. pp_took w' 0 = pp_took w 0 @ ps \<and> prefix ps (concat (map pushed_of ops)) \<and>
        (is_ok q \<longrightarrow> ps = concat (map pushed_of ops)))"
proof (induction ops arbitrary: w reads)
  case Nil
  then show ?case using at_work_left by auto
next
  case (Cons x xs)
  from Cons.prems(1) obtain p w1 where x: "io_exec ro k x w = Some (p, w1)"
    by (auto split: option.splits)
  note E = io_exec_session [OF x Cons.prems(2)]
  show ?case
  proof (cases p)
    case (Err e)
    with Cons.prems(1) x E show ?thesis by auto
  next
    case (Ok ms)
    with Cons.prems(1) x obtain ns where s: "io_session ro k xs w1 = Some (q, ns, w')" "reads = ms @ ns"
      by (auto split: option.splits)
    from E Ok have g: "at_work ro r0 k w1" by simp
    from Cons.IH [OF s(1) g] E Ok s(2) show ?thesis by auto
  qed
qed

lemma whole_feed_fields [simp]:
  "pp_line (whole_feed k n w) = (pp_line w)(k := line_add_sink () (pp_line w k))"
  "i_buffer (pp_edge (whole_feed k n w) m) = i_buffer (pp_edge w m)"
  "pp_took (whole_feed k n w) = pp_took w" "pp_recv (whole_feed k n w) = pp_recv w" "pp_gone (whole_feed k n w) = pp_gone w"
  by (simp_all add: whole_feed_def mint_sender_def)

lemma adopt_all_fields:
  fixes w :: "('d, 's, 'r) pipe"
  assumes "w = adopt_all k (pipe_lines r0 bounds)"
  shows "pp_line w j = (let ln = (if 0 < j \<and> j \<le> k then line_add_worker (j - 1) (line_build (r0 j)) else line_build (r0 j))
       in if j < k then line_add_sink () ln else ln) \<and>
     i_buffer (pp_edge w n) = [] \<and> pp_took w n = [] \<and> pp_recv w n = [] \<and> pp_gone w = []"
  using assms
proof (induction k arbitrary: w j n)
  case 0
  then show ?case
    by (auto simp: pipe_lines_def line_input_def new_receiver_def bounded_receiver_def with_bound_def split: option.split)
next
  case (Suc k w)
  note IH = Suc.IH [OF refl]
  from Suc.prems have w: "w = adopt k (adopt_all k (pipe_lines r0 bounds))" by simp
  show ?case unfolding w adopt_def using IH [of k] IH [of "Suc k"] IH [of j] IH [of 0 n]
    by (auto simp: Let_def)
qed

lemma pipe_of_at_work:
  fixes w :: "('d, 's, 'r) pipe"
  assumes w: "w = pipe_of r0 bounds k"
  shows "at_work ro r0 k w" "pp_took w n = []" "pp_recv w n = []"
proof -
  define v :: "('d, 's, 'r) pipe" where "v = adopt_all k (pipe_lines r0 bounds)"
  note V = adopt_all_fields [OF v_def]
  have f: "pp_line w = (pp_line v)(k := line_add_sink () (pp_line v k))" "i_buffer (pp_edge w m) = []"
    "pp_took w m = []" "pp_recv w m = []" "pp_gone w = []" for m
    using V [of _ m] by (auto simp: w pipe_of_def v_def [symmetric] writer_of_def reader_of_def mint_sender_def new_receiver_def with_bound_def)
  then show "pp_took w n = []" "pp_recv w n = []" by auto
  have "stage_ok ro r0 j w" if "j \<le> k" for j
    using that V [of j] f
    by (cases j) (auto simp: stage_ok_def line_add_sink_def line_add_worker_def line_build_def
        fanout_add_def fanout_new_def fanout_ok_def fanout_due_def intro: transduces.rest)
  then show "at_work ro r0 k w" using f by (auto simp: at_work_def chain_def stage_ok_left less_Suc_eq_le linked_def)
qed

section \<open>Properties\<close>

text \<open>\<open>made ro r0 n ms os\<close>: \<open>os\<close> is what \<open>n\<close> routines in a row make of \<open>ms\<close>, each possibly short of its end.\<close>

fun made :: "(nat \<Rightarrow> ('d, 'd, 'r) routine_ops) \<Rightarrow> (nat \<Rightarrow> 'r) \<Rightarrow> nat \<Rightarrow> ('d, 's) message list \<Rightarrow> ('d, 's) message list \<Rightarrow> bool" where
  "made ro r0 0 ms os \<longleftrightarrow> os = ms"
| "made ro r0 (Suc n) ms os \<longleftrightarrow> (\<exists>is. made ro r0 n ms is \<and> leads_to (ro n) (r0 n) None is os)"

lemma left_over_made:
  assumes "left_over ro r0 k w"
  shows "j \<le> Suc k \<Longrightarrow> made ro r0 j (pp_took w 0) (pp_took w j)"
proof (induction j)
  case 0
  then show ?case by simp
next
  case (Suc j)
  with assms have l: "leads_to (ro j) (r0 j) None (pp_recv w j) (pp_took w (Suc j))"
    by (simp add: left_over_def stage_left_def)
  from assms have "pp_took w j = pp_recv w j @ i_buffer (pp_edge w j)" by (simp add: left_over_def linked_def)
  with leads_to_mono [OF l, of "pp_took w (Suc j)" "i_buffer (pp_edge w j)"] Suc show ?case by auto
qed

lemma made_prefix: "made ro r0 (Suc n) ms os \<Longrightarrow> prefix os' os \<Longrightarrow> made ro r0 (Suc n) ms os'"
  using leads_to_mono [of "ro n" "r0 n" None _ os os' "[]"] by auto

lemma signals_prefix: "prefix xs ys \<Longrightarrow> prefix (signals xs) (signals ys)"
  by (auto simp: prefix_def signals_def)

lemma map_filter_signals: "List.map_filter (\<lambda>m. if is_data m then None else Some m) ms = signals ms"
  by (induction ms) (simp_all add: List.map_filter_simps signals_def)

lemma line_accept_owes: "line_accept ro m r = (Ok q, r1) \<Longrightarrow> q = (if is_data m then None else Some m)"
  by (cases m) (auto split: result.splits prod.splits)

lemma transduces_line_signals:
  assumes "transduces (r_next ro) (line_accept ro) r None is os r' p"
  shows "signals is = signals os @ (case p of None \<Rightarrow> [] | Some s \<Rightarrow> [s])"
proof -
  have "signals os @ (case p of None \<Rightarrow> [] | Some s \<Rightarrow> [s]) =
      (case None of None \<Rightarrow> [] | Some s \<Rightarrow> [s]) @ List.map_filter (\<lambda>m. if is_data m then None else Some m) is"
  proof (rule transduces_signals [OF assms])
    show "line_accept ro m r = (Ok q, r1) \<Longrightarrow> q = (if is_data m then None else Some m)" for m r q r1
      by (rule line_accept_owes)
  qed (simp_all split: if_splits)
  then show ?thesis by (simp add: map_filter_signals)
qed

lemma made_signals: "made ro r0 n ms os \<Longrightarrow> prefix (signals os) (signals ms)"
proof (induction n arbitrary: os)
  case 0
  then show ?case by simp
next
  case (Suc n os)
  then obtain js where m: "made ro r0 n ms js" "leads_to (ro n) (r0 n) None js os" by auto
  from m(2) obtain i os' r1 p1 where
    t: "transduces (r_next (ro n)) (line_accept (ro n)) (r0 n) None (take i js) os' r1 p1" "prefix os os'"
    unfolding leads_to_def by blast
  have e: "signals (take i js) = signals os' @ (case p1 of None \<Rightarrow> [] | Some s \<Rightarrow> [s])"
    by (rule transduces_line_signals [OF t(1)])
  have "prefix (signals os') (signals (take i js))" unfolding e by simp
  moreover have "prefix (signals (take i js)) (signals js)" by (rule signals_prefix) (rule take_is_prefix)
  ultimately show ?case
    using Suc.IH [OF m(1)] signals_prefix [OF t(2)] by (metis prefix_order.trans)
qed

text \<open>C4. A pipeline of work lines between a writer and a reader delivers what its routines make, in order. For any
  routines, edge bounds and sequence of pushes, closes, reads and polls, cut short by any error or not: the
  messages read are what the routines in a row make of the messages pushed, each possibly short of its end;
  signals are read once each, in the order pushed. While no operation
  has failed nothing is lost: everything pushed was accepted, each edge's messages are handed over or still in its
  buffer, and every stage not dropped has delivered, but for one message it holds, all that its routine made of
  what it consumed.\<close>

theorem pipeline_session:
  fixes w :: "('d, 's, 'r) pipe"
  assumes run: "io_session ro k ops (pipe_of r0 bounds k) = Some (q, reads, w)"
  shows "\<exists>ps. prefix ps (concat (map pushed_of ops)) \<and> made ro r0 (Suc k) ps reads \<and> prefix (signals reads) (signals ps) \<and>
     (is_ok q \<longrightarrow> ps = concat (map pushed_of ops) \<and> pp_took w 0 = ps \<and> pp_recv w (Suc k) = reads \<and> linked w \<and>
        (\<forall>j\<le>k. j \<notin> set (pp_gone w) \<longrightarrow> stage_ok ro r0 j w))"
proof -
  have W: "at_work ro r0 k (pipe_of r0 bounds k :: ('d, 's, 'r) pipe)" by (rule pipe_of_at_work) simp
  have E: "pp_took (pipe_of r0 bounds k :: ('d, 's, 'r) pipe) n = []" "pp_recv (pipe_of r0 bounds k :: ('d, 's, 'r) pipe) n = []" for n
    by (rule pipe_of_at_work; simp)+
  from io_session_keeps [OF run W] E obtain ps where
    l: "left_over ro r0 k w" "is_ok q \<longrightarrow> at_work ro r0 k w" "pp_recv w (Suc k) = reads" "pp_took w 0 = ps"
      "prefix ps (concat (map pushed_of ops))" "is_ok q \<longrightarrow> ps = concat (map pushed_of ops)"
    by auto
  have "made ro r0 (Suc k) ps (pp_took w (Suc k))" using left_over_made [OF l(1), of "Suc k"] l(4) by simp
  moreover have "prefix reads (pp_took w (Suc k))" using l(1,3) by (simp add: left_over_def linked_def)
  ultimately have "made ro r0 (Suc k) ps reads" by (rule made_prefix)
  moreover from this have "prefix (signals reads) (signals ps)" by (rule made_signals)
  moreover have "linked w \<and> (\<forall>j\<le>k. j \<notin> set (pp_gone w) \<longrightarrow> stage_ok ro r0 j w)" if "at_work ro r0 k w"
    using that by (auto simp: at_work_def chain_def less_Suc_eq_le)
  ultimately show ?thesis using l by blast
qed

text \<open>Two stages that add one, a bounded edge between them; two data and a Flush, all read.\<close>

theorem pipeline_session_witness:
  "\<exists>ps reads w.
     io_session (\<lambda>_. add_one) 1 [IoPush (Data 4), IoPush (Flush 7), IoRead, IoPush (Data 8), IoRead, IoRead, IoPoll]
       (pipe_of (\<lambda>_. None) (\<lambda>n. Some (if n = 0 then 2 else 1)) 1 :: (nat, nat, nat option) pipe) = Some (Ok (), reads, w) \<and>
     reads = [Data 6, Flush 7, Data 10] \<and> ps = [Data 4, Flush 7, Data 8] \<and>
     made (\<lambda>_. add_one) (\<lambda>_. None) 2 ps reads"
proof -
  let ?ops = "[IoPush (Data 4), IoPush (Flush 7), IoRead, IoPush (Data 8), IoRead, IoRead, IoPoll] :: (nat, nat) io_op list"
  let ?run = "io_session (\<lambda>_. add_one) 1 ?ops (pipe_of (\<lambda>_. None) (\<lambda>n. Some (if n = 0 then 2 else 1)) 1)"
  have "case ?run of Some (Ok u, reads, w) \<Rightarrow> reads = [Data 6, Flush 7, Data 10] | _ \<Rightarrow> False" by code_simp
  then obtain w where r: "?run = Some (Ok (), [Data 6, Flush 7, Data 10], w)"
    by (cases ?run; force split: result.splits)
  from pipeline_session [OF r] have "made (\<lambda>_. add_one) (\<lambda>_. None) 2 (concat (map pushed_of ?ops)) [Data 6, Flush 7, Data 10]"
    by (metis is_ok.simps(1) numeral_2_eq_2 One_nat_def)
  with r show ?thesis by (simp del: io_session.simps io_exec.simps made.simps)
qed

end
