(* ===== verification/Pipeline_Close.thy ===== *)
theory Pipeline_Close
  imports Pipeline
begin

text \<open>
  Closing a pipeline (src/error/core.rs on \<open>Closed\<close>, src/writer/push.rs, src/node/line/work/node.rs): when the
  writer closes its end, every stage works off what it was given, closes what it feeds and is dropped by its owner, and
  the reader hears \<open>Closed\<close> only when everything was read. A stage whose routine reports \<open>Closed\<close> itself ends
  where it is, and its owner drops it with all that is behind it; from that stage on, everything is still read.
\<close>

section \<open>Open, shut, finished and given up\<close>

definition open_edge :: "nat \<Rightarrow> ('d, 's, 'r) pipe \<Rightarrow> bool" where
  "open_edge n w \<longleftrightarrow> ends w n = (False, False, 1)"

definition shut :: "nat \<Rightarrow> ('d, 's, 'r) pipe \<Rightarrow> bool" where
  "shut n w \<longleftrightarrow> i_closed (pp_edge w n)"

lemma open_not_shut: "open_edge n w \<Longrightarrow> \<not> shut n w"
  by (simp add: open_edge_def shut_def ends_def)

text \<open>All of \<open>is\<close> was taken, all the routine makes of it was sent, and the routine has nothing more.\<close>

definition exhausts :: "('i, 'o, 'r) routine_ops \<Rightarrow> 'r \<Rightarrow> ('i, 's) message list \<Rightarrow> ('o, 's) message list \<Rightarrow> bool" where
  "exhausts ro r0 is os \<longleftrightarrow>
     (\<exists>r r'. transduces (r_next ro) (line_accept ro) r0 None is os r None \<and> r_next ro r = (Ok None, r'))"

text \<open>Of \<open>is\<close> the routine made \<open>os\<close>, and then it reported \<open>Closed\<close>: asked for output, or given the last of \<open>is\<close>.\<close>

definition gives_up :: "('i, 'o, 'r) routine_ops \<Rightarrow> 'r \<Rightarrow> ('i, 's) message list \<Rightarrow> ('o, 's) message list \<Rightarrow> bool" where
  "gives_up ro r0 is os \<longleftrightarrow>
     (\<exists>js m r p. is = js @ m \<and> transduces (r_next ro) (line_accept ro) r0 None js os r p \<and> reports_closed ro r p m)"

definition finished :: "(nat \<Rightarrow> ('d, 'd, 'r) routine_ops) \<Rightarrow> (nat \<Rightarrow> 'r) \<Rightarrow> nat \<Rightarrow> ('d, 's, 'r) pipe \<Rightarrow> bool" where
  "finished ro r0 j w \<longleftrightarrow>
     shut j w \<and> shut (Suc j) w \<and> pp_recv w j = pp_took w j \<and> exhausts (ro j) (r0 j) (pp_took w j) (pp_took w (Suc j))"

definition given_up :: "(nat \<Rightarrow> ('d, 'd, 'r) routine_ops) \<Rightarrow> (nat \<Rightarrow> 'r) \<Rightarrow> nat \<Rightarrow> ('d, 's, 'r) pipe \<Rightarrow> bool" where
  "given_up ro r0 j w \<longleftrightarrow> gives_up (ro j) (r0 j) (pp_recv w j) (pp_took w (Suc j))"

text \<open>A stage dropped had finished, one at work feeds an open edge.\<close>

definition ends_right :: "(nat \<Rightarrow> ('d, 'd, 'r) routine_ops) \<Rightarrow> (nat \<Rightarrow> 'r) \<Rightarrow> nat \<Rightarrow> ('d, 's, 'r) pipe \<Rightarrow> bool" where
  "ends_right ro r0 j w \<longleftrightarrow> (if j \<in> set (pp_gone w) then finished ro r0 j w else open_edge (Suc j) w)"

text \<open>Where the messages still to be read come from: the writer, whose end is open or closed, or what is left of a
  stage that was dropped when its routine gave up.\<close>

fun frontier :: "(nat \<Rightarrow> ('d, 'd, 'r) routine_ops) \<Rightarrow> (nat \<Rightarrow> 'r) \<Rightarrow> nat \<Rightarrow> ('d, 's, 'r) pipe \<Rightarrow> bool" where
  "frontier ro r0 0 w \<longleftrightarrow> open_edge 0 w \<or> shut 0 w"
| "frontier ro r0 (Suc j) w \<longleftrightarrow> j \<in> set (pp_gone w) \<and> shut (Suc j) w \<and> given_up ro r0 j w"

definition closing :: "(nat \<Rightarrow> ('d, 'd, 'r) routine_ops) \<Rightarrow> (nat \<Rightarrow> 'r) \<Rightarrow> nat \<Rightarrow> ('d, 's, 'r) pipe \<Rightarrow> bool" where
  "closing ro r0 k w \<longleftrightarrow>
     (\<exists>f\<le>k. frontier ro r0 f w \<and> (\<forall>j. f \<le> j \<and> j < k \<longrightarrow> ends_right ro r0 j w))"

lemma closingI:
  "f \<le> k \<Longrightarrow> frontier ro r0 f w \<Longrightarrow> (\<And>j. f \<le> j \<Longrightarrow> j < k \<Longrightarrow> ends_right ro r0 j w) \<Longrightarrow> closing ro r0 k w"
  unfolding closing_def by blast

lemma closingE:
  assumes "closing ro r0 k w"
  obtains f where "f \<le> k" "frontier ro r0 f w" "\<forall>j. f \<le> j \<longrightarrow> j < k \<longrightarrow> ends_right ro r0 j w"
  using assms unfolding closing_def by blast

lemma ends_shut: "ends w' n = ends w n \<Longrightarrow> shut n w' = shut n w" "ends w' n = ends w n \<Longrightarrow> open_edge n w' = open_edge n w"
  by (simp_all add: shut_def open_edge_def ends_def)

lemma finished_mono:
  assumes "finished ro r0 j w" "shut j w \<Longrightarrow> shut j w'" "shut (Suc j) w \<Longrightarrow> shut (Suc j) w'"
    "pp_recv w' j = pp_recv w j" "pp_took w' j = pp_took w j" "pp_took w' (Suc j) = pp_took w (Suc j)"
  shows "finished ro r0 j w'"
  using assms by (simp add: finished_def)

lemma frontier_mono:
  assumes "frontier ro r0 f w" "f = 0 \<Longrightarrow> open_edge 0 w \<Longrightarrow> open_edge 0 w' \<or> shut 0 w'" "shut f w \<Longrightarrow> shut f w'"
    "set (pp_gone w) \<subseteq> set (pp_gone w')"
    "\<And>j. f = Suc j \<Longrightarrow> pp_recv w' j = pp_recv w j \<and> pp_took w' (Suc j) = pp_took w (Suc j)"
  shows "frontier ro r0 f w'"
  using assms by (cases f) (auto simp: given_up_def)

text \<open>What keeps the ends right: edges that were shut stay shut, the others are as they were, and no stage is dropped.\<close>

lemma closing_mono:
  assumes c: "closing ro r0 k w" and s: "\<And>n. n \<le> k \<Longrightarrow> shut n w \<Longrightarrow> shut n w'"
    and o0: "open_edge 0 w \<Longrightarrow> open_edge 0 w' \<or> shut 0 w'"
    and o: "\<And>n. 0 < n \<Longrightarrow> n \<le> k \<Longrightarrow> open_edge n w \<Longrightarrow> open_edge n w'"
    and r: "\<And>j. j < k \<Longrightarrow> pp_recv w' j = pp_recv w j"
    and t: "\<And>j. j \<le> k \<Longrightarrow> pp_took w' j = pp_took w j \<or> j = 0 \<and> \<not> shut 0 w"
    and g: "\<And>j. j < k \<Longrightarrow> j \<in> set (pp_gone w') \<longleftrightarrow> j \<in> set (pp_gone w)"
  shows "closing ro r0 k w'"
proof -
  from c obtain f where f: "f \<le> k" "frontier ro r0 f w" "\<forall>j. f \<le> j \<longrightarrow> j < k \<longrightarrow> ends_right ro r0 j w" by (rule closingE)
  have "frontier ro r0 f w'"
    using f(1,2) s [of f] o0 r t [of f] g by (cases f) (auto simp: given_up_def)
  moreover have "ends_right ro r0 j w'" if j: "f \<le> j" "j < k" for j
  proof (cases "j \<in> set (pp_gone w)")
    case True
    with f(3) [rule_format, OF j] have fin: "finished ro r0 j w" by (simp add: ends_right_def)
    then have "pp_took w' j = pp_took w j" using t [of j] j by (auto simp: finished_def)
    moreover have "pp_took w' (Suc j) = pp_took w (Suc j)" using t [of "Suc j"] j by auto
    ultimately have "finished ro r0 j w'" using fin s r j by (intro finished_mono [OF fin]) auto
    with True g j show ?thesis by (simp add: ends_right_def)
  next
    case False
    with f(3) [rule_format, OF j] o [of "Suc j"] g j show ?thesis by (simp add: ends_right_def)
  qed
  ultimately show ?thesis using f(1) by (intro closingI)
qed

lemma closing_same:
  assumes c: "closing ro r0 k w" and e: "\<And>n. n \<le> k \<Longrightarrow> ends w' n = ends w n" and r: "\<And>j. j < k \<Longrightarrow> pp_recv w' j = pp_recv w j"
    and t: "\<And>j. j \<le> k \<Longrightarrow> pp_took w' j = pp_took w j"
    and g: "\<And>j. j < k \<Longrightarrow> j \<in> set (pp_gone w') \<longleftrightarrow> j \<in> set (pp_gone w)"
  shows "closing ro r0 k w'"
  by (rule closing_mono [OF c]) (use ends_shut [OF e] r t g in auto)

text \<open>A stage at work has an open edge before it.\<close>

lemma closing_Suc: "k \<notin> set (pp_gone w) \<Longrightarrow> closing ro r0 (Suc k) w \<longleftrightarrow> closing ro r0 k w \<and> open_edge (Suc k) w"
proof
  assume g: "k \<notin> set (pp_gone w)" and c: "closing ro r0 (Suc k) w"
  from c obtain f where f: "f \<le> Suc k" "frontier ro r0 f w" "\<forall>j. f \<le> j \<longrightarrow> j < Suc k \<longrightarrow> ends_right ro r0 j w" by (rule closingE)
  then have "f \<le> k" using g by (cases "f = Suc k") auto
  with f g f(3) [rule_format, of k] show "closing ro r0 k w \<and> open_edge (Suc k) w"
    by (auto intro: closingI simp: ends_right_def)
next
  assume g: "k \<notin> set (pp_gone w)" and c: "closing ro r0 k w \<and> open_edge (Suc k) w"
  then obtain f where f: "f \<le> k" "frontier ro r0 f w" "\<forall>j. f \<le> j \<longrightarrow> j < k \<longrightarrow> ends_right ro r0 j w" by (auto elim: closingE)
  with c g show "closing ro r0 (Suc k) w" by (intro closingI [of f]) (auto simp: ends_right_def less_Suc_eq)
qed

text \<open>Before a shut edge there is no stage left.\<close>

lemma shut_gone:
  assumes c: "closing ro r0 k w" and s: "shut k w"
  shows "live_parents k w = []"
proof (cases k)
  case 0
  then show ?thesis by simp
next
  case (Suc i)
  from c obtain f where f: "f \<le> k" "frontier ro r0 f w" "\<forall>j. f \<le> j \<longrightarrow> j < k \<longrightarrow> ends_right ro r0 j w" by (rule closingE)
  have "i \<in> set (pp_gone w)"
  proof (cases "f = Suc i")
    case True
    with f(2) show ?thesis by simp
  next
    case False
    with f(1) Suc have "ends_right ro r0 i w" by (intro f(3) [rule_format]) auto
    with s Suc open_not_shut [of "Suc i" w] show ?thesis by (auto simp: ends_right_def split: if_splits)
  qed
  with Suc show ?thesis by simp
qed

text \<open>A finished stage has finished stages before it, back to the frontier.\<close>

lemma finished_all:
  assumes c: "closing ro r0 k w" and d: "finished ro r0 k w"
  obtains f where "f \<le> k" "frontier ro r0 f w" "\<forall>j. f \<le> j \<longrightarrow> j \<le> k \<longrightarrow> finished ro r0 j w"
proof -
  from c obtain f where f: "f \<le> k" "frontier ro r0 f w" "\<forall>j. f \<le> j \<longrightarrow> j < k \<longrightarrow> ends_right ro r0 j w" by (rule closingE)
  have "finished ro r0 j w" if "f \<le> j" "j \<le> k" for j
    using that
  proof (induction "k - j" arbitrary: j)
    case 0
    with d show ?case by simp
  next
    case (Suc n)
    then have "finished ro r0 (Suc j) w" by simp
    then have "shut (Suc j) w" by (simp add: finished_def)
    moreover have "j < k" using Suc.hyps(2) by simp
    ultimately show ?case
      using f(3) [rule_format, OF Suc.prems(1)] open_not_shut [of "Suc j" w] by (auto simp: ends_right_def split: if_splits)
  qed
  with f(1,2) that show thesis by blast
qed

text \<open>Dropping shuts the edges of what is dropped and leaves the others alone.\<close>

lemma drop_line_edges:
  "n \<noteq> k \<Longrightarrow> n \<noteq> Suc k \<Longrightarrow> ends (drop_line k w) n = ends w n"
  "shut n w \<Longrightarrow> shut n (drop_line k w)"
  "open_edge (Suc k) w \<Longrightarrow> shut (Suc k) (drop_line k w)"
  by (auto simp: drop_line_def ends_def shut_def open_edge_def Let_def sender_drop_def sender_release_def
      receiver_drop_def close_infallible_def close_edge_def)

lemma drop_stage_edges:
  "Suc k < n \<Longrightarrow> ends (drop_stage k w) n = ends w n"
  "shut n w \<Longrightarrow> shut n (drop_stage k w)"
  "open_edge (Suc k) w \<Longrightarrow> shut (Suc k) (drop_stage k w)"
proof (induction k arbitrary: n w)
  case 0
  {
    case 1
    then show ?case by (simp add: drop_line_edges)
  next
    case 2
    then show ?case by (simp add: drop_line_edges)
  next
    case 3
    then show ?case by (simp add: drop_line_edges)
  }
next
  case (Suc k)
  {
    case 1
    then show ?case using Suc.IH(1) [of n] by (simp add: drop_line_edges)
  next
    case 2
    then show ?case using Suc.IH(2) [of n] by (simp add: drop_line_edges)
  next
    case 3
    then have "open_edge (Suc (Suc k)) (drop_stage k w)" using Suc.IH(1) [of "Suc (Suc k)" w] by (simp add: open_edge_def)
    with 3 show ?case by (simp add: drop_line_edges)
  }
qed

text \<open>Dropping a stage that finished leaves the rest of the pipeline as it was; one that gave up is the new frontier.\<close>

lemma drop_finished:
  assumes c: "closing ro r0 k w" and d: "finished ro r0 k w" and wired: "ln_workers (pp_line w k) = live_parents k w"
  shows "closing ro r0 (Suc k) (drop_stage k w)"
proof -
  have sh: "shut k w" using d by (simp add: finished_def)
  with shut_gone [OF c] wired have e: "drop_stage k w = drop_line k w" by (cases k) simp_all
  have mono: "finished ro r0 j (drop_line k w)" if "finished ro r0 j w" for j
    using that by (rule finished_mono) (simp_all add: drop_line_edges)
  have same: "open_edge n (drop_line k w) = open_edge n w" if "n < k" for n
    using that drop_line_edges(1) [of n k w] by (simp add: open_edge_def)
  from c obtain f where f: "f \<le> k" "frontier ro r0 f w" "\<forall>j. f \<le> j \<longrightarrow> j < k \<longrightarrow> ends_right ro r0 j w" by (rule closingE)
  have fr: "frontier ro r0 f (drop_line k w)"
    by (rule frontier_mono [OF f(2)]) (use same [of 0] sh drop_line_edges(2) in \<open>cases k; auto\<close>)+
  have "ends_right ro r0 j (drop_line k w)" if j: "f \<le> j" "j < Suc k" for j
  proof (cases "j = k")
    case True
    with d mono show ?thesis by (simp add: ends_right_def)
  next
    case False
    with j have j': "j < k" by simp
    with f(3) [rule_format, OF j(1)] mono same [of "Suc j"] open_not_shut [of k w] sh False show ?thesis
      by (cases "Suc j = k") (auto simp: ends_right_def split: if_splits)
  qed
  with f(1) fr show ?thesis unfolding e by (intro closingI) auto
qed

lemma drop_given_up:
  assumes "open_edge (Suc k) w" "given_up ro r0 k w"
  shows "closing ro r0 (Suc k) (drop_stage k w)"
  using assms drop_stage_edges(3) drop_stage_gone(1)
  by (intro closingI [of "Suc k"]) (auto simp: given_up_def)

section \<open>A round\<close>

text \<open>What holds of the stages before \<open>k\<close> while it works; with its own edge open until it closes it.\<close>

definition winding ::
  "(nat \<Rightarrow> ('d, 'd, 'r) routine_ops) \<Rightarrow> (nat \<Rightarrow> 'r) \<Rightarrow> nat \<Rightarrow> ('d, 's, 'r) pipe \<Rightarrow> nat list \<Rightarrow> ('d, 's, 'r) pipe \<Rightarrow> bool" where
  "winding ro r0 k w0 ws v \<longleftrightarrow>
     going ro r0 k (set (pp_gone w0)) ws v \<and> closing ro r0 k v \<and> (\<forall>n>Suc k. ends v n = ends w0 n)"

text \<open>A stage that ends has finished, or its routine gave up and its edge is left to its owner.\<close>

definition ended ::
  "(nat \<Rightarrow> ('d, 'd, 'r) routine_ops) \<Rightarrow> (nat \<Rightarrow> 'r) \<Rightarrow> nat \<Rightarrow> ('d, 's, 'r) pipe \<Rightarrow> bool" where
  "ended ro r0 k w \<longleftrightarrow> closing ro r0 k w \<and> (finished ro r0 k w \<or> open_edge (Suc k) w \<and> given_up ro r0 k w)"

definition round_closes ::
  "(nat \<Rightarrow> ('d, 'd, 'r) routine_ops) \<Rightarrow> (nat \<Rightarrow> 'r) \<Rightarrow> nat \<Rightarrow> unit res \<Rightarrow> ('d, 's, 'r) pipe \<Rightarrow> ('d, 's, 'r) pipe \<Rightarrow> bool" where
  "round_closes ro r0 k q w w' \<longleftrightarrow>
     (is_ok q \<longrightarrow> closing ro r0 (Suc k) w' \<and> (\<forall>n>Suc k. ends w' n = ends w n)) \<and>
     (q = Err Closed \<longrightarrow> ended ro r0 k w' \<and> (\<forall>n>Suc k. ends w' n = ends w n) \<and> pp_took w' (Suc k) = pp_took w (Suc k))"

lemma drop_ended:
  assumes "ended ro r0 k w" "ln_workers (pp_line w k) = live_parents k w"
  shows "closing ro r0 (Suc k) (drop_stage k w)"
  using assms drop_finished drop_given_up unfolding ended_def by blast

lemma winding_touches:
  assumes t: "touches {Suc k} {k} v v'" and e: "\<And>n. n \<noteq> Suc k \<Longrightarrow> ends v' n = ends v n" and g: "winding ro r0 k w0 ws v"
  shows "winding ro r0 k w0 ws v'"
proof -
  have "closing ro r0 k v'"
    by (rule closing_same [of ro r0 k v]) (use g t e in \<open>auto simp: touches_def winding_def\<close>)
  with going_touches [OF t] e g show ?thesis by (simp add: winding_def)
qed

lemma parents_wind:
  fixes w :: "('d, 's, 'r) pipe"
  assumes IH: "\<And>i (v :: ('d, 's, 'r) pipe) q v'. k = Suc i \<Longrightarrow> chain ro r0 (Suc i) v \<Longrightarrow> i \<notin> set (pp_gone v) \<Longrightarrow>
      closing ro r0 (Suc i) v \<Longrightarrow> stage_work ro i v = Some (q, v') \<Longrightarrow> round_closes ro r0 i q v v'"
  shows "round_keeps (edge_sink (Suc k)) (edge_input k) (stage_parents (parent_of ro k))
      (\<lambda>ws (v :: ('d, 's, 'r) pipe). winding ro r0 k w ws v \<and> open_edge (Suc k) v) (winding ro r0 k w) (\<lambda>v. True)"
    (is "round_keeps _ _ _ ?G ?C ?R")
proof (rule stage_round_keeps)
  show "?G ws v'" if "touches {Suc k} {k} v v'" "ends v' = ends v" "?G ws v" for ws v v'
    using winding_touches [OF that(1), of ro r0 w ws] that(2,3) by (simp add: open_edge_def)
  show "?G (rotate1 ws) v" if "?G ws v" for ws v using that going_rotate by (auto simp: winding_def)
  fix ws i v q v' assume g: "?G ws v" and i: "i < length ws" and u: "parent_of ro k v = Some (q, v')"
  then have go: "going ro r0 k (set (pp_gone w)) ws v" and cl: "closing ro r0 k v" by (auto simp: winding_def)
  from going_parent [OF go i u] obtain p where k: "k = Suc p" and s: "stage_work ro p v = Some (q, v')"
    and p: "p \<notin> set (pp_gone v)" "ws = [p]" "i = 0" and c: "chain ro r0 (Suc p) v" .
  have r: "round_closes ro r0 p q v v'" by (rule IH [OF k c p(1) _ s]) (use cl k in simp)
  have ok: "round_ok ro r0 p q v v'" by (rule stage_work_round [OF c p(1) s])
  have gone: "\<forall>j\<ge>k. j \<in> set (pp_gone v') \<longleftrightarrow> j \<in> set (pp_gone w)" using ok go k by (simp add: round_ok_def going_def)
  have ends: "\<forall>n>Suc p. ends v' n = ends v n" if "ends_well q" using r that by (cases q) (auto simp: round_closes_def)
  have "?G ws v'" if q: "is_ok q"
  proof -
    have "ends_well q" using q by (cases q) auto
    with r ok p gone k q ends g show ?thesis
      by (auto simp: round_ok_def round_closes_def winding_def going_def open_edge_def)
  qed
  moreover have "?G (swap_remove i ws) (drop_stage (ws ! i) v')" if q: "q = Err Closed"
  proof -
    from q ok have "chain ro r0 p v'" "ln_workers (pp_line v' p) = live_parents p v'" "stage_left ro r0 p v'"
      by (auto simp: round_ok_def)
    with drop_stage_chain have ch: "chain ro r0 (Suc p) (drop_stage p v')" by blast
    from r q have "ended ro r0 p v'" by (auto simp: round_closes_def)
    with \<open>ln_workers (pp_line v' p) = live_parents p v'\<close> have d: "closing ro r0 (Suc p) (drop_stage p v')"
      by (intro drop_ended)
    from ends q have "\<forall>n>Suc p. ends (drop_stage p v') n = ends v n" by (simp add: drop_stage_edges(1))
    with ch d p k gone g show ?thesis
      by (auto simp: winding_def going_def swap_remove_def drop_stage_gone open_edge_def)
  qed
  ultimately show "?R v' \<and> (is_ok q \<longrightarrow> ?G ws v') \<and> (q = Err Closed \<longrightarrow> ?G (swap_remove i ws) (drop_stage (ws ! i) v'))"
    by blast
qed (auto intro: winding_touches)

text \<open>The end of an input edge: closed or without senders, and empty.\<close>

lemma edge_poll_err:
  "inp_poll (edge_input n) v = (Err x, v') \<Longrightarrow> i_buffer (pp_edge v' n) = [] \<and> (i_closed (pp_edge v' n) \<or> producer_count (pp_edge v' n) = 0)"
  by (auto simp: edge_input_def receiver_poll_def Let_def split: list.splits prod.splits if_splits)

lemma edge_wait_err:
  "inp_wait (edge_input n) v = Some (Err x, v') \<Longrightarrow> i_buffer (pp_edge v' n) = [] \<and> (i_closed (pp_edge v' n) \<or> producer_count (pp_edge v' n) = 0)"
  by (auto simp: edge_input_def wait_front_def wait_nonempty.simps [of "\<lambda>_. None"] split: option.splits if_splits)

lemma edge_try_push_open: "open_edge n w \<Longrightarrow> fst (op_try_push (edge_sink n) e m w) \<noteq> Err Closed"
  by (auto simp: edge_sink_def open_edge_def ends_def try_push_back_def wake_consumer_def Let_def)

lemma edge_push_open: "open_edge n w \<Longrightarrow> op_push (edge_sink n) e m w \<noteq> Some (Err Closed, w')"
  by (auto simp: edge_sink_def open_edge_def ends_def push_back_def push_land_def wake_consumer_def wait_for_room_def
      wait_while_full.simps [of "\<lambda>_. None"] Let_def split: if_splits option.splits)

lemma not_open_shut:
  assumes c: "closing ro r0 k w" and e: "i_closed (pp_edge w k) \<or> producer_count (pp_edge w k) = 0"
  shows "shut k w"
proof -
  have no: "\<not> open_edge k w" using e by (auto simp: open_edge_def ends_def)
  from c obtain f where f: "f \<le> k" "frontier ro r0 f w" "\<forall>j. f \<le> j \<longrightarrow> j < k \<longrightarrow> ends_right ro r0 j w" by (rule closingE)
  show ?thesis
  proof (cases "f = k")
    case True
    with f(2) no show ?thesis by (cases k) auto
  next
    case False
    with f(1) obtain i where i: "k = Suc i" "f \<le> i" by (cases k) auto
    with f(3) have "ends_right ro r0 i w" by simp
    with no i show ?thesis by (auto simp: ends_right_def finished_def split: if_splits)
  qed
qed

text \<open>The two ways a round ends the stage: at the end of its input, or where the routine reports \<open>Closed\<close>.\<close>

lemma round_finishes:
  fixes w w1 v :: "('d, 's, 'r) pipe"
  assumes ok: "stage_ok ro r0 k w" and ready: "fanout_ready (ln_outputs (pp_line w k))"
    and n: "next_message (ro k) (edge_input k) (stage_parents (parent_of ro k))
        (ln_worker (pp_line w k), ln_workers (pp_line w k), ln_pending (pp_line w k), w) = Some (Ok IClosed, r, ws, p, w1)"
    and g1: "winding ro r0 k w ws w1" "open_edge (Suc k) w1"
    and cls: "close_all (edge_sink (Suc k)) (f_edges (ln_outputs (pp_line w k))) (Ok ()) w1 = (x, v)"
  shows "finished ro r0 k v \<and> pp_took v (Suc k) = pp_took w (Suc k)"
proof -
  from ok cls have cls1: "op_close (edge_sink (Suc k)) () w1 = (fst (op_close (edge_sink (Suc k)) () w1), v)"
    by (auto simp: stage_ok_def split: prod.splits result.splits)
  have D: "(i_buffer (pp_edge w1 k) = [] \<and> (i_closed (pp_edge w1 k) \<or> producer_count (pp_edge w1 k) = 0)) \<and> p = None \<and>
      (\<forall>e :: unit. pp_took w1 (Suc k) = pp_took w (Suc k)) \<and>
      (\<exists>ms r1. pp_recv w1 k = pp_recv w k @ ms \<and>
         transduces (r_next (ro k)) (line_accept (ro k)) (ln_worker (pp_line w k)) (ln_pending (pp_line w k)) ms [] r1 None \<and>
         r_next (ro k) r1 = (Ok None, r))"
    by (rule stage.next_message_closes [OF n]) (fact edge_poll_err edge_wait_err)+
  have same: "pp_took v = pp_took w1" "pp_recv v = pp_recv w1"
    using edge_close_touches [OF cls1] by (auto simp: touches_def fun_eq_iff)
  from g1 have "linked w1" "shut k w1"
    using D not_open_shut [of ro r0 k w1] by (auto simp: winding_def going_def chain_def)
  then have r1: "pp_recv w1 k = pp_took w1 k" using D by (simp add: linked_def)
  have "ends v k = ends w1 k" "ends v (Suc k) = (True, True, 0)"
    using g1 edge_close_ends [OF cls1] by (simp_all add: open_edge_def)
  then have shut: "shut k v" "shut (Suc k) v"
    using \<open>shut k w1\<close> ends_shut(1) [of v k w1] by (simp_all add: shut_def ends_def)
  from ready have due: "fanout_due (ln_outputs (pp_line w k)) 0 = []" by (simp add: fanout_ready_def fanout_due_def)
  from D obtain ms rr where t: "pp_recv w1 k = pp_recv w k @ ms" "pp_took w1 (Suc k) = pp_took w (Suc k)"
    "transduces (r_next (ro k)) (line_accept (ro k)) (ln_worker (pp_line w k)) (ln_pending (pp_line w k)) ms [] rr None"
    "r_next (ro k) rr = (Ok None, r)" by auto
  from ok due have "transduces (r_next (ro k)) (line_accept (ro k)) (r0 k) None (pp_recv w k)
    (pp_took w (Suc k)) (ln_worker (pp_line w k)) (ln_pending (pp_line w k))" by (simp add: stage_ok_def)
  from transduces_append [OF this t(3)] t r1 have "exhausts (ro k) (r0 k) (pp_took w1 k) (pp_took w1 (Suc k))"
    unfolding exhausts_def by auto
  with shut same r1 t(2) show ?thesis by (simp add: finished_def)
qed

lemma round_gives_up:
  fixes w w1 :: "('d, 's, 'r) pipe"
  assumes ok: "stage_ok ro r0 k w" and ready: "fanout_ready (ln_outputs (pp_line w k))"
    and keeps: "round_keeps (edge_sink (Suc k)) (edge_input k) (stage_parents (parent_of ro k)) G C R"
    and g: "G (ln_workers (pp_line w k)) w"
    and n: "next_message (ro k) (edge_input k) (stage_parents (parent_of ro k))
        (ln_worker (pp_line w k), ln_workers (pp_line w k), ln_pending (pp_line w k), w) = Some (Err Closed, r, ws, p, w1)"
  shows "given_up ro r0 k w1 \<and> pp_took w1 (Suc k) = pp_took w (Suc k)"
proof -
  from ready have due: "fanout_due (ln_outputs (pp_line w k)) 0 = []" by (simp add: fanout_ready_def fanout_due_def)
  from stage.next_message_gives_up [OF keeps g n] obtain ms m r1 p1 where
    t: "pp_took w1 (Suc k) = pp_took w (Suc k)" "pp_recv w1 k = pp_recv w k @ ms @ m" "reports_closed (ro k) r1 p1 m"
      "transduces (r_next (ro k)) (line_accept (ro k)) (ln_worker (pp_line w k)) (ln_pending (pp_line w k)) ms [] r1 p1"
    by auto
  from ok due have "transduces (r_next (ro k)) (line_accept (ro k)) (r0 k) None (pp_recv w k)
    (pp_took w (Suc k)) (ln_worker (pp_line w k)) (ln_pending (pp_line w k))" by (simp add: stage_ok_def)
  from transduces_append [OF this t(4)] t(1-3)
  have "gives_up (ro k) (r0 k) (pp_recv w1 k) (pp_took w1 (Suc k))"
    unfolding gives_up_def by (intro exI [of _ "pp_recv w k @ ms"] exI [of _ m]) auto
  with t(1) show ?thesis by (simp add: given_up_def)
qed

lemma stage_round_closes:
  fixes w w' :: "('d, 's, 'r) pipe"
  shows "chain ro r0 (Suc k) w \<Longrightarrow> k \<notin> set (pp_gone w) \<Longrightarrow> closing ro r0 (Suc k) w \<Longrightarrow>
     stage_work ro k w = Some (q, w') \<Longrightarrow> round_closes ro r0 k q w w'"
proof (induction k arbitrary: w q w' rule: less_induct)
  case (less k w q w')
  let ?G = "\<lambda>ws (v :: ('d, 's, 'r) pipe). winding ro r0 k w ws v \<and> open_edge (Suc k) v"
  let ?C = "winding ro r0 k w"
  have keeps: "round_keeps (edge_sink (Suc k)) (edge_input k) (stage_parents (parent_of ro k)) ?G ?C (\<lambda>v. True)"
    by (rule parents_wind) (auto intro: less.IH)
  from less.prems(1,2) have ok: "stage_ok ro r0 k w" and c: "chain ro r0 k w" by (auto simp: chain_def)
  from less.prems(2,3) have cl: "closing ro r0 k w" and op: "open_edge (Suc k) w" by (auto simp: closing_Suc)
  have g: "?G (ln_workers (pp_line w k)) w" using ok c cl op by (auto simp: stage_ok_def going_def winding_def)
  note run = run_stage_keeps [OF keeps less.prems(4) [unfolded stage_work_eq] g]
  obtain ln v where
    run: "line_work (edge_sink (Suc k)) (ro k) (edge_input k) (stage_parents (parent_of ro k)) (pp_line w k) w = Some (q, ln, v) \<and>
      w' = v\<lparr>pp_line := (pp_line v)(k := ln)\<rparr> \<and> True \<and> (is_ok q \<longrightarrow> ?G (ln_workers ln) v) \<and> (ends_well q \<longrightarrow> ?C (ln_workers ln) v)"
    using run by (elim exE) (rule that)
  note l = run [THEN conjunct1] and w' = run [THEN conjunct2, THEN conjunct1]
    and G = run [THEN conjunct2, THEN conjunct2, THEN conjunct2, THEN conjunct1, THEN mp]
    and C = run [THEN conjunct2, THEN conjunct2, THEN conjunct2, THEN conjunct2, THEN mp]
  have e: "ends w' = ends v" using w' by (simp add: fun_eq_iff ends_def)
  have cl': "closing ro r0 j w'" if "closing ro r0 j v" for j using that by (rule closing_same) (use e w' in simp_all)
  have fin': "finished ro r0 k w'" if "finished ro r0 k v" using that by (rule finished_mono) (use w' in \<open>simp_all add: shut_def\<close>)
  show ?case
  proof (cases q)
    case (Ok u)
    with G have gv: "?G (ln_workers ln) v" by simp
    with less.prems(2) have "k \<notin> set (pp_gone v)" by (auto simp: winding_def going_def)
    with gv have "closing ro r0 (Suc k) v" by (simp add: closing_Suc winding_def)
    with gv Ok e cl' show ?thesis by (simp add: round_closes_def winding_def)
  next
    case (Err x)
    show ?thesis
    proof (cases "x = Closed")
      case False
      with Err show ?thesis by (simp add: round_closes_def)
    next
      case True
      have cv: "?C (ln_workers ln) v" using C Err True by simp
      have "fanout_ready (ln_outputs (pp_line w k)) \<and>
        (\<exists>n w1. next_message (ro k) (edge_input k) (stage_parents (parent_of ro k))
            (ln_worker (pp_line w k), ln_workers (pp_line w k), ln_pending (pp_line w k), w) =
            Some (n, ln_worker ln, ln_workers ln, ln_pending ln, w1) \<and> ?G (ln_workers ln) w1 \<and>
          (n = Ok IClosed \<and> (\<exists>x. close_all (edge_sink (Suc k)) (f_edges (ln_outputs (pp_line w k))) (Ok ()) w1 = (x, v)) \<or>
           n = Err Closed \<and> v = w1))"
        by (rule line_work_closed [OF keeps g _ _ l [unfolded Err True]])
          (use edge_try_push_open edge_push_open in \<open>blast+\<close>)
      then obtain n w1 where ready: "fanout_ready (ln_outputs (pp_line w k))"
        and n: "next_message (ro k) (edge_input k) (stage_parents (parent_of ro k))
            (ln_worker (pp_line w k), ln_workers (pp_line w k), ln_pending (pp_line w k), w) =
            Some (n, ln_worker ln, ln_workers ln, ln_pending ln, w1)"
        and g1: "?C (ln_workers ln) w1" "open_edge (Suc k) w1"
        and two: "n = Ok IClosed \<and> (\<exists>x. close_all (edge_sink (Suc k)) (f_edges (ln_outputs (pp_line w k))) (Ok ()) w1 = (x, v)) \<or>
           n = Err Closed \<and> v = w1"
        by blast
      from two have "(finished ro r0 k w' \<or> open_edge (Suc k) w' \<and> given_up ro r0 k w') \<and> pp_took w' (Suc k) = pp_took w (Suc k)"
      proof (elim disjE conjE exE)
        fix x assume "n = Ok IClosed" "close_all (edge_sink (Suc k)) (f_edges (ln_outputs (pp_line w k))) (Ok ()) w1 = (x, v)"
        from round_finishes [OF ok ready n [unfolded this(1)] g1 this(2)] fin' w' show ?thesis by simp
      next
        assume "n = Err Closed" "v = w1"
        from round_gives_up [OF ok ready keeps g n [unfolded this(1)]] this(2) g1(2) w' show ?thesis
          by (auto simp: given_up_def open_edge_def ends_def)
      qed
      with cv cl' e Err True show ?thesis by (simp add: round_closes_def ended_def winding_def)
    qed
  qed
qed

section \<open>Sessions\<close>

text \<open>Stages at work, whose edges end right.\<close>

definition right_at_work :: "(nat \<Rightarrow> ('d, 'd, 'r) routine_ops) \<Rightarrow> (nat \<Rightarrow> 'r) \<Rightarrow> nat \<Rightarrow> ('d, 's, 'r) pipe \<Rightarrow> bool" where
  "right_at_work ro r0 k w \<longleftrightarrow> at_work ro r0 k w \<and> closing ro r0 (Suc k) w"

lemma writer_push_ends: "writer_push (edge_sink n) () m w = Some (q, w') \<Longrightarrow> ends w' = ends w"
  by (auto simp: writer_push_def split: prod.splits result.splits try_push.splits
      dest!: edge_try_push_ends edge_push_ends)

lemma writer_push_shut:
  assumes "writer_push (edge_sink n) () m w = Some (q, w')" "shut n w"
  shows "\<not> is_ok q"
proof -
  from assms(2) have "fst (op_try_push (edge_sink n) () m w) = Err Closed"
    by (auto simp: edge_sink_def shut_def try_push_back_def Let_def)
  with assms(1) show ?thesis by (auto simp: writer_push_def split: prod.splits)
qed

lemma edge_close_shut: "op_close (edge_sink n) e w = (q, w') \<Longrightarrow> shut m w \<Longrightarrow> shut m w'"
  by (auto simp: edge_sink_def shut_def sender_close_def sender_release_def close_infallible_def close_edge_def Let_def
      split: if_splits)

lemma closing_io:
  assumes c: "closing ro r0 (Suc k) w" and t: "touches {} {Suc k} w w'" and e: "ends w' = ends w"
  shows "closing ro r0 (Suc k) w'"
  by (rule closing_same [OF c]) (use t e in \<open>auto simp: touches_def\<close>)

text \<open>A read that hears \<open>Closed\<close> finds the last stage ended, and every message it sent delivered.\<close>

lemma reader_read_closing:
  fixes w w' :: "('d, 's, 'r) pipe"
  assumes r: "reader_read (stage_work ro k) (Suc k) w = Some (q, w')" and g: "right_at_work ro r0 k w"
  shows "(is_ok q \<longrightarrow> right_at_work ro r0 k w') \<and>
    (q = Err Closed \<longrightarrow> ended ro r0 k w' \<and> pp_recv w' (Suc k) = pp_took w' (Suc k))"
proof -
  from r obtain x w1 where l: "loop (reader_body (stage_work ro k) (Suc k)) w = Some (x, w1)"
    and t: "case x of Err e \<Rightarrow> q = Err e \<and> w' = w1 | Ok _ \<Rightarrow> tee_read (Suc k) w1 = Some (q, w')"
    by (auto simp: reader_read_def split: option.splits result.splits)
  let ?done = "\<lambda>v :: ('d, 's, 'r) pipe. ended ro r0 k v \<and> pp_recv v (Suc k) = pp_took v (Suc k)"
  let ?Q = "\<lambda>(x :: unit res, v :: ('d, 's, 'r) pipe).
      (is_ok x \<longrightarrow> right_at_work ro r0 k v \<and> i_buffer (pp_edge v (Suc k)) \<noteq> []) \<and> (x = Err Closed \<longrightarrow> ?done v)"
  have round: "(is_ok y \<longrightarrow> right_at_work ro r0 k v') \<and> (y = Err Closed \<longrightarrow> ?done v')"
    if P: "right_at_work ro r0 k v" and s: "stage_work ro k v = Some (y, v')" and b: "i_buffer (pp_edge v (Suc k)) = []"
    for y and v v' :: "('d, 's, 'r) pipe"
  proof -
    from P have a: "chain ro r0 (Suc k) v" "k \<notin> set (pp_gone v)" "closing ro r0 (Suc k) v"
      by (auto simp: right_at_work_def at_work_def)
    from stage_work_round [OF a(1,2) s] stage_round_closes [OF a s] a
    have "round_ok ro r0 k y v v'" "round_closes ro r0 k y v v'" by auto
    moreover have "pp_recv v' (Suc k) = pp_recv v (Suc k)" using stage_work_behind [OF s] by (simp add: behind_def)
    moreover have "pp_recv v (Suc k) = pp_took v (Suc k)" using a(1) b by (simp add: chain_def linked_def)
    ultimately show ?thesis using a(2) by (auto simp: round_ok_def round_closes_def right_at_work_def at_work_def)
  qed
  have "?Q (x, w1)"
  proof (rule loop_invariant [where P = "right_at_work ro r0 k" and Q = ?Q, OF l g])
    fix v v' :: "('d, 's, 'r) pipe"
    assume "right_at_work ro r0 k v" "reader_body (stage_work ro k) (Suc k) v = Some (Inl v')"
    then show "right_at_work ro r0 k v'" using round [of v _ v']
      by (fastforce simp: reader_body_def receiver_is_empty_def receiver_len_def split: result.splits bool.splits option.splits)
  next
    fix v :: "('d, 's, 'r) pipe" and b
    assume P: "right_at_work ro r0 k v" and "reader_body (stage_work ro k) (Suc k) v = Some (Inr b)"
    then show "?Q b" using round [OF P]
      by (fastforce simp: reader_body_def receiver_is_empty_def receiver_len_def split: result.splits bool.splits option.splits)
  qed
  show ?thesis
  proof (cases x)
    case (Err e)
    with t \<open>?Q (x, w1)\<close> show ?thesis by simp
  next
    case (Ok u)
    with t have e: "tee_read (Suc k) w1 = Some (q, w')" by simp
    from \<open>?Q (x, w1)\<close> Ok have g1: "right_at_work ro r0 k w1" and b: "i_buffer (pp_edge w1 (Suc k)) \<noteq> []" by auto
    note T = tee_read_touches [OF e]
    have "at_work ro r0 k w'" by (rule touches_at_work [OF T(1)]) (use g1 in \<open>auto simp: right_at_work_def\<close>)
    moreover have "is_ok q \<and> ends w' = ends w1" using e b
      by (auto simp: tee_read_def read_front_def wait_nonempty.simps [of "\<lambda>_. None"] ends_def fun_eq_iff case_prod_unfold Let_def
          split: option.splits list.splits if_splits)
    moreover from this have "closing ro r0 (Suc k) w'" using closing_io [OF _ T(1)] g1 by (simp add: right_at_work_def)
    ultimately show ?thesis by (auto simp: right_at_work_def is_ok_iff)
  qed
qed

lemma io_exec_closing:
  fixes w w' :: "('d, 's, 'r) pipe"
  assumes r: "io_exec ro k x w = Some (Ok ms, w')" and g: "right_at_work ro r0 k w"
  shows "right_at_work ro r0 k w'"
proof -
  from g have a: "at_work ro r0 k w" and c: "closing ro r0 (Suc k) w" by (auto simp: right_at_work_def)
  have a': "at_work ro r0 k w'" using io_exec_session [OF r a] by simp
  have "closing ro r0 (Suc k) w'"
  proof (cases x)
    case (IoPush m)
    with r obtain u where p: "writer_push (edge_sink 0) () m w = Some (Ok u, w')" by auto
    then have open0: "\<not> shut 0 w" using writer_push_shut by fastforce
    note e = writer_push_ends [OF p] and t = writer_push_touches(1) [OF p]
    show ?thesis
      by (rule closing_mono [OF c]) (use e t open0 ends_shut [of w' _ w] in \<open>auto simp: touches_def\<close>)
  next
    case IoRead
    with r obtain m where "reader_read (stage_work ro k) (Suc k) w = Some (Ok m, w')" by auto
    from reader_read_closing [OF this g] show ?thesis by (simp add: right_at_work_def)
  next
    case IoPoll
    obtain p v where p: "inp_poll (edge_input (Suc k)) w = (p, v)" by (cases "inp_poll (edge_input (Suc k)) w") auto
    with r IoPoll have "w' = v" by (auto simp: reader_poll_def)
    with closing_io [OF c edge_poll_touches(1) [OF p] edge_poll_ends [OF p]] show ?thesis by simp
  next
    case IoClose
    obtain p v where p: "op_close (edge_sink 0) () w = (p, v)" by (cases "op_close (edge_sink 0) () w") auto
    with r IoClose have w': "w' = v" by (auto simp: writer_close_def)
    note e = edge_close_ends [OF p] and t = edge_close_touches [OF p]
    show ?thesis unfolding w'
      by (rule closing_mono [OF c])
        (use e(1,2) t edge_close_shut [OF p] ends_shut(2) [of v _ w] in \<open>auto simp: touches_def shut_def open_edge_def ends_def\<close>)
  qed
  with a' show ?thesis by (simp add: right_at_work_def)
qed

lemma io_session_closing:
  fixes w w' :: "('d, 's, 'r) pipe"
  shows "io_session ro k ops w = Some (Ok u, reads, w') \<Longrightarrow> right_at_work ro r0 k w \<Longrightarrow> right_at_work ro r0 k w'"
proof (induction ops arbitrary: w reads)
  case Nil
  then show ?case by simp
next
  case (Cons x xs)
  from Cons.prems(1) obtain ms w1 ns where x: "io_exec ro k x w = Some (Ok ms, w1)"
    and xs: "io_session ro k xs w1 = Some (Ok u, ns, w')"
    by (auto split: option.splits result.splits)
  from io_exec_closing [of ro, OF x Cons.prems(2)] Cons.IH [OF xs] show ?case by blast
qed

lemma whole_feed_ends:
  "ends (whole_feed k n w) = (ends w)(n := (False, i_closed (pp_edge w n), producer_count (pp_edge w n) + 1))"
  by (auto simp: fun_eq_iff ends_def whole_feed_def mint_sender_def fresh_sender_def)

lemma adopt_all_ends:
  fixes w :: "('d, 's, 'r) pipe"
  assumes "w = adopt_all k (pipe_lines r0 bounds)"
  shows "ends w n = (False, False, if 0 < n \<and> n \<le> k then 1 else 0)"
  using assms
proof (induction k arbitrary: n w)
  case 0
  then show ?case
    by (auto simp: ends_def pipe_lines_def fresh_sender_def line_input_def new_receiver_def bounded_receiver_def with_bound_def
        split: option.split)
next
  case (Suc k n w)
  define v :: "('d, 's, 'r) pipe" where "v = adopt_all k (pipe_lines r0 bounds)"
  have "ends w = ends (whole_feed k (Suc k) v)"
    by (simp add: Suc.prems v_def [symmetric] adopt_def Let_def ends_def fun_eq_iff)
  moreover have "i_closed (pp_edge v (Suc k)) = False" "producer_count (pp_edge v (Suc k)) = 0"
    using Suc.IH [OF v_def, of "Suc k"] by (simp_all add: ends_def)
  ultimately show ?case using Suc.IH [OF v_def, of n] by (auto simp: whole_feed_ends)
qed

lemma pipe_of_right:
  fixes w :: "('d, 's, 'r) pipe"
  assumes w: "w = pipe_of r0 bounds k"
  shows "right_at_work ro r0 k w"
proof -
  define v :: "('d, 's, 'r) pipe" where "v = adopt_all k (pipe_lines r0 bounds)"
  have 1: "ends (writer_of u) = (ends u)(0 := (False, i_closed (pp_edge u 0), producer_count (pp_edge u 0) + 1))" for u :: "('d, 's, 'r) pipe"
    by (auto simp: writer_of_def mint_sender_def fresh_sender_def ends_def fun_eq_iff)
  have 2: "ends (reader_of k v) = (ends v)(Suc k := (False, False, 1))"
    unfolding reader_of_def whole_feed_ends by (auto simp: fun_eq_iff new_receiver_def with_bound_def ends_def)
  have "ends (reader_of k v) 0 = (False, False, 0)" using adopt_all_ends [OF v_def, of 0] 2 by simp
  then have "i_closed (pp_edge (reader_of k v) 0) = False" "producer_count (pp_edge (reader_of k v) 0) = 0"
    by (simp_all add: ends_def)
  then have e: "open_edge n w" if "n \<le> Suc k" for n
    using adopt_all_ends [OF v_def, of n] that by (auto simp: w pipe_of_def v_def [symmetric] open_edge_def 1 2)
  have a: "at_work ro r0 k w" using w by (rule pipe_of_at_work)
  moreover have "pp_gone w = []" using adopt_all_fields [OF v_def]
    by (auto simp: w pipe_of_def v_def [symmetric] writer_of_def reader_of_def mint_sender_def)
  ultimately show ?thesis using e closingI [of 0 "Suc k" ro r0 w] by (auto simp: right_at_work_def ends_right_def)
qed

section \<open>Properties\<close>

text \<open>\<open>os\<close> is all that \<open>n\<close> routines in a row, from the one of stage \<open>f\<close> on, make of all of \<open>ms\<close>.\<close>

fun made_all ::
  "(nat \<Rightarrow> ('d, 'd, 'r) routine_ops) \<Rightarrow> (nat \<Rightarrow> 'r) \<Rightarrow> nat \<Rightarrow> nat \<Rightarrow> ('d, 's) message list \<Rightarrow> ('d, 's) message list \<Rightarrow> bool" where
  "made_all ro r0 f 0 ms os \<longleftrightarrow> os = ms"
| "made_all ro r0 f (Suc n) ms os \<longleftrightarrow> (\<exists>is. made_all ro r0 f n ms is \<and> exhausts (ro (f + n)) (r0 (f + n)) is os)"

lemma made_all_signals: "made_all ro r0 f n ms os \<Longrightarrow> signals os = signals ms"
proof (induction n arbitrary: os)
  case 0
  then show ?case by simp
next
  case (Suc n os)
  then obtain js r r' where m: "made_all ro r0 f n ms js"
    and t: "transduces (r_next (ro (f + n))) (line_accept (ro (f + n))) (r0 (f + n)) None js os r None" by (auto simp: exhausts_def)
  from transduces_line_signals [OF t] Suc.IH [OF m] show ?case by simp
qed

lemma finished_made_all:
  assumes "\<And>j. f \<le> j \<Longrightarrow> j < f + n \<Longrightarrow> finished ro r0 j w"
  shows "made_all ro r0 f n (pp_took w f) (pp_took w (f + n))"
  using assms
proof (induction n)
  case 0
  then show ?case by simp
next
  case (Suc n)
  then have "made_all ro r0 f n (pp_took w f) (pp_took w (f + n))" by simp
  moreover have "finished ro r0 (f + n) w" using Suc.prems by simp
  ultimately show ?case by (auto simp: finished_def)
qed

text \<open>What a pipeline that ended was fed from: the frontier, with every stage from there on finished.\<close>

lemma ended_from:
  assumes "ended ro r0 k w"
  obtains f where "f \<le> Suc k" "\<And>j. f = Suc j \<Longrightarrow> given_up ro r0 j w" "\<forall>j. f \<le> j \<longrightarrow> j \<le> k \<longrightarrow> finished ro r0 j w"
proof -
  from assms consider "closing ro r0 k w" "finished ro r0 k w" | "given_up ro r0 k w" by (auto simp: ended_def)
  then show thesis
  proof cases
    case 1
    then obtain f where "f \<le> k" "frontier ro r0 f w" "\<forall>j. f \<le> j \<longrightarrow> j \<le> k \<longrightarrow> finished ro r0 j w" by (rule finished_all)
    then show thesis by (intro that [of f]) auto
  next
    case 2
    then show thesis by (intro that [of "Suc k"]) auto
  qed
qed

text \<open>C5. Closing loses nothing of what was sent. When a read of a pipeline of work lines reports \<open>Closed\<close>, after any
  sequence of pushes, closes, reads and polls that succeeded, there is an edge \<open>f\<close> from which on everything was
  read: the messages read are all that the routines of stages \<open>f .. k\<close> in a row make of all that edge \<open>f\<close> took, until
  each has nothing more; every signal it took was read, in order; nothing is left on edge \<open>f\<close> or behind it.
  Either \<open>f\<close> is the writer's edge, and it took all that was pushed; or the routine of the stage that feeds it reported
  \<open>Closed\<close> itself, and what edge \<open>f\<close> took is all the routine had made of what it consumed of its input, which is
  what the routines before it made of what was pushed.\<close>

theorem closed_pipeline_read_everything:
  fixes w w' :: "('d, 's, 'r) pipe"
  assumes run: "io_session ro k ops (pipe_of r0 bounds k) = Some (Ok u, reads, w)"
    and closed: "reader_read (stage_work ro k) (Suc k) w = Some (Err Closed, w')"
  shows "\<exists>f\<le>Suc k.
     (case f of
        0 \<Rightarrow> pp_took w' 0 = concat (map pushed_of ops)
      | Suc j \<Rightarrow> made ro r0 j (concat (map pushed_of ops)) (pp_took w' j) \<and> prefix (pp_recv w' j) (pp_took w' j) \<and>
          gives_up (ro j) (r0 j) (pp_recv w' j) (pp_took w' f)) \<and>
     made_all ro r0 f (Suc k - f) (pp_took w' f) reads \<and> signals reads = signals (pp_took w' f) \<and>
     (\<forall>n. f \<le> n \<longrightarrow> n \<le> Suc k \<longrightarrow> i_buffer (pp_edge w' n) = [])"
proof -
  have W: "right_at_work ro r0 k (pipe_of r0 bounds k :: ('d, 's, 'r) pipe)" by (rule pipe_of_right) simp
  have E: "pp_took (pipe_of r0 bounds k :: ('d, 's, 'r) pipe) n = []" "pp_recv (pipe_of r0 bounds k :: ('d, 's, 'r) pipe) n = []" for n
    by (rule pipe_of_at_work; simp)+
  have g: "right_at_work ro r0 k w" by (rule io_session_closing [OF run W])
  then have a: "at_work ro r0 k w" by (simp add: right_at_work_def)
  from io_session_keeps [OF run] W E have
    s: "pp_recv w (Suc k) = reads" "pp_took w 0 = concat (map pushed_of ops)"
    by (auto simp: right_at_work_def)
  from reader_read_closing [OF closed g] have d: "ended ro r0 k w'" "pp_recv w' (Suc k) = pp_took w' (Suc k)" by auto
  from reader_read_session [OF closed a] s have
    e: "pp_took w' 0 = concat (map pushed_of ops)" "pp_recv w' (Suc k) = reads" and l: "left_over ro r0 k w'" by auto
  from d(1) obtain f where f: "f \<le> Suc k" "\<And>j. f = Suc j \<Longrightarrow> given_up ro r0 j w'"
    "\<forall>j. f \<le> j \<longrightarrow> j \<le> k \<longrightarrow> finished ro r0 j w'" by (rule ended_from) blast
  from l have link: "pp_took w' n = pp_recv w' n @ i_buffer (pp_edge w' n)" for n by (simp add: left_over_def linked_def)
  have "made_all ro r0 f (Suc k - f) (pp_took w' f) (pp_took w' (f + (Suc k - f)))"
    by (rule finished_made_all) (use f(1,3) in auto)
  with f(1) d(2) e(2) have m: "made_all ro r0 f (Suc k - f) (pp_took w' f) reads" by simp
  have "i_buffer (pp_edge w' n) = []" if "f \<le> n" "n \<le> Suc k" for n
    using that f(3) d(2) link [of n] by (cases "n = Suc k") (auto simp: finished_def)
  moreover have "case f of
        0 \<Rightarrow> pp_took w' 0 = concat (map pushed_of ops)
      | Suc j \<Rightarrow> made ro r0 j (concat (map pushed_of ops)) (pp_took w' j) \<and> prefix (pp_recv w' j) (pp_took w' j) \<and>
          gives_up (ro j) (r0 j) (pp_recv w' j) (pp_took w' f)"
    using f(1,2) e(1) left_over_made [OF l] link by (auto simp: given_up_def split: nat.split)
  ultimately show ?thesis using f(1) m made_all_signals [OF m] by blast
qed

text \<open>Two stages that add one: a datum and a Flush, then the end; all was read. And a stage that yields one datum and
  then reports \<open>Closed\<close>, as the tests' \<open>ClosesAfterOne\<close>, before one that passes on what it gets: what it yielded is read,
  what it left on its input is not.\<close>

lemma add_one_goes_on: "\<not> gives_up add_one r0 is os"
proof -
  have "fst (line_accept add_one m r) \<noteq> Err Closed" for m r by (cases m) (auto simp: add_one_def)
  moreover have "fst (r_next add_one r) \<noteq> Err Closed" for r by (simp add: add_one_def)
  ultimately show ?thesis by (auto simp: gives_up_def reports_closed_def split: list.splits)
qed

definition pass_on :: "(nat, nat, nat list \<times> bool) routine_ops" where
  "pass_on =
     \<lparr>r_next = (\<lambda>(out, y). case out of [] \<Rightarrow> (Ok None, [], y) | d # ds \<Rightarrow> (Ok (Some d), ds, y)),
      r_send = (\<lambda>d (out, y). (Ok (), out @ [d], y)), r_flush = (\<lambda>r. (Ok (), r))\<rparr>"

definition closes_after_one :: "(nat, nat, nat list \<times> bool) routine_ops" where
  "closes_after_one =
     \<lparr>r_next = (\<lambda>(out, y). if y then (Err Closed, out, y) else
          (case out of [] \<Rightarrow> (Ok None, [], False) | d # ds \<Rightarrow> (Ok (Some d), ds, True))),
      r_send = (\<lambda>d (out, y). (Ok (), out @ [d], y)), r_flush = (\<lambda>r. (Ok (), r))\<rparr>"

theorem closed_pipeline_read_everything_witness:
  "(\<exists>w w'.
      io_session (\<lambda>_. add_one) 1 [IoPush (Data 4), IoPush (Flush 7), IoClose, IoRead, IoRead]
        (pipe_of (\<lambda>_. None) (\<lambda>_. None) 1 :: (nat, nat, nat option) pipe) = Some (Ok (), [Data 6, Flush 7], w) \<and>
      reader_read (stage_work (\<lambda>_. add_one) 1) 2 w = Some (Err Closed, w') \<and>
      made_all (\<lambda>_. add_one) (\<lambda>_. None) 0 2 ([Data 4, Flush 7] :: (nat, nat) message list) [Data 6, Flush 7]) \<and>
   (\<exists>w w' j.
      io_session (\<lambda>i. if i = 0 then closes_after_one else pass_on) 1 [IoPush (Data 1), IoPush (Data 2), IoRead]
        (pipe_of (\<lambda>_. ([], False)) (\<lambda>_. None) 1 :: (nat, nat, nat list \<times> bool) pipe) = Some (Ok (), [Data 1], w) \<and>
      reader_read (stage_work (\<lambda>i. if i = 0 then closes_after_one else pass_on) 1) 2 w = Some (Err Closed, w') \<and>
      i_buffer (pp_edge w' 0) = [Data 2] \<and> j \<le> 1 \<and>
      gives_up (if j = 0 then closes_after_one else pass_on) ([], False) (pp_recv w' j) (pp_took w' (Suc j)))"
proof (rule conjI)
  let ?ops = "[IoPush (Data 4), IoPush (Flush 7), IoClose, IoRead, IoRead] :: (nat, nat) io_op list"
  let ?run = "io_session (\<lambda>_. add_one) 1 ?ops (pipe_of (\<lambda>_. None) (\<lambda>_. None) 1)"
  let ?read = "\<lambda>w. reader_read (stage_work (\<lambda>_. add_one) 1) (Suc 1) w"
  have "case ?run of Some (Ok u, reads, w) \<Rightarrow> reads = [Data 6, Flush 7] \<and>
      (case ?read w of Some (Err Closed, w') \<Rightarrow> True | _ \<Rightarrow> False) | _ \<Rightarrow> False" by code_simp
  then obtain w where r: "?run = Some (Ok (), [Data 6, Flush 7], w)"
    and c: "case ?read w of Some (Err Closed, w') \<Rightarrow> True | _ \<Rightarrow> False"
    by (cases ?run; force split: result.splits)
  from c obtain w' where d: "?read w = Some (Err Closed, w')"
    by (cases "?read w"; force split: result.splits error.splits)
  from closed_pipeline_read_everything [OF r d] obtain f where
    f: "case f of 0 \<Rightarrow> pp_took w' 0 = concat (map pushed_of ?ops)
        | Suc j \<Rightarrow> made (\<lambda>_. add_one) (\<lambda>_. None) j (concat (map pushed_of ?ops)) (pp_took w' j) \<and>
            prefix (pp_recv w' j) (pp_took w' j) \<and> gives_up add_one None (pp_recv w' j) (pp_took w' f)"
    and m: "made_all (\<lambda>_. add_one) (\<lambda>_. None) f (Suc 1 - f) (pp_took w' f) [Data 6, Flush 7]"
    by (elim exE conjE) (rule that)
  have f0: "f = 0"
  proof (cases f)
    case (Suc j)
    with f have "gives_up add_one None (pp_recv w' j) (pp_took w' f)" by (simp only: nat.case)
    with add_one_goes_on show ?thesis by blast
  qed
  with f have "pp_took w' 0 = concat (map pushed_of ?ops)" by (simp only: nat.case)
  then have "pp_took w' 0 = [Data 4, Flush 7]" by simp
  with m f0 have "made_all (\<lambda>_. add_one) (\<lambda>_. None) 0 2 ([Data 4, Flush 7] :: (nat, nat) message list) [Data 6, Flush 7]"
    by (simp del: made_all.simps add: numeral_2_eq_2)
  with r d show "\<exists>w w'.
      io_session (\<lambda>_. add_one) 1 ?ops (pipe_of (\<lambda>_. None) (\<lambda>_. None) 1) = Some (Ok (), [Data 6, Flush 7], w) \<and>
      reader_read (stage_work (\<lambda>_. add_one) 1) 2 w = Some (Err Closed, w') \<and>
      made_all (\<lambda>_. add_one) (\<lambda>_. None) 0 2 ([Data 4, Flush 7] :: (nat, nat) message list) [Data 6, Flush 7]"
    by (simp del: io_session.simps io_exec.simps made_all.simps stage_work.simps add: numeral_2_eq_2)
next
  let ?ro = "\<lambda>i :: nat. if i = 0 then closes_after_one else pass_on"
  let ?ops = "[IoPush (Data 1), IoPush (Data 2), IoRead] :: (nat, nat) io_op list"
  let ?run = "io_session ?ro 1 ?ops (pipe_of (\<lambda>_. ([], False)) (\<lambda>_. None) 1)"
  let ?read = "\<lambda>w. reader_read (stage_work ?ro 1) (Suc 1) w"
  have "case ?run of Some (Ok u, reads, w) \<Rightarrow> reads = [Data 1] \<and>
      (case ?read w of Some (Err Closed, w') \<Rightarrow> i_buffer (pp_edge w' 0) = [Data 2] | _ \<Rightarrow> False) | _ \<Rightarrow> False" by code_simp
  then obtain w where r: "?run = Some (Ok (), [Data 1], w)"
    and c: "case ?read w of Some (Err Closed, w') \<Rightarrow> i_buffer (pp_edge w' 0) = [Data 2] | _ \<Rightarrow> False"
    by (cases ?run; force split: result.splits)
  from c obtain w' where d: "?read w = Some (Err Closed, w')" "i_buffer (pp_edge w' 0) = [Data 2]"
    by (cases "?read w"; force split: result.splits error.splits)
  from closed_pipeline_read_everything [OF r d(1)] obtain f where f: "f \<le> Suc 1"
    "case f of 0 \<Rightarrow> pp_took w' 0 = concat (map pushed_of ?ops)
     | Suc j \<Rightarrow> made ?ro (\<lambda>_. ([], False)) j (concat (map pushed_of ?ops)) (pp_took w' j) \<and>
         prefix (pp_recv w' j) (pp_took w' j) \<and> gives_up (?ro j) ([], False) (pp_recv w' j) (pp_took w' f)"
    and b: "\<forall>n. f \<le> n \<longrightarrow> n \<le> Suc 1 \<longrightarrow> i_buffer (pp_edge w' n) = []"
    by (elim exE conjE) (rule that)
  have "f \<noteq> 0" using b d(2) by auto
  then obtain j where j: "f = Suc j" by (cases f) auto
  with f have "j \<le> 1" "gives_up (?ro j) ([], False) (pp_recv w' j) (pp_took w' (Suc j))" by simp_all
  with r d show "\<exists>w w' j. ?run = Some (Ok (), [Data 1], w) \<and> reader_read (stage_work ?ro 1) 2 w = Some (Err Closed, w') \<and>
      i_buffer (pp_edge w' 0) = [Data 2] \<and> j \<le> 1 \<and>
      gives_up (if j = 0 then closes_after_one else pass_on) ([], False) (pp_recv w' j) (pp_took w' (Suc j))"
    by (metis numeral_2_eq_2 One_nat_def)
qed

end
