(* ===== verification/Pipeline_Flush.thy ===== *)
theory Pipeline_Flush
  imports Pipeline Signal_Io
begin

text \<open>
  \<open>LineIo\<close> over a pipeline of work lines (src/node/line/io.rs, src/signal/trackable.rs, src/writer/push.rs,
  src/reader/work/reader.rs): a Flush or a Marker goes in at the writer and the reader reads until it is back. What a
  signal says of the messages before it, stage by stage, and that the signal that comes back is the one pushed.
\<close>

section \<open>LineIo over a pipeline\<close>

text \<open>The writer and the reader work on the pipeline; \<open>cnt\<close> is what the clones and drops of signals inside the graph
  do to the shared counters meanwhile.\<close>

type_synonym ('d, 'o, 'r) graph_counts =
  "('d, 'o trackable, 'r) pipe \<Rightarrow> ('d, 'o trackable, 'r) pipe \<Rightarrow> (nat \<Rightarrow> nat) \<Rightarrow> nat \<Rightarrow> nat"

definition pipe_push :: "('d, 'o, 'r) graph_counts \<Rightarrow> ('d, 'o, ('d, 'o trackable, 'r) pipe) push_op" where
  "pipe_push cnt m w =
     (case writer_push (edge_sink 0) () m (tw_world w) of
        None \<Rightarrow> None
      | Some (q, v) \<Rightarrow> Some (q, w\<lparr>tw_active := cnt (tw_world w) v (tw_active w), tw_world := v\<rparr>))"

definition pipe_read ::
  "('d, 'o, 'r) graph_counts \<Rightarrow> (nat \<Rightarrow> ('d, 'd, 'r) routine_ops) \<Rightarrow> nat \<Rightarrow> ('d, 'o, ('d, 'o trackable, 'r) pipe) read_op" where
  "pipe_read cnt ro k w =
     (case reader_read (stage_work ro k) (Suc k) (tw_world w) of
        None \<Rightarrow> None
      | Some (q, v) \<Rightarrow> Some (q, w\<lparr>tw_active := cnt (tw_world w) v (tw_active w), tw_world := v\<rparr>))"

section \<open>What a signal says of the messages before it\<close>

text \<open>A signal is sent when it was the last message taken, and all the routine had to say of it and what was before
  it was sent.\<close>

lemma transduces_signal_split:
  "transduces nxt acc r p ms os r' p' \<Longrightarrow> os = os1 @ s # os2 \<Longrightarrow> \<not> is_data s \<Longrightarrow>
     \<exists>ms1 ms2 r1. ms = ms1 @ ms2 \<and> transduces nxt acc r p ms1 (os1 @ [s]) r1 None \<and>
       (ms1 = [] \<and> p = Some s \<or> (\<exists>ms0 m ra rb. ms1 = ms0 @ [m] \<and> acc m ra = (Ok (Some s), rb)))"
proof (induction arbitrary: os1 rule: transduces.induct)
  case (rest r p)
  then show ?case by simp
next
  case (outp r y r1 p ms os r' p')
  then obtain os0 where o: "os1 = Data y # os0" "os = os0 @ s # os2" by (cases os1) auto
  from outp.IH [OF o(2) outp.prems(2)] transduces.outp [where nxt = nxt and accept = acc, OF outp.hyps(1)] show ?case
    unfolding o(1) by (metis append_Cons)
next
  case (signal r r1 ms os r' p' s0)
  show ?case
  proof (cases os1)
    case Nil
    with signal.prems(1) have "s = s0" by simp
    with Nil transduces_signal1 [where nxt = nxt and accept = acc, OF signal.hyps(1)] show ?thesis
      by (intro exI [of _ "[]"] exI [of _ ms] exI [of _ r1]) auto
  next
    case (Cons x os0)
    with signal.prems(1) have o: "x = s0" "os = os0 @ s # os2" by auto
    from signal.IH [OF o(2) signal.prems(2)] transduces.signal [where nxt = nxt and accept = acc, OF signal.hyps(1)]
    show ?thesis unfolding Cons o(1) by (metis append_Cons option.distinct(1))
  qed
next
  case (inp r r1 m p1 r2 ms os r' p')
  from inp.IH [OF inp.prems] obtain ms1 ms2 r3 where
    t: "ms = ms1 @ ms2" "transduces nxt acc r2 p1 ms1 (os1 @ [s]) r3 None"
    and e: "ms1 = [] \<and> p1 = Some s \<or> (\<exists>ms0 m ra rb. ms1 = ms0 @ [m] \<and> acc m ra = (Ok (Some s), rb))" by blast
  have "transduces nxt acc r None (m # ms1) (os1 @ [s]) r3 None"
    using inp.hyps(1,2) t(2) by (rule transduces.inp)
  moreover have "\<exists>ms0 m' ra rb. m # ms1 = ms0 @ [m'] \<and> acc m' ra = (Ok (Some s), rb)"
    using e inp.hyps(2) by (metis append_Cons append_Nil)
  ultimately show ?case using t(1) by (intro exI [of _ "m # ms1"] exI [of _ ms2]) auto
next
  case (idle r r1 ms os r' p')
  from idle.IH [OF idle.prems] transduces.idle [where nxt = nxt and accept = acc, OF idle.hyps(1)] show ?case by blast
qed

text \<open>\<open>os\<close> is all that the routine makes of all of \<open>is\<close>, with nothing held.\<close>

definition answers_all :: "('i, 'o, 'r) routine_ops \<Rightarrow> 'r \<Rightarrow> ('i, 's) message list \<Rightarrow> ('o, 's) message list \<Rightarrow> bool" where
  "answers_all ro r0 is os \<longleftrightarrow> (\<exists>r. transduces (r_next ro) (line_accept ro) r0 None is os r None)"

lemma leads_to_signal:
  fixes ro :: "('d, 'd, 'r) routine_ops"
  assumes l: "leads_to ro r0 None is taken" and p: "prefix (xs @ [s]) taken" and s: "\<not> is_data s"
  shows "\<exists>ys. prefix (ys @ [s]) is \<and> answers_all ro r0 (ys @ [s]) (xs @ [s])"
proof -
  from l obtain n os r1 p1 where t: "transduces (r_next ro) (line_accept ro) r0 None (take n is) os r1 p1" "prefix taken os"
    unfolding leads_to_def by blast
  with p obtain zs where os: "os = xs @ s # zs" by (auto simp: prefix_def)
  from transduces_signal_split [OF t(1) os s] obtain ms1 ms2 r2 ms0 m ra rb where
    m: "take n is = ms1 @ ms2" "transduces (r_next ro) (line_accept ro) r0 None ms1 (xs @ [s]) r2 None"
      "ms1 = ms0 @ [m]" "line_accept ro m ra = (Ok (Some s), rb)" by auto
  from line_accept_owes [OF m(4)] have "m = s" by (auto split: if_splits)
  moreover from m(1) have "prefix ms1 is" by (metis append_take_drop_id append_assoc prefixI)
  ultimately show ?thesis using m(2,3) unfolding answers_all_def by blast
qed

text \<open>\<open>n\<close> routines in a row, each with nothing held.\<close>

fun answered :: "(nat \<Rightarrow> ('d, 'd, 'r) routine_ops) \<Rightarrow> (nat \<Rightarrow> 'r) \<Rightarrow> nat \<Rightarrow> ('d, 's) message list \<Rightarrow> ('d, 's) message list \<Rightarrow> bool" where
  "answered ro r0 0 ms os \<longleftrightarrow> os = ms"
| "answered ro r0 (Suc n) ms os \<longleftrightarrow> (\<exists>is. answered ro r0 n ms is \<and> answers_all (ro n) (r0 n) is os)"

lemma answered_signals: "answered ro r0 n ms os \<Longrightarrow> signals os = signals ms"
proof (induction n arbitrary: os)
  case 0
  then show ?case by simp
next
  case (Suc n os)
  then obtain js r where m: "answered ro r0 n ms js"
    and t: "transduces (r_next (ro n)) (line_accept (ro n)) (r0 n) None js os r None" by (auto simp: answers_all_def)
  from transduces_line_signals [OF t] Suc.IH [OF m] show ?case by simp
qed

text \<open>What was sent up to a signal is all that the routines before make of what the writer pushed up to it.\<close>

lemma left_over_answered:
  fixes w :: "('d, 's, 'r) pipe"
  assumes l: "left_over ro r0 k w" and s: "\<not> is_data s"
  shows "j \<le> Suc k \<Longrightarrow> prefix (xs @ [s]) (pp_took w j) \<Longrightarrow>
     \<exists>ys. prefix (ys @ [s]) (pp_took w 0) \<and> answered ro r0 j (ys @ [s]) (xs @ [s])"
proof (induction j arbitrary: xs)
  case 0
  then show ?case by auto
next
  case (Suc j)
  with l have "leads_to (ro j) (r0 j) None (pp_recv w j) (pp_took w (Suc j))" by (simp add: left_over_def stage_left_def)
  from leads_to_signal [OF this Suc.prems(2) s] obtain zs where
    z: "prefix (zs @ [s]) (pp_recv w j)" "answers_all (ro j) (r0 j) (zs @ [s]) (xs @ [s])" by blast
  from l have "prefix (pp_recv w j) (pp_took w j)" by (simp add: left_over_def linked_def)
  with z(1) have "prefix (zs @ [s]) (pp_took w j)" by (rule prefix_order.trans)
  with Suc.IH [of zs] Suc.prems(1) obtain ys where "prefix (ys @ [s]) (pp_took w 0)" "answered ro r0 j (ys @ [s]) (zs @ [s])" by auto
  with z(2) show ?case by auto
qed

section \<open>The signal comes back\<close>

text \<open>The signals pushed that were not read yet.\<close>

definition under_way :: "('d, 's) message list \<Rightarrow> ('d, 's) message list \<Rightarrow> ('d, 's) message list" where
  "under_way got pushed = drop (length (signals got)) (signals pushed)"

lemma io_session_append:
  "io_session ro k xs w = Some (Ok u, ms, w1) \<Longrightarrow> io_session ro k ys w1 = Some (q, ns, w2) \<Longrightarrow>
     io_session ro k (xs @ ys) w = Some (q, ms @ ns, w2)"
  by (induction xs arbitrary: w ms) (auto split: option.splits result.splits)

lemma signals_append: "signals (xs @ ys) = signals xs @ signals ys"
  by (simp add: signals_def)

lemma signals_single: "\<not> is_data s \<Longrightarrow> signals [s] = [s]"
  by (simp add: signals_def)

lemma pushed_of_reads [simp]: "concat (map pushed_of (replicate n IoRead)) = []"
  by (induction n) simp_all

text \<open>A session that pushes a signal last and reads up to one that cannot be an earlier one reads the signal it pushed,
  behind everything that was pushed before.\<close>

lemma session_returns:
  fixes w :: "('d, 's, 'r) pipe"
  assumes run: "io_session ro k (ops @ IoPush s # replicate n IoRead) (pipe_of r0 bounds k) = Some (Ok u, got @ ms @ [s'], w)"
    and sig: "\<not> is_data s" "\<not> is_data s'"
    and new: "s' \<notin> set (under_way got (concat (map pushed_of ops)))"
  shows "s' = s \<and> signals (got @ ms) = signals (concat (map pushed_of ops)) \<and>
     answered ro r0 (Suc k) (concat (map pushed_of ops) @ [s]) (got @ ms @ [s])"
proof -
  define P where "P = concat (map pushed_of ops)"
  have W: "at_work ro r0 k (pipe_of r0 bounds k :: ('d, 's, 'r) pipe)" by (rule pipe_of_at_work) simp
  have E: "pp_took (pipe_of r0 bounds k :: ('d, 's, 'r) pipe) j = []" "pp_recv (pipe_of r0 bounds k :: ('d, 's, 'r) pipe) j = []" for j
    by (rule pipe_of_at_work; simp)+
  from io_session_keeps [OF run W] E have l: "left_over ro r0 k w" and recv: "pp_recv w (Suc k) = got @ ms @ [s']"
    and took: "pp_took w 0 = P @ [s]"
    by (auto simp: P_def)
  have pre: "prefix ((got @ ms) @ [s']) (pp_took w (Suc k))" using l recv by (simp add: left_over_def linked_def)
  from left_over_made [OF l, of "Suc k"] took have "made ro r0 (Suc k) (P @ [s]) (pp_took w (Suc k))" by simp
  from made_signals [OF this] signals_prefix [OF pre]
  have "prefix (signals ((got @ ms) @ [s'])) (signals (P @ [s]))" by (rule prefix_order.trans [rotated])
  then have "prefix (signals (got @ ms) @ [s']) (signals P @ [s])"
    by (simp only: signals_append signals_single [OF sig(1)] signals_single [OF sig(2)])
  then have "s' = s \<and> signals (got @ ms) = signals P"
  proof (cases "prefix (signals (got @ ms) @ [s']) (signals P)")
    case True
    then obtain zs where "signals P = signals got @ signals ms @ s' # zs" by (auto simp: prefix_def signals_append)
    then have "s' \<in> set (under_way got P)" by (simp add: under_way_def)
    with new show ?thesis by (simp add: P_def)
  next
    case False
    with \<open>prefix (signals (got @ ms) @ [s']) (signals P @ [s])\<close> show ?thesis by (simp add: prefix_snoc)
  qed
  then have same: "s' = s" "signals (got @ ms) = signals P" by auto
  from left_over_answered [OF l sig(2) _ pre] same(1) took obtain ys where
    y: "prefix (ys @ [s]) (P @ [s])" "answered ro r0 (Suc k) (ys @ [s]) ((got @ ms) @ [s])" by auto
  from answered_signals [OF y(2)] same(2) have "signals ys = signals P"
    by (simp add: signals_append signals_single [OF sig(1)])
  from y(1) have "ys = P"
  proof (cases "prefix (ys @ [s]) P")
    case True
    with \<open>signals ys = signals P\<close> sig(1) show ?thesis by (auto simp: prefix_def signals_def)
  next
    case False
    with y(1) show ?thesis by (simp add: prefix_snoc)
  qed
  with y(2) same show ?thesis by (simp add: P_def)
qed

text \<open>The reads of a sync are reads of the pipeline.\<close>

lemma drop_signal_world [simp]: "tw_world (drop_signal m w) = tw_world w"
  by (cases m) (simp_all add: trackable_drop_def)

lemma pipe_reads_session:
  "reads (pipe_read cnt ro k) token t w ms w1 \<Longrightarrow>
     io_session ro k (replicate (length ms) IoRead) (tw_world w) = Some (Ok (), ms, tw_world w1)"
proof (induction rule: reads.induct)
  case (none w)
  then show ?case by simp
next
  case (some w m w1 ms w2)
  then show ?case by (auto simp: pipe_read_def split: option.splits)
qed

lemma pipe_read_session:
  "pipe_read cnt ro k w = Some (Ok m, w1) \<Longrightarrow> io_session ro k [IoRead] (tw_world w) = Some (Ok (), [m], tw_world w1)"
  by (auto simp: pipe_read_def split: option.splits)


text \<open>The graph neither clones nor drops what counter \<open>i\<close> counts: a line moves the messages it does not lose.\<close>

definition keeps_count :: "('d, 'o, 'r) graph_counts \<Rightarrow> nat \<Rightarrow> bool" where
  "keeps_count cnt i \<longleftrightarrow> (\<forall>v v' c. cnt v v' c i = c i)"

text \<open>Reads that get to the signal of the sync are what its loop does, when the graph moves the signal as it is.\<close>

lemma session_pipe_reads:
  assumes tok: "round_trip sg token" and moves: "keeps_count cnt (t_id t)"
  shows "io_session ro k (replicate (Suc (length ms)) IoRead) (tw_world v) = Some (Ok u, ms @ [sg t], p) \<Longrightarrow>
     tw_active v (t_id t) = 2 \<Longrightarrow> (\<And>s. sg s \<in> set ms \<Longrightarrow> t_origin s \<noteq> t_origin t) \<Longrightarrow>
     (\<And>s. Flush s \<in> set ms \<or> Marker s \<in> set ms \<Longrightarrow> t_id s \<noteq> t_id t) \<Longrightarrow>
     \<exists>v4 v5. reads (pipe_read cnt ro k) token t v ms v4 \<and> pipe_read cnt ro k v4 = Some (Ok (sg t), v5) \<and> tw_active v5 (t_id t) = 2"
proof (induction ms arbitrary: v)
  case Nil
  then obtain q where r: "reader_read (stage_work ro k) (Suc k) (tw_world v) = Some (Ok (sg t), q)"
    by (auto split: option.splits result.splits)
  then have "pipe_read cnt ro k v = Some (Ok (sg t), v\<lparr>tw_active := cnt (tw_world v) q (tw_active v), tw_world := q\<rparr>)"
    by (simp add: pipe_read_def)
  moreover have "tw_active (v\<lparr>tw_active := cnt (tw_world v) q (tw_active v), tw_world := q\<rparr>) (t_id t) = 2"
    using Nil.prems(2) moves by (simp add: keeps_count_def)
  ultimately show ?case using reads.none [of "pipe_read cnt ro k" token t v] by blast
next
  case (Cons m ms v)
  then obtain q where r: "reader_read (stage_work ro k) (Suc k) (tw_world v) = Some (Ok m, q)"
    and rest: "io_session ro k (replicate (Suc (length ms)) IoRead) q = Some (Ok u, ms @ [sg t], p)"
    by (auto split: option.splits result.splits)
  define v1 where "v1 = v\<lparr>tw_active := cnt (tw_world v) q (tw_active v), tw_world := q\<rparr>"
  from r have p: "pipe_read cnt ro k v = Some (Ok m, v1)" by (simp add: pipe_read_def v1_def)
  have act: "tw_active v1 (t_id t) = 2" using Cons.prems(2) moves by (simp add: v1_def keeps_count_def)
  have not: "\<not> is_return token (\<lambda>n. n = 2) t m v1"
  proof
    assume "is_return token (\<lambda>n. n = 2) t m v1"
    then obtain s where "m = sg s" "t_origin s = t_origin t"
      by (auto simp: is_return_def trackable_eq_def round_trip_token [OF tok] split: option.splits)
    with Cons.prems(3) [of s] show False by simp
  qed
  have "t_id s \<noteq> t_id t" if "m = Flush s \<or> m = Marker s" for s using Cons.prems(4) [of s] that by auto
  with act have "tw_active (drop_signal m v1) (t_id t) = 2" by (cases m) (auto simp: trackable_drop_def)
  moreover have "tw_world (drop_signal m v1) = q" by (simp add: v1_def)
  ultimately obtain v4 v5 where "reads (pipe_read cnt ro k) token t (drop_signal m v1) ms v4"
    "pipe_read cnt ro k v4 = Some (Ok (sg t), v5)" "tw_active v5 (t_id t) = 2"
    using Cons.IH [of "drop_signal m v1"] rest Cons.prems(3,4) by auto
  with reads.some [where read = "pipe_read cnt ro k", OF p not] show ?case by blast
qed

text \<open>What a sync that returned has read, and that it returns what reads get.\<close>

lemma sync_session:
  fixes w :: "('d, 'o trackable, 'r) pipe tracked"
  assumes tok: "round_trip sg token" and t: "t = \<lparr>t_origin = orig, t_id = tw_next w\<rparr>"
    and run: "io_session ro k ops (pipe_of r0 bounds k) = Some (Ok u, got, tw_world w)"
    and sync: "line_sync token sg (pipe_push cnt) (pipe_read cnt ro k) orig w = Some (Ok ds, w')"
  shows "\<exists>ms t'. io_session ro k (ops @ IoPush (sg t) # replicate (Suc (length ms)) IoRead) (pipe_of r0 bounds k) =
       Some (Ok (), got @ ms @ [sg t'], tw_world w') \<and> t_origin t' = orig \<and> ds = List.map_filter message_data ms \<and>
     (t' = t \<longrightarrow> tw_active w' (t_id t) = 0)"
proof -
  from line_sync_returns [OF tok sync t] obtain x w3 ms w4 t' w5 where
    p: "pipe_push cnt (sg t) (w\<lparr>tw_next := tw_next w + 1, tw_active := (tw_active w)(tw_next w := 2)\<rparr>) = Some (Ok x, w3)"
    and r: "reads (pipe_read cnt ro k) token t w3 ms w4" "pipe_read cnt ro k w4 = Some (Ok (sg t'), w5)"
    and o: "t_origin t' = orig" "tw_active w5 (t_id t) = 2"
    and ds: "ds = List.map_filter message_data ms" "w' = trackable_drop t (trackable_drop t' w5)" by blast
  from p have "io_session ro k [IoPush (sg t)] (tw_world w) = Some (Ok (), [], tw_world w3)"
    by (auto simp: pipe_push_def split: option.splits)
  from io_session_append [OF run io_session_append [OF this
      io_session_append [OF pipe_reads_session [OF r(1)] pipe_read_session [OF r(2)]]]]
  have s: "io_session ro k (ops @ IoPush (sg t) # replicate (Suc (length ms)) IoRead) (pipe_of r0 bounds k) =
      Some (Ok (), got @ ms @ [sg t'], tw_world w5)"
    by (simp del: io_session.simps add: replicate_append_same)
  have "tw_world w' = tw_world w5" using ds(2) by (simp add: trackable_drop_def)
  moreover have "t' = t \<longrightarrow> tw_active w' (t_id t) = 0" using ds(2) o(2) by (auto simp: trackable_drop_def)
  ultimately show ?thesis using s o(1) ds(1) by metis
qed

lemma sync_comes_back:
  fixes w :: "('d, 'o trackable, 'r) pipe tracked"
  assumes tok: "round_trip sg token" and t: "t = \<lparr>t_origin = orig, t_id = tw_next w\<rparr>"
    and s: "io_session ro k (IoPush (sg t) # replicate (Suc (length ms)) IoRead) (tw_world w) = Some (Ok (), ms @ [sg t], v)"
    and moves: "keeps_count cnt (t_id t)"
    and alone: "\<And>s. sg s \<in> set ms \<Longrightarrow> t_origin s \<noteq> orig"
    and fresh: "\<And>s. Flush s \<in> set ms \<or> Marker s \<in> set ms \<Longrightarrow> t_id s \<noteq> t_id t"
  shows "\<exists>w'. line_sync token sg (pipe_push cnt) (pipe_read cnt ro k) orig w = Some (Ok (List.map_filter message_data ms), w')"
proof -
  obtain v1 where p: "writer_push (edge_sink 0) () (sg t) (tw_world w) = Some (Ok (), v1)"
    and rs: "io_session ro k (replicate (Suc (length ms)) IoRead) v1 = Some (Ok (), ms @ [sg t], v)"
    using s by (auto simp del: replicate_Suc split: option.splits result.splits)
  define w3 where "w3 = w\<lparr>tw_next := tw_next w + 1,
    tw_active := cnt (tw_world w) v1 ((tw_active w)(tw_next w := 2)), tw_world := v1\<rparr>"
  have q: "pipe_push cnt (sg t) (w\<lparr>tw_next := tw_next w + 1, tw_active := (tw_active w)(tw_next w := 2)\<rparr>) = Some (Ok (), w3)"
    using p by (simp add: pipe_push_def w3_def)
  have "tw_world w3 = v1" "tw_active w3 (t_id t) = 2" using moves t by (simp_all add: w3_def keeps_count_def)
  with session_pipe_reads [OF tok moves, of ro k ms w3] rs alone fresh t obtain v4 v5 where
    b: "reads (pipe_read cnt ro k) token t w3 ms v4" "pipe_read cnt ro k v4 = Some (Ok (sg t), v5)" "tw_active v5 (t_id t) = 2"
    by (auto simp del: io_session.simps replicate_Suc)
  have "is_return token (\<lambda>n. n = 2) t (sg t) v5"
    using b(3) round_trip_token [OF tok, of "sg t" t] by (simp add: is_return_def trackable_eq_def trackable_active_def)
  from await_signal_reads [OF b(1,2) this] q t show ?thesis by (simp add: line_sync_def Let_def)
qed

section \<open>Properties\<close>

text \<open>C28. A synchronous flush or mark of a pipeline of work lines hands back everything before it. Let the pipeline
  be in any state that pushes, closes, reads and polls that succeeded lead to, with no Flush (for \<open>mark\<close>: no Marker) of
  this origin pushed and not yet read, as \<open>Trackable\<close> asks. Whatever the graph does to the shared counters, when
  \<open>LineIo::flush\<close> or \<open>LineIo::mark\<close> returns data: it pushed its signal, of a fresh trackable \<open>t\<close>, and read
  messages \<open>ms\<close> and then that same signal; the data it returns is the data of \<open>ms\<close>, in order; every signal pushed
  before was read, in order; what was read since the start is all that the routines in a row make of all that was
  pushed up to the signal, none holding a signal back; and no reference to \<open>t\<close> is left. Conversely it does
  return: when the graph neither clones nor drops \<open>t\<close>, no signal under way shares its counter, and a push of the signal
  and as many reads get to it, then \<open>flush\<close> or \<open>mark\<close> returns the data they read.\<close>

theorem line_flush_returns:
  fixes w :: "('d, 'o trackable, 'r) pipe tracked"
  assumes run: "io_session ro k ops (pipe_of r0 bounds k) = Some (Ok u, got, tw_world w)"
    and sync: "sync = line_flush \<and> sg = Flush \<or> sync = line_mark \<and> sg = Marker"
    and pushed: "pushed = concat (map pushed_of ops)"
    and alone: "\<forall>s. sg s \<in> set (under_way got pushed) \<longrightarrow> t_origin s \<noteq> orig"
    and t: "t = \<lparr>t_origin = orig, t_id = tw_next w\<rparr>"
  shows "(\<forall>ds w'. sync (pipe_push cnt) (pipe_read cnt ro k) orig w = Some (Ok ds, w') \<longrightarrow>
      (\<exists>ms. io_session ro k (ops @ IoPush (sg t) # replicate (Suc (length ms)) IoRead) (pipe_of r0 bounds k) =
              Some (Ok (), got @ ms @ [sg t], tw_world w') \<and>
         ds = List.map_filter message_data ms \<and> signals (got @ ms) = signals pushed \<and>
         answered ro r0 (Suc k) (pushed @ [sg t]) (got @ ms @ [sg t]) \<and> tw_active w' (t_id t) = 0)) \<and>
    (keeps_count cnt (t_id t) \<and>
     (\<forall>s. Flush s \<in> set (under_way got pushed) \<or> Marker s \<in> set (under_way got pushed) \<longrightarrow> t_id s \<noteq> t_id t) \<longrightarrow>
      (\<forall>ms v. io_session ro k (IoPush (sg t) # replicate (Suc (length ms)) IoRead) (tw_world w) = Some (Ok (), ms @ [sg t], v) \<longrightarrow>
         (\<exists>w'. sync (pipe_push cnt) (pipe_read cnt ro k) orig w = Some (Ok (List.map_filter message_data ms), w'))))"
    (is "?returns \<and> (?moves \<and> ?fresh \<longrightarrow> ?comes)")
proof -
  from sync obtain token where tok: "round_trip sg token" and eq: "sync = line_sync token sg"
    by (auto simp: round_trip_def line_sync_eq)
  note sig = round_trip_signal(1) [OF tok]
  have own: "t' = t \<and> signals (got @ ms) = signals pushed \<and> answered ro r0 (Suc k) (pushed @ [sg t]) (got @ ms @ [sg t])"
    if "io_session ro k (ops @ IoPush (sg t) # replicate n IoRead) (pipe_of r0 bounds k) = Some (Ok (), got @ ms @ [sg t'], v)"
      "t_origin t' = orig" for n ms t' v
    using session_returns [OF that(1) sig sig] alone that(2) by (auto simp: pushed round_trip_signal(3) [OF tok])
  have ?returns
  proof (intro allI impI)
    fix ds w' assume "sync (pipe_push cnt) (pipe_read cnt ro k) orig w = Some (Ok ds, w')"
    from sync_session [OF tok t run this [unfolded eq]] own
    show "\<exists>ms. io_session ro k (ops @ IoPush (sg t) # replicate (Suc (length ms)) IoRead) (pipe_of r0 bounds k) =
        Some (Ok (), got @ ms @ [sg t], tw_world w') \<and> ds = List.map_filter message_data ms \<and>
        signals (got @ ms) = signals pushed \<and> answered ro r0 (Suc k) (pushed @ [sg t]) (got @ ms @ [sg t]) \<and> tw_active w' (t_id t) = 0"
      by blast
  qed
  moreover have ?comes if moves: ?moves and fresh: ?fresh
  proof (intro allI impI)
    fix ms v
    assume s: "io_session ro k (IoPush (sg t) # replicate (Suc (length ms)) IoRead) (tw_world w) = Some (Ok (), ms @ [sg t], v)"
    have "signals (got @ ms) = signals pushed" using own [OF io_session_append [OF run s]] t by simp
    then have way: "under_way got pushed = signals ms"
      by (metis under_way_def signals_append append_eq_conv_conj)
    show "\<exists>w'. sync (pipe_push cnt) (pipe_read cnt ro k) orig w = Some (Ok (List.map_filter message_data ms), w')"
      unfolding eq
      by (rule sync_comes_back [OF tok t s]) (use moves fresh alone way sig in \<open>auto simp: signals_def\<close>)
  qed
  ultimately show ?thesis by blast
qed

text \<open>Two stages that add one, two data and a marker of another origin pushed before, one datum read.\<close>

theorem line_flush_returns_witness:
  "\<exists>w w'.
     io_session (\<lambda>_. add_one) 1 [IoPush (Data 1), IoPush (Data 4), IoPush (Marker \<lparr>t_origin = ''m'', t_id = 0\<rparr>), IoRead]
       (pipe_of (\<lambda>_. None) (\<lambda>_. Some 3) 1 :: (nat, string trackable, nat option) pipe) = Some (Ok (), [Data 3], tw_world w) \<and>
     line_flush (pipe_push (\<lambda>_ _ c. c)) (pipe_read (\<lambda>_ _ c. c) (\<lambda>_. add_one) 1) ''f'' w = Some (Ok [6], w') \<and>
     tw_next w = 1 \<and> tw_active w' 1 = 0"
proof -
  let ?m = "Marker \<lparr>t_origin = ''m'', t_id = 0\<rparr> :: (nat, string trackable) message"
  let ?t = "\<lparr>t_origin = ''f'', t_id = 1\<rparr>"
  let ?ops = "[IoPush (Data 1), IoPush (Data 4), IoPush ?m, IoRead]"
  let ?run = "io_session (\<lambda>_. add_one) 1 ?ops (pipe_of (\<lambda>_. None) (\<lambda>_. Some 3) 1)"
  let ?reads = "\<lambda>v. io_session (\<lambda>_. add_one) 1 [IoPush (Flush ?t), IoRead, IoRead, IoRead] v"
  have "case ?run of Some (Ok u, got, v) \<Rightarrow> got = [Data 3] \<and>
      (case ?reads v of Some (Ok u, ms, v') \<Rightarrow> ms = [Data 6, ?m, Flush ?t] | _ \<Rightarrow> False) | _ \<Rightarrow> False" by code_simp
  then obtain v where r: "?run = Some (Ok (), [Data 3], v)"
    and c: "case ?reads v of Some (Ok u, ms, v') \<Rightarrow> ms = [Data 6, ?m, Flush ?t] | _ \<Rightarrow> False"
    by (cases ?run; force split: result.splits)
  from c obtain v' where d: "?reads v = Some (Ok (), [Data 6, ?m, Flush ?t], v')"
    by (cases "?reads v"; force split: result.splits)
  define w where "w = \<lparr>tw_active = (\<lambda>i. if i = 0 then 2 else 0), tw_next = 1, tw_world = v\<rparr>"
  have way: "under_way [Data 3] (concat (map pushed_of ?ops)) = [?m]" by (simp add: under_way_def signals_def)
  have run: "?run = Some (Ok (), [Data 3], tw_world w)" using r by (simp only: w_def tracked.simps)
  have alone: "\<forall>s. Flush s \<in> set (under_way [Data 3] (concat (map pushed_of ?ops))) \<longrightarrow> t_origin s \<noteq> ''f''" unfolding way by simp
  have t: "?t = \<lparr>t_origin = ''f'', t_id = tw_next w\<rparr>" by (simp add: w_def)
  note T = line_flush_returns [OF run _ refl alone t, of line_flush "\<lambda>_ _ c. c"]
  have "\<exists>w'. line_flush (pipe_push (\<lambda>_ _ c. c)) (pipe_read (\<lambda>_ _ c. c) (\<lambda>_. add_one) 1) ''f'' w =
      Some (Ok (List.map_filter message_data [Data 6, ?m]), w')"
    using T [THEN conjunct2, THEN mp, THEN spec [of _ "[Data 6, ?m]"], THEN spec [of _ v'], THEN mp] d
    by (auto simp only: way keeps_count_def w_def tracked.simps) (simp add: numeral_2_eq_2)
  then obtain w' where "line_flush (pipe_push (\<lambda>_ _ c. c)) (pipe_read (\<lambda>_ _ c. c) (\<lambda>_. add_one) 1) ''f'' w = Some (Ok [6], w')"
    by (auto simp: List.map_filter_simps)
  moreover from T [THEN conjunct1] this have "tw_active w' 1 = 0" by fastforce
  moreover have "tw_next w = 1" by (simp add: w_def)
  ultimately show ?thesis using run by blast
qed

end
