(* ===== verification/Timed_Queues.thy ===== *)
theory Timed_Queues
  imports Future_Queues Timers
begin

text \<open>
  Waits with a timeout on the queues of an async routine (\<open>send_with_timeout\<close> of
  src/poll/future/output/sender.rs, \<open>recv_with_timeout\<close> of src/poll/future/input/receiver.rs): one poll of the
  wait on the queue inside one poll of its deadline. The timers are the node's, so a timed wait that is the
  last thing a future waits for re-polls it.
\<close>

section \<open>The polls\<close>

fun transpose :: "'a res option \<Rightarrow> 'a option res" where
  "transpose None = Ok None"
| "transpose (Some (Ok x)) = Ok (Some x)"
| "transpose (Some (Err e)) = Err e"

definition map_poll :: "('a \<Rightarrow> 'b) \<Rightarrow> 'a poll \<Rightarrow> 'b poll" where
  "map_poll g p = (case p of Pending \<Rightarrow> Pending | PReady x \<Rightarrow> PReady (g x))"

text \<open>\<open>send_with_timeout\<close>: the item in place while the send is pending, and the deadline.\<close>

record 'o timed_send =
  td_item :: "'o option"
  td_wait :: timed_wait

definition timed_send_new :: "nat \<Rightarrow> nat \<Rightarrow> nat \<Rightarrow> 'o \<Rightarrow> nat \<Rightarrow> 'o timed_send" where
  "timed_send_new last_instant unit now y timeout =
     \<lparr>td_item = Some y, td_wait = timed_wait_after last_instant unit now timeout\<rparr>"

definition timed_send_poll ::
  "node_id \<Rightarrow> nat \<Rightarrow> waker \<Rightarrow> waker \<Rightarrow> 'o timed_send \<Rightarrow> 'o outq \<Rightarrow> deadline_heap \<Rightarrow>
   'o option res poll \<times> 'o timed_send \<times> 'o outq \<times> deadline_heap \<times> wake list" where
  "timed_send_poll nid now k home s q h =
     (case outq_send k home (td_item s) q of
        ((wait, item), q', ws) \<Rightarrow>
          (case timed_wait_poll nid now wait (td_wait s) h of
             (p, d, h') \<Rightarrow>
               (case p of
                  PReady (Some sent) \<Rightarrow> (PReady (map_result (\<lambda>_. None) sent), \<lparr>td_item = item, td_wait = d\<rparr>, q', h', ws)
                | PReady None \<Rightarrow> (PReady (Ok item), \<lparr>td_item = None, td_wait = d\<rparr>, q', h', ws)
                | Pending \<Rightarrow> (Pending, \<lparr>td_item = item, td_wait = d\<rparr>, q', h', ws))))"

text \<open>\<open>recv_with_timeout\<close>: its state is the deadline.\<close>

definition timed_recv_new :: "nat \<Rightarrow> nat \<Rightarrow> nat \<Rightarrow> nat \<Rightarrow> timed_wait" where
  "timed_recv_new last_instant unit now timeout = timed_wait_after last_instant unit now timeout"

definition timed_recv_poll ::
  "node_id \<Rightarrow> nat \<Rightarrow> waker \<Rightarrow> waker \<Rightarrow> timed_wait \<Rightarrow> 'i inq \<Rightarrow> deadline_heap \<Rightarrow>
   'i item option res poll \<times> timed_wait \<times> 'i inq \<times> deadline_heap \<times> wake list" where
  "timed_recv_poll nid now k home d q h =
     (case inq_recv k home q of
        (wait, q', ws) \<Rightarrow>
          (case timed_wait_poll nid now wait d h of
             (p, d', h') \<Rightarrow> (map_poll transpose p, d', q', h', ws)))"

section \<open>What one poll does\<close>

text \<open>A send is either queued and answered, or handed back past its deadline, or still in place.\<close>

lemma timed_send_poll_cases:
  assumes "timed_send_poll nid now k home s q h = (p, s', q', h', ws)" and "td_item s = Some y"
  obtains (queued) "p = PReady (Ok None)" "td_item s' = None" "oq_buffer q' = oq_buffer q @ [y]"
  | (expired) "p = PReady (Ok (Some y))" "td_item s' = None" "oq_buffer q' = oq_buffer q" "dl_at (td_wait s) \<le> now"
  | (pending) "p = Pending" "td_item s' = Some y" "oq_buffer q' = oq_buffer q" "now < dl_at (td_wait s)"
      "dl_at (td_wait s') = dl_at (td_wait s)"
  using assms
  by (cases "dl_armed (td_wait s)"; cases "outq_full q"; cases "dl_at (td_wait s) \<le> now")
    (auto simp: timed_send_poll_def outq_send_def outq_try_send_def timed_wait_poll_def Let_def split: prod.splits)

text \<open>A receive pops one item and answers it, or pops nothing.\<close>

lemma timed_recv_poll_cases:
  assumes "timed_recv_poll nid now k home d q h = (p, d', q', h', ws)"
  obtains (got) item where "p = PReady (Ok (Some item))" "iq_buffer q = item # iq_buffer q'" "\<not> iq_closed q"
      "iq_closed q' = (item = IFlush)"
  | (closed) "p = PReady (Err Closed)" "iq_closed q" "q' = q"
  | (expired) "p = PReady (Ok None)" "iq_buffer q = []" "iq_buffer q' = []" "\<not> iq_closed q" "\<not> iq_closed q'" "dl_at d \<le> now"
  | (pending) "p = Pending" "iq_buffer q = []" "iq_buffer q' = []" "\<not> iq_closed q" "\<not> iq_closed q'" "now < dl_at d" "dl_at d' = dl_at d"
  using assms
  by (cases "dl_armed d"; cases "iq_closed q"; cases "iq_buffer q"; cases "dl_at d \<le> now")
    (auto simp: timed_recv_poll_def inq_recv_def timed_wait_poll_def map_poll_def Let_def split: prod.splits if_splits)

section \<open>Timed sends and the node\<close>

text \<open>How far a timed wait has come; one that ended is not polled again.\<close>

datatype 'a wait_end = Waiting | Answered "'a res" | Dropped

definition ended :: "'a res poll \<Rightarrow> 'a wait_end" where
  "ended p = (case p of Pending \<Rightarrow> Waiting | PReady a \<Rightarrow> Answered a)"

lemma ended_simps [simp]: "ended Pending = Waiting" "ended (PReady a) = Answered a"
  by (simp_all add: ended_def)

text \<open>Any number of timed sends on one output queue, each with what it was given; what the node popped; which
  sends were queued, in order. \<open>STimers\<close>: what the rest of the thread does to the timers.\<close>

record 'o send_sys =
  ty_sends :: "('o \<times> 'o timed_send \<times> 'o option wait_end) list"
  ty_queue :: "'o outq"
  ty_timers :: deadline_heap
  ty_popped :: "'o list"
  ty_queued :: "nat list"

datatype 'o send_step =
    SNew nat nat nat 'o nat
  | SPoll nat nat waker
  | SDrop nat
  | SPop
  | STimers "deadline_heap \<Rightarrow> deadline_heap"

definition send_poll_at :: "node_id \<Rightarrow> waker \<Rightarrow> nat \<Rightarrow> nat \<Rightarrow> waker \<Rightarrow> 'o send_sys \<Rightarrow> 'o send_sys" where
  "send_poll_at nid home i now k y =
     (case ty_sends y ! i of
        (v, s, Waiting) \<Rightarrow>
          (case timed_send_poll nid now k home s (ty_queue y) (ty_timers y) of
             (p, s', q, h, ws) \<Rightarrow>
               y\<lparr>ty_sends := (ty_sends y)[i := (v, s', ended p)], ty_queue := q, ty_timers := h,
                 ty_queued := ty_queued y @ (if p = PReady (Ok None) then [i] else [])\<rparr>)
      | _ \<Rightarrow> y)"

definition send_drop_at :: "nat \<Rightarrow> 'o send_sys \<Rightarrow> 'o send_sys" where
  "send_drop_at i y =
     (case ty_sends y ! i of
        (v, s, Waiting) \<Rightarrow>
          y\<lparr>ty_sends := (ty_sends y)[i := (v, s\<lparr>td_item := None\<rparr>, Dropped)],
            ty_timers := timed_wait_drop (td_wait s) (ty_timers y)\<rparr>
      | _ \<Rightarrow> y)"

fun send_exec :: "node_id \<Rightarrow> waker \<Rightarrow> 'o send_step \<Rightarrow> 'o send_sys \<Rightarrow> 'o send_sys" where
  "send_exec nid home (SNew last_instant unit now v timeout) y =
     y\<lparr>ty_sends := ty_sends y @ [(v, timed_send_new last_instant unit now v timeout, Waiting)]\<rparr>"
| "send_exec nid home (SPoll i now k) y = (if i < length (ty_sends y) then send_poll_at nid home i now k y else y)"
| "send_exec nid home (SDrop i) y = (if i < length (ty_sends y) then send_drop_at i y else y)"
| "send_exec nid home SPop y =
     (case outq_pop (ty_queue y) of
        (r, q, ws) \<Rightarrow> y\<lparr>ty_queue := q, ty_popped := ty_popped y @ (case r of Ok (Some v) \<Rightarrow> [v] | _ \<Rightarrow> [])\<rparr>)"
| "send_exec nid home (STimers g) y = y\<lparr>ty_timers := g (ty_timers y)\<rparr>"

definition send_start :: "bound \<Rightarrow> deadline_heap \<Rightarrow> 'o send_sys" where
  "send_start b h = \<lparr>ty_sends = [], ty_queue = outq_new b, ty_timers = h, ty_popped = [], ty_queued = []\<rparr>"

text \<open>A send that waits holds its item; one that answered queued it or gave it back.\<close>

fun send_fate :: "nat list \<Rightarrow> nat \<Rightarrow> 'o \<times> 'o timed_send \<times> 'o option wait_end \<Rightarrow> bool" where
  "send_fate queued i (v, s, Waiting) \<longleftrightarrow> td_item s = Some v \<and> i \<notin> set queued"
| "send_fate queued i (v, s, Answered (Ok None)) \<longleftrightarrow> i \<in> set queued"
| "send_fate queued i (v, s, Answered (Ok (Some u))) \<longleftrightarrow> u = v \<and> i \<notin> set queued"
| "send_fate queued i (v, s, Answered (Err e)) \<longleftrightarrow> False"
| "send_fate queued i (v, s, Dropped) \<longleftrightarrow> i \<notin> set queued"

definition sends_ok :: "'o send_sys \<Rightarrow> bool" where
  "sends_ok y \<longleftrightarrow>
     ty_popped y @ oq_buffer (ty_queue y) = map (\<lambda>i. fst (ty_sends y ! i)) (ty_queued y) \<and>
     distinct (ty_queued y) \<and> set (ty_queued y) \<subseteq> {..<length (ty_sends y)} \<and>
     (\<forall>i < length (ty_sends y). send_fate (ty_queued y) i (ty_sends y ! i))"

lemma send_fate_other: "i \<noteq> j \<Longrightarrow> send_fate (queued @ [j]) i x = send_fate queued i x"
  by (induction queued i x rule: send_fate.induct) auto

lemma sends_ok_update:
  assumes y: "sends_ok y" and i: "i < length (ty_sends y)" and s: "ty_sends y ! i = (v, s, a)"
    and y': "ty_sends y' = (ty_sends y)[i := (v, s', a')]" "ty_queued y' = ty_queued y" "ty_popped y' = ty_popped y"
      "oq_buffer (ty_queue y') = oq_buffer (ty_queue y)"
    and f: "send_fate (ty_queued y) i (v, s', a')"
  shows "sends_ok y'"
proof -
  have "map (\<lambda>j. fst ((ty_sends y)[i := (v, s', a')] ! j)) (ty_queued y) = map (\<lambda>j. fst (ty_sends y ! j)) (ty_queued y)"
    using i s by (intro map_cong) (auto simp: nth_list_update)
  with y y' f i show ?thesis by (auto simp: sends_ok_def nth_list_update)
qed

lemma send_poll_at_ok:
  assumes y: "sends_ok y" and i: "i < length (ty_sends y)"
  shows "sends_ok (send_poll_at nid home i now k y)"
proof -
  obtain v s a where s: "ty_sends y ! i = (v, s, a)" by (cases "ty_sends y ! i")
  show ?thesis
  proof (cases a)
    case Waiting
    with y i s have it: "td_item s = Some v" "i \<notin> set (ty_queued y)" by (auto simp: sends_ok_def)
    obtain p s' q h ws where p: "timed_send_poll nid now k home s (ty_queue y) (ty_timers y) = (p, s', q, h, ws)"
      by (cases "timed_send_poll nid now k home s (ty_queue y) (ty_timers y)")
    let ?y = "y\<lparr>ty_sends := (ty_sends y)[i := (v, s', ended p)], ty_queue := q, ty_timers := h,
                ty_queued := ty_queued y @ (if p = PReady (Ok None) then [i] else [])\<rparr>"
    have e: "send_poll_at nid home i now k y = ?y" using s Waiting p by (simp add: send_poll_at_def)
    from p it(1) show ?thesis
    proof (cases rule: timed_send_poll_cases)
      case queued
      have m: "map (\<lambda>j. fst ((ty_sends y)[i := (v, s', ended p)] ! j)) (ty_queued y) = map (\<lambda>j. fst (ty_sends y ! j)) (ty_queued y)"
        using i s by (intro map_cong) (auto simp: nth_list_update)
      have "send_fate (ty_queued y @ [i]) j ((ty_sends y)[i := (v, s', ended p)] ! j)" if "j < length (ty_sends y)" for j
        using y that queued i by (cases "j = i") (auto simp: sends_ok_def send_fate_other)
      with y queued m i it(2) show ?thesis unfolding e by (auto simp: sends_ok_def)
    next
      case expired
      show ?thesis unfolding e
        by (rule sends_ok_update [OF y i s]) (use expired it(2) in \<open>simp+\<close>)
    next
      case pending
      show ?thesis unfolding e
        by (rule sends_ok_update [OF y i s]) (use pending it(2) in \<open>simp+\<close>)
    qed
  qed (use y s in \<open>simp_all add: send_poll_at_def\<close>)
qed

lemma send_drop_at_ok:
  assumes y: "sends_ok y" and i: "i < length (ty_sends y)"
  shows "sends_ok (send_drop_at i y)"
proof -
  obtain v s a where s: "ty_sends y ! i = (v, s, a)" by (cases "ty_sends y ! i")
  show ?thesis
  proof (cases a)
    case Waiting
    with y i s have it: "i \<notin> set (ty_queued y)" by (auto simp: sends_ok_def)
    show ?thesis
      by (rule sends_ok_update [OF y i s]) (use s Waiting it in \<open>simp add: send_drop_at_def\<close>)+
  qed (use y s in \<open>simp_all add: send_drop_at_def\<close>)
qed

lemma send_exec_ok:
  assumes y: "sends_ok y"
  shows "sends_ok (send_exec nid home st y)"
proof (cases st)
  case (SNew last_instant unit now v timeout)
  have "map (\<lambda>i. fst ((ty_sends y @ [x]) ! i)) (ty_queued y) = map (\<lambda>i. fst (ty_sends y ! i)) (ty_queued y)" for x
    using y by (intro map_cong) (auto simp: sends_ok_def nth_append)
  with y SNew show ?thesis
    by (auto simp: sends_ok_def nth_append less_Suc_eq timed_send_new_def)
next
  case SPop
  with y show ?thesis
    by (cases "oq_buffer (ty_queue y)") (auto simp: sends_ok_def outq_pop_def waiters_take_def)
next
  case (STimers g)
  with y show ?thesis by (simp add: sends_ok_def)
qed (use send_poll_at_ok [OF y] send_drop_at_ok [OF y] y in auto)

section \<open>Timed receives and the node\<close>

text \<open>Timed receives on one segment's input queue; what the node put in, and who received what, in order.\<close>

record 'i recv_sys =
  tz_recvs :: "(timed_wait \<times> 'i item option wait_end) list"
  tz_queue :: "'i inq"
  tz_timers :: deadline_heap
  tz_put :: "'i item list"
  tz_got :: "(nat \<times> 'i item) list"

datatype 'i recv_step =
    RNew nat nat nat nat
  | RPoll nat nat waker
  | RDrop nat
  | RPut 'i
  | RFlush
  | RTimers "deadline_heap \<Rightarrow> deadline_heap"

definition recv_poll_at :: "node_id \<Rightarrow> waker \<Rightarrow> nat \<Rightarrow> nat \<Rightarrow> waker \<Rightarrow> 'i recv_sys \<Rightarrow> 'i recv_sys" where
  "recv_poll_at nid home i now k y =
     (case tz_recvs y ! i of
        (d, Waiting) \<Rightarrow>
          (case timed_recv_poll nid now k home d (tz_queue y) (tz_timers y) of
             (p, d', q, h, ws) \<Rightarrow>
               y\<lparr>tz_recvs := (tz_recvs y)[i := (d', ended p)], tz_queue := q, tz_timers := h,
                 tz_got := tz_got y @ (case p of PReady (Ok (Some it)) \<Rightarrow> [(i, it)] | _ \<Rightarrow> [])\<rparr>)
      | _ \<Rightarrow> y)"

definition recv_drop_at :: "nat \<Rightarrow> 'i recv_sys \<Rightarrow> 'i recv_sys" where
  "recv_drop_at i y =
     (case tz_recvs y ! i of
        (d, Waiting) \<Rightarrow> y\<lparr>tz_recvs := (tz_recvs y)[i := (d, Dropped)], tz_timers := timed_wait_drop d (tz_timers y)\<rparr>
      | _ \<Rightarrow> y)"

fun recv_exec :: "node_id \<Rightarrow> waker \<Rightarrow> 'i recv_step \<Rightarrow> 'i recv_sys \<Rightarrow> 'i recv_sys" where
  "recv_exec nid home (RNew last_instant unit now timeout) y =
     y\<lparr>tz_recvs := tz_recvs y @ [(timed_recv_new last_instant unit now timeout, Waiting)]\<rparr>"
| "recv_exec nid home (RPoll i now k) y = (if i < length (tz_recvs y) then recv_poll_at nid home i now k y else y)"
| "recv_exec nid home (RDrop i) y = (if i < length (tz_recvs y) then recv_drop_at i y else y)"
| "recv_exec nid home (RPut x) y =
     (case inq_try_send x (tz_queue y) of
        (a, q, ws) \<Rightarrow> y\<lparr>tz_queue := q, tz_put := tz_put y @ (if a = Ok Accepted then [IData x] else [])\<rparr>)"
| "recv_exec nid home RFlush y =
     (case inq_flush (tz_queue y) of (a, q, ws) \<Rightarrow> y\<lparr>tz_queue := q, tz_put := tz_put y @ [IFlush]\<rparr>)"
| "recv_exec nid home (RTimers g) y = y\<lparr>tz_timers := g (tz_timers y)\<rparr>"

definition recv_start :: "bound \<Rightarrow> deadline_heap \<Rightarrow> 'i recv_sys" where
  "recv_start b h = \<lparr>tz_recvs = [], tz_queue = inq_new b, tz_timers = h, tz_put = [], tz_got = []\<rparr>"

definition recvs_ok :: "'i recv_sys \<Rightarrow> bool" where
  "recvs_ok y \<longleftrightarrow>
     tz_put y = map snd (tz_got y) @ iq_buffer (tz_queue y) \<and>
     distinct (map fst (tz_got y)) \<and>
     (\<forall>i it. (i, it) \<in> set (tz_got y) \<longleftrightarrow> i < length (tz_recvs y) \<and> snd (tz_recvs y ! i) = Answered (Ok (Some it))) \<and>
     (\<exists>xs. map snd (tz_got y) = map IData xs @ (if iq_closed (tz_queue y) then [IFlush] else []))"

lemma recvs_ok_update:
  assumes y: "recvs_ok y" and i: "i < length (tz_recvs y)" and w: "snd (tz_recvs y ! i) = Waiting"
    and y': "tz_recvs y' = (tz_recvs y)[i := (d, a)]" "tz_got y' = tz_got y" "tz_put y' = tz_put y"
      "iq_buffer (tz_queue y') = iq_buffer (tz_queue y)" "iq_closed (tz_queue y') = iq_closed (tz_queue y)"
    and a: "\<forall>it. a \<noteq> Answered (Ok (Some it))"
  shows "recvs_ok y'"
  using assms by (auto simp: recvs_ok_def nth_list_update)

lemma recv_poll_at_ok:
  assumes y: "recvs_ok y" and i: "i < length (tz_recvs y)"
  shows "recvs_ok (recv_poll_at nid home i now k y)"
proof -
  obtain d a where s: "tz_recvs y ! i = (d, a)" by (cases "tz_recvs y ! i")
  show ?thesis
  proof (cases a)
    case Waiting
    with s have w: "snd (tz_recvs y ! i) = Waiting" by simp
    obtain p d' q h ws where p: "timed_recv_poll nid now k home d (tz_queue y) (tz_timers y) = (p, d', q, h, ws)"
      by (cases "timed_recv_poll nid now k home d (tz_queue y) (tz_timers y)")
    have e: "recv_poll_at nid home i now k y =
        y\<lparr>tz_recvs := (tz_recvs y)[i := (d', ended p)], tz_queue := q, tz_timers := h,
          tz_got := tz_got y @ (case p of PReady (Ok (Some it)) \<Rightarrow> [(i, it)] | _ \<Rightarrow> [])\<rparr>"
      using s Waiting p by (simp add: recv_poll_at_def)
    from p show ?thesis
    proof (cases rule: timed_recv_poll_cases)
      case (got it)
      have n: "i \<notin> fst ` set (tz_got y)" using y w i by (auto simp: recvs_ok_def)
      from y got(3) obtain xs where xs: "map snd (tz_got y) = map IData xs" by (auto simp: recvs_ok_def)
      have "\<exists>zs. map snd (tz_got y) @ [it] = map IData zs @ (if it = IFlush then [IFlush] else [])"
      proof (cases it)
        case (IData x)
        then show ?thesis using xs by (intro exI [of _ "xs @ [x]"]) simp
      qed (use xs in auto)
      with y got n i w show ?thesis unfolding e by (auto simp: recvs_ok_def nth_list_update)
    next
      case closed
      show ?thesis unfolding e by (rule recvs_ok_update [OF y i w]) (use closed in \<open>simp+\<close>)
    next
      case expired
      show ?thesis unfolding e by (rule recvs_ok_update [OF y i w]) (use expired in \<open>simp+\<close>)
    next
      case pending
      show ?thesis unfolding e by (rule recvs_ok_update [OF y i w]) (use pending in \<open>simp+\<close>)
    qed
  qed (use y s in \<open>simp_all add: recv_poll_at_def\<close>)
qed

lemma recv_exec_ok:
  assumes y: "recvs_ok y"
  shows "recvs_ok (recv_exec nid home st y)"
proof (cases st)
  case (RDrop i)
  have "recvs_ok (recv_drop_at i y)" if i: "i < length (tz_recvs y)"
  proof (cases "snd (tz_recvs y ! i)")
    case Waiting
    then obtain d where "tz_recvs y ! i = (d, Waiting)" by (cases "tz_recvs y ! i") auto
    then show ?thesis by (intro recvs_ok_update [OF y i Waiting]) (simp add: recv_drop_at_def)+
  qed (use y in \<open>cases "tz_recvs y ! i"; simp add: recv_drop_at_def\<close>)+
  with y RDrop show ?thesis by simp
next
  case (RPoll i now k)
  with y recv_poll_at_ok [OF y] show ?thesis by auto
qed (use y in
  \<open>auto simp: recvs_ok_def nth_append less_Suc_eq inq_try_send_def inq_flush_def waiters_take_def split: if_splits\<close>)

section \<open>Nothing is lost to a timeout\<close>

text \<open>C34. Waiting with a timeout loses and doubles nothing, however many waits share a queue, whatever instants
  they are polled at, dropped or answered, and whatever else happens to the timers. Sends: what the node popped
  and what is queued is what the sends that answered \<open>None\<close> were given, each once, in the order they were
  queued; every other send still holds its item, or answered with its own item, or was dropped; none fails.
  Receives: what was received and what is queued is what the node put in, in order, each item received by
  exactly the one wait that answered it, and nothing after the Flush; and a wait that answered nothing received
  nothing.\<close>

theorem timed_waits_lose_nothing:
  "let y = fold (send_exec nid home) sts (send_start b h); z = fold (recv_exec nid home) rts (recv_start c g)
   in ty_popped y @ oq_buffer (ty_queue y) = map (\<lambda>i. fst (ty_sends y ! i)) (ty_queued y) \<and>
      distinct (ty_queued y) \<and> list_all2 (send_fate (ty_queued y)) [0..<length (ty_sends y)] (ty_sends y) \<and>
      tz_put z = map snd (tz_got z) @ iq_buffer (tz_queue z) \<and> distinct (map fst (tz_got z)) \<and>
      set (tz_got z) = {(i, it). i < length (tz_recvs z) \<and> snd (tz_recvs z ! i) = Answered (Ok (Some it))} \<and>
      (\<exists>xs. map snd (tz_got z) = map IData xs @ (if iq_closed (tz_queue z) then [IFlush] else []))"
proof -
  have y: "sends_ok y \<Longrightarrow> sends_ok (fold (send_exec nid home) sts y)" for y
    by (induction sts arbitrary: y) (auto intro: send_exec_ok)
  have z: "recvs_ok z \<Longrightarrow> recvs_ok (fold (recv_exec nid home) rts z)" for z
    by (induction rts arbitrary: z) (auto intro: recv_exec_ok)
  have "sends_ok (send_start b h)" "recvs_ok (recv_start c g)"
    by (simp_all add: sends_ok_def send_start_def outq_new_def recvs_ok_def recv_start_def inq_new_def)
  with y z have y: "sends_ok (fold (send_exec nid home) sts (send_start b h))"
    and z: "recvs_ok (fold (recv_exec nid home) rts (recv_start c g))" by blast+
  show ?thesis unfolding Let_def
    using y z by (auto simp: sends_ok_def recvs_ok_def list_all2_conv_all_nth)
qed

end
