(* ===== verification/Spec2Isabelle.thy ===== *)
theory Spec2Isabelle
  imports Sync_System Sync_Threads Waking_Edge Poll_Edge Fanout Follow_Policy Signal_Io
    Work_Node Line_Work Biunion_Work Bifurcation_Work Future_Routine Biunion_Future Timers Poll_Scheduler Work_Stream Bundle Poll_Thread Pull Network_Built Combinators Pipeline_Close Pipeline_Flush Timed_Queues
begin

text \<open>
  areamy is a library for streaming graphs: nodes connected by edges that carry data messages and in-band
  signals (\<open>Flush\<close>, \<open>Marker\<close>). Three paradigms share the edges: work nodes, run in rounds by the thread that
  owns them (src/work, node/line/work, node/biunion/work, node/bifurcation/work); poll nodes, run by a poll
  thread when something woke them (src/poll, node/line/poll, node/biunion/poll); and pull chains
  (src/pull, node/line/pull). This development models what the paradigms run on, the nodes, the threads
  that drive them and the builders that wire them, and states what each promises the others. Paths below are
  relative to src/src unless they start with src.

  How the parts interact. A producer pushes into an edge through a sender; a refusal (\<open>Full\<close>) hands the
  message back and obliges the edge to wake the producer's scheduled waker when room frees. A node takes a
  message from its input, offers it to a routine of user code, and sends what the routine produces through its
  output, a fan-out over several edges or a single edge, which holds a refused message until it is delivered.
  A poll node is three or four phases over one shared state; phases and edges wake node ids, the scheduler
  queues those ids, and the poll thread polls them. Threads run one of the loops, fire exit callbacks, and
  are bundled under a first-error latch.

  Theories, in the order the code's layers have:

  \<^item> Areamy_Prelude: results, bounds, wakers, 64-bit words, the \<open>loop\<close> combinator (a body iterated until it
    answers; \<open>None\<close> is a loop that does not return) with its invariant and termination rules, and facts
    on lists that the components share.
  \<^item> Core: errors (error/core.rs), messages (message.rs), the answers of a push and of a routine.
  \<^item> Edge_Interfaces: the contracts of an edge as locales: non-blocking push, pop, FIFO, bounded, refusing.
    Sync_System and Poll_Edge interpret them on the two edges.
  \<^item> Sync_Edge, Sync_System, Sync_Threads: the mutex and condvar edge (edge/sync). Sync_Edge has every
    critical section as a function on \<open>Inner\<close>; Sync_System any sequence of the non-blocking operations by any
    number of handles; Sync_Threads a step relation of threads that block and notify.
  \<^item> Waking_Edge (edge/waking.rs) and Poll_Edge (poll/edge/poll.rs, null.rs): the edge into a poll thread, and
    the edge inside one.
  \<^item> Sinks, Fanout, Follow_Policy: a node's outputs (work/sink.rs, poll/sink.rs, edge/fanout.rs, edge/single.rs,
    edge/rotate.rs) and the policy of side paths (edge/policy.rs).
  \<^item> Signal_Io: reference-counted signals and the synchronous front ends (signal, node/*/io.rs).
  \<^item> Work_Node, Line_Work, Biunion_Work, Bifurcation_Work: the work nodes; Pull: the pull chain and the work node
    that drives one (node/line/pull, writer/pull.rs, reader/pull, work/pulled.rs).
  \<^item> Work_Round, Pipeline, Pipeline_Close, Pipeline_Flush: what a round of a line keeps, also one that fails; lines in a row owned
    by \<open>via\<close> between a writer and a reader (work/via.rs, writer/push.rs, reader/work), sessions of pushes and
    reads, closing (also when a routine reports \<open>Closed\<close> itself), and flushing through the front end of Signal_Io.
  \<^item> Poll_Node, Poll_Line, Poll_Biunion: the phases of poll nodes (node/poll, node/line/poll/node,
    node/biunion/poll/node).
  \<^item> Future_Queues, Future_Routine, Biunion_Future: async functions as routines (poll/future,
    node/line/poll/future, node/biunion/poll/future.rs).
  \<^item> Timed_Queues: sends and receives with a timeout on those queues.
  \<^item> Timers, Treiber_Stack, Poll_Scheduler: timers (poll/timer), the lock-free stack and the parker
    (poll/scheduler/treiber, wake/parker.rs), and the scheduler with all its threads (poll/scheduler).
  \<^item> Poll_Graph, Poll_Builder, Poll_Wiring, Poll_Thread: the graph under construction (poll/graph), the builders
    and what they build (node/*/poll/builder, poll/input), what any wiring gives, and the poll loop
    (poll/thread.rs).
  \<^item> Poll_Network, Network_Run, Network_Live, Network_Built: a built graph of line nodes run as a whole. Poll_Network has
    the run: every phase of every node polled in any order, the rest of the program in between, wakes delivered,
    nodes dropped when their phases have ended (poll/thread.rs), and fan-in (graph/inlet/receivable). Network_Run
    has what any run keeps of each node, Network_Live what that says of the network, and Network_Built carries it
    to every wiring of line nodes that a program can make.
  \<^item> Threads, Work_Stream, Bundle: spawns, exits and joins (thread), the work loop (work/stream.rs), the bundle
    and its first-error latch (thread/bundle).
  \<^item> Combinators: joining and racing futures (poll/try_join.rs, poll/race.rs).

  How state and operations correspond. A struct is a record with the source's fields, an enum a datatype, a
  method a function from the state it borrows to its result and the new state; what a method does after it
  unlocked (notifying, waking) is a list of effects in the code's order. A fallible method returns
  \<open>'a res\<close>, every \<open>?\<close> a case. A blocking call is \<open>None\<close> when it blocks for ever; where other threads can
  unblock it they are an environment argument or a step relation. User code is an argument: a routine is a
  record of functions on its state, a parent or a sink a handle with its operations, a future the tree of queue
  operations one poll of it makes. Type parameters that only restrict which methods exist (the builders'
  edge kinds) are a missing case, \<open>None\<close>.

  What the groups of lemmas show. Edges: nothing is lost, duplicated or reordered, the bound holds, every
  refusal is answered by one wake, no interleaving strands a parked thread, and a close is seen after what was
  queued. Outputs: each edge gets what was sent, in order, up to the one message held. Nodes: over any run, the
  outputs are what the routine makes of what was taken (\<open>transduces\<close>, \<open>splits\<close>, \<open>conducts\<close>, \<open>pulls\<close> are the
  references), every signal goes through once and behind the data before it, and for the poll nodes what can
  happen next has a phase woken or a wake owed. A network of poll lines hands on, node to node, exactly what the
  routines send, and never stops while a node has something to do, unless a routine or another thread's edge
  holds it up. A pipeline of work lines reads what its routines make of what was
  pushed, in order and a prefix at worst; it hears \<open>Closed\<close> only when it has read everything, or everything sent by the
  last stage whose routine reported \<open>Closed\<close> itself; and a flush returns, with its own signal and no reference left,
  all that the routines make of what was pushed before it. Async routines: a parked future or node is always owed a
  wake, and segments end where the future of a segment returned. Timers refine a sorted list of live timers. The
  scheduler never sleeps on a queued id. Builders wire what they were told to. Threads: loops end as they
  should, callbacks fire once with the right outcome.

  Bounds and fuel. Loops of the code are \<open>loop\<close>, so no fuel is needed and returning is proved where it is
  claimed (the work thread's loop, the drain loops). Rounds of nodes are counted by an argument that is universally
  quantified. A poll phase takes at most its budget of messages per poll, as in the code (BUDGET). The
  generation counter of the timers is a 64-bit word and their refinement asks for fewer than \<open>2 ^ 64\<close>
  operations; other counters of the code are \<open>usize\<close> and natural numbers here.

  A pipeline runs on one thread: a push or a wait that nothing on it can end blocks, and is \<open>None\<close>.

  A network of poll nodes is run as a whole when all its nodes are lines; biunion nodes are built, wired and
  modelled one by one. Which phase the scheduler polls next is left open, so its theorems hold for any order.

  Not modelled, and why. The memory orderings of atomics (steps are sequentially consistent) and poisoning of
  mutexes. The operating system's thread creation (its outcome is an argument). Logging, and where
  an error was made and its backtrace (only \<open>Display\<close> reads them). The connection traits, \<open>at\<close>,
  \<open>add\<close>, \<open>get\<close>, the marker types of src/src/graph and src/src/typing and the macros: they exist for type
  inference and compile to moves and boxes. Tests, mocks, benches and examples.
\<close>

end
